(* ===== verification/Prelude.thy ===== *)
theory Prelude
  imports Main "HOL-Library.Word"
begin

text \<open>
  Shared vocabulary of the development: the C integer types of the sources, the rule
  collections the component theories fill, and generic facts on lists and words.

  Conventions used everywhere:
  \<^item> a C object is a record, an enum a datatype, an array a list with an explicit range test;
  \<^item> \<open>None\<close> as the result of an operation of type \<open>_ option\<close> stands for behaviour
    the C standard leaves undefined (an access outside an array, a null dereference) or for a
    loop that never ends; the properties prove that the result is \<open>Some\<close>;
  \<^item> unsigned C integers whose wrap-around matters are words; indices that are never computed
    with are natural numbers.
\<close>

type_synonym u8 = "8 word"
type_synonym u16 = "16 word"
type_synonym u32 = "32 word"
type_synonym u64 = "64 word"

named_theorems arb_defs \<open>definitions of the memory arbiters\<close>
named_theorems hv_defs \<open>definitions of the other hypervisor components\<close>
named_theorems ker_defs \<open>definitions of the ERIKA kernel model\<close>
named_theorems dprem_defs \<open>definitions of the DPREM layer\<close>

subsection \<open>Array accesses\<close>

text \<open>A read and a write of a C array; outside the array the result is \<open>None\<close>.\<close>

definition arr_get :: "'a list \<Rightarrow> nat \<Rightarrow> 'a option" where
  "arr_get xs i = (if i < length xs then Some (xs ! i) else None)"

definition arr_set :: "'a list \<Rightarrow> nat \<Rightarrow> 'a \<Rightarrow> 'a list option" where
  "arr_set xs i v = (if i < length xs then Some (xs[i := v]) else None)"

lemma arr_get_in [simp]: "i < length xs \<Longrightarrow> arr_get xs i = Some (xs ! i)"
  by (simp add: arr_get_def)

lemma arr_get_Some_iff: "arr_get xs i = Some v \<longleftrightarrow> i < length xs \<and> v = xs ! i"
  by (auto simp: arr_get_def)

lemma arr_set_in [simp]: "i < length xs \<Longrightarrow> arr_set xs i v = Some (xs[i := v])"
  by (simp add: arr_set_def)

lemma arr_set_Some_iff: "arr_set xs i v = Some ys \<longleftrightarrow> i < length xs \<and> ys = xs[i := v]"
  by (auto simp: arr_set_def)

lemma arr_get_set_roundtrip: "arr_set xs i v = Some ys \<Longrightarrow> arr_get ys i = Some v"
  by (auto simp: arr_set_def arr_get_def split: if_splits)

subsection \<open>Lists\<close>

lemma nth_list_update_if: "i < length xs \<Longrightarrow> xs[j := v] ! i = (if i = j then v else xs ! i)"
  by auto

lemma distinct_filter_hd: "distinct xs \<Longrightarrow> xs \<noteq> [] \<Longrightarrow> hd xs \<notin> set (tl xs)"
  by (cases xs) auto

subsection \<open>Words\<close>

lemma word_neq_0_gt: "(x :: 'a::len word) \<noteq> 0 \<longleftrightarrow> 0 < x"
  by (simp add: word_gt_0)

lemma unat_minus_le: "(b :: 'a::len word) \<le> a \<Longrightarrow> unat (a - b) = unat a - unat b"
  by (simp add: unat_sub)

lemma unat_ucast_mod: "unat (ucast (w :: 'a::len word) :: 'b::len word) = unat w mod 2 ^ LENGTH('b)"
  by (simp add: unsigned_ucast_eq unsigned_take_bit_eq take_bit_eq_mod)

subsection \<open>Invariants of step relations\<close>

locale step_invariant =
  fixes step :: "'s \<Rightarrow> 's \<Rightarrow> bool" and inv :: "'s \<Rightarrow> bool"
  assumes keep: "inv s \<Longrightarrow> step s s' \<Longrightarrow> inv s'"
begin

lemma reach: "step\<^sup>*\<^sup>* s s' \<Longrightarrow> inv s \<Longrightarrow> inv s'"
  by (induction rule: rtranclp_induct) (auto intro: keep)

lemma run: "(step ^^ n) s s' \<Longrightarrow> inv s \<Longrightarrow> inv s'"
  by (rule reach [OF relpowp_imp_rtranclp])

end

end
