(* ===== verification/MemoryArbiter.thy ===== *)
theory MemoryArbiter
  imports Prelude "HOL-Library.Monad_Syntax"
begin

text \<open>
  The interface between the memory arbiters of the hypervisor
  (\<^verbatim>\<open>fixed_priority.c\<close>, \<^verbatim>\<open>tdma.c\<close>) and the guests that call them: the constants of
  \<^verbatim>\<open>asm/memory_arbitration.h\<close>, the contract of an arbiter as two locales, and the
  protocol an arbiter runs with its guests. A guest keeps a status word
  (\<open>mem_arbit_status\<close> of the ERIKA core control block), changes it on the answer of its
  hypercalls and on the two virtual interrupts \<open>STARTED\<close> and \<open>ENDED\<close>; in the protocol of
  this theory interrupts travel through a queue per core and may be delivered arbitrarily late. The queue is an
  abstraction: \<open>ArbiterSignals\<close> shows when the interrupt path of the hypervisor implements it.

  \<open>memory_arbiter\<close> is what every arbiter promises: the hypercalls return, BEGIN registers
  the caller and says whether it may use the memory, END deregisters it. \<open>signalling_arbiter\<close>
  adds that the memory has one holder, that a requester never waits while the memory is free, and
  that every other core whose right changes is told by exactly the matching interrupt. The
  lemmas inside the second locale show that these laws keep every guest's status in step with the
  arbiter.
\<close>

subsection \<open>Constants of the interface\<close>

definition JAILHOUSE_MEMORY_ARBITRATION_BEGIN_MEM_PHASE :: u64 where
  "JAILHOUSE_MEMORY_ARBITRATION_BEGIN_MEM_PHASE = 1"

definition JAILHOUSE_MEMORY_ARBITRATION_END_MEM_PHASE :: u64 where
  "JAILHOUSE_MEMORY_ARBITRATION_END_MEM_PHASE = 2"

datatype arb_result = ARB_INVALID | ARB_ACK | ARB_NACK

definition SGI_MEMORY_PHASE_STARTED :: nat where
  "SGI_MEMORY_PHASE_STARTED = 13"

definition SGI_MEMORY_PHASE_ENDED :: nat where
  "SGI_MEMORY_PHASE_ENDED = 14"

text \<open>Interrupts an operation raises, as (target CPU, SGI number) in program order.\<close>

type_synonym sgi_out = "(nat \<times> nat) list"

definition sgis_for :: "nat \<Rightarrow> sgi_out \<Rightarrow> nat list" where
  "sgis_for d out = map snd (filter (\<lambda>p. fst p = d) out)"

text \<open>The interrupts a change of a core's right to the memory calls for.\<close>

definition signal :: "bool \<Rightarrow> bool \<Rightarrow> nat list" where
  "signal held holds_now =
     (if held \<and> \<not> holds_now then [SGI_MEMORY_PHASE_ENDED]
      else if \<not> held \<and> holds_now then [SGI_MEMORY_PHASE_STARTED] else [])"

datatype mem_arbit_status = MEMORY_TOKEN_NONE | MEMORY_TOKEN_REQUESTED | MEMORY_TOKEN_ACQUIRED

text \<open>The effect of the two guest interrupt routines on the status.\<close>

definition client_sgi :: "nat \<Rightarrow> mem_arbit_status \<Rightarrow> mem_arbit_status" where
  "client_sgi sgi st =
     (if sgi = SGI_MEMORY_PHASE_STARTED then
        (if st = MEMORY_TOKEN_REQUESTED then MEMORY_TOKEN_ACQUIRED else st)
      else if sgi = SGI_MEMORY_PHASE_ENDED then
        (if st = MEMORY_TOKEN_ACQUIRED then MEMORY_TOKEN_REQUESTED else st)
      else st)"

subsection \<open>The protocol of an arbiter and its guests\<close>

record 's proto =
  arb :: 's
  sgi_queue :: "nat \<Rightarrow> nat list"
  client :: "nat \<Rightarrow> mem_arbit_status"

definition post_sgis :: "sgi_out \<Rightarrow> (nat \<Rightarrow> nat list) \<Rightarrow> nat \<Rightarrow> nat list" where
  "post_sgis out q = (\<lambda>d. q d @ sgis_for d out)"

text \<open>
  A core asks for the memory when it has no request open and has taken all interrupts sent to it
  (a task leaves its previous phase through \<open>DPREM_end_execution_phase\<close>, which enables
  interrupts again); it ends a phase it began; and interrupts are taken in the order they were sent.
\<close>

inductive proto_step ::
  "(nat \<Rightarrow> 's \<Rightarrow> ('s \<times> sgi_out \<times> bool) option) \<Rightarrow> (nat \<Rightarrow> 's \<Rightarrow> ('s \<times> sgi_out) option) \<Rightarrow> nat set
     \<Rightarrow> 's proto \<Rightarrow> 's proto \<Rightarrow> bool" for begin_op end_op cores where
  proto_begin: "\<lbrakk>c \<in> cores; client p c = MEMORY_TOKEN_NONE; sgi_queue p c = [];
     begin_op c (arb p) = Some (a, out, got)\<rbrakk> \<Longrightarrow>
     proto_step begin_op end_op cores p
       \<lparr>arb = a, sgi_queue = post_sgis out (sgi_queue p),
        client = (client p)(c := if got then MEMORY_TOKEN_ACQUIRED else MEMORY_TOKEN_REQUESTED)\<rparr>"
| proto_end: "\<lbrakk>c \<in> cores; client p c \<noteq> MEMORY_TOKEN_NONE; end_op c (arb p) = Some (a, out)\<rbrakk> \<Longrightarrow>
     proto_step begin_op end_op cores p
       \<lparr>arb = a, sgi_queue = post_sgis out (sgi_queue p), client = (client p)(c := MEMORY_TOKEN_NONE)\<rparr>"
| proto_deliver: "\<lbrakk>c \<in> cores; sgi_queue p c = x # xs\<rbrakk> \<Longrightarrow>
     proto_step begin_op end_op cores p
       \<lparr>arb = arb p, sgi_queue = (sgi_queue p)(c := xs), client = (client p)(c := client_sgi x (client p c))\<rparr>"

inductive proto_reachable ::
  "(nat \<Rightarrow> 's \<Rightarrow> ('s \<times> sgi_out \<times> bool) option) \<Rightarrow> (nat \<Rightarrow> 's \<Rightarrow> ('s \<times> sgi_out) option) \<Rightarrow> nat set
     \<Rightarrow> 's \<Rightarrow> 's proto \<Rightarrow> bool" for begin_op end_op cores a0 where
  proto_start: "proto_reachable begin_op end_op cores a0
     \<lparr>arb = a0, sgi_queue = (\<lambda>_. []), client = (\<lambda>_. MEMORY_TOKEN_NONE)\<rparr>"
| proto_next: "\<lbrakk>proto_reachable begin_op end_op cores a0 p; proto_step begin_op end_op cores p p'\<rbrakk> \<Longrightarrow>
     proto_reachable begin_op end_op cores a0 p'"

lemmas sgi_consts = SGI_MEMORY_PHASE_STARTED_def SGI_MEMORY_PHASE_ENDED_def

lemma sgis_for_simps [simp]:
  "sgis_for d [] = []" "sgis_for d [(e, x)] = (if e = d then [x] else [])"
  by (auto simp: sgis_for_def)

lemma client_sgi_simps [simp]:
  "client_sgi SGI_MEMORY_PHASE_STARTED MEMORY_TOKEN_REQUESTED = MEMORY_TOKEN_ACQUIRED"
  "client_sgi SGI_MEMORY_PHASE_ENDED MEMORY_TOKEN_ACQUIRED = MEMORY_TOKEN_REQUESTED"
  "client_sgi x MEMORY_TOKEN_NONE = MEMORY_TOKEN_NONE"
  by (simp_all add: client_sgi_def sgi_consts)

lemma client_sgi_NONE_iff [simp]: "client_sgi x st = MEMORY_TOKEN_NONE \<longleftrightarrow> st = MEMORY_TOKEN_NONE"
  by (cases st) (auto simp: client_sgi_def)

lemma fold_client_NONE_iff [simp]: "fold client_sgi q st = MEMORY_TOKEN_NONE \<longleftrightarrow> st = MEMORY_TOKEN_NONE"
  by (induction q arbitrary: st) auto

subsection \<open>The contract of an arbiter\<close>

locale memory_arbiter =
  fixes inv :: "'s \<Rightarrow> bool"
    and requesting :: "'s \<Rightarrow> nat \<Rightarrow> bool"
    and holds :: "'s \<Rightarrow> nat \<Rightarrow> bool"
    and cores :: "nat set"
    and begin_op :: "nat \<Rightarrow> 's \<Rightarrow> ('s \<times> sgi_out \<times> bool) option"
    and end_op :: "nat \<Rightarrow> 's \<Rightarrow> ('s \<times> sgi_out) option"
  assumes begin_law: "inv s \<Longrightarrow> c \<in> cores \<Longrightarrow> \<not> requesting s c \<Longrightarrow>
      \<exists>s' out. begin_op c s = Some (s', out, holds s' c) \<and> inv s' \<and> requesting s' c
        \<and> (\<forall>d. d \<noteq> c \<longrightarrow> requesting s' d = requesting s d)"
    and end_law: "inv s \<Longrightarrow> c \<in> cores \<Longrightarrow> requesting s c \<Longrightarrow>
      \<exists>s' out. end_op c s = Some (s', out) \<and> inv s' \<and> \<not> requesting s' c
        \<and> (\<forall>d. d \<noteq> c \<longrightarrow> requesting s' d = requesting s d)"
    and holds_requesting: "inv s \<Longrightarrow> holds s c \<Longrightarrow> requesting s c"
begin

lemma begin_end_roundtrip:
  assumes "inv s" "c \<in> cores" "\<not> requesting s c"
  obtains s1 out1 s2 out2 where "begin_op c s = Some (s1, out1, holds s1 c)" "end_op c s1 = Some (s2, out2)"
    "inv s2" "requesting s2 = requesting s" "\<not> holds s2 c"
proof -
  obtain s1 out1 where 1: "begin_op c s = Some (s1, out1, holds s1 c)" "inv s1" "requesting s1 c"
      "\<forall>d. d \<noteq> c \<longrightarrow> requesting s1 d = requesting s d"
    using begin_law assms by blast
  then obtain s2 out2 where 2: "end_op c s1 = Some (s2, out2)" "inv s2" "\<not> requesting s2 c"
      "\<forall>d. d \<noteq> c \<longrightarrow> requesting s2 d = requesting s1 d"
    using end_law assms(2) by blast
  have "requesting s2 = requesting s"
    using 1(4) 2(3,4) assms(3) by (intro ext) (metis)
  with that 1(1) 2 holds_requesting show ?thesis by metis
qed

end

locale signalling_arbiter = memory_arbiter +
  assumes exclusive: "inv s \<Longrightarrow> holds s c \<Longrightarrow> holds s d \<Longrightarrow> c = d"
    and work_conserving: "inv s \<Longrightarrow> requesting s c \<Longrightarrow> \<exists>d\<in>cores. holds s d"
    and begin_signals: "inv s \<Longrightarrow> c \<in> cores \<Longrightarrow> \<not> requesting s c \<Longrightarrow> begin_op c s = Some (s', out, got) \<Longrightarrow>
      sgis_for d out = (if d = c then [] else signal (holds s d) (holds s' d))"
    and end_signals: "inv s \<Longrightarrow> c \<in> cores \<Longrightarrow> requesting s c \<Longrightarrow> end_op c s = Some (s', out) \<Longrightarrow>
      sgis_for d out = (if d = c then [] else signal (holds s d) (holds s' d))"
begin

definition view :: "'a \<Rightarrow> nat \<Rightarrow> mem_arbit_status" where
  "view s c = (if holds s c then MEMORY_TOKEN_ACQUIRED
     else if requesting s c then MEMORY_TOKEN_REQUESTED else MEMORY_TOKEN_NONE)"

definition consistent :: "'a proto \<Rightarrow> bool" where
  "consistent p \<longleftrightarrow> inv (arb p) \<and>
     (\<forall>c\<in>cores. fold client_sgi (sgi_queue p c) (client p c) = view (arb p) c)"

lemma view_NONE_iff: "inv s \<Longrightarrow> view s c = MEMORY_TOKEN_NONE \<longleftrightarrow> \<not> requesting s c"
  by (auto simp: view_def holds_requesting)

lemma signal_view:
  assumes "inv s" "inv s'" "requesting s' d = requesting s d"
  shows "fold client_sgi (signal (holds s d) (holds s' d)) (view s d) = view s' d"
  using assms by (auto simp: view_def signal_def holds_requesting)

lemma consistent_client_NONE:
  "consistent p \<Longrightarrow> c \<in> cores \<Longrightarrow> client p c = MEMORY_TOKEN_NONE \<longleftrightarrow> \<not> requesting (arb p) c"
  by (metis consistent_def fold_client_NONE_iff view_NONE_iff)

lemma proto_step_consistent:
  assumes "proto_step begin_op end_op cores p p'" and con: "consistent p"
  shows "consistent p'"
  using assms(1)
proof (cases rule: proto_step.cases)
  case (proto_begin c a out got)
  have inv: "inv (arb p)" and nreq: "\<not> requesting (arb p) c"
    using con proto_begin consistent_client_NONE by (auto simp: consistent_def)
  note l = begin_law [OF inv proto_begin(2) nreq] and sg = begin_signals [OF inv proto_begin(2) nreq proto_begin(5)]
  from l proto_begin(5) have inv': "inv a" and got: "got = holds a c" and req: "requesting a c"
    and oth: "\<And>d. d \<noteq> c \<Longrightarrow> requesting a d = requesting (arb p) d"
    by auto
  have "fold client_sgi (sgi_queue p' d) (client p' d) = view a d" if "d \<in> cores" for d
  proof (cases "d = c")
    case True
    then show ?thesis using proto_begin(1,4) sg got req by (simp add: post_sgis_def view_def)
  next
    case False
    have v: "fold client_sgi (sgi_queue p d) (client p d) = view (arb p) d"
      using con that by (simp add: consistent_def)
    show ?thesis
      using proto_begin(1) False sg [of d] signal_view [OF inv inv' oth] v by (simp add: post_sgis_def)
  qed
  then show ?thesis using proto_begin(1) inv' by (simp add: consistent_def)
next
  case (proto_end c a out)
  have inv: "inv (arb p)" and req: "requesting (arb p) c"
    using con proto_end consistent_client_NONE by (auto simp: consistent_def)
  note l = end_law [OF inv proto_end(2) req] and sg = end_signals [OF inv proto_end(2) req proto_end(4)]
  from l proto_end(4) have inv': "inv a" and nreq: "\<not> requesting a c"
    and oth: "\<And>d. d \<noteq> c \<Longrightarrow> requesting a d = requesting (arb p) d"
    by auto
  have "fold client_sgi (sgi_queue p' d) (client p' d) = view a d" if "d \<in> cores" for d
  proof (cases "d = c")
    case True
    have "view a c = MEMORY_TOKEN_NONE" using inv' nreq by (simp add: view_NONE_iff)
    with True proto_end(1) show ?thesis by simp
  next
    case False
    have v: "fold client_sgi (sgi_queue p d) (client p d) = view (arb p) d"
      using con that by (simp add: consistent_def)
    show ?thesis
      using proto_end(1) False sg [of d] signal_view [OF inv inv' oth] v by (simp add: post_sgis_def)
  qed
  then show ?thesis using proto_end(1) inv' by (simp add: consistent_def)
next
  case (proto_deliver c x xs)
  then show ?thesis using con by (auto simp: consistent_def)
qed

lemma proto_reachable_consistent:
  assumes "proto_reachable begin_op end_op cores a0 p" "inv a0" "\<And>c. c \<in> cores \<Longrightarrow> \<not> requesting a0 c"
  shows "consistent p"
  using assms
proof (induction rule: proto_reachable.induct)
  case proto_start
  then show ?case by (simp add: consistent_def view_NONE_iff [symmetric])
next
  case (proto_next p p')
  then show ?case by (simp add: proto_step_consistent)
qed

text \<open>Two guests that believe to hold the memory: one of them has the ENDED interrupt in flight.\<close>

lemma fold_client_lost:
  "fold client_sgi q MEMORY_TOKEN_ACQUIRED \<noteq> MEMORY_TOKEN_ACQUIRED \<Longrightarrow> SGI_MEMORY_PHASE_ENDED \<in> set q"
proof (induction q)
  case (Cons x q)
  then show ?case by (cases "x = SGI_MEMORY_PHASE_ENDED") (auto simp: client_sgi_def split: if_splits)
qed simp

lemma fold_client_gained:
  "fold client_sgi q MEMORY_TOKEN_REQUESTED = MEMORY_TOKEN_ACQUIRED \<Longrightarrow> SGI_MEMORY_PHASE_STARTED \<in> set q"
proof (induction q)
  case (Cons x q)
  then show ?case by (cases "x = SGI_MEMORY_PHASE_STARTED") (auto simp: client_sgi_def split: if_splits)
qed simp

lemma mutual_exclusion:
  assumes "consistent p" "c \<in> cores" "d \<in> cores" "c \<noteq> d"
    "client p c = MEMORY_TOKEN_ACQUIRED" "client p d = MEMORY_TOKEN_ACQUIRED"
  shows "SGI_MEMORY_PHASE_ENDED \<in> set (sgi_queue p c) \<union> set (sgi_queue p d)"
proof -
  have "\<not> holds (arb p) c \<or> \<not> holds (arb p) d"
    using assms exclusive by (auto simp: consistent_def)
  then have "view (arb p) c \<noteq> MEMORY_TOKEN_ACQUIRED \<or> view (arb p) d \<noteq> MEMORY_TOKEN_ACQUIRED"
    by (auto simp: view_def split: if_splits)
  with assms fold_client_lost show ?thesis by (metis Un_iff consistent_def)
qed

text \<open>A waiting guest with an empty queue waits for another core that really holds the memory.\<close>

lemma no_lost_wakeup:
  assumes "consistent p" "c \<in> cores" "client p c = MEMORY_TOKEN_REQUESTED"
    "SGI_MEMORY_PHASE_STARTED \<notin> set (sgi_queue p c)"
  obtains d where "d \<in> cores" "d \<noteq> c" "holds (arb p) d"
proof -
  have v: "fold client_sgi (sgi_queue p c) MEMORY_TOKEN_REQUESTED = view (arb p) c" and inv: "inv (arb p)"
    using assms by (auto simp: consistent_def)
  then have "view (arb p) c \<noteq> MEMORY_TOKEN_ACQUIRED" using assms(4) fold_client_gained by metis
  moreover have "view (arb p) c \<noteq> MEMORY_TOKEN_NONE" using v by (metis fold_client_NONE_iff mem_arbit_status.distinct(1))
  ultimately have "\<not> holds (arb p) c" "requesting (arb p) c" by (auto simp: view_def split: if_splits)
  with inv work_conserving that show ?thesis by metis
qed

lemma quiet_status:
  "consistent p \<Longrightarrow> c \<in> cores \<Longrightarrow> sgi_queue p c = [] \<Longrightarrow> client p c = view (arb p) c"
  by (auto simp: consistent_def dest: bspec)

end

end
