(* ===== verification/CpuSet.thy ===== *)
theory CpuSet
  imports Prelude
begin

text \<open>
  CPU sets: \<open>struct cpu_set\<close>, the iterator \<open>next_cpu\<close> of
  \<^verbatim>\<open>jailhouse-master_dprem/hypervisor/control.c\<close> and the macros \<open>first_cpu\<close> and
  \<open>for_each_cpu\<close> built on it.
\<close>

subsection \<open>CPU sets and cells\<close>

text \<open>\<open>struct cpu_set\<close>: the largest CPU number and a bitmap of 64-bit words.\<close>

record cpu_set =
  max_cpu_id :: nat
  bitmap :: "u64 list"

definition test_bit :: "nat \<Rightarrow> u64 list \<Rightarrow> bool" where
  "test_bit nr bm = (nr div 64 < length bm \<and> bit (bm ! (nr div 64)) (nr mod 64))"

text \<open>
  \<open>next_cpu\<close>: the C counter is an unsigned int that starts at \<open>-1\<close> and wraps to 0 on
  the first increment; the integer \<open>-1\<close> plays that role here.
\<close>

function next_cpu :: "int \<Rightarrow> cpu_set \<Rightarrow> int \<Rightarrow> int" where
  "next_cpu cpu cs exception =
     (let c = cpu + 1 in
      if c \<le> int (max_cpu_id cs) \<and> (c = exception \<or> \<not> test_bit (nat c) (bitmap cs))
      then next_cpu c cs exception else c)"
  by pat_completeness auto
termination
  by (relation "measure (\<lambda>(cpu, cs, e). nat (int (max_cpu_id cs) - cpu))") auto

declare next_cpu.simps [simp del]

definition first_cpu :: "cpu_set \<Rightarrow> nat" where
  "first_cpu cs = nat (next_cpu (-1) cs (-1))"

text \<open>The CPUs that \<open>for_each_cpu\<close> visits, in order, starting after \<open>cpu\<close>.\<close>

function cpus_after :: "int \<Rightarrow> cpu_set \<Rightarrow> int \<Rightarrow> nat list" where
  "cpus_after cpu cs exception =
     (let c = next_cpu cpu cs exception in
      if c \<le> int (max_cpu_id cs) \<and> c > cpu then nat c # cpus_after c cs exception else [])"
  by pat_completeness auto
termination
  by (relation "measure (\<lambda>(cpu, cs, e). nat (int (max_cpu_id cs) - cpu))") auto

declare cpus_after.simps [simp del]

definition for_each_cpu :: "cpu_set \<Rightarrow> nat list" where
  "for_each_cpu cs = cpus_after (-1) cs (-1)"

subsection \<open>What the iterator visits\<close>

lemma next_cpu_gt: "cpu < next_cpu cpu cs e"
  by (induction cpu cs e rule: next_cpu.induct) (subst next_cpu.simps, fastforce simp: Let_def)

lemma next_cpu_skips:
  "cpu < c \<Longrightarrow> c < next_cpu cpu cs e \<Longrightarrow> c \<le> int (max_cpu_id cs) \<Longrightarrow> c = e \<or> \<not> test_bit (nat c) (bitmap cs)"
proof (induction cpu cs e rule: next_cpu.induct)
  case (1 cpu cs e)
  let ?go = "cpu + 1 \<le> int (max_cpu_id cs) \<and> (cpu + 1 = e \<or> \<not> test_bit (nat (cpu + 1)) (bitmap cs))"
  show ?case
  proof (cases ?go)
    case True
    then have "next_cpu cpu cs e = next_cpu (cpu + 1) cs e" by (subst next_cpu.simps) (simp add: Let_def)
    with True 1 show ?thesis by (cases "c = cpu + 1") auto
  next
    case False
    then have "next_cpu cpu cs e = cpu + 1" by (subst next_cpu.simps) (auto simp: Let_def)
    with 1 show ?thesis by simp
  qed
qed

lemma next_cpu_stops:
  "next_cpu cpu cs e \<le> int (max_cpu_id cs) \<Longrightarrow> test_bit (nat (next_cpu cpu cs e)) (bitmap cs) \<and> next_cpu cpu cs e \<noteq> e"
proof (induction cpu cs e rule: next_cpu.induct)
  case (1 cpu cs e)
  let ?go = "cpu + 1 \<le> int (max_cpu_id cs) \<and> (cpu + 1 = e \<or> \<not> test_bit (nat (cpu + 1)) (bitmap cs))"
  show ?case
  proof (cases ?go)
    case True
    then have "next_cpu cpu cs e = next_cpu (cpu + 1) cs e" by (subst next_cpu.simps) (simp add: Let_def)
    with True 1 show ?thesis by auto
  next
    case False
    then have "next_cpu cpu cs e = cpu + 1" by (subst next_cpu.simps) (auto simp: Let_def)
    with False 1 show ?thesis by auto
  qed
qed

lemma cpus_after_set:
  assumes "-1 \<le> cpu"
  shows "set (cpus_after cpu cs e) = {c. cpu < int c \<and> c \<le> max_cpu_id cs \<and> test_bit c (bitmap cs) \<and> int c \<noteq> e}"
  using assms
proof (induction cpu cs e rule: cpus_after.induct)
  case (1 cpu cs e)
  let ?n = "next_cpu cpu cs e"
  have gt: "cpu < ?n" by (rule next_cpu_gt)
  show ?case
  proof (cases "?n \<le> int (max_cpu_id cs)")
    case True
    then have eq: "set (cpus_after cpu cs e) = insert (nat ?n) (set (cpus_after ?n cs e))"
      using gt by (subst cpus_after.simps) (simp add: Let_def)
    have ih: "set (cpus_after ?n cs e) = {c. ?n < int c \<and> c \<le> max_cpu_id cs \<and> test_bit c (bitmap cs) \<and> int c \<noteq> e}"
      using 1 True gt by simp
    have "c = nat ?n \<or> ?n < int c" if "cpu < int c" "c \<le> max_cpu_id cs" "test_bit c (bitmap cs)" "int c \<noteq> e" for c
      using next_cpu_skips [OF that(1), of cs e] that by fastforce
    with next_cpu_stops [OF True] eq ih True gt "1.prems" show ?thesis by auto
  next
    case False
    then have "cpus_after cpu cs e = []" by (subst cpus_after.simps) (simp add: Let_def)
    moreover have "\<not> (test_bit c (bitmap cs) \<and> int c \<noteq> e)" if "cpu < int c" "c \<le> max_cpu_id cs" for c
      using next_cpu_skips [OF that(1), of cs e] that False by auto
    ultimately show ?thesis by auto
  qed
qed

lemma for_each_cpu_set: "set (for_each_cpu cs) = {c. c \<le> max_cpu_id cs \<and> test_bit c (bitmap cs)}"
  by (auto simp: for_each_cpu_def cpus_after_set)

lemma first_cpu_least:
  assumes "c \<le> max_cpu_id cs" "test_bit c (bitmap cs)"
  shows "first_cpu cs \<le> c \<and> test_bit (first_cpu cs) (bitmap cs)"
proof -
  have "next_cpu (-1) cs (-1) \<le> int c"
    using next_cpu_skips [of "-1" "int c" cs "-1"] assms by force
  with next_cpu_gt [of "-1" cs "-1"] next_cpu_stops [of "-1" cs "-1"] assms show ?thesis
    by (auto simp: first_cpu_def)
qed

end
