(* ===== verification/FixedPriority.thy ===== *)
theory FixedPriority
  imports MemoryArbiter CpuSet
begin

text \<open>
  The fixed-priority memory arbiter of the hypervisor,
  \<^verbatim>\<open>jailhouse-master_dprem/hypervisor/arch/arm64/fixed_priority.c\<close>. One memory token is given to the
  requesting core of highest priority; a core that loses the token and a core that obtains it
  after waiting are told by a virtual interrupt (SGI).

  \<open>irqchip_set_pending\<close> calls are returned as a list of pairs (target CPU, SGI number) in
  program order; the ring that stores them is the theory \<open>IrqPending\<close>. The spinlock
  \<open>memory_lock\<close> makes each operation atomic, so each is one function on the state. The
  macro \<open>SUSPEND_LINUX\<close> is not defined in the source, its blocks are not part of the model.
\<close>

subsection \<open>Constants\<close>

definition MAX_PRIORITY :: u32 where
  "MAX_PRIORITY = 6"

definition TOKEN_FREE :: nat where
  "TOKEN_FREE = 255"

definition TOKEN_NULL_PRIORITY :: u32 where
  "TOKEN_NULL_PRIORITY = 0"

definition NUM_REQUESTS :: nat where
  "NUM_REQUESTS = 6"

lemmas arb_consts = sgi_consts JAILHOUSE_MEMORY_ARBITRATION_BEGIN_MEM_PHASE_def
  JAILHOUSE_MEMORY_ARBITRATION_END_MEM_PHASE_def MAX_PRIORITY_def TOKEN_FREE_def TOKEN_NULL_PRIORITY_def
  NUM_REQUESTS_def

subsection \<open>Cells\<close>

text \<open>The parts of \<open>struct cell\<close> and \<open>struct per_cpu\<close> the arbiter reads.\<close>

record cell =
  cell_config_id :: u32
  cell_cpu_set :: cpu_set

record per_cpu =
  cpu_id :: nat
  cpu_cell :: cell

subsection \<open>State\<close>

record fp_state =
  memory_requests :: "u32 list"
  token_owner :: nat
  token_priority :: u32

definition fp_init :: fp_state where
  "fp_init = \<lparr>memory_requests = replicate NUM_REQUESTS TOKEN_NULL_PRIORITY,
     token_owner = TOKEN_FREE, token_priority = TOKEN_NULL_PRIORITY\<rparr>"

subsection \<open>Operations\<close>

definition cell_priority :: "cell \<Rightarrow> u32" where
  "cell_priority c = MAX_PRIORITY - cell_config_id c"

definition request_memory :: "per_cpu \<Rightarrow> fp_state \<Rightarrow> (fp_state \<times> sgi_out \<times> bool) option" where
  "request_memory pc s =
     (let priority = cell_priority (cpu_cell pc) in
      arr_set (memory_requests s) (cpu_id pc) priority \<bind> (\<lambda>reqs.
        let s1 = s\<lparr>memory_requests := reqs\<rparr> in
        let (s2, out) =
          (if priority > token_priority s1
           then (s1\<lparr>token_owner := cpu_id pc, token_priority := priority\<rparr>,
                 if token_owner s1 \<noteq> TOKEN_FREE \<and> token_owner s1 \<noteq> cpu_id pc
                 then [(token_owner s1, SGI_MEMORY_PHASE_ENDED)] else [])
           else (s1, [])) in
        Some (s2, out, token_owner s2 = cpu_id pc)))"

text \<open>The \<open>for_each_cell\<close> loop that looks for the best waiting request.\<close>

fun elect :: "u32 list \<Rightarrow> cell list \<Rightarrow> nat \<Rightarrow> u32 \<Rightarrow> (nat \<times> u32) option" where
  "elect reqs [] own prio = Some (own, prio)"
| "elect reqs (c # cs) own prio =
     (let i = first_cpu (cell_cpu_set c) in
      arr_get reqs i \<bind> (\<lambda>r.
        if r > prio then elect reqs cs i r else elect reqs cs own prio))"

definition disable_memory_request ::
  "cell list \<Rightarrow> nat \<Rightarrow> fp_state \<Rightarrow> (fp_state \<times> sgi_out) option" where
  "disable_memory_request cells cpu s =
     (arr_set (memory_requests s) cpu TOKEN_NULL_PRIORITY \<bind> (\<lambda>reqs.
        let s1 = s\<lparr>memory_requests := reqs\<rparr> in
        if token_owner s1 = cpu then
          elect reqs cells TOKEN_FREE TOKEN_NULL_PRIORITY \<bind> (\<lambda>(own, prio).
            Some (s1\<lparr>token_owner := own, token_priority := prio\<rparr>,
                  if own \<noteq> TOKEN_FREE then [(own, SGI_MEMORY_PHASE_STARTED)] else []))
        else Some (s1, [])))"

text \<open>
  \<open>emul_division\<close> subtracts in a loop. The loop does not end when the divisor is 0 and the
  value is not, hence the option type.
\<close>

partial_function (option) emul_division_loop :: "u64 \<Rightarrow> u64 \<Rightarrow> u64 \<Rightarrow> u64 option" where
  "emul_division_loop val dv cnt =
     (if val > dv then emul_division_loop (val - dv) dv (cnt + 1) else Some cnt)"

definition emul_division :: "u64 \<Rightarrow> u64 \<Rightarrow> u64 option" where
  "emul_division val dv = emul_division_loop val dv 0"

definition timer_ticks_to_ns :: "u64 \<Rightarrow> u64 \<Rightarrow> u64 option" where
  "timer_ticks_to_ns freq ticks = emul_division (ticks * 1000) (freq div 1000 div 1000)"

text \<open>
  The overhead test (action code 0xFFFF). \<open>start\<close> and \<open>end\<close> are the two reads of
  \<open>CNTHP_TVAL_EL2\<close>; the printed time is computed before the request is withdrawn, so the
  conversion loop is part of the path.
\<close>

definition enable_memory_request_test_arbitration_overhead ::
  "cell list \<Rightarrow> u64 \<Rightarrow> u64 \<Rightarrow> u64 \<Rightarrow> per_cpu \<Rightarrow> u32 \<Rightarrow> fp_state
     \<Rightarrow> (fp_state \<times> sgi_out \<times> bool) option" where
  "enable_memory_request_test_arbitration_overhead cells freq start fin pc priority s =
     arr_set (memory_requests s) (cpu_id pc) priority \<bind> (\<lambda>reqs.
       let s1 = s\<lparr>memory_requests := reqs\<rparr> in
       let (s2, out) =
         (if priority > token_priority s1
          then (s1\<lparr>token_owner := cpu_id pc, token_priority := priority\<rparr>,
                if token_owner s1 \<noteq> TOKEN_FREE then [(token_owner s1, 10)] else [])
          else (s1, [])) in
       timer_ticks_to_ns freq (start - fin) \<bind> (\<lambda>_.
       disable_memory_request cells (cpu_id pc) s2 \<bind> (\<lambda>(s3, out').
       Some (s3, out @ out', token_owner s3 = cpu_id pc))))"

definition fixed_priority_hypercall ::
  "cell list \<Rightarrow> u64 \<Rightarrow> u64 \<Rightarrow> u64 \<Rightarrow> per_cpu \<Rightarrow> u64 \<Rightarrow> fp_state
     \<Rightarrow> (fp_state \<times> sgi_out \<times> arb_result) option" where
  "fixed_priority_hypercall cells freq start fin pc action_code s =
     (if action_code = JAILHOUSE_MEMORY_ARBITRATION_BEGIN_MEM_PHASE then
        request_memory pc s \<bind> (\<lambda>(s', out, res).
          Some (s', out, if res then ARB_ACK else ARB_NACK))
      else if action_code = JAILHOUSE_MEMORY_ARBITRATION_END_MEM_PHASE then
        disable_memory_request cells (cpu_id pc) s \<bind> (\<lambda>(s', out). Some (s', out, ARB_ACK))
      else if action_code = 0xFFFF then
        enable_memory_request_test_arbitration_overhead cells freq start fin pc 0 s
          \<bind> (\<lambda>(s', out, _). Some (s', out, ARB_ACK))
      else Some (s, [], ARB_INVALID))"

definition on_arch_park_cpu :: "cell list \<Rightarrow> nat \<Rightarrow> fp_state \<Rightarrow> (fp_state \<times> sgi_out) option" where
  "on_arch_park_cpu cells cpu s = disable_memory_request cells cpu s"

lemmas fp_op_defs [arb_defs] = request_memory_def disable_memory_request_def
  fixed_priority_hypercall_def on_arch_park_cpu_def cell_priority_def

subsection \<open>The election loop\<close>

abbreviation cell_cpu :: "cell \<Rightarrow> nat" where
  "cell_cpu c \<equiv> first_cpu (cell_cpu_set c)"

text \<open>
  The system configurations the arbiter is meant for: every cell has a first CPU inside the
  request table and no two cells share it.
\<close>

definition wf_cells :: "cell list \<Rightarrow> bool" where
  "wf_cells cells \<longleftrightarrow> distinct (map cell_cpu cells) \<and> (\<forall>c\<in>set cells. cell_cpu c < NUM_REQUESTS)"

definition caller_ok :: "cell list \<Rightarrow> per_cpu \<Rightarrow> bool" where
  "caller_ok cells pc \<longleftrightarrow> cpu_cell pc \<in> set cells \<and> cpu_id pc = cell_cpu (cpu_cell pc)"

lemma wf_cells_unique:
  "wf_cells cells \<Longrightarrow> c \<in> set cells \<Longrightarrow> d \<in> set cells \<Longrightarrow> cell_cpu c = cell_cpu d \<Longrightarrow> c = d"
  by (auto simp: wf_cells_def distinct_map dest: inj_onD)

lemma caller_ok_range: "wf_cells cells \<Longrightarrow> caller_ok cells pc \<Longrightarrow> cpu_id pc < NUM_REQUESTS"
  by (auto simp: wf_cells_def caller_ok_def)

lemma elect_total:
  "\<forall>c\<in>set cs. cell_cpu c < length reqs \<Longrightarrow> \<exists>own prio. elect reqs cs ow p = Some (own, prio)"
  by (induction cs arbitrary: ow p) (auto simp: Let_def)

lemma elect_max:
  assumes "elect reqs cs ow p = Some (own, prio)"
  shows "p \<le> prio \<and> (\<forall>c\<in>set cs. reqs ! cell_cpu c \<le> prio)
    \<and> (own = ow \<and> prio = p \<or> p < prio \<and> (\<exists>c\<in>set cs. own = cell_cpu c \<and> prio = reqs ! own))"
  using assms
proof (induction cs arbitrary: ow p)
  case Nil
  then show ?case by simp
next
  case (Cons c cs)
  then show ?case
    by (fastforce simp: Let_def arr_get_def split: if_splits)
qed

subsection \<open>The arbitration invariant\<close>

text \<open>
  A non-zero entry of the request table is the priority of a cell; the token's priority bounds
  every request; a held token belongs to a requester and carries its priority.
\<close>

definition fp_inv :: "cell list \<Rightarrow> fp_state \<Rightarrow> bool" where
  "fp_inv cells s \<longleftrightarrow>
     length (memory_requests s) = NUM_REQUESTS
   \<and> (\<forall>i<NUM_REQUESTS. memory_requests s ! i \<noteq> 0 \<longrightarrow>
        (\<exists>c\<in>set cells. cell_cpu c = i \<and> memory_requests s ! i = cell_priority c))
   \<and> (\<forall>i<NUM_REQUESTS. memory_requests s ! i \<le> token_priority s)
   \<and> (if token_owner s = TOKEN_FREE then token_priority s = 0
      else token_owner s < NUM_REQUESTS \<and> token_priority s \<noteq> 0
        \<and> memory_requests s ! token_owner s = token_priority s)"

lemma fp_inv_length: "fp_inv cells s \<Longrightarrow> length (memory_requests s) = NUM_REQUESTS"
  by (simp add: fp_inv_def)

lemma fp_inv_cell:
  "fp_inv cells s \<Longrightarrow> i < NUM_REQUESTS \<Longrightarrow> memory_requests s ! i \<noteq> 0 \<Longrightarrow>
     \<exists>c\<in>set cells. cell_cpu c = i \<and> memory_requests s ! i = cell_priority c"
  by (simp add: fp_inv_def)

lemma fp_inv_bound: "fp_inv cells s \<Longrightarrow> i < NUM_REQUESTS \<Longrightarrow> memory_requests s ! i \<le> token_priority s"
  by (simp add: fp_inv_def)

lemma fp_inv_owner:
  "fp_inv cells s \<Longrightarrow> token_owner s \<noteq> TOKEN_FREE \<Longrightarrow>
     token_owner s < NUM_REQUESTS \<and> token_priority s \<noteq> 0 \<and> memory_requests s ! token_owner s = token_priority s"
  by (simp add: fp_inv_def)

lemma fp_inv_free: "fp_inv cells s \<Longrightarrow> token_owner s = TOKEN_FREE \<Longrightarrow> token_priority s = 0"
  by (simp add: fp_inv_def)

lemma fp_inv_init: "fp_inv cells fp_init"
  by (simp add: fp_inv_def fp_init_def arb_consts)

lemma cpu_not_free: "i < NUM_REQUESTS \<Longrightarrow> i \<noteq> TOKEN_FREE"
  by (simp add: arb_consts)

text \<open>What \<open>request_memory\<close> computes, without the C text's intermediate states.\<close>

lemma request_memory_eq:
  assumes "cpu_id pc < length (memory_requests s)"
  shows "request_memory pc s = Some
    (if token_priority s < cell_priority (cpu_cell pc)
     then (s\<lparr>memory_requests := (memory_requests s)[cpu_id pc := cell_priority (cpu_cell pc)],
             token_owner := cpu_id pc, token_priority := cell_priority (cpu_cell pc)\<rparr>,
           if token_owner s \<noteq> TOKEN_FREE \<and> token_owner s \<noteq> cpu_id pc
           then [(token_owner s, SGI_MEMORY_PHASE_ENDED)] else [], True)
     else (s\<lparr>memory_requests := (memory_requests s)[cpu_id pc := cell_priority (cpu_cell pc)]\<rparr>,
           [], token_owner s = cpu_id pc))"
  using assms by (simp add: request_memory_def Let_def)

text \<open>An owner's table entry is the priority of its cell, so a repeated request changes nothing.\<close>

lemma owner_priority:
  assumes "wf_cells cells" "caller_ok cells pc" "fp_inv cells s" "token_owner s = cpu_id pc"
  shows "token_priority s = cell_priority (cpu_cell pc)"
proof -
  have r: "cpu_id pc < NUM_REQUESTS" using assms by (simp add: caller_ok_range)
  with assms(3,4) have ow: "memory_requests s ! cpu_id pc = token_priority s" "token_priority s \<noteq> 0"
    using fp_inv_owner cpu_not_free by metis+
  from ow r assms(3) obtain c where "c \<in> set cells" "cell_cpu c = cpu_id pc"
      "memory_requests s ! cpu_id pc = cell_priority c"
    using fp_inv_cell by metis
  moreover have "c = cpu_cell pc"
    using calculation assms(1,2) wf_cells_unique by (auto simp: caller_ok_def)
  ultimately show ?thesis using ow by simp
qed

lemma request_memory_inv:
  assumes wf: "wf_cells cells" and ok: "caller_ok cells pc" and inv: "fp_inv cells s"
    and req: "request_memory pc s = Some (s', out, got)"
  shows "fp_inv cells s'"
proof -
  let ?p = "cell_priority (cpu_cell pc)" and ?i = "cpu_id pc"
  have i: "?i < NUM_REQUESTS" using wf ok by (rule caller_ok_range)
  have len: "length (memory_requests s) = NUM_REQUESTS" using inv by (rule fp_inv_length)
  have c: "cpu_cell pc \<in> set cells" "cell_cpu (cpu_cell pc) = ?i" using ok by (auto simp: caller_ok_def)
  show ?thesis
  proof (cases "token_priority s < ?p")
    case True
    then have "s' = s\<lparr>memory_requests := (memory_requests s)[?i := ?p], token_owner := ?i, token_priority := ?p\<rparr>"
      using req i len by (simp add: request_memory_eq)
    moreover have "\<forall>j<NUM_REQUESTS. memory_requests s ! j \<le> ?p"
      using True inv fp_inv_bound by (meson order.strict_implies_order order_trans)
    ultimately show ?thesis
      using True i len c inv cpu_not_free [OF i] fp_inv_cell [OF inv]
      by (auto simp: fp_inv_def nth_list_update_if)
  next
    case False
    then have s': "s' = s\<lparr>memory_requests := (memory_requests s)[?i := ?p]\<rparr>"
      using req i len by (simp add: request_memory_eq)
    have "token_owner s = ?i \<Longrightarrow> token_priority s = ?p"
      using wf ok inv by (rule owner_priority)
    with s' False i len c inv show ?thesis
      by (auto simp: fp_inv_def nth_list_update_if not_less)
  qed
qed

text \<open>Withdrawing a request: the two branches of \<open>disable_memory_request\<close>.\<close>

lemma disable_other:
  "token_owner s \<noteq> cpu \<Longrightarrow> cpu < length (memory_requests s) \<Longrightarrow>
     disable_memory_request cells cpu s = Some (s\<lparr>memory_requests := (memory_requests s)[cpu := 0]\<rparr>, [])"
  by (simp add: disable_memory_request_def TOKEN_NULL_PRIORITY_def)

lemma disable_owner:
  assumes "token_owner s = cpu" "cpu < length (memory_requests s)"
    and "elect ((memory_requests s)[cpu := 0]) cells TOKEN_FREE 0 = Some (own, prio)"
  shows "disable_memory_request cells cpu s = Some
     (s\<lparr>memory_requests := (memory_requests s)[cpu := 0], token_owner := own, token_priority := prio\<rparr>,
      if own \<noteq> TOKEN_FREE then [(own, SGI_MEMORY_PHASE_STARTED)] else [])"
  using assms by (simp add: disable_memory_request_def TOKEN_NULL_PRIORITY_def)

lemma disable_total:
  assumes "wf_cells cells" "fp_inv cells s" "cpu < NUM_REQUESTS"
  obtains s' out where "disable_memory_request cells cpu s = Some (s', out)"
proof (cases "token_owner s = cpu")
  case True
  have "\<exists>own prio. elect ((memory_requests s)[cpu := 0]) cells TOKEN_FREE 0 = Some (own, prio)"
    using assms by (intro elect_total) (auto simp: wf_cells_def fp_inv_length)
  with True that assms show ?thesis by (auto simp: disable_owner fp_inv_length)
next
  case False
  with that assms show ?thesis by (simp add: disable_other fp_inv_length)
qed

lemma elect_gives_inv:
  assumes wf: "wf_cells cells" and len: "length reqs = NUM_REQUESTS"
    and cel: "\<forall>i<NUM_REQUESTS. reqs ! i \<noteq> 0 \<longrightarrow> (\<exists>c\<in>set cells. cell_cpu c = i \<and> reqs ! i = cell_priority c)"
    and el: "elect reqs cells TOKEN_FREE 0 = Some (own, prio)"
  shows "fp_inv cells \<lparr>memory_requests = reqs, token_owner = own, token_priority = prio\<rparr>"
proof -
  note m = elect_max [OF el]
  have "reqs ! i \<le> prio" if "i < NUM_REQUESTS" for i
    using m cel that by (cases "reqs ! i = 0") auto
  moreover have "own \<noteq> TOKEN_FREE \<longrightarrow> own < NUM_REQUESTS \<and> prio \<noteq> 0 \<and> reqs ! own = prio"
    using m wf by (auto simp: wf_cells_def)
  moreover have "own = TOKEN_FREE \<longrightarrow> prio = 0"
    using m wf cpu_not_free by (fastforce simp: wf_cells_def)
  ultimately show ?thesis using len cel by (auto simp: fp_inv_def)
qed

lemma disable_memory_request_inv:
  assumes wf: "wf_cells cells" and inv: "fp_inv cells s" and cpu: "cpu < NUM_REQUESTS"
    and dis: "disable_memory_request cells cpu s = Some (s', out)"
  shows "fp_inv cells s'"
proof -
  let ?r = "(memory_requests s)[cpu := 0]"
  have len: "length (memory_requests s) = NUM_REQUESTS" using inv by (rule fp_inv_length)
  have cel: "\<forall>i<NUM_REQUESTS. ?r ! i \<noteq> 0 \<longrightarrow> (\<exists>c\<in>set cells. cell_cpu c = i \<and> ?r ! i = cell_priority c)"
    using inv len by (auto simp: nth_list_update_if fp_inv_def)
  show ?thesis
  proof (cases "token_owner s = cpu")
    case True
    obtain own prio where el: "elect ?r cells TOKEN_FREE 0 = Some (own, prio)"
      using wf len elect_total [of cells ?r TOKEN_FREE 0] by (auto simp: wf_cells_def)
    have "fp_inv cells \<lparr>memory_requests = ?r, token_owner = own, token_priority = prio\<rparr>"
      using elect_gives_inv [OF wf _ cel el] len by simp
    moreover have "memory_requests s' = ?r \<and> token_owner s' = own \<and> token_priority s' = prio"
      using dis True cpu len by (auto simp: disable_owner [OF _ _ el])
    ultimately show ?thesis by (auto simp: fp_inv_def split: if_splits)
  next
    case False
    then have "s' = s\<lparr>memory_requests := ?r\<rparr>" using dis cpu len by (simp add: disable_other)
    with False inv len cpu cel show ?thesis by (auto simp: fp_inv_def nth_list_update_if)
  qed
qed

subsection \<open>Runs of the arbiter\<close>

text \<open>
  One step is one hypercall of a core (with any action code and any timer readings for which
  the call returns) or the parking of a cell's CPU by the root cell.
\<close>

inductive fp_step :: "cell list \<Rightarrow> fp_state \<Rightarrow> sgi_out \<Rightarrow> fp_state \<Rightarrow> bool" for cells where
  fp_park: "c \<in> set cells \<Longrightarrow> on_arch_park_cpu cells (cell_cpu c) s = Some (s', out) \<Longrightarrow>
     fp_step cells s out s'"
| fp_hyper: "caller_ok cells pc \<Longrightarrow>
     fixed_priority_hypercall cells freq t0 t1 pc code s = Some (s', out, res) \<Longrightarrow> fp_step cells s out s'"

inductive fp_reachable :: "cell list \<Rightarrow> fp_state \<Rightarrow> bool" for cells where
  fp_start: "fp_reachable cells fp_init"
| fp_next: "fp_reachable cells s \<Longrightarrow> fp_step cells s out s' \<Longrightarrow> fp_reachable cells s'"

text \<open>The overhead test is called with priority 0 and then amounts to withdrawing the request.\<close>

lemma overhead_test_inv:
  assumes wf: "wf_cells cells" and inv: "fp_inv cells s" and i: "cpu_id pc < NUM_REQUESTS"
    and run: "enable_memory_request_test_arbitration_overhead cells freq t0 t1 pc 0 s = Some (s', out, b)"
  shows "fp_inv cells s'"
proof -
  let ?s1 = "s\<lparr>memory_requests := (memory_requests s)[cpu_id pc := 0]\<rparr>"
  have len: "length (memory_requests s) = NUM_REQUESTS" using inv by (rule fp_inv_length)
  obtain out' where d: "disable_memory_request cells (cpu_id pc) ?s1 = Some (s', out')"
    using run i len
    by (auto simp: enable_memory_request_test_arbitration_overhead_def Let_def split: bind_splits)
  have "disable_memory_request cells (cpu_id pc) ?s1 = disable_memory_request cells (cpu_id pc) s"
    using i len by (simp add: disable_memory_request_def TOKEN_NULL_PRIORITY_def)
  with d wf inv i show ?thesis by (metis disable_memory_request_inv)
qed

lemma hypercall_cases [consumes 1, case_names req rel test invalid]:
  assumes "fixed_priority_hypercall cells freq t0 t1 pc code s = Some (s', out, res)"
  obtains got where "code = JAILHOUSE_MEMORY_ARBITRATION_BEGIN_MEM_PHASE"
      "request_memory pc s = Some (s', out, got)" "res = (if got then ARB_ACK else ARB_NACK)"
  | "code = JAILHOUSE_MEMORY_ARBITRATION_END_MEM_PHASE"
      "disable_memory_request cells (cpu_id pc) s = Some (s', out)" "res = ARB_ACK"
  | b where "code = 0xFFFF" "res = ARB_ACK"
      "enable_memory_request_test_arbitration_overhead cells freq t0 t1 pc 0 s = Some (s', out, b)"
  | "code \<notin> {JAILHOUSE_MEMORY_ARBITRATION_BEGIN_MEM_PHASE,
       JAILHOUSE_MEMORY_ARBITRATION_END_MEM_PHASE, 0xFFFF}" "s' = s" "out = []" "res = ARB_INVALID"
  using assms unfolding fixed_priority_hypercall_def
  by (auto split: if_splits bind_splits)

lemma fp_step_inv: "fp_step cells s out s' \<Longrightarrow> wf_cells cells \<Longrightarrow> fp_inv cells s \<Longrightarrow> fp_inv cells s'"
proof (induction rule: fp_step.induct)
  case (fp_park c s s' out)
  then have "cell_cpu c < NUM_REQUESTS" by (simp add: wf_cells_def)
  with fp_park show ?case
    unfolding on_arch_park_cpu_def by (blast intro: disable_memory_request_inv)
next
  case (fp_hyper pc freq t0 t1 code s s' out res)
  have i: "cpu_id pc < NUM_REQUESTS" using fp_hyper by (simp add: caller_ok_range)
  from fp_hyper.hyps(2) show ?case
  proof (cases rule: hypercall_cases)
    case (req got)
    with fp_hyper show ?thesis by (blast intro: request_memory_inv)
  next
    case rel
    with fp_hyper i show ?thesis by (blast intro: disable_memory_request_inv)
  next
    case (test b)
    with fp_hyper i show ?thesis by (blast intro: overhead_test_inv)
  next
    case invalid
    with fp_hyper show ?thesis by simp
  qed
qed

lemma fp_reachable_inv: "fp_reachable cells s \<Longrightarrow> wf_cells cells \<Longrightarrow> fp_inv cells s"
  by (induction rule: fp_reachable.induct) (auto intro: fp_inv_init fp_step_inv)

subsection \<open>Calls of every CPU and changing cells\<close>

text \<open>
  The runs above have one calling CPU per cell, its first. The hypercall can be made by every CPU of a cell, the root cell can park every CPU,
  and cells are created and destroyed while the arbiter runs. A configuration is sound when every cell has a CPU, all CPUs are inside the
  request table and no CPU is in two cells. When cells change, a CPU with an open request stays in a cell of the same id and does not become
  the first CPU of its cell; the moved CPUs themselves are parked first, which withdraws their requests.
\<close>

definition cell_cpus :: "cell \<Rightarrow> nat set" where
  "cell_cpus c = set (for_each_cpu (cell_cpu_set c))"

definition cells_ok :: "cell list \<Rightarrow> bool" where
  "cells_ok cells \<longleftrightarrow> distinct cells
     \<and> (\<forall>c\<in>set cells. cell_cpus c \<noteq> {} \<and> (\<forall>i\<in>cell_cpus c. i < NUM_REQUESTS))
     \<and> (\<forall>c\<in>set cells. \<forall>d\<in>set cells. c \<noteq> d \<longrightarrow> cell_cpus c \<inter> cell_cpus d = {})"

definition cells_change :: "fp_state \<Rightarrow> cell list \<Rightarrow> cell list \<Rightarrow> bool" where
  "cells_change s cells cells' \<longleftrightarrow> cells_ok cells' \<and>
     (\<forall>c\<in>set cells. \<forall>i\<in>cell_cpus c. memory_requests s ! i \<noteq> 0 \<longrightarrow>
        (\<exists>c'\<in>set cells'. i \<in> cell_cpus c' \<and> cell_config_id c' = cell_config_id c \<and> (cell_cpu c' = i \<longrightarrow> cell_cpu c = i)))"

inductive arb_step :: "cell list \<Rightarrow> fp_state \<Rightarrow> sgi_out \<Rightarrow> fp_state \<Rightarrow> bool" for cells where
  arb_park: "i < NUM_REQUESTS \<Longrightarrow> on_arch_park_cpu cells i s = Some (s', out) \<Longrightarrow> arb_step cells s out s'"
| arb_hyper: "cpu_cell pc \<in> set cells \<Longrightarrow> cpu_id pc \<in> cell_cpus (cpu_cell pc) \<Longrightarrow>
     fixed_priority_hypercall cells freq t0 t1 pc code s = Some (s', out, res) \<Longrightarrow> arb_step cells s out s'"

inductive arb_reachable :: "cell list \<Rightarrow> fp_state \<Rightarrow> bool" where
  arb_start: "cells_ok cells \<Longrightarrow> arb_reachable cells fp_init"
| arb_next: "arb_reachable cells s \<Longrightarrow> arb_step cells s out s' \<Longrightarrow> arb_reachable cells s'"
| arb_cells: "arb_reachable cells s \<Longrightarrow> cells_change s cells cells' \<Longrightarrow> arb_reachable cells' s"

lemma first_cpu_in_cell: "cell_cpus c \<noteq> {} \<Longrightarrow> cell_cpu c \<in> cell_cpus c"
  using first_cpu_least [of _ "cell_cpu_set c"] by (fastforce simp: cell_cpus_def for_each_cpu_set)

lemma cells_okD:
  assumes "cells_ok cells" "c \<in> set cells"
  shows "cell_cpu c \<in> cell_cpus c" "i \<in> cell_cpus c \<Longrightarrow> i < NUM_REQUESTS" "cell_cpu c < NUM_REQUESTS"
    "d \<in> set cells \<Longrightarrow> i \<in> cell_cpus c \<Longrightarrow> i \<in> cell_cpus d \<Longrightarrow> c = d"
proof -
  show "cell_cpu c \<in> cell_cpus c" and "i \<in> cell_cpus c \<Longrightarrow> i < NUM_REQUESTS"
    using assms first_cpu_in_cell by (auto simp: cells_ok_def)
  then show "cell_cpu c < NUM_REQUESTS" using assms by (auto simp: cells_ok_def)
  show "d \<in> set cells \<Longrightarrow> i \<in> cell_cpus c \<Longrightarrow> i \<in> cell_cpus d \<Longrightarrow> c = d"
    using assms unfolding cells_ok_def by blast
qed

lemma cells_ok_wf: "cells_ok cells \<Longrightarrow> wf_cells cells"
  unfolding wf_cells_def distinct_map inj_on_def
  by (metis cells_okD(1,3,4) cells_ok_def)

text \<open>
  What holds with every CPU calling: the token's priority is its owner's request and bounds the requests of the first CPUs; it need not bound
  the requests of other CPUs.
\<close>

definition arb_inv :: "cell list \<Rightarrow> fp_state \<Rightarrow> bool" where
  "arb_inv cells s \<longleftrightarrow> length (memory_requests s) = NUM_REQUESTS
   \<and> (\<forall>i<NUM_REQUESTS. memory_requests s ! i \<noteq> 0 \<longrightarrow>
        (\<exists>c\<in>set cells. i \<in> cell_cpus c \<and> memory_requests s ! i = cell_priority c))
   \<and> (\<forall>c\<in>set cells. memory_requests s ! cell_cpu c \<le> token_priority s)
   \<and> (if token_owner s = TOKEN_FREE then token_priority s = 0
      else token_owner s < NUM_REQUESTS \<and> token_priority s \<noteq> 0 \<and> memory_requests s ! token_owner s = token_priority s)"

lemma arb_invD:
  assumes "arb_inv cells s"
  shows "length (memory_requests s) = NUM_REQUESTS"
    "i < NUM_REQUESTS \<Longrightarrow> memory_requests s ! i \<noteq> 0 \<Longrightarrow> \<exists>c\<in>set cells. i \<in> cell_cpus c \<and> memory_requests s ! i = cell_priority c"
    "c \<in> set cells \<Longrightarrow> memory_requests s ! cell_cpu c \<le> token_priority s"
    "token_owner s = TOKEN_FREE \<Longrightarrow> token_priority s = 0"
    "token_owner s \<noteq> TOKEN_FREE \<Longrightarrow> token_owner s < NUM_REQUESTS \<and> token_priority s \<noteq> 0 \<and> memory_requests s ! token_owner s = token_priority s"
  using assms by (auto simp: arb_inv_def split: if_splits)

lemma arb_inv_init: "cells_ok cells \<Longrightarrow> arb_inv cells fp_init"
  using cells_okD(3) by (fastforce simp: arb_inv_def fp_init_def arb_consts)

lemma request_arb_inv:
  assumes ok: "cells_ok cells" and pc: "cpu_cell pc \<in> set cells" "cpu_id pc \<in> cell_cpus (cpu_cell pc)"
    and inv: "arb_inv cells s" and req: "request_memory pc s = Some (s', out, got)"
  shows "arb_inv cells s'"
proof -
  let ?p = "cell_priority (cpu_cell pc)" and ?i = "cpu_id pc"
  have i: "?i < NUM_REQUESTS" using cells_okD(2) [OF ok pc(1)] pc(2) by blast
  have len: "length (memory_requests s) = NUM_REQUESTS" using inv by (rule arb_invD)
  have reqs: "memory_requests s' = (memory_requests s)[?i := ?p]" using req i len by (auto simp: request_memory_eq split: if_splits)
  have entries: "\<exists>c\<in>set cells. j \<in> cell_cpus c \<and> memory_requests s' ! j = cell_priority c"
    if "j < NUM_REQUESTS" "memory_requests s' ! j \<noteq> 0" for j
    using that arb_invD(2) [OF inv, of j] pc len unfolding reqs by (cases "j = ?i") auto
  have first: "memory_requests s' ! cell_cpu c \<le> max ?p (token_priority s)" if "c \<in> set cells" for c
    using arb_invD(3) [OF inv that] len i unfolding reqs by (cases "cell_cpu c = ?i") (auto simp: max_def)
  show ?thesis
  proof (cases "token_priority s < ?p")
    case True
    then have "token_owner s' = ?i" "token_priority s' = ?p" "memory_requests s' ! ?i = ?p"
      using req i len by (auto simp: request_memory_eq)
    moreover have "max ?p (token_priority s) = ?p" using True by (simp add: max_absorb1)
    ultimately show ?thesis using True entries first len reqs i cpu_not_free [OF i] unfolding arb_inv_def by auto
  next
    case False
    then have s': "token_owner s' = token_owner s" "token_priority s' = token_priority s" using req i len by (auto simp: request_memory_eq)
    have "memory_requests s' ! token_owner s = token_priority s" if held: "token_owner s \<noteq> TOKEN_FREE"
    proof (cases "token_owner s = ?i")
      case True
      obtain c where "c \<in> set cells" "?i \<in> cell_cpus c" "memory_requests s ! ?i = cell_priority c"
        using arb_invD(2) [OF inv i] arb_invD(5) [OF inv held] True by auto
      then have "cell_priority c = ?p" using cells_okD(4) [OF ok _ pc(1) _ pc(2)] by blast
      then show ?thesis using arb_invD(5) [OF inv held] True \<open>memory_requests s ! ?i = cell_priority c\<close> len i unfolding reqs by simp
    next
      case other: False
      then show ?thesis using arb_invD(5) [OF inv held] unfolding reqs by simp
    qed
    moreover have "max ?p (token_priority s) = token_priority s" using False by (simp add: max_absorb2)
    ultimately show ?thesis using entries first len reqs s' arb_invD(4,5) [OF inv] unfolding arb_inv_def by auto
  qed
qed

lemma disable_arb_inv:
  assumes ok: "cells_ok cells" and inv: "arb_inv cells s" and i: "i < NUM_REQUESTS"
    and dis: "disable_memory_request cells i s = Some (s', out)"
  shows "arb_inv cells s'"
proof -
  let ?r = "(memory_requests s)[i := 0]"
  have len: "length (memory_requests s) = NUM_REQUESTS" using inv by (rule arb_invD)
  have entries: "\<exists>c\<in>set cells. j \<in> cell_cpus c \<and> ?r ! j = cell_priority c" if "j < NUM_REQUESTS" "?r ! j \<noteq> 0" for j
    using that arb_invD(2) [OF inv, of j] len by (cases "j = i") auto
  show ?thesis
  proof (cases "token_owner s = i")
    case True
    obtain own prio where el: "elect ?r cells TOKEN_FREE 0 = Some (own, prio)"
      using cells_okD(3) [OF ok] len elect_total [of cells ?r TOKEN_FREE 0] by auto
    then have s': "memory_requests s' = ?r" "token_owner s' = own" "token_priority s' = prio"
      using dis True i len by (auto simp: disable_owner [OF _ _ el])
    note m = elect_max [OF el]
    have "own \<noteq> TOKEN_FREE \<longrightarrow> own < NUM_REQUESTS \<and> prio \<noteq> 0 \<and> ?r ! own = prio"
      using m cells_okD(3) [OF ok] by auto
    moreover have "own = TOKEN_FREE \<longrightarrow> prio = 0"
    proof -
      have "own \<noteq> TOKEN_FREE" if "\<exists>c\<in>set cells. own = cell_cpu c"
        using that cells_okD(3) [OF ok] cpu_not_free by metis
      then show ?thesis using m by metis
    qed
    ultimately show ?thesis using m entries len unfolding arb_inv_def s' by simp
  next
    case False
    then have "s' = s\<lparr>memory_requests := ?r\<rparr>" using dis i len by (simp add: disable_other)
    moreover have "?r ! cell_cpu c \<le> token_priority s" if "c \<in> set cells" for c
      using arb_invD(3) [OF inv that] len i by (cases "cell_cpu c = i") auto
    ultimately show ?thesis using False entries len arb_invD(4,5) [OF inv] by (auto simp: arb_inv_def)
  qed
qed

lemma overhead_test_disables:
  assumes "length (memory_requests s) = NUM_REQUESTS" "cpu_id pc < NUM_REQUESTS"
    "enable_memory_request_test_arbitration_overhead cells freq t0 t1 pc 0 s = Some (s', out, b)"
  shows "disable_memory_request cells (cpu_id pc) s = Some (s', out)"
  using assms
  by (auto simp: enable_memory_request_test_arbitration_overhead_def disable_memory_request_def TOKEN_NULL_PRIORITY_def Let_def
      split: bind_splits)

lemma arb_step_inv: "arb_step cells s out s' \<Longrightarrow> cells_ok cells \<Longrightarrow> arb_inv cells s \<Longrightarrow> arb_inv cells s'"
proof (induction rule: arb_step.induct)
  case (arb_park i s s' out)
  then show ?case unfolding on_arch_park_cpu_def by (metis disable_arb_inv)
next
  case (arb_hyper pc freq t0 t1 code s s' out res)
  have i: "cpu_id pc < NUM_REQUESTS" using cells_okD(2) arb_hyper by blast
  from arb_hyper.hyps(3) show ?case
  proof (cases rule: hypercall_cases)
    case (req got)
    then show ?thesis using request_arb_inv [OF _ arb_hyper.hyps(1,2)] arb_hyper.prems by metis
  next
    case rel
    then show ?thesis using disable_arb_inv i arb_hyper.prems by metis
  next
    case (test b)
    then show ?thesis using overhead_test_disables [OF arb_invD(1) i] disable_arb_inv i arb_hyper.prems by metis
  qed (use arb_hyper.prems in simp)
qed

lemma cells_change_inv:
  assumes inv: "arb_inv cells s" and ok: "cells_ok cells" and ch: "cells_change s cells cells'"
  shows "arb_inv cells' s"
proof -
  have ok': "cells_ok cells'" using ch by (simp add: cells_change_def)
  have move: "\<exists>c\<in>set cells. \<exists>c'\<in>set cells'. i \<in> cell_cpus c' \<and> memory_requests s ! i = cell_priority c'
      \<and> (cell_cpu c' = i \<longrightarrow> cell_cpu c = i)" if "i < NUM_REQUESTS" "memory_requests s ! i \<noteq> 0" for i
    using arb_invD(2) [OF inv that] ch that unfolding cells_change_def by (metis cell_priority_def)
  have "memory_requests s ! cell_cpu c' \<le> token_priority s" if c': "c' \<in> set cells'" for c'
  proof (cases "memory_requests s ! cell_cpu c' = 0")
    case False
    obtain c d where cd: "c \<in> set cells" "d \<in> set cells'" "cell_cpu c' \<in> cell_cpus d" "cell_cpu d = cell_cpu c' \<longrightarrow> cell_cpu c = cell_cpu c'"
      using move [OF cells_okD(3) [OF ok' c'] False] by blast
    then have "d = c'" using cells_okD(4) [OF ok' cd(2) c' cd(3)] cells_okD(1) [OF ok' c'] by blast
    then have "cell_cpu c = cell_cpu c'" using cd(4) by simp
    then show ?thesis using arb_invD(3) [OF inv cd(1)] by simp
  qed simp
  with move arb_invD [OF inv] show ?thesis unfolding arb_inv_def by (auto, blast+)
qed

lemma arb_reachable_inv: "arb_reachable cells s \<Longrightarrow> cells_ok cells \<and> arb_inv cells s"
proof (induction rule: arb_reachable.induct)
  case (arb_cells cells s cells')
  then show ?case using cells_change_inv by (auto simp: cells_change_def)
qed (auto intro: arb_inv_init arb_step_inv)

text \<open>The runs with one calling CPU per cell are among these.\<close>

lemma fp_reachable_arb: "fp_reachable cells s \<Longrightarrow> cells_ok cells \<Longrightarrow> arb_reachable cells s"
proof (induction rule: fp_reachable.induct)
  case (fp_next s out s')
  have "arb_step cells s out s'" using fp_next(2)
  proof cases
    case (fp_park c)
    then show ?thesis using cells_okD(3) [OF fp_next.prems] arb_park by metis
  next
    case (fp_hyper pc freq t0 t1 code res)
    then show ?thesis using cells_okD(1) [OF fp_next.prems] arb_hyper unfolding caller_ok_def by metis
  qed
  with fp_next show ?case by (blast intro: arb_next)
qed (rule arb_start)

subsection \<open>The subtraction loop\<close>

lemma word_div_step:
  fixes val dv :: u64
  assumes "dv \<noteq> 0" "dv < val"
  shows "(val - 1) div dv = 1 + (val - dv - 1) div dv"
proof -
  have d: "0 < unat dv" "unat dv < unat val"
    using assms by (simp_all add: unat_gt_0 word_less_nat_alt)
  have a: "unat (val - 1) = unat val - 1"
    using d by (intro unat_minus_one) auto
  have b: "unat (val - dv) = unat val - unat dv"
    using assms(2) by (intro unat_minus_le) simp
  have c: "unat (val - dv - 1) = unat val - unat dv - 1"
    using d b by (subst unat_minus_one) auto
  have q: "(unat val - 1) div unat dv = Suc ((unat val - unat dv - 1) div unat dv)"
    using d by (subst le_div_geq) (auto simp: diff_commute)
  have "unat val < 2 ^ LENGTH(64)" by (rule unsigned_less)
  then have "Suc ((unat val - unat dv - 1) div unat dv) < 2 ^ 64"
    using q div_le_dividend [of "unat val - 1" "unat dv"] by simp
  then have "unat (1 + (val - dv - 1) div dv) = Suc ((unat val - unat dv - 1) div unat dv)"
    by (simp add: unat_word_ariths unat_div c)
  moreover have "unat ((val - 1) div dv) = Suc ((unat val - unat dv - 1) div unat dv)"
    using q by (simp add: unat_div a)
  ultimately show ?thesis by (simp add: word_unat_eq_iff)
qed

lemma emul_division_loop_result:
  assumes "dv \<noteq> 0"
  shows "emul_division_loop val dv cnt = Some (cnt + (if val = 0 then 0 else (val - 1) div dv))"
proof (induction "unat val" arbitrary: val cnt rule: less_induct)
  case less
  show ?case
  proof (cases "dv < val")
    case True
    have ne: "val - dv \<noteq> 0" using True by auto
    have "unat (val - dv) = unat val - unat dv"
      using True by (intro unat_minus_le) simp
    moreover have "0 < unat dv" "unat dv < unat val"
      using True assms by (simp_all add: unat_gt_0 word_less_nat_alt)
    ultimately have "unat (val - dv) < unat val" by simp
    then have "emul_division_loop (val - dv) dv (cnt + 1) = Some (cnt + 1 + (val - dv - 1) div dv)"
      using less ne by simp
    with True assms ne word_div_step [OF assms True] show ?thesis
      by (subst emul_division_loop.simps) auto
  next
    case False
    have "unat (val - 1) < unat dv" if "val \<noteq> 0"
      using False unat_minus_one [OF that] unat_gt_0 [of val] that
      by (simp add: word_less_nat_alt)
    then have "val \<noteq> 0 \<Longrightarrow> (val - 1) div dv = 0"
      by (simp add: word_arith_nat_div word_less_nat_alt)
    with False show ?thesis by (subst emul_division_loop.simps) auto
  qed
qed

lemma emul_division_loop_zero:
  assumes ret: "emul_division_loop val dv cnt = Some r"
  shows "dv \<noteq> 0 \<or> val = 0"
proof (rule emul_division_loop.raw_induct [where P = "\<lambda>val dv cnt r. dv \<noteq> 0 \<or> val = 0", OF _ ret])
  fix f :: "u64 \<Rightarrow> u64 \<Rightarrow> u64 \<Rightarrow> u64 option" and val dv cnt r :: u64
  assume IH: "\<And>val dv cnt r. f val dv cnt = Some r \<Longrightarrow> dv \<noteq> 0 \<or> val = 0"
    and eq: "(if dv < val then f (val - dv) dv (cnt + 1) else Some cnt) = Some r"
  show "dv \<noteq> 0 \<or> val = (0 :: u64)"
    using IH [of "val - dv" dv "cnt + 1" r] eq by (auto split: if_splits simp: word_gt_0)
qed

subsection \<open>Properties of the arbiter\<close>

text \<open>A configuration of three cells with ids 1, 2, 3 on the CPUs 0, 1, 2, used by the witnesses.\<close>

definition demo_cell :: "nat \<Rightarrow> cell" where
  "demo_cell i = \<lparr>cell_config_id = of_nat (i + 1),
     cell_cpu_set = \<lparr>max_cpu_id = i, bitmap = [push_bit i 1]\<rparr>\<rparr>"

definition demo_cells :: "cell list" where
  "demo_cells = map demo_cell [0, 1, 2]"

definition demo_cpu :: "nat \<Rightarrow> per_cpu" where
  "demo_cpu i = \<lparr>cpu_id = i, cpu_cell = demo_cell i\<rparr>"

lemma demo_cell_cpu: "cell_cpu (demo_cell 0) = 0" "cell_cpu (demo_cell 1) = 1" "cell_cpu (demo_cell 2) = 2"
  by code_simp+

lemma demo_wf: "wf_cells demo_cells"
  unfolding wf_cells_def demo_cells_def by code_simp

lemma demo_caller: "i < 3 \<Longrightarrow> caller_ok demo_cells (demo_cpu i)"
proof -
  assume "i < 3"
  then consider "i = 0" | "i = 1" | "i = 2" by linarith
  then show ?thesis by cases (auto simp: caller_ok_def demo_cpu_def demo_cells_def demo_cell_cpu [simplified])
qed

lemma demo_owner_reachable:
  "fp_reachable demo_cells \<lparr>memory_requests = [5, 0, 0, 0, 0, 0], token_owner = 0, token_priority = 5\<rparr>"
proof (rule fp_next [OF fp_start])
  show "fp_step demo_cells fp_init []
     \<lparr>memory_requests = [5, 0, 0, 0, 0, 0], token_owner = 0, token_priority = 5\<rparr>"
    by (rule fp_hyper [of _ "demo_cpu 0" 0 0 0 1 _ _ _ ARB_ACK]) (rule demo_caller, simp, code_simp)
qed

lemma demo_waiting_reachable:
  "fp_reachable demo_cells \<lparr>memory_requests = [5, 4, 3, 0, 0, 0], token_owner = 0, token_priority = 5\<rparr>"
proof (rule fp_next [OF fp_next [OF demo_owner_reachable]])
  show "fp_step demo_cells \<lparr>memory_requests = [5, 0, 0, 0, 0, 0], token_owner = 0, token_priority = 5\<rparr> []
     \<lparr>memory_requests = [5, 0, 3, 0, 0, 0], token_owner = 0, token_priority = 5\<rparr>"
    by (rule fp_hyper [of _ "demo_cpu 2" 0 0 0 1 _ _ _ ARB_NACK]) (rule demo_caller, simp, code_simp)
  show "fp_step demo_cells \<lparr>memory_requests = [5, 0, 3, 0, 0, 0], token_owner = 0, token_priority = 5\<rparr> []
     \<lparr>memory_requests = [5, 4, 3, 0, 0, 0], token_owner = 0, token_priority = 5\<rparr>"
    by (rule fp_hyper [of _ "demo_cpu 1" 0 0 0 1 _ _ _ ARB_NACK]) (rule demo_caller, simp, code_simp)
qed

lemma fp_inv_highest:
  assumes inv: "fp_inv cells s" and i: "i < NUM_REQUESTS" "memory_requests s ! i \<noteq> 0"
  shows "token_owner s < NUM_REQUESTS \<and> memory_requests s ! i \<le> memory_requests s ! token_owner s
    \<and> memory_requests s ! token_owner s \<noteq> 0"
proof -
  have b: "memory_requests s ! i \<le> token_priority s" using inv i fp_inv_bound by blast
  then have "token_owner s \<noteq> TOKEN_FREE" using i inv fp_inv_free by fastforce
  with b inv fp_inv_owner show ?thesis by metis
qed

lemma fp_win_iff:
  assumes "wf_cells cells" "caller_ok cells pc" and inv: "fp_inv cells s"
    and other: "token_owner s \<noteq> cpu_id pc"
  shows "token_priority s < p \<longleftrightarrow>
    p \<noteq> 0 \<and> (\<forall>j<NUM_REQUESTS. j \<noteq> cpu_id pc \<longrightarrow> memory_requests s ! j < p)"
proof (cases "token_owner s = TOKEN_FREE")
  case True
  then have "token_priority s = 0" using inv by (rule fp_inv_free [rotated])
  then show ?thesis using fp_inv_bound [OF inv] by (auto simp: word_neq_0_gt order_le_less_trans)
next
  case False
  then have "token_owner s < NUM_REQUESTS" "memory_requests s ! token_owner s = token_priority s"
    using fp_inv_owner [OF inv] by auto
  with other fp_inv_bound [OF inv] show ?thesis
    by (metis leD not_less_iff_gr_or_eq order_le_less_trans word_gt_0 word_neq_0_gt)
qed

lemma request_memory_spec:
  assumes wf: "wf_cells cells" and ok: "caller_ok cells pc" and inv: "fp_inv cells s"
  obtains s' out where
    "request_memory pc s = Some (s', out, token_owner s' = cpu_id pc)" "fp_inv cells s'"
    "memory_requests s' = (memory_requests s)[cpu_id pc := cell_priority (cpu_cell pc)]"
    "token_owner s' = cpu_id pc \<longleftrightarrow> token_owner s = cpu_id pc
       \<or> cell_priority (cpu_cell pc) \<noteq> 0
         \<and> (\<forall>j<NUM_REQUESTS. j \<noteq> cpu_id pc \<longrightarrow> memory_requests s ! j < cell_priority (cpu_cell pc))"
    "token_owner s' = cpu_id pc \<or> token_owner s' = token_owner s"
    "out = (if token_owner s' \<noteq> token_owner s \<and> token_owner s \<noteq> TOKEN_FREE
            then [(token_owner s, SGI_MEMORY_PHASE_ENDED)] else [])"
proof -
  let ?p = "cell_priority (cpu_cell pc)"
  have i: "cpu_id pc < length (memory_requests s)"
    using caller_ok_range [OF wf ok] fp_inv_length [OF inv] by simp
  obtain s' out got where r: "request_memory pc s = Some (s', out, got)"
    using i by (cases "token_priority s < ?p") (auto simp: request_memory_eq)
  have inv': "fp_inv cells s'" using request_memory_inv [OF wf ok inv r] .
  show ?thesis
  proof (cases "token_priority s < ?p")
    case True
    then have "token_owner s \<noteq> cpu_id pc" using owner_priority [OF wf ok inv] by auto
    then show ?thesis
      using that [of s' out] r inv' True i fp_win_iff [OF wf ok inv, of ?p]
      by (auto simp: request_memory_eq)
  next
    case False
    then show ?thesis
      using that [of s' out] r inv' i fp_win_iff [OF wf ok inv, of ?p]
      by (auto simp: request_memory_eq)
  qed
qed

lemma disable_memory_request_spec:
  assumes wf: "wf_cells cells" and inv: "fp_inv cells s" and cpu: "cpu < NUM_REQUESTS"
  obtains s' out where
    "disable_memory_request cells cpu s = Some (s', out)" "fp_inv cells s'" "token_owner s' \<noteq> cpu"
    "memory_requests s' = (memory_requests s)[cpu := 0]"
    "token_owner s \<noteq> cpu \<Longrightarrow> token_owner s' = token_owner s"
    "out = (if token_owner s = cpu \<and> token_owner s' \<noteq> TOKEN_FREE
            then [(token_owner s', SGI_MEMORY_PHASE_STARTED)] else [])"
proof -
  have i: "cpu < length (memory_requests s)" using cpu fp_inv_length [OF inv] by simp
  obtain s' out where d: "disable_memory_request cells cpu s = Some (s', out)"
    using wf inv cpu by (rule disable_total)
  have inv': "fp_inv cells s'" using disable_memory_request_inv [OF wf inv cpu d] .
  have req: "memory_requests s' = (memory_requests s)[cpu := 0]"
    using d i by (auto simp: disable_memory_request_def TOKEN_NULL_PRIORITY_def Let_def split: if_splits bind_splits)
  have "token_owner s' \<noteq> cpu"
  proof
    assume own: "token_owner s' = cpu"
    then have "memory_requests s' ! cpu \<noteq> 0"
      using fp_inv_owner [OF inv'] cpu cpu_not_free by metis
    with req i show False by simp
  qed
  with that [OF d inv' _ req] show ?thesis
    using d i by (auto simp: disable_memory_request_def Let_def split: if_splits bind_splits)
qed

text \<open>A configuration with a cell of two CPUs: cell 1 has the CPUs 0 and 1, cell 2 the CPU 2.\<close>

definition pair_cell :: cell where
  "pair_cell = \<lparr>cell_config_id = 1, cell_cpu_set = \<lparr>max_cpu_id = 2, bitmap = [3]\<rparr>\<rparr>"

definition single_cell :: cell where
  "single_cell = \<lparr>cell_config_id = 2, cell_cpu_set = \<lparr>max_cpu_id = 2, bitmap = [4]\<rparr>\<rparr>"

lemma pair_cpus: "cell_cpus pair_cell = {0, 1}" "cell_cpus single_cell = {2}" "cell_cpu pair_cell = 0" "cell_cpu single_cell = 2"
proof -
  have "for_each_cpu (cell_cpu_set pair_cell) = [0, 1]" "for_each_cpu (cell_cpu_set single_cell) = [2]" by code_simp+
  then show "cell_cpus pair_cell = {0, 1}" "cell_cpus single_cell = {2}" by (auto simp: cell_cpus_def)
  show "cell_cpu pair_cell = 0" "cell_cpu single_cell = 2" by code_simp+
qed

lemma pair_cells_ok: "cells_ok [pair_cell, single_cell]"
  by (simp add: cells_ok_def pair_cpus NUM_REQUESTS_def) (simp add: pair_cell_def single_cell_def)

text \<open>CPU 2 takes the token, CPU 1, the second of its cell, takes it away, and CPU 0 of the same cell waits.\<close>

lemma pair_reachable:
  "arb_reachable [pair_cell, single_cell] \<lparr>memory_requests = [5, 5, 4, 0, 0, 0], token_owner = 1, token_priority = 5\<rparr>"
proof (rule arb_next [OF arb_next [OF arb_next [OF arb_start [OF pair_cells_ok]]]])
  show "arb_step [pair_cell, single_cell] fp_init [] \<lparr>memory_requests = [0, 0, 4, 0, 0, 0], token_owner = 2, token_priority = 4\<rparr>"
    by (rule arb_hyper [of "\<lparr>cpu_id = 2, cpu_cell = single_cell\<rparr>" _ 0 0 0 1 _ _ _ ARB_ACK]) (simp, simp add: pair_cpus, code_simp)
  show "arb_step [pair_cell, single_cell] \<lparr>memory_requests = [0, 0, 4, 0, 0, 0], token_owner = 2, token_priority = 4\<rparr>
     [(2, SGI_MEMORY_PHASE_ENDED)] \<lparr>memory_requests = [0, 5, 4, 0, 0, 0], token_owner = 1, token_priority = 5\<rparr>"
    by (rule arb_hyper [of "\<lparr>cpu_id = 1, cpu_cell = pair_cell\<rparr>" _ 0 0 0 1 _ _ _ ARB_ACK]) (simp, simp add: pair_cpus, code_simp)
  show "arb_step [pair_cell, single_cell] \<lparr>memory_requests = [0, 5, 4, 0, 0, 0], token_owner = 1, token_priority = 5\<rparr>
     [] \<lparr>memory_requests = [5, 5, 4, 0, 0, 0], token_owner = 1, token_priority = 5\<rparr>"
    by (rule arb_hyper [of "\<lparr>cpu_id = 0, cpu_cell = pair_cell\<rparr>" _ 0 0 0 1 _ _ _ ARB_NACK]) (simp, simp add: pair_cpus, code_simp)
qed

text \<open>
  C1: the token among the requesters. In every state the arbiter reaches, with hypercalls from every CPU of every cell, any CPU parked at any time and
  cells created and destroyed (a CPU with an open request staying in a cell of its id and not becoming its first CPU): an open request is the
  priority of the CPU's cell; a held token belongs to a CPU with an open request, at that CPU's priority; and when the first CPU of a cell has an open request, the token
  is held, at a priority that is not lower. The last part is about first CPUs, the only ones the election at a release looks at
  (\<open>second_cpu_stranded\<close> below is what happens to the others).
\<close>

theorem fp_token_held_by_highest:
  assumes "arb_reachable cells s"
  shows "(\<forall>i<NUM_REQUESTS. memory_requests s ! i \<noteq> 0 \<longrightarrow> (\<exists>c\<in>set cells. i \<in> cell_cpus c \<and> memory_requests s ! i = cell_priority c))
    \<and> (token_owner s = TOKEN_FREE \<or> token_owner s < NUM_REQUESTS \<and> memory_requests s ! token_owner s = token_priority s \<and> token_priority s \<noteq> 0)
    \<and> (\<forall>c\<in>set cells. memory_requests s ! cell_cpu c \<noteq> 0 \<longrightarrow>
        token_owner s \<noteq> TOKEN_FREE \<and> memory_requests s ! cell_cpu c \<le> memory_requests s ! token_owner s)"
proof (intro conjI ballI impI)
  have inv: "arb_inv cells s" using arb_reachable_inv [OF assms] by simp
  show "\<forall>i<NUM_REQUESTS. memory_requests s ! i \<noteq> 0 \<longrightarrow> (\<exists>c\<in>set cells. i \<in> cell_cpus c \<and> memory_requests s ! i = cell_priority c)"
    using arb_invD(2) [OF inv] by blast
  show "token_owner s = TOKEN_FREE \<or> token_owner s < NUM_REQUESTS \<and> memory_requests s ! token_owner s = token_priority s \<and> token_priority s \<noteq> 0"
    using arb_invD(5) [OF inv] by blast
  fix c assume c: "c \<in> set cells" "memory_requests s ! cell_cpu c \<noteq> 0"
  show held: "token_owner s \<noteq> TOKEN_FREE" using arb_invD(3) [OF inv c(1)] arb_invD(4) [OF inv] c(2) by auto
  show "memory_requests s ! cell_cpu c \<le> memory_requests s ! token_owner s"
    using arb_invD(3) [OF inv c(1)] arb_invD(5) [OF inv held] by simp
qed

theorem fp_token_held_by_highest_witness:
  "let s = \<lparr>memory_requests = [5, 5, 4, 0, 0, 0], token_owner = 1, token_priority = 5\<rparr> in
   token_owner s \<noteq> TOKEN_FREE \<and> memory_requests s ! cell_cpu pair_cell \<le> memory_requests s ! token_owner s
     \<and> memory_requests s ! cell_cpu single_cell \<le> memory_requests s ! token_owner s"
  using fp_token_held_by_highest [OF pair_reachable] by (simp add: Let_def pair_cpus)

text \<open>
  A CPU that is not the first of its cell can be left waiting for a token that is free: while the first CPU of its cell holds the token its request is
  entered in the table, and the release does not look at it.
\<close>

lemma elect_none:
  assumes "\<forall>c\<in>set cells. cell_cpu c < length reqs \<and> reqs ! cell_cpu c = 0"
  shows "elect reqs cells TOKEN_FREE 0 = Some (TOKEN_FREE, 0)"
  using assms by (induction cells) (auto simp: arr_get_def)

theorem second_cpu_stranded:
  assumes ok: "cells_ok cells" and c: "c \<in> set cells" "cell_priority c \<noteq> 0" and i: "i \<in> cell_cpus c" "i \<noteq> cell_cpu c"
  shows "\<exists>s. arb_reachable cells s \<and> memory_requests s ! i = cell_priority c \<and> token_owner s = TOKEN_FREE"
proof -
  let ?f = "cell_cpu c" and ?p = "cell_priority c"
  let ?r0 = "memory_requests fp_init"
  let ?s1 = "\<lparr>memory_requests = ?r0[?f := ?p], token_owner = ?f, token_priority = ?p\<rparr>"
  let ?s2 = "?s1\<lparr>memory_requests := ?r0[?f := ?p, i := ?p]\<rparr>"
  let ?s3 = "\<lparr>memory_requests = ?r0[?f := ?p, i := ?p, ?f := 0], token_owner = TOKEN_FREE, token_priority = 0\<rparr>"
  have lt: "?f < NUM_REQUESTS" "i < NUM_REQUESTS" using cells_okD(2,3) [OF ok c(1)] i by auto
  have len: "length ?r0 = NUM_REQUESTS" by (simp add: fp_init_def)
  have 1: "request_memory \<lparr>cpu_id = ?f, cpu_cell = c\<rparr> fp_init = Some (?s1, [], True)"
    using lt c(2) len by (simp add: request_memory_eq) (simp add: fp_init_def TOKEN_NULL_PRIORITY_def word_neq_0_gt)
  have 2: "request_memory \<lparr>cpu_id = i, cpu_cell = c\<rparr> ?s1 = Some (?s2, [], False)"
    using lt i len by (simp add: request_memory_eq)
  have z: "?r0[?f := ?p, i := ?p, ?f := 0] ! cell_cpu d = 0" if d: "d \<in> set cells" for d
  proof -
    have "cell_cpu d \<noteq> i" using cells_okD(4) [OF ok c(1) d i(1)] cells_okD(1) [OF ok d] i(2) by auto
    then show ?thesis using lt len cells_okD(3) [OF ok d] by (cases "cell_cpu d = ?f") (auto simp: fp_init_def TOKEN_NULL_PRIORITY_def)
  qed
  then have "elect (?r0[?f := ?p, i := ?p, ?f := 0]) cells TOKEN_FREE 0 = Some (TOKEN_FREE, 0)"
    using cells_okD(3) [OF ok] len by (intro elect_none) simp
  then have 3: "disable_memory_request cells ?f ?s2 = Some (?s3, [])" using disable_owner [of ?s2 ?f cells TOKEN_FREE 0] lt len by simp
  note [simp] = fixed_priority_hypercall_def arb_consts
  have "arb_reachable cells ?s1"
    by (rule arb_next [OF arb_start [OF ok] arb_hyper [of "\<lparr>cpu_id = ?f, cpu_cell = c\<rparr>" _ 0 0 0 1 _ _ "[]" ARB_ACK]])
      (use 1 c(1) cells_okD(1) [OF ok c(1)] in simp_all)
  then have "arb_reachable cells ?s2"
    by (rule arb_next [OF _ arb_hyper [of "\<lparr>cpu_id = i, cpu_cell = c\<rparr>" _ 0 0 0 1 _ _ "[]" ARB_NACK]]) (use 2 c(1) i(1) in simp_all)
  then have "arb_reachable cells ?s3"
    by (rule arb_next [OF _ arb_hyper [of "\<lparr>cpu_id = ?f, cpu_cell = c\<rparr>" _ 0 0 0 2 _ _ "[]" ARB_ACK]])
      (use 3 c(1) cells_okD(1) [OF ok c(1)] in simp_all)
  moreover have "memory_requests ?s3 ! i = ?p" using lt i len by simp
  ultimately show ?thesis by (intro exI [of _ ?s3]) simp
qed

theorem second_cpu_stranded_example:
  "\<exists>s. arb_reachable [pair_cell, single_cell] s \<and> memory_requests s ! 1 = 5 \<and> token_owner s = TOKEN_FREE"
  using second_cpu_stranded [OF pair_cells_ok, of pair_cell 1] pair_cpus by (simp add: cell_priority_def pair_cell_def MAX_PRIORITY_def)

text \<open>
  C12: the BEGIN hypercall of the first CPU of a cell, where these are the CPUs that call the arbiter, always returns; it answers ACK exactly when the caller holds the token
  afterwards, which is the case exactly when it held it before or its priority is non-zero and
  above every other pending request; the only interrupt it raises is one ENDED SGI to the owner
  it displaces.
\<close>

theorem fp_begin_spec:
  assumes "wf_cells cells" "caller_ok cells pc" "fp_reachable cells s"
  shows "\<exists>s' out. fixed_priority_hypercall cells freq t0 t1 pc JAILHOUSE_MEMORY_ARBITRATION_BEGIN_MEM_PHASE s
      = Some (s', out, if token_owner s' = cpu_id pc then ARB_ACK else ARB_NACK)
    \<and> memory_requests s' = (memory_requests s)[cpu_id pc := cell_priority (cpu_cell pc)]
    \<and> (token_owner s' = cpu_id pc \<longleftrightarrow> token_owner s = cpu_id pc
         \<or> cell_priority (cpu_cell pc) \<noteq> 0
           \<and> (\<forall>j<NUM_REQUESTS. j \<noteq> cpu_id pc \<longrightarrow> memory_requests s ! j < cell_priority (cpu_cell pc)))
    \<and> (token_owner s' = cpu_id pc \<or> token_owner s' = token_owner s)
    \<and> out = (if token_owner s' \<noteq> token_owner s \<and> token_owner s \<noteq> TOKEN_FREE
             then [(token_owner s, SGI_MEMORY_PHASE_ENDED)] else [])"
proof -
  note inv = fp_reachable_inv [OF assms(3,1)]
  obtain s' out where r: "request_memory pc s = Some (s', out, token_owner s' = cpu_id pc)"
    "memory_requests s' = (memory_requests s)[cpu_id pc := cell_priority (cpu_cell pc)]"
    "token_owner s' = cpu_id pc \<longleftrightarrow> token_owner s = cpu_id pc
       \<or> cell_priority (cpu_cell pc) \<noteq> 0
         \<and> (\<forall>j<NUM_REQUESTS. j \<noteq> cpu_id pc \<longrightarrow> memory_requests s ! j < cell_priority (cpu_cell pc))"
    "token_owner s' = cpu_id pc \<or> token_owner s' = token_owner s"
    "out = (if token_owner s' \<noteq> token_owner s \<and> token_owner s \<noteq> TOKEN_FREE
            then [(token_owner s, SGI_MEMORY_PHASE_ENDED)] else [])"
    using assms(1,2) inv by (rule request_memory_spec)
  show ?thesis
    by (rule exI [of _ s'], rule exI [of _ out]) (use r in \<open>simp add: fixed_priority_hypercall_def\<close>)
qed

theorem fp_begin_spec_witness:
  "\<exists>s' out. fixed_priority_hypercall demo_cells 0 0 0 (demo_cpu 1) JAILHOUSE_MEMORY_ARBITRATION_BEGIN_MEM_PHASE
      \<lparr>memory_requests = [5, 0, 0, 0, 0, 0], token_owner = 0, token_priority = 5\<rparr>
      = Some (s', out, if token_owner s' = 1 then ARB_ACK else ARB_NACK)"
  using fp_begin_spec [OF demo_wf demo_caller demo_owner_reachable, of 1 0 0 0]
  by (auto simp: demo_cpu_def)

text \<open>
  The END hypercall always returns ACK and clears the caller's request. When the caller held
  the token, the token goes to a waiting requester of highest priority, which receives the only
  SGI (STARTED), or becomes free when nobody waits; otherwise the owner is unchanged and no
  interrupt is raised.
\<close>

theorem fp_end_spec:
  assumes "wf_cells cells" "caller_ok cells pc" "fp_reachable cells s"
  shows "\<exists>s' out. fixed_priority_hypercall cells freq t0 t1 pc JAILHOUSE_MEMORY_ARBITRATION_END_MEM_PHASE s
      = Some (s', out, ARB_ACK)
    \<and> memory_requests s' = (memory_requests s)[cpu_id pc := 0]
    \<and> token_owner s' \<noteq> cpu_id pc
    \<and> (token_owner s \<noteq> cpu_id pc \<longrightarrow> token_owner s' = token_owner s)
    \<and> (if \<forall>j<NUM_REQUESTS. memory_requests s' ! j = 0 then token_owner s' = TOKEN_FREE
       else token_owner s' < NUM_REQUESTS
         \<and> (\<forall>j<NUM_REQUESTS. memory_requests s' ! j \<le> memory_requests s' ! token_owner s'))
    \<and> out = (if token_owner s = cpu_id pc \<and> token_owner s' \<noteq> TOKEN_FREE
             then [(token_owner s', SGI_MEMORY_PHASE_STARTED)] else [])"
proof -
  have i: "cpu_id pc < NUM_REQUESTS" using assms(1,2) by (rule caller_ok_range)
  obtain s' out where d: "disable_memory_request cells (cpu_id pc) s = Some (s', out)"
    "token_owner s' \<noteq> cpu_id pc" "memory_requests s' = (memory_requests s)[cpu_id pc := 0]"
    "token_owner s \<noteq> cpu_id pc \<longrightarrow> token_owner s' = token_owner s"
    "out = (if token_owner s = cpu_id pc \<and> token_owner s' \<noteq> TOKEN_FREE
            then [(token_owner s', SGI_MEMORY_PHASE_STARTED)] else [])" and inv': "fp_inv cells s'"
    using assms(1) fp_reachable_inv [OF assms(3,1)] i by (rule disable_memory_request_spec) blast
  have h: "if \<forall>j<NUM_REQUESTS. memory_requests s' ! j = 0 then token_owner s' = TOKEN_FREE
       else token_owner s' < NUM_REQUESTS
         \<and> (\<forall>j<NUM_REQUESTS. memory_requests s' ! j \<le> memory_requests s' ! token_owner s')"
  proof (cases "\<forall>j<NUM_REQUESTS. memory_requests s' ! j = 0")
    case True
    then show ?thesis using fp_inv_owner [OF inv'] by metis
  next
    case False
    then have "token_owner s' < NUM_REQUESTS" using fp_inv_highest [OF inv'] by blast
    moreover have "memory_requests s' ! k \<le> memory_requests s' ! token_owner s'" if "k < NUM_REQUESTS" for k
      using fp_inv_highest [OF inv' that] by (cases "memory_requests s' ! k = 0") auto
    ultimately show ?thesis using False by auto
  qed
  show ?thesis
    by (rule exI [of _ s'], rule exI [of _ out])
      (use d h in \<open>simp add: fixed_priority_hypercall_def arb_consts\<close>)
qed

theorem fp_end_spec_example:
  "\<exists>s' out. fixed_priority_hypercall demo_cells 0 0 0 (demo_cpu 0) JAILHOUSE_MEMORY_ARBITRATION_END_MEM_PHASE
      \<lparr>memory_requests = [5, 4, 3, 0, 0, 0], token_owner = 0, token_priority = 5\<rparr>
      = Some (s', out, ARB_ACK) \<and> token_owner s' \<noteq> 0"
  using fp_end_spec [OF demo_wf demo_caller demo_waiting_reachable, of 0 0 0 0]
  by (auto simp: demo_cpu_def)

text \<open>
  Among cells with ids up to \<open>MAX_PRIORITY\<close> a larger id means a lower priority; beyond that
  the unsigned subtraction wraps, and such a cell outranks every cell with a smaller id.
\<close>

theorem fp_priority_order:
  "(cell_config_id c < cell_config_id d \<and> cell_config_id d \<le> MAX_PRIORITY
      \<longrightarrow> cell_priority d < cell_priority c)
   \<and> (cell_config_id c \<le> MAX_PRIORITY \<and> MAX_PRIORITY < cell_config_id d
      \<longrightarrow> cell_priority c < cell_priority d)"
  unfolding cell_priority_def MAX_PRIORITY_def by (intro conjI impI; elim conjE; uint_arith)

theorem fp_priority_order_example:
  "cell_priority (demo_cell 1) < cell_priority (demo_cell 0)
   \<and> cell_priority (demo_cell 1) < cell_priority (demo_cell 6)"
  using fp_priority_order [of "demo_cell 0" "demo_cell 1"]
    fp_priority_order [of "demo_cell 1" "demo_cell 6"]
  by (simp add: demo_cell_def MAX_PRIORITY_def)

text \<open>
  The emulated division of a non-zero value by a non-zero divisor ends and yields
  \<open>(val - 1) div dv\<close> (one less than the quotient on exact multiples); with divisor 0 it
  ends only for the value 0.
\<close>

theorem emul_division_spec:
  "(dv \<noteq> 0 \<longrightarrow> emul_division val dv = Some (if val = 0 then 0 else (val - 1) div dv))
   \<and> (emul_division val 0 \<noteq> None \<longleftrightarrow> val = 0)"
proof -
  have "emul_division_loop 0 0 0 = Some 0" by (subst emul_division_loop.simps) simp
  then show ?thesis
    using emul_division_loop_zero [of val 0 0] emul_division_loop_result [of dv val 0]
    by (auto simp: emul_division_def)
qed

theorem emul_division_spec_example:
  "emul_division 10 3 = Some 3 \<and> emul_division 9 3 = Some 2 \<and> emul_division 1 0 = None"
  using emul_division_spec [of 3 10] emul_division_spec [of 3 9] emul_division_spec [of 3 1]
  by simp

subsection \<open>The arbiter contract\<close>

text \<open>
  The contract of \<open>MemoryArbiter\<close> for this arbiter. \<open>pcs\<close> is the array of per-CPU data; the
  cores are the CPUs whose cell has a non-zero priority.
\<close>

definition fp_ok :: "cell list \<Rightarrow> (nat \<Rightarrow> per_cpu) \<Rightarrow> fp_state \<Rightarrow> bool" where
  "fp_ok cells pcs s \<longleftrightarrow> wf_cells cells \<and> fp_inv cells s
     \<and> (\<forall>e\<in>set cells. cell_priority e \<noteq> 0 \<and> pcs (cell_cpu e) = \<lparr>cpu_id = cell_cpu e, cpu_cell = e\<rparr>)"

definition fp_requesting :: "fp_state \<Rightarrow> nat \<Rightarrow> bool" where
  "fp_requesting s c \<longleftrightarrow> c < NUM_REQUESTS \<and> memory_requests s ! c \<noteq> 0"

definition fp_holds :: "fp_state \<Rightarrow> nat \<Rightarrow> bool" where
  "fp_holds s c \<longleftrightarrow> c < NUM_REQUESTS \<and> token_owner s = c"

definition fp_cores :: "cell list \<Rightarrow> nat set" where
  "fp_cores cells = cell_cpu ` set cells"

lemma fp_cores_caller:
  "fp_ok cells pcs s \<Longrightarrow> c \<in> fp_cores cells \<Longrightarrow> caller_ok cells (pcs c) \<and> cpu_id (pcs c) = c"
  by (auto simp: fp_cores_def caller_ok_def fp_ok_def)

lemma fp_cores_range: "wf_cells cells \<Longrightarrow> c \<in> fp_cores cells \<Longrightarrow> c < NUM_REQUESTS"
  by (auto simp: fp_cores_def wf_cells_def)

lemma fp_begin_law:
  assumes ok: "fp_ok cells pcs s" and c: "c \<in> fp_cores cells" and n: "\<not> fp_requesting s c"
  obtains s' out where "request_memory (pcs c) s = Some (s', out, fp_holds s' c)" "fp_ok cells pcs s'"
    "fp_requesting s' c" "\<And>d. d \<noteq> c \<Longrightarrow> fp_requesting s' d = fp_requesting s d"
    "\<And>d. sgis_for d out = (if d = c then [] else signal (fp_holds s d) (fp_holds s' d))"
proof -
  have wf: "wf_cells cells" and inv: "fp_inv cells s" using ok by (auto simp: fp_ok_def)
  have cal: "caller_ok cells (pcs c)" and id: "cpu_id (pcs c) = c" using ok c fp_cores_caller by auto
  have i: "c < NUM_REQUESTS" and len: "length (memory_requests s) = NUM_REQUESTS"
    using wf c inv fp_cores_range fp_inv_length by auto
  have p: "cell_priority (cpu_cell (pcs c)) \<noteq> 0"
    using ok cal by (auto simp: fp_ok_def caller_ok_def)
  have not_own: "token_owner s \<noteq> c"
    using n i inv fp_inv_owner cpu_not_free by (metis fp_requesting_def)
  obtain s' out where r: "request_memory (pcs c) s = Some (s', out, token_owner s' = c)" "fp_inv cells s'"
    "memory_requests s' = (memory_requests s)[c := cell_priority (cpu_cell (pcs c))]"
    "token_owner s' = c \<or> token_owner s' = token_owner s"
    "out = (if token_owner s' \<noteq> token_owner s \<and> token_owner s \<noteq> TOKEN_FREE
            then [(token_owner s, SGI_MEMORY_PHASE_ENDED)] else [])"
    using request_memory_spec [OF wf cal inv] id by metis
  show ?thesis
  proof (rule that)
    show "request_memory (pcs c) s = Some (s', out, fp_holds s' c)" using r(1) i by (simp add: fp_holds_def)
    show "fp_ok cells pcs s'" using ok r(2) by (simp add: fp_ok_def)
    show "fp_requesting s' c" using r(3) i len p by (simp add: fp_requesting_def)
    show "fp_requesting s' d = fp_requesting s d" if "d \<noteq> c" for d
      using r(3) that by (simp add: fp_requesting_def)
    show "sgis_for d out = (if d = c then [] else signal (fp_holds s d) (fp_holds s' d))" for d
      using r(4,5) not_own i fp_inv_owner [OF inv] cpu_not_free
      by (auto simp: signal_def fp_holds_def)
  qed
qed

lemma fp_end_law:
  assumes ok: "fp_ok cells pcs s" and c: "c \<in> fp_cores cells"
  obtains s' out where "disable_memory_request cells c s = Some (s', out)" "fp_ok cells pcs s'"
    "\<not> fp_requesting s' c" "\<And>d. d \<noteq> c \<Longrightarrow> fp_requesting s' d = fp_requesting s d"
    "\<And>d. sgis_for d out = (if d = c then [] else signal (fp_holds s d) (fp_holds s' d))"
proof -
  have wf: "wf_cells cells" and inv: "fp_inv cells s" using ok by (auto simp: fp_ok_def)
  have i: "c < NUM_REQUESTS" and len: "length (memory_requests s) = NUM_REQUESTS"
    using wf c inv fp_cores_range fp_inv_length by auto
  obtain s' out where d: "disable_memory_request cells c s = Some (s', out)" "fp_inv cells s'"
    "token_owner s' \<noteq> c" "memory_requests s' = (memory_requests s)[c := 0]"
    "token_owner s \<noteq> c \<longrightarrow> token_owner s' = token_owner s"
    "out = (if token_owner s = c \<and> token_owner s' \<noteq> TOKEN_FREE
            then [(token_owner s', SGI_MEMORY_PHASE_STARTED)] else [])"
    using disable_memory_request_spec [OF wf inv i] by metis
  show ?thesis
  proof (rule that)
    show "disable_memory_request cells c s = Some (s', out)" by (fact d(1))
    show "fp_ok cells pcs s'" using ok d(2) by (simp add: fp_ok_def)
    show "\<not> fp_requesting s' c" using d(4) len by (simp add: fp_requesting_def)
    show "fp_requesting s' e = fp_requesting s e" if "e \<noteq> c" for e
      using d(4) that by (simp add: fp_requesting_def)
    show "sgis_for e out = (if e = c then [] else signal (fp_holds s e) (fp_holds s' e))" for e
      using d(3,5,6) fp_inv_owner [OF d(2)] cpu_not_free by (auto simp: signal_def fp_holds_def)
  qed
qed

lemma fp_work_conserving:
  assumes "fp_ok cells pcs s" "fp_requesting s c"
  shows "\<exists>d\<in>fp_cores cells. fp_holds s d"
proof -
  have inv: "fp_inv cells s" using assms by (simp add: fp_ok_def)
  have own: "token_owner s < NUM_REQUESTS" "memory_requests s ! token_owner s \<noteq> 0"
    using fp_inv_highest [OF inv] assms(2) by (auto simp: fp_requesting_def)
  then obtain e where "e \<in> set cells" "cell_cpu e = token_owner s"
    using fp_inv_cell [OF inv] by metis
  with own show ?thesis by (auto simp: fp_holds_def fp_cores_def intro!: bexI [of _ e])
qed

interpretation fp: signalling_arbiter "fp_ok cells pcs" fp_requesting fp_holds "fp_cores cells"
  "\<lambda>c. request_memory (pcs c)" "disable_memory_request cells" for cells pcs
proof unfold_locales
  fix s c
  assume ok: "fp_ok cells pcs s"
  show "\<exists>s' out. request_memory (pcs c) s = Some (s', out, fp_holds s' c) \<and> fp_ok cells pcs s'
      \<and> fp_requesting s' c \<and> (\<forall>d. d \<noteq> c \<longrightarrow> fp_requesting s' d = fp_requesting s d)"
    if "c \<in> fp_cores cells" "\<not> fp_requesting s c"
    using ok that by (rule fp_begin_law) blast
  show "\<exists>s' out. disable_memory_request cells c s = Some (s', out) \<and> fp_ok cells pcs s'
      \<and> \<not> fp_requesting s' c \<and> (\<forall>d. d \<noteq> c \<longrightarrow> fp_requesting s' d = fp_requesting s d)"
    if "c \<in> fp_cores cells" "fp_requesting s c"
    using ok that(1) by (rule fp_end_law) blast
  show "fp_requesting s c" if "fp_holds s c"
    using ok that fp_inv_owner cpu_not_free by (fastforce simp: fp_ok_def fp_holds_def fp_requesting_def)
  show "c = d" if "fp_holds s c" "fp_holds s d" for d
    using that by (simp add: fp_holds_def)
  show "\<exists>d\<in>fp_cores cells. fp_holds s d" if "fp_requesting s c"
    using ok that by (rule fp_work_conserving)
  show "sgis_for d out = (if d = c then [] else signal (fp_holds s d) (fp_holds s' d))"
    if "c \<in> fp_cores cells" "\<not> fp_requesting s c" "request_memory (pcs c) s = Some (s', out, got)" for s' out got d
    using fp_begin_law [OF ok that(1,2)] that(3) by (metis option.inject prod.inject)
  show "sgis_for d out = (if d = c then [] else signal (fp_holds s d) (fp_holds s' d))"
    if "c \<in> fp_cores cells" "fp_requesting s c" "disable_memory_request cells c s = Some (s', out)" for s' out d
    using fp_end_law [OF ok that(1)] that(3) by (metis option.inject prod.inject)
qed

abbreviation fp_protocol :: "cell list \<Rightarrow> (nat \<Rightarrow> per_cpu) \<Rightarrow> fp_state proto \<Rightarrow> bool" where
  "fp_protocol cells pcs \<equiv>
     proto_reachable (\<lambda>c. request_memory (pcs c)) (disable_memory_request cells) (fp_cores cells) fp_init"

lemma fp_protocol_begin:
  "\<lbrakk>fp_protocol cells pcs p; c \<in> fp_cores cells; client p c = MEMORY_TOKEN_NONE; sgi_queue p c = [];
    request_memory (pcs c) (arb p) = Some (a, out, got)\<rbrakk> \<Longrightarrow>
   fp_protocol cells pcs \<lparr>arb = a, sgi_queue = post_sgis out (sgi_queue p),
     client = (client p)(c := if got then MEMORY_TOKEN_ACQUIRED else MEMORY_TOKEN_REQUESTED)\<rparr>"
  by (rule proto_next, assumption, rule proto_begin)

lemma fp_protocol_consistent:
  assumes "fp_ok cells pcs fp_init" "fp_protocol cells pcs p"
  shows "fp.consistent cells pcs p"
proof (rule fp.proto_reachable_consistent [OF assms(2,1)])
  show "\<not> fp_requesting fp_init c" for c
    by (simp add: fp_requesting_def fp_init_def TOKEN_NULL_PRIORITY_def)
qed

lemma demo_fp_ok: "fp_ok demo_cells demo_cpu fp_init"
  using demo_wf fp_inv_init unfolding fp_ok_def
  by (simp add: demo_cells_def demo_cpu_def demo_cell_cpu [simplified])
    (simp add: demo_cell_def cell_priority_def MAX_PRIORITY_def)

lemma demo_cores: "0 \<in> fp_cores demo_cells" "1 \<in> fp_cores demo_cells"
  by (auto simp: fp_cores_def demo_cells_def demo_cell_cpu [simplified])

text \<open>Core 1 takes the token, then core 0 takes it away.\<close>

lemma demo_preempted:
  "\<exists>p. fp_protocol demo_cells demo_cpu p \<and> client p = (\<lambda>_. MEMORY_TOKEN_NONE)(1 := MEMORY_TOKEN_ACQUIRED, 0 := MEMORY_TOKEN_ACQUIRED)
     \<and> sgi_queue p = (\<lambda>_. [])(1 := [SGI_MEMORY_PHASE_ENDED])
     \<and> arb p = \<lparr>memory_requests = [5, 4, 0, 0, 0, 0], token_owner = 0, token_priority = 5\<rparr>"
proof -
  have 1: "request_memory (demo_cpu 1) fp_init =
      Some (\<lparr>memory_requests = [0, 4, 0, 0, 0, 0], token_owner = 1, token_priority = 4\<rparr>, [], True)"
    by code_simp
  have 2: "request_memory (demo_cpu 0) \<lparr>memory_requests = [0, 4, 0, 0, 0, 0], token_owner = 1, token_priority = 4\<rparr> =
      Some (\<lparr>memory_requests = [5, 4, 0, 0, 0, 0], token_owner = 0, token_priority = 5\<rparr>, [(1, SGI_MEMORY_PHASE_ENDED)], True)"
    by code_simp
  note s1 = fp_protocol_begin [OF proto_start demo_cores(2), where pcs = demo_cpu, simplified, OF 1 [simplified], simplified]
  note s2 = fp_protocol_begin [OF s1 demo_cores(1), unfolded post_sgis_def, simplified, OF 2 [simplified], simplified]
  show ?thesis by (rule exI, rule conjI, rule s2) (auto simp: post_sgis_def fun_eq_iff)
qed

lemma demo_waiting:
  "\<exists>p. fp_protocol demo_cells demo_cpu p \<and> client p 1 = MEMORY_TOKEN_REQUESTED \<and> sgi_queue p = (\<lambda>_. [])"
proof -
  obtain p where p: "fp_protocol demo_cells demo_cpu p" "client p 1 = MEMORY_TOKEN_ACQUIRED"
      "sgi_queue p = (\<lambda>_. [])(1 := [SGI_MEMORY_PHASE_ENDED])"
    using demo_preempted by auto
  show ?thesis
    by (rule exI, rule conjI, rule proto_next [OF p(1)], rule proto_deliver [OF demo_cores(2)])
      (auto simp: p(2,3) [simplified])
qed

text \<open>A guest with no interrupt on its way knows whether it holds the token.\<close>

theorem fp_protocol_quiet_agreement:
  assumes "fp_ok cells pcs fp_init" "fp_protocol cells pcs p" "c \<in> fp_cores cells" "sgi_queue p c = []"
  shows "(client p c = MEMORY_TOKEN_ACQUIRED \<longleftrightarrow> token_owner (arb p) = c)
    \<and> (client p c = MEMORY_TOKEN_NONE \<longleftrightarrow> memory_requests (arb p) ! c = 0)"
proof -
  note con = fp_protocol_consistent [OF assms(1,2)]
  have ok: "fp_ok cells pcs (arb p)" using con by (simp add: fp.consistent_def)
  then have "c < NUM_REQUESTS" using assms(3) fp_cores_range by (auto simp: fp_ok_def)
  moreover have "client p c = fp.view (arb p) c"
    using con assms(3,4) by (rule fp.quiet_status)
  moreover have "fp_holds (arb p) c \<Longrightarrow> fp_requesting (arb p) c"
    using ok by (rule fp.holds_requesting)
  ultimately show ?thesis
    by (auto simp: fp.view_def fp_holds_def fp_requesting_def split: if_splits)
qed

theorem fp_protocol_quiet_agreement_example:
  "\<exists>p. client p 1 = MEMORY_TOKEN_REQUESTED \<and> token_owner (arb (p :: fp_state proto)) \<noteq> 1
     \<and> memory_requests (arb p) ! 1 \<noteq> 0"
proof -
  obtain p where p: "fp_protocol demo_cells demo_cpu p" "client p 1 = MEMORY_TOKEN_REQUESTED"
      "sgi_queue p 1 = []"
    using demo_waiting by auto
  with fp_protocol_quiet_agreement [OF demo_fp_ok p(1) demo_cores(2) p(3)] show ?thesis by auto
qed

end
