(* ===== verification/IrqPending.thy ===== *)
theory IrqPending
  imports CpuSet "HOL-Library.Monad_Syntax" "HOL-Library.Multiset"
begin

text \<open>
  Delivery of virtual interrupts: the ring of pending interrupts each CPU has and the list
  registers of its GICv2 virtual interface,
  \<^verbatim>\<open>jailhouse-master_dprem/hypervisor/arch/arm-common/irqchip.c\<close> (queue part) and
  \<^verbatim>\<open>gic-v2.c\<close> (CPU interface part). This is the channel the arbiters use for their
  STARTED and ENDED interrupts.

  A CPU has its ring, its list registers and the few interface registers the code touches; writes
  to the shared distributor are recorded in program order as (offset, value). The hardware's
  "empty list register" status \<open>ELSR\<close> is computed from the list registers the way the GICv2
  architecture defines it: a register is free when neither its pending nor its active bit is
  set. The ring loop ends only if the tail is inside the ring, so it is a partial function and
  its termination is proved from the ring invariant.
\<close>

unbundle bit_operations_syntax

definition MAX_PENDING_IRQS :: nat where "MAX_PENDING_IRQS = 256"

definition GICH_LR_HW_BIT :: u32 where "GICH_LR_HW_BIT = 0x80000000"
definition GICH_LR_ACTIVE_BIT :: u32 where "GICH_LR_ACTIVE_BIT = 0x20000000"
definition GICH_LR_PENDING_BIT :: u32 where "GICH_LR_PENDING_BIT = 0x10000000"
definition GICH_LR_VIRT_ID_MASK :: u32 where "GICH_LR_VIRT_ID_MASK = 0x3ff"
definition GICH_HCR_EN :: u32 where "GICH_HCR_EN = 1"
definition GICH_HCR_UIE :: u32 where "GICH_HCR_UIE = 2"
definition GICH_VMCR_EN0 :: u32 where "GICH_VMCR_EN0 = 1"
definition GICH_VMCR_EOImode :: u32 where "GICH_VMCR_EOImode = 0x200"
definition GICC_CTLR_GRPEN1 :: u32 where "GICC_CTLR_GRPEN1 = 1"
definition GICC_CTLR_EOImode :: u32 where "GICC_CTLR_EOImode = 0x200"
definition GICC_PMR_DEFAULT :: u32 where "GICC_PMR_DEFAULT = 0xf0"
definition SGI_INJECT :: nat where "SGI_INJECT = 0"

definition GICD_ISENABLER :: nat where "GICD_ISENABLER = 0x100"
definition GICD_ICENABLER :: nat where "GICD_ICENABLER = 0x180"
definition GICD_ISPENDR :: nat where "GICD_ISPENDR = 0x200"
definition GICD_ICACTIVER :: nat where "GICD_ICACTIVER = 0x380"
definition GICD_SGIR :: nat where "GICD_SGIR = 0xf00"
definition GICD_SPENDSGIR :: nat where "GICD_SPENDSGIR = 0xf20"

record pending_irqs =
  irqs :: "u16 list"
  sender :: "u16 list"
  head :: nat
  tail :: nat

record irq_cpu =
  pending :: pending_irqs
  gich_lr :: "u32 list"
  gich_hcr :: u32
  gich_vmcr :: u32
  gich_apr :: u32
  gicc_ctlr :: u32
  gicc_pmr :: u32
  gicc_initialized :: bool

record irq_sys =
  irq_cpus :: "nat \<Rightarrow> irq_cpu"
  gicd_writes :: "(nat \<times> u32) list"
  gicv2_target_cpu_map :: "u8 list"

definition gicd_write :: "nat \<Rightarrow> u32 \<Rightarrow> irq_sys \<Rightarrow> irq_sys" where
  "gicd_write off v y = y\<lparr>gicd_writes := gicd_writes y @ [(off, v)]\<rparr>"

definition upd_cpu :: "nat \<Rightarrow> (irq_cpu \<Rightarrow> irq_cpu) \<Rightarrow> irq_sys \<Rightarrow> irq_sys" where
  "upd_cpu c f y = y\<lparr>irq_cpus := (irq_cpus y)(c := f (irq_cpus y c))\<rparr>"

definition is_sgi :: "u16 \<Rightarrow> bool" where
  "is_sgi irqn \<longleftrightarrow> irqn < 16"

subsection \<open>List registers\<close>

definition lr_free :: "u32 \<Rightarrow> bool" where
  "lr_free lr \<longleftrightarrow> lr AND (GICH_LR_PENDING_BIT OR GICH_LR_ACTIVE_BIT) = 0"

datatype inject_res = INJ_OK | INJ_EEXIST | INJ_EBUSY

text \<open>The scan over the list registers; \<open>None\<close> is the early return of \<open>-EEXIST\<close>.\<close>

fun lr_scan :: "u16 \<Rightarrow> nat \<Rightarrow> u32 list \<Rightarrow> nat option \<Rightarrow> nat option option" where
  "lr_scan irq_id i [] first_free = Some first_free"
| "lr_scan irq_id i (lr # lrs) first_free =
     (if lr_free lr then lr_scan irq_id (Suc i) lrs (if first_free = None then Some i else first_free)
      else if lr AND GICH_LR_VIRT_ID_MASK = ucast irq_id then None
      else lr_scan irq_id (Suc i) lrs first_free)"

definition make_lr :: "u16 \<Rightarrow> u16 \<Rightarrow> u32" where
  "make_lr irq_id snd_id =
     (ucast irq_id OR GICH_LR_PENDING_BIT) OR
     (if is_sgi irq_id then push_bit 10 (ucast (snd_id AND 7))
      else GICH_LR_HW_BIT OR push_bit 10 (ucast irq_id))"

definition gicv2_inject_irq :: "u16 \<Rightarrow> u16 \<Rightarrow> u32 list \<Rightarrow> u32 list \<times> inject_res" where
  "gicv2_inject_irq irq_id snd_id lrs =
     (case lr_scan irq_id 0 lrs None of
        None \<Rightarrow> (lrs, INJ_EEXIST)
      | Some None \<Rightarrow> (lrs, INJ_EBUSY)
      | Some (Some i) \<Rightarrow> (lrs[i := make_lr irq_id snd_id], INJ_OK))"

definition gicv2_enable_maint_irq :: "bool \<Rightarrow> irq_cpu \<Rightarrow> irq_cpu" where
  "gicv2_enable_maint_irq enable s =
     s\<lparr>gich_hcr := (if enable then gich_hcr s OR GICH_HCR_UIE else gich_hcr s AND NOT GICH_HCR_UIE)\<rparr>"

definition gicv2_has_pending_irqs :: "irq_cpu \<Rightarrow> bool" where
  "gicv2_has_pending_irqs s \<longleftrightarrow> list_ex (\<lambda>lr. lr AND GICH_LR_PENDING_BIT \<noteq> 0) (gich_lr s)"

fun get_pending_scan :: "u32 list \<Rightarrow> (u32 list \<times> u32) option" where
  "get_pending_scan [] = None"
| "get_pending_scan (lr # lrs) =
     (if lr AND GICH_LR_PENDING_BIT \<noteq> 0 then Some (0 # lrs, lr AND GICH_LR_VIRT_ID_MASK)
      else map_option (\<lambda>(ls, v). (lr # ls, v)) (get_pending_scan lrs))"

text \<open>\<open>None\<close> is the return value \<open>-ENOENT\<close>.\<close>

definition gicv2_get_pending_irq :: "irq_cpu \<Rightarrow> (irq_cpu \<times> u16) option" where
  "gicv2_get_pending_irq s =
     map_option (\<lambda>(ls, v). (s\<lparr>gich_lr := ls\<rparr>, ucast v)) (get_pending_scan (gich_lr s))"

definition gicv2_inject_phys_irq :: "u16 \<Rightarrow> irq_sys \<Rightarrow> irq_sys" where
  "gicv2_inject_phys_irq irq_id y =
     (let offset = unat irq_id div 32 * 4; mask = push_bit (unat irq_id mod 32) 1 in
      if is_sgi irq_id then gicd_write (GICD_SPENDSGIR + unat irq_id) 1 y
      else gicd_write (GICD_ISPENDR + offset) mask (gicd_write (GICD_ICACTIVER + offset) mask y))"

definition gicv2_clear_pending_irqs :: "irq_cpu \<Rightarrow> irq_cpu" where
  "gicv2_clear_pending_irqs s = s\<lparr>gich_lr := map (\<lambda>_. 0) (gich_lr s), gich_apr := 0\<rparr>"

text \<open>\<open>gicv2_send_sgi\<close>: \<open>None\<close> is \<open>-EINVAL\<close>.\<close>

definition gicv2_send_sgi :: "nat \<Rightarrow> u8 \<Rightarrow> u16 \<Rightarrow> irq_sys \<Rightarrow> irq_sys option" where
  "gicv2_send_sgi routing_mode targets sid y =
     (if \<not> is_sgi sid then None
      else Some (gicd_write GICD_SGIR
        (push_bit 24 (of_nat routing_mode AND 3) OR push_bit 16 (ucast targets AND 0xff) OR (ucast sid AND 0xf)) y))"

subsection \<open>The CPU interface at setup and shutdown\<close>

text \<open>
  \<open>num_lr\<close> list registers (from \<open>GICH_VTR\<close>); \<open>target\<close> is the byte read from the banked
  \<open>ITARGETSR\<close>. The result is an error flag: \<open>False\<close> for the two error returns.
\<close>

definition gicv2_cpu_init :: "nat \<Rightarrow> nat \<Rightarrow> u8 \<Rightarrow> nat \<Rightarrow> irq_sys \<Rightarrow> irq_sys \<times> bool" where
  "gicv2_cpu_init mnt_irq num_lr target c y0 =
     (let y1 = gicd_write GICD_ISENABLER (0xffff OR push_bit mnt_irq 1) y0;
          s = irq_cpus y1 c;
          cell_gicc_ctlr = gicc_ctlr s;
          cell_gicc_pmr = gicc_pmr s;
          vmcr = push_bit 27 (drop_bit 3 cell_gicc_pmr);
          vmcr = (if cell_gicc_ctlr AND GICC_CTLR_GRPEN1 \<noteq> 0 then vmcr OR GICH_VMCR_EN0 else vmcr);
          vmcr = (if cell_gicc_ctlr AND GICC_CTLR_EOImode \<noteq> 0 then vmcr OR GICH_VMCR_EOImode else vmcr);
          y2 = upd_cpu c (\<lambda>s. (gicv2_clear_pending_irqs
                 (s\<lparr>gicc_ctlr := GICC_CTLR_GRPEN1 OR GICC_CTLR_EOImode, gicc_pmr := GICC_PMR_DEFAULT, gich_lr := replicate num_lr 0,
                    gich_vmcr := vmcr, gich_hcr := GICH_HCR_EN\<rparr>))\<lparr>gicc_initialized := True\<rparr>) y1 in
      if c \<ge> length (gicv2_target_cpu_map y2) then (y2, False)
      else let y3 = y2\<lparr>gicv2_target_cpu_map := (gicv2_target_cpu_map y2)[c := target]\<rparr> in
        (y3, target \<noteq> 0))"

definition gicv2_cpu_shutdown :: "nat \<Rightarrow> nat \<Rightarrow> irq_sys \<Rightarrow> irq_sys \<times> bool" where
  "gicv2_cpu_shutdown mnt_irq c y =
     (let vmcr = gich_vmcr (irq_cpus y c) in
      if \<not> gicc_initialized (irq_cpus y c) then (y, False)
      else
        let y1 = upd_cpu c (\<lambda>s. s\<lparr>gich_hcr := 0\<rparr>) y;
            y2 = gicd_write GICD_ICENABLER (push_bit mnt_irq 1) y1;
            ctlr = (if vmcr AND GICH_VMCR_EN0 \<noteq> 0 then GICC_CTLR_GRPEN1 else 0)
              OR (if vmcr AND GICH_VMCR_EOImode \<noteq> 0 then GICC_CTLR_EOImode else 0) in
        (upd_cpu c (\<lambda>s. s\<lparr>gicc_ctlr := ctlr, gicc_pmr := push_bit 3 (drop_bit 27 vmcr)\<rparr>) y2, True))"

definition gicv2_cpu_reset :: "nat \<Rightarrow> nat \<Rightarrow> irq_sys \<Rightarrow> irq_sys" where
  "gicv2_cpu_reset mnt_irq c y =
     (let y1 = upd_cpu c gicv2_clear_pending_irqs y;
          y2 = gicd_write GICD_ISENABLER (0xffff OR push_bit mnt_irq 1) y1;
          y3 = gicd_write GICD_ICENABLER (0xffff0000 AND NOT (push_bit mnt_irq 1)) y2;
          y4 = gicd_write GICD_ICACTIVER 0xffff0000 y3 in
      upd_cpu c (\<lambda>s. s\<lparr>gich_vmcr := 0\<rparr>) y4)"


subsection \<open>The ring of pending interrupts\<close>

definition ring_put :: "u16 \<Rightarrow> u16 \<Rightarrow> pending_irqs \<Rightarrow> pending_irqs option" where
  "ring_put irq_id snd_id p =
     (let new_tail = (tail p + 1) mod MAX_PENDING_IRQS in
      if new_tail \<noteq> head p then
        arr_set (irqs p) (tail p) irq_id \<bind> (\<lambda>is.
        arr_set (sender p) (tail p) snd_id \<bind> (\<lambda>ss.
        Some (p\<lparr>irqs := is, sender := ss, tail := new_tail\<rparr>)))
      else Some p)"

text \<open>
  \<open>irqchip_set_pending\<close> on CPU \<open>me\<close>. The target \<open>None\<close> is the null pointer: injection
  through the distributor.
\<close>

definition irqchip_set_pending :: "nat \<Rightarrow> nat option \<Rightarrow> u16 \<Rightarrow> irq_sys \<Rightarrow> irq_sys option" where
  "irqchip_set_pending me target irq_id y =
     (case target of
        None \<Rightarrow> Some (gicd_write (GICD_ISPENDR + unat irq_id div 32 * 4) (push_bit (unat irq_id mod 32) 1) y)
      | Some c \<Rightarrow>
        let local_injection = (me = c);
            (lrs, res) = gicv2_inject_irq irq_id (of_nat me) (gich_lr (irq_cpus y c)) in
        if local_injection \<and> res \<noteq> INJ_EBUSY then Some (upd_cpu c (\<lambda>s. s\<lparr>gich_lr := lrs\<rparr>) y)
        else
          ring_put irq_id (of_nat me) (pending (irq_cpus y c)) \<bind> (\<lambda>p.
          let y1 = upd_cpu c (\<lambda>s. s\<lparr>pending := p\<rparr>) y in
          if local_injection then Some (upd_cpu c (gicv2_enable_maint_irq True) y1)
          else arr_get (gicv2_target_cpu_map y1) c \<bind> (\<lambda>t. gicv2_send_sgi 0 t (of_nat SGI_INJECT) y1)))"

partial_function (option) irqchip_inject_pending :: "irq_cpu \<Rightarrow> irq_cpu option" where
  "irqchip_inject_pending s =
     (if head (pending s) \<noteq> tail (pending s) then
        arr_get (irqs (pending s)) (head (pending s)) \<bind> (\<lambda>irq_id.
        arr_get (sender (pending s)) (head (pending s)) \<bind> (\<lambda>snd_id.
        let (lrs, res) = gicv2_inject_irq irq_id snd_id (gich_lr s) in
        if res = INJ_EBUSY then Some (gicv2_enable_maint_irq True s)
        else irqchip_inject_pending
          (s\<lparr>gich_lr := lrs, pending := (pending s)\<lparr>head := (head (pending s) + 1) mod MAX_PENDING_IRQS\<rparr>\<rparr>)))
      else Some (gicv2_enable_maint_irq False s))"

definition irqchip_cpu_reset :: "nat \<Rightarrow> nat \<Rightarrow> irq_sys \<Rightarrow> irq_sys" where
  "irqchip_cpu_reset mnt_irq c y =
     gicv2_cpu_reset mnt_irq c (upd_cpu c (\<lambda>s. s\<lparr>pending := (pending s)\<lparr>head := 0, tail := 0\<rparr>\<rparr>) y)"

text \<open>The two migration loops of \<open>irqchip_cpu_shutdown\<close>.\<close>

partial_function (option) migrate_gicv :: "nat \<Rightarrow> irq_sys \<Rightarrow> irq_sys option" where
  "migrate_gicv c y =
     (case gicv2_get_pending_irq (irq_cpus y c) of
        None \<Rightarrow> Some y
      | Some (s, irq_id) \<Rightarrow> migrate_gicv c (gicv2_inject_phys_irq irq_id (upd_cpu c (\<lambda>_. s) y)))"

partial_function (option) migrate_ring :: "nat \<Rightarrow> irq_sys \<Rightarrow> irq_sys option" where
  "migrate_ring c y =
     (let p = pending (irq_cpus y c) in
      if head p \<noteq> tail p then
        arr_get (irqs p) (head p) \<bind> (\<lambda>irq_id.
        migrate_ring c (upd_cpu c (\<lambda>s. s\<lparr>pending := p\<lparr>head := (head p + 1) mod MAX_PENDING_IRQS\<rparr>\<rparr>)
          (gicv2_inject_phys_irq irq_id y)))
      else Some y)"

definition irqchip_cpu_shutdown :: "nat \<Rightarrow> nat \<Rightarrow> irq_sys \<Rightarrow> irq_sys option" where
  "irqchip_cpu_shutdown mnt_irq c y =
     (let (y1, ok) = gicv2_cpu_shutdown mnt_irq c y in
      if \<not> ok then Some y1 else migrate_gicv c y1 \<bind> migrate_ring c)"

text \<open>
  \<open>gic_handle_sgir_write\<close>: a guest on CPU \<open>me\<close> of a cell with CPU set \<open>cs\<close> sends an SGI. The
  cluster of a GICv2 target is always 0.
\<close>

record sgi =
  routing_mode :: nat
  cluster_id :: u64
  targets :: u8
  sgi_id :: u16

fun sgir_loop :: "nat \<Rightarrow> sgi \<Rightarrow> nat list \<Rightarrow> irq_sys \<Rightarrow> irq_sys option" where
  "sgir_loop me g [] y = Some y"
| "sgir_loop me g (cpu # rest) y =
     (if routing_mode g = 1 then
        if cpu = me then sgir_loop me g rest y
        else irqchip_set_pending me (Some cpu) (sgi_id g) y \<bind> sgir_loop me g rest
      else
        arr_get (gicv2_target_cpu_map y) cpu \<bind> (\<lambda>target.
        if cluster_id g \<noteq> 0 \<or> targets g AND target = 0 then sgir_loop me g rest y
        else irqchip_set_pending me (Some cpu) (sgi_id g) y \<bind> sgir_loop me g rest))"

definition gic_handle_sgir_write :: "nat \<Rightarrow> cpu_set \<Rightarrow> sgi \<Rightarrow> irq_sys \<Rightarrow> irq_sys option" where
  "gic_handle_sgir_write me cs g y =
     (if routing_mode g = 2 then irqchip_set_pending me (Some me) (sgi_id g) y
      else sgir_loop me g (for_each_cpu cs) y)"

lemmas gic_cpu_defs [hv_defs] = gicv2_cpu_init_def gicv2_cpu_shutdown_def gicv2_cpu_reset_def
  gicv2_clear_pending_irqs_def gicd_write_def upd_cpu_def

subsection \<open>The ring as a queue\<close>

text \<open>Ring positions from \<open>h\<close> on, \<open>n\<close> of them.\<close>

definition ring_len :: "pending_irqs \<Rightarrow> nat" where
  "ring_len p = (tail p + MAX_PENDING_IRQS - head p) mod MAX_PENDING_IRQS"

definition ring_at :: "pending_irqs \<Rightarrow> nat \<Rightarrow> u16 \<times> u16" where
  "ring_at p i = (let j = (head p + i) mod MAX_PENDING_IRQS in (irqs p ! j, sender p ! j))"

definition ring_contents :: "pending_irqs \<Rightarrow> (u16 \<times> u16) list" where
  "ring_contents p = map (ring_at p) [0..<ring_len p]"

definition ring_ok :: "pending_irqs \<Rightarrow> bool" where
  "ring_ok p \<longleftrightarrow> head p < MAX_PENDING_IRQS \<and> tail p < MAX_PENDING_IRQS
     \<and> length (irqs p) = MAX_PENDING_IRQS \<and> length (sender p) = MAX_PENDING_IRQS"

definition ring_drop :: "pending_irqs \<Rightarrow> pending_irqs" where
  "ring_drop p = p\<lparr>head := (head p + 1) mod MAX_PENDING_IRQS\<rparr>"

lemma ring_tail_eq: "ring_ok p \<Longrightarrow> tail p = (head p + ring_len p) mod MAX_PENDING_IRQS"
  by (auto simp: ring_ok_def ring_len_def MAX_PENDING_IRQS_def mod_simps)

lemma ring_len_bound: "ring_len p < MAX_PENDING_IRQS"
  by (simp add: ring_len_def MAX_PENDING_IRQS_def)

lemma ring_empty_iff: "ring_ok p \<Longrightarrow> head p = tail p \<longleftrightarrow> ring_len p = 0"
  using ring_tail_eq [of p] ring_len_bound [of p]
  by (auto simp: ring_ok_def MAX_PENDING_IRQS_def ring_len_def mod_if split: if_splits)

lemma mod_add_inj:
  fixes a i j n :: nat
  assumes "(a + i) mod n = (a + j) mod n" "i < n" "j < n"
  shows "i = j"
proof -
  have "(a + i) mod n = (a + j) mod n \<longleftrightarrow> i mod n = j mod n"
    by (simp add: mod_add_cong nat_mod_eq_iff)
  with assms show ?thesis by simp
qed

lemma ring_put_contents:
  assumes ok: "ring_ok p"
  shows "\<exists>q. ring_put x s p = Some q \<and> ring_ok q \<and>
    ring_contents q = (if length (ring_contents p) < MAX_PENDING_IRQS - 1 then ring_contents p @ [(x, s)] else ring_contents p)"
proof (cases "ring_len p < MAX_PENDING_IRQS - 1")
  case False
  then have "ring_len p + 1 = MAX_PENDING_IRQS" using ring_len_bound [of p] by simp
  then have "(tail p + 1) mod MAX_PENDING_IRQS = head p"
    using ring_tail_eq [OF ok] ok by (metis Suc_eq_plus1 add.assoc mod_Suc_eq mod_add_self2 mod_less ring_ok_def)
  with False ok show ?thesis by (simp add: ring_put_def ring_contents_def)
next
  case True
  let ?N = MAX_PENDING_IRQS
  have tl: "tail p = (head p + ring_len p) mod ?N" by (rule ring_tail_eq [OF ok])
  have nt: "(tail p + 1) mod ?N = (head p + (ring_len p + 1)) mod ?N"
    using tl by (simp add: mod_Suc_eq)
  have h: "head p = (head p + 0) mod ?N" using ok by (simp add: ring_ok_def)
  have ne: "(tail p + 1) mod ?N \<noteq> head p"
  proof -
    have "ring_len p + 1 < ?N" "0 < ?N" using True by simp_all
    with mod_add_inj [of "head p" "ring_len p + 1" ?N 0] nt h show ?thesis by auto
  qed
  let ?q = "p\<lparr>irqs := (irqs p)[tail p := x], sender := (sender p)[tail p := s], tail := (tail p + 1) mod ?N\<rparr>"
  have put: "ring_put x s p = Some ?q" using ne ok by (simp add: ring_put_def ring_ok_def)
  have okq: "ring_ok ?q" using ok by (simp add: ring_ok_def MAX_PENDING_IRQS_def)
  have len: "ring_len ?q = ring_len p + 1"
    using ring_tail_eq [OF okq] nt ring_len_bound [of ?q] True
      mod_add_inj [of "head p" "ring_len ?q" ?N "ring_len p + 1"] by simp
  have old: "ring_at ?q i = ring_at p i" if "i < ring_len p" for i
  proof -
    have "(head p + i) mod ?N \<noteq> tail p"
      using mod_add_inj [of "head p" i ?N "ring_len p"] tl that ring_len_bound [of p] by auto
    then show ?thesis by (simp add: ring_at_def)
  qed
  have new: "ring_at ?q (ring_len p) = (x, s)"
    using ok tl by (simp add: ring_at_def ring_ok_def)
  have "ring_contents ?q = ring_contents p @ [(x, s)]"
    unfolding ring_contents_def len using old new by simp
  with put okq True show ?thesis by (auto simp: ring_contents_def)
qed

lemma ring_at_0: "ring_ok p \<Longrightarrow> ring_at p 0 = (irqs p ! head p, sender p ! head p)"
  by (simp add: ring_at_def ring_ok_def Let_def)

lemma ring_contents_Cons:
  assumes ok: "ring_ok p" and ne: "head p \<noteq> tail p"
  shows "ring_contents p = (irqs p ! head p, sender p ! head p) # ring_contents (ring_drop p)"
    "ring_ok (ring_drop p)" "ring_len (ring_drop p) < ring_len p"
proof -
  let ?N = MAX_PENDING_IRQS and ?q = "ring_drop p"
  have pos: "0 < ring_len p" using ok ne ring_empty_iff by blast
  show okq: "ring_ok ?q" using ok by (simp add: ring_ok_def ring_drop_def MAX_PENDING_IRQS_def)
  have at: "ring_at ?q i = ring_at p (Suc i)" for i
    by (simp add: ring_at_def ring_drop_def Let_def mod_simps)
  have "(head p + (1 + ring_len ?q)) mod ?N = (head p + ring_len p) mod ?N"
    using ring_tail_eq [OF okq] ring_tail_eq [OF ok] by (simp add: ring_drop_def mod_simps)
  moreover have "1 + ring_len ?q \<noteq> ?N"
  proof
    assume "1 + ring_len ?q = ?N"
    with calculation have "(head p + 0) mod ?N = (head p + ring_len p) mod ?N" by (metis add_0_right mod_add_self2)
    from mod_add_inj [OF this] ring_len_bound [of p] pos show False by simp
  qed
  then have "1 + ring_len ?q < ?N" using ring_len_bound [of ?q] by linarith
  ultimately have len: "ring_len p = Suc (ring_len ?q)"
    using mod_add_inj [of "head p" "1 + ring_len ?q" ?N "ring_len p"] ring_len_bound [of p] by simp
  then show "ring_len ?q < ring_len p" by simp
  have "[0..<ring_len p] = 0 # map Suc [0..<ring_len ?q]" by (simp add: len upt_conv_Cons map_Suc_upt del: upt_Suc)
  moreover have "ring_at p 0 = (irqs p ! head p, sender p ! head p)" by (rule ring_at_0 [OF ok])
  ultimately show "ring_contents p = (irqs p ! head p, sender p ! head p) # ring_contents ?q"
    by (simp add: ring_contents_def at)
qed

lemma ring_contents_Nil: "ring_ok p \<Longrightarrow> head p = tail p \<Longrightarrow> ring_contents p = []"
  by (simp add: ring_contents_def ring_empty_iff)

subsection \<open>A bounded queue\<close>

text \<open>A sequence of operations that may fail.\<close>

fun run_all :: "('m \<Rightarrow> 'q \<Rightarrow> 'q option) \<Rightarrow> 'm list \<Rightarrow> 'q \<Rightarrow> 'q option" where
  "run_all f [] q = Some q"
| "run_all f (m # ms) q = f m q \<bind> run_all f ms"

lemma take_take_append: "take n (take n xs @ ys) = take n (xs @ ys)"
  by (cases "length xs \<le> n") simp_all

text \<open>
  A queue with a fixed capacity: a message that finds room is appended as its entry, one that does not is dropped.
\<close>

locale bounded_fifo =
  fixes ok :: "'q \<Rightarrow> bool"
    and contents :: "'q \<Rightarrow> 'a list"
    and capacity :: nat
    and valid :: "'m \<Rightarrow> bool"
    and entry :: "'m \<Rightarrow> 'a"
    and put :: "'m \<Rightarrow> 'q \<Rightarrow> 'q option"
  assumes bounded: "ok q \<Longrightarrow> length (contents q) \<le> capacity"
    and put_law: "ok q \<Longrightarrow> valid m \<Longrightarrow> \<exists>q'. put m q = Some q' \<and> ok q' \<and>
      contents q' = (if length (contents q) < capacity then contents q @ [entry m] else contents q)"
begin

lemma put_take: "ok q \<Longrightarrow> valid m \<Longrightarrow> \<exists>q'. put m q = Some q' \<and> ok q' \<and> contents q' = take capacity (contents q @ [entry m])"
  using put_law [of q m] bounded [of q] by (auto split: if_splits)

text \<open>Whatever is sent, the queue holds the first entries of the whole sequence, in order, up to its capacity.\<close>

lemma put_all_contents:
  "ok q \<Longrightarrow> \<forall>m\<in>set ms. valid m \<Longrightarrow>
     \<exists>q'. run_all put ms q = Some q' \<and> ok q' \<and> contents q' = take capacity (contents q @ map entry ms)"
proof (induction ms arbitrary: q)
  case Nil
  then show ?case using bounded by simp
next
  case (Cons m ms)
  obtain q1 where q1: "put m q = Some q1" "ok q1" "contents q1 = take capacity (contents q @ [entry m])"
    using put_take Cons.prems by force
  obtain q2 where "run_all put ms q1 = Some q2" "ok q2" "contents q2 = take capacity (contents q1 @ map entry ms)"
    using Cons.IH [OF q1(2)] Cons.prems by auto
  then show ?case using q1 by (simp only: run_all.simps bind.bind_lunit q1(3) take_take_append) simp
qed

end

subsection \<open>List registers\<close>

text \<open>The interrupts that occupy list registers, and the register file's invariant: no interrupt twice.\<close>

definition lr_vid :: "u32 \<Rightarrow> u32" where
  "lr_vid lr = lr AND GICH_LR_VIRT_ID_MASK"

definition lr_irqs :: "u32 list \<Rightarrow> u32 list" where
  "lr_irqs lrs = map lr_vid (filter (\<lambda>lr. \<not> lr_free lr) lrs)"

definition irq_valid :: "u16 \<Rightarrow> bool" where
  "irq_valid irq_id \<longleftrightarrow> irq_id < 1024"

lemma lr_scan_result:
  "lr_scan irq i lrs ff =
     (if ucast irq \<in> set (lr_irqs lrs) then None
      else Some (if ff \<noteq> None then ff
                 else if \<exists>lr\<in>set lrs. lr_free lr then Some (i + length (takeWhile (\<lambda>lr. \<not> lr_free lr) lrs)) else None))"
  by (induction lrs arbitrary: i ff) (auto simp: lr_irqs_def lr_vid_def)

lemma first_free_index:
  "\<exists>lr\<in>set lrs. lr_free lr \<Longrightarrow> length (takeWhile (\<lambda>lr. \<not> lr_free lr) lrs) < length lrs
     \<and> lr_free (lrs ! length (takeWhile (\<lambda>lr. \<not> lr_free lr) lrs))"
  by (induction lrs) auto

lemma bit_ucast_irq: "irq_valid irq \<Longrightarrow> bit (ucast irq :: u32) n \<Longrightarrow> n < 10"
proof -
  assume v: "irq_valid irq" and b: "bit (ucast irq :: u32) n"
  have "irq = take_bit 10 irq"
    using v by (simp add: irq_valid_def word_less_nat_alt word_unat_eq_iff unsigned_take_bit_eq take_bit_nat_eq_self)
  then have "bit (take_bit 10 irq) n" using b by (metis bit_ucast_iff)
  then show ?thesis by (simp add: bit_take_bit_iff)
qed

lemma virt_id_mask: "GICH_LR_VIRT_ID_MASK = mask 10"
  by (simp add: GICH_LR_VIRT_ID_MASK_def mask_eq_exp_minus_1)

lemma pending_bit: "GICH_LR_PENDING_BIT = push_bit 28 1" "GICH_LR_ACTIVE_BIT = push_bit 29 1" "GICH_LR_HW_BIT = push_bit 31 1"
  by (simp_all add: GICH_LR_PENDING_BIT_def GICH_LR_ACTIVE_BIT_def GICH_LR_HW_BIT_def push_bit_eq_mult)

lemma bit_lr_flags:
  "bit GICH_LR_PENDING_BIT n \<longleftrightarrow> n = 28" "bit GICH_LR_ACTIVE_BIT n \<longleftrightarrow> n = 29" "bit GICH_LR_HW_BIT n \<longleftrightarrow> n = 31"
  by (auto simp only: pending_bit bit_push_bit_iff bit_1_iff possible_bit_word) auto

lemma make_lr_vid: "irq_valid irq \<Longrightarrow> lr_vid (make_lr irq s) = ucast irq"
proof (rule bit_eqI)
  fix n assume v: "irq_valid irq" and "possible_bit TYPE(32 word) n"
  then show "bit (lr_vid (make_lr irq s)) n \<longleftrightarrow> bit (ucast irq :: u32) n"
    using bit_ucast_irq [OF v, of n]
    by (auto simp: lr_vid_def make_lr_def virt_id_mask bit_lr_flags bit_simps)
qed

lemma make_lr_occupied: "\<not> lr_free (make_lr irq s)"
proof -
  have "bit (make_lr irq s AND (GICH_LR_PENDING_BIT OR GICH_LR_ACTIVE_BIT)) 28"
    by (simp add: make_lr_def bit_lr_flags bit_simps)
  then show ?thesis by (auto simp: lr_free_def)
qed

lemma lr_irqs_split: "i < length lrs \<Longrightarrow> lr_irqs lrs = lr_irqs (take i lrs) @ (if lr_free (lrs ! i) then [] else [lr_vid (lrs ! i)]) @ lr_irqs (drop (Suc i) lrs)"
  by (simp add: lr_irqs_def flip: id_take_nth_drop map_append filter_append) (metis (no_types, lifting) append_Cons append_Nil filter.simps(1) filter.simps(2) filter_append id_take_nth_drop list.simps(8) list.simps(9) map_append)

lemma gicv2_inject_irq_cases [consumes 1, case_names full exists inject]:
  assumes v: "irq_valid irq"
  obtains "gicv2_inject_irq irq s lrs = (lrs, INJ_EBUSY)" "ucast irq \<notin> set (lr_irqs lrs)" "\<forall>lr\<in>set lrs. \<not> lr_free lr"
  | "gicv2_inject_irq irq s lrs = (lrs, INJ_EEXIST)" "ucast irq \<in> set (lr_irqs lrs)"
  | lrs' where "gicv2_inject_irq irq s lrs = (lrs', INJ_OK)" "ucast irq \<notin> set (lr_irqs lrs)"
      "length lrs' = length lrs" "mset (lr_irqs lrs') = add_mset (ucast irq) (mset (lr_irqs lrs))"
proof -
  let ?i = "length (takeWhile (\<lambda>lr. \<not> lr_free lr) lrs)"
  consider "ucast irq \<in> set (lr_irqs lrs)" | "ucast irq \<notin> set (lr_irqs lrs)" "\<forall>lr\<in>set lrs. \<not> lr_free lr"
    | "ucast irq \<notin> set (lr_irqs lrs)" "\<exists>lr\<in>set lrs. lr_free lr" by blast
  then show ?thesis
  proof cases
    case 3
    note i = first_free_index [OF 3(2)]
    let ?l = "lrs[?i := make_lr irq s]"
    have "mset (lr_irqs ?l) = add_mset (ucast irq) (mset (lr_irqs lrs))"
      using i lr_irqs_split [of ?i lrs] lr_irqs_split [of ?i ?l] make_lr_vid [OF v] make_lr_occupied by simp
    then show ?thesis using 3 that(3) [of ?l] by (simp add: gicv2_inject_irq_def lr_scan_result)
  qed (use that in \<open>auto simp: gicv2_inject_irq_def lr_scan_result\<close>)
qed

text \<open>
  What \<open>irqchip_inject_pending\<close> does: it ends, takes a prefix of the ring, every interrupt of
  that prefix is then in a list register, and it stops early only when all list registers are
  occupied, with the maintenance interrupt on.
\<close>

definition irq_cpu_ok :: "irq_cpu \<Rightarrow> bool" where
  "irq_cpu_ok s \<longleftrightarrow> ring_ok (pending s) \<and> (\<forall>x\<in>set (ring_contents (pending s)). irq_valid (fst x))
     \<and> distinct (lr_irqs (gich_lr s))"

definition inject_stop :: "u32 \<Rightarrow> irq_cpu \<Rightarrow> bool" where
  "inject_stop hcr s' \<longleftrightarrow>
     (if ring_contents (pending s') = [] then gich_hcr s' = hcr AND NOT GICH_HCR_UIE
      else gich_hcr s' = hcr OR GICH_HCR_UIE \<and> (\<forall>lr\<in>set (gich_lr s'). \<not> lr_free lr)
        \<and> ucast (fst (hd (ring_contents (pending s')))) \<notin> set (lr_irqs (gich_lr s')))"

lemma irqchip_inject_pending_works:
  assumes "irq_cpu_ok s"
  shows "\<exists>s' done. irqchip_inject_pending s = Some s' \<and> irq_cpu_ok s'
    \<and> ring_contents (pending s) = done @ ring_contents (pending s')
    \<and> set (lr_irqs (gich_lr s')) = set (lr_irqs (gich_lr s)) \<union> (\<lambda>x. ucast (fst x)) ` set done
    \<and> inject_stop (gich_hcr s) s'"
  using assms
proof (induction "ring_len (pending s)" arbitrary: s rule: less_induct)
  case less
  let ?p = "pending s"
  have ok: "ring_ok ?p" "distinct (lr_irqs (gich_lr s))" using less.prems by (auto simp: irq_cpu_ok_def)
  show ?case
  proof (cases "head ?p = tail ?p")
    case True
    then show ?thesis using less.prems ok ring_contents_Nil [OF ok(1)]
      by (subst irqchip_inject_pending.simps) (auto simp: gicv2_enable_maint_irq_def irq_cpu_ok_def inject_stop_def)
  next
    case False
    let ?x = "irqs ?p ! head ?p" and ?y = "sender ?p ! head ?p"
    note c = ring_contents_Cons [OF ok(1) False]
    have v: "irq_valid ?x" using less.prems c(1) by (auto simp: irq_cpu_ok_def)
    have idx: "head ?p < length (irqs ?p)" "head ?p < length (sender ?p)" using ok(1) by (auto simp: ring_ok_def)
    have step: "irqchip_inject_pending s =
        (let (lrs, res) = gicv2_inject_irq ?x ?y (gich_lr s) in
         if res = INJ_EBUSY then Some (gicv2_enable_maint_irq True s)
         else irqchip_inject_pending (s\<lparr>gich_lr := lrs, pending := ring_drop ?p\<rparr>))"
      using False idx by (subst irqchip_inject_pending.simps) (simp add: ring_drop_def split: prod.split)
    show ?thesis using v
    proof (cases rule: gicv2_inject_irq_cases [of ?x ?y "gich_lr s"])
      case full
      then show ?thesis using step less.prems c(1)
        by (auto simp: gicv2_enable_maint_irq_def irq_cpu_ok_def inject_stop_def)
    next
      case exists
      let ?s1 = "s\<lparr>pending := ring_drop ?p\<rparr>"
      have "irq_cpu_ok ?s1" using less.prems c by (auto simp: irq_cpu_ok_def)
      from less.hyps [of ?s1] this c(3) obtain s' dn where *: "irqchip_inject_pending ?s1 = Some s'" "irq_cpu_ok s'"
        "ring_contents (ring_drop ?p) = dn @ ring_contents (pending s')"
        "set (lr_irqs (gich_lr s')) = set (lr_irqs (gich_lr s)) \<union> (\<lambda>x. ucast (fst x)) ` set dn"
        "inject_stop (gich_hcr s) s'"
        by auto
      show ?thesis
        by (rule exI [of _ s'], rule exI [of _ "(?x, ?y) # dn"])
          (use * step exists c(1) in \<open>simp add: insert_absorb\<close>)
    next
      case (inject lrs')
      let ?s1 = "s\<lparr>gich_lr := lrs', pending := ring_drop ?p\<rparr>"
      have set': "set (lr_irqs lrs') = insert (ucast ?x) (set (lr_irqs (gich_lr s)))"
        using inject(4) by (metis set_mset_add_mset_insert set_mset_mset)
      have "distinct (lr_irqs lrs')"
        using inject(2,4) ok(2) by (metis distinct.simps(2) mset.simps(2) mset_eq_imp_distinct_iff)
      then have "irq_cpu_ok ?s1" using less.prems c by (auto simp: irq_cpu_ok_def)
      from less.hyps [of ?s1] this c(3) obtain s' dn where *: "irqchip_inject_pending ?s1 = Some s'" "irq_cpu_ok s'"
        "ring_contents (ring_drop ?p) = dn @ ring_contents (pending s')"
        "set (lr_irqs (gich_lr s')) = set (lr_irqs lrs') \<union> (\<lambda>x. ucast (fst x)) ` set dn"
        "inject_stop (gich_hcr s) s'"
        by auto
      show ?thesis
        by (rule exI [of _ s'], rule exI [of _ "(?x, ?y) # dn"])
          (use * step inject c(1) set' in simp)
    qed
  qed
qed

subsection \<open>Shutdown\<close>

definition phys_writes :: "u16 \<Rightarrow> (nat \<times> u32) list" where
  "phys_writes irq_id =
     (if is_sgi irq_id then [(GICD_SPENDSGIR + unat irq_id, 1)]
      else [(GICD_ICACTIVER + unat irq_id div 32 * 4, push_bit (unat irq_id mod 32) 1),
            (GICD_ISPENDR + unat irq_id div 32 * 4, push_bit (unat irq_id mod 32) 1)])"

lemma gicv2_inject_phys_irq_writes:
  "gicv2_inject_phys_irq irq y = y\<lparr>gicd_writes := gicd_writes y @ phys_writes irq\<rparr>"
  by (simp add: gicv2_inject_phys_irq_def phys_writes_def gicd_write_def Let_def)

definition pend_lrs :: "u32 list \<Rightarrow> u16 list" where
  "pend_lrs lrs = map (\<lambda>lr. ucast (lr AND GICH_LR_VIRT_ID_MASK)) (filter (\<lambda>lr. lr AND GICH_LR_PENDING_BIT \<noteq> 0) lrs)"

lemma get_pending_scan_None: "get_pending_scan lrs = None \<longleftrightarrow> pend_lrs lrs = []"
  by (induction lrs) (auto simp: pend_lrs_def)

lemma get_pending_scan_Some:
  "get_pending_scan lrs = Some (ls, v) \<Longrightarrow> pend_lrs lrs = ucast v # pend_lrs ls"
  by (induction lrs arbitrary: ls) (auto simp: pend_lrs_def split: if_splits)

lemma migrate_gicv_works:
  "\<exists>y'. migrate_gicv c y = Some y'
    \<and> gicd_writes y' = gicd_writes y @ concat (map phys_writes (pend_lrs (gich_lr (irq_cpus y c))))
    \<and> pend_lrs (gich_lr (irq_cpus y' c)) = [] \<and> pending (irq_cpus y' c) = pending (irq_cpus y c)"
proof (induction "length (pend_lrs (gich_lr (irq_cpus y c)))" arbitrary: y rule: less_induct)
  case less
  show ?case
  proof (cases "get_pending_scan (gich_lr (irq_cpus y c))")
    case None
    then have "pend_lrs (gich_lr (irq_cpus y c)) = []" by (simp add: get_pending_scan_None)
    with None show ?thesis
      by (subst migrate_gicv.simps) (simp add: gicv2_get_pending_irq_def)
  next
    case (Some r)
    obtain ls v where r: "r = (ls, v)" by (cases r)
    let ?s = "(irq_cpus y c)\<lparr>gich_lr := ls\<rparr>"
    let ?y1 = "gicv2_inject_phys_irq (ucast v) (upd_cpu c (\<lambda>_. ?s) y)"
    have p: "pend_lrs (gich_lr (irq_cpus y c)) = ucast v # pend_lrs ls"
      using Some r by (simp add: get_pending_scan_Some)
    have eq: "migrate_gicv c y = migrate_gicv c ?y1"
      by (subst migrate_gicv.simps) (simp add: gicv2_get_pending_irq_def Some r)
    have c1: "irq_cpus ?y1 c = ?s" "gicd_writes ?y1 = gicd_writes y @ phys_writes (ucast v)"
      by (simp_all add: gicv2_inject_phys_irq_writes upd_cpu_def)
    from less [of ?y1] c1 p show ?thesis by (auto simp: eq)
  qed
qed

lemma migrate_ring_works:
  "ring_ok (pending (irq_cpus y c)) \<Longrightarrow> \<exists>y'. migrate_ring c y = Some y'
    \<and> gicd_writes y' = gicd_writes y @ concat (map (phys_writes \<circ> fst) (ring_contents (pending (irq_cpus y c))))
    \<and> ring_contents (pending (irq_cpus y' c)) = [] \<and> gich_lr (irq_cpus y' c) = gich_lr (irq_cpus y c)"
proof (induction "ring_len (pending (irq_cpus y c))" arbitrary: y rule: less_induct)
  case less
  let ?p = "pending (irq_cpus y c)"
  show ?case
  proof (cases "head ?p = tail ?p")
    case True
    then show ?thesis using less.prems
      by (subst migrate_ring.simps) (simp add: ring_contents_Nil)
  next
    case False
    let ?x = "irqs ?p ! head ?p"
    let ?y1 = "upd_cpu c (\<lambda>s. s\<lparr>pending := ring_drop ?p\<rparr>) (gicv2_inject_phys_irq ?x y)"
    have idx: "head ?p < length (irqs ?p)" using less.prems by (auto simp: ring_ok_def)
    note cc = ring_contents_Cons [OF less.prems False]
    have eq: "migrate_ring c y = migrate_ring c ?y1"
      using False idx by (subst migrate_ring.simps) (simp add: ring_drop_def Let_def)
    have c1: "pending (irq_cpus ?y1 c) = ring_drop ?p" "gicd_writes ?y1 = gicd_writes y @ phys_writes ?x"
      "gich_lr (irq_cpus ?y1 c) = gich_lr (irq_cpus y c)"
      by (simp_all add: gicv2_inject_phys_irq_writes upd_cpu_def)
    from less.hyps [of ?y1] c1 cc show ?thesis by (auto simp: eq)
  qed
qed

subsection \<open>Properties\<close>

definition demo_ring :: pending_irqs where
  "demo_ring = \<lparr>irqs = replicate 256 0, sender = replicate 256 0, head = 250, tail = 250\<rparr>"

definition demo_irq_cpu :: irq_cpu where
  "demo_irq_cpu = \<lparr>pending = demo_ring, gich_lr = [0, 0], gich_hcr = 1, gich_vmcr = 0, gich_apr = 0,
     gicc_ctlr = 0x201, gicc_pmr = 0xf0, gicc_initialized = True\<rparr>"

definition demo_irq_sys :: irq_sys where
  "demo_irq_sys = \<lparr>irq_cpus = (\<lambda>_. demo_irq_cpu), gicd_writes = [], gicv2_target_cpu_map = [1, 2, 4, 8]\<rparr>"

lemma demo_ring_ok: "ring_ok demo_ring" "ring_contents demo_ring = []"
  by (simp_all add: ring_ok_def demo_ring_def MAX_PENDING_IRQS_def ring_contents_def ring_len_def)

text \<open>
  Setting an interrupt pending on another CPU appends it, with the sender's id, to that CPU's
  ring (a full ring of 255 entries drops it) and sends the inject SGI to that CPU; nothing else of any
  CPU changes.
\<close>

lemma set_pending_remote:
  assumes "me \<noteq> c" "ring_ok (pending (irq_cpus y c))" "c < length (gicv2_target_cpu_map y)"
  shows "\<exists>y' p. irqchip_set_pending me (Some c) irq y = Some y'
    \<and> irq_cpus y' = (irq_cpus y)(c := (irq_cpus y c)\<lparr>pending := p\<rparr>) \<and> ring_ok p
    \<and> ring_contents p = (if length (ring_contents (pending (irq_cpus y c))) < 255
        then ring_contents (pending (irq_cpus y c)) @ [(irq, of_nat me)] else ring_contents (pending (irq_cpus y c)))
    \<and> gicv2_target_cpu_map y' = gicv2_target_cpu_map y
    \<and> gicd_writes y' = gicd_writes y @ [(GICD_SGIR, push_bit 16 (ucast (gicv2_target_cpu_map y ! c) AND 0xff))]"
proof -
  obtain p where p: "ring_put irq (of_nat me) (pending (irq_cpus y c)) = Some p" "ring_ok p"
    "ring_contents p = (if length (ring_contents (pending (irq_cpus y c))) < 255
        then ring_contents (pending (irq_cpus y c)) @ [(irq, of_nat me)] else ring_contents (pending (irq_cpus y c)))"
    using ring_put_contents [OF assms(2), of irq "of_nat me"] by (auto simp: MAX_PENDING_IRQS_def)
  show ?thesis
    using assms(1,3) p
    by (auto simp: irqchip_set_pending_def gicv2_send_sgi_def is_sgi_def SGI_INJECT_def gicd_write_def upd_cpu_def
        split: prod.splits)
qed

theorem irq_set_pending_remote_example:
  "\<exists>y' p. irqchip_set_pending 0 (Some 1) 13 demo_irq_sys = Some y'
    \<and> irq_cpus y' 1 = demo_irq_cpu\<lparr>pending := p\<rparr> \<and> ring_contents p = [(13, 0)]"
  using set_pending_remote [of 0 1 demo_irq_sys 13] demo_ring_ok
  by (auto simp: demo_irq_sys_def demo_irq_cpu_def)

text \<open>
  The contract of the bounded queue for the interrupts other CPUs send to CPU \<open>c\<close>, starting from the system \<open>y0\<close>: a message is a pair of
  sending CPU and interrupt, its entry in the ring the interrupt and the sender's id.
\<close>

definition chan_ok :: "nat \<Rightarrow> irq_sys \<Rightarrow> irq_sys \<Rightarrow> bool" where
  "chan_ok c y0 y \<longleftrightarrow> irq_cpu_ok (irq_cpus y c) \<and> c < length (gicv2_target_cpu_map y)
     \<and> (\<exists>p. irq_cpus y = (irq_cpus y0)(c := (irq_cpus y0 c)\<lparr>pending := p\<rparr>))"

definition send_irq :: "nat \<Rightarrow> nat \<times> u16 \<Rightarrow> irq_sys \<Rightarrow> irq_sys option" where
  "send_irq c m = irqchip_set_pending (fst m) (Some c) (snd m)"

abbreviation ring_of :: "nat \<Rightarrow> irq_sys \<Rightarrow> (u16 \<times> u16) list" where
  "ring_of c y \<equiv> ring_contents (pending (irq_cpus y c))"

interpretation chan: bounded_fifo "chan_ok c y0" "ring_of c" 255 "\<lambda>m. fst m \<noteq> c \<and> irq_valid (snd m)"
  "\<lambda>m. (snd m, of_nat (fst m))" "send_irq c" for c y0
proof unfold_locales
  fix q and m :: "nat \<times> u16"
  assume ok: "chan_ok c y0 q"
  show "length (ring_of c q) \<le> 255" using ring_len_bound [of "pending (irq_cpus q c)"] by (simp add: ring_contents_def MAX_PENDING_IRQS_def)
  assume m: "fst m \<noteq> c \<and> irq_valid (snd m)"
  obtain y' p where y': "irqchip_set_pending (fst m) (Some c) (snd m) q = Some y'"
    "irq_cpus y' = (irq_cpus q)(c := (irq_cpus q c)\<lparr>pending := p\<rparr>)" "ring_ok p" "gicv2_target_cpu_map y' = gicv2_target_cpu_map q"
    "ring_contents p = (if length (ring_of c q) < 255 then ring_of c q @ [(snd m, of_nat (fst m))] else ring_of c q)"
    using set_pending_remote [of "fst m" c q "snd m"] m ok by (auto simp: chan_ok_def irq_cpu_ok_def)
  have "chan_ok c y0 y'" using ok m y' by (auto simp: chan_ok_def irq_cpu_ok_def)
  then show "\<exists>q'. send_irq c m q = Some q' \<and> chan_ok c y0 q' \<and>
      ring_of c q' = (if length (ring_of c q) < 255 then ring_of c q @ [(snd m, of_nat (fst m))] else ring_of c q)"
    using y' by (simp add: send_irq_def)
qed

text \<open>
  C13: the ring is a bounded queue. When other CPUs set interrupts pending on a CPU, in any number and order, the calls of
  \<open>irqchip_set_pending\<close> return and the CPU's ring holds the first 255 entries of what it held followed by what was sent, in order and with
  the senders: what finds the ring full is dropped, nothing else is; no other part of any CPU's state changes. \<open>irqchip_inject_pending\<close> then
  takes entries from the front, each of which is in a list register afterwards, and leaves the others in the ring in their order.
\<close>

theorem irq_ring_fifo:
  assumes "irq_cpu_ok (irq_cpus y c)" "c < length (gicv2_target_cpu_map y)" "\<forall>m\<in>set ms. fst m \<noteq> c \<and> irq_valid (snd m)"
  shows "\<exists>y' p s' moved. run_all (\<lambda>m. irqchip_set_pending (fst m) (Some c) (snd m)) ms y = Some y'
    \<and> irq_cpus y' = (irq_cpus y)(c := (irq_cpus y c)\<lparr>pending := p\<rparr>)
    \<and> ring_contents p = take 255 (ring_contents (pending (irq_cpus y c)) @ map (\<lambda>m. (snd m, of_nat (fst m))) ms)
    \<and> irqchip_inject_pending (irq_cpus y' c) = Some s'
    \<and> ring_contents p = moved @ ring_contents (pending s')
    \<and> (\<forall>x\<in>set moved. ucast (fst x) \<in> set (lr_irqs (gich_lr s')))"
proof -
  have ok: "chan_ok c y y" using assms(1,2) by (auto simp: chan_ok_def intro!: exI [of _ "pending (irq_cpus y c)"])
  obtain y' where y': "run_all (send_irq c) ms y = Some y'" "chan_ok c y y'"
    "ring_of c y' = take 255 (ring_of c y @ map (\<lambda>m. (snd m, of_nat (fst m))) ms)"
    using chan.put_all_contents [OF ok assms(3)] by blast
  obtain p where p: "irq_cpus y' = (irq_cpus y)(c := (irq_cpus y c)\<lparr>pending := p\<rparr>)" using y'(2) by (auto simp: chan_ok_def)
  obtain s' moved where "irqchip_inject_pending (irq_cpus y' c) = Some s'" "ring_of c y' = moved @ ring_contents (pending s')"
    "set (lr_irqs (gich_lr s')) = set (lr_irqs (gich_lr (irq_cpus y' c))) \<union> (\<lambda>x. ucast (fst x)) ` set moved"
    using irqchip_inject_pending_works [of "irq_cpus y' c"] y'(2) unfolding chan_ok_def by blast
  moreover have "send_irq c = (\<lambda>m. irqchip_set_pending (fst m) (Some c) (snd m))" by (simp add: send_irq_def fun_eq_iff)
  ultimately show ?thesis using y'(1,3) p by (intro exI [of _ y'] exI [of _ p] exI [of _ s'] exI [of _ moved]) auto
qed

lemma demo_irq_cpu_ok: "irq_cpu_ok demo_irq_cpu"
  using demo_ring_ok by (simp add: irq_cpu_ok_def demo_irq_cpu_def lr_irqs_def lr_free_def)

text \<open>300 interrupts sent to a CPU fill its ring: 255 of them are kept, across the wrap-around of the ring.\<close>

theorem irq_ring_fifo_witness:
  "\<exists>y' p s' moved. run_all (\<lambda>m. irqchip_set_pending (fst m) (Some 1) (snd m)) (replicate 300 (0, 13)) demo_irq_sys = Some y'
    \<and> irq_cpus y' 1 = demo_irq_cpu\<lparr>pending := p\<rparr> \<and> ring_contents p = replicate 255 (13, 0) \<and> irqchip_inject_pending (irq_cpus y' 1) = Some s'
    \<and> ring_contents p = moved @ ring_contents (pending s')"
proof -
  have "irq_cpu_ok (irq_cpus demo_irq_sys 1)" "1 < length (gicv2_target_cpu_map demo_irq_sys)" "ring_contents (pending (irq_cpus demo_irq_sys 1)) = []"
    using demo_irq_cpu_ok demo_ring_ok by (simp_all add: demo_irq_sys_def demo_irq_cpu_def)
  moreover have "\<forall>m\<in>set (replicate 300 (0 :: nat, 13 :: u16)). fst m \<noteq> 1 \<and> irq_valid (snd m)" by (simp add: irq_valid_def)
  ultimately obtain y' p s' moved where "run_all (\<lambda>m. irqchip_set_pending (fst m) (Some 1) (snd m)) (replicate 300 (0, 13)) demo_irq_sys = Some y'"
    "irq_cpus y' = (irq_cpus demo_irq_sys)(1 := (irq_cpus demo_irq_sys 1)\<lparr>pending := p\<rparr>)" "ring_contents p = replicate 255 (13, 0)"
    "irqchip_inject_pending (irq_cpus y' 1) = Some s'" "ring_contents p = moved @ ring_contents (pending s')"
    using irq_ring_fifo [of demo_irq_sys 1 "replicate 300 (0, 13)"] by (auto simp: map_replicate)
  then show ?thesis by (intro exI [of _ y'] exI [of _ p] exI [of _ s'] exI [of _ moved]) (simp add: demo_irq_sys_def)
qed

text \<open>
  C14: injecting the pending interrupts always ends. It moves a prefix of the ring into the list
  registers, in which each interrupt then occurs once; it stops before the ring is empty only with
  every list register occupied and the next interrupt not in one of them, and the maintenance
  interrupt is enabled exactly in that case.
\<close>

theorem irq_inject_pending_spec:
  assumes "irq_cpu_ok s"
  shows "\<exists>s' moved. irqchip_inject_pending s = Some s' \<and> irq_cpu_ok s'
    \<and> ring_contents (pending s) = moved @ ring_contents (pending s')
    \<and> set (lr_irqs (gich_lr s')) = set (lr_irqs (gich_lr s)) \<union> (\<lambda>x. ucast (fst x)) ` set moved
    \<and> (if ring_contents (pending s') = [] then gich_hcr s' = gich_hcr s AND NOT GICH_HCR_UIE
       else gich_hcr s' = gich_hcr s OR GICH_HCR_UIE \<and> (\<forall>lr\<in>set (gich_lr s'). \<not> lr_free lr)
         \<and> ucast (fst (hd (ring_contents (pending s')))) \<notin> set (lr_irqs (gich_lr s')))"
  using irqchip_inject_pending_works [OF assms] unfolding inject_stop_def .

theorem irq_inject_pending_spec_witness:
  "\<exists>s'. irqchip_inject_pending demo_irq_cpu = Some s' \<and> irq_cpu_ok s'"
  using irq_inject_pending_spec [OF demo_irq_cpu_ok] by blast

text \<open>
  Shutting a CPU down loses no interrupt: every interrupt pending in a list register and every
  entry of the ring is injected physically, in that order, and nothing is left pending.
\<close>

theorem irq_shutdown_migrates:
  assumes "gicc_initialized (irq_cpus y c)" "ring_ok (pending (irq_cpus y c))"
  shows "\<exists>y'. irqchip_cpu_shutdown mnt_irq c y = Some y'
    \<and> gicd_writes y' = gicd_writes y @ [(GICD_ICENABLER, push_bit mnt_irq 1)]
        @ concat (map phys_writes (pend_lrs (gich_lr (irq_cpus y c)) @ map fst (ring_contents (pending (irq_cpus y c)))))
    \<and> ring_contents (pending (irq_cpus y' c)) = [] \<and> \<not> gicv2_has_pending_irqs (irq_cpus y' c)"
proof -
  obtain y1 where y1: "gicv2_cpu_shutdown mnt_irq c y = (y1, True)" "pending (irq_cpus y1 c) = pending (irq_cpus y c)"
      "gich_lr (irq_cpus y1 c) = gich_lr (irq_cpus y c)"
      "gicd_writes y1 = gicd_writes y @ [(GICD_ICENABLER, push_bit mnt_irq 1)]"
    using assms(1) by (simp add: gic_cpu_defs Let_def)
  obtain y2 where y2: "migrate_gicv c y1 = Some y2"
      "gicd_writes y2 = gicd_writes y1 @ concat (map phys_writes (pend_lrs (gich_lr (irq_cpus y1 c))))"
      "pend_lrs (gich_lr (irq_cpus y2 c)) = []" "pending (irq_cpus y2 c) = pending (irq_cpus y1 c)"
    using migrate_gicv_works by blast
  obtain y3 where y3: "migrate_ring c y2 = Some y3"
      "gicd_writes y3 = gicd_writes y2 @ concat (map (phys_writes \<circ> fst) (ring_contents (pending (irq_cpus y2 c))))"
      "ring_contents (pending (irq_cpus y3 c)) = []" "gich_lr (irq_cpus y3 c) = gich_lr (irq_cpus y2 c)"
    using migrate_ring_works [of y2 c] y2(4) y1(2) assms(2) by auto
  have "\<not> gicv2_has_pending_irqs (irq_cpus y3 c)"
    using y2(3) y3(4) by (auto simp: gicv2_has_pending_irqs_def pend_lrs_def list_ex_iff filter_empty_conv)
  with y1 y2 y3 show ?thesis by (simp add: irqchip_cpu_shutdown_def)
qed

theorem irq_shutdown_migrates_example:
  "\<exists>y'. irqchip_cpu_shutdown 25 1 demo_irq_sys = Some y' \<and> ring_contents (pending (irq_cpus y' 1)) = []
     \<and> gicd_writes y' = [(GICD_ICENABLER, 0x2000000)]"
  using irq_shutdown_migrates [of demo_irq_sys 1 25] demo_ring_ok
  by (auto simp: demo_irq_sys_def demo_irq_cpu_def pend_lrs_def)

definition PMR_KEPT :: u32 where "PMR_KEPT = 0xf8"

lemmas gicc_consts = GICH_VMCR_EN0_def GICH_VMCR_EOImode_def GICC_CTLR_GRPEN1_def GICC_CTLR_EOImode_def PMR_KEPT_def

lemma and_bit_test:
  "x AND GICC_CTLR_GRPEN1 \<noteq> 0 \<longleftrightarrow> bit x 0" "x AND GICC_CTLR_EOImode \<noteq> 0 \<longleftrightarrow> bit x 9"
  "x AND GICH_VMCR_EN0 \<noteq> 0 \<longleftrightarrow> bit x 0" "x AND GICH_VMCR_EOImode \<noteq> 0 \<longleftrightarrow> bit x 9"
  using and_exp_eq_0_iff_not_bit [of x 0] and_exp_eq_0_iff_not_bit [of x 9] by (simp_all add: gicc_consts)

lemma bit_gicc_consts:
  "bit GICC_CTLR_GRPEN1 n \<longleftrightarrow> n = 0" "bit GICC_CTLR_EOImode n \<longleftrightarrow> n = 9" "bit GICH_VMCR_EN0 n \<longleftrightarrow> n = 0"
  "bit GICH_VMCR_EOImode n \<longleftrightarrow> n = 9" "bit PMR_KEPT n \<longleftrightarrow> 3 \<le> n \<and> n < 8"
proof -
  have 1: "GICC_CTLR_EOImode = push_bit 9 1" "GICH_VMCR_EOImode = push_bit 9 1" by (simp_all add: gicc_consts push_bit_eq_mult)
  have 3: "PMR_KEPT = push_bit 3 (mask 5)" by (simp add: PMR_KEPT_def push_bit_eq_mult mask_eq_exp_minus_1)
  show "bit GICC_CTLR_EOImode n \<longleftrightarrow> n = 9" "bit GICH_VMCR_EOImode n \<longleftrightarrow> n = 9"
    unfolding 1 by (auto simp only: bit_push_bit_iff bit_1_iff possible_bit_word) auto
  show "bit PMR_KEPT n \<longleftrightarrow> 3 \<le> n \<and> n < 8" unfolding 3
    by (auto simp only: bit_push_bit_iff bit_mask_iff possible_bit_word) auto
  show "bit GICC_CTLR_GRPEN1 n \<longleftrightarrow> n = 0" "bit GICH_VMCR_EN0 n \<longleftrightarrow> n = 0"
    by (simp_all add: gicc_consts bit_1_iff)
qed

lemma ctlr_bits:
  "(if bit x 0 then GICC_CTLR_GRPEN1 else 0) OR (if bit x 9 then GICC_CTLR_EOImode else 0)
     = x AND (GICC_CTLR_GRPEN1 OR GICC_CTLR_EOImode)"
  by (rule bit_eqI) (auto simp: bit_or_iff bit_and_iff bit_gicc_consts intro: ccontr)

text \<open>
  CPU interface setup and shutdown are inverse on what the root cell sees: the enable and EOI
  mode bits of the control register come back, and the top five bits of the priority mask.
\<close>

theorem gic_cpu_init_shutdown_roundtrip:
  assumes "gicv2_cpu_init mnt_irq num_lr target c y = (y1, ok)" "gicc_pmr (irq_cpus y c) < 0x100"
  shows "\<exists>y2. gicv2_cpu_shutdown mnt_irq c y1 = (y2, True)
    \<and> gicc_ctlr (irq_cpus y2 c) = gicc_ctlr (irq_cpus y c) AND (GICC_CTLR_GRPEN1 OR GICC_CTLR_EOImode)
    \<and> gicc_pmr (irq_cpus y2 c) = gicc_pmr (irq_cpus y c) AND PMR_KEPT"
proof -
  let ?ctlr = "gicc_ctlr (irq_cpus y c)" and ?pmr = "gicc_pmr (irq_cpus y c)"
  define vmcr :: u32 where "vmcr = push_bit 27 (drop_bit 3 ?pmr) OR (if bit ?ctlr 0 then GICH_VMCR_EN0 else 0) OR (if bit ?ctlr 9 then GICH_VMCR_EOImode else 0)"
  have y1: "gicc_initialized (irq_cpus y1 c)" "gich_vmcr (irq_cpus y1 c) = vmcr"
    using assms(1) by (auto simp: gic_cpu_defs Let_def vmcr_def and_bit_test or.assoc split: if_splits)
  have bv: "bit vmcr 0 = bit ?ctlr 0" "bit vmcr 9 = bit ?ctlr 9"
    by (auto simp: vmcr_def bit_simps bit_gicc_consts)
  have pm: "push_bit 3 (drop_bit 27 vmcr) = ?pmr AND PMR_KEPT"
  proof (rule bit_eqI)
    fix n assume "possible_bit TYPE(32 word) n"
    then show "bit (push_bit 3 (drop_bit 27 vmcr)) n \<longleftrightarrow> bit (?pmr AND PMR_KEPT) n"
      by (auto simp: vmcr_def bit_simps bit_gicc_consts)
  qed
  have ct: "(if bit vmcr 0 then GICC_CTLR_GRPEN1 else 0) OR (if bit vmcr 9 then GICC_CTLR_EOImode else 0)
      = ?ctlr AND (GICC_CTLR_GRPEN1 OR GICC_CTLR_EOImode)"
    using bv ctlr_bits [of ?ctlr] by simp
  show ?thesis
    using y1 pm ct by (auto simp: gicv2_cpu_shutdown_def gicd_write_def upd_cpu_def Let_def and_bit_test)
qed

theorem gic_cpu_init_shutdown_roundtrip_example:
  "\<exists>y1 y2 ok. gicv2_cpu_init 25 4 1 0 demo_irq_sys = (y1, ok) \<and> gicv2_cpu_shutdown 25 0 y1 = (y2, True)
     \<and> gicc_ctlr (irq_cpus y2 0) = 0x201 \<and> gicc_pmr (irq_cpus y2 0) = 0xf0"
proof -
  obtain y1 ok where r: "gicv2_cpu_init 25 4 1 0 demo_irq_sys = (y1, ok)" by fastforce
  show ?thesis
    using gic_cpu_init_shutdown_roundtrip [OF r] r
    by (auto simp: demo_irq_sys_def demo_irq_cpu_def gicc_consts)
qed

end
