(* ===== verification/ArbiterSignals.thy ===== *)
theory ArbiterSignals
  imports FixedPriority IrqPending
begin

text \<open>
  The fixed-priority arbiter on the interrupt path of the hypervisor. \<open>FixedPriority\<close> shows that guests which receive every STARTED and ENDED
  interrupt once and in order agree with the arbiter. The path the interrupts really take, \<open>irqchip_set_pending\<close>, the ring of the target CPU,
  \<open>irqchip_inject_pending\<close> and the list registers (theory \<open>IrqPending\<close>), drops an interrupt when the ring is full or when a list register already
  has an interrupt of the same number. Here arbiter, interrupt path and guests are one system. It is shown that the guests stay in agreement with
  the arbiter when an arbitration interrupt is sent to a core only after the core has completed the previous one, and that
  without this condition a core can wait forever for a token it holds.

  The guests are single-core: the calling CPUs are the first CPUs of the cells.
\<close>

unbundle bit_operations_syntax

subsection \<open>Arbitration interrupts on their way\<close>

definition is_arb :: "u16 \<Rightarrow> bool" where
  "is_arb x \<longleftrightarrow> x = of_nat SGI_MEMORY_PHASE_STARTED \<or> x = of_nat SGI_MEMORY_PHASE_ENDED"

text \<open>
  The arbitration interrupts a CPU has still to take: pending in a list register or waiting in the ring. The second list has those
  the guest has taken but not completed too: they occupy a list register in the active state.
\<close>

definition arb_pending :: "irq_cpu \<Rightarrow> u16 list" where
  "arb_pending s = filter is_arb (pend_lrs (gich_lr s) @ map fst (ring_contents (pending s)))"

definition arb_busy :: "irq_cpu \<Rightarrow> u16 list" where
  "arb_busy s = filter is_arb (map ucast (lr_irqs (gich_lr s)) @ map fst (ring_contents (pending s)))"

definition quiet :: "irq_cpu \<Rightarrow> bool" where
  "quiet s \<longleftrightarrow> arb_busy s = [] \<and> length (ring_contents (pending s)) < 255"

text \<open>
  How the virtual CPU interface of the GIC changes a list register: the guest's acknowledgement makes a pending interrupt active, the end of
  interrupt frees the register.
\<close>

definition lr_pending :: "u32 \<Rightarrow> bool" where
  "lr_pending lr \<longleftrightarrow> lr AND GICH_LR_PENDING_BIT \<noteq> 0"

definition lr_ack :: "u32 \<Rightarrow> u32" where
  "lr_ack lr = (lr AND NOT GICH_LR_PENDING_BIT) OR GICH_LR_ACTIVE_BIT"

definition lr_eoi :: "u32 \<Rightarrow> u32" where
  "lr_eoi lr = lr AND NOT GICH_LR_ACTIVE_BIT"

lemma lr_bits: "lr_pending lr \<longleftrightarrow> bit lr 28" "lr_free lr \<longleftrightarrow> \<not> bit lr 28 \<and> \<not> bit lr 29"
proof -
  show "lr_pending lr \<longleftrightarrow> bit lr 28"
    using and_exp_eq_0_iff_not_bit [of lr 28] by (simp add: lr_pending_def GICH_LR_PENDING_BIT_def)
  have "lr_free lr \<longleftrightarrow> lr AND 2 ^ 28 = 0 \<and> lr AND 2 ^ 29 = 0"
    unfolding lr_free_def bit.conj_disj_distrib or_eq_0_iff by (simp add: GICH_LR_PENDING_BIT_def GICH_LR_ACTIVE_BIT_def)
  then show "lr_free lr \<longleftrightarrow> \<not> bit lr 28 \<and> \<not> bit lr 29" unfolding and_exp_eq_0_iff_not_bit .
qed

lemma lr_ack_bits: "\<not> lr_pending (lr_ack lr)" "\<not> lr_free (lr_ack lr)" "lr_vid (lr_ack lr) = lr_vid lr"
proof -
  show "\<not> lr_pending (lr_ack lr)" "\<not> lr_free (lr_ack lr)"
    by (simp_all add: lr_bits lr_ack_def bit_or_iff bit_and_iff bit_not_iff bit_lr_flags)
  show "lr_vid (lr_ack lr) = lr_vid lr"
    by (rule bit_eqI) (auto simp: lr_vid_def lr_ack_def virt_id_mask bit_simps bit_lr_flags)
qed

lemma lr_eoi_free: "\<not> lr_pending lr \<Longrightarrow> lr_free (lr_eoi lr)"
  by (simp add: lr_bits lr_eoi_def bit_and_iff bit_not_iff bit_lr_flags)

lemma lr_pending_occupied: "lr_pending lr \<Longrightarrow> \<not> lr_free lr"
  by (simp add: lr_bits)

lemma make_lr_pending: "lr_pending (make_lr irq sd)"
  by (simp add: lr_bits make_lr_def bit_or_iff bit_lr_flags)

lemma pend_lrs_eq: "pend_lrs lrs = map (\<lambda>lr. ucast (lr_vid lr)) (filter lr_pending lrs)"
  by (simp add: pend_lrs_def lr_vid_def lr_pending_def [abs_def])

text \<open>One list register is replaced.\<close>

lemma mset_upd:
  assumes "i < length lrs"
  shows "mset (map f (filter P (lrs[i := x]))) + (if P (lrs ! i) then {#f (lrs ! i)#} else {#}) =
    mset (map f (filter P lrs)) + (if P x then {#f x#} else {#})"
proof -
  have l: "lrs = take i lrs @ lrs ! i # drop (Suc i) lrs" using assms by (rule id_take_nth_drop)
  have r: "lrs[i := x] = take i lrs @ x # drop (Suc i) lrs" using assms by (rule upd_conv_take_nth_drop)
  show ?thesis unfolding r by (subst (2) l) simp
qed

lemma mset_short: "mset xs = mset ys \<Longrightarrow> length ys \<le> 1 \<Longrightarrow> xs = ys"
  by (cases ys) (auto dest: mset_eq_length)

lemma pending_busy: "mset (arb_pending s) \<subseteq># mset (arb_busy s)"
proof -
  have "filter lr_pending lrs = filter lr_pending (filter (\<lambda>lr. \<not> lr_free lr) lrs)" for lrs
    using lr_pending_occupied by (induction lrs) auto
  then have "mset (pend_lrs (gich_lr s)) \<subseteq># mset (map ucast (lr_irqs (gich_lr s)))"
    unfolding pend_lrs_eq lr_irqs_def map_map comp_def mset_map by (intro image_mset_subseteq_mono) (metis mset_filter multiset_filter_subset)
  then show ?thesis
    by (simp add: arb_pending_def arb_busy_def subset_mset.add_right_mono multiset_filter_mono)
qed

lemma pending_length: "length (arb_pending s) \<le> length (arb_busy s)"
  using size_mset_mono [OF pending_busy [of s]] by simp

subsection \<open>What the operations of the interrupt path do to them\<close>

text \<open>At most one arbitration interrupt is with a CPU at any time.\<close>

definition cpu_ok :: "irq_cpu \<Rightarrow> bool" where
  "cpu_ok s \<longleftrightarrow> irq_cpu_ok s \<and> length (arb_busy s) \<le> 1"

definition same_arb :: "irq_cpu \<Rightarrow> irq_cpu \<Rightarrow> bool" where
  "same_arb s s' \<longleftrightarrow> arb_pending s' = arb_pending s \<and> cpu_ok s'"

lemma arb_valid: "is_arb x \<Longrightarrow> irq_valid x"
  by (auto simp: is_arb_def irq_valid_def sgi_consts)

lemma ucast_irq [simp]: "(ucast (ucast x :: u32) :: u16) = x" for x :: u16
  by (rule bit_eqI) (auto simp: bit_ucast_iff)

text \<open>Filling a free list register.\<close>

lemma inject_ok_lrs:
  assumes v: "irq_valid x" and inj: "gicv2_inject_irq x sd lrs = (lrs', INJ_OK)"
  shows "mset (pend_lrs lrs') = add_mset x (mset (pend_lrs lrs))"
    "mset (map ucast (lr_irqs lrs') :: u16 list) = add_mset x (mset (map ucast (lr_irqs lrs)))"
    "distinct (lr_irqs lrs) \<Longrightarrow> distinct (lr_irqs lrs')"
proof -
  let ?i = "length (takeWhile (\<lambda>lr. \<not> lr_free lr) lrs)"
  have c: "ucast x \<notin> set (lr_irqs lrs)" "\<exists>lr\<in>set lrs. lr_free lr" "lrs' = lrs[?i := make_lr x sd]"
    using inj by (auto simp: gicv2_inject_irq_def lr_scan_result split: option.splits if_splits)
  have i: "?i < length lrs" "lr_free (lrs ! ?i)" using first_free_index [OF c(2)] by auto
  have np: "\<not> lr_pending (lrs ! ?i)" using i(2) lr_pending_occupied by blast
  show "mset (pend_lrs lrs') = add_mset x (mset (pend_lrs lrs))"
    using mset_upd [OF i(1), of "\<lambda>lr. ucast (lr_vid lr) :: u16" lr_pending "make_lr x sd"] np
    unfolding pend_lrs_eq c(3) by (simp add: make_lr_pending make_lr_vid [OF v])
  have m: "mset (lr_irqs lrs') = add_mset (ucast x) (mset (lr_irqs lrs))"
    using mset_upd [OF i(1), of lr_vid "\<lambda>lr. \<not> lr_free lr" "make_lr x sd"] i(2)
    unfolding lr_irqs_def c(3) by (simp add: make_lr_occupied make_lr_vid [OF v])
  then show "mset (map ucast (lr_irqs lrs') :: u16 list) = add_mset x (mset (map ucast (lr_irqs lrs)))" by simp
  show "distinct (lr_irqs lrs) \<Longrightarrow> distinct (lr_irqs lrs')"
    using m c(1) by (metis distinct.simps(2) mset.simps(2) mset_eq_imp_distinct_iff)
qed

lemma same_arbI:
  assumes "cpu_ok s" "mset (arb_pending s') = mset (arb_pending s)" "mset (arb_busy s') = mset (arb_busy s)" "irq_cpu_ok s'"
  shows "same_arb s s'"
proof -
  have "length (arb_busy s) \<le> 1" using assms(1) by (simp add: cpu_ok_def)
  moreover have "length (arb_busy s') = length (arb_busy s)" using assms(3) by (rule mset_eq_length)
  moreover have "length (arb_pending s) \<le> 1" using pending_length [of s] calculation(1) by simp
  ultimately show ?thesis using assms(2,4) mset_short by (auto simp: same_arb_def cpu_ok_def)
qed

lemma same_arb_trans: "same_arb s s1 \<Longrightarrow> same_arb s1 s2 \<Longrightarrow> same_arb s s2"
  by (simp add: same_arb_def)

lemma same_arb_refl: "cpu_ok s \<Longrightarrow> same_arb s s"
  by (simp add: same_arb_def)

text \<open>One entry of the ring goes into a list register, or is dropped because its number is in one.\<close>

lemma inject_one:
  assumes ok: "cpu_ok s" and ne: "head (pending s) \<noteq> tail (pending s)"
    and inj: "gicv2_inject_irq (irqs (pending s) ! head (pending s)) sd (gich_lr s) = (lrs, res)" "res \<noteq> INJ_EBUSY"
  shows "same_arb s (s\<lparr>gich_lr := lrs, pending := ring_drop (pending s)\<rparr>)"
proof -
  let ?p = "pending s" and ?x = "irqs (pending s) ! head (pending s)" and ?s1 = "s\<lparr>gich_lr := lrs, pending := ring_drop (pending s)\<rparr>"
  have rk: "irq_cpu_ok s" "ring_ok ?p" using ok by (auto simp: cpu_ok_def irq_cpu_ok_def)
  note c = ring_contents_Cons [OF rk(2) ne]
  have v: "irq_valid ?x" using rk c(1) by (auto simp: irq_cpu_ok_def)
  show ?thesis using v
  proof (cases rule: gicv2_inject_irq_cases [of ?x sd "gich_lr s"])
    case exists
    have x: "?x \<in> set (map ucast (lr_irqs (gich_lr s)))" using exists(2) by (metis image_eqI list.set_map ucast_irq)
    have "\<not> is_arb ?x"
    proof
      assume a: "is_arb ?x"
      obtain as bs where "map ucast (lr_irqs (gich_lr s)) = as @ ?x # bs" using x by (meson split_list)
      then show False using ok a c(1) by (simp add: cpu_ok_def arb_busy_def)
    qed
    then show ?thesis using exists inj(1) ok c rk(1) by (intro same_arbI) (auto simp: arb_pending_def arb_busy_def irq_cpu_ok_def)
  next
    case (inject lrs')
    then have l: "gicv2_inject_irq ?x sd (gich_lr s) = (lrs, INJ_OK)" using inj by simp
    note m = inject_ok_lrs [OF v l]
    show ?thesis
    proof (rule same_arbI [OF ok])
      show "mset (arb_pending ?s1) = mset (arb_pending s)" "mset (arb_busy ?s1) = mset (arb_busy s)"
        unfolding arb_pending_def arb_busy_def mset_filter mset_append by (simp_all add: m(1,2) [unfolded mset_map] c(1))
      show "irq_cpu_ok ?s1" using rk(1) c m(3) by (auto simp: irq_cpu_ok_def)
    qed
  qed (use inj in auto)
qed

lemma maint_same_arb: "cpu_ok s \<Longrightarrow> same_arb s (gicv2_enable_maint_irq b s)"
  by (simp add: same_arb_def cpu_ok_def irq_cpu_ok_def arb_pending_def arb_busy_def gicv2_enable_maint_irq_def)

lemma inject_pending_same_arb:
  assumes "cpu_ok s" "irqchip_inject_pending s = Some s'"
  shows "same_arb s s'"
  using assms
proof (induction "ring_len (pending s)" arbitrary: s rule: less_induct)
  case less
  let ?p = "pending s"
  have ok: "ring_ok ?p" using less.prems(1) by (simp add: cpu_ok_def irq_cpu_ok_def)
  show ?case
  proof (cases "head ?p = tail ?p")
    case True
    then show ?thesis using less.prems maint_same_arb by (subst (asm) irqchip_inject_pending.simps) auto
  next
    case False
    let ?x = "irqs ?p ! head ?p" and ?y = "sender ?p ! head ?p"
    obtain lrs res where inj: "gicv2_inject_irq ?x ?y (gich_lr s) = (lrs, res)" by fastforce
    let ?s1 = "s\<lparr>gich_lr := lrs, pending := ring_drop ?p\<rparr>"
    have "head ?p < length (irqs ?p)" "head ?p < length (sender ?p)" using ok by (auto simp: ring_ok_def)
    then have step: "irqchip_inject_pending s = (if res = INJ_EBUSY then Some (gicv2_enable_maint_irq True s) else irqchip_inject_pending ?s1)"
      using False inj by (subst irqchip_inject_pending.simps) (simp add: ring_drop_def)
    show ?thesis
    proof (cases "res = INJ_EBUSY")
      case True
      then show ?thesis using step less.prems maint_same_arb by auto
    next
      case go: False
      have s1: "same_arb s ?s1" using inject_one [OF less.prems(1) False inj go] .
      have "same_arb ?s1 s'"
        using less.hyps [of ?s1] ring_contents_Cons(3) [OF ok False] s1 step go less.prems(2) by (simp add: same_arb_def)
      then show ?thesis using s1 same_arb_trans by blast
    qed
  qed
qed

text \<open>The guest acknowledges an interrupt, and completes one.\<close>

lemma ack_lrs:
  assumes "i < length lrs" "lr_pending (lrs ! i)"
  shows "lr_irqs (lrs[i := lr_ack (lrs ! i)]) = lr_irqs lrs"
    "mset (pend_lrs lrs) = add_mset (ucast (lr_vid (lrs ! i))) (mset (pend_lrs (lrs[i := lr_ack (lrs ! i)])))"
proof -
  have o: "\<not> lr_free (lrs ! i)" using assms(2) by (rule lr_pending_occupied)
  show "lr_irqs (lrs[i := lr_ack (lrs ! i)]) = lr_irqs lrs"
    using lr_irqs_split [of i lrs] lr_irqs_split [of i "lrs[i := lr_ack (lrs ! i)]"] assms(1) o by (simp add: lr_ack_bits)
  show "mset (pend_lrs lrs) = add_mset (ucast (lr_vid (lrs ! i))) (mset (pend_lrs (lrs[i := lr_ack (lrs ! i)])))"
    using mset_upd [OF assms(1), of "\<lambda>lr. ucast (lr_vid lr) :: u16" lr_pending "lr_ack (lrs ! i)"] assms(2)
    unfolding pend_lrs_eq by (simp add: lr_ack_bits)
qed

lemma eoi_lrs:
  assumes "i < length lrs" "\<not> lr_pending (lrs ! i)" "\<not> lr_free (lrs ! i)"
  shows "pend_lrs (lrs[i := lr_eoi (lrs ! i)]) = pend_lrs lrs"
    "mset (lr_irqs lrs) = add_mset (lr_vid (lrs ! i)) (mset (lr_irqs (lrs[i := lr_eoi (lrs ! i)])))"
proof -
  have f: "lr_free (lr_eoi (lrs ! i))" using assms(2) by (rule lr_eoi_free)
  have p: "\<not> lr_pending (lr_eoi (lrs ! i))" using f lr_pending_occupied by blast
  have u: "lrs[i := y] = take i lrs @ y # drop (Suc i) lrs" for y using assms(1) by (rule upd_conv_take_nth_drop)
  have "filter lr_pending (lrs[i := lr_eoi (lrs ! i)]) = filter lr_pending (lrs[i := lrs ! i])"
    unfolding u using assms(2) p by simp
  then show "pend_lrs (lrs[i := lr_eoi (lrs ! i)]) = pend_lrs lrs" by (simp add: pend_lrs_eq)
  show "mset (lr_irqs lrs) = add_mset (lr_vid (lrs ! i)) (mset (lr_irqs (lrs[i := lr_eoi (lrs ! i)])))"
    using mset_upd [OF assms(1), of lr_vid "\<lambda>lr. \<not> lr_free lr" "lr_eoi (lrs ! i)"] assms(3) f
    unfolding lr_irqs_def by simp
qed

definition cpu_ack :: "nat \<Rightarrow> irq_cpu \<Rightarrow> irq_cpu" where
  "cpu_ack i s = s\<lparr>gich_lr := (gich_lr s)[i := lr_ack (gich_lr s ! i)]\<rparr>"

definition cpu_eoi :: "nat \<Rightarrow> irq_cpu \<Rightarrow> irq_cpu" where
  "cpu_eoi i s = s\<lparr>gich_lr := (gich_lr s)[i := lr_eoi (gich_lr s ! i)]\<rparr>"

lemma ack_arb:
  assumes ok: "cpu_ok s" and i: "i < length (gich_lr s)" "lr_pending (gich_lr s ! i)"
  defines "x \<equiv> ucast (lr_vid (gich_lr s ! i)) :: u16"
  shows "cpu_ok (cpu_ack i s)" "is_arb x \<Longrightarrow> arb_pending s = [x] \<and> arb_pending (cpu_ack i s) = []"
    "\<not> is_arb x \<Longrightarrow> arb_pending (cpu_ack i s) = arb_pending s"
proof -
  note l = ack_lrs [OF i]
  have b: "arb_busy (cpu_ack i s) = arb_busy s" using l(1) by (simp add: arb_busy_def cpu_ack_def)
  then show "cpu_ok (cpu_ack i s)" using ok l(1) by (simp add: cpu_ok_def irq_cpu_ok_def cpu_ack_def)
  have m: "mset (arb_pending s) = (if is_arb x then {#x#} else {#}) + mset (arb_pending (cpu_ack i s))"
    unfolding arb_pending_def mset_filter mset_append cpu_ack_def x_def by (simp add: l(2))
  have len: "length (arb_pending s) \<le> 1" using pending_length [of s] ok by (simp add: cpu_ok_def)
  show "\<not> is_arb x \<Longrightarrow> arb_pending (cpu_ack i s) = arb_pending s" using m len mset_short [of "arb_pending (cpu_ack i s)" "arb_pending s"] by simp
  assume "is_arb x"
  then have "length (arb_pending s) = Suc (length (arb_pending (cpu_ack i s)))" using m by (metis add_mset_add_single size_add_mset size_mset union_commute)
  then show "arb_pending s = [x] \<and> arb_pending (cpu_ack i s) = []" using len m \<open>is_arb x\<close> by simp
qed

lemma eoi_arb:
  assumes ok: "cpu_ok s" and i: "i < length (gich_lr s)" "\<not> lr_pending (gich_lr s ! i)" "\<not> lr_free (gich_lr s ! i)"
  shows "same_arb s (cpu_eoi i s)"
proof -
  note l = eoi_lrs [OF i]
  have "arb_pending (cpu_eoi i s) = arb_pending s" using l(1) by (simp add: arb_pending_def cpu_eoi_def)
  moreover have "mset (arb_busy (cpu_eoi i s)) \<subseteq># mset (arb_busy s)"
    unfolding arb_busy_def cpu_eoi_def mset_filter mset_append mset_map by (simp add: l(2))
  then have "length (arb_busy (cpu_eoi i s)) \<le> length (arb_busy s)" using size_mset_mono by fastforce
  moreover have "distinct (lr_irqs (gich_lr (cpu_eoi i s)))"
    using ok l(2) by (simp add: cpu_ok_def irq_cpu_ok_def cpu_eoi_def) (metis distinct.simps(2) mset.simps(2) mset_eq_imp_distinct_iff)
  ultimately show ?thesis using ok by (auto simp: same_arb_def cpu_ok_def irq_cpu_ok_def cpu_eoi_def)
qed

text \<open>An interrupt other than STARTED and ENDED is sent to CPU \<open>c\<close>, by itself or by another CPU.\<close>

lemma put_same_arb:
  assumes "cpu_ok s" "ring_ok p" "ring_contents p = ring_contents (pending s) \<or> ring_contents p = ring_contents (pending s) @ [(x, sd)]"
    "\<not> is_arb x" "irq_valid x"
  shows "same_arb s (s\<lparr>pending := p\<rparr>)"
  using assms by (intro same_arbI) (auto simp: arb_pending_def arb_busy_def cpu_ok_def irq_cpu_ok_def)

lemma other_irq_same_arb:
  assumes ok: "cpu_ok (irq_cpus y c)" and x: "irq_valid x" "\<not> is_arb x" and c: "c < length (gicv2_target_cpu_map y)"
    and send: "irqchip_set_pending me (Some c) x y = Some y'"
  shows "same_arb (irq_cpus y c) (irq_cpus y' c) \<and> (\<forall>d. d \<noteq> c \<longrightarrow> irq_cpus y' d = irq_cpus y d) \<and> gicv2_target_cpu_map y' = gicv2_target_cpu_map y"
proof (cases "me = c")
  case False
  have "ring_ok (pending (irq_cpus y c))" using ok by (simp add: cpu_ok_def irq_cpu_ok_def)
  then obtain p where p: "irq_cpus y' = (irq_cpus y)(c := (irq_cpus y c)\<lparr>pending := p\<rparr>)" "ring_ok p"
    "ring_contents p = (if length (ring_of c y) < 255 then ring_of c y @ [(x, of_nat me)] else ring_of c y)"
    "gicv2_target_cpu_map y' = gicv2_target_cpu_map y"
    using set_pending_remote [OF False _ c, of x] send by auto
  then show ?thesis using put_same_arb [OF ok p(2) _ x(2,1), of "of_nat me"] by simp
next
  case True
  let ?s = "irq_cpus y c"
  obtain lrs res where inj: "gicv2_inject_irq x (of_nat me) (gich_lr ?s) = (lrs, res)" by fastforce
  show ?thesis
  proof (cases "res = INJ_EBUSY")
    case busy: True
    obtain p where p: "ring_put x (of_nat me) (pending ?s) = Some p" "ring_ok p"
      "ring_contents p = (if length (ring_of c y) < 255 then ring_of c y @ [(x, of_nat me)] else ring_of c y)"
      using ring_put_contents [of "pending ?s" x "of_nat me"] ok by (auto simp: cpu_ok_def irq_cpu_ok_def MAX_PENDING_IRQS_def)
    have s1: "same_arb ?s (?s\<lparr>pending := p\<rparr>)" using put_same_arb [OF ok p(2) _ x(2,1), of "of_nat me"] p(3) by simp
    then have "same_arb ?s (gicv2_enable_maint_irq True (?s\<lparr>pending := p\<rparr>))"
      using maint_same_arb same_arb_trans by (meson same_arb_def)
    then show ?thesis using send True inj busy p(1) by (auto simp: irqchip_set_pending_def upd_cpu_def)
  next
    case False
    have y': "y' = upd_cpu c (\<lambda>s. s\<lparr>gich_lr := lrs\<rparr>) y" using send True inj False by (simp add: irqchip_set_pending_def)
    have "same_arb ?s (?s\<lparr>gich_lr := lrs\<rparr>)"
    proof (cases "res = INJ_OK")
      case True
      note m = inject_ok_lrs [OF x(1) inj [unfolded True]]
      show ?thesis
        by (rule same_arbI [OF ok]) (use m x(2) ok in \<open>auto simp: arb_pending_def arb_busy_def mset_map [symmetric] cpu_ok_def irq_cpu_ok_def simp del: mset_map\<close>)
    next
      case ex: False
      then have "lrs = gich_lr ?s" using inj False by (auto simp: gicv2_inject_irq_def split: option.splits)
      then show ?thesis using same_arb_refl [OF ok] by simp
    qed
    then show ?thesis unfolding y' by (simp add: upd_cpu_def)
  qed
qed

text \<open>An arbitration interrupt is sent to another, quiet CPU.\<close>

lemma arb_send:
  assumes ok: "cpu_ok (irq_cpus y d)" and q: "quiet (irq_cpus y d)" and d: "d < length (gicv2_target_cpu_map y)" "d \<noteq> me"
    and x: "is_arb x"
  obtains y' where "irqchip_set_pending me (Some d) x y = Some y'" "cpu_ok (irq_cpus y' d)" "arb_pending (irq_cpus y' d) = [x]"
    "\<And>e. e \<noteq> d \<Longrightarrow> irq_cpus y' e = irq_cpus y e" "gicv2_target_cpu_map y' = gicv2_target_cpu_map y"
proof -
  let ?s = "irq_cpus y d"
  have "ring_ok (pending ?s)" using ok by (simp add: cpu_ok_def irq_cpu_ok_def)
  then obtain y' p where p: "irqchip_set_pending me (Some d) x y = Some y'" "irq_cpus y' = (irq_cpus y)(d := ?s\<lparr>pending := p\<rparr>)" "ring_ok p"
    "ring_contents p = ring_contents (pending ?s) @ [(x, of_nat me)]" "gicv2_target_cpu_map y' = gicv2_target_cpu_map y"
    using set_pending_remote [of me d y x] d q by (auto simp: quiet_def)
  have b: "arb_busy ?s = []" using q by (simp add: quiet_def)
  then have "arb_pending ?s = []" using pending_length [of ?s] by simp
  then have "arb_pending (?s\<lparr>pending := p\<rparr>) = [x]" "arb_busy (?s\<lparr>pending := p\<rparr>) = [x]"
    using b p(4) x by (auto simp: arb_pending_def arb_busy_def)
  moreover have "irq_cpu_ok (?s\<lparr>pending := p\<rparr>)" using ok p(3,4) arb_valid [OF x] by (auto simp: cpu_ok_def irq_cpu_ok_def)
  ultimately show ?thesis using that p by (auto simp: cpu_ok_def)
qed

subsection \<open>Arbiter, interrupt path and guests\<close>

record arb_sys =
  sys_arb :: fp_state
  sys_irq :: irq_sys
  sys_client :: "nat \<Rightarrow> mem_arbit_status"

text \<open>
  The hypercalls run on CPU \<open>me\<close> and send their interrupts, in program order, by \<open>irqchip_set_pending\<close>.
\<close>

definition send_sgis :: "nat \<Rightarrow> sgi_out \<Rightarrow> irq_sys \<Rightarrow> irq_sys option" where
  "send_sgis me out y = run_all (\<lambda>m. irqchip_set_pending me (Some (fst m)) (of_nat (snd m))) out y"

text \<open>
  The steps. \<open>sig_begin\<close> and \<open>sig_end\<close> are the hypercalls of a guest that begins and ends a memory phase, \<open>sig_inject\<close> is the hypervisor moving
  interrupts of a CPU from its ring to its list registers, \<open>sig_ack\<close> the guest taking a pending interrupt (with what its interrupt routine does to
  the status), \<open>sig_eoi\<close> the end of the interrupt, and \<open>sig_other\<close> the sending of any other interrupt to a core, by itself or another CPU.

  With \<open>prompt\<close>, arbitration interrupts are taken in time: a core begins a phase only when it has completed all interrupts of earlier ones, and an
  interrupt is sent only to a core that has completed the previous one and whose ring is not full. The code does not check this.
\<close>

inductive sig_step :: "bool \<Rightarrow> cell list \<Rightarrow> (nat \<Rightarrow> per_cpu) \<Rightarrow> arb_sys \<Rightarrow> arb_sys \<Rightarrow> bool" for prompt cells pcs where
  sig_begin: "\<lbrakk>c \<in> fp_cores cells; sys_client z c = MEMORY_TOKEN_NONE; request_memory (pcs c) (sys_arb z) = Some (a, out, got);
     prompt \<Longrightarrow> quiet (irq_cpus (sys_irq z) c); prompt \<Longrightarrow> \<forall>m\<in>set out. quiet (irq_cpus (sys_irq z) (fst m));
     send_sgis c out (sys_irq z) = Some y\<rbrakk> \<Longrightarrow>
     sig_step prompt cells pcs z \<lparr>sys_arb = a, sys_irq = y,
       sys_client = (sys_client z)(c := if got then MEMORY_TOKEN_ACQUIRED else MEMORY_TOKEN_REQUESTED)\<rparr>"
| sig_end: "\<lbrakk>c \<in> fp_cores cells; sys_client z c \<noteq> MEMORY_TOKEN_NONE; disable_memory_request cells c (sys_arb z) = Some (a, out);
     prompt \<Longrightarrow> \<forall>m\<in>set out. quiet (irq_cpus (sys_irq z) (fst m)); send_sgis c out (sys_irq z) = Some y\<rbrakk> \<Longrightarrow>
     sig_step prompt cells pcs z \<lparr>sys_arb = a, sys_irq = y, sys_client = (sys_client z)(c := MEMORY_TOKEN_NONE)\<rparr>"
| sig_inject: "\<lbrakk>c \<in> fp_cores cells; irqchip_inject_pending (irq_cpus (sys_irq z) c) = Some s\<rbrakk> \<Longrightarrow>
     sig_step prompt cells pcs z (z\<lparr>sys_irq := upd_cpu c (\<lambda>_. s) (sys_irq z)\<rparr>)"
| sig_ack: "\<lbrakk>c \<in> fp_cores cells; i < length (gich_lr (irq_cpus (sys_irq z) c)); lr_pending (gich_lr (irq_cpus (sys_irq z) c) ! i)\<rbrakk> \<Longrightarrow>
     sig_step prompt cells pcs z (z\<lparr>sys_irq := upd_cpu c (cpu_ack i) (sys_irq z),
       sys_client := (sys_client z)(c := client_sgi (unat (lr_vid (gich_lr (irq_cpus (sys_irq z) c) ! i))) (sys_client z c))\<rparr>)"
| sig_eoi: "\<lbrakk>c \<in> fp_cores cells; i < length (gich_lr (irq_cpus (sys_irq z) c));
     \<not> lr_pending (gich_lr (irq_cpus (sys_irq z) c) ! i); \<not> lr_free (gich_lr (irq_cpus (sys_irq z) c) ! i)\<rbrakk> \<Longrightarrow>
     sig_step prompt cells pcs z (z\<lparr>sys_irq := upd_cpu c (cpu_eoi i) (sys_irq z)\<rparr>)"
| sig_other: "\<lbrakk>c \<in> fp_cores cells; irq_valid x; \<not> is_arb x; irqchip_set_pending me (Some c) x (sys_irq z) = Some y\<rbrakk> \<Longrightarrow>
     sig_step prompt cells pcs z (z\<lparr>sys_irq := y\<rparr>)"

text \<open>At the start no core has a request, or an arbitration interrupt on its way.\<close>

definition sig_start_ok :: "cell list \<Rightarrow> irq_sys \<Rightarrow> bool" where
  "sig_start_ok cells y \<longleftrightarrow> (\<forall>c\<in>fp_cores cells. irq_cpu_ok (irq_cpus y c) \<and> arb_busy (irq_cpus y c) = [] \<and> c < length (gicv2_target_cpu_map y))"

inductive sig_reachable :: "bool \<Rightarrow> cell list \<Rightarrow> (nat \<Rightarrow> per_cpu) \<Rightarrow> arb_sys \<Rightarrow> bool" for prompt cells pcs where
  sig_start: "sig_start_ok cells y \<Longrightarrow>
     sig_reachable prompt cells pcs \<lparr>sys_arb = fp_init, sys_irq = y, sys_client = (\<lambda>_. MEMORY_TOKEN_NONE)\<rparr>"
| sig_next: "sig_reachable prompt cells pcs z \<Longrightarrow> sig_step prompt cells pcs z z' \<Longrightarrow> sig_reachable prompt cells pcs z'"

text \<open>
  The abstraction: the queue of a core in the protocol of \<open>MemoryArbiter\<close> is what the core has still to take.
\<close>

definition sig_queue :: "cell list \<Rightarrow> irq_sys \<Rightarrow> nat \<Rightarrow> nat list" where
  "sig_queue cells y c = (if c \<in> fp_cores cells then map unat (arb_pending (irq_cpus y c)) else [])"

definition sig_abs :: "cell list \<Rightarrow> arb_sys \<Rightarrow> fp_state proto" where
  "sig_abs cells z = \<lparr>arb = sys_arb z, sgi_queue = sig_queue cells (sys_irq z), client = sys_client z\<rparr>"

definition sig_inv :: "cell list \<Rightarrow> irq_sys \<Rightarrow> bool" where
  "sig_inv cells y \<longleftrightarrow> (\<forall>c\<in>fp_cores cells. cpu_ok (irq_cpus y c) \<and> c < length (gicv2_target_cpu_map y))"

text \<open>An operation of the arbiter sends at most one interrupt, to another core.\<close>

definition out_ok :: "cell list \<Rightarrow> nat \<Rightarrow> sgi_out \<Rightarrow> bool" where
  "out_ok cells c out \<longleftrightarrow> out = [] \<or> (\<exists>d x. out = [(d, x)] \<and> d \<in> fp_cores cells \<and> d \<noteq> c \<and> x \<in> {SGI_MEMORY_PHASE_STARTED, SGI_MEMORY_PHASE_ENDED})"

lemma holder_core:
  assumes "fp_ok cells pcs s" "token_owner s \<noteq> TOKEN_FREE"
  shows "token_owner s \<in> fp_cores cells"
proof -
  have inv: "fp_inv cells s" using assms(1) by (simp add: fp_ok_def)
  then obtain e where "e \<in> set cells" "cell_cpu e = token_owner s"
    using fp_inv_owner [OF inv assms(2)] fp_inv_cell [OF inv] by metis
  then show ?thesis unfolding fp_cores_def by (metis image_eqI)
qed

lemma begin_out_ok:
  assumes ok: "fp_ok cells pcs s" and c: "c \<in> fp_cores cells" and r: "request_memory (pcs c) s = Some (a, out, got)"
  shows "out_ok cells c out"
proof -
  have id: "cpu_id (pcs c) = c" using fp_cores_caller [OF ok c] by simp
  have i: "c < length (memory_requests s)" using ok c fp_cores_range fp_inv_length by (fastforce simp: fp_ok_def)
  have "out = [] \<or> out = [(token_owner s, SGI_MEMORY_PHASE_ENDED)] \<and> token_owner s \<noteq> TOKEN_FREE \<and> token_owner s \<noteq> c"
    using r i id by (auto simp: request_memory_eq split: if_splits)
  then show ?thesis using holder_core [OF ok] by (auto simp: out_ok_def)
qed

lemma end_out_ok:
  assumes ok: "fp_ok cells pcs s" and c: "c \<in> fp_cores cells" and r: "disable_memory_request cells c s = Some (a, out)"
  shows "out_ok cells c out"
proof -
  have wf: "wf_cells cells" "fp_inv cells s" using ok by (auto simp: fp_ok_def)
  obtain s' out' where d: "disable_memory_request cells c s = Some (s', out')" "fp_inv cells s'" "token_owner s' \<noteq> c"
    "out' = (if token_owner s = c \<and> token_owner s' \<noteq> TOKEN_FREE then [(token_owner s', SGI_MEMORY_PHASE_STARTED)] else [])"
    using disable_memory_request_spec [OF wf fp_cores_range [OF wf(1) c]] by metis
  have "fp_ok cells pcs s'" using ok d(2) by (simp add: fp_ok_def)
  then show ?thesis using holder_core [of cells pcs s'] d r by (auto simp: out_ok_def)
qed

lemma send_sgis_queue:
  assumes inv: "sig_inv cells y" and out: "out_ok cells c out" and q: "\<forall>m\<in>set out. quiet (irq_cpus y (fst m))"
    and s: "send_sgis c out y = Some y'"
  shows "sig_inv cells y' \<and> sig_queue cells y' = post_sgis out (sig_queue cells y)"
proof (cases "out = []")
  case True
  then show ?thesis using s inv by (simp add: send_sgis_def post_sgis_def)
next
  case False
  obtain d x where o: "out = [(d, x)]" "d \<in> fp_cores cells" "d \<noteq> c" "x \<in> {SGI_MEMORY_PHASE_STARTED, SGI_MEMORY_PHASE_ENDED}"
    using out False by (auto simp: out_ok_def)
  have d: "cpu_ok (irq_cpus y d)" "d < length (gicv2_target_cpu_map y)" "quiet (irq_cpus y d)" using inv o q by (auto simp: sig_inv_def)
  have a: "is_arb (of_nat x)" "unat (of_nat x :: u16) = x" using o(4) by (auto simp: is_arb_def sgi_consts)
  have y': "irqchip_set_pending c (Some d) (of_nat x) y = Some y'" using s o(1) by (auto simp: send_sgis_def split: bind_splits)
  have n: "cpu_ok (irq_cpus y' d)" "arb_pending (irq_cpus y' d) = [of_nat x]" "\<And>e. e \<noteq> d \<Longrightarrow> irq_cpus y' e = irq_cpus y e"
    "gicv2_target_cpu_map y' = gicv2_target_cpu_map y"
    using arb_send [OF d(1,3,2) o(3) a(1)] y' by (metis option.inject)+
  have e: "arb_pending (irq_cpus y d) = []" using d(3) pending_length [of "irq_cpus y d"] by (simp add: quiet_def)
  have "sig_queue cells y' e = sig_queue cells y e @ sgis_for e out" for e
    using n(2,3) e a(2) o by (cases "e = d") (auto simp: sig_queue_def)
  moreover have "sig_inv cells y'" using inv n unfolding sig_inv_def by metis
  ultimately show ?thesis by (auto simp: post_sgis_def)
qed

lemma sig_queue_same:
  assumes "sig_inv cells y" "\<And>c. c \<in> fp_cores cells \<Longrightarrow> irq_cpus y' c = irq_cpus y c \<or> same_arb (irq_cpus y c) (irq_cpus y' c)"
    "gicv2_target_cpu_map y' = gicv2_target_cpu_map y"
  shows "sig_inv cells y' \<and> sig_queue cells y' = sig_queue cells y"
proof -
  have "cpu_ok (irq_cpus y' c) \<and> arb_pending (irq_cpus y' c) = arb_pending (irq_cpus y c)" if "c \<in> fp_cores cells" for c
    using assms(1) assms(2) [OF that] that by (auto simp: sig_inv_def same_arb_def)
  then show ?thesis using assms(1,3) by (auto simp: sig_inv_def sig_queue_def fun_eq_iff)
qed

lemma upd_cpu_cpus: "irq_cpus (upd_cpu c f y) d = (if d = c then f (irq_cpus y c) else irq_cpus y d)"
  "gicv2_target_cpu_map (upd_cpu c f y) = gicv2_target_cpu_map y"
  by (simp_all add: upd_cpu_def)

lemma vid_fits: "unat (ucast (lr_vid lr) :: u16) = unat (lr_vid lr)"
  unfolding lr_vid_def virt_id_mask take_bit_eq_mask [symmetric]
  by (simp add: unsigned_ucast_eq unsigned_take_bit_eq)

lemma client_sgi_other: "\<not> is_arb (ucast (lr_vid lr)) \<Longrightarrow> client_sgi (unat (lr_vid lr)) st = st"
proof -
  assume n: "\<not> is_arb (ucast (lr_vid lr))"
  have "unat (lr_vid lr) \<noteq> k" if "k \<in> {SGI_MEMORY_PHASE_STARTED, SGI_MEMORY_PHASE_ENDED}" for k
    using n that vid_fits [of lr] by (auto simp: is_arb_def) (metis of_nat_unat ucast_id)+
  then show ?thesis by (simp add: client_sgi_def)
qed

lemma sig_step_abs:
  assumes ok: "fp_ok cells pcs (sys_arb z)" and inv: "sig_inv cells (sys_irq z)" and st: "sig_step True cells pcs z z'"
  shows "sig_inv cells (sys_irq z') \<and> (sig_abs cells z' = sig_abs cells z \<or>
    proto_step (\<lambda>c. request_memory (pcs c)) (disable_memory_request cells) (fp_cores cells) (sig_abs cells z) (sig_abs cells z'))"
  using st
proof cases
  case (sig_begin c a out got y)
  note q = send_sgis_queue [OF inv begin_out_ok [OF ok sig_begin(2,4)] sig_begin(6) [OF TrueI] sig_begin(7)]
  have "arb_pending (irq_cpus (sys_irq z) c) = []"
    using sig_begin(5) [OF TrueI] pending_length [of "irq_cpus (sys_irq z) c"] by (simp add: quiet_def)
  then have "sgi_queue (sig_abs cells z) c = []" by (simp add: sig_abs_def sig_queue_def)
  moreover have "client (sig_abs cells z) c = MEMORY_TOKEN_NONE" "request_memory (pcs c) (arb (sig_abs cells z)) = Some (a, out, got)"
    using sig_begin(3,4) by (simp_all add: sig_abs_def)
  ultimately show ?thesis
    using proto_begin [OF sig_begin(2), of "sig_abs cells z" "\<lambda>c. request_memory (pcs c)"] q sig_begin(1) by (simp add: sig_abs_def)
next
  case (sig_end c a out y)
  note q = send_sgis_queue [OF inv end_out_ok [OF ok sig_end(2,4)] sig_end(5) [OF TrueI] sig_end(6)]
  have "client (sig_abs cells z) c \<noteq> MEMORY_TOKEN_NONE" "disable_memory_request cells c (arb (sig_abs cells z)) = Some (a, out)"
    using sig_end(3,4) by (simp_all add: sig_abs_def)
  then show ?thesis
    using proto_end [OF sig_end(2), of "sig_abs cells z" "disable_memory_request cells"] q sig_end(1) by (simp add: sig_abs_def)
next
  case (sig_inject c s)
  have "same_arb (irq_cpus (sys_irq z) c) s" using inject_pending_same_arb sig_inject(2,3) inv by (auto simp: sig_inv_def)
  then show ?thesis using sig_queue_same [OF inv, of "sys_irq z'"] sig_inject(1) by (auto simp: upd_cpu_cpus sig_abs_def)
next
  case (sig_ack c i)
  let ?s = "irq_cpus (sys_irq z) c"
  have ok_c: "cpu_ok ?s" using inv sig_ack(2) by (simp add: sig_inv_def)
  note a = ack_arb [OF ok_c sig_ack(3,4)]
  have inv': "sig_inv cells (sys_irq z')" using inv a(1) sig_ack(1) by (auto simp: sig_inv_def upd_cpu_cpus)
  let ?x = "ucast (lr_vid (gich_lr ?s ! i)) :: u16"
  show ?thesis
  proof (cases "is_arb ?x")
    case True
    note p = a(2) [OF True]
    then have "sgi_queue (sig_abs cells z) c = unat ?x # []" using sig_ack(2) by (simp add: sig_abs_def sig_queue_def)
    then have "proto_step (\<lambda>c. request_memory (pcs c)) (disable_memory_request cells) (fp_cores cells) (sig_abs cells z)
       \<lparr>arb = arb (sig_abs cells z), sgi_queue = (sgi_queue (sig_abs cells z))(c := []),
        client = (client (sig_abs cells z))(c := client_sgi (unat ?x) (client (sig_abs cells z) c))\<rparr>"
      by (rule proto_deliver [OF sig_ack(2)])
    moreover have "sig_queue cells (sys_irq z') = (sig_queue cells (sys_irq z))(c := [])"
      using p sig_ack(1,2) by (auto simp: sig_queue_def upd_cpu_cpus fun_eq_iff)
    ultimately show ?thesis using inv' sig_ack(1) by (simp add: sig_abs_def vid_fits)
  next
    case False
    then have "sig_queue cells (sys_irq z') = sig_queue cells (sys_irq z)"
      using a(3) sig_ack(1) by (auto simp: sig_queue_def upd_cpu_cpus fun_eq_iff)
    then show ?thesis using inv' sig_ack(1) client_sgi_other [OF False] by (simp add: sig_abs_def)
  qed
next
  case (sig_eoi c i)
  have "same_arb (irq_cpus (sys_irq z) c) (cpu_eoi i (irq_cpus (sys_irq z) c))" using eoi_arb [OF _ sig_eoi(3,4,5)] inv sig_eoi(2) by (simp add: sig_inv_def)
  then show ?thesis using sig_queue_same [OF inv, of "sys_irq z'"] sig_eoi(1) by (auto simp: upd_cpu_cpus sig_abs_def)
next
  case (sig_other c x me y)
  have s: "same_arb (irq_cpus (sys_irq z) c) (irq_cpus y c) \<and> (\<forall>d. d \<noteq> c \<longrightarrow> irq_cpus y d = irq_cpus (sys_irq z) d)
      \<and> gicv2_target_cpu_map y = gicv2_target_cpu_map (sys_irq z)"
    using other_irq_same_arb [OF _ sig_other(3,4) _ sig_other(5)] inv sig_other(2) by (auto simp: sig_inv_def)
  then have "sig_inv cells y \<and> sig_queue cells y = sig_queue cells (sys_irq z)"
    by (intro sig_queue_same [OF inv]) metis+
  then show ?thesis using sig_other(1) by (simp add: sig_abs_def)
qed

text \<open>Every run on the interrupt path is a run of the protocol.\<close>

lemma sig_reachable_abs:
  assumes "sig_reachable True cells pcs z" and ok: "fp_ok cells pcs fp_init"
  shows "sig_inv cells (sys_irq z) \<and> fp_protocol cells pcs (sig_abs cells z)"
  using assms(1)
proof (induction rule: sig_reachable.induct)
  case (sig_start y)
  then have inv: "sig_inv cells y" by (auto simp: sig_inv_def sig_start_ok_def cpu_ok_def)
  have "arb_pending (irq_cpus y c) = []" if "c \<in> fp_cores cells" for c
    using sig_start that pending_length [of "irq_cpus y c"] by (simp add: sig_start_ok_def)
  then have "sig_queue cells y = (\<lambda>_. [])" by (auto simp: sig_queue_def fun_eq_iff)
  then show ?case using inv proto_start by (simp add: sig_abs_def)
next
  case (sig_next z z')
  have "fp_ok cells pcs (sys_arb z)"
    using fp_protocol_consistent [OF ok, of "sig_abs cells z"] sig_next.IH by (simp add: fp.consistent_def sig_abs_def)
  then show ?case using sig_step_abs [OF _ _ sig_next.hyps(2)] sig_next.IH proto_next by metis
qed

text \<open>An interrupt is on its way to a core when it waits in the ring or is pending in a list register.\<close>

definition on_its_way :: "irq_sys \<Rightarrow> nat \<Rightarrow> nat \<Rightarrow> bool" where
  "on_its_way y c sgi \<longleftrightarrow> of_nat sgi \<in> set (pend_lrs (gich_lr (irq_cpus y c))) \<or> of_nat sgi \<in> fst ` set (ring_contents (pending (irq_cpus y c)))"

lemma on_its_way_queue:
  assumes "c \<in> fp_cores cells" "x \<in> {SGI_MEMORY_PHASE_STARTED, SGI_MEMORY_PHASE_ENDED}"
  shows "x \<in> set (sig_queue cells y c) \<longleftrightarrow> on_its_way y c x"
proof -
  have u: "unat (of_nat x :: u16) = x" and a: "is_arb (of_nat x)" using assms(2) by (auto simp: is_arb_def sgi_consts)
  have "x \<in> set (sig_queue cells y c) \<longleftrightarrow> of_nat x \<in> set (arb_pending (irq_cpus y c))"
    using assms(1) u by (auto simp: sig_queue_def) (metis imageI)
  then show ?thesis using a by (auto simp: on_its_way_def arb_pending_def)
qed

subsection \<open>Runs of three cells\<close>

text \<open>
  States of the three cells of \<open>demo_cells\<close> on the CPUs of \<open>demo_irq_sys\<close>, described by the arbiter, the ring and the list registers of CPU 1 and the
  statuses of the cores 0 and 1.
\<close>

definition demo_at :: "bool \<Rightarrow> fp_state \<Rightarrow> (u16 \<times> u16) list \<Rightarrow> u32 list \<Rightarrow> mem_arbit_status \<Rightarrow> mem_arbit_status \<Rightarrow> arb_sys \<Rightarrow> bool" where
  "demo_at b a r lrs st0 st1 z \<longleftrightarrow> sig_reachable b demo_cells demo_cpu z \<and> sys_arb z = a \<and> irq_cpus (sys_irq z) 0 = demo_irq_cpu
     \<and> ring_ok (pending (irq_cpus (sys_irq z) 1)) \<and> ring_of 1 (sys_irq z) = r \<and> gich_lr (irq_cpus (sys_irq z) 1) = lrs
     \<and> 1 < length (gicv2_target_cpu_map (sys_irq z)) \<and> sys_client z 0 = st0 \<and> sys_client z 1 = st1"

definition calm :: "(u16 \<times> u16) list \<Rightarrow> u32 list \<Rightarrow> bool" where
  "calm r lrs \<longleftrightarrow> filter is_arb (map ucast (lr_irqs lrs) @ map fst r) = [] \<and> length r < 255"

lemma calm_quiet: "ring_contents (pending s) = r \<Longrightarrow> gich_lr s = lrs \<Longrightarrow> quiet s \<longleftrightarrow> calm r lrs"
  by (auto simp: quiet_def calm_def arb_busy_def)

lemma demo_quiet: "quiet demo_irq_cpu" "calm [] [0, 0]"
proof -
  show c: "calm [] [0, 0]" by (simp add: calm_def lr_irqs_def lr_free_def)
  show "quiet demo_irq_cpu" using calm_quiet [of demo_irq_cpu "[]" "[0, 0]"] demo_ring_ok c by (simp add: demo_irq_cpu_def)
qed

lemma demo_send:
  assumes "demo_at b a r lrs st0 st1 z" "out = [] \<or> out = [(1, x)]" "length r < 255"
  obtains y where "send_sgis 0 out (sys_irq z) = Some y" "irq_cpus y 0 = demo_irq_cpu" "ring_ok (pending (irq_cpus y 1))"
    "ring_of 1 y = r @ map (\<lambda>m. (of_nat (snd m), 0)) out" "gich_lr (irq_cpus y 1) = lrs" "1 < length (gicv2_target_cpu_map y)"
proof (cases "out = []")
  case True
  then show ?thesis using that [of "sys_irq z"] assms(1) by (simp add: send_sgis_def demo_at_def)
next
  case False
  then have o: "out = [(1, x)]" using assms(2) by simp
  obtain y p where "irqchip_set_pending 0 (Some 1) (of_nat x) (sys_irq z) = Some y"
    "irq_cpus y = (irq_cpus (sys_irq z))(1 := (irq_cpus (sys_irq z) 1)\<lparr>pending := p\<rparr>)" "ring_ok p"
    "ring_contents p = r @ [(of_nat x, 0)]" "gicv2_target_cpu_map y = gicv2_target_cpu_map (sys_irq z)"
    using set_pending_remote [of 0 1 "sys_irq z" "of_nat x"] assms(1,3) by (simp add: demo_at_def) blast
  then show ?thesis using that [of y] o assms(1) by (simp add: send_sgis_def demo_at_def)
qed

lemma demo_begin0:
  assumes z: "demo_at b a r lrs MEMORY_TOKEN_NONE st1 z" and r: "request_memory (demo_cpu 0) a = Some (a', out, True)"
    and o: "out = [] \<or> out = [(1, x)]" "length r < 255" "b \<longrightarrow> calm r lrs"
  shows "\<exists>z'. demo_at b a' (r @ map (\<lambda>m. (of_nat (snd m), 0)) out) lrs MEMORY_TOKEN_ACQUIRED st1 z'"
proof -
  obtain y where y: "send_sgis 0 out (sys_irq z) = Some y" "irq_cpus y 0 = demo_irq_cpu" "ring_ok (pending (irq_cpus y 1))"
    "ring_of 1 y = r @ map (\<lambda>m. (of_nat (snd m), 0)) out" "gich_lr (irq_cpus y 1) = lrs" "1 < length (gicv2_target_cpu_map y)"
    using demo_send [OF z o(1,2)] .
  have zz: "sys_arb z = a" "irq_cpus (sys_irq z) 0 = demo_irq_cpu" "ring_of 1 (sys_irq z) = r" "gich_lr (irq_cpus (sys_irq z) 1) = lrs"
    "sys_client z 0 = MEMORY_TOKEN_NONE" "sys_client z 1 = st1" "sig_reachable b demo_cells demo_cpu z"
    using z by (simp_all add: demo_at_def)
  have q: "b \<Longrightarrow> quiet (irq_cpus (sys_irq z) 1)" using calm_quiet [OF zz(3,4)] o(3) by simp
  have "sig_step b demo_cells demo_cpu z \<lparr>sys_arb = a', sys_irq = y, sys_client = (sys_client z)(0 := if True then MEMORY_TOKEN_ACQUIRED else MEMORY_TOKEN_REQUESTED)\<rparr>"
    by (rule sig_begin [OF demo_cores(1) zz(5) _ _ _ y(1)]) (use r zz demo_quiet q o(1) in auto)
  from sig_next [OF zz(7) this] show ?thesis using y zz(6) by (auto simp: demo_at_def intro!: exI)
qed

lemma demo_end0:
  assumes z: "demo_at b a r lrs MEMORY_TOKEN_ACQUIRED st1 z" and r: "disable_memory_request demo_cells 0 a = Some (a', out)"
    and o: "out = [] \<or> out = [(1, x)]" "length r < 255" "b \<longrightarrow> calm r lrs"
  shows "\<exists>z'. demo_at b a' (r @ map (\<lambda>m. (of_nat (snd m), 0)) out) lrs MEMORY_TOKEN_NONE st1 z'"
proof -
  obtain y where y: "send_sgis 0 out (sys_irq z) = Some y" "irq_cpus y 0 = demo_irq_cpu" "ring_ok (pending (irq_cpus y 1))"
    "ring_of 1 y = r @ map (\<lambda>m. (of_nat (snd m), 0)) out" "gich_lr (irq_cpus y 1) = lrs" "1 < length (gicv2_target_cpu_map y)"
    using demo_send [OF z o(1,2)] .
  have zz: "sys_arb z = a" "ring_of 1 (sys_irq z) = r" "gich_lr (irq_cpus (sys_irq z) 1) = lrs"
    "sys_client z 0 = MEMORY_TOKEN_ACQUIRED" "sys_client z 1 = st1" "sig_reachable b demo_cells demo_cpu z"
    using z by (simp_all add: demo_at_def)
  have q: "b \<Longrightarrow> quiet (irq_cpus (sys_irq z) 1)" using calm_quiet [OF zz(2,3)] o(3) by simp
  have "sig_step b demo_cells demo_cpu z \<lparr>sys_arb = a', sys_irq = y, sys_client = (sys_client z)(0 := MEMORY_TOKEN_NONE)\<rparr>"
    by (rule sig_end [OF demo_cores(1) _ _ _ y(1)]) (use r zz q o(1) in auto)
  from sig_next [OF zz(6) this] show ?thesis using y zz(5) by (auto simp: demo_at_def intro!: exI)
qed

lemma demo_begin1:
  assumes z: "demo_at b a r lrs st0 MEMORY_TOKEN_NONE z" and r: "request_memory (demo_cpu 1) a = Some (a', [], got)" and q: "b \<longrightarrow> calm r lrs"
  shows "\<exists>z'. demo_at b a' r lrs st0 (if got then MEMORY_TOKEN_ACQUIRED else MEMORY_TOKEN_REQUESTED) z'"
proof -
  have zz: "sys_arb z = a" "ring_of 1 (sys_irq z) = r" "gich_lr (irq_cpus (sys_irq z) 1) = lrs" "sys_client z 1 = MEMORY_TOKEN_NONE"
    "sig_reachable b demo_cells demo_cpu z" using z by (simp_all add: demo_at_def)
  have "sig_step b demo_cells demo_cpu z \<lparr>sys_arb = a', sys_irq = sys_irq z,
      sys_client = (sys_client z)(1 := if got then MEMORY_TOKEN_ACQUIRED else MEMORY_TOKEN_REQUESTED)\<rparr>"
    by (rule sig_begin [OF demo_cores(2) zz(4) _ _ _, where out = "[]"]) (use r zz calm_quiet [OF zz(2,3)] q in \<open>auto simp: send_sgis_def\<close>)
  from sig_next [OF zz(5) this] show ?thesis using z by (auto simp: demo_at_def intro!: exI)
qed

lemma demo_inject:
  assumes z: "demo_at b a [(x, sd)] lrs st0 st1 z" and inj: "gicv2_inject_irq x sd lrs = (lrs', res)" "res \<noteq> INJ_EBUSY"
  shows "\<exists>z'. demo_at b a [] lrs' st0 st1 z'"
proof -
  let ?s = "irq_cpus (sys_irq z) 1" and ?p = "pending (irq_cpus (sys_irq z) 1)"
  have zz: "ring_ok ?p" "ring_contents ?p = [(x, sd)]" "gich_lr ?s = lrs" "sig_reachable b demo_cells demo_cpu z"
    using z by (simp_all add: demo_at_def)
  have ne: "head ?p \<noteq> tail ?p" using ring_contents_Nil [OF zz(1)] zz(2) by auto
  note c = ring_contents_Cons [OF zz(1) ne]
  have c': "irqs ?p ! head ?p = x" "sender ?p ! head ?p = sd" "ring_contents (ring_drop ?p) = []" using c(1) zz(2) by auto
  let ?s1 = "?s\<lparr>gich_lr := lrs', pending := ring_drop ?p\<rparr>"
  have "head ?p < length (irqs ?p)" "head ?p < length (sender ?p)" using zz(1) by (auto simp: ring_ok_def)
  then have 1: "irqchip_inject_pending ?s = irqchip_inject_pending ?s1"
    using ne c' inj zz(3) by (subst irqchip_inject_pending.simps) (simp add: ring_drop_def)
  have "head (ring_drop ?p) = tail (ring_drop ?p)" using ring_contents_Cons(1) [OF c(2)] c'(3) by auto
  then have 2: "irqchip_inject_pending ?s1 = Some (gicv2_enable_maint_irq False ?s1)" by (subst irqchip_inject_pending.simps) simp
  have "sig_step b demo_cells demo_cpu z (z\<lparr>sys_irq := upd_cpu 1 (\<lambda>_. gicv2_enable_maint_irq False ?s1) (sys_irq z)\<rparr>)"
    by (rule sig_inject [OF demo_cores(2)]) (use 1 2 in simp)
  from sig_next [OF zz(4) this] show ?thesis using z c(2) c'(3)
    by (auto simp: demo_at_def upd_cpu_def gicv2_enable_maint_irq_def intro!: exI)
qed

lemma demo_ack:
  assumes z: "demo_at b a r lrs st0 st1 z" and i: "i < length lrs" "lr_pending (lrs ! i)"
  shows "\<exists>z'. demo_at b a r (lrs[i := lr_ack (lrs ! i)]) st0 (client_sgi (unat (lr_vid (lrs ! i))) st1) z'"
proof -
  have zz: "gich_lr (irq_cpus (sys_irq z) 1) = lrs" "sig_reachable b demo_cells demo_cpu z" using z by (simp_all add: demo_at_def)
  have "sig_step b demo_cells demo_cpu z (z\<lparr>sys_irq := upd_cpu 1 (cpu_ack i) (sys_irq z),
       sys_client := (sys_client z)(1 := client_sgi (unat (lr_vid (gich_lr (irq_cpus (sys_irq z) 1) ! i))) (sys_client z 1))\<rparr>)"
    by (rule sig_ack [OF demo_cores(2)]) (use i zz in simp_all)
  from sig_next [OF zz(2) this] show ?thesis using z by (auto simp: demo_at_def upd_cpu_def cpu_ack_def intro!: exI)
qed

lemma demo_at_start: "demo_at b fp_init [] [0, 0] MEMORY_TOKEN_NONE MEMORY_TOKEN_NONE
    \<lparr>sys_arb = fp_init, sys_irq = demo_irq_sys, sys_client = (\<lambda>_. MEMORY_TOKEN_NONE)\<rparr>"
proof -
  have "fp_cores demo_cells = {0, 1, 2}" by (auto simp: fp_cores_def demo_cells_def demo_cell_cpu [simplified])
  then have "sig_start_ok demo_cells demo_irq_sys"
    using demo_irq_cpu_ok demo_quiet(1) by (simp add: sig_start_ok_def demo_irq_sys_def quiet_def)
  from sig_start [OF this] show ?thesis using demo_ring_ok by (simp add: demo_at_def demo_irq_sys_def) (simp add: demo_irq_cpu_def)
qed

lemma demo_requests:
  "request_memory (demo_cpu 0) fp_init = Some (\<lparr>memory_requests = [5, 0, 0, 0, 0, 0], token_owner = 0, token_priority = 5\<rparr>, [], True)"
  "request_memory (demo_cpu 1) fp_init = Some (\<lparr>memory_requests = [0, 4, 0, 0, 0, 0], token_owner = 1, token_priority = 4\<rparr>, [], True)"
  "request_memory (demo_cpu 1) \<lparr>memory_requests = [5, 0, 0, 0, 0, 0], token_owner = 0, token_priority = 5\<rparr>
     = Some (\<lparr>memory_requests = [5, 4, 0, 0, 0, 0], token_owner = 0, token_priority = 5\<rparr>, [], False)"
  "disable_memory_request demo_cells 0 \<lparr>memory_requests = [5, 4, 0, 0, 0, 0], token_owner = 0, token_priority = 5\<rparr>
     = Some (\<lparr>memory_requests = [0, 4, 0, 0, 0, 0], token_owner = 1, token_priority = 4\<rparr>, [(1, 13)])"
  "request_memory (demo_cpu 0) \<lparr>memory_requests = [0, 4, 0, 0, 0, 0], token_owner = 1, token_priority = 4\<rparr>
     = Some (\<lparr>memory_requests = [5, 4, 0, 0, 0, 0], token_owner = 0, token_priority = 5\<rparr>, [(1, 14)], True)"
  by code_simp+

lemma demo_lrs:
  "gicv2_inject_irq 13 0 [0, 0] = ([0x1000000D, 0], INJ_OK)" "gicv2_inject_irq 14 0 [0x1000000D, 0] = ([0x1000000D, 0x1000000E], INJ_OK)"
  "gicv2_inject_irq 13 0 [0x1000000D, 0x1000000E] = ([0x1000000D, 0x1000000E], INJ_EEXIST)"
  "gicv2_inject_irq 14 0 [0, 0] = ([0x1000000E, 0], INJ_OK)"
  by code_simp+

text \<open>Core 1 takes the token, core 0 takes it away; then core 1 takes the ENDED interrupt.\<close>

lemma demo_displaced:
  "\<exists>z. demo_at True \<lparr>memory_requests = [5, 4, 0, 0, 0, 0], token_owner = 0, token_priority = 5\<rparr> [(14, 0)] [0, 0] MEMORY_TOKEN_ACQUIRED MEMORY_TOKEN_ACQUIRED z"
proof -
  obtain z1 where z1: "demo_at True \<lparr>memory_requests = [0, 4, 0, 0, 0, 0], token_owner = 1, token_priority = 4\<rparr> [] [0, 0] MEMORY_TOKEN_NONE MEMORY_TOKEN_ACQUIRED z1"
    using demo_begin1 [OF demo_at_start demo_requests(2)] demo_quiet by auto
  then show ?thesis using demo_begin0 [OF z1 demo_requests(5), of 14] demo_quiet by simp
qed

lemma lr_demo: "lr_pending 0x1000000D" "lr_pending 0x1000000E" "unat (lr_vid 0x1000000D) = 13" "unat (lr_vid 0x1000000E) = 14"
  by code_simp+


subsection \<open>The properties\<close>

text \<open>
  C5: mutual exclusion on the interrupt path. The arbiter's interrupts go through \<open>irqchip_set_pending\<close>, the ring of the target CPU,
  \<open>irqchip_inject_pending\<close> and the list registers, mixed with other interrupts and delivered arbitrarily late. On the condition that a core begins a phase and
  is sent an arbitration interrupt only when it has completed the previous one and its ring is not full, two different cores both believe to hold the memory only while
  the ENDED interrupt is in the ring of one of them or pending in one of its list registers. The cores are the first CPUs of the cells, and these do not change.
\<close>

theorem fp_mutual_exclusion:
  assumes "fp_ok cells pcs fp_init" "sig_reachable True cells pcs z" "c \<in> fp_cores cells" "d \<in> fp_cores cells" "c \<noteq> d"
    "sys_client z c = MEMORY_TOKEN_ACQUIRED" "sys_client z d = MEMORY_TOKEN_ACQUIRED"
  shows "on_its_way (sys_irq z) c SGI_MEMORY_PHASE_ENDED \<or> on_its_way (sys_irq z) d SGI_MEMORY_PHASE_ENDED"
proof -
  have "fp.consistent cells pcs (sig_abs cells z)"
    using sig_reachable_abs [OF assms(2,1)] fp_protocol_consistent [OF assms(1)] by blast
  then have "SGI_MEMORY_PHASE_ENDED \<in> set (sig_queue cells (sys_irq z) c) \<union> set (sig_queue cells (sys_irq z) d)"
    using fp.mutual_exclusion [OF _ assms(3,4,5), of pcs "sig_abs cells z"] assms(6,7) by (simp add: sig_abs_def)
  then show ?thesis using on_its_way_queue assms(3,4) by simp
qed

theorem fp_mutual_exclusion_witness:
  "\<exists>z :: arb_sys. sys_client z 0 = MEMORY_TOKEN_ACQUIRED \<and> sys_client z 1 = MEMORY_TOKEN_ACQUIRED
     \<and> (on_its_way (sys_irq z) 0 SGI_MEMORY_PHASE_ENDED \<or> on_its_way (sys_irq z) 1 SGI_MEMORY_PHASE_ENDED)"
proof -
  obtain z where z: "sig_reachable True demo_cells demo_cpu z" "sys_client z 0 = MEMORY_TOKEN_ACQUIRED" "sys_client z 1 = MEMORY_TOKEN_ACQUIRED"
    using demo_displaced by (auto simp: demo_at_def)
  have "on_its_way (sys_irq z) 0 SGI_MEMORY_PHASE_ENDED \<or> on_its_way (sys_irq z) 1 SGI_MEMORY_PHASE_ENDED"
    by (rule fp_mutual_exclusion [OF demo_fp_ok z(1) demo_cores _ z(2,3)]) simp
  with z(2,3) show ?thesis by blast
qed



text \<open>
  Without the condition a wake-up is lost. Core 1 waits and does not take interrupts for a while; core 0 releases the token (STARTED to core 1), takes it back (ENDED) and
  releases it again. The second STARTED finds the first in a list register and is dropped. Core 1 then takes STARTED and ENDED, waits, owns the token, and no interrupt
  is on its way.
\<close>

theorem fp_wakeup_lost_without_promptness:
  "\<exists>z. sig_reachable False demo_cells demo_cpu z \<and> sys_client z 1 = MEMORY_TOKEN_REQUESTED \<and> token_owner (sys_arb z) = 1
     \<and> \<not> on_its_way (sys_irq z) 1 SGI_MEMORY_PHASE_STARTED \<and> \<not> on_its_way (sys_irq z) 1 SGI_MEMORY_PHASE_ENDED"
proof -
  let ?start = "\<lparr>memory_requests = [5, 0, 0, 0, 0, 0], token_owner = 0, token_priority = 5\<rparr>"
  let ?a = "\<lparr>memory_requests = [5, 4, 0, 0, 0, 0], token_owner = 0, token_priority = 5\<rparr>"
  let ?b = "\<lparr>memory_requests = [0, 4, 0, 0, 0, 0], token_owner = 1, token_priority = 4\<rparr>"
  have ne: "INJ_OK \<noteq> INJ_EBUSY" "INJ_EEXIST \<noteq> INJ_EBUSY" by simp_all
  obtain z1 where z1: "demo_at False ?start [] [0, 0] MEMORY_TOKEN_ACQUIRED MEMORY_TOKEN_NONE z1"
    using demo_begin0 [OF demo_at_start [of False] demo_requests(1)] by auto
  obtain z2 where z2: "demo_at False ?a [] [0, 0] MEMORY_TOKEN_ACQUIRED MEMORY_TOKEN_REQUESTED z2"
    using demo_begin1 [OF z1 demo_requests(3)] by auto
  obtain z3 where z3: "demo_at False ?b [(13, 0)] [0, 0] MEMORY_TOKEN_NONE MEMORY_TOKEN_REQUESTED z3"
    using demo_end0 [OF z2 demo_requests(4), of 13] by auto
  obtain z4 where z4: "demo_at False ?b [] [0x1000000D, 0] MEMORY_TOKEN_NONE MEMORY_TOKEN_REQUESTED z4"
    using demo_inject [OF z3 demo_lrs(1) ne(1)] by blast
  obtain z5 where z5: "demo_at False ?a [(14, 0)] [0x1000000D, 0] MEMORY_TOKEN_ACQUIRED MEMORY_TOKEN_REQUESTED z5"
    using demo_begin0 [OF z4 demo_requests(5), of 14] by auto
  obtain z6 where z6: "demo_at False ?a [] [0x1000000D, 0x1000000E] MEMORY_TOKEN_ACQUIRED MEMORY_TOKEN_REQUESTED z6"
    using demo_inject [OF z5 demo_lrs(2) ne(1)] by blast
  obtain z7 where z7: "demo_at False ?b [(13, 0)] [0x1000000D, 0x1000000E] MEMORY_TOKEN_NONE MEMORY_TOKEN_REQUESTED z7"
    using demo_end0 [OF z6 demo_requests(4), of 13] by auto
  obtain z8 where z8: "demo_at False ?b [] [0x1000000D, 0x1000000E] MEMORY_TOKEN_NONE MEMORY_TOKEN_REQUESTED z8"
    using demo_inject [OF z7 demo_lrs(3) ne(2)] by blast
  obtain z9 where z9: "demo_at False ?b [] [lr_ack 0x1000000D, 0x1000000E] MEMORY_TOKEN_NONE MEMORY_TOKEN_ACQUIRED z9"
    using demo_ack [OF z8, of 0] lr_demo by (auto simp: client_sgi_def sgi_consts)
  obtain z where z: "demo_at False ?b [] [lr_ack 0x1000000D, lr_ack 0x1000000E] MEMORY_TOKEN_NONE MEMORY_TOKEN_REQUESTED z"
    using demo_ack [OF z9, of 1] lr_demo by (auto simp: client_sgi_def sgi_consts)
  have "pend_lrs [lr_ack 0x1000000D, lr_ack 0x1000000E] = []" by code_simp
  then show ?thesis using z by (intro exI [of _ z]) (simp add: demo_at_def on_its_way_def)
qed

end
