(* ===== verification/Tdma.thy ===== *)
theory Tdma
  imports MemoryArbiter
begin

text \<open>
  The time-division memory arbiter,
  \<^verbatim>\<open>jailhouse-master_dprem/hypervisor/arch/arm64/tdma.c\<close>. Time is cut into slots of
  \<open>tdma_slot_period\<close> timer ticks, three of them make a cycle, and the CPU of the cell with id
  \<open>n\<close> may use the memory in slot \<open>n - 1\<close>. The state is per CPU: the fields of
  \<open>struct per_cpu\<close>, the hypervisor timer's control and compare registers, and the
  interrupt controller's registers as this CPU sees them. The counter \<open>CNTPCT_EL0\<close> is an
  argument \<open>now\<close>. The code in comments (PMU budget) is not compiled and not modelled. An
  access outside the priority registers and a division by a slot period of 0 are \<open>None\<close>.
\<close>

unbundle bit_operations_syntax

datatype tdma_phase = TDMA_STATE_COMPUTING_PHASE | TDMA_STATE_MEMORY_PHASE
  | TDMA_STATE_WAITING_FOR_MEMORY | TDMA_STATE_BLOCKED_BY_OVERUSAGE
  | TDMA_STATE_BLOCKED_BY_OVERUSAGE_ALLOW_NESTED

datatype timer_target = TIMER_TARGET_START | TIMER_TARGET_END

definition tdma_num_slots :: u8 where "tdma_num_slots = 3"

definition tdma_slot_period_us :: u64 where "tdma_slot_period_us = 2 * 1000000"

definition CCPLEX_IRQ_SIZE :: nat where "CCPLEX_IRQ_SIZE = 384"

definition HYPERVISOR_COUNTER_TIMER_PHYSICAL_IRQ_ID :: nat where
  "HYPERVISOR_COUNTER_TIMER_PHYSICAL_IRQ_ID = 26"

definition IRQ_PRIORITY_MIN :: u32 where "IRQ_PRIORITY_MIN = 0xF0"
definition IRQ_PRIORITY_MAX :: u32 where "IRQ_PRIORITY_MAX = 0"
definition IRQ_PRIORITY_INC :: u32 where "IRQ_PRIORITY_INC = 0x10"
definition IRQ_PRIORITY_THR :: u32 where "IRQ_PRIORITY_THR = 0x10"

lemmas tdma_consts = tdma_num_slots_def tdma_slot_period_us_def CCPLEX_IRQ_SIZE_def
  HYPERVISOR_COUNTER_TIMER_PHYSICAL_IRQ_ID_def IRQ_PRIORITY_MIN_def IRQ_PRIORITY_MAX_def
  IRQ_PRIORITY_INC_def IRQ_PRIORITY_THR_def

record tdma_cpu =
  tdma_slot_id :: u8
  tdma_state :: tdma_phase
  tdma_suspended_from_state :: tdma_phase
  tdma_timer_target :: timer_target
  cnthp_ctl :: u32
  cnthp_cval :: u64
  gicd_ipriorityr :: "u32 list"
  gicd_itargetsr :: "u32 list"
  gicd_isenabler0 :: u32
  mdcr_el2 :: u32

subsection \<open>Interrupt priorities\<close>

definition IRQ_BYTE_POSITION :: "nat \<Rightarrow> nat" where
  "IRQ_BYTE_POSITION irqn = (irqn mod 4) * 8"

definition byte_get :: "u32 \<Rightarrow> nat \<Rightarrow> u32" where
  "byte_get r pos = drop_bit pos r AND 0xFF"

definition byte_set :: "u32 \<Rightarrow> nat \<Rightarrow> u32 \<Rightarrow> u32" where
  "byte_set r pos v = (r AND NOT (push_bit pos 0xFF)) OR push_bit pos (v AND 0xFF)"

definition gicv2_get_prio :: "nat \<Rightarrow> tdma_cpu \<Rightarrow> u32 option" where
  "gicv2_get_prio irqn s =
     (arr_get (gicd_ipriorityr s) (irqn div 4) \<bind> (\<lambda>r. Some (byte_get r (IRQ_BYTE_POSITION irqn))))"

definition gicv2_set_prio :: "nat \<Rightarrow> u32 \<Rightarrow> tdma_cpu \<Rightarrow> tdma_cpu option" where
  "gicv2_set_prio irqn prio s =
     (arr_get (gicd_ipriorityr s) (irqn div 4) \<bind> (\<lambda>r.
      arr_set (gicd_ipriorityr s) (irqn div 4) (byte_set r (IRQ_BYTE_POSITION irqn) prio) \<bind> (\<lambda>rs.
      Some (s\<lparr>gicd_ipriorityr := rs\<rparr>))))"

definition gicv2_get_targets :: "nat \<Rightarrow> tdma_cpu \<Rightarrow> u32 option" where
  "gicv2_get_targets irqn s =
     (arr_get (gicd_itargetsr s) (irqn div 4) \<bind> (\<lambda>r. Some (byte_get r (IRQ_BYTE_POSITION irqn))))"

definition gicv2_set_targets :: "nat \<Rightarrow> u32 \<Rightarrow> tdma_cpu \<Rightarrow> tdma_cpu option" where
  "gicv2_set_targets irqn targets s =
     (arr_get (gicd_itargetsr s) (irqn div 4) \<bind> (\<lambda>r.
      arr_set (gicd_itargetsr s) (irqn div 4) (byte_set r (IRQ_BYTE_POSITION irqn) targets) \<bind> (\<lambda>rs.
      Some (s\<lparr>gicd_itargetsr := rs\<rparr>))))"

text \<open>The inner \<open>while\<close> of \<open>tdma_init_priorities\<close>; a priority is at most \<open>0xFF\<close>.\<close>

function lower_prio :: "u32 \<Rightarrow> u32" where
  "lower_prio prio =
     (if prio < IRQ_PRIORITY_THR \<and> prio < IRQ_PRIORITY_MIN - IRQ_PRIORITY_INC
      then lower_prio (prio + IRQ_PRIORITY_INC) else prio)"
  by pat_completeness auto
termination
  by (relation "measure (\<lambda>p. 0x10 - unat p)")
    (auto simp: IRQ_PRIORITY_THR_def IRQ_PRIORITY_INC_def word_less_nat_alt unat_word_ariths)

declare lower_prio.simps [simp del]

fun init_prio_loop :: "nat list \<Rightarrow> tdma_cpu \<Rightarrow> tdma_cpu option" where
  "init_prio_loop [] s = Some s"
| "init_prio_loop (i # is) s =
     (gicv2_get_prio i s \<bind> (\<lambda>p. gicv2_set_prio i (lower_prio p) s \<bind> init_prio_loop is))"

definition tdma_init_priorities :: "tdma_cpu \<Rightarrow> tdma_cpu option" where
  "tdma_init_priorities s =
     (init_prio_loop [0..<CCPLEX_IRQ_SIZE] s \<bind>
      gicv2_set_prio HYPERVISOR_COUNTER_TIMER_PHYSICAL_IRQ_ID IRQ_PRIORITY_MAX)"

subsection \<open>The hypervisor timer\<close>

definition CNTHP_CTL_EL2_ENABLE :: u32 where "CNTHP_CTL_EL2_ENABLE = 1"
definition CNTHP_CTL_EL2_IMASK :: u32 where "CNTHP_CTL_EL2_IMASK = 2"

text \<open>Writing a bit to ISENABLER enables that interrupt, writing it to ICENABLER disables it.\<close>

definition tdma_timer_irq_enable :: "tdma_cpu \<Rightarrow> tdma_cpu" where
  "tdma_timer_irq_enable s = s\<lparr>cnthp_ctl := cnthp_ctl s AND NOT CNTHP_CTL_EL2_IMASK,
     gicd_isenabler0 := gicd_isenabler0 s OR push_bit HYPERVISOR_COUNTER_TIMER_PHYSICAL_IRQ_ID 1\<rparr>"

definition tdma_timer_irq_disable :: "tdma_cpu \<Rightarrow> tdma_cpu" where
  "tdma_timer_irq_disable s = s\<lparr>cnthp_ctl := cnthp_ctl s OR CNTHP_CTL_EL2_IMASK,
     gicd_isenabler0 := gicd_isenabler0 s AND NOT (push_bit HYPERVISOR_COUNTER_TIMER_PHYSICAL_IRQ_ID 1)\<rparr>"

definition tdma_timer_enable :: "tdma_cpu \<Rightarrow> tdma_cpu" where
  "tdma_timer_enable s = s\<lparr>cnthp_ctl := cnthp_ctl s OR CNTHP_CTL_EL2_ENABLE\<rparr>"

definition tdma_timer_set_cmpval :: "u64 \<Rightarrow> tdma_cpu \<Rightarrow> tdma_cpu" where
  "tdma_timer_set_cmpval cmp s = s\<lparr>cnthp_cval := cmp\<rparr>"

definition tdma_timer_disable :: "tdma_cpu \<Rightarrow> tdma_cpu" where
  "tdma_timer_disable s = s\<lparr>cnthp_ctl := cnthp_ctl s AND NOT CNTHP_CTL_EL2_ENABLE\<rparr>"

definition tdma_timer_init :: "tdma_cpu \<Rightarrow> tdma_cpu" where
  "tdma_timer_init s = tdma_timer_irq_enable (tdma_timer_set_cmpval (- 1) s)"

text \<open>\<open>period\<close> is the global \<open>tdma_slot_period\<close>.\<close>

definition current_slot :: "u64 \<Rightarrow> u64 \<Rightarrow> u8" where
  "current_slot period now = ucast ((now div period) mod ucast tdma_num_slots)"

definition tdma_timer_start :: "u64 \<Rightarrow> u64 \<Rightarrow> tdma_cpu \<Rightarrow> (tdma_cpu \<times> bool) option" where
  "tdma_timer_start period now s =
     (if period = 0 then None else
      let slot_id = tdma_slot_id s;
          cycle_period = period * ucast tdma_num_slots;
          current_slot_id = current_slot period now;
          cycle_start_timestamp = (now div cycle_period) * cycle_period;
          (s1, currently_in_mem_phase) =
            (if current_slot_id = slot_id then
               (tdma_timer_set_cmpval (cycle_start_timestamp + (ucast slot_id + 1) * period) s
                  \<lparr>tdma_timer_target := TIMER_TARGET_END\<rparr>, True)
             else if current_slot_id < slot_id then
               (tdma_timer_set_cmpval (cycle_start_timestamp + ucast slot_id * period) s
                  \<lparr>tdma_timer_target := TIMER_TARGET_START\<rparr>, False)
             else
               (tdma_timer_set_cmpval (cycle_start_timestamp + ucast slot_id * period + cycle_period) s
                  \<lparr>tdma_timer_target := TIMER_TARGET_START\<rparr>, False))
      in Some (tdma_timer_enable s1, currently_in_mem_phase))"

subsection \<open>Interrupt handler and hypercall\<close>

text \<open>The first component of the result lists the SGIs set pending for this CPU.\<close>

definition tdma_timer_isr :: "u64 \<Rightarrow> u64 \<Rightarrow> tdma_cpu \<Rightarrow> (nat list \<times> tdma_cpu) option" where
  "tdma_timer_isr period now s =
     (if tdma_timer_target s = TIMER_TARGET_START then
        let s1 = (if tdma_state s = TDMA_STATE_BLOCKED_BY_OVERUSAGE
                  then s\<lparr>tdma_state := tdma_suspended_from_state s\<rparr> else s) in
        if tdma_state s1 = TDMA_STATE_WAITING_FOR_MEMORY then
          tdma_timer_start period now s1 \<bind> (\<lambda>(s2, _).
            Some ([], s2\<lparr>tdma_state := TDMA_STATE_MEMORY_PHASE\<rparr>))
        else Some ([], s1)
      else
        if tdma_state s \<noteq> TDMA_STATE_MEMORY_PHASE then Some ([], s)
        else tdma_timer_start period now s \<bind> (\<lambda>(s2, _).
          Some ([SGI_MEMORY_PHASE_ENDED], s2\<lparr>tdma_state := TDMA_STATE_WAITING_FOR_MEMORY\<rparr>)))"

definition tdma_handle_interrupt ::
  "u64 \<Rightarrow> u64 \<Rightarrow> nat \<Rightarrow> tdma_cpu \<Rightarrow> (nat list \<times> tdma_cpu \<times> bool) option" where
  "tdma_handle_interrupt period now irqn s =
     (if irqn = HYPERVISOR_COUNTER_TIMER_PHYSICAL_IRQ_ID
      then tdma_timer_isr period now s \<bind> (\<lambda>(out, s'). Some (out, s', True))
      else Some ([], s, False))"

definition tdma_setup_irq_target :: "bool \<Rightarrow> tdma_cpu \<Rightarrow> tdma_cpu option" where
  "tdma_setup_irq_target is_root s =
     (if is_root then Some s else tdma_init_priorities (tdma_timer_init s))"

text \<open>The result is the new global slot period and the CPU's state.\<close>

definition tdma_on_cell_create :: "bool \<Rightarrow> u32 \<Rightarrow> u32 \<Rightarrow> u64 \<Rightarrow> tdma_cpu \<Rightarrow> u64 \<times> tdma_cpu" where
  "tdma_on_cell_create is_root cell_id freq period s =
     (let s1 = s\<lparr>tdma_slot_id := - 1, tdma_state := TDMA_STATE_COMPUTING_PHASE,
             tdma_suspended_from_state := TDMA_STATE_COMPUTING_PHASE,
             tdma_timer_target := TIMER_TARGET_START\<rparr> in
      if is_root then (period, s1)
      else
        let period' = (tdma_slot_period_us * ucast freq) div 1000000;
            s2 = s1\<lparr>tdma_slot_id := ucast (cell_id - 1)\<rparr> in
        if sint (tdma_slot_id s2) \<ge> uint tdma_num_slots
        then (period', s2\<lparr>tdma_slot_id := - 1\<rparr>)
        else (period', s2))"

definition MDCR_EL2_HPMN_MASK :: u32 where "MDCR_EL2_HPMN_MASK = 0x1F"
definition MDCR_EL2_HPME :: u32 where "MDCR_EL2_HPME = 0x80"
definition PMU_INDEX :: u32 where "PMU_INDEX = 5"

definition tdma_on_cell_destroy :: "bool \<Rightarrow> tdma_cpu \<Rightarrow> tdma_cpu" where
  "tdma_on_cell_destroy is_root s =
     (if is_root then s
      else let s1 = tdma_timer_irq_disable (tdma_timer_disable s) in
        s1\<lparr>mdcr_el2 := (mdcr_el2 s1 AND NOT MDCR_EL2_HPMN_MASK) OR (MDCR_EL2_HPME + PMU_INDEX + 1)\<rparr>)"

definition tdma_hypercall :: "u64 \<Rightarrow> u64 \<Rightarrow> u64 \<Rightarrow> tdma_cpu \<Rightarrow> (tdma_cpu \<times> arb_result) option" where
  "tdma_hypercall period now action_code s =
     (if action_code = JAILHOUSE_MEMORY_ARBITRATION_BEGIN_MEM_PHASE then
        if tdma_state s = TDMA_STATE_COMPUTING_PHASE then
          tdma_timer_start period now s \<bind> (\<lambda>(s1, in_phase).
            if in_phase then Some (s1\<lparr>tdma_state := TDMA_STATE_MEMORY_PHASE\<rparr>, ARB_ACK)
            else Some (s1\<lparr>tdma_state := TDMA_STATE_WAITING_FOR_MEMORY\<rparr>, ARB_NACK))
        else Some (s, ARB_INVALID)
      else if action_code = JAILHOUSE_MEMORY_ARBITRATION_END_MEM_PHASE then
        if tdma_state s = TDMA_STATE_COMPUTING_PHASE then Some (s, ARB_INVALID)
        else Some ((tdma_timer_disable s)\<lparr>tdma_state := TDMA_STATE_COMPUTING_PHASE\<rparr>, ARB_ACK)
      else Some (s, ARB_INVALID))"

lemmas tdma_timer_defs [arb_defs] = tdma_timer_irq_enable_def tdma_timer_irq_disable_def
  tdma_timer_enable_def tdma_timer_set_cmpval_def tdma_timer_disable_def tdma_timer_init_def

subsection \<open>Priority registers\<close>

lemma byte_mask: "(0xFF :: u32) = mask 8"
  by (simp add: mask_eq_exp_minus_1)

lemma byte_get_set:
  assumes "pos = 8 * a" "pos' = 8 * b" "a < 4" "b < 4"
  shows "byte_get (byte_set r pos v) pos' = (if a = b then v AND 0xFF else byte_get r pos')"
proof (rule bit_eqI)
  fix n assume "possible_bit TYPE(32 word) n"
  then show "bit (byte_get (byte_set r pos v) pos') n \<longleftrightarrow> bit (if a = b then v AND 0xFF else byte_get r pos') n"
    using assms unfolding byte_get_def byte_set_def byte_mask by (auto simp: bit_simps)
qed

lemma byte_get_set_irq:
  "byte_get (byte_set r (IRQ_BYTE_POSITION i) v) (IRQ_BYTE_POSITION j) =
     (if i mod 4 = j mod 4 then v AND 0xFF else byte_get r (IRQ_BYTE_POSITION j))"
  using byte_get_set [of "IRQ_BYTE_POSITION i" "i mod 4" "IRQ_BYTE_POSITION j" "j mod 4"]
  by (simp add: IRQ_BYTE_POSITION_def)

definition prio_regs_ok :: "tdma_cpu \<Rightarrow> bool" where
  "prio_regs_ok s \<longleftrightarrow> length (gicd_ipriorityr s) = CCPLEX_IRQ_SIZE div 4"

lemma irq_word_range: "i < CCPLEX_IRQ_SIZE \<Longrightarrow> i div 4 < CCPLEX_IRQ_SIZE div 4"
  by (simp add: CCPLEX_IRQ_SIZE_def less_mult_imp_div_less)

lemma irq_eq_iff: "i = j \<longleftrightarrow> i div 4 = j div (4::nat) \<and> i mod 4 = j mod 4"
  by (metis div_mult_mod_eq)

lemma gicv2_set_prio_works:
  assumes "prio_regs_ok s" "i < CCPLEX_IRQ_SIZE"
  obtains s' where "gicv2_set_prio i p s = Some s'" "prio_regs_ok s'"
    "\<And>j. gicv2_get_prio j s' = (if j = i then Some (p AND 0xFF) else gicv2_get_prio j s)"
proof -
  have i: "i div 4 < length (gicd_ipriorityr s)" using assms irq_word_range by (simp add: prio_regs_ok_def)
  let ?s' = "s\<lparr>gicd_ipriorityr := (gicd_ipriorityr s)[i div 4 := byte_set (gicd_ipriorityr s ! (i div 4)) (IRQ_BYTE_POSITION i) p]\<rparr>"
  have g: "gicv2_get_prio j ?s' = (if j = i then Some (p AND 0xFF) else gicv2_get_prio j s)" for j
  proof (cases "j div 4 = i div 4")
    case True
    then show ?thesis using i
      by (simp add: gicv2_get_prio_def byte_get_set_irq) (metis irq_eq_iff)
  next
    case False
    then show ?thesis
      by (auto simp: gicv2_get_prio_def arr_get_def)
  qed
  show ?thesis
    by (rule that [of ?s', OF _ _ g]) (use i assms in \<open>simp_all add: gicv2_set_prio_def prio_regs_ok_def\<close>)
qed

lemma gicv2_get_prio_in:
  "prio_regs_ok s \<Longrightarrow> i < CCPLEX_IRQ_SIZE \<Longrightarrow> \<exists>p. gicv2_get_prio i s = Some p \<and> p AND 0xFF = p"
  using irq_word_range [of i]
  by (simp add: gicv2_get_prio_def prio_regs_ok_def byte_get_def and.assoc)

lemma lower_prio_eq: "lower_prio p = (if p < 0x10 then p + 0x10 else p)"
proof (cases "p < 0x10")
  case True
  then have "\<not> p + 0x10 < 0x10"
    by (simp add: word_less_nat_alt unat_word_ariths)
  with True show ?thesis
    by (subst lower_prio.simps, subst lower_prio.simps) (auto simp: tdma_consts word_less_nat_alt)
qed (subst lower_prio.simps, simp add: tdma_consts)

lemma lower_prio_byte: "p AND 0xFF = p \<Longrightarrow> lower_prio p AND 0xFF = lower_prio p \<and> 0x10 \<le> lower_prio p"
proof -
  assume p: "p AND 0xFF = p"
  have "p + 0x10 < 2 ^ 8" "0x10 \<le> p + 0x10" if "p < 0x10"
    using that by (simp_all add: word_less_nat_alt word_le_nat_alt unat_word_ariths)
  then show ?thesis
    using p unfolding byte_mask by (auto simp: lower_prio_eq less_mask_eq not_less)
qed

lemma init_prio_loop_works:
  assumes "prio_regs_ok s" "distinct is" "\<forall>i\<in>set is. i < CCPLEX_IRQ_SIZE"
  shows "\<exists>s'. init_prio_loop is s = Some s' \<and> prio_regs_ok s' \<and>
    (\<forall>j. gicv2_get_prio j s' = (if j \<in> set is then map_option lower_prio (gicv2_get_prio j s) else gicv2_get_prio j s))"
  using assms
proof (induction "is" arbitrary: s)
  case (Cons i "is")
  then have i: "i < CCPLEX_IRQ_SIZE" by simp
  obtain p where p: "gicv2_get_prio i s = Some p" "p AND 0xFF = p"
    using gicv2_get_prio_in [OF Cons.prems(1) i] by auto
  obtain s1 where s1: "gicv2_set_prio i (lower_prio p) s = Some s1" "prio_regs_ok s1"
    "\<And>j. gicv2_get_prio j s1 = (if j = i then Some (lower_prio p AND 0xFF) else gicv2_get_prio j s)"
    using gicv2_set_prio_works [OF Cons.prems(1) i, of "lower_prio p"] by blast
  obtain s2 where s2: "init_prio_loop is s1 = Some s2" "prio_regs_ok s2"
    "\<forall>j. gicv2_get_prio j s2 = (if j \<in> set is then map_option lower_prio (gicv2_get_prio j s1) else gicv2_get_prio j s1)"
    using Cons.IH [OF s1(2)] Cons.prems(2,3) by auto
  show ?case
    using p s1(1,3) s2 Cons.prems(2) lower_prio_byte [OF p(2)] by (intro exI [of _ s2]) auto
qed simp

subsection \<open>Slot arithmetic\<close>

lemma unat_num_slots [simp]: "unat tdma_num_slots = 3"
  by (simp add: tdma_num_slots_def)

lemma unat_current_slot: "unat (current_slot period now) = unat now div unat period mod 3"
proof -
  have "unat now div unat period mod 3 < 256"
    by (rule less_trans [of _ 3]) simp_all
  then show ?thesis
    by (simp add: current_slot_def unat_ucast_mod unat_mod_distrib unat_div_distrib)
qed

lemma u64_mult_add:
  fixes a b c :: u64
  assumes "unat a * unat b + unat c < 2 ^ 64"
  shows "unat (a * b + c) = unat a * unat b + unat c"
proof -
  have "unat a * unat b < 2 ^ 64" using assms by linarith
  then have "unat (a * b) = unat a * unat b" by (simp add: unat_word_ariths)
  with assms show ?thesis by (simp add: unat_word_ariths)
qed

lemma unat_ucast_u8 [simp]: "unat (ucast (w :: u8) :: u64) = unat w"
proof -
  have "unat w < 2 ^ LENGTH(8)" by (rule unsigned_less)
  then show ?thesis by (simp add: unat_ucast_mod)
qed

text \<open>The start of the cycle and its slots, for a counter that is at least two cycles from its wrap.\<close>

lemma cycle_start:
  fixes period now k :: u64
  assumes p: "period \<noteq> 0" and room: "unat now + 6 * unat period < 2 ^ 64" and m: "m \<le> 6"
    and k: "unat k = m"
  shows "unat (now div (period * ucast tdma_num_slots) * (period * ucast tdma_num_slots) + k * period)
    = (unat now div unat period - unat now div unat period mod 3 + m) * unat period"
proof -
  let ?P = "unat period" and ?T = "unat now"
  let ?C = "period * (ucast tdma_num_slots :: u64)"
  have c: "unat ?C = 3 * ?P" using room by (simp add: unat_word_ariths)
  have "?T div (3 * ?P) = ?T div ?P div 3" by (simp add: div_mult2_eq mult.commute)
  then have e: "?T div (3 * ?P) * (3 * ?P) = (?T div ?P - ?T div ?P mod 3) * ?P"
    by (metis minus_mod_eq_div_mult mult.assoc)
  have "?T div (3 * ?P) * (3 * ?P) \<le> ?T" by (simp add: div_times_less_eq_dividend)
  moreover have "m * ?P \<le> 6 * ?P" using m by simp
  ultimately have b: "?T div (3 * ?P) * (3 * ?P) + m * ?P < 2 ^ 64" using room by linarith
  have kp: "unat (k * period) = m * ?P" using k b by (simp add: unat_word_ariths)
  have "unat (now div ?C * ?C + k * period) = unat (now div ?C) * unat ?C + unat (k * period)"
    by (rule u64_mult_add) (use b kp in \<open>simp add: unat_div c\<close>)
  also have "\<dots> = ?T div (3 * ?P) * (3 * ?P) + m * ?P" by (simp only: unat_div c kp)
  also have "\<dots> = (?T div ?P - ?T div ?P mod 3 + m) * ?P" by (simp only: e add_mult_distrib)
  finally show ?thesis .
qed

text \<open>
  \<open>tdma_timer_start\<close> for a valid slot: inside the slot the timer is set to the slot's end,
  otherwise to the start of the CPU's next slot.
\<close>

lemma next_slot_mod:
  fixes q r a j :: nat
  assumes "3 * q + r < j" "j < 3 * q + a + (if r < a then 0 else 3)" "a < 3" "r < 3" "r \<noteq> a"
  shows "j mod 3 \<noteq> a"
proof -
  obtain t where t: "j = 3 * q + t" using assms(1) by (metis add.assoc less_imp_add_positive)
  then have m: "j mod 3 = t mod 3" by simp
  show ?thesis
  proof (cases "t < 3")
    case True
    with t m assms show ?thesis by (cases "r < a") simp_all
  next
    case False
    then have "t mod 3 = (t - 3) mod 3" by (simp add: le_mod_geq)
    with t m False assms show ?thesis by (cases "r < a") simp_all
  qed
qed

lemma next_slot:
  fixes K a :: nat
  assumes "a < 3" "K mod 3 \<noteq> a"
  defines "m \<equiv> K - K mod 3 + (if K mod 3 < a then a else a + 3)"
  shows "K < m" "m \<le> K + 3" "m mod 3 = a" "\<And>j. K < j \<Longrightarrow> j < m \<Longrightarrow> j mod 3 \<noteq> a"
proof -
  obtain q r where K: "K = 3 * q + r" "r < 3" by (metis mult.commute mod_less_divisor zero_less_numeral mult_div_mod_eq)
  then have kr: "K mod 3 = r" "K - K mod 3 = 3 * q" by simp_all
  then have m: "m = 3 * q + (if r < a then a else a + 3)" and ne: "r \<noteq> a" using assms(2) by (simp_all add: m_def)
  show "K < m" "m \<le> K + 3" "m mod 3 = a" using m K ne assms(1) by auto
  show "j mod 3 \<noteq> a" if "K < j" "j < m" for j
    by (rule next_slot_mod [of q r]) (use that m K ne assms(1) in \<open>simp_all split: if_splits\<close>)
qed

lemma tdma_timer_start_spec:
  assumes p: "period \<noteq> 0" and room: "unat now + 6 * unat period < 2 ^ 64" and sl: "unat (tdma_slot_id s) < 3"
  defines "K \<equiv> unat now div unat period"
  obtains s' m where "tdma_timer_start period now s = Some (s', K mod 3 = unat (tdma_slot_id s))"
    "s' = s\<lparr>tdma_timer_target := if K mod 3 = unat (tdma_slot_id s) then TIMER_TARGET_END else TIMER_TARGET_START,
            cnthp_cval := cnthp_cval s', cnthp_ctl := cnthp_ctl s OR CNTHP_CTL_EL2_ENABLE\<rparr>"
    "unat (cnthp_cval s') = m * unat period" "K < m" "m \<le> K + 3"
    "K mod 3 = unat (tdma_slot_id s) \<Longrightarrow> m = K + 1"
    "K mod 3 \<noteq> unat (tdma_slot_id s) \<Longrightarrow> m mod 3 = unat (tdma_slot_id s) \<and>
       (\<forall>j. K < j \<and> j < m \<longrightarrow> j mod 3 \<noteq> unat (tdma_slot_id s))"
proof -
  let ?a = "unat (tdma_slot_id s)"
  have cur: "unat (current_slot period now) = K mod 3" by (simp add: unat_current_slot K_def)
  have eq: "current_slot period now = tdma_slot_id s \<longleftrightarrow> K mod 3 = ?a"
    by (metis cur word_unat_eq_iff)
  have lt: "current_slot period now < tdma_slot_id s \<longleftrightarrow> K mod 3 < ?a"
    by (simp add: word_less_nat_alt cur)
  have u: "unat (ucast (tdma_slot_id s) :: u64) = ?a" "unat (ucast (tdma_slot_id s) + 1 :: u64) = ?a + 1"
    using sl by (simp_all add: unat_word_ariths)
  note cs = cycle_start [OF p room, folded K_def]
  consider "K mod 3 = ?a" | "K mod 3 < ?a" | "?a < K mod 3" by linarith
  then show ?thesis
  proof cases
    case 1
    let ?v = "now div (period * ucast tdma_num_slots) * (period * ucast tdma_num_slots) + (ucast (tdma_slot_id s) + 1) * period"
    have "unat ?v = (K - K mod 3 + (?a + 1)) * unat period"
      by (rule cs) (use sl u in simp_all)
    then have "unat ?v = (K + 1) * unat period" using 1 by simp
    with 1 p show ?thesis
      by (intro that [of "s\<lparr>tdma_timer_target := TIMER_TARGET_END, cnthp_cval := ?v, cnthp_ctl := cnthp_ctl s OR CNTHP_CTL_EL2_ENABLE\<rparr>" "K + 1"])
        (simp_all add: tdma_timer_start_def eq Let_def tdma_timer_defs)
  next
    case 2
    let ?v = "now div (period * ucast tdma_num_slots) * (period * ucast tdma_num_slots) + ucast (tdma_slot_id s) * period"
    have v: "unat ?v = (K - K mod 3 + ?a) * unat period"
      by (rule cs) (use sl u in simp_all)
    note m = next_slot [OF sl, of K]
    from 2 p v show ?thesis
      by (intro that [of "s\<lparr>tdma_timer_target := TIMER_TARGET_START, cnthp_cval := ?v, cnthp_ctl := cnthp_ctl s OR CNTHP_CTL_EL2_ENABLE\<rparr>" "K - K mod 3 + ?a"])
        (use m in \<open>simp_all add: tdma_timer_start_def eq lt Let_def tdma_timer_defs del: diff_add_assoc diff_add_assoc2\<close>)
  next
    case 3
    let ?C = "period * (ucast tdma_num_slots :: u64)"
    let ?v = "now div ?C * ?C + ucast (tdma_slot_id s) * period + ?C"
    have "?v = now div ?C * ?C + (ucast (tdma_slot_id s) + ucast tdma_num_slots) * period"
      by (simp add: algebra_simps)
    moreover have "unat (ucast (tdma_slot_id s) + ucast tdma_num_slots :: u64) = ?a + 3"
      using sl by (simp add: unat_word_ariths u)
    moreover have "?a + 3 \<le> 6" using sl by simp
    ultimately have v: "unat ?v = (K - K mod 3 + (?a + 3)) * unat period"
      using cs by metis
    note m = next_slot [OF sl, of K]
    from 3 p v show ?thesis
      by (intro that [of "s\<lparr>tdma_timer_target := TIMER_TARGET_START, cnthp_cval := ?v, cnthp_ctl := cnthp_ctl s OR CNTHP_CTL_EL2_ENABLE\<rparr>" "K - K mod 3 + (?a + 3)"])
        (use m in \<open>simp_all add: tdma_timer_start_def eq lt Let_def tdma_timer_defs del: diff_add_assoc diff_add_assoc2\<close>)
  qed
qed

subsection \<open>Runs of the TDMA arbiter\<close>

text \<open>
  All CPUs with the global clock. Hypercalls happen at any time, the clock may advance at any
  time, and the timer interrupt of a CPU is taken at or after its compare value; the start
  interrupt is taken while the slot is still running. The clock stays two cycles away from the
  wrap of the 64-bit counter.
\<close>

record tdma_sys =
  clock :: nat
  cpus :: "nat \<Rightarrow> tdma_cpu"

definition clock_ok :: "u64 \<Rightarrow> nat \<Rightarrow> bool" where
  "clock_ok period t \<longleftrightarrow> t + 6 * unat period < 2 ^ 64"

definition in_slot :: "u64 \<Rightarrow> nat \<Rightarrow> u8 \<Rightarrow> bool" where
  "in_slot period t slot \<longleftrightarrow> t div unat period mod 3 = unat slot"

inductive tdma_step :: "u64 \<Rightarrow> tdma_sys \<Rightarrow> tdma_sys \<Rightarrow> bool" for period where
  tdma_tick: "clock y \<le> t \<Longrightarrow> clock_ok period t \<Longrightarrow> tdma_step period y (y\<lparr>clock := t\<rparr>)"
| tdma_call: "tdma_hypercall period (of_nat (clock y)) code (cpus y c) = Some (s', res) \<Longrightarrow>
     tdma_step period y (y\<lparr>cpus := (cpus y)(c := s')\<rparr>)"
| tdma_irq: "\<lbrakk>unat (cnthp_cval (cpus y c)) \<le> clock y;
     tdma_timer_target (cpus y c) = TIMER_TARGET_START \<longrightarrow> in_slot period (clock y) (tdma_slot_id (cpus y c));
     tdma_handle_interrupt period (of_nat (clock y)) HYPERVISOR_COUNTER_TIMER_PHYSICAL_IRQ_ID (cpus y c)
       = Some (out, s', handled)\<rbrakk> \<Longrightarrow>
     tdma_step period y (y\<lparr>cpus := (cpus y)(c := s')\<rparr>)"

text \<open>The start: every CPU has been through \<open>tdma_on_cell_create\<close> and computes.\<close>

definition tdma_start :: "u64 \<Rightarrow> tdma_sys \<Rightarrow> bool" where
  "tdma_start period y \<longleftrightarrow> period \<noteq> 0 \<and> clock_ok period (clock y) \<and>
     (\<forall>c. tdma_state (cpus y c) = TDMA_STATE_COMPUTING_PHASE
        \<and> tdma_suspended_from_state (cpus y c) = TDMA_STATE_COMPUTING_PHASE)"

inductive tdma_reachable :: "u64 \<Rightarrow> tdma_sys \<Rightarrow> tdma_sys \<Rightarrow> bool" for period y0 where
  tdma_refl: "tdma_reachable period y0 y0"
| tdma_next: "tdma_reachable period y0 y \<Longrightarrow> tdma_step period y y' \<Longrightarrow> tdma_reachable period y0 y'"

text \<open>A CPU in its memory phase has the timer set to the end of a slot of its own that has begun.\<close>

definition tdma_cpu_inv :: "u64 \<Rightarrow> nat \<Rightarrow> tdma_cpu \<Rightarrow> bool" where
  "tdma_cpu_inv period t s \<longleftrightarrow>
     tdma_suspended_from_state s = TDMA_STATE_COMPUTING_PHASE
   \<and> tdma_state s \<in> {TDMA_STATE_COMPUTING_PHASE, TDMA_STATE_MEMORY_PHASE, TDMA_STATE_WAITING_FOR_MEMORY}
   \<and> (tdma_state s = TDMA_STATE_MEMORY_PHASE \<longrightarrow> tdma_timer_target s = TIMER_TARGET_END
      \<and> (\<exists>K. K mod 3 = unat (tdma_slot_id s) \<and> K * unat period \<le> t
            \<and> unat (cnthp_cval s) = (K + 1) * unat period))"

lemma clock_ok_unat: "clock_ok period t \<Longrightarrow> unat (of_nat t :: u64) = t"
  by (simp add: clock_ok_def unat_of_nat)

lemma in_slot_range: "in_slot period t slot \<Longrightarrow> unat slot < 3"
  by (metis in_slot_def mod_less_divisor zero_less_numeral)

lemma tdma_cpu_inv_mono: "tdma_cpu_inv period t s \<Longrightarrow> t \<le> t' \<Longrightarrow> tdma_cpu_inv period t' s"
  unfolding tdma_cpu_inv_def by (elim conjE, intro conjI) (assumption+, use order_trans in blast)

lemma tdma_timer_start_frame:
  assumes "tdma_timer_start period now s = Some (s', b)"
  shows "tdma_slot_id s' = tdma_slot_id s" "tdma_suspended_from_state s' = tdma_suspended_from_state s"
    "tdma_state s' = tdma_state s" "b \<longleftrightarrow> tdma_timer_target s' = TIMER_TARGET_END"
  using assms by (auto simp: tdma_timer_start_def Let_def tdma_timer_defs split: if_splits)

lemma tdma_timer_start_in_phase:
  assumes run: "tdma_timer_start period (of_nat t) s = Some (s', b)" and ok: "clock_ok period t"
  shows "b \<longleftrightarrow> in_slot period t (tdma_slot_id s)"
proof -
  have "current_slot period (of_nat t) = tdma_slot_id s \<longleftrightarrow> in_slot period t (tdma_slot_id s)"
    by (metis in_slot_def unat_current_slot clock_ok_unat [OF ok] word_unat_eq_iff)
  then show ?thesis
    using run by (auto simp: tdma_timer_start_def Let_def split: if_splits)
qed

lemma tdma_timer_start_enters:
  assumes run: "tdma_timer_start period (of_nat t) s = Some (s', b)" and ok: "clock_ok period t"
    and "in_slot period t (tdma_slot_id s)" "tdma_suspended_from_state s = TDMA_STATE_COMPUTING_PHASE"
  shows "tdma_cpu_inv period t (s'\<lparr>tdma_state := TDMA_STATE_MEMORY_PHASE\<rparr>)"
proof -
  have p: "period \<noteq> 0" using run by (auto simp: tdma_timer_start_def)
  have room: "unat (of_nat t :: u64) + 6 * unat period < 2 ^ 64"
    using ok by (simp add: clock_ok_unat) (simp add: clock_ok_def)
  let ?K = "t div unat period"
  have K: "?K mod 3 = unat (tdma_slot_id s)" using assms(3) by (simp add: in_slot_def)
  obtain s1 m where s1: "tdma_timer_start period (of_nat t) s = Some (s1, True)"
      "unat (cnthp_cval s1) = m * unat period" "m = ?K + 1"
    by (rule tdma_timer_start_spec [OF p room in_slot_range [OF assms(3)]]) (simp add: K clock_ok_unat [OF ok])
  moreover have "?K * unat period \<le> t" by (simp add: div_times_less_eq_dividend)
  ultimately show ?thesis
    using run assms(4) K tdma_timer_start_frame [OF run] by (auto simp: tdma_cpu_inv_def intro!: exI [of _ ?K])
qed

lemma tdma_hypercall_inv:
  assumes "tdma_hypercall period (of_nat t) code s = Some (s', res)" "clock_ok period t" "tdma_cpu_inv period t s"
  shows "tdma_cpu_inv period t s' \<and> tdma_slot_id s' = tdma_slot_id s"
proof (cases "code = JAILHOUSE_MEMORY_ARBITRATION_BEGIN_MEM_PHASE \<and> tdma_state s = TDMA_STATE_COMPUTING_PHASE")
  case True
  then obtain s1 b where r: "tdma_timer_start period (of_nat t) s = Some (s1, b)"
      "s' = s1\<lparr>tdma_state := if b then TDMA_STATE_MEMORY_PHASE else TDMA_STATE_WAITING_FOR_MEMORY\<rparr>"
    using assms(1) by (auto simp: tdma_hypercall_def split: bind_splits if_splits)
  have susp: "tdma_suspended_from_state s = TDMA_STATE_COMPUTING_PHASE" using assms(3) by (simp add: tdma_cpu_inv_def)
  show ?thesis
    using r tdma_timer_start_enters [OF r(1) assms(2) _ susp] tdma_timer_start_in_phase [OF r(1) assms(2)]
      tdma_timer_start_frame [OF r(1)] susp
    by (cases b) (simp_all add: tdma_cpu_inv_def)
next
  case False
  then show ?thesis using assms(1,3)
    by (auto simp: tdma_hypercall_def tdma_cpu_inv_def tdma_timer_disable_def split: if_splits)
qed

lemma tdma_irq_inv:
  assumes "tdma_handle_interrupt period (of_nat t) irqn s = Some (out, s', h)" "clock_ok period t"
    "tdma_cpu_inv period t s" "tdma_timer_target s = TIMER_TARGET_START \<longrightarrow> in_slot period t (tdma_slot_id s)"
  shows "tdma_cpu_inv period t s' \<and> tdma_slot_id s' = tdma_slot_id s"
proof (cases "irqn = HYPERVISOR_COUNTER_TIMER_PHYSICAL_IRQ_ID")
  case True
  have isr: "tdma_timer_isr period (of_nat t) s = Some (out, s')"
    using assms(1) True by (auto simp: tdma_handle_interrupt_def split: bind_splits)
  have inv: "tdma_suspended_from_state s = TDMA_STATE_COMPUTING_PHASE" "tdma_state s \<noteq> TDMA_STATE_BLOCKED_BY_OVERUSAGE"
    using assms(3) by (auto simp: tdma_cpu_inv_def)
  show ?thesis
  proof (cases "tdma_timer_target s")
    case TIMER_TARGET_START
    show ?thesis
    proof (cases "tdma_state s = TDMA_STATE_WAITING_FOR_MEMORY")
      case True
      then obtain s2 b where r: "tdma_timer_start period (of_nat t) s = Some (s2, b)"
          "s' = s2\<lparr>tdma_state := TDMA_STATE_MEMORY_PHASE\<rparr>"
        using isr TIMER_TARGET_START by (auto simp: tdma_timer_isr_def split: bind_splits)
      with tdma_timer_start_enters [OF r(1) assms(2) _ inv(1)] assms(4) TIMER_TARGET_START
        tdma_timer_start_frame [OF r(1)] show ?thesis by simp
    next
      case False
      with isr TIMER_TARGET_START inv assms(3) show ?thesis by (auto simp: tdma_timer_isr_def)
    qed
  next
    case TIMER_TARGET_END
    show ?thesis
    proof (cases "tdma_state s = TDMA_STATE_MEMORY_PHASE")
      case True
      then obtain s2 b where r: "tdma_timer_start period (of_nat t) s = Some (s2, b)"
          "s' = s2\<lparr>tdma_state := TDMA_STATE_WAITING_FOR_MEMORY\<rparr>"
        using isr TIMER_TARGET_END by (auto simp: tdma_timer_isr_def split: bind_splits)
      with tdma_timer_start_frame [OF r(1)] inv show ?thesis by (simp add: tdma_cpu_inv_def)
    next
      case False
      with isr TIMER_TARGET_END assms(3) show ?thesis by (auto simp: tdma_timer_isr_def)
    qed
  qed
qed (use assms in \<open>auto simp: tdma_handle_interrupt_def\<close>)

definition tdma_inv :: "u64 \<Rightarrow> tdma_sys \<Rightarrow> tdma_sys \<Rightarrow> bool" where
  "tdma_inv period y0 y \<longleftrightarrow> clock_ok period (clock y) \<and>
     (\<forall>c. tdma_cpu_inv period (clock y) (cpus y c) \<and> tdma_slot_id (cpus y c) = tdma_slot_id (cpus y0 c))"

lemma tdma_step_inv: "tdma_step period y y' \<Longrightarrow> tdma_inv period y0 y \<Longrightarrow> tdma_inv period y0 y'"
proof (induction rule: tdma_step.induct)
  case (tdma_tick y t)
  then show ?case by (auto simp: tdma_inv_def intro: tdma_cpu_inv_mono)
next
  case (tdma_call y code c s' res)
  then have "tdma_cpu_inv period (clock y) s' \<and> tdma_slot_id s' = tdma_slot_id (cpus y c)"
    by (intro tdma_hypercall_inv) (auto simp: tdma_inv_def)
  with tdma_call show ?case by (simp add: tdma_inv_def)
next
  case (tdma_irq y c out s' handled)
  have "tdma_cpu_inv period (clock y) s' \<and> tdma_slot_id s' = tdma_slot_id (cpus y c)"
    by (rule tdma_irq_inv [OF tdma_irq(3)]) (use tdma_irq in \<open>auto simp: tdma_inv_def\<close>)
  with tdma_irq show ?case by (simp add: tdma_inv_def)
qed

lemma tdma_reachable_inv: "tdma_reachable period y0 y \<Longrightarrow> tdma_start period y0 \<Longrightarrow> tdma_inv period y0 y"
proof (induction rule: tdma_reachable.induct)
  case tdma_refl
  then show ?case by (simp add: tdma_start_def tdma_inv_def tdma_cpu_inv_def)
next
  case (tdma_next y y')
  then show ?case by (simp add: tdma_step_inv)
qed

subsection \<open>The arbiter contract\<close>

text \<open>The base contract holds at every instant; there is no law on interrupts for this arbiter.\<close>

definition tdma_begin_op :: "u64 \<Rightarrow> u64 \<Rightarrow> nat \<Rightarrow> (nat \<Rightarrow> tdma_cpu) \<Rightarrow> ((nat \<Rightarrow> tdma_cpu) \<times> sgi_out \<times> bool) option" where
  "tdma_begin_op period now c f =
     tdma_hypercall period now JAILHOUSE_MEMORY_ARBITRATION_BEGIN_MEM_PHASE (f c) \<bind>
       (\<lambda>(s, res). Some (f(c := s), [], res = ARB_ACK))"

definition tdma_end_op :: "u64 \<Rightarrow> u64 \<Rightarrow> nat \<Rightarrow> (nat \<Rightarrow> tdma_cpu) \<Rightarrow> ((nat \<Rightarrow> tdma_cpu) \<times> sgi_out) option" where
  "tdma_end_op period now c f =
     tdma_hypercall period now JAILHOUSE_MEMORY_ARBITRATION_END_MEM_PHASE (f c) \<bind>
       (\<lambda>(s, res). Some (f(c := s), []))"

definition tdma_requesting :: "(nat \<Rightarrow> tdma_cpu) \<Rightarrow> nat \<Rightarrow> bool" where
  "tdma_requesting f c \<longleftrightarrow> tdma_state (f c) \<noteq> TDMA_STATE_COMPUTING_PHASE"

definition tdma_holds :: "(nat \<Rightarrow> tdma_cpu) \<Rightarrow> nat \<Rightarrow> bool" where
  "tdma_holds f c \<longleftrightarrow> tdma_state (f c) = TDMA_STATE_MEMORY_PHASE"

lemma tdma_timer_start_total: "period \<noteq> 0 \<Longrightarrow> \<exists>s' b. tdma_timer_start period now s = Some (s', b)"
  by (auto simp: tdma_timer_start_def Let_def)

lemma tdma_begin_hypercall:
  assumes "period \<noteq> 0" "tdma_state s = TDMA_STATE_COMPUTING_PHASE"
  obtains s' b where "tdma_timer_start period now s = Some (s', b)"
    "tdma_hypercall period now JAILHOUSE_MEMORY_ARBITRATION_BEGIN_MEM_PHASE s =
       Some (s'\<lparr>tdma_state := if b then TDMA_STATE_MEMORY_PHASE else TDMA_STATE_WAITING_FOR_MEMORY\<rparr>,
             if b then ARB_ACK else ARB_NACK)"
proof -
  obtain s' b where "tdma_timer_start period now s = Some (s', b)"
    using assms(1) tdma_timer_start_total by blast
  with that assms show ?thesis by (simp add: tdma_hypercall_def)
qed

lemma tdma_end_hypercall:
  "tdma_hypercall period now JAILHOUSE_MEMORY_ARBITRATION_END_MEM_PHASE s =
     (if tdma_state s = TDMA_STATE_COMPUTING_PHASE then Some (s, ARB_INVALID)
      else Some ((tdma_timer_disable s)\<lparr>tdma_state := TDMA_STATE_COMPUTING_PHASE\<rparr>, ARB_ACK))"
  by (simp add: tdma_hypercall_def JAILHOUSE_MEMORY_ARBITRATION_BEGIN_MEM_PHASE_def
      JAILHOUSE_MEMORY_ARBITRATION_END_MEM_PHASE_def)

interpretation tdma: memory_arbiter "\<lambda>_. period \<noteq> 0" tdma_requesting tdma_holds UNIV
  "tdma_begin_op period now" "tdma_end_op period now" for period now
proof unfold_locales
  fix s :: "nat \<Rightarrow> tdma_cpu" and c
  assume p: "period \<noteq> 0"
  show "\<exists>s' out. tdma_begin_op period now c s = Some (s', out, tdma_holds s' c) \<and> period \<noteq> 0
      \<and> tdma_requesting s' c \<and> (\<forall>d. d \<noteq> c \<longrightarrow> tdma_requesting s' d = tdma_requesting s d)"
    if nreq: "\<not> tdma_requesting s c"
  proof -
    obtain s' b where "tdma_hypercall period now JAILHOUSE_MEMORY_ARBITRATION_BEGIN_MEM_PHASE (s c) =
       Some (s'\<lparr>tdma_state := if b then TDMA_STATE_MEMORY_PHASE else TDMA_STATE_WAITING_FOR_MEMORY\<rparr>,
             if b then ARB_ACK else ARB_NACK)"
      by (rule tdma_begin_hypercall [OF p, of "s c"]) (use nreq in \<open>auto simp: tdma_requesting_def\<close>)
    then show ?thesis using p by (simp add: tdma_begin_op_def tdma_requesting_def tdma_holds_def)
  qed
  show "\<exists>s' out. tdma_end_op period now c s = Some (s', out) \<and> period \<noteq> 0
      \<and> \<not> tdma_requesting s' c \<and> (\<forall>d. d \<noteq> c \<longrightarrow> tdma_requesting s' d = tdma_requesting s d)"
    if "tdma_requesting s c"
    using that p by (simp add: tdma_end_op_def tdma_requesting_def tdma_end_hypercall)
  show "tdma_requesting s c" if "tdma_holds s c"
    using that by (simp add: tdma_requesting_def tdma_holds_def)
qed

subsection \<open>Properties\<close>

definition demo_tdma :: "u8 \<Rightarrow> tdma_cpu" where
  "demo_tdma slot = \<lparr>tdma_slot_id = slot, tdma_state = TDMA_STATE_COMPUTING_PHASE,
     tdma_suspended_from_state = TDMA_STATE_COMPUTING_PHASE, tdma_timer_target = TIMER_TARGET_START,
     cnthp_ctl = 0, cnthp_cval = 0, gicd_ipriorityr = replicate 96 0, gicd_itargetsr = replicate 96 0,
     gicd_isenabler0 = 0, mdcr_el2 = 0\<rparr>"

text \<open>
  C4: TDMA gives exclusive memory phases: in every run, two CPUs with different slots are in
  their memory phase at the same time only if the slot-end timer of one of them has already
  expired (its interrupt is due).
\<close>

theorem tdma_exclusive_slots:
  assumes "tdma_start period y0" "tdma_reachable period y0 y"
    "tdma_slot_id (cpus y0 c) \<noteq> tdma_slot_id (cpus y0 d)"
    "tdma_state (cpus y c) = TDMA_STATE_MEMORY_PHASE" "tdma_state (cpus y d) = TDMA_STATE_MEMORY_PHASE"
  shows "unat (cnthp_cval (cpus y c)) \<le> clock y \<or> unat (cnthp_cval (cpus y d)) \<le> clock y"
proof (rule ccontr)
  assume neg: "\<not> ?thesis"
  note inv = tdma_reachable_inv [OF assms(2,1)]
  have slot: "clock y div unat period mod 3 = unat (tdma_slot_id (cpus y0 e))"
    if mem: "tdma_state (cpus y e) = TDMA_STATE_MEMORY_PHASE" and run: "clock y < unat (cnthp_cval (cpus y e))" for e
  proof -
    have ci: "tdma_cpu_inv period (clock y) (cpus y e)" and id: "tdma_slot_id (cpus y e) = tdma_slot_id (cpus y0 e)"
      using inv by (auto simp: tdma_inv_def)
    obtain K where K: "K mod 3 = unat (tdma_slot_id (cpus y e))" "K * unat period \<le> clock y"
        "unat (cnthp_cval (cpus y e)) = (K + 1) * unat period"
      using ci mem unfolding tdma_cpu_inv_def by blast
    have "clock y div unat period = K"
      using K(2,3) run by (intro div_nat_eqI) (simp_all add: mult.commute)
    with K(1) id show ?thesis by simp
  qed
  have "unat (tdma_slot_id (cpus y0 c)) = unat (tdma_slot_id (cpus y0 d))"
    using slot [OF assms(4)] slot [OF assms(5)] neg by simp
  with assms(3) show False by (simp add: word_unat_eq_iff)
qed

text \<open>
  For a CPU with a valid slot the BEGIN hypercall in the computing phase answers ACK exactly when
  the current time lies in the CPU's slot; it then arms the timer for the end of this slot, and
  otherwise for the start of the next slot of this CPU.
\<close>

theorem tdma_begin_spec:
  assumes "period \<noteq> 0" "unat now + 6 * unat period < 2 ^ 64" "unat (tdma_slot_id s) < 3"
    "tdma_state s = TDMA_STATE_COMPUTING_PHASE"
  shows "\<exists>s' m. tdma_hypercall period now JAILHOUSE_MEMORY_ARBITRATION_BEGIN_MEM_PHASE s =
      Some (s', if unat now div unat period mod 3 = unat (tdma_slot_id s) then ARB_ACK else ARB_NACK)
    \<and> unat (cnthp_cval s') = m * unat period \<and> unat now div unat period < m
    \<and> (if unat now div unat period mod 3 = unat (tdma_slot_id s)
       then tdma_state s' = TDMA_STATE_MEMORY_PHASE \<and> tdma_timer_target s' = TIMER_TARGET_END
         \<and> m = unat now div unat period + 1
       else tdma_state s' = TDMA_STATE_WAITING_FOR_MEMORY \<and> tdma_timer_target s' = TIMER_TARGET_START
         \<and> m mod 3 = unat (tdma_slot_id s)
         \<and> (\<forall>j. unat now div unat period < j \<and> j < m \<longrightarrow> j mod 3 \<noteq> unat (tdma_slot_id s)))"
proof -
  obtain s1 b where h: "tdma_timer_start period now s = Some (s1, b)"
    "tdma_hypercall period now JAILHOUSE_MEMORY_ARBITRATION_BEGIN_MEM_PHASE s =
       Some (s1\<lparr>tdma_state := if b then TDMA_STATE_MEMORY_PHASE else TDMA_STATE_WAITING_FOR_MEMORY\<rparr>,
             if b then ARB_ACK else ARB_NACK)"
    using assms(1,4) by (rule tdma_begin_hypercall)
  let ?K = "unat now div unat period"
  let ?a = "unat (tdma_slot_id s)"
  obtain s2 m where s2: "tdma_timer_start period now s = Some (s2, ?K mod 3 = ?a)" and
    m: "unat (cnthp_cval s2) = m * unat period" "?K < m" "?K mod 3 = ?a \<longrightarrow> m = ?K + 1"
    "?K mod 3 \<noteq> ?a \<longrightarrow> m mod 3 = ?a \<and> (\<forall>j. ?K < j \<and> j < m \<longrightarrow> j mod 3 \<noteq> ?a)"
    by (rule tdma_timer_start_spec [OF assms(1-3)]) blast
  have b: "b \<longleftrightarrow> ?K mod 3 = ?a" and [simp]: "s2 = s1" using s2 h(1) by simp_all
  have tgt: "tdma_timer_target s1 = (if b then TIMER_TARGET_END else TIMER_TARGET_START)"
    using tdma_timer_start_frame(4) [OF h(1)] by (cases "tdma_timer_target s1") auto
  show ?thesis
  proof (cases b)
    case True
    then show ?thesis using h(2) m b tgt by (intro exI conjI, simp) simp_all
  next
    case False
    then show ?thesis using h(2) m b tgt by (intro exI conjI, simp) simp_all
  qed
qed

theorem tdma_begin_spec_example:
  "\<exists>s' m. tdma_hypercall 10 25 JAILHOUSE_MEMORY_ARBITRATION_BEGIN_MEM_PHASE (demo_tdma 1) = Some (s', ARB_NACK)
     \<and> unat (cnthp_cval s') = m * 10 \<and> 2 < m \<and> m mod 3 = 1 \<and> (\<forall>j. 2 < j \<and> j < m \<longrightarrow> j mod 3 \<noteq> 1)"
  using tdma_begin_spec [of 10 25 "demo_tdma 1"] by (auto simp: demo_tdma_def)

definition demo_sys :: tdma_sys where
  "demo_sys = \<lparr>clock = 0, cpus = (\<lambda>c. demo_tdma (of_nat c))\<rparr>"

lemma demo_sys_start: "tdma_start 10 demo_sys"
  by (simp add: tdma_start_def demo_sys_def demo_tdma_def clock_ok_def)

lemma demo_call:
  "tdma_hypercall 10 (of_nat (10 * c)) JAILHOUSE_MEMORY_ARBITRATION_BEGIN_MEM_PHASE (demo_tdma (of_nat c)) =
     Some ((demo_tdma (of_nat c))\<lparr>tdma_state := TDMA_STATE_MEMORY_PHASE, tdma_timer_target := TIMER_TARGET_END,
       cnthp_ctl := 1, cnthp_cval := of_nat (10 * c + 10)\<rparr>, ARB_ACK)" if "c \<in> {0, 1}"
  using that
  by (auto simp: tdma_hypercall_def tdma_timer_start_def current_slot_def demo_tdma_def Let_def tdma_timer_defs
      CNTHP_CTL_EL2_ENABLE_def tdma_num_slots_def)

text \<open>CPU 0 uses slot 0; slot 1 begins and CPU 1 asks before CPU 0 has taken its timer interrupt.\<close>

lemma demo_both_in_memory:
  "\<exists>y. tdma_reachable 10 demo_sys y \<and> clock y = 10
     \<and> tdma_state (cpus y 0) = TDMA_STATE_MEMORY_PHASE \<and> tdma_state (cpus y 1) = TDMA_STATE_MEMORY_PHASE"
proof -
  let ?on = "\<lambda>c. (demo_tdma (of_nat c))\<lparr>tdma_state := TDMA_STATE_MEMORY_PHASE,
    tdma_timer_target := TIMER_TARGET_END, cnthp_ctl := 1, cnthp_cval := of_nat (10 * c + 10)\<rparr>"
  let ?y1 = "demo_sys\<lparr>cpus := (cpus demo_sys)(0 := ?on 0)\<rparr>"
  let ?y2 = "?y1\<lparr>clock := 10\<rparr>"
  let ?y3 = "?y2\<lparr>cpus := (cpus ?y2)(1 := ?on 1)\<rparr>"
  have 1: "tdma_step 10 demo_sys ?y1"
    by (rule tdma_call) (use demo_call [of 0] in \<open>simp add: demo_sys_def\<close>)
  have 2: "tdma_step 10 ?y1 ?y2"
    by (rule tdma_tick) (simp_all add: demo_sys_def clock_ok_def)
  have 3: "tdma_step 10 ?y2 ?y3"
    by (rule tdma_call) (use demo_call [of 1] in \<open>simp add: demo_sys_def\<close>)
  show ?thesis
    by (rule exI, rule conjI, rule tdma_next [OF tdma_next [OF tdma_next [OF tdma_refl 1] 2] 3])
      (simp add: demo_sys_def)
qed

theorem tdma_exclusive_slots_witness:
  "\<exists>y. tdma_state (cpus y 0) = TDMA_STATE_MEMORY_PHASE \<and> tdma_state (cpus y 1) = TDMA_STATE_MEMORY_PHASE
     \<and> (unat (cnthp_cval (cpus (y :: tdma_sys) 0)) \<le> clock y \<or> unat (cnthp_cval (cpus y 1)) \<le> clock y)"
proof -
  obtain y where y: "tdma_reachable 10 demo_sys y" "tdma_state (cpus y 0) = TDMA_STATE_MEMORY_PHASE"
      "tdma_state (cpus y 1) = TDMA_STATE_MEMORY_PHASE"
    using demo_both_in_memory by auto
  have "tdma_slot_id (cpus demo_sys 0) \<noteq> tdma_slot_id (cpus demo_sys 1)"
    by (simp add: demo_sys_def demo_tdma_def)
  from tdma_exclusive_slots [OF demo_sys_start y(1) this y(2,3)] y(2,3) show ?thesis by blast
qed

text \<open>
  The timer interrupt ends a memory phase with exactly one ENDED interrupt and turns a waiting
  CPU into its memory phase; it never raises the STARTED interrupt, in no state.
\<close>

theorem tdma_isr_spec:
  assumes "period \<noteq> 0" "tdma_suspended_from_state s = TDMA_STATE_COMPUTING_PHASE"
  shows "\<exists>out s'. tdma_handle_interrupt period now HYPERVISOR_COUNTER_TIMER_PHYSICAL_IRQ_ID s = Some (out, s', True)
    \<and> out = (if tdma_timer_target s = TIMER_TARGET_END \<and> tdma_state s = TDMA_STATE_MEMORY_PHASE
             then [SGI_MEMORY_PHASE_ENDED] else [])
    \<and> tdma_state s' =
        (if tdma_timer_target s = TIMER_TARGET_END
         then if tdma_state s = TDMA_STATE_MEMORY_PHASE then TDMA_STATE_WAITING_FOR_MEMORY else tdma_state s
         else if tdma_state s = TDMA_STATE_WAITING_FOR_MEMORY then TDMA_STATE_MEMORY_PHASE
         else if tdma_state s = TDMA_STATE_BLOCKED_BY_OVERUSAGE then TDMA_STATE_COMPUTING_PHASE
         else tdma_state s)"
proof -
  obtain s' b where "tdma_timer_start period now s = Some (s', b)"
    using assms(1) tdma_timer_start_total by blast
  with assms(2) show ?thesis
    by (cases "tdma_timer_target s"; cases "tdma_state s")
      (simp_all add: tdma_handle_interrupt_def tdma_timer_isr_def)
qed

theorem tdma_isr_spec_example:
  "\<exists>s'. tdma_handle_interrupt 10 0 HYPERVISOR_COUNTER_TIMER_PHYSICAL_IRQ_ID
      ((demo_tdma 0)\<lparr>tdma_state := TDMA_STATE_WAITING_FOR_MEMORY\<rparr>) = Some ([], s', True)
     \<and> tdma_state s' = TDMA_STATE_MEMORY_PHASE"
  using tdma_isr_spec [of 10 "(demo_tdma 0)\<lparr>tdma_state := TDMA_STATE_WAITING_FOR_MEMORY\<rparr>" 0]
  by (simp add: demo_tdma_def)

text \<open>
  After \<open>tdma_init_priorities\<close> the hypervisor timer has the highest interrupt priority (0)
  and every other interrupt a priority of at least \<open>0x10\<close>, unchanged if it was that low already.
\<close>

theorem tdma_init_priorities_spec:
  assumes "prio_regs_ok s"
  shows "\<exists>s'. tdma_init_priorities s = Some s'
    \<and> gicv2_get_prio HYPERVISOR_COUNTER_TIMER_PHYSICAL_IRQ_ID s' = Some 0
    \<and> (\<forall>i<CCPLEX_IRQ_SIZE. i \<noteq> HYPERVISOR_COUNTER_TIMER_PHYSICAL_IRQ_ID \<longrightarrow>
        (\<exists>p q. gicv2_get_prio i s = Some p \<and> gicv2_get_prio i s' = Some q \<and> 0x10 \<le> q
          \<and> q = (if p < 0x10 then p + 0x10 else p)))"
proof -
  obtain s1 where s1: "init_prio_loop [0..<CCPLEX_IRQ_SIZE] s = Some s1" "prio_regs_ok s1"
    "\<And>j. gicv2_get_prio j s1 = (if j < CCPLEX_IRQ_SIZE then map_option lower_prio (gicv2_get_prio j s) else gicv2_get_prio j s)"
    using init_prio_loop_works [OF assms, of "[0..<CCPLEX_IRQ_SIZE]"] by auto
  have t: "HYPERVISOR_COUNTER_TIMER_PHYSICAL_IRQ_ID < CCPLEX_IRQ_SIZE" by (simp add: tdma_consts)
  obtain s2 where s2: "gicv2_set_prio HYPERVISOR_COUNTER_TIMER_PHYSICAL_IRQ_ID IRQ_PRIORITY_MAX s1 = Some s2"
    "\<And>j. gicv2_get_prio j s2 = (if j = HYPERVISOR_COUNTER_TIMER_PHYSICAL_IRQ_ID then Some (IRQ_PRIORITY_MAX AND 0xFF)
            else gicv2_get_prio j s1)"
    using gicv2_set_prio_works [OF s1(2) t, of IRQ_PRIORITY_MAX] by metis
  have "\<exists>p q. gicv2_get_prio i s = Some p \<and> gicv2_get_prio i s2 = Some q \<and> 0x10 \<le> q
          \<and> q = (if p < 0x10 then p + 0x10 else p)"
    if i: "i < CCPLEX_IRQ_SIZE" "i \<noteq> HYPERVISOR_COUNTER_TIMER_PHYSICAL_IRQ_ID" for i
  proof -
    obtain p where p: "gicv2_get_prio i s = Some p" "p AND 0xFF = p"
      using gicv2_get_prio_in [OF assms i(1)] by blast
    have "gicv2_get_prio i s2 = Some (lower_prio p)" using s1(3) s2(2) p(1) i by simp
    with p(1) lower_prio_byte [OF p(2)] lower_prio_eq [of p] show ?thesis by metis
  qed
  moreover have "gicv2_get_prio HYPERVISOR_COUNTER_TIMER_PHYSICAL_IRQ_ID s2 = Some 0"
    using s2(2) by (simp add: IRQ_PRIORITY_MAX_def)
  moreover have "tdma_init_priorities s = Some s2"
    using s1(1) s2(1) by (simp add: tdma_init_priorities_def)
  ultimately show ?thesis by blast
qed

theorem tdma_init_priorities_spec_example:
  "\<exists>s'. tdma_init_priorities (demo_tdma 0) = Some s' \<and> gicv2_get_prio HYPERVISOR_COUNTER_TIMER_PHYSICAL_IRQ_ID s' = Some 0"
  using tdma_init_priorities_spec [of "demo_tdma 0"] by (auto simp: prio_regs_ok_def demo_tdma_def CCPLEX_IRQ_SIZE_def)

lemma sint_u8: "sint (w :: u8) = (uint w + 128) mod 256 - 128"
  by (simp add: sint_uint signed_take_bit_eq_take_bit_shift take_bit_eq_mod)

lemma cell_id_byte:
  assumes "1 \<le> cell_id" "cell_id \<le> (255 :: u32)"
  shows "uint (ucast (cell_id - 1) :: u8) = uint cell_id - 1"
proof -
  have "uint (cell_id - 1) = uint cell_id - 1" using assms(1) by uint_arith
  moreover have "uint cell_id \<le> 255" "1 \<le> uint cell_id" using assms by (simp_all add: word_le_def)
  ultimately show ?thesis by (simp add: unsigned_ucast_eq unsigned_take_bit_eq take_bit_eq_mod)
qed

text \<open>
  Cell creation gives the cells with ids 1, 2, 3 the slots 0, 1, 2, rejects the ids 4 to 128
  (slot -1), but keeps a negative slot for the ids 129 to 255: the test after the truncation to a
  signed byte does not see them.
\<close>

theorem tdma_slot_assignment:
  assumes "tdma_on_cell_create False cell_id freq period s = (period', s')"
  shows "period' = 2 * ucast freq \<and> tdma_state s' = TDMA_STATE_COMPUTING_PHASE
    \<and> (1 \<le> cell_id \<and> cell_id \<le> 3 \<longrightarrow> uint (tdma_slot_id s') = uint cell_id - 1)
    \<and> (4 \<le> cell_id \<and> cell_id \<le> 128 \<longrightarrow> tdma_slot_id s' = - 1)
    \<and> (129 \<le> cell_id \<and> cell_id \<le> 255 \<longrightarrow> sint (tdma_slot_id s') < 0 \<and> tdma_slot_id s' = ucast (cell_id - 1))"
proof -
  have fl: "unat freq < 2 ^ LENGTH(32)" by (rule unsigned_less)
  then have "unat (tdma_slot_period_us * ucast freq) = 1000000 * (2 * unat freq)"
    by (simp add: tdma_slot_period_us_def unat_word_ariths unat_ucast_mod)
  then have "unat ((tdma_slot_period_us * ucast freq) div 1000000) = 2 * unat freq"
    by (simp add: unat_div)
  moreover have "unat (2 * ucast freq :: u64) = 2 * unat freq"
    using fl by (simp add: unat_word_ariths unat_ucast_mod)
  ultimately have per: "(tdma_slot_period_us * ucast freq) div 1000000 = (2 * ucast freq :: u64)"
    by (simp add: word_unat_eq_iff)
  define w :: u8 where "w = ucast (cell_id - 1)"
  have w: "uint w = uint cell_id - 1" if "1 \<le> cell_id" "cell_id \<le> 255"
    using cell_id_byte [OF that] by (simp add: w_def)
  have le: "a \<le> cell_id \<longleftrightarrow> uint a \<le> uint cell_id" "cell_id \<le> a \<longleftrightarrow> uint cell_id \<le> uint a" for a
    by (simp_all add: word_le_def)
  have s': "s' = s\<lparr>tdma_slot_id := if sint w \<ge> 3 then - 1 else w, tdma_state := TDMA_STATE_COMPUTING_PHASE,
             tdma_suspended_from_state := TDMA_STATE_COMPUTING_PHASE, tdma_timer_target := TIMER_TARGET_START\<rparr>"
    "period' = 2 * ucast freq"
    using assms per by (auto simp: tdma_on_cell_create_def Let_def w_def tdma_num_slots_def split: if_splits)
  have sw: "sint w = (uint cell_id - 1 + 128) mod 256 - 128" if "1 \<le> cell_id" "cell_id \<le> 255"
    using w [OF that] by (simp add: sint_u8)
  have "sint w = uint cell_id - 1" if "1 \<le> cell_id" "cell_id \<le> 128"
    using sw that by (simp add: le)
  moreover have "sint w < 0" if "129 \<le> cell_id" "cell_id \<le> 255"
  proof -
    have "(127 + uint cell_id) mod 256 = 127 + uint cell_id - 256" using that by (subst mod_pos_geq) (simp_all add: le)
    with sw that show ?thesis by (simp add: le)
  qed
  ultimately show ?thesis using s' w by (auto simp: le w_def)
qed

theorem tdma_slot_assignment_example:
  "tdma_slot_id (snd (tdma_on_cell_create False 2 31250000 0 (demo_tdma 0))) = 1
   \<and> sint (tdma_slot_id (snd (tdma_on_cell_create False 200 31250000 0 (demo_tdma 0)))) < 0"
proof -
  obtain p1 s1 p2 s2 where r: "tdma_on_cell_create False 2 31250000 0 (demo_tdma 0) = (p1, s1)"
      "tdma_on_cell_create False 200 31250000 0 (demo_tdma 0) = (p2, s2)"
    by fastforce
  show ?thesis
    using tdma_slot_assignment [OF r(1)] tdma_slot_assignment [OF r(2)] r by (simp add: word_uint_eq_iff)
qed

text \<open>
  A BEGIN followed by an END at any instant returns the system to the same set of requesting
  CPUs.
\<close>

theorem tdma_begin_end_roundtrip:
  assumes "period \<noteq> 0" "\<not> tdma_requesting f c"
  shows "\<exists>f1 out1 f2 out2. tdma_begin_op period now c f = Some (f1, out1, tdma_holds f1 c)
    \<and> tdma_end_op period now c f1 = Some (f2, out2) \<and> tdma_requesting f2 = tdma_requesting f"
  by (rule tdma.begin_end_roundtrip [OF assms(1) UNIV_I assms(2), where now = now]) blast

theorem tdma_begin_end_roundtrip_example:
  "\<exists>f1 out1 f2 out2. tdma_begin_op 10 25 0 (\<lambda>c. demo_tdma 0) = Some (f1, out1, tdma_holds f1 0)
    \<and> tdma_end_op 10 25 0 f1 = Some (f2, out2) \<and> tdma_requesting f2 = tdma_requesting (\<lambda>c. demo_tdma 0)"
  by (rule tdma_begin_end_roundtrip) (simp_all add: tdma_requesting_def demo_tdma_def)

end
