(* ===== verification/PagePool.thy ===== *)
theory PagePool
  imports Prelude "HOL-Library.Monad_Syntax"
begin

text \<open>
  The page pools of the hypervisor (\<open>hypervisor/paging.c\<close>, first part, and the bit operations of
  \<open>arch/arm64/include/asm/bitops.h\<close>): search, allocation and release of pages on a bitmap of 64-bit
  words.

  Page numbers are natural numbers: a pool lies in the 64-bit address space, so they stay below
  \<open>2 ^ 52\<close> and sums of a page number and a number of pages do not wrap. The bitmap is the memory behind
  a pointer, a function from word index to word; NULL is the address 0.
\<close>

record page_pool =
  base_address :: u64
  pages :: nat
  used_pages :: u64
  used_bitmap :: "nat \<Rightarrow> u64"
  pool_flags :: u64

definition PAGE_SHIFT :: nat where
  "PAGE_SHIFT = 12"

definition PAGE_SIZE :: nat where
  "PAGE_SIZE = 4096"

definition BITS_PER_LONG :: nat where
  "BITS_PER_LONG = 64"

definition PAGE_SCRUB_ON_FREE :: u64 where
  "PAGE_SCRUB_ON_FREE = 1"

subsection \<open>Bit operations\<close>

text \<open>\<open>rbit\<close> and \<open>clz\<close> count the zeros below the lowest set bit.\<close>

definition ffsl :: "u64 \<Rightarrow> nat" where
  "ffsl w = (if w = 0 then 0 else length (takeWhile (\<lambda>i. \<not> bit w i) [0..<64]))"

definition ffzl :: "u64 \<Rightarrow> nat" where
  "ffzl w = ffsl (not w)"

text \<open>
  The C functions take the number as a signed \<open>int\<close>; it is a natural number here. The two agree for pools of up to \<open>2^31\<close> pages
  (8 TB of memory for the page pool).
\<close>

definition set_bit_at :: "nat \<Rightarrow> (nat \<Rightarrow> u64) \<Rightarrow> nat \<Rightarrow> u64" where
  "set_bit_at nr addr = addr(nr div 64 := or (addr (nr div 64)) (push_bit (nr mod 64) 1))"

definition clear_bit_at :: "nat \<Rightarrow> (nat \<Rightarrow> u64) \<Rightarrow> nat \<Rightarrow> u64" where
  "clear_bit_at nr addr = addr(nr div 64 := and (addr (nr div 64)) (not (push_bit (nr mod 64) 1)))"

subsection \<open>Search\<close>

function find_word :: "page_pool \<Rightarrow> u64 \<Rightarrow> nat \<Rightarrow> nat option" where
  "find_word pool start_mask bmp_pos =
     (if bmp_pos < pages pool div BITS_PER_LONG then
        let bmp_val = or (used_bitmap pool bmp_pos) start_mask in
        if bmp_val \<noteq> - 1 then
          let page_nr = ffzl bmp_val + bmp_pos * BITS_PER_LONG in
          if page_nr \<ge> pages pool then None else Some page_nr
        else find_word pool 0 (bmp_pos + 1)
      else None)"
  by pat_completeness auto

termination
  by (relation "measure (\<lambda>(pool, _, bmp_pos). pages pool div BITS_PER_LONG - bmp_pos)") auto

declare find_word.simps [simp del]

definition find_next_free_page :: "page_pool \<Rightarrow> nat \<Rightarrow> nat option" where
  "find_next_free_page pool start =
     (if start \<ge> pages pool then None
      else
        let start_mask = (if start mod BITS_PER_LONG > 0 then drop_bit (BITS_PER_LONG - start mod BITS_PER_LONG) (- 1) else 0) in
        find_word pool start_mask (start div BITS_PER_LONG))"

subsection \<open>Allocation\<close>

text \<open>The loop that checks for consecutive free pages behind \<open>last\<close>.\<close>

datatype run_result = RUN_FOUND | RUN_NO_MEMORY | RUN_RESTART nat

primrec check_run :: "page_pool \<Rightarrow> nat \<Rightarrow> nat \<Rightarrow> run_result" where
  "check_run pool 0 last_nr = RUN_FOUND"
| "check_run pool (Suc n) last_nr =
     (case find_next_free_page pool (last_nr + 1) of
        None \<Rightarrow> RUN_NO_MEMORY
      | Some next \<Rightarrow> if next \<noteq> last_nr + 1 then RUN_RESTART next else check_run pool n next)"

text \<open>The search from label \<open>restart\<close> on; the outer \<open>None\<close> is a search that does not end.\<close>

partial_function (option) search_pages :: "page_pool \<Rightarrow> nat \<Rightarrow> nat \<Rightarrow> nat \<Rightarrow> nat \<Rightarrow> nat option option" where
  "search_pages pool num align_mask aligned_start next_nr =
     (let misaligned = and (next_nr - aligned_start) align_mask;
          next1 = (if misaligned \<noteq> 0 then next_nr + (num - misaligned) else next_nr) in
      case find_next_free_page pool next1 of
        None \<Rightarrow> Some None
      | Some start \<Rightarrow>
          if num = 0 then Some None
          else if and (start - aligned_start) align_mask \<noteq> 0 then search_pages pool num align_mask aligned_start start
          else
            (case check_run pool (num - 1) start of
               RUN_FOUND \<Rightarrow> Some (Some start)
             | RUN_NO_MEMORY \<Rightarrow> Some None
             | RUN_RESTART next2 \<Rightarrow> search_pages pool num align_mask aligned_start next2))"

definition page_addr :: "page_pool \<Rightarrow> nat \<Rightarrow> u64" where
  "page_addr pool nr = base_address pool + of_nat (nr * PAGE_SIZE)"

definition take_pages :: "nat \<Rightarrow> nat \<Rightarrow> page_pool \<Rightarrow> page_pool" where
  "take_pages start num pool =
     pool\<lparr>used_bitmap := fold set_bit_at [start..<start + num] (used_bitmap pool), used_pages := used_pages pool + of_nat num\<rparr>"

definition page_alloc_internal :: "page_pool \<Rightarrow> u32 \<Rightarrow> nat \<Rightarrow> (page_pool \<times> u64) option" where
  "page_alloc_internal pool num align_mask =
     (let aligned_start = and (unat (drop_bit PAGE_SHIFT (base_address pool))) align_mask in
      search_pages pool (unat num) align_mask aligned_start aligned_start \<bind> (\<lambda>r.
      Some (case r of None \<Rightarrow> (pool, 0)
            | Some start \<Rightarrow> (take_pages start (unat num) pool, page_addr pool start))))"

definition page_alloc :: "page_pool \<Rightarrow> u32 \<Rightarrow> (page_pool \<times> u64) option" where
  "page_alloc pool num = page_alloc_internal pool num 0"

definition page_alloc_aligned :: "page_pool \<Rightarrow> u32 \<Rightarrow> (page_pool \<times> u64) option" where
  "page_alloc_aligned pool num = page_alloc_internal pool num (unat (num - 1))"

subsection \<open>Release\<close>

text \<open>The memory maps addresses to the values there, bytes or the words of page tables.\<close>

definition scrub_page :: "u64 \<Rightarrow> (u64 \<Rightarrow> 'v::zero) \<Rightarrow> u64 \<Rightarrow> 'v" where
  "scrub_page page m = (\<lambda>a. if unat (a - page) < PAGE_SIZE then 0 else m a)"

primrec free_loop :: "nat \<Rightarrow> u64 \<Rightarrow> page_pool \<times> (u64 \<Rightarrow> 'v::zero) \<Rightarrow> page_pool \<times> (u64 \<Rightarrow> 'v)" where
  "free_loop 0 page s = s"
| "free_loop (Suc n) page s =
     (let (pool, m) = s;
          m1 = (if and (pool_flags pool) PAGE_SCRUB_ON_FREE \<noteq> 0 then scrub_page page m else m);
          page_nr = unat (page - base_address pool) div PAGE_SIZE in
      free_loop n (page + of_nat PAGE_SIZE)
        (pool\<lparr>used_bitmap := clear_bit_at page_nr (used_bitmap pool), used_pages := used_pages pool - 1\<rparr>, m1))"

definition page_free :: "page_pool \<Rightarrow> u64 \<Rightarrow> u32 \<Rightarrow> (u64 \<Rightarrow> 'v::zero) \<Rightarrow> page_pool \<times> (u64 \<Rightarrow> 'v)" where
  "page_free pool page num m = (if page = 0 then (pool, m) else free_loop (unat num) page (pool, m))"

subsection \<open>Bits and words\<close>

text \<open>A page is marked when its bit is set. The search sees only the pages of whole bitmap words.\<close>

definition page_used :: "page_pool \<Rightarrow> nat \<Rightarrow> bool" where
  "page_used p n \<longleftrightarrow> bit (used_bitmap p (n div 64)) (n mod 64)"

abbreviation searched :: "page_pool \<Rightarrow> nat" where
  "searched p \<equiv> pages p div 64 * 64"

lemma ffsl_first:
  assumes "w \<noteq> 0"
  shows "ffsl w < 64" "bit w (ffsl w)" "i < ffsl w \<Longrightarrow> \<not> bit w i"
proof -
  have "\<exists>i. bit w i" using assms bit_eq_iff [of w 0] by auto
  then obtain j where j: "bit w j" by blast
  then have j64: "j < 64" using bit_imp_le_length [of w j] by simp
  let ?t = "takeWhile (\<lambda>i. \<not> bit w i) [0..<64]"
  have lt: "length ?t < length [0..<64]"
  proof (rule ccontr)
    assume "\<not> length ?t < length [0..<64]"
    then have "?t = [0..<64]" using length_takeWhile_le [of "\<lambda>i. \<not> bit w i" "[0..<64]"]
      by (metis le_neq_implies_less takeWhile_eq_take take_all_iff linorder_not_less order_refl)
    then have "\<forall>i\<in>set [0..<64]. \<not> bit w i" by (simp only: takeWhile_eq_all_conv)
    then show False using j j64 by simp
  qed
  then show "ffsl w < 64" using assms by (simp add: ffsl_def)
  show "bit w (ffsl w)" using nth_length_takeWhile [OF lt] lt assms by (simp add: ffsl_def)
  show "\<not> bit w i" if "i < ffsl w"
  proof -
    have i: "i < length ?t" using that assms by (simp add: ffsl_def)
    then have "?t ! i \<in> set ?t" by simp
    from set_takeWhileD [OF this] have "\<not> bit w (?t ! i)" by blast
    moreover have "?t ! i = i" using takeWhile_nth [OF i] i lt by simp
    ultimately show ?thesis by simp
  qed
qed

lemma ffzl_first:
  assumes "w \<noteq> - 1"
  shows "ffzl w < 64" "\<not> bit w (ffzl w)" "i < ffzl w \<Longrightarrow> bit w i"
proof -
  have "not w \<noteq> 0" using assms by (metis bit.compl_one bit.double_compl bit.compl_zero)
  note f = ffsl_first [OF this, folded ffzl_def]
  show "ffzl w < 64" by (rule f(1))
  then show "\<not> bit w (ffzl w)" using f(2) by (simp add: bit_simps)
  show "bit w i" if "i < ffzl w" using f(3) [OF that] that f(1) by (simp add: bit_simps)
qed

lemma bit_full: "w = (- 1 :: u64) \<longleftrightarrow> (\<forall>i<64. bit w i)"
  by (auto simp: bit_eq_iff bit_simps)

text \<open>A word of the bitmap, without the pages before the start.\<close>

definition busy :: "page_pool \<Rightarrow> u64 \<Rightarrow> nat \<Rightarrow> nat \<Rightarrow> bool" where
  "busy p m b k \<longleftrightarrow> page_used p k \<or> k div 64 = b \<and> bit m (k mod 64)"

lemma busy_in_word: "k div 64 = b \<Longrightarrow> busy p m b k \<longleftrightarrow> bit (or (used_bitmap p b) m) (k mod 64)"
  by (auto simp: busy_def page_used_def bit_simps)

lemma busy_next: "b * 64 \<le> k \<Longrightarrow> or (used_bitmap p b) m = - 1 \<Longrightarrow> \<not> (b + 1) * 64 \<le> k \<Longrightarrow> busy p m b k"
proof -
  assume k: "b * 64 \<le> k" "\<not> (b + 1) * 64 \<le> k" and w: "or (used_bitmap p b) m = - 1"
  then have "k div 64 = b" by (simp add: div_nat_eqI)
  then show ?thesis by (simp add: busy_in_word w)
qed

lemma busy_later: "(b + 1) * 64 \<le> k \<Longrightarrow> busy p m b k = page_used p k" "busy p 0 b k = page_used p k"
  by (auto simp: busy_def)

lemma find_word_Some:
  "find_word p m b = Some n \<Longrightarrow> b * 64 \<le> n \<and> n < searched p \<and> \<not> busy p m b n \<and> (\<forall>k. b * 64 \<le> k \<longrightarrow> k < n \<longrightarrow> busy p m b k)"
proof (induction p m b rule: find_word.induct)
  case (1 p m b)
  let ?w = "or (used_bitmap p b) m"
  have b: "b < pages p div 64" using "1.prems" by (subst (asm) find_word.simps) (simp add: BITS_PER_LONG_def split: if_splits)
  show ?case
  proof (cases "?w = - 1")
    case True
    then have f: "find_word p 0 (b + 1) = Some n" using "1.prems" b by (subst (asm) find_word.simps) (simp add: BITS_PER_LONG_def)
    have ih: "(b + 1) * 64 \<le> n \<and> n < searched p \<and> \<not> busy p 0 (b + 1) n \<and> (\<forall>k. (b + 1) * 64 \<le> k \<longrightarrow> k < n \<longrightarrow> busy p 0 (b + 1) k)"
      by (rule "1.IH") (use b f True in \<open>simp_all add: BITS_PER_LONG_def\<close>)
    have "busy p m b k" if "b * 64 \<le> k" "k < n" for k
    proof (cases "(b + 1) * 64 \<le> k")
      case True
      then have "page_used p k" using ih that(2) by (simp only: busy_later(2))
      then show ?thesis by (simp add: busy_def)
    next
      case False
      then show ?thesis using busy_next [OF that(1) \<open>?w = - 1\<close>] by blast
    qed
    moreover have "\<not> busy p m b n" using ih busy_later(1) [of b n p m] busy_later(2) [of p "b + 1" n] by blast
    ultimately show ?thesis using ih by simp
  next
    case False
    note z = ffzl_first [OF False]
    have n: "n = ffzl ?w + b * 64" using "1.prems" b False by (subst (asm) find_word.simps) (simp add: BITS_PER_LONG_def Let_def split: if_splits)
    have nb: "n div 64 = b" "n mod 64 = ffzl ?w" using z(1) n by simp_all
    have "n < searched p"
    proof -
      have "n < (b + 1) * 64" using n z(1) by simp
      also have "\<dots> \<le> pages p div 64 * 64" using b by (intro mult_le_mono1) simp
      finally show ?thesis .
    qed
    moreover have "busy p m b k" if "b * 64 \<le> k" "k < n" for k
    proof -
      have kb: "k div 64 = b" using that n z(1) by (simp add: div_nat_eqI)
      then have "k = b * 64 + k mod 64" by (metis div_mult_mod_eq)
      then have "k mod 64 < ffzl ?w" using that(2) n by linarith
      then show ?thesis using z(3) by (simp add: busy_in_word [OF kb])
    qed
    ultimately show ?thesis using z(2) n nb by (simp add: busy_in_word)
  qed
qed

lemma find_word_None:
  "find_word p m b = None \<Longrightarrow> b * 64 \<le> k \<Longrightarrow> k < searched p \<Longrightarrow> busy p m b k"
proof (induction p m b rule: find_word.induct)
  case (1 p m b)
  let ?w = "or (used_bitmap p b) m"
  have b: "b < pages p div 64" using "1.prems"(2,3) by (metis mult_less_cancel2 order_le_less_trans)
  have full: "?w = - 1"
  proof (rule ccontr)
    assume ne: "?w \<noteq> - 1"
    have "ffzl ?w + b * 64 < (b + 1) * 64" using ffzl_first(1) [OF ne] by simp
    also have "\<dots> \<le> pages p div 64 * 64" using b by (intro mult_le_mono1) simp
    also have "\<dots> \<le> pages p" by simp
    finally have "ffzl ?w + b * 64 < pages p" .
    then show False using "1.prems"(1) b ne by (subst (asm) find_word.simps) (simp add: BITS_PER_LONG_def Let_def)
  qed
  show ?case
  proof (cases "(b + 1) * 64 \<le> k")
    case True
    have "busy p 0 (b + 1) k"
    proof (rule "1.IH")
      show "find_word p 0 (b + 1) = None" using "1.prems"(1) b full by (subst (asm) find_word.simps) (simp add: BITS_PER_LONG_def)
    qed (use b full True "1.prems"(3) in \<open>simp_all add: BITS_PER_LONG_def\<close>)
    then show ?thesis by (simp add: busy_def)
  next
    case False
    then show ?thesis using busy_next [OF "1.prems"(2) full] by blast
  qed
qed

lemma start_mask_bits:
  assumes "r < 64" "i < 64"
  shows "bit (if r > 0 then drop_bit (64 - r) (- 1 :: u64) else 0) i \<longleftrightarrow> i < r"
  using assms by (auto simp: bit_simps)

lemma find_next_free_page_busy:
  assumes "start < pages p"
  defines "m \<equiv> (if start mod 64 > 0 then drop_bit (64 - start mod 64) (- 1 :: u64) else 0)"
  shows "find_next_free_page p start = find_word p m (start div 64)"
    "start div 64 * 64 \<le> k \<Longrightarrow> busy p m (start div 64) k \<longleftrightarrow> page_used p k \<or> k < start"
proof -
  show "find_next_free_page p start = find_word p m (start div 64)"
    using assms by (simp add: find_next_free_page_def BITS_PER_LONG_def Let_def)
  assume k: "start div 64 * 64 \<le> k"
  have "k div 64 = start div 64 \<and> k mod 64 < start mod 64 \<longleftrightarrow> k < start"
  proof
    assume "k div 64 = start div 64 \<and> k mod 64 < start mod 64"
    then show "k < start" by (metis add_less_cancel_left mult_div_mod_eq)
  next
    assume l: "k < start"
    have "start div 64 \<le> k div 64" using k by (simp add: less_eq_div_iff_mult_less_eq)
    moreover have "k div 64 \<le> start div 64" using l by (simp add: div_le_mono)
    ultimately have e: "k div 64 = start div 64" by simp
    then show "k div 64 = start div 64 \<and> k mod 64 < start mod 64" using l by (metis add_less_cancel_left mult_div_mod_eq)
  qed
  moreover have "bit m (k mod 64) \<longleftrightarrow> k mod 64 < start mod 64" unfolding m_def by (rule start_mask_bits) simp_all
  ultimately show "busy p m (start div 64) k \<longleftrightarrow> page_used p k \<or> k < start" by (auto simp: busy_def)
qed

lemma find_free_Some:
  assumes "find_next_free_page p start = Some n"
  shows "start \<le> n" "n < searched p" "\<not> page_used p n" "start \<le> k \<Longrightarrow> k < n \<Longrightarrow> page_used p k"
proof -
  have s: "start < pages p" using assms by (simp add: find_next_free_page_def split: if_splits)
  note f = find_word_Some [OF assms [unfolded find_next_free_page_busy(1) [OF s]]]
  have le: "start div 64 * 64 \<le> start" by simp
  have b: "start div 64 * 64 \<le> n" using f by blast
  show "start \<le> n" "\<not> page_used p n" "n < searched p" using f find_next_free_page_busy(2) [OF s b] by auto
  assume k: "start \<le> k" "k < n"
  then show "page_used p k" using f find_next_free_page_busy(2) [OF s order_trans [OF le k(1)]] order_trans [OF le k(1)] by auto
qed

lemma find_free_None:
  assumes "find_next_free_page p start = None" "start \<le> k" "k < searched p"
  shows "page_used p k"
proof -
  have "searched p \<le> pages p" by simp
  then have s: "start < pages p" using assms(2,3) by linarith
  have b: "start div 64 * 64 \<le> k" using assms(2) by (rule order_trans [rotated]) simp
  from find_word_None [OF assms(1) [unfolded find_next_free_page_busy(1) [OF s]] b assms(3)] show ?thesis
    using find_next_free_page_busy(2) [OF s b] assms(2) by simp
qed

subsection \<open>Runs of free pages\<close>

definition free_run :: "page_pool \<Rightarrow> nat \<Rightarrow> nat \<Rightarrow> bool" where
  "free_run p num s \<longleftrightarrow> (\<forall>k. s \<le> k \<longrightarrow> k < s + num \<longrightarrow> k < searched p \<and> \<not> page_used p k)"

lemma check_run_spec:
  assumes "last_nr + n + 1 = start + num" "\<forall>k. start \<le> k \<longrightarrow> k \<le> last_nr \<longrightarrow> k < searched p \<and> \<not> page_used p k" "start \<le> last_nr"
  shows "case check_run p n last_nr of
      RUN_FOUND \<Rightarrow> free_run p num start
    | RUN_NO_MEMORY \<Rightarrow> \<forall>s\<ge>start. \<not> free_run p num s
    | RUN_RESTART nx \<Rightarrow> start < nx \<and> nx < searched p \<and> (\<forall>s. start \<le> s \<longrightarrow> s < nx \<longrightarrow> \<not> free_run p num s)"
  using assms
proof (induction n arbitrary: last_nr)
  case 0
  then show ?case by (auto simp: free_run_def)
next
  case (Suc n)
  show ?case
  proof (cases "find_next_free_page p (last_nr + 1)")
    case None
    have "\<not> free_run p num s" if "s \<ge> start" for s
    proof
      assume "free_run p num s"
      then have "s + num - 1 < searched p \<and> \<not> page_used p (s + num - 1)" using Suc.prems(1,3) that by (simp add: free_run_def)
      moreover have "last_nr + 1 \<le> s + num - 1" using Suc.prems(1) that by simp
      ultimately show False using find_free_None [OF None] by blast
    qed
    then show ?thesis using None by simp
  next
    case (Some nx)
    note f = find_free_Some [OF Some]
    show ?thesis
    proof (cases "nx = last_nr + 1")
      case True
      have "\<forall>k. start \<le> k \<longrightarrow> k \<le> nx \<longrightarrow> k < searched p \<and> \<not> page_used p k"
        using Suc.prems(2) f(2,3) True by (metis Suc_eq_plus1 le_Suc_eq)
      then show ?thesis using Suc.IH [of nx] Suc.prems(1,3) Some True by simp
    next
      case False
      have "\<not> free_run p num s" if "start \<le> s" "s < nx" for s
      proof
        assume r: "free_run p num s"
        show False
        proof (cases "s \<le> last_nr + 1")
          case True
          have "last_nr + 1 < s + num" using Suc.prems(1) that by simp
          then have "\<not> page_used p (last_nr + 1)" using r True by (simp add: free_run_def)
          then show False using f(1) f(4) [of "last_nr + 1"] False by simp
        next
          case False
          then have "page_used p s" using f(4) that by simp
          moreover have "0 < num" using Suc.prems(1,3) by simp
          ultimately show False using r by (simp add: free_run_def)
        qed
      qed
      then show ?thesis using Some False f(1,2) Suc.prems(3) by simp
    qed
  qed
qed

text \<open>The alignments of the two callers: none, or the number of pages, a power of two.\<close>

definition alignment :: "nat \<Rightarrow> nat \<Rightarrow> nat \<Rightarrow> bool" where
  "alignment num align_mask k \<longleftrightarrow> 0 < num \<and> align_mask = 2 ^ k - 1 \<and> (k = 0 \<or> num = 2 ^ k)"

lemma and_exp_minus_1: "and n (2 ^ k - 1) = n mod 2 ^ k" for n :: nat
  by (metis mask_eq_exp_minus_1 take_bit_eq_mask take_bit_eq_mod)

lemma forward_aligned:
  assumes "0 < m" "m = (a :: nat) mod 2 ^ k" "a \<le> t" "t < a + (2 ^ k - m)"
  shows "t mod 2 ^ k \<noteq> 0"
proof -
  define N :: nat where "N = 2 ^ k"
  have N: "0 < N" by (simp add: N_def)
  have m: "m < N" using assms(2) N by (simp add: N_def)
  define d where "d = t - a"
  have t: "t = a + d" "d < N - m" using assms(3,4) by (simp_all add: d_def N_def)
  have "t mod N = (m + d) mod N" unfolding t(1) assms(2) N_def by (simp add: mod_add_left_eq)
  also have "\<dots> = m + d" using t(2) m by simp
  finally show ?thesis using assms(1) by (simp add: N_def)
qed

text \<open>The alignment is relative to the offset \<open>a\<close> the code computes for the pool.\<close>

definition aligned_at :: "nat \<Rightarrow> nat \<Rightarrow> nat \<Rightarrow> bool" where
  "aligned_at k a t \<longleftrightarrow> (t - a) mod 2 ^ k = 0"

text \<open>The page the search starts from: the next aligned one.\<close>

definition next_aligned :: "nat \<Rightarrow> nat \<Rightarrow> nat \<Rightarrow> nat \<Rightarrow> nat" where
  "next_aligned num k a n = (if \<not> aligned_at k a n then n + (num - (n - a) mod 2 ^ k) else n)"

lemma next_aligned_skip:
  assumes "alignment num align_mask k" "a \<le> n" "n \<le> t" "t < next_aligned num k a n"
  shows "\<not> aligned_at k a t"
proof -
  have m: "(n - a) mod 2 ^ k \<noteq> 0" using assms(3,4) by (auto simp: next_aligned_def aligned_at_def split: if_splits)
  then have "num = 2 ^ k" using assms(1) by (auto simp: alignment_def)
  then show ?thesis unfolding aligned_at_def by (intro forward_aligned [OF _ refl]) (use m assms(2-4) in \<open>auto simp: next_aligned_def aligned_at_def\<close>)
qed

lemma next_aligned_gt: "alignment num align_mask k \<Longrightarrow> \<not> aligned_at k a n \<Longrightarrow> n < next_aligned num k a n"
  by (auto simp: alignment_def next_aligned_def aligned_at_def)

lemma search_pages_step:
  assumes "alignment num align_mask k"
  shows "search_pages p num align_mask a n =
     (case find_next_free_page p (next_aligned num k a n) of None \<Rightarrow> Some None
      | Some start \<Rightarrow> if \<not> aligned_at k a start then search_pages p num align_mask a start
          else (case check_run p (num - 1) start of RUN_FOUND \<Rightarrow> Some (Some start) | RUN_NO_MEMORY \<Rightarrow> Some None
             | RUN_RESTART nx \<Rightarrow> search_pages p num align_mask a nx))"
proof -
  have num: "num \<noteq> 0" and mask: "and n align_mask = n mod 2 ^ k" for n
    using assms and_exp_minus_1 by (simp_all add: alignment_def)
  show ?thesis by (subst search_pages.simps) (simp add: Let_def mask next_aligned_def aligned_at_def num cong: option.case_cong)
qed

text \<open>What the search promises: the first aligned run, from \<open>n\<close> on.\<close>

definition first_run :: "page_pool \<Rightarrow> nat \<Rightarrow> nat \<Rightarrow> nat \<Rightarrow> nat \<Rightarrow> nat option \<Rightarrow> bool" where
  "first_run p num k a n r \<longleftrightarrow>
    (case r of
       Some s \<Rightarrow> n \<le> s \<and> aligned_at k a s \<and> free_run p num s \<and>
         (\<forall>t. n \<le> t \<longrightarrow> t < s \<longrightarrow> aligned_at k a t \<longrightarrow> \<not> free_run p num t)
     | None \<Rightarrow> \<forall>t\<ge>n. aligned_at k a t \<longrightarrow> \<not> free_run p num t)"

lemma first_run_later:
  assumes "first_run p num k a n' r" "n \<le> n'"
    "\<And>t. n \<le> t \<Longrightarrow> t < n' \<Longrightarrow> aligned_at k a t \<Longrightarrow> \<not> free_run p num t"
  shows "first_run p num k a n r"
proof -
  have "\<not> free_run p num t" if "n \<le> t" "aligned_at k a t" "n' \<le> t \<longrightarrow> \<not> free_run p num t" for t
    using assms(3) [OF that(1)] that(2,3) by (cases "n' \<le> t") auto
  then show ?thesis using assms(1,2) by (cases r) (auto simp: first_run_def)
qed

lemma no_run_before:
  assumes al: "alignment num align_mask k" "a \<le> n"
    and t: "n \<le> t" "aligned_at k a t" "page_used p t \<or> \<not> t < searched p \<or> t < next_aligned num k a n"
  shows "\<not> free_run p num t"
proof -
  have "0 < num" using al(1) by (simp add: alignment_def)
  then show ?thesis using t next_aligned_skip [OF al t(1)] by (auto simp: free_run_def)
qed

lemma search_pages_spec:
  assumes al: "alignment num align_mask k" and "a \<le> n"
  shows "\<exists>r. search_pages p num align_mask a n = Some r \<and> first_run p num k a n r"
  using assms(2)
proof (induction "searched p - n" arbitrary: n rule: less_induct)
  case less
  let ?n1 = "next_aligned num k a n"
  note step = search_pages_step [OF al, of p a n]
  note none = no_run_before [OF al less.prems]
  have n1: "n \<le> ?n1" by (simp add: next_aligned_def)
  have later: ?case if r: "search_pages p num align_mask a n = search_pages p num align_mask a nx" and nx: "n < nx" "nx < searched p"
    and no: "\<And>t. n \<le> t \<Longrightarrow> t < nx \<Longrightarrow> aligned_at k a t \<Longrightarrow> \<not> free_run p num t" for nx
  proof -
    have "searched p - nx < searched p - n" "a \<le> nx" using nx less.prems by linarith+
    from less.hyps [OF this] obtain r where "search_pages p num align_mask a nx = Some r" "first_run p num k a nx r" by blast
    then show ?thesis using r first_run_later [OF _ less_imp_le [OF nx(1)] no] by auto
  qed
  show ?case
  proof (cases "find_next_free_page p ?n1")
    case None
    have "\<not> free_run p num t" if "n \<le> t" "aligned_at k a t" for t
      by (rule none [OF that]) (meson None find_free_None linorder_not_less)
    then show ?thesis using step None by (simp add: first_run_def)
  next
    case (Some start)
    note f = find_free_Some [OF Some]
    have before: "\<not> free_run p num t" if "n \<le> t" "t < start" "aligned_at k a t" for t
      by (rule none [OF that(1,3)]) (meson f(4) that(2) linorder_not_less)
    show ?thesis
    proof (cases "aligned_at k a start")
      case False
      then have "n \<noteq> start" using f(1) next_aligned_gt [OF al, of a start] by auto
      then show ?thesis using later [of start] step Some False before f(1,2) n1 by simp
    next
      case True
      have num: "0 < num" using al by (simp add: alignment_def)
      have c: "case check_run p (num - 1) start of RUN_FOUND \<Rightarrow> free_run p num start | RUN_NO_MEMORY \<Rightarrow> \<forall>s\<ge>start. \<not> free_run p num s
         | RUN_RESTART nx \<Rightarrow> start < nx \<and> nx < searched p \<and> (\<forall>s. start \<le> s \<longrightarrow> s < nx \<longrightarrow> \<not> free_run p num s)"
        by (rule check_run_spec) (use num f(2,3) in auto)
      have tl: "\<not> free_run p num t" if "n \<le> t" "aligned_at k a t" "start \<le> t \<longrightarrow> \<not> free_run p num t" for t
        using before [OF that(1) _ that(2)] that(3) by (cases "start \<le> t") auto
      show ?thesis
      proof (cases "check_run p (num - 1) start")
        case (RUN_RESTART nx)
        then have c: "start < nx" "nx < searched p" "\<And>s. start \<le> s \<Longrightarrow> s < nx \<Longrightarrow> \<not> free_run p num s" using c by simp_all
        show ?thesis by (rule later [of nx]) (use step Some True RUN_RESTART c f(1) n1 tl in auto)
      qed (use c step Some True before tl f(1) n1 in \<open>auto simp: first_run_def\<close>)
    qed
  qed
qed

subsection \<open>Allocation and release\<close>

lemma bit_set_bit_at: "bit (set_bit_at nr f (n div 64)) (n mod 64) \<longleftrightarrow> n = nr \<or> bit (f (n div 64)) (n mod 64)"
proof -
  have "n = nr \<longleftrightarrow> n div 64 = nr div 64 \<and> n mod 64 = nr mod 64" by (metis div_mult_mod_eq)
  then show ?thesis by (auto simp: set_bit_at_def bit_simps)
qed

lemma bit_clear_bit_at: "bit (clear_bit_at nr f (n div 64)) (n mod 64) \<longleftrightarrow> n \<noteq> nr \<and> bit (f (n div 64)) (n mod 64)"
proof -
  have "n = nr \<longleftrightarrow> n div 64 = nr div 64 \<and> n mod 64 = nr mod 64" by (metis div_mult_mod_eq)
  then show ?thesis by (auto simp: clear_bit_at_def bit_simps)
qed

text \<open>Two bitmaps with the same bits are equal.\<close>

lemma bitmap_eqI:
  assumes "\<And>n. bit ((f :: nat \<Rightarrow> u64) (n div 64)) (n mod 64) = bit (g (n div 64)) (n mod 64)"
  shows "f = g"
proof (rule ext, rule bit_eqI)
  fix i n
  assume "possible_bit TYPE(u64) n"
  then have "n < 64" by simp
  then show "bit (f i) n = bit (g i) n" using assms [of "i * 64 + n"] by simp
qed

lemma bit_fold_set: "bit (fold set_bit_at ns f (n div 64)) (n mod 64) \<longleftrightarrow> n \<in> set ns \<or> bit (f (n div 64)) (n mod 64)"
  by (induction ns arbitrary: f) (auto simp: bit_set_bit_at)

lemma page_used_take [simp]: "page_used (take_pages s num p) n \<longleftrightarrow> page_used p n \<or> s \<le> n \<and> n < s + num"
  by (auto simp: page_used_def take_pages_def bit_fold_set)

lemma alloc_internal:
  fixes p :: page_pool
  assumes al: "alignment (unat num) align_mask k"
  defines "a \<equiv> unat (drop_bit PAGE_SHIFT (base_address p)) mod 2 ^ k"
  obtains (found) s where "page_alloc_internal p num align_mask = Some (take_pages s (unat num) p, page_addr p s)"
      "a \<le> s" "aligned_at k a s" "free_run p (unat num) s" "\<And>t. a \<le> t \<Longrightarrow> t < s \<Longrightarrow> aligned_at k a t \<Longrightarrow> \<not> free_run p (unat num) t"
  | (full) "page_alloc_internal p num align_mask = Some (p, 0)" "\<And>t. a \<le> t \<Longrightarrow> aligned_at k a t \<Longrightarrow> \<not> free_run p (unat num) t"
proof -
  have a: "and (unat (drop_bit PAGE_SHIFT (base_address p))) align_mask = a"
    using al and_exp_minus_1 by (simp add: alignment_def a_def)
  obtain r where r: "search_pages p (unat num) align_mask a a = Some r" "first_run p (unat num) k a a r"
    using search_pages_spec [OF al order_refl] by blast
  show ?thesis
  proof (cases r)
    case None
    then show ?thesis using r full by (simp add: page_alloc_internal_def a first_run_def)
  next
    case (Some s)
    then show ?thesis using r found [of s] by (simp add: page_alloc_internal_def a first_run_def)
  qed
qed

text \<open>A pool in the address space, not at address 0.\<close>

definition pool_ok :: "page_pool \<Rightarrow> bool" where
  "pool_ok p \<longleftrightarrow> base_address p \<noteq> 0 \<and> unat (base_address p) mod PAGE_SIZE = 0 \<and> unat (base_address p) + pages p * PAGE_SIZE \<le> 2 ^ 64"

lemma page_addr_nat:
  assumes "pool_ok p" "s < pages p"
  shows "unat (page_addr p s) = unat (base_address p) + s * PAGE_SIZE" "page_addr p s \<noteq> 0" "unat (page_addr p s - base_address p) div PAGE_SIZE = s"
proof -
  have "(s + 1) * PAGE_SIZE \<le> pages p * PAGE_SIZE" using assms(2) by (intro mult_le_mono1) simp
  then have lt: "unat (base_address p) + s * PAGE_SIZE < 2 ^ 64" using assms(1) by (simp add: pool_ok_def PAGE_SIZE_def)
  then have of: "unat (of_nat (s * PAGE_SIZE) :: u64) = s * PAGE_SIZE" by (simp only: unat_of_nat) simp
  show u: "unat (page_addr p s) = unat (base_address p) + s * PAGE_SIZE"
    using lt of by (simp add: page_addr_def unat_plus_if_size word_size)
  have "0 < unat (base_address p)" using assms(1) by (simp add: pool_ok_def word_less_nat_alt [symmetric] word_gt_0 unat_gt_0)
  then show "page_addr p s \<noteq> 0" using u by auto
  show "unat (page_addr p s - base_address p) div PAGE_SIZE = s"
    unfolding page_addr_def using of by (simp add: PAGE_SIZE_def)
qed

lemma free_run_pages: "free_run p num s \<Longrightarrow> s \<le> n \<Longrightarrow> n < s + num \<Longrightarrow> n < pages p"
  by (simp add: free_run_def) (metis div_mult_mod_eq le_add1 order_less_le_trans)

text \<open>Releasing \<open>n\<close> pages from page \<open>s\<close> on.\<close>

lemma free_loop_spec:
  assumes "pool_ok p" "s + n \<le> pages p"
  shows "free_loop n (page_addr p s) (p, m) =
    (p\<lparr>used_bitmap := fold clear_bit_at [s..<s + n] (used_bitmap p), used_pages := used_pages p - of_nat n\<rparr>,
     if and (pool_flags p) PAGE_SCRUB_ON_FREE \<noteq> 0 then fold (\<lambda>i. scrub_page (page_addr p i)) [s..<s + n] m else m)"
  using assms
proof (induction n arbitrary: p s m)
  case (Suc n)
  let ?p = "p\<lparr>used_bitmap := clear_bit_at s (used_bitmap p), used_pages := used_pages p - 1\<rparr>"
  have addr: "page_addr ?p i = page_addr p i" for i by (simp add: page_addr_def)
  have "page_addr p s + of_nat PAGE_SIZE = page_addr ?p (Suc s)" by (simp add: page_addr_def PAGE_SIZE_def)
  moreover have "pool_ok ?p" "Suc s + n \<le> pages ?p" using Suc.prems by (simp_all add: pool_ok_def)
  moreover have "[s..<s + Suc n] = s # [Suc s..<Suc s + n]" by (simp add: upt_conv_Cons)
  ultimately show ?case
    using page_addr_nat(3) [OF Suc.prems(1), of s] Suc.prems(2) Suc.IH [of ?p "Suc s"] by (simp add: Let_def addr)
qed simp

abbreviation page_of :: "page_pool \<Rightarrow> u64 \<Rightarrow> nat" where
  "page_of p x \<equiv> unat (x - base_address p) div PAGE_SIZE"

lemma scrub_page_app: "scrub_page page m x = (if unat (x - page) < PAGE_SIZE then 0 else m x)"
  by (simp add: scrub_page_def)

lemma scrub_iff:
  assumes "pool_ok p" "i < pages p"
  shows "unat (x - page_addr p i) < PAGE_SIZE \<longleftrightarrow> page_of p x = i"
proof -
  let ?d = "x - base_address p"
  define e :: u64 where "e = of_nat (i * PAGE_SIZE)"
  have "(i + 1) * PAGE_SIZE \<le> pages p * PAGE_SIZE" using assms(2) by (intro mult_le_mono1) simp
  then have lt: "i * PAGE_SIZE + PAGE_SIZE \<le> 2 ^ 64" using assms(1) by (simp add: pool_ok_def)
  then have "i * PAGE_SIZE < 2 ^ 64" by (simp add: PAGE_SIZE_def)
  then have e: "unat e = i * PAGE_SIZE" unfolding e_def by (simp only: unat_of_nat) simp
  have x: "x - page_addr p i = ?d - e" by (simp add: page_addr_def e_def)
  have dv: "page_of p x = i \<longleftrightarrow> i * PAGE_SIZE \<le> unat ?d \<and> unat ?d < i * PAGE_SIZE + PAGE_SIZE"
    by (auto simp: PAGE_SIZE_def)
  show ?thesis
  proof (cases "e \<le> ?d")
    case True
    then have "unat (?d - e) = unat ?d - i * PAGE_SIZE" "i * PAGE_SIZE \<le> unat ?d" by (simp_all add: unat_sub e word_le_nat_alt)
    then show ?thesis unfolding x dv by auto
  next
    case False
    then have "unat (?d - e) = unat ?d + 2 ^ 64 - i * PAGE_SIZE" "unat ?d < i * PAGE_SIZE"
      using unat_sub_if_size [of ?d e] by (simp_all add: e word_le_nat_alt word_size)
    then show ?thesis unfolding x dv using lt by auto
  qed
qed

lemma scrubbed:
  assumes "pool_ok p" "s + n \<le> pages p"
  shows "fold (\<lambda>i. scrub_page (page_addr p i)) [s..<s + n] m x = (if s \<le> page_of p x \<and> page_of p x < s + n then 0 else m x)"
  using assms(2)
proof (induction n)
  case (Suc n)
  have "[s..<s + Suc n] = [s..<s + n] @ [s + n]" by simp
  then have "fold (\<lambda>i. scrub_page (page_addr p i)) [s..<s + Suc n] m x =
      scrub_page (page_addr p (s + n)) (fold (\<lambda>i. scrub_page (page_addr p i)) [s..<s + n] m) x" by simp
  also have "\<dots> = (if page_of p x = s + n then 0 else if s \<le> page_of p x \<and> page_of p x < s + n then 0 else m x)"
    by (subst scrub_page_app) (use Suc scrub_iff [OF assms(1), of "s + n" x] in simp)
  finally show ?case by auto
qed auto

lemma bit_fold_clear: "bit (fold clear_bit_at ns f (n div 64)) (n mod 64) \<longleftrightarrow> n \<notin> set ns \<and> bit (f (n div 64)) (n mod 64)"
  by (induction ns arbitrary: f) (auto simp: bit_clear_bit_at)

lemma free_taken:
  assumes ok: "pool_ok p" and run: "free_run p (unat num) s" and num: "0 < num"
  shows "page_free (take_pages s (unat num) p) (page_addr p s) num m =
    (p, if and (pool_flags p) PAGE_SCRUB_ON_FREE \<noteq> 0 then (\<lambda>x. if s \<le> page_of p x \<and> page_of p x < s + unat num then 0 else m x) else m)"
proof -
  let ?p = "take_pages s (unat num) p"
  have n: "0 < unat num" using num by (simp add: word_less_nat_alt)
  then have "s + unat num - 1 < pages p" by (intro free_run_pages [OF run]) simp_all
  then have le: "s + unat num \<le> pages p" and s: "s < pages p" using n by simp_all
  have f: "pool_ok ?p" "page_addr ?p i = page_addr p i" "pool_flags ?p = pool_flags p" "pages ?p = pages p" for i
    using ok by (simp_all add: pool_ok_def take_pages_def page_addr_def)
  have "fold clear_bit_at [s..<s + unat num] (used_bitmap ?p) = used_bitmap p"
  proof (rule bitmap_eqI)
    fix n
    have "\<not> page_used p n" if "s \<le> n" "n < s + unat num" using run that by (simp add: free_run_def)
    then show "bit (fold clear_bit_at [s..<s + unat num] (used_bitmap ?p) (n div 64)) (n mod 64) = bit (used_bitmap p (n div 64)) (n mod 64)"
      by (auto simp: bit_fold_clear take_pages_def bit_fold_set page_used_def)
  qed
  then have "?p\<lparr>used_bitmap := fold clear_bit_at [s..<s + unat num] (used_bitmap ?p), used_pages := used_pages ?p - of_nat (unat num)\<rparr> = p"
    by (simp add: take_pages_def)
  moreover have "page_free ?p (page_addr p s) num m = free_loop (unat num) (page_addr ?p s) (?p, m)"
    using page_addr_nat(2) [OF ok s] by (simp add: page_free_def f)
  moreover have "fold (\<lambda>i. scrub_page (page_addr p i)) [s..<s + unat num] m =
      (\<lambda>x. if s \<le> page_of p x \<and> page_of p x < s + unat num then 0 else m x)"
    by (rule ext) (rule scrubbed [OF ok le])
  ultimately show ?thesis using free_loop_spec [OF f(1), of s "unat num" m] le by (simp add: f)
qed

subsection \<open>The interface of a pool\<close>

text \<open>
  What the rest of the hypervisor relies on: an allocation returns, and releasing what it got makes the
  pool what it was.
\<close>

locale page_provider =
  fixes alloc :: "'p \<Rightarrow> u32 \<Rightarrow> ('p \<times> u64) option" and release :: "'p \<Rightarrow> u64 \<Rightarrow> u32 \<Rightarrow> 'm \<Rightarrow> 'p \<times> 'm" and good :: "'p \<Rightarrow> bool"
  assumes alloc_returns: "good p \<Longrightarrow> \<exists>p' a. alloc p n = Some (p', a) \<and> good p' \<and> (a = 0 \<longrightarrow> p' = p)"
    and release_alloc: "good p \<Longrightarrow> alloc p n = Some (p', a) \<Longrightarrow> a \<noteq> 0 \<Longrightarrow> fst (release p' a n m) = p"
    and release_null: "release p 0 n m = (p, m)"
begin

primrec alloc_all :: "u32 list \<Rightarrow> 'p \<Rightarrow> ('p \<times> (u64 \<times> u32) list) option" where
  "alloc_all [] p = Some (p, [])"
| "alloc_all (n # ns) p = alloc p n \<bind> (\<lambda>(p', a). alloc_all ns p' \<bind> (\<lambda>(p'', as). Some (p'', (a, n) # as)))"

primrec release_all :: "(u64 \<times> u32) list \<Rightarrow> 'm \<Rightarrow> 'p \<Rightarrow> 'p \<times> 'm" where
  "release_all [] m p = (p, m)"
| "release_all (x # xs) m p = (case release_all xs m p of (p', m') \<Rightarrow> release p' (fst x) (snd x) m')"

text \<open>Allocations undone in the opposite order leave no trace, whichever of them failed.\<close>

lemma undo_all:
  assumes "good p"
  shows "\<exists>p' as. alloc_all ns p = Some (p', as) \<and> good p' \<and> fst (release_all as m p') = p"
  using assms
proof (induction ns arbitrary: p)
  case (Cons n ns)
  obtain p1 a where a: "alloc p n = Some (p1, a)" "good p1" "a = 0 \<longrightarrow> p1 = p" using alloc_returns [OF Cons.prems, of n] by blast
  obtain p2 as where as: "alloc_all ns p1 = Some (p2, as)" "good p2" "fst (release_all as m p2) = p1" using Cons.IH [OF a(2)] by blast
  obtain m' where m': "release_all as m p2 = (p1, m')" using as(3) by (cases "release_all as m p2") simp
  have "fst (release p1 a n m') = p" using a release_alloc [OF Cons.prems a(1)] by (cases "a = 0") (simp_all add: release_null)
  then show ?case using a as m' by simp
qed simp

end

lemma alloc_none: "page_alloc p 0 = Some (p, 0)"
  by (simp add: page_alloc_def page_alloc_internal_def search_pages.simps split: option.split)

lemma page_alloc_cases:
  assumes "0 < num"
  obtains (found) s where "page_alloc p num = Some (take_pages s (unat num) p, page_addr p s)" "free_run p (unat num) s"
      "\<And>t. t < s \<Longrightarrow> \<not> free_run p (unat num) t"
  | (full) "page_alloc p num = Some (p, 0)" "\<And>t. \<not> free_run p (unat num) t"
proof -
  have al: "alignment (unat num) 0 0" using assms by (simp add: alignment_def word_less_nat_alt)
  show ?thesis using that by (cases rule: alloc_internal [OF al, of p]) (auto simp: page_alloc_def aligned_at_def)
qed

lemma pool_ok_take [simp]: "pool_ok (take_pages s n p) = pool_ok p"
  by (simp add: pool_ok_def take_pages_def)

interpretation hv_pool: page_provider page_alloc page_free pool_ok
proof
  fix p n m
  assume ok: "pool_ok p"
  have "\<exists>p' a. page_alloc p n = Some (p', a) \<and> pool_ok p' \<and> (a = 0 \<longrightarrow> p' = p) \<and> (a \<noteq> 0 \<longrightarrow> fst (page_free p' a n m) = p)"
  proof (cases "n = 0")
    case False
    then have n: "0 < n" by (simp add: word_gt_0)
    show ?thesis using n
    proof (cases rule: page_alloc_cases [where p = p])
      case (found s)
      have "0 < unat n" using n by (simp add: word_less_nat_alt)
      then have "s < pages p" by (intro free_run_pages [OF found(2)]) simp_all
      then show ?thesis using found ok page_addr_nat(2) [OF ok] free_taken [OF ok found(2) n, of m] by simp
    next
      case full
      then show ?thesis using ok by simp
    qed
  qed (simp add: alloc_none ok)
  then show "\<exists>p' a. page_alloc p n = Some (p', a) \<and> pool_ok p' \<and> (a = 0 \<longrightarrow> p' = p)"
    "\<And>p' a. page_alloc p n = Some (p', a) \<Longrightarrow> a \<noteq> 0 \<Longrightarrow> fst (page_free p' a n m) = p" by auto
qed (simp add: page_free_def)

subsection \<open>Properties\<close>

text \<open>
  C16: \<open>page_alloc\<close> is first fit and complete: the search ends; it returns the lowest run of \<open>num\<close>
  consecutive free pages and marks exactly these as used, or NULL without effect when the searched part
  of the pool has no such run. Only the pages of whole bitmap words are searched: up to 63 pages at the
  end of the pool are never found.
\<close>

theorem page_alloc_first_fit:
  "(page_alloc p 0 = Some (p, 0)) \<and>
   (0 < num \<longrightarrow>
     (case page_alloc p num of None \<Rightarrow> False
      | Some (p', a) \<Rightarrow>
          if \<exists>s. free_run p (unat num) s
          then let s = (LEAST s. free_run p (unat num) s) in
            free_run p (unat num) s \<and> s + unat num \<le> pages p div 64 * 64 \<and> a = page_addr p s \<and>
            used_pages p' = used_pages p + of_nat (unat num) \<and>
            (\<forall>n. page_used p' n \<longleftrightarrow> page_used p n \<or> s \<le> n \<and> n < s + unat num)
          else a = 0 \<and> p' = p))"
proof (intro conjI impI alloc_none)
  assume n: "0 < num"
  then show "case page_alloc p num of None \<Rightarrow> False
      | Some (p', a) \<Rightarrow>
          if \<exists>s. free_run p (unat num) s
          then let s = (LEAST s. free_run p (unat num) s) in
            free_run p (unat num) s \<and> s + unat num \<le> pages p div 64 * 64 \<and> a = page_addr p s \<and>
            used_pages p' = used_pages p + of_nat (unat num) \<and>
            (\<forall>n. page_used p' n \<longleftrightarrow> page_used p n \<or> s \<le> n \<and> n < s + unat num)
          else a = 0 \<and> p' = p"
  proof (cases rule: page_alloc_cases [where p = p])
    case (found s)
    have s: "(LEAST s. free_run p (unat num) s) = s" using found(2,3) by (intro Least_equality) (auto simp: not_le [symmetric])
    have "0 < unat num" using n by (simp add: word_less_nat_alt)
    then have "s + unat num - 1 < searched p" using found(2) by (simp add: free_run_def)
    then have "s + unat num \<le> searched p" by simp
    moreover have "used_pages (take_pages s (unat num) p) = used_pages p + of_nat (unat num)" by (simp add: take_pages_def)
    ultimately show ?thesis using found(1,2) by (auto simp: s Let_def)
  next
    case full
    then show ?thesis by simp
  qed
qed

definition demo_pool :: page_pool where
  "demo_pool = \<lparr>base_address = 0x1000, pages = 130, used_pages = 3, used_bitmap = (\<lambda>i. if i = 0 then 0x7 else 0), pool_flags = PAGE_SCRUB_ON_FREE\<rparr>"

lemma demo_pool_ok: "pool_ok demo_pool"
  by (simp add: pool_ok_def demo_pool_def PAGE_SIZE_def)

theorem page_alloc_first_fit_witness:
  "(case page_alloc demo_pool 2 of None \<Rightarrow> False | Some (p', a) \<Rightarrow> a \<noteq> 0 \<or> p' = demo_pool)"
  using page_alloc_first_fit [of demo_pool 2] page_addr_nat(2) [OF demo_pool_ok]
  by (auto simp: Let_def split: if_splits option.splits)

text \<open>
  C17: Releasing pages undoes their allocation: bitmap and counter are what they were, and when the
  pool scrubs on release, every byte of the released pages is 0 and no other byte changes. More
  generally, any sequence of allocations, failed ones included, undone in the opposite order restores
  the pool.
\<close>

theorem page_free_undoes_alloc:
  assumes "pool_ok p" "0 < num" "page_alloc p num = Some (p', a)" "a \<noteq> 0"
  shows "fst (page_free p' a num m) = p \<and>
    (and (pool_flags p) PAGE_SCRUB_ON_FREE \<noteq> 0 \<longrightarrow>
      (\<forall>x. snd (page_free p' a num m) x = (if page_of p a \<le> page_of p x \<and> page_of p x < page_of p a + unat num then 0 else m x))) \<and>
    (\<exists>q as. hv_pool.alloc_all ns p = Some (q, as) \<and> fst (hv_pool.release_all as m q) = p)"
proof -
  have u: "\<exists>q as. hv_pool.alloc_all ns p = Some (q, as) \<and> fst (hv_pool.release_all as m q) = p"
    using hv_pool.undo_all [OF assms(1)] by blast
  from assms(2) show ?thesis
  proof (cases rule: page_alloc_cases [where p = p])
    case (found s)
    have "0 < unat num" using assms(2) by (simp add: word_less_nat_alt)
    then have "s < pages p" by (intro free_run_pages [OF found(2)]) simp_all
    then have "page_of p (page_addr p s) = s" by (rule page_addr_nat(3) [OF assms(1)])
    then show ?thesis using free_taken [OF assms(1) found(2) assms(2), of m] found(1) assms(3) u by auto
  next
    case full
    then show ?thesis using assms(3,4) by simp
  qed
qed

theorem page_free_undoes_alloc_witness:
  "\<exists>p' a. page_alloc demo_pool 1 = Some (p', a) \<and> (a \<noteq> 0 \<longrightarrow> fst (page_free p' a 1 (\<lambda>_. 7 :: u8)) = demo_pool)"
proof -
  obtain p' a where "page_alloc demo_pool 1 = Some (p', a)" using hv_pool.alloc_returns [OF demo_pool_ok] by blast
  then show ?thesis using page_free_undoes_alloc [OF demo_pool_ok, of 1 p' a "\<lambda>_. 7 :: u8"] by auto
qed

text \<open>
  C18: \<open>page_alloc_aligned\<close> for a power of two ends. It fails exactly when no free run starts at a
  multiple of that number behind the offset it computes, and otherwise returns pages whose page frame number is
  congruent to twice the frame number of the pool: the offset of the pool is added where it should be
  subtracted. The result is aligned for every pool exactly up to two pages; for four or more pages it
  is aligned only when the pool itself is aligned to half the number of pages.
\<close>

theorem page_alloc_aligned_alignment:
  assumes ok: "pool_ok p" and num: "unat num = 2 ^ k"
  shows "\<exists>p' a. page_alloc_aligned p num = Some (p', a) \<and>
    (if \<exists>i. free_run p (2 ^ k) ((unat (base_address p) div PAGE_SIZE) mod 2 ^ k + i * 2 ^ k)
     then a \<noteq> 0 \<and> (unat a div PAGE_SIZE) mod 2 ^ k = (2 * (unat (base_address p) div PAGE_SIZE)) mod 2 ^ k
     else a = 0 \<and> p' = p)"
proof -
  have m: "unat (num - 1) = 2 ^ k - 1"
    using num by (metis One_nat_def diff_is_0_eq' nat_neq_iff not_less_eq power_eq_0_iff unat_eq_zero unat_minus_one zero_neq_numeral)
  then have al: "alignment (unat num) (unat (num - 1)) k" using num by (simp add: alignment_def)
  let ?b = "unat (base_address p) div PAGE_SIZE"
  have b: "unat (drop_bit PAGE_SHIFT (base_address p)) = ?b"
    by (simp add: drop_bit_eq_div PAGE_SHIFT_def PAGE_SIZE_def unat_div)
  from al show ?thesis
  proof (cases rule: alloc_internal [where p = p])
    case (found s)
    have "0 < unat num" using num by simp
    then have "s < pages p" by (intro free_run_pages [OF found(4)]) simp_all
    then have "unat (page_addr p s) = unat (base_address p) + s * PAGE_SIZE" by (rule page_addr_nat(1) [OF ok])
    then have d: "unat (page_addr p s) div PAGE_SIZE = ?b + s" by (simp add: PAGE_SIZE_def)
    have "(s - ?b mod 2 ^ k) mod 2 ^ k = 0" "?b mod 2 ^ k \<le> s" using found(2,3) by (simp_all add: aligned_at_def b)
    then have "s mod 2 ^ k = ?b mod 2 ^ k" by (metis le_add_diff_inverse mod_add_right_eq mod_mod_trivial add_0_right)
    then have c: "(?b + s) mod 2 ^ k = (2 * ?b) mod 2 ^ k" unfolding mult_2 by (metis mod_add_cong)
    obtain i where i: "s = ?b mod 2 ^ k + i * 2 ^ k"
      using \<open>(s - ?b mod 2 ^ k) mod 2 ^ k = 0\<close> \<open>?b mod 2 ^ k \<le> s\<close> by (metis dvd_def le_add_diff_inverse mod_0_imp_dvd mult.commute)
    have "\<exists>i. free_run p (2 ^ k) (?b mod 2 ^ k + i * 2 ^ k)" using found(4) num i by auto
    moreover have "page_alloc_aligned p num = Some (take_pages s (unat num) p, page_addr p s)" using found(1) by (simp add: page_alloc_aligned_def)
    ultimately show ?thesis using d c page_addr_nat(2) [OF ok \<open>s < pages p\<close>] by simp
  next
    case full
    have "\<not> free_run p (2 ^ k) (?b mod 2 ^ k + i * 2 ^ k)" for i
      using full(2) [of "?b mod 2 ^ k + i * 2 ^ k"] num by (simp add: b aligned_at_def)
    then show ?thesis using full(1) by (simp add: page_alloc_aligned_def)
  qed
qed

theorem page_alloc_aligned_alignment_witness:
  "\<exists>p' a. page_alloc_aligned demo_pool 4 = Some (p', a) \<and> a \<noteq> 0 \<and> (unat a div PAGE_SIZE) mod 4 = 2"
proof -
  have "free_run demo_pool 4 (1 + 1 * 2 ^ 2)"
  proof -
    have "k = 5 \<or> k = 6 \<or> k = 7 \<or> k = 8" if "5 \<le> k" "k < 9" for k :: nat using that by auto
    moreover have "\<not> bit (7 :: u64) n" if "3 \<le> n" for n :: nat
    proof -
      have "(7 :: u64) = mask 3" by (simp add: mask_eq_exp_minus_1)
      then show ?thesis using that by (simp only: bit_mask_iff) simp
    qed
    ultimately show ?thesis by (auto simp: free_run_def page_used_def demo_pool_def)
  qed
  then have "\<exists>i. free_run demo_pool (2 ^ 2) (unat (base_address demo_pool) div PAGE_SIZE mod 2 ^ 2 + i * 2 ^ 2)"
    by (intro exI [of _ 1]) (simp add: demo_pool_def PAGE_SIZE_def)
  then show ?thesis using page_alloc_aligned_alignment [OF demo_pool_ok, of 4 2] by (auto simp: demo_pool_def PAGE_SIZE_def)
qed

end
