(* ===== verification/Mmio.thy ===== *)
theory Mmio
  imports PagePool
begin

text \<open>
  The MMIO dispatcher of a cell (\<open>hypervisor/mmio.c\<close>): the sorted table of regions, its binary search,
  registration and removal, dispatch of an access to the handler of its region, and the handler of
  regions smaller than a page.

  The two arrays of the table are lists as long as the allocation, \<open>None\<close> is an access outside them.
  Changes run under the lock of the table. Handlers are named by numbers; what they do, the devices and
  \<open>paging_create\<close> are parameters.
\<close>

record mmio_region_location =
  loc_start :: u64
  loc_size :: u64

record mmio_region_handler =
  hnd_handler :: nat
  hnd_arg :: nat

record mmio_table =
  mmio_locations :: "mmio_region_location list"
  mmio_handlers :: "mmio_region_handler list"
  num_mmio_regions :: nat
  max_mmio_regions :: nat

datatype mmio_result = MMIO_ERROR | MMIO_UNHANDLED | MMIO_HANDLED

record mmio_access =
  acc_address :: u64
  acc_size :: u32
  acc_is_write :: bool
  acc_value :: u64

subsection \<open>Registration\<close>

definition copy_region :: "nat \<Rightarrow> nat \<Rightarrow> mmio_table \<Rightarrow> mmio_table option" where
  "copy_region src dst c =
     arr_get (mmio_locations c) dst \<bind> (\<lambda>d.
     arr_set (mmio_locations c) dst (d\<lparr>loc_size := 0\<rparr>) \<bind> (\<lambda>locs1.
     arr_get locs1 src \<bind> (\<lambda>l.
     arr_set locs1 dst \<lparr>loc_start = loc_start l, loc_size = 0\<rparr> \<bind> (\<lambda>locs2.
     arr_get (mmio_handlers c) src \<bind> (\<lambda>h.
     arr_set (mmio_handlers c) dst h \<bind> (\<lambda>hnds.
     arr_get locs2 src \<bind> (\<lambda>l2.
     arr_set locs2 dst \<lparr>loc_start = loc_start l, loc_size = loc_size l2\<rparr> \<bind> (\<lambda>locs3.
     Some (c\<lparr>mmio_locations := locs3, mmio_handlers := hnds\<rparr>)))))))))"

fun insert_index :: "mmio_region_location list \<Rightarrow> u64 \<Rightarrow> nat" where
  "insert_index [] start = 0"
| "insert_index (l # ls) start = (if loc_start l > start then 0 else Suc (insert_index ls start))"

text \<open>The loop \<open>for (n = num_mmio_regions - 1; n > index; n--)\<close>; its argument is \<open>n - index\<close>.\<close>

primrec shift_up :: "nat \<Rightarrow> nat \<Rightarrow> mmio_table \<Rightarrow> mmio_table option" where
  "shift_up index 0 c = Some c"
| "shift_up index (Suc k) c = copy_region (index + k) (index + Suc k) c \<bind> shift_up index k"

definition mmio_region_register :: "u64 \<Rightarrow> u64 \<Rightarrow> nat \<Rightarrow> nat \<Rightarrow> mmio_table \<Rightarrow> mmio_table option" where
  "mmio_region_register start rsize handler handler_arg c =
     (let num = num_mmio_regions c in
      if num \<ge> max_mmio_regions c then Some c
      else
        let index = insert_index (take num (mmio_locations c)) start in
        arr_set (mmio_locations c) num \<lparr>loc_start = - 1, loc_size = 0\<rparr> \<bind> (\<lambda>locs.
        shift_up index (num - index) (c\<lparr>mmio_locations := locs, num_mmio_regions := num + 1\<rparr>) \<bind> (\<lambda>c1.
        arr_set (mmio_locations c1) index \<lparr>loc_start = start, loc_size = rsize\<rparr> \<bind> (\<lambda>locs1.
        arr_set (mmio_handlers c1) index \<lparr>hnd_handler = handler, hnd_arg = handler_arg\<rparr> \<bind> (\<lambda>hnds1.
        Some (c1\<lparr>mmio_locations := locs1, mmio_handlers := hnds1\<rparr>))))))"

subsection \<open>Search\<close>

text \<open>The addresses wrap at 64 bits, as in the code; the inner \<open>None\<close> is the result \<open>-1\<close>.\<close>

function search_region :: "mmio_table \<Rightarrow> u64 \<Rightarrow> u32 \<Rightarrow> nat \<Rightarrow> nat \<Rightarrow> nat option option" where
  "search_region c address asize range_start range_size =
     (if range_size > 0 then
        let index = range_start + range_size div 2 in
        arr_get (mmio_locations c) index \<bind> (\<lambda>region.
        if address < loc_start region then search_region c address asize range_start (index - range_start)
        else if loc_start region + loc_size region < address + ucast asize
        then search_region c address asize (index + 1) (range_size - (index + 1 - range_start))
        else Some (Some index))
      else Some None)"
  by pat_completeness auto

termination
  by (relation "measure (\<lambda>(c, address, asize, range_start, range_size). range_size)") auto

declare search_region.simps [simp del]

definition find_region :: "mmio_table \<Rightarrow> u64 \<Rightarrow> u32 \<Rightarrow> nat option option" where
  "find_region c address asize = search_region c address asize 0 (num_mmio_regions c)"

subsection \<open>Removal and dispatch\<close>

primrec shift_down :: "nat \<Rightarrow> nat \<Rightarrow> mmio_table \<Rightarrow> mmio_table option" where
  "shift_down index 0 c = Some c"
| "shift_down index (Suc k) c = copy_region (index + 1) index c \<bind> shift_down (index + 1) k"

definition mmio_region_unregister :: "u64 \<Rightarrow> mmio_table \<Rightarrow> mmio_table option" where
  "mmio_region_unregister start c =
     find_region c start 1 \<bind> (\<lambda>r.
     case r of None \<Rightarrow> Some c
     | Some index \<Rightarrow>
         shift_down index (num_mmio_regions c - index) c \<bind> (\<lambda>c1.
         Some (c1\<lparr>num_mmio_regions := num_mmio_regions c1 - 1\<rparr>)))"

definition mmio_handle_access ::
  "(nat \<Rightarrow> nat \<Rightarrow> mmio_access \<Rightarrow> mmio_access \<times> mmio_result) \<Rightarrow> mmio_table \<Rightarrow> mmio_access \<Rightarrow> (mmio_access \<times> mmio_result) option" where
  "mmio_handle_access call c mmio =
     find_region c (acc_address mmio) (acc_size mmio) \<bind> (\<lambda>r.
     case r of None \<Rightarrow> Some (mmio, MMIO_UNHANDLED)
     | Some index \<Rightarrow>
         arr_get (mmio_handlers c) index \<bind> (\<lambda>h.
         arr_get (mmio_locations c) index \<bind> (\<lambda>l.
         Some (call (hnd_handler h) (hnd_arg h) (mmio\<lparr>acc_address := acc_address mmio - loc_start l\<rparr>)))))"

subsection \<open>Setup\<close>

record jailhouse_memory =
  phys_start :: u64
  virt_start :: u64
  mem_size :: u64
  mem_flags :: u64

definition PAGE_MASK :: u64 where
  "PAGE_MASK = not (of_nat PAGE_SIZE - 1)"

definition JAILHOUSE_MEMORY_IS_SUBPAGE :: "jailhouse_memory \<Rightarrow> bool" where
  "JAILHOUSE_MEMORY_IS_SUBPAGE mem \<longleftrightarrow> and (virt_start mem) (not PAGE_MASK) \<noteq> 0 \<or> and (mem_size mem) (not PAGE_MASK) \<noteq> 0"

text \<open>
  \<open>unit_regions\<close> are the region counts of the units, \<open>mems\<close> the memory regions of the cell. An entry takes 16 bytes in each array; the fresh pages are read as zero.
\<close>

definition PAGES :: "nat \<Rightarrow> nat" where
  "PAGES s = (s + PAGE_SIZE - 1) div PAGE_SIZE"

definition mmio_cell_init :: "nat list \<Rightarrow> jailhouse_memory list \<Rightarrow> page_pool \<Rightarrow> ((page_pool \<times> u64) \<times> int \<times> mmio_table) option" where
  "mmio_cell_init unit_regions mems pool =
     (let m = sum_list unit_regions + length (filter JAILHOUSE_MEMORY_IS_SUBPAGE mems) in
      page_alloc pool (of_nat (PAGES (m * (16 + 16)))) \<bind> (\<lambda>(pool', a).
      Some ((pool', a), if a = 0 then - 12 else 0,
        if a = 0 then \<lparr>mmio_locations = [], mmio_handlers = [], num_mmio_regions = 0, max_mmio_regions = m\<rparr>
        else \<lparr>mmio_locations = replicate m \<lparr>loc_start = 0, loc_size = 0\<rparr>,
               mmio_handlers = replicate m \<lparr>hnd_handler = 0, hnd_arg = 0\<rparr>, num_mmio_regions = 0, max_mmio_regions = m\<rparr>)))"

definition mmio_cell_exit :: "page_pool \<Rightarrow> u64 \<Rightarrow> mmio_table \<Rightarrow> (u64 \<Rightarrow> 'v::zero) \<Rightarrow> page_pool \<times> (u64 \<Rightarrow> 'v)" where
  "mmio_cell_exit pool locations c m = page_free pool locations (of_nat (PAGES (max_mmio_regions c * (16 + 16)))) m"

subsection \<open>Accesses\<close>

text \<open>\<open>rd\<close> and \<open>wr\<close> access a device at a width in bytes; other widths do nothing.\<close>

definition mmio_perform_access ::
  "(nat \<Rightarrow> u64 \<Rightarrow> 'd \<Rightarrow> u64) \<Rightarrow> (nat \<Rightarrow> u64 \<Rightarrow> u64 \<Rightarrow> 'd \<Rightarrow> 'd) \<Rightarrow> u64 \<Rightarrow> mmio_access \<Rightarrow> 'd \<Rightarrow> mmio_access \<times> 'd" where
  "mmio_perform_access rd wr base mmio d =
     (let addr = base + acc_address mmio; n = unat (acc_size mmio) in
      if n \<notin> {1, 2, 4, 8} then (mmio, d)
      else if acc_is_write mmio then (mmio, wr n addr (take_bit (8 * n) (acc_value mmio)) d)
      else (mmio\<lparr>acc_value := take_bit (8 * n) (rd n addr d)\<rparr>, d))"

definition JAILHOUSE_MEM_READ :: u64 where
  "JAILHOUSE_MEM_READ = 0x1"

definition JAILHOUSE_MEM_WRITE :: u64 where
  "JAILHOUSE_MEM_WRITE = 0x2"

definition JAILHOUSE_MEM_IO_UNALIGNED :: u64 where
  "JAILHOUSE_MEM_IO_UNALIGNED = 0x100"

definition JAILHOUSE_MEM_IO_WIDTH_SHIFT :: nat where
  "JAILHOUSE_MEM_IO_WIDTH_SHIFT = 16"

definition subpage_denied :: "jailhouse_memory \<Rightarrow> mmio_access \<Rightarrow> bool" where
  "subpage_denied mem mmio \<longleftrightarrow>
     and (mem_flags mem) (if acc_is_write mmio then JAILHOUSE_MEM_WRITE else JAILHOUSE_MEM_READ) = 0 \<or>
     and (ucast (push_bit JAILHOUSE_MEM_IO_WIDTH_SHIFT (acc_size mmio))) (mem_flags mem) = 0 \<or>
     and (acc_address mmio) (ucast (acc_size mmio - 1)) \<noteq> 0 \<and> and (mem_flags mem) JAILHOUSE_MEM_IO_UNALIGNED = 0"

text \<open>\<open>map_page phys virt\<close> is the result of \<open>paging_create\<close> for one page, \<open>page_virt\<close> the temporary page of the CPU.\<close>

definition mmio_handle_subpage ::
  "(u64 \<Rightarrow> u64 \<Rightarrow> int) \<Rightarrow> (nat \<Rightarrow> u64 \<Rightarrow> 'd \<Rightarrow> u64) \<Rightarrow> (nat \<Rightarrow> u64 \<Rightarrow> u64 \<Rightarrow> 'd \<Rightarrow> 'd) \<Rightarrow> u64 \<Rightarrow> jailhouse_memory \<Rightarrow> mmio_access \<Rightarrow> 'd \<Rightarrow>
     (mmio_access \<times> 'd) \<times> mmio_result" where
  "mmio_handle_subpage map_page rd wr page_virt mem mmio d =
     (let page_phys = and (phys_start mem + acc_address mmio) PAGE_MASK in
      if subpage_denied mem mmio then ((mmio, d), MMIO_ERROR)
      else if map_page page_phys page_virt \<noteq> 0 then ((mmio, d), MMIO_ERROR)
      else
        let virt_base = page_virt + and (phys_start mem) (not PAGE_MASK) - and (acc_address mmio) PAGE_MASK in
        (mmio_perform_access rd wr virt_base mmio d, MMIO_HANDLED))"

text \<open>The numbers that stand for \<open>mmio_handle_subpage\<close> and for the region are arguments.\<close>

definition mmio_subpage_register :: "nat \<Rightarrow> nat \<Rightarrow> jailhouse_memory \<Rightarrow> mmio_table \<Rightarrow> (mmio_table \<times> int) option" where
  "mmio_subpage_register handler arg mem c =
     mmio_region_register (virt_start mem) (mem_size mem) handler arg c \<bind> (\<lambda>c'. Some (c', 0))"

definition mmio_subpage_unregister :: "jailhouse_memory \<Rightarrow> mmio_table \<Rightarrow> mmio_table option" where
  "mmio_subpage_unregister mem c = mmio_region_unregister (virt_start mem) c"

subsection \<open>The table\<close>

definition table_fits :: "mmio_table \<Rightarrow> bool" where
  "table_fits c \<longleftrightarrow> length (mmio_locations c) = max_mmio_regions c \<and> length (mmio_handlers c) = max_mmio_regions c \<and>
     num_mmio_regions c \<le> max_mmio_regions c"

text \<open>The registered regions in the order of the table.\<close>

definition regions :: "mmio_table \<Rightarrow> (mmio_region_location \<times> mmio_region_handler) list" where
  "regions c = zip (take (num_mmio_regions c) (mmio_locations c)) (take (num_mmio_regions c) (mmio_handlers c))"

lemma regions_nth:
  assumes "table_fits c"
  shows "length (regions c) = num_mmio_regions c"
    "i < num_mmio_regions c \<Longrightarrow> regions c ! i = (mmio_locations c ! i, mmio_handlers c ! i)"
    "map fst (regions c) = take (num_mmio_regions c) (mmio_locations c)"
  using assms by (simp_all add: regions_def table_fits_def)

lemma copy_region_eq:
  assumes "table_fits c" "src \<noteq> dst" "src < max_mmio_regions c" "dst < max_mmio_regions c"
  shows "copy_region src dst c = Some (c\<lparr>mmio_locations := (mmio_locations c)[dst := mmio_locations c ! src],
    mmio_handlers := (mmio_handlers c)[dst := mmio_handlers c ! src]\<rparr>)"
  using assms by (cases "mmio_locations c ! src") (simp add: copy_region_def table_fits_def)

lemma shift_up_spec:
  assumes "table_fits c" "index + k < max_mmio_regions c"
  shows "\<exists>c'. shift_up index k c = Some c' \<and> table_fits c' \<and> num_mmio_regions c' = num_mmio_regions c \<and> max_mmio_regions c' = max_mmio_regions c \<and>
    (\<forall>j<max_mmio_regions c. mmio_locations c' ! j = mmio_locations c ! (if index < j \<and> j \<le> index + k then j - 1 else j) \<and>
       mmio_handlers c' ! j = mmio_handlers c ! (if index < j \<and> j \<le> index + k then j - 1 else j))"
  using assms
proof (induction k arbitrary: c)
  case 0
  then show ?case by (auto simp: table_fits_def)
next
  case (Suc k)
  let ?c = "c\<lparr>mmio_locations := (mmio_locations c)[index + Suc k := mmio_locations c ! (index + k)],
    mmio_handlers := (mmio_handlers c)[index + Suc k := mmio_handlers c ! (index + k)]\<rparr>"
  have f: "table_fits ?c" "index + k < max_mmio_regions ?c" using Suc.prems by (simp_all add: table_fits_def)
  obtain c' where c': "shift_up index k ?c = Some c'" "table_fits c'" "num_mmio_regions c' = num_mmio_regions c" "max_mmio_regions c' = max_mmio_regions c"
    "\<forall>j<max_mmio_regions c. mmio_locations c' ! j = mmio_locations ?c ! (if index < j \<and> j \<le> index + k then j - 1 else j) \<and>
       mmio_handlers c' ! j = mmio_handlers ?c ! (if index < j \<and> j \<le> index + k then j - 1 else j)"
    using Suc.IH [OF f] by auto
  have "copy_region (index + k) (index + Suc k) c = Some ?c" by (rule copy_region_eq) (use Suc.prems in simp_all)
  moreover have "\<forall>j<max_mmio_regions c. mmio_locations c' ! j = mmio_locations c ! (if index < j \<and> j \<le> index + Suc k then j - 1 else j) \<and>
       mmio_handlers c' ! j = mmio_handlers c ! (if index < j \<and> j \<le> index + Suc k then j - 1 else j)"
    using c'(5) Suc.prems by (auto simp: table_fits_def nth_list_update le_Suc_eq)
  ultimately show ?case using c' by simp
qed

lemma shift_down_spec:
  assumes "table_fits c" "index + k < max_mmio_regions c"
  shows "\<exists>c'. shift_down index k c = Some c' \<and> table_fits c' \<and> num_mmio_regions c' = num_mmio_regions c \<and> max_mmio_regions c' = max_mmio_regions c \<and>
    (\<forall>j<max_mmio_regions c. mmio_locations c' ! j = mmio_locations c ! (if index \<le> j \<and> j < index + k then j + 1 else j) \<and>
       mmio_handlers c' ! j = mmio_handlers c ! (if index \<le> j \<and> j < index + k then j + 1 else j))"
  using assms
proof (induction k arbitrary: c index)
  case 0
  then show ?case by (auto simp: table_fits_def)
next
  case (Suc k)
  let ?c = "c\<lparr>mmio_locations := (mmio_locations c)[index := mmio_locations c ! (index + 1)],
    mmio_handlers := (mmio_handlers c)[index := mmio_handlers c ! (index + 1)]\<rparr>"
  have f: "table_fits ?c" "(index + 1) + k < max_mmio_regions ?c" using Suc.prems by (simp_all add: table_fits_def)
  obtain c' where c': "shift_down (index + 1) k ?c = Some c'" "table_fits c'" "num_mmio_regions c' = num_mmio_regions c" "max_mmio_regions c' = max_mmio_regions c"
    "\<forall>j<max_mmio_regions c. mmio_locations c' ! j = mmio_locations ?c ! (if index + 1 \<le> j \<and> j < index + 1 + k then j + 1 else j) \<and>
       mmio_handlers c' ! j = mmio_handlers ?c ! (if index + 1 \<le> j \<and> j < index + 1 + k then j + 1 else j)"
    using Suc.IH [OF f] by auto
  have "copy_region (index + 1) index c = Some ?c" by (rule copy_region_eq) (use Suc.prems in simp_all)
  moreover have "\<forall>j<max_mmio_regions c. mmio_locations c' ! j = mmio_locations c ! (if index \<le> j \<and> j < index + Suc k then j + 1 else j) \<and>
       mmio_handlers c' ! j = mmio_handlers c ! (if index \<le> j \<and> j < index + Suc k then j + 1 else j)"
    using c'(5) Suc.prems by (auto simp: table_fits_def nth_list_update Suc_le_eq)
  ultimately show ?case using c' by simp
qed

text \<open>When the table is full, the removal reads one entry behind it.\<close>

lemma shift_down_outside:
  assumes "table_fits c" "index < max_mmio_regions c" "index + k = max_mmio_regions c"
  shows "shift_down index k c = None"
  using assms
proof (induction k arbitrary: c index)
  case (Suc k)
  show ?case
  proof (cases k)
    case 0
    then have "copy_region (index + 1) index c = None" using Suc.prems by (simp add: copy_region_def table_fits_def arr_get_def)
    then show ?thesis by simp
  next
    case (Suc k')
    let ?c = "c\<lparr>mmio_locations := (mmio_locations c)[index := mmio_locations c ! (index + 1)],
      mmio_handlers := (mmio_handlers c)[index := mmio_handlers c ! (index + 1)]\<rparr>"
    have "copy_region (index + 1) index c = Some ?c" by (rule copy_region_eq) (use Suc.prems Suc in simp_all)
    moreover have "shift_down (index + 1) k ?c = None" by (rule Suc.IH) (use Suc.prems Suc in \<open>simp_all add: table_fits_def\<close>)
    ultimately show ?thesis by simp
  qed
qed simp

lemma insert_index_le: "insert_index ls start \<le> length ls"
  by (induction ls) auto

lemma insert_index_split:
  "\<forall>l\<in>set (take (insert_index ls start) ls). loc_start l \<le> start"
  "insert_index ls start < length ls \<Longrightarrow> start < loc_start (ls ! insert_index ls start)"
  by (induction ls) auto

text \<open>Registration inserts the region in front of the first one with a greater start.\<close>

lemma register_inserts:
  fixes start :: u64
  assumes fit: "table_fits c" and room: "num_mmio_regions c < max_mmio_regions c"
  defines "i \<equiv> insert_index (map fst (regions c)) start"
  obtains c' where "mmio_region_register start rsize handler arg c = Some c'" "table_fits c'" "max_mmio_regions c' = max_mmio_regions c"
    "regions c' = take i (regions c) @ (\<lparr>loc_start = start, loc_size = rsize\<rparr>, \<lparr>hnd_handler = handler, hnd_arg = arg\<rparr>) # drop i (regions c)"
proof -
  let ?n = "num_mmio_regions c" and ?m = "max_mmio_regions c"
  let ?l = "\<lparr>loc_start = start, loc_size = rsize\<rparr>" and ?h = "\<lparr>hnd_handler = handler, hnd_arg = arg\<rparr>"
  define c0 where "c0 = c\<lparr>mmio_locations := (mmio_locations c)[?n := \<lparr>loc_start = - 1, loc_size = 0\<rparr>], num_mmio_regions := Suc ?n\<rparr>"
  have len: "length (mmio_locations c) = ?m" "length (mmio_handlers c) = ?m" using fit by (simp_all add: table_fits_def)
  have i: "i \<le> ?n" using insert_index_le [of "map fst (regions c)" start] regions_nth(1) [OF fit] by (simp add: i_def)
  have f0: "table_fits c0" "max_mmio_regions c0 = ?m" "num_mmio_regions c0 = ?n + 1" using fit room by (simp_all add: c0_def table_fits_def)
  obtain c1 where c1: "shift_up i (?n - i) c0 = Some c1" "table_fits c1" "num_mmio_regions c1 = ?n + 1" "max_mmio_regions c1 = ?m"
    "\<forall>j<?m. mmio_locations c1 ! j = mmio_locations c0 ! (if i < j \<and> j \<le> ?n then j - 1 else j) \<and>
       mmio_handlers c1 ! j = mmio_handlers c0 ! (if i < j \<and> j \<le> ?n then j - 1 else j)"
    using shift_up_spec [OF f0(1), of i "?n - i"] f0 room i by auto
  define c' where "c' = c1\<lparr>mmio_locations := (mmio_locations c1)[i := ?l], mmio_handlers := (mmio_handlers c1)[i := ?h]\<rparr>"
  have "insert_index (take ?n (mmio_locations c)) start = i" by (simp add: i_def regions_nth(3) [OF fit])
  then have e: "mmio_region_register start rsize handler arg c = Some c'"
    using room len c1(1,2,4) i by (simp add: mmio_region_register_def Let_def c0_def [symmetric] c'_def table_fits_def)
  have f': "table_fits c'" "max_mmio_regions c' = ?m" "num_mmio_regions c' = ?n + 1" using c1(2-4) by (simp_all add: c'_def table_fits_def)
  have "regions c' = take i (regions c) @ (?l, ?h) # drop i (regions c)"
  proof (rule nth_equalityI)
    show "length (regions c') = length (take i (regions c) @ (?l, ?h) # drop i (regions c))"
      using regions_nth(1) [OF fit] regions_nth(1) [OF f'(1)] f'(3) i by simp
    fix j
    assume "j < length (regions c')"
    then have j: "j < ?n + 1" "j < ?m" using regions_nth(1) [OF f'(1)] f'(3) room by simp_all
    have "regions c' ! j = (mmio_locations c' ! j, mmio_handlers c' ! j)" using regions_nth(2) [OF f'(1)] f'(3) j by simp
    also have "\<dots> = (if j = i then (?l, ?h) else if j < i then regions c ! j else regions c ! (j - 1))"
      using c1(2,4,5) j i len regions_nth(2) [OF fit] by (auto simp: c'_def c0_def table_fits_def nth_list_update)
    also have "\<dots> = (take i (regions c) @ (?l, ?h) # drop i (regions c)) ! j"
      using j i regions_nth(1) [OF fit] by (auto simp: nth_append nth_Cons')
    finally show "regions c' ! j = (take i (regions c) @ (?l, ?h) # drop i (regions c)) ! j" .
  qed
  then show ?thesis using that [of c'] e f' by simp
qed

subsection \<open>Consistent tables\<close>

text \<open>The regions are not empty, end below the top of the address space, and follow each other.\<close>

definition region_end :: "mmio_region_location \<Rightarrow> nat" where
  "region_end l = unat (loc_start l) + unat (loc_size l)"

definition region_ok :: "mmio_region_location \<Rightarrow> bool" where
  "region_ok l \<longleftrightarrow> 0 < unat (loc_size l) \<and> region_end l < 2 ^ 64"

definition in_order :: "mmio_region_location list \<Rightarrow> bool" where
  "in_order ls \<longleftrightarrow> sorted_wrt (\<lambda>k l. region_end k \<le> unat (loc_start l)) ls"

definition table_ok :: "mmio_table \<Rightarrow> bool" where
  "table_ok c \<longleftrightarrow> table_fits c \<and> (\<forall>l\<in>fst ` set (regions c). region_ok l) \<and> in_order (map fst (regions c))"

definition covers :: "mmio_region_location \<Rightarrow> u64 \<Rightarrow> u32 \<Rightarrow> bool" where
  "covers l address asize \<longleftrightarrow> loc_start l \<le> address \<and> unat address + unat asize \<le> region_end l"

definition access_ok :: "u64 \<Rightarrow> u32 \<Rightarrow> bool" where
  "access_ok address asize \<longleftrightarrow> 0 < asize \<and> unat address + unat asize < 2 ^ 64"

lemma in_order_nth: "in_order ls \<Longrightarrow> i < j \<Longrightarrow> j < length ls \<Longrightarrow> region_end (ls ! i) \<le> unat (loc_start (ls ! j))"
  by (simp add: in_order_def sorted_wrt_iff_nth_less)

lemma order_mono:
  assumes "in_order ls" "i \<le> j" "j < length ls"
  shows "unat (loc_start (ls ! i)) \<le> unat (loc_start (ls ! j))" "region_end (ls ! i) \<le> region_end (ls ! j)"
  using assms in_order_nth [OF assms(1), of i j] by (cases "i = j"; simp add: region_end_def)+

lemma covers_unique:
  assumes "in_order ls" "i < length ls" "j < length ls" "covers (ls ! i) a n" "covers (ls ! j) a n" "0 < n"
  shows "i = j"
proof (rule ccontr)
  assume "i \<noteq> j"
  have "0 < unat n" using assms(6) by (simp add: word_less_nat_alt)
  moreover have "k < l \<Longrightarrow> l < length ls \<Longrightarrow> covers (ls ! k) a n \<Longrightarrow> covers (ls ! l) a n \<Longrightarrow> unat n = 0" for k l
    using in_order_nth [OF assms(1), of k l] by (auto simp: covers_def word_le_nat_alt)
  ultimately show False using assms(2-5) \<open>i \<noteq> j\<close> by (metis linorder_neqE_nat nat_less_le)
qed

lemma ends_before:
  assumes "region_ok l" "access_ok address asize"
  shows "loc_start l + loc_size l < address + ucast asize \<longleftrightarrow> region_end l < unat address + unat asize"
proof -
  have "unat asize < 2 ^ LENGTH(32)" by (rule unsigned_less)
  then have "unat (ucast asize :: u64) = unat asize" by (simp add: unat_ucast_mod)
  then have "unat (address + ucast asize) = unat address + unat asize"
    using assms(2) by (simp add: access_ok_def unat_plus_if_size word_size)
  moreover have "unat (loc_start l + loc_size l) = region_end l"
    using assms(1) by (simp add: region_ok_def region_end_def unat_plus_if_size word_size)
  ultimately show ?thesis by (simp add: word_less_nat_alt)
qed

lemma search_region_spec:
  assumes "table_ok c" "access_ok address asize" "rs + rn \<le> num_mmio_regions c"
    "\<forall>i<num_mmio_regions c. covers (mmio_locations c ! i) address asize \<longrightarrow> rs \<le> i \<and> i < rs + rn"
  shows "\<exists>r. search_region c address asize rs rn = Some r \<and>
    (case r of Some i \<Rightarrow> i < num_mmio_regions c \<and> covers (mmio_locations c ! i) address asize
     | None \<Rightarrow> \<forall>i<num_mmio_regions c. \<not> covers (mmio_locations c ! i) address asize)"
  using assms(3,4)
proof (induction rn arbitrary: rs rule: less_induct)
  case (less rn)
  let ?n = "num_mmio_regions c" and ?L = "mmio_locations c"
  show ?case
  proof (cases "rn = 0")
    case True
    then show ?thesis using less.prems(2) by (subst search_region.simps) auto
  next
    case False
    define x where "x = rs + rn div 2"
    have x: "x < ?n" "rs \<le> x" "x < rs + rn" using False less.prems(1) by (simp_all add: x_def)
    have fit: "table_fits c" and ord: "in_order (take ?n ?L)" using assms(1) regions_nth(3) [of c] by (simp_all add: table_ok_def)
    have len: "length (take ?n ?L) = ?n" "x < length ?L" using fit x(1) by (simp_all add: table_fits_def)
    have m: "unat (loc_start (?L ! i)) \<le> unat (loc_start (?L ! j)) \<and> region_end (?L ! i) \<le> region_end (?L ! j)" if "i \<le> j" "j < ?n" for i j
      using order_mono [OF ord that(1)] that len by simp
    have "region_ok (?L ! x)" using assms(1) x(1) regions_nth(1,2) [OF fit] by (metis table_ok_def fst_conv image_eqI nth_mem)
    note eb = ends_before [OF this assms(2)]
    have s: "search_region c address asize rs rn =
      (if address < loc_start (?L ! x) then search_region c address asize rs (x - rs)
       else if region_end (?L ! x) < unat address + unat asize then search_region c address asize (x + 1) (rn - (x + 1 - rs))
       else Some (Some x))"
      using False len(2) by (subst search_region.simps) (simp add: Let_def x_def [symmetric] eb)
    consider (low) "address < loc_start (?L ! x)" | (high) "\<not> address < loc_start (?L ! x)" "region_end (?L ! x) < unat address + unat asize"
      | (hit) "\<not> address < loc_start (?L ! x)" "\<not> region_end (?L ! x) < unat address + unat asize" by blast
    then show ?thesis
    proof cases
      case low
      have "rs \<le> i \<and> i < rs + (x - rs)" if "i < ?n" "covers (?L ! i) address asize" for i
      proof -
        have "\<not> x \<le> i" using m [of x i] that low by (auto simp: covers_def word_le_nat_alt word_less_nat_alt)
        then show ?thesis using less.prems(2) that by auto
      qed
      then show ?thesis using less.IH [of "x - rs" rs] low s x less.prems(1) by simp
    next
      case high
      have "x + 1 \<le> i \<and> i < x + 1 + (rn - (x + 1 - rs))" if "i < ?n" "covers (?L ! i) address asize" for i
      proof -
        have "\<not> i \<le> x" using m [of i x] that high(2) x(1) by (auto simp: covers_def)
        then show ?thesis using less.prems(2) that x by auto
      qed
      then show ?thesis using less.IH [of "rn - (x + 1 - rs)" "x + 1"] high s x less.prems(1) by simp
    next
      case hit
      then have "covers (?L ! x) address asize" by (simp add: covers_def not_less)
      then show ?thesis using s hit x(1) by simp
    qed
  qed
qed

lemma find_region_cases:
  assumes "table_ok c" "access_ok address asize"
  obtains (hit) i where "find_region c address asize = Some (Some i)" "i < num_mmio_regions c" "covers (mmio_locations c ! i) address asize"
  | (miss) "find_region c address asize = Some None" "\<And>i. i < num_mmio_regions c \<Longrightarrow> \<not> covers (mmio_locations c ! i) address asize"
proof -
  obtain r where "find_region c address asize = Some r" "case r of Some i \<Rightarrow> i < num_mmio_regions c \<and> covers (mmio_locations c ! i) address asize
     | None \<Rightarrow> \<forall>i<num_mmio_regions c. \<not> covers (mmio_locations c ! i) address asize"
    using search_region_spec [OF assms, of 0 "num_mmio_regions c"] by (auto simp: find_region_def)
  then show ?thesis using hit miss by (cases r) auto
qed

lemma find_region_hit:
  assumes "table_ok c" "access_ok address asize" "i < num_mmio_regions c" "covers (mmio_locations c ! i) address asize"
  shows "find_region c address asize = Some (Some i)"
  using assms(1,2)
proof (cases rule: find_region_cases)
  case (hit j)
  have fit: "table_fits c" and ord: "in_order (take (num_mmio_regions c) (mmio_locations c))"
    using assms(1) regions_nth(3) [of c] by (simp_all add: table_ok_def)
  have "i = j" by (rule covers_unique [OF ord]) (use assms hit fit in \<open>auto simp: access_ok_def table_fits_def\<close>)
  then show ?thesis using hit(1) by simp
next
  case miss
  then show ?thesis using assms(3,4) by blast
qed

lemma dispatch:
  assumes "table_ok c" "access_ok (acc_address mmio) (acc_size mmio)"
  shows "(l, h) \<in> set (regions c) \<Longrightarrow> covers l (acc_address mmio) (acc_size mmio) \<Longrightarrow>
      mmio_handle_access call c mmio = Some (call (hnd_handler h) (hnd_arg h) (mmio\<lparr>acc_address := acc_address mmio - loc_start l\<rparr>))"
    "\<forall>(l, h)\<in>set (regions c). \<not> covers l (acc_address mmio) (acc_size mmio) \<Longrightarrow> mmio_handle_access call c mmio = Some (mmio, MMIO_UNHANDLED)"
proof -
  have fit: "table_fits c" using assms(1) by (simp add: table_ok_def)
  note rn = regions_nth [OF fit]
  {
    assume "(l, h) \<in> set (regions c)" and cv: "covers l (acc_address mmio) (acc_size mmio)"
    then obtain i where i: "i < num_mmio_regions c" "mmio_locations c ! i = l" "mmio_handlers c ! i = h" using rn by (metis in_set_conv_nth prod.inject)
    have "find_region c (acc_address mmio) (acc_size mmio) = Some (Some i)" by (rule find_region_hit [OF assms]) (use i cv in simp_all)
    then show "mmio_handle_access call c mmio = Some (call (hnd_handler h) (hnd_arg h) (mmio\<lparr>acc_address := acc_address mmio - loc_start l\<rparr>))"
      using i fit by (simp add: mmio_handle_access_def table_fits_def)
  }
  assume n: "\<forall>(l, h)\<in>set (regions c). \<not> covers l (acc_address mmio) (acc_size mmio)"
  from assms show "mmio_handle_access call c mmio = Some (mmio, MMIO_UNHANDLED)"
  proof (cases rule: find_region_cases)
    case (hit i)
    then have "(mmio_locations c ! i, mmio_handlers c ! i) \<in> set (regions c)" using rn by (metis nth_mem)
    then show ?thesis using n hit(3) by blast
  next
    case miss
    then show ?thesis by (simp add: mmio_handle_access_def)
  qed
qed

text \<open>A region that overlaps no other one.\<close>

definition apart :: "mmio_region_location \<Rightarrow> mmio_table \<Rightarrow> bool" where
  "apart l c \<longleftrightarrow> (\<forall>k\<in>fst ` set (regions c). region_end k \<le> unat (loc_start l) \<or> region_end l \<le> unat (loc_start k))"

lemma in_order_insert:
  assumes ord: "in_order ls" and ok: "\<forall>k\<in>set ls. region_ok k" "region_ok l"
    and ap: "\<forall>k\<in>set ls. region_end k \<le> unat (loc_start l) \<or> region_end l \<le> unat (loc_start k)"
  defines "i \<equiv> insert_index ls (loc_start l)"
  shows "in_order (take i ls @ l # drop i ls)"
proof -
  have pos: "unat (loc_start k) < region_end k" if "k \<in> set ls \<or> k = l" for k using ok that by (auto simp: region_ok_def region_end_def)
  have lo: "region_end k \<le> unat (loc_start l)" if "k \<in> set (take i ls)" for k
  proof -
    have "loc_start k \<le> loc_start l" using insert_index_split(1) [of ls "loc_start l"] that by (simp add: i_def)
    then show ?thesis using ap pos [of l] in_set_takeD [OF that] by (force simp: word_le_nat_alt)
  qed
  have hi: "region_end l \<le> unat (loc_start k)" if kd: "k \<in> set (drop i ls)" for k
  proof -
    obtain j' where j': "j' < length (drop i ls)" "drop i ls ! j' = k" using kd by (auto simp: in_set_conv_nth)
    define j where "j = i + j'"
    have j: "i \<le> j" "j < length ls" "k = ls ! j" using j' by (simp_all add: j_def)
    then have "loc_start l < loc_start (ls ! i)" using insert_index_split(2) [of ls "loc_start l"] by (simp add: i_def)
    moreover have "unat (loc_start (ls ! i)) \<le> unat (loc_start k)" using order_mono(1) [OF ord j(1,2)] j(3) by simp
    ultimately have "unat (loc_start l) < unat (loc_start k)" by (simp add: word_less_nat_alt)
    then show ?thesis using ap pos [of k] in_set_dropD [OF kd] by force
  qed
  have "sorted_wrt (\<lambda>k l. region_end k \<le> unat (loc_start l)) (take i ls @ drop i ls)" using ord by (simp add: in_order_def)
  moreover have "region_end k \<le> unat (loc_start k')" if "k \<in> set (take i ls)" "k' \<in> set (drop i ls)" for k k'
    using lo [OF that(1)] hi [OF that(2)] pos [of l] by simp
  ultimately show ?thesis using lo hi unfolding in_order_def by (simp only: sorted_wrt_append sorted_wrt.simps) auto
qed

lemma register_ok:
  assumes ok: "table_ok c" and room: "num_mmio_regions c < max_mmio_regions c"
    and l: "region_ok \<lparr>loc_start = start, loc_size = rsize\<rparr>" "apart \<lparr>loc_start = start, loc_size = rsize\<rparr> c"
  defines "i \<equiv> insert_index (map fst (regions c)) start"
  obtains c' where "mmio_region_register start rsize handler arg c = Some c'" "table_ok c'" "max_mmio_regions c' = max_mmio_regions c"
    "regions c' = take i (regions c) @ (\<lparr>loc_start = start, loc_size = rsize\<rparr>, \<lparr>hnd_handler = handler, hnd_arg = arg\<rparr>) # drop i (regions c)"
proof -
  let ?l = "\<lparr>loc_start = start, loc_size = rsize\<rparr>"
  have fit: "table_fits c" using ok by (simp add: table_ok_def)
  obtain c' where c': "mmio_region_register start rsize handler arg c = Some c'" "table_fits c'" "max_mmio_regions c' = max_mmio_regions c"
    "regions c' = take i (regions c) @ (?l, \<lparr>hnd_handler = handler, hnd_arg = arg\<rparr>) # drop i (regions c)"
    by (rule register_inserts [OF fit room, of start rsize handler arg, folded i_def])
  have "in_order (take i (map fst (regions c)) @ ?l # drop i (map fst (regions c)))"
    using in_order_insert [of "map fst (regions c)" ?l] ok l by (simp add: table_ok_def apart_def i_def)
  then have "in_order (map fst (regions c'))" by (simp add: c'(4) take_map drop_map)
  moreover have "\<forall>k\<in>fst ` set (regions c'). region_ok k"
    using ok l(1) by (auto simp: c'(4) table_ok_def dest: in_set_takeD in_set_dropD)
  ultimately show ?thesis using that [OF c'(1) _ c'(3,4)] c'(2) by (simp add: table_ok_def)
qed

lemma unregister_removes:
  assumes ok: "table_ok c" and i: "i < num_mmio_regions c" "covers (mmio_locations c ! i) start 1" "access_ok start 1"
  shows "num_mmio_regions c < max_mmio_regions c \<Longrightarrow>
      \<exists>c'. mmio_region_unregister start c = Some c' \<and> table_fits c' \<and> max_mmio_regions c' = max_mmio_regions c \<and>
        regions c' = take i (regions c) @ drop (Suc i) (regions c)"
    "num_mmio_regions c = max_mmio_regions c \<Longrightarrow> mmio_region_unregister start c = None"
proof -
  let ?n = "num_mmio_regions c" and ?m = "max_mmio_regions c"
  have fit: "table_fits c" using ok by (simp add: table_ok_def)
  note f = find_region_hit [OF ok i(3,1,2)]
  show "mmio_region_unregister start c = None" if "?n = ?m"
    using f shift_down_outside [OF fit, of i "?n - i"] i(1) that by (simp add: mmio_region_unregister_def)
  assume room: "?n < ?m"
  obtain c1 where c1: "shift_down i (?n - i) c = Some c1" "table_fits c1" "num_mmio_regions c1 = ?n" "max_mmio_regions c1 = ?m"
    "\<forall>j<?m. mmio_locations c1 ! j = mmio_locations c ! (if i \<le> j \<and> j < ?n then j + 1 else j) \<and>
       mmio_handlers c1 ! j = mmio_handlers c ! (if i \<le> j \<and> j < ?n then j + 1 else j)"
    using shift_down_spec [OF fit, of i "?n - i"] i(1) room by auto
  define c' where "c' = c1\<lparr>num_mmio_regions := ?n - 1\<rparr>"
  have f': "table_fits c'" "num_mmio_regions c' = ?n - 1" "max_mmio_regions c' = ?m" using c1(2-4) by (auto simp: c'_def table_fits_def)
  have "regions c' = take i (regions c) @ drop (Suc i) (regions c)"
  proof (rule nth_equalityI)
    show "length (regions c') = length (take i (regions c) @ drop (Suc i) (regions c))"
      using regions_nth(1) [OF fit] regions_nth(1) [OF f'(1)] f'(2) i(1) by simp
    fix j
    assume "j < length (regions c')"
    then have j: "j < ?n - 1" using regions_nth(1) [OF f'(1)] f'(2) by simp
    have "regions c' ! j = (mmio_locations c1 ! j, mmio_handlers c1 ! j)" using regions_nth(2) [OF f'(1)] f'(2) j by (simp add: c'_def)
    also have "\<dots> = regions c ! (if i \<le> j then j + 1 else j)" using c1(5) j room regions_nth(2) [OF fit] by auto
    also have "\<dots> = (take i (regions c) @ drop (Suc i) (regions c)) ! j" using j i(1) regions_nth(1) [OF fit] by (auto simp: nth_append)
    finally show "regions c' ! j = (take i (regions c) @ drop (Suc i) (regions c)) ! j" .
  qed
  moreover have "mmio_region_unregister start c = Some c'" using f c1(1,3) by (simp add: mmio_region_unregister_def c'_def)
  ultimately show "\<exists>c'. mmio_region_unregister start c = Some c' \<and> table_fits c' \<and> max_mmio_regions c' = ?m \<and>
        regions c' = take i (regions c) @ drop (Suc i) (regions c)" using f' by blast
qed

text \<open>One more region changes only the accesses inside it.\<close>

lemma dispatch_insert:
  assumes ok: "table_ok c" "table_ok c'" and set': "set (regions c') = insert (l, h) (set (regions c))"
    and a: "access_ok (acc_address mmio) (acc_size mmio)"
  shows "mmio_handle_access call c' mmio = (if covers l (acc_address mmio) (acc_size mmio)
      then Some (call (hnd_handler h) (hnd_arg h) (mmio\<lparr>acc_address := acc_address mmio - loc_start l\<rparr>)) else mmio_handle_access call c mmio)"
proof (cases "covers l (acc_address mmio) (acc_size mmio)")
  case True
  then show ?thesis using dispatch(1) [OF ok(2) a, of l h call] set' by simp
next
  case nl: False
  show ?thesis
  proof (cases "\<exists>(k, g)\<in>set (regions c). covers k (acc_address mmio) (acc_size mmio)")
    case True
    then obtain k g where kg: "(k, g) \<in> set (regions c)" "covers k (acc_address mmio) (acc_size mmio)" by blast
    then show ?thesis using dispatch(1) [OF ok(1) a kg, of call] dispatch(1) [OF ok(2) a, of k g call] set' nl by simp
  next
    case False
    then have "\<forall>(k, g)\<in>set (regions c). \<not> covers k (acc_address mmio) (acc_size mmio)"
      "\<forall>(k, g)\<in>set (regions c'). \<not> covers k (acc_address mmio) (acc_size mmio)" using set' nl by auto
    then show ?thesis using nl dispatch(2) [OF ok(1) a, of call] dispatch(2) [OF ok(2) a, of call] by simp
  qed
qed

text \<open>The table of a new cell takes its pages from the pool and gives them back.\<close>

lemma mmio_cell_init_exit:
  assumes "pool_ok p"
  obtains p' a err c where "mmio_cell_init us sp p = Some ((p', a), err, c)" "err = 0 \<longleftrightarrow> a \<noteq> 0" "pool_ok p'"
    "a \<noteq> 0 \<Longrightarrow> table_ok c" "fst (mmio_cell_exit p' a c m) = p"
proof -
  let ?m = "sum_list us + length (filter JAILHOUSE_MEMORY_IS_SUBPAGE sp)"
  let ?n = "of_nat (PAGES (?m * (16 + 16))) :: u32"
  obtain p' a where a: "page_alloc p ?n = Some (p', a)" "pool_ok p'" "a = 0 \<longrightarrow> p' = p" using hv_pool.alloc_returns [OF assms, of ?n] by blast
  have r: "fst (page_free p' a ?n m) = p" using a hv_pool.release_alloc [OF assms a(1)] by (cases "a = 0") (simp_all add: hv_pool.release_null)
  define c where "c = (if a = 0 then \<lparr>mmio_locations = [], mmio_handlers = [], num_mmio_regions = 0, max_mmio_regions = ?m\<rparr>
    else \<lparr>mmio_locations = replicate ?m \<lparr>loc_start = 0, loc_size = 0\<rparr>,
      mmio_handlers = replicate ?m \<lparr>hnd_handler = 0, hnd_arg = 0\<rparr>, num_mmio_regions = 0, max_mmio_regions = ?m\<rparr>)"
  have "max_mmio_regions c = ?m" by (simp add: c_def)
  then have "fst (mmio_cell_exit p' a c m) = p" using r by (simp add: mmio_cell_exit_def)
  moreover have "mmio_cell_init us sp p = Some ((p', a), if a = 0 then - 12 else 0, c)" using a(1) by (simp add: mmio_cell_init_def Let_def c_def)
  moreover have "table_ok c" if "a \<noteq> 0" using that by (simp add: c_def table_ok_def table_fits_def regions_def in_order_def)
  ultimately show ?thesis using that a(2) by simp
qed

subsection \<open>Page offsets\<close>

lemma not_PAGE_MASK: "not PAGE_MASK = mask 12"
  by (simp add: PAGE_MASK_def PAGE_SIZE_def mask_eq_exp_minus_1)

lemma page_offset: "and x (not PAGE_MASK) = take_bit 12 x"
  by (simp add: not_PAGE_MASK take_bit_eq_mask)

lemma page_base: "x - and x PAGE_MASK = take_bit 12 x"
proof -
  have "PAGE_MASK = not (mask 12)" by (metis not_PAGE_MASK bit.double_compl)
  then have "and x PAGE_MASK = push_bit 12 (drop_bit 12 x)" by (auto simp: bit_eq_iff bit_simps)
  moreover have "push_bit 12 (drop_bit 12 x) + take_bit 12 x = x" by (rule bits_ident)
  ultimately show ?thesis by (metis add_diff_cancel_left')
qed

lemma mod_sum_below: "x < k \<Longrightarrow> y < k \<Longrightarrow> (x + y) mod k = (if k \<le> x + y then x + y - k else x + y)" for k :: nat
  by (auto simp: le_mod_geq)

lemma page_offset_sum:
  fixes p a :: u64
  shows "take_bit 12 p + take_bit 12 a =
    take_bit 12 (p + a) + (if 4096 \<le> unat (take_bit 12 p) + unat (take_bit 12 a) then 4096 else 0)"
proof -
  have tb: "unat (take_bit 12 x) = unat x mod 4096" for x :: u64
    by (simp add: take_bit_eq_mod unat_mod)
  have m: "unat x mod 4096 < 4096" for x :: u64 by simp
  let ?p = "unat p mod 4096" and ?a = "unat a mod 4096"
  have "unat (p + a) mod 4096 = (unat p + unat a) mod 4096"
    by (simp add: unat_word_ariths mod_mod_cancel)
  also have "\<dots> = (?p + ?a) mod 4096" by (simp add: mod_add_eq)
  also have "\<dots> = (if 4096 \<le> ?p + ?a then ?p + ?a - 4096 else ?p + ?a)"
    by (rule mod_sum_below [OF m m])
  finally have s: "unat (p + a) mod 4096 = (if 4096 \<le> ?p + ?a then ?p + ?a - 4096 else ?p + ?a)" .
  show ?thesis
    using s m [of p] m [of a] by (simp add: word_unat_eq_iff tb unat_plus_if_size word_size)
qed

subsection \<open>Properties\<close>

text \<open>
  C19: the binary search is equivalent to the linear one: on a consistent table and for an access that
  does not wrap, \<open>find_region\<close> reads only entries of the table, ends, and returns the first region that
  covers the whole access, if there is one.
\<close>

theorem mmio_find_region_linear:
  assumes ok: "table_ok c" and acc: "access_ok address asize"
  shows "find_region c address asize = Some (find (\<lambda>i. covers (mmio_locations c ! i) address asize) [0..<num_mmio_regions c])"
  using assms
proof (cases rule: find_region_cases)
  case (hit i)
  have "find (\<lambda>i. covers (mmio_locations c ! i) address asize) [0..<num_mmio_regions c] = Some i"
  proof -
    obtain j where j: "find (\<lambda>i. covers (mmio_locations c ! i) address asize) [0..<num_mmio_regions c] = Some j"
      using hit(2,3) by (cases "find (\<lambda>i. covers (mmio_locations c ! i) address asize) [0..<num_mmio_regions c]") (auto simp: find_None_iff)
    then have "covers (mmio_locations c ! j) address asize" "j < num_mmio_regions c" by (auto simp: find_Some_iff)
    then have "find_region c address asize = Some (Some j)" by (intro find_region_hit [OF ok acc])
    then show ?thesis using j hit(1) by simp
  qed
  then show ?thesis using hit(1) by simp
next
  case miss
  then have "find (\<lambda>i. covers (mmio_locations c ! i) address asize) [0..<num_mmio_regions c] = None" by (auto simp: find_None_iff)
  then show ?thesis using miss(1) by simp
qed

definition demo_table :: mmio_table where
  "demo_table = \<lparr>mmio_locations = [\<lparr>loc_start = 0x1000, loc_size = 0x100\<rparr>, \<lparr>loc_start = 0x3000, loc_size = 0x10\<rparr>, \<lparr>loc_start = 0, loc_size = 0\<rparr>],
     mmio_handlers = [\<lparr>hnd_handler = 1, hnd_arg = 10\<rparr>, \<lparr>hnd_handler = 2, hnd_arg = 20\<rparr>, \<lparr>hnd_handler = 0, hnd_arg = 0\<rparr>],
     num_mmio_regions = 2, max_mmio_regions = 3\<rparr>"

lemma demo_table_ok: "table_ok demo_table"
  by (simp add: table_ok_def table_fits_def regions_def region_ok_def region_end_def in_order_def demo_table_def)

theorem mmio_find_region_linear_witness:
  "find_region demo_table 0x1004 4 = Some (Some 0)"
proof -
  have a: "access_ok 0x1004 4" by (simp add: access_ok_def)
  have u: "[0..<2] = [0, Suc 0]" by (simp add: numeral_2_eq_2)
  show ?thesis using mmio_find_region_linear [OF demo_table_ok a]
    by (simp add: demo_table_def covers_def region_end_def u)
qed

text \<open>
  C20: registering a region that overlaps no other one keeps the table consistent and makes exactly the
  accesses inside the region go to its handler, with its argument and the address relative to its start,
  while every other access is dispatched as before. Unregistering it gives the regions back as they
  were, unless the table is full: then the removal reads one entry behind both arrays. A registration
  in a full table is dropped.
\<close>

theorem mmio_register_dispatch:
  fixes c :: mmio_table and call :: "nat \<Rightarrow> nat \<Rightarrow> mmio_access \<Rightarrow> mmio_access \<times> mmio_result"
  assumes ok: "table_ok c" and l: "region_ok \<lparr>loc_start = start, loc_size = rsize\<rparr>" "apart \<lparr>loc_start = start, loc_size = rsize\<rparr> c"
  shows "(num_mmio_regions c = max_mmio_regions c \<longrightarrow> mmio_region_register start rsize handler arg c = Some c) \<and>
    (num_mmio_regions c < max_mmio_regions c \<longrightarrow> (\<exists>c'. mmio_region_register start rsize handler arg c = Some c' \<and> table_ok c' \<and>
      (\<forall>mmio. access_ok (acc_address mmio) (acc_size mmio) \<longrightarrow>
        mmio_handle_access call c' mmio =
          (if covers \<lparr>loc_start = start, loc_size = rsize\<rparr> (acc_address mmio) (acc_size mmio)
           then Some (call handler arg (mmio\<lparr>acc_address := acc_address mmio - start\<rparr>))
           else mmio_handle_access call c mmio)) \<and>
      (if num_mmio_regions c + 1 < max_mmio_regions c
       then \<exists>c''. mmio_region_unregister start c' = Some c'' \<and> regions c'' = regions c
       else mmio_region_unregister start c' = None)))"
proof (intro conjI impI)
  show "mmio_region_register start rsize handler arg c = Some c" if "num_mmio_regions c = max_mmio_regions c"
    using that by (simp add: mmio_region_register_def)
  assume room: "num_mmio_regions c < max_mmio_regions c"
  let ?l = "\<lparr>loc_start = start, loc_size = rsize\<rparr>" and ?h = "\<lparr>hnd_handler = handler, hnd_arg = arg\<rparr>"
  define i where "i = insert_index (map fst (regions c)) start"
  obtain c' where c': "mmio_region_register start rsize handler arg c = Some c'" "table_ok c'" "max_mmio_regions c' = max_mmio_regions c"
    "regions c' = take i (regions c) @ (?l, ?h) # drop i (regions c)"
    by (rule register_ok [OF ok room l, of handler arg, folded i_def])
  have set': "set (regions c') = insert (?l, ?h) (set (regions c))"
    unfolding c'(4) by (metis append_take_drop_id list.simps(15) set_append Un_insert_right)
  have fit: "table_fits c" "table_fits c'" using ok c'(2) by (simp_all add: table_ok_def)
  have n': "num_mmio_regions c' = num_mmio_regions c + 1" "i \<le> num_mmio_regions c"
    using arg_cong [OF c'(4), of length] regions_nth(1) [OF fit(1)] regions_nth(1) [OF fit(2)]
      insert_index_le [of "map fst (regions c)" start] by (simp_all add: i_def)
  have ri: "regions c' ! i = (?l, ?h)" using n'(2) regions_nth(1) [OF fit(1)] by (simp add: c'(4) nth_append)
  then have li: "mmio_locations c' ! i = ?l" using regions_nth(2) [OF fit(2), of i] n' by simp
  have as: "access_ok start 1" "covers ?l start 1"
    using l(1) by (simp_all add: access_ok_def covers_def region_ok_def region_end_def)
  have un: "if num_mmio_regions c + 1 < max_mmio_regions c
       then \<exists>c''. mmio_region_unregister start c' = Some c'' \<and> regions c'' = regions c else mmio_region_unregister start c' = None"
  proof (cases "num_mmio_regions c + 1 < max_mmio_regions c")
    case True
    have "take i (regions c') @ drop (Suc i) (regions c') = regions c" using n'(2) regions_nth(1) [OF fit(1)] by (simp add: c'(4))
    then show ?thesis using unregister_removes(1) [OF c'(2), of i start] n' li as True c'(3) by auto
  next
    case False
    then show ?thesis using unregister_removes(2) [OF c'(2), of i start] n' li as room c'(3) by simp
  qed
  show "\<exists>c'. mmio_region_register start rsize handler arg c = Some c' \<and> table_ok c' \<and>
      (\<forall>mmio. access_ok (acc_address mmio) (acc_size mmio) \<longrightarrow>
        mmio_handle_access call c' mmio = (if covers ?l (acc_address mmio) (acc_size mmio)
           then Some (call handler arg (mmio\<lparr>acc_address := acc_address mmio - start\<rparr>)) else mmio_handle_access call c mmio)) \<and>
      (if num_mmio_regions c + 1 < max_mmio_regions c
       then \<exists>c''. mmio_region_unregister start c' = Some c'' \<and> regions c'' = regions c else mmio_region_unregister start c' = None)"
    by (intro exI [of _ c'] conjI c'(1,2) allI impI un) (simp add: dispatch_insert [OF ok c'(2) set'])
qed

theorem mmio_register_dispatch_witness:
  "\<exists>c'. mmio_region_register 0x2000 0x20 5 50 demo_table = Some c' \<and> table_ok c' \<and> mmio_region_unregister 0x2000 c' = None"
proof -
  have h: "region_ok \<lparr>loc_start = 0x2000, loc_size = 0x20\<rparr>" "apart \<lparr>loc_start = 0x2000, loc_size = 0x20\<rparr> demo_table"
    by (simp_all add: region_ok_def apart_def region_end_def regions_def demo_table_def)
  show ?thesis using mmio_register_dispatch [OF demo_table_ok h, of 5 50 "\<lambda>_ _ m. (m, MMIO_HANDLED)"] by (auto simp: demo_table_def)
qed

text \<open>
  A subpage access is rejected when the region lacks the permission, the width or, for an
  unaligned one, the flag. Otherwise one page is mapped, the one of the physical address, and the
  access is done at the offset of that address in the page, except when the offsets of the region
  start and of the access add up to a page or more: then it is done one page too high, outside the
  page just mapped.
\<close>

theorem mmio_subpage_access:
  fixes mem :: jailhouse_memory and mmio :: mmio_access and page_virt :: u64
  defines "phys \<equiv> phys_start mem + acc_address mmio" and "n \<equiv> unat (acc_size mmio)"
  defines "addr \<equiv> page_virt + and phys (not PAGE_MASK) +
    (if unat (and (phys_start mem) (not PAGE_MASK)) + unat (and (acc_address mmio) (not PAGE_MASK)) < PAGE_SIZE then 0 else of_nat PAGE_SIZE)"
  shows "mmio_handle_subpage map_page rd wr page_virt mem mmio d =
    (if subpage_denied mem mmio \<or> map_page (and phys PAGE_MASK) page_virt \<noteq> 0 then ((mmio, d), MMIO_ERROR)
     else ((if n \<notin> {1, 2, 4, 8} then (mmio, d)
            else if acc_is_write mmio then (mmio, wr n addr (take_bit (8 * n) (acc_value mmio)) d)
            else (mmio\<lparr>acc_value := take_bit (8 * n) (rd n addr d)\<rparr>, d)), MMIO_HANDLED))"
proof -
  let ?p = "phys_start mem" and ?a = "acc_address mmio"
  have "page_virt + and ?p (not PAGE_MASK) - and ?a PAGE_MASK + ?a = page_virt + (and ?p (not PAGE_MASK) + (?a - and ?a PAGE_MASK))" by simp
  also have "\<dots> = page_virt + (take_bit 12 ?p + take_bit 12 ?a)" by (simp only: page_offset page_base)
  also have "\<dots> = addr" unfolding page_offset_sum addr_def phys_def page_offset by (simp add: PAGE_SIZE_def not_less)
  finally have "page_virt + and ?p (not PAGE_MASK) - and ?a PAGE_MASK + ?a = addr" .
  then show ?thesis by (simp add: mmio_handle_subpage_def mmio_perform_access_def Let_def phys_def n_def)
qed

theorem mmio_subpage_access_example:
  "mmio_handle_subpage (\<lambda>_ _. 0) (\<lambda>n a d. a) (\<lambda>n a v d. d) 0xffff0000
     \<lparr>phys_start = 0x80000ff0, virt_start = 0x10, mem_size = 0x20, mem_flags = 0x40001\<rparr>
     \<lparr>acc_address = 0x10, acc_size = 4, acc_is_write = False, acc_value = 0\<rparr> () =
   ((\<lparr>acc_address = 0x10, acc_size = 4, acc_is_write = False, acc_value = 0xffff1000\<rparr>, ()), MMIO_HANDLED)"
  using mmio_subpage_access [of "\<lambda>_ _. 0" "\<lambda>n a d. a" "\<lambda>n a v d. d" "0xffff0000"
     "\<lparr>phys_start = 0x80000ff0, virt_start = 0x10, mem_size = 0x20, mem_flags = 0x40001\<rparr>"
     "\<lparr>acc_address = 0x10, acc_size = 4, acc_is_write = False, acc_value = 0\<rparr>" "()"]
  by (simp add: subpage_denied_def JAILHOUSE_MEM_READ_def JAILHOUSE_MEM_IO_WIDTH_SHIFT_def PAGE_MASK_def PAGE_SIZE_def push_bit_eq_mult)

end
