(* ===== verification/GicDist.thy ===== *)
theory GicDist
  imports IrqPending Mmio
begin

text \<open>
  The distributor of the interrupt controller as cells see it: \<^verbatim>\<open>jailhouse-master_dprem/hypervisor/arch/arm-common/irqchip.c\<close>
  (\<open>gic_handle_dist_access\<close>, \<open>restrict_bitmask_access\<close>, the interrupts of cells, \<open>irqchip_config_commit\<close>) and the distributor part of
  \<^verbatim>\<open>gic-v2.c\<close> (targets of interrupts, identification registers). A cell may only see and change the interrupts of its bitmap.

  The distributor is a device: its state and what a read or a write of a register does are arguments, and the two groups of facts
  about it that the proofs use, \<open>gicd_laws\<close> and \<open>target_laws\<close>, are what the GICv2 architecture says of shared interrupts. Accesses run under the lock of the distributor. \<open>None\<close> is an
  access outside an array.
\<close>

unbundle bit_operations_syntax

subsection \<open>Registers and interrupts\<close>

definition SGI_EVENT :: nat where "SGI_EVENT = 1"

definition GICD_CTLR :: nat where "GICD_CTLR = 0"
definition GICD_TYPER :: nat where "GICD_TYPER = 4"
definition GICD_IIDR :: nat where "GICD_IIDR = 8"
definition GICD_IGROUPR :: nat where "GICD_IGROUPR = 0x80"
definition GICD_ICPENDR :: nat where "GICD_ICPENDR = 0x280"
definition GICD_ISACTIVER :: nat where "GICD_ISACTIVER = 0x300"
definition GICD_IPRIORITYR :: nat where "GICD_IPRIORITYR = 0x400"
definition GICD_ITARGETSR :: nat where "GICD_ITARGETSR = 0x800"
definition GICD_ICFGR :: nat where "GICD_ICFGR = 0xc00"
definition GICD_IROUTER :: nat where "GICD_IROUTER = 0x6000"
definition GICDv2_CIDR0 :: nat where "GICDv2_CIDR0 = 0xff0"
definition GICDv2_PIDR0 :: nat where "GICDv2_PIDR0 = 0xfe0"
definition GICDv2_PIDR4 :: nat where "GICDv2_PIDR4 = 0xfd0"

lemmas gicd_offsets = GICD_CTLR_def GICD_TYPER_def GICD_IIDR_def GICD_IGROUPR_def GICD_ISENABLER_def GICD_ICENABLER_def GICD_ISPENDR_def
  GICD_ICPENDR_def GICD_ISACTIVER_def GICD_ICACTIVER_def GICD_IPRIORITYR_def GICD_ITARGETSR_def GICD_ICFGR_def GICD_SGIR_def GICD_IROUTER_def
  GICDv2_CIDR0_def GICDv2_PIDR0_def GICDv2_PIDR4_def

definition is_spi :: "nat \<Rightarrow> bool" where
  "is_spi irqn \<longleftrightarrow> irqn > 31 \<and> irqn < 1020"

definition REG_RANGE :: "nat \<Rightarrow> nat \<Rightarrow> nat \<Rightarrow> nat \<Rightarrow> bool" where
  "REG_RANGE base n sz reg \<longleftrightarrow> base \<le> reg \<and> reg \<le> base + (n - 1) * sz"

text \<open>The distributor: where its registers are mapped, and how a read or a write of some bytes acts on it.\<close>

record 'd gicd =
  gicd_base :: u64
  gicd_rd :: "nat \<Rightarrow> u64 \<Rightarrow> 'd \<Rightarrow> u64"
  gicd_wr :: "nat \<Rightarrow> u64 \<Rightarrow> u64 \<Rightarrow> 'd \<Rightarrow> 'd"

text \<open>What the distributor code reads of a cell: its interrupts, its CPUs, and whether \<open>per_cpu(cpu)->cell\<close> is the cell.\<close>

record gic_cell =
  irq_bitmap :: "u32 list"
  gic_cpu_set :: cpu_set
  cpu_in_cell :: "nat \<Rightarrow> bool"

definition irqchip_irq_in_cell :: "gic_cell \<Rightarrow> nat \<Rightarrow> bool" where
  "irqchip_irq_in_cell cell irq_id \<longleftrightarrow>
     (if irq_id \<ge> length (irq_bitmap cell) * 32 then False
      else irq_bitmap cell ! (irq_id div 32) AND push_bit (irq_id mod 32) 1 \<noteq> 0)"

abbreviation gicd_access :: "'d gicd \<Rightarrow> mmio_access \<Rightarrow> 'd \<Rightarrow> mmio_access \<times> 'd" where
  "gicd_access g \<equiv> mmio_perform_access (gicd_rd g) (gicd_wr g) (gicd_base g)"

abbreviation gicd_read32 :: "'d gicd \<Rightarrow> nat \<Rightarrow> 'd \<Rightarrow> u32" where
  "gicd_read32 g off d \<equiv> ucast (gicd_rd g 4 (gicd_base g + of_nat off) d)"

abbreviation gicd_write32 :: "'d gicd \<Rightarrow> nat \<Rightarrow> u32 \<Rightarrow> 'd \<Rightarrow> 'd" where
  "gicd_write32 g off v \<equiv> gicd_wr g 4 (gicd_base g + of_nat off) (ucast v)"

subsection \<open>Trapped accesses of a cell\<close>

definition access_mask :: "gic_cell \<Rightarrow> nat \<Rightarrow> nat \<Rightarrow> nat \<Rightarrow> u64" where
  "access_mask cell first_irq bits_per_irq irqs_per_reg =
     fold (\<lambda>irq m. if irqchip_irq_in_cell cell (first_irq + irq) then m OR push_bit (irq * bits_per_irq) (push_bit bits_per_irq 1 - 1) else m)
       [0..<irqs_per_reg] 0"

definition restrict_bitmask_access ::
  "'d gicd \<Rightarrow> gic_cell \<Rightarrow> nat \<Rightarrow> nat \<Rightarrow> bool \<Rightarrow> mmio_access \<Rightarrow> 'd \<Rightarrow> (mmio_access \<times> mmio_result) \<times> 'd" where
  "restrict_bitmask_access g cell reg_index bits_per_irq is_poke mmio d =
     (let irqs_per_reg = drop_bit (ffsl (of_nat bits_per_irq)) 32;
          first_irq = reg_index * irqs_per_reg;
          m = access_mask cell first_irq bits_per_irq irqs_per_reg in
      if \<not> acc_is_write mmio then
        let (mmio1, d1) = gicd_access g mmio d in ((mmio1\<lparr>acc_value := acc_value mmio1 AND m\<rparr>, MMIO_HANDLED), d1)
      else if \<not> is_poke then
        let access_val = acc_value mmio;
            (mmio1, d1) = gicd_access g (mmio\<lparr>acc_is_write := False\<rparr>) d;
            (mmio2, d2) = gicd_access g (mmio1\<lparr>acc_is_write := True, acc_value := acc_value mmio1 AND NOT m OR access_val AND m\<rparr>) d1 in
        ((mmio2, MMIO_HANDLED), d2)
      else
        let (mmio1, d1) = gicd_access g (mmio\<lparr>acc_value := acc_value mmio AND m\<rparr>) d in ((mmio1, MMIO_HANDLED), d1))"

definition gicv2_targets_in_cell :: "u8 list \<Rightarrow> gic_cell \<Rightarrow> u8 \<Rightarrow> bool" where
  "gicv2_targets_in_cell target_map cell ts \<longleftrightarrow>
     list_all (\<lambda>cpu. \<not> (ts AND target_map ! cpu \<noteq> 0 \<and> \<not> cpu_in_cell cell cpu)) [0..<length target_map]"

text \<open>The loop over the four interrupts of a word: the mask of the access, \<open>None\<close> when a target lies outside the cell.\<close>

fun target_loop :: "u8 list \<Rightarrow> gic_cell \<Rightarrow> nat \<Rightarrow> mmio_access \<Rightarrow> nat list \<Rightarrow> u32 \<Rightarrow> u32 option" where
  "target_loop target_map cell irq_base mmio [] m = Some m"
| "target_loop target_map cell irq_base mmio (n # ns) m =
     (if \<not> irqchip_irq_in_cell cell (irq_base + n) then target_loop target_map cell irq_base mmio ns m
      else
        let m1 = m OR push_bit (8 * n) 0xff in
        if \<not> acc_is_write mmio then target_loop target_map cell irq_base mmio ns m1
        else if \<not> gicv2_targets_in_cell target_map cell (ucast (drop_bit (8 * n) (acc_value mmio))) then None
        else target_loop target_map cell irq_base mmio ns m1)"

definition gicv2_handle_irq_target ::
  "'d gicd \<Rightarrow> u8 list \<Rightarrow> gic_cell \<Rightarrow> nat \<Rightarrow> mmio_access \<Rightarrow> 'd \<Rightarrow> (mmio_access \<times> mmio_result) \<times> 'd" where
  "gicv2_handle_irq_target g target_map cell irq mmio d =
     (let irq_base = irq div 4 * 4 in
      if \<not> is_spi irq then let (mmio1, d1) = gicd_access g mmio d in ((mmio1, MMIO_HANDLED), d1)
      else
        let mmio1 = mmio\<lparr>acc_address := acc_address mmio AND NOT 3, acc_value := push_bit (8 * (irq mod 4)) (acc_value mmio), acc_size := 4\<rparr> in
        case target_loop target_map cell irq_base mmio1 [0..<4] 0 of
          None \<Rightarrow> ((mmio1, MMIO_ERROR), d)
        | Some m \<Rightarrow>
            if acc_is_write mmio then
              let itargetsr = gicd_read32 g (GICD_ITARGETSR + irq_base) d;
                  (mmio2, d2) = gicd_access g (mmio1\<lparr>acc_value := acc_value mmio1 AND ucast m OR ucast (itargetsr AND NOT m)\<rparr>) d in
              ((mmio2, MMIO_HANDLED), d2)
            else
              let (mmio2, d2) = gicd_access g mmio1 d in ((mmio2\<lparr>acc_value := acc_value mmio2 AND ucast m\<rparr>, MMIO_HANDLED), d2))"

text \<open>The second component of the state is that of the CPU interfaces, which software-generated interrupts change.\<close>

definition gicv2_handle_dist_access ::
  "'d gicd \<Rightarrow> nat \<Rightarrow> gic_cell \<Rightarrow> mmio_access \<Rightarrow> 'd \<times> irq_sys \<Rightarrow> ((mmio_access \<times> mmio_result) \<times> 'd \<times> irq_sys) option" where
  "gicv2_handle_dist_access g me cell mmio s =
     (let v = acc_value mmio; reg = unat (acc_address mmio) in
      if reg = GICD_SGIR then
        if \<not> acc_is_write mmio then Some ((mmio, MMIO_HANDLED), s)
        else gic_handle_sgir_write me (gic_cpu_set cell)
          \<lparr>routing_mode = unat (drop_bit 24 v AND 3), cluster_id = 0, targets = ucast (drop_bit 16 v), sgi_id = ucast (v AND 0xf)\<rparr> (snd s) \<bind>
          (\<lambda>y. Some ((mmio, MMIO_HANDLED), fst s, y))
      else if reg \<in> {GICD_CTLR, GICD_TYPER, GICD_IIDR} \<or> REG_RANGE GICDv2_PIDR0 4 4 reg \<or> REG_RANGE GICDv2_PIDR4 4 4 reg \<or>
          REG_RANGE GICDv2_CIDR0 4 4 reg then
        if \<not> acc_is_write mmio then let (mmio1, d1) = gicd_access g mmio (fst s) in Some ((mmio1, MMIO_HANDLED), d1, snd s)
        else Some ((mmio, MMIO_HANDLED), s)
      else Some ((mmio, MMIO_HANDLED), s))"

definition gicv2_handle_irq_route :: "mmio_access \<Rightarrow> nat \<Rightarrow> mmio_access \<times> mmio_result" where
  "gicv2_handle_irq_route mmio irq = (mmio, MMIO_HANDLED)"

definition gic_handle_dist_access ::
  "'d gicd \<Rightarrow> nat \<Rightarrow> gic_cell \<Rightarrow> mmio_access \<Rightarrow> 'd \<times> irq_sys \<Rightarrow> ((mmio_access \<times> mmio_result) \<times> 'd \<times> irq_sys) option" where
  "gic_handle_dist_access g me cell mmio s =
     (let reg = unat (acc_address mmio); y = snd s;
          ret = (\<lambda>(r, d). Some (r, d, y)) in
      if REG_RANGE GICD_IROUTER 1024 8 reg then Some (gicv2_handle_irq_route mmio ((reg - GICD_IROUTER) div 8), s)
      else if REG_RANGE GICD_ITARGETSR 1024 1 reg then
        ret (gicv2_handle_irq_target g (gicv2_target_cpu_map y) cell (reg - GICD_ITARGETSR) mmio (fst s))
      else if REG_RANGE GICD_ICENABLER 32 4 reg \<or> REG_RANGE GICD_ISENABLER 32 4 reg \<or> REG_RANGE GICD_ICPENDR 32 4 reg \<or>
          REG_RANGE GICD_ISPENDR 32 4 reg \<or> REG_RANGE GICD_ICACTIVER 32 4 reg \<or> REG_RANGE GICD_ISACTIVER 32 4 reg then
        ret (restrict_bitmask_access g cell (reg mod 0x80 div 4) 1 True mmio (fst s))
      else if REG_RANGE GICD_IGROUPR 32 4 reg then ret (restrict_bitmask_access g cell (reg mod 0x80 div 4) 1 False mmio (fst s))
      else if REG_RANGE GICD_ICFGR 64 4 reg then ret (restrict_bitmask_access g cell (reg mod 0x100 div 4) 2 False mmio (fst s))
      else if REG_RANGE GICD_IPRIORITYR 255 4 reg then ret (restrict_bitmask_access g cell (reg mod 0x400 div 4) 8 False mmio (fst s))
      else gicv2_handle_dist_access g me cell mmio s)"

subsection \<open>Interrupts of cells\<close>

record jailhouse_irqchip =
  chip_address :: u64
  chip_id :: u32
  pin_base :: u32
  pin_bitmap :: "u32 list"

text \<open>The loops over the words of a pin bitmap; \<open>f\<close> combines the word of the cell with the word of the configuration.\<close>

fun pin_words :: "(u32 \<Rightarrow> u32 \<Rightarrow> u32) \<Rightarrow> nat \<Rightarrow> u32 list \<Rightarrow> u32 list \<Rightarrow> u32 list option" where
  "pin_words f i [] bm = Some bm"
| "pin_words f i (w # ws) bm = arr_get bm i \<bind> (\<lambda>v. arr_set bm i (f v w) \<bind> pin_words f (Suc i) ws)"

text \<open>\<open>for_each_irqchip\<close> over the chips at the address of the distributor.\<close>

fun each_irqchip :: "(u32 \<Rightarrow> u32 \<Rightarrow> u32) \<Rightarrow> u64 \<Rightarrow> jailhouse_irqchip list \<Rightarrow> u32 list \<Rightarrow> u32 list option" where
  "each_irqchip f gicd_addr [] bm = Some bm"
| "each_irqchip f gicd_addr (chip # chips) bm =
     (if chip_address chip \<noteq> gicd_addr then each_irqchip f gicd_addr chips bm
      else pin_words f (unat (pin_base chip) div 32) (pin_bitmap chip) bm \<bind> each_irqchip f gicd_addr chips)"

text \<open>The first loop of \<open>irqchip_cell_init\<close> stops at an invalid chip; what it copied stays.\<close>

fun copy_pins :: "u64 \<Rightarrow> jailhouse_irqchip list \<Rightarrow> u32 list \<Rightarrow> (u32 list \<times> int) option" where
  "copy_pins gicd_addr [] bm = Some (bm, 0)"
| "copy_pins gicd_addr (chip # chips) bm =
     (if chip_address chip \<noteq> gicd_addr then copy_pins gicd_addr chips bm
      else if unat (pin_base chip) mod 32 \<noteq> 0 \<or> unat (pin_base chip) + length (pin_bitmap chip) * 32 > length bm * 32 then Some (bm, - 22)
      else pin_words (\<lambda>_ w. w) (unat (pin_base chip) div 32) (pin_bitmap chip) bm \<bind> copy_pins gicd_addr chips)"

text \<open>
  \<open>mnt_irq\<close> is the maintenance interrupt, \<open>chip_init\<close> the result of the mapping of the virtual CPU interface, \<open>handler\<close> the number of
  \<open>gic_handle_dist_access\<close>. The bitmap \<open>bm\<close> is that of the cell and \<open>root\<close> that of the root cell; for the root cell itself \<open>is_root\<close> holds.
\<close>

definition irqchip_cell_init ::
  "u64 \<Rightarrow> nat \<Rightarrow> int \<Rightarrow> nat \<Rightarrow> bool \<Rightarrow> jailhouse_irqchip list \<Rightarrow> u32 list \<Rightarrow> u32 list \<Rightarrow> mmio_table \<Rightarrow> ((u32 list \<times> u32 list \<times> mmio_table) \<times> int) option" where
  "irqchip_cell_init gicd_addr mnt_irq chip_init handler is_root chips bm root mmio =
     copy_pins gicd_addr chips bm \<bind> (\<lambda>(bm1, err).
     if err \<noteq> 0 then Some ((bm1, root, mmio), err)
     else arr_set bm1 0 (NOT (push_bit SGI_INJECT 1 OR push_bit SGI_EVENT 1 OR push_bit mnt_irq 1)) \<bind> (\<lambda>bm2.
     if chip_init \<noteq> 0 then Some ((bm2, root, mmio), chip_init)
     else mmio_region_register gicd_addr 0x1000 handler 0 mmio \<bind> (\<lambda>mmio1.
     if is_root then Some ((bm2, root, mmio1), 0)
     else each_irqchip (\<lambda>v w. v AND NOT w) gicd_addr chips root \<bind> (\<lambda>root1. Some ((bm2, root1, mmio1), 0)))))"

definition irqchip_cell_reset :: "'d gicd \<Rightarrow> u32 list \<Rightarrow> 'd \<Rightarrow> 'd" where
  "irqchip_cell_reset g bm d =
     fold (\<lambda>n d. gicd_write32 g (GICD_ICACTIVER + n * 4) (bm ! n) (gicd_write32 g (GICD_ICENABLER + n * 4) (bm ! n) d)) [1..<length bm] d"

text \<open>\<open>gicv2_cell_exit\<close>, which comes last and unmaps the virtual CPU interface, is an operation of the address space of the cell.\<close>

definition irqchip_cell_exit ::
  "'d gicd \<Rightarrow> bool \<Rightarrow> u64 \<Rightarrow> jailhouse_irqchip list \<Rightarrow> jailhouse_irqchip list \<Rightarrow> u32 list \<Rightarrow> u32 list \<times> 'd \<Rightarrow> (u32 list \<times> 'd) option" where
  "irqchip_cell_exit g irqchip_is_init gicd_addr chips root_chips bm s =
     (if \<not> irqchip_is_init then Some s
      else
        let d1 = irqchip_cell_reset g bm (snd s) in
        each_irqchip (\<lambda>v w. v OR w) gicd_addr chips (fst s) \<bind> (\<lambda>root1.
        each_irqchip (\<lambda>v w. v AND w) gicd_addr root_chips root1 \<bind> (\<lambda>root2. Some (root2, d1))))"

definition gicv2_adjust_irq_target :: "'d gicd \<Rightarrow> u8 list \<Rightarrow> gic_cell \<Rightarrow> nat \<Rightarrow> 'd \<Rightarrow> 'd option" where
  "gicv2_adjust_irq_target g target_map cell irq_id d =
     (let off = GICD_ITARGETSR + irq_id div 4 * 4;
          ts = gicd_read32 g off d;
          shift = irq_id mod 4 * 8 in
      if gicv2_targets_in_cell target_map cell (ucast (drop_bit shift ts)) then Some d
      else arr_get target_map (first_cpu (gic_cpu_set cell)) \<bind> (\<lambda>t.
        Some (gicd_write32 g off (ts AND NOT (push_bit shift 0xff) OR push_bit shift (ucast t)) d)))"

fun commit_loop :: "'d gicd \<Rightarrow> u8 list \<Rightarrow> gic_cell \<Rightarrow> gic_cell \<Rightarrow> nat list \<Rightarrow> 'd \<Rightarrow> 'd option" where
  "commit_loop g target_map cell root [] d = Some d"
| "commit_loop g target_map cell root (n # ns) d =
     (if irqchip_irq_in_cell cell n then gicv2_adjust_irq_target g target_map cell n d else Some d) \<bind> (\<lambda>d1.
     (if irqchip_irq_in_cell root n then gicv2_adjust_irq_target g target_map root n d1 else Some d1) \<bind>
     commit_loop g target_map cell root ns)"

definition irqchip_config_commit :: "'d gicd \<Rightarrow> u8 list \<Rightarrow> gic_cell option \<Rightarrow> gic_cell \<Rightarrow> 'd \<Rightarrow> 'd option" where
  "irqchip_config_commit g target_map cell_added_removed root d =
     (case cell_added_removed of
        None \<Rightarrow> Some d
      | Some cell \<Rightarrow> commit_loop g target_map cell root [32..<length (irq_bitmap cell) * 32] d)"

definition irqchip_mmio_count_regions :: "nat \<Rightarrow> nat \<Rightarrow> nat" where
  "irqchip_mmio_count_regions gic_version online = 1 + (if gic_version \<ge> 3 then online else 0)"

subsection \<open>Bits of the masks\<close>

lemma irq_in_cell_bit:
  "irqchip_irq_in_cell cell irq \<longleftrightarrow> irq < length (irq_bitmap cell) * 32 \<and> bit (irq_bitmap cell ! (irq div 32)) (irq mod 32)"
  by (auto simp: irqchip_irq_in_cell_def and_exp_eq_0_iff_not_bit push_bit_eq_mult mult.commute[of _ 1])

lemma ffsl_bits: "ffsl 1 = 0" "ffsl 2 = 1" "ffsl 8 = 3"
  by code_simp+

lemma access_mask_Suc:
  "access_mask cell first b (Suc n) = (if irqchip_irq_in_cell cell (first + n) then access_mask cell first b n OR push_bit (n * b) (mask b) else access_mask cell first b n)"
  by (simp add: access_mask_def mask_eq_exp_minus_1 push_bit_eq_mult)

lemma access_mask_bit:
  assumes "0 < b"
  shows "bit (access_mask cell first b n) i \<longleftrightarrow> i < n * b \<and> i < 64 \<and> irqchip_irq_in_cell cell (first + i div b)"
proof (induction n)
  case (Suc n)
  have "i div b = n" if "n * b \<le> i" "i - n * b < b" using that by (intro div_nat_eqI) (simp_all add: mult.commute)
  then have "n * b \<le> i \<and> i - n * b < b \<longleftrightarrow> i div b = n"
    using assms div_times_less_eq_dividend [of i b] dividend_less_div_times [of b i] by auto
  then show ?case using Suc assms
    by (auto simp: access_mask_Suc bit_or_iff bit_push_bit_iff bit_mask_iff split: if_splits)
qed (simp add: access_mask_def)

definition field :: "nat \<Rightarrow> nat \<Rightarrow> u64 \<Rightarrow> u64" where
  "field b k v = take_bit b (drop_bit (b * k) v)"

lemma field_eqI: "(\<And>i. b * k \<le> i \<Longrightarrow> i < b * Suc k \<Longrightarrow> bit v i = bit w i) \<Longrightarrow> field b k v = field b k w"
  by (rule bit_eqI) (auto simp: field_def bit_take_bit_iff bit_drop_bit_eq)

lemma field_0I: "(\<And>i. b * k \<le> i \<Longrightarrow> i < b * Suc k \<Longrightarrow> \<not> bit v i) \<Longrightarrow> field b k v = 0"
  using field_eqI [of b k v 0] by (simp add: field_def)

lemma field_index: "b * k \<le> i \<Longrightarrow> i < b * Suc k \<Longrightarrow> i div b = k"
  by (metis div_nat_eqI mult.commute)

subsection \<open>The contract of the distributor\<close>

text \<open>
  The registers that hold a field for each interrupt: bits of a field, interrupt of the lowest field of the word at an offset, and whether
  a word sets or clears (\<open>True\<close>) or replaces the fields.
\<close>

definition irq_fields :: "nat \<Rightarrow> (nat \<times> nat \<times> bool) option" where
  "irq_fields off =
     (if 0x80 \<le> off \<and> off < 0x100 then Some (1, (off - 0x80) div 4 * 32, False)
      else if 0x100 \<le> off \<and> off < 0x400 then Some (1, off mod 0x80 div 4 * 32, True)
      else if 0x400 \<le> off \<and> off < 0x800 then Some (8, (off - 0x400) div 4 * 4, False)
      else if 0x800 \<le> off \<and> off < 0xc00 then Some (8, (off - 0x800) div 4 * 4, False)
      else if 0xc00 \<le> off \<and> off < 0xd00 then Some (2, (off - 0xc00) div 4 * 16, False)
      else None)"

definition holds_irq :: "nat \<Rightarrow> nat \<Rightarrow> nat \<Rightarrow> bool" where
  "holds_irq b first irq \<longleftrightarrow> first \<le> irq \<and> irq < first + 32 div b"

text \<open>Whether a word written over the word \<open>old\<close> can change the state of an interrupt.\<close>

definition affects :: "nat \<Rightarrow> u64 \<Rightarrow> u64 \<Rightarrow> nat \<Rightarrow> bool" where
  "affects off old v irq \<longleftrightarrow>
     (case irq_fields off of
        None \<Rightarrow> True
      | Some (b, first, poke) \<Rightarrow> holds_irq b first irq \<and> (if poke then field b (irq - first) v \<noteq> 0 else field b (irq - first) v \<noteq> field b (irq - first) old))"

text \<open>What the GICv2 architecture says of shared interrupts: \<open>ist d irq\<close> is the state of an interrupt.\<close>

definition gicd_laws :: "'d gicd \<Rightarrow> ('d \<Rightarrow> nat \<Rightarrow> 's) \<Rightarrow> bool" where
  "gicd_laws g ist \<longleftrightarrow>
     (\<forall>d off v irq. off < 0x1000 \<longrightarrow> off mod 4 = 0 \<longrightarrow> is_spi irq \<longrightarrow> \<not> affects off (gicd_rd g 4 (gicd_base g + of_nat off) d) v irq \<longrightarrow>
        ist (gicd_wr g 4 (gicd_base g + of_nat off) v d) irq = ist d irq)"

lemma gicd_lawsD:
  assumes "gicd_laws g ist" "off < 0x1000" "off mod 4 = 0" "is_spi irq" "irq_fields off = Some (b, first, poke)"
    "holds_irq b first irq \<Longrightarrow>
       if poke then field b (irq - first) v = 0 else field b (irq - first) v = field b (irq - first) (gicd_rd g 4 (gicd_base g + of_nat off) d)"
  shows "ist (gicd_wr g 4 (gicd_base g + of_nat off) v d) irq = ist d irq"
  using assms unfolding gicd_laws_def affects_def by (cases poke) auto

text \<open>A word access of a guest at an offset.\<close>

definition word_access :: "nat \<Rightarrow> mmio_access \<Rightarrow> bool" where
  "word_access off mmio \<longleftrightarrow> off < 0x1000 \<and> off mod 4 = 0 \<and> acc_address mmio = of_nat off \<and> acc_size mmio = 4"

text \<open>What a handler must guarantee for an interrupt of another cell.\<close>

definition hidden :: "('d \<Rightarrow> nat \<Rightarrow> 's) \<Rightarrow> nat \<Rightarrow> nat \<Rightarrow> mmio_access \<Rightarrow> 'd \<Rightarrow> mmio_access \<Rightarrow> 'd \<Rightarrow> bool" where
  "hidden ist irq off mmio d mmio1 d1 \<longleftrightarrow> ist d1 irq = ist d irq \<and> (acc_is_write mmio \<longrightarrow> acc_is_write mmio1) \<and>
     (\<not> acc_is_write mmio \<longrightarrow> d1 = d \<and> (\<forall>b first poke. irq_fields off = Some (b, first, poke) \<longrightarrow> holds_irq b first irq \<longrightarrow> field b (irq - first) (acc_value mmio1) = 0))"

lemma access_word:
  assumes "word_access off mmio"
  shows "gicd_access g mmio d = (if acc_is_write mmio then (mmio, gicd_wr g 4 (gicd_base g + of_nat off) (take_bit 32 (acc_value mmio)) d)
     else (mmio\<lparr>acc_value := take_bit 32 (gicd_rd g 4 (gicd_base g + of_nat off) d)\<rparr>, d))"
  using assms by (simp add: mmio_perform_access_def word_access_def)

lemma restrict_hidden:
  assumes law: "gicd_laws g ist" and w: "word_access off mmio" and irq: "is_spi irq" "\<not> irqchip_irq_in_cell cell irq"
    and f: "irq_fields off = Some (b, reg_index * (32 div b), poke)" and b: "b \<in> {1, 2, 8}"
    and r: "restrict_bitmask_access g cell reg_index b poke mmio d = ((mmio1, res), d1)"
  shows "res = MMIO_HANDLED \<and> hidden ist irq off mmio d mmio1 d1"
proof -
  let ?n = "32 div b" let ?first = "reg_index * ?n" let ?k = "irq - ?first"
  define m where "m = access_mask cell ?first b ?n"
  have "drop_bit (ffsl (of_nat b)) 32 = ?n" using b by (auto simp: ffsl_bits drop_bit_eq_div)
  then have r: "restrict_bitmask_access g cell reg_index b poke mmio d = (let m = m in
      if \<not> acc_is_write mmio then
        let (mmio1, d1) = gicd_access g mmio d in ((mmio1\<lparr>acc_value := acc_value mmio1 AND m\<rparr>, MMIO_HANDLED), d1)
      else if \<not> poke then
        let access_val = acc_value mmio;
            (mmio1, d1) = gicd_access g (mmio\<lparr>acc_is_write := False\<rparr>) d;
            (mmio2, d2) = gicd_access g (mmio1\<lparr>acc_is_write := True, acc_value := acc_value mmio1 AND NOT m OR access_val AND m\<rparr>) d1 in
        ((mmio2, MMIO_HANDLED), d2)
      else
        let (mmio1, d1) = gicd_access g (mmio\<lparr>acc_value := acc_value mmio AND m\<rparr>) d in ((mmio1, MMIO_HANDLED), d1))"
    by (simp add: restrict_bitmask_access_def m_def Let_def)
  have wu: "word_access off (mmio\<lparr>acc_value := v\<rparr>)" "word_access off (mmio\<lparr>acc_is_write := c\<rparr>)"
    "word_access off (mmio\<lparr>acc_is_write := c, acc_value := v\<rparr>)" for v c using w by (simp_all add: word_access_def)
  have mk: "\<not> bit m i" if "holds_irq b ?first irq" "b * ?k \<le> i" "i < b * Suc ?k" for i
    using that irq(2) b access_mask_bit [of b cell ?first ?n i] field_index [OF that(2,3)] by (auto simp: m_def holds_irq_def)
  have i32: "i < 32" if "holds_irq b ?first irq" "i < b * Suc ?k" for i
  proof -
    have "b * Suc ?k \<le> b * ?n" using that(1) b by (intro mult_le_mono2) (auto simp: holds_irq_def)
    then show ?thesis using that(2) b by auto
  qed
  note w4 = access_word [OF w] access_word [OF wu(1)] access_word [OF wu(2)] access_word [OF wu(3)]
  note law = gicd_lawsD [OF law _ _ irq(1) f]
  have off: "off < 0x1000" "off mod 4 = 0" using w by (simp_all add: word_access_def)
  show ?thesis
  proof (cases "acc_is_write mmio")
    case False
    then have "mmio1 = mmio\<lparr>acc_value := take_bit 32 (gicd_rd g 4 (gicd_base g + of_nat off) d) AND m\<rparr>" "d1 = d" "res = MMIO_HANDLED"
      using assms(7) by (auto simp: r w4)
    then show ?thesis using False f mk by (auto simp: hidden_def bit_and_iff intro!: field_0I)
  next
    case wr: True
    show ?thesis
    proof (cases poke)
      case True
      have "field b ?k (take_bit 32 (acc_value mmio AND m)) = 0" if "holds_irq b ?first irq"
        using mk [OF that] by (intro field_0I) (simp add: bit_take_bit_iff bit_and_iff)
      then have "ist (gicd_wr g 4 (gicd_base g + of_nat off) (take_bit 32 (acc_value mmio AND m)) d) irq = ist d irq"
        using True by (intro law [OF off]) simp
      then show ?thesis using assms(7) [unfolded r] True wr by (auto simp: w4 hidden_def Let_def)
    next
      case False
      let ?old = "gicd_rd g 4 (gicd_base g + of_nat off) d"
      let ?v = "take_bit 32 (take_bit 32 ?old AND NOT m OR acc_value mmio AND m)"
      have "field b ?k ?v = field b ?k ?old" if "holds_irq b ?first irq"
        using mk [OF that] i32 [OF that] by (intro field_eqI) (fastforce simp: bit_take_bit_iff bit_and_iff bit_or_iff bit_not_iff)
      then have "ist (gicd_wr g 4 (gicd_base g + of_nat off) ?v d) irq = ist d irq"
        using False by (intro law [OF off]) simp
      then show ?thesis using assms(7) [unfolded r] False wr by (auto simp: w4 hidden_def Let_def)
    qed
  qed
qed

lemma and_not_mask_aligned:
  fixes w :: u64
  assumes "take_bit n w = 0"
  shows "w AND NOT (mask n) = w"
proof (rule bit_eqI)
  fix i assume "possible_bit TYPE(64 word) i"
  moreover have "\<not> bit (take_bit n w) i" using assms by simp
  ultimately show "bit (w AND NOT (mask n)) i = bit w i" by (auto simp: bit_take_bit_iff bit_and_iff bit_not_iff bit_mask_iff)
qed

lemma target_loop_mask:
  "target_loop tm cell base mmio ns m = Some m1 \<Longrightarrow> (\<forall>n\<in>set ns. n < 4) \<Longrightarrow>
     bit m1 i \<longleftrightarrow> bit m i \<or> i < 32 \<and> i div 8 \<in> set ns \<and> irqchip_irq_in_cell cell (base + i div 8)"
proof (induction tm cell base mmio ns m arbitrary: rule: target_loop.induct)
  case (2 tm cell base mmio n ns m)
  have n: "bit (push_bit (8 * n) 0xff :: u32) i \<longleftrightarrow> i < 32 \<and> i div 8 = n"
  proof -
    have ff: "(0xff :: u32) = mask 8" by (simp add: mask_eq_exp_minus_1)
    have "8 * n \<le> i \<and> i - 8 * n < 8 \<longleftrightarrow> i div 8 = n" by auto
    then show ?thesis unfolding ff bit_push_bit_iff bit_mask_iff by auto
  qed
  show ?case
  proof (cases "irqchip_irq_in_cell cell (base + n)")
    case True
    then have "target_loop tm cell base mmio ns (m OR push_bit (8 * n) 0xff) = Some m1"
      using "2.prems"(1) by (auto simp: Let_def split: if_splits)
    then show ?thesis using "2.IH"(2,3) "2.prems" True n by (auto simp: Let_def bit_or_iff split: if_splits)
  qed (use 2 in auto)
qed simp

lemma target_loop_targets:
  "target_loop tm cell base mmio ns m = Some m1 \<Longrightarrow> acc_is_write mmio \<Longrightarrow> n \<in> set ns \<Longrightarrow> irqchip_irq_in_cell cell (base + n) \<Longrightarrow>
     gicv2_targets_in_cell tm cell (ucast (drop_bit (8 * n) (acc_value mmio)))"
  by (induction tm cell base mmio ns m rule: target_loop.induct) (auto simp: Let_def split: if_splits)

lemma target_loop_read: "\<not> acc_is_write mmio \<Longrightarrow> target_loop tm cell base mmio ns m \<noteq> None"
  by (induction tm cell base mmio ns m rule: target_loop.induct) (auto simp: Let_def)

lemma target_handler_word:
  assumes w: "word_access off mmio" and off: "0x800 \<le> off" and spi: "is_spi (off - 0x800)"
  shows "gicv2_handle_irq_target g tm cell (off - 0x800) mmio d = (case target_loop tm cell (off - 0x800) mmio [0..<4] 0 of
      None \<Rightarrow> ((mmio, MMIO_ERROR), d)
    | Some m \<Rightarrow>
        if acc_is_write mmio then
          let v = acc_value mmio AND ucast m OR ucast ((gicd_read32 g off d) AND NOT m) in
          ((mmio\<lparr>acc_value := v\<rparr>, MMIO_HANDLED), gicd_write32 g off (ucast v) d)
        else ((mmio\<lparr>acc_value := take_bit 32 (gicd_rd g 4 (gicd_base g + of_nat off) d) AND ucast m\<rparr>, MMIO_HANDLED), d))"
proof -
  let ?first = "off - 0x800"
  have m4: "off mod 4 = 0" using w by (simp add: word_access_def)
  have o: "?first div 4 * 4 = ?first" "?first mod 4 = 0" using m4 off by presburger+
  define mmio2 where "mmio2 = mmio\<lparr>acc_address := acc_address mmio AND NOT 3, acc_value := push_bit (8 * (?first mod 4)) (acc_value mmio), acc_size := 4\<rparr>"
  have "take_bit 2 off = 0" using m4 by (simp add: take_bit_eq_mod)
  then have "take_bit 2 (of_nat off :: u64) = 0" by (simp only: take_bit_of_nat) simp
  from and_not_mask_aligned [OF this] have "of_nat off AND NOT 3 = (of_nat off :: u64)" by (simp add: mask_eq_exp_minus_1)
  then have m2: "mmio2 = mmio" using w o(2) by (simp add: mmio2_def word_access_def)
  have wu: "word_access off (mmio\<lparr>acc_value := v\<rparr>)" for v using w by (simp add: word_access_def)
  have t: "take_bit 32 v = ucast (ucast v :: u32)" for v :: u64 by (simp add: bit_eq_iff bit_take_bit_iff bit_ucast_iff)
  show ?thesis unfolding gicv2_handle_irq_target_def o(1) mmio2_def [symmetric] m2 
    using spi off by (simp add: Let_def GICD_ITARGETSR_def access_word [OF w] access_word [OF wu] t [symmetric] split: option.split)
qed

lemma target_hidden:
  assumes law: "gicd_laws g ist" and w: "word_access off mmio" and irq: "is_spi irq" "\<not> irqchip_irq_in_cell cell irq"
    and off: "0x800 \<le> off" "off < 0xc00"
    and r: "gicv2_handle_irq_target g tm cell (off - 0x800) mmio d = ((mmio1, res), d1)"
  shows "hidden ist irq off mmio d mmio1 d1"
proof -
  let ?first = "off - 0x800" let ?k = "irq - ?first" let ?old = "gicd_rd g 4 (gicd_base g + of_nat off) d"
  have o: "off < 0x1000" "off mod 4 = 0" "?first div 4 * 4 = ?first" "?first mod 4 = 0" using w off by (auto simp: word_access_def) (presburger?)
  have f: "irq_fields off = Some (8, ?first, False)" using off o(3) by (simp add: irq_fields_def)
  have law: "ist (gicd_wr g 4 (gicd_base g + of_nat off) v d) irq = ist d irq" if "holds_irq 8 ?first irq \<Longrightarrow> field 8 ?k v = field 8 ?k ?old" for v
    using gicd_lawsD [OF law o(1,2) irq(1) f] that by simp
  show ?thesis
  proof (cases "is_spi ?first")
    case False
    then have no: "\<not> holds_irq 8 ?first irq" using irq(1) o(4) by (auto simp: is_spi_def holds_irq_def; presburger)
    have "(mmio1, d1) = gicd_access g mmio d" using r False by (simp add: gicv2_handle_irq_target_def Let_def split: prod.splits)
    then show ?thesis using law no f by (auto simp: access_word [OF w] hidden_def split: if_splits)
  next
    case spi: True
    note r' = target_handler_word [OF w off(1) spi, of g tm cell d]
    show ?thesis
    proof (cases "target_loop tm cell ?first mmio [0..<4] 0")
      case None
      then have "mmio1 = mmio" "d1 = d" using r by (simp_all add: r')
      then show ?thesis using target_loop_read [of mmio tm cell ?first "[0..<4]" 0] None by (auto simp: hidden_def)
    next
      case (Some m)
      have mk: "bit m i \<longleftrightarrow> i < 32 \<and> irqchip_irq_in_cell cell (?first + i div 8)" for i
        using target_loop_mask [OF Some, of i] by auto
      have nb: "\<not> bit m i" if "holds_irq 8 ?first irq" "8 * ?k \<le> i" "i < 8 * Suc ?k" for i
        using that irq(2) mk field_index [OF that(2,3)] by (auto simp: holds_irq_def)
      have i32: "i < 32" if "holds_irq 8 ?first irq" "i < 8 * Suc ?k" for i using that by (auto simp: holds_irq_def)
      show ?thesis
      proof (cases "acc_is_write mmio")
        case True
        let ?v = "acc_value mmio AND ucast m OR ucast ((ucast ?old :: u32) AND NOT m)"
        have "field 8 ?k (ucast (ucast ?v :: u32)) = field 8 ?k ?old" if "holds_irq 8 ?first irq"
          using nb [OF that] i32 [OF that] by (intro field_eqI) (fastforce simp: bit_take_bit_iff bit_and_iff bit_or_iff bit_not_iff bit_ucast_iff)
        note l = law [OF this]
        have "((mmio1, res), d1) = ((mmio\<lparr>acc_value := ?v\<rparr>, MMIO_HANDLED), gicd_write32 g off (ucast ?v) d)"
          using r Some True by (simp add: r' Let_def)
        then show ?thesis using l True by (simp add: hidden_def)
      next
        case False
        have "((mmio1, res), d1) = ((mmio\<lparr>acc_value := take_bit 32 ?old AND ucast m\<rparr>, MMIO_HANDLED), d)"
          using r Some False by (auto simp: r')
        then show ?thesis using False f nb by (auto simp: hidden_def bit_and_iff bit_ucast_iff intro!: field_0I)
      qed
    qed
  qed
qed

lemma dist_ranges:
  assumes "off < 0x1000" "off mod 4 = 0"
  shows "\<not> REG_RANGE GICD_IROUTER 1024 8 off" "REG_RANGE GICD_ITARGETSR 1024 1 off \<longleftrightarrow> 0x800 \<le> off \<and> off < 0xc00"
    "REG_RANGE GICD_ICENABLER 32 4 off \<or> REG_RANGE GICD_ISENABLER 32 4 off \<or> REG_RANGE GICD_ICPENDR 32 4 off \<or>
      REG_RANGE GICD_ISPENDR 32 4 off \<or> REG_RANGE GICD_ICACTIVER 32 4 off \<or> REG_RANGE GICD_ISACTIVER 32 4 off \<longleftrightarrow> 0x100 \<le> off \<and> off < 0x400"
    "REG_RANGE GICD_IGROUPR 32 4 off \<longleftrightarrow> 0x80 \<le> off \<and> off < 0x100" "REG_RANGE GICD_ICFGR 64 4 off \<longleftrightarrow> 0xc00 \<le> off \<and> off < 0xd00"
    "REG_RANGE GICD_IPRIORITYR 255 4 off \<longleftrightarrow> 0x400 \<le> off \<and> off < 0x7fc"
  using assms unfolding REG_RANGE_def gicd_offsets by (simp; presburger)+

text \<open>The handler by the offset of a word.\<close>

lemma dist_access_word:
  assumes "word_access off mmio"
  shows "gic_handle_dist_access g me cell mmio (d, y) =
     (if 0x800 \<le> off \<and> off < 0xc00 then (case gicv2_handle_irq_target g (gicv2_target_cpu_map y) cell (off - 0x800) mmio d of (r, d1) \<Rightarrow> Some (r, d1, y))
      else if 0x100 \<le> off \<and> off < 0x400 then (case restrict_bitmask_access g cell (off mod 0x80 div 4) 1 True mmio d of (r, d1) \<Rightarrow> Some (r, d1, y))
      else if 0x80 \<le> off \<and> off < 0x100 then (case restrict_bitmask_access g cell (off mod 0x80 div 4) 1 False mmio d of (r, d1) \<Rightarrow> Some (r, d1, y))
      else if 0xc00 \<le> off \<and> off < 0xd00 then (case restrict_bitmask_access g cell (off mod 0x100 div 4) 2 False mmio d of (r, d1) \<Rightarrow> Some (r, d1, y))
      else if 0x400 \<le> off \<and> off < 0x7fc then (case restrict_bitmask_access g cell (off mod 0x400 div 4) 8 False mmio d of (r, d1) \<Rightarrow> Some (r, d1, y))
      else gicv2_handle_dist_access g me cell mmio (d, y))"
proof -
  have off: "off < 0x1000" "off mod 4 = 0" "unat (acc_address mmio) = off" using assms by (auto simp: word_access_def unat_of_nat)
  show ?thesis unfolding gic_handle_dist_access_def Let_def off(3) dist_ranges(2-6) [OF off(1,2)] using dist_ranges(1) [OF off(1,2)] by (simp add: GICD_ITARGETSR_def)
qed

lemma other_hidden:
  assumes "word_access off mmio" "off \<noteq> GICD_SGIR \<or> \<not> acc_is_write mmio" "off < 0x80 \<or> 0x7fc \<le> off \<and> off < 0x800 \<or> 0xd00 \<le> off" "is_spi irq"
  obtains mmio1 d1 where "gicv2_handle_dist_access g me cell mmio (d, y) = Some ((mmio1, MMIO_HANDLED), d1, y)" "hidden ist irq off mmio d mmio1 d1"
proof -
  have off: "unat (acc_address mmio) = off" using assms(1) by (auto simp: word_access_def unat_of_nat)
  have "off mod 4 = 0" using assms(1) by (simp add: word_access_def)
  then have "off < 0x80 \<or> off = 0x7fc \<or> 0xd00 \<le> off" using assms(3) by presburger
  then have no: "\<not> (irq_fields off = Some (b, first, poke) \<and> holds_irq b first irq)" for b first poke
    using assms(4) by (auto simp: irq_fields_def holds_irq_def is_spi_def split: if_splits)
  have "\<exists>mmio1. gicv2_handle_dist_access g me cell mmio (d, y) = Some ((mmio1, MMIO_HANDLED), d, y) \<and> (acc_is_write mmio \<longrightarrow> mmio1 = mmio)"
    using assms(2) unfolding gicv2_handle_dist_access_def Let_def off access_word [OF assms(1)] by simp
  then show ?thesis using that no by (fastforce simp: hidden_def)
qed

lemma dist_access_hidden:
  assumes law: "gicd_laws g ist" and w: "word_access off mmio" and irq: "is_spi irq" "\<not> irqchip_irq_in_cell cell irq"
    and sgir: "off \<noteq> GICD_SGIR \<or> \<not> acc_is_write mmio"
  obtains mmio1 res d1 where "gic_handle_dist_access g me cell mmio (d, y) = Some ((mmio1, res), d1, y)" "hidden ist irq off mmio d mmio1 d1"
proof -
  have off: "off < 0x1000" "off mod 4 = 0" using w by (simp_all add: word_access_def)
  note h = restrict_hidden [OF law w irq] target_hidden [OF law w irq]
  have D: "\<exists>mmio1 res d1. (case restrict_bitmask_access g cell i b poke mmio d of (r, d1) \<Rightarrow> Some (r, d1, y)) = Some ((mmio1, res), d1, y) \<and> hidden ist irq off mmio d mmio1 d1"
    if "irq_fields off = Some (b, i * (32 div b), poke)" "b \<in> {1, 2, 8}" for i b poke
    using restrict_hidden [OF law w irq that] by (auto split: prod.split)
  consider (target) "0x800 \<le> off" "off < 0xc00" | (poke) "0x100 \<le> off" "off < 0x400" | (group) "0x80 \<le> off" "off < 0x100"
    | (cfg) "0xc00 \<le> off" "off < 0xd00" | (prio) "0x400 \<le> off" "off < 0x7fc" | (other) "off < 0x80 \<or> 0x7fc \<le> off \<and> off < 0x800 \<or> 0xd00 \<le> off"
    by linarith
  then have "\<exists>mmio1 res d1. gic_handle_dist_access g me cell mmio (d, y) = Some ((mmio1, res), d1, y) \<and> hidden ist irq off mmio d mmio1 d1"
  proof cases
    case target
    then show ?thesis using target_hidden [OF law w irq] by (auto simp: dist_access_word [OF w] split: prod.split)
  next
    case poke
    then show ?thesis using D [of 1 "off mod 0x80 div 4" True] by (simp add: dist_access_word [OF w] irq_fields_def)
  next
    case group
    then have "off mod 0x80 = off - 0x80" by (intro mod_nat_eqI) simp_all
    then show ?thesis using D [of 1 "off mod 0x80 div 4" False] group by (simp add: dist_access_word [OF w] irq_fields_def)
  next
    case cfg
    then have "off mod 0x100 = off - 0xc00" by (intro mod_nat_eqI) simp_all
    then show ?thesis using D [of 2 "off mod 0x100 div 4" False] cfg by (simp add: dist_access_word [OF w] irq_fields_def)
  next
    case prio
    then have "off mod 0x400 = off - 0x400" by (intro mod_nat_eqI) simp_all
    then show ?thesis using D [of 8 "off mod 0x400 div 4" False] prio by (simp add: dist_access_word [OF w] irq_fields_def)
  next
    case other
    obtain mmio1 d1 where "gicv2_handle_dist_access g me cell mmio (d, y) = Some ((mmio1, MMIO_HANDLED), d1, y)" "hidden ist irq off mmio d mmio1 d1"
      using other_hidden [OF w sgir other irq(1)] by metis
    then show ?thesis using other by (auto simp: dist_access_word [OF w])
  qed
  then show ?thesis using that by blast
qed

subsection \<open>Where interrupts go\<close>

text \<open>The targets of an interrupt, as the distributor reports them.\<close>

definition irq_targets :: "'d gicd \<Rightarrow> 'd \<Rightarrow> nat \<Rightarrow> u8" where
  "irq_targets g d irq = ucast (drop_bit (irq mod 4 * 8) (gicd_read32 g (GICD_ITARGETSR + irq div 4 * 4) d))"

text \<open>
  The target registers of shared interrupts are memory, apart from bits that ignore writes and read as zero.
\<close>

definition target_laws :: "'d gicd \<Rightarrow> bool" where
  "target_laws g \<longleftrightarrow> (\<forall>d v. \<forall>i\<in>{8..<256}.
     (\<exists>m. gicd_read32 g (GICD_ITARGETSR + i * 4) (gicd_write32 g (GICD_ITARGETSR + i * 4) v d) = v AND m) \<and>
     (\<forall>j\<in>{8..<256} - {i}. gicd_read32 g (GICD_ITARGETSR + j * 4) (gicd_write32 g (GICD_ITARGETSR + i * 4) v d) = gicd_read32 g (GICD_ITARGETSR + j * 4) d))"

lemma target_lawsD:
  assumes "target_laws g" "8 \<le> i" "i < 256"
  shows "\<exists>m. gicd_read32 g (GICD_ITARGETSR + i * 4) (gicd_write32 g (GICD_ITARGETSR + i * 4) v d) = v AND m"
    "8 \<le> j \<Longrightarrow> j < 256 \<Longrightarrow> i \<noteq> j \<Longrightarrow>
      gicd_read32 g (GICD_ITARGETSR + j * 4) (gicd_write32 g (GICD_ITARGETSR + i * 4) v d) = gicd_read32 g (GICD_ITARGETSR + j * 4) d"
proof -
  have i: "i \<in> {8..<256}" using assms(2,3) by simp
  show "\<exists>m. gicd_read32 g (GICD_ITARGETSR + i * 4) (gicd_write32 g (GICD_ITARGETSR + i * 4) v d) = v AND m"
    using assms(1) i unfolding target_laws_def by blast
  assume "8 \<le> j" "j < 256" "i \<noteq> j"
  then have "j \<in> {8..<256} - {i}" by simp
  then show "gicd_read32 g (GICD_ITARGETSR + j * 4) (gicd_write32 g (GICD_ITARGETSR + i * 4) v d) = gicd_read32 g (GICD_ITARGETSR + j * 4) d"
    using assms(1) i unfolding target_laws_def by blast
qed

definition target_map_ok :: "u8 list \<Rightarrow> bool" where
  "target_map_ok tm \<longleftrightarrow> (\<forall>i<length tm. \<forall>j<length tm. i \<noteq> j \<longrightarrow> tm ! i AND tm ! j = 0)"

text \<open>
  An interrupt is routed into a cell when every CPU the distributor would send it to is a CPU of the cell. This is stated on the target
  bits of each CPU and not with the check the code uses; \<open>routed_iff\<close> below is the correctness of that check.
\<close>

definition routed :: "'d gicd \<Rightarrow> u8 list \<Rightarrow> gic_cell \<Rightarrow> 'd \<Rightarrow> nat \<Rightarrow> bool" where
  "routed g tm cell d irq \<longleftrightarrow> (\<forall>cpu<length tm. irq_targets g d irq AND tm ! cpu \<noteq> 0 \<longrightarrow> cpu_in_cell cell cpu)"

lemma targets_in_cell_iff:
  "gicv2_targets_in_cell tm cell ts \<longleftrightarrow> (\<forall>cpu<length tm. ts AND tm ! cpu \<noteq> 0 \<longrightarrow> cpu_in_cell cell cpu)"
  by (auto simp: gicv2_targets_in_cell_def list_all_iff)

lemma routed_iff: "routed g tm cell d irq \<longleftrightarrow> gicv2_targets_in_cell tm cell (irq_targets g d irq)"
  by (simp add: routed_def targets_in_cell_iff)

lemma targets_mono:
  assumes "gicv2_targets_in_cell tm cell ts"
  shows "gicv2_targets_in_cell tm cell (ts AND m)"
proof -
  have "(ts AND m) AND t = 0" if "ts AND t = 0" for t :: u8 using that by (metis and.assoc and.commute and_zero_eq)
  then show ?thesis using assms by (auto simp: targets_in_cell_iff)
qed

lemma own_target:
  assumes "target_map_ok tm" "c < length tm" "cpu_in_cell cell c"
  shows "gicv2_targets_in_cell tm cell (tm ! c)"
  using assms unfolding targets_in_cell_iff target_map_ok_def by metis

lemma byte_bits:
  fixes ts :: u32 and t :: u8
  assumes "i < 32"
  shows "bit (ts AND NOT (push_bit (k * 8) 0xff) OR push_bit (k * 8) (ucast t)) i \<longleftrightarrow> (if i div 8 = k then bit t (i mod 8) else bit ts i)"
proof -
  have ff: "(0xff :: u32) = mask 8" by (simp add: mask_eq_exp_minus_1)
  have t: "bit t j \<Longrightarrow> j < 8" for j using bit_imp_le_length [of t j] by simp
  have p: "bit (push_bit (k * 8) (0xff :: u32)) i \<longleftrightarrow> i div 8 = k" unfolding ff bit_push_bit_iff bit_mask_iff using assms by auto
  have "bit (push_bit (k * 8) (ucast t) :: u32) i \<longleftrightarrow> k * 8 \<le> i \<and> bit t (i - k * 8)" using assms by (auto simp: bit_push_bit_iff bit_ucast_iff)
  also have "\<dots> \<longleftrightarrow> i div 8 = k \<and> bit t (i mod 8)"
  proof (cases "i div 8 = k")
    case True
    then have "i - k * 8 = i mod 8" "k * 8 \<le> i" by (auto simp: minus_div_mult_eq_mod)
    then show ?thesis using True by simp
  next
    case False
    then have "\<not> (k * 8 \<le> i \<and> i - k * 8 < 8)" by auto
    then show ?thesis using False t by blast
  qed
  finally show ?thesis using p assms by (auto simp: bit_and_iff bit_or_iff bit_not_iff)
qed

lemma byte_read:
  fixes w :: u32
  shows "bit (ucast (drop_bit (k * 8) w) :: u8) i \<longleftrightarrow> i < 8 \<and> bit w (k * 8 + i)"
  by (auto simp: bit_ucast_iff bit_drop_bit_eq)

text \<open>Adjusting an interrupt routes it to its cell; of the others it can only clear targets.\<close>

lemma adjust_routes:
  assumes laws: "target_laws g" "target_map_ok tm" and irq: "32 \<le> irq" "irq < 1024"
    and c: "first_cpu (gic_cpu_set cell) < length tm" "cpu_in_cell cell (first_cpu (gic_cpu_set cell))"
  obtains d' where "gicv2_adjust_irq_target g tm cell irq d = Some d'" "routed g tm cell d' irq"
    "\<And>j. 32 \<le> j \<Longrightarrow> j < 1024 \<Longrightarrow> j \<noteq> irq \<Longrightarrow> \<exists>m. irq_targets g d' j = irq_targets g d j AND m"
proof (cases "routed g tm cell d irq")
  case True
  then have "gicv2_adjust_irq_target g tm cell irq d = Some d" by (simp add: gicv2_adjust_irq_target_def routed_iff irq_targets_def Let_def)
  moreover have "irq_targets g d j = irq_targets g d j AND - 1" for j by simp
  ultimately show ?thesis using that True by blast
next
  case False
  let ?off = "GICD_ITARGETSR + irq div 4 * 4" let ?ts = "gicd_read32 g (GICD_ITARGETSR + irq div 4 * 4) d"
  define t where "t = tm ! first_cpu (gic_cpu_set cell)"
  define v where "v = ?ts AND NOT (push_bit (irq mod 4 * 8) 0xff) OR push_bit (irq mod 4 * 8) (ucast t)"
  define d' where "d' = gicd_write32 g ?off v d"
  have a: "gicv2_adjust_irq_target g tm cell irq d = Some d'"
    using False c(1) by (simp add: gicv2_adjust_irq_target_def routed_iff irq_targets_def Let_def arr_get_def d'_def v_def t_def)
  have i4: "8 \<le> irq div 4" "irq div 4 < 256" using irq by auto
  obtain m where m: "gicd_read32 g ?off d' = v AND m" using target_lawsD(1) [OF laws(1) i4] unfolding d'_def by blast
  have "irq_targets g d' irq = t AND ucast (drop_bit (irq mod 4 * 8) m)"
  proof (rule bit_eqI)
    fix i assume "possible_bit TYPE(8 word) i"
    then have i: "i < 8" by simp
    then have "irq mod 4 * 8 + i < 32" by presburger
    then have "bit v (irq mod 4 * 8 + i) = bit t i" using i byte_bits [of "irq mod 4 * 8 + i" ?ts "irq mod 4" t] by (simp add: v_def del: of_nat_add of_nat_mult)
    then show "bit (irq_targets g d' irq) i = bit (t AND ucast (drop_bit (irq mod 4 * 8) m)) i"
      using i unfolding irq_targets_def m byte_read bit_and_iff by simp
  qed
  then have "routed g tm cell d' irq" using targets_mono [OF own_target [OF laws(2) c]] by (simp add: routed_iff t_def)
  moreover have "\<exists>m. irq_targets g d' j = irq_targets g d j AND m" if j: "32 \<le> j" "j < 1024" "j \<noteq> irq" for j
  proof (cases "j div 4 = irq div 4")
    case True
    have n: "j mod 4 \<noteq> irq mod 4" using j(3) True by (metis mod_mult_div_eq)
    have "irq_targets g d' j = irq_targets g d j AND ucast (drop_bit (j mod 4 * 8) m)"
    proof (rule bit_eqI)
      fix i assume "possible_bit TYPE(8 word) i"
      then have i: "i < 8" by simp
      then have "j mod 4 * 8 + i < 32" "(j mod 4 * 8 + i) div 8 \<noteq> irq mod 4" using n by auto
      then have "bit v (j mod 4 * 8 + i) = bit ?ts (j mod 4 * 8 + i)"
        using byte_bits [of "j mod 4 * 8 + i" ?ts "irq mod 4" t] by (simp add: v_def del: of_nat_add of_nat_mult)
      then show "bit (irq_targets g d' j) i = bit (irq_targets g d j AND ucast (drop_bit (j mod 4 * 8) m)) i"
        using i unfolding irq_targets_def True m byte_read bit_and_iff by simp
    qed
    then show ?thesis by blast
  next
    case False
    have j4: "8 \<le> j div 4" "j div 4 < 256" using j by auto
    with False have "gicd_read32 g (GICD_ITARGETSR + j div 4 * 4) d' = gicd_read32 g (GICD_ITARGETSR + j div 4 * 4) d"
      using target_lawsD(2) [OF laws(1) i4] unfolding d'_def by metis
    then have "irq_targets g d' j = irq_targets g d j AND - 1" by (simp add: irq_targets_def del: of_nat_add of_nat_mult)
    then show ?thesis by blast
  qed
  ultimately show ?thesis using that a by blast
qed

definition one_owner :: "gic_cell \<Rightarrow> gic_cell \<Rightarrow> bool" where
  "one_owner cell root \<longleftrightarrow> (\<forall>irq. 32 \<le> irq \<longrightarrow> \<not> (irqchip_irq_in_cell cell irq \<and> irqchip_irq_in_cell root irq))"

definition has_cpu :: "u8 list \<Rightarrow> gic_cell \<Rightarrow> bool" where
  "has_cpu tm cell \<longleftrightarrow> first_cpu (gic_cpu_set cell) < length tm \<and> cpu_in_cell cell (first_cpu (gic_cpu_set cell))"

lemma routed_keep: "routed g tm c d irq \<Longrightarrow> \<exists>m. irq_targets g d' irq = irq_targets g d irq AND m \<Longrightarrow> routed g tm c d' irq"
  using targets_mono by (auto simp: routed_iff)

lemma commit_loop_routes:
  assumes "target_laws g" "target_map_ok tm" "has_cpu tm cell" "has_cpu tm root" "one_owner cell root" "distinct ns" "\<forall>n\<in>set ns. 32 \<le> n \<and> n < 1024"
  shows "\<exists>d'. commit_loop g tm cell root ns d = Some d' \<and>
    (\<forall>n\<in>set ns. (irqchip_irq_in_cell cell n \<longrightarrow> routed g tm cell d' n) \<and> (irqchip_irq_in_cell root n \<longrightarrow> routed g tm root d' n)) \<and>
    (\<forall>n. 32 \<le> n \<longrightarrow> n < 1024 \<longrightarrow> n \<notin> set ns \<longrightarrow> (\<forall>c. routed g tm c d n \<longrightarrow> routed g tm c d' n))"
  using assms(6,7)
proof (induction ns arbitrary: d)
  case (Cons n ns)
  let ?P = "\<lambda>d1. (irqchip_irq_in_cell cell n \<longrightarrow> routed g tm cell d1 n) \<and> (irqchip_irq_in_cell root n \<longrightarrow> routed g tm root d1 n) \<and>
    (\<forall>j. 32 \<le> j \<longrightarrow> j < 1024 \<longrightarrow> j \<noteq> n \<longrightarrow> (\<forall>c. routed g tm c d j \<longrightarrow> routed g tm c d1 j))"
  have n: "32 \<le> n" "n < 1024" using Cons.prems by simp_all
  have adj: "\<exists>d1. gicv2_adjust_irq_target g tm c n d = Some d1 \<and> routed g tm c d1 n \<and>
      (\<forall>j. 32 \<le> j \<longrightarrow> j < 1024 \<longrightarrow> j \<noteq> n \<longrightarrow> (\<forall>c. routed g tm c d j \<longrightarrow> routed g tm c d1 j))" if c: "has_cpu tm c" for c
    using c adjust_routes [OF assms(1,2) n, of c d] routed_keep unfolding has_cpu_def by metis
  have "\<exists>d1. commit_loop g tm cell root (n # ns) d = commit_loop g tm cell root ns d1 \<and> ?P d1"
    using adj [OF assms(3)] adj [OF assms(4)] assms(5) n(1) unfolding one_owner_def
    by (cases "irqchip_irq_in_cell cell n"; cases "irqchip_irq_in_cell root n") auto
  then obtain d1 where d1: "commit_loop g tm cell root (n # ns) d = commit_loop g tm cell root ns d1" "?P d1" by blast
  obtain d' where d': "commit_loop g tm cell root ns d1 = Some d'"
    "\<forall>n\<in>set ns. (irqchip_irq_in_cell cell n \<longrightarrow> routed g tm cell d' n) \<and> (irqchip_irq_in_cell root n \<longrightarrow> routed g tm root d' n)"
    "\<forall>n. 32 \<le> n \<longrightarrow> n < 1024 \<longrightarrow> n \<notin> set ns \<longrightarrow> (\<forall>c. routed g tm c d1 n \<longrightarrow> routed g tm c d' n)"
    using Cons.IH [of d1] Cons.prems by auto
  have "n \<notin> set ns" using Cons.prems by simp
  then show ?case using d1 d' n by (intro exI [of _ d']) auto
qed simp

lemma config_commit_routes:
  assumes "target_laws g" "target_map_ok tm" "has_cpu tm cell" "has_cpu tm root" "one_owner cell root" "length (irq_bitmap cell) = 32"
    "length (irq_bitmap root) = 32"
  obtains d' where "irqchip_config_commit g tm (Some cell) root d = Some d'"
    "\<And>irq. 32 \<le> irq \<Longrightarrow> irqchip_irq_in_cell cell irq \<Longrightarrow> routed g tm cell d' irq"
    "\<And>irq. 32 \<le> irq \<Longrightarrow> irqchip_irq_in_cell root irq \<Longrightarrow> routed g tm root d' irq"
proof -
  have lt: "irqchip_irq_in_cell c irq \<Longrightarrow> irq < 1024" if "length (irq_bitmap c) = 32" for c irq using that by (auto simp: irqchip_irq_in_cell_def split: if_splits)
  define N where "N = (1024 :: nat)"
  obtain d' where d': "commit_loop g tm cell root [32..<N] d = Some d'"
    "\<forall>n\<in>set [32..<N]. (irqchip_irq_in_cell cell n \<longrightarrow> routed g tm cell d' n) \<and> (irqchip_irq_in_cell root n \<longrightarrow> routed g tm root d' n)"
    using commit_loop_routes [OF assms(1-5), of "[32..<N]" d] unfolding set_upt N_def [symmetric] by (metis (no_types, lifting) N_def atLeastLessThan_iff distinct_upt set_upt)
  have "irqchip_config_commit g tm (Some cell) root d = Some d'" using d'(1) assms(6) by (simp add: irqchip_config_commit_def N_def)
  moreover have "(irqchip_irq_in_cell cell n \<longrightarrow> routed g tm cell d' n) \<and> (irqchip_irq_in_cell root n \<longrightarrow> routed g tm root d' n)"
    if "32 \<le> n" "n < 1024" for n using d'(2) that unfolding set_upt N_def [symmetric] by simp
  ultimately show ?thesis using that lt [OF assms(6)] lt [OF assms(7)] by metis
qed

subsection \<open>Which cell owns an interrupt\<close>

definition in_bm :: "u32 list \<Rightarrow> nat \<Rightarrow> bool" where
  "in_bm bm irq \<longleftrightarrow> irq < length bm * 32 \<and> bit (bm ! (irq div 32)) (irq mod 32)"

lemma in_cell_bm: "irqchip_irq_in_cell cell irq = in_bm (irq_bitmap cell) irq"
  by (simp add: irq_in_cell_bit in_bm_def)

definition chip_covers :: "jailhouse_irqchip \<Rightarrow> nat \<Rightarrow> bool" where
  "chip_covers chip irq \<longleftrightarrow> unat (pin_base chip) \<le> irq \<and> irq < unat (pin_base chip) + length (pin_bitmap chip) * 32"

definition chip_pin :: "jailhouse_irqchip \<Rightarrow> nat \<Rightarrow> bool" where
  "chip_pin chip irq \<longleftrightarrow> bit (pin_bitmap chip ! (irq div 32 - unat (pin_base chip) div 32)) (irq mod 32)"

definition has_pin :: "u64 \<Rightarrow> jailhouse_irqchip list \<Rightarrow> nat \<Rightarrow> bool" where
  "has_pin gicd_addr chips irq \<longleftrightarrow> (\<exists>chip\<in>set chips. chip_address chip = gicd_addr \<and> chip_covers chip irq \<and> chip_pin chip irq)"

definition lacks_pin :: "u64 \<Rightarrow> jailhouse_irqchip list \<Rightarrow> nat \<Rightarrow> bool" where
  "lacks_pin gicd_addr chips irq \<longleftrightarrow> (\<exists>chip\<in>set chips. chip_address chip = gicd_addr \<and> chip_covers chip irq \<and> \<not> chip_pin chip irq)"

definition chips_ok :: "u64 \<Rightarrow> nat \<Rightarrow> jailhouse_irqchip list \<Rightarrow> bool" where
  "chips_ok gicd_addr n chips \<longleftrightarrow> (\<forall>chip\<in>set chips. chip_address chip = gicd_addr \<longrightarrow>
     unat (pin_base chip) mod 32 = 0 \<and> unat (pin_base chip) + length (pin_bitmap chip) * 32 \<le> n * 32)"

lemma pin_words_spec:
  assumes "i + length ws \<le> length bm"
  shows "\<exists>bm1. pin_words f i ws bm = Some bm1 \<and> length bm1 = length bm \<and>
    (\<forall>j<length bm. bm1 ! j = (if i \<le> j \<and> j < i + length ws then f (bm ! j) (ws ! (j - i)) else bm ! j))"
  using assms
proof (induction ws arbitrary: i bm)
  case (Cons w ws)
  let ?bm = "bm[i := f (bm ! i) w]"
  obtain bm1 where bm1: "pin_words f (Suc i) ws ?bm = Some bm1" "length bm1 = length bm"
    "\<And>j. j < length bm \<Longrightarrow> bm1 ! j = (if Suc i \<le> j \<and> j < Suc i + length ws then f (?bm ! j) (ws ! (j - Suc i)) else ?bm ! j)"
    using Cons.IH [of "Suc i" ?bm] Cons.prems by auto
  have "bm1 ! j = (if i \<le> j \<and> j < i + length (w # ws) then f (bm ! j) ((w # ws) ! (j - i)) else bm ! j)" if "j < length bm" for j
    using bm1(3) [OF that] that by (cases "j = i") (auto simp: nth_Cons' Suc_diff_Suc)
  then show ?case using bm1(1,2) Cons.prems by (simp add: arr_get_def arr_set_def)
qed auto

text \<open>A loop over one chip, by interrupt.\<close>

lemma chip_words:
  assumes ok: "unat (pin_base chip) mod 32 = 0" "unat (pin_base chip) + length (pin_bitmap chip) * 32 \<le> length bm * 32"
    and f: "\<And>v w i. i < 32 \<Longrightarrow> bit (f v w) i = F (bit v i) (bit w i)"
  obtains bm1 where "pin_words f (unat (pin_base chip) div 32) (pin_bitmap chip) bm = Some bm1" "length bm1 = length bm"
    "\<And>irq. irq < length bm * 32 \<Longrightarrow> in_bm bm1 irq = (if chip_covers chip irq then F (in_bm bm irq) (chip_pin chip irq) else in_bm bm irq)"
proof -
  let ?i = "unat (pin_base chip) div 32"
  have b: "unat (pin_base chip) = ?i * 32" using ok(1) by auto
  obtain bm1 where bm1: "pin_words f ?i (pin_bitmap chip) bm = Some bm1" "length bm1 = length bm"
    "\<forall>j<length bm. bm1 ! j = (if ?i \<le> j \<and> j < ?i + length (pin_bitmap chip) then f (bm ! j) (pin_bitmap chip ! (j - ?i)) else bm ! j)"
    using pin_words_spec [of ?i "pin_bitmap chip" bm f] ok(2) b by auto
  have "in_bm bm1 irq = (if chip_covers chip irq then F (in_bm bm irq) (chip_pin chip irq) else in_bm bm irq)" if irq: "irq < length bm * 32" for irq
  proof -
    have "chip_covers chip irq \<longleftrightarrow> ?i \<le> irq div 32 \<and> irq div 32 < ?i + length (pin_bitmap chip)"
      unfolding chip_covers_def using b by (metis add_mult_distrib div_less_iff_less_mult less_eq_div_iff_mult_less_eq zero_less_numeral)
    moreover have "irq div 32 < length bm" using irq by (simp add: div_less_iff_less_mult)
    ultimately show ?thesis using bm1(2,3) irq f [of "irq mod 32"] by (simp add: in_bm_def chip_pin_def)
  qed
  then show ?thesis using that bm1 by blast
qed

lemma each_irqchip_spec:
  assumes "chips_ok addr (length bm) chips" and f: "\<And>v w i. i < 32 \<Longrightarrow> bit (f v w) i = F (bit v i) (bit w i)"
  shows "\<exists>bm1. each_irqchip f addr chips bm = Some bm1 \<and> length bm1 = length bm \<and>
    (\<forall>irq<length bm * 32. in_bm bm1 irq = fold (\<lambda>chip x. if chip_address chip = addr \<and> chip_covers chip irq then F x (chip_pin chip irq) else x) chips (in_bm bm irq))"
  using assms(1)
proof (induction chips arbitrary: bm)
  case (Cons chip chips)
  have ch: "chips_ok addr (length bm) chips" using Cons.prems by (simp add: chips_ok_def)
  show ?case
  proof (cases "chip_address chip = addr")
    case True
    then have ok: "unat (pin_base chip) mod 32 = 0" "unat (pin_base chip) + length (pin_bitmap chip) * 32 \<le> length bm * 32"
      using Cons.prems by (simp_all add: chips_ok_def)
    obtain bm1 where bm1: "pin_words f (unat (pin_base chip) div 32) (pin_bitmap chip) bm = Some bm1" "length bm1 = length bm"
      "\<And>irq. irq < length bm * 32 \<Longrightarrow> in_bm bm1 irq = (if chip_covers chip irq then F (in_bm bm irq) (chip_pin chip irq) else in_bm bm irq)"
      using chip_words [OF ok, of f F] f by blast
    show ?thesis using Cons.IH [of bm1] ch bm1 True by auto
  qed (use Cons.IH [OF ch] in auto)
qed simp

lemma each_irqchip_remove:
  assumes "chips_ok addr (length bm) chips"
  shows "\<exists>bm1. each_irqchip (\<lambda>v w. v AND NOT w) addr chips bm = Some bm1 \<and> length bm1 = length bm \<and>
    (\<forall>irq<length bm * 32. in_bm bm1 irq \<longleftrightarrow> in_bm bm irq \<and> \<not> has_pin addr chips irq)"
proof -
  have "fold (\<lambda>chip x. if chip_address chip = addr \<and> chip_covers chip irq then x \<and> \<not> chip_pin chip irq else x) chips x \<longleftrightarrow> x \<and> \<not> has_pin addr chips irq" for irq x
    by (induction chips arbitrary: x) (auto simp: has_pin_def)
  then show ?thesis using each_irqchip_spec [OF assms, of "\<lambda>v w. v AND NOT w" "\<lambda>a b. a \<and> \<not> b"] by (simp add: bit_and_iff bit_not_iff)
qed

lemma each_irqchip_add:
  assumes "chips_ok addr (length bm) chips"
  shows "\<exists>bm1. each_irqchip (\<lambda>v w. v OR w) addr chips bm = Some bm1 \<and> length bm1 = length bm \<and>
    (\<forall>irq<length bm * 32. in_bm bm1 irq \<longleftrightarrow> in_bm bm irq \<or> has_pin addr chips irq)"
proof -
  have "fold (\<lambda>chip x. if chip_address chip = addr \<and> chip_covers chip irq then x \<or> chip_pin chip irq else x) chips x \<longleftrightarrow> x \<or> has_pin addr chips irq" for irq x
    by (induction chips arbitrary: x) (auto simp: has_pin_def)
  then show ?thesis using each_irqchip_spec [OF assms, of "\<lambda>v w. v OR w" "\<lambda>a b. a \<or> b"] by (simp add: bit_or_iff)
qed

lemma each_irqchip_keep:
  assumes "chips_ok addr (length bm) chips"
  shows "\<exists>bm1. each_irqchip (\<lambda>v w. v AND w) addr chips bm = Some bm1 \<and> length bm1 = length bm \<and>
    (\<forall>irq<length bm * 32. in_bm bm1 irq \<longleftrightarrow> in_bm bm irq \<and> \<not> lacks_pin addr chips irq)"
proof -
  have "fold (\<lambda>chip x. if chip_address chip = addr \<and> chip_covers chip irq then x \<and> chip_pin chip irq else x) chips x \<longleftrightarrow> x \<and> \<not> lacks_pin addr chips irq" for irq x
    by (induction chips arbitrary: x) (auto simp: lacks_pin_def)
  then show ?thesis using each_irqchip_spec [OF assms, of "\<lambda>v w. v AND w" "\<lambda>a b. a \<and> b"] by (simp add: bit_and_iff)
qed

lemma copy_pins_spec:
  assumes "chips_ok addr (length bm) chips"
  shows "\<exists>bm1. copy_pins addr chips bm = Some (bm1, 0) \<and> length bm1 = length bm \<and> (\<forall>irq<length bm * 32. in_bm bm1 irq \<longrightarrow> in_bm bm irq \<or> has_pin addr chips irq)"
  using assms
proof (induction chips arbitrary: bm)
  case (Cons chip chips)
  have ch: "chips_ok addr (length bm) chips" using Cons.prems by (simp add: chips_ok_def)
  have hp: "has_pin addr chips irq \<Longrightarrow> has_pin addr (chip # chips) irq" for irq by (auto simp: has_pin_def)
  show ?case
  proof (cases "chip_address chip = addr")
    case True
    then have ok: "unat (pin_base chip) mod 32 = 0" "unat (pin_base chip) + length (pin_bitmap chip) * 32 \<le> length bm * 32"
      using Cons.prems by (simp_all add: chips_ok_def)
    obtain bm1 where bm1: "pin_words (\<lambda>_ w. w) (unat (pin_base chip) div 32) (pin_bitmap chip) bm = Some bm1" "length bm1 = length bm"
      "\<And>irq. irq < length bm * 32 \<Longrightarrow> in_bm bm1 irq = (if chip_covers chip irq then chip_pin chip irq else in_bm bm irq)"
      using chip_words [OF ok, of "\<lambda>_ w. w" "\<lambda>_ b. b"] by metis
    obtain bm2 where bm2: "copy_pins addr chips bm1 = Some (bm2, 0)" "length bm2 = length bm" "\<forall>irq<length bm * 32. in_bm bm2 irq \<longrightarrow> in_bm bm1 irq \<or> has_pin addr chips irq"
      using Cons.IH [of bm1] ch bm1(2) by auto
    have "in_bm bm irq \<or> has_pin addr (chip # chips) irq" if "irq < length bm * 32" "in_bm bm2 irq" for irq
      using bm2(3) bm1(3) [OF that(1)] that hp True by (auto simp: has_pin_def split: if_splits)
    then show ?thesis using bm1(1) bm2(1,2) ok True by simp
  next
    case False
    then show ?thesis using Cons.IH [OF ch] hp by auto
  qed
qed simp

lemma irqchip_cell_init_spec:
  assumes ok: "chips_ok addr 32 chips" and len: "length bm = 32" "length root = 32" and z: "\<forall>irq. \<not> in_bm bm irq"
    and m: "mmio_region_register addr 0x1000 handler 0 mmio = Some mmio1"
  obtains bm1 root1 where "irqchip_cell_init addr mnt_irq 0 handler False chips bm root mmio = Some ((bm1, root1, mmio1), 0)" "length bm1 = 32" "length root1 = 32"
    "\<And>irq. 32 \<le> irq \<Longrightarrow> in_bm bm1 irq \<Longrightarrow> has_pin addr chips irq" "\<And>irq. irq < 1024 \<Longrightarrow> in_bm root1 irq \<longleftrightarrow> in_bm root irq \<and> \<not> has_pin addr chips irq"
proof -
  obtain bm1 where bm1: "copy_pins addr chips bm = Some (bm1, 0)" "length bm1 = 32" "\<forall>irq<1024. in_bm bm1 irq \<longrightarrow> has_pin addr chips irq"
    using copy_pins_spec [of addr bm chips] ok len z by auto
  obtain root1 where root1: "each_irqchip (\<lambda>v w. v AND NOT w) addr chips root = Some root1" "length root1 = 32"
    "\<forall>irq<1024. in_bm root1 irq \<longleftrightarrow> in_bm root irq \<and> \<not> has_pin addr chips irq"
    using each_irqchip_remove [of addr root chips] ok len by auto
  let ?bm2 = "bm1[0 := NOT (push_bit SGI_INJECT 1 OR push_bit SGI_EVENT 1 OR push_bit mnt_irq 1)]"
  have "in_bm ?bm2 irq = in_bm bm1 irq" if "32 \<le> irq" for irq using that by (simp add: in_bm_def)
  moreover have "in_bm bm1 irq \<Longrightarrow> irq < 1024" for irq using bm1(2) by (simp add: in_bm_def)
  moreover have "irqchip_cell_init addr mnt_irq 0 handler False chips bm root mmio = Some ((?bm2, root1, mmio1), 0)"
    using bm1(1,2) root1(1) m by (simp add: irqchip_cell_init_def arr_set_def)
  ultimately show ?thesis using that [of ?bm2 root1] bm1 root1 by simp
qed

lemma poke_hidden:
  assumes law: "gicd_laws g ist" and irq: "is_spi irq" "\<not> in_bm bm irq" and n: "n < 32" "n < length bm" and base: "base = 0x180 \<or> base = 0x380"
  shows "ist (gicd_write32 g (base + n * 4) (bm ! n) d) irq = ist d irq"
proof -
  have "(base + n * 4) mod 0x80 div 4 = n" using n base by (elim disjE) (simp_all add: mod_if)
  then have f: "irq_fields (base + n * 4) = Some (1, n * 32, True)" using n base by (auto simp: irq_fields_def)
  show ?thesis
  proof (rule gicd_lawsD [OF law _ _ irq(1) f])
    assume h: "holds_irq 1 (n * 32) irq"
    then have q: "irq div 32 = n" by (intro div_nat_eqI) (auto simp: holds_irq_def)
    then have "irq mod 32 = irq - n * 32" by (simp add: minus_div_mult_eq_mod [symmetric])
    then have "\<not> bit (bm ! n) (irq - n * 32)" using q irq(2) n h by (auto simp: in_bm_def holds_irq_def)
    then have "field 1 (irq - n * 32) (ucast (bm ! n)) = 0" by (intro field_0I) (auto simp: bit_ucast_iff dest: le_antisym)
    then show "if True then field 1 (irq - n * 32) (ucast (bm ! n)) = 0 else field 1 (irq - n * 32) (ucast (bm ! n)) = field 1 (irq - n * 32) (gicd_rd g 4 (gicd_base g + of_nat (base + n * 4)) d)"
      by simp
  qed (use n base in auto)
qed

lemma cell_reset_hidden:
  assumes "gicd_laws g ist" "is_spi irq" "\<not> in_bm bm irq" "length bm = 32"
  shows "ist (irqchip_cell_reset g bm d) irq = ist d irq"
proof -
  let ?f = "\<lambda>n d. gicd_write32 g (GICD_ICACTIVER + n * 4) (bm ! n) (gicd_write32 g (GICD_ICENABLER + n * 4) (bm ! n) d)"
  have "\<forall>n\<in>set ns. n < 32 \<Longrightarrow> ist (fold ?f ns d) irq = ist d irq" for ns d
  proof (induction ns arbitrary: d)
    case (Cons n ns)
    then have n: "n < 32" "n < length bm" using assms(4) by simp_all
    have "ist (?f n d) irq = ist d irq"
      using poke_hidden [OF assms(1-3) n, of "0x380"] poke_hidden [OF assms(1-3) n, of "0x180"] unfolding GICD_ICACTIVER_def GICD_ICENABLER_def by metis
    then show ?case using Cons.IH [of "?f n d"] Cons.prems by simp
  qed simp
  moreover have "\<forall>n\<in>set [1..<32 :: nat]. n < 32" unfolding set_upt by simp
  ultimately show ?thesis unfolding irqchip_cell_reset_def assms(4) by blast
qed

lemma irqchip_cell_exit_spec:
  assumes ok: "chips_ok addr 32 chips" "chips_ok addr 32 root_chips" and len: "length root = 32"
  obtains root1 where "irqchip_cell_exit g True addr chips root_chips bm (root, d) = Some (root1, irqchip_cell_reset g bm d)" "length root1 = 32"
    "\<And>irq. irq < 1024 \<Longrightarrow> in_bm root1 irq \<longleftrightarrow> (in_bm root irq \<or> has_pin addr chips irq) \<and> \<not> lacks_pin addr root_chips irq"
proof -
  obtain r1 where r1: "each_irqchip (\<lambda>v w. v OR w) addr chips root = Some r1" "length r1 = 32" "\<forall>irq<1024. in_bm r1 irq \<longleftrightarrow> in_bm root irq \<or> has_pin addr chips irq"
    using each_irqchip_add [of addr root chips] ok len by auto
  obtain r2 where r2: "each_irqchip (\<lambda>v w. v AND w) addr root_chips r1 = Some r2" "length r2 = 32" "\<forall>irq<1024. in_bm r2 irq \<longleftrightarrow> in_bm r1 irq \<and> \<not> lacks_pin addr root_chips irq"
    using each_irqchip_keep [of addr r1 root_chips] ok r1(2) by auto
  show ?thesis using r1 r2 by (intro that [of r2]) (simp_all add: irqchip_cell_exit_def)
qed

lemma in_bm_eqI:
  assumes "length a = 32" "length b = 32" "\<And>irq. irq < 1024 \<Longrightarrow> in_bm a irq = in_bm b irq"
  shows "a = b"
proof (rule nth_equalityI)
  fix n assume n: "n < length a"
  show "a ! n = b ! n"
  proof (rule bit_eqI)
    fix i assume "possible_bit TYPE(32 word) i"
    then have i: "i < 32" by simp
    then have "(32 * n + i) div 32 = n" "(32 * n + i) mod 32 = i" "32 * n + i < 1024" using n assms(1) by auto
    then show "bit (a ! n) i = bit (b ! n) i" using assms(3) [of "32 * n + i"] assms(1,2) by (simp add: in_bm_def)
  qed
qed (use assms in simp)

subsection \<open>Targets written by guests\<close>

lemma target_write_routed:
  assumes laws: "target_laws g" and w: "word_access off mmio" "acc_is_write mmio" and off: "0x820 \<le> off" "off < 0xbfc"
    and irq: "32 \<le> irq" "irq < 1024" "irqchip_irq_in_cell cell irq" "routed g tm cell d irq"
    and r: "gicv2_handle_irq_target g tm cell (off - 0x800) mmio d = ((mmio1, res), d1)"
  shows "routed g tm cell d1 irq"
proof (cases "target_loop tm cell (off - 0x800) mmio [0..<4] 0")
  case None
  have "is_spi (off - 0x800)" using off by (auto simp: is_spi_def)
  then show ?thesis using r None irq(4) off w by (auto simp: target_handler_word)
next
  case (Some m)
  let ?first = "off - 0x800" let ?v = "acc_value mmio AND ucast m OR ucast (gicd_read32 g off d AND NOT m)"
  have m4: "off mod 4 = 0" using w(1) by (simp add: word_access_def)
  define i where "i = ?first div 4"
  have i: "8 \<le> i" "i < 256" "GICD_ITARGETSR + i * 4 = off" "?first = i * 4" using off m4 by (auto simp: i_def GICD_ITARGETSR_def)
  have sp: "is_spi ?first" using off by (auto simp: is_spi_def)
  have d1: "d1 = gicd_write32 g off (ucast ?v) d" using r Some w off sp by (auto simp: target_handler_word Let_def)
  show ?thesis
  proof (cases "irq div 4 = i")
    case True
    obtain m' where m': "gicd_read32 g off d1 = ucast ?v AND m'" using target_lawsD(1) [OF laws i(1,2)] d1 i(3) by metis
    let ?n = "irq mod 4"
    have n: "?first + ?n = irq" "?n \<in> set [0..<4]" using True i(4) by (auto simp: mult.commute)
    have t: "gicv2_targets_in_cell tm cell (ucast (drop_bit (8 * ?n) (acc_value mmio)))"
      using target_loop_targets [OF Some w(2) n(2)] irq(3) n(1) by metis
    have "irq_targets g d1 irq = ucast (drop_bit (8 * ?n) (acc_value mmio)) AND ucast (drop_bit (?n * 8) m')"
    proof (rule bit_eqI)
      fix k assume "possible_bit TYPE(8 word) k"
      then have k: "k < 8" by simp
      have "?n < 4" by simp
      then have kn: "?n * 8 + k < 32" "(?n * 8 + k) div 8 = ?n" using k by (linarith, simp)
      have "bit m (?n * 8 + k)" using target_loop_mask [OF Some, of "?n * 8 + k"] kn irq(3) n by simp
      then have "bit (ucast ?v :: u32) (?n * 8 + k) = bit (acc_value mmio) (?n * 8 + k)"
        using kn(1) by (auto simp: bit_ucast_iff bit_or_iff bit_and_iff bit_not_iff)
      then show "bit (irq_targets g d1 irq) k = bit (ucast (drop_bit (8 * ?n) (acc_value mmio)) AND ucast (drop_bit (?n * 8) m') :: u8) k"
        using k unfolding irq_targets_def True i(3) m' byte_read bit_and_iff by (simp add: bit_ucast_iff bit_drop_bit_eq mult.commute)
    qed
    then show ?thesis using targets_mono [OF t] by (simp add: routed_iff)
  next
    case False
    have j: "8 \<le> irq div 4" "irq div 4 < 256" "i \<noteq> irq div 4" using irq(1,2) False by auto
    have "irq_targets g d1 irq = irq_targets g d irq"
      using target_lawsD(2) [OF laws i(1,2) j, of "ucast ?v" d] unfolding irq_targets_def d1 i(3) by simp
    then show ?thesis using irq(4) by (simp add: routed_iff)
  qed
qed

text \<open>A byte written to a priority register is checked against the owner of the first interrupt of its word.\<close>

lemma priority_byte:
  assumes "irq \<le> 1016"
  shows "gic_handle_dist_access g me cell \<lparr>acc_address = of_nat (GICD_IPRIORITYR + irq), acc_size = 1, acc_is_write = True, acc_value = v\<rparr> (d, y) =
    Some ((\<lparr>acc_address = of_nat (GICD_IPRIORITYR + irq), acc_size = 1, acc_is_write = True,
        acc_value = take_bit 8 (gicd_rd g 1 (gicd_base g + of_nat (GICD_IPRIORITYR + irq)) d) AND NOT (access_mask cell (irq div 4 * 4) 8 4) OR
          v AND access_mask cell (irq div 4 * 4) 8 4\<rparr>, MMIO_HANDLED),
      gicd_wr g 1 (gicd_base g + of_nat (GICD_IPRIORITYR + irq))
        (if irqchip_irq_in_cell cell (irq div 4 * 4) then take_bit 8 v else take_bit 8 (gicd_rd g 1 (gicd_base g + of_nat (GICD_IPRIORITYR + irq)) d)) d, y)"
proof -
  let ?a = "GICD_IPRIORITYR + irq" let ?m = "access_mask cell (irq div 4 * 4) 8 4" let ?old = "gicd_rd g 1 (gicd_base g + of_nat (GICD_IPRIORITYR + irq)) d"
  have a: "unat (of_nat ?a :: u64) = ?a" using assms by (simp add: unat_of_nat take_bit_nat_eq_self GICD_IPRIORITYR_def del: of_nat_add)
  have i: "?a mod 0x400 div 4 = irq div 4" using assms by (simp add: GICD_IPRIORITYR_def)
  have rg: "\<not> REG_RANGE GICD_IROUTER 1024 8 ?a" "\<not> REG_RANGE GICD_ITARGETSR 1024 1 ?a"
    "\<not> (REG_RANGE GICD_ICENABLER 32 4 ?a \<or> REG_RANGE GICD_ISENABLER 32 4 ?a \<or> REG_RANGE GICD_ICPENDR 32 4 ?a \<or>
      REG_RANGE GICD_ISPENDR 32 4 ?a \<or> REG_RANGE GICD_ICACTIVER 32 4 ?a \<or> REG_RANGE GICD_ISACTIVER 32 4 ?a)"
    "\<not> REG_RANGE GICD_IGROUPR 32 4 ?a" "\<not> REG_RANGE GICD_ICFGR 64 4 ?a" "REG_RANGE GICD_IPRIORITYR 255 4 ?a"
    using assms by (simp_all add: REG_RANGE_def gicd_offsets)
  have v: "take_bit 8 (take_bit 8 ?old AND NOT ?m OR v AND ?m) = (if irqchip_irq_in_cell cell (irq div 4 * 4) then take_bit 8 v else take_bit 8 ?old)"
  proof (rule bit_eqI)
    fix k
    have "bit (take_bit 8 ?m) k \<longleftrightarrow> k < 8 \<and> irqchip_irq_in_cell cell (irq div 4 * 4)" by (auto simp: bit_take_bit_iff access_mask_bit)
    then show "bit (take_bit 8 (take_bit 8 ?old AND NOT ?m OR v AND ?m)) k = bit (if irqchip_irq_in_cell cell (irq div 4 * 4) then take_bit 8 v else take_bit 8 ?old) k"
      by (auto simp: bit_take_bit_iff bit_and_iff bit_or_iff bit_not_iff dest: bit_imp_le_length)
  qed
  show ?thesis unfolding gic_handle_dist_access_def Let_def mmio_access.simps a i using rg v
    by (simp add: restrict_bitmask_access_def ffsl_bits drop_bit_eq_div Let_def mmio_perform_access_def del: of_nat_add take_bit_or take_bit_and)
qed

subsection \<open>An example\<close>

text \<open>A distributor that keeps enable bits and plain registers.\<close>

definition demo_wr :: "nat \<Rightarrow> u64 \<Rightarrow> u64 \<Rightarrow> (nat \<Rightarrow> u64) \<Rightarrow> nat \<Rightarrow> u64" where
  "demo_wr n a v d =
     (let off = unat a in
      if 0x100 \<le> off \<and> off < 0x180 then d(off := d off OR v)
      else if 0x180 \<le> off \<and> off < 0x200 then d(off - 0x80 := d (off - 0x80) AND NOT v)
      else d(off := v))"

definition demo_gicd :: "(nat \<Rightarrow> u64) gicd" where
  "demo_gicd = \<lparr>gicd_base = 0, gicd_rd = (\<lambda>n a d. d (unat a)), gicd_wr = demo_wr\<rparr>"

definition demo_ist :: "(nat \<Rightarrow> u64) \<Rightarrow> nat \<Rightarrow> u64 \<times> u64" where
  "demo_ist d irq = (field 1 (irq mod 32) (d (0x100 + irq div 32 * 4)), field 8 (irq mod 4) (d (0x400 + irq div 4 * 4)))"

lemma field_1: "field 1 k v = field 1 k w \<longleftrightarrow> bit v k = bit w k"
  by (simp add: field_def take_bit_eq_mod mod_2_eq_odd bit_iff_odd_drop_bit)

lemma demo_off: "off < 0x1000 \<Longrightarrow> unat (of_nat off :: u64) = off"
  by (simp add: unat_of_nat take_bit_nat_eq_self)

lemma demo_enable:
  assumes "off < 0x1000" "off mod 4 = 0" "\<not> affects off old v irq" and that: "is_spi irq"
  shows "field 1 (irq mod 32) (demo_wr 4 (of_nat off) v d (0x100 + irq div 32 * 4)) = field 1 (irq mod 32) (d (0x100 + irq div 32 * 4))"
proof (cases "off = 0x100 + irq div 32 * 4 \<or> off = 0x180 + irq div 32 * 4")
  case True
  have "irq div 32 < 32" using that by (auto simp: is_spi_def)
  moreover from this have "(0x100 + irq div 32 * 4) mod 0x80 div 4 = irq div 32" "(0x180 + irq div 32 * 4) mod 0x80 div 4 = irq div 32" by (simp_all add: mod_if)
  ultimately have "irq_fields off = Some (1, irq div 32 * 32, True)" using True by (auto simp: irq_fields_def)
  moreover have "holds_irq 1 (irq div 32 * 32) irq" "irq - irq div 32 * 32 = irq mod 32" by (auto simp: holds_irq_def minus_div_mult_eq_mod)
  ultimately have "field 1 (irq mod 32) v = field 1 (irq mod 32) 0" using assms(3) by (simp add: affects_def field_def)
  then have "\<not> bit v (irq mod 32)" unfolding field_1 by simp
  moreover have "irq mod 32 < 64" by (rule less_trans [of _ 32]) simp_all
  ultimately show ?thesis unfolding field_1 demo_wr_def demo_off [OF assms(1)] Let_def
    using True \<open>irq div 32 < 32\<close> by (elim disjE) (simp_all add: bit_or_iff bit_and_iff bit_not_iff)
next
  case False
  have "irq div 32 < 32" using that by (auto simp: is_spi_def)
  then show ?thesis using False assms(1) unfolding demo_wr_def demo_off [OF assms(1)] Let_def by auto
qed

lemma demo_priority:
  assumes "off < 0x1000" "off mod 4 = 0" "\<not> affects off (d off) v irq" "is_spi irq"
  shows "field 8 (irq mod 4) (demo_wr 4 (of_nat off) v d (0x400 + irq div 4 * 4)) = field 8 (irq mod 4) (d (0x400 + irq div 4 * 4))"
proof (cases "off = 0x400 + irq div 4 * 4")
  case True
  have "irq div 4 * 4 < 0x400" using assms(4) by (auto simp: is_spi_def)
  then have "irq_fields off = Some (8, irq div 4 * 4, False)" using True by (simp add: irq_fields_def)
  moreover have "holds_irq 8 (irq div 4 * 4) irq" "irq - irq div 4 * 4 = irq mod 4" by (auto simp: holds_irq_def minus_div_mult_eq_mod)
  ultimately have "field 8 (irq mod 4) v = field 8 (irq mod 4) (d off)" using assms(3) by (simp add: affects_def)
  then show ?thesis using True unfolding demo_wr_def demo_off [OF assms(1)] Let_def by simp
next
  case False
  then show ?thesis unfolding demo_wr_def demo_off [OF assms(1)] Let_def by auto
qed

lemma demo_laws: "gicd_laws demo_gicd demo_ist" "target_laws demo_gicd"
proof -
  show "gicd_laws demo_gicd demo_ist" unfolding gicd_laws_def demo_ist_def demo_gicd_def gicd.simps
    using demo_enable demo_priority by (auto simp: demo_off)
  show "target_laws demo_gicd" unfolding target_laws_def
  proof (intro allI ballI conjI)
    fix d :: "nat \<Rightarrow> u64" and v :: u32 and i :: nat assume i: "i \<in> {8..<256}"
    have o: "unat (of_nat (GICD_ITARGETSR + j * 4) :: u64) = 0x800 + j * 4" if "j \<in> {8..<256}" for j
      using that demo_off [of "GICD_ITARGETSR + j * 4"] by (simp add: GICD_ITARGETSR_def)
    have "ucast (ucast w :: u64) = w" for w :: u32 by (rule bit_eqI) (simp add: bit_ucast_iff)
    note uc = this
    have "gicd_read32 demo_gicd (GICD_ITARGETSR + i * 4) (gicd_write32 demo_gicd (GICD_ITARGETSR + i * 4) v d) = v AND - 1"
      using o [OF i] uc by (simp add: demo_gicd_def demo_wr_def Let_def del: of_nat_add of_nat_mult)
    then show "\<exists>m. gicd_read32 demo_gicd (GICD_ITARGETSR + i * 4) (gicd_write32 demo_gicd (GICD_ITARGETSR + i * 4) v d) = v AND m" by blast
    fix j assume j: "j \<in> {8..<256} - {i}"
    then show "gicd_read32 demo_gicd (GICD_ITARGETSR + j * 4) (gicd_write32 demo_gicd (GICD_ITARGETSR + i * 4) v d) = gicd_read32 demo_gicd (GICD_ITARGETSR + j * 4) d"
      using o [OF i] o [of j] by (simp add: demo_gicd_def demo_wr_def Let_def del: of_nat_add of_nat_mult)
  qed
qed

text \<open>The cell owns interrupt 32 and CPU 1, the root cell interrupt 33 and CPU 0.\<close>

definition demo_cell :: gic_cell where
  "demo_cell = \<lparr>irq_bitmap = 0 # 1 # replicate 30 0, gic_cpu_set = \<lparr>max_cpu_id = 7, bitmap = [2]\<rparr>, cpu_in_cell = (\<lambda>c. c = 1)\<rparr>"

definition demo_root :: gic_cell where
  "demo_root = \<lparr>irq_bitmap = 0 # 2 # replicate 30 0, gic_cpu_set = \<lparr>max_cpu_id = 7, bitmap = [1]\<rparr>, cpu_in_cell = (\<lambda>c. c = 0)\<rparr>"

definition demo_map :: "u8 list" where
  "demo_map = [1, 2, 4, 8, 0, 0, 0, 0]"

definition demo_write :: "nat \<Rightarrow> u64 \<Rightarrow> mmio_access" where
  "demo_write off v = \<lparr>acc_address = of_nat off, acc_size = 4, acc_is_write = True, acc_value = v\<rparr>"

lemma demo_in_cell: "\<not> irqchip_irq_in_cell demo_cell 33" "irqchip_irq_in_cell demo_cell 32" "irqchip_irq_in_cell demo_root 33"
  by code_simp+

lemma demo_has_cpu: "has_cpu demo_map demo_cell" "has_cpu demo_map demo_root"
  by code_simp+

lemma demo_map_ok: "target_map_ok demo_map"
proof -
  have "\<forall>i\<in>set [0..<8]. \<forall>j\<in>set [0..<8]. i = j \<or> demo_map ! i AND demo_map ! j = 0" by code_simp
  moreover have "length demo_map = 8" by (simp add: demo_map_def)
  ultimately show ?thesis unfolding target_map_ok_def set_upt by (metis atLeastLessThan_iff zero_le)
qed

lemma demo_one_owner: "one_owner demo_cell demo_root"
  by (auto simp: one_owner_def irq_in_cell_bit demo_cell_def demo_root_def nth_Cons' bit_1_iff bit_2_iff split: if_splits)

subsection \<open>The properties\<close>

text \<open>C36: A guest cannot touch the interrupts of other cells through the distributor. Whatever word it reads or writes, \<open>gic_handle_dist_access\<close> returns,
  the state of a shared interrupt that is not of its cell stays as it is, and what it reads shows zero in the fields of such an interrupt.
  (A write to the register that sends interrupts is routed by \<open>gic_handle_sgir_write\<close>.) The state and the registers of the
  distributor are arguments; a word is taken to change only interrupts whose bits it sets, or whose fields it changes.\<close>

theorem dist_access_isolated:
  assumes "gicd_laws g ist" "word_access off mmio" "off \<noteq> GICD_SGIR \<or> \<not> acc_is_write mmio" "is_spi irq" "\<not> irqchip_irq_in_cell cell irq"
  shows "\<exists>mmio1 res d1. gic_handle_dist_access g me cell mmio (d, y) = Some ((mmio1, res), d1, y) \<and> ist d1 irq = ist d irq \<and>
    (\<not> acc_is_write mmio \<longrightarrow> d1 = d \<and> (\<forall>b first poke. irq_fields off = Some (b, first, poke) \<longrightarrow> holds_irq b first irq \<longrightarrow> field b (irq - first) (acc_value mmio1) = 0))"
  using dist_access_hidden [OF assms(1,2,4,5,3)] unfolding hidden_def by metis

theorem dist_access_isolated_witness:
  "\<exists>mmio1 res d1. gic_handle_dist_access demo_gicd 1 demo_cell (demo_write (GICD_ISENABLER + 4) 3) (\<lambda>_. 0, demo_irq_sys) = Some ((mmio1, res), d1, demo_irq_sys) \<and>
    demo_ist d1 33 = demo_ist (\<lambda>_. 0) 33"
proof -
  have "word_access (GICD_ISENABLER + 4) (demo_write (GICD_ISENABLER + 4) 3)" by (simp add: word_access_def demo_write_def GICD_ISENABLER_def)
  moreover have "GICD_ISENABLER + 4 \<noteq> GICD_SGIR \<or> \<not> acc_is_write (demo_write (GICD_ISENABLER + 4) 3)" by (simp add: gicd_offsets)
  moreover have "is_spi 33" by (simp add: is_spi_def)
  ultimately show ?thesis using dist_access_isolated [OF demo_laws(1) _ _ _ demo_in_cell(1), of "GICD_ISENABLER + 4" _ 1 "\<lambda>_. 0" demo_irq_sys] by blast
qed

text \<open>C37: Shared interrupts are routed into their cell. After \<open>irqchip_config_commit\<close>, which always returns, every shared interrupt of the new cell and of the
  root cell targets only CPUs of its cell; and when a guest writes a word (32 bits, aligned) of target registers, each interrupt of its cell that was routed into the
  cell still is, whether the write is carried out or refused. Byte and halfword writes are not covered. Assumed are target registers that keep what is written
  apart from bits that read as zero, target bytes that differ between CPUs, a CPU in each of the two cells, and that no shared interrupt is in both.\<close>

theorem irq_routing_inside:
  assumes "target_laws g" "target_map_ok (gicv2_target_cpu_map y)"
    "has_cpu (gicv2_target_cpu_map y) cell" "has_cpu (gicv2_target_cpu_map y) root" "one_owner cell root" "length (irq_bitmap cell) = 32" "length (irq_bitmap root) = 32"
  shows "(\<exists>d'. irqchip_config_commit g (gicv2_target_cpu_map y) (Some cell) root d = Some d' \<and>
      (\<forall>irq. 32 \<le> irq \<longrightarrow> (irqchip_irq_in_cell cell irq \<longrightarrow> routed g (gicv2_target_cpu_map y) cell d' irq) \<and>
        (irqchip_irq_in_cell root irq \<longrightarrow> routed g (gicv2_target_cpu_map y) root d' irq))) \<and>
    (\<forall>off mmio irq mmio1 res d1. word_access off mmio \<longrightarrow> acc_is_write mmio \<longrightarrow> 0x820 \<le> off \<longrightarrow> off < 0xbfc \<longrightarrow>
      gic_handle_dist_access g me cell mmio (d, y) = Some ((mmio1, res), d1, y) \<longrightarrow>
      32 \<le> irq \<longrightarrow> irqchip_irq_in_cell cell irq \<longrightarrow> routed g (gicv2_target_cpu_map y) cell d irq \<longrightarrow> routed g (gicv2_target_cpu_map y) cell d1 irq)"
proof (intro conjI allI impI)
  show "\<exists>d'. irqchip_config_commit g (gicv2_target_cpu_map y) (Some cell) root d = Some d' \<and>
      (\<forall>irq. 32 \<le> irq \<longrightarrow> (irqchip_irq_in_cell cell irq \<longrightarrow> routed g (gicv2_target_cpu_map y) cell d' irq) \<and>
        (irqchip_irq_in_cell root irq \<longrightarrow> routed g (gicv2_target_cpu_map y) root d' irq))"
    using config_commit_routes [OF assms, of d] by metis
next
  fix off mmio irq mmio1 res d1
  assume a: "word_access off mmio" "acc_is_write mmio" "0x820 \<le> off" "off < 0xbfc" "gic_handle_dist_access g me cell mmio (d, y) = Some ((mmio1, res), d1, y)"
    "32 \<le> irq" "irqchip_irq_in_cell cell irq" "routed g (gicv2_target_cpu_map y) cell d irq"
  have "irq < 1024" using a(7) assms(6) by (auto simp: irqchip_irq_in_cell_def split: if_splits)
  moreover have "gicv2_handle_irq_target g (gicv2_target_cpu_map y) cell (off - 0x800) mmio d = ((mmio1, res), d1)"
    using a(3-5) by (auto simp: dist_access_word [OF a(1)] split: prod.splits)
  ultimately show "routed g (gicv2_target_cpu_map y) cell d1 irq" using target_write_routed [OF assms(1) a(1-4,6)] a(7,8) by blast
qed

definition demo_gic_sys :: irq_sys where
  "demo_gic_sys = demo_irq_sys\<lparr>gicv2_target_cpu_map := demo_map\<rparr>"

theorem irq_routing_inside_witness:
  "\<exists>d'. irqchip_config_commit demo_gicd demo_map (Some demo_cell) demo_root (\<lambda>_. 0xffffffff) = Some d' \<and>
     routed demo_gicd demo_map demo_cell d' 32 \<and> routed demo_gicd demo_map demo_root d' 33"
proof -
  have m: "gicv2_target_cpu_map demo_gic_sys = demo_map" by (simp add: demo_gic_sys_def)
  have l: "length (irq_bitmap demo_cell) = 32" "length (irq_bitmap demo_root) = 32" by (simp_all add: demo_cell_def demo_root_def)
  obtain d' where "irqchip_config_commit demo_gicd demo_map (Some demo_cell) demo_root (\<lambda>_. 0xffffffff) = Some d'"
    "\<forall>irq. 32 \<le> irq \<longrightarrow> (irqchip_irq_in_cell demo_cell irq \<longrightarrow> routed demo_gicd demo_map demo_cell d' irq) \<and>
      (irqchip_irq_in_cell demo_root irq \<longrightarrow> routed demo_gicd demo_map demo_root d' irq)"
    using irq_routing_inside [OF demo_laws(2), of demo_gic_sys demo_cell demo_root "\<lambda>_. 0xffffffff", unfolded m, OF demo_map_ok demo_has_cpu demo_one_owner l] by blast
  then show ?thesis using demo_in_cell by simp
qed

text \<open>C38: Interrupts of a new cell. For a valid configuration \<open>irqchip_cell_init\<close> returns 0, gives the cell only shared interrupts its configuration names,
  and takes exactly those from the root cell, so that no shared interrupt has two owners. \<open>irqchip_cell_exit\<close> then gives the configured interrupts to the root cell, apart from
  those a chip of the root cell covers and leaves out, and changes no interrupt of another cell; when the configured interrupts had been the root cell's, the
  root cell has its old interrupts again.\<close>

theorem cell_irqs_roundtrip:
  assumes "chips_ok addr 32 chips" "chips_ok addr 32 root_chips" "length bm = 32" "length root = 32" "\<forall>irq. \<not> in_bm bm irq"
    "mmio_region_register addr 0x1000 handler 0 mmio = Some mmio1" "gicd_laws g ist"
  shows "\<exists>bm1 root1 root2 d2. irqchip_cell_init addr mnt_irq 0 handler False chips bm root mmio = Some ((bm1, root1, mmio1), 0) \<and>
    (\<forall>irq\<ge>32. (in_bm bm1 irq \<longrightarrow> has_pin addr chips irq \<and> \<not> in_bm root1 irq) \<and> (in_bm root1 irq \<longleftrightarrow> in_bm root irq \<and> \<not> has_pin addr chips irq)) \<and>
    irqchip_cell_exit g True addr chips root_chips bm1 (root1, d) = Some (root2, d2) \<and>
    (\<forall>irq<1024. in_bm root2 irq \<longleftrightarrow> (in_bm root irq \<or> has_pin addr chips irq) \<and> \<not> lacks_pin addr root_chips irq) \<and>
    (\<forall>irq. is_spi irq \<longrightarrow> \<not> has_pin addr chips irq \<longrightarrow> ist d2 irq = ist d irq) \<and>
    ((\<forall>irq<1024. has_pin addr chips irq \<longrightarrow> in_bm root irq) \<longrightarrow> (\<forall>irq<1024. in_bm root irq \<longrightarrow> \<not> lacks_pin addr root_chips irq) \<longrightarrow> root2 = root)"
proof -
  obtain bm1 root1 where i: "irqchip_cell_init addr mnt_irq 0 handler False chips bm root mmio = Some ((bm1, root1, mmio1), 0)" "length bm1 = 32" "length root1 = 32"
    "\<And>irq. 32 \<le> irq \<Longrightarrow> in_bm bm1 irq \<Longrightarrow> has_pin addr chips irq" "\<And>irq. irq < 1024 \<Longrightarrow> in_bm root1 irq \<longleftrightarrow> in_bm root irq \<and> \<not> has_pin addr chips irq"
    using irqchip_cell_init_spec [OF assms(1,3-6), of mnt_irq] by metis
  obtain root2 where e: "irqchip_cell_exit g True addr chips root_chips bm1 (root1, d) = Some (root2, irqchip_cell_reset g bm1 d)" "length root2 = 32"
    "\<And>irq. irq < 1024 \<Longrightarrow> in_bm root2 irq \<longleftrightarrow> (in_bm root1 irq \<or> has_pin addr chips irq) \<and> \<not> lacks_pin addr root_chips irq"
    using irqchip_cell_exit_spec [OF assms(1,2) i(3), of g bm1 d] by metis
  have lt: "in_bm root1 irq \<Longrightarrow> irq < 1024" "in_bm root irq \<Longrightarrow> irq < 1024" for irq using i(3) assms(4) by (simp_all add: in_bm_def)
  have own: "(in_bm bm1 irq \<longrightarrow> has_pin addr chips irq \<and> \<not> in_bm root1 irq) \<and> (in_bm root1 irq \<longleftrightarrow> in_bm root irq \<and> \<not> has_pin addr chips irq)" if "32 \<le> irq" for irq
    using i(4) [OF that] i(5) lt by blast
  have ex: "in_bm root2 irq \<longleftrightarrow> (in_bm root irq \<or> has_pin addr chips irq) \<and> \<not> lacks_pin addr root_chips irq" if "irq < 1024" for irq
    using e(3) i(5) that by blast
  have "ist (irqchip_cell_reset g bm1 d) irq = ist d irq" if "is_spi irq" "\<not> has_pin addr chips irq" for irq
    using cell_reset_hidden [OF assms(7) that(1) _ i(2)] own [of irq] that by (auto simp: is_spi_def)
  moreover have "root2 = root" if "\<forall>irq<1024. has_pin addr chips irq \<longrightarrow> in_bm root irq" "\<forall>irq<1024. in_bm root irq \<longrightarrow> \<not> lacks_pin addr root_chips irq"
    using in_bm_eqI [OF e(2) assms(4)] ex that by blast
  ultimately show ?thesis using i(1) e(1) own ex by blast
qed

text \<open>The root cell has interrupts 32 and 33 and gives the first away.\<close>

definition demo_chip :: "u32 \<Rightarrow> jailhouse_irqchip" where
  "demo_chip w = \<lparr>chip_address = 0x2f000000, chip_id = 0, pin_base = 32, pin_bitmap = [w, 0, 0, 0]\<rparr>"

definition demo_mmio :: "nat \<Rightarrow> u64 \<Rightarrow> u64 \<Rightarrow> nat \<Rightarrow> mmio_table" where
  "demo_mmio n a b h = \<lparr>mmio_locations = [\<lparr>loc_start = a, loc_size = b\<rparr>], mmio_handlers = [\<lparr>hnd_handler = h, hnd_arg = 0\<rparr>], num_mmio_regions = n, max_mmio_regions = 1\<rparr>"

lemma demo_register: "mmio_region_register 0x2f000000 0x1000 7 0 (demo_mmio 0 0 0 0) = Some (demo_mmio 1 0x2f000000 0x1000 7)"
  by code_simp

lemma demo_chips_ok: "chips_ok 0x2f000000 32 [demo_chip w]"
  by (simp add: chips_ok_def demo_chip_def)

lemma demo_pin: "has_pin 0x2f000000 [demo_chip 1] irq \<Longrightarrow> irq = 32"
  by (auto simp: has_pin_def demo_chip_def chip_covers_def chip_pin_def nth_Cons' bit_1_iff split: if_splits)

lemma demo_root_irqs: "in_bm (0 # 3 # replicate 30 0) irq \<longleftrightarrow> irq \<in> {32, 33}"
proof
  have three: "bit (3 :: u32) n \<Longrightarrow> n < 2" for n using bit_mask_iff [of 2 n, where 'a = "32 word"] by (simp add: mask_eq_exp_minus_1)
  assume "in_bm (0 # 3 # replicate 30 0) irq"
  then have "irq div 32 = 1" "bit (3 :: u32) (irq mod 32)" by (auto simp: in_bm_def nth_Cons' split: if_splits)
  then show "irq \<in> {32, 33}" using three [of "irq mod 32"] div_mult_mod_eq [of irq 32] by auto
qed (auto simp: in_bm_def)

lemma demo_root_pins: "irq \<in> {32, 33} \<Longrightarrow> \<not> lacks_pin 0x2f000000 [demo_chip 3] irq"
  by (auto simp: lacks_pin_def demo_chip_def chip_pin_def)

theorem cell_irqs_roundtrip_witness:
  "\<exists>bm1 root1 d2. irqchip_cell_init 0x2f000000 25 0 7 False [demo_chip 1] (replicate 32 0) (0 # 3 # replicate 30 0) (demo_mmio 0 0 0 0) =
      Some ((bm1, root1, demo_mmio 1 0x2f000000 0x1000 7), 0) \<and> \<not> in_bm root1 32 \<and> in_bm root1 33 \<and>
    irqchip_cell_exit demo_gicd True 0x2f000000 [demo_chip 1] [demo_chip 3] bm1 (root1, \<lambda>_. 0) = Some (0 # 3 # replicate 30 0, d2)"
proof -
  have l: "length (replicate 32 (0 :: u32)) = 32" "length (0 # 3 # replicate 30 (0 :: u32)) = 32" "\<forall>irq. \<not> in_bm (replicate 32 0) irq"
    by (simp_all add: in_bm_def div_less_iff_less_mult)
  have p: "has_pin 0x2f000000 [demo_chip 1] 32" "\<not> has_pin 0x2f000000 [demo_chip 1] 33"
    using demo_pin by (auto simp: has_pin_def demo_chip_def chip_covers_def chip_pin_def)
  have "\<forall>irq<1024. has_pin 0x2f000000 [demo_chip 1] irq \<longrightarrow> in_bm (0 # 3 # replicate 30 0) irq" using demo_pin unfolding demo_root_irqs by auto
  moreover have "\<forall>irq<1024. in_bm (0 # 3 # replicate 30 0) irq \<longrightarrow> \<not> lacks_pin 0x2f000000 [demo_chip 3] irq" using demo_root_pins unfolding demo_root_irqs by blast
  moreover have "in_bm (0 # 3 # replicate 30 0) 33" unfolding demo_root_irqs by simp
  moreover obtain bm1 root1 root2 d2 where "irqchip_cell_init 0x2f000000 25 0 7 False [demo_chip 1] (replicate 32 0) (0 # 3 # replicate 30 0) (demo_mmio 0 0 0 0) =
      Some ((bm1, root1, demo_mmio 1 0x2f000000 0x1000 7), 0)"
    "\<forall>irq\<ge>32. in_bm root1 irq \<longleftrightarrow> in_bm (0 # 3 # replicate 30 0) irq \<and> \<not> has_pin 0x2f000000 [demo_chip 1] irq"
    "irqchip_cell_exit demo_gicd True 0x2f000000 [demo_chip 1] [demo_chip 3] bm1 (root1, \<lambda>_. 0) = Some (root2, d2)"
    "(\<forall>irq<1024. has_pin 0x2f000000 [demo_chip 1] irq \<longrightarrow> in_bm (0 # 3 # replicate 30 0) irq) \<longrightarrow>
      (\<forall>irq<1024. in_bm (0 # 3 # replicate 30 0) irq \<longrightarrow> \<not> lacks_pin 0x2f000000 [demo_chip 3] irq) \<longrightarrow> root2 = 0 # 3 # replicate 30 0"
    using cell_irqs_roundtrip [OF demo_chips_ok [of 1] demo_chips_ok [of 3] l demo_register demo_laws(1), of 25 "\<lambda>_. 0"] by blast
  ultimately show ?thesis using p by (intro exI [of _ bm1] exI [of _ root1] exI [of _ d2]) simp
qed

text \<open>C39: A byte written to a priority register is checked against the wrong interrupt. For every interrupt up to 1016 the write of a guest goes to the distributor unchanged
  when the cell owns the first interrupt of the word, whoever owns the interrupt itself, and leaves the priority as it is otherwise: a cell
  with interrupt \<open>4 k\<close> can set the priorities of the three interrupts behind it, and cannot set its own ones byte by byte without it.\<close>

theorem priority_byte_unchecked:
  assumes "irq \<le> 1016"
  shows "\<exists>mmio1. gic_handle_dist_access g me cell \<lparr>acc_address = of_nat (GICD_IPRIORITYR + irq), acc_size = 1, acc_is_write = True, acc_value = v\<rparr> (d, y) =
    Some ((mmio1, MMIO_HANDLED), gicd_wr g 1 (gicd_base g + of_nat (GICD_IPRIORITYR + irq))
      (if irqchip_irq_in_cell cell (irq div 4 * 4) then take_bit 8 v else take_bit 8 (gicd_rd g 1 (gicd_base g + of_nat (GICD_IPRIORITYR + irq)) d)) d, y)"
  unfolding priority_byte [OF assms] by blast

theorem priority_byte_unchecked_witness:
  "\<not> irqchip_irq_in_cell demo_cell 33 \<and>
   (\<exists>mmio1. gic_handle_dist_access demo_gicd 1 demo_cell \<lparr>acc_address = of_nat (GICD_IPRIORITYR + 33), acc_size = 1, acc_is_write = True, acc_value = 0x20\<rparr> (\<lambda>_. 0xa0, demo_irq_sys) =
     Some ((mmio1, MMIO_HANDLED), gicd_wr demo_gicd 1 (gicd_base demo_gicd + of_nat (GICD_IPRIORITYR + 33)) 0x20 (\<lambda>_. 0xa0), demo_irq_sys))"
proof -
  have "(33 :: nat) div 4 * 4 = 32" by simp
  moreover have "take_bit 8 (0x20 :: u64) = 0x20" by simp
  ultimately show ?thesis using priority_byte_unchecked [of 33 demo_gicd 1 demo_cell "0x20" "\<lambda>_. 0xa0" demo_irq_sys] demo_in_cell by simp
qed

end
