(* ===== verification/SchedNodes.thy ===== *)
theory SchedNodes
  imports Prelude "HOL-Library.Monad_Syntax" "HOL-Library.Multiset"
begin

text \<open>
  Scheduler nodes (\<open>OsEE_SN\<close>) as linked lists in memory: the allocation and release of nodes
  (\<^verbatim>\<open>ee_files/pkg/kernel/oo/ee_scheduler_types.h\<close>), the ordered insertion
  \<open>osEE_sn_priority_insert\<close> (\<^verbatim>\<open>ee_oo_scheduler.c\<close>) and the list helpers of
  \<^verbatim>\<open>ee_files/pkg/arch/aarch64/dprem.c\<close>.

  A node is a number, the field \<open>p_next\<close> of all nodes a function (\<open>None\<close> is NULL). The
  operations are written with the pointer updates of the C text; their loops are partial functions
  because a cyclic list would never end. \<open>list_at\<close> relates a head pointer to the list it
  represents, and each operation is shown to end and to implement a plain list function, which the
  kernel theories then use. Nodes outside the list are untouched (frame).
\<close>

type_synonym sn = nat
type_synonym heap = "sn \<Rightarrow> sn option"

subsection \<open>Operations on the heap\<close>

text \<open>The result is the node, the new head of the free list and the heap; NULL is dereferenced on an empty list.\<close>

definition osEE_sn_alloc :: "sn option \<Rightarrow> heap \<Rightarrow> (sn \<times> sn option \<times> heap) option" where
  "osEE_sn_alloc first nx =
     (case first of None \<Rightarrow> None | Some p_sn_allocated \<Rightarrow>
        Some (p_sn_allocated, nx p_sn_allocated, nx(p_sn_allocated := None)))"

definition osEE_sn_release :: "sn option \<Rightarrow> sn \<Rightarrow> heap \<Rightarrow> sn option \<times> heap" where
  "osEE_sn_release first p_to_free nx = (Some p_to_free, nx(p_to_free := first))"

text \<open>
  The traversal of \<open>osEE_sn_priority_insert\<close>: \<open>prio\<close> is the priority read through the node's
  task (\<open>ready_prio\<close> or \<open>current_prio\<close>, by \<open>as_ready\<close>).
\<close>

partial_function (option) prio_scan ::
  "(sn \<Rightarrow> nat) \<Rightarrow> heap \<Rightarrow> nat \<Rightarrow> sn option \<Rightarrow> sn option \<Rightarrow> (sn option \<times> sn option) option" where
  "prio_scan prio nx new_task_prio p_prev p_curr =
     (case p_curr of None \<Rightarrow> Some (p_prev, None)
      | Some c \<Rightarrow> if new_task_prio \<le> prio c then prio_scan prio nx new_task_prio (Some c) (nx c)
                  else Some (p_prev, Some c))"

definition osEE_sn_priority_insert ::
  "(sn \<Rightarrow> nat) \<Rightarrow> sn option \<Rightarrow> sn \<Rightarrow> heap \<Rightarrow> (sn option \<times> heap \<times> bool) option" where
  "osEE_sn_priority_insert prio first p_sn_new nx =
     prio_scan prio nx (prio p_sn_new) None first \<bind> (\<lambda>(p_prev, p_curr).
     let (first1, nx1, head_changed) =
       (case p_prev of Some p \<Rightarrow> (first, nx(p := Some p_sn_new), False)
        | None \<Rightarrow> (Some p_sn_new, nx, True)) in
     Some (first1, nx1(p_sn_new := p_curr), head_changed))"

partial_function (option) list_remove_loop :: "sn option \<Rightarrow> sn \<Rightarrow> heap \<Rightarrow> heap option" where
  "list_remove_loop p_curr_sn p_sn nx =
     (case p_curr_sn of None \<Rightarrow> Some nx
      | Some c \<Rightarrow> if nx c = Some p_sn then Some (nx(c := nx p_sn)) else list_remove_loop (nx c) p_sn nx)"

definition list_remove :: "sn option \<Rightarrow> sn \<Rightarrow> heap \<Rightarrow> (sn option \<times> heap) option" where
  "list_remove first p_sn nx =
     (if first = Some p_sn then Some (nx p_sn, nx)
      else list_remove_loop first p_sn nx \<bind> (\<lambda>nx'. Some (first, nx')))"

definition list_push_to_head :: "sn option \<Rightarrow> sn \<Rightarrow> heap \<Rightarrow> sn option \<times> heap" where
  "list_push_to_head first p_sn nx = (Some p_sn, nx(p_sn := first))"

partial_function (option) list_insert_before_loop :: "sn option \<Rightarrow> sn \<Rightarrow> sn option \<Rightarrow> heap \<Rightarrow> heap option" where
  "list_insert_before_loop p_curr_sn p_sn p_ref_sn nx =
     (case p_curr_sn of None \<Rightarrow> Some nx
      | Some c \<Rightarrow> if nx c = p_ref_sn \<or> nx c = None then Some (nx(p_sn := nx c, c := Some p_sn))
                  else list_insert_before_loop (nx c) p_sn p_ref_sn nx)"

definition list_insert_before :: "sn option \<Rightarrow> sn \<Rightarrow> sn option \<Rightarrow> heap \<Rightarrow> (sn option \<times> heap) option" where
  "list_insert_before first p_sn p_ref_sn nx =
     (if first = None then Some (Some p_sn, nx(p_sn := None))
      else list_insert_before_loop first p_sn p_ref_sn nx \<bind> (\<lambda>nx'. Some (first, nx')))"

definition list_push_to_tail :: "sn option \<Rightarrow> sn \<Rightarrow> heap \<Rightarrow> (sn option \<times> heap) option" where
  "list_push_to_tail first p_sn nx = list_insert_before first p_sn None nx"

partial_function (option) list_insert_after_loop :: "sn option \<Rightarrow> sn \<Rightarrow> sn option \<Rightarrow> heap \<Rightarrow> heap option" where
  "list_insert_after_loop p_curr_sn p_sn p_ref_sn nx =
     (case p_curr_sn of None \<Rightarrow> Some nx
      | Some c \<Rightarrow> if Some c = p_ref_sn then Some (nx(p_sn := nx c, c := Some p_sn))
                  else list_insert_after_loop (nx c) p_sn p_ref_sn nx)"

definition list_insert_after :: "sn option \<Rightarrow> sn \<Rightarrow> sn option \<Rightarrow> heap \<Rightarrow> (sn option \<times> heap) option" where
  "list_insert_after first p_sn p_ref_sn nx =
     (if first = None then Some (Some p_sn, nx(p_sn := None))
      else list_insert_after_loop first p_sn p_ref_sn nx \<bind> (\<lambda>nx'. Some (first, nx')))"

definition list_is_empty :: "sn option \<Rightarrow> bool" where
  "list_is_empty first \<longleftrightarrow> first = None"

subsection \<open>The list a pointer represents\<close>

fun list_at :: "heap \<Rightarrow> sn option \<Rightarrow> sn list \<Rightarrow> bool" where
  "list_at nx p [] \<longleftrightarrow> p = None"
| "list_at nx p (x # xs) \<longleftrightarrow> p = Some x \<and> list_at nx (nx x) xs"

text \<open>The list functions the operations implement.\<close>

definition sn_insert :: "(sn \<Rightarrow> nat) \<Rightarrow> sn \<Rightarrow> sn list \<Rightarrow> sn list" where
  "sn_insert prio new xs = takeWhile (\<lambda>s. prio new \<le> prio s) xs @ new # dropWhile (\<lambda>s. prio new \<le> prio s) xs"

fun insert_before :: "sn \<Rightarrow> sn option \<Rightarrow> sn list \<Rightarrow> sn list" where
  "insert_before new ref [] = [new]"
| "insert_before new ref [x] = [x, new]"
| "insert_before new ref (x # y # ys) = (if ref = Some y then x # new # y # ys else x # insert_before new ref (y # ys))"

fun insert_after_loop :: "sn \<Rightarrow> sn option \<Rightarrow> sn list \<Rightarrow> sn list" where
  "insert_after_loop new ref [] = []"
| "insert_after_loop new ref (x # xs) = (if ref = Some x then x # new # xs else x # insert_after_loop new ref xs)"

definition insert_after :: "sn \<Rightarrow> sn option \<Rightarrow> sn list \<Rightarrow> sn list" where
  "insert_after new ref xs = (if xs = [] then [new] else insert_after_loop new ref xs)"

subsection \<open>Facts on representation\<close>

lemma list_at_unique: "list_at nx p xs \<Longrightarrow> list_at nx p ys \<Longrightarrow> xs = ys"
proof (induction xs arbitrary: p ys)
  case Nil
  then show ?case by (cases ys) auto
next
  case (Cons x xs)
  then show ?case by (cases ys) auto
qed

lemma list_at_suffix: "list_at nx p (xs @ y # ys) \<Longrightarrow> list_at nx (Some y) (y # ys)"
  by (induction xs arbitrary: p) auto

lemma list_at_distinct: "list_at nx p xs \<Longrightarrow> distinct xs"
proof (induction xs arbitrary: p)
  case (Cons x xs)
  have "x \<notin> set xs"
  proof
    assume "x \<in> set xs"
    then obtain ys zs where "xs = ys @ x # zs" by (meson split_list)
    then have "list_at nx (Some x) (x # zs)" using Cons.prems list_at_suffix by fastforce
    moreover have "list_at nx (Some x) (x # xs)" using Cons.prems by simp
    ultimately have "xs = zs" using list_at_unique by blast
    then have "length xs = length zs" by simp
    with \<open>xs = ys @ x # zs\<close> show False by simp
  qed
  with Cons show ?case by auto
qed simp

lemma list_at_frame [simp]: "a \<notin> set xs \<Longrightarrow> list_at (nx(a := q)) p xs = list_at nx p xs"
  by (induction xs arbitrary: p) auto

lemma list_at_Some: "list_at nx (Some c) xs \<Longrightarrow> \<exists>ys. xs = c # ys \<and> list_at nx (nx c) ys"
  by (cases xs) auto

lemma list_at_None [simp]: "list_at nx None xs \<longleftrightarrow> xs = []"
  by (cases xs) auto

lemma list_at_first: "list_at nx p xs \<Longrightarrow> p = (case xs of [] \<Rightarrow> None | x # _ \<Rightarrow> Some x)"
  by (cases xs) auto

subsection \<open>The operations implement their list functions\<close>

lemma sn_alloc_list:
  assumes "list_at nx first (x # xs)"
  shows "\<exists>nx'. osEE_sn_alloc first nx = Some (x, nx x, nx') \<and> list_at nx' (nx x) xs \<and> nx' x = None
    \<and> (\<forall>a. a \<noteq> x \<longrightarrow> nx' a = nx a)"
  using assms list_at_distinct [OF assms] by (auto simp: osEE_sn_alloc_def)

lemma sn_release_list:
  assumes "list_at nx first xs" "x \<notin> set xs" "osEE_sn_release first x nx = (first', nx')"
  shows "list_at nx' first' (x # xs) \<and> (\<forall>a. a \<noteq> x \<longrightarrow> nx' a = nx a)"
  using assms by (auto simp: osEE_sn_release_def)

lemma prio_scan_list:
  assumes "list_at nx cur xs"
  shows "prio_scan prio nx np prev cur =
    Some (case takeWhile (\<lambda>s. np \<le> prio s) xs of [] \<Rightarrow> prev | ys \<Rightarrow> Some (last ys),
          case dropWhile (\<lambda>s. np \<le> prio s) xs of [] \<Rightarrow> None | z # _ \<Rightarrow> Some z)"
  using assms
proof (induction xs arbitrary: prev cur)
  case Nil
  then show ?case by (simp add: prio_scan.simps)
next
  case (Cons x xs)
  then have "cur = Some x" "list_at nx (nx x) xs" by auto
  with Cons.IH [of "nx x" "Some x"] show ?case
    by (subst prio_scan.simps) (auto split: list.splits)
qed

text \<open>Redirecting the last node of a prefix and linking a new node behind it.\<close>

lemma list_at_append_last:
  assumes "list_at nx p (ys @ zs)" "ys \<noteq> []" "new \<notin> set (ys @ zs)" "list_at nx e zs"
  shows "list_at (nx(last ys := Some new, new := e)) p (ys @ new # zs)"
  using assms list_at_distinct [OF assms(1)]
proof (induction ys arbitrary: p)
  case (Cons y ys)
  show ?case
  proof (cases ys)
    case Nil
    have "list_at (nx(y := Some new, new := e)) e zs"
      using Cons.prems by (simp del: fun_upd_apply)
    moreover have "p = Some y" "y \<noteq> new" using Cons.prems by auto
    ultimately show ?thesis by (simp add: Nil fun_upd_same fun_upd_other del: fun_upd_apply)
  next
    case (Cons y' ys')
    then have "list_at (nx(last ys := Some new, new := e)) (nx y) (ys @ new # zs)"
      by (intro Cons.IH) (use Cons.prems in auto)
    moreover have "y \<noteq> last ys" "y \<noteq> new" using Cons.prems Cons by auto
    ultimately show ?thesis using Cons.prems(1) Cons by (simp add: fun_upd_other del: fun_upd_apply)
  qed
qed simp

lemma list_at_tail_pointer: "list_at nx p (ys @ zs) \<Longrightarrow> list_at nx (case zs of [] \<Rightarrow> None | z # _ \<Rightarrow> Some z) zs"
proof (cases zs)
  case (Cons z zs')
  assume "list_at nx p (ys @ zs)"
  with Cons show ?thesis using list_at_suffix by fastforce
qed simp

lemma priority_insert_list:
  assumes l: "list_at nx first xs" and new: "new \<notin> set xs"
  shows "\<exists>first' nx'. osEE_sn_priority_insert prio first new nx =
      Some (first', nx', takeWhile (\<lambda>s. prio new \<le> prio s) xs = [])
    \<and> list_at nx' first' (sn_insert prio new xs)
    \<and> (\<forall>a. a \<notin> insert new (set xs) \<longrightarrow> nx' a = nx a)"
proof -
  let ?ys = "takeWhile (\<lambda>s. prio new \<le> prio s) xs" and ?zs = "dropWhile (\<lambda>s. prio new \<le> prio s) xs"
  let ?e = "case ?zs of [] \<Rightarrow> None | z # _ \<Rightarrow> Some z"
  have xs: "xs = ?ys @ ?zs" by simp
  note sc = prio_scan_list [OF l, of prio "prio new" None]
  show ?thesis
  proof (cases "?ys = []")
    case True
    then have z: "?zs = xs" using xs by (metis append_Nil)
    have "first = ?e" using l list_at_first z by metis
    with True z sc l new show ?thesis
      by (auto simp: osEE_sn_priority_insert_def sn_insert_def)
  next
    case False
    have "(case ?ys of [] \<Rightarrow> None | _ \<Rightarrow> Some (last ?ys)) = Some (last ?ys)" using False by (simp split: list.splits)
    then have run: "osEE_sn_priority_insert prio first new nx = Some (first, nx(last ?ys := Some new, new := ?e), False)"
      using sc False by (auto simp: osEE_sn_priority_insert_def split: list.splits)
    have "list_at (nx(last ?ys := Some new, new := ?e)) first (?ys @ new # ?zs)"
      by (rule list_at_append_last) (use l new False list_at_tail_pointer [of nx first ?ys ?zs] in simp_all)
    moreover have "last ?ys \<in> set xs" using False by (meson last_in_set set_takeWhileD)
    ultimately show ?thesis using run False by (auto simp: sn_insert_def)
  qed
qed

lemma list_remove_loop_list:
  assumes "list_at nx p xs" "xs \<noteq> [] \<longrightarrow> hd xs \<noteq> s"
  shows "\<exists>nx'. list_remove_loop p s nx = Some nx' \<and> list_at nx' p (remove1 s xs)
    \<and> (\<forall>a. a \<notin> set xs \<longrightarrow> nx' a = nx a)"
  using assms
proof (induction xs arbitrary: p)
  case Nil
  then show ?case by (simp add: list_remove_loop.simps)
next
  case (Cons x xs)
  have d: "distinct (x # xs)" by (rule list_at_distinct [OF Cons.prems(1)])
  show ?case
  proof (cases xs)
    case Nil
    then show ?thesis using Cons.prems
      by (subst list_remove_loop.simps) (simp, subst list_remove_loop.simps, simp)
  next
    case (Cons y ys)
    show ?thesis
    proof (cases "y = s")
      case True
      then show ?thesis using Cons.prems Cons d
        by (subst list_remove_loop.simps) (auto intro!: exI [of _ "nx(x := nx s)"])
    next
      case False
      then obtain nx' where n: "list_remove_loop (nx x) s nx = Some nx'" "list_at nx' (nx x) (remove1 s xs)"
          "\<forall>a. a \<notin> set xs \<longrightarrow> nx' a = nx a"
        using Cons.IH [of "nx x"] Cons.prems Cons by auto
      moreover have "list_remove_loop p s nx = list_remove_loop (nx x) s nx"
        using Cons.prems Cons False by (subst list_remove_loop.simps) simp
      moreover have "nx' x = nx x" using n(3) d by simp
      ultimately show ?thesis using Cons.prems by auto
    qed
  qed
qed

lemma list_remove_list:
  assumes "list_at nx p xs"
  shows "\<exists>p' nx'. list_remove p s nx = Some (p', nx') \<and> list_at nx' p' (remove1 s xs)
    \<and> (\<forall>a. a \<notin> set xs \<longrightarrow> nx' a = nx a)"
proof (cases "p = Some s")
  case True
  then show ?thesis using assms by (cases xs) (auto simp: list_remove_def)
next
  case False
  then have "xs \<noteq> [] \<longrightarrow> hd xs \<noteq> s" using assms by (cases xs) auto
  with list_remove_loop_list [OF assms] obtain nx' where "list_remove_loop p s nx = Some nx'"
      "list_at nx' p (remove1 s xs)" "\<forall>a. a \<notin> set xs \<longrightarrow> nx' a = nx a" by blast
  with False show ?thesis by (simp add: list_remove_def)
qed

lemma list_insert_before_loop_list:
  assumes "list_at nx p xs" "s \<notin> set xs" "xs \<noteq> []"
  shows "\<exists>nx'. list_insert_before_loop p s ref nx = Some nx' \<and> list_at nx' p (insert_before s ref xs)
    \<and> (\<forall>a. a \<notin> insert s (set xs) \<longrightarrow> nx' a = nx a)"
  using assms
proof (induction s ref xs arbitrary: p rule: insert_before.induct)
  case (2 new ref x)
  then show ?case
    by (subst list_insert_before_loop.simps) (auto intro!: exI [of _ "nx(new := None, x := Some new)"])
next
  case (3 new ref x y ys)
  have d: "distinct (x # y # ys)" by (rule list_at_distinct [OF "3.prems"(1)])
  have nx: "p = Some x" "nx x = Some y" "list_at nx (nx y) ys" using "3.prems" by auto
  show ?case
  proof (cases "ref = Some y")
    case True
    let ?n = "nx(new := Some y, x := Some new)"
    have "list_at ?n (nx y) ys" using nx d "3.prems" by simp
    with True nx d "3.prems" have "list_at ?n p (insert_before new ref (x # y # ys))" by auto
    with True nx show ?thesis by (subst list_insert_before_loop.simps) auto
  next
    case False
    then obtain nx' where n: "list_insert_before_loop (nx x) new ref nx = Some nx'"
        "list_at nx' (nx x) (insert_before new ref (y # ys))" "\<forall>a. a \<notin> insert new (set (y # ys)) \<longrightarrow> nx' a = nx a"
      using "3.IH" [of "nx x"] "3.prems" by auto
    moreover have "nx' x = nx x" using n(3) d "3.prems" by auto
    moreover have "list_insert_before_loop p new ref nx = list_insert_before_loop (nx x) new ref nx"
      using nx False by (subst list_insert_before_loop.simps) auto
    ultimately show ?thesis using nx False by auto
  qed
qed simp

lemma list_insert_before_list:
  assumes "list_at nx p xs" "s \<notin> set xs"
  shows "\<exists>p' nx'. list_insert_before p s ref nx = Some (p', nx') \<and> list_at nx' p' (insert_before s ref xs)
    \<and> (\<forall>a. a \<notin> insert s (set xs) \<longrightarrow> nx' a = nx a)"
proof (cases xs)
  case Nil
  then show ?thesis using assms by (auto simp: list_insert_before_def)
next
  case (Cons x ys)
  with list_insert_before_loop_list [OF assms, of ref] assms show ?thesis
    by (auto simp: list_insert_before_def)
qed

lemma list_insert_after_loop_list:
  assumes "list_at nx p xs" "s \<notin> set xs"
  shows "\<exists>nx'. list_insert_after_loop p s ref nx = Some nx' \<and> list_at nx' p (insert_after_loop s ref xs)
    \<and> (\<forall>a. a \<notin> insert s (set xs) \<longrightarrow> nx' a = nx a)"
  using assms
proof (induction xs arbitrary: p)
  case Nil
  then show ?case by (simp add: list_insert_after_loop.simps)
next
  case (Cons x xs)
  have d: "distinct (x # xs)" by (rule list_at_distinct [OF Cons.prems(1)])
  show ?case
  proof (cases "ref = Some x")
    case True
    let ?n = "nx(s := nx x, x := Some s)"
    have "list_at ?n (nx x) xs" using Cons.prems d by simp
    with True Cons.prems d have "list_at ?n p (insert_after_loop s ref (x # xs))" by auto
    with True Cons.prems show ?thesis by (subst list_insert_after_loop.simps) auto
  next
    case False
    then obtain nx' where n: "list_insert_after_loop (nx x) s ref nx = Some nx'"
        "list_at nx' (nx x) (insert_after_loop s ref xs)" "\<forall>a. a \<notin> insert s (set xs) \<longrightarrow> nx' a = nx a"
      using Cons.IH [of "nx x"] Cons.prems by auto
    moreover have "nx' x = nx x" using n(3) d Cons.prems by auto
    moreover have "list_insert_after_loop p s ref nx = list_insert_after_loop (nx x) s ref nx"
      using Cons.prems False by (subst list_insert_after_loop.simps) auto
    ultimately show ?thesis using Cons.prems False by auto
  qed
qed

lemma list_insert_after_list:
  assumes "list_at nx p xs" "s \<notin> set xs"
  shows "\<exists>p' nx'. list_insert_after p s ref nx = Some (p', nx') \<and> list_at nx' p' (insert_after s ref xs)
    \<and> (\<forall>a. a \<notin> insert s (set xs) \<longrightarrow> nx' a = nx a)"
proof (cases xs)
  case Nil
  then show ?thesis using assms by (auto simp: list_insert_after_def insert_after_def)
next
  case (Cons x ys)
  with list_insert_after_loop_list [OF assms, of ref] assms show ?thesis
    by (auto simp: list_insert_after_def insert_after_def)
qed

lemma insert_before_mset: "mset (insert_before s ref xs) = add_mset s (mset xs)"
  by (induction s ref xs rule: insert_before.induct) auto

lemma insert_before_set [simp]: "set (insert_before s ref xs) = insert s (set xs)"
  by (metis insert_before_mset set_mset_add_mset_insert set_mset_mset)

lemma insert_before_tail: "ref \<notin> Some ` set (tl xs) \<Longrightarrow> insert_before s ref xs = xs @ [s]"
  by (induction s ref xs rule: insert_before.induct) auto

lemma insert_before_split:
  "distinct (x # xs) \<Longrightarrow> xs = ys @ r # zs \<Longrightarrow> insert_before s (Some r) (x # xs) = x # ys @ s # r # zs"
proof (induction ys arbitrary: x xs)
  case (Cons y ys)
  then show ?case by (auto simp: Cons.IH)
qed simp

lemma insert_after_head [simp]: "insert_after s (Some x) (x # xs) = x # s # xs"
  by (simp add: insert_after_def)

subsection \<open>Ordered insertion\<close>

abbreviation prio_sorted :: "(sn \<Rightarrow> nat) \<Rightarrow> sn list \<Rightarrow> bool" where
  "prio_sorted prio \<equiv> sorted_wrt (\<lambda>a b. prio b \<le> prio a)"

lemma sn_insert_mset [simp]: "mset (sn_insert prio s xs) = add_mset s (mset xs)"
  unfolding sn_insert_def by (metis (no_types, lifting) mset_append mset.simps(2) takeWhile_dropWhile_id union_mset_add_mset_right)

lemma sn_insert_set [simp]: "set (sn_insert prio s xs) = insert s (set xs)"
  by (metis set_mset_add_mset_insert set_mset_mset sn_insert_mset)

lemma sn_insert_distinct: "distinct (sn_insert prio s xs) \<longleftrightarrow> s \<notin> set xs \<and> distinct xs"
  by (metis distinct.simps(2) mset.simps(2) mset_eq_imp_distinct_iff sn_insert_mset)

lemma dropWhile_lower:
  "prio_sorted prio xs \<Longrightarrow> b \<in> set (dropWhile (\<lambda>a. prio s \<le> prio a) xs) \<Longrightarrow> prio b < prio s"
  by (induction xs) (auto split: if_splits)

lemma sn_insert_sorted:
  assumes "prio_sorted prio xs"
  shows "prio_sorted prio (sn_insert prio s xs)"
proof -
  define ys zs where "ys = takeWhile (\<lambda>a. prio s \<le> prio a) xs" and "zs = dropWhile (\<lambda>a. prio s \<le> prio a) xs"
  have "prio_sorted prio (ys @ zs)" using assms by (simp add: ys_def zs_def)
  then have s12: "prio_sorted prio ys" "prio_sorted prio zs" "\<forall>a\<in>set ys. \<forall>b\<in>set zs. prio b \<le> prio a"
    unfolding sorted_wrt_append by blast+
  have y: "\<forall>a\<in>set ys. prio s \<le> prio a" unfolding ys_def by (blast dest: set_takeWhileD)
  have z: "\<forall>b\<in>set zs. prio b \<le> prio s" unfolding zs_def using dropWhile_lower [OF assms] less_imp_le by blast
  have "sn_insert prio s xs = ys @ s # zs" by (simp add: sn_insert_def ys_def zs_def)
  with y z s12 show ?thesis by (auto simp: sorted_wrt_append)
qed

text \<open>Nodes of equal priority keep their order, and the new node comes behind them.\<close>

lemma sn_insert_stable:
  assumes "prio_sorted prio xs" "s \<notin> set xs"
  shows "filter (\<lambda>a. prio a = p) (sn_insert prio s xs) = filter (\<lambda>a. prio a = p) xs @ (if prio s = p then [s] else [])"
proof -
  let ?zs = "dropWhile (\<lambda>a. prio s \<le> prio a) xs"
  have "filter (\<lambda>a. prio a = p) xs = filter (\<lambda>a. prio a = p) (takeWhile (\<lambda>a. prio s \<le> prio a) xs) @ filter (\<lambda>a. prio a = p) ?zs"
    by (metis filter_append takeWhile_dropWhile_id)
  moreover have "prio s = p \<Longrightarrow> filter (\<lambda>a. prio a = p) ?zs = []"
    using dropWhile_lower [OF assms(1)] by (fastforce simp: filter_empty_conv)
  ultimately show ?thesis by (auto simp: sn_insert_def)
qed

subsection \<open>Properties\<close>

text \<open>
  C15: the ordered insertion of \<open>osEE_sn_priority_insert\<close>, on memory: for every well-formed list that
  is sorted by descending priority and every node not in it, the function returns, the head pointer then represents the
  old list plus the node, still sorted, with nodes of equal priority in their arrival order, it
  reports a head change exactly when the new node is first, and it writes no other node's link.
\<close>

theorem sn_priority_insert_correct:
  assumes "list_at nx first xs" "new \<notin> set xs" "prio_sorted prio xs"
  shows "\<exists>first' nx' zs. osEE_sn_priority_insert prio first new nx = Some (first', nx', hd zs = new)
    \<and> list_at nx' first' zs \<and> mset zs = add_mset new (mset xs) \<and> prio_sorted prio zs
    \<and> (\<forall>p. filter (\<lambda>a. prio a = p) zs = filter (\<lambda>a. prio a = p) xs @ (if prio new = p then [new] else []))
    \<and> (\<forall>a. a \<notin> insert new (set xs) \<longrightarrow> nx' a = nx a)"
proof -
  let ?zs = "sn_insert prio new xs"
  have "hd ?zs = new \<longleftrightarrow> takeWhile (\<lambda>s. prio new \<le> prio s) xs = []"
    using assms(2) by (cases xs) (auto simp: sn_insert_def)
  with priority_insert_list [OF assms(1,2), of prio] sn_insert_sorted [OF assms(3), of new]
    sn_insert_stable [OF assms(3,2)] show ?thesis by (auto intro!: exI [of _ ?zs])
qed

theorem sn_priority_insert_correct_witness:
  "\<exists>first' nx' zs. osEE_sn_priority_insert (\<lambda>s. s mod 4) (Some 3) 6 ((\<lambda>_. None)(3 := Some 2, 2 := Some 1)) =
      Some (first', nx', hd zs = 6) \<and> list_at nx' first' zs \<and> prio_sorted (\<lambda>s. s mod 4) zs"
  using sn_priority_insert_correct [of "(\<lambda>_. None)(3 := Some 2, 2 := Some 1)" "Some 3" "[3, 2, 1]" 6 "\<lambda>s. s mod 4"]
  by auto

text \<open>
  The list helpers of the DPREM layer, on memory: removal, insertion before a reference and
  insertion after a reference end on every well-formed list and implement \<open>remove1\<close>,
  \<open>insert_before\<close> and \<open>insert_after\<close>. A reference that is the head of the list is not
  found by \<open>list_insert_before\<close>: the node goes to the tail.
\<close>

theorem dprem_list_ops_correct:
  assumes "list_at nx first xs" "s \<notin> set xs"
  shows "(\<exists>first' nx'. list_remove first t nx = Some (first', nx') \<and> list_at nx' first' (remove1 t xs))
    \<and> (\<exists>first' nx'. list_insert_before first s ref nx = Some (first', nx') \<and> list_at nx' first' (insert_before s ref xs))
    \<and> (\<exists>first' nx'. list_insert_after first s ref nx = Some (first', nx') \<and> list_at nx' first' (insert_after s ref xs))
    \<and> (xs \<noteq> [] \<longrightarrow> insert_before s (Some (hd xs)) xs = xs @ [s])"
proof -
  have "xs \<noteq> [] \<longrightarrow> insert_before s (Some (hd xs)) xs = xs @ [s]"
  proof
    assume "xs \<noteq> []"
    then have "Some (hd xs) \<notin> Some ` set (tl xs)" using list_at_distinct [OF assms(1)] by (cases xs) auto
    then show "insert_before s (Some (hd xs)) xs = xs @ [s]" by (rule insert_before_tail)
  qed
  with list_remove_list [OF assms(1), of t] list_insert_before_list [OF assms, of ref]
    list_insert_after_list [OF assms, of ref] show ?thesis by blast
qed

theorem dprem_list_ops_correct_example:
  "\<exists>first' nx'. list_insert_before (Some 3) 7 (Some 3) ((\<lambda>_. None)(3 := Some 2, 2 := Some 1)) = Some (first', nx')
     \<and> list_at nx' first' [3, 2, 1, 7]"
  using dprem_list_ops_correct [of "(\<lambda>_. None)(3 := Some 2, 2 := Some 1)" "Some 3" "[3, 2, 1]" 7 2 "Some 3"]
  by auto

end
