(* ===== verification/EeKernel.thy ===== *)
theory EeKernel
  imports SchedNodes MemoryArbiter
begin

text \<open>
  The task scheduler of the ERIKA3 kernel as the DPREM guest uses it (\<open>ee_oo_scheduler.c\<close>,
  \<open>ee_oo_sched_partitioned.c\<close>, \<open>ee_oo_kernel.c\<close>, \<open>ee_std_change_context.c\<close>,
  \<open>ee_oo_sched_entry_points.c\<close> under \<open>src/ee_files/pkg\<close>), single core, partitioned, with the
  linked-list ready queue, events, resources and the dynamic API; no hooks, ORTI or spinlocks.

  A task is named by its index in the TDB array, a scheduler node by its address. The queues of
  the core control block are the lists their head pointers represent; theory SchedNodes proves that
  the pointer operations implement the list operations used here. \<open>None\<close> is a dereferenced NULL.

  A context switch stores where the task that loses the CPU goes on (\<open>conts\<close>, the saved program
  counter) and marks the next task RUNNING, as \<open>osEE_scheduler_task_wrapper_restore\<close> does; the
  assembly that swaps the registers is below this model.
\<close>

datatype task_type = OSEE_TASK_TYPE_BASIC | OSEE_TASK_TYPE_EXTENDED | OSEE_TASK_TYPE_ISR2 | OSEE_TASK_TYPE_IDLE

datatype task_status = OSEE_TASK_SUSPENDED | OSEE_TASK_READY | OSEE_TASK_READY_STACKED
  | OSEE_TASK_WAITING | OSEE_TASK_RUNNING | OSEE_TASK_CHAINED

datatype kernel_status = OSEE_KERNEL_UNINITIALIZED | OSEE_KERNEL_INITIALIZED | OSEE_KERNEL_STARTING
  | OSEE_KERNEL_STARTED | OSEE_KERNEL_SHUTDOWN

datatype StatusType = E_OK | E_OS_ACCESS | E_OS_CALLEVEL | E_OS_ID | E_OS_LIMIT | E_OS_NOFUNC
  | E_OS_RESOURCE | E_OS_STATE | E_OS_VALUE | E_OS_DISABLEDINT | E_OS_PARAM_POINTER
  | E_OS_SYS_INIT | E_OS_SYS_TASK | E_OS_SYS_ACT | E_OS_SYS_STACK | E_OS_SYS_SUSPEND_NESTING_LIMIT

record tdb =
  task_type :: task_type
  ready_prio :: u8
  dispatch_prio :: u8
  max_num_of_act :: u8
  isr2_src :: u32

record tcb =
  current_num_of_act :: u8
  current_prio :: u8
  status :: task_status
  p_last_m :: "nat option"
  wait_mask :: u64
  event_mask :: u64
  p_own_sn :: "sn option"

text \<open>A resource: its ceiling priority and its control block.\<close>

record mdb =
  m_prio :: u8
  m_next :: "nat option"
  m_prev_prio :: u8
  m_owner :: "nat option"

text \<open>
  Where a task that was switched out inside a primitive goes on; the flag is the interrupt mask
  that \<open>osEE_begin_primitive\<close> returned.
\<close>

datatype cont = C_NONE | C_END bool | C_SCHEDULE bool | C_WAIT bool | C_DPREM bool

record kern =
  tdbs :: "nat \<Rightarrow> tdb"
  tcbs :: "nat \<Rightarrow> tcb"
  free_task_index :: nat
  resources :: "nat \<Rightarrow> mdb"
  free_res_index :: nat
  sn_tdb :: "sn \<Rightarrow> nat"
  p_curr :: nat
  rq :: "sn list"
  p_free_sn :: "sn list"
  free_sn_counter :: nat
  p_stk_sn :: "sn list"
  os_status :: kernel_status
  app_mode :: u8
  last_error :: StatusType
  prev_s_isr_all_status :: bool
  prev_s_isr_os_status :: bool
  s_isr_all_cnt :: u8
  s_isr_os_cnt :: u8
  d_isr_all_cnt :: u8
  p_suspended_sn :: "sn list"
  mem_arbit :: mem_arbit_status
  p_idle_task :: nat
  p_idle_hook :: bool
  irq_masked :: bool
  conts :: "nat \<Rightarrow> cont"

definition upd_tcb :: "nat \<Rightarrow> (tcb \<Rightarrow> tcb) \<Rightarrow> kern \<Rightarrow> kern" where
  "upd_tcb t f s = s\<lparr>tcbs := (tcbs s)(t := f (tcbs s t))\<rparr>"

definition OSEE_ISR2_PRIO_BIT :: u8 where "OSEE_ISR2_PRIO_BIT = 0x80"

definition OSEE_ISR_ALL_PRIO :: u8 where "OSEE_ISR_ALL_PRIO = - 1"

text \<open>\<open>task_type <= OSEE_TASK_TYPE_EXTENDED\<close> in the order of the enumeration.\<close>

definition is_regular :: "task_type \<Rightarrow> bool" where
  "is_regular ty \<longleftrightarrow> ty = OSEE_TASK_TYPE_BASIC \<or> ty = OSEE_TASK_TYPE_EXTENDED"

subsection \<open>Primitives and context switch\<close>

definition osEE_begin_primitive :: "kern \<Rightarrow> kern \<times> bool" where
  "osEE_begin_primitive s = (s\<lparr>irq_masked := True\<rparr>, irq_masked s)"

definition osEE_end_primitive :: "bool \<Rightarrow> kern \<Rightarrow> kern" where
  "osEE_end_primitive flags s = s\<lparr>irq_masked := flags\<rparr>"

definition osEE_scheduler_task_wrapper_restore :: "nat \<Rightarrow> kern \<Rightarrow> kern" where
  "osEE_scheduler_task_wrapper_restore p_tdb_to s = upd_tcb p_tdb_to (\<lambda>c. c\<lparr>status := OSEE_TASK_RUNNING\<rparr>) s"

text \<open>The part of the wrapper before the task function is called.\<close>

definition osEE_scheduler_task_wrapper_run :: "nat \<Rightarrow> kern \<Rightarrow> kern" where
  "osEE_scheduler_task_wrapper_run p_tdb_to s =
     (let task_priority = current_prio (tcbs s p_tdb_to);
          s1 = (osEE_scheduler_task_wrapper_restore p_tdb_to s)\<lparr>conts := (conts s)(p_tdb_to := C_NONE)\<rparr> in
      if task_priority < OSEE_ISR_ALL_PRIO then s1\<lparr>irq_masked := False\<rparr> else s1)"

definition osEE_change_context_from_running :: "nat \<Rightarrow> nat \<Rightarrow> kern \<Rightarrow> kern" where
  "osEE_change_context_from_running p_from p_to s =
     (if status (tcbs s p_to) = OSEE_TASK_READY_STACKED
      then osEE_scheduler_task_wrapper_restore p_to s
      else osEE_scheduler_task_wrapper_run p_to s)"

definition osEE_change_context_from_task_end :: "nat \<Rightarrow> nat \<Rightarrow> kern \<Rightarrow> kern" where
  "osEE_change_context_from_task_end p_from p_to s =
     (if status (tcbs s p_to) = OSEE_TASK_READY_STACKED
      then osEE_scheduler_task_wrapper_restore p_to s
      else osEE_scheduler_task_wrapper_run p_to s)"

subsection \<open>Queues\<close>

abbreviation ready_key :: "kern \<Rightarrow> sn \<Rightarrow> nat" where
  "ready_key s x \<equiv> unat (ready_prio (tdbs s (sn_tdb s x)))"

definition osEE_scheduler_stk_next :: "sn \<Rightarrow> kern \<Rightarrow> kern" where
  "osEE_scheduler_stk_next p_rq_sn s =
     (let t = sn_tdb s p_rq_sn;
          s1 = s\<lparr>p_stk_sn := p_rq_sn # p_stk_sn s, p_curr := t\<rparr> in
      if current_prio (tcbs s t) < dispatch_prio (tdbs s t)
      then upd_tcb t (\<lambda>c. c\<lparr>current_prio := dispatch_prio (tdbs s t)\<rparr>) s1 else s1)"

definition osEE_scheduler_rq_insert :: "sn \<Rightarrow> nat \<Rightarrow> kern \<Rightarrow> kern \<times> bool" where
  "osEE_scheduler_rq_insert p_sn_new p_tdb_new s =
     (let s1 = s\<lparr>sn_tdb := (sn_tdb s)(p_sn_new := p_tdb_new)\<rparr>;
          head_changed = (takeWhile (\<lambda>x. ready_key s1 p_sn_new \<le> ready_key s1 x) (rq s) = []) in
      (s1\<lparr>rq := sn_insert (ready_key s1) p_sn_new (rq s)\<rparr>, head_changed))"

definition osEE_scheduler_core_rq_preempt_stk :: "kern \<Rightarrow> kern \<times> nat option" where
  "osEE_scheduler_core_rq_preempt_stk s =
     (case rq s of [] \<Rightarrow> (s, None)
      | p_rq_sn # rq' \<Rightarrow>
          (case p_stk_sn s of
             p_ret_sn # _ \<Rightarrow>
               let t = sn_tdb s p_ret_sn in
               if current_prio (tcbs s t) < current_prio (tcbs s (sn_tdb s p_rq_sn))
               then (osEE_scheduler_stk_next p_rq_sn
                       (upd_tcb t (\<lambda>c. c\<lparr>status := OSEE_TASK_READY_STACKED\<rparr>) s\<lparr>rq := rq'\<rparr>), Some t)
               else (s, None)
           | [] \<Rightarrow>
               let t = p_idle_task s in
               (osEE_scheduler_stk_next p_rq_sn
                  (upd_tcb t (\<lambda>c. c\<lparr>status := OSEE_TASK_READY_STACKED\<rparr>) s\<lparr>rq := rq'\<rparr>), Some t)))"

definition osEE_scheduler_core_pop_running :: "kern \<Rightarrow> (kern \<times> sn) option" where
  "osEE_scheduler_core_pop_running s =
     (case p_stk_sn s of [] \<Rightarrow> None
      | p_prev_stk_sn # rest \<Rightarrow>
          let (s1, p_preempt) = osEE_scheduler_core_rq_preempt_stk (s\<lparr>p_stk_sn := rest\<rparr>) in
          (case p_preempt of
             None \<Rightarrow> Some (s1\<lparr>p_curr := (case p_stk_sn s1 of x # _ \<Rightarrow> sn_tdb s1 x | [] \<Rightarrow> p_idle_task s1)\<rparr>,
                            p_prev_stk_sn)
           | Some _ \<Rightarrow> Some (s1, p_prev_stk_sn)))"

text \<open>\<open>osEE_sn_alloc\<close> and \<open>osEE_sn_release\<close> on the free list of the core.\<close>

definition sn_alloc :: "kern \<Rightarrow> (kern \<times> sn) option" where
  "sn_alloc s = (case p_free_sn s of [] \<Rightarrow> None | x # xs \<Rightarrow> Some (s\<lparr>p_free_sn := xs\<rparr>, x))"

definition sn_release :: "sn \<Rightarrow> kern \<Rightarrow> kern" where
  "sn_release x s = s\<lparr>p_free_sn := x # p_free_sn s\<rparr>"

subsection \<open>Scheduler operations\<close>

definition osEE_task_event_reset_mask :: "nat \<Rightarrow> kern \<Rightarrow> kern" where
  "osEE_task_event_reset_mask t s = upd_tcb t (\<lambda>c. c\<lparr>event_mask := 0\<rparr>) s"

definition osEE_scheduler_task_insert_rq :: "nat \<Rightarrow> kern \<Rightarrow> (kern \<times> bool) option" where
  "osEE_scheduler_task_insert_rq p_tdb_act s =
     (let s1 = (if status (tcbs s p_tdb_act) = OSEE_TASK_SUSPENDED
                then osEE_task_event_reset_mask p_tdb_act
                       (upd_tcb p_tdb_act (\<lambda>c. c\<lparr>status := OSEE_TASK_READY\<rparr>) s)
                else s) in
      sn_alloc s1 \<bind> (\<lambda>(s2, x). Some (osEE_scheduler_rq_insert x p_tdb_act s2)))"

definition osEE_scheduler_task_activated :: "nat \<Rightarrow> kern \<Rightarrow> (kern \<times> bool) option" where
  "osEE_scheduler_task_activated p_tdb_act s =
     (let cur = p_curr s in
      if current_prio (tcbs s cur) < current_prio (tcbs s p_tdb_act) then
        sn_alloc s \<bind> (\<lambda>(s1, p_new_stk).
          let s2 = upd_tcb cur (\<lambda>c. c\<lparr>status := OSEE_TASK_READY_STACKED\<rparr>) s1;
              s3 = s2\<lparr>sn_tdb := (sn_tdb s2)(p_new_stk := p_tdb_act),
                      p_stk_sn := p_new_stk # p_stk_sn s2, p_curr := p_tdb_act\<rparr>;
              s4 = osEE_task_event_reset_mask p_tdb_act s3 in
          Some (osEE_change_context_from_running cur p_tdb_act s4, True))
      else osEE_scheduler_task_insert_rq p_tdb_act s \<bind> (\<lambda>(s1, _). Some (s1, False)))"

definition osEE_scheduler_task_insert :: "nat \<Rightarrow> kern \<Rightarrow> (kern \<times> bool) option" where
  "osEE_scheduler_task_insert p_tdb_act s = osEE_scheduler_task_insert_rq p_tdb_act s"

text \<open>The result is the new current task and the blocked scheduler node.\<close>

definition osEE_scheduler_task_block_current :: "kern \<Rightarrow> (kern \<times> nat \<times> sn) option" where
  "osEE_scheduler_task_block_current s =
     (let p_tdb_blocked = p_curr s in
      osEE_scheduler_core_pop_running s \<bind> (\<lambda>(s1, p_sn_blocked).
      let s2 = upd_tcb p_tdb_blocked (\<lambda>c. c\<lparr>status := OSEE_TASK_WAITING\<rparr>) s1 in
      Some (s2, p_curr s2, p_sn_blocked)))"

definition osEE_scheduler_task_unblocked :: "sn \<Rightarrow> kern \<Rightarrow> kern \<times> bool" where
  "osEE_scheduler_task_unblocked p_sn_released s =
     (let t = sn_tdb s p_sn_released;
          s1 = upd_tcb t (\<lambda>c. c\<lparr>status := OSEE_TASK_READY_STACKED, current_prio := ready_prio (tdbs s t)\<rparr>) s;
          (s2, rq_head_changed) = osEE_scheduler_rq_insert p_sn_released t s1 in
      (s2, rq_head_changed \<and> current_prio (tcbs s2 t) > current_prio (tcbs s2 (p_curr s2))))"

definition osEE_task_activated :: "nat \<Rightarrow> kern \<Rightarrow> kern \<times> StatusType" where
  "osEE_task_activated t s =
     (if current_num_of_act (tcbs s t) < max_num_of_act (tdbs s t)
      then (upd_tcb t (\<lambda>c. c\<lparr>current_num_of_act := current_num_of_act c + 1\<rparr>) s, E_OK)
      else (s, E_OS_LIMIT))"

definition osEE_task_end :: "nat \<Rightarrow> kern \<Rightarrow> kern" where
  "osEE_task_end t s =
     upd_tcb t (\<lambda>c. let n = current_num_of_act c - 1 in
       c\<lparr>current_prio := ready_prio (tdbs s t), current_num_of_act := n,
         status := (if n = 0 then OSEE_TASK_SUSPENDED else OSEE_TASK_READY)\<rparr>) s"

text \<open>The result is the state, the task to run next and the terminated task.\<close>

definition osEE_scheduler_task_terminated :: "kern \<Rightarrow> (kern \<times> nat \<times> nat) option" where
  "osEE_scheduler_task_terminated s =
     (let p_tdb_term = p_curr s in
      if status (tcbs s p_tdb_term) = OSEE_TASK_RUNNING then
        osEE_scheduler_core_pop_running s \<bind> (\<lambda>(s1, p_sn_term).
          let p_tdb_to = p_curr s1;
              s2 = (if p_tdb_term \<noteq> p_tdb_to then osEE_task_end p_tdb_term s1
                    else upd_tcb p_tdb_term (\<lambda>c. c\<lparr>current_num_of_act := current_num_of_act c - 1\<rparr>) s1) in
          Some (sn_release p_sn_term s2, p_tdb_to, p_tdb_term))
      else
        (case p_stk_sn s of [] \<Rightarrow> None
         | p_sn_term # rest \<Rightarrow>
             let s1 = upd_tcb p_tdb_term
                        (\<lambda>c. c\<lparr>current_prio := ready_prio (tdbs s p_tdb_term), status := OSEE_TASK_READY\<rparr>)
                        (s\<lparr>p_stk_sn := rest\<rparr>);
                 s2 = (if current_num_of_act (tcbs s1 p_tdb_term) = 1
                       then osEE_task_event_reset_mask p_tdb_term s1 else s1);
                 s3 = fst (osEE_scheduler_rq_insert p_sn_term p_tdb_term s2);
                 (s4, p_prev) = osEE_scheduler_core_rq_preempt_stk s3 in
             (case p_prev of
                None \<Rightarrow> (case p_stk_sn s4 of [] \<Rightarrow> None
                         | x # _ \<Rightarrow> Some (s4\<lparr>p_curr := sn_tdb s4 x\<rparr>, sn_tdb s4 x, p_tdb_term))
              | Some _ \<Rightarrow> Some (s4, p_curr s4, p_tdb_term))))"

definition osEE_scheduler_task_preemption_point :: "kern \<Rightarrow> kern \<times> bool" where
  "osEE_scheduler_task_preemption_point s =
     (let (s1, p_prev) = osEE_scheduler_core_rq_preempt_stk s in
      case p_prev of None \<Rightarrow> (s1, False)
      | Some prev \<Rightarrow> (osEE_change_context_from_running prev (p_curr s1) s1, True))"

definition osEE_scheduler_task_set_running :: "nat \<Rightarrow> sn option \<Rightarrow> kern \<Rightarrow> kern option" where
  "osEE_scheduler_task_set_running p_tdb p_sn s =
     (let p_preempted = p_curr s;
          p_preempted_sn = p_stk_sn s;
          s1 = (if status (tcbs s p_preempted) = OSEE_TASK_RUNNING
                then upd_tcb p_preempted (\<lambda>c. c\<lparr>status := OSEE_TASK_READY_STACKED\<rparr>) s else s);
          s2 = s1\<lparr>p_curr := p_tdb\<rparr> in
      (case p_sn of None \<Rightarrow> sn_alloc s2 | Some x \<Rightarrow> Some (s2, x)) \<bind> (\<lambda>(s3, x).
      let s4 = s3\<lparr>p_stk_sn := x # p_preempted_sn, sn_tdb := (sn_tdb s3)(x := p_tdb)\<rparr> in
      Some (osEE_change_context_from_running p_preempted p_tdb s4)))"

definition osEE_scheduler_task_reserve_activations :: "u8 \<Rightarrow> kern \<Rightarrow> kern \<times> bool" where
  "osEE_scheduler_task_reserve_activations activations s =
     (if free_sn_counter s \<ge> unat activations
      then (s\<lparr>free_sn_counter := free_sn_counter s - unat activations\<rparr>, True) else (s, False))"

definition osEE_activate_isr2 :: "nat \<Rightarrow> u32 \<Rightarrow> kern \<Rightarrow> kern option" where
  "osEE_activate_isr2 isr2_id irqn s =
     osEE_scheduler_task_set_running isr2_id None
       (upd_tcb isr2_id (\<lambda>c. c\<lparr>current_num_of_act := current_num_of_act c + 1\<rparr>)
         (s\<lparr>tdbs := (tdbs s)(isr2_id := (tdbs s isr2_id)\<lparr>isr2_src := irqn\<rparr>)\<rparr>))"

text \<open>\<open>OSEE_KERNEL_TERMINATE_ACTIVATION_CB\<close>: the end of an activation.\<close>

definition osEE_scheduler_task_end :: "kern \<Rightarrow> kern option" where
  "osEE_scheduler_task_end s =
     osEE_scheduler_task_terminated s \<bind> (\<lambda>(s1, p_to, p_from).
     Some (osEE_change_context_from_task_end p_from p_to s1))"

definition osEE_task_event_set_mask :: "bool \<Rightarrow> nat \<Rightarrow> u64 \<Rightarrow> kern \<Rightarrow> kern \<times> sn option \<times> StatusType" where
  "osEE_task_event_set_mask has_checks t Mask s =
     (if has_checks \<and> task_type (tdbs s t) \<noteq> OSEE_TASK_TYPE_EXTENDED then (s, None, E_OS_ACCESS)
      else if has_checks \<and> status (tcbs s t) = OSEE_TASK_SUSPENDED then (s, None, E_OS_STATE)
      else
        let s1 = upd_tcb t (\<lambda>c. c\<lparr>event_mask := or (event_mask c) Mask\<rparr>) s in
        if and (wait_mask (tcbs s1 t)) Mask \<noteq> 0
        then (upd_tcb t (\<lambda>c. c\<lparr>p_own_sn := None\<rparr>) s1, p_own_sn (tcbs s1 t), E_OK)
        else (s1, None, E_OK))"

text \<open>The loop of \<open>osEE_release_all_m\<close> over the resources a task holds.\<close>

partial_function (option) osEE_release_all_m :: "nat \<Rightarrow> kern \<Rightarrow> kern option" where
  "osEE_release_all_m t s =
     (case p_last_m (tcbs s t) of None \<Rightarrow> Some s
      | Some m \<Rightarrow> osEE_release_all_m t
          (upd_tcb t (\<lambda>c. c\<lparr>p_last_m := m_next (resources s m)\<rparr>)
            (s\<lparr>resources := (resources s)(m := (resources s m)\<lparr>m_owner := None\<rparr>)\<rparr>)))"

definition osEE_scheduler_task_not_terminated :: "nat \<Rightarrow> kern \<Rightarrow> kern option" where
  "osEE_scheduler_task_not_terminated p_to_term s =
     (let s1 = s\<lparr>s_isr_os_cnt := 0\<rparr>;
          s2 = (if s_isr_all_cnt s1 > 0 then s1\<lparr>s_isr_all_cnt := 0, irq_masked := prev_s_isr_all_status s1\<rparr> else s1);
          s3 = (if d_isr_all_cnt s2 > 0 then s2\<lparr>d_isr_all_cnt := 0, irq_masked := False\<rparr> else s2);
          (s4, _) = osEE_begin_primitive s3 in
      osEE_release_all_m p_to_term s4 \<bind> osEE_scheduler_task_end)"

subsection \<open>Invariant\<close>

definition own_of :: "tcb \<Rightarrow> sn multiset" where
  "own_of c = (if status c = OSEE_TASK_WAITING then (case p_own_sn c of Some x \<Rightarrow> {#x#} | None \<Rightarrow> {#}) else {#})"

definition own :: "kern \<Rightarrow> sn multiset" where
  "own s = (\<Sum>t<free_task_index s. own_of (tcbs s t))"

text \<open>The nodes of activations, and all nodes of the core.\<close>

definition live :: "kern \<Rightarrow> sn multiset" where
  "live s = mset (p_stk_sn s) + mset (rq s) + mset (p_suspended_sn s) + own s"

definition pool :: "kern \<Rightarrow> sn multiset" where
  "pool s = live s + mset (p_free_sn s)"

definition headroom :: "kern \<Rightarrow> nat" where
  "headroom s = (\<Sum>t<free_task_index s. unat (max_num_of_act (tdbs s t)) - unat (current_num_of_act (tcbs s t)))"

abbreviation task_of :: "kern \<Rightarrow> nat \<Rightarrow> sn multiset \<Rightarrow> sn multiset" where
  "task_of s t M \<equiv> filter_mset (\<lambda>x. sn_tdb s x = t) M"

text \<open>
  The invariant inside an operation: \<open>W\<close> are the nodes taken out of a queue and not put back yet,
  \<open>D\<close> the tasks whose activation is counted and has no node yet.
\<close>

text \<open>
  A non-empty wait mask belongs to a task that waits, or was woken and has not run yet; the woken
  task's node is in a queue.
\<close>

definition wait_ok :: "tcb \<Rightarrow> bool" where
  "wait_ok c \<longleftrightarrow> wait_mask c = 0 \<or>
     status c \<in> {OSEE_TASK_WAITING, OSEE_TASK_READY_STACKED, OSEE_TASK_RUNNING} \<and>
     (status c \<noteq> OSEE_TASK_WAITING \<longrightarrow> p_own_sn c = None)"

definition kinv_core :: "sn multiset \<Rightarrow> nat multiset \<Rightarrow> kern \<Rightarrow> bool" where
  "kinv_core W D s \<longleftrightarrow>
     (\<forall>x. count (pool s + W) x \<le> 1) \<and>
     prio_sorted (ready_key s) (rq s) \<and>
     free_task_index s \<le> p_idle_task s \<and>
     (\<forall>x\<in>#live s + W. sn_tdb s x < free_task_index s) \<and>
     (\<forall>t<free_task_index s.
        unat (current_num_of_act (tcbs s t)) = size (task_of s t (live s + W)) + count D t \<and>
        current_num_of_act (tcbs s t) \<le> max_num_of_act (tdbs s t) \<and>
        (status (tcbs s t) = OSEE_TASK_SUSPENDED \<longleftrightarrow> size (task_of s t (live s + W)) = 0) \<and>
        (status (tcbs s t) = OSEE_TASK_WAITING \<longrightarrow>
           task_type (tdbs s t) = OSEE_TASK_TYPE_EXTENDED \<and>
           (\<exists>x. p_own_sn (tcbs s t) = Some x \<and> sn_tdb s x = t)) \<and>
        (task_type (tdbs s t) = OSEE_TASK_TYPE_EXTENDED \<longrightarrow> max_num_of_act (tdbs s t) = 1) \<and>
        wait_ok (tcbs s t)) \<and>
     length (p_free_sn s) = free_sn_counter s + headroom s + size D"

definition top_task :: "kern \<Rightarrow> nat" where
  "top_task s = (case p_stk_sn s of [] \<Rightarrow> p_idle_task s | x # _ \<Rightarrow> sn_tdb s x)"

text \<open>
  Between operations: the top of the stack is the one task that runs, and a task with a wait mask
  was switched out inside \<open>WaitEvent\<close>.
\<close>

definition waits_ok :: "kern \<Rightarrow> bool" where
  "waits_ok s \<longleftrightarrow> (\<forall>t<free_task_index s. wait_mask (tcbs s t) \<noteq> 0 \<longrightarrow> (\<exists>b. conts s t = C_WAIT b))"

definition krun :: "kern \<Rightarrow> bool" where
  "krun s \<longleftrightarrow> p_curr s = top_task s \<and> waits_ok s \<and>
     (\<forall>u. status (tcbs s u) = OSEE_TASK_RUNNING \<longleftrightarrow> u = p_curr s)"

definition kinv :: "kern \<Rightarrow> bool" where
  "kinv s \<longleftrightarrow> kinv_core {#} {#} s \<and> krun s"

lemmas kparts = own_def live_def pool_def headroom_def

lemma kinv_core_frame [simp]:
  "kinv_core W D (s\<lparr>irq_masked := b\<rparr>) = kinv_core W D s"
  "kinv_core W D (s\<lparr>conts := b2\<rparr>) = kinv_core W D s"
  "kinv_core W D (s\<lparr>p_curr := b3\<rparr>) = kinv_core W D s"
  "kinv_core W D (s\<lparr>mem_arbit := b4\<rparr>) = kinv_core W D s"
  "kinv_core W D (s\<lparr>resources := b5\<rparr>) = kinv_core W D s"
  "kinv_core W D (s\<lparr>s_isr_all_cnt := b6\<rparr>) = kinv_core W D s"
  "kinv_core W D (s\<lparr>s_isr_os_cnt := b6\<rparr>) = kinv_core W D s"
  "kinv_core W D (s\<lparr>d_isr_all_cnt := b6\<rparr>) = kinv_core W D s"
  "kinv_core W D (s\<lparr>prev_s_isr_all_status := b\<rparr>) = kinv_core W D s"
  "kinv_core W D (s\<lparr>prev_s_isr_os_status := b\<rparr>) = kinv_core W D s"
  by (simp_all add: kinv_core_def kparts)

lemma upd_tcb_simps [simp]:
  "tdbs (upd_tcb t f s) = tdbs s" "free_task_index (upd_tcb t f s) = free_task_index s"
  "sn_tdb (upd_tcb t f s) = sn_tdb s" "p_curr (upd_tcb t f s) = p_curr s" "rq (upd_tcb t f s) = rq s"
  "p_free_sn (upd_tcb t f s) = p_free_sn s" "free_sn_counter (upd_tcb t f s) = free_sn_counter s"
  "p_stk_sn (upd_tcb t f s) = p_stk_sn s" "p_suspended_sn (upd_tcb t f s) = p_suspended_sn s"
  "p_idle_task (upd_tcb t f s) = p_idle_task s" "tcbs (upd_tcb t f s) = (tcbs s)(t := f (tcbs s t))"
  "mem_arbit (upd_tcb t f s) = mem_arbit s" "resources (upd_tcb t f s) = resources s"
  "irq_masked (upd_tcb t f s) = irq_masked s" "conts (upd_tcb t f s) = conts s"
  by (simp_all add: upd_tcb_def)

text \<open>An update that keeps the number of activations and what the status means for the queues.\<close>

definition soft :: "(tcb \<Rightarrow> tcb) \<Rightarrow> tcb \<Rightarrow> bool" where
  "soft f c \<longleftrightarrow> current_num_of_act (f c) = current_num_of_act c \<and>
     (status (f c) = OSEE_TASK_WAITING \<longleftrightarrow> status c = OSEE_TASK_WAITING) \<and>
     (status (f c) = OSEE_TASK_SUSPENDED \<longleftrightarrow> status c = OSEE_TASK_SUSPENDED) \<and>
     (status c = OSEE_TASK_WAITING \<longrightarrow> p_own_sn (f c) = p_own_sn c) \<and> (wait_ok c \<longrightarrow> wait_ok (f c))"

lemma wait_ok_simps [simp]:
  "wait_ok (c\<lparr>current_num_of_act := n\<rparr>) = wait_ok c" "wait_ok (c\<lparr>current_prio := p\<rparr>) = wait_ok c"
  "wait_ok (c\<lparr>event_mask := m\<rparr>) = wait_ok c" "wait_ok (c\<lparr>p_last_m := r\<rparr>) = wait_ok c"
  "wait_ok c \<Longrightarrow> status c \<noteq> OSEE_TASK_WAITING \<Longrightarrow> wait_ok (c\<lparr>status := OSEE_TASK_READY_STACKED\<rparr>)"
  "wait_ok c \<Longrightarrow> status c \<noteq> OSEE_TASK_WAITING \<Longrightarrow> wait_ok (c\<lparr>status := OSEE_TASK_RUNNING\<rparr>)"
  "wait_ok c \<Longrightarrow> status c = OSEE_TASK_SUSPENDED \<Longrightarrow> wait_ok (c\<lparr>status := st\<rparr>)"
  by (auto simp: wait_ok_def)

lemma wait_ok_0: "wait_mask c = 0 \<Longrightarrow> wait_ok c"
  by (simp add: wait_ok_def)

lemma own_cong:
  assumes "free_task_index s' = free_task_index s" "\<And>t. t < free_task_index s \<Longrightarrow> own_of (tcbs s' t) = own_of (tcbs s t)"
  shows "own s' = own s"
  using assms by (auto simp: own_def intro: sum.cong)

lemma soft_own: "soft f (tcbs s t) \<Longrightarrow> own (upd_tcb t f s) = own s"
  by (rule own_cong) (auto simp: soft_def own_of_def)

lemma soft_live: "soft f (tcbs s t) \<Longrightarrow> live (upd_tcb t f s) = live s \<and> pool (upd_tcb t f s) = pool s"
  by (simp add: live_def pool_def soft_own)

lemma soft_headroom: "soft f (tcbs s t) \<Longrightarrow> headroom (upd_tcb t f s) = headroom s"
  by (auto simp: headroom_def soft_def intro!: sum.cong)

lemma kinv_core_soft:
  assumes "kinv_core W D s" "t < free_task_index s \<Longrightarrow> soft f (tcbs s t)"
  shows "kinv_core W D (upd_tcb t f s)"
proof (cases "t < free_task_index s")
  case True
  with assms(2) have f: "soft f (tcbs s t)" by simp
  show ?thesis
    using assms(1) f soft_live [OF f] soft_headroom [OF f] unfolding kinv_core_def by (auto simp: soft_def)
next
  case False
  have a: "own (upd_tcb t f s) = own s"
    by (rule own_cong) (use False in auto)
  have b: "headroom (upd_tcb t f s) = headroom s"
    unfolding headroom_def using False by (auto intro!: sum.cong)
  have c: "live (upd_tcb t f s) = live s" "pool (upd_tcb t f s) = pool s"
    by (simp_all add: live_def pool_def a)
  show ?thesis
    using assms(1) False unfolding kinv_core_def by (auto simp: b c)
qed

subsection \<open>Moves between queues\<close>

lemma kinv_core_dest:
  assumes "kinv_core W D s"
  shows "count (pool s + W) x \<le> 1" "prio_sorted (ready_key s) (rq s)" "free_task_index s \<le> p_idle_task s"
    "x \<in># live s + W \<Longrightarrow> sn_tdb s x < free_task_index s"
    "length (p_free_sn s) = free_sn_counter s + headroom s + size D"
  using assms unfolding kinv_core_def by blast+

lemma kinv_core_task:
  assumes "kinv_core W D s" "t < free_task_index s"
  shows "unat (current_num_of_act (tcbs s t)) = size (task_of s t (live s + W)) + count D t"
    "current_num_of_act (tcbs s t) \<le> max_num_of_act (tdbs s t)"
    "status (tcbs s t) = OSEE_TASK_SUSPENDED \<longleftrightarrow> size (task_of s t (live s + W)) = 0"
    "status (tcbs s t) = OSEE_TASK_WAITING \<Longrightarrow> task_type (tdbs s t) = OSEE_TASK_TYPE_EXTENDED"
    "status (tcbs s t) = OSEE_TASK_WAITING \<Longrightarrow> \<exists>x. p_own_sn (tcbs s t) = Some x \<and> sn_tdb s x = t"
    "task_type (tdbs s t) = OSEE_TASK_TYPE_EXTENDED \<Longrightarrow> max_num_of_act (tdbs s t) = 1"
    "wait_ok (tcbs s t)"
  using assms unfolding kinv_core_def by blast+

lemma own_ge: "t < free_task_index s \<Longrightarrow> own_of (tcbs s t) \<subseteq># own s"
  unfolding own_def by (simp add: sum.remove [of "{..<free_task_index s}" t])

text \<open>A node on the stack, in the ready queue or in transit belongs to a task that does not wait.\<close>

lemma not_waiting:
  assumes inv: "kinv_core W D s"
    and x: "x \<in># mset (p_stk_sn s) + mset (rq s) + mset (p_suspended_sn s) + W"
  shows "status (tcbs s (sn_tdb s x)) \<noteq> OSEE_TASK_WAITING"
proof
  let ?t = "sn_tdb s x" and ?M = "mset (p_stk_sn s) + mset (rq s) + mset (p_suspended_sn s) + W"
  assume w: "status (tcbs s ?t) = OSEE_TASK_WAITING"
  have "x \<in># live s + W" using x by (auto simp: live_def)
  then have t: "?t < free_task_index s" by (rule kinv_core_dest(4) [OF inv])
  obtain y where y: "p_own_sn (tcbs s ?t) = Some y" "sn_tdb s y = ?t"
    using kinv_core_task(5) [OF inv t w] by blast
  have "own_of (tcbs s ?t) = {#y#}" by (simp add: own_of_def w y)
  then have "{#y#} \<subseteq># own s" using own_ge [OF t] by simp
  moreover have "{#x#} \<subseteq># ?M" using x by simp
  ultimately have "{#x#} + {#y#} \<subseteq># ?M + own s" by (rule subset_mset.add_mono [rotated])
  then have "{#x#} + {#y#} \<subseteq># live s + W" by (simp add: live_def ac_simps)
  then have "task_of s ?t ({#x#} + {#y#}) \<subseteq># task_of s ?t (live s + W)" by (rule multiset_filter_mono)
  then have "2 \<le> size (task_of s ?t (live s + W))" using size_mset_mono y(2) by force
  moreover have "max_num_of_act (tdbs s ?t) = 1"
    using kinv_core_task(4,6) [OF inv t] w by blast
  moreover have "unat (current_num_of_act (tcbs s ?t)) \<le> unat (max_num_of_act (tdbs s ?t))"
    using kinv_core_task(2) [OF inv t] by (simp add: word_le_nat_alt)
  ultimately show False using kinv_core_task(1) [OF inv t] by simp
qed

lemma live_task_active:
  assumes "kinv_core W D s" "x \<in># live s + W"
  shows "status (tcbs s (sn_tdb s x)) \<noteq> OSEE_TASK_SUSPENDED"
proof -
  have t: "sn_tdb s x < free_task_index s" using kinv_core_dest(4) [OF assms] .
  have "x \<in># task_of s (sn_tdb s x) (live s + W)" using assms(2) by simp
  then have "size (task_of s (sn_tdb s x) (live s + W)) \<noteq> 0" by (metis empty_iff set_mset_empty size_eq_0_iff_empty)
  then show ?thesis using kinv_core_task(3) [OF assms(1) t] by simp
qed

text \<open>States that differ only in how the live nodes are spread over the queues.\<close>

lemma kinv_core_move:
  assumes "kinv_core W D s"
    and "live s' + W' = live s + W" "mset (p_free_sn s') = mset (p_free_sn s)"
    and "tdbs s' = tdbs s" "tcbs s' = tcbs s" "free_task_index s' = free_task_index s"
    and "sn_tdb s' = sn_tdb s" "p_idle_task s' = p_idle_task s" "free_sn_counter s' = free_sn_counter s"
    and "prio_sorted (ready_key s) (rq s')"
  shows "kinv_core W' D s'"
proof -
  have "pool s' + W' = live s' + W' + mset (p_free_sn s')" by (simp add: pool_def)
  also have "\<dots> = pool s + W" using assms(2,3) by (simp add: pool_def)
  finally have p: "pool s' + W' = pool s + W" .
  have h: "headroom s' = headroom s" using assms by (simp add: headroom_def)
  have l: "length (p_free_sn s') = length (p_free_sn s)" using assms(3) by (metis size_mset)
  show ?thesis using assms(1) assms(2-) p h l unfolding kinv_core_def by simp
qed

lemma own_same: "tcbs s' = tcbs s \<Longrightarrow> free_task_index s' = free_task_index s \<Longrightarrow> own s' = own s"
  by (simp add: own_def)

lemma kinv_core_pop_stk:
  assumes "kinv_core W D s" "p_stk_sn s = x # xs"
  shows "kinv_core (add_mset x W) D (s\<lparr>p_stk_sn := xs\<rparr>)"
  using assms by (intro kinv_core_move [OF assms(1)]) (simp_all add: live_def own_def kinv_core_dest)

lemma kinv_core_push_stk:
  assumes "kinv_core (add_mset x W) D s"
  shows "kinv_core W D (s\<lparr>p_stk_sn := x # p_stk_sn s\<rparr>)"
  using assms by (intro kinv_core_move [OF assms(1)]) (simp_all add: live_def own_def kinv_core_dest)

lemma kinv_core_pop_rq:
  assumes "kinv_core W D s" "rq s = x # xs"
  shows "kinv_core (add_mset x W) D (s\<lparr>rq := xs\<rparr>)"
  using assms kinv_core_dest(2) [OF assms(1)]
  by (intro kinv_core_move [OF assms(1)]) (simp_all add: live_def own_def)

lemma kinv_core_rq_insert:
  assumes "kinv_core (add_mset x W) D s" "sn_tdb s x = t"
  shows "kinv_core W D (fst (osEE_scheduler_rq_insert x t s))"
proof -
  have u: "(sn_tdb s)(x := t) = sn_tdb s" using assms(2) by auto
  have "prio_sorted (ready_key s) (sn_insert (ready_key s) x (rq s))"
    by (rule sn_insert_sorted) (rule kinv_core_dest(2) [OF assms(1)])
  then show ?thesis
    by (intro kinv_core_move [OF assms(1)]) (simp_all add: osEE_scheduler_rq_insert_def Let_def u live_def own_def)
qed

subsection \<open>Activations\<close>

lemma headroom_upd:
  assumes "t < free_task_index s"
  shows "headroom (upd_tcb t f s) + (unat (max_num_of_act (tdbs s t)) - unat (current_num_of_act (tcbs s t))) =
    headroom s + (unat (max_num_of_act (tdbs s t)) - unat (current_num_of_act (f (tcbs s t))))"
  using assms unfolding headroom_def
  by (simp add: sum.remove [of "{..<free_task_index s}" t])

lemma u8_inc: "a < b \<Longrightarrow> unat (a + 1 :: u8) = unat a + 1"
proof -
  assume "a < b"
  then have "unat a < unat b" by (simp add: word_less_nat_alt)
  moreover have "unat b < 2 ^ LENGTH(8)" by (rule unsigned_less)
  ultimately show ?thesis by (simp add: unat_word_ariths)
qed

lemma kinv_core_count:
  assumes inv: "kinv_core W D s" and t: "t < free_task_index s"
    and lt: "current_num_of_act (tcbs s t) < max_num_of_act (tdbs s t)"
  shows "kinv_core W (add_mset t D) (upd_tcb t (\<lambda>c. c\<lparr>current_num_of_act := current_num_of_act c + 1\<rparr>) s)"
proof -
  let ?f = "\<lambda>c. c\<lparr>current_num_of_act := current_num_of_act c + 1\<rparr>" and ?a = "current_num_of_act (tcbs s t)"
  have a: "unat (?a + 1) = unat ?a + 1" by (rule u8_inc [OF lt])
  have lt': "unat ?a < unat (max_num_of_act (tdbs s t))" using lt by (simp add: word_less_nat_alt)
  have le: "?a + 1 \<le> max_num_of_act (tdbs s t)" using a lt' by (simp add: word_le_nat_alt)
  have o: "own (upd_tcb t ?f s) = own s" by (rule own_cong) (auto simp: own_of_def)
  have l: "live (upd_tcb t ?f s) = live s" "pool (upd_tcb t ?f s) = pool s" by (simp_all add: live_def pool_def o)
  have h: "headroom (upd_tcb t ?f s) + 1 = headroom s" using headroom_upd [OF t, of ?f] a lt' by simp
  have "length (p_free_sn s) = free_sn_counter s + headroom (upd_tcb t ?f s) + size (add_mset t D)"
    using kinv_core_dest(5) [OF inv] h by simp
  then show ?thesis using inv le a unfolding kinv_core_def l by auto
qed

lemma kinv_core_deficit_not_waiting:
  assumes inv: "kinv_core W D s" and t: "t < free_task_index s" "t \<in># D"
  shows "status (tcbs s t) \<noteq> OSEE_TASK_WAITING"
proof
  assume w: "status (tcbs s t) = OSEE_TASK_WAITING"
  then have "max_num_of_act (tdbs s t) = 1" using kinv_core_task(4,6) [OF inv t(1)] by blast
  then have "unat (current_num_of_act (tcbs s t)) \<le> 1"
    using kinv_core_task(2) [OF inv t(1)] by (simp add: word_le_nat_alt)
  moreover have "size (task_of s t (live s + W)) \<noteq> 0"
    unfolding kinv_core_task(3) [OF inv t(1), symmetric] using w by simp
  moreover have "count D t \<noteq> 0" using t(2) by (metis count_eq_zero_iff)
  ultimately show False unfolding kinv_core_task(1) [OF inv t(1)] by linarith
qed

lemma kinv_core_alloc_free:
  assumes "kinv_core W D s" "t \<in># D"
  obtains x xs where "p_free_sn s = x # xs" "x \<notin># live s + W"
proof -
  have "length (p_free_sn s) \<noteq> 0" using kinv_core_dest(5) [OF assms(1)] assms(2) by (auto simp: size_eq_0_iff_empty)
  then obtain x xs where x: "p_free_sn s = x # xs" by (cases "p_free_sn s") auto
  have "count (pool s + W) x \<le> 1" by (rule kinv_core_dest(1) [OF assms(1)])
  then have "count (live s + W) x = 0" by (simp add: pool_def x)
  then have "x \<notin># live s + W" by (metis count_eq_zero_iff)
  with x that show ?thesis by blast
qed

lemma kinv_core_alloc:
  assumes inv: "kinv_core W (add_mset t D) s" and t: "t < free_task_index s"
    and x: "p_free_sn s = x # xs"
    and f: "current_num_of_act (f (tcbs s t)) = current_num_of_act (tcbs s t)"
      "status (f (tcbs s t)) \<noteq> OSEE_TASK_SUSPENDED" "status (f (tcbs s t)) \<noteq> OSEE_TASK_WAITING"
      "wait_ok (f (tcbs s t))"
  shows "kinv_core (add_mset x W) D (upd_tcb t f (s\<lparr>p_free_sn := xs, sn_tdb := (sn_tdb s)(x := t)\<rparr>))"
    (is "kinv_core ?W D ?s'")
proof -
  have nw: "status (tcbs s t) \<noteq> OSEE_TASK_WAITING" by (rule kinv_core_deficit_not_waiting [OF inv t]) simp
  have "count (pool s + W) x \<le> 1" by (rule kinv_core_dest(1) [OF inv])
  then have "count (live s + W) x = 0" by (simp add: pool_def x)
  then have nx: "x \<notin># live s + W" by (metis count_eq_zero_iff)
  have o: "own ?s' = own s" by (rule own_cong) (use nw f in \<open>auto simp: own_of_def\<close>)
  have l: "live ?s' = live s" by (simp add: live_def o)
  have p: "pool ?s' + ?W = pool s + W" by (simp add: pool_def l x)
  have h: "headroom ?s' = headroom s" using f(1) by (auto simp: headroom_def intro!: sum.cong)
  have old: "task_of ?s' t' (live s + W) = task_of s t' (live s + W)" for t'
    by (rule filter_mset_cong) (use nx in auto)
  have cnt: "size (task_of ?s' t' (live ?s' + ?W)) =
      size (task_of s t' (live s + W)) + (if t' = t then 1 else 0)" for t'
  proof -
    have "live ?s' + ?W = add_mset x (live s + W)" by (simp add: l)
    moreover have "size (task_of ?s' t' (add_mset x M)) = size (task_of ?s' t' M) + (if t' = t then 1 else 0)" for M
      by simp
    ultimately show ?thesis by (simp only: old)
  qed
  have srt: "prio_sorted (ready_key ?s') (rq s)"
    using kinv_core_dest(2) [OF inv] nx by (auto simp: live_def elim!: sorted_wrt_mono_rel [rotated])
  have dom: "\<forall>y\<in>#live ?s' + ?W. sn_tdb ?s' y < free_task_index s"
    using kinv_core_dest(4) [OF inv] t nx l by auto
  have nx1: "y \<noteq> x" if "t' < free_task_index s" "status (tcbs s t') = OSEE_TASK_WAITING" "p_own_sn (tcbs s t') = Some y" for t' y
  proof -
    have "own_of (tcbs s t') = {#y#}" using that by (simp add: own_of_def)
    with own_ge [OF that(1)] have "y \<in># live s + W" by (simp add: live_def)
    with nx show ?thesis by auto
  qed
  show ?thesis
    unfolding kinv_core_def
  proof (intro conjI allI impI)
    fix t' assume t': "t' < free_task_index ?s'"
    then have t'': "t' < free_task_index s" by simp
    note K = kinv_core_task [OF inv t'']
    show "unat (current_num_of_act (tcbs ?s' t')) = size (task_of ?s' t' (live ?s' + ?W)) + count D t'"
      using K(1) f(1) cnt [of t'] by auto
    show "current_num_of_act (tcbs ?s' t') \<le> max_num_of_act (tdbs ?s' t')" using K(2) f(1) by auto
    show "(status (tcbs ?s' t') = OSEE_TASK_SUSPENDED) = (size (task_of ?s' t' (live ?s' + ?W)) = 0)"
      unfolding cnt using K(3) f(2) by auto
    show "task_type (tdbs ?s' t') = OSEE_TASK_TYPE_EXTENDED" if "status (tcbs ?s' t') = OSEE_TASK_WAITING"
      using K(4) f(3) that by (auto split: if_splits)
    show "\<exists>y. p_own_sn (tcbs ?s' t') = Some y \<and> sn_tdb ?s' y = t'" if "status (tcbs ?s' t') = OSEE_TASK_WAITING"
    proof -
      have w: "t' \<noteq> t" "status (tcbs s t') = OSEE_TASK_WAITING" using that f(3) by (auto split: if_splits)
      then obtain y where "p_own_sn (tcbs s t') = Some y" "sn_tdb s y = t'" using K(5) by blast
      with nx1 [OF t'' w(2)] w show ?thesis by auto
    qed
    show "max_num_of_act (tdbs ?s' t') = 1" if "task_type (tdbs ?s' t') = OSEE_TASK_TYPE_EXTENDED"
      using K(6) that by simp
    show "wait_ok (tcbs ?s' t')" using K(7) f(4) by simp
  next
    show "count (pool ?s' + ?W) y \<le> 1" for y unfolding p by (rule kinv_core_dest(1) [OF inv])
  qed (use srt dom h kinv_core_dest(3,5) [OF inv] x in auto)
qed

lemma kinv_core_release:
  assumes inv: "kinv_core (add_mset x W) D s" and x: "sn_tdb s x = t"
    and f: "current_num_of_act (f (tcbs s t)) = current_num_of_act (tcbs s t) - 1"
      "status (f (tcbs s t)) = OSEE_TASK_SUSPENDED \<longleftrightarrow> size (task_of s t (live s + W)) = 0"
      "status (f (tcbs s t)) \<noteq> OSEE_TASK_WAITING" "wait_ok (f (tcbs s t))"
  shows "kinv_core W D (sn_release x (upd_tcb t f s))" (is "kinv_core W D ?s'")
proof -
  let ?a = "current_num_of_act (tcbs s t)"
  have t: "t < free_task_index s" using kinv_core_dest(4) [OF inv, of x] x by simp
  have nw: "status (tcbs s t) \<noteq> OSEE_TASK_WAITING" using not_waiting [OF inv, of x] x by simp
  have o: "own ?s' = own s" by (rule own_cong) (use nw f in \<open>auto simp: own_of_def sn_release_def\<close>)
  have l: "live ?s' = live s" using o by (simp add: live_def sn_release_def)
  have p: "pool ?s' + W = pool s + add_mset x W" using l by (simp add: pool_def sn_release_def)
  have cnt: "size (task_of s t' (live s + add_mset x W)) =
      size (task_of s t' (live s + W)) + (if t' = t then 1 else 0)" for t'
    using x by simp
  have "unat ?a \<noteq> 0" unfolding kinv_core_task(1) [OF inv t] cnt by simp
  then have pos: "unat (?a - 1) + 1 = unat ?a" by (metis Suc_eq_plus1 Suc_pred' gr0I unat_0 unat_minus_one)
  have "unat ?a \<le> unat (max_num_of_act (tdbs s t))"
    using kinv_core_task(2) [OF inv t] by (simp add: word_le_nat_alt)
  then have h: "headroom ?s' = headroom s + 1" using headroom_upd [OF t, of f] pos f(1)
    by (simp add: headroom_def sn_release_def)
  show ?thesis
    unfolding kinv_core_def
  proof (intro conjI allI impI)
    fix t' assume "t' < free_task_index ?s'"
    then have t': "t' < free_task_index s" by (simp add: sn_release_def)
    note K = kinv_core_task [OF inv t']
    have s': "sn_tdb ?s' = sn_tdb s" "tdbs ?s' = tdbs s" "tcbs ?s' = (tcbs s)(t := f (tcbs s t))"
      by (simp_all add: sn_release_def)
    show "unat (current_num_of_act (tcbs ?s' t')) = size (task_of ?s' t' (live ?s' + W)) + count D t'"
      unfolding s' l using K(1) f(1) pos unfolding cnt by (auto split: if_splits)
    show "current_num_of_act (tcbs ?s' t') \<le> max_num_of_act (tdbs ?s' t')"
      unfolding s' using K(2) f(1) pos by (auto simp: word_le_nat_alt)
    show "(status (tcbs ?s' t') = OSEE_TASK_SUSPENDED) = (size (task_of ?s' t' (live ?s' + W)) = 0)"
      unfolding s' l using K(3) f(2) unfolding cnt by (cases "t' = t") (simp_all del: size_eq_0_iff_empty)
    show "task_type (tdbs ?s' t') = OSEE_TASK_TYPE_EXTENDED" if "status (tcbs ?s' t') = OSEE_TASK_WAITING"
      using K(4) f(3) that unfolding s' by (auto split: if_splits)
    show "\<exists>y. p_own_sn (tcbs ?s' t') = Some y \<and> sn_tdb ?s' y = t'" if "status (tcbs ?s' t') = OSEE_TASK_WAITING"
      using K(5) f(3) that unfolding s' by (auto split: if_splits)
    show "max_num_of_act (tdbs ?s' t') = 1" if "task_type (tdbs ?s' t') = OSEE_TASK_TYPE_EXTENDED"
      using K(6) that unfolding s' by simp
    show "wait_ok (tcbs ?s' t')" unfolding s' using K(7) f(4) by simp
  next
    show "count (pool ?s' + W) y \<le> 1" for y unfolding p by (rule kinv_core_dest(1) [OF inv])
  next
    show "prio_sorted (ready_key ?s') (rq ?s')" "free_task_index ?s' \<le> p_idle_task ?s'"
      using kinv_core_dest(2,3) [OF inv] by (simp_all add: sn_release_def)
    show "\<forall>y\<in>#live ?s' + W. sn_tdb ?s' y < free_task_index ?s'"
      unfolding l using kinv_core_dest(4) [OF inv] by (auto simp: sn_release_def)
    show "length (p_free_sn ?s') = free_sn_counter ?s' + headroom ?s' + size D"
      unfolding h using kinv_core_dest(5) [OF inv] by (simp add: sn_release_def)
  qed
qed

subsection \<open>Dispatching\<close>

lemma stk_next_inv:
  assumes "kinv_core (add_mset q W) D s"
  shows "kinv_core W D (osEE_scheduler_stk_next q s)"
proof -
  have "kinv_core W D (s\<lparr>p_stk_sn := q # p_stk_sn s, p_curr := sn_tdb s q\<rparr>)"
    using kinv_core_push_stk [OF assms] by simp
  then show ?thesis
    unfolding osEE_scheduler_stk_next_def Let_def by (auto intro!: kinv_core_soft simp: soft_def)
qed

lemma stk_next_simps [simp]:
  "p_stk_sn (osEE_scheduler_stk_next q s) = q # p_stk_sn s" "p_curr (osEE_scheduler_stk_next q s) = sn_tdb s q"
  "rq (osEE_scheduler_stk_next q s) = rq s" "sn_tdb (osEE_scheduler_stk_next q s) = sn_tdb s"
  "tdbs (osEE_scheduler_stk_next q s) = tdbs s" "free_task_index (osEE_scheduler_stk_next q s) = free_task_index s"
  "p_free_sn (osEE_scheduler_stk_next q s) = p_free_sn s" "p_suspended_sn (osEE_scheduler_stk_next q s) = p_suspended_sn s"
  "p_idle_task (osEE_scheduler_stk_next q s) = p_idle_task s" "mem_arbit (osEE_scheduler_stk_next q s) = mem_arbit s"
  "status (tcbs (osEE_scheduler_stk_next q s) u) = status (tcbs s u)"
  "current_num_of_act (tcbs (osEE_scheduler_stk_next q s) u) = current_num_of_act (tcbs s u)"
  "wait_mask (tcbs (osEE_scheduler_stk_next q s) u) = wait_mask (tcbs s u)"
  "event_mask (tcbs (osEE_scheduler_stk_next q s) u) = event_mask (tcbs s u)"
  "p_own_sn (tcbs (osEE_scheduler_stk_next q s) u) = p_own_sn (tcbs s u)"
  "p_last_m (tcbs (osEE_scheduler_stk_next q s) u) = p_last_m (tcbs s u)"
  "conts (osEE_scheduler_stk_next q s) = conts s" "irq_masked (osEE_scheduler_stk_next q s) = irq_masked s"
  "resources (osEE_scheduler_stk_next q s) = resources s"
  by (simp_all add: osEE_scheduler_stk_next_def Let_def)

lemma stk_next_prio:
  "current_prio (tcbs (osEE_scheduler_stk_next q s) u) =
     (if u = sn_tdb s q then max (current_prio (tcbs s u)) (dispatch_prio (tdbs s u)) else current_prio (tcbs s u))"
  by (auto simp: osEE_scheduler_stk_next_def Let_def max_def)

text \<open>The two outcomes of \<open>osEE_scheduler_core_rq_preempt_stk\<close>.\<close>

lemma rq_preempt_cases:
  obtains (stay) "osEE_scheduler_core_rq_preempt_stk s = (s, None)"
      "rq s = [] \<or> p_stk_sn s \<noteq> [] \<and>
        current_prio (tcbs s (sn_tdb s (hd (rq s)))) \<le> current_prio (tcbs s (top_task s))"
  | (preempt) q qs where "rq s = q # qs"
      "osEE_scheduler_core_rq_preempt_stk s =
        (osEE_scheduler_stk_next q (upd_tcb (top_task s) (\<lambda>c. c\<lparr>status := OSEE_TASK_READY_STACKED\<rparr>) s\<lparr>rq := qs\<rparr>),
         Some (top_task s))"
      "p_stk_sn s = [] \<or> current_prio (tcbs s (top_task s)) < current_prio (tcbs s (sn_tdb s q))"
proof (cases "rq s")
  case Nil
  then show ?thesis using stay by (simp add: osEE_scheduler_core_rq_preempt_stk_def)
next
  case (Cons q qs)
  show ?thesis
  proof (cases "p_stk_sn s = [] \<or> current_prio (tcbs s (top_task s)) < current_prio (tcbs s (sn_tdb s q))")
    case True
    then show ?thesis using preempt [OF Cons]
      by (auto simp: Cons osEE_scheduler_core_rq_preempt_stk_def top_task_def Let_def split: list.splits)
  next
    case False
    then show ?thesis using stay
      by (auto simp: Cons osEE_scheduler_core_rq_preempt_stk_def top_task_def Let_def not_less split: list.splits)
  qed
qed

lemma top_task_soft:
  assumes "kinv_core W D s" "top_task s < free_task_index s" "c = tcbs s (top_task s)" "st \<in> {OSEE_TASK_READY_STACKED, OSEE_TASK_RUNNING}"
  shows "soft (\<lambda>c. c\<lparr>status := st\<rparr>) c"
proof -
  obtain x xs where x: "p_stk_sn s = x # xs" "top_task s = sn_tdb s x"
    using assms(2) kinv_core_dest(3) [OF assms(1)] by (cases "p_stk_sn s") (auto simp: top_task_def)
  have "status (tcbs s (sn_tdb s x)) \<noteq> OSEE_TASK_WAITING" by (rule not_waiting [OF assms(1)]) (simp add: x)
  moreover have "status (tcbs s (sn_tdb s x)) \<noteq> OSEE_TASK_SUSPENDED"
    by (rule live_task_active [OF assms(1)]) (simp add: x live_def)
  ultimately show ?thesis using assms(3,4) x(2) by (auto simp: soft_def)
qed

lemma rq_preempt_inv:
  assumes "kinv_core W D s"
  shows "kinv_core W D (fst (osEE_scheduler_core_rq_preempt_stk s))"
proof (cases s rule: rq_preempt_cases)
  case stay
  then show ?thesis using assms by simp
next
  case (preempt q qs)
  have "kinv_core W D (upd_tcb (top_task s) (\<lambda>c. c\<lparr>status := OSEE_TASK_READY_STACKED\<rparr>) s)"
    by (rule kinv_core_soft [OF assms]) (rule top_task_soft [OF assms], auto)
  then have "kinv_core (add_mset q W) D (upd_tcb (top_task s) (\<lambda>c. c\<lparr>status := OSEE_TASK_READY_STACKED\<rparr>) s\<lparr>rq := qs\<rparr>)"
    by (rule kinv_core_pop_rq) (simp add: preempt)
  then show ?thesis unfolding preempt(2) by (simp add: stk_next_inv)
qed

lemma change_context_inv:
  assumes "kinv_core W D s" "p_to = top_task s"
  shows "kinv_core W D (osEE_change_context_from_running p_from p_to s)"
    and "kinv_core W D (osEE_change_context_from_task_end p_from p_to s)"
proof -
  have a: "kinv_core W D (osEE_scheduler_task_wrapper_restore p_to s)"
    unfolding osEE_scheduler_task_wrapper_restore_def
    by (rule kinv_core_soft [OF assms(1)]) (rule top_task_soft [OF assms(1)], auto simp: assms(2))
  then have "kinv_core W D (osEE_scheduler_task_wrapper_run p_to s)"
    by (simp add: osEE_scheduler_task_wrapper_run_def Let_def)
  with a show "kinv_core W D (osEE_change_context_from_running p_from p_to s)"
    "kinv_core W D (osEE_change_context_from_task_end p_from p_to s)"
    by (simp_all add: osEE_change_context_from_running_def osEE_change_context_from_task_end_def)
qed

subsection \<open>Operations keep the invariant\<close>

text \<open>
  The state in which a context switch is made: the current task is the top of the stack, and no
  other task is left RUNNING.
\<close>

definition ksched :: "kern \<Rightarrow> bool" where
  "ksched s \<longleftrightarrow> kinv_core {#} {#} s \<and> p_curr s = top_task s \<and> waits_ok s \<and>
     (\<forall>u. status (tcbs s u) = OSEE_TASK_RUNNING \<longrightarrow> u = p_curr s \<and> wait_mask (tcbs s u) = 0)"

lemma change_context_simps [simp]:
  "p_stk_sn (osEE_change_context_from_running a b s) = p_stk_sn s"
  "p_curr (osEE_change_context_from_running a b s) = p_curr s"
  "sn_tdb (osEE_change_context_from_running a b s) = sn_tdb s"
  "rq (osEE_change_context_from_running a b s) = rq s"
  "p_suspended_sn (osEE_change_context_from_running a b s) = p_suspended_sn s"
  "p_idle_task (osEE_change_context_from_running a b s) = p_idle_task s"
  "free_task_index (osEE_change_context_from_running a b s) = free_task_index s"
  "tdbs (osEE_change_context_from_running a b s) = tdbs s"
  "mem_arbit (osEE_change_context_from_running a b s) = mem_arbit s"
  "tcbs (osEE_change_context_from_running a b s) = (tcbs s)(b := (tcbs s b)\<lparr>status := OSEE_TASK_RUNNING\<rparr>)"
  "conts (osEE_change_context_from_running a b s) =
     (if status (tcbs s b) = OSEE_TASK_READY_STACKED then conts s else (conts s)(b := C_NONE))"
  by (simp_all add: osEE_change_context_from_running_def osEE_scheduler_task_wrapper_restore_def
      osEE_scheduler_task_wrapper_run_def Let_def)

lemma task_end_change_context: "osEE_change_context_from_task_end a b s = osEE_change_context_from_running a b s"
  by (simp add: osEE_change_context_from_running_def osEE_change_context_from_task_end_def)

lemma top_task_cong: "p_stk_sn s' = p_stk_sn s \<Longrightarrow> sn_tdb s' = sn_tdb s \<Longrightarrow> p_idle_task s' = p_idle_task s \<Longrightarrow> top_task s' = top_task s"
  by (simp add: top_task_def split: list.split)

lemma kinv_prio:
  assumes "kinv s"
  shows "kinv (upd_tcb t (\<lambda>c. c\<lparr>current_prio := p\<rparr>) s)"
proof -
  let ?s = "upd_tcb t (\<lambda>c. c\<lparr>current_prio := p\<rparr>) s"
  have "kinv_core {#} {#} ?s" by (rule kinv_core_soft) (use assms in \<open>auto simp: kinv_def soft_def\<close>)
  moreover have "top_task ?s = top_task s" by (rule top_task_cong) simp_all
  ultimately show ?thesis using assms by (simp add: kinv_def krun_def waits_ok_def)
qed

lemma kinv_frame [simp]:
  "kinv (s\<lparr>irq_masked := b\<rparr>) = kinv s" "kinv (s\<lparr>mem_arbit := m\<rparr>) = kinv s" "kinv (s\<lparr>resources := r\<rparr>) = kinv s"
  "kinv (s\<lparr>s_isr_all_cnt := c\<rparr>) = kinv s" "kinv (s\<lparr>s_isr_os_cnt := c\<rparr>) = kinv s" "kinv (s\<lparr>d_isr_all_cnt := c\<rparr>) = kinv s"
  "kinv (s\<lparr>prev_s_isr_all_status := b\<rparr>) = kinv s" "kinv (s\<lparr>prev_s_isr_os_status := b\<rparr>) = kinv s"
  by (simp_all add: kinv_def krun_def waits_ok_def top_task_def split: list.split)

lemma waits_ok_running:
  assumes "waits_ok s" "t < free_task_index s" "conts s t = C_NONE"
  shows "wait_mask (tcbs s t) = 0"
  using assms by (auto simp: waits_ok_def)

lemma change_context_kinv:
  assumes "ksched s"
  shows "kinv (osEE_change_context_from_running p_from (p_curr s) s)" (is "kinv ?s'")
proof -
  have a: "kinv_core {#} {#} s" "p_curr s = top_task s" "waits_ok s"
    and r: "\<And>u. status (tcbs s u) = OSEE_TASK_RUNNING \<Longrightarrow> u = p_curr s \<and> wait_mask (tcbs s u) = 0"
    using assms unfolding ksched_def by blast+
  have w: "wait_mask (tcbs s (p_curr s)) = 0"
    if c: "status (tcbs s (p_curr s)) \<noteq> OSEE_TASK_READY_STACKED" "p_curr s < free_task_index s"
  proof -
    obtain x xs where x: "p_stk_sn s = x # xs" "p_curr s = sn_tdb s x"
      using a(2) c(2) kinv_core_dest(3) [OF a(1)] by (cases "p_stk_sn s") (auto simp: top_task_def)
    have "status (tcbs s (p_curr s)) \<noteq> OSEE_TASK_WAITING" using not_waiting [OF a(1), of x] x by simp
    then show ?thesis using kinv_core_task(7) [OF a(1) c(2)] c(1) r by (auto simp: wait_ok_def)
  qed
  have "waits_ok ?s'" using a(3) w by (auto simp: waits_ok_def)
  moreover have "top_task ?s' = top_task s" by (rule top_task_cong) simp_all
  ultimately show ?thesis
    using change_context_inv(1) [OF a(1,2), of p_from] a(2) r by (auto simp: kinv_def krun_def)
qed

lemma pop_running_inv:
  assumes inv: "kinv_core W D s" and x: "p_stk_sn s = x # xs"
  obtains s' where "osEE_scheduler_core_pop_running s = Some (s', x)" "kinv_core (add_mset x W) D s'"
    "p_curr s' = top_task s'" "sn_tdb s' = sn_tdb s" "tdbs s' = tdbs s"
    "\<And>u. current_num_of_act (tcbs s' u) = current_num_of_act (tcbs s u)"
    "free_task_index s' = free_task_index s" "p_suspended_sn s' = p_suspended_sn s" "mem_arbit s' = mem_arbit s"
    "p_idle_task s' = p_idle_task s" "\<And>u. wait_mask (tcbs s' u) = wait_mask (tcbs s u)" "conts s' = conts s"
    "\<And>u. status (tcbs s' u) = status (tcbs s u) \<or> status (tcbs s' u) = OSEE_TASK_READY_STACKED"
    "\<And>u. p_own_sn (tcbs s' u) = p_own_sn (tcbs s u)" "irq_masked s' = irq_masked s"
proof -
  let ?s = "s\<lparr>p_stk_sn := xs\<rparr>"
  have k: "kinv_core (add_mset x W) D ?s" by (rule kinv_core_pop_stk [OF inv x])
  have k': "kinv_core (add_mset x W) D (fst (osEE_scheduler_core_rq_preempt_stk ?s))" by (rule rq_preempt_inv [OF k])
  show ?thesis
  proof (cases ?s rule: rq_preempt_cases)
    case stay
    show ?thesis
      by (rule that [of "?s\<lparr>p_curr := top_task ?s\<rparr>"])
        (use k stay(1) in \<open>simp_all add: osEE_scheduler_core_pop_running_def x top_task_def split: list.split\<close>)
  next
    case (preempt q qs)
    show ?thesis
      by (rule that [of "fst (osEE_scheduler_core_rq_preempt_stk ?s)"])
        (use k' preempt in \<open>simp_all add: osEE_scheduler_core_pop_running_def x top_task_def\<close>)
  qed
qed

lemma upd_tcb_id: "f (tcbs s t) = tcbs s t \<Longrightarrow> upd_tcb t f s = s"
  by (cases s) (simp add: upd_tcb_def)

lemma kinv_core_deficit_alloc:
  assumes "kinv_core W (add_mset t D) s"
  obtains x xs where "p_free_sn s = x # xs" "sn_alloc s = Some (s\<lparr>p_free_sn := xs\<rparr>, x)"
proof -
  obtain x xs where "p_free_sn s = x # xs" by (rule kinv_core_alloc_free [OF assms, of t]) auto
  with that show ?thesis by (simp add: sn_alloc_def)
qed

lemma rq_insert_simps [simp]:
  "p_stk_sn (fst (osEE_scheduler_rq_insert x t s)) = p_stk_sn s" "p_curr (fst (osEE_scheduler_rq_insert x t s)) = p_curr s"
  "sn_tdb (fst (osEE_scheduler_rq_insert x t s)) = (sn_tdb s)(x := t)" "tcbs (fst (osEE_scheduler_rq_insert x t s)) = tcbs s"
  "tdbs (fst (osEE_scheduler_rq_insert x t s)) = tdbs s" "p_idle_task (fst (osEE_scheduler_rq_insert x t s)) = p_idle_task s"
  "free_task_index (fst (osEE_scheduler_rq_insert x t s)) = free_task_index s"
  "p_suspended_sn (fst (osEE_scheduler_rq_insert x t s)) = p_suspended_sn s"
  "mem_arbit (fst (osEE_scheduler_rq_insert x t s)) = mem_arbit s"
  "set (rq (fst (osEE_scheduler_rq_insert x t s))) = insert x (set (rq s))"
  "conts (fst (osEE_scheduler_rq_insert x t s)) = conts s" "irq_masked (fst (osEE_scheduler_rq_insert x t s)) = irq_masked s"
  by (simp_all add: osEE_scheduler_rq_insert_def Let_def)

lemma task_insert_rq_inv:
  assumes inv: "kinv_core W (add_mset t D) s" and t: "t < free_task_index s"
  obtains s' b where "osEE_scheduler_task_insert_rq t s = Some (s', b)" "kinv_core W D s'"
    "p_curr s' = p_curr s" "p_stk_sn s' = p_stk_sn s" "p_idle_task s' = p_idle_task s"
    "\<And>y. y \<in># live s \<Longrightarrow> sn_tdb s' y = sn_tdb s y"
    "\<And>u. u \<noteq> t \<Longrightarrow> tcbs s' u = tcbs s u" "status (tcbs s t) = OSEE_TASK_RUNNING \<Longrightarrow> status (tcbs s' t) = OSEE_TASK_RUNNING"
    "free_task_index s' = free_task_index s" "conts s' = conts s"
    "wait_mask (tcbs s' t) = wait_mask (tcbs s t)"
    "status (tcbs s' t) = status (tcbs s t) \<or> status (tcbs s' t) = OSEE_TASK_READY"
    "p_suspended_sn s' = p_suspended_sn s" "mem_arbit s' = mem_arbit s"
proof -
  define f :: "tcb \<Rightarrow> tcb" where "f = (\<lambda>c. if status c = OSEE_TASK_SUSPENDED then c\<lparr>status := OSEE_TASK_READY, event_mask := 0\<rparr> else c)"
  obtain x xs where x: "p_free_sn s = x # xs" "x \<notin># live s + W"
    using kinv_core_alloc_free [OF inv, of t] by auto
  let ?s1 = "upd_tcb t f (s\<lparr>p_free_sn := xs, sn_tdb := (sn_tdb s)(x := t)\<rparr>)"
  have nw: "status (tcbs s t) \<noteq> OSEE_TASK_WAITING" by (rule kinv_core_deficit_not_waiting [OF inv t]) simp
  have "kinv_core (add_mset x W) D ?s1"
    by (rule kinv_core_alloc [OF inv t x(1)]) (use nw kinv_core_task(7) [OF inv t] in \<open>auto simp: f_def\<close>)
  then have k: "kinv_core W D (fst (osEE_scheduler_rq_insert x t ?s1))"
    by (rule kinv_core_rq_insert) simp
  have e: "osEE_scheduler_task_insert_rq t s = Some (osEE_scheduler_rq_insert x t ?s1)"
  proof (cases "status (tcbs s t) = OSEE_TASK_SUSPENDED")
    case True
    then show ?thesis using x(1)
      by (cases s) (simp add: osEE_scheduler_task_insert_rq_def sn_alloc_def Let_def f_def osEE_task_event_reset_mask_def
          upd_tcb_def osEE_scheduler_rq_insert_def cong: if_cong)
  next
    case False
    then have "?s1 = s\<lparr>p_free_sn := xs, sn_tdb := (sn_tdb s)(x := t)\<rparr>" by (intro upd_tcb_id) (simp add: f_def)
    then show ?thesis using False
      by (simp add: osEE_scheduler_task_insert_rq_def sn_alloc_def x Let_def osEE_scheduler_rq_insert_def cong: if_cong)
  qed
  show ?thesis
    by (rule that [of "fst (osEE_scheduler_rq_insert x t ?s1)" "snd (osEE_scheduler_rq_insert x t ?s1)"])
      (use e k x(2) in \<open>auto simp: f_def\<close>)
qed

text \<open>A new node for a counted activation goes on top of the stack and its task runs.\<close>

lemma push_activation:
  assumes inv: "kinv_core {#} {#t#} s" and t: "t < free_task_index s" and x: "p_free_sn s = x # xs"
    and f: "current_num_of_act (f (tcbs s t)) = current_num_of_act (tcbs s t)" "status (f (tcbs s t)) = OSEE_TASK_RUNNING"
      "wait_ok (f (tcbs s t))"
    and s': "p_stk_sn s' = x # p_stk_sn s" "p_free_sn s' = xs" "sn_tdb s' = (sn_tdb s)(x := t)" "p_curr s' = t"
      "tcbs s' = (tcbs s)(t := f (tcbs s t))" "rq s' = rq s" "tdbs s' = tdbs s" "free_task_index s' = free_task_index s"
      "p_suspended_sn s' = p_suspended_sn s" "p_idle_task s' = p_idle_task s" "free_sn_counter s' = free_sn_counter s"
      "waits_ok s'"
    and u: "\<And>u. u \<noteq> t \<Longrightarrow> status (tcbs s u) \<noteq> OSEE_TASK_RUNNING"
  shows "kinv s'"
proof -
  let ?s1 = "upd_tcb t f (s\<lparr>p_free_sn := xs, sn_tdb := (sn_tdb s)(x := t)\<rparr>)"
  have "kinv_core (add_mset x {#}) {#} ?s1"
    by (rule kinv_core_alloc [OF inv t x]) (use f in auto)
  then have k: "kinv_core {#} {#} (?s1\<lparr>p_stk_sn := x # p_stk_sn ?s1\<rparr>)" by (rule kinv_core_push_stk)
  have "kinv_core {#} {#} s'"
    by (rule kinv_core_move [OF k]) (use kinv_core_dest(2) [OF k] s' in \<open>simp_all add: live_def own_def\<close>)
  then show ?thesis using s' f u by (auto simp: kinv_def krun_def top_task_def)
qed

lemma kinv_core_stacked:
  assumes "kinv_core {#} D s" "p_curr s = top_task s"
  shows "kinv_core {#} D (upd_tcb (p_curr s) (\<lambda>c. c\<lparr>status := OSEE_TASK_READY_STACKED\<rparr>) s)"
  by (rule kinv_core_soft [OF assms(1)]) (rule top_task_soft [OF assms(1)], auto simp: assms(2))

lemma krun_dest:
  assumes "krun s"
  shows "p_curr s = top_task s" "waits_ok s" "status (tcbs s (p_curr s)) = OSEE_TASK_RUNNING"
    "u \<noteq> p_curr s \<Longrightarrow> status (tcbs s u) \<noteq> OSEE_TASK_RUNNING"
  using assms by (simp_all add: krun_def)

lemma task_insert_inv:
  assumes inv: "kinv_core {#} {#t#} s" and cur: "krun s" and t: "t < free_task_index s"
  obtains s' b where "osEE_scheduler_task_insert_rq t s = Some (s', b)" "kinv s'"
    "p_curr s' = p_curr s" "p_stk_sn s' = p_stk_sn s" "free_task_index s' = free_task_index s" "conts s' = conts s"
    "\<And>u. wait_mask (tcbs s' u) = wait_mask (tcbs s u)" "p_suspended_sn s' = p_suspended_sn s" "mem_arbit s' = mem_arbit s"
proof -
  obtain s' b where s': "osEE_scheduler_task_insert_rq t s = Some (s', b)" "kinv_core {#} {#} s'"
    "p_curr s' = p_curr s" "p_stk_sn s' = p_stk_sn s" "p_idle_task s' = p_idle_task s"
    "\<And>y. y \<in># live s \<Longrightarrow> sn_tdb s' y = sn_tdb s y"
    "\<And>u. u \<noteq> t \<Longrightarrow> tcbs s' u = tcbs s u" "status (tcbs s t) = OSEE_TASK_RUNNING \<Longrightarrow> status (tcbs s' t) = OSEE_TASK_RUNNING"
    "free_task_index s' = free_task_index s" "conts s' = conts s" "wait_mask (tcbs s' t) = wait_mask (tcbs s t)"
    "status (tcbs s' t) = status (tcbs s t) \<or> status (tcbs s' t) = OSEE_TASK_READY"
    "p_suspended_sn s' = p_suspended_sn s" "mem_arbit s' = mem_arbit s"
    by (rule task_insert_rq_inv [of "{#}" t "{#}" s]) (use inv t in simp_all)
  have "top_task s' = top_task s" using s'(4-6) by (auto simp: top_task_def live_def split: list.split)
  moreover have "status (tcbs s' u) = OSEE_TASK_RUNNING \<longleftrightarrow> u = p_curr s" for u
    using s'(7,8,12) cur by (cases "u = t") (auto simp: krun_def)
  moreover have wm: "wait_mask (tcbs s' u) = wait_mask (tcbs s u)" for u using s'(7,11) by (cases "u = t") auto
  ultimately have "kinv s'" using s'(2,3,9,10) cur by (simp add: kinv_def krun_def waits_ok_def)
  then show ?thesis using that [of s' b] s'(1,3,4,9,10,13,14) wm by simp
qed

lemma task_activated_inv:
  assumes inv: "kinv_core {#} {#t#} s" and cur: "krun s" and t: "t < free_task_index s"
  obtains s' b where "osEE_scheduler_task_activated t s = Some (s', b)" "kinv s'"
    "b \<longleftrightarrow> current_prio (tcbs s (p_curr s)) < current_prio (tcbs s t)"
    "p_curr s' = (if b then t else p_curr s)" "\<not> b \<Longrightarrow> conts s' = conts s"
    "p_suspended_sn s' = p_suspended_sn s" "mem_arbit s' = mem_arbit s"
    "free_task_index s' = free_task_index s" "wait_mask (tcbs s' (p_curr s)) = wait_mask (tcbs s (p_curr s))"
proof (cases "current_prio (tcbs s (p_curr s)) < current_prio (tcbs s t)")
  case True
  let ?s = "upd_tcb (p_curr s) (\<lambda>c. c\<lparr>status := OSEE_TASK_READY_STACKED\<rparr>) s"
  obtain x xs where x: "p_free_sn s = x # xs" "sn_alloc s = Some (s\<lparr>p_free_sn := xs\<rparr>, x)"
    by (rule kinv_core_deficit_alloc [of "{#}" t "{#}" s]) (use inv in simp_all)
  have k: "kinv_core {#} {#t#} ?s" by (rule kinv_core_stacked [OF inv krun_dest(1) [OF cur]])
  define s3 where "s3 = osEE_task_event_reset_mask t
     (upd_tcb (p_curr s) (\<lambda>c. c\<lparr>status := OSEE_TASK_READY_STACKED\<rparr>) (s\<lparr>p_free_sn := xs\<rparr>)
       \<lparr>sn_tdb := (sn_tdb s)(x := t), p_stk_sn := x # p_stk_sn s, p_curr := t\<rparr>)"
  define s' where "s' = osEE_change_context_from_running (p_curr s) t s3"
  have e: "osEE_scheduler_task_activated t s = Some (s', True)"
    using True by (simp add: osEE_scheduler_task_activated_def x(2) Let_def s'_def s3_def)
  have ne: "t \<noteq> p_curr s" using True by auto
  have nw: "status (tcbs s t) \<noteq> OSEE_TASK_WAITING" by (rule kinv_core_deficit_not_waiting [OF inv t]) simp
  have wt: "wait_ok (tcbs s t)" by (rule kinv_core_task(7) [OF inv t])
  have w0: "wait_mask (tcbs s t) = 0" if "status (tcbs s t) \<noteq> OSEE_TASK_READY_STACKED"
    using wt nw that krun_dest(4) [OF cur ne] by (auto simp: wait_ok_def)
  have wk: "waits_ok s'"
    using krun_dest(2) [OF cur] w0 ne by (auto simp: waits_ok_def s'_def s3_def osEE_task_event_reset_mask_def)
  have "kinv s'"
    by (rule push_activation [OF k, where x = x and xs = xs and f = "\<lambda>c. c\<lparr>event_mask := 0, status := OSEE_TASK_RUNNING\<rparr>"])
      (use t x(1) ne nw wt wk krun_dest(4) [OF cur] in \<open>auto simp: s'_def s3_def osEE_task_event_reset_mask_def osEE_change_context_from_running_def
        osEE_scheduler_task_wrapper_restore_def osEE_scheduler_task_wrapper_run_def Let_def upd_tcb_def\<close>)
  moreover have "p_curr s' = t" "p_suspended_sn s' = p_suspended_sn s" "mem_arbit s' = mem_arbit s"
    "free_task_index s' = free_task_index s" "wait_mask (tcbs s' (p_curr s)) = wait_mask (tcbs s (p_curr s))"
    using ne by (simp_all add: s'_def s3_def osEE_task_event_reset_mask_def)
  ultimately show ?thesis using that [of s' True] e True by simp
next
  case False
  obtain s' b where s': "osEE_scheduler_task_insert_rq t s = Some (s', b)" "kinv s'"
    "p_curr s' = p_curr s" "p_stk_sn s' = p_stk_sn s" "free_task_index s' = free_task_index s" "conts s' = conts s"
    "\<And>u. wait_mask (tcbs s' u) = wait_mask (tcbs s u)" "p_suspended_sn s' = p_suspended_sn s" "mem_arbit s' = mem_arbit s"
    by (rule task_insert_inv [OF assms]) blast
  show ?thesis by (rule that [of s' False]) (use False s' in \<open>simp_all add: osEE_scheduler_task_activated_def\<close>)
qed

lemma preempt_ksched:
  assumes inv: "kinv_core {#} {#} s" and cur: "krun s" and p: "snd (osEE_scheduler_core_rq_preempt_stk s) \<noteq> None"
  shows "ksched (fst (osEE_scheduler_core_rq_preempt_stk s))"
proof (cases s rule: rq_preempt_cases)
  case stay
  then show ?thesis using p by simp
next
  case (preempt q qs)
  have "kinv_core {#} {#} (fst (osEE_scheduler_core_rq_preempt_stk s))" by (rule rq_preempt_inv [OF inv])
  moreover have "u = top_task s" if "status (tcbs s u) = OSEE_TASK_RUNNING" for u
    using cur that by (simp add: krun_def)
  ultimately show ?thesis
    using krun_dest(2) [OF cur] by (auto simp: ksched_def preempt(2) top_task_def waits_ok_def)
qed

lemma preemption_point_inv:
  assumes "kinv s"
  shows "kinv (fst (osEE_scheduler_task_preemption_point s))"
proof (cases "snd (osEE_scheduler_core_rq_preempt_stk s)")
  case None
  have "fst (osEE_scheduler_core_rq_preempt_stk s) = s" by (cases s rule: rq_preempt_cases) (use None in auto)
  with None show ?thesis using assms by (simp add: osEE_scheduler_task_preemption_point_def case_prod_beta)
next
  case (Some prev)
  have "ksched (fst (osEE_scheduler_core_rq_preempt_stk s))"
    by (rule preempt_ksched) (use assms Some in \<open>simp_all add: kinv_def\<close>)
  from change_context_kinv [OF this, of prev] Some show ?thesis
    by (simp add: osEE_scheduler_task_preemption_point_def case_prod_beta)
qed

lemma unat_1_iff: "unat (a :: u8) = 1 \<longleftrightarrow> a = 1"
  by (metis unat_1 unsigned_word_eqI)

lemma terminated_running_inv:
  assumes inv: "kinv s" and x: "p_stk_sn s = x # xs" and w: "wait_mask (tcbs s (p_curr s)) = 0"
  obtains s' p_to where "osEE_scheduler_task_terminated s = Some (s', p_to, p_curr s)" "ksched s'" "p_to = p_curr s'"
    "p_suspended_sn s' = p_suspended_sn s" "mem_arbit s' = mem_arbit s" "free_task_index s' = free_task_index s"
    "\<And>u. current_num_of_act (tcbs s' u) = current_num_of_act (tcbs s u) - (if u = p_curr s then 1 else 0)"
proof -
  let ?t = "p_curr s"
  have k0: "kinv_core {#} {#} s" and cur: "?t = sn_tdb s x" "status (tcbs s ?t) = OSEE_TASK_RUNNING"
    using inv x by (auto simp: kinv_def krun_def top_task_def)
  obtain s1 where s1: "osEE_scheduler_core_pop_running s = Some (s1, x)" "kinv_core {#x#} {#} s1"
    "p_curr s1 = top_task s1" "sn_tdb s1 = sn_tdb s" "tdbs s1 = tdbs s"
    "\<And>u. current_num_of_act (tcbs s1 u) = current_num_of_act (tcbs s u)" "p_idle_task s1 = p_idle_task s"
    "free_task_index s1 = free_task_index s" "\<And>u. wait_mask (tcbs s1 u) = wait_mask (tcbs s u)" "conts s1 = conts s"
    "\<And>u. status (tcbs s1 u) = status (tcbs s u) \<or> status (tcbs s1 u) = OSEE_TASK_READY_STACKED"
    "p_suspended_sn s1 = p_suspended_sn s" "mem_arbit s1 = mem_arbit s"
    by (rule pop_running_inv [OF k0 x]) auto
  have t: "sn_tdb s1 x = ?t" "?t < free_task_index s1"
    using cur(1) s1(4) kinv_core_dest(4) [OF s1(2), of x] by auto
  have cnt: "unat (current_num_of_act (tcbs s1 ?t)) = size (task_of s1 ?t (live s1)) + 1"
    using kinv_core_task(1) [OF s1(2) t(2)] t(1) by simp
  then have dec: "current_num_of_act (tcbs s1 ?t) - 1 = 0 \<longleftrightarrow> size (task_of s1 ?t (live s1)) = 0"
    using unat_1_iff [of "current_num_of_act (tcbs s1 ?t)"] by simp
  have nw: "status (tcbs s1 ?t) \<noteq> OSEE_TASK_WAITING" using not_waiting [OF s1(2), of x] t(1) by simp
  define f :: "tcb \<Rightarrow> tcb" where "f = (if ?t \<noteq> p_curr s1
      then \<lambda>c. let n = current_num_of_act c - 1 in c\<lparr>current_prio := ready_prio (tdbs s1 ?t), current_num_of_act := n,
         status := (if n = 0 then OSEE_TASK_SUSPENDED else OSEE_TASK_READY)\<rparr>
      else (\<lambda>c. c\<lparr>current_num_of_act := current_num_of_act c - 1\<rparr>))"
  let ?s' = "sn_release x (upd_tcb ?t f s1)"
  have sus: "status (f (tcbs s1 ?t)) = OSEE_TASK_SUSPENDED \<longleftrightarrow> size (task_of s1 ?t (live s1)) = 0"
  proof (cases "?t = p_curr s1")
    case True
    have "?t < p_idle_task s1" using t(2) kinv_core_dest(3) [OF s1(2)] by simp
    then obtain y ys where y: "p_stk_sn s1 = y # ys" "sn_tdb s1 y = ?t"
      using True s1(3) by (cases "p_stk_sn s1") (auto simp: top_task_def)
    then have "y \<in># task_of s1 ?t (live s1)" by (simp add: live_def)
    then have "size (task_of s1 ?t (live s1)) \<noteq> 0" by (metis empty_iff set_mset_empty size_eq_0_iff_empty)
    moreover have "status (tcbs s1 ?t) \<noteq> OSEE_TASK_SUSPENDED"
      using live_task_active [OF s1(2), of x] t(1) by simp
    ultimately show ?thesis using True by (simp add: f_def del: size_eq_0_iff_empty)
  next
    case False
    then show ?thesis using dec by (simp add: f_def Let_def del: size_eq_0_iff_empty)
  qed
  have "kinv_core {#} {#} ?s'"
    by (rule kinv_core_release [OF s1(2) t(1)]) (use sus nw w s1(9) in \<open>auto simp: f_def Let_def wait_ok_def\<close>)
  moreover have "p_curr ?s' = top_task ?s'" using s1(3) top_task_cong [of ?s' s1] by (simp add: sn_release_def)
  moreover have "osEE_scheduler_task_terminated s = Some (?s', p_curr s1, ?t)"
    using cur(2) s1(1) by (simp add: osEE_scheduler_task_terminated_def f_def osEE_task_end_def Let_def)
  moreover have "waits_ok ?s'"
    using inv s1(8-10) by (auto simp: kinv_def krun_def waits_ok_def sn_release_def f_def Let_def)
  moreover have "u = p_curr s1 \<and> wait_mask (tcbs ?s' u) = 0" if "status (tcbs ?s' u) = OSEE_TASK_RUNNING" for u
  proof -
    have "u = ?t"
    proof (rule ccontr)
      assume "u \<noteq> ?t"
      then have "status (tcbs s u) = OSEE_TASK_RUNNING" using that s1(11) [of u] by (auto simp: sn_release_def)
      then show False using inv \<open>u \<noteq> ?t\<close> by (simp add: kinv_def krun_def)
    qed
    then show ?thesis using that w s1(9) by (auto simp: sn_release_def f_def Let_def split: if_splits)
  qed
  moreover have "current_num_of_act (tcbs ?s' u) = current_num_of_act (tcbs s u) - (if u = ?t then 1 else 0)" for u
    using s1(6) by (simp add: sn_release_def f_def Let_def)
  ultimately show ?thesis using that [of ?s' "p_curr s1"] s1(8,12,13) by (auto simp: ksched_def sn_release_def)
qed

lemma terminated_chained_inv:
  assumes inv: "kinv_core {#} {#} s" and x: "p_stk_sn s = x # xs" and cur: "p_curr s = top_task s"
    and ch: "status (tcbs s (p_curr s)) = OSEE_TASK_CHAINED" and w: "wait_mask (tcbs s (p_curr s)) = 0"
    and wk: "waits_ok s" and nr: "\<And>u. status (tcbs s u) \<noteq> OSEE_TASK_RUNNING"
  obtains s' p_to where "osEE_scheduler_task_terminated s = Some (s', p_to, p_curr s)" "ksched s'" "p_to = p_curr s'"
    "p_suspended_sn s' = p_suspended_sn s" "mem_arbit s' = mem_arbit s" "free_task_index s' = free_task_index s"
    "\<And>u. current_num_of_act (tcbs s' u) = current_num_of_act (tcbs s u)"
proof -
  let ?t = "p_curr s"
  have t: "sn_tdb s x = ?t" using cur x by (simp add: top_task_def)
  define f1 :: "tcb \<Rightarrow> tcb" where "f1 = (\<lambda>c. c\<lparr>current_prio := ready_prio (tdbs s ?t), status := OSEE_TASK_READY\<rparr>)"
  define s1 where "s1 = upd_tcb ?t f1 (s\<lparr>p_stk_sn := xs\<rparr>)"
  define s2 where "s2 = (if current_num_of_act (tcbs s1 ?t) = 1 then osEE_task_event_reset_mask ?t s1 else s1)"
  define s3 where "s3 = fst (osEE_scheduler_rq_insert x ?t s2)"
  define s4 where "s4 = fst (osEE_scheduler_core_rq_preempt_stk s3)"
  have "kinv_core {#x#} {#} (s\<lparr>p_stk_sn := xs\<rparr>)" by (rule kinv_core_pop_stk [OF inv x])
  then have k1: "kinv_core {#x#} {#} s1" unfolding s1_def
    by (rule kinv_core_soft) (use ch w in \<open>auto simp: soft_def f1_def wait_ok_def\<close>)
  have k2: "kinv_core {#x#} {#} s2" unfolding s2_def osEE_task_event_reset_mask_def
    using k1 by (auto intro!: kinv_core_soft simp: soft_def)
  have f2: "sn_tdb s2 = sn_tdb s" "p_stk_sn s2 = xs" "p_idle_task s2 = p_idle_task s"
    by (simp_all add: s2_def s1_def osEE_task_event_reset_mask_def)
  have k3: "kinv_core {#} {#} s3" unfolding s3_def by (rule kinv_core_rq_insert [OF k2]) (simp add: f2 t)
  have k4: "kinv_core {#} {#} s4" unfolding s4_def by (rule rq_preempt_inv [OF k3])
  have e: "osEE_scheduler_task_terminated s = (case snd (osEE_scheduler_core_rq_preempt_stk s3) of
      None \<Rightarrow> (case p_stk_sn s4 of [] \<Rightarrow> None | y # _ \<Rightarrow> Some (s4\<lparr>p_curr := sn_tdb s4 y\<rparr>, sn_tdb s4 y, ?t))
    | Some _ \<Rightarrow> Some (s4, p_curr s4, ?t))"
    unfolding osEE_scheduler_task_terminated_def Let_def s4_def s3_def s2_def s1_def f1_def case_prod_beta
    by (simp only: ch x task_status.distinct if_False list.case)
  have ne: "rq s3 \<noteq> []" by (auto simp: s3_def osEE_scheduler_rq_insert_def Let_def sn_insert_def)
  have f3: "free_task_index s3 = free_task_index s" "conts s3 = conts s" "p_suspended_sn s3 = p_suspended_sn s" "mem_arbit s3 = mem_arbit s"
    "\<And>u. wait_mask (tcbs s3 u) = wait_mask (tcbs s u)" "\<And>u. status (tcbs s3 u) \<noteq> OSEE_TASK_RUNNING"
    "\<And>u. current_num_of_act (tcbs s3 u) = current_num_of_act (tcbs s u)"
    using nr by (auto simp: s3_def s2_def s1_def f1_def osEE_task_event_reset_mask_def)
  have f4: "free_task_index s4 = free_task_index s" "conts s4 = conts s" "p_suspended_sn s4 = p_suspended_sn s" "mem_arbit s4 = mem_arbit s"
    "\<And>u. wait_mask (tcbs s4 u) = wait_mask (tcbs s u)" "\<And>u. status (tcbs s4 u) \<noteq> OSEE_TASK_RUNNING"
    "\<And>u. current_num_of_act (tcbs s4 u) = current_num_of_act (tcbs s u)"
    using f3 unfolding s4_def by (cases s3 rule: rq_preempt_cases; auto)+
  have w4: "waits_ok s4" using wk f4 by (simp add: waits_ok_def)
  then have w4': "waits_ok (s4\<lparr>p_curr := b\<rparr>)" for b by (simp add: waits_ok_def)
  show ?thesis
  proof (cases s3 rule: rq_preempt_cases)
    case stay
    then obtain y ys where y: "p_stk_sn s4 = y # ys" using ne unfolding s4_def by (cases "p_stk_sn s3") auto
    show ?thesis
      by (rule that [of "s4\<lparr>p_curr := sn_tdb s4 y\<rparr>" "sn_tdb s4 y"])
        (use e y k4 stay(1) f4 w4' in \<open>simp_all add: ksched_def top_task_def\<close>)
  next
    case (preempt q qs)
    have "p_curr s4 = top_task s4" by (simp add: s4_def preempt(2) top_task_def)
    then show ?thesis using that [of s4 "p_curr s4"] e k4 preempt(2) f4 w4 by (simp add: ksched_def)
  qed
qed

text \<open>
  The end of an activation, called by the running task or by a task that chains itself: the next
  task runs and the invariant holds.
\<close>

lemma scheduler_task_end_inv:
  assumes "kinv s" "p_stk_sn s \<noteq> []" "wait_mask (tcbs s (p_curr s)) = 0"
    and f: "f = id \<or> f = (\<lambda>c. c\<lparr>status := OSEE_TASK_CHAINED\<rparr>)"
  obtains s' where "osEE_scheduler_task_end (upd_tcb (p_curr s) f s) = Some s'" "kinv s'"
    "p_suspended_sn s' = p_suspended_sn s" "mem_arbit s' = mem_arbit s" "free_task_index s' = free_task_index s"
    "\<And>u. current_num_of_act (tcbs s' u) = current_num_of_act (tcbs s u) - (if u = p_curr s \<and> f = id then 1 else 0)"
proof -
  let ?s = "upd_tcb (p_curr s) f s"
  obtain x xs where x: "p_stk_sn s = x # xs" using assms(2) by (cases "p_stk_sn s") auto
  obtain s1 p_to where s1: "osEE_scheduler_task_terminated ?s = Some (s1, p_to, p_curr s)" "ksched s1" "p_to = p_curr s1"
    "p_suspended_sn s1 = p_suspended_sn s" "mem_arbit s1 = mem_arbit s" "free_task_index s1 = free_task_index s"
    "\<And>u. current_num_of_act (tcbs s1 u) = current_num_of_act (tcbs s u) - (if u = p_curr s \<and> f = id then 1 else 0)"
  proof (cases "f = id")
    case True
    then have "?s = s" by (intro upd_tcb_id) simp
    then show ?thesis using True that by (auto intro: terminated_running_inv [OF assms(1) x assms(3)])
  next
    case False
    then have g: "f = (\<lambda>c. c\<lparr>status := OSEE_TASK_CHAINED\<rparr>)" using f by blast
    have r: "status (tcbs s (p_curr s)) = OSEE_TASK_RUNNING" "p_curr s = top_task s" "waits_ok s"
      "\<And>u. status (tcbs s u) = OSEE_TASK_RUNNING \<Longrightarrow> u = p_curr s"
      using assms(1) by (simp_all add: kinv_def krun_def)
    have "kinv_core {#} {#} ?s"
      by (rule kinv_core_soft) (use assms(1,3) r(1) in \<open>auto simp: kinv_def soft_def g wait_ok_def\<close>)
    then have k: "kinv_core {#} {#} ?s" "p_stk_sn ?s = x # xs" "p_curr ?s = top_task ?s"
      using x r(2) top_task_cong [of ?s s] by simp_all
    have "status (tcbs ?s (p_curr ?s)) = OSEE_TASK_CHAINED" "wait_mask (tcbs ?s (p_curr ?s)) = 0" "waits_ok ?s"
      "\<And>u. status (tcbs ?s u) \<noteq> OSEE_TASK_RUNNING"
      using assms(3) r(3,4) by (auto simp: g waits_ok_def)
    from terminated_chained_inv [OF k this] obtain s1 p_to where s1:
      "osEE_scheduler_task_terminated ?s = Some (s1, p_to, p_curr ?s)" "ksched s1" "p_to = p_curr s1"
      "p_suspended_sn s1 = p_suspended_sn ?s" "mem_arbit s1 = mem_arbit ?s" "free_task_index s1 = free_task_index ?s"
      "\<And>u. current_num_of_act (tcbs s1 u) = current_num_of_act (tcbs ?s u)" by metis
    have n: "current_num_of_act (tcbs ?s u) = current_num_of_act (tcbs s u)" for u by (simp add: g)
    show ?thesis by (rule that [of s1 p_to]) (use s1 False n in simp_all)
  qed
  have "kinv (osEE_change_context_from_running (p_curr s) (p_curr s1) s1)" by (rule change_context_kinv [OF s1(2)])
  moreover have "current_num_of_act (tcbs (osEE_change_context_from_running (p_curr s) (p_curr s1) s1) u) = current_num_of_act (tcbs s1 u)" for u
    by simp
  ultimately show ?thesis using that s1 by (simp add: osEE_scheduler_task_end_def task_end_change_context)
qed

subsection \<open>Interrupts, blocking and waking\<close>

lemma kinv_core_isr2_src [simp]:
  "kinv_core W D (s\<lparr>tdbs := (tdbs s)(i := (tdbs s i)\<lparr>isr2_src := v\<rparr>)\<rparr>) = kinv_core W D s" (is "kinv_core W D ?s = _")
proof -
  have a: "ready_prio (tdbs ?s t) = ready_prio (tdbs s t)" "max_num_of_act (tdbs ?s t) = max_num_of_act (tdbs s t)"
    "task_type (tdbs ?s t) = task_type (tdbs s t)" for t
    by simp_all
  have b: "headroom ?s = headroom s" unfolding headroom_def a by simp
  have c: "live ?s = live s" "pool ?s = pool s" by (simp_all add: live_def pool_def own_def)
  have d: "rq ?s = rq s" "sn_tdb ?s = sn_tdb s" "tcbs ?s = tcbs s" "free_task_index ?s = free_task_index s"
    "p_idle_task ?s = p_idle_task s" "p_free_sn ?s = p_free_sn s" "free_sn_counter ?s = free_sn_counter s"
    by simp_all
  show ?thesis unfolding kinv_core_def a b c d by (rule refl)
qed

lemma activate_isr2_inv:
  assumes inv: "kinv s" and i: "i < free_task_index s"
    and lt: "current_num_of_act (tcbs s i) < max_num_of_act (tdbs s i)" and w: "wait_mask (tcbs s i) = 0"
  obtains s' where "osEE_activate_isr2 i irqn s = Some s'" "kinv s'" "p_curr s' = i"
    "p_suspended_sn s' = p_suspended_sn s" "mem_arbit s' = mem_arbit s"
    "free_task_index s' = free_task_index s" "\<And>u. wait_mask (tcbs s' u) = wait_mask (tcbs s u)"
proof -
  let ?inc = "\<lambda>c. c\<lparr>current_num_of_act := current_num_of_act c + 1\<rparr>"
  let ?st = "\<lambda>c. c\<lparr>status := OSEE_TASK_READY_STACKED\<rparr>"
  define s0 where "s0 = s\<lparr>tdbs := (tdbs s)(i := (tdbs s i)\<lparr>isr2_src := irqn\<rparr>)\<rparr>"
  define s1 where "s1 = upd_tcb i ?inc s0"
  define s2 where "s2 = upd_tcb (p_curr s) ?st s1"
  have r: "krun s" and k: "kinv_core {#} {#} s0" using inv by (simp_all add: kinv_def s0_def)
  have "kinv_core {#} {#i#} s1" unfolding s1_def
    by (rule kinv_core_count [OF k]) (use i lt in \<open>simp_all add: s0_def\<close>)
  moreover have "p_curr s1 = top_task s1" "p_curr s1 = p_curr s"
    using krun_dest(1) [OF r] top_task_cong [of s1 s] by (simp_all add: s1_def s0_def)
  ultimately have k2: "kinv_core {#} {#i#} s2" unfolding s2_def using kinv_core_stacked by fastforce
  obtain x xs where x: "p_free_sn s2 = x # xs"
    by (rule kinv_core_deficit_alloc [of "{#}" i "{#}" s2]) (use k2 in simp_all)
  define s3 where "s3 = s2\<lparr>p_curr := i, p_free_sn := xs, p_stk_sn := x # p_stk_sn s, sn_tdb := (sn_tdb s)(x := i)\<rparr>"
  define s' where "s' = osEE_change_context_from_running (p_curr s) i s3"
  have st: "status (tcbs s1 (p_curr s)) = OSEE_TASK_RUNNING" using krun_dest(3) [OF r] by (auto simp: s1_def s0_def)
  have f: "p_free_sn s1 = x # xs" "p_stk_sn s1 = p_stk_sn s" "sn_tdb s1 = sn_tdb s" "p_curr s1 = p_curr s"
    using x by (simp_all add: s2_def s1_def s0_def)
  have e: "osEE_activate_isr2 i irqn s = Some s'"
    using st f unfolding osEE_activate_isr2_def s0_def [symmetric] s1_def [symmetric]
    by (simp add: osEE_scheduler_task_set_running_def Let_def s'_def s3_def s2_def sn_alloc_def)
  have wk: "waits_ok s'"
    using krun_dest(2) [OF r] w by (auto simp: waits_ok_def s'_def s3_def s2_def s1_def s0_def)
  have "kinv s'"
    by (rule push_activation [OF k2, where x = x and xs = xs and f = "\<lambda>c. c\<lparr>status := OSEE_TASK_RUNNING\<rparr>"])
      (use i x w wk krun_dest(4) [OF r] in \<open>auto simp: s'_def s3_def s2_def s1_def s0_def wait_ok_def
        osEE_change_context_from_running_def osEE_scheduler_task_wrapper_restore_def osEE_scheduler_task_wrapper_run_def Let_def upd_tcb_def\<close>)
  then show ?thesis using that [of s'] e by (simp add: s'_def s3_def s2_def s1_def s0_def)
qed

lemma own_upd:
  assumes "t < free_task_index s"
  shows "own (upd_tcb t f s) + own_of (tcbs s t) = own s + own_of (f (tcbs s t))"
  using assms unfolding own_def by (simp add: sum.remove [of "{..<free_task_index s}" t])

text \<open>A waiting task gives its node back, or takes it.\<close>

lemma kinv_core_own:
  assumes inv: "kinv_core W D s" and t: "t < free_task_index s"
    and f: "current_num_of_act (f (tcbs s t)) = current_num_of_act (tcbs s t)"
      "status (f (tcbs s t)) \<noteq> OSEE_TASK_SUSPENDED" "status (tcbs s t) \<noteq> OSEE_TASK_SUSPENDED"
      "wait_ok (f (tcbs s t))" "own_of (f (tcbs s t)) + W' = own_of (tcbs s t) + W"
      "status (f (tcbs s t)) = OSEE_TASK_WAITING \<Longrightarrow> task_type (tdbs s t) = OSEE_TASK_TYPE_EXTENDED \<and>
         (\<exists>x. p_own_sn (f (tcbs s t)) = Some x \<and> sn_tdb s x = t)"
  shows "kinv_core W' D (upd_tcb t f s)" (is "kinv_core W' D ?s'")
proof -
  have "own ?s' + W' + own_of (tcbs s t) = own s + W + own_of (tcbs s t)"
    using own_upd [OF t, of f] f(5) by (metis (no_types, lifting) add.assoc add.commute)
  then have o: "own ?s' + W' = own s + W" by simp
  then have l: "live ?s' + W' = live s + W" by (simp add: live_def add.assoc)
  then have p: "pool ?s' + W' = pool s + W" by (simp add: pool_def add.commute add.left_commute)
  have h: "headroom ?s' = headroom s" using f(1) by (auto simp: headroom_def intro!: sum.cong)
  show ?thesis using inv f(1-4,6) unfolding kinv_core_def l p h by auto
qed

text \<open>\<open>SetEvent\<close> on a waiting task: the node goes to the ready queue.\<close>

lemma wakeup_inv:
  assumes inv: "kinv s" and t: "t < free_task_index s" "status (tcbs s t) = OSEE_TASK_WAITING"
    and x: "p_own_sn (tcbs s t) = Some x"
    and s1: "s1 = upd_tcb t (\<lambda>c. c\<lparr>event_mask := m, p_own_sn := None\<rparr>) s"
  shows "kinv (fst (osEE_scheduler_task_unblocked x s1))"
proof -
  have k: "kinv_core {#} {#} s" and r: "krun s" using inv by (simp_all add: kinv_def)
  have xt: "sn_tdb s x = t" using kinv_core_task(5) [OF k t] x by auto
  let ?f = "\<lambda>c. c\<lparr>event_mask := m, p_own_sn := None, status := OSEE_TASK_READY_STACKED, current_prio := ready_prio (tdbs s t)\<rparr>"
  have k1: "kinv_core {#x#} {#} (upd_tcb t ?f s)"
    by (rule kinv_core_own [OF k t(1)]) (use t x in \<open>auto simp: own_of_def wait_ok_def\<close>)
  have e: "fst (osEE_scheduler_task_unblocked x s1) = fst (osEE_scheduler_rq_insert x t (upd_tcb t ?f s))"
    by (simp add: osEE_scheduler_task_unblocked_def s1 xt Let_def upd_tcb_def case_prod_beta)
  have k2: "kinv_core {#} {#} (fst (osEE_scheduler_rq_insert x t (upd_tcb t ?f s)))"
    by (rule kinv_core_rq_insert [OF k1]) (simp add: xt)
  have "top_task (fst (osEE_scheduler_rq_insert x t (upd_tcb t ?f s))) = top_task s"
    by (rule top_task_cong) (use xt in auto)
  moreover have "t \<noteq> p_curr s" using t(2) krun_dest(3) [OF r] by auto
  ultimately show ?thesis
    using r k2 unfolding e by (auto simp: kinv_def krun_def waits_ok_def)
qed

text \<open>The wait mask plays no part in dispatching.\<close>

abbreviation wm :: "u64 \<Rightarrow> tcb \<Rightarrow> tcb" where
  "wm m \<equiv> \<lambda>c. c\<lparr>wait_mask := m\<rparr>"

lemma upd_tcb_commute:
  assumes "\<And>c. f (g c) = g (f c)"
  shows "upd_tcb a f (upd_tcb b g s) = upd_tcb b g (upd_tcb a f s)"
  using assms by (cases "a = b") (auto simp: upd_tcb_def fun_upd_twist)

lemma upd_tcb_queues:
  "(upd_tcb t f s)\<lparr>p_stk_sn := xs\<rparr> = upd_tcb t f (s\<lparr>p_stk_sn := xs\<rparr>)" "(upd_tcb t f s)\<lparr>rq := xs\<rparr> = upd_tcb t f (s\<lparr>rq := xs\<rparr>)"
  "(upd_tcb t f s)\<lparr>p_curr := c\<rparr> = upd_tcb t f (s\<lparr>p_curr := c\<rparr>)" "(upd_tcb t f s)\<lparr>conts := d\<rparr> = upd_tcb t f (s\<lparr>conts := d\<rparr>)"
  "(upd_tcb t f s)\<lparr>irq_masked := b\<rparr> = upd_tcb t f (s\<lparr>irq_masked := b\<rparr>)"
  by (simp_all add: upd_tcb_def)

lemma wm_stk_next: "osEE_scheduler_stk_next q (upd_tcb t (wm m) s) = upd_tcb t (wm m) (osEE_scheduler_stk_next q s)"
proof -
  have p: "current_prio (tcbs (upd_tcb t (wm m) s) u) = current_prio (tcbs s u)" for u by simp
  show ?thesis
    unfolding osEE_scheduler_stk_next_def Let_def p
    by (simp add: upd_tcb_queues upd_tcb_commute [of "current_prio_update g" "wm m" for g])
qed

lemma wm_rq_preempt:
  "osEE_scheduler_core_rq_preempt_stk (upd_tcb t (wm m) s) =
     map_prod (upd_tcb t (wm m)) id (osEE_scheduler_core_rq_preempt_stk s)"
proof -
  have p: "current_prio (tcbs (upd_tcb t (wm m) s) u) = current_prio (tcbs s u)" for u by simp
  show ?thesis
    unfolding osEE_scheduler_core_rq_preempt_stk_def Let_def p
    by (simp add: upd_tcb_queues wm_stk_next upd_tcb_commute [of "status_update g" "wm m" for g] split: list.split)
qed

lemma wm_pop_running:
  "osEE_scheduler_core_pop_running (upd_tcb t (wm m) s) =
     map_option (map_prod (upd_tcb t (wm m)) id) (osEE_scheduler_core_pop_running s)"
  by (simp add: osEE_scheduler_core_pop_running_def upd_tcb_queues wm_rq_preempt case_prod_beta split: list.split option.split)

text \<open>The current task gives up the CPU and its node: what \<open>WaitEvent\<close> does before the switch.\<close>

lemma block_inv:
  assumes inv: "kinv s" and x: "p_stk_sn s = x # xs" and ext: "task_type (tdbs s (p_curr s)) = OSEE_TASK_TYPE_EXTENDED"
  obtains s1 where "osEE_scheduler_core_pop_running (upd_tcb (p_curr s) (wm Mask) s) = Some (s1, x)"
    "ksched (upd_tcb (p_curr s) (\<lambda>c. c\<lparr>p_own_sn := Some x, status := OSEE_TASK_WAITING\<rparr>) s1\<lparr>conts := (conts s)(p_curr s := C_WAIT b)\<rparr>)"
    "p_curr s1 \<noteq> p_curr s" "conts s1 = conts s" "p_suspended_sn s1 = p_suspended_sn s" "mem_arbit s1 = mem_arbit s"
    "free_task_index s1 = free_task_index s"
proof -
  let ?t = "p_curr s" and ?f = "\<lambda>c. c\<lparr>wait_mask := Mask, p_own_sn := Some x, status := OSEE_TASK_WAITING\<rparr>"
  have k: "kinv_core {#} {#} s" and r: "krun s" using inv by (simp_all add: kinv_def)
  have t: "sn_tdb s x = ?t" "?t < free_task_index s" using krun_dest(1) [OF r] x kinv_core_dest(4) [OF k, of x]
    by (simp_all add: top_task_def live_def)
  obtain s1 where s1: "osEE_scheduler_core_pop_running s = Some (s1, x)" "kinv_core {#x#} {#} s1"
    "p_curr s1 = top_task s1" "sn_tdb s1 = sn_tdb s" "tdbs s1 = tdbs s" "free_task_index s1 = free_task_index s"
    "p_idle_task s1 = p_idle_task s" "\<And>u. wait_mask (tcbs s1 u) = wait_mask (tcbs s u)" "conts s1 = conts s"
    "\<And>u. status (tcbs s1 u) = status (tcbs s u) \<or> status (tcbs s1 u) = OSEE_TASK_READY_STACKED"
    "p_suspended_sn s1 = p_suspended_sn s" "mem_arbit s1 = mem_arbit s"
    by (rule pop_running_inv [OF k x]) auto
  have t1: "?t < free_task_index s1" "sn_tdb s1 x = ?t" using t s1(4,6) by simp_all
  have nw: "status (tcbs s1 ?t) \<noteq> OSEE_TASK_WAITING" using not_waiting [OF s1(2), of x] t1(2) by simp
  have ns: "status (tcbs s1 ?t) \<noteq> OSEE_TASK_SUSPENDED" using live_task_active [OF s1(2), of x] t1(2) by simp
  have k2: "kinv_core {#} {#} (upd_tcb ?t ?f s1)"
    by (rule kinv_core_own [OF s1(2) t1(1)]) (use nw ns ext s1(5) t1(2) in \<open>auto simp: own_of_def wait_ok_def\<close>)
  have one: "size (task_of s1 ?t (live s1)) = 0"
    using kinv_core_task(1,2,6) [OF s1(2) t1(1)] ext s1(5) t1(2) by (simp add: word_le_nat_alt)
  have ne: "p_curr s1 \<noteq> ?t"
  proof
    assume c: "p_curr s1 = ?t"
    then obtain y ys where y: "p_stk_sn s1 = y # ys" "sn_tdb s1 y = ?t"
      using s1(3) t1(1) kinv_core_dest(3) [OF s1(2)] by (cases "p_stk_sn s1") (auto simp: top_task_def)
    then have "y \<in># task_of s1 ?t (live s1)" by (simp add: live_def)
    then show False using one by (metis empty_iff set_mset_empty size_eq_0_iff_empty)
  qed
  let ?s2 = "upd_tcb ?t (\<lambda>c. c\<lparr>p_own_sn := Some x, status := OSEE_TASK_WAITING\<rparr>) (upd_tcb ?t (wm Mask) s1)"
  have e: "?s2 = upd_tcb ?t ?f s1" by (simp add: upd_tcb_def)
  have nr: "status (tcbs s1 u) \<noteq> OSEE_TASK_RUNNING" if "u \<noteq> ?t" for u
    using s1(10) [of u] krun_dest(4) [OF r that] by auto
  have tt: "top_task (?s2\<lparr>conts := d\<rparr>) = top_task s1" for d by (rule top_task_cong) simp_all
  have "waits_ok (?s2\<lparr>conts := (conts s)(?t := C_WAIT b)\<rparr>)"
    using krun_dest(2) [OF r] s1(6,8) by (auto simp: waits_ok_def)
  then have "ksched (?s2\<lparr>conts := (conts s)(?t := C_WAIT b)\<rparr>)"
    using k2 s1(3) nr ne tt unfolding ksched_def e [symmetric] by (auto simp: top_task_def)
  then show ?thesis using that [of "upd_tcb ?t (wm Mask) s1"] s1 ne by (simp add: wm_pop_running)
qed

text \<open>The resources a task holds are released one after the other.\<close>

lemma release_all_m_list:
  assumes "list_at (\<lambda>m. m_next (resources s m)) (p_last_m (tcbs s t)) ms"
  shows "\<exists>s'. osEE_release_all_m t s = Some s' \<and> p_last_m (tcbs s' t) = None \<and>
    (\<forall>m. resources s' m = (if m \<in> set ms then (resources s m)\<lparr>m_owner := None\<rparr> else resources s m)) \<and>
    s' = upd_tcb t (\<lambda>c. c\<lparr>p_last_m := None\<rparr>) (s\<lparr>resources := resources s'\<rparr>)"
  using assms
proof (induction ms arbitrary: s)
  case Nil
  have a: "s\<lparr>resources := resources s\<rparr> = s" by (cases s) simp
  have b: "upd_tcb t (\<lambda>c. c\<lparr>p_last_m := None\<rparr>) s = s" by (rule upd_tcb_id) (use Nil in \<open>cases "tcbs s t", simp\<close>)
  have "osEE_release_all_m t s = Some s" using Nil by (subst osEE_release_all_m.simps) simp
  then show ?case using Nil a b by simp
next
  case (Cons m ms)
  let ?r = "(resources s)(m := (resources s m)\<lparr>m_owner := None\<rparr>)"
  let ?s1 = "upd_tcb t (\<lambda>c. c\<lparr>p_last_m := m_next (resources s m)\<rparr>) (s\<lparr>resources := ?r\<rparr>)"
  have d: "distinct (m # ms)" using Cons.prems by (rule list_at_distinct)
  have nx: "(\<lambda>k. m_next (resources ?s1 k)) = (\<lambda>k. m_next (resources s k))" by auto
  have "list_at (\<lambda>k. m_next (resources ?s1 k)) (p_last_m (tcbs ?s1 t)) ms"
    unfolding nx using Cons.prems by simp
  from Cons.IH [OF this] obtain s' where s': "osEE_release_all_m t ?s1 = Some s'" "p_last_m (tcbs s' t) = None"
    "\<forall>k. resources s' k = (if k \<in> set ms then (resources ?s1 k)\<lparr>m_owner := None\<rparr> else resources ?s1 k)"
    "s' = upd_tcb t (\<lambda>c. c\<lparr>p_last_m := None\<rparr>) (?s1\<lparr>resources := resources s'\<rparr>)" by blast
  have "osEE_release_all_m t s = Some s'"
    using Cons.prems s'(1) by (subst osEE_release_all_m.simps) simp
  moreover have "\<forall>k. resources s' k = (if k \<in> set (m # ms) then (resources s k)\<lparr>m_owner := None\<rparr> else resources s k)"
    using s'(3) d by auto
  moreover have "s' = upd_tcb t (\<lambda>c. c\<lparr>p_last_m := None\<rparr>) (s\<lparr>resources := resources s'\<rparr>)"
    by (subst s'(4)) (simp add: upd_tcb_def)
  ultimately show ?case using s'(2) by blast
qed

subsection \<open>A core with three tasks\<close>

definition demo_kern :: kern where
  "demo_kern = \<lparr>
     tdbs = (\<lambda>t. if t = 0 then \<lparr>task_type = OSEE_TASK_TYPE_BASIC, ready_prio = 1, dispatch_prio = 1, max_num_of_act = 1, isr2_src = 0\<rparr>
       else if t = 1 then \<lparr>task_type = OSEE_TASK_TYPE_EXTENDED, ready_prio = 2, dispatch_prio = 2, max_num_of_act = 1, isr2_src = 0\<rparr>
       else if t = 2 then \<lparr>task_type = OSEE_TASK_TYPE_ISR2, ready_prio = 0x80, dispatch_prio = 0x80, max_num_of_act = 1, isr2_src = 13\<rparr>
       else \<lparr>task_type = OSEE_TASK_TYPE_IDLE, ready_prio = 0, dispatch_prio = 0, max_num_of_act = 1, isr2_src = 0\<rparr>),
     tcbs = (\<lambda>t. \<lparr>current_num_of_act = (if t \<in> {0, 3} then 1 else 0),
       current_prio = (if t = 0 then 1 else if t = 1 then 2 else if t = 2 then 0x80 else 0),
       status = (if t = 0 then OSEE_TASK_RUNNING else if t = 3 then OSEE_TASK_READY_STACKED else OSEE_TASK_SUSPENDED),
       p_last_m = None, wait_mask = 0, event_mask = 0, p_own_sn = None\<rparr>),
     free_task_index = 3,
     resources = (\<lambda>m. \<lparr>m_prio = 2, m_next = None, m_prev_prio = 0, m_owner = None\<rparr>), free_res_index = 1,
     sn_tdb = (\<lambda>x. 0), p_curr = 0, rq = [], p_free_sn = [1, 2], free_sn_counter = 0, p_stk_sn = [0],
     os_status = OSEE_KERNEL_STARTED, app_mode = 0, last_error = E_OK,
     prev_s_isr_all_status = False, prev_s_isr_os_status = False, s_isr_all_cnt = 0, s_isr_os_cnt = 0, d_isr_all_cnt = 0,
     p_suspended_sn = [], mem_arbit = MEMORY_TOKEN_NONE, p_idle_task = 3, p_idle_hook = False,
     irq_masked = False, conts = (\<lambda>t. C_NONE)\<rparr>"

lemma lessThan_3: "{..<3::nat} = {0, 1, 2}"
  by auto

lemma less_3: "(t::nat) < 3 \<longleftrightarrow> t = 0 \<or> t = 1 \<or> t = 2"
  by auto

lemma demo_kinv: "kinv demo_kern"
proof -
  have o: "own demo_kern = {#}" by (simp add: own_def demo_kern_def own_of_def lessThan_3)
  have l: "live demo_kern = {#0#}" by (simp add: live_def o) (simp add: demo_kern_def)
  have p: "pool demo_kern = {#0, 1, 2#}" by (simp add: pool_def l) (simp add: demo_kern_def)
  have h: "headroom demo_kern = 2" by (simp add: headroom_def demo_kern_def lessThan_3)
  have "kinv_core {#} {#} demo_kern"
    unfolding kinv_core_def l p h by (auto simp: demo_kern_def less_3 wait_ok_def)
  moreover have "krun demo_kern" by (auto simp: krun_def waits_ok_def top_task_def demo_kern_def)
  ultimately show ?thesis by (simp add: kinv_def)
qed

text \<open>The same core after task 1, more urgent than the running task 0, has been put into the ready queue.\<close>

definition demo_ready :: kern where
  "demo_ready = upd_tcb 1 (\<lambda>c. c\<lparr>current_num_of_act := 1, status := OSEE_TASK_READY\<rparr>) demo_kern
     \<lparr>sn_tdb := (\<lambda>x. if x = 1 then 1 else 0), rq := [1], p_free_sn := [2]\<rparr>"

lemma demo_ready_kinv: "kinv demo_ready"
proof -
  have o: "own demo_ready = {#}" by (simp add: own_def demo_ready_def demo_kern_def own_of_def lessThan_3 upd_tcb_def)
  have l: "live demo_ready = {#0, 1#}" by (simp add: live_def o) (simp add: demo_ready_def demo_kern_def upd_tcb_def)
  have p: "pool demo_ready = {#0, 1, 2#}" by (simp add: pool_def l) (simp add: demo_ready_def demo_kern_def upd_tcb_def)
  have h: "headroom demo_ready = 1" by (simp add: headroom_def demo_ready_def demo_kern_def lessThan_3 upd_tcb_def)
  have "kinv_core {#} {#} demo_ready"
    unfolding kinv_core_def l p h by (auto simp: demo_ready_def demo_kern_def less_3 wait_ok_def upd_tcb_def)
  moreover have "krun demo_ready" by (auto simp: krun_def waits_ok_def top_task_def demo_ready_def demo_kern_def upd_tcb_def)
  ultimately show ?thesis by (simp add: kinv_def)
qed

subsection \<open>Properties\<close>

text \<open>
  C10: a preemption point of a consistent core leaves it consistent. It takes the head of the ready queue exactly when the current
  priority of that head's task is above that of the top of the stack (or only the idle task is left), and changes nothing otherwise. Afterwards no queued
  activation has a ready priority above the current priority of the running task, provided that the task at the head of the queue had a current priority of at least its ready
  priority. The queue is ordered by ready priorities and the switch is decided on current priorities, which is why the proviso is needed; it is not part of the
  invariant.
\<close>

theorem kernel_preemption_point:
  assumes inv: "kinv s"
  shows "let (s', switched) = osEE_scheduler_task_preemption_point s in
    kinv s' \<and>
    (switched \<longleftrightarrow> (\<exists>x xs. rq s = x # xs \<and>
       (p_stk_sn s = [] \<or> current_prio (tcbs s (p_curr s)) < current_prio (tcbs s (sn_tdb s x))))) \<and>
    (if switched then p_stk_sn s' = hd (rq s) # p_stk_sn s \<and> rq s' = tl (rq s) \<and> p_curr s' = sn_tdb s (hd (rq s)) else s' = s) \<and>
    ((rq s \<noteq> [] \<longrightarrow> ready_prio (tdbs s (sn_tdb s (hd (rq s)))) \<le> current_prio (tcbs s (sn_tdb s (hd (rq s))))) \<longrightarrow>
      (\<forall>x\<in>set (rq s'). ready_prio (tdbs s' (sn_tdb s' x)) \<le> current_prio (tcbs s' (p_curr s'))))"
proof -
  have k: "kinv_core {#} {#} s" and c: "p_curr s = top_task s" using inv by (simp_all add: kinv_def krun_def)
  have srt: "prio_sorted (ready_key s) (rq s)" by (rule kinv_core_dest(2) [OF k])
  have kinv': "kinv (fst (osEE_scheduler_task_preemption_point s))" by (rule preemption_point_inv [OF inv])
  show ?thesis
  proof (cases s rule: rq_preempt_cases)
    case stay
    have e: "osEE_scheduler_task_preemption_point s = (s, False)"
      by (simp add: osEE_scheduler_task_preemption_point_def stay(1))
    have "ready_prio (tdbs s (sn_tdb s x)) \<le> current_prio (tcbs s (p_curr s))"
      if q: "rq s \<noteq> [] \<longrightarrow> ready_prio (tdbs s (sn_tdb s (hd (rq s)))) \<le> current_prio (tcbs s (sn_tdb s (hd (rq s))))" and m: "x \<in> set (rq s)" for x
    proof -
      obtain y ys where y: "rq s = y # ys" using m by (cases "rq s") auto
      then have "ready_key s x \<le> ready_key s y" using srt m by auto
      then have "ready_prio (tdbs s (sn_tdb s x)) \<le> ready_prio (tdbs s (sn_tdb s y))" by (simp add: word_le_nat_alt)
      then show ?thesis using q stay(2) y c by (auto intro: order_trans)
    qed
    then show ?thesis using e inv stay(2) c by (auto simp: not_less)
  next
    case (preempt y ys)
    have e: "osEE_scheduler_task_preemption_point s = (osEE_change_context_from_running (top_task s) (sn_tdb s y)
        (osEE_scheduler_stk_next y (upd_tcb (top_task s) (\<lambda>c. c\<lparr>status := OSEE_TASK_READY_STACKED\<rparr>) s\<lparr>rq := ys\<rparr>)), True)"
      (is "_ = (?s', True)")
      by (simp add: osEE_scheduler_task_preemption_point_def preempt(2))
    have cur: "current_prio (tcbs ?s' (p_curr ?s')) \<ge> current_prio (tcbs s (sn_tdb s y))"
      using preempt(1) by (auto simp: stk_next_prio le_max_iff_disj)
    have le: "ready_prio (tdbs s (sn_tdb s x)) \<le> ready_prio (tdbs s (sn_tdb s y))" if "x \<in> set ys" for x
      using srt preempt(1) that by (auto simp: word_le_nat_alt)
    have "\<forall>x\<in>set (rq ?s'). ready_prio (tdbs ?s' (sn_tdb ?s' x)) \<le> current_prio (tcbs ?s' (p_curr ?s'))"
      if "ready_prio (tdbs s (sn_tdb s y)) \<le> current_prio (tcbs s (sn_tdb s y))"
      using order_trans [OF that cur] le order_trans by force
    moreover have "p_stk_sn s = [] \<or> current_prio (tcbs s (p_curr s)) < current_prio (tcbs s (sn_tdb s y))"
      using preempt(3) c by simp
    moreover have "p_stk_sn ?s' = hd (rq s) # p_stk_sn s" "rq ?s' = tl (rq s)" "p_curr ?s' = sn_tdb s y" by (simp_all add: preempt(1))
    ultimately show ?thesis using kinv' preempt(1) unfolding e by simp
  qed
qed

theorem kernel_preemption_point_witness:
  "\<exists>s'. osEE_scheduler_task_preemption_point demo_ready = (s', True) \<and> kinv s' \<and> p_curr s' = 1 \<and> p_stk_sn s' = [1, 0] \<and> rq s' = []"
proof -
  have d: "rq demo_ready = [1]" "p_stk_sn demo_ready = [0]" "sn_tdb demo_ready 1 = 1" "p_curr demo_ready = 0"
    "current_prio (tcbs demo_ready 0) < current_prio (tcbs demo_ready 1)"
    by (simp_all add: demo_ready_def demo_kern_def upd_tcb_def)
  obtain s' b where e: "osEE_scheduler_task_preemption_point demo_ready = (s', b)" by fastforce
  show ?thesis using kernel_preemption_point [OF demo_ready_kinv] d unfolding e by simp
qed

end
