(* ===== verification/Dprem.thy ===== *)
theory Dprem
  imports EeKernel
begin

text \<open>
  The DPREM client of the memory arbiter in the guest (\<open>src/ee_files/pkg/arch/aarch64/dprem.c\<close>): a task
  asks the hypervisor for the memory at the begin of its memory phase and is suspended until it
  has it; the interrupts STARTED and ENDED resume and suspend the task in its memory phase.

  The hypervisor is the parameter \<open>hvc\<close>: a function from its state to its new state and the answer to
  the hypercall. A primitive that loses the CPU leaves its continuation in \<open>conts\<close>; the time stamp that
  \<open>DPREM_begin_memory_phase\<close> returns and the debug printing are not modelled.
\<close>

definition MAX_TASK_PRIORITY :: u8 where "MAX_TASK_PRIORITY = OSEE_ISR2_PRIO_BIT - 1"

text \<open>The search loops over a queue: the first node of highest current priority among those that qualify.\<close>

fun highest_priority_sn :: "(sn \<Rightarrow> bool) \<Rightarrow> (sn \<Rightarrow> u8) \<Rightarrow> sn option \<Rightarrow> sn list \<Rightarrow> sn option" where
  "highest_priority_sn ok prio best [] = best"
| "highest_priority_sn ok prio best (c # cs) =
     highest_priority_sn ok prio
       (if ok c \<and> (case best of None \<Rightarrow> True | Some b \<Rightarrow> prio c > prio b) then Some c else best) cs"

abbreviation sn_regular :: "kern \<Rightarrow> sn \<Rightarrow> bool" where
  "sn_regular s x \<equiv> is_regular (task_type (tdbs s (sn_tdb s x)))"

abbreviation sn_prio :: "kern \<Rightarrow> sn \<Rightarrow> u8" where
  "sn_prio s x \<equiv> current_prio (tcbs s (sn_tdb s x))"

fun first_regular_sn :: "kern \<Rightarrow> sn list \<Rightarrow> sn option" where
  "first_regular_sn s [] = None"
| "first_regular_sn s (c # cs) = (if sn_regular s c then Some c else first_regular_sn s cs)"

definition DPREM_suspend_highest_priority_active_task_from_ISR :: "kern \<Rightarrow> kern \<times> bool" where
  "DPREM_suspend_highest_priority_active_task_from_ISR s =
     (case highest_priority_sn (sn_regular s) (sn_prio s) None (p_stk_sn s) of
        Some x \<Rightarrow> (s\<lparr>p_stk_sn := remove1 x (p_stk_sn s), p_suspended_sn := x # p_suspended_sn s\<rparr>, True)
      | None \<Rightarrow> (s, False))"

definition DPREM_resume_highest_priority_task_from_ISR :: "kern \<Rightarrow> kern \<times> bool" where
  "DPREM_resume_highest_priority_task_from_ISR s =
     (case highest_priority_sn (\<lambda>_. True) (sn_prio s) None (p_suspended_sn s) of
        Some x \<Rightarrow>
          let s1 = upd_tcb (sn_tdb s x) (\<lambda>c. c\<lparr>current_prio := MAX_TASK_PRIORITY\<rparr>) s in
          (s1\<lparr>p_suspended_sn := remove1 x (p_suspended_sn s),
              p_stk_sn := insert_before x (first_regular_sn s (p_stk_sn s)) (p_stk_sn s)\<rparr>, True)
      | None \<Rightarrow> (s, False))"

definition DPREM_resume_highest_priority_task :: "kern \<Rightarrow> kern \<times> bool" where
  "DPREM_resume_highest_priority_task s =
     (case highest_priority_sn (\<lambda>_. True) (sn_prio s) None (p_suspended_sn s) of
        Some x \<Rightarrow>
          (s\<lparr>p_suspended_sn := remove1 x (p_suspended_sn s),
             p_stk_sn := insert_after x (case p_stk_sn s of [] \<Rightarrow> None | y # _ \<Rightarrow> Some y) (p_stk_sn s)\<rparr>, True)
      | None \<Rightarrow> (s, False))"

text \<open>The result tells whether the caller lost the CPU; \<open>flags\<close> is what its continuation restores.\<close>

definition DPREM_suspend_running_task :: "bool \<Rightarrow> kern \<Rightarrow> (kern \<times> bool) option" where
  "DPREM_suspend_running_task flags s =
     (let cur = p_curr s in
      case p_stk_sn s of
        x # _ \<Rightarrow>
          if sn_regular s x then
            osEE_scheduler_core_pop_running s \<bind> (\<lambda>(s1, y).
            let s2 = upd_tcb cur (\<lambda>c. c\<lparr>p_own_sn := Some y, status := OSEE_TASK_READY_STACKED,
                         current_prio := ready_prio (tdbs s cur)\<rparr>) s1;
                s3 = s2\<lparr>p_suspended_sn := y # p_suspended_sn s2, conts := (conts s2)(cur := C_DPREM flags)\<rparr> in
            Some (osEE_change_context_from_running cur (p_curr s3) s3, True))
          else Some (s, False)
      | [] \<Rightarrow> Some (s, False))"

subsection \<open>Interrupt handlers\<close>

definition memory_phase_started_ISR :: "kern \<Rightarrow> kern" where
  "memory_phase_started_ISR s =
     (let (s1, flags) = osEE_begin_primitive s;
          s2 = (if mem_arbit s1 = MEMORY_TOKEN_REQUESTED
                then fst (DPREM_resume_highest_priority_task_from_ISR (s1\<lparr>mem_arbit := MEMORY_TOKEN_ACQUIRED\<rparr>))
                else s1) in
      osEE_end_primitive flags s2)"

definition memory_phase_ended_ISR :: "kern \<Rightarrow> kern" where
  "memory_phase_ended_ISR s =
     (let (s1, flags) = osEE_begin_primitive s;
          s2 = (if mem_arbit s1 = MEMORY_TOKEN_ACQUIRED
                then fst (DPREM_suspend_highest_priority_active_task_from_ISR (s1\<lparr>mem_arbit := MEMORY_TOKEN_REQUESTED\<rparr>))
                else s1) in
      osEE_end_primitive flags s2)"

subsection \<open>Phases\<close>

text \<open>
  The loop of \<open>DPREM_begin_memory_phase\<close>. The result \<open>True\<close> means that the loop was left with the token,
  \<open>False\<close> that the caller was switched out; a caller that cannot be suspended spins.
\<close>

partial_function (option) begin_loop ::
  "('h \<Rightarrow> 'h \<times> arb_result) \<Rightarrow> bool \<Rightarrow> 'h \<Rightarrow> kern \<Rightarrow> ('h \<times> kern \<times> bool) option" where
  "begin_loop hvc flags h s =
     (if mem_arbit s = MEMORY_TOKEN_ACQUIRED then Some (h, s, True)
      else if mem_arbit s \<noteq> MEMORY_TOKEN_REQUESTED then
        (case hvc h of (h', r) \<Rightarrow>
           if r = ARB_ACK then begin_loop hvc flags h' (s\<lparr>mem_arbit := MEMORY_TOKEN_ACQUIRED\<rparr>)
           else if r = ARB_NACK then begin_loop hvc flags h' (s\<lparr>mem_arbit := MEMORY_TOKEN_REQUESTED\<rparr>)
           else begin_loop hvc flags h' s)
      else
        (case DPREM_suspend_running_task flags s of
           None \<Rightarrow> None
         | Some (s', switched) \<Rightarrow> if switched then Some (h, s', False) else begin_loop hvc flags h s'))"

definition begin_finish :: "bool \<Rightarrow> 'h \<times> kern \<times> bool \<Rightarrow> 'h \<times> kern \<times> bool" where
  "begin_finish flags r =
     (case r of (h, s, True) \<Rightarrow>
        (h, osEE_end_primitive flags (upd_tcb (p_curr s) (\<lambda>c. c\<lparr>current_prio := MAX_TASK_PRIORITY\<rparr>) s), True)
      | (h, s, False) \<Rightarrow> (h, s, False))"

definition DPREM_begin_memory_phase ::
  "('h \<Rightarrow> 'h \<times> arb_result) \<Rightarrow> 'h \<Rightarrow> kern \<Rightarrow> ('h \<times> kern \<times> bool) option" where
  "DPREM_begin_memory_phase hvc h s =
     (let (s1, flags) = osEE_begin_primitive s in
      begin_loop hvc flags h s1 \<bind> (\<lambda>r. Some (begin_finish flags r)))"

text \<open>What the suspended caller does when it gets the CPU back: it goes on in the loop.\<close>

definition begin_resume ::
  "('h \<Rightarrow> 'h \<times> arb_result) \<Rightarrow> bool \<Rightarrow> 'h \<Rightarrow> kern \<Rightarrow> ('h \<times> kern \<times> bool) option" where
  "begin_resume hvc flags h s =
     begin_loop hvc flags h (s\<lparr>conts := (conts s)(p_curr s := C_NONE)\<rparr>) \<bind> (\<lambda>r. Some (begin_finish flags r))"

text \<open>Interrupts stay masked until the end of the execution phase; the flags go to the caller.\<close>

definition DPREM_end_memory_phase :: "('h \<Rightarrow> 'h \<times> arb_result) \<Rightarrow> 'h \<Rightarrow> kern \<Rightarrow> 'h \<times> kern \<times> bool" where
  "DPREM_end_memory_phase hvc h s =
     (let (s1, flags) = osEE_begin_primitive s; (h', hvc_res) = hvc h in
      (h', if hvc_res = ARB_ACK then s1\<lparr>mem_arbit := MEMORY_TOKEN_NONE\<rparr> else s1, flags))"

definition DPREM_end_execution_phase :: "bool \<Rightarrow> kern \<Rightarrow> kern" where
  "DPREM_end_execution_phase flags s =
     (let s1 = upd_tcb (p_curr s) (\<lambda>c. c\<lparr>current_prio := dispatch_prio (tdbs s (p_curr s))\<rparr>) s;
          s2 = (if p_suspended_sn s1 \<noteq> [] then fst (DPREM_resume_highest_priority_task s1) else s1) in
      osEE_end_primitive flags s2)"

subsection \<open>Searching a queue\<close>

lemma highest_best:
  "highest_priority_sn ok prio best cs = Some x \<Longrightarrow>
     (best = Some x \<or> x \<in> set cs \<and> ok x) \<and> (\<forall>b. best = Some b \<longrightarrow> prio b \<le> prio x) \<and>
     (\<forall>y\<in>set cs. ok y \<longrightarrow> prio y \<le> prio x)"
proof (induction cs arbitrary: best)
  case (Cons c cs)
  show ?case
    using Cons.IH [OF Cons.prems [unfolded highest_priority_sn.simps]]
    by (cases best) (auto split: if_splits)
qed simp

lemma highest_None: "highest_priority_sn ok prio best cs = None \<longleftrightarrow> best = None \<and> (\<forall>y\<in>set cs. \<not> ok y)"
  by (induction cs arbitrary: best) auto

lemma highest_stays:
  "(\<forall>y\<in>set cs. ok y \<longrightarrow> prio y \<le> prio b) \<Longrightarrow> highest_priority_sn ok prio (Some b) cs = Some b"
proof (induction cs)
  case (Cons c cs)
  have "\<not> (ok c \<and> prio b < prio c)" using Cons.prems by (auto simp: not_less)
  then show ?case using Cons by auto
qed simp

lemma highest_first:
  assumes "highest_priority_sn ok prio best cs = Some x" "best \<noteq> Some x"
  shows "\<exists>as bs. cs = as @ x # bs \<and> (\<forall>y\<in>set as. ok y \<longrightarrow> prio y < prio x)"
  using assms
proof (induction cs arbitrary: best)
  case (Cons c cs)
  let ?best = "if ok c \<and> (case best of None \<Rightarrow> True | Some b \<Rightarrow> prio c > prio b) then Some c else best"
  have h: "highest_priority_sn ok prio ?best cs = Some x" using Cons.prems(1) by simp
  show ?case
  proof (cases "?best = Some x")
    case True
    then have "c = x" using Cons.prems(2) by (auto split: if_splits)
    then show ?thesis by (intro exI [of _ "[]"] exI [of _ cs]) simp
  next
    case False
    from Cons.IH [OF h False] obtain as bs where ab: "cs = as @ x # bs" "\<forall>y\<in>set as. ok y \<longrightarrow> prio y < prio x" by blast
    have "prio c < prio x" if okc: "ok c"
    proof -
      have le: "\<forall>b. ?best = Some b \<longrightarrow> prio b \<le> prio x" using highest_best [OF h] by blast
      have "\<exists>b. ?best = Some b \<and> prio c \<le> prio b" using okc by (cases best) (auto simp: not_less)
      then obtain b where b: "?best = Some b" "prio c \<le> prio b" by blast
      show ?thesis
      proof (rule ccontr)
        assume "\<not> prio c < prio x"
        then have "prio x \<le> prio b" using b(2) by simp
        moreover have "x \<in> set cs" "ok x" using highest_best [OF h] False by auto
        ultimately have "highest_priority_sn ok prio (Some b) cs \<noteq> Some x \<or> b = x"
          using highest_stays [of cs ok prio b] highest_best [OF h] b(1) le
          by (metis order.antisym option.inject order.trans)
        then show False using h b(1) False by auto
      qed
    qed
    then show ?thesis using ab by (intro exI [of _ "c # as"] exI [of _ bs]) auto
  qed
qed simp

subsection \<open>The invariant\<close>

lemma insert_before_hd: "xs \<noteq> [] \<Longrightarrow> \<exists>ys. insert_before x ref xs = hd xs # ys"
  by (cases "(x, ref, xs)" rule: insert_before.cases) auto

lemma kinv_queues:
  assumes "kinv s" "mset (p_stk_sn s') + mset (p_suspended_sn s') = mset (p_stk_sn s) + mset (p_suspended_sn s)"
    and "p_stk_sn s' \<noteq> []" "p_stk_sn s \<noteq> []" "hd (p_stk_sn s') = hd (p_stk_sn s)"
    and "rq s' = rq s" "p_free_sn s' = p_free_sn s" "tdbs s' = tdbs s" "tcbs s' = tcbs s" "free_task_index s' = free_task_index s"
      "sn_tdb s' = sn_tdb s" "p_idle_task s' = p_idle_task s" "free_sn_counter s' = free_sn_counter s" "p_curr s' = p_curr s"
      "conts s' = conts s"
  shows "kinv s'"
proof -
  have k: "kinv_core {#} {#} s" and r: "krun s" using assms(1) by (simp_all add: kinv_def)
  have o: "own s' = own s" using assms by (simp add: own_def)
  have "live s' = mset (p_stk_sn s') + mset (p_suspended_sn s') + mset (rq s') + own s'" by (simp add: live_def ac_simps)
  also have "\<dots> = live s" unfolding assms(2) o assms(6) by (simp add: live_def ac_simps)
  finally have l: "live s' = live s" .
  have k': "kinv_core {#} {#} s'"
    by (rule kinv_core_move [OF k]) (use assms l kinv_core_dest(2) [OF k] in simp_all)
  have t: "top_task s' = top_task s" using assms(3-5,11) by (auto simp: top_task_def split: list.split)
  show ?thesis using k' r assms t by (simp add: kinv_def krun_def waits_ok_def)
qed

lemma kinv_stk_disjoint:
  assumes "kinv s" "x \<in> set (p_suspended_sn s)"
  shows "x \<notin> set (p_stk_sn s)" "distinct (p_stk_sn s)"
proof -
  have k: "count (pool s) y \<le> 1" for y using kinv_core_dest(1) [of "{#}" "{#}" s y] assms(1) by (simp add: kinv_def)
  have c: "count (mset (p_suspended_sn s)) x \<noteq> 0" using assms(2) by (metis count_eq_zero_iff set_mset_mset)
  show "x \<notin> set (p_stk_sn s)"
  proof
    assume "x \<in> set (p_stk_sn s)"
    then have "count (mset (p_stk_sn s)) x \<noteq> 0" by (metis count_eq_zero_iff set_mset_mset)
    with c have "\<not> count (mset (p_stk_sn s)) x + count (mset (p_suspended_sn s)) x \<le> 1" by linarith
    then show False using k [of x] by (simp add: pool_def live_def)
  qed
  have "count (mset (p_stk_sn s)) y \<le> 1" for y using k [of y] by (simp add: pool_def live_def)
  moreover have "count (mset (p_stk_sn s)) y = 0 \<longleftrightarrow> y \<notin> set (p_stk_sn s)" for y
    by (metis count_eq_zero_iff set_mset_mset)
  ultimately have "count (mset (p_stk_sn s)) y = (if y \<in> set (p_stk_sn s) then 1 else 0)" for y
    by (metis One_nat_def le_SucE le_zero_eq)
  then show "distinct (p_stk_sn s)" unfolding distinct_count_atmost_1 by blast
qed

text \<open>The state an interrupt handler runs in: an ISR2 on top of the stack.\<close>

definition in_isr :: "kern \<Rightarrow> bool" where
  "in_isr s \<longleftrightarrow> (\<exists>i rest. p_stk_sn s = i # rest \<and> \<not> sn_regular s i)"

lemma suspend_isr_inv:
  assumes "kinv s" "in_isr s"
  shows "kinv (fst (DPREM_suspend_highest_priority_active_task_from_ISR s))"
proof (cases "highest_priority_sn (sn_regular s) (sn_prio s) None (p_stk_sn s)")
  case None
  then show ?thesis using assms by (simp add: DPREM_suspend_highest_priority_active_task_from_ISR_def)
next
  case (Some x)
  obtain i rest where i: "p_stk_sn s = i # rest" "\<not> sn_regular s i" using assms(2) by (auto simp: in_isr_def)
  have x: "x \<in> set (p_stk_sn s)" "sn_regular s x" using highest_best [OF Some] by auto
  then have ne: "x \<noteq> i" "x \<in> set rest" using i by auto
  show ?thesis
    unfolding DPREM_suspend_highest_priority_active_task_from_ISR_def Some
    by (simp, rule kinv_queues [OF assms(1)]) (use i ne in simp_all)
qed

lemma resume_isr_inv:
  assumes "kinv s" "p_stk_sn s \<noteq> []"
  shows "kinv (fst (DPREM_resume_highest_priority_task_from_ISR s))"
proof (cases "highest_priority_sn (\<lambda>_. True) (sn_prio s) None (p_suspended_sn s)")
  case None
  then show ?thesis using assms by (simp add: DPREM_resume_highest_priority_task_from_ISR_def)
next
  case (Some x)
  have x: "x \<in> set (p_suspended_sn s)" using highest_best [OF Some] by auto
  let ?s1 = "upd_tcb (sn_tdb s x) (\<lambda>c. c\<lparr>current_prio := MAX_TASK_PRIORITY\<rparr>) s"
  have k: "kinv ?s1" by (rule kinv_prio [OF assms(1)])
  have ys: "insert_before x (first_regular_sn s (p_stk_sn s)) (p_stk_sn s) \<noteq> []"
    "hd (insert_before x (first_regular_sn s (p_stk_sn s)) (p_stk_sn s)) = hd (p_stk_sn s)"
    using insert_before_hd [OF assms(2)] by (metis list.distinct(1), metis list.sel(1))
  show ?thesis
    unfolding DPREM_resume_highest_priority_task_from_ISR_def Some
    by (simp add: Let_def, rule kinv_queues [OF k]) (use assms(2) ys x in \<open>simp_all add: insert_before_mset\<close>)
qed

lemma resume_task_inv:
  assumes "kinv s" "p_stk_sn s \<noteq> []"
  shows "kinv (fst (DPREM_resume_highest_priority_task s))"
proof (cases "highest_priority_sn (\<lambda>_. True) (sn_prio s) None (p_suspended_sn s)")
  case None
  then show ?thesis using assms by (simp add: DPREM_resume_highest_priority_task_def)
next
  case (Some x)
  have x: "x \<in> set (p_suspended_sn s)" using highest_best [OF Some] by auto
  obtain y ys where y: "p_stk_sn s = y # ys" using assms(2) by (cases "p_stk_sn s") auto
  show ?thesis
    unfolding DPREM_resume_highest_priority_task_def Some
    by (simp add: y, rule kinv_queues [OF assms(1)]) (use y x in simp_all)
qed

lemma suspend_running_inv:
  assumes inv: "kinv s" and c: "conts s (p_curr s) = C_NONE" and x: "p_stk_sn s = x # xs" "sn_regular s x"
  obtains s' where "DPREM_suspend_running_task flags s = Some (s', True)" "kinv s'"
    "p_suspended_sn s' = x # p_suspended_sn s" "mem_arbit s' = mem_arbit s"
    "free_task_index s' = free_task_index s" "sn_tdb s' = sn_tdb s" "p_curr s' = p_curr s \<or> conts s' (p_curr s) = C_DPREM flags"
proof -
  let ?t = "p_curr s"
  have k: "kinv_core {#} {#} s" and r: "krun s" using inv by (simp_all add: kinv_def)
  have t: "sn_tdb s x = ?t" "?t < free_task_index s" using krun_dest(1) [OF r] x kinv_core_dest(4) [OF k, of x]
    by (simp_all add: top_task_def live_def)
  have w: "wait_mask (tcbs s ?t) = 0" by (rule waits_ok_running [OF krun_dest(2) [OF r] t(2) c])
  obtain s1 where s1: "osEE_scheduler_core_pop_running s = Some (s1, x)" "kinv_core {#x#} {#} s1"
    "p_curr s1 = top_task s1" "sn_tdb s1 = sn_tdb s" "tdbs s1 = tdbs s" "free_task_index s1 = free_task_index s"
    "p_suspended_sn s1 = p_suspended_sn s" "mem_arbit s1 = mem_arbit s" "p_idle_task s1 = p_idle_task s"
    "\<And>u. wait_mask (tcbs s1 u) = wait_mask (tcbs s u)" "conts s1 = conts s"
    "\<And>u. status (tcbs s1 u) = status (tcbs s u) \<or> status (tcbs s1 u) = OSEE_TASK_READY_STACKED"
    by (rule pop_running_inv [OF k x(1)]) auto
  define f :: "tcb \<Rightarrow> tcb" where "f = (\<lambda>c. c\<lparr>p_own_sn := Some x, status := OSEE_TASK_READY_STACKED, current_prio := ready_prio (tdbs s ?t)\<rparr>)"
  let ?s2 = "upd_tcb ?t f s1"
  let ?s3 = "?s2\<lparr>p_suspended_sn := x # p_suspended_sn ?s2, conts := (conts ?s2)(?t := C_DPREM flags)\<rparr>"
  have t1: "?t < free_task_index s1" "sn_tdb s1 x = ?t" using t s1(4,6) by simp_all
  have nw: "status (tcbs s1 ?t) \<noteq> OSEE_TASK_WAITING" using not_waiting [OF s1(2), of x] t1(2) by simp
  have ns: "status (tcbs s1 ?t) \<noteq> OSEE_TASK_SUSPENDED" using live_task_active [OF s1(2), of x] t1(2) by simp
  have k2: "kinv_core {#x#} {#} ?s2"
    by (rule kinv_core_soft [OF s1(2)]) (use nw ns w s1(10) in \<open>auto simp: soft_def f_def wait_ok_def\<close>)
  have k3: "kinv_core {#} {#} ?s3"
    by (rule kinv_core_move [OF k2]) (use kinv_core_dest(2) [OF k2] in \<open>simp_all add: live_def own_def\<close>)
  have tt: "top_task ?s3 = top_task s1" by (rule top_task_cong) simp_all
  have "waits_ok ?s3" using krun_dest(2) [OF r] w s1(6,10,11) by (auto simp: waits_ok_def f_def)
  moreover have "status (tcbs ?s3 u) \<noteq> OSEE_TASK_RUNNING" for u
    using s1(12) [of u] krun_dest(4) [OF r, of u] by (auto simp: f_def)
  ultimately have ks: "ksched ?s3" using k3 s1(3) tt by (simp add: ksched_def)
  define s' where "s' = osEE_change_context_from_running ?t (p_curr ?s3) ?s3"
  have "kinv s'" unfolding s'_def by (rule change_context_kinv [OF ks])
  moreover have "DPREM_suspend_running_task flags s = Some (s', True)"
    using x s1(1) by (simp add: DPREM_suspend_running_task_def Let_def s'_def f_def)
  moreover have "p_curr s' = ?t \<or> conts s' ?t = C_DPREM flags" by (auto simp: s'_def)
  ultimately show ?thesis using that [of s'] s1 by (simp add: s'_def)
qed

subsection \<open>Properties\<close>

text \<open>
  The interrupt handlers drive the guest's view of the token exactly as the protocol of theory
  MemoryArbiter says, and they keep the core invariant when they run as an ISR2.
\<close>

theorem dprem_isr_client:
  assumes "kinv s" "in_isr s"
  shows "mem_arbit (memory_phase_started_ISR s) = client_sgi SGI_MEMORY_PHASE_STARTED (mem_arbit s)
    \<and> mem_arbit (memory_phase_ended_ISR s) = client_sgi SGI_MEMORY_PHASE_ENDED (mem_arbit s)
    \<and> kinv (memory_phase_started_ISR s) \<and> kinv (memory_phase_ended_ISR s)
    \<and> p_curr (memory_phase_started_ISR s) = p_curr s \<and> p_curr (memory_phase_ended_ISR s) = p_curr s
    \<and> irq_masked (memory_phase_started_ISR s) = irq_masked s \<and> irq_masked (memory_phase_ended_ISR s) = irq_masked s"
proof -
  have ne: "p_stk_sn s \<noteq> []" using assms(2) by (auto simp: in_isr_def)
  have isr: "in_isr (s\<lparr>irq_masked := b, mem_arbit := m\<rparr>)" for b m using assms(2) by (simp add: in_isr_def)
  have r: "mem_arbit (fst (DPREM_resume_highest_priority_task_from_ISR u)) = mem_arbit u
      \<and> p_curr (fst (DPREM_resume_highest_priority_task_from_ISR u)) = p_curr u" for u
    by (simp add: DPREM_resume_highest_priority_task_from_ISR_def Let_def split: option.split)
  have d: "mem_arbit (fst (DPREM_suspend_highest_priority_active_task_from_ISR u)) = mem_arbit u
      \<and> p_curr (fst (DPREM_suspend_highest_priority_active_task_from_ISR u)) = p_curr u" for u
    by (simp add: DPREM_suspend_highest_priority_active_task_from_ISR_def split: option.split)
  have "kinv (fst (DPREM_resume_highest_priority_task_from_ISR (s\<lparr>irq_masked := True, mem_arbit := m\<rparr>)))" for m
    by (rule resume_isr_inv) (use assms ne in simp_all)
  moreover have "kinv (fst (DPREM_suspend_highest_priority_active_task_from_ISR (s\<lparr>irq_masked := True, mem_arbit := m\<rparr>)))" for m
    by (rule suspend_isr_inv) (use assms isr in simp_all)
  ultimately show ?thesis
    using assms r d
    by (cases "mem_arbit s") (simp_all add: memory_phase_started_ISR_def memory_phase_ended_ISR_def osEE_begin_primitive_def
        osEE_end_primitive_def client_sgi_def SGI_MEMORY_PHASE_STARTED_def SGI_MEMORY_PHASE_ENDED_def)
qed
definition demo_isr :: "mem_arbit_status \<Rightarrow> kern" where
  "demo_isr m = demo_kern\<lparr>p_stk_sn := [1, 0], p_free_sn := [2], sn_tdb := (\<lambda>x. if x = 1 then 2 else 0), p_curr := 2,
     tcbs := (tcbs demo_kern)(0 := (tcbs demo_kern 0)\<lparr>status := OSEE_TASK_READY_STACKED\<rparr>,
       2 := (tcbs demo_kern 2)\<lparr>status := OSEE_TASK_RUNNING, current_num_of_act := 1\<rparr>), mem_arbit := m\<rparr>"

lemma demo_isr_kinv: "kinv (demo_isr m)"
proof -
  have o: "own (demo_isr m) = {#}" by (simp add: own_def demo_isr_def demo_kern_def own_of_def lessThan_3)
  have l: "live (demo_isr m) = {#0, 1#}" by (simp add: live_def o) (simp add: demo_isr_def demo_kern_def)
  have p: "pool (demo_isr m) = {#0, 1, 2#}" by (simp add: pool_def l) (simp add: demo_isr_def demo_kern_def)
  have h: "headroom (demo_isr m) = 1" by (simp add: headroom_def demo_isr_def demo_kern_def lessThan_3)
  have "kinv_core {#} {#} (demo_isr m)"
    unfolding kinv_core_def l p h by (auto simp: demo_isr_def demo_kern_def less_3 wait_ok_def)
  moreover have "krun (demo_isr m)" by (auto simp: krun_def waits_ok_def top_task_def demo_isr_def demo_kern_def)
  ultimately show ?thesis by (simp add: kinv_def)
qed

lemma demo_in_isr: "in_isr (demo_isr m)"
  by (simp add: in_isr_def demo_isr_def demo_kern_def is_regular_def)

theorem dprem_isr_client_example:
  "mem_arbit (memory_phase_ended_ISR (demo_isr MEMORY_TOKEN_ACQUIRED)) = MEMORY_TOKEN_REQUESTED
   \<and> kinv (memory_phase_ended_ISR (demo_isr MEMORY_TOKEN_ACQUIRED))"
  using dprem_isr_client [OF demo_isr_kinv demo_in_isr, of MEMORY_TOKEN_ACQUIRED]
  by (simp add: client_sgi_def SGI_MEMORY_PHASE_STARTED_def SGI_MEMORY_PHASE_ENDED_def demo_isr_def)

text \<open>
  When the token is withdrawn, the ENDED handler suspends the most urgent stacked task, the
  first one of highest current priority, and nothing else changes in the queues.
\<close>

theorem dprem_ended_suspends:
  assumes "mem_arbit s = MEMORY_TOKEN_ACQUIRED" "\<exists>y\<in>set (p_stk_sn s). sn_regular s y"
  shows "\<exists>as x bs. p_stk_sn s = as @ x # bs \<and> sn_regular s x
    \<and> (\<forall>y\<in>set as. sn_regular s y \<longrightarrow> sn_prio s y < sn_prio s x)
    \<and> (\<forall>y\<in>set bs. sn_regular s y \<longrightarrow> sn_prio s y \<le> sn_prio s x)
    \<and> memory_phase_ended_ISR s =
        s\<lparr>p_stk_sn := remove1 x (p_stk_sn s), p_suspended_sn := x # p_suspended_sn s, mem_arbit := MEMORY_TOKEN_REQUESTED\<rparr>"
proof -
  let ?h = "highest_priority_sn (sn_regular s) (sn_prio s) None (p_stk_sn s)"
  have "?h \<noteq> None" using assms(2) by (auto simp: highest_None)
  then obtain x where x: "?h = Some x" by blast
  obtain as bs where ab: "p_stk_sn s = as @ x # bs" "\<forall>y\<in>set as. sn_regular s y \<longrightarrow> sn_prio s y < sn_prio s x"
    using highest_first [OF x] by auto
  have b: "sn_regular s x" "\<forall>y\<in>set bs. sn_regular s y \<longrightarrow> sn_prio s y \<le> sn_prio s x"
    using highest_best [OF x] ab(1) by auto
  have "memory_phase_ended_ISR s = s\<lparr>p_stk_sn := remove1 x (p_stk_sn s), p_suspended_sn := x # p_suspended_sn s, mem_arbit := MEMORY_TOKEN_REQUESTED\<rparr>"
    using assms(1) x by (cases s) (simp add: memory_phase_ended_ISR_def osEE_begin_primitive_def osEE_end_primitive_def
        DPREM_suspend_highest_priority_active_task_from_ISR_def)
  then show ?thesis using ab b by blast
qed

theorem dprem_ended_suspends_example:
  "p_suspended_sn (memory_phase_ended_ISR (demo_isr MEMORY_TOKEN_ACQUIRED)) = [0]
   \<and> p_stk_sn (memory_phase_ended_ISR (demo_isr MEMORY_TOKEN_ACQUIRED)) = [1]"
proof -
  have "\<exists>y\<in>set (p_stk_sn (demo_isr MEMORY_TOKEN_ACQUIRED)). sn_regular (demo_isr MEMORY_TOKEN_ACQUIRED) y"
    by (simp add: demo_isr_def demo_kern_def is_regular_def)
  moreover have "mem_arbit (demo_isr MEMORY_TOKEN_ACQUIRED) = MEMORY_TOKEN_ACQUIRED" by (simp add: demo_isr_def)
  ultimately obtain as x bs where x: "p_stk_sn (demo_isr MEMORY_TOKEN_ACQUIRED) = as @ x # bs" "sn_regular (demo_isr MEMORY_TOKEN_ACQUIRED) x"
    "memory_phase_ended_ISR (demo_isr MEMORY_TOKEN_ACQUIRED) = (demo_isr MEMORY_TOKEN_ACQUIRED)\<lparr>p_stk_sn := remove1 x (p_stk_sn (demo_isr MEMORY_TOKEN_ACQUIRED)),
       p_suspended_sn := x # p_suspended_sn (demo_isr MEMORY_TOKEN_ACQUIRED), mem_arbit := MEMORY_TOKEN_REQUESTED\<rparr>"
    using dprem_ended_suspends [of "demo_isr MEMORY_TOKEN_ACQUIRED"] by blast
  have "x \<in> set (p_stk_sn (demo_isr MEMORY_TOKEN_ACQUIRED))" unfolding x(1) by simp
  then have "x = 0" using x(2) by (auto simp: demo_isr_def demo_kern_def is_regular_def)
  then show ?thesis unfolding x(3) by (simp add: demo_isr_def demo_kern_def)
qed

lemma insert_first_regular:
  assumes "\<not> sn_regular s i" "rest = [] \<or> sn_regular s (hd rest)"
  shows "insert_before x (first_regular_sn s (i # rest)) (i # rest) = i # x # rest"
  using assms by (cases rest) auto

lemma started_ISR_eq:
  assumes "mem_arbit s = MEMORY_TOKEN_REQUESTED" "highest_priority_sn (\<lambda>_. True) (sn_prio s) None (p_suspended_sn s) = Some x"
    and "p_stk_sn s = i # rest" "\<not> sn_regular s i" "rest = [] \<or> sn_regular s (hd rest)"
  shows "memory_phase_started_ISR s = upd_tcb (sn_tdb s x) (\<lambda>c. c\<lparr>current_prio := MAX_TASK_PRIORITY\<rparr>)
    (s\<lparr>mem_arbit := MEMORY_TOKEN_ACQUIRED, p_suspended_sn := remove1 x (p_suspended_sn s), p_stk_sn := i # x # rest\<rparr>)"
proof -
  define u where "u = s\<lparr>irq_masked := True, mem_arbit := MEMORY_TOKEN_ACQUIRED\<rparr>"
  have u: "p_stk_sn u = i # rest" "sn_tdb u = sn_tdb s" "p_suspended_sn u = p_suspended_sn s" "tcbs u = tcbs s" "tdbs u = tdbs s"
    using assms(3) by (simp_all add: u_def)
  have "highest_priority_sn (\<lambda>_. True) (sn_prio u) None (p_suspended_sn u) = Some x" using assms(2) by (simp add: u)
  moreover have "insert_before x (first_regular_sn u (p_stk_sn u)) (p_stk_sn u) = i # x # rest"
    using insert_first_regular [of u i rest x] assms(4,5) by (simp add: u)
  ultimately have "fst (DPREM_resume_highest_priority_task_from_ISR u) = upd_tcb (sn_tdb s x) (\<lambda>c. c\<lparr>current_prio := MAX_TASK_PRIORITY\<rparr>) u
      \<lparr>p_suspended_sn := remove1 x (p_suspended_sn s), p_stk_sn := i # x # rest\<rparr>"
    by (simp add: DPREM_resume_highest_priority_task_from_ISR_def Let_def u)
  then show ?thesis
    using assms(1) by (cases s) (simp add: memory_phase_started_ISR_def osEE_begin_primitive_def osEE_end_primitive_def
        u_def upd_tcb_def)
qed

text \<open>
  C9: when the token is granted, the STARTED handler puts the most urgent suspended task on top of the
  tasks and raises it to the ceiling; when the handler ends, that task has the CPU, provided no
  queued activation is above the ceiling (only ISR2s are) and handlers do not nest.
\<close>

theorem dprem_started_runs:
  assumes inv: "kinv s" and stk: "p_stk_sn s = i # rest" "\<not> sn_regular s i" "rest = [] \<or> sn_regular s (hd rest)"
    and req: "mem_arbit s = MEMORY_TOKEN_REQUESTED" and c: "conts s (p_curr s) = C_NONE"
    and sus: "p_suspended_sn s \<noteq> []" "\<forall>y\<in>set (p_suspended_sn s). sn_regular s y"
    and q: "\<forall>y\<in>set (rq s). sn_prio s y \<le> MAX_TASK_PRIORITY"
  shows "\<exists>x s'. x \<in> set (p_suspended_sn s) \<and> (\<forall>y\<in>set (p_suspended_sn s). sn_prio s y \<le> sn_prio s x)
    \<and> osEE_scheduler_task_end (memory_phase_started_ISR s) = Some s' \<and> kinv s'
    \<and> p_curr s' = sn_tdb s x \<and> mem_arbit s' = MEMORY_TOKEN_ACQUIRED
    \<and> current_prio (tcbs s' (p_curr s')) = MAX_TASK_PRIORITY \<and> p_suspended_sn s' = remove1 x (p_suspended_sn s)"
proof -
  have "highest_priority_sn (\<lambda>_. True) (sn_prio s) None (p_suspended_sn s) \<noteq> None" using sus(1) by (simp add: highest_None)
  then obtain x where x: "highest_priority_sn (\<lambda>_. True) (sn_prio s) None (p_suspended_sn s) = Some x" by blast
  have xs: "x \<in> set (p_suspended_sn s)" "\<forall>y\<in>set (p_suspended_sn s). sn_prio s y \<le> sn_prio s x"
    using highest_best [OF x] by auto
  define s1 where "s1 = memory_phase_started_ISR s"
  note e = started_ISR_eq [OF req x stk, folded s1_def]
  have isr: "in_isr s" using stk by (simp add: in_isr_def)
  have k1: "kinv s1" "p_curr s1 = p_curr s" unfolding s1_def using dprem_isr_client [OF inv isr] by simp_all
  have cur: "p_curr s = sn_tdb s i" "status (tcbs s1 (p_curr s)) = OSEE_TASK_RUNNING"
    using inv k1 stk(1) by (auto simp: kinv_def krun_def top_task_def)
  have ne: "sn_tdb s x \<noteq> p_curr s" using sus(2) xs(1) stk(2) cur(1) by auto
  have t: "p_curr s < free_task_index s" using kinv_core_dest(4) [of "{#}" "{#}" s i] inv stk(1) cur(1) by (simp add: kinv_def live_def)
  have "waits_ok s" using inv by (simp add: kinv_def krun_def)
  from waits_ok_running [OF this t c] have w: "wait_mask (tcbs s1 (p_curr s)) = 0" using ne by (simp add: e)
  have kinv1: "osEE_scheduler_core_rq_preempt_stk (s1\<lparr>p_stk_sn := x # rest\<rparr>) = (s1\<lparr>p_stk_sn := x # rest\<rparr>, None)"
    using q by (auto simp: osEE_scheduler_core_rq_preempt_stk_def e Let_def not_less split: list.split)
  have pop: "osEE_scheduler_core_pop_running s1 = Some (s1\<lparr>p_stk_sn := x # rest, p_curr := sn_tdb s x\<rparr>, i)"
    using kinv1 by (simp add: osEE_scheduler_core_pop_running_def e)
  obtain s' where s': "osEE_scheduler_task_end (upd_tcb (p_curr s1) id s1) = Some s'" "kinv s'"
    by (rule scheduler_task_end_inv [OF k1(1), where f = id]) (use w k1(2) in \<open>simp_all add: e\<close>)
  have id: "upd_tcb (p_curr s1) id s1 = s1" by (rule upd_tcb_id) simp
  have te: "osEE_scheduler_task_terminated s1 = Some (sn_release i (osEE_task_end (p_curr s)
      (s1\<lparr>p_stk_sn := x # rest, p_curr := sn_tdb s x\<rparr>)), sn_tdb s x, p_curr s)"
    using cur(2) k1(2) ne pop by (simp add: osEE_scheduler_task_terminated_def Let_def)
  have "s' = osEE_change_context_from_running (p_curr s) (sn_tdb s x) (sn_release i (osEE_task_end (p_curr s)
      (s1\<lparr>p_stk_sn := x # rest, p_curr := sn_tdb s x\<rparr>)))"
    using s'(1) te by (simp add: id osEE_scheduler_task_end_def task_end_change_context)
  then have "p_curr s' = sn_tdb s x" "mem_arbit s' = MEMORY_TOKEN_ACQUIRED" "p_suspended_sn s' = remove1 x (p_suspended_sn s)"
    "current_prio (tcbs s' (sn_tdb s x)) = MAX_TASK_PRIORITY"
    using ne by (simp_all add: sn_release_def osEE_task_end_def e)
  moreover have "osEE_scheduler_task_end (memory_phase_started_ISR s) = Some s'"
    using s'(1) unfolding id by (simp add: s1_def)
  ultimately show ?thesis using xs s'(2) by auto
qed

definition demo_susp :: kern where
  "demo_susp = (demo_isr MEMORY_TOKEN_REQUESTED)\<lparr>p_stk_sn := [1], p_suspended_sn := [0]\<rparr>"

lemma demo_susp_kinv: "kinv demo_susp"
  by (rule kinv_queues [OF demo_isr_kinv [of MEMORY_TOKEN_REQUESTED]]) (simp_all add: demo_susp_def demo_isr_def demo_kern_def)

theorem dprem_started_runs_witness:
  "\<exists>s'. osEE_scheduler_task_end (memory_phase_started_ISR demo_susp) = Some s' \<and> p_curr s' = 0
     \<and> current_prio (tcbs s' 0) = 0x7F \<and> mem_arbit s' = MEMORY_TOKEN_ACQUIRED"
  using dprem_started_runs [OF demo_susp_kinv, of 1 "[]"]
  by (fastforce simp: demo_susp_def demo_isr_def demo_kern_def is_regular_def MAX_TASK_PRIORITY_def OSEE_ISR2_PRIO_BIT_def)

text \<open>
  An ENDED interrupt followed by a STARTED interrupt gives the task back its place on the stack;
  only its priority is raised to the ceiling.
\<close>

theorem dprem_ended_started_roundtrip:
  assumes "mem_arbit s = MEMORY_TOKEN_ACQUIRED" "p_stk_sn s = i # x # rest" "distinct (p_stk_sn s)"
    and "\<not> sn_regular s i" "sn_regular s x" "rest = [] \<or> sn_regular s (hd rest)"
    and "\<forall>y\<in>set rest. sn_regular s y \<longrightarrow> sn_prio s y \<le> sn_prio s x"
    and "\<forall>y\<in>set (p_suspended_sn s). sn_prio s y \<le> sn_prio s x"
  shows "memory_phase_started_ISR (memory_phase_ended_ISR s) = upd_tcb (sn_tdb s x) (\<lambda>c. c\<lparr>current_prio := MAX_TASK_PRIORITY\<rparr>) s"
proof -
  have "highest_priority_sn (sn_regular s) (sn_prio s) (Some x) rest = Some x" by (rule highest_stays [OF assms(7)])
  then have h: "highest_priority_sn (sn_regular s) (sn_prio s) None (p_stk_sn s) = Some x" using assms(2,4,5) by simp
  define s1 where "s1 = memory_phase_ended_ISR s"
  have s1: "s1 = s\<lparr>p_stk_sn := i # rest, p_suspended_sn := x # p_suspended_sn s, mem_arbit := MEMORY_TOKEN_REQUESTED\<rparr>"
    using assms(1-3) h by (cases s) (auto simp: s1_def memory_phase_ended_ISR_def osEE_begin_primitive_def osEE_end_primitive_def
        DPREM_suspend_highest_priority_active_task_from_ISR_def)
  have "highest_priority_sn (\<lambda>_. True) (sn_prio s) (Some x) (p_suspended_sn s) = Some x"
    by (rule highest_stays) (use assms(8) in simp)
  then have "highest_priority_sn (\<lambda>_. True) (sn_prio s1) None (p_suspended_sn s1) = Some x" by (simp add: s1)
  from started_ISR_eq [OF _ this, of i rest] have "memory_phase_started_ISR s1 =
      upd_tcb (sn_tdb s1 x) (\<lambda>c. c\<lparr>current_prio := MAX_TASK_PRIORITY\<rparr>)
        (s1\<lparr>mem_arbit := MEMORY_TOKEN_ACQUIRED, p_suspended_sn := remove1 x (p_suspended_sn s1), p_stk_sn := i # x # rest\<rparr>)"
    using assms(4,6) by (simp add: s1)
  also have "\<dots> = upd_tcb (sn_tdb s x) (\<lambda>c. c\<lparr>current_prio := MAX_TASK_PRIORITY\<rparr>) s"
    using assms(1,2) by (cases s) (simp add: s1 upd_tcb_def)
  finally show ?thesis unfolding s1_def .
qed

theorem dprem_ended_started_roundtrip_example:
  "memory_phase_started_ISR (memory_phase_ended_ISR (demo_isr MEMORY_TOKEN_ACQUIRED)) =
     upd_tcb 0 (\<lambda>c. c\<lparr>current_prio := 0x7F\<rparr>) (demo_isr MEMORY_TOKEN_ACQUIRED)"
  using dprem_ended_started_roundtrip [of "demo_isr MEMORY_TOKEN_ACQUIRED" 1 0 "[]"]
  by (simp add: demo_isr_def demo_kern_def is_regular_def MAX_TASK_PRIORITY_def OSEE_ISR2_PRIO_BIT_def)
lemma begin_loop_acquired: "mem_arbit s = MEMORY_TOKEN_ACQUIRED \<Longrightarrow> begin_loop hvc flags h s = Some (h, s, True)"
  by (subst begin_loop.simps) simp

lemma begin_loop_request:
  "mem_arbit s = MEMORY_TOKEN_NONE \<Longrightarrow> hvc h = (h', r) \<Longrightarrow> begin_loop hvc flags h s =
     begin_loop hvc flags h' (if r = ARB_ACK then s\<lparr>mem_arbit := MEMORY_TOKEN_ACQUIRED\<rparr>
       else if r = ARB_NACK then s\<lparr>mem_arbit := MEMORY_TOKEN_REQUESTED\<rparr> else s)"
  by (subst begin_loop.simps) simp

lemma begin_loop_suspend:
  assumes "mem_arbit s = MEMORY_TOKEN_REQUESTED" "DPREM_suspend_running_task flags s = Some (s', True)"
  shows "begin_loop hvc flags h s = Some (h, s', False)"
  using assms by (subst begin_loop.simps) simp

text \<open>
  C8: \<open>DPREM_begin_memory_phase\<close> of a task: with the token, or with an ACK of the hypervisor, it returns
  at the ceiling priority holding the token; with a NACK, or while a request of this core is already
  pending (no second hypercall then), it returns only later: the caller is suspended, the core is consistent and
  runs the next task, and the caller continues in the loop when it is resumed. Every other answer
  makes it ask again.
\<close>

theorem dprem_begin_spec:
  assumes inv: "kinv s" and c: "conts s (p_curr s) = C_NONE" and x: "p_stk_sn s = x # xs" "sn_regular s x"
    and hv: "hvc h = (h', r)"
  defines "own_token \<equiv> \<lambda>s'. s'\<lparr>mem_arbit := MEMORY_TOKEN_ACQUIRED,
      tcbs := (tcbs s)(p_curr s := (tcbs s (p_curr s))\<lparr>current_prio := MAX_TASK_PRIORITY\<rparr>)\<rparr>"
  shows "(mem_arbit s = MEMORY_TOKEN_ACQUIRED \<longrightarrow> DPREM_begin_memory_phase hvc h s = Some (h, own_token s, True))
    \<and> (mem_arbit s = MEMORY_TOKEN_NONE \<and> r = ARB_ACK \<longrightarrow> DPREM_begin_memory_phase hvc h s = Some (h', own_token s, True))
    \<and> (mem_arbit s = MEMORY_TOKEN_NONE \<and> r = ARB_NACK \<or> mem_arbit s = MEMORY_TOKEN_REQUESTED \<longrightarrow>
        (\<exists>s'. DPREM_begin_memory_phase hvc h s = Some (if mem_arbit s = MEMORY_TOKEN_NONE then h' else h, s', False)
          \<and> kinv s' \<and> mem_arbit s' = MEMORY_TOKEN_REQUESTED \<and> p_suspended_sn s' = x # p_suspended_sn s
          \<and> (p_curr s' = p_curr s \<or> conts s' (p_curr s) = C_DPREM (irq_masked s))))
    \<and> (mem_arbit s = MEMORY_TOKEN_NONE \<and> r = ARB_INVALID \<longrightarrow>
        DPREM_begin_memory_phase hvc h s = DPREM_begin_memory_phase hvc h' s)"
proof -
  let ?s = "s\<lparr>irq_masked := True\<rparr>"
  have fin: "begin_finish (irq_masked s) (g, ?s\<lparr>mem_arbit := MEMORY_TOKEN_ACQUIRED\<rparr>, True) = (g, own_token s, True)" for g
    by (cases s) (simp add: begin_finish_def own_token_def osEE_end_primitive_def upd_tcb_def)
  have unf: "DPREM_begin_memory_phase hvc g s = begin_loop hvc (irq_masked s) g ?s \<bind> (\<lambda>r. Some (begin_finish (irq_masked s) r))" for g
    by (simp add: DPREM_begin_memory_phase_def osEE_begin_primitive_def)
  have a: "mem_arbit s = MEMORY_TOKEN_ACQUIRED \<Longrightarrow> ?s\<lparr>mem_arbit := MEMORY_TOKEN_ACQUIRED\<rparr> = ?s" by (cases s) simp
  have susp: "\<exists>s'. begin_loop hvc (irq_masked s) g (?s\<lparr>mem_arbit := MEMORY_TOKEN_REQUESTED\<rparr>) = Some (g, s', False)
      \<and> kinv s' \<and> mem_arbit s' = MEMORY_TOKEN_REQUESTED \<and> p_suspended_sn s' = x # p_suspended_sn s
      \<and> (p_curr s' = p_curr s \<or> conts s' (p_curr s) = C_DPREM (irq_masked s))" for g
  proof -
    let ?u = "?s\<lparr>mem_arbit := MEMORY_TOKEN_REQUESTED\<rparr>"
    obtain s' where "DPREM_suspend_running_task (irq_masked s) ?u = Some (s', True)" "kinv s'"
      "p_suspended_sn s' = x # p_suspended_sn ?u" "mem_arbit s' = mem_arbit ?u"
      "p_curr s' = p_curr ?u \<or> conts s' (p_curr ?u) = C_DPREM (irq_masked s)"
      by (rule suspend_running_inv [of ?u x xs "irq_masked s"]) (use inv c x in simp_all)
    then show ?thesis using begin_loop_suspend [of ?u "irq_masked s" s' hvc g] by auto
  qed
  have r: "mem_arbit s = MEMORY_TOKEN_REQUESTED \<Longrightarrow> ?s\<lparr>mem_arbit := MEMORY_TOKEN_REQUESTED\<rparr> = ?s" by (cases s) simp
  have "DPREM_begin_memory_phase hvc h s = Some (h, own_token s, True)" if m: "mem_arbit s = MEMORY_TOKEN_ACQUIRED"
    using fin [of h, unfolded a [OF m]] m by (simp add: unf begin_loop_acquired)
  moreover have "mem_arbit s = MEMORY_TOKEN_NONE \<and> r = ARB_ACK \<longrightarrow> DPREM_begin_memory_phase hvc h s = Some (h', own_token s, True)"
    using fin [of h'] by (simp add: unf begin_loop_request [where hvc = hvc and h = h, OF _ hv] begin_loop_acquired)
  moreover have "mem_arbit s = MEMORY_TOKEN_NONE \<and> r = ARB_INVALID \<longrightarrow> DPREM_begin_memory_phase hvc h s = DPREM_begin_memory_phase hvc h' s"
    by (simp add: unf begin_loop_request [where hvc = hvc and h = h, OF _ hv])
  moreover have "\<exists>s'. DPREM_begin_memory_phase hvc h s = Some (if mem_arbit s = MEMORY_TOKEN_NONE then h' else h, s', False)
      \<and> kinv s' \<and> mem_arbit s' = MEMORY_TOKEN_REQUESTED \<and> p_suspended_sn s' = x # p_suspended_sn s
      \<and> (p_curr s' = p_curr s \<or> conts s' (p_curr s) = C_DPREM (irq_masked s))"
    if "mem_arbit s = MEMORY_TOKEN_NONE \<and> r = ARB_NACK \<or> mem_arbit s = MEMORY_TOKEN_REQUESTED"
  proof (cases "mem_arbit s = MEMORY_TOKEN_NONE")
    case True
    then have "begin_loop hvc (irq_masked s) h ?s = begin_loop hvc (irq_masked s) h' (?s\<lparr>mem_arbit := MEMORY_TOKEN_REQUESTED\<rparr>)"
      using that begin_loop_request [of ?s hvc h h' r "irq_masked s", OF _ hv] by auto
    then show ?thesis using True susp [of h'] by (auto simp: unf begin_finish_def)
  next
    case False
    then have m: "mem_arbit s = MEMORY_TOKEN_REQUESTED" using that by blast
    then show ?thesis using False susp [of h, unfolded r [OF m]] by (auto simp: unf begin_finish_def)
  qed
  ultimately show ?thesis by blast
qed

theorem dprem_begin_spec_witness:
  "\<exists>s'. DPREM_begin_memory_phase (\<lambda>u::unit. (u, ARB_NACK)) () demo_kern = Some ((), s', False)
     \<and> mem_arbit s' = MEMORY_TOKEN_REQUESTED \<and> p_suspended_sn s' = [0] \<and> kinv s'"
proof -
  have d: "conts demo_kern (p_curr demo_kern) = C_NONE" "p_stk_sn demo_kern = [0]" "sn_regular demo_kern 0"
    "mem_arbit demo_kern = MEMORY_TOKEN_NONE" "p_suspended_sn demo_kern = []"
    by (simp_all add: demo_kern_def is_regular_def)
  show ?thesis
    using dprem_begin_spec [OF demo_kinv d(1-3), of "\<lambda>u::unit. (u, ARB_NACK)" "()" "()" ARB_NACK] d(4,5) by auto
qed

text \<open>
  Called where nothing can be suspended (the idle task or an ISR2) while a request is pending,
  \<open>DPREM_begin_memory_phase\<close> spins for ever with interrupts masked: no STARTED interrupt can end the loop.
\<close>

theorem dprem_begin_isr_spins:
  assumes "mem_arbit s = MEMORY_TOKEN_REQUESTED" "p_stk_sn s = [] \<or> \<not> sn_regular s (hd (p_stk_sn s))"
  shows "DPREM_begin_memory_phase hvc h s = None"
proof -
  have "False" if ret: "begin_loop hvc f g s1 = Some y" and s1: "mem_arbit s1 = MEMORY_TOKEN_REQUESTED"
      "p_stk_sn s1 = [] \<or> \<not> sn_regular s1 (hd (p_stk_sn s1))" for f g s1 y
  proof -
    have "\<not> (mem_arbit s1 = MEMORY_TOKEN_REQUESTED \<and> (p_stk_sn s1 = [] \<or> \<not> sn_regular s1 (hd (p_stk_sn s1))))"
    proof (rule begin_loop.raw_induct [where P = "\<lambda>hvc f h s y. \<not> (mem_arbit s = MEMORY_TOKEN_REQUESTED \<and>
        (p_stk_sn s = [] \<or> \<not> sn_regular s (hd (p_stk_sn s))))", OF _ ret])
      fix bl :: "('a \<Rightarrow> 'a \<times> arb_result) \<Rightarrow> bool \<Rightarrow> 'a \<Rightarrow> kern \<Rightarrow> ('a \<times> kern \<times> bool) option"
      fix hvc f h s y
      assume IH: "\<And>hvc f h s y. bl hvc f h s = Some y \<Longrightarrow> \<not> (mem_arbit s = MEMORY_TOKEN_REQUESTED \<and> (p_stk_sn s = [] \<or> \<not> sn_regular s (hd (p_stk_sn s))))"
      assume b: "(if mem_arbit s = MEMORY_TOKEN_ACQUIRED then Some (h, s, True)
        else if mem_arbit s \<noteq> MEMORY_TOKEN_REQUESTED then
          (case hvc h of (h', r) \<Rightarrow>
             if r = ARB_ACK then bl hvc f h' (s\<lparr>mem_arbit := MEMORY_TOKEN_ACQUIRED\<rparr>)
             else if r = ARB_NACK then bl hvc f h' (s\<lparr>mem_arbit := MEMORY_TOKEN_REQUESTED\<rparr>)
             else bl hvc f h' s)
        else (case DPREM_suspend_running_task f s of None \<Rightarrow> None
           | Some (s', switched) \<Rightarrow> if switched then Some (h, s', False) else bl hvc f h s')) = Some y"
      show "\<not> (mem_arbit s = MEMORY_TOKEN_REQUESTED \<and> (p_stk_sn s = [] \<or> \<not> sn_regular s (hd (p_stk_sn s))))"
      proof
        assume r: "mem_arbit s = MEMORY_TOKEN_REQUESTED \<and> (p_stk_sn s = [] \<or> \<not> sn_regular s (hd (p_stk_sn s)))"
        then have "DPREM_suspend_running_task f s = Some (s, False)"
          by (cases "p_stk_sn s") (auto simp: DPREM_suspend_running_task_def)
        then have "bl hvc f h s = Some y" using b r by simp
        from IH [OF this] r show False by blast
      qed
    qed
    then show False using s1 by blast
  qed
  from this [of "irq_masked s" h "s\<lparr>irq_masked := True\<rparr>"] assms show ?thesis
    by (cases "begin_loop hvc (irq_masked s) h (s\<lparr>irq_masked := True\<rparr>)")
      (auto simp: DPREM_begin_memory_phase_def osEE_begin_primitive_def)
qed

theorem dprem_begin_isr_spins_example:
  "DPREM_begin_memory_phase (\<lambda>u::unit. (u, ARB_ACK)) () (demo_isr MEMORY_TOKEN_REQUESTED) = None"
  using dprem_begin_isr_spins [of "demo_isr MEMORY_TOKEN_REQUESTED" "\<lambda>u::unit. (u, ARB_ACK)" "()"]
  by (simp add: demo_isr_def demo_kern_def is_regular_def)

text \<open>
  The two ends of a phase: \<open>DPREM_end_memory_phase\<close> gives the token back exactly on an ACK, and leaves
  interrupts masked for the execution phase; \<open>DPREM_end_execution_phase\<close> restores the interrupt mask and the
  dispatch priority, and puts the most urgent suspended task second on the stack, behind the caller,
  which keeps the CPU whatever their priorities are. The core stays consistent.
\<close>

theorem dprem_end_spec:
  assumes inv: "kinv s" and stk: "p_stk_sn s = x # xs" and hv: "hvc h = (h', r)"
  shows "DPREM_end_memory_phase hvc h s =
      (h', s\<lparr>irq_masked := True, mem_arbit := (if r = ARB_ACK then MEMORY_TOKEN_NONE else mem_arbit s)\<rparr>, irq_masked s)
    \<and> kinv (fst (snd (DPREM_end_memory_phase hvc h s)))
    \<and> (let s' = DPREM_end_execution_phase flags s in
       kinv s' \<and> irq_masked s' = flags \<and> p_curr s' = p_curr s
       \<and> current_prio (tcbs s' (p_curr s)) = dispatch_prio (tdbs s (p_curr s))
       \<and> (if p_suspended_sn s = [] then p_stk_sn s' = x # xs
          else \<exists>y\<in>set (p_suspended_sn s). p_stk_sn s' = x # y # xs \<and> p_suspended_sn s' = remove1 y (p_suspended_sn s)
            \<and> (\<forall>z\<in>set (p_suspended_sn s). sn_prio s' z \<le> sn_prio s' y)))"
proof -
  have e: "DPREM_end_memory_phase hvc h s =
      (h', s\<lparr>irq_masked := True, mem_arbit := (if r = ARB_ACK then MEMORY_TOKEN_NONE else mem_arbit s)\<rparr>, irq_masked s)"
    using hv by (cases s) (simp add: DPREM_end_memory_phase_def osEE_begin_primitive_def)
  define s1 where "s1 = upd_tcb (p_curr s) (\<lambda>c. c\<lparr>current_prio := dispatch_prio (tdbs s (p_curr s))\<rparr>) s"
  have k1: "kinv s1" unfolding s1_def by (rule kinv_prio [OF inv])
  have f1: "p_stk_sn s1 = x # xs" "p_suspended_sn s1 = p_suspended_sn s" "p_curr s1 = p_curr s" "sn_tdb s1 = sn_tdb s"
    "current_prio (tcbs s1 (p_curr s)) = dispatch_prio (tdbs s (p_curr s))"
    using stk by (simp_all add: s1_def)
  have x2: "DPREM_end_execution_phase flags s =
      (if p_suspended_sn s \<noteq> [] then fst (DPREM_resume_highest_priority_task s1) else s1)\<lparr>irq_masked := flags\<rparr>"
    by (simp add: DPREM_end_execution_phase_def Let_def osEE_end_primitive_def s1_def)
  show ?thesis
  proof (cases "p_suspended_sn s = []")
    case True
    then show ?thesis using e inv k1 f1 by (simp add: x2)
  next
    case False
    then have "highest_priority_sn (\<lambda>_. True) (sn_prio s1) None (p_suspended_sn s1) \<noteq> None" by (simp add: highest_None f1)
    then obtain y where y: "highest_priority_sn (\<lambda>_. True) (sn_prio s1) None (p_suspended_sn s1) = Some y" by blast
    have r: "fst (DPREM_resume_highest_priority_task s1) = s1\<lparr>p_suspended_sn := remove1 y (p_suspended_sn s), p_stk_sn := x # y # xs\<rparr>"
      unfolding DPREM_resume_highest_priority_task_def y by (simp add: f1)
    have "kinv (fst (DPREM_resume_highest_priority_task s1))" by (rule resume_task_inv [OF k1]) (simp add: f1)
    moreover have "y \<in> set (p_suspended_sn s)" "\<forall>z\<in>set (p_suspended_sn s). sn_prio s1 z \<le> sn_prio s1 y"
      using highest_best [OF y] f1 by auto
    ultimately show ?thesis using False e inv f1 by (auto simp: x2 r)
  qed
qed

theorem dprem_end_spec_example:
  "p_stk_sn (DPREM_end_execution_phase False (demo_susp\<lparr>p_suspended_sn := [0]\<rparr>)) = [1, 0]"
  using dprem_end_spec [OF demo_susp_kinv, of 1 "[]" "\<lambda>u::unit. (u, ARB_ACK)" "()" "()" ARB_ACK False]
  by (auto simp: demo_susp_def demo_isr_def demo_kern_def Let_def)

subsection \<open>Operations of the client keep the kernel consistent\<close>

lemma isr_handlers_inv:
  assumes "kinv s" "in_isr s"
  shows "kinv (memory_phase_started_ISR s)" "kinv (memory_phase_ended_ISR s)"
proof -
  have ne: "p_stk_sn s \<noteq> []" and isr: "in_isr (s\<lparr>irq_masked := b, mem_arbit := m\<rparr>)" for b m
    using assms(2) by (auto simp: in_isr_def)
  have "kinv (fst (DPREM_resume_highest_priority_task_from_ISR (s\<lparr>irq_masked := True, mem_arbit := m\<rparr>)))" for m
    by (rule resume_isr_inv) (use assms ne in simp_all)
  then show "kinv (memory_phase_started_ISR s)" using assms(1)
    by (simp add: memory_phase_started_ISR_def osEE_begin_primitive_def osEE_end_primitive_def)
  have "kinv (fst (DPREM_suspend_highest_priority_active_task_from_ISR (s\<lparr>irq_masked := True, mem_arbit := m\<rparr>)))" for m
    by (rule suspend_isr_inv) (use assms isr in simp_all)
  then show "kinv (memory_phase_ended_ISR s)" using assms(1)
    by (simp add: memory_phase_ended_ISR_def osEE_begin_primitive_def osEE_end_primitive_def)
qed

lemma end_execution_inv:
  assumes "kinv s" "p_stk_sn s \<noteq> []"
  shows "kinv (DPREM_end_execution_phase flags s)"
proof -
  let ?s = "upd_tcb (p_curr s) (\<lambda>c. c\<lparr>current_prio := dispatch_prio (tdbs s (p_curr s))\<rparr>) s"
  have "kinv ?s" by (rule kinv_prio [OF assms(1)])
  then show ?thesis using resume_task_inv [of ?s] assms(2)
    by (simp add: DPREM_end_execution_phase_def Let_def osEE_end_primitive_def)
qed

text \<open>Whatever the hypervisor answers: when the loop is left, the core is consistent.\<close>

definition can_begin :: "kern \<Rightarrow> bool" where
  "can_begin s \<longleftrightarrow> kinv s \<and> conts s (p_curr s) = C_NONE \<and> (\<exists>x xs. p_stk_sn s = x # xs \<and> sn_regular s x)"

definition begun :: "'h \<times> kern \<times> bool \<Rightarrow> bool" where
  "begun r \<longleftrightarrow> (case r of (h, s, b) \<Rightarrow> kinv s \<and> (b \<longrightarrow> mem_arbit s = MEMORY_TOKEN_ACQUIRED \<and> conts s (p_curr s) = C_NONE))"

lemma can_begin_frame [simp]:
  "can_begin (s\<lparr>mem_arbit := m\<rparr>) = can_begin s" "can_begin (s\<lparr>irq_masked := i\<rparr>) = can_begin s"
  by (simp_all add: can_begin_def)

lemma can_begin_suspend:
  assumes "can_begin s"
  obtains s' where "DPREM_suspend_running_task flags s = Some (s', True)" "kinv s'"
proof -
  obtain x xs where "kinv s" "conts s (p_curr s) = C_NONE" "p_stk_sn s = x # xs" "sn_regular s x"
    using assms by (auto simp: can_begin_def)
  from suspend_running_inv [OF this] that show ?thesis by metis
qed

lemma begin_loop_inv:
  assumes r: "begin_loop hvc flags h s = Some r" and s: "can_begin s"
  shows "begun r"
proof -
  have "can_begin s \<longrightarrow> begun r"
  proof (rule begin_loop.raw_induct [where P = "\<lambda>hvc f h s y. can_begin s \<longrightarrow> begun y", OF _ r], rule impI)
    fix bl :: "('a \<Rightarrow> 'a \<times> arb_result) \<Rightarrow> bool \<Rightarrow> 'a \<Rightarrow> kern \<Rightarrow> ('a \<times> kern \<times> bool) option"
    fix hvc f h s y
    assume IH: "\<And>hvc f h s y. bl hvc f h s = Some y \<Longrightarrow> can_begin s \<longrightarrow> begun y" and c: "can_begin s"
    assume b: "(if mem_arbit s = MEMORY_TOKEN_ACQUIRED then Some (h, s, True)
      else if mem_arbit s \<noteq> MEMORY_TOKEN_REQUESTED then
        (case hvc h of (h', r) \<Rightarrow>
           if r = ARB_ACK then bl hvc f h' (s\<lparr>mem_arbit := MEMORY_TOKEN_ACQUIRED\<rparr>)
           else if r = ARB_NACK then bl hvc f h' (s\<lparr>mem_arbit := MEMORY_TOKEN_REQUESTED\<rparr>)
           else bl hvc f h' s)
      else (case DPREM_suspend_running_task f s of None \<Rightarrow> None
         | Some (s', switched) \<Rightarrow> if switched then Some (h, s', False) else bl hvc f h s')) = Some y"
    obtain s2 where s2: "DPREM_suspend_running_task f s = Some (s2, True)" "kinv s2" by (rule can_begin_suspend [OF c])
    have ih: "begun y" if "bl hvc f g u = Some y" "can_begin u" for g u using IH that by blast
    obtain g a where g: "hvc h = (g, a)" by (cases "hvc h")
    show "begun y"
    proof (cases "mem_arbit s")
      case MEMORY_TOKEN_NONE
      then have "\<exists>u. bl hvc f g u = Some y \<and> can_begin u" using b c g by (cases a) auto
      then show ?thesis using ih by blast
    qed (use b c s2 in \<open>auto simp: begun_def can_begin_def\<close>)
  qed
  then show ?thesis using s by blast
qed

lemma begin_finish_inv:
  assumes "kinv s" shows "kinv (fst (snd (begin_finish flags (h, s, b))))"
  using assms kinv_prio by (cases b) (simp_all add: begin_finish_def osEE_end_primitive_def)

end
