(* ===== verification/EeOsek.thy ===== *)
theory EeOsek
  imports EeKernel
begin

text \<open>
  The OSEK services of \<open>src/ee_files/pkg/kernel/oo/ee_oo_api_osek.c\<close> and the task creation of
  \<open>ee_oo_api_dynamic.c\<close>. The parameter \<open>chk\<close> is the configuration switch \<open>OSEE_HAS_CHECKS\<close>; service protection,
  hooks, ORTI tracing and stack monitoring are not configured, and interrupts are masked in the CPU
  (no GIC priority mask handling), so \<open>osEE_hal_prepare_ipl\<close> is the identity on the flags.

  A service returns \<open>Some (s', Some ev)\<close> when it returns \<open>ev\<close> to its caller and \<open>Some (s', None)\<close> when the
  caller lost the CPU inside the service: it ended, or it returns \<open>E_OK\<close> when \<open>resume_current\<close> has run its
  continuation. \<open>None\<close> is a dereferenced NULL.
\<close>

type_synonym service = "(kern \<times> StatusType option) option"

subsection \<open>Interrupt services\<close>

definition DisableAllInterrupts :: "kern \<Rightarrow> kern" where
  "DisableAllInterrupts s = s\<lparr>irq_masked := True, d_isr_all_cnt := 1\<rparr>"

definition EnableAllInterrupts :: "kern \<Rightarrow> kern" where
  "EnableAllInterrupts s = (if d_isr_all_cnt s > 0 then s\<lparr>d_isr_all_cnt := 0, irq_masked := False\<rparr> else s)"

text \<open>
  The kernel goes down: the idle context is restored in a started kernel. It does not return.
\<close>

definition osEE_shutdown_os :: "StatusType \<Rightarrow> kern \<Rightarrow> kern" where
  "osEE_shutdown_os Error s =
     (let s1 = s\<lparr>os_status := OSEE_KERNEL_SHUTDOWN, last_error := Error\<rparr> in
      if os_status s = OSEE_KERNEL_STARTED then osEE_scheduler_task_wrapper_restore (p_idle_task s) s1 else s1)"

definition OSEE_MAX_BYTE :: u8 where "OSEE_MAX_BYTE = - 1"

definition osEE_suspend_all_interrupts :: "kern \<Rightarrow> kern" where
  "osEE_suspend_all_interrupts s =
     (if s_isr_all_cnt s = 0
      then s\<lparr>irq_masked := True, prev_s_isr_all_status := irq_masked s, s_isr_all_cnt := s_isr_all_cnt s + 1\<rparr>
      else if s_isr_all_cnt s < OSEE_MAX_BYTE then s\<lparr>s_isr_all_cnt := s_isr_all_cnt s + 1\<rparr>
      else osEE_shutdown_os E_OS_SYS_SUSPEND_NESTING_LIMIT s)"

definition SuspendAllInterrupts :: "kern \<Rightarrow> kern" where
  "SuspendAllInterrupts s = osEE_suspend_all_interrupts s"

definition ResumeAllInterrupts :: "kern \<Rightarrow> kern" where
  "ResumeAllInterrupts s =
     (if s_isr_all_cnt s > 0 then
        let s1 = s\<lparr>s_isr_all_cnt := s_isr_all_cnt s - 1\<rparr> in
        if s_isr_all_cnt s1 = 0 then s1\<lparr>irq_masked := prev_s_isr_all_status s1\<rparr> else s1
      else s)"

definition SuspendOSInterrupts :: "kern \<Rightarrow> kern" where
  "SuspendOSInterrupts s =
     (if s_isr_os_cnt s = 0
      then s\<lparr>irq_masked := True, prev_s_isr_os_status := irq_masked s, s_isr_os_cnt := s_isr_os_cnt s + 1\<rparr>
      else if s_isr_os_cnt s < OSEE_MAX_BYTE then s\<lparr>s_isr_os_cnt := s_isr_os_cnt s + 1\<rparr>
      else osEE_shutdown_os E_OS_SYS_SUSPEND_NESTING_LIMIT s)"

definition ResumeOSInterrupts :: "kern \<Rightarrow> kern" where
  "ResumeOSInterrupts s =
     (if s_isr_os_cnt s > 0 then
        let s1 = s\<lparr>s_isr_os_cnt := s_isr_os_cnt s - 1\<rparr> in
        if s_isr_os_cnt s1 = 0 then s1\<lparr>irq_masked := prev_s_isr_os_status s1\<rparr> else s1
      else s)"

definition osEE_check_disableint :: "kern \<Rightarrow> bool" where
  "osEE_check_disableint s \<longleftrightarrow> s_isr_all_cnt s > 0 \<or> s_isr_os_cnt s > 0 \<or> d_isr_all_cnt s > 0"

subsection \<open>Start and stop\<close>

text \<open>\<open>startos_ok\<close> is the result of \<open>osEE_cpu_startos\<close>; with an idle hook the call stays in the idle task.\<close>

definition StartOS_finish :: "kern \<Rightarrow> kern \<times> StatusType option" where
  "StartOS_finish s =
     (let s1 = (if os_status s = OSEE_KERNEL_STARTING then s\<lparr>os_status := OSEE_KERNEL_STARTED\<rparr> else s) in
      if os_status s1 = OSEE_KERNEL_STARTED then
        if p_idle_hook s1 then (s1, None) else (s1\<lparr>irq_masked := False\<rparr>, Some E_OK)
      else (s1, Some E_OK))"

definition StartOS :: "bool \<Rightarrow> u8 \<Rightarrow> kern \<Rightarrow> kern \<times> StatusType option" where
  "StartOS startos_ok Mode s =
     (let (s1, flags) = osEE_begin_primitive s in
      if os_status s1 \<noteq> OSEE_KERNEL_INITIALIZED then (osEE_end_primitive flags s1, Some E_OS_ACCESS)
      else if \<not> startos_ok then (osEE_end_primitive flags s1, Some E_OS_SYS_INIT)
      else
        let s2 = upd_tcb (p_idle_task s1) (\<lambda>c. c\<lparr>status := OSEE_TASK_RUNNING, current_num_of_act := 1\<rparr>) s1 in
        StartOS_finish (s2\<lparr>p_curr := p_idle_task s1, os_status := OSEE_KERNEL_STARTING, app_mode := Mode\<rparr>))"

definition INVALID_APPMODE :: u8 where "INVALID_APPMODE = - 1"

definition GetActiveApplicationMode :: "kern \<Rightarrow> u8" where
  "GetActiveApplicationMode s =
     (if os_status s \<in> {OSEE_KERNEL_STARTING, OSEE_KERNEL_STARTED, OSEE_KERNEL_SHUTDOWN} then app_mode s else INVALID_APPMODE)"

definition ShutdownOS :: "StatusType \<Rightarrow> kern \<Rightarrow> kern \<times> StatusType option" where
  "ShutdownOS Error s =
     (let (s1, flags) = osEE_begin_primitive s in
      if os_status s1 = OSEE_KERNEL_STARTED \<or> os_status s1 = OSEE_KERNEL_STARTING
      then (osEE_shutdown_os Error s1, None)
      else (osEE_end_primitive flags s1, Some E_OS_STATE))"

subsection \<open>Tasks\<close>

text \<open>The call returns unless the caller lost the CPU; then its continuation is kept.\<close>

definition leave :: "nat \<Rightarrow> cont \<Rightarrow> bool \<Rightarrow> kern \<times> bool \<Rightarrow> kern \<times> StatusType option" where
  "leave caller k flags r =
     (case r of (s, switched) \<Rightarrow>
        if switched then (s\<lparr>conts := (conts s)(caller := k)\<rparr>, None)
        else (osEE_end_primitive flags s, Some E_OK))"

definition ActivateTask :: "nat \<Rightarrow> kern \<Rightarrow> service" where
  "ActivateTask TaskID s =
     (if \<not> TaskID < free_task_index s then Some (s, Some E_OS_ID)
      else if is_regular (task_type (tdbs s TaskID)) then
        let (s1, flags) = osEE_begin_primitive s; (s2, ev) = osEE_task_activated TaskID s1 in
        if ev = E_OK
        then osEE_scheduler_task_activated TaskID s2 \<bind> (\<lambda>r. Some (leave (p_curr s) (C_END flags) flags r))
        else Some (osEE_end_primitive flags s2, Some ev)
      else Some (s, Some E_OS_ID))"

text \<open>The interrupt counters are reset silently when service protection is not configured.\<close>

definition reset_isr_counters :: "kern \<Rightarrow> kern" where
  "reset_isr_counters s =
     (let s1 = (if s_isr_all_cnt s > 0 then s\<lparr>s_isr_all_cnt := 0, irq_masked := prev_s_isr_all_status s\<rparr> else s) in
      if d_isr_all_cnt s1 > 0 then s1\<lparr>d_isr_all_cnt := 0, irq_masked := False\<rparr> else s1)"

definition ChainTask :: "bool \<Rightarrow> nat \<Rightarrow> kern \<Rightarrow> service" where
  "ChainTask chk TaskID s =
     (if chk \<and> \<not> is_regular (task_type (tdbs s (p_curr s))) then Some (s, Some E_OS_CALLEVEL)
      else if \<not> TaskID < free_task_index s then Some (s, Some E_OS_ID)
      else if chk \<and> p_last_m (tcbs s (p_curr s)) \<noteq> None then Some (s, Some E_OS_RESOURCE)
      else if is_regular (task_type (tdbs s TaskID)) then
        let s0 = reset_isr_counters s; (s1, flags) = osEE_begin_primitive s0 in
        if TaskID = p_curr s then
          osEE_scheduler_task_end (upd_tcb TaskID (\<lambda>c. c\<lparr>status := OSEE_TASK_CHAINED\<rparr>) s1) \<bind> (\<lambda>s2. Some (s2, None))
        else
          let (s2, ev) = osEE_task_activated TaskID s1 in
          if ev = E_OK
          then osEE_scheduler_task_insert TaskID s2 \<bind> (\<lambda>(s3, _).
               osEE_scheduler_task_end s3 \<bind> (\<lambda>s4. Some (s4, None)))
          else Some (osEE_end_primitive flags s2, Some ev)
      else Some (s, Some E_OS_ID))"

definition TerminateTask :: "bool \<Rightarrow> kern \<Rightarrow> service" where
  "TerminateTask chk s =
     (if chk \<and> \<not> is_regular (task_type (tdbs s (p_curr s))) then Some (s, Some E_OS_CALLEVEL)
      else if chk \<and> p_last_m (tcbs s (p_curr s)) \<noteq> None then Some (s, Some E_OS_RESOURCE)
      else
        let s0 = reset_isr_counters s; (s1, flags) = osEE_begin_primitive s0 in
        osEE_scheduler_task_end s1 \<bind> (\<lambda>s2. Some (s2, None)))"

definition Schedule :: "bool \<Rightarrow> kern \<Rightarrow> service" where
  "Schedule chk s =
     (let cur = p_curr s in
      if chk \<and> \<not> is_regular (task_type (tdbs s cur)) then Some (s, Some E_OS_CALLEVEL)
      else if chk \<and> p_last_m (tcbs s cur) \<noteq> None then Some (s, Some E_OS_RESOURCE)
      else if current_prio (tcbs s cur) = dispatch_prio (tdbs s cur) then
        let (s1, flags) = osEE_begin_primitive s;
            s2 = upd_tcb cur (\<lambda>c. c\<lparr>current_prio := ready_prio (tdbs s cur)\<rparr>) s1;
            (s3, switched) = osEE_scheduler_task_preemption_point s2 in
        if switched then Some (leave cur (C_SCHEDULE flags) flags (s3, True))
        else Some (leave cur (C_SCHEDULE flags) flags
               (upd_tcb cur (\<lambda>c. c\<lparr>current_prio := dispatch_prio (tdbs s cur)\<rparr>) s3, False))
      else Some (s, Some E_OK))"

text \<open>The task the service reports: \<open>None\<close> is \<open>INVALID_TASK\<close>. The caller passes a pointer that is not NULL.\<close>

definition GetTaskID :: "kern \<Rightarrow> nat option" where
  "GetTaskID s =
     (case task_type (tdbs s (p_curr s)) of
        OSEE_TASK_TYPE_BASIC \<Rightarrow> Some (p_curr s)
      | OSEE_TASK_TYPE_EXTENDED \<Rightarrow> Some (p_curr s)
      | OSEE_TASK_TYPE_ISR2 \<Rightarrow>
          map_option (sn_tdb s) (find (\<lambda>x. is_regular (task_type (tdbs s (sn_tdb s x)))) (tl (p_stk_sn s)))
      | OSEE_TASK_TYPE_IDLE \<Rightarrow> None)"

definition GetTaskState :: "nat \<Rightarrow> kern \<Rightarrow> StatusType + task_status" where
  "GetTaskState TaskID s =
     (if \<not> TaskID < free_task_index s then Inl E_OS_ID
      else Inr (case status (tcbs s TaskID) of
          OSEE_TASK_SUSPENDED \<Rightarrow> OSEE_TASK_SUSPENDED
        | OSEE_TASK_READY \<Rightarrow> OSEE_TASK_READY
        | OSEE_TASK_READY_STACKED \<Rightarrow> OSEE_TASK_READY
        | OSEE_TASK_WAITING \<Rightarrow> OSEE_TASK_WAITING
        | OSEE_TASK_RUNNING \<Rightarrow> OSEE_TASK_RUNNING
        | OSEE_TASK_CHAINED \<Rightarrow> OSEE_TASK_RUNNING))"

subsection \<open>Resources\<close>

definition GetResource :: "bool \<Rightarrow> nat \<Rightarrow> kern \<Rightarrow> kern \<times> StatusType" where
  "GetResource chk ResID s =
     (if \<not> ResID < free_res_index s then (s, E_OS_ID)
      else
        let cur = p_curr s; reso_prio = m_prio (resources s ResID); cprio = current_prio (tcbs s cur);
            (s1, flags) = osEE_begin_primitive s in
        if chk \<and> (m_owner (resources s ResID) \<noteq> None \<or> ready_prio (tdbs s cur) > reso_prio)
        then (osEE_end_primitive flags s1, E_OS_ACCESS)
        else
          let s2 = (if cprio < reso_prio then upd_tcb cur (\<lambda>c. c\<lparr>current_prio := reso_prio\<rparr>) s1 else s1);
              s3 = osEE_end_primitive flags s2;
              s4 = s3\<lparr>resources := (resources s3)(ResID := (resources s3 ResID)
                     \<lparr>m_owner := Some cur, m_next := p_last_m (tcbs s3 cur), m_prev_prio := cprio\<rparr>)\<rparr> in
          (upd_tcb cur (\<lambda>c. c\<lparr>p_last_m := Some ResID\<rparr>) s4, E_OK))"

definition ReleaseResource :: "bool \<Rightarrow> nat \<Rightarrow> kern \<Rightarrow> service" where
  "ReleaseResource chk ResID s =
     (if \<not> ResID < free_res_index s then Some (s, Some E_OS_ID)
      else
        let cur = p_curr s in
        if chk \<and> (m_owner (resources s ResID) = None \<or> p_last_m (tcbs s cur) \<noteq> Some ResID)
        then Some (s, Some E_OS_NOFUNC)
        else
          let (s1, flags) = osEE_begin_primitive s in
          (case p_last_m (tcbs s1 cur) of None \<Rightarrow> None
           | Some m \<Rightarrow>
               let nxt = m_next (resources s1 m);
                   prio = (if nxt \<noteq> None then m_prev_prio (resources s1 ResID) else dispatch_prio (tdbs s1 cur));
                   s2 = upd_tcb cur (\<lambda>c. c\<lparr>p_last_m := nxt, current_prio := prio\<rparr>) s1;
                   s3 = s2\<lparr>resources := (resources s2)(ResID := (resources s2 ResID)\<lparr>m_owner := None\<rparr>)\<rparr> in
               Some (leave cur (C_END flags) flags (osEE_scheduler_task_preemption_point s3))))"

subsection \<open>Events\<close>

definition WaitEvent :: "bool \<Rightarrow> u64 \<Rightarrow> kern \<Rightarrow> service" where
  "WaitEvent chk Mask s =
     (let cur = p_curr s in
      if chk \<and> osEE_check_disableint s then Some (s, Some E_OS_DISABLEDINT)
      else if chk \<and> \<not> is_regular (task_type (tdbs s cur)) then Some (s, Some E_OS_CALLEVEL)
      else if chk \<and> p_last_m (tcbs s cur) \<noteq> None then Some (s, Some E_OS_RESOURCE)
      else if chk \<and> task_type (tdbs s cur) \<noteq> OSEE_TASK_TYPE_EXTENDED then Some (s, Some E_OS_ACCESS)
      else
        let (s1, flags) = osEE_begin_primitive s in
        if and (event_mask (tcbs s1 cur)) Mask = 0 then
          osEE_scheduler_core_pop_running (upd_tcb cur (\<lambda>c. c\<lparr>wait_mask := Mask\<rparr>) s1) \<bind> (\<lambda>(s2, x).
          let s3 = upd_tcb cur (\<lambda>c. c\<lparr>p_own_sn := Some x, status := OSEE_TASK_WAITING\<rparr>) s2;
              s4 = s3\<lparr>conts := (conts s3)(cur := C_WAIT flags)\<rparr> in
          Some (osEE_change_context_from_running cur (p_curr s4) s4, None))
        else Some (osEE_end_primitive flags s1, Some E_OK))"

definition SetEvent :: "bool \<Rightarrow> nat \<Rightarrow> u64 \<Rightarrow> kern \<Rightarrow> service" where
  "SetEvent chk TaskID Mask s =
     (if chk \<and> osEE_check_disableint s then Some (s, Some E_OS_DISABLEDINT)
      else if chk \<and> task_type (tdbs s (p_curr s)) = OSEE_TASK_TYPE_IDLE then Some (s, Some E_OS_CALLEVEL)
      else if \<not> TaskID < free_task_index s then Some (s, Some E_OS_ID)
      else
        let (s1, flags) = osEE_begin_primitive s;
            (s2, p_sn, ev) = osEE_task_event_set_mask chk TaskID Mask s1 in
        (case p_sn of
           None \<Rightarrow> Some (osEE_end_primitive flags s2, Some ev)
         | Some x \<Rightarrow>
             let (s3, preempt) = osEE_scheduler_task_unblocked x s2 in
             if preempt then Some (leave (p_curr s) (C_END flags) flags (osEE_scheduler_task_preemption_point s3))
             else Some (osEE_end_primitive flags s3, Some ev)))"

definition GetEvent :: "bool \<Rightarrow> nat \<Rightarrow> kern \<Rightarrow> StatusType + u64" where
  "GetEvent chk TaskID s =
     (if chk \<and> osEE_check_disableint s then Inl E_OS_DISABLEDINT
      else if chk \<and> task_type (tdbs s (p_curr s)) = OSEE_TASK_TYPE_IDLE then Inl E_OS_CALLEVEL
      else if \<not> TaskID < free_task_index s then Inl E_OS_ID
      else if chk \<and> task_type (tdbs s TaskID) \<noteq> OSEE_TASK_TYPE_EXTENDED then Inl E_OS_ACCESS
      else if chk \<and> status (tcbs s TaskID) = OSEE_TASK_SUSPENDED then Inl E_OS_STATE
      else Inr (event_mask (tcbs s TaskID)))"

definition ClearEvent :: "bool \<Rightarrow> u64 \<Rightarrow> kern \<Rightarrow> kern \<times> StatusType" where
  "ClearEvent chk Mask s =
     (let cur = p_curr s in
      if chk \<and> osEE_check_disableint s then (s, E_OS_DISABLEDINT)
      else if chk \<and> \<not> is_regular (task_type (tdbs s cur)) then (s, E_OS_CALLEVEL)
      else if chk \<and> task_type (tdbs s cur) \<noteq> OSEE_TASK_TYPE_EXTENDED then (s, E_OS_ACCESS)
      else
        let (s1, flags) = osEE_begin_primitive s in
        (osEE_end_primitive flags (upd_tcb cur (\<lambda>c. c\<lparr>event_mask := and (event_mask c) (not Mask)\<rparr>) s1), E_OK))"

subsection \<open>Continuations\<close>

text \<open>What is left of a service when its caller gets the CPU back.\<close>

definition resume_current :: "kern \<Rightarrow> kern" where
  "resume_current s =
     (let cur = p_curr s; s0 = s\<lparr>conts := (conts s)(cur := C_NONE)\<rparr> in
      case conts s cur of
        C_END flags \<Rightarrow> osEE_end_primitive flags s0
      | C_SCHEDULE flags \<Rightarrow>
          osEE_end_primitive flags (upd_tcb cur (\<lambda>c. c\<lparr>current_prio := dispatch_prio (tdbs s cur)\<rparr>) s0)
      | C_WAIT flags \<Rightarrow> osEE_end_primitive flags (upd_tcb cur (\<lambda>c. c\<lparr>wait_mask := 0\<rparr>) s0)
      | _ \<Rightarrow> s)"

subsection \<open>Task creation\<close>

definition OSEE_TASK_ARRAY_SIZE_ok :: "nat \<Rightarrow> kern \<Rightarrow> bool" where
  "OSEE_TASK_ARRAY_SIZE_ok array_size s \<longleftrightarrow> free_task_index s < array_size"

text \<open>
  \<open>array_size\<close> is \<open>OSEE_TASK_ARRAY_SIZE\<close>, \<open>isr2_max\<close> is \<open>OSEE_ISR2_MAX_PRIO\<close>, \<open>hdb_ok\<close> the result of
  \<open>osEE_hal_hdb_init\<close> and \<open>system_stack\<close> tells that the system stack was asked for.
\<close>

definition osEE_create_task ::
  "nat \<Rightarrow> u8 \<Rightarrow> bool \<Rightarrow> task_type \<Rightarrow> u8 \<Rightarrow> u8 \<Rightarrow> u8 \<Rightarrow> bool \<Rightarrow> kern \<Rightarrow> kern \<times> StatusType \<times> nat option" where
  "osEE_create_task array_size isr2_max hdb_ok ty rprio dprio max_act system_stack s =
     (let ready_prio' = (if ty = OSEE_TASK_TYPE_ISR2 then or (rprio - 1) OSEE_ISR2_PRIO_BIT else and rprio (not OSEE_ISR2_PRIO_BIT));
          dispatch_prio' = (if ty = OSEE_TASK_TYPE_ISR2 then or (dprio - 1) OSEE_ISR2_PRIO_BIT else and dprio (not OSEE_ISR2_PRIO_BIT)) in
      if ty = OSEE_TASK_TYPE_EXTENDED \<and> system_stack then (s, E_OS_STATE, None)
      else if \<not> OSEE_TASK_ARRAY_SIZE_ok array_size s then (s, E_OS_SYS_TASK, None)
      else if ready_prio' = 0 \<or> ready_prio' < dispatch_prio' \<or> max_act = 0 \<or> dispatch_prio' > isr2_max then (s, E_OS_VALUE, None)
      else
        let (s1, reserved) = osEE_scheduler_task_reserve_activations max_act s in
        if \<not> reserved then (s1, E_OS_SYS_ACT, None)
        else if hdb_ok then
          let tid = free_task_index s1 in
          (s1\<lparr>free_task_index := tid + 1,
              tdbs := (tdbs s1)(tid := (tdbs s1 tid)\<lparr>task_type := ty, ready_prio := ready_prio',
                  dispatch_prio := dispatch_prio', max_num_of_act := max_act\<rparr>),
              tcbs := (tcbs s1)(tid := (tcbs s1 tid)\<lparr>current_prio := ready_prio',
                  status := OSEE_TASK_SUSPENDED, current_num_of_act := 0\<rparr>)\<rparr>, E_OK, Some tid)
        else (s1, E_OS_SYS_STACK, None))"

definition CreateTask ::
  "nat \<Rightarrow> u8 \<Rightarrow> bool \<Rightarrow> task_type \<Rightarrow> u8 \<Rightarrow> u8 \<Rightarrow> u8 \<Rightarrow> bool \<Rightarrow> kern \<Rightarrow> kern \<times> StatusType \<times> nat option" where
  "CreateTask array_size isr2_max hdb_ok ty rprio dprio max_act system_stack s =
     (let (s1, flags) = osEE_begin_primitive s;
          (s2, ev, tid) = osEE_create_task array_size isr2_max hdb_ok ty rprio dprio max_act system_stack s1 in
      (osEE_end_primitive flags s2, ev, tid))"

text \<open>\<open>set_source\<close> is \<open>osEE_hal_set_isr2_source\<close> of the interrupt controller driver.\<close>

definition SetISR2Source :: "(nat \<Rightarrow> u32 \<Rightarrow> kern \<Rightarrow> kern \<times> StatusType) \<Rightarrow> nat \<Rightarrow> u32 \<Rightarrow> kern \<Rightarrow> kern \<times> StatusType" where
  "SetISR2Source set_source isr_id source_id s =
     (if isr_id \<ge> free_task_index s then (s, E_OS_ID)
      else
        let (s1, flags) = osEE_begin_primitive s; (s2, ret_val) = set_source isr_id source_id s1 in
        (osEE_end_primitive flags s2, ret_val))"

definition SetIdleHook :: "bool \<Rightarrow> kern \<Rightarrow> kern \<times> StatusType" where
  "SetIdleHook not_null s =
     (if \<not> not_null then (s, E_OS_PARAM_POINTER)
      else if os_status s \<noteq> OSEE_KERNEL_INITIALIZED then (s, E_OS_SYS_INIT)
      else (s\<lparr>p_idle_hook := True\<rparr>, E_OK))"

subsection \<open>The services keep the kernel consistent\<close>

text \<open>
  The state in which the running task, handler or idle loop calls a service: the core is consistent
  and the caller has no service of its own to finish.
\<close>

definition calls :: "kern \<Rightarrow> bool" where
  "calls s \<longleftrightarrow> kinv s \<and> conts s (p_curr s) = C_NONE"

lemma calls_dest:
  assumes "calls s"
  shows "kinv s" "conts s (p_curr s) = C_NONE" "kinv_core {#} {#} s" "krun s"
    "p_curr s < free_task_index s \<Longrightarrow> wait_mask (tcbs s (p_curr s)) = 0"
  using assms waits_ok_running [of s "p_curr s"] krun_dest(2) [of s] by (auto simp: calls_def kinv_def)

lemma calls_running:
  assumes "calls s" "p_stk_sn s \<noteq> []"
  shows "p_curr s < free_task_index s" "wait_mask (tcbs s (p_curr s)) = 0" "p_curr s = sn_tdb s (hd (p_stk_sn s))"
proof -
  obtain x xs where x: "p_stk_sn s = x # xs" using assms(2) by (cases "p_stk_sn s") auto
  show "p_curr s = sn_tdb s (hd (p_stk_sn s))" using krun_dest(1) [OF calls_dest(4) [OF assms(1)]] x by (simp add: top_task_def)
  then show "p_curr s < free_task_index s" using kinv_core_dest(4) [OF calls_dest(3) [OF assms(1)], of x] x by (simp add: live_def)
  then show "wait_mask (tcbs s (p_curr s)) = 0" by (rule calls_dest(5) [OF assms(1)])
qed

lemma kinv_soft:
  assumes "kinv s" "soft f (tcbs s t)" "status (f (tcbs s t)) = status (tcbs s t)"
    and "wait_mask (f (tcbs s t)) = wait_mask (tcbs s t) \<or> wait_mask (f (tcbs s t)) = 0"
  shows "kinv (upd_tcb t f s)"
proof -
  have "kinv_core {#} {#} (upd_tcb t f s)" by (rule kinv_core_soft) (use assms in \<open>auto simp: kinv_def\<close>)
  moreover have "top_task (upd_tcb t f s) = top_task s" by (rule top_task_cong) simp_all
  ultimately show ?thesis using assms by (auto simp: kinv_def krun_def waits_ok_def)
qed

lemma kinv_conts:
  assumes "kinv s" "t < free_task_index s \<Longrightarrow> wait_mask (tcbs s t) = 0"
  shows "kinv (s\<lparr>conts := (conts s)(t := k)\<rparr>)"
proof -
  have "top_task (s\<lparr>conts := (conts s)(t := k)\<rparr>) = top_task s" by (rule top_task_cong) simp_all
  then show ?thesis using assms by (auto simp: kinv_def krun_def waits_ok_def)
qed

lemma leave_inv:
  assumes "kinv s" "t < free_task_index s \<Longrightarrow> wait_mask (tcbs s t) = 0"
  shows "kinv (fst (leave t k flags (s, b)))"
  using assms kinv_conts by (auto simp: leave_def osEE_end_primitive_def)

lemma preemption_point_frame:
  "wait_mask (tcbs (fst (osEE_scheduler_task_preemption_point s)) u) = wait_mask (tcbs s u)"
  "free_task_index (fst (osEE_scheduler_task_preemption_point s)) = free_task_index s"
  "tdbs (fst (osEE_scheduler_task_preemption_point s)) = tdbs s"
  "mem_arbit (fst (osEE_scheduler_task_preemption_point s)) = mem_arbit s"
  "\<not> snd (osEE_scheduler_task_preemption_point s) \<Longrightarrow> fst (osEE_scheduler_task_preemption_point s) = s"
proof -
  have "(\<forall>u. wait_mask (tcbs (fst (osEE_scheduler_task_preemption_point s)) u) = wait_mask (tcbs s u)) \<and>
    free_task_index (fst (osEE_scheduler_task_preemption_point s)) = free_task_index s \<and>
    tdbs (fst (osEE_scheduler_task_preemption_point s)) = tdbs s \<and>
    mem_arbit (fst (osEE_scheduler_task_preemption_point s)) = mem_arbit s \<and>
    (\<not> snd (osEE_scheduler_task_preemption_point s) \<longrightarrow> fst (osEE_scheduler_task_preemption_point s) = s)"
  proof (cases s rule: rq_preempt_cases)
    case stay
    then show ?thesis by (simp add: osEE_scheduler_task_preemption_point_def)
  next
    case (preempt q qs)
    then show ?thesis by (simp add: osEE_scheduler_task_preemption_point_def)
  qed
  then show "wait_mask (tcbs (fst (osEE_scheduler_task_preemption_point s)) u) = wait_mask (tcbs s u)"
    "free_task_index (fst (osEE_scheduler_task_preemption_point s)) = free_task_index s"
    "tdbs (fst (osEE_scheduler_task_preemption_point s)) = tdbs s"
    "mem_arbit (fst (osEE_scheduler_task_preemption_point s)) = mem_arbit s"
    "\<not> snd (osEE_scheduler_task_preemption_point s) \<Longrightarrow> fst (osEE_scheduler_task_preemption_point s) = s"
    by blast+
qed

lemma leave_preemption_inv:
  assumes "kinv s" "t < free_task_index s \<Longrightarrow> wait_mask (tcbs s t) = 0"
  shows "kinv (fst (leave t k flags (osEE_scheduler_task_preemption_point s)))"
  using leave_inv [OF preemption_point_inv [OF assms(1)], of t k flags "snd (osEE_scheduler_task_preemption_point s)"] assms(2)
  by (simp add: preemption_point_frame)

lemma begin_end_primitive [simp]:
  "osEE_begin_primitive s = (s\<lparr>irq_masked := True\<rparr>, irq_masked s)"
  "osEE_end_primitive (irq_masked s) (s\<lparr>irq_masked := True\<rparr>) = s"
  by (simp_all add: osEE_begin_primitive_def osEE_end_primitive_def)

lemma kinv_end_primitive [simp]: "kinv (osEE_end_primitive flags s) = kinv s"
  by (simp add: osEE_end_primitive_def)

lemma rq_insert_tcbs [simp]: "tcbs (fst (osEE_scheduler_rq_insert x t s)) = tcbs s"
  by (simp add: osEE_scheduler_rq_insert_def Let_def)

lemma task_insert_rq_frame:
  assumes "osEE_scheduler_task_insert_rq t s = Some (s', b)"
  shows "current_num_of_act (tcbs s' u) = current_num_of_act (tcbs s u)" "irq_masked s' = irq_masked s"
    "tdbs s' = tdbs s"
  using assms unfolding osEE_scheduler_task_insert_rq_def
  by (auto simp: Let_def sn_alloc_def osEE_task_event_reset_mask_def upd_tcb_def osEE_scheduler_rq_insert_def split: list.splits if_splits)

lemma task_activated_cases:
  assumes "osEE_scheduler_task_activated t s = Some (s', b)"
  obtains (run) x xs where "b" "p_free_sn s = x # xs" "s' = osEE_change_context_from_running (p_curr s) t (osEE_task_event_reset_mask t
      (upd_tcb (p_curr s) (\<lambda>c. c\<lparr>status := OSEE_TASK_READY_STACKED\<rparr>) (s\<lparr>p_free_sn := xs\<rparr>)
        \<lparr>sn_tdb := (sn_tdb s)(x := t), p_stk_sn := x # p_stk_sn s, p_curr := t\<rparr>))"
  | (queue) d where "\<not> b" "osEE_scheduler_task_insert_rq t s = Some (s', d)"
proof (cases "current_prio (tcbs s (p_curr s)) < current_prio (tcbs s t)")
  case True
  then obtain x xs where "p_free_sn s = x # xs"
    using assms by (cases "p_free_sn s") (simp_all add: osEE_scheduler_task_activated_def sn_alloc_def)
  then show ?thesis using True assms run [of x xs]
    by (simp add: osEE_scheduler_task_activated_def sn_alloc_def Let_def)
next
  case False
  then show ?thesis using assms queue unfolding osEE_scheduler_task_activated_def
    by (auto simp: bind_eq_Some_conv)
qed

lemma task_activated_frame:
  assumes "osEE_scheduler_task_activated t s = Some (s', b)"
  shows "current_num_of_act (tcbs s' u) = current_num_of_act (tcbs s u)" "tdbs s' = tdbs s"
    "\<not> b \<Longrightarrow> irq_masked s' = irq_masked s"
    "b \<Longrightarrow> t \<noteq> p_curr s \<Longrightarrow> status (tcbs s' (p_curr s)) = OSEE_TASK_READY_STACKED"
proof -
  have "current_num_of_act (tcbs s' u) = current_num_of_act (tcbs s u) \<and> tdbs s' = tdbs s \<and>
    (\<not> b \<longrightarrow> irq_masked s' = irq_masked s) \<and> (b \<longrightarrow> t \<noteq> p_curr s \<longrightarrow> status (tcbs s' (p_curr s)) = OSEE_TASK_READY_STACKED)"
    using assms
  proof (cases rule: task_activated_cases)
    case (run x xs)
    then show ?thesis by (simp add: osEE_task_event_reset_mask_def)
  next
    case (queue d)
    then show ?thesis using task_insert_rq_frame [OF queue(2)] by simp
  qed
  then show "current_num_of_act (tcbs s' u) = current_num_of_act (tcbs s u)" "tdbs s' = tdbs s"
    "\<not> b \<Longrightarrow> irq_masked s' = irq_masked s"
    "b \<Longrightarrow> t \<noteq> p_curr s \<Longrightarrow> status (tcbs s' (p_curr s)) = OSEE_TASK_READY_STACKED" by blast+
qed

lemma krun_cong:
  assumes "krun s" "p_curr s' = p_curr s" "p_stk_sn s' = p_stk_sn s" "sn_tdb s' = sn_tdb s" "p_idle_task s' = p_idle_task s"
    "conts s' = conts s" "free_task_index s' = free_task_index s"
    "\<And>u. status (tcbs s' u) = status (tcbs s u)" "\<And>u. wait_mask (tcbs s' u) = wait_mask (tcbs s u)"
  shows "krun s'"
proof -
  have "top_task s' = top_task s" by (rule top_task_cong) (use assms in simp_all)
  then show ?thesis using assms by (simp add: krun_def waits_ok_def)
qed

abbreviation counted :: "nat \<Rightarrow> kern \<Rightarrow> kern" where
  "counted t s \<equiv> upd_tcb t (\<lambda>c. c\<lparr>current_num_of_act := current_num_of_act c + 1\<rparr>) (s\<lparr>irq_masked := True\<rparr>)"

lemma count_activation_inv:
  assumes "kinv s" "t < free_task_index s" "current_num_of_act (tcbs s t) < max_num_of_act (tdbs s t)"
  defines "s1 \<equiv> upd_tcb t (\<lambda>c. c\<lparr>current_num_of_act := current_num_of_act c + 1\<rparr>) s"
  shows "osEE_task_activated t s = (s1, E_OK)" "kinv_core {#} {#t#} s1" "krun s1"
proof -
  show "osEE_task_activated t s = (s1, E_OK)" using assms(3) by (simp add: osEE_task_activated_def s1_def)
  show "kinv_core {#} {#t#} s1" unfolding s1_def by (rule kinv_core_count) (use assms(1-3) in \<open>simp_all add: kinv_def\<close>)
  have "krun s" using assms(1) by (simp add: kinv_def)
  then show "krun s1" by (rule krun_cong) (simp_all add: s1_def)
qed

lemma counted_inv:
  assumes "calls s" "t < free_task_index s" "current_num_of_act (tcbs s t) < max_num_of_act (tdbs s t)"
  shows "osEE_task_activated t (s\<lparr>irq_masked := True\<rparr>) = (counted t s, E_OK)" "kinv_core {#} {#t#} (counted t s)" "krun (counted t s)"
  using count_activation_inv [of "s\<lparr>irq_masked := True\<rparr>" t] assms calls_dest(1) [OF assms(1)] by simp_all

lemma ActivateTask_inv:
  assumes c: "calls s" and t: "t < free_task_index s" "is_regular (task_type (tdbs s t))"
    and m: "current_num_of_act (tcbs s t) < max_num_of_act (tdbs s t)"
  obtains s' r where "ActivateTask t s = Some (s', r)" "kinv s'"
    "current_num_of_act (tcbs s' t) = current_num_of_act (tcbs s t) + 1"
    "current_prio (tcbs s (p_curr s)) < current_prio (tcbs s t) \<Longrightarrow> r = None \<and> p_curr s' = t \<and>
       status (tcbs s' (p_curr s)) = OSEE_TASK_READY_STACKED \<and> conts s' (p_curr s) = C_END (irq_masked s)"
    "\<not> current_prio (tcbs s (p_curr s)) < current_prio (tcbs s t) \<Longrightarrow> r = Some E_OK \<and> p_curr s' = p_curr s \<and>
       conts s' = conts s \<and> irq_masked s' = irq_masked s"
proof -
  let ?s = "counted t s"
  note i = counted_inv [OF c t(1) m]
  have t': "t < free_task_index ?s" using t by simp
  obtain s1 b where s1: "osEE_scheduler_task_activated t ?s = Some (s1, b)" "kinv s1"
    "b \<longleftrightarrow> current_prio (tcbs ?s (p_curr ?s)) < current_prio (tcbs ?s t)"
    "p_curr s1 = (if b then t else p_curr ?s)" "\<not> b \<Longrightarrow> conts s1 = conts ?s"
    "free_task_index s1 = free_task_index ?s" "wait_mask (tcbs s1 (p_curr ?s)) = wait_mask (tcbs ?s (p_curr ?s))"
    by (rule task_activated_inv [OF i(2,3) t']) blast
  define r where "r = leave (p_curr s) (C_END (irq_masked s)) (irq_masked s) (s1, b)"
  have p: "current_prio (tcbs ?s u) = current_prio (tcbs s u)" for u by simp
  have e: "ActivateTask t s = Some r" using t i(1) s1(1) by (simp add: ActivateTask_def r_def)
  have k: "kinv (fst r)" unfolding r_def by (rule leave_inv [OF s1(2)]) (use s1(6,7) calls_dest(5) [OF c] in auto)
  have f: "current_num_of_act (tcbs (fst r) t) = current_num_of_act (tcbs s t) + 1"
    using task_activated_frame(1) [OF s1(1), of t] by (auto simp: r_def leave_def osEE_end_primitive_def)
  have g: "t \<noteq> p_curr s" if "b" using that s1(3) by auto
  show ?thesis
  proof (rule that [of "fst r" "snd r"])
    assume "current_prio (tcbs s (p_curr s)) < current_prio (tcbs s t)"
    then have b: b using s1(3) unfolding p by simp
    show "snd r = None \<and> p_curr (fst r) = t \<and>
       status (tcbs (fst r) (p_curr s)) = OSEE_TASK_READY_STACKED \<and> conts (fst r) (p_curr s) = C_END (irq_masked s)"
      using b s1(4) task_activated_frame(4) [OF s1(1)] g by (simp add: r_def leave_def)
  next
    assume "\<not> current_prio (tcbs s (p_curr s)) < current_prio (tcbs s t)"
    then have b: "\<not> b" using s1(3) unfolding p by simp
    show "snd r = Some E_OK \<and> p_curr (fst r) = p_curr s \<and> conts (fst r) = conts s \<and> irq_masked (fst r) = irq_masked s"
      using b s1(4,5) by (simp add: r_def leave_def osEE_end_primitive_def)
  qed (use e k f in simp_all)
qed

lemma reset_isr_counters_frame [simp]:
  "kinv (reset_isr_counters s) = kinv s" "p_curr (reset_isr_counters s) = p_curr s" "p_stk_sn (reset_isr_counters s) = p_stk_sn s"
  "tcbs (reset_isr_counters s) = tcbs s" "tdbs (reset_isr_counters s) = tdbs s" "conts (reset_isr_counters s) = conts s"
  "free_task_index (reset_isr_counters s) = free_task_index s"
  by (simp_all add: reset_isr_counters_def Let_def)

lemma TerminateTask_inv:
  assumes c: "calls s" and x: "p_stk_sn s \<noteq> []" and ok: "chk \<Longrightarrow> is_regular (task_type (tdbs s (p_curr s))) \<and> p_last_m (tcbs s (p_curr s)) = None"
  obtains s' where "TerminateTask chk s = Some (s', None)" "kinv s'"
    "\<And>u. current_num_of_act (tcbs s' u) = current_num_of_act (tcbs s u) - (if u = p_curr s then 1 else 0)"
proof -
  let ?s = "reset_isr_counters s\<lparr>irq_masked := True\<rparr>"
  have k: "kinv ?s" "p_stk_sn ?s \<noteq> []" "wait_mask (tcbs ?s (p_curr ?s)) = 0"
    using calls_dest(1) [OF c] calls_running [OF c x] x by simp_all
  obtain s' where s': "osEE_scheduler_task_end (upd_tcb (p_curr ?s) id ?s) = Some s'" "kinv s'"
    "\<And>u. current_num_of_act (tcbs s' u) = current_num_of_act (tcbs ?s u) - (if u = p_curr ?s \<and> id = (id :: tcb \<Rightarrow> tcb) then 1 else 0)"
    by (rule scheduler_task_end_inv [OF k, of id]) auto
  have "upd_tcb (p_curr ?s) id ?s = ?s" by (rule upd_tcb_id) simp
  then show ?thesis using s' ok that [of s'] by (auto simp: TerminateTask_def Let_def)
qed

lemma ChainTask_inv:
  assumes c: "calls s" and x: "p_stk_sn s \<noteq> []" and ok: "chk \<Longrightarrow> is_regular (task_type (tdbs s (p_curr s))) \<and> p_last_m (tcbs s (p_curr s)) = None"
    and t: "t < free_task_index s" "is_regular (task_type (tdbs s t))"
    and m: "t = p_curr s \<or> current_num_of_act (tcbs s t) < max_num_of_act (tdbs s t)"
  obtains s' where "ChainTask chk t s = Some (s', None)" "kinv s'"
    "t = p_curr s \<Longrightarrow> current_num_of_act (tcbs s' t) = current_num_of_act (tcbs s t)"
    "t \<noteq> p_curr s \<Longrightarrow> current_num_of_act (tcbs s' t) = current_num_of_act (tcbs s t) + 1 \<and>
       current_num_of_act (tcbs s' (p_curr s)) = current_num_of_act (tcbs s (p_curr s)) - 1"
proof -
  let ?r = "reset_isr_counters s" let ?s = "?r\<lparr>irq_masked := True\<rparr>"
  have c': "calls ?r" using c by (simp add: calls_def)
  show ?thesis
  proof (cases "t = p_curr s")
    case True
    have k: "kinv ?s" "p_stk_sn ?s \<noteq> []" "wait_mask (tcbs ?s (p_curr ?s)) = 0"
      using calls_dest(1) [OF c] calls_running [OF c x] x by simp_all
    define f :: "tcb \<Rightarrow> tcb" where "f = (\<lambda>c. c\<lparr>status := OSEE_TASK_CHAINED\<rparr>)"
    have "status (f (tcbs s t)) \<noteq> status (id (tcbs s t))" using krun_dest(3) [OF calls_dest(4) [OF c]] True by (simp add: f_def)
    then have ne: "f \<noteq> id" by metis
    obtain s' where s': "osEE_scheduler_task_end (upd_tcb (p_curr ?s) f ?s) = Some s'" "kinv s'"
      "\<And>u. current_num_of_act (tcbs s' u) = current_num_of_act (tcbs ?s u) - (if u = p_curr ?s \<and> f = id then 1 else 0)"
      by (rule scheduler_task_end_inv [OF k, of f]) (auto simp: f_def)
    have "ChainTask chk t s = Some (s', None)" using s'(1) ok t True by (auto simp: ChainTask_def Let_def f_def)
    then show ?thesis by (rule that) (use True s'(2,3) ne in simp_all)
  next
    case False
    then have m': "current_num_of_act (tcbs ?r t) < max_num_of_act (tdbs ?r t)" and t': "t < free_task_index (counted t ?r)"
      using m t by simp_all
    note i = counted_inv [OF c' _ m', unfolded reset_isr_counters_frame, OF t(1)]
    obtain s1 b where s1: "osEE_scheduler_task_insert_rq t (counted t ?r) = Some (s1, b)" "kinv s1"
      "p_curr s1 = p_curr (counted t ?r)" "p_stk_sn s1 = p_stk_sn (counted t ?r)" "\<And>u. wait_mask (tcbs s1 u) = wait_mask (tcbs (counted t ?r) u)"
      by (rule task_insert_inv [OF i(2,3) t']) blast
    have k: "p_stk_sn s1 \<noteq> []" "wait_mask (tcbs s1 (p_curr s1)) = 0" using calls_running [OF c x] x s1(3-5) by auto
    obtain s' where s': "osEE_scheduler_task_end (upd_tcb (p_curr s1) id s1) = Some s'" "kinv s'"
      "\<And>u. current_num_of_act (tcbs s' u) = current_num_of_act (tcbs s1 u) - (if u = p_curr s1 \<and> id = (id :: tcb \<Rightarrow> tcb) then 1 else 0)"
      by (rule scheduler_task_end_inv [OF s1(2) k, of id]) auto
    have "upd_tcb (p_curr s1) id s1 = s1" by (rule upd_tcb_id) simp
    then have "ChainTask chk t s = Some (s', None)"
      using ok t False i(1) s1(1) s'(1) by (auto simp: ChainTask_def Let_def osEE_scheduler_task_insert_def)
    then show ?thesis
      by (rule that) (use False s'(2,3) s1(3) task_insert_rq_frame(1) [OF s1(1)] in auto)
  qed
qed
lemma Schedule_inv:
  assumes c: "calls s"
  obtains s' r where "Schedule chk s = Some (s', r)" "kinv s'"
proof -
  let ?c = "p_curr s"
  let ?s2 = "upd_tcb ?c (\<lambda>c. c\<lparr>current_prio := ready_prio (tdbs s ?c)\<rparr>) (s\<lparr>irq_masked := True\<rparr>)"
  let ?p = "osEE_scheduler_task_preemption_point ?s2"
  have k: "kinv ?s2" by (rule kinv_prio) (use calls_dest(1) [OF c] in simp)
  have w: "?c < free_task_index ?s2 \<Longrightarrow> wait_mask (tcbs ?s2 ?c) = 0" using calls_dest(5) [OF c] by simp
  have k3: "kinv (fst ?p)" by (rule preemption_point_inv [OF k])
  have "\<exists>s' r. Schedule chk s = Some (s', r) \<and> kinv s'"
  proof (cases "snd ?p")
    case True
    have "kinv (fst (leave ?c (C_SCHEDULE (irq_masked s)) (irq_masked s) (fst ?p, True)))"
      by (rule leave_inv [OF k3]) (use w in \<open>simp add: preemption_point_frame\<close>)
    moreover have "Schedule chk s \<in> {Some (s, Some E_OS_CALLEVEL), Some (s, Some E_OS_RESOURCE), Some (s, Some E_OK),
        Some (leave ?c (C_SCHEDULE (irq_masked s)) (irq_masked s) (fst ?p, True))}"
      using True by (simp add: Schedule_def Let_def case_prod_beta)
    ultimately show ?thesis using calls_dest(1) [OF c] by (auto simp: leave_def)
  next
    case False
    then have e: "fst ?p = ?s2" by (rule preemption_point_frame(5))
    have "kinv (upd_tcb ?c (\<lambda>c. c\<lparr>current_prio := dispatch_prio (tdbs s ?c)\<rparr>) ?s2)" by (rule kinv_prio [OF k])
    then show ?thesis using calls_dest(1) [OF c] False by (simp add: Schedule_def Let_def case_prod_beta e leave_def)
  qed
  then show ?thesis using that by blast
qed

lemma kinv_lock:
  assumes "kinv s"
  shows "kinv (upd_tcb t (\<lambda>c. c\<lparr>p_last_m := m\<rparr>) s)" "kinv (upd_tcb t (\<lambda>c. c\<lparr>event_mask := e c\<rparr>) s)"
    "kinv (upd_tcb t (\<lambda>c. c\<lparr>p_last_m := m, current_prio := p\<rparr>) s)"
  by (rule kinv_soft [OF assms]; simp add: soft_def)+

lemma GetResource_inv: "kinv s \<Longrightarrow> kinv (fst (GetResource chk m s))"
  unfolding GetResource_def by (simp add: Let_def kinv_lock kinv_prio osEE_end_primitive_def)

lemma ReleaseResource_inv:
  assumes c: "calls s" and m: "\<not> chk \<Longrightarrow> p_last_m (tcbs s (p_curr s)) \<noteq> None"
  obtains s' r where "ReleaseResource chk m s = Some (s', r)" "kinv s'"
proof (cases "m < free_res_index s \<and> p_last_m (tcbs s (p_curr s)) \<noteq> None")
  case True
  then obtain l where l: "p_last_m (tcbs s (p_curr s)) = Some l" by blast
  let ?c = "p_curr s" and ?n = "m_next (resources s l)"
  let ?p = "if ?n \<noteq> None then m_prev_prio (resources s m) else dispatch_prio (tdbs s ?c)"
  let ?s2 = "upd_tcb ?c (\<lambda>c. c\<lparr>p_last_m := ?n, current_prio := ?p\<rparr>) (s\<lparr>irq_masked := True\<rparr>)"
  let ?s3 = "?s2\<lparr>resources := (resources ?s2)(m := (resources ?s2 m)\<lparr>m_owner := None\<rparr>)\<rparr>"
  let ?l = "leave ?c (C_END (irq_masked s)) (irq_masked s) (osEE_scheduler_task_preemption_point ?s3)"
  have k: "kinv ?s3" using kinv_lock(3) [of "s\<lparr>irq_masked := True\<rparr>"] calls_dest(1) [OF c] by simp
  have "kinv (fst ?l)" by (rule leave_preemption_inv [OF k]) (use calls_dest(5) [OF c] in simp)
  moreover have "ReleaseResource chk m s = Some ?l \<or> ReleaseResource chk m s = Some (s, Some E_OS_NOFUNC)"
    using True l by (simp add: ReleaseResource_def Let_def)
  ultimately show ?thesis using that calls_dest(1) [OF c] by (metis prod.collapse)
next
  case False
  then have "ReleaseResource chk m s = Some (s, Some E_OS_ID) \<or> ReleaseResource chk m s = Some (s, Some E_OS_NOFUNC)"
    using m by (cases chk) (simp_all add: ReleaseResource_def Let_def)
  then show ?thesis using that calls_dest(1) [OF c] by blast
qed

lemma ClearEvent_inv: "kinv s \<Longrightarrow> kinv (fst (ClearEvent chk Mask s))"
  unfolding ClearEvent_def by (simp add: Let_def kinv_lock)

lemma WaitEvent_blocks:
  assumes c: "calls s" and x: "p_stk_sn s = x # xs" and ext: "task_type (tdbs s (p_curr s)) = OSEE_TASK_TYPE_EXTENDED"
    and ok: "chk \<Longrightarrow> \<not> osEE_check_disableint s \<and> p_last_m (tcbs s (p_curr s)) = None"
    and e: "and (event_mask (tcbs s (p_curr s))) Mask = 0"
  obtains s' where "WaitEvent chk Mask s = Some (s', None)" "kinv s'" "p_curr s' \<noteq> p_curr s"
    "status (tcbs s' (p_curr s)) = OSEE_TASK_WAITING" "p_own_sn (tcbs s' (p_curr s)) = Some x"
    "conts s' (p_curr s) = C_WAIT (irq_masked s)"
proof -
  let ?s = "s\<lparr>irq_masked := True\<rparr>" and ?t = "p_curr s"
  have k: "kinv ?s" "p_stk_sn ?s = x # xs" "task_type (tdbs ?s (p_curr ?s)) = OSEE_TASK_TYPE_EXTENDED"
    using calls_dest(1) [OF c] x ext by simp_all
  obtain s1 where s1: "osEE_scheduler_core_pop_running (upd_tcb (p_curr ?s) (wm Mask) ?s) = Some (s1, x)"
    "ksched (upd_tcb (p_curr ?s) (\<lambda>c. c\<lparr>p_own_sn := Some x, status := OSEE_TASK_WAITING\<rparr>) s1
       \<lparr>conts := (conts ?s)(p_curr ?s := C_WAIT (irq_masked s))\<rparr>)"
    "p_curr s1 \<noteq> p_curr ?s" "conts s1 = conts ?s"
    by (rule block_inv [OF k]) blast
  let ?s4 = "upd_tcb ?t (\<lambda>c. c\<lparr>p_own_sn := Some x, status := OSEE_TASK_WAITING\<rparr>) s1\<lparr>conts := (conts s)(?t := C_WAIT (irq_masked s))\<rparr>"
  define s' where "s' = osEE_change_context_from_running ?t (p_curr ?s4) ?s4"
  have "kinv s'" unfolding s'_def by (rule change_context_kinv) (use s1(2) in simp)
  moreover have "WaitEvent chk Mask s = Some (s', None)"
    using s1(1,4) ok e ext by (auto simp: WaitEvent_def Let_def s'_def is_regular_def)
  ultimately show ?thesis using that [of s'] s1(3) by (simp add: s'_def)
qed

lemma WaitEvent_inv:
  assumes c: "calls s" and x: "p_stk_sn s \<noteq> []" and ext: "chk \<or> task_type (tdbs s (p_curr s)) = OSEE_TASK_TYPE_EXTENDED"
  obtains s' r where "WaitEvent chk Mask s = Some (s', r)" "kinv s'"
proof (cases "task_type (tdbs s (p_curr s)) = OSEE_TASK_TYPE_EXTENDED \<and> (chk \<longrightarrow> \<not> osEE_check_disableint s \<and> p_last_m (tcbs s (p_curr s)) = None)
    \<and> and (event_mask (tcbs s (p_curr s))) Mask = 0")
  case True
  obtain y ys where "p_stk_sn s = y # ys" using x by (cases "p_stk_sn s") auto
  from WaitEvent_blocks [OF c this] True that show ?thesis by metis
next
  case False
  then have "WaitEvent chk Mask s \<in> {Some (s, Some E_OS_DISABLEDINT), Some (s, Some E_OS_CALLEVEL), Some (s, Some E_OS_RESOURCE),
      Some (s, Some E_OS_ACCESS), Some (s, Some E_OK)}"
    using ext by (auto simp: WaitEvent_def Let_def)
  then show ?thesis using that calls_dest(1) [OF c] by blast
qed

lemma rq_insert_same:
  assumes "sn_tdb s x = t"
  shows "osEE_scheduler_rq_insert x t s =
    (s\<lparr>rq := sn_insert (ready_key s) x (rq s)\<rparr>, takeWhile (\<lambda>y. ready_key s x \<le> ready_key s y) (rq s) = [])"
proof -
  have "s\<lparr>sn_tdb := (sn_tdb s)(x := t)\<rparr> = s" using assms by (cases s) (auto simp: fun_upd_idem)
  then show ?thesis by (simp add: osEE_scheduler_rq_insert_def Let_def)
qed

lemma unblocked_eq:
  assumes "sn_tdb s x = t" "t \<noteq> p_curr s" "prio_sorted (ready_key s) (rq s)"
  shows "osEE_scheduler_task_unblocked x s =
    (upd_tcb t (\<lambda>c. c\<lparr>status := OSEE_TASK_READY_STACKED, current_prio := ready_prio (tdbs s t)\<rparr>) s
       \<lparr>rq := sn_insert (ready_key s) x (rq s)\<rparr>,
     current_prio (tcbs s (p_curr s)) < ready_prio (tdbs s t) \<and> (\<forall>y\<in>set (rq s). ready_key s y < ready_key s x))"
proof -
  have "takeWhile (\<lambda>y. ready_key s x \<le> ready_key s y) (rq s) = [] \<longleftrightarrow> (\<forall>y\<in>set (rq s). ready_key s y < ready_key s x)"
    using assms(3) by (cases "rq s") (auto simp: not_le intro: le_less_trans)
  then show ?thesis using assms(1,2) by (auto simp: osEE_scheduler_task_unblocked_def rq_insert_same)
qed

lemma sn_insert_first: "\<forall>y\<in>set ys. k y < k x \<Longrightarrow> sn_insert k x ys = x # ys"
  by (cases ys) (auto simp: sn_insert_def)

text \<open>A wake-up of a task that waits: its node goes to the ready queue, and the task runs at once if it is the most urgent.\<close>

lemma SetEvent_wakes:
  assumes c: "calls s" and t: "t < free_task_index s" "status (tcbs s t) = OSEE_TASK_WAITING"
    and ok: "chk \<Longrightarrow> \<not> osEE_check_disableint s \<and> task_type (tdbs s (p_curr s)) \<noteq> OSEE_TASK_TYPE_IDLE"
    and e: "and (wait_mask (tcbs s t)) Mask \<noteq> 0"
  obtains s' r x where "SetEvent chk t Mask s = Some (s', r)" "kinv s'" "p_own_sn (tcbs s t) = Some x" "sn_tdb s x = t"
    "event_mask (tcbs s' t) = or (event_mask (tcbs s t)) Mask"
    "r = None \<and> p_curr s' = t \<and> conts s' (p_curr s) = C_END (irq_masked s) \<and> p_stk_sn s' = x # p_stk_sn s \<and> rq s' = rq s \<or>
     r = Some E_OK \<and> p_curr s' = p_curr s \<and> status (tcbs s' t) = OSEE_TASK_READY_STACKED \<and> x \<in> set (rq s')"
    "r = None \<longleftrightarrow> current_prio (tcbs s (p_curr s)) < ready_prio (tdbs s t) \<and> (\<forall>y\<in>set (rq s). ready_key s y < unat (ready_prio (tdbs s t)))"
proof -
  have k: "kinv_core {#} {#} s" and r: "krun s" by (rule calls_dest [OF c])+
  obtain x where x: "p_own_sn (tcbs s t) = Some x" "sn_tdb s x = t" using kinv_core_task(5) [OF k t] by blast
  have ext: "task_type (tdbs s t) = OSEE_TASK_TYPE_EXTENDED" by (rule kinv_core_task(4) [OF k t])
  have ne: "t \<noteq> p_curr s" using t(2) krun_dest(3) [OF r] by auto
  let ?m = "or (event_mask (tcbs s t)) Mask"
  define s1 where "s1 = upd_tcb t (\<lambda>c. c\<lparr>event_mask := ?m, p_own_sn := None\<rparr>) (s\<lparr>irq_masked := True\<rparr>)"
  have m: "osEE_task_event_set_mask chk t Mask (s\<lparr>irq_masked := True\<rparr>) = (s1, Some x, E_OK)"
    using ext t(2) e x(1) by (simp add: osEE_task_event_set_mask_def Let_def s1_def upd_tcb_def)
  have srt: "prio_sorted (ready_key s) (rq s)" by (rule kinv_core_dest(2) [OF k])
  define b where "b \<longleftrightarrow> current_prio (tcbs s (p_curr s)) < ready_prio (tdbs s t) \<and> (\<forall>y\<in>set (rq s). ready_key s y < ready_key s x)"
  define s3 where "s3 = upd_tcb t (\<lambda>c. c\<lparr>status := OSEE_TASK_READY_STACKED, current_prio := ready_prio (tdbs s t)\<rparr>) s1
       \<lparr>rq := sn_insert (ready_key s) x (rq s)\<rparr>"
  have u: "osEE_scheduler_task_unblocked x s1 = (s3, b)"
    by (subst unblocked_eq [where t = t]) (use x(2) ne srt in \<open>simp_all add: s1_def s3_def b_def\<close>)
  have "kinv (fst (osEE_scheduler_task_unblocked x s1))"
    by (rule wakeup_inv [where t = t and m = ?m and s = "s\<lparr>irq_masked := True\<rparr>"]) (use calls_dest(1) [OF c] t x s1_def in simp_all)
  then have k3: "kinv s3" by (simp add: u)
  have f3: "rq s3 = sn_insert (ready_key s) x (rq s)" "p_stk_sn s3 = p_stk_sn s" "p_curr s3 = p_curr s" "sn_tdb s3 = sn_tdb s"
    "tdbs s3 = tdbs s" "conts s3 = conts s" "p_idle_task s3 = p_idle_task s" "free_task_index s3 = free_task_index s"
    "tcbs s3 = (tcbs s)(t := (tcbs s t)\<lparr>event_mask := ?m, p_own_sn := None, status := OSEE_TASK_READY_STACKED, current_prio := ready_prio (tdbs s t)\<rparr>)"
    by (simp_all add: s3_def s1_def)
  note bb = b_def [unfolded x(2)]
  define pp where "pp = osEE_scheduler_task_preemption_point s3"
  have ev: "SetEvent chk t Mask s = Some (if b then leave (p_curr s) (C_END (irq_masked s)) (irq_masked s) pp
      else (osEE_end_primitive (irq_masked s) s3, Some E_OK))"
    using ok t(1) m by (auto simp: SetEvent_def Let_def case_prod_beta pp_def u)
  show ?thesis
  proof (cases b)
    case False
    have "x \<in> set (rq s3)" by (simp add: f3 sn_insert_def)
    then show ?thesis using False ev k3 x bb
      by (intro that [of "osEE_end_primitive (irq_masked s) s3" "Some E_OK" x]) (auto simp: osEE_end_primitive_def f3)
  next
    case True
    then have "rq s3 = x # rq s" by (simp add: f3 b_def sn_insert_first)
    have tt: "top_task s3 = p_curr s" using krun_dest(1) [OF r] top_task_cong [of s3 s] f3 by simp
    obtain s4 where s4: "pp = (s4, True)" "p_curr s4 = t" "p_stk_sn s4 = x # p_stk_sn s" "rq s4 = rq s" "conts s4 = conts s"
      "event_mask (tcbs s4 t) = ?m"
    proof (cases s3 rule: rq_preempt_cases)
      case stay
      then show ?thesis using \<open>rq s3 = x # rq s\<close> True bb tt ne x(2) by (auto simp: f3)
    next
      case (preempt q qs)
      then have q: "q = x" "qs = rq s" using \<open>rq s3 = x # rq s\<close> by simp_all
      show ?thesis
        by (rule that [of "fst pp"])
          (use x(2) ne in \<open>simp_all add: pp_def osEE_scheduler_task_preemption_point_def preempt(2) q f3 tt prod_eq_iff\<close>)
    qed
    have w: "wait_mask (tcbs s3 (p_curr s)) = 0" if "p_curr s < free_task_index s3"
      using calls_dest(5) [OF c] ne that by (simp add: f3)
    have "kinv (fst (leave (p_curr s) (C_END (irq_masked s)) (irq_masked s) pp))"
      unfolding pp_def by (rule leave_preemption_inv [OF k3 w])
    then show ?thesis using True ev x bb s4
      by (intro that [of "fst (leave (p_curr s) (C_END (irq_masked s)) (irq_masked s) pp)" None x]) (auto simp: leave_def)
  qed
qed

text \<open>Setting events, and waking the task when it waits for one of them.\<close>

lemma event_set_mask_inv:
  assumes k: "kinv s" and t: "t < free_task_index s" and e: "osEE_task_event_set_mask chk t Mask s = (s2, p, ev)"
  shows "p = None \<Longrightarrow> kinv s2" "p = Some x \<Longrightarrow> kinv (fst (osEE_scheduler_task_unblocked x s2))"
    "p_curr s2 = p_curr s" "p_stk_sn s2 = p_stk_sn s" "conts s2 = conts s" "free_task_index s2 = free_task_index s" "tdbs s2 = tdbs s"
proof -
  let ?o = "\<lambda>c. c\<lparr>event_mask := or (event_mask c) Mask\<rparr>"
  let ?f = "\<lambda>c. c\<lparr>event_mask := or (event_mask c) Mask, p_own_sn := None\<rparr>"
  have k1: "kinv (upd_tcb t ?o s)" by (rule kinv_soft [OF k]) (simp_all add: soft_def)
  have c: "(s2 = s \<or> s2 = upd_tcb t ?o s) \<and> p = None \<or>
      s2 = upd_tcb t ?f s \<and> p = p_own_sn (tcbs s t) \<and> and (wait_mask (tcbs s t)) Mask \<noteq> 0"
    using e by (auto simp: osEE_task_event_set_mask_def Let_def upd_tcb_def split: if_splits)
  then show "p_curr s2 = p_curr s" "p_stk_sn s2 = p_stk_sn s" "conts s2 = conts s" "free_task_index s2 = free_task_index s" "tdbs s2 = tdbs s"
    by auto
  show "kinv s2" if "p = None"
  proof (cases "p_own_sn (tcbs s t) = None")
    case True
    have "kinv (upd_tcb t ?f s)" by (rule kinv_soft [OF k]) (use True in \<open>simp_all add: soft_def wait_ok_def\<close>)
    then show ?thesis using c k k1 by auto
  next
    case False
    then show ?thesis using c k k1 that by auto
  qed
  show "kinv (fst (osEE_scheduler_task_unblocked x s2))" if "p = Some x"
  proof -
    have w: "s2 = upd_tcb t ?f s" "p_own_sn (tcbs s t) = Some x" "and (wait_mask (tcbs s t)) Mask \<noteq> 0" using c that by auto
    have "kinv_core {#} {#} s" using k by (simp add: kinv_def)
    from kinv_core_task(7) [OF this t] have "status (tcbs s t) = OSEE_TASK_WAITING" using w(2,3) by (auto simp: wait_ok_def)
    then show ?thesis
      by (intro wakeup_inv [OF k t _ w(2), of _ "or (event_mask (tcbs s t)) Mask"]) (simp_all add: w(1) upd_tcb_def)
  qed
qed

lemma SetEvent_inv:
  assumes c: "calls s"
  obtains s' r where "SetEvent chk t Mask s = Some (s', r)" "kinv s'"
proof (cases "chk \<and> (osEE_check_disableint s \<or> task_type (tdbs s (p_curr s)) = OSEE_TASK_TYPE_IDLE) \<or> \<not> t < free_task_index s")
  case True
  then have "SetEvent chk t Mask s \<in> {Some (s, Some E_OS_DISABLEDINT), Some (s, Some E_OS_CALLEVEL), Some (s, Some E_OS_ID)}"
    by (auto simp: SetEvent_def)
  then show ?thesis using that calls_dest(1) [OF c] by blast
next
  case False
  then have t: "t < free_task_index s" by blast
  let ?s = "s\<lparr>irq_masked := True\<rparr>"
  obtain s2 p ev where e: "osEE_task_event_set_mask chk t Mask ?s = (s2, p, ev)" by (metis prod_cases3)
  show ?thesis
  proof (cases p)
    case None
    have "kinv s2" by (rule event_set_mask_inv(1) [OF _ _ e None]) (use calls_dest(1) [OF c] t in simp_all)
    moreover have "SetEvent chk t Mask s = Some (osEE_end_primitive (irq_masked s) s2, Some ev)"
      using False e None by (auto simp: SetEvent_def Let_def)
    ultimately show ?thesis using that [of "osEE_end_primitive (irq_masked s) s2"] by simp
  next
    case (Some x)
    then have w: "and (wait_mask (tcbs s t)) Mask \<noteq> 0" "p_own_sn (tcbs s t) = Some x"
      using e by (auto simp: osEE_task_event_set_mask_def Let_def split: if_splits)
    then have "status (tcbs s t) = OSEE_TASK_WAITING"
      using kinv_core_task(7) [OF calls_dest(3) [OF c] t] by (auto simp: wait_ok_def)
    from SetEvent_wakes [OF c t this _ w(1), of chk] False that show ?thesis by metis
  qed
qed

lemma resume_current_inv:
  assumes "kinv s"
  shows "kinv (resume_current s)" "p_curr (resume_current s) = p_curr s"
    "(\<forall>b. conts s (p_curr s) \<noteq> C_DPREM b) \<Longrightarrow> calls (resume_current s)"
proof -
  let ?c = "p_curr s"
  have w: "waits_ok s" using assms by (simp add: kinv_def krun_def)
  have z: "wait_mask (tcbs s ?c) = 0" if "?c < free_task_index s" "\<forall>b. conts s ?c \<noteq> C_WAIT b"
    using w that by (auto simp: waits_ok_def)
  have k1: "kinv (s\<lparr>conts := (conts s)(?c := C_NONE)\<rparr>)" if "\<forall>b. conts s ?c \<noteq> C_WAIT b"
    by (rule kinv_conts [OF assms]) (use z that in blast)
  have "kinv (upd_tcb ?c (wm 0) s)" by (rule kinv_soft [OF assms]) (simp_all add: soft_def wait_ok_def)
  from kinv_conts [OF this, of ?c C_NONE] have k2: "kinv (upd_tcb ?c (wm 0) (s\<lparr>conts := (conts s)(?c := C_NONE)\<rparr>))"
    by (simp add: upd_tcb_queues)
  show "kinv (resume_current s)"
    using assms k1 k2 kinv_prio [OF k1] by (simp add: resume_current_def Let_def split: cont.split)
  show "p_curr (resume_current s) = ?c"
    by (simp add: resume_current_def Let_def osEE_end_primitive_def split: cont.split)
  then show "(\<forall>b. conts s ?c \<noteq> C_DPREM b) \<Longrightarrow> calls (resume_current s)"
    using \<open>kinv (resume_current s)\<close>
    by (simp add: calls_def resume_current_def Let_def osEE_end_primitive_def split: cont.splits)
qed

lemma interrupt_services_inv:
  assumes "kinv s"
  shows "kinv (DisableAllInterrupts s)" "kinv (EnableAllInterrupts s)"
    "kinv (ResumeAllInterrupts s)" "kinv (ResumeOSInterrupts s)"
    "s_isr_all_cnt s < OSEE_MAX_BYTE \<Longrightarrow> kinv (SuspendAllInterrupts s)"
    "s_isr_os_cnt s < OSEE_MAX_BYTE \<Longrightarrow> kinv (SuspendOSInterrupts s)"
  using assms by (simp_all add: DisableAllInterrupts_def EnableAllInterrupts_def ResumeAllInterrupts_def ResumeOSInterrupts_def
      SuspendAllInterrupts_def osEE_suspend_all_interrupts_def SuspendOSInterrupts_def Let_def)

subsection \<open>Task creation\<close>

text \<open>A fresh task descriptor: its activations come out of the unreserved nodes.\<close>

lemma create_task_kinv:
  assumes inv: "kinv s" and f: "free_task_index s < p_idle_task s" "unat m \<le> free_sn_counter s"
    and ty: "ty = OSEE_TASK_TYPE_EXTENDED \<Longrightarrow> m = 1" and w: "wait_mask (tcbs s (free_task_index s)) = 0"
      "status (tcbs s (free_task_index s)) = OSEE_TASK_SUSPENDED"
    and s': "s' = s\<lparr>free_sn_counter := free_sn_counter s - unat m, free_task_index := free_task_index s + 1,
      tdbs := (tdbs s)(free_task_index s := (tdbs s (free_task_index s))\<lparr>task_type := ty, ready_prio := rp, dispatch_prio := dp, max_num_of_act := m\<rparr>),
      tcbs := (tcbs s)(free_task_index s := (tcbs s (free_task_index s))\<lparr>current_prio := rp, status := OSEE_TASK_SUSPENDED, current_num_of_act := 0\<rparr>)\<rparr>"
  shows "kinv s'"
proof -
  let ?n = "free_task_index s"
  have k: "kinv_core {#} {#} s" and r: "krun s" using inv by (simp_all add: kinv_def)
  have n: "free_task_index s' = Suc ?n" "sn_tdb s' = sn_tdb s" "p_idle_task s' = p_idle_task s" "rq s' = rq s"
    "tdbs s' ?n = (tdbs s ?n)\<lparr>task_type := ty, ready_prio := rp, dispatch_prio := dp, max_num_of_act := m\<rparr>"
    "tcbs s' ?n = (tcbs s ?n)\<lparr>current_prio := rp, status := OSEE_TASK_SUSPENDED, current_num_of_act := 0\<rparr>"
    "p_free_sn s' = p_free_sn s" "free_sn_counter s' = free_sn_counter s - unat m" "p_curr s' = p_curr s" "conts s' = conts s"
    "p_stk_sn s' = p_stk_sn s" "p_suspended_sn s' = p_suspended_sn s"
    by (simp_all add: s')
  have u: "tdbs s' t = tdbs s t" "tcbs s' t = tcbs s t" if "t \<noteq> ?n" for t using that by (simp_all add: s')
  have "own s' = own s" unfolding own_def n(1) lessThan_Suc by (simp add: n(6) own_of_def) (rule sum.cong, auto simp: u)
  then have l: "live s' = live s" "pool s' = pool s" by (simp_all add: live_def pool_def n)
  have h: "headroom s' = headroom s + unat m"
    unfolding headroom_def n(1) lessThan_Suc by (simp add: n(5,6)) (rule sum.cong, auto simp: u)
  have lt: "sn_tdb s x < ?n" if "x \<in># live s" for x using kinv_core_dest(4) [OF k, of x] that by simp
  have z: "task_of s ?n (live s) = {#}" using lt by fastforce
  have "ready_key s' x = ready_key s x" if "x \<in> set (rq s)" for x
    using lt [of x] u(1) [of "sn_tdb s x"] that by (simp add: live_def n(2))
  then have srt: "prio_sorted (ready_key s') (rq s')"
    using kinv_core_dest(2) [OF k] unfolding n(4) by (auto elim!: sorted_wrt_mono_rel [rotated])
  have new: "wait_ok (tcbs s' ?n)" using w by (simp add: n(6) wait_ok_def)
  have task: "unat (current_num_of_act (tcbs s' t)) = size (task_of s t (live s)) \<and>
      current_num_of_act (tcbs s' t) \<le> max_num_of_act (tdbs s' t) \<and>
      (status (tcbs s' t) = OSEE_TASK_SUSPENDED \<longleftrightarrow> size (task_of s t (live s)) = 0) \<and>
      (status (tcbs s' t) = OSEE_TASK_WAITING \<longrightarrow> task_type (tdbs s' t) = OSEE_TASK_TYPE_EXTENDED \<and>
         (\<exists>x. p_own_sn (tcbs s' t) = Some x \<and> sn_tdb s x = t)) \<and>
      (task_type (tdbs s' t) = OSEE_TASK_TYPE_EXTENDED \<longrightarrow> max_num_of_act (tdbs s' t) = 1) \<and> wait_ok (tcbs s' t)"
    if "t < Suc ?n" for t
  proof (cases "t = ?n")
    case True
    then show ?thesis using ty new by (simp add: n(5,6) z)
  next
    case False
    then show ?thesis using that kinv_core_task [OF k, of t] by (auto simp: u simp del: size_eq_0_iff_empty)
  qed
  have "kinv_core {#} {#} s'"
    unfolding kinv_core_def l h n(1-3)
    using kinv_core_dest [OF k] srt f task lt by (auto simp: n less_Suc_eq simp del: size_eq_0_iff_empty)
  moreover have "top_task s' = top_task s" by (rule top_task_cong) (simp_all add: n)
  moreover have "status (tcbs s' t) = status (tcbs s t)" "wait_mask (tcbs s' t) = wait_mask (tcbs s t)" for t
    using w(2) by (cases "t = ?n"; simp add: u n(6))+
  ultimately show ?thesis using r w(1) by (auto simp: kinv_def krun_def waits_ok_def n less_Suc_eq)
qed
subsection \<open>Properties\<close>

lemma demo_calls: "calls demo_kern"
  by (simp add: calls_def demo_kinv) (simp add: demo_kern_def)

text \<open>
  C11: \<open>ActivateTask\<close> on every branch: an unknown or non-regular task is E_OS_ID and a task at its
  activation limit is E_OS_LIMIT, both without effect; otherwise the activation is counted, the core
  stays consistent, and the task takes the CPU at once exactly when it is more urgent than the
  caller, which then resumes with E_OK.
\<close>

theorem osek_activate_task:
  assumes c: "calls s"
  shows "\<exists>s' r. ActivateTask t s = Some (s', r) \<and> kinv s' \<and>
    (if \<not> (t < free_task_index s \<and> is_regular (task_type (tdbs s t))) then s' = s \<and> r = Some E_OS_ID
     else if max_num_of_act (tdbs s t) \<le> current_num_of_act (tcbs s t) then s' = s \<and> r = Some E_OS_LIMIT
     else current_num_of_act (tcbs s' t) = current_num_of_act (tcbs s t) + 1 \<and>
       (if current_prio (tcbs s (p_curr s)) < current_prio (tcbs s t)
        then r = None \<and> p_curr s' = t \<and> status (tcbs s' (p_curr s)) = OSEE_TASK_READY_STACKED \<and>
          conts s' (p_curr s) = C_END (irq_masked s)
        else r = Some E_OK \<and> p_curr s' = p_curr s \<and> irq_masked s' = irq_masked s))"
proof (cases "t < free_task_index s \<and> is_regular (task_type (tdbs s t)) \<and> current_num_of_act (tcbs s t) < max_num_of_act (tdbs s t)")
  case True
  show ?thesis
  proof (rule ActivateTask_inv [OF c])
    fix s' r
    assume a: "ActivateTask t s = Some (s', r)" "kinv s'" "current_num_of_act (tcbs s' t) = current_num_of_act (tcbs s t) + 1"
      "current_prio (tcbs s (p_curr s)) < current_prio (tcbs s t) \<Longrightarrow> r = None \<and> p_curr s' = t \<and>
       status (tcbs s' (p_curr s)) = OSEE_TASK_READY_STACKED \<and> conts s' (p_curr s) = C_END (irq_masked s)"
      "\<not> current_prio (tcbs s (p_curr s)) < current_prio (tcbs s t) \<Longrightarrow> r = Some E_OK \<and> p_curr s' = p_curr s \<and>
       conts s' = conts s \<and> irq_masked s' = irq_masked s"
    show ?thesis by (intro exI [of _ s'] exI [of _ r]) (use a True in \<open>auto simp: not_le\<close>)
  qed (use True in blast)+
next
  case False
  then show ?thesis using calls_dest(1) [OF c]
    by (auto simp: ActivateTask_def osEE_task_activated_def Let_def not_le not_less)
qed

theorem osek_activate_task_witness:
  "calls demo_kern \<and> (\<exists>s'. ActivateTask 1 demo_kern = Some (s', None) \<and> kinv s' \<and> p_curr s' = 1)"
  using osek_activate_task [OF demo_calls, of 1] demo_calls by (auto simp: demo_kern_def is_regular_def)

text \<open>
  The end of an activation. \<open>TerminateTask\<close> and \<open>ChainTask\<close>, called by a task without held
  resources, never return to it and leave the core consistent; \<open>TerminateTask\<close> gives one activation
  back, \<open>ChainTask\<close> of another task moves one activation from the caller to it, and \<open>ChainTask\<close> of the
  caller keeps the number of activations.
\<close>

theorem osek_task_end:
  assumes c: "calls s" and x: "p_stk_sn s \<noteq> []"
    and reg: "is_regular (task_type (tdbs s (p_curr s)))" and m: "p_last_m (tcbs s (p_curr s)) = None"
    and t: "t < free_task_index s" "is_regular (task_type (tdbs s t))"
    and a: "t = p_curr s \<or> current_num_of_act (tcbs s t) < max_num_of_act (tdbs s t)"
  shows "(\<exists>s'. TerminateTask chk s = Some (s', None) \<and> kinv s' \<and>
      current_num_of_act (tcbs s' (p_curr s)) = current_num_of_act (tcbs s (p_curr s)) - 1) \<and>
    (\<exists>s'. ChainTask chk t s = Some (s', None) \<and> kinv s' \<and>
      (if t = p_curr s then current_num_of_act (tcbs s' t) = current_num_of_act (tcbs s t)
       else current_num_of_act (tcbs s' t) = current_num_of_act (tcbs s t) + 1 \<and>
         current_num_of_act (tcbs s' (p_curr s)) = current_num_of_act (tcbs s (p_curr s)) - 1))"
proof
  show "\<exists>s'. TerminateTask chk s = Some (s', None) \<and> kinv s' \<and>
      current_num_of_act (tcbs s' (p_curr s)) = current_num_of_act (tcbs s (p_curr s)) - 1"
    by (rule TerminateTask_inv [OF c x, of chk]) (use reg m in auto)
  show "\<exists>s'. ChainTask chk t s = Some (s', None) \<and> kinv s' \<and>
      (if t = p_curr s then current_num_of_act (tcbs s' t) = current_num_of_act (tcbs s t)
       else current_num_of_act (tcbs s' t) = current_num_of_act (tcbs s t) + 1 \<and>
         current_num_of_act (tcbs s' (p_curr s)) = current_num_of_act (tcbs s (p_curr s)) - 1)"
    by (rule ChainTask_inv [OF c x _ t a, of chk]) (use reg m in auto)
qed

theorem osek_task_end_example:
  "(\<exists>s'. TerminateTask True demo_kern = Some (s', None) \<and> kinv s') \<and>
   (\<exists>s'. ChainTask True 1 demo_kern = Some (s', None) \<and> kinv s' \<and> current_num_of_act (tcbs s' 1) = 1)"
proof -
  have h: "p_stk_sn demo_kern \<noteq> []" "is_regular (task_type (tdbs demo_kern (p_curr demo_kern)))"
    "p_last_m (tcbs demo_kern (p_curr demo_kern)) = None" "1 < free_task_index demo_kern" "is_regular (task_type (tdbs demo_kern 1))"
    "1 = p_curr demo_kern \<or> current_num_of_act (tcbs demo_kern 1) < max_num_of_act (tdbs demo_kern 1)"
    by (simp_all add: demo_kern_def is_regular_def)
  have "p_curr demo_kern \<noteq> 1" "current_num_of_act (tcbs demo_kern 1) = 0" by (simp_all add: demo_kern_def)
  then show ?thesis using osek_task_end [OF demo_calls h, of True] by auto
qed

lemma preemption_point_stay:
  assumes "p_stk_sn s \<noteq> []" "\<forall>x\<in>set (rq s). current_prio (tcbs s (sn_tdb s x)) \<le> current_prio (tcbs s (top_task s))"
  shows "osEE_scheduler_task_preemption_point s = (s, False)"
proof (cases s rule: rq_preempt_cases)
  case stay
  then show ?thesis by (simp add: osEE_scheduler_task_preemption_point_def)
next
  case (preempt q qs)
  then show ?thesis using assms by auto
qed

lemma resource_roundtrip:
  fixes s :: kern
  defines "cur \<equiv> p_curr s"
  defines "back \<equiv> if p_last_m (tcbs s cur) = None then dispatch_prio (tdbs s cur) else current_prio (tcbs s cur)"
  assumes c: "calls s" and x: "p_stk_sn s \<noteq> []" and m: "m < free_res_index s" "m_owner (resources s m) = None"
    and ceil: "ready_prio (tdbs s cur) \<le> m_prio (resources s m)"
    and q: "\<forall>x\<in>set (rq s). sn_tdb s x \<noteq> cur \<and> current_prio (tcbs s (sn_tdb s x)) \<le> back"
  shows "\<exists>s1. GetResource chk m s = (s1, E_OK) \<and> calls s1 \<and>
    current_prio (tcbs s1 cur) = max (current_prio (tcbs s cur)) (m_prio (resources s m)) \<and>
    p_last_m (tcbs s1 cur) = Some m \<and> m_owner (resources s1 m) = Some cur \<and>
    ReleaseResource chk m s1 = Some (upd_tcb cur (\<lambda>c. c\<lparr>current_prio := back\<rparr>)
      (s\<lparr>resources := (resources s)(m := (resources s m)\<lparr>m_next := p_last_m (tcbs s cur), m_prev_prio := current_prio (tcbs s cur)\<rparr>)\<rparr>), Some E_OK)"
proof -
  let ?p = "current_prio (tcbs s cur)"
  let ?r = "(resources s m)\<lparr>m_owner := Some cur, m_next := p_last_m (tcbs s cur), m_prev_prio := ?p\<rparr>"
  define s1 where "s1 = upd_tcb cur (\<lambda>c. c\<lparr>current_prio := max ?p (m_prio (resources s m)), p_last_m := Some m\<rparr>)
    (s\<lparr>resources := (resources s)(m := ?r)\<rparr>)"
  have mx: "max ?p (m_prio (resources s m)) = ?p" if "\<not> ?p < m_prio (resources s m)" using that by simp
  have mx': "max ?p (m_prio (resources s m)) = m_prio (resources s m)" if "?p < m_prio (resources s m)" using that by simp
  have g: "GetResource chk m s = (s1, E_OK)"
    using m ceil by (cases "?p < m_prio (resources s m)")
      (auto simp: GetResource_def Let_def s1_def cur_def [symmetric] osEE_end_primitive_def upd_tcb_def mx mx' not_less [symmetric] fun_upd_idem_iff)
  have k1: "calls s1" using GetResource_inv [OF calls_dest(1) [OF c], of chk m] calls_dest(2) [OF c] by (simp add: g calls_def s1_def)
  have f: "p_last_m (tcbs s1 cur) = Some m" "m_owner (resources s1 m) = Some cur" "p_curr s1 = cur"
    "current_prio (tcbs s1 cur) = max ?p (m_prio (resources s m))" by (simp_all add: s1_def cur_def)
  define s3 where "s3 = upd_tcb cur (\<lambda>c. c\<lparr>current_prio := back\<rparr>)
      (s\<lparr>resources := (resources s)(m := (resources s m)\<lparr>m_next := p_last_m (tcbs s cur), m_prev_prio := ?p\<rparr>)\<rparr>)"
  have ro: "(resources s m)\<lparr>m_next := a, m_prev_prio := b, m_owner := None\<rparr> = (resources s m)\<lparr>m_next := a, m_prev_prio := b\<rparr>" for a b
    using m(2) by (cases "resources s m") simp
  let ?X = "(upd_tcb cur (\<lambda>c. c\<lparr>p_last_m := m_next (resources s1 m),
      current_prio := if m_next (resources s1 m) \<noteq> None then m_prev_prio (resources s1 m) else dispatch_prio (tdbs s1 cur)\<rparr>) (s1\<lparr>irq_masked := True\<rparr>))
      \<lparr>resources := (resources s1)(m := (resources s1 m)\<lparr>m_owner := None\<rparr>)\<rparr>"
  have X: "?X = s3\<lparr>irq_masked := True\<rparr>" by (simp add: s3_def s1_def upd_tcb_def ro back_def)
  have i1: "irq_masked s1 = irq_masked s" "m < free_res_index s1" using m(1) by (simp_all add: s1_def upd_tcb_def)
  have "ReleaseResource chk m s1 = Some (leave cur (C_END (irq_masked s1)) (irq_masked s1) (osEE_scheduler_task_preemption_point ?X))"
    using f i1(2) by (simp add: ReleaseResource_def Let_def)
  moreover have "osEE_scheduler_task_preemption_point (s3\<lparr>irq_masked := True\<rparr>) = (s3\<lparr>irq_masked := True\<rparr>, False)"
  proof (rule preemption_point_stay)
    have "top_task (s3\<lparr>irq_masked := True\<rparr>) = cur"
      using krun_dest(1) [OF calls_dest(4) [OF c]] top_task_cong [of "s3\<lparr>irq_masked := True\<rparr>" s] by (simp add: s3_def cur_def)
    then show "\<forall>x\<in>set (rq (s3\<lparr>irq_masked := True\<rparr>)). current_prio (tcbs (s3\<lparr>irq_masked := True\<rparr>) (sn_tdb (s3\<lparr>irq_masked := True\<rparr>) x))
        \<le> current_prio (tcbs (s3\<lparr>irq_masked := True\<rparr>) (top_task (s3\<lparr>irq_masked := True\<rparr>)))"
      using q by (simp add: s3_def)
  qed (use x in \<open>simp add: s3_def\<close>)
  ultimately have "ReleaseResource chk m s1 = Some (s3, Some E_OK)"
    unfolding X i1(1) by (simp add: leave_def osEE_end_primitive_def) (simp add: s3_def upd_tcb_def)
  then show ?thesis using g k1 f by (auto simp: s3_def)
qed

text \<open>
  \<open>GetResource\<close> raises the caller to the ceiling of the resource and pushes it on the caller's
  list; the matching \<open>ReleaseResource\<close> pops it and restores the priority the caller had, or its
  dispatch priority when it holds no other resource. When no queued activation is more urgent than
  that, the two calls leave everything but the resource descriptor as it was.
\<close>

theorem osek_resource_roundtrip:
  fixes s :: kern
  defines "cur \<equiv> p_curr s"
  defines "back \<equiv> if p_last_m (tcbs s cur) = None then dispatch_prio (tdbs s cur) else current_prio (tcbs s cur)"
  assumes c: "calls s" and x: "p_stk_sn s \<noteq> []" and m: "m < free_res_index s" "m_owner (resources s m) = None"
    and ceil: "ready_prio (tdbs s cur) \<le> m_prio (resources s m)"
    and q: "\<forall>x\<in>set (rq s). sn_tdb s x \<noteq> cur \<and> current_prio (tcbs s (sn_tdb s x)) \<le> back"
  shows "\<exists>s1. GetResource chk m s = (s1, E_OK) \<and> calls s1 \<and>
    current_prio (tcbs s1 cur) = max (current_prio (tcbs s cur)) (m_prio (resources s m)) \<and>
    p_last_m (tcbs s1 cur) = Some m \<and> m_owner (resources s1 m) = Some cur \<and>
    ReleaseResource chk m s1 = Some (upd_tcb cur (\<lambda>c. c\<lparr>current_prio := back\<rparr>)
      (s\<lparr>resources := (resources s)(m := (resources s m)\<lparr>m_next := p_last_m (tcbs s cur), m_prev_prio := current_prio (tcbs s cur)\<rparr>)\<rparr>), Some E_OK)"
  using resource_roundtrip [OF c x m] ceil q unfolding cur_def back_def by blast

theorem osek_resource_roundtrip_example:
  "\<exists>s1 s2. GetResource True 0 demo_kern = (s1, E_OK) \<and> current_prio (tcbs s1 0) = 2 \<and>
     ReleaseResource True 0 s1 = Some (s2, Some E_OK) \<and> current_prio (tcbs s2 0) = 1"
proof -
  have h: "p_stk_sn demo_kern \<noteq> []" "0 < free_res_index demo_kern" "m_owner (resources demo_kern 0) = None"
    "ready_prio (tdbs demo_kern (p_curr demo_kern)) \<le> m_prio (resources demo_kern 0)" "rq demo_kern = []" "p_curr demo_kern = 0"
    "p_last_m (tcbs demo_kern 0) = None" "dispatch_prio (tdbs demo_kern 0) = 1" "m_prio (resources demo_kern 0) = 2"
    "current_prio (tcbs demo_kern 0) = 1"
    by (simp_all add: demo_kern_def)
  have "max (1::8 word) 2 = 2" by simp
  then show ?thesis using osek_resource_roundtrip [OF demo_calls h(1-4), of True] h(5-10) by fastforce
qed

text \<open>
  A task that waits for \<open>Mask\<close> returns at once when one of these events is already set, so an
  event set before the wait is not lost; otherwise it leaves the CPU to another task, keeps its node
  for the wake-up and will resume inside \<open>WaitEvent\<close>.
\<close>

theorem osek_wait_event:
  assumes c: "calls s" and x: "p_stk_sn s \<noteq> []" and ext: "task_type (tdbs s (p_curr s)) = OSEE_TASK_TYPE_EXTENDED"
    and ok: "\<not> osEE_check_disableint s" "p_last_m (tcbs s (p_curr s)) = None"
  shows "if and (event_mask (tcbs s (p_curr s))) Mask \<noteq> 0 then WaitEvent chk Mask s = Some (s, Some E_OK)
    else \<exists>s'. WaitEvent chk Mask s = Some (s', None) \<and> kinv s' \<and> p_curr s' \<noteq> p_curr s \<and>
       status (tcbs s' (p_curr s)) = OSEE_TASK_WAITING \<and> p_own_sn (tcbs s' (p_curr s)) = Some (hd (p_stk_sn s)) \<and>
       conts s' (p_curr s) = C_WAIT (irq_masked s)"
proof (cases "and (event_mask (tcbs s (p_curr s))) Mask = 0")
  case True
  obtain y ys where y: "p_stk_sn s = y # ys" using x by (cases "p_stk_sn s") auto
  from WaitEvent_blocks [OF c y ext _ True, of chk] ok True y show ?thesis by (metis list.sel(1))
next
  case False
  then show ?thesis using ok ext by (simp add: WaitEvent_def Let_def is_regular_def)
qed

definition demo_ext :: kern where
  "demo_ext = the (map_option fst (ActivateTask 1 demo_kern))"

lemma demo_ext_calls:
  "calls demo_ext" "p_curr demo_ext = 1" "p_stk_sn demo_ext \<noteq> []" "task_type (tdbs demo_ext 1) = OSEE_TASK_TYPE_EXTENDED"
  "\<not> osEE_check_disableint demo_ext" "p_last_m (tcbs demo_ext 1) = None" "event_mask (tcbs demo_ext 1) = 0"
proof -
  have r: "1 < free_task_index demo_kern" "is_regular (task_type (tdbs demo_kern 1))"
    "current_num_of_act (tcbs demo_kern 1) < max_num_of_act (tdbs demo_kern 1)" by (simp_all add: demo_kern_def is_regular_def)
  obtain s' q where "ActivateTask 1 demo_kern = Some (s', q)" "kinv s'" by (rule ActivateTask_inv [OF demo_calls r]) blast
  then have k: "kinv demo_ext" by (simp add: demo_ext_def)
  have e: "p_curr demo_ext = 1" "p_stk_sn demo_ext = [1, 0]" "conts demo_ext 1 = C_NONE" "task_type (tdbs demo_ext 1) = OSEE_TASK_TYPE_EXTENDED"
    "\<not> osEE_check_disableint demo_ext" "p_last_m (tcbs demo_ext 1) = None" "event_mask (tcbs demo_ext 1) = 0"
    by (simp_all add: demo_ext_def ActivateTask_def demo_kern_def is_regular_def osEE_task_activated_def upd_tcb_def
        osEE_scheduler_task_activated_def sn_alloc_def Let_def osEE_task_event_reset_mask_def osEE_change_context_from_running_def
        osEE_scheduler_task_wrapper_run_def osEE_scheduler_task_wrapper_restore_def leave_def osEE_check_disableint_def OSEE_ISR_ALL_PRIO_def)
  then show "calls demo_ext" "p_curr demo_ext = 1" "p_stk_sn demo_ext \<noteq> []" "task_type (tdbs demo_ext 1) = OSEE_TASK_TYPE_EXTENDED"
    "\<not> osEE_check_disableint demo_ext" "p_last_m (tcbs demo_ext 1) = None" "event_mask (tcbs demo_ext 1) = 0"
    using k by (simp_all add: calls_def)
qed

theorem osek_wait_event_example:
  "\<exists>s'. WaitEvent True 4 demo_ext = Some (s', None) \<and> kinv s' \<and> status (tcbs s' 1) = OSEE_TASK_WAITING"
proof -
  note d = demo_ext_calls
  have t: "task_type (tdbs demo_ext (p_curr demo_ext)) = OSEE_TASK_TYPE_EXTENDED" "p_last_m (tcbs demo_ext (p_curr demo_ext)) = None"
    using d by simp_all
  show ?thesis using osek_wait_event [OF d(1,3) t(1) d(5) t(2), of 4 True] d(2,7) by auto
qed

text \<open>
  \<open>SetEvent\<close> with one of the events a task waits for makes the task ready again, whoever calls it:
  the task runs at once when it is more urgent than the caller and than everything queued, and its
  node is in the ready queue otherwise. The caller goes on or resumes with E_OK.
\<close>

theorem osek_set_event:
  assumes c: "calls s" and t: "t < free_task_index s" "status (tcbs s t) = OSEE_TASK_WAITING"
    and ok: "\<not> osEE_check_disableint s" "task_type (tdbs s (p_curr s)) \<noteq> OSEE_TASK_TYPE_IDLE"
    and e: "and (wait_mask (tcbs s t)) Mask \<noteq> 0"
  shows "\<exists>s' r x. SetEvent chk t Mask s = Some (s', r) \<and> kinv s' \<and> sn_tdb s x = t \<and>
    event_mask (tcbs s' t) = or (event_mask (tcbs s t)) Mask \<and>
    (if current_prio (tcbs s (p_curr s)) < ready_prio (tdbs s t) \<and> (\<forall>y\<in>set (rq s). ready_prio (tdbs s (sn_tdb s y)) < ready_prio (tdbs s t))
     then r = None \<and> p_curr s' = t \<and> p_stk_sn s' = x # p_stk_sn s \<and> conts s' (p_curr s) = C_END (irq_masked s)
     else r = Some E_OK \<and> p_curr s' = p_curr s \<and> status (tcbs s' t) = OSEE_TASK_READY_STACKED \<and> x \<in> set (rq s'))"
proof (rule SetEvent_wakes [OF c t _ e, of chk])
  fix s' r x
  assume a: "SetEvent chk t Mask s = Some (s', r)" "kinv s'" "p_own_sn (tcbs s t) = Some x" "sn_tdb s x = t"
    "event_mask (tcbs s' t) = or (event_mask (tcbs s t)) Mask"
    "r = None \<and> p_curr s' = t \<and> conts s' (p_curr s) = C_END (irq_masked s) \<and> p_stk_sn s' = x # p_stk_sn s \<and> rq s' = rq s \<or>
     r = Some E_OK \<and> p_curr s' = p_curr s \<and> status (tcbs s' t) = OSEE_TASK_READY_STACKED \<and> x \<in> set (rq s')"
    "r = None \<longleftrightarrow> current_prio (tcbs s (p_curr s)) < ready_prio (tdbs s t) \<and> (\<forall>y\<in>set (rq s). ready_key s y < unat (ready_prio (tdbs s t)))"
  show ?thesis
    by (intro exI [of _ s'] exI [of _ r] exI [of _ x]) (use a in \<open>auto simp: word_less_nat_alt\<close>)
qed (use ok in simp)

text \<open>The demo task 1 after \<open>WaitEvent (4)\<close>: task 0 runs again, inside \<open>ActivateTask\<close>, which it leaves.\<close>

definition demo_wait :: kern where
  "demo_wait = resume_current (the (map_option fst (WaitEvent True 4 demo_ext)))"

theorem osek_set_event_example:
  "calls demo_wait \<and> p_curr demo_wait = 0 \<and> (\<exists>s'. SetEvent True 1 5 demo_wait = Some (s', None) \<and> p_curr s' = 1)"
proof -
  note d = demo_ext_calls
  obtain y ys where y: "p_stk_sn demo_ext = y # ys" using d(3) by (cases "p_stk_sn demo_ext") auto
  obtain s' where s': "WaitEvent True 4 demo_ext = Some (s', None)" "kinv s'"
    by (rule WaitEvent_blocks [OF d(1) y, of True 4]) (use d in simp_all)
  have s'_eq: "s' = the (map_option fst (WaitEvent True 4 demo_ext))" using s'(1) by simp
  have f: "conts s' (p_curr s') = C_END False" "p_curr demo_wait = 0" "1 < free_task_index demo_wait" "status (tcbs demo_wait 1) = OSEE_TASK_WAITING"
    "\<not> osEE_check_disableint demo_wait" "task_type (tdbs demo_wait 0) = OSEE_TASK_TYPE_BASIC" "wait_mask (tcbs demo_wait 1) = 4"
    "rq demo_wait = []" "current_prio (tcbs demo_wait 0) = 1" "ready_prio (tdbs demo_wait 1) = 2"
    unfolding demo_wait_def s'_eq
    by (simp_all add: resume_current_def WaitEvent_def demo_ext_def ActivateTask_def demo_kern_def is_regular_def osEE_task_activated_def upd_tcb_def
        osEE_scheduler_task_activated_def sn_alloc_def Let_def osEE_task_event_reset_mask_def osEE_change_context_from_running_def
        osEE_scheduler_task_wrapper_run_def osEE_scheduler_task_wrapper_restore_def leave_def osEE_check_disableint_def OSEE_ISR_ALL_PRIO_def
        osEE_scheduler_core_pop_running_def osEE_scheduler_core_rq_preempt_stk_def osEE_end_primitive_def)
  have "calls demo_wait" using resume_current_inv(3) [OF s'(2)] f(1) s'_eq by (simp add: demo_wait_def)
  moreover have "and (4::u64) 5 \<noteq> 0" by simp
  ultimately show ?thesis using osek_set_event [of demo_wait 1 5 True] f(2-) by auto
qed

text \<open>
  \<open>Schedule\<close> of a task without resources gives the CPU to the first queued activation when it is
  more urgent than the ready priority of the caller, and the caller gets its dispatch priority back
  when it resumes; otherwise the call changes nothing.
\<close>

theorem osek_schedule:
  assumes c: "calls s" and reg: "is_regular (task_type (tdbs s (p_curr s)))" and x: "p_stk_sn s \<noteq> []"
    and m: "p_last_m (tcbs s (p_curr s)) = None" and d: "current_prio (tcbs s (p_curr s)) = dispatch_prio (tdbs s (p_curr s))"
    and q: "\<forall>y\<in>set (rq s). sn_tdb s y \<noteq> p_curr s \<and> current_prio (tcbs s (sn_tdb s y)) = ready_prio (tdbs s (sn_tdb s y))"
  shows "\<exists>s' r. Schedule chk s = Some (s', r) \<and> kinv s' \<and>
    (if rq s \<noteq> [] \<and> ready_prio (tdbs s (p_curr s)) < ready_prio (tdbs s (sn_tdb s (hd (rq s))))
     then r = None \<and> p_curr s' = sn_tdb s (hd (rq s)) \<and> current_prio (tcbs s' (p_curr s)) = ready_prio (tdbs s (p_curr s)) \<and>
       conts s' (p_curr s) = C_SCHEDULE (irq_masked s) \<and>
       current_prio (tcbs (resume_current (s'\<lparr>p_curr := p_curr s\<rparr>)) (p_curr s)) = dispatch_prio (tdbs s (p_curr s))
     else s' = s \<and> r = Some E_OK)"
proof -
  let ?c = "p_curr s"
  define s2 where "s2 = upd_tcb ?c (\<lambda>c. c\<lparr>current_prio := ready_prio (tdbs s ?c)\<rparr>) (s\<lparr>irq_masked := True\<rparr>)"
  define pp where "pp = osEE_scheduler_task_preemption_point s2"
  obtain s' r where s': "Schedule chk s = Some (s', r)" "kinv s'" by (rule Schedule_inv [OF c])
  have e: "Schedule chk s = (if snd pp then Some (leave ?c (C_SCHEDULE (irq_masked s)) (irq_masked s) (fst pp, True))
      else Some (leave ?c (C_SCHEDULE (irq_masked s)) (irq_masked s)
               (upd_tcb ?c (\<lambda>c. c\<lparr>current_prio := dispatch_prio (tdbs s ?c)\<rparr>) (fst pp), False)))"
    using reg m d by (simp add: Schedule_def Let_def case_prod_beta pp_def s2_def)
  have tt: "top_task s2 = ?c" using krun_dest(1) [OF calls_dest(4) [OF c]] top_task_cong [of s2 s] by (simp add: s2_def)
  have bk: "(tcbs s ?c)\<lparr>current_prio := dispatch_prio (tdbs s ?c)\<rparr> = tcbs s ?c" using d by (cases "tcbs s ?c") simp
  show ?thesis
  proof (cases s2 rule: rq_preempt_cases)
    case stay
    then have p: "pp = (s2, False)" by (simp add: pp_def osEE_scheduler_task_preemption_point_def)
    have "Schedule chk s = Some (s, Some E_OK)"
      using bk by (simp add: e p leave_def osEE_end_primitive_def s2_def upd_tcb_def)
    moreover have "\<not> (rq s \<noteq> [] \<and> ready_prio (tdbs s ?c) < ready_prio (tdbs s (sn_tdb s (hd (rq s)))))"
      using stay(2) tt q by (auto simp: s2_def)
    ultimately show ?thesis using calls_dest(1) [OF c] by auto
  next
    case (preempt y ys)
    have y: "rq s = y # ys" "sn_tdb s y \<noteq> ?c" using preempt(1) q by (simp_all add: s2_def)
    have f2: "sn_tdb s2 = sn_tdb s" "tdbs s2 = tdbs s" "current_prio (tcbs s2 ?c) = ready_prio (tdbs s ?c)" by (simp_all add: s2_def)
    have p: "snd pp" "p_curr (fst pp) = sn_tdb s y" "current_prio (tcbs (fst pp) ?c) = ready_prio (tdbs s ?c)" "tdbs (fst pp) = tdbs s"
      using y by (simp_all add: pp_def osEE_scheduler_task_preemption_point_def preempt(2) f2 tt osEE_scheduler_stk_next_def Let_def)
    have "ready_prio (tdbs s ?c) < ready_prio (tdbs s (sn_tdb s y))"
      using preempt(3) x y q tt by (auto simp: s2_def)
    moreover have "s' = (fst pp)\<lparr>conts := (conts (fst pp))(?c := C_SCHEDULE (irq_masked s))\<rparr>" "r = None"
      using e s'(1) p(1) by (simp_all add: leave_def)
    ultimately show ?thesis using s' y p
      by (intro exI [of _ s'] exI [of _ r]) (simp add: resume_current_def Let_def osEE_end_primitive_def)
  qed
qed

theorem osek_schedule_example: "Schedule True demo_kern = Some (demo_kern, Some E_OK)"
proof -
  have h: "is_regular (task_type (tdbs demo_kern (p_curr demo_kern)))" "p_stk_sn demo_kern \<noteq> []" "p_last_m (tcbs demo_kern (p_curr demo_kern)) = None"
    "current_prio (tcbs demo_kern (p_curr demo_kern)) = dispatch_prio (tdbs demo_kern (p_curr demo_kern))"
    "\<forall>y\<in>set (rq demo_kern). sn_tdb demo_kern y \<noteq> p_curr demo_kern \<and>
       current_prio (tcbs demo_kern (sn_tdb demo_kern y)) = ready_prio (tdbs demo_kern (sn_tdb demo_kern y))"
    by (simp_all add: demo_kern_def is_regular_def)
  have "rq demo_kern = []" by (simp add: demo_kern_def)
  then show ?thesis using osek_schedule [OF demo_calls h, of True] by auto
qed

lemma unat_max_byte: "unat OSEE_MAX_BYTE = 255"
  by (simp add: OSEE_MAX_BYTE_def unsigned_minus_1_eq_mask mask_eq_exp_minus_1)

lemma suspend_n:
  assumes "s_isr_all_cnt s = 0" "0 < n" "n \<le> 255"
  shows "(SuspendAllInterrupts ^^ n) s = s\<lparr>irq_masked := True, prev_s_isr_all_status := irq_masked s, s_isr_all_cnt := of_nat n\<rparr>"
  using assms(2,3)
proof (induction n)
  case (Suc n)
  show ?case
  proof (cases "n = 0")
    case True
    then show ?thesis using assms(1) by (simp add: SuspendAllInterrupts_def osEE_suspend_all_interrupts_def)
  next
    case False
    have u: "unat (of_nat n :: u8) = n" using Suc.prems by (simp add: unat_of_nat)
    have "(of_nat n :: u8) \<noteq> 0" "(of_nat n :: u8) < OSEE_MAX_BYTE"
      using False Suc.prems u by (auto simp: word_less_nat_alt unat_max_byte)
    then show ?thesis using Suc False by (simp add: SuspendAllInterrupts_def osEE_suspend_all_interrupts_def)
  qed
qed (simp only: less_irrefl)

lemma resume_n:
  assumes "s_isr_all_cnt s = of_nat n" "0 < n" "n \<le> 255"
  shows "(ResumeAllInterrupts ^^ n) s = s\<lparr>irq_masked := prev_s_isr_all_status s, s_isr_all_cnt := 0\<rparr>"
  using assms
proof (induction n arbitrary: s)
  case (Suc n)
  let ?s = "s\<lparr>s_isr_all_cnt := of_nat n\<rparr>"
  have u: "unat (of_nat (Suc n) :: u8) = Suc n" using Suc.prems by (simp only: unat_of_nat) simp
  then have p: "s_isr_all_cnt s > 0" "s_isr_all_cnt s - 1 = of_nat n" using Suc.prems(1) by (auto simp: word_less_nat_alt)
  have z: "(of_nat n :: u8) = 0 \<longleftrightarrow> n = 0"
  proof -
    have "unat (of_nat n :: u8) = n" using Suc.prems(3) by (simp add: unat_of_nat)
    then show ?thesis by (cases "n = 0") auto
  qed
  have "ResumeAllInterrupts s = (if n = 0 then ?s\<lparr>irq_masked := prev_s_isr_all_status s\<rparr> else ?s)"
    using p z by (simp add: ResumeAllInterrupts_def)
  then show ?case using Suc.IH [of ?s] Suc.prems(3) by (simp add: funpow_Suc_right del: funpow.simps)
qed (simp only: less_irrefl)

text \<open>
  Interrupt suspension nests up to 255 levels. \<open>n\<close> calls of \<open>SuspendAllInterrupts\<close> mask the
  interrupts and \<open>n\<close> calls of \<open>ResumeAllInterrupts\<close> restore the mask the first one found; the level
  after the last shuts the kernel down.
\<close>

theorem osek_interrupt_nesting:
  assumes "s_isr_all_cnt s = 0" "0 < n" "n \<le> 255"
  shows "irq_masked ((SuspendAllInterrupts ^^ n) s) \<and>
    (ResumeAllInterrupts ^^ n) ((SuspendAllInterrupts ^^ n) s) = s\<lparr>prev_s_isr_all_status := irq_masked s\<rparr> \<and>
    os_status ((SuspendAllInterrupts ^^ 256) s) = OSEE_KERNEL_SHUTDOWN"
proof -
  have "(ResumeAllInterrupts ^^ n) ((SuspendAllInterrupts ^^ n) s) = s\<lparr>prev_s_isr_all_status := irq_masked s\<rparr>"
    unfolding suspend_n [OF assms] by (subst resume_n) (use assms in simp_all)
  moreover define u where "u = (SuspendAllInterrupts ^^ 255) s"
  have "s_isr_all_cnt u = OSEE_MAX_BYTE" "OSEE_MAX_BYTE \<noteq> 0"
    using suspend_n [OF assms(1), of 255] by (simp_all add: u_def OSEE_MAX_BYTE_def)
  then have "os_status (SuspendAllInterrupts u) = OSEE_KERNEL_SHUTDOWN"
    by (simp add: SuspendAllInterrupts_def osEE_suspend_all_interrupts_def osEE_shutdown_os_def Let_def
        osEE_scheduler_task_wrapper_restore_def upd_tcb_def)
  moreover have "(SuspendAllInterrupts ^^ 256) s = SuspendAllInterrupts u"
    using funpow.simps(2) [of 255 SuspendAllInterrupts] by (simp add: u_def del: funpow.simps)
  ultimately show ?thesis using suspend_n [OF assms] by simp
qed

theorem osek_interrupt_nesting_example:
  "irq_masked (SuspendAllInterrupts (SuspendAllInterrupts demo_kern)) \<and>
   \<not> irq_masked (ResumeAllInterrupts (ResumeAllInterrupts (SuspendAllInterrupts (SuspendAllInterrupts demo_kern))))"
proof -
  have "s_isr_all_cnt demo_kern = 0" "\<not> irq_masked demo_kern" by (simp_all add: demo_kern_def)
  then show ?thesis using osek_interrupt_nesting [of demo_kern 2] by (simp add: numeral_2_eq_2)
qed

lemma isr2_bit:
  "OSEE_ISR2_PRIO_BIT \<le> or a OSEE_ISR2_PRIO_BIT" "\<not> OSEE_ISR2_PRIO_BIT \<le> and a (not OSEE_ISR2_PRIO_BIT)"
proof -
  show "OSEE_ISR2_PRIO_BIT \<le> or a OSEE_ISR2_PRIO_BIT" by (subst or.commute) (rule le_word_or2)
  have e: "OSEE_ISR2_PRIO_BIT = 2 ^ 7" by (simp add: OSEE_ISR2_PRIO_BIT_def)
  have b: "bit OSEE_ISR2_PRIO_BIT k \<longleftrightarrow> k = 7" for k unfolding e by (simp only: bit_exp_iff) auto
  have "and a (not OSEE_ISR2_PRIO_BIT) = and a (mask 7)"
  proof (rule bit_word_eqI)
    fix k assume "k < LENGTH(8)"
    then have "k < 8" by simp
    then show "bit (and a (not OSEE_ISR2_PRIO_BIT)) k = bit (and a (mask 7)) k"
      by (auto simp: bit_and_iff bit_not_iff bit_mask_iff b)
  qed
  then have "and a (not OSEE_ISR2_PRIO_BIT) < 2 ^ 7" using and_mask_less' [of 7 a] by simp
  then show "\<not> OSEE_ISR2_PRIO_BIT \<le> and a (not OSEE_ISR2_PRIO_BIT)" by (simp add: OSEE_ISR2_PRIO_BIT_def not_le)
qed

text \<open>
  Task creation on every branch. \<open>E_OK\<close> means a new suspended task whose activations are reserved
  from the free nodes, in a core that stays consistent: later activations up to the limit cannot run
  out of nodes. Every other result leaves the descriptors as they were; all but \<open>E_OS_SYS_STACK\<close>
  leave the whole state as it was, and \<open>E_OS_SYS_STACK\<close> loses the reserved activations for good.
\<close>

theorem osek_create_task:
  fixes s :: kern
  defines "n \<equiv> free_task_index s"
  assumes inv: "kinv s" and a: "array_size \<le> p_idle_task s"
    and fresh: "wait_mask (tcbs s n) = 0" "status (tcbs s n) = OSEE_TASK_SUSPENDED"
    and ty: "ty = OSEE_TASK_TYPE_EXTENDED \<longrightarrow> m = 1"
    and r: "osEE_create_task array_size isr2_max hdb_ok ty rprio dprio m system_stack s = (s', ev, tid)"
  shows "if ev = E_OK then kinv s' \<and> tid = Some n \<and> n < array_size \<and> free_task_index s' = n + 1 \<and>
      unat m \<le> free_sn_counter s \<and> free_sn_counter s' = free_sn_counter s - unat m \<and> headroom s' = headroom s + unat m \<and>
      status (tcbs s' n) = OSEE_TASK_SUSPENDED \<and> dispatch_prio (tdbs s' n) \<le> ready_prio (tdbs s' n) \<and> dispatch_prio (tdbs s' n) \<le> isr2_max \<and>
      (ready_prio (tdbs s' n) \<ge> OSEE_ISR2_PRIO_BIT \<longleftrightarrow> ty = OSEE_TASK_TYPE_ISR2)
    else if ev = E_OS_SYS_STACK then tid = None \<and> s' = s\<lparr>free_sn_counter := free_sn_counter s - unat m\<rparr> \<and> 0 < m \<and> unat m \<le> free_sn_counter s
    else s' = s \<and> tid = None \<and> ev \<in> {E_OS_STATE, E_OS_SYS_TASK, E_OS_VALUE, E_OS_SYS_ACT}"
proof -
  define rp where "rp = (if ty = OSEE_TASK_TYPE_ISR2 then or (rprio - 1) OSEE_ISR2_PRIO_BIT else and rprio (not OSEE_ISR2_PRIO_BIT))"
  define dp where "dp = (if ty = OSEE_TASK_TYPE_ISR2 then or (dprio - 1) OSEE_ISR2_PRIO_BIT else and dprio (not OSEE_ISR2_PRIO_BIT))"
  let ?ok = "\<not> (ty = OSEE_TASK_TYPE_EXTENDED \<and> system_stack) \<and> n < array_size \<and>
    \<not> (rp = 0 \<or> rp < dp \<or> m = 0 \<or> dp > isr2_max) \<and> unat m \<le> free_sn_counter s"
  have bit: "rp \<ge> OSEE_ISR2_PRIO_BIT \<longleftrightarrow> ty = OSEE_TASK_TYPE_ISR2" unfolding rp_def by (simp add: isr2_bit)
  show ?thesis
  proof (cases "?ok \<and> hdb_ok")
    case True
    let ?t = "s\<lparr>free_sn_counter := free_sn_counter s - unat m, free_task_index := free_task_index s + 1,
      tdbs := (tdbs s)(free_task_index s := (tdbs s (free_task_index s))\<lparr>task_type := ty, ready_prio := rp, dispatch_prio := dp, max_num_of_act := m\<rparr>),
      tcbs := (tcbs s)(free_task_index s := (tcbs s (free_task_index s))\<lparr>current_prio := rp, status := OSEE_TASK_SUSPENDED, current_num_of_act := 0\<rparr>)\<rparr>"
    have e: "s' = ?t" "ev = E_OK" "tid = Some n"
      using r True by (simp_all add: osEE_create_task_def rp_def [symmetric] dp_def [symmetric] OSEE_TASK_ARRAY_SIZE_ok_def
          osEE_scheduler_task_reserve_activations_def n_def Let_def)
    have k: "kinv s'" by (rule create_task_kinv [OF inv _ _ _ _ _ e(1)]) (use True a fresh ty in \<open>auto simp: n_def\<close>)
    have mle: "unat m \<le> free_sn_counter s" using True by blast
    have len: "length (p_free_sn s') = free_sn_counter s' + headroom s'" "length (p_free_sn s) = free_sn_counter s + headroom s"
      using kinv_core_dest(5) [of "{#}" "{#}" s'] kinv_core_dest(5) [of "{#}" "{#}" s] k inv by (simp_all add: kinv_def)
    have "p_free_sn s' = p_free_sn s" "free_sn_counter s' = free_sn_counter s - unat m" by (simp_all add: e(1))
    then have "free_sn_counter s - unat m + headroom s' = free_sn_counter s + headroom s" using len by metis
    then have "headroom s' = headroom s + unat m" using mle by linarith
    then show ?thesis using k True bit e by (simp add: n_def not_less)
  next
    case False
    then show ?thesis
      using r by (auto simp: osEE_create_task_def rp_def [symmetric] dp_def [symmetric] OSEE_TASK_ARRAY_SIZE_ok_def
          osEE_scheduler_task_reserve_activations_def n_def [symmetric] Let_def word_gt_0 split: if_splits)
  qed
qed

definition demo_static :: kern where
  "demo_static = demo_kern\<lparr>p_idle_task := 4, free_sn_counter := 2, p_free_sn := [1, 2, 3, 4]\<rparr>"

lemma demo_static_kinv: "kinv demo_static"
proof -
  have o: "own demo_static = {#}" by (simp add: own_def demo_static_def demo_kern_def own_of_def lessThan_3)
  have l: "live demo_static = {#0#}" by (simp add: live_def o) (simp add: demo_static_def demo_kern_def)
  have p: "pool demo_static = {#0, 1, 2, 3, 4#}" by (simp add: pool_def l) (simp add: demo_static_def)
  have h: "headroom demo_static = 2" by (simp add: headroom_def demo_static_def demo_kern_def lessThan_3)
  have "kinv_core {#} {#} demo_static"
    unfolding kinv_core_def l p h by (auto simp: demo_static_def demo_kern_def less_3 wait_ok_def)
  moreover have "krun demo_static" by (auto simp: krun_def waits_ok_def top_task_def demo_static_def demo_kern_def)
  ultimately show ?thesis by (simp add: kinv_def)
qed

theorem osek_create_task_example:
  "\<exists>s'. osEE_create_task 4 0xFF True OSEE_TASK_TYPE_BASIC 3 3 2 False (demo_static\<lparr>tcbs := (tcbs demo_static)(3 := tcbs demo_static 2)\<rparr>) = (s', E_OK, Some 3) \<and>
     kinv s' \<and> free_sn_counter s' = 0"
proof -
  let ?s = "demo_static\<lparr>tcbs := (tcbs demo_static)(3 := tcbs demo_static 2)\<rparr>"
  have f: "free_task_index ?s = 3" "p_idle_task ?s = 4" "wait_mask (tcbs ?s 3) = 0" "status (tcbs ?s 3) = OSEE_TASK_SUSPENDED" "free_sn_counter ?s = 2"
    by (simp_all add: demo_static_def demo_kern_def)
  have "upd_tcb 3 (\<lambda>_. tcbs demo_static 2) demo_static = ?s" by (simp add: upd_tcb_def)
  moreover have "kinv (upd_tcb 3 (\<lambda>_. tcbs demo_static 2) demo_static)"
  proof -
    have "kinv_core {#} {#} (upd_tcb 3 (\<lambda>_. tcbs demo_static 2) demo_static)"
      by (rule kinv_core_soft) (use demo_static_kinv in \<open>simp_all add: kinv_def, simp add: demo_static_def demo_kern_def\<close>)
    moreover have "krun (upd_tcb 3 (\<lambda>_. tcbs demo_static 2) demo_static)"
      by (auto simp: krun_def waits_ok_def top_task_def demo_static_def demo_kern_def upd_tcb_def)
    ultimately show ?thesis by (simp add: kinv_def)
  qed
  ultimately have k: "kinv ?s" by simp
  obtain s' where e: "osEE_create_task 4 0xFF True OSEE_TASK_TYPE_BASIC 3 3 2 False ?s = (s', E_OK, Some 3)"
    using f by (simp add: osEE_create_task_def Let_def OSEE_TASK_ARRAY_SIZE_ok_def osEE_scheduler_task_reserve_activations_def OSEE_ISR2_PRIO_BIT_def)
  show ?thesis using osek_create_task [OF k _ _ _ _ e] f e by auto
qed
text \<open>
  What the state services report in a consistent core. \<open>GetTaskState\<close> reports RUNNING for the current
  task, SUSPENDED exactly for the tasks without activation, WAITING for the tasks that left the CPU in
  \<open>WaitEvent\<close>, and E_OS_ID for an unknown task; \<open>GetTaskID\<close> reports the running task, and in an
  interrupt handler the task the handler interrupted, even through nested handlers.
\<close>

theorem osek_task_state:
  assumes inv: "kinv s" and stk: "p_stk_sn s = hs @ x # post"
    and hs: "\<forall>h\<in>set hs. task_type (tdbs s (sn_tdb s h)) = OSEE_TASK_TYPE_ISR2" and x: "is_regular (task_type (tdbs s (sn_tdb s x)))"
  shows "GetTaskID s = Some (sn_tdb s x) \<and>
    (\<forall>t. if t < free_task_index s
      then (GetTaskState t s = Inr OSEE_TASK_SUSPENDED \<longleftrightarrow> current_num_of_act (tcbs s t) = 0) \<and>
        (GetTaskState t s = Inr OSEE_TASK_WAITING \<longleftrightarrow> status (tcbs s t) = OSEE_TASK_WAITING) \<and>
        (t = p_curr s \<longrightarrow> GetTaskState t s = Inr OSEE_TASK_RUNNING)
      else GetTaskState t s = Inl E_OS_ID)"
proof -
  have k: "kinv_core {#} {#} s" and r: "krun s" using inv by (simp_all add: kinv_def)
  have nf: "find (\<lambda>y. is_regular (task_type (tdbs s (sn_tdb s y)))) (ys @ x # post) = Some x" if "set ys \<subseteq> set hs" for ys
    using that by (induction ys) (use hs x in \<open>auto simp: is_regular_def\<close>)
  have "GetTaskID s = Some (sn_tdb s x)"
  proof (cases hs)
    case Nil
    then have "p_curr s = sn_tdb s x" using krun_dest(1) [OF r] stk by (simp add: top_task_def)
    then show ?thesis using x by (auto simp: GetTaskID_def is_regular_def)
  next
    case (Cons h hs')
    then have "p_curr s = sn_tdb s h" "task_type (tdbs s (sn_tdb s h)) = OSEE_TASK_TYPE_ISR2"
      using krun_dest(1) [OF r] stk hs by (simp_all add: top_task_def)
    moreover have "set hs' \<subseteq> set hs" using Cons by auto
    ultimately show ?thesis using stk Cons nf [of hs'] by (simp add: GetTaskID_def)
  qed
  moreover have sus: "current_num_of_act (tcbs s t) = 0 \<longleftrightarrow> status (tcbs s t) = OSEE_TASK_SUSPENDED" if "t < free_task_index s" for t
    using kinv_core_task(1,3) [OF k that] by (simp del: size_eq_0_iff_empty add: unat_eq_0) (metis unat_eq_zero)
  ultimately show ?thesis using krun_dest(3) [OF r] by (simp add: GetTaskState_def sus split: task_status.split)
qed

theorem osek_task_state_example:
  "GetTaskID demo_kern = Some 0 \<and> GetTaskState 0 demo_kern = Inr OSEE_TASK_RUNNING \<and> GetTaskState 1 demo_kern = Inr OSEE_TASK_SUSPENDED"
proof -
  have a: "p_stk_sn demo_kern = [] @ 0 # []" "\<forall>h\<in>set []. task_type (tdbs demo_kern (sn_tdb demo_kern h)) = OSEE_TASK_TYPE_ISR2"
    "is_regular (task_type (tdbs demo_kern (sn_tdb demo_kern 0)))" by (simp_all add: demo_kern_def is_regular_def)
  have f: "sn_tdb demo_kern 0 = 0" "free_task_index demo_kern = 3" "p_curr demo_kern = 0" "current_num_of_act (tcbs demo_kern 1) = 0"
    by (simp_all add: demo_kern_def)
  from osek_task_state [OF demo_kinv a] have g: "GetTaskID demo_kern = Some (sn_tdb demo_kern 0)"
    and st: "\<And>t. t < 3 \<Longrightarrow> (GetTaskState t demo_kern = Inr OSEE_TASK_SUSPENDED \<longleftrightarrow> current_num_of_act (tcbs demo_kern t) = 0) \<and>
      (t = 0 \<longrightarrow> GetTaskState t demo_kern = Inr OSEE_TASK_RUNNING)"
    unfolding f(2,3) by (blast, metis)
  show ?thesis using g st [of 0] st [of 1] f by simp
qed

text \<open>The end of a task function that did not call \<open>TerminateTask\<close>.\<close>

lemma release_all_m_inv:
  assumes r: "osEE_release_all_m t s = Some s'"
  shows "(kinv s \<longrightarrow> kinv s') \<and> p_curr s' = p_curr s \<and> p_stk_sn s' = p_stk_sn s \<and> conts s' = conts s \<and>
    wait_mask (tcbs s' u) = wait_mask (tcbs s u) \<and> free_task_index s' = free_task_index s"
proof -
  define P :: "nat \<Rightarrow> kern \<Rightarrow> kern \<Rightarrow> bool" where "P = (\<lambda>t s s'. (kinv s \<longrightarrow> kinv s') \<and> p_curr s' = p_curr s \<and> p_stk_sn s' = p_stk_sn s \<and> conts s' = conts s \<and>
    wait_mask (tcbs s' u) = wait_mask (tcbs s u) \<and> free_task_index s' = free_task_index s)"
  have "P t s s'"
  proof (rule osEE_release_all_m.raw_induct [where P = P, OF _ r])
    fix f t s s'
    assume IH: "\<And>t s s'. f t s = Some s' \<Longrightarrow> P t s s'"
    assume b: "(case p_last_m (tcbs s t) of None \<Rightarrow> Some s
      | Some m \<Rightarrow> f t (upd_tcb t (\<lambda>c. c\<lparr>p_last_m := m_next (resources s m)\<rparr>)
          (s\<lparr>resources := (resources s)(m := (resources s m)\<lparr>m_owner := None\<rparr>)\<rparr>))) = Some s'"
    show "P t s s'"
    proof (cases "p_last_m (tcbs s t)")
      case None
      then show ?thesis using b by (simp add: P_def)
    next
      case (Some m)
      let ?s = "upd_tcb t (\<lambda>c. c\<lparr>p_last_m := m_next (resources s m)\<rparr>)
          (s\<lparr>resources := (resources s)(m := (resources s m)\<lparr>m_owner := None\<rparr>)\<rparr>)"
      have "P t ?s s'" using IH b Some by simp
      moreover have "kinv ?s" if "kinv s" by (rule kinv_lock) (use that in simp)
      ultimately show ?thesis by (auto simp: P_def)
    qed
  qed
  then show ?thesis by (simp add: P_def)
qed

lemma not_terminated_inv:
  assumes r: "osEE_scheduler_task_not_terminated (p_curr s) s = Some s'" and c: "calls s" "p_stk_sn s \<noteq> []"
  shows "kinv s'"
proof -
  obtain u v where u: "osEE_release_all_m (p_curr s) u = Some v" "osEE_scheduler_task_end v = Some s'"
    "kinv u" "p_curr u = p_curr s" "p_stk_sn u = p_stk_sn s" "tcbs u = tcbs s" "free_task_index u = free_task_index s"
    using r calls_dest(1) [OF c(1)] unfolding osEE_scheduler_task_not_terminated_def Let_def
    by (auto simp: bind_eq_Some_conv split: if_splits)
  have v: "kinv v" "p_stk_sn v \<noteq> []" "wait_mask (tcbs v (p_curr v)) = 0"
    using release_all_m_inv [OF u(1), of "p_curr s"] u(3-) c calls_running [OF c] by auto
  have "upd_tcb (p_curr v) id v = v" by (rule upd_tcb_id) simp
  then show ?thesis using scheduler_task_end_inv [OF v, of id] u(2) by (metis option.inject)
qed

lemma TerminateTask_returns:
  assumes "calls s" "p_stk_sn s \<noteq> []"
  obtains s' r where "TerminateTask chk s = Some (s', r)" "kinv s'"
proof (cases "chk \<longrightarrow> is_regular (task_type (tdbs s (p_curr s))) \<and> p_last_m (tcbs s (p_curr s)) = None")
  case True
  then show ?thesis using TerminateTask_inv [OF assms, of chk] that by blast
next
  case False
  then have "TerminateTask chk s \<in> {Some (s, Some E_OS_CALLEVEL), Some (s, Some E_OS_RESOURCE)}" by (auto simp: TerminateTask_def)
  then show ?thesis using that calls_dest(1) [OF assms(1)] by blast
qed

lemma ChainTask_returns:
  assumes "calls s" "p_stk_sn s \<noteq> []"
  obtains s' r where "ChainTask chk t s = Some (s', r)" "kinv s'"
proof (cases "(chk \<longrightarrow> is_regular (task_type (tdbs s (p_curr s))) \<and> p_last_m (tcbs s (p_curr s)) = None) \<and> t < free_task_index s \<and>
    is_regular (task_type (tdbs s t)) \<and> (t = p_curr s \<or> current_num_of_act (tcbs s t) < max_num_of_act (tdbs s t))")
  case True
  then show ?thesis using ChainTask_inv [OF assms, of chk t] that by blast
next
  case False
  let ?r = "reset_isr_counters s"
  have "ChainTask chk t s \<in> {Some (s, Some E_OS_CALLEVEL), Some (s, Some E_OS_ID), Some (s, Some E_OS_RESOURCE),
      Some (osEE_end_primitive (irq_masked ?r) (?r\<lparr>irq_masked := True\<rparr>), Some E_OS_LIMIT)}"
    using False by (auto simp: ChainTask_def osEE_task_activated_def Let_def)
  moreover have "kinv (osEE_end_primitive (irq_masked ?r) (?r\<lparr>irq_masked := True\<rparr>))" using calls_dest(1) [OF assms(1)] by simp
  ultimately show ?thesis using that calls_dest(1) [OF assms(1)] by blast
qed

lemma ActivateTask_returns:
  assumes "calls s"
  obtains s' r where "ActivateTask t s = Some (s', r)" "kinv s'"
proof (cases "t < free_task_index s \<and> is_regular (task_type (tdbs s t)) \<and> current_num_of_act (tcbs s t) < max_num_of_act (tdbs s t)")
  case True
  then show ?thesis using ActivateTask_inv [OF assms, of t] that by blast
next
  case False
  then have "ActivateTask t s \<in> {Some (s, Some E_OS_ID), Some (s, Some E_OS_LIMIT)}"
    by (auto simp: ActivateTask_def osEE_task_activated_def Let_def)
  then show ?thesis using that calls_dest(1) [OF assms] by blast
qed

end
