(* ===== verification/EeCounter.thy ===== *)
theory EeCounter
  imports EeOsek
begin

text \<open>
  Counters and alarms: \<open>ee_oo_counter.c\<close>, \<open>ee_oo_alarm.c\<close> and the services on them in \<open>ee_oo_api_osek.c\<close>,
  in the configuration with alarms and without schedule tables, where the alarm and its trigger are one
  object. The trigger queue of a counter is the list of its alarms in queue order. \<open>TickType\<close> is the
  64-bit register type.

  A counter may be driven by an alarm of another counter, so the tick handler is recursive: the
  recursion is bounded by the fuel of \<open>osEE_counter_increment\<close>, and \<open>None\<close> means that it ran out or
  that NULL was dereferenced. An alarm callback is application code, the parameter \<open>cb\<close>.
\<close>

type_synonym tick = u64

datatype trigger_status = OSEE_TRIGGER_INACTIVE | OSEE_TRIGGER_CANCELED | OSEE_TRIGGER_ACTIVE
  | OSEE_TRIGGER_EXPIRED | OSEE_TRIGGER_REENABLED

text \<open>The code compares the status by the order of the enumeration.\<close>

fun status_rank :: "trigger_status \<Rightarrow> nat" where
  "status_rank OSEE_TRIGGER_INACTIVE = 0"
| "status_rank OSEE_TRIGGER_CANCELED = 1"
| "status_rank OSEE_TRIGGER_ACTIVE = 2"
| "status_rank OSEE_TRIGGER_EXPIRED = 3"
| "status_rank OSEE_TRIGGER_REENABLED = 4"

instantiation trigger_status :: linorder
begin

definition less_eq_trigger_status :: "trigger_status \<Rightarrow> trigger_status \<Rightarrow> bool" where
  "less_eq_trigger_status a b \<longleftrightarrow> status_rank a \<le> status_rank b"

definition less_trigger_status :: "trigger_status \<Rightarrow> trigger_status \<Rightarrow> bool" where
  "less_trigger_status a b \<longleftrightarrow> status_rank a < status_rank b"

instance
proof
  fix x y :: trigger_status
  show "x \<le> y \<Longrightarrow> y \<le> x \<Longrightarrow> x = y" by (cases x; cases y) (simp_all add: less_eq_trigger_status_def)
qed (auto simp: less_eq_trigger_status_def less_trigger_status_def)

end

lemmas trigger_status_order = less_eq_trigger_status_def less_trigger_status_def

datatype action = OSEE_ACTION_TASK nat | OSEE_ACTION_EVENT nat u64 | OSEE_ACTION_COUNTER nat | OSEE_ACTION_CALLBACK nat

record trigger =
  t_when :: tick
  trig_status :: trigger_status
  cycle :: tick
  trig_counter :: nat
  trig_action :: action

record counter =
  cvalue :: tick
  prescaler :: tick
  trigger_queue :: "nat list"
  maxallowedvalue :: tick
  ticksperbase :: tick
  mincycle :: tick

record csys =
  counters :: "nat \<Rightarrow> counter"
  alarms :: "nat \<Rightarrow> trigger"
  free_counter_index :: nat
  free_alarm_index :: nat
  ker :: kern

definition upd_alarm :: "nat \<Rightarrow> (trigger \<Rightarrow> trigger) \<Rightarrow> csys \<Rightarrow> csys" where
  "upd_alarm a f s = s\<lparr>alarms := (alarms s)(a := f (alarms s a))\<rparr>"

definition upd_counter :: "nat \<Rightarrow> (counter \<Rightarrow> counter) \<Rightarrow> csys \<Rightarrow> csys" where
  "upd_counter c f s = s\<lparr>counters := (counters s)(c := f (counters s c))\<rparr>"

lemma upd_alarm_simps [simp]:
  "counters (upd_alarm a f s) = counters s" "alarms (upd_alarm a f s) = (alarms s)(a := f (alarms s a))" "ker (upd_alarm a f s) = ker s"
  "free_counter_index (upd_alarm a f s) = free_counter_index s" "free_alarm_index (upd_alarm a f s) = free_alarm_index s"
  by (simp_all add: upd_alarm_def)

lemma upd_counter_simps [simp]:
  "alarms (upd_counter c g s) = alarms s" "counters (upd_counter c g s) = (counters s)(c := g (counters s c))" "ker (upd_counter c g s) = ker s"
  "free_counter_index (upd_counter c g s) = free_counter_index s" "free_alarm_index (upd_counter c g s) = free_alarm_index s"
  by (simp_all add: upd_counter_def)

subsection \<open>Counter arithmetic\<close>

definition osEE_counter_eval_when :: "counter \<Rightarrow> tick \<Rightarrow> tick" where
  "osEE_counter_eval_when c delta =
     (if maxallowedvalue c - delta \<ge> cvalue c then cvalue c + delta
      else delta - (maxallowedvalue c - cvalue c) - 1)"

definition osEE_counter_eval_delta :: "counter \<Rightarrow> tick \<Rightarrow> tick" where
  "osEE_counter_eval_delta c w =
     (if w > cvalue c then w - cvalue c else (maxallowedvalue c - cvalue c) + w + 1)"

subsection \<open>Trigger queue\<close>

text \<open>The scan of the insertion: the part of the queue the new trigger goes behind.\<close>

definition insert_goes_on :: "tick \<Rightarrow> tick \<Rightarrow> tick \<Rightarrow> bool" where
  "insert_goes_on counter_value w current_when =
     (if current_when > counter_value then w \<ge> current_when \<or> w \<le> counter_value
      else w \<le> counter_value \<and> w \<ge> current_when)"

fun insert_scan :: "(nat \<Rightarrow> tick) \<Rightarrow> tick \<Rightarrow> tick \<Rightarrow> nat \<Rightarrow> nat list \<Rightarrow> nat list" where
  "insert_scan whens v w t [] = [t]"
| "insert_scan whens v w t (x # xs) =
     (if insert_goes_on v w (whens x) then x # insert_scan whens v w t xs else t # x # xs)"

definition osEE_counter_insert_abs_trigger :: "nat \<Rightarrow> nat \<Rightarrow> tick \<Rightarrow> csys \<Rightarrow> csys" where
  "osEE_counter_insert_abs_trigger c t w s =
     (let s1 = upd_alarm t (\<lambda>a. a\<lparr>t_when := w\<rparr>) s in
      upd_counter c (\<lambda>k. k\<lparr>trigger_queue := insert_scan (\<lambda>x. t_when (alarms s1 x)) (cvalue k) w t (trigger_queue k)\<rparr>) s1)"

definition osEE_counter_insert_rel_trigger :: "nat \<Rightarrow> nat \<Rightarrow> tick \<Rightarrow> csys \<Rightarrow> csys" where
  "osEE_counter_insert_rel_trigger c t delta s =
     osEE_counter_insert_abs_trigger c t (osEE_counter_eval_when (counters s c) delta) s"

text \<open>The search starts behind the head without a test: an empty queue is dereferenced.\<close>

definition osEE_counter_cancel_trigger :: "nat \<Rightarrow> nat \<Rightarrow> csys \<Rightarrow> csys option" where
  "osEE_counter_cancel_trigger c t s =
     (case trigger_queue (counters s c) of [] \<Rightarrow> None
      | q \<Rightarrow> Some (upd_counter c (\<lambda>k. k\<lparr>trigger_queue := remove1 t q\<rparr>) s))"

subsection \<open>Ticks\<close>

definition osEE_handle_action ::
  "bool \<Rightarrow> (nat \<Rightarrow> csys \<Rightarrow> csys) \<Rightarrow> (nat \<Rightarrow> csys \<Rightarrow> csys option) \<Rightarrow> action \<Rightarrow> csys \<Rightarrow> (csys \<times> StatusType) option" where
  "osEE_handle_action chk cb incr p_action s =
     (case p_action of
        OSEE_ACTION_TASK t \<Rightarrow>
          let (k, ev) = osEE_task_activated t (ker s) in
          if ev = E_OK then osEE_scheduler_task_insert t k \<bind> (\<lambda>(k', _). Some (s\<lparr>ker := k'\<rparr>, ev))
          else Some (s\<lparr>ker := k\<rparr>, ev)
      | OSEE_ACTION_EVENT t m \<Rightarrow>
          let (k, p_sn, ev) = osEE_task_event_set_mask chk t m (ker s) in
          (case p_sn of None \<Rightarrow> Some (s\<lparr>ker := k\<rparr>, ev)
           | Some x \<Rightarrow> Some (s\<lparr>ker := fst (osEE_scheduler_task_unblocked x k)\<rparr>, ev))
      | OSEE_ACTION_COUNTER c \<Rightarrow> incr c s \<bind> (\<lambda>s'. Some (s', E_OK))
      | OSEE_ACTION_CALLBACK f \<Rightarrow> Some (cb f s, E_OK))"

definition osEE_counter_handle_alarm ::
  "bool \<Rightarrow> (nat \<Rightarrow> csys \<Rightarrow> csys) \<Rightarrow> (nat \<Rightarrow> csys \<Rightarrow> csys option) \<Rightarrow> nat \<Rightarrow> nat \<Rightarrow> csys \<Rightarrow> csys option" where
  "osEE_counter_handle_alarm chk cb incr c t s =
     osEE_handle_action chk cb incr (trig_action (alarms s t)) s \<bind> (\<lambda>(s1, _).
     Some (if trig_status (alarms s1 t) = OSEE_TRIGGER_EXPIRED then
             if cycle (alarms s1 t) > 0
             then osEE_counter_insert_rel_trigger c t (cycle (alarms s1 t)) (upd_alarm t (\<lambda>a. a\<lparr>trig_status := OSEE_TRIGGER_ACTIVE\<rparr>) s1)
             else upd_alarm t (\<lambda>a. a\<lparr>trig_status := OSEE_TRIGGER_INACTIVE\<rparr>) s1
           else s1))"

fun handle_triggered ::
  "bool \<Rightarrow> (nat \<Rightarrow> csys \<Rightarrow> csys) \<Rightarrow> (nat \<Rightarrow> csys \<Rightarrow> csys option) \<Rightarrow> nat \<Rightarrow> nat list \<Rightarrow> csys \<Rightarrow> csys option" where
  "handle_triggered chk cb incr c [] s = Some s"
| "handle_triggered chk cb incr c (t # ts) s =
     osEE_counter_handle_alarm chk cb incr c t s \<bind> handle_triggered chk cb incr c ts"

text \<open>The loop that marks the due triggers and takes them off the queue.\<close>

definition pop_triggered :: "nat \<Rightarrow> csys \<Rightarrow> csys \<times> nat list" where
  "pop_triggered c s =
     (let v = cvalue (counters s c); due = (\<lambda>x. t_when (alarms s x) = v); q = trigger_queue (counters s c) in
      (upd_counter c (\<lambda>k. k\<lparr>trigger_queue := dropWhile due q\<rparr>)
         (s\<lparr>alarms := \<lambda>x. if x \<in> set (takeWhile due q) then (alarms s x)\<lparr>trig_status := OSEE_TRIGGER_EXPIRED\<rparr> else alarms s x\<rparr>),
       takeWhile due q))"

definition counter_step :: "counter \<Rightarrow> counter" where
  "counter_step k = k\<lparr>cvalue := if cvalue k \<ge> maxallowedvalue k then 0 else cvalue k + 1\<rparr>"

definition counter_tick ::
  "bool \<Rightarrow> (nat \<Rightarrow> csys \<Rightarrow> csys) \<Rightarrow> (nat \<Rightarrow> csys \<Rightarrow> csys option) \<Rightarrow> nat \<Rightarrow> csys \<Rightarrow> csys option" where
  "counter_tick chk cb incr c s =
     (let k = counters s c in
      if ticksperbase k > 1 \<and> prescaler k + 1 < ticksperbase k
      then Some (upd_counter c (\<lambda>k. k\<lparr>prescaler := prescaler k + 1\<rparr>) s)
      else
        let s1 = (if ticksperbase k > 1 then upd_counter c (\<lambda>k. k\<lparr>prescaler := 0\<rparr>) s else s);
            (s2, due) = pop_triggered c (upd_counter c counter_step s1) in
        handle_triggered chk cb incr c due s2)"

primrec osEE_counter_increment ::
  "bool \<Rightarrow> (nat \<Rightarrow> csys \<Rightarrow> csys) \<Rightarrow> nat \<Rightarrow> nat \<Rightarrow> csys \<Rightarrow> csys option" where
  "osEE_counter_increment chk cb 0 c s = None"
| "osEE_counter_increment chk cb (Suc n) c s = counter_tick chk cb (osEE_counter_increment chk cb n) c s"

subsection \<open>Alarms\<close>

definition osEE_alarm_set_rel :: "nat \<Rightarrow> nat \<Rightarrow> tick \<Rightarrow> tick \<Rightarrow> csys \<Rightarrow> csys \<times> StatusType" where
  "osEE_alarm_set_rel c t increment cyc s =
     (if trig_status (alarms s t) > OSEE_TRIGGER_CANCELED then (s, E_OS_STATE)
      else if trig_status (alarms s t) = OSEE_TRIGGER_CANCELED then
        (upd_alarm t (\<lambda>a. a\<lparr>cycle := cyc, t_when := osEE_counter_eval_when (counters s c) increment, trig_status := OSEE_TRIGGER_REENABLED\<rparr>) s, E_OK)
      else (osEE_counter_insert_rel_trigger c t increment
              (upd_alarm t (\<lambda>a. a\<lparr>cycle := cyc, trig_status := OSEE_TRIGGER_ACTIVE\<rparr>) s), E_OK))"

definition osEE_alarm_set_abs :: "nat \<Rightarrow> nat \<Rightarrow> tick \<Rightarrow> tick \<Rightarrow> csys \<Rightarrow> csys \<times> StatusType" where
  "osEE_alarm_set_abs c t start cyc s =
     (if trig_status (alarms s t) > OSEE_TRIGGER_CANCELED then (s, E_OS_STATE)
      else if trig_status (alarms s t) = OSEE_TRIGGER_CANCELED then
        (upd_alarm t (\<lambda>a. a\<lparr>cycle := cyc, t_when := start, trig_status := OSEE_TRIGGER_REENABLED\<rparr>) s, E_OK)
      else (osEE_counter_insert_abs_trigger c t start
              (upd_alarm t (\<lambda>a. a\<lparr>cycle := cyc, trig_status := OSEE_TRIGGER_ACTIVE\<rparr>) s), E_OK))"

definition osEE_alarm_cancel :: "nat \<Rightarrow> csys \<Rightarrow> (csys \<times> StatusType) option" where
  "osEE_alarm_cancel t s =
     (if trig_status (alarms s t) \<le> OSEE_TRIGGER_CANCELED then Some (s, E_OS_NOFUNC)
      else if trig_status (alarms s t) \<ge> OSEE_TRIGGER_EXPIRED
      then Some (upd_alarm t (\<lambda>a. a\<lparr>trig_status := OSEE_TRIGGER_CANCELED\<rparr>) s, E_OK)
      else osEE_counter_cancel_trigger (trig_counter (alarms s t)) t (upd_alarm t (\<lambda>a. a\<lparr>trig_status := OSEE_TRIGGER_INACTIVE\<rparr>) s)
             \<bind> (\<lambda>s'. Some (s', E_OK)))"

definition osEE_alarm_get :: "nat \<Rightarrow> csys \<Rightarrow> StatusType + tick" where
  "osEE_alarm_get t s =
     (if trig_status (alarms s t) \<le> OSEE_TRIGGER_CANCELED then Inl E_OS_NOFUNC
      else Inr (osEE_counter_eval_delta (counters s (trig_counter (alarms s t))) (t_when (alarms s t))))"

subsection \<open>Services\<close>

text \<open>The critical section of a service: the kernel primitives around the operation on the alarms.\<close>

definition bad_cycle :: "counter \<Rightarrow> tick \<Rightarrow> bool" where
  "bad_cycle k cyc \<longleftrightarrow> cyc \<noteq> 0 \<and> (cyc < mincycle k \<or> cyc > maxallowedvalue k)"

definition SetRelAlarm :: "bool \<Rightarrow> nat \<Rightarrow> tick \<Rightarrow> tick \<Rightarrow> csys \<Rightarrow> csys \<times> StatusType" where
  "SetRelAlarm chk AlarmID increment cyc s =
     (if \<not> AlarmID < free_alarm_index s then (s, E_OS_ID)
      else
        let c = trig_counter (alarms s AlarmID); k = counters s c in
        if chk \<and> (increment = 0 \<or> increment > maxallowedvalue k \<or> bad_cycle k cyc) then (s, E_OS_VALUE)
        else
          let (k1, flags) = osEE_begin_primitive (ker s);
              (s1, ev) = osEE_alarm_set_rel c AlarmID increment cyc (s\<lparr>ker := k1\<rparr>) in
          (s1\<lparr>ker := osEE_end_primitive flags (ker s1)\<rparr>, ev))"

definition SetAbsAlarm :: "bool \<Rightarrow> nat \<Rightarrow> tick \<Rightarrow> tick \<Rightarrow> csys \<Rightarrow> csys \<times> StatusType" where
  "SetAbsAlarm chk AlarmID start cyc s =
     (if \<not> AlarmID < free_alarm_index s then (s, E_OS_ID)
      else
        let c = trig_counter (alarms s AlarmID); k = counters s c in
        if chk \<and> (start > maxallowedvalue k \<or> bad_cycle k cyc) then (s, E_OS_VALUE)
        else
          let (k1, flags) = osEE_begin_primitive (ker s);
              (s1, ev) = osEE_alarm_set_abs c AlarmID start cyc (s\<lparr>ker := k1\<rparr>) in
          (s1\<lparr>ker := osEE_end_primitive flags (ker s1)\<rparr>, ev))"

definition CancelAlarm :: "nat \<Rightarrow> csys \<Rightarrow> (csys \<times> StatusType) option" where
  "CancelAlarm AlarmID s =
     (if \<not> AlarmID < free_alarm_index s then Some (s, E_OS_ID)
      else
        let (k1, flags) = osEE_begin_primitive (ker s) in
        osEE_alarm_cancel AlarmID (s\<lparr>ker := k1\<rparr>) \<bind> (\<lambda>(s1, ev). Some (s1\<lparr>ker := osEE_end_primitive flags (ker s1)\<rparr>, ev)))"

text \<open>The output parameters of the queries are not NULL.\<close>

definition GetAlarm :: "nat \<Rightarrow> csys \<Rightarrow> StatusType + tick" where
  "GetAlarm AlarmID s = (if \<not> AlarmID < free_alarm_index s then Inl E_OS_ID else osEE_alarm_get AlarmID s)"

definition GetAlarmBase :: "nat \<Rightarrow> csys \<Rightarrow> StatusType + tick \<times> tick \<times> tick" where
  "GetAlarmBase AlarmID s =
     (if \<not> AlarmID < free_alarm_index s then Inl E_OS_ID
      else let k = counters s (trig_counter (alarms s AlarmID)) in Inr (maxallowedvalue k, ticksperbase k, mincycle k))"

definition GetCounterValue :: "nat \<Rightarrow> csys \<Rightarrow> StatusType + tick" where
  "GetCounterValue CounterID s =
     (if \<not> CounterID < free_counter_index s then Inl E_OS_ID else Inr (cvalue (counters s CounterID)))"

text \<open>The result is the new \<open>Value\<close> and the elapsed ticks.\<close>

definition GetElapsedValue :: "bool \<Rightarrow> nat \<Rightarrow> tick \<Rightarrow> csys \<Rightarrow> StatusType + tick \<times> tick" where
  "GetElapsedValue chk CounterID Value s =
     (if \<not> CounterID < free_counter_index s then Inl E_OS_ID
      else
        let k = counters s CounterID; curr_value = cvalue k in
        if chk \<and> Value > maxallowedvalue k then Inl E_OS_VALUE
        else Inr (curr_value, if curr_value \<ge> Value then curr_value - Value
                              else (maxallowedvalue k - (Value - curr_value)) + 1))"

text \<open>\<open>fuel\<close> bounds the chain of counters that drive each other.\<close>

definition IncrementCounter ::
  "bool \<Rightarrow> (nat \<Rightarrow> csys \<Rightarrow> csys) \<Rightarrow> nat \<Rightarrow> nat \<Rightarrow> csys \<Rightarrow> (csys \<times> StatusType option) option" where
  "IncrementCounter chk cb fuel CounterID s =
     (if \<not> CounterID < free_counter_index s then Some (s, Some E_OS_ID)
      else
        let (k1, flags) = osEE_begin_primitive (ker s) in
        osEE_counter_increment chk cb fuel CounterID (s\<lparr>ker := k1\<rparr>) \<bind> (\<lambda>s1.
        let k = ker s1; cur = p_curr k in
        if is_regular (task_type (tdbs k cur)) then
          let (k2, r) = leave cur (C_END flags) flags (osEE_scheduler_task_preemption_point k) in Some (s1\<lparr>ker := k2\<rparr>, r)
        else Some (s1\<lparr>ker := osEE_end_primitive flags k\<rparr>, Some E_OK)))"

subsection \<open>Remaining ticks\<close>

text \<open>The number of increments of the counter until its value is \<open>w\<close>.\<close>

definition ticks_left :: "counter \<Rightarrow> tick \<Rightarrow> nat" where
  "ticks_left k w =
     (if cvalue k < w then unat w - unat (cvalue k) else unat (maxallowedvalue k) - unat (cvalue k) + unat w + 1)"

lemma unat_u64: "unat (x :: u64) < 2 ^ 64"
proof -
  have "unat x < 2 ^ LENGTH(64)" by (rule unsigned_less)
  then show ?thesis by simp
qed

lemma eval_when_ticks:
  assumes "cvalue k \<le> maxallowedvalue k" "0 < delta" "delta \<le> maxallowedvalue k"
  shows "osEE_counter_eval_when k delta \<le> maxallowedvalue k" "ticks_left k (osEE_counter_eval_when k delta) = unat delta"
proof -
  let ?v = "cvalue k" and ?m = "maxallowedvalue k" and ?w = "osEE_counter_eval_when k delta"
  have d: "0 < unat delta" "unat delta \<le> unat ?m" "unat ?v \<le> unat ?m" using assms by (simp_all add: word_less_nat_alt word_le_nat_alt)
  have md: "unat (?m - delta) = unat ?m - unat delta" "unat (?m - ?v) = unat ?m - unat ?v"
    using assms by (simp_all add: unat_sub)
  have "?w \<le> ?m \<and> ticks_left k ?w = unat delta"
  proof (cases "unat ?m - unat delta \<ge> unat ?v")
    case True
    then have w: "?w = ?v + delta" by (simp add: osEE_counter_eval_when_def word_le_nat_alt md)
    have "unat (?v + delta) = unat ?v + unat delta"
      using True d unat_u64 [of ?m] by (subst unat_plus_if_size) (auto simp: word_size)
    then show ?thesis using True d by (auto simp: w ticks_left_def word_less_nat_alt word_le_nat_alt)
  next
    case False
    then have w: "?w = delta - (?m - ?v) - 1" by (simp add: osEE_counter_eval_when_def word_le_nat_alt md)
    have a: "unat (delta - (?m - ?v)) = unat delta - (unat ?m - unat ?v)"
      using False d by (subst unat_sub) (auto simp: word_le_nat_alt md)
    have "unat (delta - (?m - ?v) - 1) = unat delta - (unat ?m - unat ?v) - 1"
      using False d a by (subst unat_sub) (auto simp: word_le_nat_alt)
    then show ?thesis using False d by (auto simp: w ticks_left_def word_less_nat_alt word_le_nat_alt)
  qed
  then show "?w \<le> ?m" "ticks_left k ?w = unat delta" by simp_all
qed

lemma eval_delta_ticks:
  assumes "cvalue k \<le> maxallowedvalue k" "w \<le> maxallowedvalue k" "w \<noteq> cvalue k \<or> maxallowedvalue k < - 1"
  shows "unat (osEE_counter_eval_delta k w) = ticks_left k w"
proof (cases "cvalue k < w")
  case True
  then show ?thesis by (simp add: osEE_counter_eval_delta_def ticks_left_def unat_sub word_less_nat_alt word_le_nat_alt)
next
  case False
  let ?v = "cvalue k" and ?m = "maxallowedvalue k"
  have md: "unat (?m - ?v) = unat ?m - unat ?v" using assms by (simp add: unat_sub)
  have le: "unat w \<le> unat ?v" "unat ?v \<le> unat ?m" using assms False by (simp_all add: word_less_nat_alt word_le_nat_alt)
  have b: "unat ?m < 2 ^ 64" using unat_u64 [of ?m] by simp
  have lt: "unat ?m - unat ?v + unat w + 1 < 2 ^ 64"
  proof (cases "w = ?v")
    case True
    then have "?m < - 1" using assms(3) by simp
    then have "unat ?m < unat (- 1 :: u64)" by (simp only: word_less_nat_alt)
    also have "unat (- 1 :: u64) = 2 ^ 64 - 1" by (simp add: unsigned_minus_1_eq_mask mask_eq_exp_minus_1)
    finally show ?thesis using le True by simp
  next
    case False
    then have "unat w \<noteq> unat ?v" by (simp add: word_unat_eq_iff)
    then show ?thesis using le b by simp
  qed
  have "unat (?m - ?v + w) = unat ?m - unat ?v + unat w"
    using lt md by (subst unat_plus_if_size) (auto simp: word_size)
  then have "unat (?m - ?v + w + 1) = unat ?m - unat ?v + unat w + 1"
    using lt by (subst unat_plus_if_size) (auto simp: word_size)
  then show ?thesis using False by (simp add: osEE_counter_eval_delta_def ticks_left_def)
qed

lemma insert_goes_on_ticks:
  assumes "cvalue k \<le> maxallowedvalue k" "w \<le> maxallowedvalue k" "x \<le> maxallowedvalue k"
  shows "insert_goes_on (cvalue k) w x \<longleftrightarrow> ticks_left k x \<le> ticks_left k w"
  using assms by (auto simp: insert_goes_on_def ticks_left_def word_less_nat_alt word_le_nat_alt)

lemma counter_step_simps [simp]:
  "maxallowedvalue (counter_step k) = maxallowedvalue k" "trigger_queue (counter_step k) = trigger_queue k"
  "ticksperbase (counter_step k) = ticksperbase k" "prescaler (counter_step k) = prescaler k" "mincycle (counter_step k) = mincycle k"
  by (simp_all add: counter_step_def)

lemma unat_step: "cvalue k \<le> maxallowedvalue k \<Longrightarrow>
    unat (cvalue (counter_step k)) = (if unat (cvalue k) \<ge> unat (maxallowedvalue k) then 0 else unat (cvalue k) + 1)"
  using unat_u64 [of "maxallowedvalue k"] by (auto simp: counter_step_def word_le_nat_alt unat_plus_if_size word_size)

lemma counter_step_ticks:
  assumes "cvalue k \<le> maxallowedvalue k"
  shows "cvalue (counter_step k) \<le> maxallowedvalue k"
    "w \<le> maxallowedvalue k \<Longrightarrow> w = cvalue (counter_step k) \<longleftrightarrow> ticks_left k w = 1"
    "w \<le> maxallowedvalue k \<Longrightarrow> w \<noteq> cvalue (counter_step k) \<Longrightarrow> ticks_left (counter_step k) w = ticks_left k w - 1"
  using assms
  by (auto simp: word_le_nat_alt word_less_nat_alt word_unat_eq_iff unat_step ticks_left_def split: if_splits)

lemma ticks_left_pos: "0 < ticks_left k w"
  by (simp add: ticks_left_def word_less_nat_alt)

lemma ticks_left_value: "w \<noteq> cvalue k \<Longrightarrow> cvalue k \<le> maxallowedvalue k \<Longrightarrow> w \<le> maxallowedvalue k \<Longrightarrow> ticks_left k w \<le> unat (maxallowedvalue k)"
  by (auto simp: ticks_left_def word_le_nat_alt word_less_nat_alt word_unat_eq_iff)

subsection \<open>Invariant\<close>

abbreviation left :: "csys \<Rightarrow> nat \<Rightarrow> nat \<Rightarrow> nat" where
  "left s c a \<equiv> ticks_left (counters s c) (t_when (alarms s a))"

text \<open>The queue of a counter holds its armed alarms by the ticks they have left.\<close>

definition counter_ok :: "csys \<Rightarrow> nat \<Rightarrow> bool" where
  "counter_ok s c \<longleftrightarrow>
     cvalue (counters s c) \<le> maxallowedvalue (counters s c) \<and>
     distinct (trigger_queue (counters s c)) \<and>
     sorted (map (left s c) (trigger_queue (counters s c))) \<and>
     set (trigger_queue (counters s c)) =
       {a. a < free_alarm_index s \<and> trig_counter (alarms s a) = c \<and> trig_status (alarms s a) = OSEE_TRIGGER_ACTIVE} \<and>
     (\<forall>a\<in>set (trigger_queue (counters s c)). t_when (alarms s a) \<le> maxallowedvalue (counters s c))"

fun action_ok :: "csys \<Rightarrow> action \<Rightarrow> bool" where
  "action_ok s (OSEE_ACTION_TASK t) \<longleftrightarrow> t < free_task_index (ker s)"
| "action_ok s (OSEE_ACTION_EVENT t m) \<longleftrightarrow> t < free_task_index (ker s)"
| "action_ok s (OSEE_ACTION_COUNTER c) \<longleftrightarrow> c < free_counter_index s"
| "action_ok s (OSEE_ACTION_CALLBACK f) \<longleftrightarrow> True"

text \<open>\<open>E\<close> are the expired alarms whose action has not been handled yet.\<close>

definition alarm_ok :: "nat set \<Rightarrow> csys \<Rightarrow> nat \<Rightarrow> bool" where
  "alarm_ok E s a \<longleftrightarrow>
     trig_counter (alarms s a) < free_counter_index s \<and>
     cycle (alarms s a) \<le> maxallowedvalue (counters s (trig_counter (alarms s a))) \<and>
     action_ok s (trig_action (alarms s a)) \<and>
     trig_status (alarms s a) \<in> {OSEE_TRIGGER_INACTIVE, OSEE_TRIGGER_ACTIVE, OSEE_TRIGGER_EXPIRED} \<and>
     (trig_status (alarms s a) = OSEE_TRIGGER_EXPIRED \<longleftrightarrow> a \<in> E)"

definition cinv :: "nat set \<Rightarrow> csys \<Rightarrow> bool" where
  "cinv E s \<longleftrightarrow> (\<forall>c<free_counter_index s. counter_ok s c) \<and> (\<forall>a<free_alarm_index s. alarm_ok E s a)"

lemma cinv_dest:
  assumes "cinv E s"
  shows "c < free_counter_index s \<Longrightarrow> counter_ok s c" "a < free_alarm_index s \<Longrightarrow> alarm_ok E s a"
  using assms by (simp_all add: cinv_def)

lemma counter_ok_cong:
  assumes "counter_ok s c" "free_alarm_index s' = free_alarm_index s" "cvalue (counters s' c) = cvalue (counters s c)"
    "maxallowedvalue (counters s' c) = maxallowedvalue (counters s c)" "trigger_queue (counters s' c) = trigger_queue (counters s c)"
    "\<And>a. a < free_alarm_index s \<Longrightarrow> trig_counter (alarms s' a) = trig_counter (alarms s a)"
    "\<And>a. a < free_alarm_index s \<Longrightarrow> trig_counter (alarms s a) = c \<Longrightarrow>
       t_when (alarms s' a) = t_when (alarms s a) \<and>
       (trig_status (alarms s' a) = OSEE_TRIGGER_ACTIVE \<longleftrightarrow> trig_status (alarms s a) = OSEE_TRIGGER_ACTIVE)"
  shows "counter_ok s' c"
proof -
  let ?q = "trigger_queue (counters s c)"
  have q: "set ?q = {a. a < free_alarm_index s \<and> trig_counter (alarms s a) = c \<and> trig_status (alarms s a) = OSEE_TRIGGER_ACTIVE}"
    using assms(1) by (simp add: counter_ok_def)
  have w: "t_when (alarms s' a) = t_when (alarms s a)" if "a \<in> set ?q" for a using assms(7) that by (simp add: q)
  have m: "map (left s' c) ?q = map (left s c) ?q" using w assms(3,4) by (simp add: ticks_left_def)
  have "sorted (map (left s' c) ?q)" using assms(1) unfolding m by (simp add: counter_ok_def)
  moreover have "set ?q = {a. a < free_alarm_index s' \<and> trig_counter (alarms s' a) = c \<and> trig_status (alarms s' a) = OSEE_TRIGGER_ACTIVE}"
    using assms(2,6,7) by (auto simp: q)
  moreover have "\<forall>a\<in>set ?q. t_when (alarms s' a) \<le> maxallowedvalue (counters s c)" using assms(1) w by (simp add: counter_ok_def)
  moreover have "cvalue (counters s c) \<le> maxallowedvalue (counters s c)" "distinct ?q" using assms(1) by (simp_all add: counter_ok_def)
  ultimately show ?thesis unfolding counter_ok_def assms(3-5) by (intro conjI)
qed

subsection \<open>The queue as a countdown\<close>

lemma set_insert_scan [simp]: "set (insert_scan f v w t q) = insert t (set q)"
  by (induction q) auto

lemma distinct_insert_scan: "distinct (insert_scan f v w t q) \<longleftrightarrow> t \<notin> set q \<and> distinct q"
  by (induction q) auto

lemma sorted_insert_scan:
  assumes "cvalue k \<le> maxallowedvalue k" "w \<le> maxallowedvalue k" "\<forall>x\<in>set q. f x \<le> maxallowedvalue k"
    "sorted (map (\<lambda>x. ticks_left k (f x)) q)" "f t = w"
  shows "sorted (map (\<lambda>x. ticks_left k (f x)) (insert_scan f (cvalue k) w t q))"
  using assms(3,4)
proof (induction q)
  case (Cons x q)
  then show ?case using insert_goes_on_ticks [OF assms(1,2), of "f x"] assms(5) by auto
qed simp

lemma insert_abs_simps [simp]:
  "alarms (osEE_counter_insert_abs_trigger c t w s) = (alarms s)(t := (alarms s t)\<lparr>t_when := w\<rparr>)"
  "d \<noteq> c \<Longrightarrow> counters (osEE_counter_insert_abs_trigger c t w s) d = counters s d"
  "free_counter_index (osEE_counter_insert_abs_trigger c t w s) = free_counter_index s"
  "free_alarm_index (osEE_counter_insert_abs_trigger c t w s) = free_alarm_index s"
  "ker (osEE_counter_insert_abs_trigger c t w s) = ker s"
  "cvalue (counters (osEE_counter_insert_abs_trigger c t w s) d) = cvalue (counters s d)"
  "maxallowedvalue (counters (osEE_counter_insert_abs_trigger c t w s) d) = maxallowedvalue (counters s d)"
  "ticksperbase (counters (osEE_counter_insert_abs_trigger c t w s) d) = ticksperbase (counters s d)"
  "mincycle (counters (osEE_counter_insert_abs_trigger c t w s) d) = mincycle (counters s d)"
  "prescaler (counters (osEE_counter_insert_abs_trigger c t w s) d) = prescaler (counters s d)"
  "trigger_queue (counters (osEE_counter_insert_abs_trigger c t w s) c) =
     insert_scan (\<lambda>x. if x = t then w else t_when (alarms s x)) (cvalue (counters s c)) w t (trigger_queue (counters s c))"
  by (auto simp: osEE_counter_insert_abs_trigger_def Let_def intro!: arg_cong [where f = "\<lambda>f. insert_scan f _ _ _ _"])

text \<open>Putting an alarm that is not armed into the queue of its counter.\<close>

lemma insert_armed:
  assumes ok: "counter_ok s c" and t: "t < free_alarm_index s" "trig_counter (alarms s t) = c"
    "trig_status (alarms s t) \<noteq> OSEE_TRIGGER_ACTIVE" and w: "w \<le> maxallowedvalue (counters s c)"
    and f: "trig_status (f (alarms s t)) = OSEE_TRIGGER_ACTIVE" "trig_counter (f (alarms s t)) = c"
  shows "counter_ok (osEE_counter_insert_abs_trigger c t w (upd_alarm t f s)) c"
proof -
  let ?q = "trigger_queue (counters s c)" and ?k = "counters s c" and ?f = "\<lambda>x. if x = t then w else t_when (alarms s x)"
  let ?s = "osEE_counter_insert_abs_trigger c t w (upd_alarm t f s)"
  have q: "set ?q = {a. a < free_alarm_index s \<and> trig_counter (alarms s a) = c \<and> trig_status (alarms s a) = OSEE_TRIGGER_ACTIVE}"
    and v: "cvalue ?k \<le> maxallowedvalue ?k" and d: "distinct ?q" and srt: "sorted (map (left s c) ?q)"
    and wm: "\<forall>a\<in>set ?q. t_when (alarms s a) \<le> maxallowedvalue ?k"
    using ok by (simp_all add: counter_ok_def)
  have nt: "t \<notin> set ?q" using t(3) by (simp add: q)
  have e: "(if x = t then w else t_when (((alarms s)(t := f (alarms s t))) x)) = ?f x" for x by simp
  have tq: "trigger_queue (counters ?s c) = insert_scan ?f (cvalue ?k) w t ?q" by (simp only: insert_abs_simps upd_alarm_simps e)
  have tl: "ticks_left (counters ?s c) = ticks_left ?k" by (rule ext) (simp add: ticks_left_def)
  have m: "map (left s c) ?q = map (\<lambda>x. ticks_left ?k (?f x)) ?q" using nt by auto
  have "sorted (map (\<lambda>x. ticks_left ?k (?f x)) (insert_scan ?f (cvalue ?k) w t ?q))"
    by (intro sorted_insert_scan) (use v w wm srt [unfolded m] in auto)
  moreover have "left ?s c = (\<lambda>x. ticks_left ?k (?f x))" by (auto simp: tl)
  ultimately have "sorted (map (left ?s c) (trigger_queue (counters ?s c)))" by (simp only: tq)
  moreover have "set (trigger_queue (counters ?s c)) =
      {a. a < free_alarm_index ?s \<and> trig_counter (alarms ?s a) = c \<and> trig_status (alarms ?s a) = OSEE_TRIGGER_ACTIVE}"
    using t f by (auto simp: tq q)
  moreover have "\<forall>a\<in>set (trigger_queue (counters ?s c)). t_when (alarms ?s a) \<le> maxallowedvalue (counters ?s c)"
    using w wm by (simp add: tq)
  moreover have "distinct (trigger_queue (counters ?s c))" using d nt by (simp add: tq distinct_insert_scan)
  moreover have "cvalue (counters ?s c) \<le> maxallowedvalue (counters ?s c)" using v by simp
  ultimately show ?thesis unfolding counter_ok_def by (intro conjI)
qed

lemma sorted_split_least:
  assumes "sorted (map g q)" "\<forall>x\<in>set q. (n :: nat) \<le> g x"
  shows "takeWhile (\<lambda>x. g x = n) q = filter (\<lambda>x. g x = n) q" "dropWhile (\<lambda>x. g x = n) q = filter (\<lambda>x. g x \<noteq> n) q"
proof -
  have "takeWhile (\<lambda>x. g x = n) q = filter (\<lambda>x. g x = n) q \<and> dropWhile (\<lambda>x. g x = n) q = filter (\<lambda>x. g x \<noteq> n) q"
    using assms
  proof (induction q)
    case (Cons x q)
    have "filter (\<lambda>y. g y = n) q = [] \<and> filter (\<lambda>y. g y \<noteq> n) q = q" if "g x \<noteq> n"
    proof -
      have "n < g x" using that Cons.prems(2) by force
      then have "\<forall>y\<in>set q. g y \<noteq> n" using Cons.prems(1) by force
      then show ?thesis by (simp add: filter_empty_conv filter_id_conv)
    qed
    then show ?case using Cons by auto
  qed simp
  then show "takeWhile (\<lambda>x. g x = n) q = filter (\<lambda>x. g x = n) q" "dropWhile (\<lambda>x. g x = n) q = filter (\<lambda>x. g x \<noteq> n) q" by simp_all
qed

text \<open>One step of the counter: exactly the alarms with one tick left are due, the others have one less.\<close>

abbreviation stepped :: "nat \<Rightarrow> csys \<Rightarrow> csys" where
  "stepped c s \<equiv> upd_counter c counter_step s"

lemma pop_triggered_countdown:
  assumes ok: "counter_ok s c"
  defines "q \<equiv> trigger_queue (counters s c)"
  shows "snd (pop_triggered c (stepped c s)) = filter (\<lambda>a. left s c a = 1) q"
    "trigger_queue (counters (fst (pop_triggered c (stepped c s))) c) = filter (\<lambda>a. left s c a \<noteq> 1) q"
    "alarms (fst (pop_triggered c (stepped c s))) =
       (\<lambda>a. if a \<in> set q \<and> left s c a = 1 then (alarms s a)\<lparr>trig_status := OSEE_TRIGGER_EXPIRED\<rparr> else alarms s a)"
    "a \<in> set q \<Longrightarrow> left s c a \<noteq> 1 \<Longrightarrow> left (fst (pop_triggered c (stepped c s))) c a = left s c a - 1"
    "counter_ok (fst (pop_triggered c (stepped c s))) c"
proof -
  let ?k = "counters s c" and ?s = "fst (pop_triggered c (stepped c s))"
  have v: "cvalue ?k \<le> maxallowedvalue ?k" and wm: "\<And>a. a \<in> set q \<Longrightarrow> t_when (alarms s a) \<le> maxallowedvalue ?k"
    and d: "distinct q" and srt: "sorted (map (left s c) q)"
    and qs: "set q = {a. a < free_alarm_index s \<and> trig_counter (alarms s a) = c \<and> trig_status (alarms s a) = OSEE_TRIGGER_ACTIVE}"
    using ok by (auto simp: counter_ok_def q_def)
  note st = counter_step_ticks [OF v]
  have due: "takeWhile (\<lambda>x. t_when (alarms s x) = cvalue (counter_step ?k)) q = takeWhile (\<lambda>x. left s c x = 1) q"
    "dropWhile (\<lambda>x. t_when (alarms s x) = cvalue (counter_step ?k)) q = dropWhile (\<lambda>x. left s c x = 1) q"
    using st(2) wm by (auto intro: takeWhile_cong dropWhile_cong)
  have pos: "\<forall>x\<in>set q. 1 \<le> left s c x" using ticks_left_pos by (simp add: Suc_le_eq)
  note due = due [unfolded sorted_split_least [OF srt pos], unfolded q_def]
  have cs: "counters ?s c = (counter_step ?k)\<lparr>trigger_queue := filter (\<lambda>a. left s c a \<noteq> 1) q\<rparr>"
    by (simp add: pop_triggered_def Let_def due q_def)
  show p: "snd (pop_triggered c (stepped c s)) = filter (\<lambda>a. left s c a = 1) q"
    by (simp add: pop_triggered_def Let_def due q_def)
  show tq: "trigger_queue (counters ?s c) = filter (\<lambda>a. left s c a \<noteq> 1) q" by (simp add: cs)
  show al: "alarms ?s = (\<lambda>a. if a \<in> set q \<and> left s c a = 1 then (alarms s a)\<lparr>trig_status := OSEE_TRIGGER_EXPIRED\<rparr> else alarms s a)"
    by (rule ext) (simp add: pop_triggered_def Let_def due q_def)
  have tl: "ticks_left (counters ?s c) = ticks_left (counter_step ?k)" by (rule ext) (simp add: ticks_left_def cs)
  show l: "left ?s c a = left s c a - 1" if "a \<in> set q" "left s c a \<noteq> 1" for a
    unfolding tl using st(2,3) [OF wm [OF that(1)]] that by (simp add: al)
  have m: "map (left ?s c) (filter (\<lambda>a. left s c a \<noteq> 1) q) = map (\<lambda>a. left s c a - 1) (filter (\<lambda>a. left s c a \<noteq> 1) q)"
    by (rule map_cong [OF refl]) (auto simp: l)
  have "sorted (map (\<lambda>a. left s c a) (filter (\<lambda>a. left s c a \<noteq> 1) q))" using srt by (rule sorted_filter)
  then have "sorted (map (left ?s c) (trigger_queue (counters ?s c)))"
    unfolding tq m sorted_map by (rule sorted_wrt_mono_rel [rotated]) (rule diff_le_mono)
  moreover have "set (trigger_queue (counters ?s c)) =
      {a. a < free_alarm_index ?s \<and> trig_counter (alarms ?s a) = c \<and> trig_status (alarms ?s a) = OSEE_TRIGGER_ACTIVE}"
    unfolding tq al by (auto simp: qs pop_triggered_def Let_def)
  moreover have "\<forall>a\<in>set (trigger_queue (counters ?s c)). t_when (alarms ?s a) \<le> maxallowedvalue (counters ?s c)"
    unfolding tq al using wm by (simp add: cs)
  moreover have "distinct (trigger_queue (counters ?s c))" using d by (simp add: tq)
  moreover have "cvalue (counters ?s c) \<le> maxallowedvalue (counters ?s c)" using st(1) by (simp add: cs)
  ultimately show "counter_ok ?s c" unfolding counter_ok_def by (intro conjI)
qed

subsection \<open>Actions\<close>

text \<open>What a tick keeps of the kernel: it only queues tasks, the running one stays.\<close>

definition kframe :: "kern \<Rightarrow> kern \<Rightarrow> bool" where
  "kframe k k' \<longleftrightarrow> kinv k' \<and> p_curr k' = p_curr k \<and> p_stk_sn k' = p_stk_sn k \<and> conts k' = conts k \<and>
     free_task_index k' = free_task_index k \<and> tdbs k' = tdbs k"

lemma kframe_refl: "kinv k \<Longrightarrow> kframe k k"
  by (simp add: kframe_def)

lemma kframe_trans: "kframe k k1 \<Longrightarrow> kframe k1 k2 \<Longrightarrow> kframe k k2"
  by (simp add: kframe_def)

text \<open>A callback may use the kernel, within the same bounds, and leaves counters and alarms alone.\<close>

definition benign :: "(nat \<Rightarrow> csys \<Rightarrow> csys) \<Rightarrow> bool" where
  "benign cb \<longleftrightarrow> (\<forall>f s. kinv (ker s) \<longrightarrow> (\<exists>k. cb f s = s\<lparr>ker := k\<rparr> \<and> kframe (ker s) k))"

lemma rq_insert_keeps [simp]:
  "p_curr (fst (osEE_scheduler_rq_insert x t s)) = p_curr s" "p_stk_sn (fst (osEE_scheduler_rq_insert x t s)) = p_stk_sn s"
  "conts (fst (osEE_scheduler_rq_insert x t s)) = conts s" "free_task_index (fst (osEE_scheduler_rq_insert x t s)) = free_task_index s"
  "tdbs (fst (osEE_scheduler_rq_insert x t s)) = tdbs s"
  by (simp_all add: osEE_scheduler_rq_insert_def Let_def)

lemma task_action:
  assumes k: "kinv (ker s)" and t: "t < free_task_index (ker s)"
  obtains k' ev where "osEE_handle_action chk cb incr (OSEE_ACTION_TASK t) s = Some (s\<lparr>ker := k'\<rparr>, ev)" "kframe (ker s) k'"
proof (cases "current_num_of_act (tcbs (ker s) t) < max_num_of_act (tdbs (ker s) t)")
  case True
  let ?k = "upd_tcb t (\<lambda>c. c\<lparr>current_num_of_act := current_num_of_act c + 1\<rparr>) (ker s)"
  note i = count_activation_inv [OF k t True]
  have t': "t < free_task_index ?k" using t by simp
  obtain k' b where k': "osEE_scheduler_task_insert_rq t ?k = Some (k', b)" "kinv k'"
    "p_curr k' = p_curr ?k" "p_stk_sn k' = p_stk_sn ?k" "free_task_index k' = free_task_index ?k" "conts k' = conts ?k"
    by (rule task_insert_inv [OF i(2,3) t'])
  have "kframe (ker s) k'" using k' task_insert_rq_frame(3) [OF k'(1)] by (simp add: kframe_def)
  moreover have "osEE_handle_action chk cb incr (OSEE_ACTION_TASK t) s = Some (s\<lparr>ker := k'\<rparr>, E_OK)"
    by (simp add: osEE_handle_action_def i(1) osEE_scheduler_task_insert_def k'(1))
  ultimately show ?thesis using that by blast
next
  case False
  then have "osEE_handle_action chk cb incr (OSEE_ACTION_TASK t) s = Some (s\<lparr>ker := ker s\<rparr>, E_OS_LIMIT)"
    by (simp add: osEE_handle_action_def osEE_task_activated_def)
  then show ?thesis using that kframe_refl [OF k] by blast
qed

lemma event_action:
  assumes k: "kinv (ker s)" and t: "t < free_task_index (ker s)"
  obtains k' ev where "osEE_handle_action chk cb incr (OSEE_ACTION_EVENT t m) s = Some (s\<lparr>ker := k'\<rparr>, ev)" "kframe (ker s) k'"
proof -
  obtain k2 p ev where e: "osEE_task_event_set_mask chk t m (ker s) = (k2, p, ev)" by (metis prod_cases3)
  note i = event_set_mask_inv [OF k t e]
  show ?thesis
  proof (cases p)
    case None
    then show ?thesis using that [of k2 ev] i by (simp add: osEE_handle_action_def e kframe_def)
  next
    case (Some x)
    have "kframe (ker s) (fst (osEE_scheduler_task_unblocked x k2))"
      using i(2) [OF Some] i(3-) by (simp add: kframe_def osEE_scheduler_task_unblocked_def Let_def case_prod_beta)
    then show ?thesis using that Some by (simp add: osEE_handle_action_def e)
  qed
qed

text \<open>What a tick keeps of the configuration.\<close>

definition cframe :: "csys \<Rightarrow> csys \<Rightarrow> bool" where
  "cframe s s' \<longleftrightarrow> kframe (ker s) (ker s') \<and> free_counter_index s' = free_counter_index s \<and> free_alarm_index s' = free_alarm_index s \<and>
     (\<forall>a. trig_counter (alarms s' a) = trig_counter (alarms s a) \<and> trig_action (alarms s' a) = trig_action (alarms s a) \<and>
          cycle (alarms s' a) = cycle (alarms s a)) \<and>
     (\<forall>c. maxallowedvalue (counters s' c) = maxallowedvalue (counters s c) \<and> ticksperbase (counters s' c) = ticksperbase (counters s c) \<and>
          mincycle (counters s' c) = mincycle (counters s c))"

lemma cframe_refl: "kinv (ker s) \<Longrightarrow> cframe s s"
  by (simp add: cframe_def kframe_refl)

lemma cframe_trans: "cframe s s1 \<Longrightarrow> cframe s1 s2 \<Longrightarrow> cframe s s2"
  unfolding cframe_def by (metis kframe_trans)

lemma cframe_kinv: "cframe s s' \<Longrightarrow> kinv (ker s')"
  by (simp add: cframe_def kframe_def)

lemma cframe_action_ok: "cframe s s' \<Longrightarrow> action_ok s' x = action_ok s x"
  by (cases x) (simp_all add: cframe_def kframe_def)

text \<open>
  What a tick of counter \<open>c\<close> leaves alone: the counters that are not below it in the chain \<open>r\<close> and
  their alarms.
\<close>

definition below :: "(nat \<Rightarrow> nat) \<Rightarrow> nat \<Rightarrow> csys \<Rightarrow> csys \<Rightarrow> bool" where
  "below r n s s' \<longleftrightarrow> (\<forall>d. n \<le> r d \<longrightarrow> counters s' d = counters s d) \<and>
     (\<forall>a. n \<le> r (trig_counter (alarms s a)) \<longrightarrow> alarms s' a = alarms s a)"

lemma below_trans: "below r n s s1 \<Longrightarrow> below r n s1 s2 \<Longrightarrow> cframe s s1 \<Longrightarrow> below r n s s2"
  by (simp add: below_def cframe_def)

lemma below_mono: "below r n s s' \<Longrightarrow> n \<le> m \<Longrightarrow> below r m s s'"
  by (auto simp: below_def)

text \<open>The chain has no cycle: an alarm drives only counters below its own.\<close>

definition ranked :: "(nat \<Rightarrow> nat) \<Rightarrow> csys \<Rightarrow> bool" where
  "ranked r s \<longleftrightarrow> (\<forall>a<free_alarm_index s. \<forall>c. trig_action (alarms s a) = OSEE_ACTION_COUNTER c \<longrightarrow> r c < r (trig_counter (alarms s a)))"

lemma ranked_cframe: "cframe s s' \<Longrightarrow> ranked r s' = ranked r s"
  by (simp add: cframe_def ranked_def)

lemma ticks_left_cong: "cvalue k' = cvalue k \<Longrightarrow> maxallowedvalue k' = maxallowedvalue k \<Longrightarrow> ticks_left k' w = ticks_left k w"
  by (simp add: ticks_left_def)

lemma alarm_ok_frame:
  assumes "alarm_ok E s a" "cframe s s'" "alarms s' a = alarms s a"
  shows "alarm_ok E s' a"
  using assms(1,3) cframe_action_ok [OF assms(2)] assms(2) by (auto simp: alarm_ok_def cframe_def)

lemma cinv_ker: "cinv E s \<Longrightarrow> kframe (ker s) k \<Longrightarrow> cinv E (s\<lparr>ker := k\<rparr>)"
  unfolding cinv_def by (auto intro: alarm_ok_frame [of E s] counter_ok_cong [of s] simp: cframe_def)

lemma cframe_ker: "kframe (ker s) k \<Longrightarrow> cframe s (s\<lparr>ker := k\<rparr>)" "below r n s (s\<lparr>ker := k\<rparr>)"
  by (simp_all add: cframe_def below_def)

subsection \<open>Handling expired alarms\<close>

text \<open>How an alarm leaves its notification: armed for another cycle, or inactive.\<close>

definition rearmed :: "nat \<Rightarrow> nat \<Rightarrow> csys \<Rightarrow> csys \<Rightarrow> bool" where
  "rearmed c a s s' \<longleftrightarrow>
     (if cycle (alarms s a) > 0
      then trig_status (alarms s' a) = OSEE_TRIGGER_ACTIVE \<and> left s' c a = unat (cycle (alarms s a))
      else trig_status (alarms s' a) = OSEE_TRIGGER_INACTIVE)"

text \<open>The end of a notification.\<close>

definition settle :: "nat \<Rightarrow> nat \<Rightarrow> csys \<Rightarrow> csys" where
  "settle c a s =
     (if cycle (alarms s a) > 0
      then osEE_counter_insert_abs_trigger c a (osEE_counter_eval_when (counters s c) (cycle (alarms s a)))
             (upd_alarm a (\<lambda>x. x\<lparr>trig_status := OSEE_TRIGGER_ACTIVE\<rparr>) s)
      else upd_alarm a (\<lambda>x. x\<lparr>trig_status := OSEE_TRIGGER_INACTIVE\<rparr>) s)"

lemma settle_simps [simp]:
  "x \<noteq> a \<Longrightarrow> alarms (settle c a s) x = alarms s x" "d \<noteq> c \<Longrightarrow> counters (settle c a s) d = counters s d"
  "cvalue (counters (settle c a s) d) = cvalue (counters s d)" "ker (settle c a s) = ker s"
  "free_alarm_index (settle c a s) = free_alarm_index s" "free_counter_index (settle c a s) = free_counter_index s"
  by (simp_all add: settle_def)

lemma cframe_settle: "kinv (ker s) \<Longrightarrow> cframe s (settle c a s)"
  by (simp add: settle_def cframe_def kframe_refl)

lemma settle_inv:
  assumes inv: "cinv (insert a E) s" "a \<notin> E" and k: "kinv (ker s)"
    and a: "a < free_alarm_index s" "trig_counter (alarms s a) = c"
  shows "cinv E (settle c a s)" "rearmed c a s (settle c a s)"
proof -
  let ?s = "settle c a s" and ?cy = "cycle (alarms s a)" and ?k = "counters s c"
  have ok: "alarm_ok (insert a E) s a" by (rule cinv_dest(2) [OF inv(1) a(1)])
  then have c: "c < free_counter_index s" and cy: "?cy \<le> maxallowedvalue ?k" and st: "trig_status (alarms s a) = OSEE_TRIGGER_EXPIRED"
    using a(2) by (simp_all add: alarm_ok_def)
  have okc: "counter_ok s c" by (rule cinv_dest(1) [OF inv(1) c])
  then have v: "cvalue ?k \<le> maxallowedvalue ?k" by (simp add: counter_ok_def)
  note w = eval_when_ticks [OF v _ cy]
  have oka: "counter_ok ?s c"
  proof (cases "?cy > 0")
    case True
    show ?thesis unfolding settle_def using True by (simp only: if_True) (rule insert_armed [OF okc a], use w(1) st a in simp_all)
  next
    case False
    show ?thesis by (rule counter_ok_cong [OF okc]) (use False st in \<open>auto simp: settle_def\<close>)
  qed
  have oc: "counter_ok ?s d" if "d < free_counter_index s" for d
  proof (cases "d = c")
    case False
    have oth: "alarms ?s x = alarms s x" if "trig_counter (alarms s x) = d" for x using False a(2) that by (intro settle_simps) auto
    show ?thesis
      by (rule counter_ok_cong [OF cinv_dest(1) [OF inv(1) that]])
        (use False cframe_settle [OF k, of c a] oth in \<open>simp_all add: cframe_def\<close>)
  qed (simp add: oka)
  have oa: "alarm_ok E ?s x" if "x < free_alarm_index s" for x
  proof (cases "x = a")
    case True
    have "trig_status (alarms ?s a) \<in> {OSEE_TRIGGER_INACTIVE, OSEE_TRIGGER_ACTIVE}" by (simp add: settle_def)
    then show ?thesis using True ok inv(2) cframe_settle [OF k, of c a] cframe_action_ok [OF cframe_settle [OF k, of c a]]
      by (auto simp: alarm_ok_def cframe_def)
  next
    case False
    then have "alarm_ok (insert a E) ?s x"
      using alarm_ok_frame [OF cinv_dest(2) [OF inv(1) that] cframe_settle [OF k, of c a]] by simp
    then show ?thesis using False by (auto simp: alarm_ok_def)
  qed
  show "cinv E ?s" using oc oa by (simp add: cinv_def)
  show "rearmed c a s ?s" using w(2) by (auto simp: rearmed_def settle_def ticks_left_def)
qed

text \<open>Whether a tick moves the counter, or only its prescaler.\<close>

definition real_tick :: "counter \<Rightarrow> bool" where
  "real_tick k \<longleftrightarrow> \<not> (ticksperbase k > 1 \<and> prescaler k + 1 < ticksperbase k)"

text \<open>The alarms of a counter after one tick.\<close>

definition ticked :: "nat \<Rightarrow> csys \<Rightarrow> csys \<Rightarrow> bool" where
  "ticked c s s' \<longleftrightarrow> (\<forall>a<free_alarm_index s. trig_counter (alarms s a) = c \<longrightarrow>
     (if trig_status (alarms s a) \<noteq> OSEE_TRIGGER_ACTIVE then alarms s' a = alarms s a
      else if left s c a = 1 then rearmed c a s s'
      else alarms s' a = alarms s a \<and> left s' c a = left s c a - 1))"

lemma prescaler_inv:
  assumes "cinv E s" "kinv (ker s)"
  shows "cinv E (upd_counter c (\<lambda>k. k\<lparr>prescaler := f (prescaler k)\<rparr>) s)" "cframe s (upd_counter c (\<lambda>k. k\<lparr>prescaler := f (prescaler k)\<rparr>) s)"
proof -
  let ?s = "upd_counter c (\<lambda>k. k\<lparr>prescaler := f (prescaler k)\<rparr>) s"
  show fr: "cframe s ?s" using assms(2) by (simp add: cframe_def kframe_refl)
  show "cinv E ?s" unfolding cinv_def using assms(1)
    by (auto simp: cinv_def intro: alarm_ok_frame [OF _ fr] counter_ok_cong [of s])
qed

lemma popped_inv:
  assumes inv: "cinv E s" and k: "kinv (ker s)" and c: "c < free_counter_index s"
  defines "s2 \<equiv> fst (pop_triggered c (stepped c s))"
  shows "cinv (set (filter (\<lambda>a. left s c a = 1) (trigger_queue (counters s c))) \<union> E) s2" "cframe s s2" "below r (Suc (r c)) s s2"
    "set (filter (\<lambda>a. left s c a = 1) (trigger_queue (counters s c))) \<inter> E = {}"
proof -
  let ?d = "set (filter (\<lambda>a. left s c a = 1) (trigger_queue (counters s c)))"
  note ok = cinv_dest(1) [OF inv c]
  note p = pop_triggered_countdown [OF ok, folded s2_def]
  have q: "set (trigger_queue (counters s c)) =
      {a. a < free_alarm_index s \<and> trig_counter (alarms s a) = c \<and> trig_status (alarms s a) = OSEE_TRIGGER_ACTIVE}"
    using ok by (simp add: counter_ok_def)
  have s2: "free_alarm_index s2 = free_alarm_index s" "free_counter_index s2 = free_counter_index s" "ker s2 = ker s"
    "\<And>d. d \<noteq> c \<Longrightarrow> counters s2 d = counters s d"
    "\<And>d. maxallowedvalue (counters s2 d) = maxallowedvalue (counters s d)" "\<And>d. ticksperbase (counters s2 d) = ticksperbase (counters s d)"
    "\<And>d. mincycle (counters s2 d) = mincycle (counters s d)"
    by (simp_all add: s2_def pop_triggered_def Let_def)
  have al: "alarms s2 x = (if x \<in> ?d then (alarms s x)\<lparr>trig_status := OSEE_TRIGGER_EXPIRED\<rparr> else alarms s x)" for x by (simp add: p(3))
  show fr: "cframe s s2" using k by (simp add: cframe_def kframe_refl s2 al)
  have "d \<noteq> c" if "Suc (r c) \<le> r d" for d using that by auto
  then show "below r (Suc (r c)) s s2" using s2(4) by (auto simp: below_def al q)
  show "?d \<inter> E = {}" using cinv_dest(2) [OF inv] by (fastforce simp: q alarm_ok_def)
  have "counter_ok s2 d" if "d < free_counter_index s" for d
  proof (cases "d = c")
    case False
    then show ?thesis by (intro counter_ok_cong [OF cinv_dest(1) [OF inv that]]) (auto simp: s2 al q)
  qed (simp add: p(5))
  moreover have "alarm_ok (?d \<union> E) s2 a" if "a < free_alarm_index s" for a
    using cinv_dest(2) [OF inv that] cframe_action_ok [OF fr] s2 by (auto simp: alarm_ok_def al)
  ultimately show "cinv (?d \<union> E) s2" by (simp add: cinv_def s2)
qed

text \<open>
  The interface between the handler of expired alarms and the tick of the counters it drives: a tick
  of a counter of rank below \<open>n\<close> returns, keeps the invariants and changes nothing above that rank.
\<close>

locale counter_driver =
  fixes r :: "nat \<Rightarrow> nat" and n :: nat and cb :: "nat \<Rightarrow> csys \<Rightarrow> csys" and incr :: "nat \<Rightarrow> csys \<Rightarrow> csys option"
  assumes drive: "benign cb \<Longrightarrow> cinv E s \<Longrightarrow> kinv (ker s) \<Longrightarrow> ranked r s \<Longrightarrow> c < free_counter_index s \<Longrightarrow> r c < n \<Longrightarrow>
     \<exists>s'. incr c s = Some s' \<and> cinv E s' \<and> cframe s s' \<and> below r (Suc (r c)) s s'"
begin

lemma handle_action:
  assumes "benign cb" "cinv E s" "kinv (ker s)" "ranked r s" "action_ok s x"
    "\<And>c. x = OSEE_ACTION_COUNTER c \<Longrightarrow> r c < m" "m \<le> n"
  obtains s' ev where "osEE_handle_action chk cb incr x s = Some (s', ev)" "cinv E s'" "cframe s s'" "below r m s s'"
proof (cases x)
  case (OSEE_ACTION_TASK t)
  then obtain k' ev where "osEE_handle_action chk cb incr x s = Some (s\<lparr>ker := k'\<rparr>, ev)" "kframe (ker s) k'"
    using task_action [OF assms(3), of t chk cb incr] assms(5) by auto
  then show ?thesis using that cinv_ker [OF assms(2)] cframe_ker by blast
next
  case (OSEE_ACTION_EVENT t msk)
  then obtain k' ev where "osEE_handle_action chk cb incr x s = Some (s\<lparr>ker := k'\<rparr>, ev)" "kframe (ker s) k'"
    using event_action [OF assms(3), of t chk cb incr msk] assms(5) by auto
  then show ?thesis using that cinv_ker [OF assms(2)] cframe_ker by blast
next
  case (OSEE_ACTION_COUNTER c)
  then have c: "c < free_counter_index s" "r c < m" using assms(5,6) by auto
  then obtain s' where s': "incr c s = Some s'" "cinv E s'" "cframe s s'" "below r (Suc (r c)) s s'"
    using drive [OF assms(1-4), of c] assms(7) by auto
  have "below r m s s'" using below_mono [OF s'(4)] c(2) by simp
  then show ?thesis using that [of s' E_OK] s' OSEE_ACTION_COUNTER by (simp add: osEE_handle_action_def)
next
  case (OSEE_ACTION_CALLBACK f)
  obtain k where k: "cb f s = s\<lparr>ker := k\<rparr>" "kframe (ker s) k" using assms(1,3) by (auto simp: benign_def)
  then show ?thesis using that [of "s\<lparr>ker := k\<rparr>" E_OK] cinv_ker [OF assms(2)] cframe_ker OSEE_ACTION_CALLBACK
    by (simp add: osEE_handle_action_def)
qed

lemma handle_alarm:
  assumes b: "benign cb" and inv: "cinv (insert a E) s" "a \<notin> E" and k: "kinv (ker s)" and rk: "ranked r s"
    and a: "a < free_alarm_index s" "trig_counter (alarms s a) = c" and n: "r c \<le> n"
  obtains s' where "osEE_counter_handle_alarm chk cb incr c a s = Some s'" "cinv E s'" "cframe s s'" "below r (Suc (r c)) s s'"
    "\<And>x. x \<noteq> a \<Longrightarrow> trig_counter (alarms s x) = c \<Longrightarrow> alarms s' x = alarms s x"
    "cvalue (counters s' c) = cvalue (counters s c)" "rearmed c a s s'"
proof -
  have ok: "alarm_ok (insert a E) s a" by (rule cinv_dest(2) [OF inv(1) a(1)])
  obtain s1 ev where s1: "osEE_handle_action chk cb incr (trig_action (alarms s a)) s = Some (s1, ev)" "cinv (insert a E) s1" "cframe s s1"
    "below r (r c) s s1"
    by (rule handle_action [OF b inv(1) k rk, of "trig_action (alarms s a)" "r c" chk]) (use ok rk a n in \<open>auto simp: alarm_ok_def ranked_def\<close>)
  have al: "alarms s1 x = alarms s x" if "trig_counter (alarms s x) = c" for x using s1(4) that by (simp add: below_def)
  have cs: "counters s1 c = counters s c" using s1(4) by (simp add: below_def)
  have a1: "a < free_alarm_index s1" "trig_counter (alarms s1 a) = c" using a s1(3) by (simp_all add: cframe_def)
  have k1: "kinv (ker s1)" by (rule cframe_kinv [OF s1(3)])
  let ?s = "settle c a s1"
  note fr = cframe_settle [OF k1, of c a]
  note st = settle_inv [OF s1(2) inv(2) k1 a1]
  have "trig_status (alarms s1 a) = OSEE_TRIGGER_EXPIRED" using ok by (simp add: al a alarm_ok_def)
  then have e: "osEE_counter_handle_alarm chk cb incr c a s = Some ?s"
    by (simp add: osEE_counter_handle_alarm_def s1(1) settle_def osEE_counter_insert_rel_trigger_def)
  have "below r (Suc (r c)) s1 ?s" using a1 by (auto simp: below_def intro!: settle_simps)
  then have bl: "below r (Suc (r c)) s ?s" using below_trans [OF below_mono [OF s1(4)] _ s1(3)] by simp
  have re: "rearmed c a s ?s" using st(2) by (simp add: rearmed_def al a)
  show ?thesis
    by (rule that [OF e st(1) cframe_trans [OF s1(3) fr] bl _ _ re]) (simp_all add: al cs)
qed

text \<open>The due alarms of a counter, one after the other.\<close>

lemma handle_triggered:
  assumes b: "benign cb" and n: "r c \<le> n"
    and s: "cinv (set ts \<union> E) s" "kinv (ker s)" "ranked r s" "distinct ts" "set ts \<inter> E = {}"
    "\<forall>a\<in>set ts. a < free_alarm_index s \<and> trig_counter (alarms s a) = c"
  shows "\<exists>s'. handle_triggered chk cb incr c ts s = Some s' \<and> cinv E s' \<and> cframe s s' \<and> below r (Suc (r c)) s s' \<and>
    (\<forall>x. x \<notin> set ts \<longrightarrow> trig_counter (alarms s x) = c \<longrightarrow> alarms s' x = alarms s x) \<and>
    cvalue (counters s' c) = cvalue (counters s c) \<and> (\<forall>a\<in>set ts. rearmed c a s s')"
  using s
proof (induction ts arbitrary: s)
  case Nil
  then show ?case by (simp add: cframe_refl below_def)
next
  case (Cons a ts)
  then have a: "a < free_alarm_index s" "trig_counter (alarms s a) = c" "a \<notin> set ts \<union> E" and i: "cinv (insert a (set ts \<union> E)) s" by auto
  obtain s1 where s1: "osEE_counter_handle_alarm chk cb incr c a s = Some s1" "cinv (set ts \<union> E) s1" "cframe s s1" "below r (Suc (r c)) s s1"
    "\<And>x. x \<noteq> a \<Longrightarrow> trig_counter (alarms s x) = c \<Longrightarrow> alarms s1 x = alarms s x"
    "cvalue (counters s1 c) = cvalue (counters s c)" "rearmed c a s s1"
    by (rule handle_alarm [where chk = chk, OF b i a(3) Cons.prems(2,3) a(1,2) n]) blast
  have f: "trig_counter (alarms s1 x) = trig_counter (alarms s x)" "free_alarm_index s1 = free_alarm_index s"
    "maxallowedvalue (counters s1 c) = maxallowedvalue (counters s c)" for x
    using s1(3) by (simp_all add: cframe_def)
  have ts: "\<forall>a\<in>set ts. a < free_alarm_index s1 \<and> trig_counter (alarms s1 a) = c" using Cons.prems(6) by (simp add: f)
  obtain s2 where s2: "handle_triggered chk cb incr c ts s1 = Some s2" "cinv E s2" "cframe s1 s2" "below r (Suc (r c)) s1 s2"
    "\<And>x. x \<notin> set ts \<Longrightarrow> trig_counter (alarms s1 x) = c \<Longrightarrow> alarms s2 x = alarms s1 x"
    "cvalue (counters s2 c) = cvalue (counters s1 c)" "\<forall>a\<in>set ts. rearmed c a s1 s2"
    using Cons.IH [OF s1(2) cframe_kinv [OF s1(3)] _ _ _ ts] Cons.prems(3-5) ranked_cframe [OF s1(3)] by auto
  have "ticks_left (counters s2 c) = ticks_left (counters s1 c)"
    by (rule ext, rule ticks_left_cong) (use s2(3,6) in \<open>simp_all add: cframe_def\<close>)
  then have "rearmed c a s s2" using s1(7) s2(5) [of a] a f(1) [of a] by (simp add: rearmed_def)
  moreover have "rearmed c x s s2" if "x \<in> set ts" for x
  proof -
    have "alarms s1 x = alarms s x" using s1(5) [of x] that Cons.prems(4,6) by auto
    then show ?thesis using s2(7) that by (simp add: rearmed_def)
  qed
  ultimately show ?case
    using s1 s2 cframe_trans [OF s1(3) s2(3)] below_trans [OF s1(4) s2(4) s1(3)] f(1) by auto
qed

lemma tick:
  assumes b: "benign cb" and inv: "cinv E s" and k: "kinv (ker s)" and rk: "ranked r s" and c: "c < free_counter_index s" "r c \<le> n"
  shows "\<exists>s'. counter_tick chk cb incr c s = Some s' \<and> cinv E s' \<and> cframe s s' \<and> below r (Suc (r c)) s s' \<and>
    (if real_tick (counters s c) then ticked c s s' else s' = upd_counter c (\<lambda>k. k\<lparr>prescaler := prescaler k + 1\<rparr>) s)"
proof (cases "real_tick (counters s c)")
  case False
  let ?s = "upd_counter c (\<lambda>k. k\<lparr>prescaler := prescaler k + 1\<rparr>) s"
  have "counter_tick chk cb incr c s = Some ?s" using False by (simp add: counter_tick_def real_tick_def)
  then show ?thesis using False prescaler_inv [OF inv k, where f = "\<lambda>x. x + 1"] by (simp add: below_def)
next
  case True
  define s1 where "s1 = (if ticksperbase (counters s c) > 1 then upd_counter c (\<lambda>k. k\<lparr>prescaler := 0\<rparr>) s else s)"
  have "cinv E s1 \<and> cframe s s1" using prescaler_inv [OF inv k, where f = "\<lambda>_. 0"] inv cframe_refl [OF k] by (simp add: s1_def)
  then have i1: "cinv E s1" and f1: "cframe s s1" by simp_all
  have a1: "alarms s1 = alarms s" "\<And>w. ticks_left (counters s1 c) w = ticks_left (counters s c) w" "below r (Suc (r c)) s s1" "trigger_queue (counters s1 c) = trigger_queue (counters s c)"
    by (auto simp: s1_def fun_eq_iff ticks_left_def below_def)
  have c1: "c < free_counter_index s1" using c f1 by (simp add: cframe_def)
  note ok = cinv_dest(1) [OF i1 c1]
  define s2 where "s2 = fst (pop_triggered c (stepped c s1))"
  note p = pop_triggered_countdown [OF ok, folded s2_def, unfolded a1]
  note i2 = popped_inv [OF i1 cframe_kinv [OF f1] c1, folded s2_def]
  let ?due = "filter (\<lambda>a. left s c a = 1) (trigger_queue (counters s c))"
  have q: "set (trigger_queue (counters s c)) =
      {a. a < free_alarm_index s \<and> trig_counter (alarms s a) = c \<and> trig_status (alarms s a) = OSEE_TRIGGER_ACTIVE}"
    using cinv_dest(1) [OF inv c(1)] by (simp add: counter_ok_def)
  have e: "counter_tick chk cb incr c s = handle_triggered chk cb incr c ?due s2"
    using True p(1) by (auto simp: counter_tick_def real_tick_def Let_def case_prod_beta s1_def s2_def)
  have f2: "cframe s s2" by (rule cframe_trans [OF f1 i2(2)])
  have d: "\<forall>a\<in>set ?due. a < free_alarm_index s2 \<and> trig_counter (alarms s2 a) = c" using f2 by (simp add: q cframe_def)
  obtain s' where s': "handle_triggered chk cb incr c ?due s2 = Some s'" "cinv E s'" "cframe s2 s'" "below r (Suc (r c)) s2 s'"
    "\<And>x. x \<notin> set ?due \<Longrightarrow> trig_counter (alarms s2 x) = c \<Longrightarrow> alarms s' x = alarms s2 x"
    "cvalue (counters s' c) = cvalue (counters s2 c)" "\<forall>a\<in>set ?due. rearmed c a s2 s'"
    using handle_triggered [OF b c(2), of ?due E s2 chk] i2 f2 d ok ranked_cframe [OF f2] rk cframe_kinv [OF f2] a1
    by (auto simp: counter_ok_def)
  have tl: "ticks_left (counters s' c) = ticks_left (counters s2 c)"
    by (rule ext, rule ticks_left_cong) (use s'(3,6) in \<open>simp_all add: cframe_def\<close>)
  have "ticked c s s'" unfolding ticked_def
    using s'(5,7) p(3,4) f2 by (auto simp: q tl rearmed_def cframe_def split: if_splits)
  moreover have "below r (Suc (r c)) s s2" using below_trans [OF a1(3) i2(3) f1] .
  ultimately show ?thesis
    using True e s' cframe_trans [OF f2 s'(3)] below_trans [OF _ s'(4) f2] by auto
qed

end

subsection \<open>Ticks of a chain of counters\<close>

lemma increment_driver: "counter_driver r n cb (osEE_counter_increment chk cb n)"
proof (induction n)
  case 0
  show ?case by (rule counter_driver.intro) simp
next
  case (Suc n)
  show ?case
  proof (rule counter_driver.intro)
    fix E s c
    assume "benign cb" "cinv E s" "kinv (ker s)" "ranked r s" "c < free_counter_index s" "r c < Suc n"
    then show "\<exists>s'. osEE_counter_increment chk cb (Suc n) c s = Some s' \<and> cinv E s' \<and> cframe s s' \<and> below r (Suc (r c)) s s'"
      using counter_driver.tick [OF Suc, of E s c chk] by auto
  qed
qed

interpretation ticks: counter_driver r n cb "osEE_counter_increment chk cb n" for r n cb chk
  by (rule increment_driver)

text \<open>One tick, on its own.\<close>

lemma increment_ticked:
  assumes "benign cb" "cinv {} s" "kinv (ker s)" "ranked r s" "c < free_counter_index s" "r c < fuel"
  obtains s' where "osEE_counter_increment chk cb fuel c s = Some s'" "cinv {} s'" "cframe s s'"
    "if real_tick (counters s c) then ticked c s s' else s' = upd_counter c (\<lambda>k. k\<lparr>prescaler := prescaler k + 1\<rparr>) s"
proof (cases fuel)
  case 0
  then show ?thesis using assms(6) by simp
next
  case (Suc n)
  then show ?thesis using ticks.tick [OF assms(1-5), of n chk] assms(6) that by auto
qed

lemma ticked_dest:
  assumes "ticked c s s'" "a < free_alarm_index s" "trig_counter (alarms s a) = c" "trig_status (alarms s a) = OSEE_TRIGGER_ACTIVE"
  shows "left s c a \<noteq> 1 \<Longrightarrow> alarms s' a = alarms s a \<and> left s' c a = left s c a - 1" "left s c a = 1 \<Longrightarrow> rearmed c a s s'"
  using spec [OF assms(1) [unfolded ticked_def], of a] assms(2-4) by auto

primrec tick_times :: "bool \<Rightarrow> (nat \<Rightarrow> csys \<Rightarrow> csys) \<Rightarrow> nat \<Rightarrow> nat \<Rightarrow> nat \<Rightarrow> csys \<Rightarrow> csys option" where
  "tick_times chk cb fuel c 0 s = Some s"
| "tick_times chk cb fuel c (Suc n) s = tick_times chk cb fuel c n s \<bind> osEE_counter_increment chk cb fuel c"

lemma tick_times_pending:
  assumes "benign cb" "cinv {} s" "kinv (ker s)" "ranked r s" "c < free_counter_index s" "r c < fuel"
    and tpb: "ticksperbase (counters s c) \<le> 1"
    and a: "a < free_alarm_index s" "trig_counter (alarms s a) = c" "trig_status (alarms s a) = OSEE_TRIGGER_ACTIVE"
    and n: "n < left s c a"
  shows "\<exists>s'. tick_times chk cb fuel c n s = Some s' \<and> cinv {} s' \<and> cframe s s' \<and> alarms s' a = alarms s a \<and> left s' c a = left s c a - n"
  using n
proof (induction n)
  case 0
  then show ?case using assms(2,3) by (simp add: cframe_refl)
next
  case (Suc n)
  then obtain s1 where s1: "tick_times chk cb fuel c n s = Some s1" "cinv {} s1" "cframe s s1" "alarms s1 a = alarms s a" "left s1 c a = left s c a - n"
    by auto
  then have f: "c < free_counter_index s1" "a < free_alarm_index s1" "ticksperbase (counters s1 c) \<le> 1" "ranked r s1" "kinv (ker s1)"
    using assms(4,5) tpb a(1) ranked_cframe [OF s1(3)] cframe_kinv [OF s1(3)] by (simp_all add: cframe_def)
  obtain s2 where s2: "osEE_counter_increment chk cb fuel c s1 = Some s2" "cinv {} s2" "cframe s1 s2"
    "if real_tick (counters s1 c) then ticked c s1 s2 else s2 = upd_counter c (\<lambda>k. k\<lparr>prescaler := prescaler k + 1\<rparr>) s1"
    by (rule increment_ticked [OF assms(1) s1(2) f(5,4,1) assms(6)])
  have tk: "ticked c s1 s2" using s2(4) f(3) by (simp add: real_tick_def not_less [symmetric])
  have "left s1 c a \<noteq> 1" using s1(5) Suc.prems by linarith
  then have "alarms s2 a = alarms s1 a \<and> left s2 c a = left s1 c a - 1"
    by (intro ticked_dest(1) [OF tk f(2)]) (use a(2,3) s1(4) in simp_all)
  then show ?case using s1 s2 cframe_trans [OF s1(3) s2(3)] by auto
qed

subsection \<open>Setting and cancelling\<close>

lemma insert_scan_remove1: "t \<notin> set q \<Longrightarrow> remove1 t (insert_scan f v w t q) = q"
  by (induction q) auto

lemma arm_inv:
  assumes inv: "cinv {} s" and k: "kinv (ker s)" and a: "a < free_alarm_index s" "trig_counter (alarms s a) = c"
    and st: "trig_status (alarms s a) = OSEE_TRIGGER_INACTIVE" and w: "w \<le> maxallowedvalue (counters s c)" and cy: "cyc \<le> maxallowedvalue (counters s c)"
  defines "s' \<equiv> osEE_counter_insert_abs_trigger c a w (upd_alarm a (\<lambda>x. x\<lparr>cycle := cyc, trig_status := OSEE_TRIGGER_ACTIVE\<rparr>) s)"
  shows "cinv {} s'" "alarms s' a = (alarms s a)\<lparr>cycle := cyc, trig_status := OSEE_TRIGGER_ACTIVE, t_when := w\<rparr>"
    "left s' c a = ticks_left (counters s c) w" "ker s' = ker s" "free_alarm_index s' = free_alarm_index s" "free_counter_index s' = free_counter_index s"
    "remove1 a (trigger_queue (counters s' c)) = trigger_queue (counters s c)" "a \<in> set (trigger_queue (counters s' c))"
proof -
  note ok = cinv_dest(2) [OF inv a(1)]
  have c: "c < free_counter_index s" using ok a(2) by (simp add: alarm_ok_def)
  note okc = cinv_dest(1) [OF inv c]
  have cs: "counter_ok s' c" unfolding s'_def by (rule insert_armed [OF okc a]) (use st w a in simp_all)
  have fs: "free_alarm_index s' = free_alarm_index s" "free_counter_index s' = free_counter_index s" "ker s' = ker s"
    "\<And>x. x \<noteq> a \<Longrightarrow> alarms s' x = alarms s x" "\<And>d. maxallowedvalue (counters s' d) = maxallowedvalue (counters s d)"
    "\<And>d. cvalue (counters s' d) = cvalue (counters s d)" "\<And>d. d \<noteq> c \<Longrightarrow> counters s' d = counters s d"
    by (simp_all add: s'_def)
  show al: "alarms s' a = (alarms s a)\<lparr>cycle := cyc, trig_status := OSEE_TRIGGER_ACTIVE, t_when := w\<rparr>" by (simp add: s'_def)
  have "counter_ok s' d" if "d < free_counter_index s" for d
  proof (cases "d = c")
    case False
    have "alarms s' x = alarms s x" if "trig_counter (alarms s x) = d" for x using that False a(2) by (intro fs) auto
    then show ?thesis by (intro counter_ok_cong [OF cinv_dest(1) [OF inv that]])
      (use False fs al in \<open>auto simp: fun_upd_def s'_def\<close>)
  qed (simp add: cs)
  moreover have "action_ok s' x = action_ok s x" for x by (cases x) (simp_all add: fs)
  then have "alarm_ok {} s' x" if "x < free_alarm_index s" for x
    using cinv_dest(2) [OF inv that] cinv_dest(2) [OF inv a(1)] cy a(2) by (cases "x = a") (auto simp: alarm_ok_def fs al)
  ultimately show "cinv {} s'" by (simp add: cinv_def fs)
  show "left s' c a = ticks_left (counters s c) w" by (simp add: al ticks_left_def fs)
  show "ker s' = ker s" "free_alarm_index s' = free_alarm_index s" "free_counter_index s' = free_counter_index s" by (simp_all add: fs)
  have "a \<notin> set (trigger_queue (counters s c))" using okc st by (simp add: counter_ok_def)
  then show "remove1 a (trigger_queue (counters s' c)) = trigger_queue (counters s c)" "a \<in> set (trigger_queue (counters s' c))"
    by (simp_all add: s'_def insert_scan_remove1)
qed

lemma SetRelAlarm_arms:
  assumes inv: "cinv {} s" and k: "kinv (ker s)" and a: "a < free_alarm_index s" "trig_counter (alarms s a) = c"
    and st: "trig_status (alarms s a) = OSEE_TRIGGER_INACTIVE"
    and i: "0 < inc" "inc \<le> maxallowedvalue (counters s c)" and cy: "\<not> bad_cycle (counters s c) cyc"
  obtains s' where "SetRelAlarm chk a inc cyc s = (s', E_OK)" "cinv {} s'" "ker s' = ker s"
    "trig_status (alarms s' a) = OSEE_TRIGGER_ACTIVE" "cycle (alarms s' a) = cyc" "left s' c a = unat inc" "trig_counter (alarms s' a) = c"
    "free_alarm_index s' = free_alarm_index s" "free_counter_index s' = free_counter_index s"
    "remove1 a (trigger_queue (counters s' c)) = trigger_queue (counters s c)" "a \<in> set (trigger_queue (counters s' c))"
    "\<And>d. ticksperbase (counters s' d) = ticksperbase (counters s d)" "\<And>x. trig_action (alarms s' x) = trig_action (alarms s x)"
    "\<And>x. trig_counter (alarms s' x) = trig_counter (alarms s x)" "GetAlarm a s' = Inr inc"
    "\<And>x. x \<noteq> a \<Longrightarrow> alarms s' x = alarms s x" "\<And>d. d \<noteq> c \<Longrightarrow> counters s' d = counters s d"
proof -
  let ?w = "osEE_counter_eval_when (counters s c) inc"
  let ?s = "osEE_counter_insert_abs_trigger c a ?w (upd_alarm a (\<lambda>x. x\<lparr>cycle := cyc, trig_status := OSEE_TRIGGER_ACTIVE\<rparr>) s)"
  have c: "c < free_counter_index s" using cinv_dest(2) [OF inv a(1)] a(2) by (simp add: alarm_ok_def)
  have v: "cvalue (counters s c) \<le> maxallowedvalue (counters s c)" using cinv_dest(1) [OF inv c] by (simp add: counter_ok_def)
  note w = eval_when_ticks [OF v i]
  have cy': "cyc \<le> maxallowedvalue (counters s c)" using cy by (cases "cyc = 0") (auto simp: bad_cycle_def not_less)
  note r = arm_inv [OF inv k a st w(1) cy']
  have e: "SetRelAlarm chk a inc cyc s = (?s, E_OK)"
    using a st i cy by (auto simp: SetRelAlarm_def osEE_alarm_set_rel_def Let_def not_less less_trigger_status_def osEE_counter_insert_rel_trigger_def
      osEE_end_primitive_def upd_alarm_def osEE_counter_insert_abs_trigger_def upd_counter_def)
  have "?w \<noteq> cvalue (counters s c)"
  proof
    assume "?w = cvalue (counters s c)"
    then have "ticks_left (counters s c) ?w = unat (maxallowedvalue (counters s c)) + 1" using v by (simp add: ticks_left_def word_le_nat_alt)
    then show False using w(2) i(2) by (simp add: word_le_nat_alt)
  qed
  then have "unat (osEE_counter_eval_delta (counters s c) ?w) = unat inc"
    using eval_delta_ticks [OF v w(1)] w(2) by simp
  moreover have "osEE_counter_eval_delta (counters ?s c) ?w = osEE_counter_eval_delta (counters s c) ?w"
    by (simp add: osEE_counter_eval_delta_def)
  ultimately have g: "GetAlarm a ?s = Inr inc"
    using a by (simp add: GetAlarm_def osEE_alarm_get_def less_eq_trigger_status_def word_unat_eq_iff)
  show ?thesis by (rule that [OF e r(1,4) _ _ _ _ r(5,6,7,8) _ _ _ g]) (use r(2,3) w(2) a in simp_all)
qed

lemma SetAbsAlarm_inv:
  assumes inv: "cinv {} s" and k: "kinv (ker s)"
  shows "cinv {} (fst (SetAbsAlarm True a start cyc s))" "ker (fst (SetAbsAlarm True a start cyc s)) = ker s"
proof -
  let ?c = "trig_counter (alarms s a)"
  have "cinv {} (fst (SetAbsAlarm True a start cyc s)) \<and> ker (fst (SetAbsAlarm True a start cyc s)) = ker s"
  proof (cases "a < free_alarm_index s \<and> start \<le> maxallowedvalue (counters s ?c) \<and> \<not> bad_cycle (counters s ?c) cyc \<and>
      trig_status (alarms s a) \<noteq> OSEE_TRIGGER_ACTIVE")
    case False
    moreover have "trig_status (alarms s a) = OSEE_TRIGGER_ACTIVE \<Longrightarrow> a < free_alarm_index s \<Longrightarrow> fst (SetAbsAlarm True a start cyc s) = s"
      by (auto simp: SetAbsAlarm_def osEE_alarm_set_abs_def trigger_status_order Let_def osEE_end_primitive_def)
    ultimately have "fst (SetAbsAlarm True a start cyc s) = s" by (auto simp: SetAbsAlarm_def not_le Let_def)
    then show ?thesis using inv by simp
  next
    case True
    then have st: "trig_status (alarms s a) = OSEE_TRIGGER_INACTIVE" using cinv_dest(2) [OF inv, of a] by (auto simp: alarm_ok_def)
    have cy: "cyc \<le> maxallowedvalue (counters s ?c)" using True by (cases "cyc = 0") (auto simp: bad_cycle_def not_less)
    let ?s = "osEE_counter_insert_abs_trigger ?c a start (upd_alarm a (\<lambda>x. x\<lparr>cycle := cyc, trig_status := OSEE_TRIGGER_ACTIVE\<rparr>) s)"
    have "SetAbsAlarm True a start cyc s = (?s, E_OK)"
      using True st by (auto simp: SetAbsAlarm_def osEE_alarm_set_abs_def Let_def not_less trigger_status_order osEE_end_primitive_def
        upd_alarm_def osEE_counter_insert_abs_trigger_def upd_counter_def)
    then show ?thesis using arm_inv(1,4) [OF inv k _ refl st _ cy, of start] True by simp
  qed
  then show "cinv {} (fst (SetAbsAlarm True a start cyc s))" "ker (fst (SetAbsAlarm True a start cyc s)) = ker s" by simp_all
qed

text \<open>The tick service: the kernel stays consistent through the preemption point at its end.\<close>

lemma IncrementCounter_inv:
  assumes b: "benign cb" and inv: "cinv {} s" and k: "calls (ker s)" and rk: "ranked r s" and fuel: "\<And>c. c < free_counter_index s \<Longrightarrow> r c < fuel"
  obtains s' x where "IncrementCounter chk cb fuel c s = Some (s', x)" "cinv {} s'" "kinv (ker s')"
proof (cases "c < free_counter_index s")
  case False
  then show ?thesis using that [of s "Some E_OS_ID"] inv calls_dest(1) [OF k] by (simp add: IncrementCounter_def)
next
  case True
  let ?m = "s\<lparr>ker := (ker s)\<lparr>irq_masked := True\<rparr>\<rparr>" and ?f = "irq_masked (ker s)"
  have kf: "kframe (ker s) ((ker s)\<lparr>irq_masked := True\<rparr>)" using calls_dest(1) [OF k] by (simp add: kframe_def)
  obtain s1 where s1: "osEE_counter_increment chk cb fuel c ?m = Some s1" "cinv {} s1" "cframe ?m s1"
    by (rule increment_ticked [OF b cinv_ker [OF inv kf], of r c fuel chk]) (use calls_dest(1) [OF k] rk True fuel in \<open>simp_all add: ranked_def\<close>)
  have c1: "calls (ker s1)" using s1(3) k by (simp add: calls_def cframe_def kframe_def)
  define y where "y = (if is_regular (task_type (tdbs (ker s1) (p_curr (ker s1))))
     then leave (p_curr (ker s1)) (C_END ?f) ?f (osEE_scheduler_task_preemption_point (ker s1)) else (osEE_end_primitive ?f (ker s1), Some E_OK))"
  have e: "IncrementCounter chk cb fuel c s = Some (s1\<lparr>ker := fst y\<rparr>, snd y)"
    using True s1(1) by (simp add: IncrementCounter_def Let_def y_def case_prod_beta)
  have k1: "kinv (fst y)" unfolding y_def
    using leave_preemption_inv [OF calls_dest(1) [OF c1] calls_dest(5) [OF c1]] calls_dest(1) [OF c1] by simp
  have fr: "free_task_index (fst y) = free_task_index (ker s1)"
    by (simp add: y_def leave_def case_prod_beta osEE_end_primitive_def preemption_point_frame)
  have "action_ok (s1\<lparr>ker := fst y\<rparr>) x = action_ok s1 x" for x by (cases x) (simp_all add: fr)
  then have "alarm_ok {} (s1\<lparr>ker := fst y\<rparr>) a = alarm_ok {} s1 a" "counter_ok (s1\<lparr>ker := fst y\<rparr>) d = counter_ok s1 d" for a d
    by (simp_all add: alarm_ok_def counter_ok_def)
  then have "cinv {} (s1\<lparr>ker := fst y\<rparr>)" using s1(2) by (simp add: cinv_def)
  then show ?thesis using that [OF e] k1 by simp
qed

lemma CancelAlarm_armed:
  assumes inv: "cinv {} s" and a: "a < free_alarm_index s" "trig_counter (alarms s a) = c" "trig_status (alarms s a) = OSEE_TRIGGER_ACTIVE"
    and q: "a \<in> set (trigger_queue (counters s c))"
  defines "s' \<equiv> upd_counter c (\<lambda>k. k\<lparr>trigger_queue := remove1 a (trigger_queue k)\<rparr>) (upd_alarm a (\<lambda>x. x\<lparr>trig_status := OSEE_TRIGGER_INACTIVE\<rparr>) s)"
  shows "CancelAlarm a s = Some (s', E_OK)" "CancelAlarm a s' = Some (s', E_OS_NOFUNC)" "cinv {} s'" "trig_status (alarms s' a) = OSEE_TRIGGER_INACTIVE"
    "trigger_queue (counters s' c) = remove1 a (trigger_queue (counters s c))" "ker s' = ker s"
proof -
  show "trig_status (alarms s' a) = OSEE_TRIGGER_INACTIVE" "trigger_queue (counters s' c) = remove1 a (trigger_queue (counters s c))" "ker s' = ker s"
    by (simp_all add: s'_def)
  show "CancelAlarm a s = Some (s', E_OK)"
    using a q by (auto simp: CancelAlarm_def osEE_alarm_cancel_def osEE_counter_cancel_trigger_def trigger_status_order s'_def
      osEE_end_primitive_def upd_counter_def upd_alarm_def split: list.split)
  show "CancelAlarm a s' = Some (s', E_OS_NOFUNC)"
    using a(1) by (simp add: CancelAlarm_def osEE_alarm_cancel_def trigger_status_order s'_def)
  note ok = cinv_dest(1) [OF inv]
  have c: "c < free_counter_index s" using cinv_dest(2) [OF inv a(1)] a(2) by (simp add: alarm_ok_def)
  have tl: "ticks_left (counters s' c) = ticks_left (counters s c)" by (rule ext) (simp add: ticks_left_def s'_def)
  have "sorted (map (left s c) (remove1 a (trigger_queue (counters s c))))"
    using ok [OF c] by (simp add: counter_ok_def sorted_map_remove1)
  moreover have "map (left s' c) (remove1 a (trigger_queue (counters s c))) = map (left s c) (remove1 a (trigger_queue (counters s c)))"
    by (simp add: tl) (simp add: s'_def)
  moreover have tq: "trigger_queue (counters s' c) = remove1 a (trigger_queue (counters s c))" by (simp add: s'_def)
  ultimately have "sorted (map (left s' c) (trigger_queue (counters s' c)))" by (simp only: tq)
  moreover have "distinct (trigger_queue (counters s c))" using ok [OF c] by (simp add: counter_ok_def)
  ultimately have "counter_ok s' c" using ok [OF c] by (auto simp: counter_ok_def s'_def)
  moreover have "counter_ok s' d" if "d < free_counter_index s" "d \<noteq> c" for d
    by (rule counter_ok_cong [OF ok [OF that(1)]]) (use that(2) a in \<open>auto simp: s'_def\<close>)
  moreover have "action_ok s' x = action_ok s x" for x by (cases x) (simp_all add: s'_def)
  then have "alarm_ok {} s' x" if "x < free_alarm_index s" for x
    using cinv_dest(2) [OF inv that] by (auto simp: alarm_ok_def s'_def)
  ultimately show "cinv {} s'" by (auto simp: cinv_def s'_def)
qed

subsection \<open>Properties\<close>

text \<open>
  A tick of a counter returns (the fuel exceeds the length of the chain of counters that drive
  each other), keeps the queues, the alarms and the kernel consistent and leaves the running task in
  place. On a real tick every pending alarm of the counter has one tick less, exactly those with one
  tick left expire, and each of them is pending again for its cycle or inactive. Without a prescaler
  the handled alarms are the due ones in the order of the queue.
\<close>

theorem alarm_countdown:
  assumes "benign cb" "cinv {} s" "kinv (ker s)" "ranked r s" "c < free_counter_index s" "r c < fuel"
  shows "(\<exists>s'. osEE_counter_increment chk cb fuel c s = Some s' \<and> cinv {} s' \<and> cframe s s' \<and>
      (if real_tick (counters s c) then ticked c s s' else s' = upd_counter c (\<lambda>k. k\<lparr>prescaler := prescaler k + 1\<rparr>) s)) \<and>
    (ticksperbase (counters s c) \<le> 1 \<longrightarrow> osEE_counter_increment chk cb fuel c s =
       handle_triggered chk cb (osEE_counter_increment chk cb (fuel - 1)) c (filter (\<lambda>a. left s c a = 1) (trigger_queue (counters s c)))
         (fst (pop_triggered c (stepped c s))))" (is "?A \<and> (?t \<longrightarrow> ?B)")
proof (intro conjI impI)
  show ?A by (rule increment_ticked [OF assms, of chk]) blast
  assume ?t
  then show ?B using assms(6) pop_triggered_countdown(1) [OF cinv_dest(1) [OF assms(2,5)]]
    by (cases fuel) (simp_all add: counter_tick_def Let_def case_prod_beta not_less [symmetric])
qed

definition demo_csys :: csys where
  "demo_csys = \<lparr>counters = (\<lambda>_. \<lparr>cvalue = 3, prescaler = 0, trigger_queue = [], maxallowedvalue = 9, ticksperbase = 1, mincycle = 1\<rparr>),
     alarms = (\<lambda>_. \<lparr>t_when = 0, trig_status = OSEE_TRIGGER_INACTIVE, cycle = 0, trig_counter = 0, trig_action = OSEE_ACTION_TASK 1\<rparr>),
     free_counter_index = 1, free_alarm_index = 1, ker = demo_kern\<rparr>"

lemma demo_csys_ok: "cinv {} demo_csys" "kinv (ker demo_csys)" "ranked (\<lambda>_. 0) demo_csys" "benign (\<lambda>_ s. s)"
proof -
  show k: "kinv (ker demo_csys)" by (simp add: demo_csys_def demo_kinv)
  show "cinv {} demo_csys" by (simp add: cinv_def counter_ok_def alarm_ok_def demo_csys_def) (simp add: demo_kern_def)
  show "ranked (\<lambda>_. 0) demo_csys" by (simp add: ranked_def demo_csys_def)
  show "benign (\<lambda>_ s. s)" unfolding benign_def
  proof (intro allI impI)
    fix s :: csys
    assume "kinv (ker s)"
    then show "\<exists>k. s = s\<lparr>ker := k\<rparr> \<and> kframe (ker s) k" by (intro exI [of _ "ker s"]) (simp add: kframe_refl)
  qed
qed

theorem alarm_countdown_example:
  "\<exists>s'. osEE_counter_increment True (\<lambda>_ s. s) 1 0 demo_csys = Some s' \<and> cinv {} s'"
  using alarm_countdown [OF demo_csys_ok(4,1,2,3), of 0 1 True] by (auto simp: demo_csys_def)

text \<open>
  Setting a relative alarm rejects an unknown alarm, an increment or cycle out of the range of
  its counter and an alarm that is already armed, each without effect. Otherwise the alarm is pending
  with exactly the increment left, which \<open>GetAlarm\<close> reports; cancelling it gives the queue back as it
  was, and cancelling again is E_OS_NOFUNC.
\<close>

theorem alarm_set_cancel:
  fixes s :: csys and a :: nat
  assumes "cinv {} s" "kinv (ker s)"
  defines "c \<equiv> trig_counter (alarms s a)"
  defines "k \<equiv> counters s c"
  shows "(\<not> a < free_alarm_index s \<longrightarrow> SetRelAlarm True a inc cyc s = (s, E_OS_ID)) \<and>
    (a < free_alarm_index s \<longrightarrow> inc = 0 \<or> inc > maxallowedvalue k \<or> bad_cycle k cyc \<longrightarrow> SetRelAlarm True a inc cyc s = (s, E_OS_VALUE)) \<and>
    (a < free_alarm_index s \<longrightarrow> 0 < inc \<longrightarrow> inc \<le> maxallowedvalue k \<longrightarrow> \<not> bad_cycle k cyc \<longrightarrow>
       (if trig_status (alarms s a) = OSEE_TRIGGER_ACTIVE then SetRelAlarm True a inc cyc s = (s, E_OS_STATE)
        else \<exists>s1 s2. SetRelAlarm True a inc cyc s = (s1, E_OK) \<and> cinv {} s1 \<and> ker s1 = ker s \<and>
          trig_status (alarms s1 a) = OSEE_TRIGGER_ACTIVE \<and> cycle (alarms s1 a) = cyc \<and> left s1 c a = unat inc \<and> GetAlarm a s1 = Inr inc \<and>
          CancelAlarm a s1 = Some (s2, E_OK) \<and> cinv {} s2 \<and> trigger_queue (counters s2 c) = trigger_queue k \<and>
          trig_status (alarms s2 a) = OSEE_TRIGGER_INACTIVE \<and> CancelAlarm a s2 = Some (s2, E_OS_NOFUNC)))"
proof (intro conjI impI)
  show "SetRelAlarm True a inc cyc s = (s, E_OS_ID)" if "\<not> a < free_alarm_index s" using that by (simp add: SetRelAlarm_def)
  show "SetRelAlarm True a inc cyc s = (s, E_OS_VALUE)" if "a < free_alarm_index s" "inc = 0 \<or> inc > maxallowedvalue k \<or> bad_cycle k cyc"
    using that by (auto simp: SetRelAlarm_def k_def c_def)
  assume a: "a < free_alarm_index s" and h: "0 < inc" "inc \<le> maxallowedvalue k" "\<not> bad_cycle k cyc"
  show "if trig_status (alarms s a) = OSEE_TRIGGER_ACTIVE then SetRelAlarm True a inc cyc s = (s, E_OS_STATE)
        else \<exists>s1 s2. SetRelAlarm True a inc cyc s = (s1, E_OK) \<and> cinv {} s1 \<and> ker s1 = ker s \<and>
          trig_status (alarms s1 a) = OSEE_TRIGGER_ACTIVE \<and> cycle (alarms s1 a) = cyc \<and> left s1 c a = unat inc \<and> GetAlarm a s1 = Inr inc \<and>
          CancelAlarm a s1 = Some (s2, E_OK) \<and> cinv {} s2 \<and> trigger_queue (counters s2 c) = trigger_queue k \<and>
          trig_status (alarms s2 a) = OSEE_TRIGGER_INACTIVE \<and> CancelAlarm a s2 = Some (s2, E_OS_NOFUNC)"
  proof (cases "trig_status (alarms s a) = OSEE_TRIGGER_ACTIVE")
    case True
    then show ?thesis using a h
      by (auto simp: SetRelAlarm_def osEE_alarm_set_rel_def Let_def not_less trigger_status_order k_def c_def osEE_end_primitive_def)
  next
    case False
    then have st: "trig_status (alarms s a) = OSEE_TRIGGER_INACTIVE" using cinv_dest(2) [OF assms(1) a] by (auto simp: alarm_ok_def)
    have cc: "trig_counter (alarms s a) = c" by (simp add: c_def)
    obtain s1 where s1: "SetRelAlarm True a inc cyc s = (s1, E_OK)" "cinv {} s1" "ker s1 = ker s"
      "trig_status (alarms s1 a) = OSEE_TRIGGER_ACTIVE" "cycle (alarms s1 a) = cyc" "left s1 c a = unat inc" "trig_counter (alarms s1 a) = c"
      "free_alarm_index s1 = free_alarm_index s" "remove1 a (trigger_queue (counters s1 c)) = trigger_queue k" "a \<in> set (trigger_queue (counters s1 c))"
      "GetAlarm a s1 = Inr inc"
      by (rule SetRelAlarm_arms [OF assms(1,2) a cc st h [unfolded k_def], of True, folded k_def]) blast
    have a1: "a < free_alarm_index s1" using a s1(8) by simp
    note x = CancelAlarm_armed [OF s1(2) a1 s1(7,4,10), unfolded s1(9)]
    show ?thesis using False s1 x by auto
  qed
qed

theorem alarm_set_cancel_example:
  "\<exists>s1 s2. SetRelAlarm True 0 8 0 demo_csys = (s1, E_OK) \<and> left s1 0 0 = 8 \<and> CancelAlarm 0 s1 = Some (s2, E_OK)"
  using alarm_set_cancel [OF demo_csys_ok(1,2), of 0 8 0] by (auto simp: demo_csys_def bad_cycle_def)

text \<open>
  C7: A relative alarm expires on time: set with increment \<open>inc\<close> on a counter without prescaler, it is
  still pending after every smaller number of ticks, with the rest of the ticks left, and the
  \<open>inc\<close>-th tick makes it expire: it is then pending for its cycle, or inactive when it has none.
\<close>

theorem alarm_expires_on_time:
  assumes "cinv {} s" "kinv (ker s)" "a < free_alarm_index s" "trig_counter (alarms s a) = c"
    "trig_status (alarms s a) = OSEE_TRIGGER_INACTIVE" "0 < inc" "inc \<le> maxallowedvalue (counters s c)" "\<not> bad_cycle (counters s c) cyc"
    and r: "benign cb" "ranked r s" "r c < fuel" "ticksperbase (counters s c) \<le> 1"
  shows "\<exists>s0. SetRelAlarm True a inc cyc s = (s0, E_OK) \<and>
    (\<forall>n<unat inc. \<exists>s'. tick_times chk cb fuel c n s0 = Some s' \<and> trig_status (alarms s' a) = OSEE_TRIGGER_ACTIVE \<and> left s' c a = unat inc - n) \<and>
    (\<exists>s'. tick_times chk cb fuel c (unat inc) s0 = Some s' \<and> cinv {} s' \<and> kinv (ker s') \<and>
      (if cyc > 0 then trig_status (alarms s' a) = OSEE_TRIGGER_ACTIVE \<and> left s' c a = unat cyc
       else trig_status (alarms s' a) = OSEE_TRIGGER_INACTIVE))"
proof -
  obtain s0 where s0: "SetRelAlarm True a inc cyc s = (s0, E_OK)" "cinv {} s0" "ker s0 = ker s"
    "trig_status (alarms s0 a) = OSEE_TRIGGER_ACTIVE" "cycle (alarms s0 a) = cyc" "left s0 c a = unat inc" "trig_counter (alarms s0 a) = c"
    "free_alarm_index s0 = free_alarm_index s" "free_counter_index s0 = free_counter_index s"
    "\<And>d. ticksperbase (counters s0 d) = ticksperbase (counters s d)" "\<And>x. trig_action (alarms s0 x) = trig_action (alarms s x)"
    "\<And>x. trig_counter (alarms s0 x) = trig_counter (alarms s x)"
    by (rule SetRelAlarm_arms [OF assms(1-8), of True]) blast
  have c: "c < free_counter_index s0" using cinv_dest(2) [OF assms(1,3)] assms(4) s0(9) by (simp add: alarm_ok_def)
  have rk: "ranked r s0" using r(2) s0(8,11,12) by (simp add: ranked_def)
  have a: "a < free_alarm_index s0" and k: "kinv (ker s0)" and tpb: "ticksperbase (counters s0 c) \<le> 1" using assms s0 by simp_all
  note pend = tick_times_pending [OF r(1) s0(2) k rk c r(3) tpb a s0(7,4), unfolded s0(6), of _ chk]
  obtain m where m: "unat inc = Suc m" using assms(6) by (cases "unat inc") (auto simp: word_less_nat_alt)
  obtain s1 where s1: "tick_times chk cb fuel c m s0 = Some s1" "cinv {} s1" "cframe s0 s1" "alarms s1 a = alarms s0 a" "left s1 c a = 1"
    using pend [of m] m by auto
  have f: "c < free_counter_index s1" "a < free_alarm_index s1" "\<not> 1 < ticksperbase (counters s1 c)" "trig_counter (alarms s1 a) = c"
    "trig_status (alarms s1 a) = OSEE_TRIGGER_ACTIVE"
    using s1(3,4) c a tpb s0(4,7) by (auto simp: cframe_def not_less)
  have rk1: "ranked r s1" using rk ranked_cframe [OF s1(3)] by simp
  obtain s2 where s2: "osEE_counter_increment chk cb fuel c s1 = Some s2" "cinv {} s2" "cframe s1 s2"
    "if real_tick (counters s1 c) then ticked c s1 s2 else s2 = upd_counter c (\<lambda>k. k\<lparr>prescaler := prescaler k + 1\<rparr>) s1"
    by (rule increment_ticked [OF r(1) s1(2) cframe_kinv [OF s1(3)] rk1 f(1) r(3)])
  have "ticked c s1 s2" using s2(4) f(3) by (simp add: real_tick_def)
  from ticked_dest(2) [OF this f(2,4,5) s1(5)] have "rearmed c a s1 s2" .
  moreover have "tick_times chk cb fuel c (unat inc) s0 = Some s2" using s1(1) s2(1) by (simp add: m)
  moreover have "\<forall>n<unat inc. \<exists>s'. tick_times chk cb fuel c n s0 = Some s' \<and> trig_status (alarms s' a) = OSEE_TRIGGER_ACTIVE \<and> left s' c a = unat inc - n"
    using pend s0(4) by (metis (no_types, lifting))
  ultimately show ?thesis using s0(1,5) s1(4) s2(2) cframe_kinv [OF s2(3)] by (auto simp: rearmed_def)
qed

theorem alarm_expires_on_time_witness:
  "\<exists>s0 s'. SetRelAlarm True 0 8 2 demo_csys = (s0, E_OK) \<and> tick_times True (\<lambda>_ s. s) 1 0 8 s0 = Some s' \<and>
    trig_status (alarms s' 0) = OSEE_TRIGGER_ACTIVE \<and> left s' 0 0 = 2"
proof -
  have h: "0 < free_alarm_index demo_csys" "trig_counter (alarms demo_csys 0) = 0" "trig_status (alarms demo_csys 0) = OSEE_TRIGGER_INACTIVE"
    "0 < (8 :: tick)" "8 \<le> maxallowedvalue (counters demo_csys 0)" "\<not> bad_cycle (counters demo_csys 0) 2" "ticksperbase (counters demo_csys 0) \<le> 1"
    by (simp_all add: demo_csys_def bad_cycle_def)
  show ?thesis using alarm_expires_on_time [OF demo_csys_ok(1,2) h(1-6) demo_csys_ok(4,3) _ h(7), of 1 True] by auto
qed

text \<open>
  An alarm that is cancelled and set again while its notification is handled is lost: both
  services return E_OK, but the alarm is left in the status REENABLED outside every queue, so it never
  expires, and each later attempt to set it is rejected.
\<close>

theorem alarm_reenabled_lost:
  assumes a: "a < free_alarm_index s" "trig_counter (alarms s a) = c" "trig_status (alarms s a) = OSEE_TRIGGER_EXPIRED"
    "trig_action (alarms s a) = OSEE_ACTION_CALLBACK f" "a \<notin> set (trigger_queue (counters s c))"
    and i: "0 < inc" "inc \<le> maxallowedvalue (counters s c)" "\<not> bad_cycle (counters s c) cyc"
    and cb: "cb f s = fst (SetRelAlarm True a inc cyc (fst (the (CancelAlarm a s))))"
  shows "\<exists>s1. CancelAlarm a s = Some (s1, E_OK) \<and> snd (SetRelAlarm True a inc cyc s1) = E_OK \<and>
    (\<exists>s'. osEE_counter_handle_alarm chk cb incr c a s = Some s' \<and> trig_status (alarms s' a) = OSEE_TRIGGER_REENABLED \<and>
      counters s' = counters s \<and> a \<notin> set (trigger_queue (counters s' c)) \<and>
      (\<forall>chk' inc' cyc'. snd (SetRelAlarm chk' a inc' cyc' s') \<in> {E_OS_VALUE, E_OS_STATE}))"
proof -
  define s1 where "s1 = upd_alarm a (\<lambda>x. x\<lparr>trig_status := OSEE_TRIGGER_CANCELED\<rparr>) s"
  define s' where "s' = upd_alarm a (\<lambda>x. x\<lparr>cycle := cyc, t_when := osEE_counter_eval_when (counters s c) inc, trig_status := OSEE_TRIGGER_REENABLED\<rparr>) s1"
  have e1: "CancelAlarm a s = Some (s1, E_OK)"
    using a by (simp add: CancelAlarm_def osEE_alarm_cancel_def trigger_status_order s1_def osEE_end_primitive_def upd_alarm_def)
  have e2: "SetRelAlarm True a inc cyc s1 = (s', E_OK)"
    using a i by (auto simp: SetRelAlarm_def osEE_alarm_set_rel_def trigger_status_order Let_def not_less s1_def s'_def osEE_end_primitive_def upd_alarm_def)
  have "osEE_counter_handle_alarm chk cb incr c a s = Some s'"
    using a cb e1 e2 by (simp add: osEE_counter_handle_alarm_def osEE_handle_action_def s'_def)
  moreover have "snd (SetRelAlarm chk' a inc' cyc' s') \<in> {E_OS_VALUE, E_OS_STATE}" for chk' inc' cyc'
    using a(1) by (auto simp: SetRelAlarm_def osEE_alarm_set_rel_def trigger_status_order Let_def s'_def s1_def)
  ultimately show ?thesis using e1 e2 a(5) by (auto simp: s'_def s1_def)
qed

theorem alarm_reenabled_lost_example:
  "\<exists>s'. osEE_counter_handle_alarm True (\<lambda>_ s. fst (SetRelAlarm True 0 5 0 (fst (the (CancelAlarm 0 s))))) (\<lambda>_. Some) 0 0
      (demo_csys\<lparr>alarms := (\<lambda>_. \<lparr>t_when = 3, trig_status = OSEE_TRIGGER_EXPIRED, cycle = 0, trig_counter = 0,
         trig_action = OSEE_ACTION_CALLBACK 0\<rparr>)\<rparr>) = Some s' \<and> trig_status (alarms s' 0) = OSEE_TRIGGER_REENABLED"
  using alarm_reenabled_lost [of 0 "demo_csys\<lparr>alarms := (\<lambda>_. \<lparr>t_when = 3, trig_status = OSEE_TRIGGER_EXPIRED, cycle = 0, trig_counter = 0,
         trig_action = OSEE_ACTION_CALLBACK 0\<rparr>)\<rparr>" 0 0 5 0 "\<lambda>_ s. fst (SetRelAlarm True 0 5 0 (fst (the (CancelAlarm 0 s))))" True "\<lambda>_. Some"]
  by (simp add: demo_csys_def bad_cycle_def) blast

end
