(* ===== verification/PageTable.thy ===== *)
theory PageTable
  imports Mmio
begin

text \<open>
  Page tables (\<open>hypervisor/paging.c\<close>, second part, and \<open>arch/arm-common/paging.c\<close> with the masks of
  \<open>arch/arm64/include/asm/paging.h\<close>): creating and destroying mappings in tables of up to four levels,
  splitting of huge pages, and the software walk.

  The memory is a map from the address of a table entry to its value; tables come from the page pool of
  the hypervisor. A pointer into the array of levels is the list of the levels from there on; a function
  pointer that is NULL is \<open>None\<close>. The flushes of TLB entries are a trace, the flushes of data caches have
  no effect on the model. \<open>off\<close> is \<open>page_offset\<close>.
\<close>

type_synonym ptmem = "u64 \<Rightarrow> u64"

record paging =
  page_size :: u32
  get_entry :: "u64 \<Rightarrow> u64 \<Rightarrow> u64"
  entry_valid :: "u64 \<Rightarrow> u64 \<Rightarrow> ptmem \<Rightarrow> bool"
  set_terminal :: "(u64 \<Rightarrow> u64 \<Rightarrow> u64 \<Rightarrow> ptmem \<Rightarrow> ptmem) option"
  get_phys :: "u64 \<Rightarrow> u64 \<Rightarrow> ptmem \<Rightarrow> u64"
  get_flags :: "u64 \<Rightarrow> ptmem \<Rightarrow> u64"
  set_next_pt :: "(u64 \<Rightarrow> u64 \<Rightarrow> ptmem \<Rightarrow> ptmem) option"
  get_next_pt :: "(u64 \<Rightarrow> ptmem \<Rightarrow> u64) option"
  clear_entry :: "u64 \<Rightarrow> ptmem \<Rightarrow> ptmem"
  page_table_empty :: "u64 \<Rightarrow> ptmem \<Rightarrow> bool"

record paging_structures =
  root_paging :: "paging list"
  root_table :: u64
  is_hv_structs :: bool

record pt_state =
  mem_pool :: page_pool
  pt_mem :: ptmem
  tlb_flushes :: "u64 list"

subsection \<open>Entries of the ARM tables\<close>

definition BIT_MASK :: "nat \<Rightarrow> nat \<Rightarrow> u64" where
  "BIT_MASK hi lo = push_bit lo (drop_bit (64 - (hi + 1 - lo)) 0xffffffffffffffff)"

definition INVALID_PHYS_ADDR :: u64 where
  "INVALID_PHYS_ADDR = not 0"

definition PTE_FLAG_VALID :: u64 where
  "PTE_FLAG_VALID = 1"

definition PTE_FLAG_TERMINAL :: u64 where
  "PTE_FLAG_TERMINAL = 2"

definition PTE_TABLE_FLAGS :: u64 where
  "PTE_TABLE_FLAGS = 3"

definition arm_entry_valid :: "u64 \<Rightarrow> u64 \<Rightarrow> ptmem \<Rightarrow> bool" where
  "arm_entry_valid entry flags m \<longleftrightarrow> and (m entry) 1 \<noteq> 0"

definition arm_get_entry_flags :: "u64 \<Rightarrow> ptmem \<Rightarrow> u64" where
  "arm_get_entry_flags entry m = and (m entry) 0xfff"

definition arm_clear_entry :: "u64 \<Rightarrow> ptmem \<Rightarrow> ptmem" where
  "arm_clear_entry entry m = m(entry := 0)"

definition arm_page_table_empty :: "u64 \<Rightarrow> ptmem \<Rightarrow> bool" where
  "arm_page_table_empty page_table m \<longleftrightarrow>
     (\<forall>n\<in>{0..<PAGE_SIZE div 8}. \<not> arm_entry_valid (page_table + of_nat (8 * n)) PTE_FLAG_VALID m)"

definition arm_get_l0_entry :: "u64 \<Rightarrow> u64 \<Rightarrow> u64" where
  "arm_get_l0_entry page_table virt = page_table + 8 * drop_bit 39 (and virt (BIT_MASK 47 39))"

definition arm_get_l0_phys :: "u64 \<Rightarrow> u64 \<Rightarrow> ptmem \<Rightarrow> u64" where
  "arm_get_l0_phys pte virt m =
     (if and (m pte) PTE_TABLE_FLAGS = PTE_TABLE_FLAGS then INVALID_PHYS_ADDR
      else or (and (m pte) (BIT_MASK 47 39)) (and virt (BIT_MASK 38 0)))"

definition arm_get_l1_entry :: "u64 \<Rightarrow> u64 \<Rightarrow> u64" where
  "arm_get_l1_entry page_table virt = page_table + 8 * drop_bit 30 (and virt (BIT_MASK 38 30))"

definition arm_set_l1_block :: "u64 \<Rightarrow> u64 \<Rightarrow> u64 \<Rightarrow> ptmem \<Rightarrow> ptmem" where
  "arm_set_l1_block pte phys flags m = m(pte := or (and phys (BIT_MASK 47 30)) flags)"

definition arm_get_l1_phys :: "u64 \<Rightarrow> u64 \<Rightarrow> ptmem \<Rightarrow> u64" where
  "arm_get_l1_phys pte virt m =
     (if and (m pte) PTE_TABLE_FLAGS = PTE_TABLE_FLAGS then INVALID_PHYS_ADDR
      else or (and (m pte) (BIT_MASK 47 30)) (and virt (BIT_MASK 29 0)))"

definition arm_get_l1_alt_entry :: "u64 \<Rightarrow> u64 \<Rightarrow> u64" where
  "arm_get_l1_alt_entry page_table virt = page_table + 8 * drop_bit 30 (and virt (BIT_MASK 48 30))"

definition arm_get_l1_alt_phys :: "u64 \<Rightarrow> u64 \<Rightarrow> ptmem \<Rightarrow> u64" where
  "arm_get_l1_alt_phys pte virt m =
     (if and (m pte) PTE_TABLE_FLAGS = PTE_TABLE_FLAGS then INVALID_PHYS_ADDR
      else or (and (m pte) (BIT_MASK 48 30)) (and virt (BIT_MASK 29 0)))"

definition arm_get_l2_entry :: "u64 \<Rightarrow> u64 \<Rightarrow> u64" where
  "arm_get_l2_entry page_table virt = page_table + 8 * drop_bit 21 (and virt (BIT_MASK 29 21))"

definition arm_get_l3_entry :: "u64 \<Rightarrow> u64 \<Rightarrow> u64" where
  "arm_get_l3_entry page_table virt = page_table + 8 * drop_bit 12 (and virt (BIT_MASK 20 12))"

definition arm_set_l2_block :: "u64 \<Rightarrow> u64 \<Rightarrow> u64 \<Rightarrow> ptmem \<Rightarrow> ptmem" where
  "arm_set_l2_block pte phys flags m = m(pte := or (and phys (BIT_MASK 47 21)) flags)"

definition arm_set_l3_page :: "u64 \<Rightarrow> u64 \<Rightarrow> u64 \<Rightarrow> ptmem \<Rightarrow> ptmem" where
  "arm_set_l3_page pte phys flags m = m(pte := or (or (and phys (BIT_MASK 47 12)) flags) PTE_FLAG_TERMINAL)"

definition arm_set_l12_table :: "u64 \<Rightarrow> u64 \<Rightarrow> ptmem \<Rightarrow> ptmem" where
  "arm_set_l12_table pte next_pt m = m(pte := or (and next_pt (BIT_MASK 47 12)) PTE_TABLE_FLAGS)"

definition arm_get_l12_table :: "u64 \<Rightarrow> ptmem \<Rightarrow> u64" where
  "arm_get_l12_table pte m = and (m pte) (BIT_MASK 47 12)"

definition arm_get_l2_phys :: "u64 \<Rightarrow> u64 \<Rightarrow> ptmem \<Rightarrow> u64" where
  "arm_get_l2_phys pte virt m =
     (if and (m pte) PTE_TABLE_FLAGS = PTE_TABLE_FLAGS then INVALID_PHYS_ADDR
      else or (and (m pte) (BIT_MASK 47 21)) (and virt (BIT_MASK 20 0)))"

definition arm_get_l3_phys :: "u64 \<Rightarrow> u64 \<Rightarrow> ptmem \<Rightarrow> u64" where
  "arm_get_l3_phys pte virt m =
     (if and (m pte) PTE_FLAG_TERMINAL = 0 then INVALID_PHYS_ADDR
      else or (and (m pte) (BIT_MASK 47 12)) (and virt PAGE_MASK))"

text \<open>The common members of all levels are \<open>ARM_PAGING_COMMON\<close>.\<close>

definition ARM_PAGING_COMMON ::
  "u32 \<Rightarrow> (u64 \<Rightarrow> u64 \<Rightarrow> u64) \<Rightarrow> (u64 \<Rightarrow> u64 \<Rightarrow> u64 \<Rightarrow> ptmem \<Rightarrow> ptmem) option \<Rightarrow> (u64 \<Rightarrow> u64 \<Rightarrow> ptmem \<Rightarrow> u64) \<Rightarrow>
   (u64 \<Rightarrow> u64 \<Rightarrow> ptmem \<Rightarrow> ptmem) option \<Rightarrow> (u64 \<Rightarrow> ptmem \<Rightarrow> u64) option \<Rightarrow> paging" where
  "ARM_PAGING_COMMON psize entry terminal phys set_next get_next =
     \<lparr>page_size = psize, get_entry = entry, entry_valid = arm_entry_valid, set_terminal = terminal, get_phys = phys,
      get_flags = arm_get_entry_flags, set_next_pt = set_next, get_next_pt = get_next, clear_entry = arm_clear_entry,
      page_table_empty = arm_page_table_empty\<rparr>"

definition arm_paging :: "paging list" where
  "arm_paging =
     [ARM_PAGING_COMMON 0 arm_get_l0_entry None arm_get_l0_phys (Some arm_set_l12_table) (Some arm_get_l12_table),
      ARM_PAGING_COMMON (1024 * 1024 * 1024) arm_get_l1_entry (Some arm_set_l1_block) arm_get_l1_phys
        (Some arm_set_l12_table) (Some arm_get_l12_table),
      ARM_PAGING_COMMON (2 * 1024 * 1024) arm_get_l2_entry (Some arm_set_l2_block) arm_get_l2_phys
        (Some arm_set_l12_table) (Some arm_get_l12_table),
      ARM_PAGING_COMMON (4 * 1024) arm_get_l3_entry (Some arm_set_l3_page) arm_get_l3_phys None None]"

definition arm_s2_paging_alt :: "paging list" where
  "arm_s2_paging_alt =
     [ARM_PAGING_COMMON 0 arm_get_l1_alt_entry None arm_get_l1_alt_phys (Some arm_set_l12_table) (Some arm_get_l12_table),
      ARM_PAGING_COMMON (2 * 1024 * 1024) arm_get_l2_entry (Some arm_set_l2_block) arm_get_l2_phys
        (Some arm_set_l12_table) (Some arm_get_l12_table),
      ARM_PAGING_COMMON (4 * 1024) arm_get_l3_entry (Some arm_set_l3_page) arm_get_l3_phys None None]"

text \<open>The tables of the hypervisor and, for the physical address range of the processor, those of the cells.\<close>

definition arch_paging_init :: "nat \<Rightarrow> paging list \<times> paging list" where
  "arch_paging_init cpu_parange = (arm_paging, if cpu_parange < 44 then arm_s2_paging_alt else arm_paging)"

subsection \<open>Walks and mappings\<close>

definition paging_hvirt2phys :: "u64 \<Rightarrow> u64 \<Rightarrow> u64" where
  "paging_hvirt2phys off hvirt = hvirt - off"

definition paging_phys2hvirt :: "u64 \<Rightarrow> u64 \<Rightarrow> u64" where
  "paging_phys2hvirt off phys = phys + off"

definition PAGE_ALIGN :: "u64 \<Rightarrow> u64" where
  "PAGE_ALIGN s = and (s + of_nat PAGE_SIZE - 1) PAGE_MASK"

text \<open>A walk behind the last level is \<open>None\<close>.\<close>

primrec virt2phys_walk :: "u64 \<Rightarrow> paging list \<Rightarrow> u64 \<Rightarrow> u64 \<Rightarrow> u64 \<Rightarrow> ptmem \<Rightarrow> u64 option" where
  "virt2phys_walk off [] pt virt flags m = None"
| "virt2phys_walk off (paging # ps) pt virt flags m =
     (let pte = get_entry paging pt virt in
      if \<not> entry_valid paging pte flags m then Some INVALID_PHYS_ADDR
      else
        let phys = get_phys paging pte virt m in
        if phys \<noteq> INVALID_PHYS_ADDR then Some phys
        else get_next_pt paging \<bind> (\<lambda>next_pt. virt2phys_walk off ps (paging_phys2hvirt off (next_pt pte m)) virt flags m))"

definition paging_virt2phys :: "u64 \<Rightarrow> paging_structures \<Rightarrow> u64 \<Rightarrow> u64 \<Rightarrow> ptmem \<Rightarrow> u64 option" where
  "paging_virt2phys off pg_structs virt flags m = virt2phys_walk off (root_paging pg_structs) (root_table pg_structs) virt flags m"

text \<open>
  \<open>paging_create\<close>, \<open>paging_destroy\<close> and \<open>split_hugepage\<close> call each other, the latter one level deeper:
  \<open>create\<close> is the creation for the tables below.
\<close>

type_synonym creator = "paging_structures \<Rightarrow> u64 \<Rightarrow> u64 \<Rightarrow> u64 \<Rightarrow> u64 \<Rightarrow> pt_state \<Rightarrow> (pt_state \<times> int) option"

definition ENOMEM :: int where
  "ENOMEM = 12"

definition alloc_table :: "pt_state \<Rightarrow> (pt_state \<times> u64) option" where
  "alloc_table st = page_alloc (mem_pool st) 1 \<bind> (\<lambda>(pool, a). Some (st\<lparr>mem_pool := pool\<rparr>, a))"

definition link_table :: "u64 \<Rightarrow> paging \<Rightarrow> u64 \<Rightarrow> u64 \<Rightarrow> pt_state \<Rightarrow> pt_state option" where
  "link_table off paging pte pt st =
     set_next_pt paging \<bind> (\<lambda>set_next. Some (st\<lparr>pt_mem := set_next pte (paging_hvirt2phys off pt) (pt_mem st)\<rparr>))"

definition split_hugepage :: "creator \<Rightarrow> u64 \<Rightarrow> paging \<Rightarrow> paging list \<Rightarrow> u64 \<Rightarrow> u64 \<Rightarrow> pt_state \<Rightarrow> (pt_state \<times> int) option" where
  "split_hugepage create off paging ps pte virt st =
     (let phys = get_phys paging pte virt (pt_mem st) in
      if phys = INVALID_PHYS_ADDR then Some (st, 0)
      else
        let page_mask = ucast (not (page_size paging - 1));
            flags = get_flags paging pte (pt_mem st) in
        alloc_table st \<bind> (\<lambda>(st1, pt).
        if pt = 0 then Some (st1, - ENOMEM)
        else
          link_table off paging pte pt st1 \<bind> (\<lambda>st2.
          create \<lparr>root_paging = ps, root_table = pt, is_hv_structs = False\<rparr> (and phys page_mask) (ucast (page_size paging))
            (and virt page_mask) flags st2)))"

text \<open>The way down of \<open>paging_destroy\<close>, with the levels and tables of the path, the deepest first.\<close>

primrec destroy_down ::
  "creator \<Rightarrow> u64 \<Rightarrow> u64 \<Rightarrow> u64 \<Rightarrow> paging list \<Rightarrow> u64 \<Rightarrow> (paging \<times> u64) list \<Rightarrow> pt_state \<Rightarrow>
     (pt_state \<times> (int + (paging \<times> u64) list)) option" where
  "destroy_down create off virt sz [] pt path st = None"
| "destroy_down create off virt sz (paging # ps) pt path st =
     (let pte = get_entry paging pt virt;
          path' = (paging, pt) # path;
          descend = (\<lambda>st1. get_next_pt paging \<bind> (\<lambda>next_pt.
            destroy_down create off virt sz ps (paging_phys2hvirt off (next_pt pte (pt_mem st1))) path' st1)) in
      if \<not> entry_valid paging pte PTE_FLAG_VALID (pt_mem st) then Some (st, Inr path')
      else if get_phys paging pte virt (pt_mem st) \<noteq> INVALID_PHYS_ADDR then
        if ucast (page_size paging) > sz then
          split_hugepage create off paging ps pte virt st \<bind> (\<lambda>(st1, err).
          if err \<noteq> 0 then Some (st1, Inl err) else descend st1)
        else Some (st, Inr path')
      else descend st)"

text \<open>The way up: entries are cleared and empty tables below the root are released.\<close>

primrec destroy_up :: "u64 \<Rightarrow> (paging \<times> u64) list \<Rightarrow> pt_state \<Rightarrow> pt_state" where
  "destroy_up virt [] st = st"
| "destroy_up virt (l # path) st =
     (let (paging, pt) = l;
          st1 = st\<lparr>pt_mem := clear_entry paging (get_entry paging pt virt) (pt_mem st)\<rparr> in
      if path = [] \<or> \<not> page_table_empty paging pt (pt_mem st1) then st1
      else
        let (pool, m) = page_free (mem_pool st1) pt 1 (pt_mem st1) in
        destroy_up virt path (st1\<lparr>mem_pool := pool, pt_mem := m\<rparr>))"

definition arch_paging_flush_page_tlbs :: "paging_structures \<Rightarrow> u64 \<Rightarrow> pt_state \<Rightarrow> pt_state" where
  "arch_paging_flush_page_tlbs pg_structs virt st =
     (if is_hv_structs pg_structs then st\<lparr>tlb_flushes := tlb_flushes st @ [virt]\<rparr> else st)"

definition step_size :: "(paging \<times> u64) list \<Rightarrow> u64" where
  "step_size path = (case path of [] \<Rightarrow> of_nat PAGE_SIZE
     | l # _ \<Rightarrow> if page_size (fst l) \<noteq> 0 then ucast (page_size (fst l)) else of_nat PAGE_SIZE)"

lemma ucast_u32_unat: "unat (ucast (w :: u32) :: u64) = unat w"
proof -
  have "unat w < 2 ^ LENGTH(32)" by (rule unsigned_less)
  then show ?thesis by (simp add: unat_ucast_mod)
qed

lemma step_size_pos: "0 < step_size path"
proof -
  have "0 < (ucast w :: u64)" if "w \<noteq> 0" for w :: u32
    using that by (simp add: word_less_nat_alt ucast_u32_unat unat_gt_0)
  then show ?thesis by (auto simp: step_size_def PAGE_SIZE_def split: list.split)
qed

function destroy_loop :: "creator \<Rightarrow> u64 \<Rightarrow> paging_structures \<Rightarrow> u64 \<Rightarrow> u64 \<Rightarrow> pt_state \<Rightarrow> (pt_state \<times> int) option" where
  "destroy_loop create off pg_structs virt sz st =
     (if sz > 0 then
        destroy_down create off virt sz (root_paging pg_structs) (root_table pg_structs) [] st \<bind> (\<lambda>(st1, r).
        case r of Inl err \<Rightarrow> Some (st1, err)
        | Inr path \<Rightarrow>
            let st2 = arch_paging_flush_page_tlbs pg_structs virt (destroy_up virt path st1) in
            if step_size path > sz then Some (st2, 0)
            else destroy_loop create off pg_structs (virt + step_size path) (sz - step_size path) st2)
      else Some (st, 0))"
  by pat_completeness auto

termination
proof (relation "measure (\<lambda>(create, off, pg_structs, virt, sz, st). unat sz)", goal_cases)
  case (2 create off pg_structs virt sz st x st1 r path st2)
  then have "step_size path \<le> sz" by simp
  then show ?case using step_size_pos [of path] 2(1) by (simp add: unat_sub word_le_nat_alt word_less_nat_alt)
qed simp

declare destroy_loop.simps [simp del]

text \<open>One entry of \<open>paging_create\<close>: the size of the page it set, or the error.\<close>

primrec create_walk ::
  "creator \<Rightarrow> u64 \<Rightarrow> u64 \<Rightarrow> u64 \<Rightarrow> u64 \<Rightarrow> u64 \<Rightarrow> paging list \<Rightarrow> u64 \<Rightarrow> pt_state \<Rightarrow> (pt_state \<times> (int + u64)) option" where
  "create_walk create off phys sz virt flags [] pt st = None"
| "create_walk create off phys sz virt flags (paging # ps) pt st =
     (let pte = get_entry paging pt virt;
          psize = ucast (page_size paging);
          descend = (\<lambda>st1. get_next_pt paging \<bind> (\<lambda>next_pt.
            create_walk create off phys sz virt flags ps (paging_phys2hvirt off (next_pt pte (pt_mem st1))) st1)) in
      if psize > 0 \<and> psize \<le> sz \<and> and (or phys virt) (psize - 1) = 0 then
        (if psize > of_nat PAGE_SIZE
         then destroy_loop create off \<lparr>root_paging = paging # ps, root_table = pt, is_hv_structs = False\<rparr> virt (PAGE_ALIGN psize) st
         else Some (st, 0)) \<bind> (\<lambda>(st1, _).
        set_terminal paging \<bind> (\<lambda>set_term.
        Some (st1\<lparr>pt_mem := set_term pte phys flags (pt_mem st1)\<rparr>, Inr psize)))
      else if entry_valid paging pte PTE_FLAG_VALID (pt_mem st) then
        split_hugepage create off paging ps pte virt st \<bind> (\<lambda>(st1, err).
        if err \<noteq> 0 then Some (st1, Inl err) else descend st1)
      else
        alloc_table st \<bind> (\<lambda>(st1, a).
        if a = 0 then Some (st1, Inl (- ENOMEM))
        else link_table off paging pte a st1 \<bind> (\<lambda>st2.
          create_walk create off phys sz virt flags ps a st2)))"

lemma create_walk_size:
  assumes "create_walk create off phys sz virt flags ps pt st = Some (st', Inr psize)"
  shows "0 < psize \<and> psize \<le> sz"
  using assms
proof (induction ps arbitrary: pt st)
  case (Cons paging ps)
  then show ?case by (auto simp: Let_def bind_eq_Some_conv split: if_splits)
qed simp

function create_loop :: "creator \<Rightarrow> u64 \<Rightarrow> paging_structures \<Rightarrow> u64 \<Rightarrow> u64 \<Rightarrow> u64 \<Rightarrow> u64 \<Rightarrow> pt_state \<Rightarrow> (pt_state \<times> int) option" where
  "create_loop create off pg_structs phys sz virt flags st =
     (if sz > 0 then
        (case create_walk create off phys sz virt flags (root_paging pg_structs) (root_table pg_structs) st of
           None \<Rightarrow> None
         | Some (st1, Inl err) \<Rightarrow> Some (st1, err)
         | Some (st1, Inr psize) \<Rightarrow>
             create_loop create off pg_structs (phys + psize) (sz - psize) (virt + psize) flags
               (arch_paging_flush_page_tlbs pg_structs virt st1))
      else Some (st, 0))"
  by pat_completeness auto

termination
proof (relation "measure (\<lambda>(create, off, pg_structs, phys, sz, virt, flags, st). unat sz)", goal_cases)
  case (2 create off pg_structs phys sz virt flags st x2 st1 r psize)
  then have "0 < psize \<and> psize \<le> sz" by (intro create_walk_size) auto
  then show ?case by (simp add: unat_sub word_le_nat_alt word_less_nat_alt)
qed simp

declare create_loop.simps [simp del]

text \<open>A creation for \<open>n\<close> levels.\<close>

primrec create_levels :: "nat \<Rightarrow> u64 \<Rightarrow> creator" where
  "create_levels 0 off pg_structs phys sz virt flags st = None"
| "create_levels (Suc n) off pg_structs phys sz virt flags st =
     create_loop (create_levels n off) off pg_structs (and phys PAGE_MASK) (PAGE_ALIGN sz) (and virt PAGE_MASK) flags st"

definition paging_create :: "u64 \<Rightarrow> creator" where
  "paging_create off pg_structs = create_levels (length (root_paging pg_structs)) off pg_structs"

definition paging_destroy :: "u64 \<Rightarrow> paging_structures \<Rightarrow> u64 \<Rightarrow> u64 \<Rightarrow> pt_state \<Rightarrow> (pt_state \<times> int) option" where
  "paging_destroy off pg_structs virt sz st =
     destroy_loop (create_levels (length (root_paging pg_structs) - 1) off) off pg_structs virt (PAGE_ALIGN sz) st"

subsection \<open>Levels\<close>

text \<open>
  The levels counted from the last one: level \<open>n\<close> has pages of \<open>2 ^ (12 + 9 * n)\<close> bytes. The index of an
  address in the table of level \<open>n\<close>, and the address of an entry.
\<close>

definition lvl :: "nat \<Rightarrow> paging" where
  "lvl n = arm_paging ! (3 - n)"

definition levels :: "nat \<Rightarrow> paging list" where
  "levels n = drop (3 - n) arm_paging"

abbreviation pshift :: "nat \<Rightarrow> nat" where
  "pshift n \<equiv> 12 + 9 * n"

definition idx :: "nat \<Rightarrow> u64 \<Rightarrow> nat" where
  "idx n v = unat v div 2 ^ pshift n mod 512"

definition ent :: "u64 \<Rightarrow> nat \<Rightarrow> u64" where
  "ent t i = t + of_nat (8 * i)"

definition page_frame :: "nat \<Rightarrow> u64 \<Rightarrow> u64" where
  "page_frame n e = and e (BIT_MASK 47 (pshift n))"

definition terminal_entry :: "nat \<Rightarrow> u64 \<Rightarrow> u64 \<Rightarrow> u64" where
  "terminal_entry n phys flags = (if n = 0 then or (or (page_frame n phys) flags) 2 else or (page_frame n phys) flags)"

lemma idx_less: "idx n v < 512"
  by (simp add: idx_def)

lemma bit_BIT_MASK:
  assumes "lo \<le> hi" "hi < 64"
  shows "bit (BIT_MASK hi lo) i \<longleftrightarrow> lo \<le> i \<and> i \<le> hi"
proof -
  have ones: "(0xffffffffffffffff :: u64) = - 1" by simp
  then have "bit (BIT_MASK hi lo) i \<longleftrightarrow> lo \<le> i \<and> i < 64 \<and> i - lo < 64 - (64 - (hi + 1 - lo))"
    unfolding BIT_MASK_def ones by (auto simp add: bit_push_bit_iff bit_mask_iff)
  then show ?thesis using assms by auto
qed

lemma take_bit_64_unat: "take_bit 64 (unat (v :: u64)) = unat v"
proof -
  have "unat v < 2 ^ LENGTH(64)" by (rule unsigned_less)
  then show ?thesis by (simp add: take_bit_nat_eq_self)
qed

lemma field_idx:
  assumes "n \<le> 3"
  shows "drop_bit (pshift n) (and v (BIT_MASK (pshift n + 8) (pshift n))) = of_nat (idx n v)"
proof -
  have "drop_bit (pshift n) (and v (BIT_MASK (pshift n + 8) (pshift n))) = take_bit 9 (drop_bit (pshift n) v)"
    using assms by (intro bit_word_eqI) (auto simp: bit_simps bit_BIT_MASK)
  also have "\<dots> = of_nat (idx n v)"
  proof (rule word_unat_eq_iff [THEN iffD2])
    have "unat (take_bit 9 (drop_bit (pshift n) v)) = take_bit 9 (drop_bit (pshift n) (unat v))"
      by (simp add: unsigned_take_bit_eq unsigned_drop_bit_eq take_bit_64_unat)
    then have "unat (take_bit 9 (drop_bit (pshift n) v)) = idx n v"
      by (simp only: take_bit_eq_mod drop_bit_eq_div idx_def) simp
    moreover have "unat (of_nat (idx n v) :: u64) = idx n v"
      using idx_less [of n v] by (simp add: unat_of_nat)
    ultimately show "unat (take_bit 9 (drop_bit (pshift n) v)) = unat (of_nat (idx n v) :: u64)" by simp
  qed
  finally show ?thesis .
qed

lemma levels_simps: "levels 0 = [lvl 0]" "n < 3 \<Longrightarrow> levels (Suc n) = lvl (Suc n) # levels n" "levels 3 = arm_paging" "n \<le> 3 \<Longrightarrow> length (levels n) = Suc n"
proof -
  show "levels 0 = [lvl 0]" "levels 3 = arm_paging" by (simp_all add: levels_def lvl_def arm_paging_def)
  show "levels (Suc n) = lvl (Suc n) # levels n" if "n < 3"
  proof -
    have "3 - n = Suc (3 - Suc n)" "3 - Suc n < length arm_paging" using that by (simp_all add: arm_paging_def)
    then show ?thesis by (simp add: levels_def lvl_def Cons_nth_drop_Suc)
  qed
  show "length (levels n) = Suc n" if "n \<le> 3" using that by (simp add: levels_def arm_paging_def)
qed

lemma level_cases: "n \<le> 3 \<Longrightarrow> (n = 0 \<Longrightarrow> P) \<Longrightarrow> (n = 1 \<Longrightarrow> P) \<Longrightarrow> (n = 2 \<Longrightarrow> P) \<Longrightarrow> (n = 3 \<Longrightarrow> P) \<Longrightarrow> P" for n :: nat
  by linarith

lemma lvl_entry:
  assumes "n \<le> 3"
  shows "get_entry (lvl n) t v = ent t (idx n v)"
proof -
  have "8 * of_nat (idx n v) = (of_nat (8 * idx n v) :: u64)" by simp
  then show ?thesis using field_idx [OF assms, of v]
    by (cases rule: level_cases [OF assms])
      (simp_all add: lvl_def arm_paging_def ARM_PAGING_COMMON_def ent_def arm_get_l0_entry_def arm_get_l1_entry_def arm_get_l2_entry_def arm_get_l3_entry_def)
qed

lemma and_1_bit: "and (w :: u64) 1 \<noteq> 0 \<longleftrightarrow> bit w 0"
  by (simp add: and_one_eq odd_iff_mod_2_eq_one [symmetric] bit_0)

lemma and_2_bit: "and (w :: u64) 2 = 0 \<longleftrightarrow> \<not> bit w 1"
proof -
  have "and w 2 = (if bit w 1 then 2 else 0)" by (rule bit_word_eqI) (auto simp: bit_simps bit_2_iff)
  then show ?thesis by simp
qed

lemma and_3_bits: "and (w :: u64) 3 = 3 \<longleftrightarrow> bit w 0 \<and> bit w 1"
proof -
  have b3: "bit (3 :: u64) i \<longleftrightarrow> i = 0 \<or> i = 1" for i
  proof -
    have "(3 :: u64) = mask 2" by (simp add: mask_eq_exp_minus_1)
    then show ?thesis by (simp only: bit_mask_iff) (auto simp: less_2_cases_iff)
  qed
  show ?thesis
  proof
    assume "and w 3 = 3"
    then have "bit w i" if "bit (3 :: u64) i" for i using that by (metis bit_and_iff)
    then show "bit w 0 \<and> bit w 1" by (simp add: b3)
  next
    assume w: "bit w 0 \<and> bit w 1"
    show "and w 3 = 3"
    proof (rule bit_word_eqI)
      fix i
      show "bit (and w 3) i \<longleftrightarrow> bit (3 :: u64) i" using w b3 [of i] unfolding bit_and_iff by blast
    qed
  qed
qed

lemma and_low_mask: "n < 64 \<Longrightarrow> and v (BIT_MASK n 0) = take_bit (Suc n) v"
  by (rule bit_word_eqI) (auto simp: bit_simps bit_BIT_MASK)

lemma lvl_common:
  assumes "n \<le> 3"
  shows "entry_valid (lvl n) p f m \<longleftrightarrow> bit (m p) 0" "get_flags (lvl n) p m = and (m p) 0xfff" "clear_entry (lvl n) p m = m(p := 0)"
    "page_table_empty (lvl n) t m \<longleftrightarrow> (\<forall>i<512. \<not> bit (m (ent t i)) 0)" "page_size (lvl n) = (if n = 3 then 0 else 2 ^ pshift n)"
  using assms
  by (cases rule: level_cases [OF assms];
      simp add: lvl_def arm_paging_def ARM_PAGING_COMMON_def arm_entry_valid_def arm_get_entry_flags_def arm_clear_entry_def
        arm_page_table_empty_def PAGE_SIZE_def and_1_bit ent_def Ball_def; fail)+

lemma lvl_terminal: "n < 3 \<Longrightarrow> set_terminal (lvl n) = Some (\<lambda>p phys flags m. m(p := terminal_entry n phys flags))"
  by (cases rule: level_cases [of n])
    (auto simp: lvl_def arm_paging_def ARM_PAGING_COMMON_def terminal_entry_def page_frame_def arm_set_l1_block_def arm_set_l2_block_def
      arm_set_l3_page_def PTE_FLAG_TERMINAL_def fun_eq_iff)

lemma lvl_next:
  assumes "0 < n" "n \<le> 3"
  shows "set_next_pt (lvl n) = Some (\<lambda>p x m. m(p := or (page_frame 0 x) 3))" "get_next_pt (lvl n) = Some (\<lambda>p m. page_frame 0 (m p))"
  using assms
  by (cases rule: level_cases [OF assms(2)];
      simp add: lvl_def arm_paging_def ARM_PAGING_COMMON_def page_frame_def arm_set_l12_table_def arm_get_l12_table_def PTE_TABLE_FLAGS_def fun_eq_iff; fail)+

lemma lvl_phys:
  assumes "0 < n" "n \<le> 3"
  shows "get_phys (lvl n) p v m = (if bit (m p) 0 \<and> bit (m p) 1 then INVALID_PHYS_ADDR else or (page_frame n (m p)) (take_bit (pshift n) v))"
    "or (page_frame n (m p)) (take_bit (pshift n) v) \<noteq> INVALID_PHYS_ADDR"
    "get_phys (lvl 0) p v m = INVALID_PHYS_ADDR \<longleftrightarrow> \<not> bit (m p) 1"
proof -
  show "get_phys (lvl n) p v m = (if bit (m p) 0 \<and> bit (m p) 1 then INVALID_PHYS_ADDR else or (page_frame n (m p)) (take_bit (pshift n) v))"
    using assms(1)
    by (cases rule: level_cases [OF assms(2)])
      (simp_all add: lvl_def arm_paging_def ARM_PAGING_COMMON_def page_frame_def arm_get_l0_phys_def arm_get_l1_phys_def arm_get_l2_phys_def
        PTE_TABLE_FLAGS_def and_3_bits and_low_mask)
  have "\<not> bit (or (page_frame n (m p)) (take_bit (pshift n) v)) 63"
    using assms(2) by (simp add: page_frame_def bit_or_iff bit_and_iff bit_take_bit_iff bit_BIT_MASK)
  moreover have "bit INVALID_PHYS_ADDR 63" by (simp add: INVALID_PHYS_ADDR_def bit_not_iff)
  ultimately show "or (page_frame n (m p)) (take_bit (pshift n) v) \<noteq> INVALID_PHYS_ADDR" by metis
  have "\<not> bit (or (and (m p) (BIT_MASK 47 12)) (and v PAGE_MASK)) 0"
    by (simp add: bit_or_iff bit_and_iff bit_BIT_MASK not_PAGE_MASK [symmetric] PAGE_MASK_def PAGE_SIZE_def)
  moreover have "bit INVALID_PHYS_ADDR 0" by (simp add: INVALID_PHYS_ADDR_def bit_not_iff)
  ultimately have "or (and (m p) (BIT_MASK 47 12)) (and v PAGE_MASK) \<noteq> INVALID_PHYS_ADDR" by metis
  then show "get_phys (lvl 0) p v m = INVALID_PHYS_ADDR \<longleftrightarrow> \<not> bit (m p) 1"
    by (simp add: lvl_def arm_paging_def ARM_PAGING_COMMON_def arm_get_l3_phys_def PTE_FLAG_TERMINAL_def and_2_bit)
qed

end
