(* ===== verification/PageTree.thy ===== *)
theory PageTree
  imports PageTable
begin

text \<open>
  Trees of page tables: the translation they stand for, well-formedness, the page pool they live in, and
  the changes of one entry, on which the proofs of \<open>PageSteps\<close> to \<open>PageMap\<close> rest.
\<close>

subsection \<open>Trees of tables\<close>

text \<open>
  What the tables mean: the walk of the processor, with a function of the level and the entry it ends at,
  for the physical address and the attributes, and for the size of the page; the tables below a table;
  and that they form a tree: no table is reached twice, the last level holds pages only and the first
  one no blocks.
\<close>

definition tbl :: "u64 \<Rightarrow> bool" where
  "tbl e \<longleftrightarrow> bit e 0 \<and> bit e 1"

definition nxt :: "u64 \<Rightarrow> u64 \<Rightarrow> u64" where
  "nxt off e = page_frame 0 e + off"

definition leaf :: "nat \<Rightarrow> u64 \<Rightarrow> u64 \<Rightarrow> u64 \<times> u64" where
  "leaf n e v = (page_frame n e + take_bit (pshift n) v, and e 0xffd)"

primrec twalk :: "(nat \<Rightarrow> u64 \<Rightarrow> u64 \<Rightarrow> 'a) \<Rightarrow> u64 \<Rightarrow> ptmem \<Rightarrow> nat \<Rightarrow> u64 \<Rightarrow> u64 \<Rightarrow> 'a option" where
  "twalk L off m 0 t v = (let e = m (ent t (idx 0 v)) in if bit e 0 then Some (L 0 e v) else None)"
| "twalk L off m (Suc n) t v =
     (let e = m (ent t (idx (Suc n) v)) in
      if tbl e then twalk L off m n (nxt off e) v else if bit e 0 then Some (L (Suc n) e v) else None)"

abbreviation translate :: "u64 \<Rightarrow> ptmem \<Rightarrow> nat \<Rightarrow> u64 \<Rightarrow> u64 \<Rightarrow> (u64 \<times> u64) option" where
  "translate \<equiv> twalk leaf"

abbreviation hit :: "u64 \<Rightarrow> ptmem \<Rightarrow> nat \<Rightarrow> u64 \<Rightarrow> u64 \<Rightarrow> nat option" where
  "hit \<equiv> twalk (\<lambda>k e v. k)"

primrec tables :: "u64 \<Rightarrow> ptmem \<Rightarrow> nat \<Rightarrow> u64 \<Rightarrow> u64 set" where
  "tables off m 0 t = {t}"
| "tables off m (Suc n) t = insert t (\<Union>i\<in>{i. i < 512 \<and> tbl (m (ent t i))}. tables off m n (nxt off (m (ent t i))))"

definition siblings :: "u64 \<Rightarrow> ptmem \<Rightarrow> nat \<Rightarrow> u64 \<Rightarrow> nat \<Rightarrow> u64 set" where
  "siblings off m n t i = (\<Union>j\<in>{j. j < 512 \<and> j \<noteq> i \<and> tbl (m (ent t j))}. tables off m n (nxt off (m (ent t j))))"

primrec pt_wf :: "u64 \<Rightarrow> ptmem \<Rightarrow> nat \<Rightarrow> u64 \<Rightarrow> bool" where
  "pt_wf off m 0 t \<longleftrightarrow> (\<forall>i<512. bit (m (ent t i)) 0 \<longrightarrow> bit (m (ent t i)) 1)"
| "pt_wf off m (Suc n) t \<longleftrightarrow>
     (\<forall>i<512.
        (tbl (m (ent t i)) \<longrightarrow>
           pt_wf off m n (nxt off (m (ent t i))) \<and> tables off m n (nxt off (m (ent t i))) \<inter> insert t (siblings off m n t i) = {}) \<and>
        (2 \<le> n \<longrightarrow> bit (m (ent t i)) 0 \<longrightarrow> tbl (m (ent t i))))"

definition same_tables :: "u64 set \<Rightarrow> ptmem \<Rightarrow> ptmem \<Rightarrow> bool" where
  "same_tables A m m' \<longleftrightarrow> (\<forall>x\<in>A. \<forall>i<512. m' (ent x i) = m (ent x i))"

lemma tables_root: "t \<in> tables off m n t"
  by (cases n) simp_all

lemma tables_split: "i < 512 \<Longrightarrow>
  tables off m (Suc n) t = insert t (siblings off m n t i \<union> (if tbl (m (ent t i)) then tables off m n (nxt off (m (ent t i))) else {}))"
  by (auto simp: siblings_def)

lemma same_tables_mono: "same_tables B m m' \<Longrightarrow> A \<subseteq> B \<Longrightarrow> same_tables A m m'"
  by (auto simp: same_tables_def)

lemma tables_frame:
  assumes "same_tables (tables off m n t) m m'"
  shows "tables off m' n t = tables off m n t"
  using assms
proof (induction n arbitrary: t)
  case (Suc n)
  have e: "m' (ent t i) = m (ent t i)" if "i < 512" for i using Suc.prems that by (simp add: same_tables_def)
  have "tables off m' n (nxt off (m (ent t i))) = tables off m n (nxt off (m (ent t i)))" if "i < 512" "tbl (m (ent t i))" for i
    using Suc.prems that by (intro Suc.IH same_tables_mono [OF Suc.prems]) auto
  then show ?case using e by auto
qed simp

lemma siblings_frame:
  assumes "same_tables (insert t (siblings off m n t i)) m m'"
  shows "siblings off m' n t i = siblings off m n t i"
proof -
  have e: "m' (ent t j) = m (ent t j)" if "j < 512" for j using assms that by (simp add: same_tables_def)
  have "tables off m' n (nxt off (m (ent t j))) = tables off m n (nxt off (m (ent t j)))" if "j < 512" "j \<noteq> i" "tbl (m (ent t j))" for j
    using that by (intro tables_frame same_tables_mono [OF assms]) (auto simp: siblings_def)
  then show ?thesis using e by (auto simp: siblings_def)
qed

lemma twalk_frame:
  assumes "same_tables (tables off m n t) m m'"
  shows "twalk L off m' n t v = twalk L off m n t v"
  using assms
proof (induction n arbitrary: t)
  case 0
  then show ?case using idx_less [of 0 v] by (simp add: same_tables_def)
next
  case (Suc n)
  have e: "m' (ent t (idx (Suc n) v)) = m (ent t (idx (Suc n) v))" using Suc.prems idx_less [of "Suc n" v] by (simp add: same_tables_def)
  have "twalk L off m' n (nxt off (m (ent t (idx (Suc n) v)))) v = twalk L off m n (nxt off (m (ent t (idx (Suc n) v)))) v"
    if "tbl (m (ent t (idx (Suc n) v)))"
    using that idx_less [of "Suc n" v] by (intro Suc.IH same_tables_mono [OF Suc.prems]) auto
  then show ?case by (simp add: e Let_def)
qed

lemma pt_wf_frame:
  assumes "same_tables (tables off m n t) m m'"
  shows "pt_wf off m' n t = pt_wf off m n t"
  using assms
proof (induction n arbitrary: t)
  case 0
  then show ?case by (simp add: same_tables_def)
next
  case (Suc n)
  have e: "m' (ent t i) = m (ent t i)" if "i < 512" for i using Suc.prems that by (simp add: same_tables_def)
  have c: "tables off m' n (nxt off (m (ent t i))) = tables off m n (nxt off (m (ent t i)))"
    "pt_wf off m' n (nxt off (m (ent t i))) = pt_wf off m n (nxt off (m (ent t i)))" if "i < 512" "tbl (m (ent t i))" for i
    using that by (intro tables_frame Suc.IH same_tables_mono [OF Suc.prems]; auto)+
  have "siblings off m' n t i = siblings off m n t i" for i
    by (intro siblings_frame same_tables_mono [OF Suc.prems]) (auto simp: siblings_def)
  then show ?case by (auto simp: e c)
qed

text \<open>A change of one entry of a table and of what is below it.\<close>

lemma node_update:
  assumes wf: "pt_wf off m (Suc n) t" and i: "i < 512"
    and others: "\<And>j. j < 512 \<Longrightarrow> j \<noteq> i \<Longrightarrow> m' (ent t j) = m (ent t j)"
    and sibs: "same_tables (siblings off m n t i) m m'"
    and child: "tbl (m' (ent t i)) \<Longrightarrow>
      pt_wf off m' n (nxt off (m' (ent t i))) \<and> tables off m' n (nxt off (m' (ent t i))) \<inter> insert t (siblings off m n t i) = {}"
    and blocks: "2 \<le> n \<Longrightarrow> bit (m' (ent t i)) 0 \<Longrightarrow> tbl (m' (ent t i))"
  shows "pt_wf off m' (Suc n) t"
    "tables off m' (Suc n) t = insert t (siblings off m n t i \<union> (if tbl (m' (ent t i)) then tables off m' n (nxt off (m' (ent t i))) else {}))"
    "siblings off m' n t i = siblings off m n t i"
    "idx (Suc n) v \<noteq> i \<Longrightarrow> twalk L off m' (Suc n) t v = twalk L off m (Suc n) t v"
proof -
  let ?c = "\<lambda>j. nxt off (m (ent t j))" and ?c' = "nxt off (m' (ent t i))"
  have sub: "tables off m n (?c j) \<subseteq> siblings off m n t i" if "j < 512" "j \<noteq> i" "tbl (m (ent t j))" for j
    using that by (auto simp: siblings_def)
  have st: "same_tables (tables off m n (?c j)) m m'" if "j < 512" "j \<noteq> i" "tbl (m (ent t j))" for j
    using sibs sub [OF that] by (rule same_tables_mono)
  have tb: "tables off m' n (?c j) = tables off m n (?c j)" if "j < 512" "j \<noteq> i" "tbl (m (ent t j))" for j
    using st [OF that] by (rule tables_frame)
  show s: "siblings off m' n t i = siblings off m n t i"
    unfolding siblings_def using others tb by auto
  then show "tables off m' (Suc n) t = insert t (siblings off m n t i \<union> (if tbl (m' (ent t i)) then tables off m' n ?c' else {}))"
    using tables_split [OF i, of off m' n t] by simp
  show "twalk L off m' (Suc n) t v = twalk L off m (Suc n) t v" if "idx (Suc n) v \<noteq> i"
    using that others [OF idx_less] st [OF idx_less] twalk_frame [where L = L] by (simp add: Let_def)
  show "pt_wf off m' (Suc n) t"
  proof (unfold pt_wf.simps, intro allI impI)
    fix j :: nat assume j: "j < 512"
    show "(tbl (m' (ent t j)) \<longrightarrow>
           pt_wf off m' n (nxt off (m' (ent t j))) \<and> tables off m' n (nxt off (m' (ent t j))) \<inter> insert t (siblings off m' n t j) = {}) \<and>
        (2 \<le> n \<longrightarrow> bit (m' (ent t j)) 0 \<longrightarrow> tbl (m' (ent t j)))"
    proof (cases "j = i")
      case True
      then show ?thesis using child blocks s by simp
    next
      case False
      note e = others [OF j False]
      have w: "pt_wf off m n (?c j)" "tables off m n (?c j) \<inter> insert t (siblings off m n t j) = {}" if "tbl (m (ent t j))"
        using wf j that by simp_all
      have b: "2 \<le> n \<Longrightarrow> bit (m (ent t j)) 0 \<Longrightarrow> tbl (m (ent t j))" using wf j by simp
      have "siblings off m' n t j \<subseteq> siblings off m n t j \<union> (if tbl (m' (ent t i)) then tables off m' n ?c' else {})"
      proof
        fix x assume "x \<in> siblings off m' n t j"
        then obtain k where k: "k < 512" "k \<noteq> j" "tbl (m' (ent t k))" "x \<in> tables off m' n (nxt off (m' (ent t k)))" by (auto simp: siblings_def)
        show "x \<in> siblings off m n t j \<union> (if tbl (m' (ent t i)) then tables off m' n ?c' else {})"
          using k others tb by (cases "k = i") (auto simp: siblings_def)
      qed
      moreover have "tables off m n (?c j) \<inter> tables off m' n ?c' = {}" if "tbl (m (ent t j))" "tbl (m' (ent t i))"
        using child that sub [OF j False] by blast
      ultimately have "tables off m n (?c j) \<inter> insert t (siblings off m' n t j) = {}" if "tbl (m (ent t j))"
        using w(2) [OF that] that by (auto split: if_splits)
      then show ?thesis using w(1) b pt_wf_frame [OF st [OF j False]] tb [OF j False] by (simp add: e)
    qed
  qed
qed

subsection \<open>Tables in the page pool\<close>

definition used_page :: "pt_state \<Rightarrow> u64 \<Rightarrow> bool" where
  "used_page st x \<longleftrightarrow> (\<exists>k<pages (mem_pool st). x = page_addr (mem_pool st) k \<and> page_used (mem_pool st) k)"

definition free_page :: "pt_state \<Rightarrow> u64 \<Rightarrow> bool" where
  "free_page st x \<longleftrightarrow> (\<exists>k<pages (mem_pool st). x = page_addr (mem_pool st) k \<and> \<not> page_used (mem_pool st) k)"

text \<open>The pool scrubs on release, so its free pages are empty tables; its pages have physical addresses of 48 bits.\<close>

definition st_ok :: "u64 \<Rightarrow> pt_state \<Rightarrow> bool" where
  "st_ok off st \<longleftrightarrow> pool_ok (mem_pool st) \<and> and (pool_flags (mem_pool st)) PAGE_SCRUB_ON_FREE \<noteq> 0 \<and> take_bit 12 off = 0 \<and>
     (\<forall>k<pages (mem_pool st). unat (page_addr (mem_pool st) k - off) < 2 ^ 48) \<and>
     (\<forall>x i. free_page st x \<longrightarrow> i < 512 \<longrightarrow> pt_mem st (ent x i) = 0)"

text \<open>Nothing happens outside the tables \<open>A\<close> and the free pages.\<close>

definition evolves :: "u64 set \<Rightarrow> pt_state \<Rightarrow> pt_state \<Rightarrow> bool" where
  "evolves A st st' \<longleftrightarrow>
     base_address (mem_pool st') = base_address (mem_pool st) \<and> pages (mem_pool st') = pages (mem_pool st) \<and>
     pool_flags (mem_pool st') = pool_flags (mem_pool st) \<and>
     (\<forall>x. used_page st x \<longrightarrow> x \<notin> A \<longrightarrow> used_page st' x) \<and>
     (\<forall>x. take_bit 12 x = 0 \<longrightarrow> x \<notin> A \<longrightarrow> \<not> free_page st x \<longrightarrow> (\<forall>i<512. pt_mem st' (ent x i) = pt_mem st (ent x i)))"

lemma aligned_nat: "take_bit 12 (x :: u64) = 0 \<longleftrightarrow> unat x mod 4096 = 0"
proof -
  have "unat (take_bit 12 x) = take_bit 12 (unat x)" by (simp add: unsigned_take_bit_eq)
  then have "unat (take_bit 12 x) = unat x mod 4096" by (simp only: take_bit_eq_mod) simp
  then show ?thesis by (metis unat_eq_zero)
qed

lemma aligned_page:
  assumes "pool_ok p" "k < pages p"
  shows "take_bit 12 (page_addr p k) = 0"
  using assms page_addr_nat(1) [OF assms] by (simp add: aligned_nat pool_ok_def PAGE_SIZE_def mod_add_left_eq [symmetric])

lemma ent_nat:
  assumes "take_bit 12 t = 0" "i < 512"
  shows "unat (ent t i) = unat t + 8 * i"
proof -
  have "unat t < 2 ^ LENGTH(64)" by (rule unsigned_less)
  moreover obtain a where a: "unat t = 4096 * a" using assms(1) by (metis aligned_nat mod_0_imp_dvd dvdE)
  ultimately have "a < 4503599627370496" by simp
  then have "unat t + 8 * i < 2 ^ 64" using assms(2) by (simp add: a)
  moreover have "ent t i = of_nat (unat t + 8 * i)" by (simp add: ent_def)
  ultimately show ?thesis by (simp only: unat_of_nat) simp
qed

lemma ent_eq:
  assumes "take_bit 12 t = 0" "take_bit 12 t' = 0" "i < 512" "j < 512"
  shows "ent t i = ent t' j \<longleftrightarrow> t = t' \<and> i = j"
proof
  assume "ent t i = ent t' j"
  then have "unat t + 8 * i = unat t' + 8 * j" using ent_nat [of t i] ent_nat [of t' j] assms by simp
  moreover obtain a b where a: "unat t = 4096 * a" "unat t' = 4096 * b" using assms(1,2) by (metis aligned_nat mod_0_imp_dvd dvdE)
  ultimately have e: "4096 * a + 8 * i = 4096 * b + 8 * j" by simp
  have "a = (4096 * a + 8 * i) div 4096" "b = (4096 * b + 8 * j) div 4096" using assms(3,4) by simp_all
  then have "a = b" using e by simp
  then show "t = t' \<and> i = j" using e a word_unat_eq_iff [of t t'] by simp
qed simp

lemma page_addr_inj: "pool_ok p \<Longrightarrow> i < pages p \<Longrightarrow> j < pages p \<Longrightarrow> page_addr p i = page_addr p j \<longleftrightarrow> i = j"
  by (metis page_addr_nat(3))

lemma pages_st_ok:
  assumes "st_ok off st"
  shows "used_page st x \<Longrightarrow> take_bit 12 x = 0" "free_page st x \<Longrightarrow> take_bit 12 x = 0" "used_page st x \<Longrightarrow> \<not> free_page st x"
    "used_page st x \<Longrightarrow> x \<noteq> 0" "free_page st x \<Longrightarrow> x \<noteq> 0"
proof -
  have ok: "pool_ok (mem_pool st)" using assms by (simp add: st_ok_def)
  note [simp] = aligned_page [OF ok] page_addr_inj [OF ok] page_addr_nat(2) [OF ok]
  show "used_page st x \<Longrightarrow> take_bit 12 x = 0" "used_page st x \<Longrightarrow> x \<noteq> 0" by (auto simp: used_page_def)
  show "free_page st x \<Longrightarrow> take_bit 12 x = 0" "free_page st x \<Longrightarrow> x \<noteq> 0" by (auto simp: free_page_def)
  show "used_page st x \<Longrightarrow> \<not> free_page st x" by (auto simp: used_page_def free_page_def)
qed

lemma evolves_refl: "evolves A st st"
  by (simp add: evolves_def)

lemma evolves_mono: "evolves A st st' \<Longrightarrow> A \<subseteq> B \<Longrightarrow> evolves B st st'"
  unfolding evolves_def by blast

lemma page_stays:
  assumes "evolves A st st'" "free_page st' x" "x \<notin> A" "st_ok off st'"
  shows "free_page st x"
proof (rule ccontr)
  assume n: "\<not> free_page st x"
  obtain k where k: "k < pages (mem_pool st')" "x = page_addr (mem_pool st') k" using assms(2) by (auto simp: free_page_def)
  then have "used_page st x" using n assms(1) by (auto simp: used_page_def free_page_def evolves_def page_addr_def)
  then have "used_page st' x" using assms(1,3) by (simp add: evolves_def)
  then show False using assms(2,4) pages_st_ok(3) by blast
qed

lemma evolves_trans:
  assumes "evolves A st st'" "evolves B st' st''" "\<And>x. x \<in> B \<Longrightarrow> x \<in> A \<or> free_page st x" "st_ok off st" "st_ok off st'"
  shows "evolves A st st''"
proof -
  have "used_page st'' x" if "used_page st x" "x \<notin> A" for x
    using that assms(1,2,3) pages_st_ok(3) [OF assms(4)] unfolding evolves_def by blast
  moreover have "pt_mem st'' (ent x i) = pt_mem st (ent x i)" if "take_bit 12 x = 0" "x \<notin> A" "\<not> free_page st x" "i < 512" for x i
  proof -
    have "x \<notin> B" "\<not> free_page st' x" using that(2,3) assms(3) page_stays [OF assms(1) _ that(2) assms(5)] by blast+
    then show ?thesis using that assms(1,2) by (simp add: evolves_def)
  qed
  ultimately show ?thesis using assms(1,2) by (simp add: evolves_def)
qed

lemma evolves_same_tables:
  assumes "evolves A st st'" "st_ok off st" "\<forall>x\<in>B. used_page st x \<and> x \<notin> A"
  shows "same_tables B (pt_mem st) (pt_mem st')"
  using assms pages_st_ok(1,3) [OF assms(2)] unfolding same_tables_def evolves_def by blast

abbreviation put_entry :: "pt_state \<Rightarrow> u64 \<Rightarrow> nat \<Rightarrow> u64 \<Rightarrow> pt_state" where
  "put_entry st x i e \<equiv> st\<lparr>pt_mem := (pt_mem st)(ent x i := e)\<rparr>"

lemma page_put [simp]: "used_page (st\<lparr>pt_mem := m\<rparr>) x = used_page st x" "free_page (st\<lparr>pt_mem := m\<rparr>) x = free_page st x"
  "used_page (st\<lparr>tlb_flushes := l\<rparr>) x = used_page st x" "free_page (st\<lparr>tlb_flushes := l\<rparr>) x = free_page st x"
  by (simp_all add: used_page_def free_page_def)

lemma st_ok_tlb [simp]: "st_ok off (st\<lparr>tlb_flushes := l\<rparr>) = st_ok off st" "evolves A st0 (st\<lparr>tlb_flushes := l\<rparr>) = evolves A st0 st"
  "evolves A (st\<lparr>tlb_flushes := l\<rparr>) st1 = evolves A st st1"
  by (simp_all add: st_ok_def evolves_def)

lemma put_entry_at:
  assumes "take_bit 12 x = 0" "i < 512" "take_bit 12 y = 0" "j < 512"
  shows "pt_mem (put_entry st x i e) (ent y j) = (if y = x \<and> j = i then e else pt_mem st (ent y j))"
  using ent_eq [OF assms(3,1,4,2)] by auto

lemma put_entry_ok:
  assumes "st_ok off st" "used_page st x" "i < 512"
  shows "st_ok off (put_entry st x i e)" "evolves {x} st (put_entry st x i e)"
proof -
  note pg = pages_st_ok [OF assms(1)]
  have "ent y j \<noteq> ent x i" if "take_bit 12 y = 0" "j < 512" "y \<noteq> x" for y j
    using ent_eq [OF that(1) pg(1) [OF assms(2)] that(2) assms(3)] that(3) by simp
  then show "st_ok off (put_entry st x i e)" "evolves {x} st (put_entry st x i e)"
    using assms(1) pg(2) pg(3) [OF assms(2)] by (auto simp: st_ok_def evolves_def)
qed

lemma alloc_table_cases:
  assumes "st_ok off st"
  obtains (full) "alloc_table st = Some (st, 0)"
  | (found) st1 x where "alloc_table st = Some (st1, x)" "free_page st x" "pt_mem st1 = pt_mem st" "st_ok off st1" "evolves {} st st1"
      "\<And>y. free_page st1 y \<longleftrightarrow> free_page st y \<and> y \<noteq> x" "\<And>y. used_page st1 y \<longleftrightarrow> used_page st y \<or> y = x"
proof -
  have ok: "pool_ok (mem_pool st)" using assms by (simp add: st_ok_def)
  have one: "0 < (1 :: u32)" by simp
  show thesis using one
  proof (cases rule: page_alloc_cases [where p = "mem_pool st"])
    case full
    then show thesis using that(1) by (simp add: alloc_table_def)
  next
    case (found s)
    define p1 where "p1 = take_pages s 1 (mem_pool st)"
    have s: "s < pages (mem_pool st)" "\<not> page_used (mem_pool st) s"
      using free_run_pages [OF found(2), of s] found(2) by (simp_all add: free_run_def)
    have addr: "page_addr p1 k = page_addr (mem_pool st) k" "pages p1 = pages (mem_pool st)" "pool_flags p1 = pool_flags (mem_pool st)"
      "base_address p1 = base_address (mem_pool st)" "page_used p1 k \<longleftrightarrow> page_used (mem_pool st) k \<or> k = s" "pool_ok p1" for k
      using ok by (auto simp add: page_addr_def p1_def take_pages_def pool_ok_def page_used_def bit_set_bit_at)
    define st1 where "st1 = st\<lparr>mem_pool := p1\<rparr>"
    have f: "free_page st1 y \<longleftrightarrow> free_page st y \<and> y \<noteq> page_addr (mem_pool st) s" for y
      using s(1) page_addr_inj [OF ok _ s(1)] by (auto simp: free_page_def st1_def addr)
    have u: "used_page st1 y \<longleftrightarrow> used_page st y \<or> y = page_addr (mem_pool st) s" for y
      using s(1) by (auto simp: used_page_def st1_def addr)
    have "st_ok off st1" using assms f by (simp add: st_ok_def st1_def addr)
    moreover have "evolves {} st st1" using u by (simp add: evolves_def st1_def addr)
    moreover have "alloc_table st = Some (st1, page_addr (mem_pool st) s)" using found(1) by (simp add: alloc_table_def st1_def p1_def)
    moreover have "free_page st (page_addr (mem_pool st) s)" using s by (auto simp: free_page_def)
    ultimately show thesis using that(2) f u by (simp add: st1_def)
  qed
qed

lemma scrub_entry:
  assumes "take_bit 12 x = 0" "take_bit 12 y = 0" "j < 512"
  shows "scrub_page x m (ent y j) = (if y = x then 0 else m (ent y j))"
proof -
  define d where "d = unat (ent y j - x)"
  have x64: "unat x < 2 ^ LENGTH(64)" by (rule unsigned_less)
  obtain a b where a: "unat x = 4096 * a" "unat y = 4096 * b" using assms(1,2) by (metis aligned_nat mod_0_imp_dvd dvdE)
  have "y = x" if "d < 4096"
  proof -
    have "4096 * a + d < 2 ^ 64" using that x64 a(1) by simp
    moreover have "ent y j = of_nat (4096 * a + d)"
      unfolding d_def a(1) [symmetric] by simp
    ultimately have "unat (ent y j) = 4096 * a + d" by (simp only: unat_of_nat) simp
    then have "4096 * b + 8 * j = 4096 * a + d" using ent_nat [OF assms(2,3)] a(2) by simp
    moreover have "(4096 * b + 8 * j) div 4096 = b" "(4096 * a + d) div 4096 = a" using assms(3) that by simp_all
    ultimately have "a = b" by simp
    then show "y = x" using a word_unat_eq_iff [of y x] by simp
  qed
  moreover have "d < 4096" if "y = x"
  proof -
    have "8 * j < 2 ^ 64" using assms(3) by simp
    then have "d = 8 * j" using that unfolding d_def ent_def by (simp only: add_diff_cancel_left' unat_of_nat) simp
    then show ?thesis using assms(3) by simp
  qed
  ultimately show ?thesis by (auto simp: scrub_page_def d_def PAGE_SIZE_def)
qed

definition release_table :: "u64 \<Rightarrow> pt_state \<Rightarrow> pt_state" where
  "release_table x st = (let (pool, m) = page_free (mem_pool st) x 1 (pt_mem st) in st\<lparr>mem_pool := pool, pt_mem := m\<rparr>)"

lemma release_table:
  assumes "st_ok off st" "used_page st x"
  shows "st_ok off (release_table x st)" "evolves {x} st (release_table x st)"
    "free_page (release_table x st) y \<longleftrightarrow> free_page st y \<or> y = x" "used_page (release_table x st) y \<longleftrightarrow> used_page st y \<and> y \<noteq> x"
    "take_bit 12 y = 0 \<Longrightarrow> j < 512 \<Longrightarrow> pt_mem (release_table x st) (ent y j) = (if y = x then 0 else pt_mem st (ent y j))"
proof -
  let ?p = "mem_pool st"
  have ok: "pool_ok ?p" and fl: "and (pool_flags ?p) PAGE_SCRUB_ON_FREE \<noteq> 0" using assms(1) by (simp_all add: st_ok_def)
  obtain k where k: "k < pages ?p" "x = page_addr ?p k" "page_used ?p k" using assms(2) by (auto simp: used_page_def)
  note pg = pages_st_ok [OF assms(1)]
  define q where "q = ?p\<lparr>used_bitmap := clear_bit_at k (used_bitmap ?p), used_pages := used_pages ?p - 1\<rparr>"
  have "page_free ?p x 1 (pt_mem st) = (q, scrub_page x (pt_mem st))"
    using free_loop_spec [OF ok, of k 1 "pt_mem st"] k fl page_addr_nat(2) [OF ok k(1)] by (simp add: page_free_def q_def)
  then have r: "release_table x st = st\<lparr>mem_pool := q, pt_mem := scrub_page x (pt_mem st)\<rparr>" by (simp add: release_table_def)
  have q: "page_addr q i = page_addr ?p i" "pages q = pages ?p" "pool_flags q = pool_flags ?p" "base_address q = base_address ?p"
    "page_used q i \<longleftrightarrow> page_used ?p i \<and> i \<noteq> k" "pool_ok q" for i
    using ok by (auto simp: q_def page_addr_def page_used_def bit_clear_bit_at pool_ok_def)
  show f: "free_page (release_table x st) y \<longleftrightarrow> free_page st y \<or> y = x" for y
    unfolding free_page_def r using k(1,2) by (auto simp: q)
  show u: "used_page (release_table x st) y \<longleftrightarrow> used_page st y \<and> y \<noteq> x" for y
    unfolding used_page_def r using k(1,2) page_addr_inj [OF ok _ k(1)] by (auto simp: q)
  show m: "pt_mem (release_table x st) (ent y j) = (if y = x then 0 else pt_mem st (ent y j))" if "take_bit 12 y = 0" "j < 512" for y j
    using scrub_entry [OF pg(1) [OF assms(2)] that, of "pt_mem st"] by (simp add: r)
  show "evolves {x} st (release_table x st)" using m u by (simp add: evolves_def r q)
  have "pt_mem (release_table x st) (ent y j) = 0" if "free_page (release_table x st) y" "j < 512" for y j
    using that m [of y j] pg(1) [OF assms(2)] pg(2) [of y] assms(1) by (auto simp: f st_ok_def)
  then show "st_ok off (release_table x st)" using assms(1) by (simp add: st_ok_def r q)
qed

end
