(* ===== verification/PageSteps.thy ===== *)
theory PageSteps
  imports PageTree
begin

text \<open>
  Steps on a tree of page tables: setting an entry, linking a fresh table, releasing an empty one; and the
  walk of \<open>paging_destroy\<close> with its stack of tables as a recursion over the tree, with the proof that both
  do the same.
\<close>

subsection \<open>Steps on a tree\<close>

definition pt_ok :: "u64 \<Rightarrow> pt_state \<Rightarrow> nat \<Rightarrow> u64 \<Rightarrow> bool" where
  "pt_ok off st n t \<longleftrightarrow> pt_wf off (pt_mem st) n t \<and> (\<forall>x\<in>tables off (pt_mem st) n t. used_page st x)"

text \<open>A step on the tree below \<open>t\<close>: it touches only the tables of the tree and free pages.\<close>

definition moves :: "u64 \<Rightarrow> nat \<Rightarrow> u64 \<Rightarrow> pt_state \<Rightarrow> pt_state \<Rightarrow> bool" where
  "moves off n t st st' \<longleftrightarrow> st_ok off st' \<and> pt_ok off st' n t \<and> evolves (tables off (pt_mem st) n t) st st' \<and>
     (\<forall>x\<in>tables off (pt_mem st') n t. x \<in> tables off (pt_mem st) n t \<or> free_page st x)"

lemma moves_refl: "st_ok off st \<Longrightarrow> pt_ok off st n t \<Longrightarrow> moves off n t st st"
  by (simp add: moves_def evolves_refl)

lemma moves_trans:
  assumes "st_ok off st" "moves off n t st st1" "moves off n t st1 st2"
  shows "moves off n t st st2"
proof -
  let ?A = "\<lambda>s. tables off (pt_mem s) n t"
  have ok: "st_ok off st1" and e: "evolves (?A st) st st1" using assms(2) by (simp_all add: moves_def)
  have "x \<in> ?A st \<or> free_page st x" if "x \<in> ?A st1" for x using that assms(2) by (simp add: moves_def)
  then have "evolves (?A st) st st2" using assms(3) by (intro evolves_trans [OF e _ _ assms(1) ok]) (auto simp: moves_def)
  moreover have "x \<in> ?A st \<or> free_page st x" if "x \<in> ?A st2" for x
    using that assms(2,3) page_stays [OF e _ _ ok, of x] unfolding moves_def by blast
  ultimately show ?thesis using assms(3) by (simp add: moves_def)
qed

lemma moves_okD: "moves off n t st st' \<Longrightarrow> st_ok off st'" "moves off n t st st' \<Longrightarrow> pt_ok off st' n t"
  by (simp_all add: moves_def)

lemma pt_ok_root: "pt_ok off st n t \<Longrightarrow> used_page st t"
  using tables_root by (auto simp: pt_ok_def)

lemma pt_ok_child:
  assumes "pt_ok off st (Suc n) t" "i < 512" "tbl (pt_mem st (ent t i))"
  shows "pt_ok off st n (nxt off (pt_mem st (ent t i)))"
    "tables off (pt_mem st) n (nxt off (pt_mem st (ent t i))) \<inter> insert t (siblings off (pt_mem st) n t i) = {}"
    "tables off (pt_mem st) n (nxt off (pt_mem st (ent t i))) \<subseteq> tables off (pt_mem st) (Suc n) t"
  using assms by (auto simp: pt_ok_def)

lemma siblings_used:
  assumes "pt_ok off st (Suc n) t" "x \<in> siblings off (pt_mem st) n t i"
  shows "used_page st x" "x \<in> tables off (pt_mem st) (Suc n) t"
  using assms by (auto simp: pt_ok_def siblings_def)

text \<open>A step on a subtree is a step on the tree.\<close>

lemma moves_child:
  assumes ok: "st_ok off st" and pt: "pt_ok off st (Suc n) t" and i: "i < 512" and tb: "tbl (pt_mem st (ent t i))"
    and mv: "moves off n (nxt off (pt_mem st (ent t i))) st st'"
  shows "moves off (Suc n) t st st'" "j < 512 \<Longrightarrow> pt_mem st' (ent t j) = pt_mem st (ent t j)"
    "twalk L off (pt_mem st') (Suc n) t v =
      (if idx (Suc n) v = i then twalk L off (pt_mem st') n (nxt off (pt_mem st (ent t i))) v else twalk L off (pt_mem st) (Suc n) t v)"
    "siblings off (pt_mem st') n t i = siblings off (pt_mem st) n t i"
proof -
  let ?m = "pt_mem st" and ?m' = "pt_mem st'" and ?c = "nxt off (pt_mem st (ent t i))"
  note ch = pt_ok_child [OF pt i tb] and pg = pages_st_ok [OF ok]
  have ev: "evolves (tables off ?m n ?c) st st'" using mv by (simp add: moves_def)
  have t: "used_page st t" "t \<notin> tables off ?m n ?c" using pt_ok_root [OF pt] ch(2) by auto
  show te: "?m' (ent t j) = ?m (ent t j)" if "j < 512" for j
    using that ev t pg(1,3) by (auto simp: evolves_def)
  have sb: "used_page st x \<and> x \<notin> tables off ?m n ?c" if "x \<in> insert t (siblings off ?m n t i)" for x
    using that ch(2) siblings_used(1) [OF pt] t(1) by blast
  have same: "same_tables (siblings off ?m n t i) ?m ?m'" using sb by (intro evolves_same_tables [OF ev ok]) auto
  have tab: "x \<in> tables off ?m n ?c \<or> free_page st x" if "x \<in> tables off ?m' n ?c" for x using that mv by (simp add: moves_def)
  have new: "pt_wf off ?m' n ?c" "used_page st' x" if "x \<in> tables off ?m' n ?c" for x
    using that mv by (simp_all add: moves_def pt_ok_def)
  have dis: "tables off ?m' n ?c \<inter> insert t (siblings off ?m n t i) = {}" using tab sb pg(3) by blast
  have wf: "pt_wf off ?m (Suc n) t" using pt by (simp add: pt_ok_def)
  have wfc: "pt_wf off ?m' n ?c" using new(1) tables_root by blast
  have e: "?m' (ent t i) = ?m (ent t i)" using te i by simp
  have b: "2 \<le> n \<Longrightarrow> bit (?m' (ent t i)) 0 \<Longrightarrow> tbl (?m' (ent t i))" using tb e by simp
  have te': "?m' (ent t j) = ?m (ent t j)" if "j < 512" "j \<noteq> i" for j using te that by simp
  have cw: "pt_wf off ?m' n (nxt off (?m' (ent t i))) \<and> tables off ?m' n (nxt off (?m' (ent t i))) \<inter> insert t (siblings off ?m n t i) = {}"
    if "tbl (?m' (ent t i))" using dis wfc by (simp add: e)
  note nu = node_update [OF wf i te' same cw b]
  have nu': "pt_wf off ?m' (Suc n) t" "tables off ?m' (Suc n) t = insert t (siblings off ?m n t i \<union> tables off ?m' n ?c)"
      "siblings off ?m' n t i = siblings off ?m n t i" "idx (Suc n) v \<noteq> i \<Longrightarrow> twalk L off ?m' (Suc n) t v = twalk L off ?m (Suc n) t v"
    using nu tb e by simp_all
  show "siblings off ?m' n t i = siblings off ?m n t i" by (rule nu'(3))
  show "twalk L off ?m' (Suc n) t v = (if idx (Suc n) v = i then twalk L off ?m' n ?c v else twalk L off ?m (Suc n) t v)"
    using nu'(4) e tb by (auto simp: Let_def)
  have "used_page st' x" if "x \<in> insert t (siblings off ?m n t i)" for x using sb [OF that] ev by (simp add: evolves_def)
  then have "pt_ok off st' (Suc n) t" using nu'(1,2) new(2) by (auto simp: pt_ok_def)
  moreover have "\<forall>x\<in>tables off ?m' (Suc n) t. x \<in> tables off ?m (Suc n) t \<or> free_page st x"
    unfolding nu'(2) using tab ch(3) siblings_used(2) [OF pt] tables_root [of t off ?m "Suc n"] by blast
  ultimately show "moves off (Suc n) t st st'" using mv evolves_mono [OF ev ch(3)] by (simp add: moves_def)
qed

text \<open>Setting an entry to a page, a block or nothing.\<close>

definition entry_fits :: "nat \<Rightarrow> u64 \<Rightarrow> bool" where
  "entry_fits n e \<longleftrightarrow> (if n = 0 then bit e 0 \<longrightarrow> bit e 1 else \<not> tbl e \<and> (3 \<le> n \<longrightarrow> \<not> bit e 0))"

lemma entry_fits_0 [simp]: "entry_fits n 0"
  by (simp add: entry_fits_def tbl_def)

lemma moves_put:
  assumes ok: "st_ok off st" and pt: "pt_ok off st n t" and i: "i < 512" and e: "entry_fits n e"
  shows "moves off n t st (put_entry st t i e)"
    "twalk L off (pt_mem (put_entry st t i e)) n t v =
      (if idx n v = i then if bit e 0 then Some (L n e v) else None else twalk L off (pt_mem st) n t v)"
    "tables off (pt_mem (put_entry st t i e)) n t = (case n of 0 \<Rightarrow> {t} | Suc k \<Rightarrow> insert t (siblings off (pt_mem st) k t i))"
proof -
  let ?st = "put_entry st t i e"
  have u: "used_page st t" by (rule pt_ok_root [OF pt])
  note t = pages_st_ok(1) [OF ok u] and w = put_entry_ok [OF ok u i, of e]
  have at: "pt_mem ?st (ent y j) = (if y = t \<and> j = i then e else pt_mem st (ent y j))" if "take_bit 12 y = 0" "j < 512" for y j
    using put_entry_at [OF t i that] .
  have "moves off n t st ?st \<and> twalk L off (pt_mem ?st) n t v =
      (if idx n v = i then if bit e 0 then Some (L n e v) else None else twalk L off (pt_mem st) n t v) \<and>
      tables off (pt_mem ?st) n t = (case n of 0 \<Rightarrow> {t} | Suc k \<Rightarrow> insert t (siblings off (pt_mem st) k t i))"
  proof (cases n)
    case 0
    have "pt_ok off ?st 0 t" using pt e u at [OF t] unfolding 0 by (auto simp: pt_ok_def entry_fits_def simp del: fun_upd_apply)
    then show ?thesis using w at [OF t idx_less] unfolding 0 by (auto simp: moves_def Let_def simp del: fun_upd_apply)
  next
    case (Suc k)
    have wf: "pt_wf off (pt_mem st) (Suc k) t" using pt by (simp add: pt_ok_def Suc)
    have o: "pt_mem ?st (ent t j) = pt_mem st (ent t j)" if "j < 512" "j \<noteq> i" for j using at [OF t that(1)] that(2) by simp
    have d: "t \<notin> siblings off (pt_mem st) k t i" using wf i by (auto simp: siblings_def)
    have sibs: "same_tables (siblings off (pt_mem st) k t i) (pt_mem st) (pt_mem ?st)"
      using siblings_used(1) [OF pt [unfolded Suc], of _ i] d by (intro evolves_same_tables [OF w(2) ok]) auto
    have ei: "pt_mem ?st (ent t i) = e" by simp
    have nt: "\<not> tbl e" "2 \<le> k \<Longrightarrow> \<not> bit e 0" using e by (simp_all add: entry_fits_def Suc)
    have c: "pt_wf off (pt_mem ?st) k (nxt off (pt_mem ?st (ent t i))) \<and>
        tables off (pt_mem ?st) k (nxt off (pt_mem ?st (ent t i))) \<inter> insert t (siblings off (pt_mem st) k t i) = {}"
      if "tbl (pt_mem ?st (ent t i))" using that nt(1) unfolding ei by simp
    have b: "2 \<le> k \<Longrightarrow> bit (pt_mem ?st (ent t i)) 0 \<Longrightarrow> tbl (pt_mem ?st (ent t i))" using nt(2) unfolding ei by blast
    have nu1: "pt_wf off (pt_mem ?st) (Suc k) t" by (rule node_update(1) [OF wf i o sibs c b])
    have nu2: "tables off (pt_mem ?st) (Suc k) t = insert t (siblings off (pt_mem st) k t i \<union>
        (if tbl (pt_mem ?st (ent t i)) then tables off (pt_mem ?st) k (nxt off (pt_mem ?st (ent t i))) else {}))"
      by (rule node_update(2) [OF wf i o sibs c b])
    have nu4: "twalk L off (pt_mem ?st) (Suc k) t v = twalk L off (pt_mem st) (Suc k) t v" if "idx (Suc k) v \<noteq> i"
      by (rule node_update(4) [OF wf i o sibs c b that])
    have tab: "tables off (pt_mem ?st) (Suc k) t = insert t (siblings off (pt_mem st) k t i)"
      using nu2 nt(1) unfolding ei by (simp only: if_False Un_empty_right)
    then have "pt_ok off ?st (Suc k) t" using nu1 siblings_used(1) [OF pt [unfolded Suc]] u by (auto simp: pt_ok_def)
    moreover have "evolves (tables off (pt_mem st) (Suc k) t) st ?st" using w(2) by (rule evolves_mono) simp
    moreover have "\<forall>x\<in>tables off (pt_mem ?st) (Suc k) t. x \<in> tables off (pt_mem st) (Suc k) t \<or> free_page st x"
      unfolding tab using siblings_used(2) [OF pt [unfolded Suc]] tables_root [of t off "pt_mem st" "Suc k"] by blast
    moreover have "twalk L off (pt_mem ?st) (Suc k) t v = (if bit e 0 then Some (L (Suc k) e v) else None)" if "idx (Suc k) v = i"
      using nt(1) ei by (simp only: twalk.simps that Let_def if_False)
    ultimately show ?thesis unfolding Suc using w(1) nu4 tab by (auto simp: moves_def simp del: twalk.simps tables.simps pt_wf.simps fun_upd_apply)
  qed
  then show "moves off n t st ?st" "twalk L off (pt_mem ?st) n t v =
      (if idx n v = i then if bit e 0 then Some (L n e v) else None else twalk L off (pt_mem st) n t v)"
      "tables off (pt_mem ?st) n t = (case n of 0 \<Rightarrow> {t} | Suc k \<Rightarrow> insert t (siblings off (pt_mem st) k t i))" by simp_all
qed

text \<open>Linking a fresh table.\<close>

lemma aligned_diff:
  assumes "take_bit 12 (x :: u64) = 0" "take_bit 12 y = 0"
  shows "take_bit 12 (x - y) = 0"
proof -
  have "w = push_bit 12 (drop_bit 12 w)" if "take_bit 12 w = 0" for w :: u64 using bits_ident [of 12 w] that by simp
  then have "x - y = push_bit 12 (drop_bit 12 x) - push_bit 12 (drop_bit 12 y)" using assms by metis
  also have "\<dots> = push_bit 12 (drop_bit 12 x - drop_bit 12 y)" by (simp only: push_bit_eq_mult left_diff_distrib)
  finally have "x - y = push_bit 12 (drop_bit 12 x - drop_bit 12 y)" .
  then show ?thesis by (simp only: take_bit_push_bit) simp
qed

lemma take_bit_self:
  assumes "unat (p :: u64) < 2 ^ k"
  shows "take_bit k p = p"
proof (rule word_unat_eq_iff [THEN iffD2])
  have "unat (take_bit k p) = take_bit k (unat p)" by (simp add: unsigned_take_bit_eq)
  also have "\<dots> = unat p" using assms by (simp add: take_bit_nat_eq_self)
  finally show "unat (take_bit k p) = unat p" .
qed

lemma frame_aligned:
  assumes "take_bit (pshift n) p = 0" "unat p < 2 ^ 48" "n \<le> 3"
  shows "page_frame n p = p"
proof -
  have hi: "\<not> bit p i" if "48 \<le> i" for i using that take_bit_self [OF assms(2)] by (metis bit_take_bit_iff not_less)
  have lo: "\<not> bit p i" if "i < pshift n" for i using assms(1) that by (metis bit_0_eq bit_take_bit_iff bot_apply bot_bool_def)
  show ?thesis
  proof (rule bit_word_eqI)
    fix i
    show "bit (page_frame n p) i \<longleftrightarrow> bit p i"
      using hi [of i] lo [of i] assms(3) by (cases "48 \<le> i"; cases "i < pshift n") (simp_all add: page_frame_def bit_and_iff bit_BIT_MASK)
  qed
qed

lemma frame_or_low:
  assumes "take_bit (pshift n) f = f" "n \<le> 3"
  shows "page_frame n (or p f) = page_frame n p"
proof (rule bit_word_eqI)
  fix i
  have "\<not> bit f i" if "pshift n \<le> i" using that assms(1) by (metis bit_take_bit_iff not_less)
  then show "bit (page_frame n (or p f)) i \<longleftrightarrow> bit (page_frame n p) i"
    using assms(2) by (auto simp: page_frame_def bit_and_iff bit_or_iff bit_BIT_MASK)
qed

lemma frame_frame: "page_frame n (page_frame n e) = page_frame n e"
  by (simp add: page_frame_def and.assoc)

definition table_entry :: "u64 \<Rightarrow> u64 \<Rightarrow> u64" where
  "table_entry off x = or (page_frame 0 (paging_hvirt2phys off x)) 3"

lemma table_entry:
  assumes "st_ok off st" "free_page st x"
  shows "tbl (table_entry off x)" "nxt off (table_entry off x) = x"
proof -
  have b: "bit (3 :: u64) 0" "bit (3 :: u64) 1" using and_3_bits [of 3] by simp_all
  then show "tbl (table_entry off x)" by (simp add: tbl_def table_entry_def bit_or_iff)
  have a: "take_bit 12 (x - off) = 0" using aligned_diff pages_st_ok(2) [OF assms] assms(1) by (simp add: st_ok_def)
  have "unat (x - off) < 2 ^ 48" using assms by (auto simp: st_ok_def free_page_def)
  then have "page_frame 0 (x - off) = x - off" using a by (intro frame_aligned) simp_all
  moreover have "page_frame 0 (or p 3) = page_frame 0 p" for p by (rule frame_or_low) (rule take_bit_self, simp_all)
  ultimately show "nxt off (table_entry off x) = x" by (simp add: nxt_def table_entry_def paging_hvirt2phys_def)
qed

lemma empty_table:
  assumes "\<And>i. i < 512 \<Longrightarrow> \<not> bit (m (ent x i)) 0"
  shows "tables off m n x = {x}" "pt_wf off m n x" "twalk L off m n x v = None"
proof -
  show "tables off m n x = {x}" using assms by (cases n) (auto simp: tbl_def)
  show "pt_wf off m n x" using assms by (cases n) (auto simp: tbl_def)
  show "twalk L off m n x v = None" using assms [OF idx_less] by (cases n) (auto simp: tbl_def Let_def)
qed

lemma moves_link:
  assumes ok: "st_ok off st" and pt: "pt_ok off st (Suc n) t" and i: "i < 512"
    and al: "free_page st x" "pt_mem st1 = pt_mem st" "st_ok off st1" "evolves {} st st1"
      "\<And>y. free_page st1 y \<longleftrightarrow> free_page st y \<and> y \<noteq> x" "\<And>y. used_page st1 y \<longleftrightarrow> used_page st y \<or> y = x"
  defines "st2 \<equiv> put_entry st1 t i (table_entry off x)"
  shows "moves off (Suc n) t st st2" "pt_mem st2 (ent t i) = table_entry off x" "pt_ok off st2 n x"
    "twalk L off (pt_mem st2) (Suc n) t v = (if idx (Suc n) v = i then None else twalk L off (pt_mem st) (Suc n) t v)"
    "j < 512 \<Longrightarrow> pt_mem st2 (ent x j) = 0" "tables off (pt_mem st2) n x = {x}"
proof -
  let ?m = "pt_mem st" and ?m2 = "pt_mem st2"
  note te = table_entry [OF ok al(1)]
  have ut: "used_page st t" "used_page st1 t" using pt_ok_root [OF pt] al(6) by simp_all
  note pg = pages_st_ok [OF ok] and w = put_entry_ok [OF al(3) ut(2) i, of "table_entry off x", folded st2_def]
  have tx: "t \<noteq> x" using pg(3) ut(1) al(1) by blast
  have at: "?m2 (ent y j) = (if y = t \<and> j = i then table_entry off x else ?m (ent y j))" if "take_bit 12 y = 0" "j < 512" for y j
    using put_entry_at [OF pg(1) [OF ut(1)] i that, of st1] by (simp add: st2_def al(2))
  show z: "?m2 (ent x j) = 0" if "j < 512" for j
    using at [OF pg(2) [OF al(1)] that] tx ok al(1) that by (auto simp: st_ok_def)
  show ei: "?m2 (ent t i) = table_entry off x" using at [OF pg(1) [OF ut(1)] i] by simp
  have emp: "tables off ?m2 n x = {x}" "pt_wf off ?m2 n x" "twalk L off ?m2 n x v = None" for v
    by (rule empty_table; simp add: z)+
  show "tables off ?m2 n x = {x}" by (rule emp(1))
  have u2: "used_page st2 y \<longleftrightarrow> used_page st y \<or> y = x" for y by (simp add: st2_def al(6))
  show "pt_ok off st2 n x" using emp by (simp add: pt_ok_def u2)
  have sb: "used_page st y" if "y \<in> siblings off ?m n t i" for y using siblings_used(1) [OF pt that] .
  have ts: "t \<notin> siblings off ?m n t i" using pt i by (auto simp: pt_ok_def siblings_def)
  have wf: "pt_wf off ?m (Suc n) t" using pt by (simp add: pt_ok_def)
  have o: "?m2 (ent t j) = ?m (ent t j)" if "j < 512" "j \<noteq> i" for j using at [OF pg(1) [OF ut(1)] that(1)] that(2) by simp
  have sibs: "same_tables (siblings off ?m n t i) ?m ?m2"
    using at pg(1) [OF sb] ts unfolding same_tables_def by (metis (no_types, lifting))
  have nx: "nxt off (?m2 (ent t i)) = x" "tbl (?m2 (ent t i))" using te by (simp_all add: ei)
  have c: "pt_wf off ?m2 n (nxt off (?m2 (ent t i))) \<and> tables off ?m2 n (nxt off (?m2 (ent t i))) \<inter> insert t (siblings off ?m n t i) = {}"
    if "tbl (?m2 (ent t i))" unfolding nx(1) emp(1) using emp(2) tx sb pg(3) al(1) by blast
  have b: "2 \<le> n \<Longrightarrow> bit (?m2 (ent t i)) 0 \<Longrightarrow> tbl (?m2 (ent t i))" using nx(2) by blast
  have nu1: "pt_wf off ?m2 (Suc n) t" by (rule node_update(1) [OF wf i o sibs c b])
  have nu2: "tables off ?m2 (Suc n) t = insert t (siblings off ?m n t i \<union>
      (if tbl (?m2 (ent t i)) then tables off ?m2 n (nxt off (?m2 (ent t i))) else {}))"
    by (rule node_update(2) [OF wf i o sibs c b])
  have tab: "tables off ?m2 (Suc n) t = insert t (insert x (siblings off ?m n t i))" using nu2 unfolding nx(1) emp(1) using nx(2) by simp
  show "twalk L off ?m2 (Suc n) t v = (if idx (Suc n) v = i then None else twalk L off ?m (Suc n) t v)"
  proof (cases "idx (Suc n) v = i")
    case True
    then show ?thesis using nx emp(3) by (simp add: Let_def)
  next
    case False
    then show ?thesis using node_update(4) [OF wf i o sibs c b False] by simp
  qed
  have "pt_ok off st2 (Suc n) t" using nu1 sb ut(1) unfolding pt_ok_def tab u2 by blast
  moreover have "evolves (tables off ?m (Suc n) t) st st2"
  proof (rule evolves_trans [OF evolves_mono [OF al(4)] w(2) _ ok al(3)])
    show "y \<in> tables off ?m (Suc n) t \<or> free_page st y" if "y \<in> {t}" for y using that tables_root [of t off ?m "Suc n"] by blast
  qed simp
  moreover have "\<forall>y\<in>tables off ?m2 (Suc n) t. y \<in> tables off ?m (Suc n) t \<or> free_page st y"
    unfolding tab using siblings_used(2) [OF pt] tables_root [of t off ?m "Suc n"] al(1) by blast
  ultimately show "moves off (Suc n) t st st2" using w(1) by (simp add: moves_def)
qed

text \<open>Releasing an empty table and clearing its entry.\<close>

lemma moves_release:
  assumes ok: "st_ok off st" and pt: "pt_ok off st n t" and c: "used_page st c" "c \<notin> tables off (pt_mem st) n t"
  shows "st_ok off (release_table c st)" "pt_ok off (release_table c st) n t" "evolves {c} st (release_table c st)"
    "tables off (pt_mem (release_table c st)) n t = tables off (pt_mem st) n t"
    "twalk L off (pt_mem (release_table c st)) n t v = twalk L off (pt_mem st) n t v"
proof -
  note r = release_table [OF ok c(1)]
  show "st_ok off (release_table c st)" and e: "evolves {c} st (release_table c st)" by (rule r)+
  have same: "same_tables (tables off (pt_mem st) n t) (pt_mem st) (pt_mem (release_table c st))"
    using pt c(2) by (intro evolves_same_tables [OF e ok]) (auto simp: pt_ok_def)
  show t: "tables off (pt_mem (release_table c st)) n t = tables off (pt_mem st) n t" by (rule tables_frame [OF same])
  show "twalk L off (pt_mem (release_table c st)) n t v = twalk L off (pt_mem st) n t v" by (rule twalk_frame [OF same])
  show "pt_ok off (release_table c st) n t"
    using pt c(2) pt_wf_frame [OF same] by (auto simp: pt_ok_def t r(4))
qed

lemma release_put: "put_entry (release_table c st) t i 0 = release_table c (put_entry st t i 0)"
proof -
  have "(scrub_page c m)(a := 0) = scrub_page c (m(a := 0))" for m :: ptmem and a by (auto simp: scrub_page_def fun_eq_iff)
  then show ?thesis by (simp add: release_table_def page_free_def Let_def split: prod.split)
qed

lemma moves_drop:
  assumes ok: "st_ok off st" and pt: "pt_ok off st (Suc n) t" and i: "i < 512" and tb: "tbl (pt_mem st (ent t i))"
  defines "c \<equiv> nxt off (pt_mem st (ent t i))"
  shows "moves off (Suc n) t st (put_entry (release_table c st) t i 0)"
    "twalk L off (pt_mem (put_entry (release_table c st) t i 0)) (Suc n) t v =
      (if idx (Suc n) v = i then None else twalk L off (pt_mem st) (Suc n) t v)"
proof -
  let ?s = "put_entry st t i 0"
  note mp = moves_put [OF ok pt i entry_fits_0] and ch = pt_ok_child [OF pt i tb, folded c_def]
  have cu: "used_page ?s c" using pt_ok_root [OF ch(1)] by simp
  have "c \<in> tables off (pt_mem st) n c" by (rule tables_root)
  then have cn: "c \<notin> tables off (pt_mem ?s) (Suc n) t" and ct: "c \<in> tables off (pt_mem st) (Suc n) t"
    using ch(2,3) unfolding mp(3) nat.case by blast+
  note rl = moves_release [OF moves_okD [OF mp(1)] cu cn]
  have "evolves (tables off (pt_mem st) (Suc n) t) st (release_table c ?s)"
    using mp(1) ct by (intro evolves_trans [OF _ rl(3) _ ok moves_okD(1) [OF mp(1)]]) (auto simp: moves_def)
  then show "moves off (Suc n) t st (put_entry (release_table c st) t i 0)"
    using rl(1,2,4) mp(1) unfolding release_put moves_def by (simp del: tables.simps pt_wf.simps fun_upd_apply)
  show "twalk L off (pt_mem (put_entry (release_table c st) t i 0)) (Suc n) t v =
      (if idx (Suc n) v = i then None else twalk L off (pt_mem st) (Suc n) t v)"
    unfolding release_put rl(5) mp(2) by simp
qed

subsection \<open>Removal by recursion over the tree\<close>

definition page_empty :: "pt_state \<Rightarrow> u64 \<Rightarrow> bool" where
  "page_empty st t \<longleftrightarrow> (\<forall>i<512. \<not> bit (pt_mem st (ent t i)) 0)"

definition lvl_size :: "nat \<Rightarrow> u64" where
  "lvl_size n = (if n = 3 then 0 else 2 ^ pshift n)"

definition lvl_step :: "nat \<Rightarrow> u64" where
  "lvl_step n = (if n = 3 then 4096 else 2 ^ pshift n)"

definition climb :: "u64 \<Rightarrow> nat \<Rightarrow> u64 \<Rightarrow> pt_state \<times> (int + nat \<times> bool) \<Rightarrow> pt_state \<times> (int + nat \<times> bool)" where
  "climb t i c res = (case res of (st, Inl err) \<Rightarrow> (st, Inl err)
     | (st, Inr (k, b)) \<Rightarrow> if b \<and> page_empty st c then (put_entry (release_table c st) t i 0, Inr (k, True)) else (st, Inr (k, False)))"

text \<open>
  The way down and the way up of \<open>paging_destroy\<close> in one recursion; the result is the level of the
  entry that was cleared and whether the entry of this table was cleared.
\<close>

primrec tree_destroy :: "creator \<Rightarrow> u64 \<Rightarrow> u64 \<Rightarrow> u64 \<Rightarrow> nat \<Rightarrow> u64 \<Rightarrow> pt_state \<Rightarrow> (pt_state \<times> (int + nat \<times> bool)) option" where
  "tree_destroy create off virt sz 0 t st =
     (let e = pt_mem st (ent t (idx 0 virt)) in
      if bit e 0 \<and> \<not> bit e 1 then None else Some (put_entry st t (idx 0 virt) 0, Inr (0, True)))"
| "tree_destroy create off virt sz (Suc n) t st =
     (let i = idx (Suc n) virt; e = pt_mem st (ent t i) in
      if \<not> bit e 0 \<or> \<not> tbl e \<and> lvl_size (Suc n) \<le> sz then Some (put_entry st t i 0, Inr (Suc n, True))
      else
        (if tbl e then Some (st, 0) else split_hugepage create off (lvl (Suc n)) (levels n) (ent t i) virt st) \<bind> (\<lambda>(st1, err).
        if err \<noteq> 0 then Some (st1, Inl err)
        else
          let c = nxt off (pt_mem st1 (ent t i)) in
          tree_destroy create off virt sz n c st1 \<bind> (\<lambda>res. Some (climb t i c res))))"

lemma ucast_lvl_size: "n \<le> 3 \<Longrightarrow> ucast (page_size (lvl n)) = lvl_size n"
  by (cases rule: level_cases [of n]) (auto simp: lvl_common lvl_size_def)

lemma step_size_lvl: "n \<le> 3 \<Longrightarrow> step_size ((lvl n, t) # path) = lvl_step n"
  by (cases rule: level_cases [of n]) (auto simp: lvl_common lvl_step_def step_size_def PAGE_SIZE_def)

lemma destroy_up_lvl:
  assumes "n \<le> 3"
  shows "destroy_up virt ((lvl n, t) # path) st =
    (if path \<noteq> [] \<and> page_empty (put_entry st t (idx n virt) 0) t
     then destroy_up virt path (release_table t (put_entry st t (idx n virt) 0)) else put_entry st t (idx n virt) 0)"
  by (auto simp: Let_def lvl_common [OF assms] lvl_entry [OF assms] page_empty_def release_table_def split: prod.split simp del: fun_upd_apply)

lemma phys_invalid:
  assumes "n < 3"
  shows "get_phys (lvl (Suc n)) p v m = INVALID_PHYS_ADDR \<longleftrightarrow> tbl (m p)"
  using lvl_phys(1) [of "Suc n" p v m] lvl_phys(2) [of "Suc n" m p v] assms by (simp add: tbl_def)

lemma destroy_down_up:
  assumes "n \<le> 3" "4096 \<le> sz"
  shows "(destroy_down create off virt sz (levels n) t path st \<bind> (\<lambda>(st1, r). Some (case r of Inl err \<Rightarrow> (st1, Inl err)
      | Inr p \<Rightarrow> (destroy_up virt p st1, Inr (step_size p))))) =
    (tree_destroy create off virt sz n t st \<bind> (\<lambda>(st2, r). Some (case r of Inl err \<Rightarrow> (st2, Inl err)
      | Inr (k, b) \<Rightarrow> (if b \<and> path \<noteq> [] \<and> page_empty st2 t then destroy_up virt path (release_table t st2) else st2, Inr (lvl_step k)))))"
  using assms(1)
proof (induction n arbitrary: t path st)
  case 0
  have z: "lvl_size 0 = 4096" by (simp add: lvl_size_def)
  note l = lvl_entry [of 0] lvl_common [of 0] lvl_phys(3) [of 1] ucast_lvl_size [of 0]
  have g: "get_next_pt (lvl 0) = None" by (simp add: lvl_def arm_paging_def ARM_PAGING_COMMON_def)
  show ?case using assms(2)
    by (auto simp: levels_simps Let_def l z g not_less destroy_up_lvl step_size_lvl simp del: destroy_up.simps)
next
  case (Suc n)
  then have n: "n \<le> 3" "Suc n \<le> 3" "n < 3" by simp_all
  let ?i = "idx (Suc n) virt"
  let ?e = "pt_mem st (ent t ?i)"
  note l = lvl_entry [OF n(2)] lvl_common(1) [OF n(2)] ucast_lvl_size [OF n(2)] phys_invalid [OF n(3)] lvl_next(2) [OF _ n(2)]
  have nx: "paging_phys2hvirt off (page_frame 0 e) = nxt off e" for e by (simp add: paging_phys2hvirt_def nxt_def)
  let ?D = "\<lambda>st1. destroy_down create off virt sz (levels n) (nxt off (pt_mem st1 (ent t ?i))) ((lvl (Suc n), t) # path) st1"
  have down: "destroy_down create off virt sz (levels (Suc n)) t path st =
    (if \<not> bit ?e 0 \<or> \<not> tbl ?e \<and> lvl_size (Suc n) \<le> sz then Some (st, Inr ((lvl (Suc n), t) # path))
     else (if tbl ?e then Some (st, 0) else split_hugepage create off (lvl (Suc n)) (levels n) (ent t ?i) virt st) \<bind>
       (\<lambda>(st1, err). if err \<noteq> 0 then Some (st1, Inl err) else ?D st1))"
    by (auto simp: levels_simps(2) [OF n(3)] Let_def l nx not_less tbl_def [of "pt_mem st (ent t (idx (Suc n) virt))"])
  show ?case
  proof (cases "\<not> bit ?e 0 \<or> \<not> tbl ?e \<and> lvl_size (Suc n) \<le> sz")
    case True
    then show ?thesis unfolding down by (simp add: Let_def step_size_lvl [OF n(2)] destroy_up_lvl [OF n(2)] del: destroy_up.simps fun_upd_apply)
  next
    case False
    have ih: "(?D st1 \<bind> (\<lambda>(st1, r). Some (case r of Inl err \<Rightarrow> (st1, Inl err)
      | Inr p \<Rightarrow> (destroy_up virt p st1, Inr (step_size p))))) =
      (tree_destroy create off virt sz n (nxt off (pt_mem st1 (ent t ?i))) st1 \<bind> (\<lambda>(st2, r). Some (case r of Inl err \<Rightarrow> (st2, Inl err)
      | Inr (k, b) \<Rightarrow> (if b \<and> page_empty st2 (nxt off (pt_mem st1 (ent t ?i)))
          then destroy_up virt ((lvl (Suc n), t) # path) (release_table (nxt off (pt_mem st1 (ent t ?i))) st2) else st2, Inr (lvl_step k)))))" for st1
      using Suc.IH [OF n(1), of "nxt off (pt_mem st1 (ent t ?i))" "(lvl (Suc n), t) # path" st1] by (simp only: list.simps(3) simp_thms)
    have d: "(?D st1 \<bind> (\<lambda>(st1, r). Some (case r of Inl err \<Rightarrow> (st1, Inl err) | Inr p \<Rightarrow> (destroy_up virt p st1, Inr (step_size p))))) =
      ((let c = nxt off (pt_mem st1 (ent t ?i)) in
          tree_destroy create off virt sz n c st1 \<bind> (\<lambda>res. Some (climb t ?i c res))) \<bind> (\<lambda>(st2, r). Some (case r of Inl err \<Rightarrow> (st2, Inl err)
      | Inr (k, b) \<Rightarrow> (if b \<and> path \<noteq> [] \<and> page_empty st2 t then destroy_up virt path (release_table t st2) else st2, Inr (lvl_step k)))))" for st1
      unfolding ih Let_def
      by (cases "tree_destroy create off virt sz n (nxt off (pt_mem st1 (ent t ?i))) st1")
        (auto simp: destroy_up_lvl [OF n(2)] climb_def simp del: destroy_up.simps fun_upd_apply split: sum.splits prod.splits)
    show ?thesis unfolding down tree_destroy.simps Let_def using False d [unfolded Let_def]
      by (cases "tbl ?e"; cases "split_hugepage create off (lvl (Suc n)) (levels n) (ent t ?i) virt st")
        (auto simp del: destroy_up.simps fun_upd_apply tree_destroy.simps)
  qed
qed

end
