(* ===== verification/PageRemoval.thy ===== *)
theory PageRemoval
  imports PageSteps
begin

text \<open>
  What one round of \<open>paging_destroy\<close> does to the translations, with the splits of huge pages as a
  specification that \<open>PageCreation\<close> proves.
\<close>

subsection \<open>Effect of a removal\<close>

definition same_blk :: "nat \<Rightarrow> nat \<Rightarrow> u64 \<Rightarrow> u64 \<Rightarrow> bool" where
  "same_blk k n a b \<longleftrightarrow> (\<forall>j. k \<le> j \<longrightarrow> j \<le> n \<longrightarrow> idx j a = idx j b)"

lemma same_blk_Suc: "k \<le> n \<Longrightarrow> same_blk k (Suc n) a b \<longleftrightarrow> idx (Suc n) a = idx (Suc n) b \<and> same_blk k n a b"
  unfolding same_blk_def by (metis le_Suc_eq order_refl)

lemma same_blk_top: "same_blk n n a b \<longleftrightarrow> idx n a = idx n b"
  by (auto simp: same_blk_def)

text \<open>A split keeps 32 bits of the physical address.\<close>

definition tr32 :: "u64 \<times> u64 \<Rightarrow> u64 \<times> u64" where
  "tr32 = (\<lambda>(pa, fl). (take_bit 32 pa, fl))"

lemma tr32_tr32: "map_option tr32 (map_option tr32 x) = map_option tr32 x"
  by (cases x) (auto simp: tr32_def)

text \<open>Pages only get smaller.\<close>

lemma hit_level: "hit off m n t v = Some b \<Longrightarrow> b \<le> n"
  by (induction n arbitrary: t) (auto simp: Let_def le_SucI split: if_splits)

lemma twalk_None: "twalk L off m n t v = None \<longleftrightarrow> hit off m n t v = None"
  by (induction n arbitrary: t) (simp_all add: Let_def)

definition hit_le :: "nat option \<Rightarrow> nat option \<Rightarrow> bool" where
  "hit_le x y \<longleftrightarrow> (\<forall>c. x = Some c \<longrightarrow> (\<exists>b. y = Some b \<and> c \<le> b))"

lemma hit_le_refl [simp]: "hit_le x x" "hit_le None x"
  by (simp_all add: hit_le_def)

lemma hit_le_trans: "hit_le x y \<Longrightarrow> hit_le y z \<Longrightarrow> hit_le x z"
  unfolding hit_le_def by (metis order_trans)

text \<open>The addresses \<open>a\<close> and \<open>v\<close> are in the same block of more than a page; and whether a removal at \<open>virt\<close> needs no split.\<close>

primrec in_block :: "u64 \<Rightarrow> ptmem \<Rightarrow> nat \<Rightarrow> u64 \<Rightarrow> u64 \<Rightarrow> u64 \<Rightarrow> bool" where
  "in_block off m 0 t a v \<longleftrightarrow> False"
| "in_block off m (Suc n) t a v \<longleftrightarrow> idx (Suc n) a = idx (Suc n) v \<and>
     (let e = m (ent t (idx (Suc n) a)) in if tbl e then in_block off m n (nxt off e) a v else bit e 0)"

primrec whole :: "u64 \<Rightarrow> ptmem \<Rightarrow> nat \<Rightarrow> u64 \<Rightarrow> u64 \<Rightarrow> u64 \<Rightarrow> bool" where
  "whole off m 0 t virt sz \<longleftrightarrow> True"
| "whole off m (Suc n) t virt sz \<longleftrightarrow>
     (let e = m (ent t (idx (Suc n) virt)) in if tbl e then whole off m n (nxt off e) virt sz else bit e 0 \<longrightarrow> lvl_size (Suc n) \<le> sz)"

definition split_spec :: "creator \<Rightarrow> u64 \<Rightarrow> nat \<Rightarrow> bool" where
  "split_spec create off n \<longleftrightarrow>
     (\<forall>st t virt. st_ok off st \<longrightarrow> pt_ok off st (Suc n) t \<longrightarrow>
        bit (pt_mem st (ent t (idx (Suc n) virt))) 0 \<longrightarrow> \<not> tbl (pt_mem st (ent t (idx (Suc n) virt))) \<longrightarrow>
        (\<exists>st' err. split_hugepage create off (lvl (Suc n)) (levels n) (ent t (idx (Suc n) virt)) virt st = Some (st', err) \<and>
           moves off (Suc n) t st st' \<and> err \<in> {0, - ENOMEM} \<and>
           (err = 0 \<longrightarrow> tbl (pt_mem st' (ent t (idx (Suc n) virt)))) \<and>
           (\<forall>v. hit_le (hit off (pt_mem st') (Suc n) t v) (hit off (pt_mem st) (Suc n) t v)) \<and>
           (\<forall>v. translate off (pt_mem st') (Suc n) t v =
              (if err = 0 \<and> idx (Suc n) virt = idx (Suc n) v then map_option tr32 (translate off (pt_mem st) (Suc n) t v)
               else translate off (pt_mem st) (Suc n) t v)) \<and>
           (err = 0 \<or> alloc_table st = Some (st, 0))))"

definition destroyed :: "u64 \<Rightarrow> nat \<Rightarrow> u64 \<Rightarrow> u64 \<Rightarrow> u64 \<Rightarrow> pt_state \<Rightarrow> pt_state \<Rightarrow> int + nat \<times> bool \<Rightarrow> bool" where
  "destroyed off n t virt sz st st' r \<longleftrightarrow> moves off n t st st' \<and>
     (\<forall>v. hit_le (hit off (pt_mem st') n t v) (hit off (pt_mem st) n t v)) \<and>
     (case r of
        Inl err \<Rightarrow> err = - ENOMEM \<and> \<not> whole off (pt_mem st) n t virt sz \<and>
          (\<forall>v. translate off (pt_mem st') n t v = translate off (pt_mem st) n t v \<or>
             in_block off (pt_mem st) n t virt v \<and> translate off (pt_mem st') n t v = map_option tr32 (translate off (pt_mem st) n t v))
      | Inr (k, b) \<Rightarrow> k \<le> n \<and> (\<forall>c. hit off (pt_mem st) n t virt = Some c \<longrightarrow>
             k \<le> c \<and> (whole off (pt_mem st) n t virt sz \<longrightarrow> k = c) \<and> k < 3 \<and> lvl_step k \<le> sz) \<and>
          (\<forall>v. translate off (pt_mem st') n t v =
             (if same_blk k n virt v then None
              else if \<not> whole off (pt_mem st) n t virt sz \<and> in_block off (pt_mem st) n t virt v
              then map_option tr32 (translate off (pt_mem st) n t v) else translate off (pt_mem st) n t v)))"

lemma empty_translate: "page_empty st t \<Longrightarrow> translate off (pt_mem st) n t v = None"
  by (rule empty_table(3)) (simp add: page_empty_def)

text \<open>The recursion below a table that is there, from the recursion one level deeper.\<close>

lemma tree_destroy_below:
  assumes ok: "st_ok off st" and pt: "pt_ok off st (Suc n) t" and i: "i = idx (Suc n) virt" and tb: "tbl (pt_mem st (ent t i))"
    and c: "c = nxt off (pt_mem st (ent t i))" and d: "destroyed off n c virt sz st st2 r"
  defines "res \<equiv> climb t i c (st2, r)"
  shows "destroyed off (Suc n) t virt sz st (fst res) (snd res)"
proof -
  have i5: "i < 512" by (simp add: i idx_less)
  have mv: "moves off n (nxt off (pt_mem st (ent t i))) st st2" using d by (simp add: destroyed_def c)
  note mc = moves_child [OF ok pt i5 tb mv] and ok2 = moves_okD [OF moves_child(1) [OF ok pt i5 tb mv]]
  have e2: "pt_mem st2 (ent t i) = pt_mem st (ent t i)" by (rule mc(2) [OF i5])
  have tr: "translate off (pt_mem st) (Suc n) t v = translate off (pt_mem st) n c v" if "idx (Suc n) v = i" for v
    using that tb by (simp add: c Let_def)
  have hv: "hit off (pt_mem st) (Suc n) t virt = hit off (pt_mem st) n c virt" using tb by (simp add: c i Let_def)
  have h: "hit_le (hit off (pt_mem st2) (Suc n) t v) (hit off (pt_mem st) (Suc n) t v)" for v
    using d mc(3) [of "\<lambda>k e v. k" v] tb unfolding destroyed_def by (cases "idx (Suc n) v = i") (simp_all add: c Let_def)
  have wh: "whole off (pt_mem st) (Suc n) t virt sz = whole off (pt_mem st) n c virt sz" using tb by (simp add: c i Let_def)
  have ib: "in_block off (pt_mem st) (Suc n) t virt v \<longleftrightarrow> i = idx (Suc n) v \<and> in_block off (pt_mem st) n c virt v" for v
    using tb by (simp add: c i Let_def)
  show ?thesis
  proof (cases r)
    case (Inl err)
    have "translate off (pt_mem st2) n c v = translate off (pt_mem st) n c v \<or> in_block off (pt_mem st) n c virt v \<and>
        translate off (pt_mem st2) n c v = map_option tr32 (translate off (pt_mem st) n c v)" for v
      using d by (simp add: destroyed_def Inl)
    then have "translate off (pt_mem st2) (Suc n) t v = translate off (pt_mem st) (Suc n) t v \<or> in_block off (pt_mem st) (Suc n) t virt v \<and>
        translate off (pt_mem st2) (Suc n) t v = map_option tr32 (translate off (pt_mem st) (Suc n) t v)" for v
      using mc(3) [of leaf v] tr [of v] ib [of v] by (cases "idx (Suc n) v = i") (simp_all add: c del: twalk.simps in_block.simps)
    then show ?thesis using d mc(1) wh h
      by (simp add: destroyed_def res_def climb_def Inl del: twalk.simps in_block.simps whole.simps)
  next
    case (Inr kb)
    obtain k b where r: "r = Inr (k, b)" using Inr by (cases kb) simp
    have dk: "k \<le> n" "\<forall>b. hit off (pt_mem st) n c virt = Some b \<longrightarrow>
        k \<le> b \<and> (whole off (pt_mem st) n c virt sz \<longrightarrow> k = b) \<and> k < 3 \<and> lvl_step k \<le> sz"
      "\<And>v. translate off (pt_mem st2) n c v = (if same_blk k n virt v then None
              else if \<not> whole off (pt_mem st) n c virt sz \<and> in_block off (pt_mem st) n c virt v
              then map_option tr32 (translate off (pt_mem st) n c v) else translate off (pt_mem st) n c v)"
      using d by (simp_all add: destroyed_def r)
    let ?goal = "\<lambda>v. if same_blk k (Suc n) virt v then None
              else if \<not> whole off (pt_mem st) (Suc n) t virt sz \<and> in_block off (pt_mem st) (Suc n) t virt v
              then map_option tr32 (translate off (pt_mem st) (Suc n) t v) else translate off (pt_mem st) (Suc n) t v"
    have g: "translate off (pt_mem st2) (Suc n) t v = ?goal v" for v
      using mc(3) [of leaf v] dk(3) [of v] tr [of v] wh ib [of v] same_blk_Suc [OF dk(1), of virt v] i by (auto simp: c)
    show ?thesis
    proof (cases "b \<and> page_empty st2 c")
      case True
      have c2: "c = nxt off (pt_mem st2 (ent t i))" by (simp add: c e2)
      note md = moves_drop [OF ok2 i5, folded c2]
      have tb2: "tbl (pt_mem st2 (ent t i))" using tb e2 by simp
      have "moves off (Suc n) t st (put_entry (release_table c st2) t i 0)" using moves_trans [OF ok mc(1) md(1) [OF tb2]] .
      moreover have "translate off (pt_mem (put_entry (release_table c st2) t i 0)) (Suc n) t v = ?goal v" for v
      proof (cases "idx (Suc n) v = i")
        case iv: True
        have "translate off (pt_mem st2) (Suc n) t v = translate off (pt_mem st2) n c v" using iv tb2 by (simp add: c2 Let_def)
        then have "?goal v = None" using g [of v] empty_translate [of st2 c off n v] True by simp
        then show ?thesis using md(2) [OF tb2, of leaf v] iv by simp
      next
        case False
        then show ?thesis using md(2) [OF tb2, of leaf v] g [of v] by simp
      qed
      moreover have "res = (put_entry (release_table c st2) t i 0, Inr (k, True))" using True by (simp add: res_def climb_def r)
      moreover have "hit_le (hit off (pt_mem (put_entry (release_table c st2) t i 0)) (Suc n) t v) (hit off (pt_mem st) (Suc n) t v)" for v
        using md(2) [OF tb2, of "\<lambda>k e v. k" v] h [of v] by (cases "idx (Suc n) v = i") (simp_all del: twalk.simps fun_upd_apply)
      ultimately show ?thesis using dk(1,2) hv wh unfolding destroyed_def by (simp del: twalk.simps whole.simps in_block.simps fun_upd_apply)
    next
      case False
      then have "res = (st2, Inr (k, False))" by (auto simp: res_def climb_def r)
      then show ?thesis using mc(1) h g dk(1,2) hv wh unfolding destroyed_def by (simp del: twalk.simps whole.simps in_block.simps)
    qed
  qed
qed

lemma lvl_step_size: "k < 3 \<Longrightarrow> lvl_step k = lvl_size k"
  by (simp add: lvl_step_def lvl_size_def)

lemma destroyed_after:
  assumes "st_ok off st" "moves off n t st st1" "\<not> whole off (pt_mem st) n t virt sz" "destroyed off n t virt sz st1 st2 r"
    "\<And>v. translate off (pt_mem st1) n t v =
      (if in_block off (pt_mem st) n t virt v then map_option tr32 (translate off (pt_mem st) n t v) else translate off (pt_mem st) n t v)"
    "\<And>v. in_block off (pt_mem st1) n t virt v \<Longrightarrow> in_block off (pt_mem st) n t virt v"
    "\<And>v. hit_le (hit off (pt_mem st1) n t v) (hit off (pt_mem st) n t v)"
  shows "destroyed off n t virt sz st st2 r"
proof -
  have h: "hit_le (hit off (pt_mem st2) n t v) (hit off (pt_mem st) n t v)" for v
    using assms(4) hit_le_trans [OF _ assms(7)] by (simp add: destroyed_def)
  show ?thesis
  proof (cases r)
    case (Inl err)
    have t: "translate off (pt_mem st2) n t v = translate off (pt_mem st1) n t v \<or> in_block off (pt_mem st1) n t virt v \<and>
        translate off (pt_mem st2) n t v = map_option tr32 (translate off (pt_mem st1) n t v)" for v
      using assms(4) by (simp add: destroyed_def Inl)
    have "translate off (pt_mem st2) n t v = translate off (pt_mem st) n t v \<or> in_block off (pt_mem st) n t virt v \<and>
        translate off (pt_mem st2) n t v = map_option tr32 (translate off (pt_mem st) n t v)" for v
      using t [of v] assms(5,6) [of v] tr32_tr32 by (auto split: if_splits)
    then show ?thesis using assms(3,4) h moves_trans [OF assms(1,2)] by (auto simp: destroyed_def Inl)
  next
    case (Inr kb)
    obtain k b where r: "r = Inr (k, b)" using Inr by (cases kb) simp
    have "\<exists>c'\<le>c. hit off (pt_mem st1) n t virt = Some c'" if "hit off (pt_mem st) n t virt = Some c" for c
      using that assms(5) [of virt] assms(7) [of virt] twalk_None [of leaf off "pt_mem st" n t virt] twalk_None [of leaf off "pt_mem st1" n t virt]
      by (cases "hit off (pt_mem st1) n t virt") (auto simp: hit_le_def split: if_splits)
    then have "\<forall>c. hit off (pt_mem st) n t virt = Some c \<longrightarrow> k \<le> c \<and> k < 3 \<and> lvl_step k \<le> sz"
      using assms(4) by (fastforce simp: destroyed_def r)
    then show ?thesis using assms(3-6) h moves_trans [OF assms(1,2)] by (auto simp: destroyed_def r tr32_tr32)
  qed
qed

lemma tree_destroy_ok:
  assumes "st_ok off st" "pt_ok off st n t" "n \<le> 3" "4096 \<le> sz" "whole off (pt_mem st) n t virt sz \<or> (\<forall>k<n. split_spec create off k)"
  shows "\<exists>st' r. tree_destroy create off virt sz n t st = Some (st', r) \<and> destroyed off n t virt sz st st' r"
  using assms
proof (induction n arbitrary: t st)
  case 0
  have "\<not> (bit (pt_mem st (ent t (idx 0 virt))) 0 \<and> \<not> bit (pt_mem st (ent t (idx 0 virt))) 1)"
    using 0(2) idx_less [of 0 virt] by (simp add: pt_ok_def)
  moreover have "destroyed off 0 t virt sz st (put_entry st t (idx 0 virt) 0) (Inr (0, True))"
    using moves_put(1) [OF 0(1,2) idx_less entry_fits_0] moves_put(2) [OF 0(1,2) idx_less entry_fits_0, where L = leaf] moves_put(2) [OF 0(1,2) idx_less entry_fits_0, where L = "\<lambda>k e v. k"] 0(4) unfolding destroyed_def
    by (auto simp: same_blk_top lvl_step_def simp del: twalk.simps fun_upd_apply dest: hit_level)
  ultimately show ?case by (simp add: Let_def del: fun_upd_apply)
next
  case (Suc n)
  define i where "i = idx (Suc n) virt"
  have i5: "i < 512" by (simp add: i_def idx_less)
  let ?m = "pt_mem st"
  let ?e = "?m (ent t i)"
  have wf: "2 \<le> n \<Longrightarrow> bit ?e 0 \<Longrightarrow> tbl ?e" using Suc.prems(2) i5 by (simp add: pt_ok_def)
  consider (clear) "\<not> bit ?e 0 \<or> \<not> tbl ?e \<and> lvl_size (Suc n) \<le> sz" | (table) "tbl ?e" | (split) "bit ?e 0" "\<not> tbl ?e" "\<not> lvl_size (Suc n) \<le> sz"
    by (auto simp: tbl_def)
  then show ?case
  proof cases
    case clear
    have nt: "\<not> tbl ?e" using clear by (auto simp: tbl_def)
    have wh: "whole off ?m (Suc n) t virt sz" using clear nt by (auto simp: Let_def i_def)
    have "Suc n = c \<and> Suc n < 3 \<and> lvl_step (Suc n) \<le> sz" if "hit off ?m (Suc n) t virt = Some c" for c
    proof -
      have b: "bit ?e 0" using that nt by (auto simp: Let_def i_def split: if_splits)
      then have "Suc n < 3" using wf nt by (cases "2 \<le> n") auto
      moreover have "c = Suc n" using that nt b by (simp add: Let_def i_def)
      ultimately show ?thesis using b clear by (simp add: lvl_step_size)
    qed
    then have "destroyed off (Suc n) t virt sz st (put_entry st t i 0) (Inr (Suc n, True))"
      using moves_put(1) [OF Suc.prems(1,2) i5 entry_fits_0] moves_put(2) [OF Suc.prems(1,2) i5 entry_fits_0, where L = leaf] moves_put(2) [OF Suc.prems(1,2) i5 entry_fits_0, where L = "\<lambda>k e v. k"] wh unfolding destroyed_def
      by (auto simp: same_blk_top i_def simp del: twalk.simps whole.simps in_block.simps fun_upd_apply)
    then show ?thesis using clear by (simp add: Let_def i_def del: fun_upd_apply)
  next
    case table
    define c where "c = nxt off ?e"
    have "whole off ?m n c virt sz \<or> (\<forall>k<n. split_spec create off k)" using Suc.prems(5) table by (auto simp: Let_def i_def c_def)
    then obtain st2 r where r: "tree_destroy create off virt sz n c st = Some (st2, r)" "destroyed off n c virt sz st st2 r"
      using Suc.IH [of st c] Suc.prems(1,3,4) pt_ok_child(1) [OF Suc.prems(2) i5 table] by (auto simp: c_def)
    note b = tree_destroy_below [OF Suc.prems(1,2) i_def table c_def r(2)]
    have "bit ?e 0" using table by (simp add: tbl_def)
    then have "tree_destroy create off virt sz (Suc n) t st = Some (climb t i c (st2, r))"
      using table r(1) by (simp add: Let_def i_def [symmetric] c_def [symmetric])
    then show ?thesis using b by (metis prod.collapse)
  next
    case split
    have nw: "\<not> whole off ?m (Suc n) t virt sz" using split by (simp add: Let_def i_def)
    then have sp: "split_spec create off n" "\<forall>k<n. split_spec create off k" using Suc.prems(5) by auto
    obtain st1 err where s: "split_hugepage create off (lvl (Suc n)) (levels n) (ent t i) virt st = Some (st1, err)"
      "moves off (Suc n) t st st1" "err \<in> {0, - ENOMEM}" "err = 0 \<longrightarrow> tbl (pt_mem st1 (ent t i))"
      "\<And>v. translate off (pt_mem st1) (Suc n) t v = (if err = 0 \<and> i = idx (Suc n) v
          then map_option tr32 (translate off ?m (Suc n) t v) else translate off ?m (Suc n) t v)"
      "\<And>v. hit_le (hit off (pt_mem st1) (Suc n) t v) (hit off ?m (Suc n) t v)"
      using sp(1) [unfolded split_spec_def, rule_format, OF Suc.prems(1,2), of virt, folded i_def] split(1,2) by blast
    have ib: "in_block off ?m (Suc n) t virt v \<longleftrightarrow> i = idx (Suc n) v" for v using split by (simp add: Let_def i_def)
    show ?thesis
    proof (cases "err = 0")
      case True
      define c where "c = nxt off (pt_mem st1 (ent t i))"
      have tb: "tbl (pt_mem st1 (ent t i))" using s(4) True by simp
      obtain st2 r where r: "tree_destroy create off virt sz n c st1 = Some (st2, r)" "destroyed off n c virt sz st1 st2 r"
        using Suc.IH [of st1 c] Suc.prems(3,4) sp(2) pt_ok_child(1) [OF moves_okD(2) [OF s(2)] i5 tb] moves_okD(1) [OF s(2)] by (auto simp: c_def)
      let ?res = "climb t i c (st2, r)"
      have "destroyed off (Suc n) t virt sz st1 (fst ?res) (snd ?res)"
        using tree_destroy_below [OF moves_okD [OF s(2)] i_def tb c_def r(2)] .
      moreover have "translate off (pt_mem st1) (Suc n) t v = (if in_block off ?m (Suc n) t virt v
          then map_option tr32 (translate off ?m (Suc n) t v) else translate off ?m (Suc n) t v)" for v
        unfolding s(5) ib using True by simp
      moreover have "in_block off ?m (Suc n) t virt v" if "in_block off (pt_mem st1) (Suc n) t virt v" for v
        unfolding ib using that by (simp add: i_def)
      ultimately have "destroyed off (Suc n) t virt sz st (fst ?res) (snd ?res)" using s(6) by (rule destroyed_after [OF Suc.prems(1) s(2) nw])
      moreover have "tree_destroy create off virt sz (Suc n) t st = Some ?res"
        using split s(1) True r(1) by (simp add: Let_def i_def [symmetric] c_def [symmetric])
      ultimately show ?thesis by (metis prod.collapse)
    next
      case False
      then have e: "err = - ENOMEM" using s(3) by simp
      then have "destroyed off (Suc n) t virt sz st st1 (Inl err)" using s(2,5,6) nw False by (simp add: destroyed_def del: twalk.simps whole.simps)
      then show ?thesis using split s(1) False by (auto simp: Let_def i_def [symmetric])
    qed
  qed
qed

lemma flush_simps [simp]:
  "pt_mem (arch_paging_flush_page_tlbs pgs v st) = pt_mem st" "st_ok off (arch_paging_flush_page_tlbs pgs v st) = st_ok off st"
  "pt_ok off (arch_paging_flush_page_tlbs pgs v st) n t = pt_ok off st n t"
  "moves off n t st0 (arch_paging_flush_page_tlbs pgs v st) = moves off n t st0 st"
  "moves off n t (arch_paging_flush_page_tlbs pgs v st) st1 = moves off n t st st1"
  by (simp_all add: arch_paging_flush_page_tlbs_def pt_ok_def moves_def)

lemma destroy_loop_step:
  assumes "n \<le> 3" "4096 \<le> sz" "root_paging pgs = levels n" "root_table pgs = t" "tree_destroy create off virt sz n t st = Some (st1, r)"
  shows "destroy_loop create off pgs virt sz st = (case r of Inl err \<Rightarrow> Some (st1, err)
    | Inr (k, b) \<Rightarrow> if lvl_step k > sz then Some (arch_paging_flush_page_tlbs pgs virt st1, 0)
        else destroy_loop create off pgs (virt + lvl_step k) (sz - lvl_step k) (arch_paging_flush_page_tlbs pgs virt st1))"
proof -
  have sz: "0 < sz" using assms(2) by (auto simp: word_less_nat_alt word_le_nat_alt)
  have d: "(destroy_down create off virt sz (levels n) t [] st \<bind> (\<lambda>(st1, r). Some (case r of Inl err \<Rightarrow> (st1, Inl err)
      | Inr p \<Rightarrow> (destroy_up virt p st1, Inr (step_size p))))) =
      Some (case r of Inl err \<Rightarrow> (st1, Inl err) | Inr (k, b) \<Rightarrow> (st1, Inr (lvl_step k)))"
    using destroy_down_up [OF assms(1,2), of create off virt t "[]" st] by (simp add: assms(5) split: sum.split)
  then obtain s2 p where p: "destroy_down create off virt sz (levels n) t [] st = Some (s2, p)"
    by (cases "destroy_down create off virt sz (levels n) t [] st") auto
  show ?thesis using d unfolding p
    by (subst destroy_loop.simps) (auto simp: assms(3,4) p sz Let_def split: sum.splits prod.splits)
qed

text \<open>Moving on inside a block.\<close>

lemma add_in_block:
  fixes v d :: u64
  assumes "unat v mod 2 ^ s + unat d < 2 ^ s" "s < 64"
  shows "unat (v + d) = unat v + unat d" "unat (v + d) div 2 ^ s = unat v div 2 ^ s" "unat (v + d) mod 2 ^ s = unat v mod 2 ^ s + unat d"
proof -
  define q where "q = unat v div 2 ^ s"
  have v: "unat v = q * 2 ^ s + unat v mod 2 ^ s" unfolding q_def by (rule div_mult_mod_eq [symmetric])
  have "unat v < 2 ^ LENGTH(64)" by (rule unsigned_less)
  then have "q * 2 ^ s < 2 ^ (64 - s) * 2 ^ s" using v assms(2) by (simp flip: power_add)
  then have "q < 2 ^ (64 - s)" by simp
  then have "Suc q * 2 ^ s \<le> 2 ^ (64 - s) * 2 ^ s" by (intro mult_le_mono1) simp
  then have "q * 2 ^ s + 2 ^ s \<le> 2 ^ 64" using assms(2) by (simp flip: power_add)
  then have "unat v + unat d < 2 ^ 64" using v assms(1) by linarith
  then show a: "unat (v + d) = unat v + unat d" by (simp add: unat_plus_if_size word_size)
  have e: "unat v + unat d = (unat v mod 2 ^ s + unat d) + q * 2 ^ s" using v by simp
  have "((unat v mod 2 ^ s + unat d) + q * 2 ^ s) div 2 ^ s = q" "((unat v mod 2 ^ s + unat d) + q * 2 ^ s) mod 2 ^ s = unat v mod 2 ^ s + unat d"
    using assms(1) by simp_all
  then show "unat (v + d) div 2 ^ s = unat v div 2 ^ s" "unat (v + d) mod 2 ^ s = unat v mod 2 ^ s + unat d"
    unfolding a e q_def [symmetric] by simp_all
qed

lemma idx_same_div: "unat a div 2 ^ pshift n = unat b div 2 ^ pshift n \<Longrightarrow> idx n a = idx n b"
  by (simp add: idx_def)

lemma unat_lvl_step: "k < 3 \<Longrightarrow> unat (lvl_step k) = 2 ^ pshift k"
  by (cases rule: level_cases [of k]) (simp_all add: lvl_step_def)

lemma lvl_step_page: "k \<le> 3 \<Longrightarrow> 4096 dvd unat (lvl_step k) \<and> 4096 \<le> unat (lvl_step k)"
  by (cases rule: level_cases [of k]) (simp_all add: lvl_step_def)

lemma page_multiple: "4096 dvd unat (w :: u64) \<Longrightarrow> 0 < w \<Longrightarrow> 4096 \<le> w"
  by (auto simp: word_less_nat_alt word_le_nat_alt dest: dvd_imp_le)

text \<open>The removal of everything below one entry, before a block takes its place.\<close>

lemma destroy_below_entry:
  assumes "n < 3" "\<forall>k<n. split_spec create off k" "root_paging pgs = levels n" "root_table pgs = t"
    and "st_ok off st" "pt_ok off st n t" "sz = 0 \<or> unat virt mod 2 ^ pshift n + unat sz = 2 ^ pshift n" "4096 dvd unat sz"
  shows "\<exists>st' err. destroy_loop create off pgs virt sz st = Some (st', err) \<and> moves off n t st st' \<and>
    (\<forall>v. hit_le (hit off (pt_mem st') n t v) (hit off (pt_mem st) n t v)) \<and>
    (\<forall>v. idx n v \<noteq> idx n virt \<longrightarrow> translate off (pt_mem st') n t v = translate off (pt_mem st) n t v)"
  using assms(5-8)
proof (induction "unat sz" arbitrary: virt sz st rule: less_induct)
  case less
  have n3: "n \<le> 3" using assms(1) by simp
  show ?case
  proof (cases "sz = 0")
    case True
    then show ?thesis using moves_refl [OF less.prems(1,2)] by (subst destroy_loop.simps) simp
  next
    case False
    then have pos: "0 < sz" by (simp add: word_gt_0)
    have pg: "4096 \<le> sz" by (rule page_multiple [OF less.prems(4) pos])
    have blk: "unat virt mod 2 ^ pshift n + unat sz = 2 ^ pshift n" using less.prems(3) False by simp
    obtain st1 r where r: "tree_destroy create off virt sz n t st = Some (st1, r)" "destroyed off n t virt sz st st1 r"
      using tree_destroy_ok [OF less.prems(1,2) n3 pg] assms(2) by blast
    note step = destroy_loop_step [OF n3 pg assms(3,4) r(1)]
    have mv: "moves off n t st st1" using r(2) by (simp add: destroyed_def)
    have h: "hit_le (hit off (pt_mem st1) n t v) (hit off (pt_mem st) n t v)" for v using r(2) by (simp add: destroyed_def)
    have nb: "\<not> in_block off (pt_mem st) n t virt v" if "idx n v \<noteq> idx n virt" for v using that by (cases n) simp_all
    show ?thesis
    proof (cases r)
      case (Inl err)
      then show ?thesis using step mv r(2) nb h by (auto simp: destroyed_def)
    next
      case (Inr kb)
      obtain k b where kb: "r = Inr (k, b)" using Inr by (cases kb) simp
      have k: "k \<le> n" "k < 3" using r(2) assms(1) by (simp_all add: destroyed_def kb)
      have tr: "translate off (pt_mem st1) n t v = translate off (pt_mem st) n t v" if "idx n v \<noteq> idx n virt" for v
        using r(2) that nb [OF that] k(1) by (auto simp: destroyed_def kb same_blk_def)
      show ?thesis
      proof (cases "lvl_step k > sz")
        case True
        then show ?thesis using step mv tr h by (simp add: kb)
      next
        case False
        let ?sz = "sz - lvl_step k" and ?virt = "virt + lvl_step k" and ?st = "arch_paging_flush_page_tlbs pgs virt st1"
        have le: "unat (lvl_step k) \<le> unat sz" using False by (simp add: word_less_nat_alt)
        have usz: "unat ?sz = unat sz - unat (lvl_step k)" using False by (simp add: unat_sub not_less)
        have lt: "unat ?sz < unat sz" using usz le lvl_step_page [of k] k by simp
        have inv: "?sz = 0 \<or> unat ?virt mod 2 ^ pshift n + unat ?sz = 2 ^ pshift n \<and> idx n ?virt = idx n virt"
        proof (cases "?sz = 0")
          case z: False
          then have "0 < unat ?sz" by (simp add: unat_gt_0)
          then have a: "unat virt mod 2 ^ pshift n + unat (lvl_step k) < 2 ^ pshift n" using blk usz by linarith
          have "pshift n < 64" using assms(1) by simp
          note ab = add_in_block [OF a this]
          have "unat ?virt mod 2 ^ pshift n + unat ?sz = 2 ^ pshift n" unfolding ab(3) usz using blk le by linarith
          then show ?thesis using idx_same_div [OF ab(2)] by blast
        qed simp
        have dv: "4096 dvd unat ?sz" using less.prems(4) lvl_step_page [of k] k unfolding usz by (simp add: dvd_diff_nat)
        have inv': "?sz = 0 \<or> unat ?virt mod 2 ^ pshift n + unat ?sz = 2 ^ pshift n" using inv by blast
        have ok1: "st_ok off ?st" "pt_ok off ?st n t" using moves_okD [OF mv] by simp_all
        obtain st' err where st': "destroy_loop create off pgs ?virt ?sz ?st = Some (st', err)" "moves off n t st1 st'"
          "\<forall>v. idx n v \<noteq> idx n ?virt \<longrightarrow> translate off (pt_mem st') n t v = translate off (pt_mem st1) n t v"
          "\<And>v. hit_le (hit off (pt_mem st') n t v) (hit off (pt_mem st1) n t v)"
          using less.hyps [OF lt ok1 inv' dv] unfolding flush_simps by blast
        have "translate off (pt_mem st') n t v = translate off (pt_mem st) n t v" if v: "idx n v \<noteq> idx n virt" for v
        proof (cases "?sz = 0")
          case True
          then have "pt_mem st' = pt_mem st1" using st'(1) by (subst (asm) destroy_loop.simps) auto
          then show ?thesis using tr [OF v] by simp
        next
          case z: False
          then show ?thesis using st'(3) tr [OF v] inv v by simp
        qed
        then show ?thesis using step False st'(1) moves_trans [OF less.prems(1) mv st'(2)] hit_le_trans [OF st'(4) h] by (simp add: kb)
      qed
    qed
  qed
qed

end
