(* ===== verification/PageCreation.thy ===== *)
theory PageCreation
  imports PageRemoval
begin

text \<open>
  What \<open>paging_create\<close> does to the translations: one round, the loop over a range, and the splits of huge
  pages, which create a range one level deeper, by induction over the levels.
\<close>

subsection \<open>Effect of a creation\<close>

definition flags_ok :: "u64 \<Rightarrow> bool" where
  "flags_ok f \<longleftrightarrow> unat f < 4096 \<and> \<not> bit f 1"

lemma attr_mask: "bit (0xffd :: u64) i \<longleftrightarrow> i < 12 \<and> i \<noteq> 1"
proof -
  have "(0xffd :: u64) = and (mask 12) (not 2)" by (simp add: mask_eq_exp_minus_1)
  then show ?thesis by (simp only: bit_and_iff bit_not_iff bit_mask_iff) (auto simp: bit_2_iff)
qed

lemma terminal_entry:
  assumes "k < 3" "flags_ok f" "take_bit (pshift k) phys = 0" "unat phys < 2 ^ 48"
  shows "bit (terminal_entry k phys f) 0 = bit f 0" "entry_fits k (terminal_entry k phys f)"
    "leaf k (terminal_entry k phys f) v = (phys + take_bit (pshift k) v, f)"
proof -
  have k3: "k \<le> 3" using assms(1) by simp
  have fr: "page_frame k phys = phys" by (rule frame_aligned [OF assms(3,4) k3])
  have f12: "take_bit 12 f = f" using assms(2) by (intro take_bit_self) (simp add: flags_ok_def)
  have fb: "\<not> bit f i" if "12 \<le> i" for i using that f12 by (metis bit_take_bit_iff not_less)
  have pb: "\<not> bit phys i" if "i < 12" for i
  proof -
    have "bit (take_bit (pshift k) phys) i \<longleftrightarrow> bit phys i" using that by (simp add: bit_take_bit_iff)
    then show ?thesis by (simp add: assms(3))
  qed
  have e: "bit (terminal_entry k phys f) i \<longleftrightarrow> bit phys i \<or> bit f i \<or> k = 0 \<and> i = 1" for i
  proof -
    have "bit (2 :: u64) i \<longleftrightarrow> i = 1" by (auto simp: bit_2_iff)
    then show ?thesis unfolding terminal_entry_def fr by (auto simp: bit_or_iff)
  qed
  show b0: "bit (terminal_entry k phys f) 0 = bit f 0" using e [of 0] pb [of 0] by simp
  have "bit (terminal_entry k phys f) 1 \<longleftrightarrow> k = 0" using e [of 1] pb [of 1] assms(2) by (simp add: flags_ok_def)
  then show "entry_fits k (terminal_entry k phys f)" using assms(1) by (cases "k = 0") (simp_all add: entry_fits_def tbl_def)
  have "and (terminal_entry k phys f) 0xffd = f"
  proof (rule bit_word_eqI)
    fix i
    show "bit (and (terminal_entry k phys f) 0xffd) i \<longleftrightarrow> bit f i"
      unfolding bit_and_iff attr_mask e using pb [of i] fb [of i] assms(2) by (cases "i < 12") (auto simp: flags_ok_def)
  qed
  moreover have "page_frame k (terminal_entry k phys f) = phys"
  proof (rule bit_word_eqI)
    fix i
    have "bit (page_frame k phys) i \<longleftrightarrow> bit phys i" by (simp add: fr)
    then show "bit (page_frame k (terminal_entry k phys f)) i \<longleftrightarrow> bit phys i"
      using fb [of i] assms(1) by (auto simp: page_frame_def bit_and_iff e bit_BIT_MASK)
  qed
  ultimately show "leaf k (terminal_entry k phys f) v = (phys + take_bit (pshift k) v, f)" by (simp add: leaf_def)
qed

definition new_entry :: "nat \<Rightarrow> u64 \<Rightarrow> u64 \<Rightarrow> u64 \<Rightarrow> (u64 \<times> u64) option" where
  "new_entry k phys flags v = (if bit flags 0 then Some (phys + take_bit (pshift k) v, flags) else None)"

definition created :: "u64 \<Rightarrow> nat \<Rightarrow> u64 \<Rightarrow> u64 \<Rightarrow> u64 \<Rightarrow> u64 \<Rightarrow> u64 \<Rightarrow> pt_state \<Rightarrow> pt_state \<Rightarrow> int + u64 \<Rightarrow> bool" where
  "created off n t phys sz virt flags st st' r \<longleftrightarrow> moves off n t st st' \<and>
     (case r of
        Inl err \<Rightarrow> err = - ENOMEM \<and> (\<forall>v. hit_le (hit off (pt_mem st') n t v) (hit off (pt_mem st) n t v)) \<and>
          (\<forall>v. translate off (pt_mem st') n t v = translate off (pt_mem st) n t v \<or>
             in_block off (pt_mem st) n t virt v \<and> translate off (pt_mem st') n t v = map_option tr32 (translate off (pt_mem st) n t v))
      | Inr psize \<Rightarrow> \<exists>k\<le>n. k < 3 \<and> psize = lvl_step k \<and> psize \<le> sz \<and> take_bit (pshift k) phys = 0 \<and> take_bit (pshift k) virt = 0 \<and>
          (\<forall>v. if same_blk k n virt v then hit off (pt_mem st') n t v = (if bit flags 0 then Some k else None)
             else hit_le (hit off (pt_mem st') n t v) (hit off (pt_mem st) n t v)) \<and>
          (\<forall>v. translate off (pt_mem st') n t v =
             (if same_blk k n virt v then new_entry k phys flags v
              else if in_block off (pt_mem st) n t virt v then map_option tr32 (translate off (pt_mem st) n t v)
              else translate off (pt_mem st) n t v)))"

lemma created_below:
  assumes ok: "st_ok off st" and pt: "pt_ok off st (Suc n) t" and i: "i = idx (Suc n) virt" and tb: "tbl (pt_mem st (ent t i))"
    and c: "c = nxt off (pt_mem st (ent t i))" and d: "created off n c phys sz virt flags st st' r"
  shows "created off (Suc n) t phys sz virt flags st st' r"
proof -
  have i5: "i < 512" by (simp add: i idx_less)
  have mv: "moves off n (nxt off (pt_mem st (ent t i))) st st'" using d by (simp add: created_def c)
  note mc = moves_child [OF ok pt i5 tb mv, folded c]
  have tr: "translate off (pt_mem st) (Suc n) t v = translate off (pt_mem st) n c v" if "idx (Suc n) v = i" for v
    using that tb by (simp add: c Let_def)
  have th: "hit off (pt_mem st) (Suc n) t v = hit off (pt_mem st) n c v" if "idx (Suc n) v = i" for v
    using that tb by (simp add: c Let_def)
  have ib: "in_block off (pt_mem st) (Suc n) t virt v \<longleftrightarrow> i = idx (Suc n) v \<and> in_block off (pt_mem st) n c virt v" for v
    using tb by (simp add: c i Let_def)
  show ?thesis
  proof (cases r)
    case (Inl err)
    have "hit_le (hit off (pt_mem st') (Suc n) t v) (hit off (pt_mem st) (Suc n) t v)" for v
      using d mc(3) [of "\<lambda>k e v. k" v] th [of v] by (cases "idx (Suc n) v = i") (simp_all add: created_def Inl del: twalk.simps)
    moreover have "translate off (pt_mem st') n c v = translate off (pt_mem st) n c v \<or> in_block off (pt_mem st) n c virt v \<and>
        translate off (pt_mem st') n c v = map_option tr32 (translate off (pt_mem st) n c v)" for v
      using d by (simp add: created_def Inl)
    then have "translate off (pt_mem st') (Suc n) t v = translate off (pt_mem st) (Suc n) t v \<or> in_block off (pt_mem st) (Suc n) t virt v \<and>
        translate off (pt_mem st') (Suc n) t v = map_option tr32 (translate off (pt_mem st) (Suc n) t v)" for v
      using mc(3) [of leaf v] tr [of v] ib [of v] by (cases "idx (Suc n) v = i") (simp_all del: twalk.simps in_block.simps)
    ultimately show ?thesis using d mc(1) by (simp add: created_def Inl del: twalk.simps in_block.simps)
  next
    case (Inr psize)
    then obtain k where k: "k \<le> n" "k < 3" "psize = lvl_step k" "psize \<le> sz" "take_bit (pshift k) phys = 0" "take_bit (pshift k) virt = 0"
      "\<And>v. translate off (pt_mem st') n c v =
             (if same_blk k n virt v then new_entry k phys flags v
              else if in_block off (pt_mem st) n c virt v then map_option tr32 (translate off (pt_mem st) n c v)
              else translate off (pt_mem st) n c v)"
      "\<And>v. if same_blk k n virt v then hit off (pt_mem st') n c v = (if bit flags 0 then Some k else None)
             else hit_le (hit off (pt_mem st') n c v) (hit off (pt_mem st) n c v)"
      using d unfolding created_def by auto
    have kh: "if same_blk k (Suc n) virt v then hit off (pt_mem st') (Suc n) t v = (if bit flags 0 then Some k else None)
        else hit_le (hit off (pt_mem st') (Suc n) t v) (hit off (pt_mem st) (Suc n) t v)" for v
      using mc(3) [of "\<lambda>k e v. k" v] k(8) [of v] th [of v] same_blk_Suc [OF k(1), of virt v] i
      by (cases "idx (Suc n) v = i") (auto simp del: twalk.simps)
    have "translate off (pt_mem st') (Suc n) t v =
             (if same_blk k (Suc n) virt v then new_entry k phys flags v
              else if in_block off (pt_mem st) (Suc n) t virt v then map_option tr32 (translate off (pt_mem st) (Suc n) t v)
              else translate off (pt_mem st) (Suc n) t v)" for v
      using mc(3) [of leaf v] k(7) [of v] tr [of v] ib [of v] same_blk_Suc [OF k(1), of virt v] i
      by (cases "idx (Suc n) v = i") (auto simp del: twalk.simps in_block.simps)
    then show ?thesis using k(2-6) kh mc(1) le_SucI [OF k(1)] unfolding created_def Inr sum.case by blast
  qed
qed

lemma created_after:
  assumes "st_ok off st" "moves off n t st st1" "created off n t phys sz virt flags st1 st2 r"
    "\<And>v. translate off (pt_mem st1) n t v = translate off (pt_mem st) n t v \<or>
      in_block off (pt_mem st) n t virt v \<and> translate off (pt_mem st1) n t v = map_option tr32 (translate off (pt_mem st) n t v)"
    "\<And>v. in_block off (pt_mem st) n t virt v \<Longrightarrow> translate off (pt_mem st1) n t v = map_option tr32 (translate off (pt_mem st) n t v)"
    "\<And>v. in_block off (pt_mem st1) n t virt v \<Longrightarrow> in_block off (pt_mem st) n t virt v"
    "\<And>v. hit_le (hit off (pt_mem st1) n t v) (hit off (pt_mem st) n t v)"
  shows "created off n t phys sz virt flags st st2 r"
proof (cases r)
  case (Inl err)
  have t: "translate off (pt_mem st2) n t v = translate off (pt_mem st1) n t v \<or> in_block off (pt_mem st1) n t virt v \<and>
      translate off (pt_mem st2) n t v = map_option tr32 (translate off (pt_mem st1) n t v)" for v
    using assms(3) by (simp add: created_def Inl)
  have "translate off (pt_mem st2) n t v = translate off (pt_mem st) n t v \<or> in_block off (pt_mem st) n t virt v \<and>
      translate off (pt_mem st2) n t v = map_option tr32 (translate off (pt_mem st) n t v)" for v
    using t [of v] assms(4,6) [of v] tr32_tr32 by auto
  moreover have "hit_le (hit off (pt_mem st2) n t v) (hit off (pt_mem st) n t v)" for v
    using assms(3) hit_le_trans [OF _ assms(7)] by (simp add: created_def Inl)
  ultimately show ?thesis using assms(3) moves_trans [OF assms(1,2)] by (simp add: created_def Inl)
next
  case (Inr psize)
  then obtain k where k: "k \<le> n" "k < 3" "psize = lvl_step k" "psize \<le> sz" "take_bit (pshift k) phys = 0" "take_bit (pshift k) virt = 0"
      "\<And>v. translate off (pt_mem st2) n t v =
             (if same_blk k n virt v then new_entry k phys flags v
              else if in_block off (pt_mem st1) n t virt v then map_option tr32 (translate off (pt_mem st1) n t v)
              else translate off (pt_mem st1) n t v)"
      "\<And>v. if same_blk k n virt v then hit off (pt_mem st2) n t v = (if bit flags 0 then Some k else None)
             else hit_le (hit off (pt_mem st2) n t v) (hit off (pt_mem st1) n t v)"
    using assms(3) unfolding created_def by auto
  have "translate off (pt_mem st2) n t v =
             (if same_blk k n virt v then new_entry k phys flags v
              else if in_block off (pt_mem st) n t virt v then map_option tr32 (translate off (pt_mem st) n t v)
              else translate off (pt_mem st) n t v)" for v
    using k(7) [of v] assms(4-6) [of v] tr32_tr32 by auto
  moreover have "if same_blk k n virt v then hit off (pt_mem st2) n t v = (if bit flags 0 then Some k else None)
      else hit_le (hit off (pt_mem st2) n t v) (hit off (pt_mem st) n t v)" for v
    using k(8) [of v] hit_le_trans [OF _ assms(7)] by (auto split: if_splits)
  moreover have "moves off n t st st2" using assms(3) moves_trans [OF assms(1,2)] by (simp add: created_def)
  ultimately show ?thesis using k(1-6) unfolding created_def Inr sum.case by blast
qed

lemma or_eq_0: "or (a :: u64) b = 0 \<longleftrightarrow> a = 0 \<and> b = 0"
  by (auto simp: bit_eq_iff bit_or_iff)

lemma aligned_test:
  assumes "k < 3"
  shows "and (or p v) (lvl_size k - 1) = 0 \<longleftrightarrow> take_bit (pshift k) p = 0 \<and> take_bit (pshift k) v = 0"
proof -
  have "lvl_size k - 1 = mask (pshift k)" using assms by (simp add: lvl_size_def mask_eq_exp_minus_1)
  then show ?thesis by (simp only: take_bit_eq_mask [symmetric] take_bit_or or_eq_0)
qed

lemma lvl_size_facts: "k < 3 \<Longrightarrow> 0 < lvl_size k" "PAGE_ALIGN (lvl_size 1) = lvl_size 1" "PAGE_ALIGN (lvl_size 2) = lvl_size 2"
  "4096 < lvl_size 1" "4096 < lvl_size 2" "lvl_size 0 = 4096" "lvl_size 3 = 0"
proof -
  show "0 < lvl_size k" if "k < 3" using that by (cases rule: level_cases [of k]) (simp_all add: lvl_size_def)
qed (simp_all add: lvl_size_def PAGE_ALIGN_def PAGE_SIZE_def PAGE_MASK_def)

lemma create_walk_0:
  assumes "4096 \<le> sz" "take_bit 12 phys = 0" "take_bit 12 virt = 0"
  shows "create_walk create off phys sz virt flags (levels 0) t st = Some (put_entry st t (idx 0 virt) (terminal_entry 0 phys flags), Inr 4096)"
  using assms aligned_test [of 0 phys virt] unfolding levels_simps create_walk.simps Let_def ucast_lvl_size [of 0, simplified] lvl_entry [of 0, simplified]
  by (simp add: lvl_size_facts(6) lvl_terminal PAGE_SIZE_def)

lemma create_walk_Suc:
  fixes virt :: u64
  assumes "n < 3"
  defines "i \<equiv> idx (Suc n) virt"
  shows "create_walk create off phys sz virt flags (levels (Suc n)) t st =
    (if Suc n < 3 \<and> lvl_size (Suc n) \<le> sz \<and> take_bit (pshift (Suc n)) phys = 0 \<and> take_bit (pshift (Suc n)) virt = 0 then
       destroy_loop create off \<lparr>root_paging = levels (Suc n), root_table = t, is_hv_structs = False\<rparr> virt (lvl_size (Suc n)) st \<bind>
         (\<lambda>(st1, _). Some (put_entry st1 t i (terminal_entry (Suc n) phys flags), Inr (lvl_size (Suc n))))
     else if bit (pt_mem st (ent t i)) 0 then
       (if tbl (pt_mem st (ent t i)) then Some (st, 0) else split_hugepage create off (lvl (Suc n)) (levels n) (ent t i) virt st) \<bind> (\<lambda>(st1, err).
         if err \<noteq> 0 then Some (st1, Inl err)
         else create_walk create off phys sz virt flags (levels n) (nxt off (pt_mem st1 (ent t i))) st1)
     else alloc_table st \<bind> (\<lambda>(st1, a). if a = 0 then Some (st1, Inl (- ENOMEM))
       else create_walk create off phys sz virt flags (levels n) a (put_entry st1 t i (table_entry off a))))"
proof -
  have n: "Suc n \<le> 3" using assms by simp
  have big: "of_nat PAGE_SIZE < lvl_size (Suc n)" "PAGE_ALIGN (lvl_size (Suc n)) = lvl_size (Suc n)" if "Suc n < 3"
    using that lvl_size_facts(2-5) less_2_cases [of n] by (auto simp: PAGE_SIZE_def numeral_2_eq_2)
  have cond: "0 < lvl_size (Suc n) \<and> lvl_size (Suc n) \<le> sz \<and> and (or phys virt) (lvl_size (Suc n) - 1) = 0 \<longleftrightarrow>
      Suc n < 3 \<and> lvl_size (Suc n) \<le> sz \<and> take_bit (pshift (Suc n)) phys = 0 \<and> take_bit (pshift (Suc n)) virt = 0"
  proof (cases "Suc n < 3")
    case True
    then show ?thesis using aligned_test [OF True, of phys virt] lvl_size_facts(1) [OF True] by blast
  next
    case False
    then have "Suc n = 3" using n by simp
    then show ?thesis using lvl_size_facts(7) by simp
  qed
  have sp: "split_hugepage create off (lvl (Suc n)) (levels n) (ent t i) virt st = Some (st, 0)" if "tbl (pt_mem st (ent t i))"
    using that phys_invalid [OF assms(1)] by (simp add: split_hugepage_def)
  have ln: "link_table off (lvl (Suc n)) (ent t i) a st1 = Some (put_entry st1 t i (table_entry off a))" for a st1
    by (simp add: link_table_def lvl_next [OF _ n] table_entry_def)
  have nx: "paging_phys2hvirt off (page_frame 0 e) = nxt off e" for e by (simp add: paging_phys2hvirt_def nxt_def)
  show ?thesis
  proof (cases "Suc n < 3 \<and> lvl_size (Suc n) \<le> sz \<and> take_bit (pshift (Suc n)) phys = 0 \<and> take_bit (pshift (Suc n)) virt = 0")
    case True
    then show ?thesis using cond big lvl_terminal [of "Suc n"]
      unfolding levels_simps(2) [OF assms(1)] create_walk.simps Let_def ucast_lvl_size [OF n] lvl_entry [OF n] i_def [symmetric] by simp
  next
    case False
    then show ?thesis using cond
      unfolding levels_simps(2) [OF assms(1)] create_walk.simps Let_def ucast_lvl_size [OF n] lvl_entry [OF n] i_def [symmetric]
      by (simp only: if_False lvl_common(1) [OF n] lvl_next(2) [OF zero_less_Suc n] ln nx bind.bind_lunit split: if_split) (auto simp: sp)
  qed
qed

lemma empty_not_in_block:
  assumes "\<And>j. j < 512 \<Longrightarrow> m (ent x j) = 0"
  shows "\<not> in_block off m n x a v"
  using assms [OF idx_less] by (cases n) (simp_all add: tbl_def Let_def)

lemma take_bit_0_mod: "take_bit s (v :: u64) = 0 \<longleftrightarrow> unat v mod 2 ^ s = 0"
proof -
  have "unat (take_bit s v) = take_bit s (unat v)" by (simp add: unsigned_take_bit_eq)
  then have "unat (take_bit s v) = unat v mod 2 ^ s" by (simp only: take_bit_eq_mod)
  then show ?thesis by (metis unat_eq_zero)
qed

lemma created_put:
  assumes "st_ok off st1" "pt_ok off st1 n t" "n < 3" "flags_ok flags" "take_bit (pshift n) phys = 0" "take_bit (pshift n) virt = 0"
    "unat phys < 2 ^ 48" "lvl_step n \<le> sz" "st_ok off st" "moves off n t st st1"
    "\<And>v. idx n v \<noteq> idx n virt \<Longrightarrow> translate off (pt_mem st1) n t v = translate off (pt_mem st) n t v"
    "\<And>v. hit_le (hit off (pt_mem st1) n t v) (hit off (pt_mem st) n t v)"
  shows "created off n t phys sz virt flags st (put_entry st1 t (idx n virt) (terminal_entry n phys flags)) (Inr (lvl_step n))"
proof -
  note te = terminal_entry [OF assms(3,4,5,7)]
  note mp = moves_put [OF assms(1,2) idx_less [of n virt] te(2)]
  have nb: "\<not> in_block off (pt_mem st) n t virt v" if "idx n v \<noteq> idx n virt" for v using that by (cases n) simp_all
  have "translate off (pt_mem (put_entry st1 t (idx n virt) (terminal_entry n phys flags))) n t v =
      (if same_blk n n virt v then new_entry n phys flags v
       else if in_block off (pt_mem st) n t virt v then map_option tr32 (translate off (pt_mem st) n t v)
       else translate off (pt_mem st) n t v)" for v
  proof (cases "idx n v = idx n virt")
    case True
    then show ?thesis using mp(2) [of leaf v] te(1,3) by (simp add: same_blk_top new_entry_def del: fun_upd_apply)
  next
    case False
    then show ?thesis using mp(2) [of leaf v] nb [OF False] assms(11) by (auto simp: same_blk_top simp del: fun_upd_apply)
  qed
  moreover have "if same_blk n n virt v
      then hit off (pt_mem (put_entry st1 t (idx n virt) (terminal_entry n phys flags))) n t v = (if bit flags 0 then Some n else None)
      else hit_le (hit off (pt_mem (put_entry st1 t (idx n virt) (terminal_entry n phys flags))) n t v) (hit off (pt_mem st) n t v)" for v
    using mp(2) [of "\<lambda>k e v. k" v] te(1) assms(12) [of v] by (auto simp: same_blk_top simp del: fun_upd_apply)
  moreover have "moves off n t st (put_entry st1 t (idx n virt) (terminal_entry n phys flags))"
    using moves_trans [OF assms(9,10) mp(1)] .
  ultimately show ?thesis unfolding created_def sum.case using assms(3-8) order_refl [of n] by blast
qed

lemma create_walk_ok:
  assumes "n \<le> 3" "\<forall>k<n. split_spec create off k" "st_ok off st" "pt_ok off st n t"
    and fl: "flags_ok flags" and al: "4096 \<le> sz" "take_bit 12 phys = 0" "take_bit 12 virt = 0" "unat phys < 2 ^ 48"
  shows "\<exists>st' r. create_walk create off phys sz virt flags (levels n) t st = Some (st', r) \<and> created off n t phys sz virt flags st st' r"
  using assms(1-4)
proof (induction n arbitrary: t st)
  case 0
  have "created off 0 t phys sz virt flags st (put_entry st t (idx 0 virt) (terminal_entry 0 phys flags)) (Inr (lvl_step 0))"
    using 0 fl al by (intro created_put) (simp_all add: moves_refl lvl_step_def)
  then show ?case using create_walk_0 [OF al(1-3)] by (simp add: lvl_step_def del: fun_upd_apply)
next
  case (Suc n)
  have n: "n < 3" "n \<le> 3" using Suc.prems(1) by simp_all
  have sps: "\<forall>k<n. split_spec create off k" "split_spec create off n" using Suc.prems(2) by simp_all
  define i where "i = idx (Suc n) virt"
  have i5: "i < 512" by (simp add: i_def idx_less)
  note walk = create_walk_Suc [OF n(1), of create off phys sz virt flags t st, folded i_def]
  let ?e = "pt_mem st (ent t i)"
  let ?fits = "Suc n < 3 \<and> lvl_size (Suc n) \<le> sz \<and> take_bit (pshift (Suc n)) phys = 0 \<and> take_bit (pshift (Suc n)) virt = 0"
  consider (terminal) ?fits | (table) "\<not> ?fits" "tbl ?e" | (split) "\<not> ?fits" "bit ?e 0" "\<not> tbl ?e" | (fresh) "\<not> ?fits" "\<not> bit ?e 0" by blast
  then show ?case
  proof cases
    case terminal
    let ?pgs = "\<lparr>root_paging = levels (Suc n), root_table = t, is_hv_structs = False\<rparr>"
    have s: "unat (lvl_size (Suc n)) = 2 ^ pshift (Suc n)" using unat_lvl_step [of "Suc n"] terminal lvl_step_size by simp
    have "unat virt mod 2 ^ pshift (Suc n) = 0" using terminal take_bit_0_mod by blast
    then have m: "lvl_size (Suc n) = 0 \<or> unat virt mod 2 ^ pshift (Suc n) + unat (lvl_size (Suc n)) = 2 ^ pshift (Suc n)" using s by simp
    have dv: "4096 dvd unat (lvl_size (Suc n))" using lvl_step_page [of "Suc n"] terminal by (simp add: lvl_step_size)
    obtain st1 err where d: "destroy_loop create off ?pgs virt (lvl_size (Suc n)) st = Some (st1, err)" "moves off (Suc n) t st st1"
      "\<forall>v. idx (Suc n) v \<noteq> idx (Suc n) virt \<longrightarrow> translate off (pt_mem st1) (Suc n) t v = translate off (pt_mem st) (Suc n) t v"
      "\<forall>v. hit_le (hit off (pt_mem st1) (Suc n) t v) (hit off (pt_mem st) (Suc n) t v)"
      using destroy_below_entry [of "Suc n" create off ?pgs t st "lvl_size (Suc n)" virt] Suc.prems(2-4) terminal m dv by auto
    have "created off (Suc n) t phys sz virt flags st (put_entry st1 t (idx (Suc n) virt) (terminal_entry (Suc n) phys flags)) (Inr (lvl_step (Suc n)))"
      using terminal fl al(4) Suc.prems(3) d moves_okD [OF d(2)] by (intro created_put) (simp_all add: lvl_step_size)
    then show ?thesis using walk d(1) terminal by (simp add: lvl_step_size i_def del: fun_upd_apply)
  next
    case table
    have pc: "pt_ok off st n (nxt off ?e)" by (rule pt_ok_child(1) [OF Suc.prems(4) i5 table(2)])
    obtain st' r where r: "create_walk create off phys sz virt flags (levels n) (nxt off ?e) st = Some (st', r)"
      "created off n (nxt off ?e) phys sz virt flags st st' r"
      using Suc.IH [OF n(2) sps(1) Suc.prems(3) pc] by blast
    have "bit ?e 0" using table(2) by (simp add: tbl_def)
    then show ?thesis using walk table r(1) created_below [OF Suc.prems(3,4) i_def table(2) refl r(2)] by auto
  next
    case split
    obtain st1 err where s: "split_hugepage create off (lvl (Suc n)) (levels n) (ent t i) virt st = Some (st1, err)"
      "moves off (Suc n) t st st1" "err \<in> {0, - ENOMEM}" "err = 0 \<longrightarrow> tbl (pt_mem st1 (ent t i))"
      "\<And>v. translate off (pt_mem st1) (Suc n) t v = (if err = 0 \<and> i = idx (Suc n) v
          then map_option tr32 (translate off (pt_mem st) (Suc n) t v) else translate off (pt_mem st) (Suc n) t v)"
      "\<And>v. hit_le (hit off (pt_mem st1) (Suc n) t v) (hit off (pt_mem st) (Suc n) t v)"
      using sps(2) [unfolded split_spec_def, rule_format, OF Suc.prems(3,4), of virt, folded i_def] split(2,3) by blast
    have ib: "in_block off (pt_mem st) (Suc n) t virt v \<longleftrightarrow> i = idx (Suc n) v" for v using split by (simp add: Let_def i_def)
    show ?thesis
    proof (cases "err = 0")
      case True
      have tb: "tbl (pt_mem st1 (ent t i))" using s(4) True by simp
      note ok1 = moves_okD [OF s(2)]
      obtain st' r where r: "create_walk create off phys sz virt flags (levels n) (nxt off (pt_mem st1 (ent t i))) st1 = Some (st', r)"
        "created off n (nxt off (pt_mem st1 (ent t i))) phys sz virt flags st1 st' r"
        using Suc.IH [OF n(2) sps(1) ok1(1) pt_ok_child(1) [OF ok1(2) i5 tb]] by blast
      have ib1: "in_block off (pt_mem st) (Suc n) t virt v" if "in_block off (pt_mem st1) (Suc n) t virt v" for v
        unfolding ib using that by (simp add: i_def)
      have "created off (Suc n) t phys sz virt flags st st' r"
        using s(5,6) ib ib1 True by (intro created_after [OF Suc.prems(3) s(2) created_below [OF ok1 i_def tb refl r(2)]])
          (auto simp del: twalk.simps in_block.simps)
      then show ?thesis using walk split s(1) True r(1) by auto
    next
      case False
      then have "created off (Suc n) t phys sz virt flags st st1 (Inl err)" using s(2,3,5,6) by (simp add: created_def del: twalk.simps)
      then show ?thesis using walk split s(1) False by auto
    qed
  next
    case fresh
    show ?thesis using Suc.prems(3)
    proof (cases rule: alloc_table_cases [where st = st])
      case full
      have "created off (Suc n) t phys sz virt flags st st (Inl (- ENOMEM))" using moves_refl [OF Suc.prems(3,4)] by (simp add: created_def)
      then show ?thesis using walk fresh full by auto
    next
      case (found st1 x)
      let ?st2 = "put_entry st1 t i (table_entry off x)"
      note ml = moves_link [OF Suc.prems(3,4) i5 found(2-)]
      have x0: "x \<noteq> 0" using pages_st_ok(5) [OF Suc.prems(3) found(2)] .
      note te = table_entry [OF Suc.prems(3) found(2)] and ok2 = moves_okD [OF ml(1)]
      have tb: "tbl (pt_mem ?st2 (ent t i))" "x = nxt off (pt_mem ?st2 (ent t i))" using te by simp_all
      obtain st' r where r: "create_walk create off phys sz virt flags (levels n) x ?st2 = Some (st', r)" "created off n x phys sz virt flags ?st2 st' r"
        using Suc.IH [OF n(2) sps(1) ok2(1) ml(3)] by blast
      have nb: "\<not> in_block off (pt_mem st) (Suc n) t virt v" for v using fresh by (simp add: i_def tbl_def Let_def)
      have nb2: "\<not> in_block off (pt_mem ?st2) (Suc n) t virt v" for v
        using empty_not_in_block [of "pt_mem ?st2" x off n virt v] ml(5) te by (simp add: i_def [symmetric] Let_def)
      have tr: "translate off (pt_mem ?st2) (Suc n) t v = translate off (pt_mem st) (Suc n) t v" for v
        using ml(4) [of leaf v] fresh(2) by (auto simp: tbl_def Let_def)
      have th: "hit_le (hit off (pt_mem ?st2) (Suc n) t v) (hit off (pt_mem st) (Suc n) t v)" for v
        unfolding ml(4) [of "\<lambda>k e v. k" v] by simp
      have "created off (Suc n) t phys sz virt flags st st' r"
        using tr nb nb2 th by (intro created_after [OF Suc.prems(3) ml(1) created_below [OF ok2 i_def tb r(2)]]) blast+
      then show ?thesis using walk fresh found(1) x0 r(1) by (auto simp del: fun_upd_apply)
    qed
  qed
qed

subsection \<open>Ranges of addresses\<close>

text \<open>The offset of an address in the range that the tables of level \<open>n\<close> and below cover.\<close>

definition vo :: "nat \<Rightarrow> u64 \<Rightarrow> nat" where
  "vo n v = unat v mod 2 ^ pshift (Suc n)"

lemma vo_less: "vo n v < 2 ^ pshift (Suc n)"
  by (simp add: vo_def)

lemma mod_shift9: "x mod 2 ^ (s + 9) = x mod 2 ^ s + 2 ^ s * (x div 2 ^ s mod 512)" for x :: nat
  using mod_mult2_eq [of x "2 ^ s" 512] by (simp add: power_add add.commute)

lemma vo_idx: "vo n v = unat v mod 2 ^ pshift n + 2 ^ pshift n * idx n v"
  unfolding vo_def idx_def mult_Suc_right using mod_shift9 [of "unat v" "pshift n"] by (simp add: ac_simps)

lemma vo_Suc: "vo (Suc n) v = vo n v + 2 ^ pshift (Suc n) * idx (Suc n) v"
  unfolding vo_idx [of "Suc n"] by (simp only: vo_def)

lemma div_digit:
  fixes r r' q q' :: nat
  assumes "p \<le> s" "r < 2 ^ s" "r' < 2 ^ s"
  shows "(r + 2 ^ s * q) div 2 ^ p = (r' + 2 ^ s * q') div 2 ^ p \<longleftrightarrow> r div 2 ^ p = r' div 2 ^ p \<and> q = q'"
proof -
  define d where "d = (2 :: nat) ^ (s - p)"
  have s: "2 ^ s = 2 ^ p * d" using assms(1) by (simp add: d_def flip: power_add)
  have e: "(a + 2 ^ s * b) div 2 ^ p = a div 2 ^ p + d * b" for a b :: nat
    unfolding s using div_mult_self2 [of "2 ^ p" a "d * b"] by (simp add: mult.assoc)
  have l: "a div 2 ^ p < d" if "a < 2 ^ s" for a :: nat
    using that unfolding s by (simp add: less_mult_imp_div_less mult.commute)
  have "q = q'" if "a + d * q = b + d * q'" "a < d" "b < d" for a b
  proof -
    have "(a + d * q) div d = q" "(b + d * q') div d = q'" using that(2,3) by simp_all
    then show ?thesis using that(1) by simp
  qed
  then show ?thesis unfolding e using l [OF assms(2)] l [OF assms(3)] by (metis add_right_cancel)
qed

lemma same_blk_vo: "same_blk k n a b \<longleftrightarrow> vo n a div 2 ^ pshift k = vo n b div 2 ^ pshift k"
proof (induction n)
  case 0
  show ?case
  proof (cases "k = 0")
    case True
    have "vo 0 v div 2 ^ pshift 0 = idx 0 v" for v by (simp add: vo_idx)
    then show ?thesis using same_blk_top [of 0 a b] by (simp only: True)
  next
    case False
    have "vo 0 v < 2 ^ pshift k" for v
    proof -
      have "(2 :: nat) ^ pshift (Suc 0) \<le> 2 ^ pshift k" using False by (intro power_increasing) simp_all
      then show ?thesis using vo_less [of 0 v] by linarith
    qed
    then have "vo 0 v div 2 ^ pshift k = 0" for v by (simp add: div_less)
    then show ?thesis using False by (simp only:) (auto simp: same_blk_def)
  qed
next
  case (Suc n)
  show ?case
  proof (cases "k \<le> Suc n")
    case True
    have p: "pshift k \<le> pshift (Suc n)" using True by simp
    have "same_blk k (Suc n) a b \<longleftrightarrow> idx (Suc n) a = idx (Suc n) b \<and> same_blk k n a b"
      using True same_blk_Suc [of k n a b] by (cases "k = Suc n") (auto simp: same_blk_def)
    then show ?thesis unfolding vo_Suc div_digit [OF p vo_less vo_less] Suc.IH by blast
  next
    case False
    have "vo (Suc n) v < 2 ^ pshift k" for v
    proof -
      have "(2 :: nat) ^ pshift (Suc (Suc n)) \<le> 2 ^ pshift k" using False by (intro power_increasing) simp_all
      then show ?thesis using vo_less [of "Suc n" v] by linarith
    qed
    then have "vo (Suc n) v div 2 ^ pshift k = 0" for v by (simp add: div_less)
    then show ?thesis using False by (simp only:) (auto simp: same_blk_def)
  qed
qed

lemma same_blk_mono: "same_blk b n a v \<Longrightarrow> b \<le> c \<Longrightarrow> same_blk c n a v"
  by (auto simp: same_blk_def)

lemma same_blk_sym: "same_blk b n a v \<longleftrightarrow> same_blk b n v a"
  by (auto simp: same_blk_def)

lemma same_blk_trans: "same_blk b n a v \<Longrightarrow> same_blk b n v w \<Longrightarrow> same_blk b n a w"
  by (auto simp: same_blk_def)

text \<open>The block that starts at \<open>virt\<close>.\<close>

lemma same_blk_range:
  assumes "take_bit (pshift k) virt = 0" "k \<le> Suc n"
  shows "same_blk k n virt v \<longleftrightarrow> vo n virt \<le> vo n v \<and> vo n v < vo n virt + 2 ^ pshift k"
proof -
  have "unat virt mod 2 ^ pshift k = 0" using assms(1) take_bit_0_mod by blast
  moreover have "(2 :: nat) ^ pshift k dvd 2 ^ pshift (Suc n)" using assms(2) by (intro le_imp_power_dvd) simp
  ultimately have "vo n virt mod 2 ^ pshift k = 0" by (simp only: vo_def mod_mod_cancel)
  then obtain q where q: "vo n virt = 2 ^ pshift k * q" by (metis mod_0_imp_dvd dvdE)
  have "x div 2 ^ pshift k = q \<longleftrightarrow> 2 ^ pshift k * q \<le> x \<and> x < 2 ^ pshift k * q + 2 ^ pshift k" for x :: nat
    using div_nat_eqI [of "2 ^ pshift k" q x] times_div_less_eq_dividend [of "2 ^ pshift k" x] dividend_less_times_div [of "2 ^ pshift k" x]
    by (auto simp: algebra_simps)
  moreover have "vo n virt div 2 ^ pshift k = q" by (simp add: q del: power_add)
  ultimately show ?thesis unfolding same_blk_vo by (metis q)
qed

lemma vo_shift:
  assumes "vo n virt + unat d < 2 ^ pshift (Suc n)" "n \<le> 3"
  shows "vo n (virt + d) = vo n virt + unat d"
proof -
  have "pshift (Suc n) < 64" using assms(2) by simp
  then show ?thesis using add_in_block(3) [of virt "pshift (Suc n)" d] assms(1) by (simp only: vo_def)
qed

lemma hit_same: "hit off m n t a = Some b \<Longrightarrow> same_blk b n a v \<Longrightarrow> hit off m n t v = Some b"
proof (induction n arbitrary: t)
  case 0
  then show ?case by (auto simp: same_blk_def Let_def split: if_splits)
next
  case (Suc n)
  have b: "b \<le> Suc n" using hit_level [OF Suc.prems(1)] .
  then have i: "idx (Suc n) a = idx (Suc n) v" using Suc.prems(2) by (simp add: same_blk_def)
  have s: "same_blk b n a v" using Suc.prems(2) by (simp add: same_blk_def)
  show ?case using Suc.prems(1) Suc.IH [OF _ s] by (auto simp: Let_def i split: if_splits)
qed

lemma in_block_hit: "in_block off m n t a v \<longleftrightarrow> (\<exists>b>0. hit off m n t a = Some b \<and> same_blk b n a v)"
proof (induction n arbitrary: t)
  case 0
  then show ?case by (auto simp: Let_def split: if_splits)
next
  case (Suc n)
  let ?e = "m (ent t (idx (Suc n) a))"
  have "same_blk b (Suc n) a v \<longleftrightarrow> idx (Suc n) a = idx (Suc n) v \<and> same_blk b n a v" if "hit off m n (nxt off ?e) a = Some b" for b
    using same_blk_Suc [OF hit_level [OF that]] .
  then show ?case using Suc.IH [of "nxt off ?e"] by (auto simp: Let_def same_blk_top)
qed

lemma in_block_smaller:
  assumes "in_block off m' n t a v" "hit_le (hit off m' n t a) (hit off m n t a)"
  shows "in_block off m n t a v"
proof -
  obtain b where b: "0 < b" "hit off m' n t a = Some b" "same_blk b n a v" using assms(1) by (auto simp: in_block_hit)
  then obtain c where "hit off m n t a = Some c" "b \<le> c" using assms(2) by (auto simp: hit_le_def)
  then show ?thesis using b same_blk_mono [OF b(3)] unfolding in_block_hit by (metis order_less_le_trans)
qed

lemma not_in_block:
  assumes "hit off m n t v = Some k \<or> hit off m n t v = None" "same_blk k n virt v" "\<not> same_blk k n virt a"
  shows "\<not> in_block off m n t a v"
proof
  assume "in_block off m n t a v"
  then obtain b where b: "hit off m n t a = Some b" "same_blk b n a v" by (auto simp: in_block_hit)
  then have "hit off m n t v = Some b" by (rule hit_same)
  then have "same_blk k n a v" using assms(1) b(2) by auto
  then show False using assms(2,3) same_blk_sym same_blk_trans by blast
qed

definition in_range :: "nat \<Rightarrow> u64 \<Rightarrow> u64 \<Rightarrow> u64 \<Rightarrow> bool" where
  "in_range n virt sz v \<longleftrightarrow> vo n virt \<le> vo n v \<and> vo n v < vo n virt + unat sz"

definition target :: "nat \<Rightarrow> u64 \<Rightarrow> u64 \<Rightarrow> u64 \<Rightarrow> u64 \<Rightarrow> (u64 \<times> u64) option" where
  "target n phys virt flags v = (if bit flags 0 then Some (phys + of_nat (vo n v - vo n virt), flags) else None)"

text \<open>
  What a creation does to the translations: the range is mapped, all others are kept but for the truncated
  addresses of the huge pages that a page of the range was in.
\<close>

definition kept :: "u64 \<Rightarrow> nat \<Rightarrow> u64 \<Rightarrow> (u64 \<Rightarrow> bool) \<Rightarrow> pt_state \<Rightarrow> pt_state \<Rightarrow> u64 \<Rightarrow> bool" where
  "kept off n t R st st' v \<longleftrightarrow> translate off (pt_mem st') n t v = translate off (pt_mem st) n t v \<or>
     (\<exists>w. R w \<and> in_block off (pt_mem st) n t w v) \<and> translate off (pt_mem st') n t v = map_option tr32 (translate off (pt_mem st) n t v)"

definition mapped :: "u64 \<Rightarrow> nat \<Rightarrow> u64 \<Rightarrow> u64 \<Rightarrow> u64 \<Rightarrow> u64 \<Rightarrow> u64 \<Rightarrow> pt_state \<Rightarrow> pt_state \<Rightarrow> int \<Rightarrow> bool" where
  "mapped off n t phys sz virt flags st st' err \<longleftrightarrow> moves off n t st st' \<and> err \<in> {0, - ENOMEM} \<and>
     (\<forall>v. in_range n virt sz v \<and> translate off (pt_mem st') n t v = target n phys virt flags v \<or>
        (err = 0 \<longrightarrow> \<not> in_range n virt sz v) \<and> kept off n t (in_range n virt sz) st st' v)"

lemma kept_after:
  assumes "kept off n t Q st1 st' v" "translate off (pt_mem st1) n t v = translate off (pt_mem st) n t v \<or>
      in_block off (pt_mem st) n t virt v \<and> translate off (pt_mem st1) n t v = map_option tr32 (translate off (pt_mem st) n t v)"
    "R virt" "\<And>w. Q w \<Longrightarrow> R w" "\<And>w. Q w \<Longrightarrow> in_block off (pt_mem st1) n t w v \<Longrightarrow> in_block off (pt_mem st) n t w v"
  shows "kept off n t R st st' v"
  using assms tr32_tr32 unfolding kept_def by metis

lemma range_step:
  assumes "psize \<le> sz" "vo n virt + unat sz \<le> 2 ^ pshift (Suc n)" "n \<le> 3"
  shows "in_range n (virt + psize) (sz - psize) w \<longleftrightarrow> vo n virt + unat psize \<le> vo n w \<and> vo n w < vo n virt + unat sz"
    "in_range n (virt + psize) (sz - psize) w \<Longrightarrow> target n (phys + psize) (virt + psize) flags w = target n phys virt flags w"
proof -
  have le: "unat psize \<le> unat sz" "unat (sz - psize) = unat sz - unat psize" using assms(1) by (simp_all add: word_le_nat_alt unat_sub)
  have vs: "vo n (virt + psize) = vo n virt + unat psize" if "sz - psize \<noteq> 0"
  proof -
    have "0 < unat (sz - psize)" using that by (simp add: unat_gt_0)
    then show ?thesis using assms(2) le by (intro vo_shift [OF _ assms(3)]) linarith
  qed
  show r: "in_range n (virt + psize) (sz - psize) w \<longleftrightarrow> vo n virt + unat psize \<le> vo n w \<and> vo n w < vo n virt + unat sz"
  proof (cases "sz - psize = 0")
    case True
    then have "unat sz = unat psize" using le by simp
    then show ?thesis by (auto simp: in_range_def True)
  next
    case False
    then show ?thesis using le vs [OF False] by (auto simp: in_range_def)
  qed
  assume i: "in_range n (virt + psize) (sz - psize) w"
  then have "sz - psize \<noteq> 0" by (auto simp: in_range_def)
  then have "vo n w - vo n virt = unat psize + (vo n w - vo n (virt + psize))" using vs i r by simp
  then have "(of_nat (vo n w - vo n virt) :: u64) = psize + of_nat (vo n w - vo n (virt + psize))" by simp
  then show "target n (phys + psize) (virt + psize) flags w = target n phys virt flags w" by (simp only: target_def) (simp add: add.assoc)
qed

lemma new_entry_target:
  assumes "same_blk k n virt v" "take_bit (pshift k) virt = 0" "k \<le> n"
  shows "new_entry k phys flags v = target n phys virt flags v"
proof -
  have r: "vo n virt \<le> vo n v" "vo n v < vo n virt + 2 ^ pshift k" using assms same_blk_range [of k virt n v] by simp_all
  have d: "(2 :: nat) ^ pshift k dvd 2 ^ pshift (Suc n)" using assms(3) by (intro le_imp_power_dvd) simp
  have m: "vo n w mod 2 ^ pshift k = unat w mod 2 ^ pshift k" for w by (simp only: vo_def mod_mod_cancel [OF d])
  have z: "vo n virt mod 2 ^ pshift k = 0" unfolding m using assms(2) take_bit_0_mod by blast
  then obtain q where q: "vo n virt = 2 ^ pshift k * q" by (metis mod_0_imp_dvd dvdE)
  have l: "vo n v - vo n virt < 2 ^ pshift k" using r by linarith
  have "vo n v = (vo n v - vo n virt) + 2 ^ pshift k * q" using r(1) q by linarith
  then have "vo n v mod 2 ^ pshift k = (vo n v - vo n virt) mod 2 ^ pshift k" by (metis mod_mult_self2)
  then have e: "vo n v mod 2 ^ pshift k = vo n v - vo n virt" using l by (simp only: mod_less)
  have "unat (take_bit (pshift k) v) = take_bit (pshift k) (unat v)" by (simp add: unsigned_take_bit_eq)
  also have "\<dots> = vo n v - vo n virt" unfolding take_bit_eq_mod m [symmetric] by (rule e)
  finally have "take_bit (pshift k) v = of_nat (vo n v - vo n virt)" by (metis of_nat_unat ucast_id)
  then show ?thesis by (simp only: new_entry_def target_def)
qed

lemma mapped_step:
  assumes k: "k \<le> n" "k < 3" "psize = lvl_step k" "psize \<le> sz" "take_bit (pshift k) virt = 0"
      "\<And>v. if same_blk k n virt v then hit off (pt_mem st1) n t v = (if bit flags 0 then Some k else None)
             else hit_le (hit off (pt_mem st1) n t v) (hit off (pt_mem st) n t v)"
      "\<And>v. same_blk k n virt v \<Longrightarrow> translate off (pt_mem st1) n t v = new_entry k phys flags v"
      "\<And>v. \<not> same_blk k n virt v \<Longrightarrow> translate off (pt_mem st1) n t v = translate off (pt_mem st) n t v \<or>
        in_block off (pt_mem st) n t virt v \<and> translate off (pt_mem st1) n t v = map_option tr32 (translate off (pt_mem st) n t v)"
    and m: "mapped off n t (phys + psize) (sz - psize) (virt + psize) flags st1 st' err"
    and ok: "st_ok off st" "n \<le> 3" "vo n virt + unat sz \<le> 2 ^ pshift (Suc n)" "moves off n t st st1"
  shows "mapped off n t phys sz virt flags st st' err"
proof -
  let ?Q = "in_range n (virt + psize) (sz - psize)" and ?R = "in_range n virt sz"
  note rs = range_step [OF k(4) ok(3,2)]
  have u: "unat psize = 2 ^ pshift k" using unat_lvl_step [OF k(2)] k(3) by simp
  have le: "unat psize \<le> unat sz" using k(4) by (simp add: word_le_nat_alt)
  have blk: "same_blk k n virt v \<longleftrightarrow> vo n virt \<le> vo n v \<and> vo n v < vo n virt + unat psize" for v
    using same_blk_range [OF k(5), of n v] k(1) u by simp
  have R: "?R v \<longleftrightarrow> same_blk k n virt v \<or> ?Q v" "\<not> (same_blk k n virt v \<and> ?Q v)" for v
    using le rs(1) [of v] blk [of v] in_range_def [of n virt sz v] by linarith+
  have Rv: "?R virt" using R(1) by (simp add: same_blk_def)
  have "?R v \<and> translate off (pt_mem st') n t v = target n phys virt flags v \<or>
      (err = 0 \<longrightarrow> \<not> ?R v) \<and> kept off n t ?R st st' v" for v
  proof -
    have v: "?Q v \<and> translate off (pt_mem st') n t v = target n (phys + psize) (virt + psize) flags v \<or>
        (err = 0 \<longrightarrow> \<not> ?Q v) \<and> kept off n t ?Q st1 st' v" using m by (simp add: mapped_def)
    show ?thesis
    proof (cases "same_blk k n virt v")
      case True
      then have kp: "kept off n t ?Q st1 st' v" using v R(2) by blast
      have "\<not> in_block off (pt_mem st1) n t w v" if "?Q w" for w
        using not_in_block [OF _ True, of off "pt_mem st1" t w] k(6) [of v] True that R(2) by (auto split: if_splits)
      then have "translate off (pt_mem st') n t v = translate off (pt_mem st1) n t v" using kp by (auto simp: kept_def)
      then show ?thesis using k(7) [OF True] True R(1) new_entry_target [OF True k(5,1)] by simp
    next
      case False
      note a = k(8) [OF False]
      have b: "in_block off (pt_mem st) n t w v" if "?Q w" "in_block off (pt_mem st1) n t w v" for w
        using in_block_smaller [OF that(2)] k(6) [of w] R(2) [of w] that(1) by simp
      have "kept off n t ?R st st' v" if "kept off n t ?Q st1 st' v"
        using kept_after [OF that a, where R = ?R] Rv b R(1) by blast
      then show ?thesis using v rs(2) R(1) [of v] False by auto
    qed
  qed
  moreover have "moves off n t st st'" using m moves_trans [OF ok(1,4)] unfolding mapped_def by blast
  ultimately show ?thesis using m by (simp add: mapped_def)
qed

lemma advance:
  assumes "k < 3" "psize = lvl_step k" "psize \<le> sz" "4096 dvd unat sz" "vo n virt + unat sz \<le> 2 ^ pshift (Suc n)" "n \<le> 3"
  shows "unat (sz - psize) < unat sz" "4096 dvd unat (sz - psize)" "vo n (virt + psize) + unat (sz - psize) \<le> 2 ^ pshift (Suc n)"
    "take_bit 12 w = 0 \<Longrightarrow> take_bit 12 (w + psize) = 0" "unat psize \<le> unat sz" "unat (sz - psize) = unat sz - unat psize"
    "sz - psize \<noteq> 0 \<Longrightarrow> vo n (virt + psize) = vo n virt + unat psize"
proof -
  show le: "unat psize \<le> unat sz" "unat (sz - psize) = unat sz - unat psize" using assms(3) by (simp_all add: word_le_nat_alt unat_sub)
  have ps: "4096 dvd unat psize" "4096 \<le> unat psize" using lvl_step_page [of k] assms(1,2) by simp_all
  show "unat (sz - psize) < unat sz" using le ps(2) by linarith
  show "4096 dvd unat (sz - psize)" using assms(4) ps(1) unfolding le(2) by (rule dvd_diff_nat)
  show "take_bit 12 (w + psize) = 0" if "take_bit 12 w = 0"
  proof -
    have "take_bit 12 psize = 0" using ps(1) by (simp add: aligned_nat)
    then have "take_bit 12 (0 - psize) = 0" using aligned_diff [of 0 psize] by simp
    then show ?thesis using aligned_diff [OF that, of "0 - psize"] by simp
  qed
  show v: "vo n (virt + psize) = vo n virt + unat psize" if "sz - psize \<noteq> 0"
  proof -
    have "0 < unat (sz - psize)" using that by (simp add: unat_gt_0)
    then show ?thesis using assms(5) le by (intro vo_shift [OF _ assms(6)]) linarith
  qed
  show "vo n (virt + psize) + unat (sz - psize) \<le> 2 ^ pshift (Suc n)"
    using vo_less [of n "virt + psize"] v assms(5) le by (cases "sz - psize = 0") simp_all
qed

lemma create_loop_ok:
  assumes "n \<le> 3" "\<forall>k<n. split_spec create off k" "root_paging pgs = levels n" "root_table pgs = t" "flags_ok flags"
    and "st_ok off st" "pt_ok off st n t" "4096 dvd unat sz" "take_bit 12 phys = 0" "take_bit 12 virt = 0"
      "unat phys + unat sz \<le> 2 ^ 48" "vo n virt + unat sz \<le> 2 ^ pshift (Suc n)"
  shows "\<exists>st' err. create_loop create off pgs phys sz virt flags st = Some (st', err) \<and> mapped off n t phys sz virt flags st st' err"
  using assms(6-12)
proof (induction "unat sz" arbitrary: phys virt sz st rule: less_induct)
  case less
  show ?case
  proof (cases "sz = 0")
    case True
    then have "mapped off n t phys sz virt flags st st 0"
      using moves_refl [OF less.prems(1,2)] by (simp add: mapped_def in_range_def kept_def)
    then show ?thesis using True by (subst create_loop.simps) auto
  next
    case False
    then have pos: "0 < sz" by (simp add: word_gt_0)
    have pg: "4096 \<le> sz" by (rule page_multiple [OF less.prems(3) pos])
    have u0: "0 < unat sz" using pos by (simp add: word_less_nat_alt)
    then have ph: "unat phys < 2 ^ 48" using less.prems(6) by linarith
    obtain st1 r where r: "create_walk create off phys sz virt flags (levels n) t st = Some (st1, r)" "created off n t phys sz virt flags st st1 r"
      using create_walk_ok [OF assms(1,2) less.prems(1,2) assms(5) pg less.prems(4,5) ph] by blast
    have mv: "moves off n t st st1" using r(2) by (simp add: created_def)
    show ?thesis
    proof (cases r)
      case (Inl err)
      have e: "err = - ENOMEM" "\<And>v. translate off (pt_mem st1) n t v = translate off (pt_mem st) n t v \<or>
          in_block off (pt_mem st) n t virt v \<and> translate off (pt_mem st1) n t v = map_option tr32 (translate off (pt_mem st) n t v)"
        using r(2) by (simp_all add: created_def Inl)
      have "in_range n virt sz virt" using u0 by (simp add: in_range_def)
      then have "kept off n t (in_range n virt sz) st st1 v" for v using e(2) [of v] by (auto simp: kept_def)
      then have "mapped off n t phys sz virt flags st st1 err" using mv e(1) by (simp add: mapped_def ENOMEM_def)
      then show ?thesis using pos r(1) by (subst create_loop.simps) (simp add: assms(3,4) Inl)
    next
      case (Inr psize)
      obtain k where k: "k \<le> n" "k < 3" "psize = lvl_step k" "psize \<le> sz" "take_bit (pshift k) virt = 0"
        "\<And>v. if same_blk k n virt v then hit off (pt_mem st1) n t v = (if bit flags 0 then Some k else None)
             else hit_le (hit off (pt_mem st1) n t v) (hit off (pt_mem st) n t v)"
        "\<And>v. translate off (pt_mem st1) n t v =
             (if same_blk k n virt v then new_entry k phys flags v
              else if in_block off (pt_mem st) n t virt v then map_option tr32 (translate off (pt_mem st) n t v)
              else translate off (pt_mem st) n t v)"
        using r(2) unfolding created_def Inr by auto
      let ?st = "arch_paging_flush_page_tlbs pgs virt st1"
      note ad = advance [OF k(2-4) less.prems(3,7) assms(1)]
      have up: "unat (phys + psize) = unat phys + unat psize" using less.prems(6) ad(5) by (simp add: unat_plus_if_size word_size)
      have ok1: "st_ok off ?st" "pt_ok off ?st n t" using moves_okD [OF mv] by simp_all
      have pr: "unat (phys + psize) + unat (sz - psize) \<le> 2 ^ 48" using less.prems(6) ad(5,6) up by linarith
      obtain st' err where st': "create_loop create off pgs (phys + psize) (sz - psize) (virt + psize) flags ?st = Some (st', err)"
        "mapped off n t (phys + psize) (sz - psize) (virt + psize) flags ?st st' err"
        using less.hyps [OF ad(1) ok1 ad(2) ad(4) [OF less.prems(4)] ad(4) [OF less.prems(5)] pr ad(3)] by blast
      have "mapped off n t (phys + psize) (sz - psize) (virt + psize) flags st1 st' err" using st'(2) by (simp add: mapped_def kept_def)
      then have "mapped off n t phys sz virt flags st st' err"
        using k(7) by (intro mapped_step [OF k(1-6) _ _ _ less.prems(1) assms(1) less.prems(7) mv]) auto
      then show ?thesis using pos r(1) st'(1) by (subst create_loop.simps) (simp add: assms(3,4) Inr)
    qed
  qed
qed

text \<open>A creation in pages of its first level needs no tables.\<close>

lemma aligned_add:
  assumes "unat (a :: u64) mod 2 ^ s = 0" "unat (b :: u64) mod 2 ^ s = 0" "s \<le> 64"
  shows "unat (a + b) mod 2 ^ s = 0"
proof -
  have d: "(2 :: nat) ^ s dvd 2 ^ 64" using assms(3) by (rule le_imp_power_dvd)
  have "unat (a + b) = (unat a + unat b) mod 2 ^ LENGTH(64)" by (simp add: unat_word_ariths)
  then have "unat (a + b) mod 2 ^ s = (unat a + unat b) mod 2 ^ s" using mod_mod_cancel [OF d, of "unat a + unat b"] by simp
  then show ?thesis using assms(1,2) by (simp add: mod_add_eq [symmetric])
qed

lemma create_walk_terminal:
  assumes "create_walk create off phys sz virt flags (levels n) t st = Some (st', r)" "n < 3" "lvl_size n \<le> sz"
    "take_bit (pshift n) phys = 0" "take_bit (pshift n) virt = 0"
  shows "r = Inr (lvl_size n)"
proof (cases n)
  case 0
  then have "r = Inr 4096" using create_walk_0 [of sz phys virt create off flags t st] assms by (simp add: lvl_size_facts(6))
  then show ?thesis by (simp add: 0 lvl_size_facts(6))
next
  case (Suc k)
  then show ?thesis using assms create_walk_Suc [of k create off phys sz virt flags t st] by (auto simp: bind_eq_Some_conv simp del: fun_upd_apply)
qed

lemma create_loop_terminal:
  assumes "create_loop create off pgs phys sz virt flags st = Some (st', err)" "root_paging pgs = levels n" "n < 3"
    "unat phys mod 2 ^ pshift n = 0" "unat virt mod 2 ^ pshift n = 0" "unat sz mod 2 ^ pshift n = 0"
  shows "err = 0"
  using assms(1,4-6)
proof (induction "unat sz" arbitrary: phys virt sz st rule: less_induct)
  case less
  show ?case
  proof (cases "sz = 0")
    case True
    then show ?thesis using less.prems(1) by (subst (asm) create_loop.simps) simp
  next
    case False
    then have pos: "0 < sz" "0 < unat sz" by (simp_all add: word_gt_0 unat_gt_0)
    have u: "unat (lvl_size n) = 2 ^ pshift n" using unat_lvl_step [OF assms(3)] assms(3) by (simp only: lvl_step_size)
    have le: "2 ^ pshift n \<le> unat sz" using pos(2) less.prems(4) by (metis mod_0_imp_dvd dvd_imp_le)
    then have ls: "lvl_size n \<le> sz" using u by (simp only: word_le_nat_alt)
    let ?w = "create_walk create off phys sz virt flags (levels n) (root_table pgs) st"
    obtain st1 r where w: "?w = Some (st1, r)"
      using less.prems(1) pos(1) by (subst (asm) create_loop.simps) (auto simp: assms(2) split: option.splits)
    have r: "r = Inr (lvl_size n)" using less.prems(2,3) by (intro create_walk_terminal [OF w assms(3) ls]) (simp_all only: take_bit_0_mod)
    have l: "create_loop create off pgs (phys + lvl_size n) (sz - lvl_size n) (virt + lvl_size n) flags (arch_paging_flush_page_tlbs pgs virt st1) = Some (st', err)"
      using less.prems(1) pos(1) by (subst (asm) create_loop.simps) (simp add: assms(2) w r)
    have us: "unat (sz - lvl_size n) = unat sz - 2 ^ pshift n" using ls u by (simp only: unat_sub)
    have lt: "unat (sz - lvl_size n) < unat sz" using us pos(2) by simp
    have s64: "pshift n \<le> 64" using assms(3) by simp
    have z: "unat (lvl_size n) mod 2 ^ pshift n = 0" by (simp only: u mod_self)
    have "unat (sz - lvl_size n) mod 2 ^ pshift n = 0" unfolding us using less.prems(4) le by (simp add: mod_0_imp_dvd dvd_diff_nat)
    then show ?thesis by (rule less.hyps [OF lt l aligned_add [OF less.prems(2) z s64] aligned_add [OF less.prems(3) z s64]])
  qed
qed

lemma PAGE_MASK_aligned: "take_bit 12 p = 0 \<Longrightarrow> and p PAGE_MASK = p"
  using page_base [of p] by simp

lemma PAGE_ALIGN_aligned:
  assumes "4096 dvd unat sz"
  shows "PAGE_ALIGN sz = sz"
proof -
  have a: "take_bit 12 sz = 0" using assms by (simp add: aligned_nat)
  have m: "PAGE_MASK = not (mask 12)" by (metis not_PAGE_MASK bit.double_compl)
  have "and sz (mask 12) = 0" using a by (simp add: take_bit_eq_mask and.commute)
  then have "sz + mask 12 = or sz (mask 12)" by (simp add: disjunctive_add_eq_or)
  moreover have "sz + of_nat PAGE_SIZE - 1 = sz + mask 12" by (simp add: PAGE_SIZE_def mask_eq_exp_minus_1)
  ultimately have "PAGE_ALIGN sz = and sz PAGE_MASK" unfolding PAGE_ALIGN_def m by (simp add: bit.conj_disj_distrib2)
  then show ?thesis using PAGE_MASK_aligned [OF a] by simp
qed

text \<open>The creation of a level, which the split of the level above calls.\<close>

definition create_spec :: "creator \<Rightarrow> u64 \<Rightarrow> nat \<Rightarrow> bool" where
  "create_spec create off n \<longleftrightarrow>
     (\<forall>pgs phys sz virt flags st. root_paging pgs = levels n \<longrightarrow> flags_ok flags \<longrightarrow> st_ok off st \<longrightarrow> pt_ok off st n (root_table pgs) \<longrightarrow>
        4096 dvd unat sz \<longrightarrow> take_bit 12 phys = 0 \<longrightarrow> take_bit 12 virt = 0 \<longrightarrow>
        unat phys + unat sz \<le> 2 ^ 48 \<longrightarrow> vo n virt + unat sz \<le> 2 ^ pshift (Suc n) \<longrightarrow>
        (\<exists>st' err. create pgs phys sz virt flags st = Some (st', err) \<and> mapped off n (root_table pgs) phys sz virt flags st st' err \<and>
           (n < 3 \<longrightarrow> unat phys mod 2 ^ pshift n = 0 \<longrightarrow> unat virt mod 2 ^ pshift n = 0 \<longrightarrow> unat sz mod 2 ^ pshift n = 0 \<longrightarrow> err = 0)))"

lemma page_mask:
  assumes "s < 32" "s = pshift (Suc n)"
  shows "and w (ucast (not ((2 :: u32) ^ s - 1))) = take_bit 32 (and (w :: u64) (not (mask s)))"
proof -
  have "(2 :: u32) ^ s - 1 = mask s" by (simp add: mask_eq_exp_minus_1)
  then show ?thesis using assms(1) by (intro bit_word_eqI) (auto simp: bit_simps)
qed

lemma block_split:
  assumes "n < 2"
  defines "s \<equiv> pshift (Suc n)"
  shows "and (or (page_frame (Suc n) e) (take_bit s v)) (not (mask s)) = page_frame (Suc n) e"
    "take_bit 32 (page_frame (Suc n) e + take_bit s v) = take_bit 32 (page_frame (Suc n) e) + take_bit s v"
proof -
  have s: "s < 32" "s \<le> 47" using assms by simp_all
  have fb: "bit (page_frame (Suc n) e) i \<Longrightarrow> s \<le> i" for i using s(2) by (auto simp: page_frame_def bit_and_iff bit_BIT_MASK s_def)
  show "and (or (page_frame (Suc n) e) (take_bit s v)) (not (mask s)) = page_frame (Suc n) e"
    using fb by (intro bit_word_eqI) (force simp: bit_simps)
  have d: "and (page_frame (Suc n) e) (take_bit s v) = 0" "and (take_bit 32 (page_frame (Suc n) e)) (take_bit s v) = 0"
    using fb by (intro bit_word_eqI; fastforce simp: bit_simps)+
  have "take_bit 32 (take_bit s v) = take_bit s v" using s(1) by simp
  then show "take_bit 32 (page_frame (Suc n) e + take_bit s v) = take_bit 32 (page_frame (Suc n) e) + take_bit s v"
    by (simp only: disjunctive_add_eq_or d take_bit_or)
qed

lemma block_flags:
  assumes "bit e 0" "\<not> tbl e"
  shows "flags_ok (and e 0xfff)" "bit (and e 0xfff) 0" "and e 0xfff = and e 0xffd"
proof -
  have m: "(0xfff :: u64) = mask 12" by (simp add: mask_eq_exp_minus_1)
  have b: "bit (and e 0xfff) i \<longleftrightarrow> bit e i \<and> i < 12" for i unfolding m by (auto simp: bit_simps)
  have "unat (take_bit 12 e) < 2 ^ 12" by (simp only: unsigned_take_bit_eq take_bit_nat_less_exp)
  then have "unat (and e 0xfff) < 4096" unfolding m by (simp add: take_bit_eq_mask)
  moreover have "\<not> bit e 1" using assms by (simp add: tbl_def)
  ultimately show "flags_ok (and e 0xfff)" using b [of 1] by (simp add: flags_ok_def)
  show "bit (and e 0xfff) 0" using b [of 0] assms(1) by simp
  show "and e 0xfff = and e 0xffd" 
  proof (rule bit_word_eqI)
    fix i
    show "bit (and e 0xfff) i \<longleftrightarrow> bit (and e 0xffd) i"
      unfolding b bit_and_iff [of e "0xffd"] attr_mask using assms by (cases "i = 1") (auto simp: tbl_def simp del: One_nat_def)
  qed
qed

lemma split_hugepage_block:
  assumes "n < 2" "bit (pt_mem st p) 0" "\<not> tbl (pt_mem st p)"
  shows "split_hugepage create off (lvl (Suc n)) (levels n) p virt st = alloc_table st \<bind> (\<lambda>(st1, x).
    if x = 0 then Some (st1, - ENOMEM)
    else create \<lparr>root_paging = levels n, root_table = x, is_hv_structs = False\<rparr> (take_bit 32 (page_frame (Suc n) (pt_mem st p))) (2 ^ pshift (Suc n))
      (take_bit 32 (and virt (not (mask (pshift (Suc n)))))) (and (pt_mem st p) 0xfff) (st1\<lparr>pt_mem := (pt_mem st1)(p := table_entry off x)\<rparr>))"
proof -
  have n: "Suc n \<le> 3" "Suc n \<noteq> 3" "n < 3" and s: "pshift (Suc n) < 32" using assms(1) by simp_all
  have ps: "page_size (lvl (Suc n)) = 2 ^ pshift (Suc n)" using lvl_common(5) [OF n(1)] n(2) by (simp only: if_False)
  have uc: "ucast (page_size (lvl (Suc n))) = (2 ^ pshift (Suc n) :: u64)" using ucast_lvl_size [OF n(1)] n(2) by (simp only: lvl_size_def if_False)
  have ni: "get_phys (lvl (Suc n)) p virt (pt_mem st) \<noteq> INVALID_PHYS_ADDR" using phys_invalid [OF n(3)] assms(3) by blast
  have ph: "get_phys (lvl (Suc n)) p virt (pt_mem st) = or (page_frame (Suc n) (pt_mem st p)) (take_bit (pshift (Suc n)) virt)"
    using lvl_phys(1) [OF zero_less_Suc n(1)] assms(3) by (simp only: tbl_def if_False)
  have ln: "link_table off (lvl (Suc n)) p x st1 = Some (st1\<lparr>pt_mem := (pt_mem st1)(p := table_entry off x)\<rparr>)" for x st1
    by (simp add: link_table_def lvl_next [OF _ n(1)] table_entry_def)
  show ?thesis unfolding split_hugepage_def Let_def uc ln lvl_common(2) [OF n(1)] bind.bind_lunit
    using ni unfolding ph ps page_mask [OF s refl] block_split(1) [OF assms(1)] by (simp only: if_False)
qed

lemma split_from_create:
  assumes "n < 3" "create_spec create off n"
  shows "split_spec create off n"
proof (unfold split_spec_def, intro allI impI)
  fix st :: pt_state and t virt
  let ?i = "idx (Suc n) virt"
  let ?e = "pt_mem st (ent t ?i)"
  assume ok: "st_ok off st" "pt_ok off st (Suc n) t" and e: "bit ?e 0" "\<not> tbl ?e"
  have i5: "?i < 512" by (rule idx_less)
  have n2: "n < 2" using ok(2) e i5 by (auto simp: pt_ok_def not_le [symmetric])
  define s where "s = pshift (Suc n)"
  have s: "s < 32" "12 \<le> s" using n2 by (simp_all add: s_def)
  define phys where "phys = take_bit 32 (page_frame (Suc n) ?e)"
  define vb where "vb = take_bit 32 (and virt (not (mask s)))"
  note sp = split_hugepage_block [OF n2 e, of create off virt, folded s_def, folded phys_def vb_def]
  show "\<exists>st' err. split_hugepage create off (lvl (Suc n)) (levels n) (ent t ?i) virt st = Some (st', err) \<and>
      moves off (Suc n) t st st' \<and> err \<in> {0, - ENOMEM} \<and> (err = 0 \<longrightarrow> tbl (pt_mem st' (ent t ?i))) \<and>
      (\<forall>v. hit_le (hit off (pt_mem st') (Suc n) t v) (hit off (pt_mem st) (Suc n) t v)) \<and>
      (\<forall>v. translate off (pt_mem st') (Suc n) t v =
        (if err = 0 \<and> ?i = idx (Suc n) v then map_option tr32 (translate off (pt_mem st) (Suc n) t v)
         else translate off (pt_mem st) (Suc n) t v)) \<and>
      (err = 0 \<or> alloc_table st = Some (st, 0))"
    using ok(1)
  proof (cases rule: alloc_table_cases [where st = st])
    case full
    then show ?thesis using sp moves_refl [OF ok] by (simp add: ENOMEM_def del: twalk.simps)
  next
    case (found st1 x)
    let ?st2 = "put_entry st1 t ?i (table_entry off x)" and ?pgs = "\<lparr>root_paging = levels n, root_table = x, is_hv_structs = False\<rparr>"
    note ml = moves_link [OF ok i5 found(2-)] and te = table_entry [OF ok(1) found(2)]
    note ok2 = moves_okD [OF ml(1)]
    have x0: "x \<noteq> 0" using pages_st_ok(5) [OF ok(1) found(2)] .
    have tb: "tbl (pt_mem ?st2 (ent t ?i))" "nxt off (pt_mem ?st2 (ent t ?i)) = x" using te by simp_all
    have us: "unat (2 ^ s :: u64) = 2 ^ s" using unat_lvl_step [of "Suc n"] n2 by (simp add: lvl_step_def s_def)
    have fs: "take_bit s phys = 0" "unat phys < 2 ^ 32"
    proof -
      have "take_bit s (page_frame (Suc n) ?e) = 0"
        using n2 by (intro bit_word_eqI) (auto simp: bit_simps page_frame_def bit_BIT_MASK s_def)
      then show "take_bit s phys = 0" using s(1) by (simp add: phys_def min_def)
      show "unat phys < 2 ^ 32" unfolding phys_def by (simp only: unsigned_take_bit_eq take_bit_nat_less_exp)
    qed
    have vs: "take_bit s vb = 0" unfolding vb_def by (intro bit_word_eqI) (auto simp: bit_simps)
    have low: "unat w mod 2 ^ k = 0" if "take_bit s w = 0" "k \<le> s" for w :: u64 and k
    proof -
      have "take_bit k w = take_bit k (take_bit s w)" using that(2) by (simp add: min_def)
      then show ?thesis using that(1) take_bit_0_mod [of k w] by simp
    qed
    have v0: "vo n vb = 0" using low [OF vs, of s] by (simp only: vo_def s_def)
    have ps: "pshift n \<le> s" by (simp add: s_def)
    have dv: "(2 :: nat) ^ s mod 2 ^ pshift n = 0" using le_imp_power_dvd [OF ps, of "2 :: nat"] by (simp only: dvd_imp_mod_0)
    have dv12: "4096 dvd unat (2 ^ s :: u64)" unfolding us using le_imp_power_dvd [OF s(2), of "2 :: nat"] by simp
    have al: "take_bit 12 w = 0" if "take_bit s w = 0" for w :: u64 using low [OF that s(2)] aligned_nat [of w] by simp
    have lim: "unat phys + unat (2 ^ s :: u64) \<le> 2 ^ 48"
    proof -
      have "(2 :: nat) ^ s \<le> 2 ^ 32" using s(1) by (intro power_increasing) simp_all
      then show ?thesis using fs(2) unfolding us by simp
    qed
    have vl: "vo n vb + unat (2 ^ s :: u64) \<le> 2 ^ pshift (Suc n)" using v0 us by (simp only: s_def)
    obtain st' err where c: "create ?pgs phys (2 ^ s) vb (and ?e 0xfff) ?st2 = Some (st', err)" "mapped off n x phys (2 ^ s) vb (and ?e 0xfff) ?st2 st' err"
      "n < 3 \<longrightarrow> unat phys mod 2 ^ pshift n = 0 \<longrightarrow> unat vb mod 2 ^ pshift n = 0 \<longrightarrow> unat (2 ^ s :: u64) mod 2 ^ pshift n = 0 \<longrightarrow> err = 0"
      using assms(2) [unfolded create_spec_def, rule_format, of ?pgs "and ?e 0xfff" ?st2 "2 ^ s" phys vb]
        block_flags(1) [OF e] ok2(1) ml(3) dv12 al [OF fs(1)] al [OF vs] lim vl by auto
    have err: "err = 0" using c(3) assms(1) low [OF fs(1) ps] low [OF vs ps] dv us by metis
    have mv: "moves off n (nxt off (pt_mem ?st2 (ent t ?i))) ?st2 st'" using c(2) unfolding tb(2) by (simp only: mapped_def)
    note mc = moves_child [OF ok2 i5 tb(1) mv, unfolded tb(2)]
    have new: "translate off (pt_mem st') n x v = target n phys vb (and ?e 0xfff) v" for v
    proof -
      have "in_range n vb (2 ^ s) v" using vo_less [of n v] v0 us by (simp only: in_range_def s_def) simp
      then show ?thesis using c(2) err unfolding mapped_def by blast
    qed
    have "translate off (pt_mem st') (Suc n) t v = map_option tr32 (translate off (pt_mem st) (Suc n) t v)" if iv: "idx (Suc n) v = ?i" for v
    proof -
      have "unat (take_bit s v) = take_bit s (unat v)" by (simp add: unsigned_take_bit_eq)
      then have "unat (take_bit s v) = vo n v" by (simp only: take_bit_eq_mod vo_def s_def)
      then have "take_bit s v = of_nat (vo n v)" by (metis of_nat_unat ucast_id)
      then have "target n phys vb (and ?e 0xfff) v = Some (phys + take_bit s v, and ?e 0xffd)"
        using block_flags(2,3) [OF e] v0 by (simp add: target_def)
      moreover have "translate off (pt_mem st) (Suc n) t v = Some (page_frame (Suc n) ?e + take_bit s v, and ?e 0xffd)"
        using e iv by (simp add: Let_def leaf_def s_def)
      ultimately show ?thesis using mc(3) [of leaf v] iv new [of v] block_split(2) [OF n2, of ?e v]
        by (simp add: tr32_def phys_def s_def del: twalk.simps)
    qed
    moreover have "translate off (pt_mem st') (Suc n) t v = translate off (pt_mem st) (Suc n) t v" if "idx (Suc n) v \<noteq> ?i" for v
      using mc(3) [of leaf v] ml(4) [of leaf v] that by (simp del: twalk.simps fun_upd_apply)
    moreover have "hit_le (hit off (pt_mem st') (Suc n) t v) (hit off (pt_mem st) (Suc n) t v)" for v
    proof (cases "idx (Suc n) v = ?i")
      case True
      have "hit off (pt_mem st) (Suc n) t v = Some (Suc n)" using e True by (simp add: Let_def)
      moreover have "hit off (pt_mem st') (Suc n) t v = hit off (pt_mem st') n x v" using mc(3) [of "\<lambda>k e v. k" v] True by simp
      ultimately show ?thesis using hit_level [of off "pt_mem st'" n x v] by (auto simp: hit_le_def simp del: twalk.simps intro: le_SucI)
    next
      case False
      then show ?thesis using mc(3) [of "\<lambda>k e v. k" v] ml(4) [of "\<lambda>k e v. k" v] by (simp del: twalk.simps fun_upd_apply)
    qed
    moreover have "moves off (Suc n) t st st'" using moves_trans [OF ok(1) ml(1) mc(1)] .
    moreover have "tbl (pt_mem st' (ent t ?i))" using mc(2) [OF i5] tb(1) by simp
    moreover have "split_hugepage create off (lvl (Suc n)) (levels n) (ent t ?i) virt st = Some (st', 0)"
      using sp found(1) x0 c(1) err by simp
    ultimately show ?thesis by (intro exI [of _ st'] exI [of _ 0]) (auto simp del: twalk.simps)
  qed
qed

lemma create_levels_ok: "n < N \<Longrightarrow> n \<le> 3 \<Longrightarrow> create_spec (create_levels N off) off n"
proof (induction N arbitrary: n)
  case (Suc N)
  have sp: "\<forall>k<n. split_spec (create_levels N off) off k" using Suc by (auto intro!: split_from_create)
  show ?case
  proof (unfold create_spec_def, intro allI impI)
    fix pgs :: paging_structures and phys sz virt flags :: u64 and st :: pt_state
    assume a: "root_paging pgs = levels n" "flags_ok flags" "st_ok off st" "pt_ok off st n (root_table pgs)"
      "4096 dvd unat sz" "take_bit 12 phys = 0" "take_bit 12 virt = 0"
      "unat phys + unat sz \<le> 2 ^ 48" "vo n virt + unat sz \<le> 2 ^ pshift (Suc n)"
    have c: "create_levels (Suc N) off pgs phys sz virt flags st = create_loop (create_levels N off) off pgs phys sz virt flags st"
      using a by (simp add: PAGE_MASK_aligned PAGE_ALIGN_aligned)
    obtain st' err where r: "create_loop (create_levels N off) off pgs phys sz virt flags st = Some (st', err)"
      "mapped off n (root_table pgs) phys sz virt flags st st' err"
      using create_loop_ok [OF Suc.prems(2) sp a(1) refl a(2-)] by blast
    have "n < 3 \<longrightarrow> unat phys mod 2 ^ pshift n = 0 \<longrightarrow> unat virt mod 2 ^ pshift n = 0 \<longrightarrow> unat sz mod 2 ^ pshift n = 0 \<longrightarrow> err = 0"
      by (intro impI create_loop_terminal [OF r(1) a(1)])
    with r show "\<exists>st' err. create_levels (Suc N) off pgs phys sz virt flags st = Some (st', err) \<and>
        mapped off n (root_table pgs) phys sz virt flags st st' err \<and>
        (n < 3 \<longrightarrow> unat phys mod 2 ^ pshift n = 0 \<longrightarrow> unat virt mod 2 ^ pshift n = 0 \<longrightarrow> unat sz mod 2 ^ pshift n = 0 \<longrightarrow> err = 0)"
      unfolding c by (intro exI conjI)
  qed
qed simp

end
