(* ===== verification/PageMap.thy ===== *)
theory PageMap
  imports PageCreation
begin

text \<open>
  The page tables of ARM: \<open>paging_create\<close>, \<open>paging_destroy\<close> and \<open>paging_virt2phys\<close> described by the
  translation of addresses, and an example.
\<close>

subsection \<open>Effect of a removal on a range\<close>

lemma take_bit_0_le: "take_bit a (v :: u64) = 0 \<Longrightarrow> b \<le> a \<Longrightarrow> take_bit b v = 0"
  using take_bit_take_bit [of b a v] by (simp add: min_def)

text \<open>An address at the start of its page.\<close>

definition page_start :: "u64 \<Rightarrow> ptmem \<Rightarrow> nat \<Rightarrow> u64 \<Rightarrow> u64 \<Rightarrow> bool" where
  "page_start off m n t v \<longleftrightarrow> (case hit off m n t v of None \<Rightarrow> True | Some b \<Rightarrow> take_bit (pshift b) v = 0)"

lemma same_blk_pred:
  assumes "take_bit (pshift b) w \<noteq> 0" "b \<le> Suc n" "vo n u + 1 = vo n w"
  shows "same_blk b n w u"
proof -
  have d: "(2 :: nat) ^ pshift b dvd 2 ^ pshift (Suc n)" using assms(2) by (intro le_imp_power_dvd) simp
  have "vo n w mod 2 ^ pshift b \<noteq> 0" using assms(1) take_bit_0_mod [of "pshift b" w] by (simp only: vo_def mod_mod_cancel [OF d]) simp
  then have "Suc (vo n u) mod 2 ^ pshift b \<noteq> 0" using assms(3) by simp
  then have "Suc (vo n u) div 2 ^ pshift b = vo n u div 2 ^ pshift b" by (simp add: div_Suc del: power_add)
  then show ?thesis unfolding same_blk_vo using assms(3) by simp
qed

lemma page_start_after:
  assumes "translate off m n t u = None" "vo n u + 1 = vo n w"
  shows "page_start off m n t w"
proof (cases "hit off m n t w")
  case (Some b)
  have "take_bit (pshift b) w = 0"
  proof (rule ccontr)
    assume "take_bit (pshift b) w \<noteq> 0"
    then have "hit off m n t u = Some b" using same_blk_pred [of b w n u] hit_level [OF Some] assms(2) hit_same [OF Some] by simp
    then show False using assms(1) twalk_None [of leaf off m n t u] by simp
  qed
  then show ?thesis by (simp add: page_start_def Some)
qed (simp add: page_start_def)

lemma whole_hit: "(\<And>c. hit off m n t virt = Some c \<Longrightarrow> 0 < c \<Longrightarrow> lvl_size c \<le> sz) \<Longrightarrow> whole off m n t virt sz"
  by (induction n arbitrary: t) (auto simp: Let_def split: if_splits)

lemma hit_page: "pt_wf off m n t \<Longrightarrow> n \<le> 3 \<Longrightarrow> hit off m n t v = Some c \<Longrightarrow> c < 3"
proof (induction n arbitrary: t)
  case 0
  then show ?case by (auto simp: Let_def split: if_splits)
next
  case (Suc n)
  then show ?case using idx_less [of "Suc n" v] by (cases "tbl (m (ent t (idx (Suc n) v)))") (auto simp: Let_def split: if_splits)
qed

lemma in_block_mapped:
  assumes "in_block off m n t a v"
  shows "hit off m n t v \<noteq> None"
proof -
  obtain b where "hit off m n t a = Some b" "same_blk b n a v" using assms by (auto simp: in_block_hit)
  then have "hit off m n t v = Some b" by (rule hit_same)
  then show ?thesis by simp
qed

text \<open>A page that starts in the range and ends there.\<close>

lemma page_fits:
  assumes "hit off m n t virt = Some c" "c < 3" "take_bit (pshift c) virt = 0" "n \<le> 3" "0 < sz" "4096 dvd unat sz"
    "\<And>v. in_block off m n t virt v \<Longrightarrow> in_range n virt sz v"
  shows "lvl_size c \<le> sz"
proof (cases "c = 0")
  case True
  then show ?thesis using page_multiple [OF assms(6,5)] by (simp add: lvl_size_facts(6))
next
  case False
  let ?p = "2 ^ pshift c :: nat"
  have cn: "c \<le> n" by (rule hit_level [OF assms(1)])
  have d: "?p dvd 2 ^ pshift (Suc n)" using cn by (intro le_imp_power_dvd) simp
  have "unat virt mod ?p = 0" using assms(3) take_bit_0_mod by blast
  then have dv: "?p dvd vo n virt" by (simp only: vo_def mod_mod_cancel [OF d] dvd_eq_mod_eq_0)
  obtain a b where ab: "vo n virt = ?p * a" "2 ^ pshift (Suc n) = ?p * b" using dv d by (metis dvdE)
  then have "a < b" using vo_less [of n virt] by (metis mult_less_cancel1)
  then have "?p * Suc a \<le> ?p * b" by (intro mult_le_mono2) simp
  then have lim: "vo n virt + ?p \<le> 2 ^ pshift (Suc n)" unfolding ab by simp
  have u: "unat (lvl_step c) = ?p" "unat (lvl_step c - 1) = ?p - 1"
  proof -
    show "unat (lvl_step c) = ?p" by (rule unat_lvl_step [OF assms(2)])
    then have "1 \<le> lvl_step c" by (simp add: word_le_nat_alt)
    then show "unat (lvl_step c - 1) = ?p - 1" using unat_lvl_step [OF assms(2)] by (simp add: unat_sub)
  qed
  have p0: "0 < ?p" by simp
  have v: "vo n (virt + (lvl_step c - 1)) = vo n virt + (?p - 1)" using vo_shift [OF _ assms(4), of virt "lvl_step c - 1"] lim u(2) p0 by linarith
  then have "same_blk c n virt (virt + (lvl_step c - 1))" unfolding same_blk_range [OF assms(3) le_SucI [OF cn]] using p0 by linarith
  then have "in_range n virt sz (virt + (lvl_step c - 1))" using assms(1,7) False by (auto simp: in_block_hit)
  then have "?p \<le> unat sz" using v p0 unfolding in_range_def by linarith
  then show ?thesis using u(1) assms(2) by (simp only: lvl_step_size word_le_nat_alt)
qed

lemma destroy_loop_ok:
  assumes "n \<le> 3" "\<forall>k<n. split_spec create off k" "root_paging pgs = levels n" "root_table pgs = t"
    and "st_ok off st" "pt_ok off st n t" "4096 dvd unat sz" "vo n virt + unat sz \<le> 2 ^ pshift (Suc n)"
      "\<And>v. in_range n virt sz v \<Longrightarrow> translate off (pt_mem st) n t v \<noteq> None" "0 < sz \<Longrightarrow> page_start off (pt_mem st) n t virt"
  shows "\<exists>st' err. destroy_loop create off pgs virt sz st = Some (st', err) \<and> mapped off n t phys sz virt 0 st st' err \<and>
    ((\<forall>w v. in_range n virt sz w \<longrightarrow> in_block off (pt_mem st) n t w v \<longrightarrow> in_range n virt sz v) \<longrightarrow> err = 0)"
  using assms(5-10)
proof (induction "unat sz" arbitrary: phys virt sz st rule: less_induct)
  case less
  show ?case
  proof (cases "sz = 0")
    case True
    then have "mapped off n t phys sz virt 0 st st 0"
      using moves_refl [OF less.prems(1,2)] by (simp add: mapped_def in_range_def kept_def)
    then show ?thesis using True by (subst destroy_loop.simps) simp
  next
    case False
    then have pos: "0 < sz" "0 < unat sz" by (simp_all add: word_gt_0 unat_gt_0)
    have pg: "4096 \<le> sz" by (rule page_multiple [OF less.prems(3) pos(1)])
    obtain st1 r where r: "tree_destroy create off virt sz n t st = Some (st1, r)" "destroyed off n t virt sz st st1 r"
      using tree_destroy_ok [OF less.prems(1,2) assms(1) pg] assms(2) by blast
    note step = destroy_loop_step [OF assms(1) pg assms(3,4) r(1)]
    have mv: "moves off n t st st1" and hl: "\<And>v. hit_le (hit off (pt_mem st1) n t v) (hit off (pt_mem st) n t v)"
      using r(2) by (simp_all add: destroyed_def)
    have Rv: "in_range n virt sz virt" using pos(2) by (simp add: in_range_def)
    obtain c where c: "hit off (pt_mem st) n t virt = Some c"
      using less.prems(5) [OF Rv] twalk_None [of leaf off "pt_mem st" n t virt] by auto
    have al: "take_bit (pshift c) virt = 0" using less.prems(6) [OF pos(1)] c by (simp add: page_start_def)
    show ?thesis
    proof (cases r)
      case (Inl err)
      have e: "err = - ENOMEM" "\<And>v. translate off (pt_mem st1) n t v = translate off (pt_mem st) n t v \<or>
          in_block off (pt_mem st) n t virt v \<and> translate off (pt_mem st1) n t v = map_option tr32 (translate off (pt_mem st) n t v)"
        using r(2) by (simp_all add: destroyed_def Inl)
      then have "kept off n t (in_range n virt sz) st st1 v" for v using Rv e(2) [of v] by (auto simp: kept_def)
      then have "mapped off n t phys sz virt 0 st st1 err" using mv e(1) by (simp add: mapped_def ENOMEM_def)
      moreover have "\<not> (\<forall>w v. in_range n virt sz w \<longrightarrow> in_block off (pt_mem st) n t w v \<longrightarrow> in_range n virt sz v)"
      proof
        assume "\<forall>w v. in_range n virt sz w \<longrightarrow> in_block off (pt_mem st) n t w v \<longrightarrow> in_range n virt sz v"
        then have "lvl_size c \<le> sz"
          using page_fits [OF c hit_page [OF _ assms(1) c] _ assms(1) pos(1) less.prems(3)] less.prems(2) al Rv by (auto simp: pt_ok_def)
        then have "whole off (pt_mem st) n t virt sz" using c by (intro whole_hit) simp
        then show False using r(2) by (simp add: destroyed_def Inl)
      qed
      ultimately show ?thesis using step by (auto simp: Inl)
    next
      case (Inr kb)
      obtain k b where kb: "r = Inr (k, b)" using Inr by (cases kb) simp
      have k: "k \<le> n" "k < 3" "lvl_step k \<le> sz" "k \<le> c"
        and tr: "\<And>v. translate off (pt_mem st1) n t v = (if same_blk k n virt v then None
              else if \<not> whole off (pt_mem st) n t virt sz \<and> in_block off (pt_mem st) n t virt v
              then map_option tr32 (translate off (pt_mem st) n t v) else translate off (pt_mem st) n t v)"
        using r(2) c by (simp_all add: destroyed_def kb)
      have alk: "take_bit (pshift k) virt = 0" using al by (rule take_bit_0_le) (use k(4) in simp)
      let ?st = "arch_paging_flush_page_tlbs pgs virt st1" and ?p = "lvl_step k"
      note ad = advance [OF k(2) refl k(3) less.prems(3,4) assms(1)]
      have blk: "same_blk k n virt v \<longleftrightarrow> vo n virt \<le> vo n v \<and> vo n v < vo n virt + unat ?p" for v
        using same_blk_range [OF alk, of n v] k(1) unat_lvl_step [OF k(2)] by simp
      have ok1: "st_ok off ?st" "pt_ok off ?st n t" using moves_okD [OF mv] by simp_all
      have rest: "translate off (pt_mem ?st) n t v \<noteq> None" if v: "in_range n (virt + ?p) (sz - ?p) v" for v
      proof -
        have "\<not> same_blk k n virt v" "in_range n virt sz v"
          using v ad(5) unfolding range_step(1) [OF k(3) less.prems(4) assms(1)] blk by (auto simp: in_range_def)
        then show ?thesis using tr [of v] less.prems(5) [of v] by (simp del: not_None_eq)
      qed
      have start: "page_start off (pt_mem ?st) n t (virt + ?p)" if "0 < sz - ?p"
      proof -
        have p0: "0 < unat ?p" using lvl_step_page [of k] k(2) by simp
        have w: "vo n (virt + ?p) = vo n virt + unat ?p" using ad(7) that by (simp add: word_gt_0)
        have "unat (?p - 1) = unat ?p - 1" using p0 by (simp add: unat_sub word_le_nat_alt)
        then have u: "vo n (virt + (?p - 1)) + 1 = vo n (virt + ?p)"
          using vo_shift [of n virt "?p - 1"] assms(1) w p0 vo_less [of n "virt + ?p"] by simp
        then have "same_blk k n virt (virt + (?p - 1))" unfolding blk using w p0 by linarith
        then have "translate off (pt_mem ?st) n t (virt + (?p - 1)) = None" using tr by simp
        then show ?thesis using page_start_after u by blast
      qed
      obtain st' err where st': "destroy_loop create off pgs (virt + ?p) (sz - ?p) ?st = Some (st', err)"
        "mapped off n t (phys + ?p) (sz - ?p) (virt + ?p) 0 ?st st' err"
        "(\<forall>w v. in_range n (virt + ?p) (sz - ?p) w \<longrightarrow> in_block off (pt_mem ?st) n t w v \<longrightarrow> in_range n (virt + ?p) (sz - ?p) v) \<longrightarrow> err = 0"
        using less.hyps [OF ad(1) ok1 ad(2,3) rest start] by blast
      have e0: "err = 0" if f: "\<forall>w v. in_range n virt sz w \<longrightarrow> in_block off (pt_mem st) n t w v \<longrightarrow> in_range n virt sz v"
      proof -
        have "in_range n (virt + ?p) (sz - ?p) v" if w: "in_range n (virt + ?p) (sz - ?p) w" "in_block off (pt_mem st1) n t w v" for w v
        proof -
          have "in_range n virt sz w" using w(1) range_step(1) [OF k(3) less.prems(4) assms(1), of w] in_range_def [of n virt sz w] by linarith
          then have "in_range n virt sz v" using f in_block_smaller [OF w(2) hl] by blast
          moreover have "hit off (pt_mem st1) n t v \<noteq> None" by (rule in_block_mapped [OF w(2)])
          then have "\<not> same_blk k n virt v" using tr [of v] twalk_None [of leaf off "pt_mem st1" n t v] by auto
          ultimately show ?thesis
            using range_step(1) [OF k(3) less.prems(4) assms(1), of v] blk [of v] in_range_def [of n virt sz v] by linarith
        qed
        then show ?thesis using st'(3) by simp
      qed
      have m: "mapped off n t (phys + ?p) (sz - ?p) (virt + ?p) 0 st1 st' err" using st'(2) by (simp add: mapped_def kept_def)
      have "mapped off n t phys sz virt 0 st st' err"
      proof (rule mapped_step [OF k(1,2) refl k(3) alk _ _ _ m less.prems(1) assms(1) less.prems(4) mv])
        show "translate off (pt_mem st1) n t v = new_entry k phys 0 v" if "same_blk k n virt v" for v using tr [of v] that by (simp add: new_entry_def)
        show "if same_blk k n virt v then hit off (pt_mem st1) n t v = (if bit (0 :: u64) 0 then Some k else None)
          else hit_le (hit off (pt_mem st1) n t v) (hit off (pt_mem st) n t v)" for v
          using tr [of v] hl [of v] twalk_None [of leaf off "pt_mem st1" n t v] by (cases "same_blk k n virt v") simp_all
      qed (use tr in auto)
      then show ?thesis using step st'(1) k(3) e0 by (auto simp: kb not_less [symmetric])
    qed
  qed
qed

subsection \<open>The tables of ARM\<close>

text \<open>The tables behind \<open>pgs\<close> are a tree in the page pool; the translation they give; and the pages of a request, by the 48 bits the tables translate.\<close>

definition arm_tables :: "u64 \<Rightarrow> paging_structures \<Rightarrow> pt_state \<Rightarrow> bool" where
  "arm_tables off pgs st \<longleftrightarrow> root_paging pgs = arm_paging \<and> st_ok off st \<and> pt_ok off st 3 (root_table pgs)"

definition translation :: "u64 \<Rightarrow> paging_structures \<Rightarrow> pt_state \<Rightarrow> u64 \<Rightarrow> (u64 \<times> u64) option" where
  "translation off pgs st v = translate off (pt_mem st) 3 (root_table pgs) v"

definition page_level :: "u64 \<Rightarrow> paging_structures \<Rightarrow> pt_state \<Rightarrow> u64 \<Rightarrow> nat option" where
  "page_level off pgs st v = hit off (pt_mem st) 3 (root_table pgs) v"

definition same_huge_page :: "u64 \<Rightarrow> paging_structures \<Rightarrow> pt_state \<Rightarrow> u64 \<Rightarrow> u64 \<Rightarrow> bool" where
  "same_huge_page off pgs st a v = in_block off (pt_mem st) 3 (root_table pgs) a v"

definition page_range :: "u64 \<Rightarrow> u64 \<Rightarrow> u64 \<Rightarrow> bool" where
  "page_range virt sz v \<longleftrightarrow> unat (and virt PAGE_MASK) \<le> unat (take_bit 48 v) \<and>
     unat (take_bit 48 v) < unat (and virt PAGE_MASK) + unat (PAGE_ALIGN sz)"

lemma vo_3: "vo 3 v = unat (take_bit 48 v)" "unat v < 2 ^ 48 \<Longrightarrow> vo 3 v = unat v"
proof -
  have "unat (take_bit 48 v) = take_bit 48 (unat v)" by (simp add: unsigned_take_bit_eq)
  then show "vo 3 v = unat (take_bit 48 v)" by (simp only: take_bit_eq_mod vo_def) simp
  then show "vo 3 v = unat v" if "unat v < 2 ^ 48" using take_bit_self [OF that] by simp
qed

lemma masked_aligned: "take_bit 12 (and w PAGE_MASK) = 0" "4096 dvd unat (PAGE_ALIGN sz)"
proof -
  have m: "PAGE_MASK = not (mask 12)" by (metis not_PAGE_MASK bit.double_compl)
  have a: "take_bit 12 (and w PAGE_MASK) = 0" for w unfolding m by (rule bit_word_eqI) (simp add: bit_simps)
  then show "take_bit 12 (and w PAGE_MASK) = 0" .
  show "4096 dvd unat (PAGE_ALIGN sz)" unfolding PAGE_ALIGN_def using aligned_nat [THEN iffD1, OF a] by auto
qed

lemma request_range:
  assumes "unat (and virt PAGE_MASK) + unat (PAGE_ALIGN sz) \<le> 2 ^ 48" "0 < PAGE_ALIGN sz \<or> unat (and virt PAGE_MASK) < 2 ^ 48"
  shows "vo 3 (and virt PAGE_MASK) = unat (and virt PAGE_MASK)" "in_range 3 (and virt PAGE_MASK) (PAGE_ALIGN sz) v \<longleftrightarrow> page_range virt sz v"
    "vo 3 (and virt PAGE_MASK) + unat (PAGE_ALIGN sz) \<le> 2 ^ pshift (Suc 3)"
proof -
  have "unat (and virt PAGE_MASK) < 2 ^ 48" using assms by (auto simp: word_less_nat_alt)
  then show a: "vo 3 (and virt PAGE_MASK) = unat (and virt PAGE_MASK)" by (rule vo_3(2))
  show "in_range 3 (and virt PAGE_MASK) (PAGE_ALIGN sz) v \<longleftrightarrow> page_range virt sz v" by (simp add: in_range_def page_range_def a vo_3(1) [of v])
  show "vo 3 (and virt PAGE_MASK) + unat (PAGE_ALIGN sz) \<le> 2 ^ pshift (Suc 3)" using assms(1) unfolding a by simp
qed

lemma request_value:
  assumes "page_range virt sz v" "vo 3 (and virt PAGE_MASK) = unat (and virt PAGE_MASK)" "bit flags 0"
  shows "target 3 (and phys PAGE_MASK) (and virt PAGE_MASK) flags v = Some (and phys PAGE_MASK + (take_bit 48 v - and virt PAGE_MASK), flags)"
proof -
  have le: "unat (and virt PAGE_MASK) \<le> unat (take_bit 48 v)" using assms(1) by (simp add: page_range_def)
  then have "and virt PAGE_MASK \<le> take_bit 48 v" by (simp only: word_le_nat_alt)
  then have "unat (take_bit 48 v - and virt PAGE_MASK) = unat (take_bit 48 v) - unat (and virt PAGE_MASK)" by (rule unat_sub)
  then have "of_nat (vo 3 v - vo 3 (and virt PAGE_MASK)) = take_bit 48 v - and virt PAGE_MASK"
    unfolding assms(2) vo_3(1) [of v] by (metis of_nat_unat ucast_id)
  then show ?thesis using assms(3) by (simp only: target_def if_True)
qed

lemma arm_splits: "\<forall>k<3. split_spec (create_levels 3 off) off k"
  using create_levels_ok [of _ 3 off] by (auto intro!: split_from_create)

lemma create_arm:
  assumes "arm_tables off pgs st"
  shows "paging_create off pgs phys sz virt flags st =
    create_loop (create_levels 3 off) off pgs (and phys PAGE_MASK) (PAGE_ALIGN sz) (and virt PAGE_MASK) flags st"
proof -
  have "root_paging pgs = levels 3" using assms by (simp add: arm_tables_def levels_simps)
  then show ?thesis by (simp add: paging_create_def levels_simps(4) numeral_eq_Suc)
qed

lemma paging_create_arm:
  assumes "arm_tables off pgs st" "flags_ok flags"
    "unat (and phys PAGE_MASK) + unat (PAGE_ALIGN sz) \<le> 2 ^ 48" "unat (and virt PAGE_MASK) + unat (PAGE_ALIGN sz) \<le> 2 ^ 48"
    "0 < PAGE_ALIGN sz \<or> unat (and virt PAGE_MASK) < 2 ^ 48"
  obtains st' err where "paging_create off pgs phys sz virt flags st = Some (st', err)"
    "mapped off 3 (root_table pgs) (and phys PAGE_MASK) (PAGE_ALIGN sz) (and virt PAGE_MASK) flags st st' err"
proof -
  have r: "root_paging pgs = levels 3" "st_ok off st" "pt_ok off st 3 (root_table pgs)" using assms(1) by (simp_all add: arm_tables_def levels_simps)
  have "\<exists>st' err. create_loop (create_levels 3 off) off pgs (and phys PAGE_MASK) (PAGE_ALIGN sz) (and virt PAGE_MASK) flags st = Some (st', err) \<and>
      mapped off 3 (root_table pgs) (and phys PAGE_MASK) (PAGE_ALIGN sz) (and virt PAGE_MASK) flags st st' err"
    by (rule create_loop_ok [OF order_refl arm_splits r(1) refl assms(2) r(2,3) masked_aligned(2,1,1) assms(3) request_range(3) [OF assms(4,5)]])
  then show thesis using that unfolding create_arm [OF assms(1)] by blast
qed

lemma mapped_tables: "arm_tables off pgs st \<Longrightarrow> mapped off 3 (root_table pgs) phys sz virt flags st st' err \<Longrightarrow> arm_tables off pgs st'"
  by (simp add: arm_tables_def mapped_def moves_def)

lemma mapped_at:
  assumes "mapped off 3 (root_table pgs) phys sz virt flags st st' err"
  shows "in_range 3 virt sz v \<Longrightarrow> err = 0 \<Longrightarrow> translation off pgs st' v = target 3 phys virt flags v"
    "\<not> in_range 3 virt sz v \<Longrightarrow> translation off pgs st' v = translation off pgs st v \<or>
      (\<exists>w. in_range 3 virt sz w \<and> same_huge_page off pgs st w v) \<and> translation off pgs st' v = map_option tr32 (translation off pgs st v)"
    "err \<in> {0, - ENOMEM}"
proof -
  have a: "in_range 3 virt sz v \<and> translate off (pt_mem st') 3 (root_table pgs) v = target 3 phys virt flags v \<or>
      (err = 0 \<longrightarrow> \<not> in_range 3 virt sz v) \<and> kept off 3 (root_table pgs) (in_range 3 virt sz) st st' v" using assms unfolding mapped_def by blast
  show "err \<in> {0, - ENOMEM}" using assms unfolding mapped_def by blast
  show "in_range 3 virt sz v \<Longrightarrow> err = 0 \<Longrightarrow> translation off pgs st' v = target 3 phys virt flags v"
    unfolding translation_def using a by blast
  show "\<not> in_range 3 virt sz v \<Longrightarrow> translation off pgs st' v = translation off pgs st v \<or>
      (\<exists>w. in_range 3 virt sz w \<and> same_huge_page off pgs st w v) \<and> translation off pgs st' v = map_option tr32 (translation off pgs st v)"
    using a unfolding translation_def same_huge_page_def kept_def by blast
qed

lemma destroy_arm:
  assumes "arm_tables off pgs st"
  shows "paging_destroy off pgs virt sz st = destroy_loop (create_levels 3 off) off pgs virt (PAGE_ALIGN sz) st"
    "root_paging pgs = levels 3" "st_ok off st" "pt_ok off st 3 (root_table pgs)"
proof -
  show r: "root_paging pgs = levels 3" "st_ok off st" "pt_ok off st 3 (root_table pgs)" using assms by (simp_all add: arm_tables_def levels_simps)
  show "paging_destroy off pgs virt sz st = destroy_loop (create_levels 3 off) off pgs virt (PAGE_ALIGN sz) st"
    by (simp add: paging_destroy_def r(1) levels_simps(4))
qed

lemma destroyed_shrinks:
  assumes "destroyed off n t virt sz st st' r"
  shows "translate off (pt_mem st') n t v \<in> {None, translate off (pt_mem st) n t v, map_option tr32 (translate off (pt_mem st) n t v)}"
proof (cases r)
  case (Inl err)
  then have "translate off (pt_mem st') n t v = translate off (pt_mem st) n t v \<or>
      translate off (pt_mem st') n t v = map_option tr32 (translate off (pt_mem st) n t v)" using assms by (auto simp: destroyed_def)
  then show ?thesis by blast
next
  case (Inr kb)
  obtain k b where "r = Inr (k, b)" using Inr by (cases kb) simp
  then have "translate off (pt_mem st') n t v = (if same_blk k n virt v then None
      else if \<not> whole off (pt_mem st) n t virt sz \<and> in_block off (pt_mem st) n t virt v
      then map_option tr32 (translate off (pt_mem st) n t v) else translate off (pt_mem st) n t v)" using assms by (simp add: destroyed_def)
  then show ?thesis by (metis insertCI)
qed

text \<open>A removal of any range never adds a mapping.\<close>

lemma destroy_loop_any:
  assumes "n \<le> 3" "\<forall>k<n. split_spec create off k" "root_paging pgs = levels n" "root_table pgs = t"
    and "st_ok off st" "pt_ok off st n t" "4096 dvd unat sz"
  shows "\<exists>st' err. destroy_loop create off pgs virt sz st = Some (st', err) \<and> moves off n t st st' \<and> err \<in> {0, - ENOMEM} \<and>
    (\<forall>v. translate off (pt_mem st') n t v \<in> {None, translate off (pt_mem st) n t v, map_option tr32 (translate off (pt_mem st) n t v)})"
  using assms(5-7)
proof (induction "unat sz" arbitrary: virt sz st rule: less_induct)
  case less
  show ?case
  proof (cases "sz = 0")
    case True
    then show ?thesis using moves_refl [OF less.prems(1,2)] by (subst destroy_loop.simps) simp
  next
    case False
    then have pos: "0 < sz" by (simp add: word_gt_0)
    have pg: "4096 \<le> sz" by (rule page_multiple [OF less.prems(3) pos])
    obtain st1 r where r: "tree_destroy create off virt sz n t st = Some (st1, r)" "destroyed off n t virt sz st st1 r"
      using tree_destroy_ok [OF less.prems(1,2) assms(1) pg] assms(2) by blast
    note step = destroy_loop_step [OF assms(1) pg assms(3,4) r(1)]
    have mv: "moves off n t st st1" using r(2) by (simp add: destroyed_def)
    have tr: "translate off (pt_mem st1) n t v \<in> {None, translate off (pt_mem st) n t v, map_option tr32 (translate off (pt_mem st) n t v)}" for v
      by (rule destroyed_shrinks [OF r(2)])
    show ?thesis
    proof (cases r)
      case (Inl err)
      then have "err = - ENOMEM" using r(2) by (simp add: destroyed_def)
      then show ?thesis using step mv tr by (simp add: Inl)
    next
      case (Inr kb)
      obtain k b where kb: "r = Inr (k, b)" using Inr by (cases kb) simp
      have k3: "k \<le> 3" using r(2) assms(1) by (simp add: destroyed_def kb)
      show ?thesis
      proof (cases "lvl_step k > sz")
        case True
        then show ?thesis using step mv tr by (simp add: kb)
      next
        case le: False
        let ?st = "arch_paging_flush_page_tlbs pgs virt st1"
        have u: "unat (sz - lvl_step k) = unat sz - unat (lvl_step k)" using le by (simp add: unat_sub not_less)
        have lt: "unat (sz - lvl_step k) < unat sz" using u lvl_step_page [OF k3] pos by (simp add: word_less_nat_alt)
        have dv: "4096 dvd unat (sz - lvl_step k)" using less.prems(3) lvl_step_page [OF k3] unfolding u by (simp add: dvd_diff_nat)
        have ok1: "st_ok off ?st" "pt_ok off ?st n t" using moves_okD [OF mv] by simp_all
        obtain st' err where st': "destroy_loop create off pgs (virt + lvl_step k) (sz - lvl_step k) ?st = Some (st', err)" "moves off n t st1 st'"
          "err \<in> {0, - ENOMEM}"
          "\<And>v. translate off (pt_mem st') n t v \<in> {None, translate off (pt_mem st1) n t v, map_option tr32 (translate off (pt_mem st1) n t v)}"
          using less.hyps [OF lt ok1 dv, of "virt + lvl_step k"] unfolding flush_simps by blast
        have "translate off (pt_mem st') n t v \<in> {None, translate off (pt_mem st) n t v, map_option tr32 (translate off (pt_mem st) n t v)}" for v
          using st'(4) [of v] tr [of v] tr32_tr32 by auto
        then show ?thesis using step le st'(1,3) moves_trans [OF less.prems(1) mv st'(2)] by (simp add: kb)
      qed
    qed
  qed
qed

lemma tr32_low: "(\<And>pa fl. x = Some (pa, fl) \<Longrightarrow> unat pa < 2 ^ 32) \<Longrightarrow> map_option tr32 x = x"
  by (cases x) (auto simp: tr32_def take_bit_self)

text \<open>C23: \<open>paging_create\<close> always returns, with 0 or -ENOMEM, keeps the tables a tree of pages of the pool, and
  when it returns 0 every address of the pages of the request is translated to the physical address at the same
  distance from the start, with the given attributes.\<close>

theorem paging_create_maps:
  assumes "arm_tables off pgs st" "flags_ok flags" "bit flags 0" "unat (and virt PAGE_MASK) < 2 ^ 48"
    "unat (and phys PAGE_MASK) + unat (PAGE_ALIGN sz) \<le> 2 ^ 48" "unat (and virt PAGE_MASK) + unat (PAGE_ALIGN sz) \<le> 2 ^ 48"
  shows "\<exists>st' err. paging_create off pgs phys sz virt flags st = Some (st', err) \<and> arm_tables off pgs st' \<and> err \<in> {0, - ENOMEM} \<and>
    (err = 0 \<longrightarrow> (\<forall>v. page_range virt sz v \<longrightarrow>
       translation off pgs st' v = Some (and phys PAGE_MASK + (take_bit 48 v - and virt PAGE_MASK), flags)))"
proof -
  obtain st' err where r: "paging_create off pgs phys sz virt flags st = Some (st', err)"
    "mapped off 3 (root_table pgs) (and phys PAGE_MASK) (PAGE_ALIGN sz) (and virt PAGE_MASK) flags st st' err"
    using paging_create_arm [OF assms(1,2,5,6)] assms(4) by blast
  note rr = request_range [OF assms(6) disjI2 [OF assms(4)]] and ma = mapped_at [OF r(2)]
  have "translation off pgs st' v = Some (and phys PAGE_MASK + (take_bit 48 v - and virt PAGE_MASK), flags)" if "err = 0" "page_range virt sz v" for v
    using ma(1) [of v] rr(2) [of v] that request_value [OF that(2) rr(1) assms(3), of phys] by simp
  then show ?thesis using r(1) mapped_tables [OF assms(1) r(2)] ma(3) by blast
qed

text \<open>C24: \<open>paging_create\<close> does not change the translation of an address outside the pages of the request, in the error case
  too, when it is in no huge page with a page of the request, or when it is mapped to an address below 4 GiB.\<close>

theorem paging_create_keeps_others:
  assumes "arm_tables off pgs st" "flags_ok flags" "unat (and virt PAGE_MASK) < 2 ^ 48"
    "unat (and phys PAGE_MASK) + unat (PAGE_ALIGN sz) \<le> 2 ^ 48" "unat (and virt PAGE_MASK) + unat (PAGE_ALIGN sz) \<le> 2 ^ 48"
    "paging_create off pgs phys sz virt flags st = Some (st', err)" "\<not> page_range virt sz v"
    "(\<forall>w. page_range virt sz w \<longrightarrow> \<not> same_huge_page off pgs st w v) \<or>
     (\<forall>pa fl. translation off pgs st v = Some (pa, fl) \<longrightarrow> unat pa < 2 ^ 32)"
  shows "translation off pgs st' v = translation off pgs st v"
proof -
  have m: "mapped off 3 (root_table pgs) (and phys PAGE_MASK) (PAGE_ALIGN sz) (and virt PAGE_MASK) flags st st' err"
    using paging_create_arm [OF assms(1,2,4,5) disjI2 [OF assms(3)]] assms(6) by (metis option.inject prod.inject)
  note rr = request_range [OF assms(5) disjI2 [OF assms(3)]]
  have "map_option tr32 (translation off pgs st v) = translation off pgs st v"
    if "\<forall>pa fl. translation off pgs st v = Some (pa, fl) \<longrightarrow> unat pa < 2 ^ 32" using that by (intro tr32_low) blast
  then show ?thesis using mapped_at(2) [OF m, of v] assms(7,8) unfolding rr(2) by fastforce
qed

text \<open>C25: A \<open>paging_destroy\<close> of pages that are all mapped, from the start of a page or huge page on, always returns,
  with 0 or -ENOMEM, and keeps the tables a tree of pages of the pool. When it returns 0, none of the pages is mapped.
  It returns 0 when the range covers only full pages. Other addresses keep their translation when they are in no huge page
  with a page of the range, or are mapped below 4 GiB.\<close>

theorem paging_destroy_unmaps:
  assumes "arm_tables off pgs st" "take_bit 12 virt = 0" "unat virt < 2 ^ 48" "unat virt + unat (PAGE_ALIGN sz) \<le> 2 ^ 48"
    "\<forall>v. page_range virt sz v \<longrightarrow> translation off pgs st v \<noteq> None"
    "\<forall>b. page_level off pgs st virt = Some b \<longrightarrow> take_bit (pshift b) virt = 0"
  shows "\<exists>st' err. paging_destroy off pgs virt sz st = Some (st', err) \<and> arm_tables off pgs st' \<and> err \<in> {0, - ENOMEM} \<and>
    (err = 0 \<longrightarrow> (\<forall>v. page_range virt sz v \<longrightarrow> translation off pgs st' v = None)) \<and>
    ((\<forall>w v. page_range virt sz w \<longrightarrow> same_huge_page off pgs st w v \<longrightarrow> page_range virt sz v) \<longrightarrow> err = 0) \<and>
    (\<forall>v. \<not> page_range virt sz v \<longrightarrow>
       (\<forall>w. page_range virt sz w \<longrightarrow> \<not> same_huge_page off pgs st w v) \<or>
       (\<forall>pa fl. translation off pgs st v = Some (pa, fl) \<longrightarrow> unat pa < 2 ^ 32) \<longrightarrow>
       translation off pgs st' v = translation off pgs st v)"
proof -
  have vm: "and virt PAGE_MASK = virt" by (rule PAGE_MASK_aligned [OF assms(2)])
  note d = destroy_arm [OF assms(1)]
  note rr = request_range [of virt sz, unfolded vm, OF assms(4) disjI2 [OF assms(3)]]
  have all: "translate off (pt_mem st) 3 (root_table pgs) v \<noteq> None" if "in_range 3 virt (PAGE_ALIGN sz) v" for v
    using assms(5) that unfolding rr(2) translation_def by blast
  have ps: "page_start off (pt_mem st) 3 (root_table pgs) virt" using assms(6) by (simp add: page_start_def page_level_def split: option.split)
  obtain st' err where r: "destroy_loop (create_levels 3 off) off pgs virt (PAGE_ALIGN sz) st = Some (st', err)"
    "mapped off 3 (root_table pgs) 0 (PAGE_ALIGN sz) virt 0 st st' err"
    "(\<forall>w v. in_range 3 virt (PAGE_ALIGN sz) w \<longrightarrow> in_block off (pt_mem st) 3 (root_table pgs) w v \<longrightarrow> in_range 3 virt (PAGE_ALIGN sz) v) \<longrightarrow> err = 0"
    using destroy_loop_ok [OF order_refl arm_splits d(2) refl d(3,4) masked_aligned(2) rr(3) all ps, of 0] by blast
  note ma = mapped_at [OF r(2), unfolded rr(2)]
  have "translation off pgs st' v = None" if "err = 0" "page_range virt sz v" for v
    using ma(1) [OF that(2,1)] by (simp add: target_def)
  moreover have "translation off pgs st' v = translation off pgs st v"
    if "\<not> page_range virt sz v" "(\<forall>w. page_range virt sz w \<longrightarrow> \<not> same_huge_page off pgs st w v) \<or>
       (\<forall>pa fl. translation off pgs st v = Some (pa, fl) \<longrightarrow> unat pa < 2 ^ 32)" for v
    using ma(2) [OF that(1)] that(2) tr32_low [of "translation off pgs st v"] by metis
  moreover have "(\<forall>w v. page_range virt sz w \<longrightarrow> same_huge_page off pgs st w v \<longrightarrow> page_range virt sz v) \<longrightarrow> err = 0"
    using r(3) unfolding rr(2) same_huge_page_def .
  ultimately show ?thesis using r(1) mapped_tables [OF assms(1) r(2)] ma(3) unfolding d(1) by blast
qed

text \<open>For any range, \<open>paging_destroy\<close> returns with 0 or -ENOMEM, keeps the tables a tree of pages of the pool and adds no
  mapping: an address is unmapped afterwards, or its translation is the old one or the one with the physical address cut to 32 bits.\<close>

theorem paging_destroy_adds_nothing:
  assumes "arm_tables off pgs st"
  shows "\<exists>st' err. paging_destroy off pgs virt sz st = Some (st', err) \<and> arm_tables off pgs st' \<and> err \<in> {0, - ENOMEM} \<and>
    (\<forall>v. translation off pgs st' v \<in> {None, translation off pgs st v, map_option tr32 (translation off pgs st v)})"
proof -
  note d = destroy_arm [OF assms]
  show ?thesis using destroy_loop_any [OF order_refl arm_splits d(2) refl d(3,4) masked_aligned(2), of virt sz] assms
    unfolding d(1) translation_def arm_tables_def moves_def by blast
qed

text \<open>A \<open>paging_create\<close> of one page that returns 0 maps the page, and when the page was in a huge page, all other
  addresses of the huge page keep their attributes but only the low 32 bits of their physical address: the mask that
  \<open>split_hugepage\<close> applies is computed in 32 bits. All other translations are kept.\<close>

theorem paging_create_page:
  assumes "arm_tables off pgs st" "flags_ok flags" "bit flags 0" "take_bit 12 virt = 0" "unat virt < 2 ^ 48" "take_bit 12 phys = 0" "unat phys < 2 ^ 48"
    "paging_create off pgs phys 4096 virt flags st = Some (st', 0)"
  shows "translation off pgs st' v =
    (if page_range virt 4096 v then Some (phys + (take_bit 48 v - virt), flags)
     else if same_huge_page off pgs st virt v then map_option tr32 (translation off pgs st v)
     else translation off pgs st v)"
proof -
  have pa: "PAGE_ALIGN 4096 = 4096" by (rule PAGE_ALIGN_aligned) simp
  note vm = PAGE_MASK_aligned [OF assms(4)] PAGE_MASK_aligned [OF assms(6)]
  note d = destroy_arm(2-4) [OF assms(1)]
  have l: "create_loop (create_levels 3 off) off pgs phys 4096 virt flags st = Some (st', 0)"
    using assms(8) unfolding create_arm [OF assms(1)] vm pa .
  obtain st1 r where r: "create_walk (create_levels 3 off) off phys 4096 virt flags (levels 3) (root_table pgs) st = Some (st1, r)"
    "created off 3 (root_table pgs) phys 4096 virt flags st st1 r"
    using create_walk_ok [OF order_refl arm_splits d(2,3) assms(2) order_refl assms(6,4,7)] by blast
  obtain psize where p: "r = Inr psize"
    using l r by (cases r) (auto simp: create_loop.simps [of _ _ _ _ 4096] d(1) created_def ENOMEM_def)
  obtain k where k: "k < 3" "psize = lvl_step k" "psize \<le> 4096"
      "\<And>v. translate off (pt_mem st1) 3 (root_table pgs) v =
             (if same_blk k 3 virt v then new_entry k phys flags v
              else if in_block off (pt_mem st) 3 (root_table pgs) virt v then map_option tr32 (translate off (pt_mem st) 3 (root_table pgs) v)
              else translate off (pt_mem st) 3 (root_table pgs) v)"
    using r(2) unfolding created_def p by auto
  have k0: "k = 0" using k(1-3) by (cases rule: level_cases [of k]) (simp_all add: lvl_step_def)
  have ps: "psize = 4096" using k(2) by (simp add: k0 lvl_step_def)
  have "pt_mem st' = pt_mem st1"
    using l r(1) by (auto simp: create_loop.simps [of _ _ _ _ 4096] d(1) p ps create_loop.simps [of _ _ _ _ 0])
  then have tr: "translation off pgs st' v = (if same_blk 0 3 virt v then new_entry 0 phys flags v
      else if same_huge_page off pgs st virt v then map_option tr32 (translation off pgs st v) else translation off pgs st v)"
    using k(4) [of v] by (simp only: translation_def same_huge_page_def k0)
  have rg: "same_blk 0 3 virt v \<longleftrightarrow> page_range virt 4096 v"
    using same_blk_range [of 0 virt 3 v] assms(4) vo_3(2) [OF assms(5)] by (simp add: page_range_def vm pa vo_3(1) [of v])
  have "new_entry 0 phys flags v = Some (phys + (take_bit 48 v - virt), flags)" if "page_range virt 4096 v"
    using new_entry_target [of 0 3 virt v phys flags] rg that assms(4) request_value [OF that, unfolded vm, OF vo_3(2) [OF assms(5)] assms(3), of phys]
    by (simp add: vm)
  then show ?thesis using tr rg by simp
qed

text \<open>A \<open>paging_destroy\<close> of as many bytes as the huge page at \<open>virt\<close> has returns 0 and removes exactly this huge
  page. When \<open>virt\<close> is not the start of the huge page this is not the requested range: the addresses of the huge page below
  \<open>virt\<close> are removed, and those of the range behind the huge page stay mapped.\<close>

theorem paging_destroy_huge_page:
  assumes "arm_tables off pgs st" "page_level off pgs st virt = Some b" "0 < b"
  shows "\<exists>st'. paging_destroy off pgs virt (lvl_step b) st = Some (st', 0) \<and> arm_tables off pgs st' \<and>
    (\<forall>v. translation off pgs st' v = (if same_huge_page off pgs st virt v then None else translation off pgs st v))"
proof -
  note d = destroy_arm [OF assms(1)]
  have h: "hit off (pt_mem st) 3 (root_table pgs) virt = Some b" using assms(2) by (simp add: page_level_def)
  have b: "b < 3" using hit_page [OF _ order_refl h] d(4) by (simp add: pt_ok_def)
  have pl: "4096 dvd unat (lvl_step b)" "4096 \<le> lvl_step b" using lvl_step_page [of b] b by (simp_all add: word_le_nat_alt)
  have wh: "whole off (pt_mem st) 3 (root_table pgs) virt (lvl_step b)" using h b by (intro whole_hit) (simp add: lvl_step_size)
  obtain st1 r where r: "tree_destroy (create_levels 3 off) off virt (lvl_step b) 3 (root_table pgs) st = Some (st1, r)"
    "destroyed off 3 (root_table pgs) virt (lvl_step b) st st1 r"
    using tree_destroy_ok [OF d(3,4) order_refl pl(2) disjI1 [OF wh]] by blast
  obtain k c where kc: "r = Inr (k, c)" using r(2) wh by (cases r) (auto simp: destroyed_def)
  have k: "k = b" "moves off 3 (root_table pgs) st st1" "\<And>v. translate off (pt_mem st1) 3 (root_table pgs) v =
      (if same_blk k 3 virt v then None else translate off (pt_mem st) 3 (root_table pgs) v)"
    using r(2) h wh by (simp_all add: destroyed_def kc)
  let ?st = "arch_paging_flush_page_tlbs pgs virt st1"
  have "paging_destroy off pgs virt (lvl_step b) st = Some (?st, 0)"
    using destroy_loop_step [OF order_refl pl(2) d(2) refl r(1)] unfolding d(1) PAGE_ALIGN_aligned [OF pl(1)]
    by (simp add: kc k(1) destroy_loop.simps [of _ _ _ _ 0])
  moreover have "arm_tables off pgs ?st" using assms(1) moves_okD [OF k(2)] by (simp add: arm_tables_def)
  moreover have "same_blk k 3 virt v \<longleftrightarrow> same_huge_page off pgs st virt v" for v
    using h assms(3) by (auto simp: same_huge_page_def in_block_hit k(1))
  ultimately show ?thesis using k(3) by (auto simp: translation_def)
qed

lemma virt2phys_levels:
  assumes "pt_wf off m n t" "n \<le> 3"
  shows "virt2phys_walk off (levels n) t virt flags m = Some (case translate off m n t virt of None \<Rightarrow> INVALID_PHYS_ADDR
    | Some (pa, _) \<Rightarrow> if hit off m n t virt = Some 0 then or (and pa PAGE_MASK) (and virt PAGE_MASK) else pa)"
  using assms
proof (induction n arbitrary: t)
  case 0
  define e where "e = m (ent t (idx 0 virt))"
  have m: "PAGE_MASK = not (mask 12)" by (metis not_PAGE_MASK bit.double_compl)
  have b: "bit e 0 \<Longrightarrow> bit e 1" using 0 idx_less [of 0 virt] by (simp add: e_def)
  have fb: "\<not> bit (page_frame 0 e) i" if "i < 12" for i using that by (simp add: page_frame_def bit_and_iff bit_BIT_MASK)
  then have "and (page_frame 0 e) (take_bit 12 virt) = 0" by (intro bit_word_eqI) (auto simp: bit_simps)
  then have "and (page_frame 0 e + take_bit 12 virt) PAGE_MASK = page_frame 0 e"
    using fb unfolding m by (intro bit_word_eqI) (auto simp: disjunctive_add_eq_or bit_simps)
  moreover have "get_phys (lvl 0) (ent t (idx 0 virt)) virt m = or (page_frame 0 e) (and virt PAGE_MASK)" if "bit e 1"
    using that by (simp add: lvl_def arm_paging_def ARM_PAGING_COMMON_def arm_get_l3_phys_def PTE_FLAG_TERMINAL_def and_2_bit page_frame_def e_def)
  moreover have "get_phys (lvl 0) (ent t (idx 0 virt)) virt m \<noteq> INVALID_PHYS_ADDR" if "bit e 1"
    using that lvl_phys(3) [of 1 "ent t (idx 0 virt)" virt m] by (simp add: e_def)
  ultimately show ?case using b
    by (simp add: levels_simps Let_def lvl_entry [of 0, simplified] lvl_common(1) [of 0, simplified] leaf_def e_def [symmetric])
next
  case (Suc n)
  have n: "n < 3" "Suc n \<le> 3" "n \<le> 3" using Suc.prems(2) by simp_all
  define e where "e = m (ent t (idx (Suc n) virt))"
  have ih: "virt2phys_walk off (levels n) (nxt off e) virt flags m = Some (case translate off m n (nxt off e) virt of None \<Rightarrow> INVALID_PHYS_ADDR
    | Some (pa, _) \<Rightarrow> if hit off m n (nxt off e) virt = Some 0 then or (and pa PAGE_MASK) (and virt PAGE_MASK) else pa)" if "tbl e"
    using that Suc.IH [OF _ n(3), of "nxt off e"] Suc.prems(1) idx_less [of "Suc n" virt] by (simp add: e_def)
  have nx: "paging_phys2hvirt off (page_frame 0 e) = nxt off e" by (simp add: paging_phys2hvirt_def nxt_def)
  have "and (page_frame (Suc n) e) (take_bit (pshift (Suc n)) virt) = 0"
    using n(2) by (intro bit_word_eqI) (auto simp: bit_simps page_frame_def bit_BIT_MASK)
  then have "get_phys (lvl (Suc n)) (ent t (idx (Suc n) virt)) virt m = page_frame (Suc n) e + take_bit (pshift (Suc n)) virt" if "\<not> tbl e"
    using that lvl_phys(1) [OF zero_less_Suc n(2), of "ent t (idx (Suc n) virt)" virt m]
    by (simp only: disjunctive_add_eq_or e_def [symmetric] tbl_def if_False)
  moreover have w: "translate off m (Suc n) t virt = (if tbl e then translate off m n (nxt off e) virt else if bit e 0 then Some (leaf (Suc n) e virt) else None)"
    "hit off m (Suc n) t virt = (if tbl e then hit off m n (nxt off e) virt else if bit e 0 then Some (Suc n) else None)"
    by (simp_all add: e_def Let_def)
  moreover have "leaf (Suc n) e virt = (page_frame (Suc n) e + take_bit (pshift (Suc n)) virt, and e 0xffd)" by (simp add: leaf_def)
  moreover have "\<not> bit e 0 \<Longrightarrow> \<not> tbl e" by (simp add: tbl_def)
  moreover have "virt2phys_walk off (levels (Suc n)) t virt flags m =
      (if \<not> bit e 0 then Some INVALID_PHYS_ADDR
       else if tbl e then virt2phys_walk off (levels n) (nxt off e) virt flags m
       else Some (get_phys (lvl (Suc n)) (ent t (idx (Suc n) virt)) virt m))"
    using phys_invalid [OF n(1), of "ent t (idx (Suc n) virt)" virt m]
    by (simp add: levels_simps(2) [OF n(1)] Let_def lvl_entry [OF n(2)] lvl_common(1) [OF n(2)] lvl_next(2) [OF zero_less_Suc n(2)] nx e_def [symmetric])
  ultimately show ?case using ih unfolding w by (cases "bit e 0"; cases "tbl e") (simp_all del: twalk.simps)
qed

text \<open>\<open>paging_virt2phys\<close> ends its walk for every address: it returns the invalid address for an unmapped address and the
  physical address in a huge page. For an address in a page of 4 KiB it returns the address of the physical page combined with
  the page number of the virtual address instead of the offset in the page.\<close>

theorem paging_virt2phys_result:
  assumes "arm_tables off pgs st"
  shows "paging_virt2phys off pgs virt flags (pt_mem st) = Some (case translation off pgs st virt of None \<Rightarrow> INVALID_PHYS_ADDR
    | Some (pa, _) \<Rightarrow> if page_level off pgs st virt = Some 0 then or (and pa PAGE_MASK) (and virt PAGE_MASK) else pa)"
  unfolding paging_virt2phys_def translation_def page_level_def destroy_arm(2) [OF assms]
  using destroy_arm(4) [OF assms] by (intro virt2phys_levels) (simp_all add: pt_ok_def)

subsection \<open>Example\<close>

text \<open>
  Tables in the first four pages of a pool at 1 MiB: the huge page at 2 MiB is mapped to 5 GiB, the huge page at 6 MiB to 2 GiB,
  and the page at 8 MiB to 2 GiB + 20 KiB.
\<close>

definition demo_pgs :: paging_structures where
  "demo_pgs = \<lparr>root_paging = arm_paging, root_table = 0x100000, is_hv_structs = False\<rparr>"

definition demo_st :: pt_state where
  "demo_st = \<lparr>mem_pool = \<lparr>base_address = 0x100000, pages = 64, used_pages = 4, used_bitmap = (\<lambda>_. 15), pool_flags = 1\<rparr>,
     pt_mem = (\<lambda>_. 0)(0x100000 := 0x101003, 0x101000 := 0x102003, 0x102008 := 0x140000701, 0x102018 := 0x80000701, 0x102020 := 0x103003, 0x103000 := 0x80005703),
     tlb_flushes = []\<rparr>"

lemma node_intro:
  assumes "i < 512" "tbl (m (ent t i))" "\<And>j. j < 512 \<Longrightarrow> j \<noteq> i \<Longrightarrow> \<not> tbl (m (ent t j))"
    "\<And>j. 2 \<le> n \<Longrightarrow> j < 512 \<Longrightarrow> j \<noteq> i \<Longrightarrow> \<not> bit (m (ent t j)) 0"
    "pt_wf off m n (nxt off (m (ent t i)))" "t \<notin> tables off m n (nxt off (m (ent t i)))"
  shows "pt_wf off m (Suc n) t" "tables off m (Suc n) t = insert t (tables off m n (nxt off (m (ent t i))))"
proof -
  have s: "siblings off m n t i = {}" using assms(3) by (auto simp: siblings_def)
  then show "tables off m (Suc n) t = insert t (tables off m n (nxt off (m (ent t i))))" using tables_split [OF assms(1)] assms(2) by simp
  show "pt_wf off m (Suc n) t"
  proof (unfold pt_wf.simps, intro allI impI)
    fix j :: nat assume "j < 512"
    then show "(tbl (m (ent t j)) \<longrightarrow> pt_wf off m n (nxt off (m (ent t j))) \<and> tables off m n (nxt off (m (ent t j))) \<inter> insert t (siblings off m n t j) = {}) \<and>
      (2 \<le> n \<longrightarrow> bit (m (ent t j)) 0 \<longrightarrow> tbl (m (ent t j)))"
      using assms(2-6) s by (cases "j = i") auto
  qed
qed

lemma demo_addr:
  assumes "i < 512"
  shows "unat (ent 0x100000 i) = 0x100000 + 8 * i" "unat (ent 0x101000 i) = 0x101000 + 8 * i"
    "unat (ent 0x102000 i) = 0x102000 + 8 * i" "unat (ent 0x103000 i) = 0x103000 + 8 * i"
  by (subst ent_nat [OF _ assms]; simp add: aligned_nat)+

lemma demo_at: "pt_mem demo_st a = (if unat a = 0x103000 then 0x80005703 else if unat a = 0x102020 then 0x103003
  else if unat a = 0x102018 then 0x80000701 else if unat a = 0x102008 then 0x140000701
  else if unat a = 0x101000 then 0x102003 else if unat a = 0x100000 then 0x101003 else 0)"
  by (simp add: demo_st_def word_unat_eq_iff)

lemma demo_mem:
  assumes "i < 512"
  shows "pt_mem demo_st (ent 0x100000 i) = (if i = 0 then 0x101003 else 0)" "pt_mem demo_st (ent 0x101000 i) = (if i = 0 then 0x102003 else 0)"
    "pt_mem demo_st (ent 0x102000 i) = (if i = 1 then 0x140000701 else if i = 3 then 0x80000701 else if i = 4 then 0x103003 else 0)"
    "pt_mem demo_st (ent 0x103000 i) = (if i = 0 then 0x80005703 else 0)"
  unfolding demo_at demo_addr [OF assms] using assms by simp_all

lemma demo_bits: "tbl 0x101003" "tbl 0x102003" "tbl 0x103003" "\<not> tbl 0x140000701" "\<not> tbl 0x80000701" "bit (0x140000701 :: u64) 0" "bit (0x80000701 :: u64) 0"
  "bit (0x80005703 :: u64) 0" "bit (0x80005703 :: u64) 1" "\<not> tbl 0"
  by (simp_all add: tbl_def bit_iff_odd)

lemma demo_nxt: "nxt 0 0x101003 = 0x101000" "nxt 0 0x102003 = 0x102000" "nxt 0 0x103003 = 0x103000"
  by (simp_all add: nxt_def page_frame_def BIT_MASK_def)

lemma demo_tree: "pt_wf 0 (pt_mem demo_st) 3 0x100000" "tables 0 (pt_mem demo_st) 3 0x100000 = {0x100000, 0x101000, 0x102000, 0x103000}"
  "pt_wf 0 (pt_mem demo_st) (Suc 0) 0x102000" "tables 0 (pt_mem demo_st) (Suc 0) 0x102000 = {0x102000, 0x103000}"
proof -
  let ?m = "pt_mem demo_st"
  have l0: "pt_wf 0 ?m 0 0x103000" by (simp add: demo_mem demo_bits)
  show l1: "pt_wf 0 ?m (Suc 0) 0x102000" "tables 0 ?m (Suc 0) 0x102000 = {0x102000, 0x103000}"
    using node_intro [of 4 ?m "0x102000" 0 0] l0 by (simp_all add: demo_mem demo_bits demo_nxt)
  have l2: "pt_wf 0 ?m (Suc (Suc 0)) 0x101000" "tables 0 ?m (Suc (Suc 0)) 0x101000 = {0x101000, 0x102000, 0x103000}"
    using node_intro [of 0 ?m "0x101000" "Suc 0" 0] l1 by (simp_all add: demo_mem demo_bits demo_nxt del: pt_wf.simps tables.simps)
  show "pt_wf 0 ?m 3 0x100000" "tables 0 ?m 3 0x100000 = {0x100000, 0x101000, 0x102000, 0x103000}"
    using node_intro [of 0 ?m "0x100000" "Suc (Suc 0)" 0] l2 by (simp_all add: numeral_3_eq_3 demo_mem demo_bits demo_nxt del: pt_wf.simps tables.simps)
qed

lemma demo_used: "k < 64 \<Longrightarrow> page_used (mem_pool demo_st) k \<longleftrightarrow> k < 4"
proof -
  have m: "(15 :: u64) = mask 4" by (simp add: mask_eq_exp_minus_1)
  assume "k < 64"
  then show ?thesis by (simp add: page_used_def demo_st_def m bit_mask_iff)
qed

lemma demo_tables: "arm_tables 0 demo_pgs demo_st"
proof -
  have pool: "pool_ok (mem_pool demo_st)" by (simp add: pool_ok_def demo_st_def PAGE_SIZE_def)
  have used: "used_page demo_st (0x100000 + of_nat (k * 4096))" if "k < 4" for k
    using that demo_used [of k] by (auto simp: used_page_def demo_st_def page_addr_def PAGE_SIZE_def intro!: exI [of _ k])
  have "used_page demo_st 0x100000" "used_page demo_st 0x101000" "used_page demo_st 0x102000" "used_page demo_st 0x103000"
    using used [of 0] used [of 1] used [of 2] used [of 3] by simp_all
  then have pt: "pt_ok 0 demo_st 3 0x100000" using demo_tree by (simp add: pt_ok_def)
  have "pt_mem demo_st (ent x i) = 0" if f: "free_page demo_st x" and i: "i < 512" for x i
  proof -
    obtain k where k: "k < 64" "\<not> page_used (mem_pool demo_st) k" "x = page_addr (mem_pool demo_st) k" using f by (auto simp: free_page_def demo_st_def)
    then have "4 \<le> k" using demo_used by force
    then have "0x104000 \<le> unat x" using page_addr_nat(1) [OF pool, of k] k by (simp add: demo_st_def PAGE_SIZE_def)
    then have "0x104000 \<le> unat (ent x i)" using ent_nat [OF aligned_page [OF pool, of k, folded k(3)] i] k(1) by (simp add: demo_st_def)
    then show ?thesis by (simp add: demo_at)
  qed
  moreover have "unat (page_addr (mem_pool demo_st) k - 0) < 2 ^ 48" if "k < 64" for k
    using page_addr_nat(1) [OF pool, of k] that by (simp add: demo_st_def PAGE_SIZE_def)
  ultimately have "st_ok 0 demo_st" using pool by (auto simp: st_ok_def PAGE_SCRUB_ON_FREE_def demo_st_def)
  then show ?thesis using pt by (simp add: arm_tables_def demo_pgs_def)
qed

lemma demo_walk:
  assumes "idx 3 v = 0" "idx 2 v = 0"
  shows "twalk L 0 (pt_mem demo_st) 3 0x100000 v =
    (if idx 1 v = 1 then Some (L 1 0x140000701 v) else if idx 1 v = 3 then Some (L 1 0x80000701 v)
     else if idx 1 v = 4 then if idx 0 v = 0 then Some (L 0 0x80005703 v) else None else None)"
  using assms idx_less [of 0 v] idx_less [of 1 v]
  by (simp add: numeral_3_eq_3 numeral_2_eq_2 demo_mem demo_bits demo_nxt Let_def)

lemma demo_root: "root_table demo_pgs = 0x100000"
  by (simp add: demo_pgs_def)

lemma demo_levels: "page_level 0 demo_pgs demo_st 0x201000 = Some 1" "page_level 0 demo_pgs demo_st 0x600000 = Some 1"
  "page_level 0 demo_pgs demo_st 0x800123 = Some 0"
  by (simp_all add: page_level_def demo_root demo_walk idx_def)

lemma demo_translation: "translation 0 demo_pgs demo_st 0x3ff000 = Some (0x1401ff000, 0x701)" "translation 0 demo_pgs demo_st 0x200000 = Some (0x140000000, 0x701)"
  "translation 0 demo_pgs demo_st 0x600000 = Some (0x80000000, 0x701)" "translation 0 demo_pgs demo_st 0x800123 = Some (0x80005123, 0x701)"
  by (simp_all add: translation_def demo_root demo_walk idx_def leaf_def page_frame_def BIT_MASK_def take_bit_eq_mask mask_eq_exp_minus_1)

lemma demo_huge: "same_huge_page 0 demo_pgs demo_st 0x201000 v \<longleftrightarrow> same_blk 1 3 0x201000 v" "page_range 0x600000 0x200000 v \<longleftrightarrow> same_blk 1 3 0x600000 v"
proof -
  have "hit 0 (pt_mem demo_st) 3 0x100000 0x201000 = Some 1" using demo_levels(1) by (simp add: page_level_def demo_root)
  then show "same_huge_page 0 demo_pgs demo_st 0x201000 v \<longleftrightarrow> same_blk 1 3 0x201000 v" by (auto simp: same_huge_page_def in_block_hit demo_root)
  have "take_bit (pshift 1) (0x600000 :: u64) = 0" unfolding take_bit_0_mod by simp
  then show "page_range 0x600000 0x200000 v \<longleftrightarrow> same_blk 1 3 0x600000 v"
    using same_blk_range [of 1 "0x600000" 3 v] by (simp add: page_range_def vo_3(1) [of v] vo_3(2) [of "0x600000"] PAGE_ALIGN_def PAGE_SIZE_def PAGE_MASK_def)
qed

lemma demo_flags: "flags_ok 0x701" "bit (0x701 :: u64) 0"
  by (simp_all add: flags_ok_def bit_iff_odd)

lemma demo_alloc: "alloc_table demo_st \<noteq> Some (demo_st, 0)"
proof -
  have run: "free_run (mem_pool demo_st) 1 4" unfolding free_run_def
  proof (intro allI impI)
    fix k :: nat assume "4 \<le> k" "k < 4 + 1"
    then have "k = 4" by simp
    then show "k < searched (mem_pool demo_st) \<and> \<not> page_used (mem_pool demo_st) k" using demo_used [of 4] by (simp add: demo_st_def)
  qed
  have pool: "pool_ok (mem_pool demo_st)" by (simp add: pool_ok_def demo_st_def PAGE_SIZE_def)
  have one: "0 < (1 :: u32)" by simp
  have "\<exists>p a. page_alloc (mem_pool demo_st) 1 = Some (p, a) \<and> a \<noteq> 0"
    using one
  proof (cases rule: page_alloc_cases [where p = "mem_pool demo_st"])
    case (found s)
    then show ?thesis using free_run_pages [of "mem_pool demo_st" 1 s s] page_addr_nat(2) [OF pool, of s] by simp
  next
    case full
    then show ?thesis using run by simp
  qed
  then show ?thesis by (auto simp: alloc_table_def)
qed

lemma demo_create: "\<exists>st'. paging_create 0 demo_pgs 0x80000000 4096 0x201000 0x701 demo_st = Some (st', 0)"
proof -
  let ?c = "create_levels 3 0" and ?v = "0x201000 :: u64" and ?p = "0x80000000 :: u64"
  have al: "take_bit 12 ?v = 0" "take_bit 12 ?p = 0" "PAGE_ALIGN 4096 = 4096" by (simp_all add: aligned_nat PAGE_ALIGN_def PAGE_SIZE_def PAGE_MASK_def)
  have i: "idx 3 ?v = 0" "idx 2 ?v = 0" "idx 1 ?v = 1" by (simp_all add: idx_def)
  have nt: "\<not> (Suc n < 3 \<and> lvl_size (Suc n) \<le> 4096 \<and> take_bit (pshift (Suc n)) ?p = 0 \<and> take_bit (pshift (Suc n)) ?v = 0)" for n
    using lvl_size_facts(4,5) by (cases "Suc n < 3") (auto simp: less_Suc_eq numeral_3_eq_3 numeral_2_eq_2 not_le)
  have ok: "st_ok 0 demo_st" "pt_ok 0 demo_st 3 0x100000" using demo_tables by (simp_all add: arm_tables_def demo_root)
  have pk: "pt_ok 0 demo_st (Suc 0) 0x102000" using demo_tree(3) ok(2) unfolding pt_ok_def demo_tree(2,4) by simp
  obtain st1 err where s: "split_hugepage ?c 0 (lvl (Suc 0)) (levels 0) (ent 0x102000 1) ?v demo_st = Some (st1, err)" "err = 0"
  proof -
    have "split_spec ?c 0 0" using arm_splits by simp
    moreover have "idx (Suc 0) ?v = 1" using i(3) by simp
    moreover have "pt_mem demo_st (ent 0x102000 1) = 0x140000701" using demo_mem(3) [of 1] by simp
    ultimately show thesis using that ok(1) pk demo_alloc demo_bits(4,6) unfolding split_spec_def by metis
  qed
  have w0: "create_walk ?c 0 ?p 4096 ?v f (levels 0) x st = Some (put_entry st x (idx 0 ?v) (terminal_entry 0 ?p f), Inr 4096)" for f x st
    by (rule create_walk_0) (simp_all add: al)
  have w1: "\<exists>st2. create_walk ?c 0 ?p 4096 ?v f (levels (Suc 0)) 0x102000 demo_st = Some (st2, Inr 4096)" for f
    using s create_walk_Suc [of 0 ?c 0 ?p 4096 ?v f "0x102000" demo_st] nt [of 0] i(3) demo_mem(3) [of 1] demo_bits
    by (simp add: w0 del: fun_upd_apply)
  have down: "create_walk ?c 0 ?p 4096 ?v f (levels (Suc n)) t demo_st = create_walk ?c 0 ?p 4096 ?v f (levels n) (nxt 0 e) demo_st"
    if "n < 3" "pt_mem demo_st (ent t (idx (Suc n) ?v)) = e" "tbl e" for n t e f
    unfolding create_walk_Suc [OF that(1)] that(2) if_not_P [OF nt] using that(3) by (simp add: tbl_def that(2))
  have e: "pt_mem demo_st (ent 0x100000 (idx (Suc (Suc (Suc 0))) ?v)) = 0x101003" "pt_mem demo_st (ent 0x101000 (idx (Suc (Suc 0)) ?v)) = 0x102003"
    using i(1,2) demo_mem(1,2) [of 0] by (simp_all add: numeral_3_eq_3 numeral_2_eq_2)
  obtain st2 where w3: "create_walk ?c 0 ?p 4096 ?v 0x701 (levels 3) 0x100000 demo_st = Some (st2, Inr 4096)"
    using w1 [of "0x701"] down [OF _ e(1) demo_bits(1), of "0x701", unfolded demo_nxt] down [OF _ e(2) demo_bits(2), of "0x701", unfolded demo_nxt]
    by (auto simp: numeral_3_eq_3 simp del: create_levels.simps)
  show ?thesis unfolding create_arm [OF demo_tables] PAGE_MASK_aligned [OF al(1)] PAGE_MASK_aligned [OF al(2)] al(3)
    using w3 by (simp add: create_loop.simps [of _ _ _ _ 4096] create_loop.simps [of _ _ _ _ 0] demo_root demo_pgs_def levels_simps)
qed

lemma demo_masks: "and 0x201000 PAGE_MASK = 0x201000" "and 0x80000000 PAGE_MASK = 0x80000000" "PAGE_ALIGN 4096 = 4096" "PAGE_ALIGN 0x200000 = 0x200000"
  "and 0x600000 PAGE_MASK = 0x600000"
  by (simp_all add: PAGE_ALIGN_def PAGE_SIZE_def PAGE_MASK_def)

lemma demo_page: "page_range 0x201000 4096 0x201abc" "\<not> page_range 0x201000 4096 0x600000" "\<not> page_range 0x201000 4096 0x3ff000"
  by (simp_all add: page_range_def demo_masks take_bit_eq_mask mask_eq_exp_minus_1)

theorem paging_create_maps_witness:
  "\<exists>st'. paging_create 0 demo_pgs 0x80000000 4096 0x201000 0x701 demo_st = Some (st', 0) \<and> arm_tables 0 demo_pgs st' \<and>
    translation 0 demo_pgs st' 0x201abc = Some (0x80000abc, 0x701)"
proof -
  obtain st1 where c: "paging_create 0 demo_pgs 0x80000000 4096 0x201000 0x701 demo_st = Some (st1, 0)" using demo_create by blast
  have "\<exists>st' err. paging_create 0 demo_pgs 0x80000000 4096 0x201000 0x701 demo_st = Some (st', err) \<and> arm_tables 0 demo_pgs st' \<and> err \<in> {0, - ENOMEM} \<and>
    (err = 0 \<longrightarrow> (\<forall>v. page_range 0x201000 4096 v \<longrightarrow>
       translation 0 demo_pgs st' v = Some (and 0x80000000 PAGE_MASK + (take_bit 48 v - and 0x201000 PAGE_MASK), 0x701)))"
    by (rule paging_create_maps [OF demo_tables demo_flags]) (simp_all add: demo_masks)
  then have "arm_tables 0 demo_pgs st1" "translation 0 demo_pgs st1 0x201abc = Some (and 0x80000000 PAGE_MASK + (take_bit 48 0x201abc - and 0x201000 PAGE_MASK), 0x701)"
    using demo_page(1) unfolding c by auto
  then show ?thesis using c by (simp add: demo_masks take_bit_eq_mask mask_eq_exp_minus_1)
qed

theorem paging_create_keeps_others_witness:
  "\<exists>st'. paging_create 0 demo_pgs 0x80000000 4096 0x201000 0x701 demo_st = Some (st', 0) \<and> translation 0 demo_pgs st' 0x600000 = Some (0x80000000, 0x701)"
proof -
  obtain st1 where c: "paging_create 0 demo_pgs 0x80000000 4096 0x201000 0x701 demo_st = Some (st1, 0)" using demo_create by blast
  have "translation 0 demo_pgs st1 0x600000 = translation 0 demo_pgs demo_st 0x600000"
    by (rule paging_create_keeps_others [OF demo_tables demo_flags(1) _ _ _ c demo_page(2)]) (simp_all add: demo_masks demo_translation)
  then show ?thesis using c by (simp add: demo_translation)
qed

theorem paging_create_page_example:
  "\<exists>st'. paging_create 0 demo_pgs 0x80000000 4096 0x201000 0x701 demo_st = Some (st', 0) \<and>
    translation 0 demo_pgs demo_st 0x3ff000 = Some (0x1401ff000, 0x701) \<and> translation 0 demo_pgs st' 0x3ff000 = Some (0x401ff000, 0x701)"
proof -
  obtain st1 where c: "paging_create 0 demo_pgs 0x80000000 4096 0x201000 0x701 demo_st = Some (st1, 0)" using demo_create by blast
  have "take_bit 12 (0x201000 :: u64) = 0" "take_bit 12 (0x80000000 :: u64) = 0" by (simp_all add: aligned_nat)
  moreover have "unat (0x201000 :: u64) < 2 ^ 48" "unat (0x80000000 :: u64) < 2 ^ 48" by simp_all
  moreover have "same_huge_page 0 demo_pgs demo_st 0x201000 0x3ff000" unfolding demo_huge same_blk_vo by (simp add: vo_def)
  ultimately have "translation 0 demo_pgs st1 0x3ff000 = map_option tr32 (translation 0 demo_pgs demo_st 0x3ff000)"
    using paging_create_page [OF demo_tables demo_flags _ _ _ _ c, of "0x3ff000"] demo_page(3) by simp
  then show ?thesis using c by (simp add: demo_translation tr32_def take_bit_eq_mask mask_eq_exp_minus_1)
qed

lemma demo_block: "page_range 0x600000 0x200000 w \<Longrightarrow> same_huge_page 0 demo_pgs demo_st w v \<longleftrightarrow> same_blk 1 3 0x600000 v"
  "page_range 0x600000 0x200000 w \<Longrightarrow> translation 0 demo_pgs demo_st w \<noteq> None"
proof -
  have h0: "hit 0 (pt_mem demo_st) 3 0x100000 0x600000 = Some 1" using demo_levels(2) by (simp add: page_level_def demo_root)
  assume w: "page_range 0x600000 0x200000 w"
  then have s: "same_blk 1 3 0x600000 w" by (simp only: demo_huge)
  have h: "hit 0 (pt_mem demo_st) 3 0x100000 w = Some 1" by (rule hit_same [OF h0 s])
  then show "translation 0 demo_pgs demo_st w \<noteq> None" using twalk_None [of leaf 0 "pt_mem demo_st" 3 "0x100000" w] by (simp add: translation_def demo_root)
  have "same_blk 1 3 w v \<longleftrightarrow> same_blk 1 3 0x600000 v" using s same_blk_sym same_blk_trans by blast
  then show "same_huge_page 0 demo_pgs demo_st w v \<longleftrightarrow> same_blk 1 3 0x600000 v" using h by (auto simp: same_huge_page_def in_block_hit demo_root)
qed

theorem paging_destroy_unmaps_witness:
  "\<exists>st'. paging_destroy 0 demo_pgs 0x600000 0x200000 demo_st = Some (st', 0) \<and> arm_tables 0 demo_pgs st' \<and>
    translation 0 demo_pgs st' 0x7ff000 = None \<and> translation 0 demo_pgs st' 0x200000 = Some (0x140000000, 0x701)"
proof -
  have a: "take_bit 12 (0x600000 :: u64) = 0" "unat (0x600000 :: u64) < 2 ^ 48" by (simp_all add: aligned_nat)
  have b: "unat (0x600000 :: u64) + unat (PAGE_ALIGN 0x200000) \<le> 2 ^ 48" by (simp add: demo_masks)
  have c: "\<forall>v. page_range 0x600000 0x200000 v \<longrightarrow> translation 0 demo_pgs demo_st v \<noteq> None" using demo_block(2) by blast
  have d: "\<forall>b. page_level 0 demo_pgs demo_st 0x600000 = Some b \<longrightarrow> take_bit (pshift b) (0x600000 :: u64) = 0"
    by (simp add: demo_levels take_bit_eq_mask mask_eq_exp_minus_1)
  have full: "\<forall>w v. page_range 0x600000 0x200000 w \<longrightarrow> same_huge_page 0 demo_pgs demo_st w v \<longrightarrow> page_range 0x600000 0x200000 v"
    using demo_block(1) demo_huge(2) by blast
  have i: "page_range 0x600000 0x200000 0x7ff000" "\<not> page_range 0x600000 0x200000 0x200000"
    by (simp_all add: page_range_def demo_masks take_bit_eq_mask mask_eq_exp_minus_1)
  have far: "\<forall>w. page_range 0x600000 0x200000 w \<longrightarrow> \<not> same_huge_page 0 demo_pgs demo_st w 0x200000"
    using demo_block(1) demo_huge(2) i(2) by blast
  show ?thesis using paging_destroy_unmaps [OF demo_tables a b c d] full i far demo_translation(2) by metis
qed

theorem paging_destroy_adds_nothing_example:
  "\<exists>st' err. paging_destroy 0 demo_pgs 0x201000 4096 demo_st = Some (st', err) \<and> arm_tables 0 demo_pgs st' \<and> translation 0 demo_pgs st' 0x400000 = None"
proof -
  have "translation 0 demo_pgs demo_st 0x400000 = None" by (simp add: translation_def demo_root demo_walk idx_def)
  then show ?thesis using paging_destroy_adds_nothing [OF demo_tables, of "0x201000" 4096] by (metis insertE option.map_disc_iff singletonD)
qed

theorem paging_destroy_huge_page_example:
  "\<exists>st'. paging_destroy 0 demo_pgs 0x201000 (lvl_step 1) demo_st = Some (st', 0) \<and> translation 0 demo_pgs st' 0x200000 = None \<and>
    translation 0 demo_pgs st' 0x600000 = Some (0x80000000, 0x701)"
proof -
  have "same_huge_page 0 demo_pgs demo_st 0x201000 0x200000" "\<not> same_huge_page 0 demo_pgs demo_st 0x201000 0x600000"
    unfolding demo_huge same_blk_vo by (simp_all add: vo_def)
  then show ?thesis using paging_destroy_huge_page [OF demo_tables demo_levels(1)] demo_translation(3) by auto
qed

theorem paging_virt2phys_result_example:
  "paging_virt2phys 0 demo_pgs 0x800123 1 (pt_mem demo_st) = Some 0x80805000 \<and> translation 0 demo_pgs demo_st 0x800123 = Some (0x80005123, 0x701)"
  using paging_virt2phys_result [OF demo_tables, of "0x800123" 1] by (simp add: demo_translation demo_levels PAGE_MASK_def PAGE_SIZE_def)

end
