(* ===== verification/Coloring.thy ===== *)
theory Coloring
  imports Mmio
begin

text \<open>
  Cache colouring (\<open>hypervisor/arch/arm-common/coloring.c\<close> and \<open>ranges_in_mask\<close> of
  \<open>coloring-common.h\<close>): a coloured memory region is cut into fragments, the pieces of physical memory
  of its colours, which are mapped behind each other in the cell.

  The operations on a fragment are parameters. The scan of the colour mask reads one entry behind
  the array: its value is the parameter \<open>beyond\<close>.
\<close>

record jailhouse_color_desc =
  fragment_unit_size :: u64
  fragment_unit_offset :: u64
  cachesize :: u64

record jailhouse_memory_colored =
  col_memory :: jailhouse_memory
  col_colors :: u64

datatype failure_mode = ABORT_ON_ERROR | WARN_ON_ERROR

datatype col_operation = CREATE | DESTROY | START | LOADABLE | DCACHE

record 's col_manage_functions =
  create_unmap_root_f :: "jailhouse_memory \<Rightarrow> 's \<Rightarrow> 's \<times> int"
  create_subpage_f :: "jailhouse_memory \<Rightarrow> 's \<Rightarrow> 's \<times> int"
  create_map_f :: "jailhouse_memory \<Rightarrow> 's \<Rightarrow> 's \<times> int"
  destroy_unmap_f :: "jailhouse_memory \<Rightarrow> 's \<Rightarrow> 's \<times> int"
  destroy_remap_root_f :: "jailhouse_memory \<Rightarrow> failure_mode \<Rightarrow> 's \<Rightarrow> 's \<times> int"
  start_unmap_root_f :: "jailhouse_memory \<Rightarrow> 's \<Rightarrow> 's \<times> int"
  loadable_remap_root_f :: "jailhouse_memory \<Rightarrow> failure_mode \<Rightarrow> 's \<Rightarrow> 's \<times> int"
  flush_piece :: "u64 \<Rightarrow> u64 \<Rightarrow> 's \<Rightarrow> 's"

subsection \<open>Ranges of a mask\<close>

text \<open>The loop \<open>while (mask[++j] && j < size)\<close>, from the incremented \<open>j\<close> on.\<close>

function scan_end :: "bool \<Rightarrow> bool list \<Rightarrow> nat \<Rightarrow> nat" where
  "scan_end beyond msk j =
     (if (if j < length msk then msk ! j else beyond) \<and> j < length msk then scan_end beyond msk (j + 1) else j)"
  by pat_completeness auto

termination
  by (relation "measure (\<lambda>(beyond, msk, j). length msk - j)") auto

declare scan_end.simps [simp del]

lemma scan_end_ge: "j \<le> scan_end beyond msk j"
proof (induction beyond msk j rule: scan_end.induct)
  case (1 beyond msk j)
  then show ?case by (subst scan_end.simps) (auto dest: Suc_leD)
qed

function ranges_loop :: "bool \<Rightarrow> bool list \<Rightarrow> nat \<Rightarrow> nat \<Rightarrow> int list \<Rightarrow> int list option" where
  "ranges_loop beyond msk k current_value vals =
     (if k < length msk then
        if msk ! k then
          let j = scan_end beyond msk (k + 1) in
          arr_set vals current_value (int k) \<bind> (\<lambda>v1.
          arr_set v1 (current_value + 1) (int j - 1) \<bind> (\<lambda>v2.
          ranges_loop beyond msk (j + 1) (current_value + 2) v2))
        else ranges_loop beyond msk (k + 1) current_value vals
      else Some vals)"
  by pat_completeness auto

termination
proof (relation "measure (\<lambda>(beyond, msk, k, _). length msk - k)", goal_cases)
  case (2 beyond msk k current_value vals x xa xb)
  then show ?case using scan_end_ge [of "k + 1" beyond msk] by simp
qed auto

declare ranges_loop.simps [simp del]

definition ranges_in_mask :: "bool \<Rightarrow> bool list \<Rightarrow> int list option" where
  "ranges_in_mask beyond msk = ranges_loop beyond msk 0 0 (replicate (length msk * 2) (- 1))"

subsection \<open>Fragments\<close>

text \<open>The conversion of a 64-bit value to a loop bound of type \<open>int\<close>.\<close>

definition int_bound :: "u64 \<Rightarrow> nat" where
  "int_bound w = nat (sint (ucast w :: u32))"

definition MAX_COLORS :: "jailhouse_color_desc \<Rightarrow> nat" where
  "MAX_COLORS desc = int_bound (fragment_unit_offset desc div fragment_unit_size desc)"

definition color_mask :: "nat \<Rightarrow> u64 \<Rightarrow> bool list" where
  "color_mask n colors = map (\<lambda>i. bit colors (n - 1 - i)) [0..<n]"

text \<open>The inner loop over the ranges, with the running virtual address; entries of -1 are skipped.\<close>

fun range_fragments :: "u64 \<Rightarrow> u64 \<Rightarrow> u64 \<Rightarrow> u64 \<Rightarrow> int list \<Rightarrow> jailhouse_memory list \<times> u64" where
  "range_fragments f_size base flags vstart (i # j # rest) =
     (if i = - 1 then range_fragments f_size base flags vstart rest
      else
        let sz = of_int (j - i + 1) * f_size;
            frag = \<lparr>phys_start = base + of_int i * f_size, virt_start = vstart, mem_size = sz, mem_flags = flags\<rparr>;
            (frags, vend) = range_fragments f_size base flags (vstart + sz) rest in
        (frag # frags, vend))"
| "range_fragments f_size base flags vstart _ = ([], vstart)"

primrec row_fragments :: "u64 \<Rightarrow> u64 \<Rightarrow> u64 \<Rightarrow> u64 \<Rightarrow> int list \<Rightarrow> nat list \<Rightarrow> u64 \<Rightarrow> jailhouse_memory list" where
  "row_fragments f_size f_offset pstart flags ranges [] vstart = []"
| "row_fragments f_size f_offset pstart flags ranges (r # rs) vstart =
     (let (frags, vend) = range_fragments f_size (pstart + of_nat r * f_offset) flags vstart ranges in
      frags @ row_fragments f_size f_offset pstart flags ranges rs vend)"

text \<open>The division by a fragment size of 0 and a mask array without entries are undefined.\<close>

definition colored_fragments :: "bool \<Rightarrow> jailhouse_color_desc \<Rightarrow> jailhouse_memory_colored \<Rightarrow> jailhouse_memory list option" where
  "colored_fragments beyond desc col_mem =
     (if fragment_unit_size desc = 0 \<or> MAX_COLORS desc = 0 then None
      else
        ranges_in_mask beyond (color_mask (MAX_COLORS desc) (col_colors col_mem)) \<bind> (\<lambda>ranges.
        let mem = col_memory col_mem; rows = int_bound (mem_size mem div fragment_unit_offset desc) in
        Some (row_fragments (fragment_unit_size desc) (fragment_unit_offset desc) (phys_start mem) (mem_flags mem) ranges
                [0..<rows] (virt_start mem))))"

subsection \<open>Operations\<close>

definition JAILHOUSE_MEM_COMM_REGION :: u64 where
  "JAILHOUSE_MEM_COMM_REGION = 0x20"

definition JAILHOUSE_MEM_LOADABLE :: u64 where
  "JAILHOUSE_MEM_LOADABLE = 0x40"

definition JAILHOUSE_MEM_ROOTSHARED :: u64 where
  "JAILHOUSE_MEM_ROOTSHARED = 0x80"

definition NUM_TEMPORARY_PAGES :: nat where
  "NUM_TEMPORARY_PAGES = 16"

function flush_region :: "(u64 \<Rightarrow> u64 \<Rightarrow> 's \<Rightarrow> 's) \<Rightarrow> u64 \<Rightarrow> u64 \<Rightarrow> 's \<Rightarrow> 's" where
  "flush_region fl region_addr region_size s =
     (if region_size > 0 then
        let sz = min region_size (of_nat (NUM_TEMPORARY_PAGES * PAGE_SIZE)) in
        flush_region fl (region_addr + sz) (region_size - sz) (fl region_addr sz s)
      else s)"
  by pat_completeness auto

termination
proof (relation "measure (\<lambda>(fl, region_addr, region_size, s). unat region_size)", goal_cases)
  case (2 fl region_addr region_size s sz)
  then have "0 < sz" "sz \<le> region_size" by (simp_all add: NUM_TEMPORARY_PAGES_def PAGE_SIZE_def)
  then show ?case by (simp add: unat_sub word_less_nat_alt word_le_nat_alt)
qed simp

declare flush_region.simps [simp del]

definition shared_with_root :: "jailhouse_memory \<Rightarrow> bool" where
  "shared_with_root mem \<longleftrightarrow> and (mem_flags mem) (or JAILHOUSE_MEM_COMM_REGION JAILHOUSE_MEM_ROOTSHARED) \<noteq> 0"

definition fragment_operation :: "'s col_manage_functions \<Rightarrow> col_operation \<Rightarrow> jailhouse_memory \<Rightarrow> 's \<Rightarrow> 's \<times> int" where
  "fragment_operation fs type frag s =
     (case type of
        CREATE \<Rightarrow>
          let (s1, err) = (if \<not> shared_with_root frag then create_unmap_root_f fs frag s else (s, 0)) in
          if err \<noteq> 0 then (s1, err)
          else if JAILHOUSE_MEMORY_IS_SUBPAGE frag then create_subpage_f fs frag s1 else create_map_f fs frag s1
      | DESTROY \<Rightarrow>
          let (s1, err) = (if \<not> JAILHOUSE_MEMORY_IS_SUBPAGE frag then destroy_unmap_f fs frag s else (s, 0)) in
          if err \<noteq> 0 then (s1, err)
          else if \<not> shared_with_root frag then destroy_remap_root_f fs frag WARN_ON_ERROR s1 else (s1, 0)
      | START \<Rightarrow> if and (mem_flags frag) JAILHOUSE_MEM_LOADABLE \<noteq> 0 then start_unmap_root_f fs frag s else (s, 0)
      | LOADABLE \<Rightarrow> if and (mem_flags frag) JAILHOUSE_MEM_LOADABLE \<noteq> 0 then loadable_remap_root_f fs frag ABORT_ON_ERROR s else (s, 0)
      | DCACHE \<Rightarrow> (flush_region (flush_piece fs) (phys_start frag) (mem_size frag) s, 0))"

primrec manage_fragments :: "'s col_manage_functions \<Rightarrow> col_operation \<Rightarrow> jailhouse_memory list \<Rightarrow> 's \<Rightarrow> 's \<times> int" where
  "manage_fragments fs type [] s = (s, 0)"
| "manage_fragments fs type (frag # frags) s =
     (let (s1, err) = fragment_operation fs type frag s in
      if err \<noteq> 0 then (s1, err) else manage_fragments fs type frags s1)"

definition manage_colored_regions ::
  "bool \<Rightarrow> jailhouse_color_desc \<Rightarrow> jailhouse_memory_colored \<Rightarrow> 's col_manage_functions \<Rightarrow> col_operation \<Rightarrow> 's \<Rightarrow> ('s \<times> int) option" where
  "manage_colored_regions beyond desc col_mem fs type s =
     colored_fragments beyond desc col_mem \<bind> (\<lambda>frags. Some (manage_fragments fs type frags s))"

subsection \<open>Runs of set entries\<close>

lemma scan_end_spec:
  assumes "j \<le> length m"
  shows "scan_end b m j \<le> length m" "j \<le> t \<Longrightarrow> t < scan_end b m j \<Longrightarrow> m ! t" "scan_end b m j < length m \<Longrightarrow> \<not> m ! scan_end b m j"
proof -
  have "scan_end b m j \<le> length m \<and> (\<forall>t. j \<le> t \<longrightarrow> t < scan_end b m j \<longrightarrow> m ! t) \<and> (scan_end b m j < length m \<longrightarrow> \<not> m ! scan_end b m j)"
    using assms
  proof (induction b m j rule: scan_end.induct)
    case (1 b m j)
    show ?case
    proof (cases "j < length m \<and> m ! j")
      case True
      then have e: "scan_end b m j = scan_end b m (j + 1)" by (subst scan_end.simps) simp
      have ih: "scan_end b m (j + 1) \<le> length m \<and> (\<forall>t. j + 1 \<le> t \<longrightarrow> t < scan_end b m (j + 1) \<longrightarrow> m ! t) \<and>
          (scan_end b m (j + 1) < length m \<longrightarrow> \<not> m ! scan_end b m (j + 1))"
        by (rule "1.IH") (use True in simp_all)
      have "m ! t" if "j \<le> t" "t < scan_end b m (j + 1)" for t using ih that True by (cases "t = j") auto
      then show ?thesis unfolding e using ih by blast
    next
      case False
      then have "scan_end b m j = j" by (subst scan_end.simps) auto
      then show ?thesis using False "1.prems" by auto
    qed
  qed
  then show "scan_end b m j \<le> length m" "j \<le> t \<Longrightarrow> t < scan_end b m j \<Longrightarrow> m ! t" "scan_end b m j < length m \<Longrightarrow> \<not> m ! scan_end b m j" by blast+
qed

text \<open>The entries of the array for a list of ranges, and the colours of the ranges.\<close>

definition flat :: "(nat \<times> nat) list \<Rightarrow> int list" where
  "flat ps = concat (map (\<lambda>(i, j). [int i, int j]) ps)"

definition range_colors :: "(nat \<times> nat) list \<Rightarrow> nat list" where
  "range_colors ps = concat (map (\<lambda>(i, j). [i..<Suc j]) ps)"

lemma flat_simps [simp]: "flat [] = []" "flat ((i, j) # ps) = int i # int j # flat ps" "flat (ps @ qs) = flat ps @ flat qs" "length (flat ps) = 2 * length ps"
proof -
  show "length (flat ps) = 2 * length ps" by (induction ps) (auto simp: flat_def)
qed (simp_all add: flat_def)

lemma range_colors_simps [simp]: "range_colors [] = []" "range_colors ((i, j) # ps) = [i..<Suc j] @ range_colors ps"
  by (simp_all add: range_colors_def)

lemma filter_run:
  fixes b :: bool
  assumes "k < length m" "m ! k"
  defines "j \<equiv> scan_end b m (k + 1)"
  shows "filter ((!) m) [k..<length m] = [k..<j] @ filter ((!) m) [j + 1..<length m]"
proof -
  note s = scan_end_spec [where j = "k + 1" and m = m and b = b, folded j_def]
  have j: "k < j" "j \<le> length m" using scan_end_ge [of "k + 1" b m] s(1) assms(1) by (simp_all add: j_def)
  have sp: "[k..<length m] = [k..<j] @ [j..<length m]" using j upt_add_eq_append [of k j "length m - j"] by simp
  have t: "m ! i" if "i \<in> set [k..<j]" for i using s(2) [of i] assms(1,2) that by (cases "i = k") auto
  have "filter ((!) m) [k..<j] = [k..<j]" using t by (simp add: filter_id_conv)
  moreover have "filter ((!) m) [j..<length m] = filter ((!) m) [j + 1..<length m]"
    using s(3) assms(1) j(2) by (cases "j < length m") (simp_all add: upt_conv_Cons)
  ultimately show ?thesis by (simp add: sp)
qed

lemma ranges_loop_spec:
  assumes "vals = flat ps @ replicate (2 * length m - 2 * length ps) (- 1)" "2 * length ps \<le> k" "length ps \<le> length m"
  shows "\<exists>qs. ranges_loop b m k (2 * length ps) vals = Some (flat (ps @ qs) @ replicate (2 * length m - 2 * length (ps @ qs)) (- 1)) \<and>
    range_colors qs = filter ((!) m) [k..<length m] \<and> (\<forall>(i, j)\<in>set qs. i \<le> j \<and> j < length m) \<and> length (ps @ qs) \<le> length m"
  using assms
proof (induction "length m - k" arbitrary: k ps vals rule: less_induct)
  case less
  show ?case
  proof (cases "k < length m")
    case False
    then show ?thesis using less.prems by (subst ranges_loop.simps) (intro exI [of _ "[]"], simp)
  next
    case k: True
    show ?thesis
    proof (cases "m ! k")
      case False
      have e: "ranges_loop b m k (2 * length ps) vals = ranges_loop b m (k + 1) (2 * length ps) vals"
        using k False by (subst ranges_loop.simps) simp
      have f: "filter ((!) m) [k..<length m] = filter ((!) m) [k + 1..<length m]" using k False by (simp add: upt_conv_Cons)
      have "length m - (k + 1) < length m - k" using k by simp
      then show ?thesis unfolding e f using less.hyps [of "k + 1" vals ps] less.prems by simp
    next
      case True
      define j where "j = scan_end b m (k + 1)"
      have js: "scan_end b m (Suc k) = j" by (simp add: j_def)
      note s = scan_end_spec [where j = "k + 1" and m = m and b = b, folded j_def]
      have j: "k < j" "j \<le> length m" using scan_end_ge [of "k + 1" b m] s(1) k by (simp_all add: j_def)
      let ?n = "2 * length m - 2 * length ps" and ?ps = "ps @ [(k, j - 1)]"
      have n: "2 \<le> ?n" "?n = Suc (Suc (2 * length m - 2 * length ?ps))" using less.prems(2) k by simp_all
      define v where "v = flat ?ps @ replicate (2 * length m - 2 * length ?ps) (- 1)"
      have rep: "replicate ?n (- 1 :: int) = - 1 # - 1 # replicate (2 * length m - 2 * length ?ps) (- 1)" by (simp only: n(2) replicate.simps)
      have a: "arr_set vals (2 * length ps) (int k) \<bind> (\<lambda>v1. arr_set v1 (2 * length ps + 1) (int j - 1)) = Some v"
        using j(1) unfolding less.prems(1) rep by (simp add: arr_set_def list_update_append v_def)
      have e: "ranges_loop b m k (2 * length ps) vals = ranges_loop b m (j + 1) (2 * length ?ps) v"
        using k True a by (subst ranges_loop.simps) (auto simp: Let_def js bind_eq_Some_conv)
      have lt: "length m - (j + 1) < length m - k" using j k by simp
      obtain qs where qs: "ranges_loop b m (j + 1) (2 * length ?ps) v = Some (flat (?ps @ qs) @ replicate (2 * length m - 2 * length (?ps @ qs)) (- 1))"
        "range_colors qs = filter ((!) m) [j + 1..<length m]" "\<forall>(i, j)\<in>set qs. i \<le> j \<and> j < length m" "length (?ps @ qs) \<le> length m"
        using less.hyps [OF lt v_def] j less.prems(2) k by auto
      have "range_colors ((k, j - 1) # qs) = filter ((!) m) [k..<length m]"
        unfolding filter_run [OF k True, of b, folded j_def] using j(1) by (simp add: qs(2))
      then show ?thesis using e qs j by (intro exI [of _ "(k, j - 1) # qs"]) auto
    qed
  qed
qed

text \<open>The entry behind the array plays no part: the ranges are those of the mask.\<close>

lemma ranges_in_mask_spec:
  obtains qs where "ranges_in_mask b m = Some (flat qs @ replicate (2 * length m - 2 * length qs) (- 1))"
    "range_colors qs = filter ((!) m) [0..<length m]" "\<forall>(i, j)\<in>set qs. i \<le> j \<and> j < length m" "length qs \<le> length m"
  using ranges_loop_spec [of "replicate (length m * 2) (- 1)" "[]" m 0 b] by (auto simp: ranges_in_mask_def mult.commute)

subsection \<open>Units of memory\<close>

text \<open>
  A fragment is a run of units of the fragment size. The units of a list of physical addresses, mapped
  behind each other from a virtual address on:
\<close>

primrec contiguous :: "u64 \<Rightarrow> u64 \<Rightarrow> u64 list \<Rightarrow> (u64 \<times> u64) list" where
  "contiguous f v [] = []"
| "contiguous f v (p # ps) = (v, p) # contiguous f (v + f) ps"

definition fragment_units :: "u64 \<Rightarrow> jailhouse_memory \<Rightarrow> (u64 \<times> u64) list" where
  "fragment_units f frag =
     contiguous f (virt_start frag) (map (\<lambda>t. phys_start frag + of_nat t * f) [0..<unat (mem_size frag) div unat f])"

lemma contiguous_append: "contiguous f v (ps @ qs) = contiguous f v ps @ contiguous f (v + of_nat (length ps) * f) qs"
  by (induction ps arbitrary: v) (simp_all add: algebra_simps)

primrec pair_fragments :: "u64 \<Rightarrow> u64 \<Rightarrow> u64 \<Rightarrow> u64 \<Rightarrow> (nat \<times> nat) list \<Rightarrow> jailhouse_memory list" where
  "pair_fragments f base flags v [] = []"
| "pair_fragments f base flags v (q # qs) =
     (let sz = of_nat (Suc (snd q) - fst q) * f in
      \<lparr>phys_start = base + of_nat (fst q) * f, virt_start = v, mem_size = sz, mem_flags = flags\<rparr>
        # pair_fragments f base flags (v + sz) qs)"

lemma range_fragments_skip: "range_fragments f base flags v (replicate (2 * n) (- 1)) = ([], v)"
  by (induction n) simp_all

lemma range_fragments_flat:
  assumes "\<forall>(i, j)\<in>set qs. i \<le> j"
  shows "range_fragments f base flags v (flat qs @ replicate (2 * n) (- 1))
    = (pair_fragments f base flags v qs, v + of_nat (length (range_colors qs)) * f)"
  using assms
proof (induction qs arbitrary: v)
  case Nil
  then show ?case by (simp add: range_fragments_skip)
next
  case (Cons q qs)
  obtain i j where q: "q = (i, j)" by fastforce
  then have "(of_int (int j - int i + 1) :: u64) = of_nat (Suc j - i)" using Cons.prems by (simp add: of_nat_diff)
  then show ?case using Cons by (simp add: q Let_def algebra_simps del: upt_Suc)
qed

lemma unat_units:
  fixes f :: u64
  assumes "n * unat f < 2 ^ 64"
  shows "unat (of_nat n * f) = n * unat f"
proof -
  have "of_nat n * f = of_nat (n * unat f)" by simp
  then show ?thesis using assms by (simp only: unat_of_nat) simp
qed

lemma fragment_units_pair:
  assumes "i \<le> j" "(Suc j - i) * unat f < 2 ^ 64" "0 < f" "phys_start frag = base + of_nat i * f" "mem_size frag = of_nat (Suc j - i) * f"
  shows "fragment_units f frag = contiguous f (virt_start frag) (map (\<lambda>c. base + of_nat c * f) [i..<Suc j])"
proof -
  have "unat (mem_size frag) div unat f = Suc j - i"
    using assms(3) by (simp add: assms(5) unat_units [OF assms(2)] word_less_nat_alt del: of_nat_diff)
  moreover have "map (\<lambda>t. phys_start frag + of_nat t * f) [0..<Suc j - i] = map (\<lambda>c. base + of_nat c * f) [i..<Suc j]"
    by (rule nth_equalityI) (simp_all add: assms(4) algebra_simps del: upt_Suc)
  ultimately show ?thesis by (simp add: fragment_units_def)
qed

lemma pair_fragments_units:
  assumes "\<forall>(i, j)\<in>set qs. i \<le> j \<and> j < C" "C * unat f < 2 ^ 64" "0 < f"
  shows "concat (map (fragment_units f) (pair_fragments f base flags v qs)) = contiguous f v (map (\<lambda>c. base + of_nat c * f) (range_colors qs))"
  using assms(1)
proof (induction qs arbitrary: v)
  case (Cons q qs)
  obtain i j where q: "q = (i, j)" by fastforce
  have ij: "i \<le> j" "j < C" using Cons.prems by (auto simp: q)
  have "(Suc j - i) * unat f \<le> C * unat f" using ij by (intro mult_le_mono1) simp
  then have s: "(Suc j - i) * unat f < 2 ^ 64" using assms(2) by (rule le_less_trans)
  show ?case using Cons fragment_units_pair [OF ij(1) s assms(3)]
    by (simp add: q Let_def contiguous_append del: upt_Suc of_nat_diff)
qed simp

lemma row_fragments_units:
  assumes "\<forall>(i, j)\<in>set qs. i \<le> j \<and> j < C" "C * unat f < 2 ^ 64" "0 < f"
  shows "concat (map (fragment_units f) (row_fragments f off ps flags (flat qs @ replicate (2 * n) (- 1)) rs v))
    = contiguous f v (map (\<lambda>(r, c). ps + of_nat r * off + of_nat c * f) (List.product rs (range_colors qs)))"
proof (induction rs arbitrary: v)
  case (Cons r rs)
  have "\<forall>(i, j)\<in>set qs. i \<le> j" using assms(1) by auto
  then show ?case using Cons by (simp add: range_fragments_flat contiguous_append pair_fragments_units [OF assms] comp_def)
qed simp

subsection \<open>Coloured regions\<close>

text \<open>The number of colours and of rows of a region, and the colours its mask selects; the colour 0 is the highest bit.\<close>

definition color_count :: "jailhouse_color_desc \<Rightarrow> nat" where
  "color_count desc = unat (fragment_unit_offset desc) div unat (fragment_unit_size desc)"

definition row_count :: "jailhouse_color_desc \<Rightarrow> jailhouse_memory_colored \<Rightarrow> nat" where
  "row_count desc col_mem = unat (mem_size (col_memory col_mem)) div unat (fragment_unit_offset desc)"

definition region_colors :: "jailhouse_color_desc \<Rightarrow> jailhouse_memory_colored \<Rightarrow> nat list" where
  "region_colors desc col_mem = filter (\<lambda>c. bit (col_colors col_mem) (color_count desc - 1 - c)) [0..<color_count desc]"

text \<open>The units are not larger than the rows and the loop bounds are \<open>int\<close>s.\<close>

definition colors_ok :: "jailhouse_color_desc \<Rightarrow> jailhouse_memory_colored \<Rightarrow> bool" where
  "colors_ok desc col_mem \<longleftrightarrow> 0 < fragment_unit_size desc \<and> fragment_unit_size desc \<le> fragment_unit_offset desc
     \<and> color_count desc < 2 ^ 31 \<and> row_count desc col_mem < 2 ^ 31"

lemma int_bound_small:
  assumes "unat w < 2 ^ 31"
  shows "int_bound w = unat w"
proof -
  have "sint (ucast w :: u32) = signed_take_bit 31 (int (unat w))" by (simp add: signed_ucast_eq)
  moreover have "signed_take_bit 31 (int n) = int n" if "n < 2 ^ 31" for n using that by (intro signed_take_bit_int_eq_self) simp_all
  ultimately show ?thesis using assms by (simp only: int_bound_def nat_int)
qed

lemma colors_okD:
  assumes "colors_ok desc col_mem"
  shows "0 < unat (fragment_unit_size desc)" "0 < color_count desc" "MAX_COLORS desc = color_count desc"
    "int_bound (mem_size (col_memory col_mem) div fragment_unit_offset desc) = row_count desc col_mem"
    "color_count desc * unat (fragment_unit_size desc) \<le> unat (fragment_unit_offset desc)"
    "color_count desc * unat (fragment_unit_size desc) < 2 ^ 64"
proof -
  show p: "0 < unat (fragment_unit_size desc)" using assms by (simp add: colors_ok_def word_less_nat_alt)
  have l: "unat (fragment_unit_size desc) \<le> unat (fragment_unit_offset desc)" using assms by (simp add: colors_ok_def word_le_nat_alt)
  show "0 < color_count desc" using p l by (simp add: color_count_def div_greater_zero_iff)
  show "MAX_COLORS desc = color_count desc"
    using assms int_bound_small by (simp add: MAX_COLORS_def colors_ok_def color_count_def unat_div)
  show "int_bound (mem_size (col_memory col_mem) div fragment_unit_offset desc) = row_count desc col_mem"
    using assms int_bound_small by (simp add: colors_ok_def row_count_def unat_div)
  show c: "color_count desc * unat (fragment_unit_size desc) \<le> unat (fragment_unit_offset desc)" by (simp add: color_count_def)
  have "unat (fragment_unit_offset desc) < 2 ^ LENGTH(64)" by (rule unsigned_less)
  then show "color_count desc * unat (fragment_unit_size desc) < 2 ^ 64" using c by simp
qed

lemma color_mask_colors: "filter ((!) (color_mask n w)) [0..<n] = filter (\<lambda>c. bit w (n - 1 - c)) [0..<n]"
  by (rule filter_cong) (simp_all add: color_mask_def)

text \<open>The fragments of a region, from ranges that hold its colours.\<close>

lemma colored_fragments_cases:
  assumes "colors_ok desc col_mem"
  obtains qs n where "range_colors qs = region_colors desc col_mem" "\<forall>(i, j)\<in>set qs. i \<le> j \<and> j < color_count desc"
    "colored_fragments beyond desc col_mem = Some (row_fragments (fragment_unit_size desc) (fragment_unit_offset desc)
       (phys_start (col_memory col_mem)) (mem_flags (col_memory col_mem)) (flat qs @ replicate (2 * n) (- 1))
       [0..<row_count desc col_mem] (virt_start (col_memory col_mem)))"
proof -
  note ok = colors_okD [OF assms]
  let ?m = "color_mask (color_count desc) (col_colors col_mem)"
  have m: "length ?m = color_count desc" by (simp add: color_mask_def)
  obtain qs where qs: "ranges_in_mask beyond ?m = Some (flat qs @ replicate (2 * length ?m - 2 * length qs) (- 1))"
    "range_colors qs = filter ((!) ?m) [0..<length ?m]" "\<forall>(i, j)\<in>set qs. i \<le> j \<and> j < length ?m" "length qs \<le> length ?m"
    by (rule ranges_in_mask_spec)
  have "fragment_unit_size desc \<noteq> 0" using ok(1) by auto
  then show thesis using qs ok(2)
    by (intro that [of qs "length ?m - length qs"])
      (simp_all add: m color_mask_colors region_colors_def colored_fragments_def ok(3,4) Let_def diff_mult_distrib2)
qed

text \<open>
  C21: the fragments of a coloured region, cut into units, are the units of the colours of its mask, row by row and in the order of the colours,
  and they are mapped at consecutive virtual addresses from the virtual start of the region on; the entry read behind the mask plays no part.
\<close>

theorem colored_fragments_contiguous:
  assumes "colors_ok desc col_mem"
  shows "\<exists>frags. colored_fragments beyond desc col_mem = Some frags \<and>
    concat (map (fragment_units (fragment_unit_size desc)) frags) =
      contiguous (fragment_unit_size desc) (virt_start (col_memory col_mem))
        (map (\<lambda>(r, c). phys_start (col_memory col_mem) + of_nat r * fragment_unit_offset desc + of_nat c * fragment_unit_size desc)
          (List.product [0..<row_count desc col_mem] (region_colors desc col_mem)))"
proof -
  obtain qs n where q: "range_colors qs = region_colors desc col_mem" "\<forall>(i, j)\<in>set qs. i \<le> j \<and> j < color_count desc"
    "colored_fragments beyond desc col_mem = Some (row_fragments (fragment_unit_size desc) (fragment_unit_offset desc)
       (phys_start (col_memory col_mem)) (mem_flags (col_memory col_mem)) (flat qs @ replicate (2 * n) (- 1))
       [0..<row_count desc col_mem] (virt_start (col_memory col_mem)))"
    using colored_fragments_cases [OF assms, of beyond] by blast
  have "0 < fragment_unit_size desc" using assms by (simp add: colors_ok_def)
  then show ?thesis using row_fragments_units [OF q(2) colors_okD(6) [OF assms]] q(1,3) by simp
qed

theorem colored_fragments_contiguous_witness:
  "\<exists>frags. colored_fragments True \<lparr>fragment_unit_size = 0x1000, fragment_unit_offset = 0x4000, cachesize = 0\<rparr>
      \<lparr>col_memory = \<lparr>phys_start = 0x80000000, virt_start = 0, mem_size = 0x8000, mem_flags = 0\<rparr>, col_colors = 0xd\<rparr> = Some frags \<and>
    concat (map (fragment_units 0x1000) frags) =
      contiguous 0x1000 0 [0x80000000, 0x80001000, 0x80003000, 0x80004000, 0x80005000, 0x80007000]"
  using colored_fragments_contiguous [of "\<lparr>fragment_unit_size = 0x1000, fragment_unit_offset = 0x4000, cachesize = 0\<rparr>"
      "\<lparr>col_memory = \<lparr>phys_start = 0x80000000, virt_start = 0, mem_size = 0x8000, mem_flags = 0\<rparr>, col_colors = 0xd\<rparr>" True]
  by (simp add: colors_ok_def color_count_def row_count_def region_colors_def upt_rec bit_numeral_rec del: contiguous.simps)

subsection \<open>Isolation\<close>

text \<open>The bytes of a fragment; the colour of a byte is its place in the row of the region.\<close>

definition phys_bytes :: "jailhouse_memory \<Rightarrow> nat set" where
  "phys_bytes mem = {unat (phys_start mem)..<unat (phys_start mem) + unat (mem_size mem)}"

definition byte_color :: "jailhouse_color_desc \<Rightarrow> nat \<Rightarrow> nat \<Rightarrow> nat" where
  "byte_color desc start a = ((a - start) mod unat (fragment_unit_offset desc)) div unat (fragment_unit_size desc)"

lemma pair_fragments_set:
  assumes "frag \<in> set (pair_fragments f base flags v qs)"
  shows "\<exists>(i, j)\<in>set qs. phys_start frag = base + of_nat i * f \<and> mem_size frag = of_nat (Suc j - i) * f"
  using assms by (induction qs arbitrary: v) (auto simp: Let_def simp del: of_nat_diff)

lemma row_fragments_set:
  assumes "frag \<in> set (row_fragments f off ps flags (flat qs @ replicate (2 * n) (- 1)) rs v)" "\<forall>(i, j)\<in>set qs. i \<le> j"
  shows "\<exists>r\<in>set rs. \<exists>(i, j)\<in>set qs. phys_start frag = ps + of_nat r * off + of_nat i * f \<and> mem_size frag = of_nat (Suc j - i) * f"
  using assms(1)
proof (induction rs arbitrary: v)
  case (Cons r rs)
  then consider "frag \<in> set (pair_fragments f (ps + of_nat r * off) flags v qs)"
    | v' where "frag \<in> set (row_fragments f off ps flags (flat qs @ replicate (2 * n) (- 1)) rs v')"
    by (auto simp: range_fragments_flat [OF assms(2)])
  then show ?case by cases (use pair_fragments_set Cons.IH in \<open>fastforce\<close>)+
qed simp

text \<open>A byte of the units \<open>i\<close> to \<open>j\<close> of row \<open>r\<close>.\<close>

lemma row_byte:
  fixes a :: nat
  assumes "r < R" "i \<le> j" "j < C" "C * f \<le> off" "0 < f" "p + r * off + i * f \<le> a" "a < p + r * off + i * f + (Suc j - i) * f"
  shows "p \<le> a" "a < p + R * off" "i \<le> ((a - p) mod off) div f" "((a - p) mod off) div f \<le> j"
proof -
  define x where "x = a - p - r * off"
  have "Suc j * f \<le> C * f" using assms(3) by (intro mult_le_mono1) simp
  then have jo: "Suc j * f \<le> off" using assms(4) by simp
  have ij: "i * f + (Suc j - i) * f = Suc j * f" using assms(2) by (simp add: add_mult_distrib [symmetric])
  have x: "a - p = x + r * off" "i * f \<le> x" "x < Suc j * f" using assms(6,7) ij by (simp_all add: x_def)
  have m: "(a - p) mod off = x" using x(3) jo by (simp add: x(1))
  show "p \<le> a" using assms(6) by simp
  show "i \<le> ((a - p) mod off) div f" unfolding m using x(2) assms(5) by (simp add: less_eq_div_iff_mult_less_eq)
  have "x div f < Suc j" using x(3) assms(5) by (simp add: div_less_iff_less_mult del: mult_Suc)
  then show "((a - p) mod off) div f \<le> j" by (simp add: m)
  have "Suc r * off \<le> R * off" using assms(1) by (intro mult_le_mono1) simp
  then show "a < p + R * off" using x(1,3) jo assms(6) by simp
qed

definition region_fits :: "jailhouse_memory \<Rightarrow> bool" where
  "region_fits mem \<longleftrightarrow> unat (phys_start mem) + unat (mem_size mem) \<le> 2 ^ 64"

lemma unat_phys:
  fixes ps off f :: u64
  assumes "unat ps + r * unat off + i * unat f < 2 ^ 64"
  shows "unat (ps + of_nat r * off + of_nat i * f) = unat ps + r * unat off + i * unat f"
proof -
  have "ps + of_nat r * off + of_nat i * f = of_nat (unat ps + r * unat off + i * unat f)" by simp
  then show ?thesis using assms by (simp only: unat_of_nat) simp
qed

lemma colored_bytes:
  assumes "colors_ok desc col_mem" "region_fits (col_memory col_mem)" "colored_fragments beyond desc col_mem = Some frags"
    "frag \<in> set frags" "a \<in> phys_bytes frag"
  shows "a \<in> phys_bytes (col_memory col_mem)" "byte_color desc (unat (phys_start (col_memory col_mem))) a \<in> set (region_colors desc col_mem)"
proof -
  note ok = colors_okD [OF assms(1)]
  let ?f = "fragment_unit_size desc" and ?off = "fragment_unit_offset desc" and ?ps = "phys_start (col_memory col_mem)"
  obtain qs n where q: "range_colors qs = region_colors desc col_mem" "\<forall>(i, j)\<in>set qs. i \<le> j \<and> j < color_count desc"
    "colored_fragments beyond desc col_mem = Some (row_fragments ?f ?off ?ps (mem_flags (col_memory col_mem))
       (flat qs @ replicate (2 * n) (- 1)) [0..<row_count desc col_mem] (virt_start (col_memory col_mem)))"
    using colored_fragments_cases [OF assms(1), of beyond] by blast
  have le: "\<forall>(i, j)\<in>set qs. i \<le> j" using q(2) by auto
  have "frag \<in> set (row_fragments ?f ?off ?ps (mem_flags (col_memory col_mem)) (flat qs @ replicate (2 * n) (- 1))
      [0..<row_count desc col_mem] (virt_start (col_memory col_mem)))" using assms(3,4) q(3) by simp
  from row_fragments_set [OF this le] obtain r i j where r: "r < row_count desc col_mem" "(i, j) \<in> set qs" "phys_start frag = ?ps + of_nat r * ?off + of_nat i * ?f"
    "mem_size frag = of_nat (Suc j - i) * ?f"
    by (auto simp del: of_nat_diff)
  have ij: "i \<le> j" "j < color_count desc" using q(2) r(2) by auto
  have R: "row_count desc col_mem * unat ?off \<le> unat (mem_size (col_memory col_mem))" by (simp add: row_count_def)
  have "Suc j * unat ?f \<le> color_count desc * unat ?f" using ij by (intro mult_le_mono1) simp
  then have jo: "Suc j * unat ?f \<le> unat ?off" using ok(5) by simp
  have "Suc r * unat ?off \<le> row_count desc col_mem * unat ?off" using r(1) by (intro mult_le_mono1) simp
  then have top: "unat ?ps + r * unat ?off + Suc j * unat ?f \<le> 2 ^ 64" using R jo assms(2) unfolding region_fits_def by simp
  have if1: "i * unat ?f \<le> j * unat ?f" "(Suc j - i) * unat ?f \<le> Suc j * unat ?f" using ij(1) by (simp_all del: mult_Suc)
  have szl: "(Suc j - i) * unat ?f < 2 ^ 64" using if1(2) ok(6) \<open>Suc j * unat ?f \<le> color_count desc * unat ?f\<close> by linarith
  have pl: "unat ?ps + r * unat ?off + i * unat ?f < 2 ^ 64" using top if1(1) ok(1) unfolding mult_Suc by linarith
  have "unat (phys_start frag) = unat ?ps + r * unat ?off + i * unat ?f" "unat (mem_size frag) = (Suc j - i) * unat ?f"
    using unat_units [OF szl] unat_phys [OF pl] by (simp_all add: r(3,4) del: of_nat_diff)
  then have a: "unat ?ps + r * unat ?off + i * unat ?f \<le> a" "a < unat ?ps + r * unat ?off + i * unat ?f + (Suc j - i) * unat ?f"
    using assms(5) by (simp_all add: phys_bytes_def)
  note b = row_byte [OF r(1) ij ok(5,1) a]
  show "a \<in> phys_bytes (col_memory col_mem)" using b(1,2) R by (simp add: phys_bytes_def)
  have "byte_color desc (unat ?ps) a \<in> set [i..<Suc j]" unfolding byte_color_def set_upt using b(3,4) by simp
  then have "byte_color desc (unat ?ps) a \<in> set (range_colors qs)" unfolding range_colors_def using r(2) by (auto simp del: upt_Suc set_upt)
  then show "byte_color desc (unat ?ps) a \<in> set (region_colors desc col_mem)" by (simp add: q(1))
qed

lemma byte_color_congruent:
  assumes "p \<le> a" "q \<le> a" "p mod unat (fragment_unit_offset desc) = q mod unat (fragment_unit_offset desc)"
  shows "byte_color desc p a = byte_color desc q a"
proof -
  have "(int a - int p) mod int (unat (fragment_unit_offset desc)) = (int a - int q) mod int (unat (fragment_unit_offset desc))"
    using assms(3) by (intro mod_diff_cong) (simp_all add: zmod_int [symmetric] del: of_nat_unat)
  then have "(a - p) mod unat (fragment_unit_offset desc) = (a - q) mod unat (fragment_unit_offset desc)"
    using assms(1,2) by (simp add: of_nat_diff [symmetric] zmod_int [symmetric] del: of_nat_unat of_nat_diff)
  then show ?thesis by (simp add: byte_color_def)
qed

lemma region_colors_disjoint:
  assumes "and (col_colors c1) (col_colors c2) = 0" "x \<in> set (region_colors desc c1)" "x \<in> set (region_colors desc c2)"
  shows False
proof -
  let ?n = "color_count desc - 1 - x"
  have "bit (and (col_colors c1) (col_colors c2)) ?n" using assms(2,3) by (simp add: region_colors_def bit_and_iff)
  then show False by (simp add: assms(1))
qed

text \<open>
  C22: two coloured regions with disjoint colour masks, whose physical starts agree modulo the row size \<open>fragment_unit_offset\<close>, share no byte:
  no fragment of the one overlaps a fragment of the other, and every fragment lies inside its region. Colours are counted from the start of a region, so the agreement of
  the starts is needed; the code does not check it (\<open>colored_regions_shifted\<close> is a pair of regions that overlap).
\<close>

theorem colored_regions_isolated:
  assumes "colors_ok desc c1" "colors_ok desc c2" "region_fits (col_memory c1)" "region_fits (col_memory c2)"
    "and (col_colors c1) (col_colors c2) = 0"
    "unat (phys_start (col_memory c1)) mod unat (fragment_unit_offset desc) = unat (phys_start (col_memory c2)) mod unat (fragment_unit_offset desc)"
    "colored_fragments beyond desc c1 = Some frags1" "colored_fragments beyond desc c2 = Some frags2"
    "frag1 \<in> set frags1" "frag2 \<in> set frags2"
  shows "phys_bytes frag1 \<inter> phys_bytes frag2 = {} \<and> phys_bytes frag1 \<subseteq> phys_bytes (col_memory c1)"
proof -
  note b1 = colored_bytes [OF assms(1,3,7,9)] and b2 = colored_bytes [OF assms(2,4,8,10)]
  have False if "a \<in> phys_bytes frag1" "a \<in> phys_bytes frag2" for a
  proof (rule region_colors_disjoint [OF assms(5) b1(2) [OF that(1)]])
    have "unat (phys_start (col_memory c1)) \<le> a" "unat (phys_start (col_memory c2)) \<le> a"
      using b1(1) [OF that(1)] b2(1) [OF that(2)] by (simp_all add: phys_bytes_def)
    then show "byte_color desc (unat (phys_start (col_memory c1))) a \<in> set (region_colors desc c2)"
      using b2(2) [OF that(2)] byte_color_congruent [OF _ _ assms(6)] by simp
  qed
  then show ?thesis using b1(1) by blast
qed

theorem colored_regions_isolated_witness:
  "phys_bytes \<lparr>phys_start = 0x80000000, virt_start = 0, mem_size = 0x2000, mem_flags = 0\<rparr> \<inter>
     phys_bytes \<lparr>phys_start = 0x80006000, virt_start = 0x1000, mem_size = 0x1000, mem_flags = 0\<rparr> = {} \<and>
   phys_bytes \<lparr>phys_start = 0x80000000, virt_start = 0, mem_size = 0x2000, mem_flags = 0\<rparr> \<subseteq>
     phys_bytes \<lparr>phys_start = 0x80000000, virt_start = 0, mem_size = 0x4000, mem_flags = 0\<rparr>"
proof -
  let ?d = "\<lparr>fragment_unit_size = 0x1000, fragment_unit_offset = 0x4000, cachesize = 0\<rparr>"
  let ?c1 = "\<lparr>col_memory = \<lparr>phys_start = 0x80000000, virt_start = 0, mem_size = 0x4000, mem_flags = 0\<rparr>, col_colors = 0xd\<rparr>"
  let ?c2 = "\<lparr>col_memory = \<lparr>phys_start = 0x80000000, virt_start = 0, mem_size = 0x8000, mem_flags = 0\<rparr>, col_colors = 0x2\<rparr>"
  have ok: "colors_ok ?d ?c1" "colors_ok ?d ?c2" "region_fits (col_memory ?c1)" "region_fits (col_memory ?c2)"
    "and (col_colors ?c1) (col_colors ?c2) = 0"
    by (simp_all add: colors_ok_def color_count_def row_count_def region_fits_def)
  have f1: "colored_fragments False ?d ?c1 = Some
    [\<lparr>phys_start = 0x80000000, virt_start = 0, mem_size = 0x2000, mem_flags = 0\<rparr>,
     \<lparr>phys_start = 0x80003000, virt_start = 0x2000, mem_size = 0x1000, mem_flags = 0\<rparr>]"
    by code_simp
  have f2: "colored_fragments False ?d ?c2 = Some
    [\<lparr>phys_start = 0x80002000, virt_start = 0, mem_size = 0x1000, mem_flags = 0\<rparr>,
     \<lparr>phys_start = 0x80006000, virt_start = 0x1000, mem_size = 0x1000, mem_flags = 0\<rparr>]"
    by code_simp
  show ?thesis using colored_regions_isolated [OF ok _ f1 f2, of "\<lparr>phys_start = 0x80000000, virt_start = 0, mem_size = 0x2000, mem_flags = 0\<rparr>"
      "\<lparr>phys_start = 0x80006000, virt_start = 0x1000, mem_size = 0x1000, mem_flags = 0\<rparr>"] by simp
qed

text \<open>Regions with disjoint colours whose starts are one fragment apart: both have the fragment at 0x80004000.\<close>

theorem colored_regions_shifted:
  "let d = \<lparr>fragment_unit_size = 0x1000, fragment_unit_offset = 0x4000, cachesize = 0\<rparr>;
       c1 = \<lparr>col_memory = \<lparr>phys_start = 0x80000000, virt_start = 0, mem_size = 0x8000, mem_flags = 0\<rparr>, col_colors = 0x8\<rparr>;
       c2 = \<lparr>col_memory = \<lparr>phys_start = 0x80001000, virt_start = 0, mem_size = 0x8000, mem_flags = 0\<rparr>, col_colors = 0x1\<rparr> in
   and (col_colors c1) (col_colors c2) = 0 \<and>
   map_option (map phys_start) (colored_fragments False d c1) = Some [0x80000000, 0x80004000] \<and>
   map_option (map phys_start) (colored_fragments False d c2) = Some [0x80004000, 0x80008000]"
  by code_simp

subsection \<open>The operations on a region\<close>

text \<open>The flush of a region cuts it into pieces of at most the temporary mapping, which cover it once and in order.\<close>

definition byte_addresses :: "u64 \<Rightarrow> u64 \<Rightarrow> u64 list" where
  "byte_addresses a n = map (\<lambda>t. a + of_nat t) [0..<unat n]"

lemma byte_addresses_split:
  assumes "k \<le> n"
  shows "byte_addresses a n = byte_addresses a k @ byte_addresses (a + k) (n - k)"
proof -
  have n: "unat n = unat k + unat (n - k)" using assms by (simp add: unat_sub word_le_nat_alt)
  have s: "map (\<lambda>t. a + of_nat t) [unat k..<unat k + unat (n - k)] = map (\<lambda>t. a + k + of_nat t) [0..<unat (n - k)]"
    by (rule nth_equalityI) (simp_all add: algebra_simps)
  show ?thesis unfolding byte_addresses_def n upt_add_eq_append [OF zero_le] map_append s ..
qed

lemma flush_region_covers:
  "flush_region (\<lambda>a n l. l @ byte_addresses a n) region_addr region_size l = l @ byte_addresses region_addr region_size"
proof (induction "\<lambda>a n l. l @ byte_addresses a n" region_addr region_size l rule: flush_region.induct)
  case (1 region_addr region_size l)
  show ?case
  proof (cases "region_size > 0")
    case True
    let ?sz = "min region_size (of_nat (NUM_TEMPORARY_PAGES * PAGE_SIZE))"
    have "flush_region (\<lambda>a n l. l @ byte_addresses a n) region_addr region_size l
        = flush_region (\<lambda>a n l. l @ byte_addresses a n) (region_addr + ?sz) (region_size - ?sz) (l @ byte_addresses region_addr ?sz)"
      using True by (subst flush_region.simps) (simp add: Let_def)
    also have "\<dots> = l @ byte_addresses region_addr ?sz @ byte_addresses (region_addr + ?sz) (region_size - ?sz)"
      using 1 True by (simp add: Let_def)
    finally show ?thesis using byte_addresses_split [of ?sz region_size region_addr] by simp
  next
    case False
    then have "region_size = 0" by (simp add: word_gt_0)
    then show ?thesis by (subst flush_region.simps) (simp add: byte_addresses_def)
  qed
qed

lemma manage_fragments_flush:
  assumes "flush_piece fs = (\<lambda>a n l. l @ byte_addresses a n)"
  shows "manage_fragments fs DCACHE frags l = (l @ concat (map (\<lambda>frag. byte_addresses (phys_start frag) (mem_size frag)) frags), 0)"
  by (induction frags arbitrary: l) (simp_all add: fragment_operation_def assms flush_region_covers)

text \<open>An operation that fails on a fragment ends the operation on the region with its error, before the fragments behind it.\<close>

lemma manage_fragments_error:
  assumes "manage_fragments fs type frags s = (s1, 0)" "fragment_operation fs type frag s1 = (s2, err)" "err \<noteq> 0"
  shows "manage_fragments fs type (frags @ frag # rest) s = (s2, err)"
  using assms(1)
proof (induction frags arbitrary: s)
  case Nil
  then show ?case using assms(2,3) by simp
next
  case (Cons g frags)
  then show ?case by (cases "fragment_operation fs type g s") (auto split: if_splits)
qed

end
