(* ===== verification/AddressSpaces.thy ===== *)
theory AddressSpaces
  imports PageMap Coloring
begin

text \<open>
  The address spaces of cells on ARM (\<open>arch/arm-common/mmu_cell.c\<close> and the set-up of the root cell in
  \<open>arch/arm-common/setup.c\<close>): mapping and unmapping memory regions of a cell, translation of guest addresses,
  creation and removal of the root table of a cell. Several address spaces share one page pool; \<open>spaces_ok\<close> says
  that their tables are trees without common pages, and the theorems that no operation on one space is
  visible in another.
\<close>

subsection \<open>Memory regions of a cell\<close>

definition S2_PTE_ACCESS_RO :: u64 where "S2_PTE_ACCESS_RO = 0x40"
definition S2_PTE_ACCESS_WO :: u64 where "S2_PTE_ACCESS_WO = 0x80"
definition PTE_ACCESS_FLAG :: u64 where "PTE_ACCESS_FLAG = 0x400"
definition S2_PTE_FLAG_NORMAL :: u64 where "S2_PTE_FLAG_NORMAL = 0x3c"
definition S2_PTE_FLAG_DEVICE :: u64 where "S2_PTE_FLAG_DEVICE = 0x4"
definition JAILHOUSE_MEM_IO :: u64 where "JAILHOUSE_MEM_IO = 0x10"
definition E2BIG :: int where "E2BIG = 7"

definition region_flags :: "u64 \<Rightarrow> u64" where
  "region_flags f =
     or (or (or (or PTE_FLAG_VALID PTE_ACCESS_FLAG)
                (if and f JAILHOUSE_MEM_READ \<noteq> 0 then S2_PTE_ACCESS_RO else 0))
            (if and f JAILHOUSE_MEM_WRITE \<noteq> 0 then S2_PTE_ACCESS_WO else 0))
        (if and f JAILHOUSE_MEM_IO \<noteq> 0 then S2_PTE_FLAG_DEVICE else S2_PTE_FLAG_NORMAL)"

definition region_phys :: "u64 \<Rightarrow> u64 \<Rightarrow> jailhouse_memory \<Rightarrow> u64" where
  "region_phys off comm_page mem =
     (if and (mem_flags mem) JAILHOUSE_MEM_COMM_REGION \<noteq> 0 then paging_hvirt2phys off comm_page else phys_start mem)"

definition arch_map_memory_region :: "u64 \<Rightarrow> u64 \<Rightarrow> paging_structures \<Rightarrow> jailhouse_memory \<Rightarrow> pt_state \<Rightarrow> (pt_state \<times> int) option" where
  "arch_map_memory_region off comm_page mm mem st =
     paging_create off mm (region_phys off comm_page mem) (mem_size mem) (virt_start mem) (region_flags (mem_flags mem)) st"

definition arch_unmap_memory_region :: "u64 \<Rightarrow> paging_structures \<Rightarrow> jailhouse_memory \<Rightarrow> pt_state \<Rightarrow> (pt_state \<times> int) option" where
  "arch_unmap_memory_region off mm mem st = paging_destroy off mm (virt_start mem) (mem_size mem) st"

text \<open>The virtual CPU interface of the interrupt controller (\<^verbatim>\<open>gic-v2.c\<close>), where the cell expects the physical one.\<close>

definition S2_PTE_ACCESS_RW :: u64 where "S2_PTE_ACCESS_RW = 0xc0"
definition GICC_SIZE :: u64 where "GICC_SIZE = 0x2000"

definition gicv2_cell_init :: "u64 \<Rightarrow> u64 \<Rightarrow> u64 \<Rightarrow> paging_structures \<Rightarrow> pt_state \<Rightarrow> (pt_state \<times> int) option" where
  "gicv2_cell_init off gicv_base gicc_base mm st =
     paging_create off mm gicv_base GICC_SIZE gicc_base (or (or (or PTE_FLAG_VALID PTE_ACCESS_FLAG) S2_PTE_ACCESS_RW) S2_PTE_FLAG_DEVICE) st"

definition gicv2_cell_exit :: "u64 \<Rightarrow> u64 \<Rightarrow> paging_structures \<Rightarrow> pt_state \<Rightarrow> (pt_state \<times> int) option" where
  "gicv2_cell_exit off gicc_base mm st = paging_destroy off mm gicc_base GICC_SIZE st"

definition arch_paging_gphys2phys :: "u64 \<Rightarrow> paging_structures \<Rightarrow> u64 \<Rightarrow> u64 \<Rightarrow> pt_state \<Rightarrow> u64 option" where
  "arch_paging_gphys2phys off mm gphys flags st = paging_virt2phys off mm gphys flags (pt_mem st)"

subsection \<open>Address spaces\<close>

definition ARM_CELL_ROOT_PT_SZ :: "nat \<Rightarrow> u32" where
  "ARM_CELL_ROOT_PT_SZ cpu_parange = (if 39 < cpu_parange \<and> cpu_parange < 44 then push_bit (cpu_parange - 39) 1 else 1)"

definition arm_paging_cell_init :: "nat \<Rightarrow> u32 \<Rightarrow> pt_state \<Rightarrow> (pt_state \<times> int \<times> paging_structures) option" where
  "arm_paging_cell_init cpu_parange cell_id st =
     (let mm = \<lparr>root_paging = snd (arch_paging_init cpu_parange), root_table = 0, is_hv_structs = False\<rparr> in
      if cell_id > 0xff then Some (st, - E2BIG, mm)
      else
        page_alloc_aligned (mem_pool st) (ARM_CELL_ROOT_PT_SZ cpu_parange) \<bind> (\<lambda>(pool, a).
        Some (st\<lparr>mem_pool := pool\<rparr>, if a = 0 then - ENOMEM else 0, mm\<lparr>root_table := a\<rparr>)))"

definition arm_paging_cell_destroy :: "nat \<Rightarrow> paging_structures \<Rightarrow> pt_state \<Rightarrow> pt_state" where
  "arm_paging_cell_destroy cpu_parange mm st =
     (let (pool, m) = page_free (mem_pool st) (root_table mm) (ARM_CELL_ROOT_PT_SZ cpu_parange) (pt_mem st) in
      st\<lparr>mem_pool := pool, pt_mem := m\<rparr>)"

text \<open>The parking space with its code page, and the space of the root cell, whose id is given.\<close>

definition arm_init_early :: "nat \<Rightarrow> u64 \<Rightarrow> u64 \<Rightarrow> u32 \<Rightarrow> pt_state \<Rightarrow> (pt_state \<times> int \<times> paging_structures \<times> paging_structures) option" where
  "arm_init_early cpu_parange off parking_code root_id st =
     (let mm = \<lparr>root_paging = snd (arch_paging_init cpu_parange), root_table = 0, is_hv_structs = False\<rparr> in
      page_alloc_aligned (mem_pool st) (ARM_CELL_ROOT_PT_SZ cpu_parange) \<bind> (\<lambda>(pool, a).
      let st1 = st\<lparr>mem_pool := pool\<rparr>; parking_mm = mm\<lparr>root_table := a\<rparr> in
      if a = 0 then Some (st1, - ENOMEM, parking_mm, mm)
      else
        paging_create off parking_mm (paging_hvirt2phys off parking_code) (of_nat PAGE_SIZE) 0
          (or (or (or PTE_FLAG_VALID PTE_ACCESS_FLAG) S2_PTE_ACCESS_RO) S2_PTE_FLAG_NORMAL) st1 \<bind> (\<lambda>(st2, err).
        if err \<noteq> 0 then Some (st2, err, parking_mm, mm)
        else arm_paging_cell_init cpu_parange root_id st2 \<bind> (\<lambda>(st3, err3, root_mm). Some (st3, err3, parking_mm, root_mm)))))"

subsection \<open>Several address spaces in one pool\<close>

definition spaces_ok :: "u64 \<Rightarrow> paging_structures list \<Rightarrow> pt_state \<Rightarrow> bool" where
  "spaces_ok off spaces st \<longleftrightarrow> st_ok off st \<and> distinct (map root_table spaces) \<and> (\<forall>p\<in>set spaces. arm_tables off p st) \<and>
     (\<forall>p\<in>set spaces. \<forall>q\<in>set spaces. root_table p \<noteq> root_table q \<longrightarrow>
        tables off (pt_mem st) 3 (root_table p) \<inter> tables off (pt_mem st) 3 (root_table q) = {})"

text \<open>Other tables keep their contents over a step on the tables below \<open>t\<close>.\<close>

lemma moves_frame:
  assumes "st_ok off st" "moves off 3 t st st'" "pt_ok off st 3 u" "tables off (pt_mem st) 3 t \<inter> tables off (pt_mem st) 3 u = {}"
  shows "tables off (pt_mem st') 3 u = tables off (pt_mem st) 3 u" "pt_ok off st' 3 u"
    "twalk L off (pt_mem st') 3 u v = twalk L off (pt_mem st) 3 u v"
    "tables off (pt_mem st') 3 t \<inter> tables off (pt_mem st') 3 u = {}"
proof -
  have ev: "evolves (tables off (pt_mem st) 3 t) st st'" using assms(2) by (simp add: moves_def)
  have used: "\<forall>x\<in>tables off (pt_mem st) 3 u. used_page st x \<and> x \<notin> tables off (pt_mem st) 3 t"
    using assms(3,4) by (auto simp: pt_ok_def)
  have same: "same_tables (tables off (pt_mem st) 3 u) (pt_mem st) (pt_mem st')"
    by (rule evolves_same_tables [OF ev assms(1) used])
  show tb: "tables off (pt_mem st') 3 u = tables off (pt_mem st) 3 u" by (rule tables_frame [OF same])
  show "twalk L off (pt_mem st') 3 u v = twalk L off (pt_mem st) 3 u v" by (rule twalk_frame [OF same])
  have "pt_wf off (pt_mem st') 3 u" using pt_wf_frame [OF same] assms(3) by (simp add: pt_ok_def)
  moreover have "\<forall>x\<in>tables off (pt_mem st) 3 u. used_page st' x" using used ev by (simp add: evolves_def)
  ultimately show "pt_ok off st' 3 u" by (simp add: pt_ok_def tb)
  have "x \<notin> tables off (pt_mem st) 3 u" if "x \<in> tables off (pt_mem st') 3 t" for x
    using that assms(2,4) used pages_st_ok(3) [OF assms(1)] unfolding moves_def by blast
  then show "tables off (pt_mem st') 3 t \<inter> tables off (pt_mem st') 3 u = {}" unfolding tb by blast
qed

lemma spaces_pair:
  assumes "spaces_ok off spaces st" "p \<in> set spaces" "q \<in> set spaces" "root_table q \<noteq> root_table p"
  shows "pt_ok off st 3 (root_table q)" "tables off (pt_mem st) 3 (root_table p) \<inter> tables off (pt_mem st) 3 (root_table q) = {}"
  using assms by (auto simp: spaces_ok_def arm_tables_def)

lemma spaces_move:
  assumes ok: "spaces_ok off spaces st" and p: "p \<in> set spaces" and mv: "moves off 3 (root_table p) st st'"
  shows "spaces_ok off spaces st'"
    "q \<in> set spaces \<Longrightarrow> root_table q \<noteq> root_table p \<Longrightarrow> translation off q st' v = translation off q st v \<and> page_level off q st' v = page_level off q st v"
proof -
  have st: "st_ok off st" using ok by (simp add: spaces_ok_def)
  have fr: "tables off (pt_mem st') 3 (root_table q) = tables off (pt_mem st) 3 (root_table q)" "pt_ok off st' 3 (root_table q)"
    "tables off (pt_mem st') 3 (root_table p) \<inter> tables off (pt_mem st') 3 (root_table q) = {}"
    if "q \<in> set spaces" "root_table q \<noteq> root_table p" for q
    by (rule moves_frame(1,2,4) [OF st mv spaces_pair [OF ok p that]])+
  show "translation off q st' v = translation off q st v \<and> page_level off q st' v = page_level off q st v"
    if "q \<in> set spaces" "root_table q \<noteq> root_table p" 
    unfolding translation_def page_level_def by (intro conjI moves_frame(3) [OF st mv spaces_pair [OF ok p that]])
  have each: "arm_tables off q st'" if "q \<in> set spaces" for q
    using that mv fr(2) [of q] ok by (cases "root_table q = root_table p") (simp_all add: arm_tables_def moves_def spaces_ok_def)
  have "tables off (pt_mem st') 3 (root_table a) \<inter> tables off (pt_mem st') 3 (root_table b) = {}"
    if ab: "a \<in> set spaces" "b \<in> set spaces" "root_table a \<noteq> root_table b" for a b
  proof (cases "root_table a = root_table p")
    case True
    then show ?thesis using fr(3) [OF ab(2)] ab(3) by auto
  next
    case a: False
    show ?thesis
    proof (cases "root_table b = root_table p")
      case True
      then show ?thesis using fr(3) [OF ab(1) a] by auto
    next
      case False
      then show ?thesis using fr(1) [OF ab(2)] fr(1) [OF ab(1) a] ok ab by (simp add: spaces_ok_def)
    qed
  qed
  then show "spaces_ok off spaces st'" using each ok mv by (simp add: spaces_ok_def moves_def)
qed

lemma region_flags_ok: "flags_ok (region_flags f)" "bit (region_flags f) 0"
  by (simp_all add: region_flags_def flags_ok_def PTE_FLAG_VALID_def PTE_ACCESS_FLAG_def S2_PTE_ACCESS_RO_def S2_PTE_ACCESS_WO_def
      S2_PTE_FLAG_NORMAL_def S2_PTE_FLAG_DEVICE_def bit_simps)

text \<open>The region lies in the 48 bits of the tables, on both sides.\<close>

definition region_fits :: "u64 \<Rightarrow> u64 \<Rightarrow> jailhouse_memory \<Rightarrow> bool" where
  "region_fits off comm_page mem \<longleftrightarrow> unat (and (virt_start mem) PAGE_MASK) < 2 ^ 48 \<and>
     unat (and (region_phys off comm_page mem) PAGE_MASK) + unat (PAGE_ALIGN (mem_size mem)) \<le> 2 ^ 48 \<and>
     unat (and (virt_start mem) PAGE_MASK) + unat (PAGE_ALIGN (mem_size mem)) \<le> 2 ^ 48"

lemma map_region_moves:
  assumes "arm_tables off p st" "region_fits off comm_page mem"
  obtains st' err where "arch_map_memory_region off comm_page p mem st = Some (st', err)" "err \<in> {0, - ENOMEM}"
    "mapped off 3 (root_table p) (and (region_phys off comm_page mem) PAGE_MASK) (PAGE_ALIGN (mem_size mem)) (and (virt_start mem) PAGE_MASK)
       (region_flags (mem_flags mem)) st st' err" "moves off 3 (root_table p) st st'"
proof -
  have f: "unat (and (virt_start mem) PAGE_MASK) < 2 ^ 48"
    "unat (and (region_phys off comm_page mem) PAGE_MASK) + unat (PAGE_ALIGN (mem_size mem)) \<le> 2 ^ 48"
    "unat (and (virt_start mem) PAGE_MASK) + unat (PAGE_ALIGN (mem_size mem)) \<le> 2 ^ 48"
    using assms(2) unfolding region_fits_def by blast+
  obtain st' err where r: "arch_map_memory_region off comm_page p mem st = Some (st', err)"
    "mapped off 3 (root_table p) (and (region_phys off comm_page mem) PAGE_MASK) (PAGE_ALIGN (mem_size mem)) (and (virt_start mem) PAGE_MASK)
       (region_flags (mem_flags mem)) st st' err"
    using paging_create_arm [OF assms(1) region_flags_ok(1) f(2,3) disjI2 [OF f(1)]] unfolding arch_map_memory_region_def by blast
  show thesis by (rule that [OF r(1) _ r(2)]) (use r(2) in \<open>simp_all add: mapped_def\<close>)
qed

lemma unmap_region_moves:
  assumes "arm_tables off p st"
  obtains st' err where "arch_unmap_memory_region off p mem st = Some (st', err)" "err \<in> {0, - ENOMEM}" "moves off 3 (root_table p) st st'"
    "\<And>v. translation off p st' v \<in> {None, translation off p st v, map_option tr32 (translation off p st v)}"
proof -
  note d = destroy_arm [OF assms]
  show thesis using destroy_loop_any [OF order_refl arm_splits d(2) refl d(3,4) masked_aligned(2), of "virt_start mem" "mem_size mem"] that
    unfolding arch_unmap_memory_region_def d(1) translation_def by blast
qed

text \<open>Mapping the virtual CPU interface is mapping a region of a device.\<close>

definition gicv_region :: "u64 \<Rightarrow> u64 \<Rightarrow> jailhouse_memory" where
  "gicv_region gicv_base gicc_base =
     \<lparr>phys_start = gicv_base, virt_start = gicc_base, mem_size = GICC_SIZE, mem_flags = or (or JAILHOUSE_MEM_READ JAILHOUSE_MEM_WRITE) JAILHOUSE_MEM_IO\<rparr>"

lemma gicv_region_mapped:
  "gicv2_cell_init off gicv_base gicc_base mm st = arch_map_memory_region off 0 mm (gicv_region gicv_base gicc_base) st"
  "gicv2_cell_exit off gicc_base mm st = arch_unmap_memory_region off mm (gicv_region gicv_base gicc_base) st"
proof -
  have "region_flags (mem_flags (gicv_region gicv_base gicc_base)) = or (or (or PTE_FLAG_VALID PTE_ACCESS_FLAG) S2_PTE_ACCESS_RW) S2_PTE_FLAG_DEVICE"
    by (simp add: region_flags_def gicv_region_def JAILHOUSE_MEM_READ_def JAILHOUSE_MEM_WRITE_def JAILHOUSE_MEM_IO_def PTE_FLAG_VALID_def PTE_ACCESS_FLAG_def
        S2_PTE_ACCESS_RO_def S2_PTE_ACCESS_WO_def S2_PTE_ACCESS_RW_def S2_PTE_FLAG_DEVICE_def)
  moreover have "region_phys off 0 (gicv_region gicv_base gicc_base) = gicv_base"
    by (simp add: region_phys_def gicv_region_def JAILHOUSE_MEM_READ_def JAILHOUSE_MEM_WRITE_def JAILHOUSE_MEM_IO_def JAILHOUSE_MEM_COMM_REGION_def)
  ultimately show "gicv2_cell_init off gicv_base gicc_base mm st = arch_map_memory_region off 0 mm (gicv_region gicv_base gicc_base) st"
    by (simp add: gicv2_cell_init_def arch_map_memory_region_def gicv_region_def)
  show "gicv2_cell_exit off gicc_base mm st = arch_unmap_memory_region off mm (gicv_region gicv_base gicc_base) st"
    by (simp add: gicv2_cell_exit_def arch_unmap_memory_region_def gicv_region_def)
qed

lemma gicv_mapped:
  assumes "arm_tables off p st" "region_fits off 0 (gicv_region gicv_base gicc_base)"
  obtains st' err where "gicv2_cell_init off gicv_base gicc_base p st = Some (st', err)" "err \<in> {0, - ENOMEM}" "moves off 3 (root_table p) st st'"
  using map_region_moves [OF assms] unfolding gicv_region_mapped(1) by blast

lemma cell_root_alloc:
  "44 \<le> parange \<Longrightarrow> page_alloc_aligned pool (ARM_CELL_ROOT_PT_SZ parange) = page_alloc pool 1"
  "44 \<le> parange \<Longrightarrow> snd (arch_paging_init parange) = arm_paging"
  by (simp_all add: ARM_CELL_ROOT_PT_SZ_def page_alloc_aligned_def page_alloc_def arch_paging_init_def)

text \<open>A fresh page as root of a new, empty space.\<close>

lemma spaces_add:
  assumes ok: "spaces_ok off spaces st" and al: "free_page st x" "pt_mem st1 = pt_mem st" "st_ok off st1"
      "\<And>y. used_page st1 y \<longleftrightarrow> used_page st y \<or> y = x"
    and mm: "root_paging mm = arm_paging" "root_table mm = x"
  shows "spaces_ok off (mm # spaces) st1" "translation off mm st1 v = None"
    "translation off q st1 v = translation off q st v"
proof -
  have st: "st_ok off st" using ok by (simp add: spaces_ok_def)
  then have "pt_mem st (ent x i) = 0" if "i < 512" for i using al(1) that by (simp add: st_ok_def)
  then have z: "\<And>i. i < 512 \<Longrightarrow> \<not> bit (pt_mem st (ent x i)) 0" by simp
  note e = empty_table [where m = "pt_mem st" and x = x, OF z]
  show "translation off mm st1 v = None" unfolding translation_def mm(2) al(2) by (rule empty_table(3) [where m = "pt_mem st" and x = x, OF z])
  show "translation off q st1 v = translation off q st v" by (simp add: translation_def al(2))
  have nx: "x \<notin> tables off (pt_mem st) 3 (root_table p)" "arm_tables off p st1" if "p \<in> set spaces" for p
    using that ok al pages_st_ok(3) [OF st] by (auto simp: spaces_ok_def arm_tables_def pt_ok_def)
  have nr: "root_table p \<noteq> x" if "p \<in> set spaces" for p using nx(1) [OF that] tables_root by metis
  have "arm_tables off mm st1" using e(1,2) al by (simp add: arm_tables_def mm pt_ok_def)
  moreover have "\<forall>p\<in>set spaces. x \<notin> tables off (pt_mem st) 3 (root_table p)" using nx(1) by blast
  ultimately show "spaces_ok off (mm # spaces) st1"
    using ok nx(2) nr al(3) e(1) [where n = 3 and off = off] unfolding spaces_ok_def al(2) by (auto simp: mm(2))
qed

lemma cell_init_space:
  assumes "spaces_ok off spaces st" "44 \<le> parange"
  shows "\<exists>st' err mm. arm_paging_cell_init parange cid st = Some (st', err, mm) \<and> (err \<noteq> 0 \<longrightarrow> st' = st) \<and> err \<in> {0, - ENOMEM, - E2BIG} \<and>
    (err = 0 \<longrightarrow> spaces_ok off (mm # spaces) st' \<and> root_paging mm = arm_paging \<and>
       (\<forall>v. translation off mm st' v = None) \<and> (\<forall>q v. translation off q st' v = translation off q st v))"
proof (cases "cid > 0xff")
  case True
  then show ?thesis by (simp add: arm_paging_cell_init_def E2BIG_def)
next
  case False
  have st: "st_ok off st" using assms(1) by (simp add: spaces_ok_def)
  from st show ?thesis
  proof (cases rule: alloc_table_cases)
    case full
    then obtain pool where "page_alloc (mem_pool st) 1 = Some (pool, 0)" "st\<lparr>mem_pool := pool\<rparr> = st"
      by (auto simp: alloc_table_def split: bind_splits)
    then show ?thesis using False by (simp add: arm_paging_cell_init_def cell_root_alloc [OF assms(2)] ENOMEM_def)
  next
    case (found st1 x)
    then obtain pool where p: "page_alloc (mem_pool st) 1 = Some (pool, x)" "st1 = st\<lparr>mem_pool := pool\<rparr>"
      by (auto simp: alloc_table_def split: bind_splits)
    have x0: "x \<noteq> 0" using found(2) pages_st_ok(5) [OF st] by blast
    define mm where "mm = \<lparr>root_paging = arm_paging, root_table = x, is_hv_structs = False\<rparr>"
    have "arm_paging_cell_init parange cid st = Some (st1, 0, mm)"
      using False p x0 by (simp add: arm_paging_cell_init_def cell_root_alloc [OF assms(2)] mm_def)
    moreover have "spaces_ok off (mm # spaces) st1" "root_paging mm = arm_paging" "\<And>v. translation off mm st1 v = None" "\<And>q v. translation off q st1 v = translation off q st v"
      using spaces_add [OF assms(1) found(2-4,7), of mm] by (simp_all add: mm_def)
    ultimately show ?thesis by blast
  qed
qed

lemma spaces_remove:
  assumes ok: "spaces_ok off spaces st" and p: "p \<in> set spaces" and par: "44 \<le> parange"
  defines "st' \<equiv> arm_paging_cell_destroy parange p st"
  shows "spaces_ok off (filter (\<lambda>q. root_table q \<noteq> root_table p) spaces) st'" "free_page st' (root_table p)"
    "q \<in> set spaces \<Longrightarrow> root_table q \<noteq> root_table p \<Longrightarrow> translation off q st' v = translation off q st v"
proof -
  let ?x = "root_table p"
  have st: "st_ok off st" using ok by (simp add: spaces_ok_def)
  have ux: "used_page st ?x" using ok p by (auto simp: spaces_ok_def arm_tables_def intro: pt_ok_root)
  have d: "st' = release_table ?x st"
    using par by (simp add: st'_def arm_paging_cell_destroy_def release_table_def ARM_CELL_ROOT_PT_SZ_def)
  note r = release_table [OF st ux, folded d]
  show "free_page st' ?x" using r(3) by blast
  have fr: "tables off (pt_mem st') 3 (root_table q) = tables off (pt_mem st) 3 (root_table q)" "pt_ok off st' 3 (root_table q)"
    "translation off q st' v = translation off q st v"
    if "q \<in> set spaces" "root_table q \<noteq> ?x" for q v
  proof -
    have "?x \<notin> tables off (pt_mem st) 3 (root_table q)" using spaces_pair(2) [OF ok p that] tables_root by blast
    note m = moves_release [OF st spaces_pair(1) [OF ok p that] ux this, folded d]
    show "tables off (pt_mem st') 3 (root_table q) = tables off (pt_mem st) 3 (root_table q)" "pt_ok off st' 3 (root_table q)" by (rule m(4) m(2))+
    show "translation off q st' v = translation off q st v" unfolding translation_def
      using moves_release(5) [OF st spaces_pair(1) [OF ok p that] ux \<open>?x \<notin> _\<close>, folded d] .
  qed
  show "translation off q st' v = translation off q st v" if "q \<in> set spaces" "root_table q \<noteq> ?x" by (rule fr(3) [OF that])
  show "spaces_ok off (filter (\<lambda>q. root_table q \<noteq> ?x) spaces) st'"
    using ok fr(1,2) r(1) by (simp add: spaces_ok_def arm_tables_def distinct_map_filter)
qed

text \<open>Requests to map or unmap a region, each for one address space, one after the other; an error does not stop them.\<close>

datatype space_op = MAP_REGION paging_structures u64 jailhouse_memory | UNMAP_REGION paging_structures jailhouse_memory

fun op_space :: "space_op \<Rightarrow> paging_structures" where
  "op_space (MAP_REGION mm comm_page mem) = mm"
| "op_space (UNMAP_REGION mm mem) = mm"

fun op_ok :: "u64 \<Rightarrow> space_op \<Rightarrow> bool" where
  "op_ok off (MAP_REGION mm comm_page mem) \<longleftrightarrow> region_fits off comm_page mem"
| "op_ok off (UNMAP_REGION mm mem) \<longleftrightarrow> True"

fun run_op :: "u64 \<Rightarrow> space_op \<Rightarrow> pt_state \<Rightarrow> (pt_state \<times> int) option" where
  "run_op off (MAP_REGION mm comm_page mem) st = arch_map_memory_region off comm_page mm mem st"
| "run_op off (UNMAP_REGION mm mem) st = arch_unmap_memory_region off mm mem st"

primrec space_ops :: "u64 \<Rightarrow> space_op list \<Rightarrow> pt_state \<Rightarrow> pt_state option" where
  "space_ops off [] st = Some st"
| "space_ops off (op # ops) st = run_op off op st \<bind> (\<lambda>(st', err). space_ops off ops st')"

lemma run_op_moves:
  assumes "spaces_ok off spaces st" "op_space op \<in> set spaces" "op_ok off op"
  obtains st' err where "run_op off op st = Some (st', err)" "moves off 3 (root_table (op_space op)) st st'" "err \<in> {0, - ENOMEM}"
proof -
  have t: "arm_tables off (op_space op) st" using assms(1,2) by (simp add: spaces_ok_def)
  show thesis
  proof (cases op)
    case (MAP_REGION mm comm_page mem)
    then show thesis using map_region_moves [of off mm st comm_page mem] t assms(3) that by auto
  next
    case (UNMAP_REGION mm mem)
    then show thesis using unmap_region_moves [of off mm st mem] t that by auto
  qed
qed

lemma space_ops_frame:
  assumes "spaces_ok off spaces st" "\<forall>op\<in>set ops. op_space op \<in> set spaces \<and> op_ok off op"
  shows "\<exists>st'. space_ops off ops st = Some st' \<and> spaces_ok off spaces st' \<and>
    (\<forall>q\<in>set spaces. (\<forall>op\<in>set ops. root_table (op_space op) \<noteq> root_table q) \<longrightarrow> (\<forall>v. translation off q st' v = translation off q st v))"
  using assms
proof (induction ops arbitrary: st)
  case (Cons op ops)
  obtain st1 err where s1: "run_op off op st = Some (st1, err)" "moves off 3 (root_table (op_space op)) st st1"
    using run_op_moves [OF Cons.prems(1), of op] Cons.prems(2) by (metis list.set_intros(1))
  note m = spaces_move [OF Cons.prems(1) _ s1(2)]
  have "spaces_ok off spaces st1" using m(1) Cons.prems(2) by simp
  then obtain st' where "space_ops off ops st1 = Some st'" "spaces_ok off spaces st'"
    "\<forall>q\<in>set spaces. (\<forall>op\<in>set ops. root_table (op_space op) \<noteq> root_table q) \<longrightarrow> (\<forall>v. translation off q st' v = translation off q st1 v)"
    using Cons.IH [of st1] Cons.prems(2) by auto
  moreover have "translation off q st1 v = translation off q st v" if "q \<in> set spaces" "root_table (op_space op) \<noteq> root_table q" for q v
    using m(2) [of q v] that Cons.prems(2) by auto
  ultimately show ?case using s1(1) by auto
qed simp

text \<open>C29: The address spaces of the cells are independent of each other although their tables come from one page pool: from a state where the spaces
  are disjoint trees, any sequence of requests to map or unmap regions for cells returns, with the spaces disjoint trees again, and changes
  no translation of a cell that none of the requests is for, also when requests fail for lack of pages.\<close>

theorem cell_spaces_isolated:
  assumes "spaces_ok off spaces st" "\<forall>op\<in>set ops. op_space op \<in> set spaces \<and> op_ok off op"
    "q \<in> set spaces" "\<forall>op\<in>set ops. root_table (op_space op) \<noteq> root_table q"
  shows "\<exists>st'. space_ops off ops st = Some st' \<and> spaces_ok off spaces st' \<and> (\<forall>v. translation off q st' v = translation off q st v)"
  using space_ops_frame [OF assms(1,2)] assms(3,4) by blast

text \<open>The life of an address space: \<open>arm_paging_cell_init\<close> always returns; when it returns 0 the new space is one more disjoint tree, translates nothing, and no
  other translation has changed; otherwise nothing has. \<open>arm_paging_cell_destroy\<close> of a space gives its root
  table back and changes no translation of another one.\<close>

theorem cell_space_life:
  assumes "spaces_ok off spaces st" "44 \<le> parange"
  shows "(\<exists>st' err mm. arm_paging_cell_init parange cid st = Some (st', err, mm) \<and> err \<in> {0, - ENOMEM, - E2BIG} \<and>
      (if err \<noteq> 0 then st' = st
       else spaces_ok off (mm # spaces) st' \<and> (\<forall>v. translation off mm st' v = None) \<and> (\<forall>q v. translation off q st' v = translation off q st v))) \<and>
    (\<forall>p\<in>set spaces. let st' = arm_paging_cell_destroy parange p st; others = filter (\<lambda>q. root_table q \<noteq> root_table p) spaces in
      spaces_ok off others st' \<and> free_page st' (root_table p) \<and> (\<forall>q\<in>set others. \<forall>v. translation off q st' v = translation off q st v))"
proof (intro conjI ballI)
  show "\<exists>st' err mm. arm_paging_cell_init parange cid st = Some (st', err, mm) \<and> err \<in> {0, - ENOMEM, - E2BIG} \<and>
      (if err \<noteq> 0 then st' = st
       else spaces_ok off (mm # spaces) st' \<and> (\<forall>v. translation off mm st' v = None) \<and> (\<forall>q v. translation off q st' v = translation off q st v))"
    using cell_init_space [OF assms, of cid] by metis
qed (use spaces_remove [OF assms(1) _ assms(2)] in \<open>auto simp: Let_def\<close>)

lemma no_spaces: "spaces_ok off [] st \<longleftrightarrow> st_ok off st"
  by (simp add: spaces_ok_def)

text \<open>Before the first cell: parked CPUs run in a space of their own that maps one page, the parking code, read-only, and the root
  cell starts with an empty space. \<open>arm_init_early\<close> always returns.\<close>

theorem arm_init_early_spaces:
  assumes st: "st_ok off st" and par: "44 \<le> parange" and code: "unat (and (paging_hvirt2phys off parking_code) PAGE_MASK) + 4096 \<le> 2 ^ 48"
  shows "\<exists>st' err pm rm. arm_init_early parange off parking_code root_id st = Some (st', err, pm, rm) \<and>
    (err = 0 \<longrightarrow> spaces_ok off [rm, pm] st' \<and> (\<forall>v. translation off rm st' v = None) \<and>
      (\<forall>v. translation off pm st' v = (if unat (take_bit 48 v) < 4096
         then Some (and (paging_hvirt2phys off parking_code) PAGE_MASK + take_bit 48 v, 0x47d) else None)))"
proof -
  let ?c = "paging_hvirt2phys off parking_code" and ?f = "or (or (or PTE_FLAG_VALID PTE_ACCESS_FLAG) S2_PTE_ACCESS_RO) S2_PTE_FLAG_NORMAL :: u64"
  have f: "?f = 0x47d" by (simp add: PTE_FLAG_VALID_def PTE_ACCESS_FLAG_def S2_PTE_ACCESS_RO_def S2_PTE_FLAG_NORMAL_def)
  have fo: "flags_ok 0x47d" "bit (0x47d :: u64) 0" by (simp_all add: flags_ok_def bit_iff_odd)
  have sz: "PAGE_ALIGN (of_nat PAGE_SIZE) = 4096" by (simp add: PAGE_ALIGN_def PAGE_SIZE_def PAGE_MASK_def)
  obtain st1 err1 pm where i1: "arm_paging_cell_init parange 0 st = Some (st1, err1, pm)" "err1 \<noteq> 0 \<longrightarrow> st1 = st"
    "err1 = 0 \<longrightarrow> spaces_ok off [pm] st1 \<and> root_paging pm = arm_paging \<and> (\<forall>v. translation off pm st1 v = None)"
    using cell_init_space [of off "[]" st parange 0] st par by (auto simp: no_spaces)
  have a: "page_alloc_aligned (mem_pool st) (ARM_CELL_ROOT_PT_SZ parange) \<bind> (\<lambda>(pool, a). Some (st\<lparr>mem_pool := pool\<rparr>, if a = 0 then - ENOMEM else 0,
      \<lparr>root_paging = snd (arch_paging_init parange), root_table = a, is_hv_structs = False\<rparr>)) = Some (st1, err1, pm)"
    using i1(1) by (simp add: arm_paging_cell_init_def)
  then obtain pool x where al: "page_alloc_aligned (mem_pool st) (ARM_CELL_ROOT_PT_SZ parange) = Some (pool, x)" "st1 = st\<lparr>mem_pool := pool\<rparr>"
    "err1 = (if x = 0 then - ENOMEM else 0)" "pm = \<lparr>root_paging = snd (arch_paging_init parange), root_table = x, is_hv_structs = False\<rparr>"
    by (auto split: bind_splits)
  show ?thesis
  proof (cases "x = 0")
    case True
    then show ?thesis using al by (simp add: arm_init_early_def ENOMEM_def Let_def)
  next
    case False
    then have s1: "spaces_ok off [pm] st1" "\<And>v. translation off pm st1 v = None" and e0: "err1 = 0" using i1(3) al(3) by simp_all
    have t1: "arm_tables off pm st1" using s1(1) by (simp add: spaces_ok_def)
    have z: "and (0 :: u64) PAGE_MASK = 0" by simp
    obtain st2 err where r: "paging_create off pm ?c (of_nat PAGE_SIZE) 0 0x47d st1 = Some (st2, err)"
      "mapped off 3 (root_table pm) (and ?c PAGE_MASK) (PAGE_ALIGN (of_nat PAGE_SIZE)) (and 0 PAGE_MASK) 0x47d st1 st2 err"
      using paging_create_arm [OF t1 fo(1), of ?c "of_nat PAGE_SIZE" 0] code unfolding sz z by auto
    have "moves off 3 (root_table pm) st1 st2" using r(2) unfolding mapped_def by blast
    then have s2: "spaces_ok off [pm] st2" by (intro spaces_move(1) [OF s1(1)]) simp_all
    have rr: "in_range 3 (and 0 PAGE_MASK) (PAGE_ALIGN (of_nat PAGE_SIZE)) v \<longleftrightarrow> unat (take_bit 48 v) < 4096" for v
      using request_range(2) [of 0 "of_nat PAGE_SIZE" v] unfolding sz z by (simp add: page_range_def sz)
    have tr: "translation off pm st2 v = (if unat (take_bit 48 v) < 4096 then Some (and ?c PAGE_MASK + take_bit 48 v, 0x47d) else None)"
      if "err = 0" for v
    proof (cases "unat (take_bit 48 v) < 4096")
      case True
      have "vo 3 (0 :: u64) = 0" by (simp add: vo_def)
      then have "target 3 (and ?c PAGE_MASK) (and 0 PAGE_MASK) 0x47d v = Some (and ?c PAGE_MASK + (take_bit 48 v - and 0 PAGE_MASK), 0x47d)"
        using True by (intro request_value [of 0 "of_nat PAGE_SIZE"]) (simp_all add: page_range_def sz fo(2))
      then show ?thesis using mapped_at(1) [OF r(2) rr [THEN iffD2, OF True] that] True by simp
    next
      case False
      then show ?thesis using mapped_at(2) [OF r(2), of v] rr [of v] s1(2) by auto
    qed
    have e: "arm_init_early parange off parking_code root_id st = (if err \<noteq> 0 then Some (st2, err, pm, pm\<lparr>root_table := 0\<rparr>)
        else arm_paging_cell_init parange root_id st2 \<bind> (\<lambda>(st3, err3, root_mm). Some (st3, err3, pm, root_mm)))"
      using r(1) False al unfolding arm_init_early_def Let_def f by simp
    show ?thesis
    proof (cases "err = 0")
      case True
      then show ?thesis using cell_init_space [OF s2 par, of root_id] tr unfolding e by auto
    qed (use e in simp)
  qed
qed

lemma demo_spaces: "\<exists>st1 mm. arm_paging_cell_init 48 1 demo_st = Some (st1, 0, mm) \<and> spaces_ok 0 [mm, demo_pgs] st1 \<and>
  (\<forall>v. translation 0 demo_pgs st1 v = translation 0 demo_pgs demo_st v)"
proof -
  have ok: "spaces_ok 0 [demo_pgs] demo_st" using demo_tables by (simp add: spaces_ok_def arm_tables_def)
  obtain st1 err mm where r: "arm_paging_cell_init 48 1 demo_st = Some (st1, err, mm)" "err \<noteq> 0 \<longrightarrow> st1 = demo_st"
    "err = 0 \<longrightarrow> spaces_ok 0 [mm, demo_pgs] st1 \<and> (\<forall>q v. translation 0 q st1 v = translation 0 q demo_st v)"
    using cell_init_space [OF ok, of 48 1] by auto
  have "err = 0"
  proof (rule ccontr)
    assume "err \<noteq> 0"
    then have "alloc_table demo_st = Some (demo_st, 0)" using r(1,2)
      by (auto simp: arm_paging_cell_init_def cell_root_alloc alloc_table_def split: bind_splits if_splits)
    then show False using demo_alloc by simp
  qed
  then show ?thesis using r by blast
qed

definition demo_region :: jailhouse_memory where
  "demo_region = \<lparr>phys_start = 0x80000000, virt_start = 0x1000, mem_size = 0x5000, mem_flags = 0x3\<rparr>"

theorem cell_spaces_isolated_witness:
  "\<exists>st1 mm st2. arm_paging_cell_init 48 1 demo_st = Some (st1, 0, mm) \<and> space_ops 0 [MAP_REGION mm 0 demo_region, UNMAP_REGION mm demo_region] st1 = Some st2 \<and>
    translation 0 demo_pgs st2 0x600000 = Some (0x80000000, 0x701)"
proof -
  obtain st1 mm where s: "arm_paging_cell_init 48 1 demo_st = Some (st1, 0, mm)" "spaces_ok 0 [mm, demo_pgs] st1"
    "\<forall>v. translation 0 demo_pgs st1 v = translation 0 demo_pgs demo_st v" using demo_spaces by blast
  have "region_fits 0 0 demo_region"
    by (simp add: region_fits_def region_phys_def demo_region_def PAGE_ALIGN_def PAGE_MASK_def PAGE_SIZE_def JAILHOUSE_MEM_COMM_REGION_def)
  then have "\<exists>st2. space_ops 0 [MAP_REGION mm 0 demo_region, UNMAP_REGION mm demo_region] st1 = Some st2 \<and> spaces_ok 0 [mm, demo_pgs] st2 \<and>
      (\<forall>v. translation 0 demo_pgs st2 v = translation 0 demo_pgs st1 v)"
    using s(2) by (intro cell_spaces_isolated) (auto simp: spaces_ok_def)
  then show ?thesis using s(1,3) demo_translation(3) by auto
qed

theorem cell_space_life_example:
  "\<exists>st' mm. arm_paging_cell_init 48 1 demo_st = Some (st', 0, mm) \<and> (\<forall>v. translation 0 mm st' v = None) \<and>
    free_page (arm_paging_cell_destroy 48 demo_pgs demo_st) 0x100000"
proof -
  have ok: "spaces_ok 0 [demo_pgs] demo_st" using demo_tables by (simp add: spaces_ok_def arm_tables_def)
  have par: "(44 :: nat) \<le> 48" by simp
  show ?thesis using cell_space_life [OF ok par, of 1] demo_spaces by (auto simp: Let_def demo_root)
qed

end
