(* ===== verification/CellHeap.thy ===== *)
theory CellHeap
  imports AddressSpaces "HOL-Library.Multiset"
begin

text \<open>
  The page pool with address spaces and with the pages of other structures: \<open>heap_ok\<close> says that no page has two
  uses. Each allocation, release and change of a table keeps it; a view of the heap names address
  spaces whose translations have to stay as they are.
\<close>

subsection \<open>Pages of structures\<close>

definition pool_alloc :: "u32 \<Rightarrow> pt_state \<Rightarrow> (pt_state \<times> u64) option" where
  "pool_alloc n st = page_alloc (mem_pool st) n \<bind> (\<lambda>(pool, a). Some (st\<lparr>mem_pool := pool\<rparr>, a))"

definition pool_free :: "u64 \<Rightarrow> u32 \<Rightarrow> pt_state \<Rightarrow> pt_state" where
  "pool_free a n st = (let (pool, m) = page_free (mem_pool st) a n (pt_mem st) in st\<lparr>mem_pool := pool, pt_mem := m\<rparr>)"

definition block :: "u64 \<Rightarrow> nat \<Rightarrow> u64 list" where
  "block a n = map (\<lambda>k. a + of_nat (k * PAGE_SIZE)) [0..<n]"

definition in_pool :: "pt_state \<Rightarrow> u64 \<Rightarrow> bool" where
  "in_pool st x \<longleftrightarrow> (\<exists>k<pages (mem_pool st). x = page_addr (mem_pool st) k)"

lemma in_pool_evolves: "evolves A st st' \<Longrightarrow> in_pool st' x = in_pool st x"
  by (simp add: evolves_def in_pool_def page_addr_def)

lemma in_pool_pages: "used_page st x \<Longrightarrow> in_pool st x" "free_page st x \<Longrightarrow> in_pool st x"
  by (auto simp: used_page_def free_page_def in_pool_def)

text \<open>
  Besides the tables of the address spaces the pool holds the pages \<open>xs\<close> of other structures. A view of the heap names an address outside
  the pool and address spaces whose translations stay as they are.
\<close>

record heap_view =
  outside :: u64
  frozen :: "paging_structures \<rightharpoonup> (u64 \<Rightarrow> (u64 \<times> u64) option)"

definition thawed :: "heap_view \<Rightarrow> paging_structures \<Rightarrow> bool" where
  "thawed vw p \<longleftrightarrow> (\<forall>q\<in>dom (frozen vw). root_table q \<noteq> root_table p)"

definition view_holds :: "u64 \<Rightarrow> heap_view \<Rightarrow> paging_structures list \<Rightarrow> pt_state \<Rightarrow> bool" where
  "view_holds off vw spaces st \<longleftrightarrow> (\<forall>q\<in>dom (frozen vw). q \<in> set spaces \<and> translation off q st = the (frozen vw q))"

lemma view_mono:
  assumes "view_holds off vw spaces st" "\<And>q. q \<in> set spaces \<Longrightarrow> q \<in> dom (frozen vw) \<Longrightarrow> q \<in> set spaces' \<and> translation off q st' = translation off q st"
  shows "view_holds off vw spaces' st'"
  using assms unfolding view_holds_def by metis

definition heap_ok :: "u64 \<Rightarrow> heap_view \<Rightarrow> paging_structures list \<Rightarrow> u64 list \<Rightarrow> pt_state \<Rightarrow> bool" where
  "heap_ok off vw spaces xs st \<longleftrightarrow> spaces_ok off spaces st \<and> distinct xs \<and> \<not> in_pool st (outside vw) \<and>
     view_holds off vw spaces st \<and>
     (\<forall>x\<in>set xs. used_page st x \<and> (\<forall>p\<in>set spaces. x \<notin> tables off (pt_mem st) 3 (root_table p)))"

lemma heap_perm: "mset xs = mset ys \<Longrightarrow> heap_ok off vw spaces xs st = heap_ok off vw spaces ys st"
  using mset_eq_imp_distinct_iff [of xs ys] mset_eq_setD [of xs ys] by (simp add: heap_ok_def)

lemma heap_spaces_perm:
  assumes "mset spaces = mset spaces'"
  shows "heap_ok off vw spaces xs st = heap_ok off vw spaces' xs st"
proof -
  have "mset (map root_table spaces) = mset (map root_table spaces')" using assms by simp
  then have "distinct (map root_table spaces) = distinct (map root_table spaces')" by (rule mset_eq_imp_distinct_iff)
  then show ?thesis using mset_eq_setD [OF assms] by (simp add: heap_ok_def spaces_ok_def view_holds_def)
qed

lemma heap_move:
  assumes ok: "heap_ok off vw spaces xs st" and p: "p \<in> set spaces" and mv: "moves off 3 (root_table p) st st'" and th: "thawed vw p"
  shows "heap_ok off vw spaces xs st'"
    "q \<in> set spaces \<Longrightarrow> root_table q \<noteq> root_table p \<Longrightarrow> translation off q st' v = translation off q st v"
proof -
  have sp: "spaces_ok off spaces st" using ok by (simp add: heap_ok_def)
  then have st: "st_ok off st" by (simp add: spaces_ok_def)
  show tr: "translation off q st' v = translation off q st v" if "q \<in> set spaces" "root_table q \<noteq> root_table p" for q v
    using spaces_move(2) [OF sp p mv that] by blast
  have "view_holds off vw spaces st" using ok by (simp add: heap_ok_def)
  then have "view_holds off vw spaces st'" by (rule view_mono) (use th tr in \<open>simp add: thawed_def fun_eq_iff\<close>)
  moreover have x: "used_page st' x" "x \<notin> tables off (pt_mem st') 3 (root_table q)" if "x \<in> set xs" "q \<in> set spaces" for x q
  proof -
    have u: "used_page st x" "x \<notin> tables off (pt_mem st) 3 (root_table p)" "x \<notin> tables off (pt_mem st) 3 (root_table q)"
      using ok that p by (auto simp: heap_ok_def)
    show "used_page st' x" using u mv by (simp add: moves_def evolves_def)
    show "x \<notin> tables off (pt_mem st') 3 (root_table q)"
    proof (cases "root_table q = root_table p")
      case True
      show ?thesis unfolding True using u(1,2) mv pages_st_ok(3) [OF st u(1)] by (auto simp: moves_def)
    next
      case False
      then show ?thesis using moves_frame(1) [OF st mv spaces_pair [OF sp p that(2)]] u(3) by simp
    qed
  qed
  moreover have "\<not> in_pool st' (outside vw)" using ok mv in_pool_evolves by (auto simp: heap_ok_def moves_def)
  ultimately show "heap_ok off vw spaces xs st'" using spaces_move(1) [OF sp p mv] ok p unfolding heap_ok_def by blast
qed

lemma block_Suc: "block a (Suc n) = a # block (a + of_nat PAGE_SIZE) n"
proof -
  have "[0..<Suc n] = 0 # map Suc [0..<n]" by (metis map_Suc_upt upt_conv_Cons zero_less_Suc)
  then show ?thesis by (simp add: block_def o_def algebra_simps)
qed

lemma block_0 [simp]: "block a 0 = []"
  by (simp add: block_def)

text \<open>Pages that leave or enter the pool while the tables stay as they are.\<close>

lemma heap_alloc:
  assumes ok: "heap_ok off vw spaces xs st" and n: "0 < n"
  obtains (full) "pool_alloc n st = Some (st, 0)"
  | (found) st1 a where "pool_alloc n st = Some (st1, a)" "a \<noteq> 0" "0 < unat n" "pt_mem st1 = pt_mem st" "heap_ok off vw spaces (block a (unat n) @ xs) st1"
      "\<forall>x\<in>set (block a (unat n)). free_page st x"
  using n
proof (cases rule: page_alloc_cases [where p = "mem_pool st"])
  case full
  then show thesis using that(1) by (simp add: pool_alloc_def)
next
  case (found s)
  let ?p = "mem_pool st" and ?n = "unat n"
  have st: "st_ok off st" and sp: "spaces_ok off spaces st" using ok by (simp_all add: heap_ok_def spaces_ok_def)
  have pk: "pool_ok ?p" using st by (simp add: st_ok_def)
  have run: "k < pages ?p" "\<not> page_used ?p k" if "s \<le> k" "k < s + ?n" for k
    using free_run_pages [OF found(2) that] found(2) that by (simp_all add: free_run_def)
  have n0: "0 < ?n" using n by (simp add: word_less_nat_alt)
  define st1 where "st1 = st\<lparr>mem_pool := take_pages s ?n ?p\<rparr>"
  have fold: "bit (fold set_bit_at ks f (k div 64)) (k mod 64) \<longleftrightarrow> k \<in> set ks \<or> bit (f (k div 64)) (k mod 64)" for ks f k
    by (induction ks arbitrary: f) (auto simp: bit_set_bit_at)
  have pg: "page_addr (take_pages s ?n ?p) k = page_addr ?p k" "pages (take_pages s ?n ?p) = pages ?p" "pool_flags (take_pages s ?n ?p) = pool_flags ?p"
    "page_used (take_pages s ?n ?p) k \<longleftrightarrow> page_used ?p k \<or> s \<le> k \<and> k < s + ?n" for k
    by (auto simp: page_addr_def take_pages_def page_used_def fold)
  have b: "block (page_addr ?p s) ?n = map (page_addr ?p) [s..<s + ?n]"
    by (intro nth_equalityI) (simp_all add: block_def page_addr_def algebra_simps)
  have free: "free_page st x" if "x \<in> set (block (page_addr ?p s) ?n)" for x 
    using that run unfolding b free_page_def by fastforce
  have u: "used_page st1 x \<longleftrightarrow> used_page st x \<or> x \<in> set (block (page_addr ?p s) ?n)" for x
    unfolding used_page_def st1_def b using run(1) by (fastforce simp: pg)
  have f: "free_page st1 x \<Longrightarrow> free_page st x" for x by (auto simp: free_page_def st1_def pg)
  have ok1: "st_ok off st1" using st f by (auto simp: st_ok_def st1_def pg)
  then have sp1: "spaces_ok off spaces st1" using sp u by (auto simp: spaces_ok_def arm_tables_def pt_ok_def st1_def)
  have d: "distinct (block (page_addr ?p s) ?n)"
    unfolding b by (auto simp: distinct_map inj_on_def page_addr_inj [OF pk] run(1))
  have nu: "\<not> used_page st x" if "x \<in> set (block (page_addr ?p s) ?n)" for x using free [OF that] pages_st_ok(3) [OF st] by blast
  have tu: "used_page st x" if "p \<in> set spaces" "x \<in> tables off (pt_mem st) 3 (root_table p)" for p x
    using that sp by (auto simp: spaces_ok_def arm_tables_def pt_ok_def)
  have m: "pt_mem st1 = pt_mem st" by (simp add: st1_def)
  have "in_pool st1 x = in_pool st x" for x by (simp add: in_pool_def st1_def pg)
  moreover have "view_holds off vw spaces st1" using ok by (simp add: heap_ok_def view_holds_def translation_def m fun_eq_iff)
  ultimately have "heap_ok off vw spaces (block (page_addr ?p s) ?n @ xs) st1"
    unfolding heap_ok_def m set_append distinct_append using sp1 d nu tu u ok by (auto simp: heap_ok_def)
  moreover have "pool_alloc n st = Some (st1, page_addr ?p s)" using found(1) by (simp add: pool_alloc_def st1_def)
  moreover have "page_addr ?p s \<noteq> 0" using page_addr_nat(2) [OF pk run(1)] n0 by simp
  ultimately show thesis using that(2) [of st1 "page_addr ?p s"] n0 free by (simp add: st1_def)
qed

lemma heap_release:
  assumes ok: "heap_ok off vw spaces (x # xs) st"
  shows "heap_ok off vw spaces xs (release_table x st)" "q \<in> set spaces \<Longrightarrow> translation off q (release_table x st) v = translation off q st v"
proof -
  have st: "st_ok off st" and sp: "spaces_ok off spaces st" and ux: "used_page st x" using ok by (simp_all add: heap_ok_def spaces_ok_def)
  note r = release_table [OF st ux]
  have fr: "tables off (pt_mem (release_table x st)) 3 (root_table q) = tables off (pt_mem st) 3 (root_table q)"
    "pt_ok off (release_table x st) 3 (root_table q)" "translation off q (release_table x st) v = translation off q st v"
    if "q \<in> set spaces" for q v
  proof -
    have "x \<notin> tables off (pt_mem st) 3 (root_table q)" "pt_ok off st 3 (root_table q)"
      using ok that by (auto simp: heap_ok_def spaces_ok_def arm_tables_def)
    note m = moves_release [OF st this(2) ux this(1)]
    show "tables off (pt_mem (release_table x st)) 3 (root_table q) = tables off (pt_mem st) 3 (root_table q)"
      "pt_ok off (release_table x st) 3 (root_table q)" by (rule m(4) m(2))+
    show "translation off q (release_table x st) v = translation off q st v" unfolding translation_def by (rule m(5))
  qed
  show "translation off q (release_table x st) v = translation off q st v" if "q \<in> set spaces" by (rule fr(3) [OF that])
  have "spaces_ok off spaces (release_table x st)"
    using sp fr(1,2) r(1) by (simp add: spaces_ok_def arm_tables_def)
  moreover have "view_holds off vw spaces (release_table x st)"
    by (rule view_mono [of off vw spaces st]) (use ok fr(3) in \<open>simp_all add: heap_ok_def fun_eq_iff\<close>)
  ultimately show "heap_ok off vw spaces xs (release_table x st)" using ok fr(1) r(4) in_pool_evolves [OF r(2)] by (auto simp: heap_ok_def)
qed

lemma pool_free_step:
  assumes "a \<noteq> 0" "a + of_nat PAGE_SIZE \<noteq> 0 \<or> m = 0" "unat n = Suc m" "unat n' = m"
  shows "pool_free a n st = pool_free (a + of_nat PAGE_SIZE) n' (release_table a st)"
  using assms by (auto simp: pool_free_def release_table_def page_free_def Let_def split: prod.splits)

lemma heap_free:
  assumes "heap_ok off vw spaces (block a k @ xs) st" "unat n = k" "a \<noteq> 0"
  shows "heap_ok off vw spaces xs (pool_free a n st)" "q \<in> set spaces \<Longrightarrow> translation off q (pool_free a n st) v = translation off q st v"
proof -
  have "heap_ok off vw spaces xs (pool_free a n st) \<and> (\<forall>q\<in>set spaces. \<forall>v. translation off q (pool_free a n st) v = translation off q st v)"
    using assms
  proof (induction k arbitrary: a n st)
    case 0
    then show ?case by (simp add: pool_free_def page_free_def)
  next
    case (Suc k)
    let ?b = "a + of_nat PAGE_SIZE" and ?st = "release_table a st"
    have h: "heap_ok off vw spaces (a # block ?b k @ xs) st" using Suc.prems(1) by (simp add: block_Suc)
    have h1: "heap_ok off vw spaces (block ?b k @ xs) ?st" by (rule heap_release(1) [OF h])
    have n1: "unat (n - 1) = k" using Suc.prems(2) by (metis One_nat_def diff_Suc_1 nat.simps(3) unat_eq_zero unat_minus_one)
    have b: "?b \<noteq> 0 \<or> k = 0"
    proof (cases k)
      case (Suc j)
      then have "used_page st ?b" using h by (simp add: heap_ok_def block_Suc)
      then show ?thesis using h pages_st_ok(4) by (auto simp: heap_ok_def spaces_ok_def)
    qed simp
    have step: "pool_free a n st = pool_free ?b (n - 1) ?st" by (rule pool_free_step [OF Suc.prems(3) b Suc.prems(2) n1])
    have tr: "\<And>q v. q \<in> set spaces \<Longrightarrow> translation off q ?st v = translation off q st v" by (rule heap_release(2) [OF h])
    show ?case
    proof (cases "k = 0")
      case True
      then have "pool_free ?b (n - 1) ?st = ?st" using n1 by (simp add: pool_free_def page_free_def)
      then show ?thesis using step h1 tr True by simp
    next
      case False
      then show ?thesis using Suc.IH [OF h1 n1] b step tr by simp
    qed
  qed
  then show "heap_ok off vw spaces xs (pool_free a n st)" "q \<in> set spaces \<Longrightarrow> translation off q (pool_free a n st) v = translation off q st v" by blast+
qed

text \<open>A page becomes the root table of a space and back; of a space that is given up only the root table is known any more.\<close>

lemma heap_add_space:
  assumes ok: "heap_ok off vw spaces (a # xs) st" and z: "\<And>i. i < 512 \<Longrightarrow> pt_mem st (ent a i) = 0"
    and mm: "root_paging mm = arm_paging" "root_table mm = a"
  shows "heap_ok off vw (mm # spaces) xs st" "translation off mm st v = None"
proof -
  have nb: "\<And>i. i < 512 \<Longrightarrow> \<not> bit (pt_mem st (ent a i)) 0" using z by simp
  note e = empty_table [where m = "pt_mem st" and x = a, OF nb]
  show "translation off mm st v = None" unfolding translation_def mm(2) by (rule empty_table(3) [where m = "pt_mem st" and x = a, OF nb])
  have na: "a \<notin> tables off (pt_mem st) 3 (root_table p)" if "p \<in> set spaces" for p using ok that by (simp add: heap_ok_def)
  then have nr: "\<forall>p\<in>set spaces. root_table p \<noteq> a" using tables_root by metis
  have "arm_tables off mm st" using e(1,2) ok by (simp add: arm_tables_def mm pt_ok_def heap_ok_def spaces_ok_def)
  then have "spaces_ok off (mm # spaces) st"
    using ok na nr unfolding heap_ok_def spaces_ok_def by (auto simp: mm(2) e(1))
  moreover have "view_holds off vw (mm # spaces) st" using ok by (simp add: heap_ok_def view_holds_def)
  ultimately show "heap_ok off vw (mm # spaces) xs st" using ok by (auto simp: heap_ok_def mm(2) e(1))
qed

lemma heap_drop_space:
  assumes ok: "heap_ok off vw (p # spaces) xs st" and th: "thawed vw p"
  shows "heap_ok off vw spaces (root_table p # xs) st"
proof -
  let ?a = "root_table p"
  have a: "?a \<in> tables off (pt_mem st) 3 ?a" by (rule tables_root)
  have "used_page st ?a" using ok pt_ok_root by (auto simp: heap_ok_def spaces_ok_def arm_tables_def)
  moreover have "?a \<notin> tables off (pt_mem st) 3 (root_table q)" if "q \<in> set spaces" for q
    using ok that a unfolding heap_ok_def spaces_ok_def by (auto simp: image_iff)
  moreover have "?a \<notin> set xs" using ok a by (auto simp: heap_ok_def)
  moreover have "view_holds off vw spaces st"
    by (rule view_mono [of off vw "p # spaces" st]) (use ok th in \<open>auto simp: heap_ok_def thawed_def\<close>)
  ultimately show ?thesis using ok by (auto simp: heap_ok_def spaces_ok_def)
qed

lemma arm_cell_init_alloc:
  assumes "44 \<le> parange"
  shows "arm_paging_cell_init parange cid st =
    (if cid > 0xff then Some (st, - E2BIG, \<lparr>root_paging = arm_paging, root_table = 0, is_hv_structs = False\<rparr>)
     else pool_alloc 1 st \<bind> (\<lambda>(st', a). Some (st', if a = 0 then - ENOMEM else 0, \<lparr>root_paging = arm_paging, root_table = a, is_hv_structs = False\<rparr>)))"
  by (cases "page_alloc (mem_pool st) 1")
    (auto simp: arm_paging_cell_init_def pool_alloc_def cell_root_alloc [OF assms] Let_def)

lemma arm_cell_destroy_free: "44 \<le> parange \<Longrightarrow> arm_paging_cell_destroy parange mm st = pool_free (root_table mm) 1 st"
  by (simp add: arm_paging_cell_destroy_def pool_free_def ARM_CELL_ROOT_PT_SZ_def)

lemma heap_space_init:
  assumes ok: "heap_ok off vw spaces xs st" and par: "44 \<le> parange"
  obtains (error) err mm where "arm_paging_cell_init parange cid st = Some (st, err, mm)" "err < 0"
  | (space) st' mm where "arm_paging_cell_init parange cid st = Some (st', 0, mm)" "heap_ok off vw (mm # spaces) xs st'"
      "\<And>v. translation off mm st' v = None" "\<And>q v. translation off q st' v = translation off q st v"
proof (cases "cid > 0xff")
  case True
  then show thesis using error by (simp add: arm_cell_init_alloc [OF par] E2BIG_def)
next
  case False
  have one: "(0 :: u32) < 1" by simp
  from ok one show thesis
  proof (cases rule: heap_alloc)
    case full
    then show thesis using error False by (simp add: arm_cell_init_alloc [OF par] ENOMEM_def)
  next
    case (found st1 a)
    define mm where "mm = \<lparr>root_paging = arm_paging, root_table = a, is_hv_structs = False\<rparr>"
    have h: "heap_ok off vw spaces (a # xs) st1" using found(5) by (simp add: block_Suc)
    have "free_page st a" using found(6) by (simp add: block_Suc)
    then have z: "\<And>i. i < 512 \<Longrightarrow> pt_mem st1 (ent a i) = 0" using ok found(4) by (simp add: heap_ok_def spaces_ok_def st_ok_def)
    have m: "root_paging mm = arm_paging" "root_table mm = a" by (simp_all add: mm_def)
    have "arm_paging_cell_init parange cid st = Some (st1, 0, mm)" using found(1,2) False by (simp add: arm_cell_init_alloc [OF par] mm_def)
    then show thesis by (rule space) (use heap_add_space [OF h z m] found(4) in \<open>simp_all add: translation_def\<close>)
  qed
qed

lemma heap_space_exit:
  assumes ok: "heap_ok off vw (p # spaces) xs st" and th: "thawed vw p" and par: "44 \<le> parange"
  shows "heap_ok off vw spaces xs (arm_paging_cell_destroy parange p st)"
    "q \<in> set spaces \<Longrightarrow> translation off q (arm_paging_cell_destroy parange p st) v = translation off q st v"
proof -
  have h: "heap_ok off vw spaces (block (root_table p) 1 @ xs) st" using heap_drop_space [OF ok th] by (simp add: block_Suc)
  have "root_table p \<noteq> 0" using h pages_st_ok(4) by (auto simp: heap_ok_def spaces_ok_def block_Suc)
  note f = heap_free [OF h _ this, of 1]
  show "heap_ok off vw spaces xs (arm_paging_cell_destroy parange p st)" using f(1) by (simp add: arm_cell_destroy_free [OF par])
  show "translation off q (arm_paging_cell_destroy parange p st) v = translation off q st v" if "q \<in> set spaces"
    using f(2) that by (simp add: arm_cell_destroy_free [OF par])
qed

text \<open>Regions of a space.\<close>

lemma heap_map:
  assumes "heap_ok off vw spaces xs st" "p \<in> set spaces" "thawed vw p" "region_fits off comm_page mem"
  shows "\<exists>st' err. arch_map_memory_region off comm_page p mem st = Some (st', err) \<and> err \<in> {0, - ENOMEM} \<and> heap_ok off vw spaces xs st' \<and>
    (\<forall>q\<in>set spaces. root_table q \<noteq> root_table p \<longrightarrow> (\<forall>v. translation off q st' v = translation off q st v))"
proof -
  have "arm_tables off p st" using assms(1,2) by (simp add: heap_ok_def spaces_ok_def)
  then obtain st' err where r: "arch_map_memory_region off comm_page p mem st = Some (st', err)" "err \<in> {0, - ENOMEM}" "moves off 3 (root_table p) st st'"
    using map_region_moves [OF _ assms(4)] by metis
  then show ?thesis using heap_move [OF assms(1,2) r(3) assms(3)] by blast
qed

lemma heap_unmap:
  assumes "heap_ok off vw spaces xs st" "p \<in> set spaces" "thawed vw p"
  shows "\<exists>st' err. arch_unmap_memory_region off p mem st = Some (st', err) \<and> err \<in> {0, - ENOMEM} \<and> heap_ok off vw spaces xs st' \<and>
    (\<forall>v. translation off p st' v \<in> {None, translation off p st v, map_option tr32 (translation off p st v)}) \<and>
    (\<forall>q\<in>set spaces. root_table q \<noteq> root_table p \<longrightarrow> (\<forall>v. translation off q st' v = translation off q st v))"
proof -
  have "arm_tables off p st" using assms(1,2) by (simp add: heap_ok_def spaces_ok_def)
  then obtain st' err where r: "arch_unmap_memory_region off p mem st = Some (st', err)" "err \<in> {0, - ENOMEM}" "moves off 3 (root_table p) st st'"
    "\<And>v. translation off p st' v \<in> {None, translation off p st v, map_option tr32 (translation off p st v)}"
    using unmap_region_moves by metis
  then show ?thesis using heap_move [OF assms(1,2) r(3) assms(3)] by blast
qed

lemma new_thawed:
  assumes "heap_ok off vw spaces xs st" "heap_ok off vw (mm # spaces) ys st'"
  shows "thawed vw mm"
proof -
  have "dom (frozen vw) \<subseteq> set spaces" using assms(1) by (auto simp: heap_ok_def view_holds_def)
  moreover have "root_table mm \<notin> root_table ` set spaces" using assms(2) by (simp add: heap_ok_def spaces_ok_def)
  ultimately show ?thesis unfolding thawed_def by (metis image_eqI subsetD)
qed

end
