(* ===== verification/CpuControl.thy ===== *)
theory CpuControl
  imports CpuSet
begin

text \<open>
  Control of the CPUs by the hypervisor (\<open>arch/arm-common/control.c\<close>, \<open>psci.c\<close> and \<open>arm_cpu_reset\<close> of
  \<open>arch/arm64/control.c\<close>): suspending, resuming, resetting and parking a CPU from another one, the event loop
  \<open>check_events\<close> that answers, and power-on and power-off of CPUs by the guest.

  The control fields are those of \<open>struct per_cpu\<close>. A pending SGI_EVENT is the flag \<open>sgi_event\<close>. Of the
  virtual CPU the model has the entry address, the general registers (\<open>guest_usr n\<close> is \<open>regs->usr[n]\<close>, register \<open>x\<close> n) and the
  address space; the system registers, which a reset sets to constants, are left out. Sections under the control lock are single steps;
  the event of a power-on request is sent in the step of the request. \<open>arch_park_cpu\<close> also calls \<open>on_arch_park_cpu\<close> of the
  fixed-priority arbiter (theory \<open>FixedPriority\<close>).
\<close>

datatype vcpu_space = CELL_MM | PARKING_MM

record cpu_ctl =
  suspend_cpu :: bool
  cpu_suspended :: bool
  wait_for_poweron :: bool
  reset :: bool
  park :: bool
  flush_vcpu_caches :: bool
  cpu_on_entry :: u64
  cpu_on_context :: u64
  mpidr :: u64
  sgi_event :: bool
  guest_pc :: u64
  guest_usr :: "nat \<Rightarrow> u64"
  vcpu_mm :: vcpu_space
  vcpu_tlb_flushes :: nat

definition PSCI_INVALID_ADDRESS :: u64 where
  "PSCI_INVALID_ADDRESS = - 1"

definition MPIDR_CPUID_MASK :: u64 where
  "MPIDR_CPUID_MASK = 0xff00ffffff"

subsection \<open>Requests\<close>

definition enter_cpu_off :: "cpu_ctl \<Rightarrow> cpu_ctl" where
  "enter_cpu_off c = c\<lparr>park := False, wait_for_poweron := True\<rparr>"

definition arm_paging_vcpu_init :: "vcpu_space \<Rightarrow> cpu_ctl \<Rightarrow> cpu_ctl" where
  "arm_paging_vcpu_init mm c = c\<lparr>vcpu_mm := mm, vcpu_tlb_flushes := vcpu_tlb_flushes c + 1\<rparr>"

definition arm_cpu_reset :: "u64 \<Rightarrow> cpu_ctl \<Rightarrow> cpu_ctl" where
  "arm_cpu_reset pc c = arm_paging_vcpu_init CELL_MM (c\<lparr>guest_pc := pc, guest_usr := (\<lambda>_. 0)(1 := cpu_on_context c)\<rparr>)"

definition arm_cpu_park :: "cpu_ctl \<Rightarrow> cpu_ctl" where
  "arm_cpu_park c = arm_paging_vcpu_init PARKING_MM (arm_cpu_reset 0 (enter_cpu_off c))"

definition arm_cpu_kick :: "cpu_ctl \<Rightarrow> cpu_ctl" where
  "arm_cpu_kick c = c\<lparr>sgi_event := True\<rparr>"

text \<open>The section of \<open>arch_suspend_cpu\<close> under the lock, with the value of \<open>target_suspended\<close>.\<close>

definition arch_suspend_cpu :: "cpu_ctl \<Rightarrow> cpu_ctl \<times> bool" where
  "arch_suspend_cpu c = (c\<lparr>suspend_cpu := True\<rparr>, cpu_suspended c)"

definition arch_resume_cpu :: "cpu_ctl \<Rightarrow> cpu_ctl" where
  "arch_resume_cpu c = c\<lparr>suspend_cpu := False\<rparr>"

definition arch_reset_cpu :: "cpu_ctl \<Rightarrow> cpu_ctl" where
  "arch_reset_cpu c = arch_resume_cpu (c\<lparr>reset := True\<rparr>)"

definition arch_park_cpu :: "cpu_ctl \<Rightarrow> cpu_ctl" where
  "arch_park_cpu c = arch_resume_cpu (c\<lparr>park := True\<rparr>)"

definition arch_flush_vcpu_caches :: "bool \<Rightarrow> cpu_ctl \<Rightarrow> cpu_ctl" where
  "arch_flush_vcpu_caches this_cpu c =
     (if this_cpu then c\<lparr>vcpu_tlb_flushes := vcpu_tlb_flushes c + 1\<rparr> else c\<lparr>flush_vcpu_caches := True\<rparr>)"

text \<open>The entry addresses that a reset of a cell and its destruction set.\<close>

definition arch_cell_reset :: "cpu_set \<Rightarrow> u64 \<Rightarrow> (nat \<Rightarrow> cpu_ctl) \<Rightarrow> nat \<Rightarrow> cpu_ctl" where
  "arch_cell_reset cs cpu_reset_address cpus =
     (let first = first_cpu cs;
          cpus1 = cpus(first := (cpus first)\<lparr>cpu_on_entry := cpu_reset_address\<rparr>) in
      fold (\<lambda>cpu m. m(cpu := (m cpu)\<lparr>cpu_on_entry := PSCI_INVALID_ADDRESS\<rparr>)) (cpus_after (- 1) cs (int first)) cpus1)"

definition arch_cell_destroy_cpus :: "cpu_set \<Rightarrow> (nat \<Rightarrow> cpu_ctl) \<Rightarrow> nat \<Rightarrow> cpu_ctl" where
  "arch_cell_destroy_cpus cs cpus =
     fold (\<lambda>cpu m. m(cpu := (m cpu)\<lparr>cpu_on_entry := PSCI_INVALID_ADDRESS\<rparr>)) (for_each_cpu cs) cpus"

subsection \<open>The event loop\<close>

text \<open>
  \<open>check_events\<close> in its sections: the head of the loop under the lock, up to the release of the lock;
  the rest of the loop under the lock, where \<open>None\<close> is another round, whose head is under the same lock, and \<open>Some reset\<close> the exit
  with the flush; and what follows without the lock.
\<close>

definition check_events_head :: "cpu_ctl \<Rightarrow> cpu_ctl" where
  "check_events_head c = (if suspend_cpu c then c\<lparr>cpu_suspended := True\<rparr> else c)"

definition check_events_flush :: "cpu_ctl \<Rightarrow> cpu_ctl" where
  "check_events_flush c =
     (if flush_vcpu_caches c then c\<lparr>flush_vcpu_caches := False, vcpu_tlb_flushes := vcpu_tlb_flushes c + 1\<rparr> else c)"

definition check_events_tail :: "cpu_ctl \<Rightarrow> cpu_ctl \<times> bool option" where
  "check_events_tail c =
     (if suspend_cpu c then (check_events_head c, None)
      else
        let c1 = c\<lparr>cpu_suspended := False\<rparr> in
        if park c1 then (check_events_flush (enter_cpu_off c1), Some False)
        else if reset c1 then
          let c2 = c1\<lparr>reset := False\<rparr> in
          if cpu_on_entry c2 \<noteq> PSCI_INVALID_ADDRESS then (check_events_flush (c2\<lparr>wait_for_poweron := False\<rparr>), Some True)
          else (check_events_flush (enter_cpu_off c2), Some False)
        else (check_events_flush c1, Some False))"

definition check_events_leave :: "bool \<Rightarrow> cpu_ctl \<Rightarrow> cpu_ctl" where
  "check_events_leave rst c =
     (if wait_for_poweron c then arm_cpu_park c else if rst then arm_cpu_reset (cpu_on_entry c) c else c)"

subsection \<open>Power control by the guest\<close>

definition PSCI_SUCCESS :: int where "PSCI_SUCCESS = 0"
definition PSCI_NOT_SUPPORTED :: int where "PSCI_NOT_SUPPORTED = - 1"
definition PSCI_DENIED :: int where "PSCI_DENIED = - 3"
definition PSCI_ALREADY_ON :: int where "PSCI_ALREADY_ON = - 4"
definition PSCI_CPU_IS_ON :: int where "PSCI_CPU_IS_ON = 0"
definition PSCI_CPU_IS_OFF :: int where "PSCI_CPU_IS_OFF = 1"

definition IS_PSCI_64 :: "u64 \<Rightarrow> bool" where
  "IS_PSCI_64 hvc \<longleftrightarrow> drop_bit 24 hvc = 0xc4"

definition arm_cpu_by_mpidr :: "cpu_set \<Rightarrow> (nat \<Rightarrow> cpu_ctl) \<Rightarrow> u64 \<Rightarrow> nat option" where
  "arm_cpu_by_mpidr cs cpus m = find (\<lambda>cpu. m = and (mpidr (cpus cpu)) MPIDR_CPUID_MASK) (for_each_cpu cs)"

definition psci_power_on :: "u64 \<Rightarrow> u64 \<Rightarrow> cpu_ctl \<Rightarrow> cpu_ctl" where
  "psci_power_on entry ctxt c = arm_cpu_kick (c\<lparr>cpu_on_entry := entry, cpu_on_context := ctxt, reset := True\<rparr>)"

definition psci_emulate_cpu_on :: "cpu_set \<Rightarrow> (nat \<Rightarrow> u64) \<Rightarrow> (nat \<Rightarrow> cpu_ctl) \<Rightarrow> (nat \<Rightarrow> cpu_ctl) \<times> int" where
  "psci_emulate_cpu_on cs regs cpus =
     (let msk = if IS_PSCI_64 (regs 0) then - 1 else 0xffffffff in
      case arm_cpu_by_mpidr cs cpus (and (regs 1) msk) of
        None \<Rightarrow> (cpus, PSCI_DENIED)
      | Some cpu \<Rightarrow>
          if wait_for_poweron (cpus cpu)
          then (cpus(cpu := psci_power_on (and (regs 2) msk) (and (regs 3) msk) (cpus cpu)), PSCI_SUCCESS)
          else (cpus, PSCI_ALREADY_ON))"

definition psci_emulate_affinity_info :: "cpu_set \<Rightarrow> (nat \<Rightarrow> u64) \<Rightarrow> (nat \<Rightarrow> cpu_ctl) \<Rightarrow> int" where
  "psci_emulate_affinity_info cs regs cpus =
     (case arm_cpu_by_mpidr cs cpus (regs 1) of
        None \<Rightarrow> PSCI_DENIED
      | Some cpu \<Rightarrow> if wait_for_poweron (cpus cpu) then PSCI_CPU_IS_OFF else PSCI_CPU_IS_ON)"

text \<open>\<open>psci_dispatch\<close> on the CPU \<open>this_cpu\<close>; \<open>idle\<close> is the wait for an interrupt of \<open>PSCI_CPU_SUSPEND\<close>.\<close>

definition psci_dispatch ::
  "(nat \<Rightarrow> (nat \<Rightarrow> cpu_ctl) \<Rightarrow> nat \<Rightarrow> cpu_ctl) \<Rightarrow> cpu_set \<Rightarrow> nat \<Rightarrow> (nat \<Rightarrow> u64) \<Rightarrow> (nat \<Rightarrow> cpu_ctl) \<Rightarrow> (nat \<Rightarrow> cpu_ctl) \<times> int" where
  "psci_dispatch idle cs this_cpu regs cpus =
     (let function_id = ucast (regs 0) :: u32 in
      if function_id = 0x84000000 then (cpus, 2)
      else if function_id \<in> {0x84000001, 0xc4000001} then (idle this_cpu cpus, 0)
      else if function_id \<in> {0x84000002, 0x95c1ba5f} then (cpus(this_cpu := arm_cpu_park (cpus this_cpu)), 0)
      else if function_id \<in> {0x84000003, 0xc4000003, 0x95c1ba60} then psci_emulate_cpu_on cs regs cpus
      else if function_id \<in> {0x84000004, 0xc4000004} then (cpus, psci_emulate_affinity_info cs regs cpus)
      else (cpus, PSCI_NOT_SUPPORTED))"

subsection \<open>Interleavings\<close>

text \<open>
  One CPU under control, the CPU that manages it, and its peers of the same cell. The positions of the
  target: in the guest, at the head of the loop, at the wait for the end of the suspension, at the lock behind
  it, and behind the loop. The manager: idle, about to kick, waiting, and with the target suspended.
\<close>

datatype target_pc = IN_GUEST | CE_ENTER | CE_SPIN | CE_LOCKED | CE_LEAVE bool

datatype manager_pc = MGR_IDLE | MGR_KICK | MGR_WAIT | MGR_HELD

record ctl_sys =
  ctl :: cpu_ctl
  target :: target_pc
  mgr :: manager_pc

inductive target_step :: "ctl_sys \<Rightarrow> ctl_sys \<Rightarrow> bool" where
  take_event: "target s = IN_GUEST \<Longrightarrow> sgi_event (ctl s) \<Longrightarrow>
     target_step s (s\<lparr>ctl := (ctl s)\<lparr>sgi_event := False\<rparr>, target := CE_ENTER\<rparr>)"
| head: "target s = CE_ENTER \<Longrightarrow> target_step s (s\<lparr>ctl := check_events_head (ctl s), target := CE_SPIN\<rparr>)"
| spin: "target s = CE_SPIN \<Longrightarrow> \<not> suspend_cpu (ctl s) \<Longrightarrow> target_step s (s\<lparr>target := CE_LOCKED\<rparr>)"
| again: "target s = CE_LOCKED \<Longrightarrow> check_events_tail (ctl s) = (c, None) \<Longrightarrow> target_step s (s\<lparr>ctl := c, target := CE_SPIN\<rparr>)"
| exit: "target s = CE_LOCKED \<Longrightarrow> check_events_tail (ctl s) = (c, Some r) \<Longrightarrow> target_step s (s\<lparr>ctl := c, target := CE_LEAVE r\<rparr>)"
| leave: "target s = CE_LEAVE r \<Longrightarrow> target_step s (s\<lparr>ctl := check_events_leave r (ctl s), target := IN_GUEST\<rparr>)"
| power_off: "target s = IN_GUEST \<Longrightarrow> target_step s (s\<lparr>ctl := arm_cpu_park (ctl s)\<rparr>)"

text \<open>\<open>arch_reset_cpu\<close> and \<open>arch_park_cpu\<close> are a mark and a release.\<close>

inductive manager_step :: "ctl_sys \<Rightarrow> ctl_sys \<Rightarrow> bool" where
  request: "mgr s = MGR_IDLE \<Longrightarrow> arch_suspend_cpu (ctl s) = (c, target_suspended) \<Longrightarrow>
     manager_step s (s\<lparr>ctl := c, mgr := if target_suspended then MGR_HELD else MGR_KICK\<rparr>)"
| kick: "mgr s = MGR_KICK \<Longrightarrow> manager_step s (s\<lparr>ctl := arm_cpu_kick (ctl s), mgr := MGR_WAIT\<rparr>)"
| seen: "mgr s = MGR_WAIT \<Longrightarrow> cpu_suspended (ctl s) \<Longrightarrow> manager_step s (s\<lparr>mgr := MGR_HELD\<rparr>)"
| mark_reset: "mgr s = MGR_HELD \<Longrightarrow> manager_step s (s\<lparr>ctl := (ctl s)\<lparr>reset := True\<rparr>\<rparr>)"
| mark_park: "mgr s = MGR_HELD \<Longrightarrow> manager_step s (s\<lparr>ctl := (ctl s)\<lparr>park := True\<rparr>\<rparr>)"
| mark_flush: "mgr s = MGR_HELD \<Longrightarrow> manager_step s (s\<lparr>ctl := arch_flush_vcpu_caches False (ctl s)\<rparr>)"
| set_entry: "mgr s = MGR_HELD \<Longrightarrow> manager_step s (s\<lparr>ctl := (ctl s)\<lparr>cpu_on_entry := e\<rparr>\<rparr>)"
| release: "mgr s = MGR_HELD \<Longrightarrow> manager_step s (s\<lparr>ctl := arch_resume_cpu (ctl s), mgr := MGR_IDLE\<rparr>)"

inductive peer_step :: "ctl_sys \<Rightarrow> ctl_sys \<Rightarrow> bool" where
  power_on: "wait_for_poweron (ctl s) \<Longrightarrow> peer_step s (s\<lparr>ctl := psci_power_on entry ctxt (ctl s)\<rparr>)"

inductive_simps manager_step_simps: "manager_step s s'"
inductive_simps target_step_simps: "target_step s s'"
inductive_simps peer_step_simps: "peer_step s s'"

definition quiet_step :: "ctl_sys \<Rightarrow> ctl_sys \<Rightarrow> bool" where
  "quiet_step s s' \<longleftrightarrow> target_step s s' \<or> manager_step s s'"

definition ctl_step :: "ctl_sys \<Rightarrow> ctl_sys \<Rightarrow> bool" where
  "ctl_step s s' \<longleftrightarrow> quiet_step s s' \<or> peer_step s s'"

definition ctl_start :: "ctl_sys \<Rightarrow> bool" where
  "ctl_start s \<longleftrightarrow> target s = IN_GUEST \<and> mgr s = MGR_IDLE \<and> \<not> suspend_cpu (ctl s) \<and> \<not> cpu_suspended (ctl s) \<and> \<not> sgi_event (ctl s)"

definition ctl_inv :: "ctl_sys \<Rightarrow> bool" where
  "ctl_inv s \<longleftrightarrow> (cpu_suspended (ctl s) \<longrightarrow> target s \<in> {CE_SPIN, CE_LOCKED}) \<and>
     (mgr s = MGR_HELD \<longrightarrow> cpu_suspended (ctl s)) \<and> (suspend_cpu (ctl s) \<longleftrightarrow> mgr s \<noteq> MGR_IDLE)"

lemmas ctl_defs = check_events_head_def check_events_flush_def enter_cpu_off_def arm_paging_vcpu_init_def arm_cpu_reset_def
  arm_cpu_park_def arm_cpu_kick_def arch_resume_cpu_def arch_flush_vcpu_caches_def psci_power_on_def check_events_leave_def arch_suspend_cpu_def

lemma tail_cases:
  assumes "check_events_tail c = (c', r)"
  shows "r = None \<longleftrightarrow> suspend_cpu c" "suspend_cpu c' = suspend_cpu c" "sgi_event c' = sgi_event c" "cpu_suspended c' = suspend_cpu c"
  using assms by (auto simp: check_events_tail_def ctl_defs Let_def split: if_splits)

lemma ctl_inv_step: "ctl_inv s \<Longrightarrow> ctl_step s s' \<Longrightarrow> ctl_inv s'"
  unfolding ctl_step_def quiet_step_def target_step_simps manager_step_simps peer_step_simps
  by (elim disjE conjE exE) (auto simp: ctl_inv_def ctl_defs dest: tail_cases)

interpretation ctl_any: step_invariant ctl_step ctl_inv
  by unfold_locales (rule ctl_inv_step)

lemma ctl_inv_start: "ctl_start s \<Longrightarrow> ctl_inv s"
  by (simp add: ctl_start_def ctl_inv_def)

subsection \<open>A suspended CPU\<close>

definition guest_regs :: "cpu_ctl \<Rightarrow> u64 \<times> (nat \<Rightarrow> u64) \<times> vcpu_space" where
  "guest_regs c = (guest_pc c, guest_usr c, vcpu_mm c)"

lemma held_target_step:
  "ctl_inv s \<Longrightarrow> mgr s = MGR_HELD \<Longrightarrow> target_step s s' \<Longrightarrow>
   target s' = CE_SPIN \<and> mgr s' = MGR_HELD \<and> guest_regs (ctl s') = guest_regs (ctl s)"
  unfolding target_step_simps
  by (elim disjE conjE exE) (auto simp: ctl_inv_def check_events_tail_def check_events_head_def guest_regs_def)

definition demo_ctl :: cpu_ctl where
  "demo_ctl = \<lparr>suspend_cpu = False, cpu_suspended = False, wait_for_poweron = False, reset = False, park = False,
     flush_vcpu_caches = False, cpu_on_entry = PSCI_INVALID_ADDRESS, cpu_on_context = 0, mpidr = 0x80000001, sgi_event = False,
     guest_pc = 0x4000, guest_usr = (\<lambda>_. 7), vcpu_mm = CELL_MM, vcpu_tlb_flushes = 0\<rparr>"

definition demo_sys :: ctl_sys where
  "demo_sys = \<lparr>ctl = demo_ctl, target = IN_GUEST, mgr = MGR_IDLE\<rparr>"

definition demo_held :: ctl_sys where
  "demo_held = \<lparr>ctl = demo_ctl\<lparr>suspend_cpu := True, cpu_suspended := True\<rparr>, target = CE_SPIN, mgr = MGR_HELD\<rparr>"

lemma quiet_target: "target_step s s' \<Longrightarrow> quiet_step s s'" and quiet_manager: "manager_step s s' \<Longrightarrow> quiet_step s s'"
  by (simp_all add: quiet_step_def)

lemma ctl_target: "target_step s s' \<Longrightarrow> ctl_step s s'" and ctl_manager: "manager_step s s' \<Longrightarrow> ctl_step s s'"
  and ctl_peer: "peer_step s s' \<Longrightarrow> ctl_step s s'" and ctl_quiet: "quiet_step s s' \<Longrightarrow> ctl_step s s'"
  by (auto simp: ctl_step_def quiet_step_def)

lemma demo_start: "ctl_start demo_sys"
  by (simp add: ctl_start_def demo_sys_def demo_ctl_def)

lemma rtranclp_quiet_ctl: "quiet_step\<^sup>*\<^sup>* s s' \<Longrightarrow> ctl_step\<^sup>*\<^sup>* s s'"
  by (induction rule: rtranclp_induct) (auto intro: rtranclp.rtrancl_into_rtrancl ctl_quiet)

lemma suspend_trace:
  assumes "mgr s = MGR_IDLE" "target s = IN_GUEST" "\<not> cpu_suspended (ctl s)"
  shows "quiet_step\<^sup>*\<^sup>* s (s\<lparr>ctl := (ctl s)\<lparr>suspend_cpu := True, sgi_event := False, cpu_suspended := True\<rparr>, target := CE_SPIN, mgr := MGR_HELD\<rparr>)"
proof -
  define s1 where "s1 = s\<lparr>ctl := (ctl s)\<lparr>suspend_cpu := True\<rparr>, mgr := MGR_KICK\<rparr>"
  define s2 where "s2 = s1\<lparr>ctl := arm_cpu_kick (ctl s1), mgr := MGR_WAIT\<rparr>"
  define s3 where "s3 = s2\<lparr>ctl := (ctl s2)\<lparr>sgi_event := False\<rparr>, target := CE_ENTER\<rparr>"
  define s4 where "s4 = s3\<lparr>ctl := check_events_head (ctl s3), target := CE_SPIN\<rparr>"
  have "quiet_step s s1"
    using manager_step.request [of s "(ctl s)\<lparr>suspend_cpu := True\<rparr>" False] assms
    by (simp add: s1_def arch_suspend_cpu_def quiet_manager)
  moreover have "quiet_step s1 s2"
    unfolding s2_def by (rule quiet_manager, rule manager_step.kick) (simp add: s1_def)
  moreover have "quiet_step s2 s3"
    unfolding s3_def by (rule quiet_target, rule target_step.take_event) (simp_all add: s2_def s1_def assms arm_cpu_kick_def)
  moreover have "quiet_step s3 s4"
    unfolding s4_def by (rule quiet_target, rule target_step.head) (simp add: s3_def)
  moreover have "quiet_step s4 (s4\<lparr>mgr := MGR_HELD\<rparr>)"
    by (rule quiet_manager, rule manager_step.seen) (simp_all add: s4_def s3_def s2_def s1_def check_events_head_def arm_cpu_kick_def)
  ultimately have "quiet_step\<^sup>*\<^sup>* s (s4\<lparr>mgr := MGR_HELD\<rparr>)"
    by (meson rtranclp.rtrancl_into_rtrancl rtranclp.rtrancl_refl)
  then show ?thesis
    by (simp add: s4_def s3_def s2_def s1_def check_events_head_def arm_cpu_kick_def)
qed

lemma demo_reach: "quiet_step\<^sup>*\<^sup>* demo_sys demo_held"
proof -
  have "demo_sys\<lparr>ctl := (ctl demo_sys)\<lparr>suspend_cpu := True, sgi_event := False, cpu_suspended := True\<rparr>, target := CE_SPIN, mgr := MGR_HELD\<rparr> = demo_held"
    by (simp add: demo_sys_def demo_held_def demo_ctl_def)
  then show ?thesis
    using suspend_trace [of demo_sys] by (simp add: demo_sys_def demo_ctl_def)
qed

text \<open>C26: In every interleaving of the manager, the controlled CPU and the power-on requests of its peers, a CPU that
  \<open>arch_suspend_cpu\<close> has suspended is in the loop of \<open>check_events\<close>; none of its own steps leaves the loop or
  touches the guest's registers or address space while the manager holds it.\<close>

theorem suspended_cpu_is_stopped:
  assumes "ctl_start s0" "ctl_step\<^sup>*\<^sup>* s0 s" "mgr s = MGR_HELD"
  shows "target s \<in> {CE_SPIN, CE_LOCKED} \<and> suspend_cpu (ctl s) \<and>
    (\<forall>s'. target_step s s' \<longrightarrow> target s' = CE_SPIN \<and> mgr s' = MGR_HELD \<and> guest_regs (ctl s') = guest_regs (ctl s))"
proof -
  have inv: "ctl_inv s"
    using ctl_any.reach [OF assms(2)] ctl_inv_start assms(1) by blast
  then show ?thesis
    using assms(3) held_target_step [OF inv assms(3)] by (auto simp: ctl_inv_def)
qed

theorem suspended_cpu_is_stopped_witness:
  "ctl_start demo_sys \<and> ctl_step\<^sup>*\<^sup>* demo_sys demo_held \<and> target demo_held \<in> {CE_SPIN, CE_LOCKED}"
  using suspended_cpu_is_stopped [OF demo_start rtranclp_quiet_ctl [OF demo_reach]] demo_start rtranclp_quiet_ctl [OF demo_reach]
  by (simp add: demo_held_def)

subsection \<open>Progress of a suspension\<close>

definition ctl_dead :: "ctl_sys \<Rightarrow> bool" where
  "ctl_dead s \<longleftrightarrow> mgr s = MGR_WAIT \<and> target s = CE_SPIN \<and> suspend_cpu (ctl s) \<and> \<not> cpu_suspended (ctl s)"

lemma ctl_dead_step: "ctl_dead s \<Longrightarrow> ctl_step s s' \<Longrightarrow> ctl_dead s'"
  unfolding ctl_step_def quiet_step_def target_step_simps manager_step_simps peer_step_simps
  by (auto simp: ctl_dead_def psci_power_on_def arm_cpu_kick_def)

interpretation ctl_hang: step_invariant ctl_step ctl_dead
  by unfold_locales (rule ctl_dead_step)

lemma ctl_dead_reachable:
  assumes "ctl_start s" "wait_for_poweron (ctl s)"
  shows "\<exists>s'. ctl_step\<^sup>*\<^sup>* s s' \<and> ctl_dead s'"
proof -
  define s1 where "s1 = s\<lparr>ctl := psci_power_on 0 0 (ctl s)\<rparr>"
  define s2 where "s2 = s1\<lparr>ctl := (ctl s1)\<lparr>sgi_event := False\<rparr>, target := CE_ENTER\<rparr>"
  define s3 where "s3 = s2\<lparr>ctl := check_events_head (ctl s2), target := CE_SPIN\<rparr>"
  define s4 where "s4 = s3\<lparr>ctl := (ctl s3)\<lparr>suspend_cpu := True\<rparr>, mgr := MGR_KICK\<rparr>"
  define s5 where "s5 = s4\<lparr>ctl := arm_cpu_kick (ctl s4), mgr := MGR_WAIT\<rparr>"
  have st: "target s = IN_GUEST" "mgr s = MGR_IDLE" "\<not> suspend_cpu (ctl s)" "\<not> cpu_suspended (ctl s)"
    using assms(1) by (simp_all add: ctl_start_def)
  have "ctl_step s s1"
    unfolding s1_def by (rule ctl_peer, rule peer_step.power_on) (rule assms(2))
  moreover have "ctl_step s1 s2"
    unfolding s2_def by (rule ctl_target, rule target_step.take_event) (simp_all add: s1_def st psci_power_on_def arm_cpu_kick_def)
  moreover have "ctl_step s2 s3"
    unfolding s3_def by (rule ctl_target, rule target_step.head) (simp add: s2_def)
  moreover have h3: "\<not> cpu_suspended (ctl s3)" "mgr s3 = MGR_IDLE"
    by (simp_all add: s3_def s2_def s1_def st check_events_head_def psci_power_on_def arm_cpu_kick_def)
  moreover have "ctl_step s3 s4"
    using manager_step.request [of s3 "(ctl s3)\<lparr>suspend_cpu := True\<rparr>" False] h3
    by (simp add: s4_def arch_suspend_cpu_def ctl_manager)
  moreover have "ctl_step s4 s5"
    unfolding s5_def by (rule ctl_manager, rule manager_step.kick) (simp add: s4_def)
  ultimately have "ctl_step\<^sup>*\<^sup>* s s5"
    by (meson rtranclp.rtrancl_into_rtrancl rtranclp.rtrancl_refl)
  moreover have "ctl_dead s5"
    using h3 by (simp add: ctl_dead_def s5_def s4_def arm_cpu_kick_def s3_def)
  ultimately show ?thesis by blast
qed

text \<open>A suspension that races with a power-on can hang for ever: when the controlled CPU has been kicked by
  \<open>CPU_ON\<close> and has passed the head of \<open>check_events\<close>, a suspend request makes it wait in the inner loop without having
  announced \<open>cpu_suspended\<close>, for which \<open>arch_suspend_cpu\<close> waits; no later step of anyone ends the wait.\<close>

theorem suspend_can_hang:
  assumes "ctl_start s" "wait_for_poweron (ctl s)"
  shows "\<exists>s1. ctl_step\<^sup>*\<^sup>* s s1 \<and> mgr s1 = MGR_WAIT \<and>
    (\<forall>s2. ctl_step\<^sup>*\<^sup>* s1 s2 \<longrightarrow> mgr s2 = MGR_WAIT \<and> target s2 = CE_SPIN \<and> \<not> cpu_suspended (ctl s2))"
  using ctl_dead_reachable [OF assms] ctl_hang.reach unfolding ctl_dead_def by blast

definition demo_off :: ctl_sys where
  "demo_off = demo_sys\<lparr>ctl := demo_ctl\<lparr>wait_for_poweron := True, vcpu_mm := PARKING_MM\<rparr>\<rparr>"

theorem suspend_can_hang_example:
  "ctl_start demo_off \<and> (\<exists>s1. ctl_step\<^sup>*\<^sup>* demo_off s1 \<and> mgr s1 = MGR_WAIT \<and>
    (\<forall>s2. ctl_step\<^sup>*\<^sup>* s1 s2 \<longrightarrow> mgr s2 = MGR_WAIT \<and> target s2 = CE_SPIN \<and> \<not> cpu_suspended (ctl s2)))"
proof -
  have "ctl_start demo_off" "wait_for_poweron (ctl demo_off)"
    by (simp_all add: ctl_start_def demo_off_def demo_sys_def demo_ctl_def)
  then show ?thesis
    using suspend_can_hang [of demo_off] by blast
qed

definition quiet_inv :: "ctl_sys \<Rightarrow> bool" where
  "quiet_inv s \<longleftrightarrow> ctl_inv s \<and> (sgi_event (ctl s) \<longrightarrow> mgr s = MGR_WAIT \<and> \<not> cpu_suspended (ctl s)) \<and>
     (target s = CE_ENTER \<longrightarrow> mgr s = MGR_WAIT \<and> \<not> sgi_event (ctl s)) \<and>
     (target s \<in> {CE_SPIN, CE_LOCKED} \<longrightarrow> cpu_suspended (ctl s)) \<and> (mgr s = MGR_KICK \<longrightarrow> \<not> cpu_suspended (ctl s)) \<and>
     (mgr s = MGR_WAIT \<longrightarrow> cpu_suspended (ctl s) \<and> target s = CE_SPIN \<or> sgi_event (ctl s) \<or> target s = CE_ENTER)"

lemma quiet_inv_start: "ctl_start s \<Longrightarrow> quiet_inv s"
  by (simp add: quiet_inv_def ctl_inv_start) (simp add: ctl_start_def)

lemma quiet_inv_target: "quiet_inv s \<Longrightarrow> target_step s s' \<Longrightarrow> quiet_inv s'"
  using ctl_inv_step [OF _ ctl_target, of s s'] unfolding target_step_simps
  by (elim disjE conjE exE) (auto simp: quiet_inv_def ctl_defs ctl_inv_def dest: tail_cases)

lemma quiet_inv_manager: "quiet_inv s \<Longrightarrow> manager_step s s' \<Longrightarrow> quiet_inv s'"
  using ctl_inv_step [OF _ ctl_manager, of s s'] unfolding manager_step_simps
  by (elim disjE conjE exE) (auto simp: quiet_inv_def ctl_defs ctl_inv_def)

interpretation ctl_quiet_steps: step_invariant quiet_step quiet_inv
  by unfold_locales (auto simp: quiet_step_def intro: quiet_inv_target quiet_inv_manager)

text \<open>A step of the controlled CPU that takes a pending interrupt before the guest goes on.\<close>

definition prompt_step :: "ctl_sys \<Rightarrow> ctl_sys \<Rightarrow> bool" where
  "prompt_step s s' \<longleftrightarrow> target_step s s' \<and> (target s = IN_GUEST \<and> sgi_event (ctl s) \<longrightarrow> target s' = CE_ENTER)"

definition wait_rank :: "ctl_sys \<Rightarrow> nat" where
  "wait_rank s = (if cpu_suspended (ctl s) then 0 else case target s of CE_ENTER \<Rightarrow> 1 | IN_GUEST \<Rightarrow> 2 | CE_LEAVE r \<Rightarrow> 3 | _ \<Rightarrow> 4)"

lemma wait_rank_bound: "quiet_inv s \<Longrightarrow> wait_rank s \<le> 3"
  by (auto simp: quiet_inv_def wait_rank_def split: target_pc.splits)

lemma wait_rank_step:
  assumes "quiet_inv s" "mgr s = MGR_WAIT" "prompt_step s s'"
  shows "mgr s' = MGR_WAIT \<and> wait_rank s' < wait_rank s"
  using assms unfolding prompt_step_def target_step_simps
  by (elim conjE disjE exE)
    (auto simp: quiet_inv_def ctl_inv_def wait_rank_def ctl_defs split: target_pc.splits)

lemma wait_rank_progress:
  assumes "quiet_inv s" "mgr s = MGR_WAIT" "\<not> cpu_suspended (ctl s)"
  shows "\<exists>s'. prompt_step s s'"
proof (cases "target s")
  case IN_GUEST
  then have "target_step s (s\<lparr>ctl := (ctl s)\<lparr>sgi_event := False\<rparr>, target := CE_ENTER\<rparr>)"
    using assms by (intro target_step.take_event) (auto simp: quiet_inv_def)
  then show ?thesis
    by (auto simp: prompt_step_def)
next
  case CE_ENTER
  show ?thesis
    using target_step.head [OF CE_ENTER] CE_ENTER by (auto simp: prompt_step_def)
next
  case (CE_LEAVE r)
  show ?thesis
    using target_step.leave [OF CE_LEAVE] CE_LEAVE by (auto simp: prompt_step_def)
qed (use assms in \<open>auto simp: quiet_inv_def\<close>)

lemma wait_run:
  "(prompt_step ^^ n) s s' \<Longrightarrow> quiet_inv s \<Longrightarrow> mgr s = MGR_WAIT \<Longrightarrow> quiet_inv s' \<and> mgr s' = MGR_WAIT \<and> n + wait_rank s' \<le> wait_rank s"
proof (induction n arbitrary: s')
  case (Suc n)
  then obtain s1 where s1: "(prompt_step ^^ n) s s1" "prompt_step s1 s'"
    by auto
  have ih: "quiet_inv s1" "mgr s1 = MGR_WAIT" "n + wait_rank s1 \<le> wait_rank s"
    using Suc s1(1) by auto
  have "mgr s' = MGR_WAIT" "wait_rank s' < wait_rank s1"
    using wait_rank_step [OF ih(1,2) s1(2)] by auto
  moreover have "quiet_inv s'"
    using quiet_inv_target [OF ih(1)] s1(2) by (simp add: prompt_step_def)
  ultimately show ?case
    using ih(3) by simp
qed simp

text \<open>C27: Without power-on requests in between, a suspension ends: while the manager waits, every run of the controlled CPU that takes
  pending interrupts first has at most three steps, and where it stops the CPU has announced that it is suspended.\<close>

theorem suspend_terminates:
  assumes "ctl_start s0" "quiet_step\<^sup>*\<^sup>* s0 s" "mgr s = MGR_WAIT" "(prompt_step ^^ n) s s'"
  shows "n \<le> 3 \<and> mgr s' = MGR_WAIT \<and> (cpu_suspended (ctl s') \<or> (\<exists>s''. prompt_step s' s''))"
proof -
  have inv: "quiet_inv s"
    using ctl_quiet_steps.reach [OF assms(2)] quiet_inv_start [OF assms(1)] by blast
  have run: "quiet_inv s'" "mgr s' = MGR_WAIT" "n + wait_rank s' \<le> wait_rank s"
    using wait_run [OF assms(4) inv assms(3)] by auto
  show ?thesis
    using run wait_rank_bound [OF inv] wait_rank_progress [OF run(1,2)] by auto
qed

definition demo_wait :: ctl_sys where
  "demo_wait = \<lparr>ctl = demo_ctl\<lparr>suspend_cpu := True, sgi_event := True\<rparr>, target = IN_GUEST, mgr = MGR_WAIT\<rparr>"

lemma demo_wait_reach: "quiet_step\<^sup>*\<^sup>* demo_sys demo_wait"
proof -
  define s1 where "s1 = demo_sys\<lparr>ctl := demo_ctl\<lparr>suspend_cpu := True\<rparr>, mgr := MGR_KICK\<rparr>"
  have "quiet_step demo_sys s1"
    using manager_step.request [of demo_sys "demo_ctl\<lparr>suspend_cpu := True\<rparr>" False]
    by (simp add: s1_def arch_suspend_cpu_def demo_sys_def demo_ctl_def quiet_manager)
  moreover have "quiet_step s1 demo_wait"
    using manager_step.kick [of s1] by (simp add: s1_def demo_sys_def demo_wait_def arm_cpu_kick_def quiet_manager)
  ultimately show ?thesis
    by (meson rtranclp.rtrancl_into_rtrancl rtranclp.rtrancl_refl)
qed

theorem suspend_terminates_witness:
  "quiet_step\<^sup>*\<^sup>* demo_sys demo_wait \<and> mgr demo_wait = MGR_WAIT \<and> (\<exists>s''. prompt_step demo_wait s'')"
  using suspend_terminates [OF demo_start demo_wait_reach, of 0 demo_wait] demo_wait_reach
  by (simp add: demo_wait_def demo_ctl_def)

subsection \<open>What a released CPU does\<close>

text \<open>\<open>check_events\<close> without interference, on a CPU that nobody suspends.\<close>

definition check_events :: "cpu_ctl \<Rightarrow> cpu_ctl" where
  "check_events c = (case check_events_tail (check_events_head c) of (c', Some r) \<Rightarrow> check_events_leave r c' | (c', None) \<Rightarrow> c')"

definition cpu_parked :: "cpu_ctl \<Rightarrow> bool" where
  "cpu_parked c \<longleftrightarrow> wait_for_poweron c \<and> \<not> park c \<and> guest_pc c = 0 \<and> vcpu_mm c = PARKING_MM"

lemma check_events_cases:
  assumes "\<not> suspend_cpu c"
  shows "park c \<Longrightarrow> cpu_parked (check_events c) \<and> reset (check_events c) = reset c"
    "\<not> park c \<Longrightarrow> reset c \<Longrightarrow> cpu_on_entry c = PSCI_INVALID_ADDRESS \<Longrightarrow> cpu_parked (check_events c) \<and> \<not> reset (check_events c)"
    "\<not> park c \<Longrightarrow> reset c \<Longrightarrow> cpu_on_entry c \<noteq> PSCI_INVALID_ADDRESS \<Longrightarrow>
      guest_regs (check_events c) = (cpu_on_entry c, (\<lambda>_. 0)(1 := cpu_on_context c), CELL_MM) \<and> \<not> wait_for_poweron (check_events c) \<and> \<not> reset (check_events c)"
    "\<not> park c \<Longrightarrow> \<not> reset c \<Longrightarrow> \<not> wait_for_poweron c \<Longrightarrow>
      guest_regs (check_events c) = guest_regs c \<and> \<not> wait_for_poweron (check_events c)"
    "\<not> park c \<Longrightarrow> \<not> reset c \<Longrightarrow> wait_for_poweron c \<Longrightarrow> cpu_parked (check_events c)"
    "flush_vcpu_caches c \<Longrightarrow> vcpu_tlb_flushes c < vcpu_tlb_flushes (check_events c) \<and> \<not> flush_vcpu_caches (check_events c)"
  using assms by (simp_all add: check_events_def check_events_tail_def ctl_defs cpu_parked_def guest_regs_def Let_def)

lemma fold_entry:
  "fold (\<lambda>cpu m. m(cpu := (m cpu)\<lparr>cpu_on_entry := e\<rparr>)) xs m cpu =
     (if cpu \<in> set xs then (m cpu)\<lparr>cpu_on_entry := e\<rparr> else m cpu)" for m :: "nat \<Rightarrow> cpu_ctl"
  by (induction xs arbitrary: m) auto

lemma arch_cell_reset_cpu:
  assumes "cpu \<in> set (for_each_cpu cs)"
  shows "arch_cell_reset cs e cpus cpu = (cpus cpu)\<lparr>cpu_on_entry := if cpu = first_cpu cs then e else PSCI_INVALID_ADDRESS\<rparr>"
  using assms by (auto simp: arch_cell_reset_def Let_def fold_entry for_each_cpu_set cpus_after_set)

text \<open>Starting a cell: after \<open>arch_cell_reset\<close> and \<open>arch_reset_cpu\<close> on every CPU of the cell, with no park request pending, the first CPU leaves
  \<open>check_events\<close> at the cell's reset address in the address space of the cell, and every other one is parked and waits for power-on.\<close>

theorem cell_start_cpus:
  assumes "cpu \<in> set (for_each_cpu cs)" "\<not> park (cpus cpu)" "cpu_reset_address \<noteq> PSCI_INVALID_ADDRESS"
  shows "let c = check_events (arch_reset_cpu (arch_cell_reset cs cpu_reset_address cpus cpu)) in
    if cpu = first_cpu cs then guest_regs c = (cpu_reset_address, (\<lambda>_. 0)(1 := cpu_on_context (cpus cpu)), CELL_MM) \<and> \<not> wait_for_poweron c
    else cpu_parked c"
  using assms check_events_cases(2,3) [of "arch_reset_cpu (arch_cell_reset cs cpu_reset_address cpus cpu)"]
  by (cases "cpu = first_cpu cs") (simp_all add: arch_cell_reset_cpu arch_reset_cpu_def arch_resume_cpu_def Let_def)

definition demo_cell_cpus :: cpu_set where
  "demo_cell_cpus = \<lparr>max_cpu_id = 63, bitmap = [6]\<rparr>"

lemma demo_cell_cpus_mem: "1 \<in> set (for_each_cpu demo_cell_cpus)" "2 \<in> set (for_each_cpu demo_cell_cpus)"
  by (simp_all add: for_each_cpu_set demo_cell_cpus_def test_bit_def bit_iff_odd_drop_bit drop_bit_eq_div)

lemma demo_first_cpu: "first_cpu demo_cell_cpus = 1"
  by code_simp

theorem cell_start_cpus_example:
  "cpu_parked (check_events (arch_reset_cpu (arch_cell_reset demo_cell_cpus 0x1000 (\<lambda>_. demo_ctl) 2))) \<and>
   guest_regs (check_events (arch_reset_cpu (arch_cell_reset demo_cell_cpus 0x1000 (\<lambda>_. demo_ctl) 1))) = (0x1000, \<lambda>_. 0, CELL_MM)"
proof -
  have h: "\<not> park ((\<lambda>_::nat. demo_ctl) i)" "cpu_on_context demo_ctl = 0" "(0x1000::u64) \<noteq> PSCI_INVALID_ADDRESS" for i
    by (simp_all add: demo_ctl_def PSCI_INVALID_ADDRESS_def)
  show ?thesis
    using cell_start_cpus [OF demo_cell_cpus_mem(1) h(1) h(3)] cell_start_cpus [OF demo_cell_cpus_mem(2) h(1) h(3)]
    by (simp add: demo_first_cpu Let_def h(2) fun_upd_idem)
qed

subsection \<open>Parked and then started\<close>

lemma lost_start_trace:
  assumes "mgr s = MGR_HELD" "target s = CE_SPIN" "cpu_suspended (ctl s)" "\<not> sgi_event (ctl s)"
  shows "\<exists>s'. quiet_step\<^sup>*\<^sup>* s s' \<and> mgr s' = MGR_IDLE \<and> target s' = IN_GUEST \<and> cpu_parked (ctl s') \<and>
    reset (ctl s') \<and> cpu_on_entry (ctl s') = e \<and> \<not> sgi_event (ctl s')"
proof -
  define s1 where "s1 = s\<lparr>ctl := (ctl s)\<lparr>park := True\<rparr>\<rparr>"
  define s2 where "s2 = s1\<lparr>ctl := arch_resume_cpu (ctl s1), mgr := MGR_IDLE\<rparr>"
  define s3 where "s3 = s2\<lparr>ctl := (ctl s2)\<lparr>suspend_cpu := True\<rparr>, mgr := MGR_HELD\<rparr>"
  define s4 where "s4 = s3\<lparr>ctl := (ctl s3)\<lparr>cpu_on_entry := e\<rparr>\<rparr>"
  define s5 where "s5 = s4\<lparr>ctl := (ctl s4)\<lparr>reset := True\<rparr>\<rparr>"
  define s6 where "s6 = s5\<lparr>ctl := arch_resume_cpu (ctl s5), mgr := MGR_IDLE\<rparr>"
  define s7 where "s7 = s6\<lparr>target := CE_LOCKED\<rparr>"
  define c8 where "c8 = check_events_flush (enter_cpu_off ((ctl s7)\<lparr>cpu_suspended := False\<rparr>))"
  define s8 where "s8 = s7\<lparr>ctl := c8, target := CE_LEAVE False\<rparr>"
  define s9 where "s9 = s8\<lparr>ctl := check_events_leave False (ctl s8), target := IN_GUEST\<rparr>"
  note defs = s1_def s2_def s3_def s4_def s5_def s6_def s7_def arch_resume_cpu_def
  have "quiet_step s s1"
    unfolding s1_def by (rule quiet_manager, rule manager_step.mark_park) (rule assms(1))
  moreover have "quiet_step s1 s2"
    unfolding s2_def by (rule quiet_manager, rule manager_step.release) (simp add: s1_def assms)
  moreover have "quiet_step s2 s3"
    using manager_step.request [of s2 "(ctl s2)\<lparr>suspend_cpu := True\<rparr>" True] assms
    by (simp add: defs arch_suspend_cpu_def quiet_manager)
  moreover have "quiet_step s3 s4"
    unfolding s4_def by (rule quiet_manager, rule manager_step.set_entry) (simp add: s3_def)
  moreover have "quiet_step s4 s5"
    unfolding s5_def by (rule quiet_manager, rule manager_step.mark_reset) (simp add: s4_def s3_def)
  moreover have "quiet_step s5 s6"
    unfolding s6_def by (rule quiet_manager, rule manager_step.release) (simp add: s5_def s4_def s3_def)
  moreover have "quiet_step s6 s7"
    unfolding s7_def by (rule quiet_target, rule target_step.spin) (simp_all add: defs assms)
  moreover have "quiet_step s7 s8"
    unfolding s8_def by (rule quiet_target, rule target_step.exit) (simp_all add: defs check_events_tail_def c8_def)
  moreover have "quiet_step s8 s9"
    unfolding s9_def by (rule quiet_target, rule target_step.leave) (simp add: s8_def)
  ultimately have "quiet_step\<^sup>*\<^sup>* s s9"
    by (meson rtranclp.rtrancl_into_rtrancl rtranclp.rtrancl_refl)
  moreover have "mgr s9 = MGR_IDLE \<and> target s9 = IN_GUEST \<and> cpu_parked (ctl s9) \<and> reset (ctl s9) \<and>
    cpu_on_entry (ctl s9) = e \<and> \<not> sgi_event (ctl s9)"
    by (simp add: s9_def s8_def c8_def defs ctl_defs cpu_parked_def assms)
  ultimately show ?thesis
    by blast
qed

text \<open>A start can be lost: when a CPU is parked (\<open>cell_set_loadable\<close>) and is suspended again before it has left the inner loop of
  \<open>check_events\<close>, the reset that follows (\<open>cell_start\<close>) is not seen, because the loop handles the park request and
  breaks. The CPU ends in the parking loop with the reset and a valid entry address pending and no event that would make it look again.\<close>

theorem cell_start_can_be_lost:
  assumes "ctl_start s"
  shows "\<exists>s'. quiet_step\<^sup>*\<^sup>* s s' \<and> mgr s' = MGR_IDLE \<and> target s' = IN_GUEST \<and> cpu_parked (ctl s') \<and>
    reset (ctl s') \<and> cpu_on_entry (ctl s') = cpu_reset_address \<and> \<not> sgi_event (ctl s')"
proof -
  define h where "h = s\<lparr>ctl := (ctl s)\<lparr>suspend_cpu := True, sgi_event := False, cpu_suspended := True\<rparr>, target := CE_SPIN, mgr := MGR_HELD\<rparr>"
  have "quiet_step\<^sup>*\<^sup>* s h"
    unfolding h_def using assms by (intro suspend_trace) (auto simp: ctl_start_def)
  then show ?thesis
    using lost_start_trace [of h cpu_reset_address] by (auto simp: h_def intro: rtranclp_trans)
qed

theorem cell_start_can_be_lost_example:
  "ctl_start demo_sys \<and> (\<exists>s'. quiet_step\<^sup>*\<^sup>* demo_sys s' \<and> cpu_parked (ctl s') \<and> reset (ctl s') \<and> cpu_on_entry (ctl s') = 0x1000)"
  using cell_start_can_be_lost [where cpu_reset_address = "0x1000", OF demo_start] demo_start by blast

subsection \<open>Power-on by a guest\<close>

lemma arm_cpu_by_mpidr_cell:
  "arm_cpu_by_mpidr cs cpus m = Some cpu \<Longrightarrow> cpu \<in> set (for_each_cpu cs) \<and> and (mpidr (cpus cpu)) MPIDR_CPUID_MASK = m"
  "arm_cpu_by_mpidr cs cpus m = None \<longleftrightarrow> (\<forall>cpu\<in>set (for_each_cpu cs). and (mpidr (cpus cpu)) MPIDR_CPUID_MASK \<noteq> m)"
  by (auto simp: arm_cpu_by_mpidr_def find_Some_iff find_None_iff)

lemma psci_cpu_on_other: "c \<notin> set (for_each_cpu cs) \<Longrightarrow> fst (psci_emulate_cpu_on cs regs cpus) c = cpus c"
  by (auto simp: psci_emulate_cpu_on_def Let_def dest: arm_cpu_by_mpidr_cell(1) split: option.splits)

text \<open>C28: \<open>CPU_ON\<close> and the event loop of its target, as a round trip, for 64-bit and 32-bit calls (which use the low halves of the registers): a request for a CPU of the caller's cell that is off,
  and neither suspended nor being parked, succeeds, sends it an event, and the event loop of the target starts it in its cell at the
  requested entry with all general registers 0 but \<open>x1\<close>, which has the requested context (PSCI says it is passed in \<open>x0\<close>);
  from then on \<open>AFFINITY_INFO\<close> says it is on and another request for it is \<open>ALREADY_ON\<close> and changes nothing.\<close>

theorem psci_cpu_on_starts:
  fixes regs :: "nat \<Rightarrow> u64"
  defines "m \<equiv> if IS_PSCI_64 (regs 0) then - 1 else 0xffffffff"
  assumes "arm_cpu_by_mpidr cs cpus (and (regs 1) m) = Some cpu" "wait_for_poweron (cpus cpu)"
    "\<not> suspend_cpu (cpus cpu)" "\<not> park (cpus cpu)" "and (regs 2) m \<noteq> PSCI_INVALID_ADDRESS" "regs' 1 = and (regs 1) m"
  shows "let (cpus1, res) = psci_emulate_cpu_on cs regs cpus; cpus2 = cpus1(cpu := check_events (cpus1 cpu)) in
    res = PSCI_SUCCESS \<and> cpu \<in> set (for_each_cpu cs) \<and> sgi_event (cpus1 cpu) \<and> (\<forall>c. c \<noteq> cpu \<longrightarrow> cpus1 c = cpus c) \<and>
    guest_pc (cpus2 cpu) = and (regs 2) m \<and> guest_usr (cpus2 cpu) 1 = and (regs 3) m \<and> (\<forall>n. n \<noteq> 1 \<longrightarrow> guest_usr (cpus2 cpu) n = 0) \<and> vcpu_mm (cpus2 cpu) = CELL_MM \<and>
    psci_emulate_affinity_info cs regs' cpus2 = PSCI_CPU_IS_ON \<and> psci_emulate_cpu_on cs regs cpus2 = (cpus2, PSCI_ALREADY_ON)"
proof -
  define c1 where "c1 = psci_power_on (and (regs 2) m) (and (regs 3) m) (cpus cpu)"
  define cpus2 where "cpus2 = cpus(cpu := check_events c1)"
  have on: "psci_emulate_cpu_on cs regs cpus = (cpus(cpu := c1), PSCI_SUCCESS)"
    using assms(2,3) by (simp add: psci_emulate_cpu_on_def c1_def m_def [symmetric] Let_def)
  have c1: "sgi_event c1" "\<not> suspend_cpu c1" "\<not> park c1" "reset c1" "cpu_on_entry c1 = and (regs 2) m" "cpu_on_context c1 = and (regs 3) m"
    using assms(4,5) by (simp_all add: c1_def psci_power_on_def arm_cpu_kick_def)
  have "guest_regs (check_events c1) = (and (regs 2) m, (\<lambda>_. 0)(1 := and (regs 3) m), CELL_MM)" and off: "\<not> wait_for_poweron (check_events c1)"
    using check_events_cases(3) [OF c1(2-4)] c1(5,6) assms(6) by simp_all
  then have ev: "guest_pc (check_events c1) = and (regs 2) m" "guest_usr (check_events c1) = (\<lambda>_. 0)(1 := and (regs 3) m)" "vcpu_mm (check_events c1) = CELL_MM"
    by (simp_all add: guest_regs_def)
  have "mpidr (check_events c1) = mpidr (cpus cpu)"
    by (simp add: check_events_def check_events_tail_def ctl_defs Let_def c1_def)
  then have "\<And>c. mpidr (cpus2 c) = mpidr (cpus c)"
    by (simp add: cpus2_def)
  then have by2: "arm_cpu_by_mpidr cs cpus2 (and (regs 1) m) = Some cpu"
    using assms(2) by (simp add: arm_cpu_by_mpidr_def)
  then have "psci_emulate_cpu_on cs regs cpus2 = (cpus2, PSCI_ALREADY_ON)" "psci_emulate_affinity_info cs regs' cpus2 = PSCI_CPU_IS_ON"
    using off assms(7) by (simp_all add: psci_emulate_cpu_on_def psci_emulate_affinity_info_def m_def [symmetric] Let_def cpus2_def)
  then show ?thesis
    using on c1(1) ev arm_cpu_by_mpidr_cell(1) [OF assms(2)] by (simp add: cpus2_def Let_def)
qed

definition demo_off_cpus :: "nat \<Rightarrow> cpu_ctl" where
  "demo_off_cpus i = demo_ctl\<lparr>mpidr := of_nat i, wait_for_poweron := True, vcpu_mm := PARKING_MM\<rparr>"

definition demo_psci_regs :: "nat \<Rightarrow> u64" where
  "demo_psci_regs i = (if i = 0 then 0xc4000003 else if i = 1 then 2 else if i = 2 then 0x8000 else 9)"

theorem psci_cpu_on_starts_witness:
  "snd (psci_emulate_cpu_on demo_cell_cpus demo_psci_regs demo_off_cpus) = PSCI_SUCCESS \<and>
   guest_pc (check_events (fst (psci_emulate_cpu_on demo_cell_cpus demo_psci_regs demo_off_cpus) 2)) = 0x8000 \<and>
   guest_usr (check_events (fst (psci_emulate_cpu_on demo_cell_cpus demo_psci_regs demo_off_cpus) 2)) 1 = 9"
proof -
  have h: "IS_PSCI_64 (demo_psci_regs 0)" "arm_cpu_by_mpidr demo_cell_cpus demo_off_cpus (demo_psci_regs 1) = Some 2"
    by code_simp+
  have c: "wait_for_poweron (demo_off_cpus 2)" "\<not> suspend_cpu (demo_off_cpus 2)" "\<not> park (demo_off_cpus 2)"
    by (simp_all add: demo_off_cpus_def demo_ctl_def)
  have r: "demo_psci_regs 2 = 0x8000" "demo_psci_regs 3 = 9" "demo_psci_regs 2 \<noteq> PSCI_INVALID_ADDRESS"
    by (simp_all add: demo_psci_regs_def PSCI_INVALID_ADDRESS_def)
  show ?thesis
    using psci_cpu_on_starts [of demo_cell_cpus demo_off_cpus demo_psci_regs 2 demo_psci_regs] h c r by (simp add: Let_def split: prod.splits)
qed

text \<open>A guest's power control reaches its own cell only: whatever the registers of the call, \<open>psci_dispatch\<close> changes no CPU outside the
  caller's cell (given that waiting for an interrupt changes none), and \<open>CPU_ON\<close> for a CPU that is not in the cell is denied without effect.\<close>

theorem psci_stays_in_cell:
  assumes "\<And>cpus c. c \<notin> set (for_each_cpu cs) \<Longrightarrow> idle this_cpu cpus c = cpus c"
    "this_cpu \<in> set (for_each_cpu cs)" "c \<notin> set (for_each_cpu cs)"
  shows "fst (psci_dispatch idle cs this_cpu regs cpus) c = cpus c \<and>
    (arm_cpu_by_mpidr cs cpus (and (regs 1) (if IS_PSCI_64 (regs 0) then - 1 else 0xffffffff)) = None \<longrightarrow>
     psci_emulate_cpu_on cs regs cpus = (cpus, PSCI_DENIED))"
proof
  show "fst (psci_dispatch idle cs this_cpu regs cpus) c = cpus c"
    using assms psci_cpu_on_other [OF assms(3)] by (auto simp: psci_dispatch_def Let_def)
qed (simp add: psci_emulate_cpu_on_def Let_def)

theorem psci_stays_in_cell_example:
  "fst (psci_dispatch (\<lambda>_ m. m) demo_cell_cpus 1 demo_psci_regs demo_off_cpus) 0 = demo_off_cpus 0"
proof -
  have "0 \<notin> set (for_each_cpu demo_cell_cpus)"
    by (simp add: for_each_cpu_set demo_cell_cpus_def test_bit_def)
  then show ?thesis
    using psci_stays_in_cell [of demo_cell_cpus "\<lambda>_ m. m" 1 0 demo_psci_regs demo_off_cpus] demo_cell_cpus_mem by blast
qed

end
