(* ===== verification/Cells.thy ===== *)
theory Cells
  imports CellHeap CpuControl
begin

text \<open>
  The management of cells (\<open>hypervisor/control.c\<close>): creating, starting, loading and destroying cells, the messages to
  cells, the exchange of CPUs and memory with the root cell, information, shutdown and the dispatch of hypercalls.

  A cell is known by the address of its structure in the page pool. The devices (units, PCI, interrupt controller and
  memory arbiter) and what the guests write while the hypervisor waits for a reply are arguments of
  the definitions, in the record \<open>hv_env\<close>; a unit may change its devices, the cell it is called for, the page pool and the tables. \<open>arch_suspend_cpu\<close> is its result (theory \<open>CpuControl\<close> follows it step by step);
  management runs with the other CPUs of the root cell suspended and is one step. \<open>None\<close> is undefined behaviour or a
  loop that does not end.
\<close>

subsection \<open>Cells and CPUs\<close>

record cell_desc =
  cfg_name :: string
  cfg_id :: u32
  cfg_flags :: u32
  cfg_cpu_set_size :: u32
  cfg_cpu_set :: "u64 list"
  cfg_mem_regions :: "jailhouse_memory list"
  cfg_col_regions :: "jailhouse_memory_colored list"
  cfg_num_cache_regions :: u32
  cfg_num_irqchips :: u32
  cfg_pio_bitmap_size :: u32
  cfg_num_pci_devices :: u32
  cfg_num_pci_caps :: u32
  cfg_cpu_reset_address :: u64
  cfg_msg_reply_timeout :: u64

record comm_region =
  cell_state :: u32
  msg_to_cell :: u32
  reply_from_cell :: u32

text \<open>
  A cell is known by the address of its structure; \<open>cpu_set_page\<close> is 0 for a CPU set inside the structure, \<open>unit_pages\<close> are the pages
  that units have allocated for the cell, such as \<open>pci_devices\<close>.
\<close>

record hv_cell =
  cell_addr :: u64
  config :: cell_desc
  cpu_set :: cpu_set
  cpu_set_page :: u64
  cell_mm :: paging_structures
  cell_mmio :: mmio_table
  mmio_page :: u64
  comm :: comm_region
  loadable :: bool
  data_pages :: nat
  unit_pages :: "u64 list"

record hv_cpu =
  cpu_ctl_of :: cpu_ctl
  cpu_cell :: u64
  failed :: bool
  cpu_stats :: "u32 list"
  shutdown_state :: int

text \<open>
  The state of the hypervisor; \<open>cells\<close> are the cells behind the root cell in the order of \<open>next\<close>, \<open>devices\<close>
  is the state of the units (PCI, IOMMU, interrupt controller) and of the configured memory arbiter.
\<close>

record 'u hv =
  pts :: pt_state
  root_cell :: hv_cell
  cells :: "hv_cell list"
  num_cells :: u32
  cpu_data :: "nat \<Rightarrow> hv_cpu"
  devices :: 'u
  waiting_cpus :: nat
  do_common_shutdown :: bool

text \<open>
  A unit works on the cell it is called for, the state of the devices and the memory of the hypervisor: the interrupt controller maps pages into
  the cell and registers MMIO regions of it, PCI allocates pages.
\<close>

type_synonym 'u unit_state = "hv_cell \<times> 'u \<times> pt_state"

record 'u hv_unit =
  mmio_count_regions :: "cell_desc \<Rightarrow> nat"
  unit_cell_init :: "'u unit_state \<Rightarrow> 'u unit_state \<times> int"
  unit_cell_exit :: "'u unit_state \<Rightarrow> 'u unit_state"

text \<open>
  What the code calls and the model does not contain: whether a number of pages of the guest can be mapped and the
  configuration there, what a cell has written (reply and state) when it is polled after a message, if anything, the units, and the hooks of the interrupt
  controller, of PCI and of the arbiter (\<open>on_arch_park_cpu\<close>, \<open>tdma_on_cell_create\<close>, \<open>tdma_on_cell_destroy\<close>).
\<close>

record 'u hv_env =
  hv_off :: u64
  online_cpus :: nat
  remap_pool :: page_pool
  cpu_parange :: nat
  sizeof_cell :: nat
  mask_end :: bool
  colors :: jailhouse_color_desc
  guest_mapped :: "u64 \<Rightarrow> nat \<Rightarrow> bool"
  guest_config :: "u64 \<Rightarrow> cell_desc"
  polls :: "u32 \<Rightarrow> u32 \<Rightarrow> nat \<Rightarrow> (u32 \<times> u32) option"
  units :: "'u hv_unit list"
  park_hook :: "nat \<Rightarrow> 'u \<Rightarrow> 'u"
  cell_create_hook :: "cell_desc \<Rightarrow> 'u \<Rightarrow> 'u"
  cell_destroy_hook :: "cell_desc \<Rightarrow> 'u \<Rightarrow> 'u"
  cell_reset_hook :: "cell_desc \<Rightarrow> 'u \<Rightarrow> 'u"
  commit_hook :: "u64 option \<Rightarrow> 'u \<Rightarrow> 'u"
  shutdown_hook :: "'u \<Rightarrow> 'u"

definition EPERM :: int where "EPERM = 1"
definition ENOENT :: int where "ENOENT = 2"
definition EBUSY :: int where "EBUSY = 16"
definition EEXIST :: int where "EEXIST = 17"
definition EINVAL :: int where "EINVAL = 22"
definition ENOSYS :: int where "ENOSYS = 38"

definition JAILHOUSE_CELL_PASSIVE_COMMREG :: u32 where "JAILHOUSE_CELL_PASSIVE_COMMREG = 1"
definition JAILHOUSE_CELL_DEBUG_CONSOLE :: u32 where "JAILHOUSE_CELL_DEBUG_CONSOLE = 2"
definition JAILHOUSE_MSG_NONE :: u32 where "JAILHOUSE_MSG_NONE = 0"
definition JAILHOUSE_MSG_SHUTDOWN_REQUEST :: u32 where "JAILHOUSE_MSG_SHUTDOWN_REQUEST = 1"
definition JAILHOUSE_MSG_RECONFIG_COMPLETED :: u32 where "JAILHOUSE_MSG_RECONFIG_COMPLETED = 2"
definition JAILHOUSE_MSG_REQUEST_APPROVED :: u32 where "JAILHOUSE_MSG_REQUEST_APPROVED = 3"
definition JAILHOUSE_MSG_RECEIVED :: u32 where "JAILHOUSE_MSG_RECEIVED = 4"
definition JAILHOUSE_CELL_RUNNING :: u32 where "JAILHOUSE_CELL_RUNNING = 0"
definition JAILHOUSE_CELL_RUNNING_LOCKED :: u32 where "JAILHOUSE_CELL_RUNNING_LOCKED = 1"
definition JAILHOUSE_CELL_SHUT_DOWN :: u32 where "JAILHOUSE_CELL_SHUT_DOWN = 2"
definition JAILHOUSE_CELL_FAILED :: u32 where "JAILHOUSE_CELL_FAILED = 3"
definition JAILHOUSE_CELL_FAILED_COMM_REV :: u32 where "JAILHOUSE_CELL_FAILED_COMM_REV = 4"

datatype msg_type = MSG_REQUEST | MSG_INFORMATION

datatype management_task = CELL_START | CELL_SET_LOADABLE | CELL_DESTROY

definition upd_ctl :: "nat \<Rightarrow> (cpu_ctl \<Rightarrow> cpu_ctl) \<Rightarrow> 'u hv \<Rightarrow> 'u hv" where
  "upd_ctl cpu f s = s\<lparr>cpu_data := (cpu_data s)(cpu := (cpu_data s cpu)\<lparr>cpu_ctl_of := f (cpu_ctl_of (cpu_data s cpu))\<rparr>)\<rparr>"

text \<open>A cell of the list is changed in place.\<close>

definition upd_cell :: "u64 \<Rightarrow> (hv_cell \<Rightarrow> hv_cell) \<Rightarrow> 'u hv \<Rightarrow> 'u hv" where
  "upd_cell a f s = s\<lparr>cells := map (\<lambda>c. if cell_addr c = a then f c else c) (cells s)\<rparr>"

definition upd_root :: "(hv_cell \<Rightarrow> hv_cell) \<Rightarrow> 'u hv \<Rightarrow> 'u hv" where
  "upd_root f s = s\<lparr>root_cell := f (root_cell s)\<rparr>"

definition cell_owns_cpu :: "hv_cell \<Rightarrow> nat \<Rightarrow> bool" where
  "cell_owns_cpu c cpu \<longleftrightarrow> cpu \<le> max_cpu_id (cpu_set c) \<and> test_bit cpu (bitmap (cpu_set c))"

definition for_each_cpu_except :: "cpu_set \<Rightarrow> nat \<Rightarrow> nat list" where
  "for_each_cpu_except cs cpu = cpus_after (- 1) cs (int cpu)"

definition cpu_id_valid :: "cell_desc \<Rightarrow> u64 \<Rightarrow> bool" where
  "cpu_id_valid sys cpu \<longleftrightarrow> cpu < ucast (cfg_cpu_set_size sys * 8) \<and> test_bit (unat cpu) (cfg_cpu_set sys)"

text \<open>\<open>set_bit\<close> and \<open>clear_bit\<close> on a bitmap; outside of it the result is \<open>None\<close>.\<close>

definition put_bit :: "bool \<Rightarrow> nat \<Rightarrow> u64 list \<Rightarrow> u64 list option" where
  "put_bit b nr bm = arr_get bm (nr div 64) \<bind> (\<lambda>w.
     arr_set bm (nr div 64) (if b then or w (push_bit (nr mod 64) 1) else and w (not (push_bit (nr mod 64) 1))))"

subsection \<open>Suspending cells\<close>

text \<open>
  The state of a CPU when \<open>arch_suspend_cpu\<close> has returned (theory \<open>CpuControl\<close>): it waits in the event loop.
\<close>

definition suspended :: "cpu_ctl \<Rightarrow> cpu_ctl" where
  "suspended c = c\<lparr>suspend_cpu := True, cpu_suspended := True\<rparr>"

definition cell_suspend :: "hv_cell \<Rightarrow> nat \<Rightarrow> 'u hv \<Rightarrow> 'u hv" where
  "cell_suspend cell this_cpu s = fold (\<lambda>cpu. upd_ctl cpu suspended) (for_each_cpu_except (cpu_set cell) this_cpu) s"

definition cell_resume :: "nat \<Rightarrow> 'u hv \<Rightarrow> 'u hv" where
  "cell_resume this_cpu s = fold (\<lambda>cpu. upd_ctl cpu arch_resume_cpu) (for_each_cpu_except (cpu_set (root_cell s)) this_cpu) s"

subsection \<open>Messages\<close>

definition poll_of :: "(nat \<Rightarrow> (u32 \<times> u32) option) \<Rightarrow> comm_region \<Rightarrow> nat \<Rightarrow> u32 \<times> u32" where
  "poll_of p c k = (case p k of None \<Rightarrow> (reply_from_cell c, cell_state c) | Some rs \<Rightarrow> rs)"

definition jailhouse_send_msg_to_cell :: "u32 \<Rightarrow> comm_region \<Rightarrow> comm_region" where
  "jailhouse_send_msg_to_cell msg c = c\<lparr>reply_from_cell := JAILHOUSE_MSG_NONE, msg_to_cell := msg\<rparr>"

text \<open>The polling loop from the \<open>k\<close>-th poll on: the answer, and whether it is a timeout.\<close>

partial_function (option) poll_loop :: "(nat \<Rightarrow> u32 \<times> u32) \<Rightarrow> msg_type \<Rightarrow> u64 \<Rightarrow> u64 \<Rightarrow> nat \<Rightarrow> (bool \<times> bool) option" where
  "poll_loop poll type msg_reply_timeout timeout k =
     (let (reply, cstate) = poll k in
      if cstate = JAILHOUSE_CELL_SHUT_DOWN \<or> cstate = JAILHOUSE_CELL_FAILED then Some (True, False)
      else if type = MSG_REQUEST \<and> reply = JAILHOUSE_MSG_REQUEST_APPROVED \<or> type = MSG_INFORMATION \<and> reply = JAILHOUSE_MSG_RECEIVED
      then Some (True, False)
      else if reply \<noteq> JAILHOUSE_MSG_NONE then Some (False, False)
      else if msg_reply_timeout > 0 \<and> timeout - 1 = 0 then Some (True, True)
      else poll_loop poll type msg_reply_timeout (if msg_reply_timeout > 0 then timeout - 1 else timeout) (k + 1))"

definition cell_exchange_message :: "'u hv_env \<Rightarrow> nat \<Rightarrow> hv_cell \<Rightarrow> u32 \<Rightarrow> msg_type \<Rightarrow> 'u hv \<Rightarrow> ('u hv \<times> bool) option" where
  "cell_exchange_message env this_cpu cell message type s =
     (if and (cfg_flags (config cell)) JAILHOUSE_CELL_PASSIVE_COMMREG \<noteq> 0 then Some (s, True)
      else
        let s1 = upd_cell (cell_addr cell) (\<lambda>c. c\<lparr>comm := jailhouse_send_msg_to_cell message (comm c)\<rparr>) s; t = cfg_msg_reply_timeout (config cell) in
        poll_loop (poll_of (polls env (cfg_id (config cell)) message) (jailhouse_send_msg_to_cell message (comm cell))) type t t 0 \<bind> (\<lambda>(res, timed_out).
        if timed_out then
          Some (upd_cell (cell_addr cell) (\<lambda>c. c\<lparr>comm := (comm c)\<lparr>cell_state := JAILHOUSE_CELL_FAILED\<rparr>\<rparr>) (cell_suspend cell this_cpu s1), res)
        else Some (s1, res)))"

definition cell_reconfig_ok :: "u64 option \<Rightarrow> 'u hv \<Rightarrow> bool" where
  "cell_reconfig_ok excluded s \<longleftrightarrow>
     list_all (\<lambda>c. Some (cell_addr c) = excluded \<or> cell_state (comm c) \<noteq> JAILHOUSE_CELL_RUNNING_LOCKED) (cells s)"

text \<open>The cells in the list are visited in order; an exchange leaves the list itself alone.\<close>

primrec reconfig_loop :: "'u hv_env \<Rightarrow> nat \<Rightarrow> hv_cell list \<Rightarrow> 'u hv \<Rightarrow> 'u hv option" where
  "reconfig_loop env this_cpu [] s = Some s"
| "reconfig_loop env this_cpu (c # cs) s =
     cell_exchange_message env this_cpu c JAILHOUSE_MSG_RECONFIG_COMPLETED MSG_INFORMATION s \<bind> (\<lambda>(s', _). reconfig_loop env this_cpu cs s')"

definition cell_reconfig_completed :: "'u hv_env \<Rightarrow> nat \<Rightarrow> 'u hv \<Rightarrow> 'u hv option" where
  "cell_reconfig_completed env this_cpu s = reconfig_loop env this_cpu (cells s) s"

subsection \<open>Creation and removal of cell structures\<close>

definition sized_bitmap :: "nat \<Rightarrow> u64 list \<Rightarrow> u64 list" where
  "sized_bitmap n ws = map (\<lambda>i. if i < length ws then take_bit (8 * (n - 8 * i)) (ws ! i) else 0) [0..<(n + 7) div 8]"

text \<open>
  \<open>cell_init\<close> on a zeroed structure. A bitmap that does not fit behind \<open>max_cpu_id\<close> in its page is copied over the end of the page,
  and the loops over a CPU set of size 0 have no end: both are \<open>None\<close>.
\<close>

definition cell_init :: "'u hv_env \<Rightarrow> hv_cell \<Rightarrow> pt_state \<Rightarrow> (pt_state \<times> hv_cell \<times> int) option" where
  "cell_init env cell st =
     (let n = unat (cfg_cpu_set_size (config cell)) in
      if n > PAGE_SIZE then Some (st, cell, - EINVAL)
      else if n = 0 \<or> n > PAGE_SIZE - 8 then None
      else
        (if n > 8 then pool_alloc 1 st else Some (st, 0)) \<bind> (\<lambda>(st1, a).
        if n > 8 \<and> a = 0 then Some (st1, cell, - ENOMEM)
        else
          let cell1 = cell\<lparr>cpu_set := \<lparr>max_cpu_id = n * 8 - 1, bitmap = sized_bitmap n (cfg_cpu_set (config cell))\<rparr>, cpu_set_page := a\<rparr> in
          mmio_cell_init (map (\<lambda>u. mmio_count_regions u (config cell)) (units env)) (cfg_mem_regions (config cell)) (mem_pool st1) \<bind>
          (\<lambda>((pool, loc), err, tab).
          let st2 = st1\<lparr>mem_pool := pool\<rparr>; cell2 = cell1\<lparr>cell_mmio := tab, mmio_page := loc\<rparr> in
          Some (if err \<noteq> 0 \<and> a \<noteq> 0 then pool_free a 1 st2 else st2, cell2, err))))"

definition cell_exit :: "hv_cell \<Rightarrow> pt_state \<Rightarrow> pt_state" where
  "cell_exit cell st =
     (let (pool, m) = mmio_cell_exit (mem_pool st) (mmio_page cell) (cell_mmio cell) (pt_mem st);
          st1 = st\<lparr>mem_pool := pool, pt_mem := m\<rparr> in
      if cpu_set_page cell \<noteq> 0 then pool_free (cpu_set_page cell) 1 st1 else st1)"

definition arch_flush_cell_vcpu_caches :: "nat \<Rightarrow> hv_cell \<Rightarrow> 'u hv \<Rightarrow> 'u hv" where
  "arch_flush_cell_vcpu_caches this_cpu cell s =
     fold (\<lambda>cpu. upd_ctl cpu (arch_flush_vcpu_caches (cpu = this_cpu))) (for_each_cpu (cpu_set cell)) s"

definition config_commit :: "'u hv_env \<Rightarrow> nat \<Rightarrow> hv_cell option \<Rightarrow> 'u hv \<Rightarrow> 'u hv" where
  "config_commit env this_cpu cell_added_removed s =
     (let s1 = arch_flush_cell_vcpu_caches this_cpu (root_cell s) s;
          s2 = (case cell_added_removed of
             None \<Rightarrow> s1
           | Some c \<Rightarrow> if cell_addr c \<noteq> cell_addr (root_cell s) then arch_flush_cell_vcpu_caches this_cpu c s1 else s1) in
      s2\<lparr>devices := commit_hook env (map_option cell_addr cell_added_removed) (devices s2)\<rparr>)"

subsection \<open>Memory of the root cell\<close>

definition address_in_region :: "u64 \<Rightarrow> jailhouse_memory \<Rightarrow> bool" where
  "address_in_region addr region \<longleftrightarrow> addr \<ge> phys_start region \<and> addr < phys_start region + mem_size region"

text \<open>A change of page tables and of the MMIO table of the root cell.\<close>

definition root_unmap :: "'u hv_env \<Rightarrow> jailhouse_memory \<Rightarrow> 'u hv \<Rightarrow> ('u hv \<times> int) option" where
  "root_unmap env mem s = arch_unmap_memory_region (hv_off env) (cell_mm (root_cell s)) mem (pts s) \<bind> (\<lambda>(st, err). Some (s\<lparr>pts := st\<rparr>, err))"

definition unmap_from_root_cell :: "'u hv_env \<Rightarrow> jailhouse_memory \<Rightarrow> 'u hv \<Rightarrow> ('u hv \<times> int) option" where
  "unmap_from_root_cell env mem s =
     (let tmp = mem\<lparr>virt_start := phys_start mem\<rparr> in
      if JAILHOUSE_MEMORY_IS_SUBPAGE tmp
      then mmio_subpage_unregister tmp (cell_mmio (root_cell s)) \<bind> (\<lambda>tab. Some (upd_root (\<lambda>c. c\<lparr>cell_mmio := tab\<rparr>) s, 0))
      else root_unmap env tmp s)"

definition region_overlap :: "jailhouse_memory \<Rightarrow> jailhouse_memory \<Rightarrow> jailhouse_memory option" where
  "region_overlap mem root_mem =
     (if address_in_region (phys_start mem) root_mem then
        let sz = mem_size root_mem - (phys_start mem - phys_start root_mem) in
        Some \<lparr>phys_start = phys_start mem, virt_start = virt_start root_mem + phys_start mem - phys_start root_mem,
          mem_size = if sz > mem_size mem then mem_size mem else sz, mem_flags = mem_flags root_mem\<rparr>
      else if address_in_region (phys_start root_mem) mem then
        let sz = mem_size mem - (phys_start root_mem - phys_start mem) in
        Some \<lparr>phys_start = phys_start root_mem, virt_start = virt_start root_mem + phys_start root_mem - phys_start root_mem,
          mem_size = if sz > mem_size root_mem then mem_size root_mem else sz, mem_flags = mem_flags root_mem\<rparr>
      else None)"

text \<open>
  The handler argument of a sub-page region is a pointer to its description: \<open>Suc n\<close> for the region \<open>n\<close> of the cell's configuration, and 0
  for the local variable \<open>overlap\<close>, which is gone when the function returns.
\<close>

definition map_overlap :: "'u hv_env \<Rightarrow> jailhouse_memory \<Rightarrow> 'u hv \<Rightarrow> ('u hv \<times> int) option" where
  "map_overlap env overlap s =
     (if JAILHOUSE_MEMORY_IS_SUBPAGE overlap
      then mmio_subpage_register 0 0 overlap (cell_mmio (root_cell s)) \<bind> (\<lambda>(tab, err). Some (upd_root (\<lambda>c. c\<lparr>cell_mmio := tab\<rparr>) s, err))
      else arch_map_memory_region (hv_off env) (cell_addr (root_cell s)) (cell_mm (root_cell s)) overlap (pts s) \<bind>
             (\<lambda>(st, err). Some (s\<lparr>pts := st\<rparr>, err)))"

primrec remap_loop :: "'u hv_env \<Rightarrow> jailhouse_memory \<Rightarrow> failure_mode \<Rightarrow> jailhouse_memory list \<Rightarrow> int \<Rightarrow> 'u hv \<Rightarrow> ('u hv \<times> int) option" where
  "remap_loop env mem mode [] err s = Some (s, err)"
| "remap_loop env mem mode (root_mem # rs) err s =
     (case region_overlap mem root_mem of
        None \<Rightarrow> remap_loop env mem mode rs err s
      | Some overlap \<Rightarrow>
          map_overlap env overlap s \<bind> (\<lambda>(s', err').
          if err' \<noteq> 0 \<and> mode = ABORT_ON_ERROR then Some (s', err') else remap_loop env mem mode rs err' s'))"

definition remap_to_root_cell :: "'u hv_env \<Rightarrow> jailhouse_memory \<Rightarrow> failure_mode \<Rightarrow> 'u hv \<Rightarrow> ('u hv \<times> int) option" where
  "remap_to_root_cell env mem mode s = remap_loop env mem mode (cfg_mem_regions (config (root_cell s))) 0 s"

subsection \<open>Destruction\<close>

definition arch_park :: "'u hv_env \<Rightarrow> nat \<Rightarrow> 'u hv \<Rightarrow> 'u hv" where
  "arch_park env cpu s = upd_ctl cpu arch_park_cpu (s\<lparr>devices := park_hook env cpu (devices s)\<rparr>)"

definition JAILHOUSE_NUM_CPU_STATS :: nat where
  "JAILHOUSE_NUM_CPU_STATS = 8"

text \<open>A CPU goes back to the root cell, or from the root cell to a new cell.\<close>

definition give_cpu :: "'u hv_env \<Rightarrow> nat \<Rightarrow> 'u hv \<Rightarrow> 'u hv option" where
  "give_cpu env cpu s =
     put_bit True cpu (bitmap (cpu_set (root_cell s))) \<bind> (\<lambda>bm.
     let s1 = upd_root (\<lambda>c. c\<lparr>cpu_set := (cpu_set c)\<lparr>bitmap := bm\<rparr>\<rparr>) (arch_park env cpu s) in
     Some (s1\<lparr>cpu_data := (cpu_data s1)(cpu := (cpu_data s1 cpu)\<lparr>cpu_cell := cell_addr (root_cell s), failed := False,
       cpu_stats := replicate JAILHOUSE_NUM_CPU_STATS 0\<rparr>)\<rparr>))"

definition take_cpu :: "'u hv_env \<Rightarrow> u64 \<Rightarrow> nat \<Rightarrow> 'u hv \<Rightarrow> 'u hv option" where
  "take_cpu env cell cpu s =
     put_bit False cpu (bitmap (cpu_set (root_cell s))) \<bind> (\<lambda>bm.
     let s1 = upd_root (\<lambda>c. c\<lparr>cpu_set := (cpu_set c)\<lparr>bitmap := bm\<rparr>\<rparr>) (arch_park env cpu s) in
     Some (s1\<lparr>cpu_data := (cpu_data s1)(cpu := (cpu_data s1 cpu)\<lparr>cpu_cell := cell, cpu_stats := replicate JAILHOUSE_NUM_CPU_STATS 0\<rparr>)\<rparr>))"

primrec each_cpu :: "(nat \<Rightarrow> 's \<Rightarrow> 's option) \<Rightarrow> nat list \<Rightarrow> 's \<Rightarrow> 's option" where
  "each_cpu f [] s = Some s"
| "each_cpu f (cpu # cpus) s = f cpu s \<bind> each_cpu f cpus"

definition cell_unmap :: "'u hv_env \<Rightarrow> hv_cell \<Rightarrow> jailhouse_memory \<Rightarrow> 'u hv \<Rightarrow> ('u hv \<times> int) option" where
  "cell_unmap env cell mem s = arch_unmap_memory_region (hv_off env) (cell_mm cell) mem (pts s) \<bind> (\<lambda>(st, err). Some (s\<lparr>pts := st\<rparr>, err))"

primrec destroy_regions :: "'u hv_env \<Rightarrow> hv_cell \<Rightarrow> jailhouse_memory list \<Rightarrow> 'u hv \<Rightarrow> 'u hv option" where
  "destroy_regions env cell [] s = Some s"
| "destroy_regions env cell (mem # mems) s =
     (if \<not> JAILHOUSE_MEMORY_IS_SUBPAGE mem then cell_unmap env cell mem s \<bind> (\<lambda>(s1, _). Some s1) else Some s) \<bind> (\<lambda>s1.
     (if \<not> shared_with_root mem then remap_to_root_cell env mem WARN_ON_ERROR s1 \<bind> (\<lambda>(s2, _). Some s2) else Some s1) \<bind>
     destroy_regions env cell mems)"

text \<open>The callbacks of \<open>manage_colored_regions\<close>; the state \<open>None\<close> is undefined behaviour in a callback.\<close>

definition lift_cb :: "(jailhouse_memory \<Rightarrow> 's \<Rightarrow> ('s \<times> int) option) \<Rightarrow> jailhouse_memory \<Rightarrow> 's option \<Rightarrow> 's option \<times> int" where
  "lift_cb f mem so = (case so \<bind> f mem of None \<Rightarrow> (None, 0) | Some (s, err) \<Rightarrow> (Some s, err))"

definition no_col_functions :: "'s col_manage_functions" where
  "no_col_functions = \<lparr>create_unmap_root_f = (\<lambda>_ s. (s, 0)), create_subpage_f = (\<lambda>_ s. (s, 0)), create_map_f = (\<lambda>_ s. (s, 0)),
     destroy_unmap_f = (\<lambda>_ s. (s, 0)), destroy_remap_root_f = (\<lambda>_ _ s. (s, 0)), start_unmap_root_f = (\<lambda>_ s. (s, 0)),
     loadable_remap_root_f = (\<lambda>_ _ s. (s, 0)), flush_piece = (\<lambda>_ _ s. s)\<rparr>"

primrec colored_loop ::
  "bool \<Rightarrow> jailhouse_color_desc \<Rightarrow> 's option col_manage_functions \<Rightarrow> col_operation \<Rightarrow> bool \<Rightarrow> jailhouse_memory_colored list \<Rightarrow> 's \<Rightarrow> ('s \<times> int) option" where
  "colored_loop beyond desc fs type stop [] s = Some (s, 0)"
| "colored_loop beyond desc fs type stop (cm # cms) s =
     manage_colored_regions beyond desc cm fs type (Some s) \<bind> (\<lambda>(so, err). so \<bind> (\<lambda>s1.
     if err \<noteq> 0 \<and> stop then Some (s1, err) else colored_loop beyond desc fs type stop cms s1))"

definition arch_cell_destroy :: "'u hv_env \<Rightarrow> hv_cell \<Rightarrow> 'u hv \<Rightarrow> 'u hv" where
  "arch_cell_destroy env cell s =
     (let s1 = s\<lparr>devices := cell_destroy_hook env (config cell) (devices s)\<rparr>;
          s2 = fold (\<lambda>cpu. upd_ctl cpu (\<lambda>c. c\<lparr>cpu_on_entry := PSCI_INVALID_ADDRESS\<rparr>)) (for_each_cpu (cpu_set cell)) s1 in
      s2\<lparr>pts := arm_paging_cell_destroy (cpu_parange env) (cell_mm cell) (pts s2)\<rparr>)"

definition cell_destroy_internal :: "'u hv_env \<Rightarrow> nat \<Rightarrow> hv_cell \<Rightarrow> 'u hv \<Rightarrow> 'u hv option" where
  "cell_destroy_internal env this_cpu cell s =
     each_cpu (give_cpu env) (for_each_cpu (cpu_set cell)) s \<bind> (\<lambda>s1.
     destroy_regions env cell (cfg_mem_regions (config cell)) s1 \<bind> (\<lambda>s2.
     colored_loop (mask_end env) (colors env)
       (no_col_functions\<lparr>destroy_unmap_f := lift_cb (cell_unmap env cell),
          destroy_remap_root_f := (\<lambda>mem mode. lift_cb (\<lambda>mem. remap_to_root_cell env mem mode) mem)\<rparr>)
       DESTROY False (cfg_col_regions (config cell)) s2 \<bind> (\<lambda>(s3, _).
     let (cell1, d, st) = fold unit_cell_exit (rev (units env)) (cell, devices s3, pts s3);
         s4 = s3\<lparr>devices := d, pts := st\<rparr>;
         s5 = config_commit env this_cpu (Some cell1) (arch_cell_destroy env cell1 s4) in
     Some (s5\<lparr>pts := cell_exit cell1 (pts s5)\<rparr>))))"

subsection \<open>Creation\<close>

definition SIZEOF_CELL_DESC :: nat where
  "SIZEOF_CELL_DESC = 100"

definition cfg_bytes :: "cell_desc \<Rightarrow> nat" where
  "cfg_bytes cfg = SIZEOF_CELL_DESC + unat (cfg_cpu_set_size cfg) + length (cfg_mem_regions cfg) * 32 + length (cfg_col_regions cfg) * 40 +
     unat (cfg_num_cache_regions cfg) * 12 + unat (cfg_num_irqchips cfg) * 32 + unat (cfg_pio_bitmap_size cfg) +
     unat (cfg_num_pci_devices cfg) * 56 + unat (cfg_num_pci_caps cfg) * 8"

definition jailhouse_cell_config_size :: "cell_desc \<Rightarrow> u32" where
  "jailhouse_cell_config_size cfg = of_nat (cfg_bytes cfg)"

primrec init_units :: "'u hv_unit list \<Rightarrow> 'u hv_unit list \<Rightarrow> 'u unit_state \<Rightarrow> 'u unit_state \<times> int" where
  "init_units [] before w = (w, 0)"
| "init_units (u # us) before w =
     (let (w1, err) = unit_cell_init u w in
      if err \<noteq> 0 then (fold unit_cell_exit before w1, err) else init_units us (u # before) w1)"

definition arch_cell_create :: "'u hv_env \<Rightarrow> hv_cell \<Rightarrow> 'u hv \<Rightarrow> ('u hv \<times> hv_cell \<times> int) option" where
  "arch_cell_create env cell s =
     arm_paging_cell_init (cpu_parange env) (cfg_id (config cell)) (pts s) \<bind> (\<lambda>(st, res, mm).
     Some (s\<lparr>pts := st, devices := cell_create_hook env (config cell) (devices s)\<rparr>, cell\<lparr>cell_mm := mm\<rparr>, res))"

text \<open>The regions of the new cell; the state is that of the hypervisor and the cell.\<close>

definition cell_map :: "'u hv_env \<Rightarrow> jailhouse_memory \<Rightarrow> 'u hv \<times> hv_cell \<Rightarrow> (('u hv \<times> hv_cell) \<times> int) option" where
  "cell_map env mem sc =
     (let (s, cell) = sc in
      arch_map_memory_region (hv_off env) (cell_addr cell) (cell_mm cell) mem (pts s) \<bind> (\<lambda>(st, err). Some ((s\<lparr>pts := st\<rparr>, cell), err)))"

definition cell_subpage :: "nat \<Rightarrow> jailhouse_memory \<Rightarrow> 'u hv \<times> hv_cell \<Rightarrow> (('u hv \<times> hv_cell) \<times> int) option" where
  "cell_subpage arg mem sc =
     (let (s, cell) = sc in
      mmio_subpage_register 0 arg mem (cell_mmio cell) \<bind> (\<lambda>(tab, err). Some ((s, cell\<lparr>cell_mmio := tab\<rparr>), err)))"

definition unmap_root_sc :: "'u hv_env \<Rightarrow> jailhouse_memory \<Rightarrow> 'u hv \<times> hv_cell \<Rightarrow> (('u hv \<times> hv_cell) \<times> int) option" where
  "unmap_root_sc env mem sc = unmap_from_root_cell env mem (fst sc) \<bind> (\<lambda>(s, err). Some ((s, snd sc), err))"

primrec create_regions :: "'u hv_env \<Rightarrow> nat \<Rightarrow> jailhouse_memory list \<Rightarrow> 'u hv \<times> hv_cell \<Rightarrow> (('u hv \<times> hv_cell) \<times> int) option" where
  "create_regions env n [] sc = Some (sc, 0)"
| "create_regions env n (mem # mems) sc =
     (if \<not> shared_with_root mem then unmap_root_sc env mem sc else Some (sc, 0)) \<bind> (\<lambda>(sc1, err).
     if err \<noteq> 0 then Some (sc1, err)
     else (if JAILHOUSE_MEMORY_IS_SUBPAGE mem then cell_subpage (Suc n) mem sc1 else cell_map env mem sc1) \<bind> (\<lambda>(sc2, err2).
       if err2 \<noteq> 0 then Some (sc2, err2) else create_regions env (n + 1) mems sc2))"

definition create_memory :: "'u hv_env \<Rightarrow> hv_cell \<Rightarrow> 'u hv \<Rightarrow> (('u hv \<times> hv_cell) \<times> int) option" where
  "create_memory env cell s =
     create_regions env 0 (cfg_mem_regions (config cell)) (s, cell) \<bind> (\<lambda>(sc, err).
     if err \<noteq> 0 then Some (sc, err)
     else colored_loop (mask_end env) (colors env)
       (no_col_functions\<lparr>create_unmap_root_f := lift_cb (unmap_root_sc env), create_subpage_f := lift_cb (cell_subpage 0),
          create_map_f := lift_cb (cell_map env)\<rparr>)
       CREATE True (cfg_col_regions (config cell)) sc)"

text \<open>From the allocation of the structure to the last unit: the new cell, or an error with everything undone.\<close>

definition new_cell :: "u64 \<Rightarrow> cell_desc \<Rightarrow> nat \<Rightarrow> hv_cell" where
  "new_cell a cfg n = \<lparr>cell_addr = a, config = cfg, cpu_set = \<lparr>max_cpu_id = 0, bitmap = []\<rparr>, cpu_set_page = 0,
     cell_mm = \<lparr>root_paging = [], root_table = 0, is_hv_structs = False\<rparr>,
     cell_mmio = \<lparr>mmio_locations = [], mmio_handlers = [], num_mmio_regions = 0, max_mmio_regions = 0\<rparr>, mmio_page = 0,
     comm = \<lparr>cell_state = 0, msg_to_cell = 0, reply_from_cell = 0\<rparr>, loadable = False, data_pages = n, unit_pages = []\<rparr>"

definition create_struct :: "'u hv_env \<Rightarrow> nat \<Rightarrow> cell_desc \<Rightarrow> 'u hv \<Rightarrow> ('u hv \<times> (int + hv_cell)) option" where
  "create_struct env this_cpu cfg s =
     (let cell_pages = PAGES (sizeof_cell env + unat (jailhouse_cell_config_size cfg)) in
      pool_alloc (of_nat cell_pages) (pts s) \<bind> (\<lambda>(st, a).
      if a = 0 then Some (s\<lparr>pts := st\<rparr>, Inl (- ENOMEM))
      else if cfg_bytes cfg \<ge> 2 ^ 32 then None
      else
        cell_init env (new_cell a cfg cell_pages) st \<bind> (\<lambda>(st1, cell, err).
        let free_cell = (\<lambda>s. s\<lparr>pts := pool_free a (of_nat cell_pages) (pts s)\<rparr>);
            exit_cell = (\<lambda>cell s. s\<lparr>pts := cell_exit cell (pts s)\<rparr>);
            s1 = s\<lparr>pts := st1\<rparr> in
        if err \<noteq> 0 then Some (free_cell s1, Inl err)
        else if cell_owns_cpu cell this_cpu then Some (free_cell (exit_cell cell s1), Inl (- EBUSY))
        else if \<not> list_all (cell_owns_cpu (root_cell s)) (for_each_cpu (cpu_set cell)) then Some (free_cell (exit_cell cell s1), Inl (- EBUSY))
        else
          arch_cell_create env cell s1 \<bind> (\<lambda>(s2, cell2, err2).
          if err2 \<noteq> 0 then Some (free_cell (exit_cell cell2 s2), Inl err2)
          else
            let ((cell3, d, st3), err3) = init_units (units env) [] (cell2, devices s2, pts s2); s3 = s2\<lparr>devices := d, pts := st3\<rparr> in
            if err3 \<noteq> 0 then Some (free_cell (exit_cell cell3 (arch_cell_destroy env cell3 s3)), Inl err3)
            else Some (s3, Inr cell3)))))"

definition create_finish :: "'u hv_env \<Rightarrow> nat \<Rightarrow> hv_cell \<Rightarrow> 'u hv \<Rightarrow> ('u hv \<times> int) option" where
  "create_finish env this_cpu cell s =
     each_cpu (take_cpu env (cell_addr cell)) (for_each_cpu (cpu_set cell)) s \<bind> (\<lambda>s1.
     create_memory env cell s1 \<bind> (\<lambda>((s2, cell2), err).
     if err \<noteq> 0 then
       cell_destroy_internal env this_cpu cell2 s2 \<bind> (\<lambda>s3.
       Some (s3\<lparr>pts := pool_free (cell_addr cell) (of_nat (data_pages cell)) (pts s3)\<rparr>, err))
     else
       let s3 = config_commit env this_cpu (Some cell2) s2;
           s4 = s3\<lparr>cells := cells s3 @ [cell2\<lparr>comm := (comm cell2)\<lparr>cell_state := JAILHOUSE_CELL_SHUT_DOWN\<rparr>\<rparr>], num_cells := num_cells s3 + 1\<rparr> in
       cell_reconfig_completed env this_cpu s4 \<bind> (\<lambda>s5. Some (s5, 0))))"

definition cell_create :: "'u hv_env \<Rightarrow> nat \<Rightarrow> u64 \<Rightarrow> 'u hv \<Rightarrow> ('u hv \<times> int) option" where
  "cell_create env this_cpu config_address s =
     (if cpu_cell (cpu_data s this_cpu) \<noteq> cell_addr (root_cell s) then Some (s, - EPERM)
      else
        let s0 = cell_suspend (root_cell s) this_cpu s;
            resume = (\<lambda>(s, err). Some (cell_resume this_cpu s, err));
            offs = unat (and config_address (not PAGE_MASK));
            cfg = guest_config env config_address;
            cfg_pages = PAGES (offs + unat (jailhouse_cell_config_size cfg)) in
        if \<not> cell_reconfig_ok None s0 then resume (s0, - EPERM)
        else if \<not> guest_mapped env config_address (PAGES (offs + SIZEOF_CELL_DESC)) then resume (s0, - ENOMEM)
        else if list_ex (\<lambda>c. cfg_name (config c) = cfg_name cfg \<or> cfg_id (config c) = cfg_id cfg) (root_cell s0 # cells s0) then resume (s0, - EEXIST)
        else if cfg_pages > NUM_TEMPORARY_PAGES then resume (s0, - E2BIG)
        else if \<not> guest_mapped env config_address cfg_pages then resume (s0, - ENOMEM)
        else
          create_struct env this_cpu cfg s0 \<bind> (\<lambda>(s1, r).
          case r of Inl err \<Rightarrow> resume (s1, err)
          | Inr cell \<Rightarrow> create_finish env this_cpu cell s1 \<bind> resume))"

subsection \<open>Management of cells\<close>

definition find_cell :: "u64 \<Rightarrow> 'u hv \<Rightarrow> hv_cell option" where
  "find_cell cid s = find (\<lambda>c. ucast (cfg_id (config c)) = cid) (root_cell s # cells s)"

text \<open>\<open>Inl\<close> is the error, \<open>Inr\<close> the cell as it is in the list when the prologue is through.\<close>

definition cell_management_prologue :: "'u hv_env \<Rightarrow> management_task \<Rightarrow> nat \<Rightarrow> u64 \<Rightarrow> 'u hv \<Rightarrow> ('u hv \<times> (int + hv_cell)) option" where
  "cell_management_prologue env task this_cpu cid s =
     (if cpu_cell (cpu_data s this_cpu) \<noteq> cell_addr (root_cell s) then Some (s, Inl (- EPERM))
      else
        let s0 = cell_suspend (root_cell s) this_cpu s in
        case find_cell cid s0 of
          None \<Rightarrow> Some (cell_resume this_cpu s0, Inl (- ENOENT))
        | Some cell \<Rightarrow>
            if cell_addr cell = cell_addr (root_cell s0) then Some (cell_resume this_cpu s0, Inl (- EINVAL))
            else if task = CELL_DESTROY \<and> \<not> cell_reconfig_ok (Some (cell_addr cell)) s0 then Some (cell_resume this_cpu s0, Inl (- EPERM))
            else
              cell_exchange_message env this_cpu cell JAILHOUSE_MSG_SHUTDOWN_REQUEST MSG_REQUEST s0 \<bind> (\<lambda>(s1, shutdown_ok).
              if \<not> shutdown_ok then Some (cell_resume this_cpu s1, Inl (- EPERM))
              else
                let s2 = cell_suspend cell this_cpu s1 in
                Some (s2, Inr (hd (filter (\<lambda>c. cell_addr c = cell_addr cell) (cells s2))))))"

primrec loadable_regions :: "(jailhouse_memory \<Rightarrow> 's \<Rightarrow> ('s \<times> int) option) \<Rightarrow> jailhouse_memory list \<Rightarrow> 's \<Rightarrow> ('s \<times> int) option" where
  "loadable_regions f [] s = Some (s, 0)"
| "loadable_regions f (mem # mems) s =
     (if and (mem_flags mem) JAILHOUSE_MEM_LOADABLE \<noteq> 0
      then f mem s \<bind> (\<lambda>(s1, err). if err \<noteq> 0 then Some (s1, err) else loadable_regions f mems s1)
      else loadable_regions f mems s)"

definition start_memory :: "'u hv_env \<Rightarrow> hv_cell \<Rightarrow> 'u hv \<Rightarrow> ('u hv \<times> int) option" where
  "start_memory env cell s =
     loadable_regions (unmap_from_root_cell env) (cfg_mem_regions (config cell)) s \<bind> (\<lambda>(s1, err).
     if err \<noteq> 0 then Some (s1, err)
     else colored_loop (mask_end env) (colors env) (no_col_functions\<lparr>start_unmap_root_f := lift_cb (unmap_from_root_cell env)\<rparr>)
       START True (cfg_col_regions (config cell)) s1)"

definition start_cpus :: "'u hv_env \<Rightarrow> hv_cell \<Rightarrow> 'u hv \<Rightarrow> 'u hv" where
  "start_cpus env cell s =
     (let ctls = arch_cell_reset (cpu_set cell) (cfg_cpu_reset_address (config cell)) (\<lambda>cpu. cpu_ctl_of (cpu_data s cpu));
          s1 = s\<lparr>cpu_data := (\<lambda>cpu. (cpu_data s cpu)\<lparr>cpu_ctl_of := ctls cpu\<rparr>), devices := cell_reset_hook env (config cell) (devices s)\<rparr> in
      fold (\<lambda>cpu s. upd_ctl cpu arch_reset_cpu (s\<lparr>cpu_data := (cpu_data s)(cpu := (cpu_data s cpu)\<lparr>failed := False\<rparr>)\<rparr>))
        (for_each_cpu (cpu_set cell)) s1)"

definition cell_start :: "'u hv_env \<Rightarrow> nat \<Rightarrow> u64 \<Rightarrow> 'u hv \<Rightarrow> ('u hv \<times> int) option" where
  "cell_start env this_cpu cid s =
     cell_management_prologue env CELL_START this_cpu cid s \<bind> (\<lambda>(s1, r).
     case r of Inl err \<Rightarrow> Some (s1, err)
     | Inr cell \<Rightarrow>
         (if loadable cell then start_memory env cell s1 else Some (s1, 0)) \<bind> (\<lambda>(s2, err).
         if err \<noteq> 0 then Some (cell_resume this_cpu s2, err)
         else
           let s3 = (if loadable cell then upd_cell (cell_addr cell) (\<lambda>c. c\<lparr>loadable := False\<rparr>) (config_commit env this_cpu None s2) else s2);
               s4 = upd_cell (cell_addr cell) (\<lambda>c. c\<lparr>comm := \<lparr>cell_state = JAILHOUSE_CELL_RUNNING, msg_to_cell = JAILHOUSE_MSG_NONE,
                      reply_from_cell = JAILHOUSE_MSG_NONE\<rparr>\<rparr>) s3 in
           Some (cell_resume this_cpu (start_cpus env cell s4), 0)))"

definition cell_set_loadable :: "'u hv_env \<Rightarrow> nat \<Rightarrow> u64 \<Rightarrow> 'u hv \<Rightarrow> ('u hv \<times> int) option" where
  "cell_set_loadable env this_cpu cid s =
     cell_management_prologue env CELL_SET_LOADABLE this_cpu cid s \<bind> (\<lambda>(s1, r).
     case r of Inl err \<Rightarrow> Some (s1, err)
     | Inr cell \<Rightarrow>
         let s2 = fold (\<lambda>cpu s. arch_park env cpu (s\<lparr>cpu_data := (cpu_data s)(cpu := (cpu_data s cpu)\<lparr>failed := False\<rparr>)\<rparr>))
                    (for_each_cpu (cpu_set cell)) s1 in
         if loadable cell then Some (cell_resume this_cpu s2, 0)
         else
           let s3 = upd_cell (cell_addr cell) (\<lambda>c. c\<lparr>comm := (comm c)\<lparr>cell_state := JAILHOUSE_CELL_SHUT_DOWN\<rparr>, loadable := True\<rparr>) s2 in
           loadable_regions (\<lambda>mem. remap_to_root_cell env mem ABORT_ON_ERROR) (cfg_mem_regions (config cell)) s3 \<bind> (\<lambda>(s4, err).
           if err \<noteq> 0 then Some (cell_resume this_cpu s4, err)
           else
             colored_loop (mask_end env) (colors env)
               (no_col_functions\<lparr>loadable_remap_root_f := (\<lambda>mem mode. lift_cb (\<lambda>mem. remap_to_root_cell env mem mode) mem)\<rparr>)
               LOADABLE True (cfg_col_regions (config cell)) s4 \<bind> (\<lambda>(s5, err5).
             Some (cell_resume this_cpu (if err5 \<noteq> 0 then s5 else config_commit env this_cpu None s5), err5))))"

definition cell_destroy :: "'u hv_env \<Rightarrow> nat \<Rightarrow> u64 \<Rightarrow> 'u hv \<Rightarrow> ('u hv \<times> int) option" where
  "cell_destroy env this_cpu cid s =
     cell_management_prologue env CELL_DESTROY this_cpu cid s \<bind> (\<lambda>(s1, r).
     case r of Inl err \<Rightarrow> Some (s1, err)
     | Inr cell \<Rightarrow>
         cell_destroy_internal env this_cpu cell s1 \<bind> (\<lambda>s2.
         let s3 = s2\<lparr>cells := filter (\<lambda>c. cell_addr c \<noteq> cell_addr cell) (cells s2), num_cells := num_cells s2 - 1\<rparr>;
             s4 = s3\<lparr>pts := pool_free (cell_addr cell) (of_nat (data_pages cell)) (pts s3)\<rparr> in
         cell_reconfig_completed env this_cpu s4 \<bind> (\<lambda>s5. Some (cell_resume this_cpu s5, 0))))"

definition cell_get_state :: "nat \<Rightarrow> u64 \<Rightarrow> 'u hv \<Rightarrow> int" where
  "cell_get_state this_cpu cid s =
     (if cpu_cell (cpu_data s this_cpu) \<noteq> cell_addr (root_cell s) then - EPERM
      else case find_cell cid s of
        None \<Rightarrow> - ENOENT
      | Some cell \<Rightarrow>
          if cell_state (comm cell) \<in> {JAILHOUSE_CELL_RUNNING, JAILHOUSE_CELL_RUNNING_LOCKED, JAILHOUSE_CELL_SHUT_DOWN, JAILHOUSE_CELL_FAILED,
            JAILHOUSE_CELL_FAILED_COMM_REV} then uint (cell_state (comm cell)) else - EINVAL)"

subsection \<open>Shutdown of the hypervisor\<close>

definition SHUTDOWN_NONE :: int where "SHUTDOWN_NONE = 0"
definition SHUTDOWN_STARTED :: int where "SHUTDOWN_STARTED = 1"

definition set_shutdown :: "int \<Rightarrow> nat \<Rightarrow> 'u hv \<Rightarrow> 'u hv" where
  "set_shutdown v cpu s = s\<lparr>cpu_data := (cpu_data s)(cpu := (cpu_data s cpu)\<lparr>shutdown_state := v\<rparr>)\<rparr>"

text \<open>The two sections under \<open>shutdown_lock\<close>; between them a CPU waits until all CPUs have been through the first one.\<close>

definition disable_enter :: "nat \<Rightarrow> 'u hv \<Rightarrow> 'u hv \<times> int" where
  "disable_enter this_cpu s =
     (let s1 = (if shutdown_state (cpu_data s this_cpu) = SHUTDOWN_NONE
                then fold (set_shutdown (if num_cells s = 1 then SHUTDOWN_STARTED else - EBUSY)) (for_each_cpu (cpu_set (root_cell s))) s else s) in
      if shutdown_state (cpu_data s1 this_cpu) = SHUTDOWN_STARTED
      then (s1\<lparr>do_common_shutdown := True, waiting_cpus := waiting_cpus s1 + 1\<rparr>, 0)
      else (set_shutdown SHUTDOWN_NONE this_cpu s1, shutdown_state (cpu_data s1 this_cpu)))"

definition disable_leave :: "'u hv_env \<Rightarrow> 'u hv \<Rightarrow> 'u hv" where
  "disable_leave env s = (if do_common_shutdown s then s\<lparr>devices := shutdown_hook env (devices s), do_common_shutdown := False\<rparr> else s)"

text \<open>\<open>None\<close>: the CPU waits for others.\<close>

definition hypervisor_disable :: "'u hv_env \<Rightarrow> nat \<Rightarrow> 'u hv \<Rightarrow> ('u hv \<times> int) option" where
  "hypervisor_disable env this_cpu s =
     (if cpu_cell (cpu_data s this_cpu) \<noteq> cell_addr (root_cell s) then Some (s, - EPERM)
      else
        let (s1, ret) = disable_enter this_cpu s in
        if ret < 0 then Some (s1, ret)
        else if waiting_cpus s1 < online_cpus env then None
        else Some (disable_leave env s1, 0))"

subsection \<open>Information\<close>

definition hypervisor_get_info :: "'u hv_env \<Rightarrow> u64 \<Rightarrow> 'u hv \<Rightarrow> int" where
  "hypervisor_get_info env type s =
     (if type = 0 then int (pages (mem_pool (pts s)))
      else if type = 1 then uint (used_pages (mem_pool (pts s)))
      else if type = 2 then int (pages (remap_pool env))
      else if type = 3 then uint (used_pages (remap_pool env))
      else if type = 4 then uint (num_cells s)
      else - EINVAL)"

definition JAILHOUSE_CPU_INFO_STAT_BASE :: u64 where
  "JAILHOUSE_CPU_INFO_STAT_BASE = 1000"

definition cpu_get_info :: "cell_desc \<Rightarrow> nat \<Rightarrow> u64 \<Rightarrow> u64 \<Rightarrow> 'u hv \<Rightarrow> int option" where
  "cpu_get_info sys this_cpu cpu type s =
     (if \<not> cpu_id_valid sys cpu then Some (- EINVAL)
      else if cpu_cell (cpu_data s this_cpu) \<noteq> cell_addr (root_cell s) \<and>
        \<not> list_ex (\<lambda>c. cell_addr c = cpu_cell (cpu_data s this_cpu) \<and> cell_owns_cpu c (unat cpu)) (cells s) then Some (- EPERM)
      else if type = 0 then Some (if failed (cpu_data s (unat cpu)) then 2 else 0)
      else if type \<ge> JAILHOUSE_CPU_INFO_STAT_BASE \<and> type - JAILHOUSE_CPU_INFO_STAT_BASE < of_nat JAILHOUSE_NUM_CPU_STATS
      then arr_get (cpu_stats (cpu_data s (unat cpu))) (unat (type - JAILHOUSE_CPU_INFO_STAT_BASE)) \<bind> (\<lambda>v. Some (uint (take_bit 31 v)))
      else Some (- EINVAL))"

subsection \<open>Hypercalls\<close>

text \<open>\<open>sys\<close> is the configuration of the root cell in the system configuration; \<open>arbiter\<close> is the configured memory arbiter.\<close>

definition count_hypercall :: "nat \<Rightarrow> 'u hv \<Rightarrow> 'u hv" where
  "count_hypercall this_cpu s =
     s\<lparr>cpu_data := (cpu_data s)(this_cpu := (cpu_data s this_cpu)\<lparr>cpu_stats := (cpu_stats (cpu_data s this_cpu))[3 := cpu_stats (cpu_data s this_cpu) ! 3 + 1]\<rparr>)\<rparr>"

definition hypercall ::
  "'u hv_env \<Rightarrow> (nat \<Rightarrow> u64 \<Rightarrow> 'u hv \<Rightarrow> ('u hv \<times> int) option) \<Rightarrow> cell_desc \<Rightarrow> nat \<Rightarrow> u64 \<Rightarrow> u64 \<Rightarrow> u64 \<Rightarrow> 'u hv \<Rightarrow> ('u hv \<times> int) option" where
  "hypercall env arbiter sys this_cpu code arg1 arg2 s0 =
     (let s = count_hypercall this_cpu s0 in
      if code = 0 then hypervisor_disable env this_cpu s
      else if code = 1 then cell_create env this_cpu arg1 s
      else if code = 2 then cell_start env this_cpu arg1 s
      else if code = 3 then cell_set_loadable env this_cpu arg1 s
      else if code = 4 then cell_destroy env this_cpu arg1 s
      else if code = 5 then Some (s, hypervisor_get_info env arg1 s)
      else if code = 6 then Some (s, cell_get_state this_cpu arg1 s)
      else if code = 7 then cpu_get_info sys this_cpu arg1 arg2 s \<bind> (\<lambda>r. Some (s, r))
      else if code = 8 then
        (case find (\<lambda>c. cell_addr c = cpu_cell (cpu_data s this_cpu)) (root_cell s # cells s) of
           None \<Rightarrow> None
         | Some c \<Rightarrow> Some (s, if and (cfg_flags (config c)) JAILHOUSE_CELL_DEBUG_CONSOLE = 0 then - EPERM else 0))
      else if code = 11 then arbiter this_cpu arg1 s
      else Some (s, - ENOSYS))"

text \<open>\<open>panic_park\<close>: the CPU is marked as failed and parked; when all CPUs of its cell have failed, so has the cell.\<close>

definition panic_park :: "nat \<Rightarrow> 'u hv \<Rightarrow> 'u hv" where
  "panic_park this_cpu s =
     (let s1 = s\<lparr>cpu_data := (cpu_data s)(this_cpu := (cpu_data s this_cpu)\<lparr>failed := True\<rparr>)\<rparr>;
          a = cpu_cell (cpu_data s this_cpu);
          fail = (\<lambda>c. if cell_addr c = a \<and> list_all (\<lambda>cpu. failed (cpu_data s1 cpu)) (for_each_cpu (cpu_set c))
                    then c\<lparr>comm := (comm c)\<lparr>cell_state := JAILHOUSE_CELL_FAILED\<rparr>\<rparr> else c) in
      upd_ctl this_cpu arm_cpu_park (s1\<lparr>root_cell := fail (root_cell s1), cells := map fail (cells s1)\<rparr>))"

end
