(* ===== verification/CellOps.thy ===== *)
theory CellOps
  imports Cells
begin

text \<open>
  The parts of cell management: operations on memory regions, the exchange of CPUs, messages, and the creation and removal of
  the structures of a cell, each with the proof that it returns and keeps the invariant of the hypervisor. The locales
  \<open>region_operation\<close> and \<open>fragment_operations\<close> are what the loops over regions and coloured fragments need of the
  operation on one region.
\<close>

subsection \<open>CPU sets\<close>

lemma put_bit_range:
  assumes "nr div 64 < length bm"
  obtains bm' where "put_bit b nr bm = Some bm'" "length bm' = length bm" "\<And>n. test_bit n bm' \<longleftrightarrow> (if n = nr then b else test_bit n bm)"
proof -
  let ?i = "nr div 64" and ?w = "if b then or (bm ! (nr div 64)) (push_bit (nr mod 64) 1) else and (bm ! (nr div 64)) (not (push_bit (nr mod 64) 1))"
  have w: "bit ?w k \<longleftrightarrow> (if k = nr mod 64 then b else bit (bm ! ?i) k)" if "k < 64" for k
    using that by (auto simp: bit_simps)
  have eq: "n = nr \<longleftrightarrow> n div 64 = nr div 64 \<and> n mod 64 = nr mod 64" for n by (metis div_mult_mod_eq)
  have "test_bit n (bm[?i := ?w]) \<longleftrightarrow> (if n = nr then b else test_bit n bm)" for n
  proof (cases "n div 64 = ?i")
    case True
    then show ?thesis using assms w [of "n mod 64"] eq [of n] by (simp add: test_bit_def del: bit_simps split: if_splits)
  next
    case False
    then show ?thesis using eq [of n] by (auto simp: test_bit_def)
  qed
  then show thesis using assms that [of "bm[?i := ?w]"] by (simp add: put_bit_def arr_get_def arr_set_def)
qed

text \<open>A change of nothing but the control fields of CPUs.\<close>

definition ctl_only :: "'u hv \<Rightarrow> 'u hv \<Rightarrow> bool" where
  "ctl_only s s' \<longleftrightarrow> (\<exists>f. s' = s\<lparr>cpu_data := (\<lambda>cpu. (cpu_data s cpu)\<lparr>cpu_ctl_of := f cpu\<rparr>)\<rparr>)"

lemma ctl_only_refl [simp]: "ctl_only s s"
  by (auto simp: ctl_only_def intro!: exI [of _ "\<lambda>cpu. cpu_ctl_of (cpu_data s cpu)"])

lemma ctl_only_trans: "ctl_only s s1 \<Longrightarrow> ctl_only s1 s2 \<Longrightarrow> ctl_only s s2"
  by (auto simp: ctl_only_def)

lemma ctl_only_upd: "ctl_only s (upd_ctl cpu f s)"
  by (auto simp: ctl_only_def upd_ctl_def fun_eq_iff intro!: exI [of _ "\<lambda>c. if c = cpu then f (cpu_ctl_of (cpu_data s cpu)) else cpu_ctl_of (cpu_data s c)"])

lemma ctl_only_fold: "(\<And>x s. ctl_only s (g x s)) \<Longrightarrow> ctl_only s (fold g xs s)"
  by (induction xs arbitrary: s) (auto intro: ctl_only_trans)

lemma ctl_onlyD:
  assumes "ctl_only s s'"
  shows "pts s' = pts s" "root_cell s' = root_cell s" "cells s' = cells s" "num_cells s' = num_cells s" "devices s' = devices s"
    "cpu_cell (cpu_data s' cpu) = cpu_cell (cpu_data s cpu)"
  using assms by (auto simp: ctl_only_def)

lemma ctl_only_suspend: "ctl_only s (cell_suspend c cpu s)" and ctl_only_resume: "ctl_only s (cell_resume cpu s)"
  and ctl_only_flush: "ctl_only s (arch_flush_cell_vcpu_caches cpu c s)"
  by (auto simp: cell_suspend_def cell_resume_def arch_flush_cell_vcpu_caches_def intro!: ctl_only_fold ctl_only_upd)

subsection \<open>The invariant\<close>

definition cell_pages :: "hv_cell \<Rightarrow> u64 list" where
  "cell_pages c = block (cell_addr c) (data_pages c) @ (if cpu_set_page c \<noteq> 0 then [cpu_set_page c] else []) @
     (if mmio_page c \<noteq> 0 then block (mmio_page c) (PAGES (max_mmio_regions (cell_mmio c) * 32)) else []) @ unit_pages c"

definition all_cells :: "'u hv \<Rightarrow> hv_cell list" where
  "all_cells s = root_cell s # cells s"

definition in_bitmap :: "cpu_set \<Rightarrow> bool" where
  "in_bitmap cs \<longleftrightarrow> max_cpu_id cs div 64 < length (bitmap cs)"

definition ownership :: "nat set \<Rightarrow> 'u hv \<Rightarrow> bool" where
  "ownership CPUS s \<longleftrightarrow>
     (\<forall>c\<in>set (all_cells s). \<forall>cpu. cell_owns_cpu c cpu \<longrightarrow> cpu_cell (cpu_data s cpu) = cell_addr c) \<and>
     {cpu. \<exists>c\<in>set (all_cells s). cell_owns_cpu c cpu} = CPUS \<and>
     (\<forall>cpu\<in>CPUS. cpu \<le> max_cpu_id (cpu_set (root_cell s))) \<and> in_bitmap (cpu_set (root_cell s))"

text \<open>Memory regions in whole pages that the tables can translate, and no region of the communication page but one page.\<close>

definition plain_region :: "jailhouse_memory \<Rightarrow> bool" where
  "plain_region mem \<longleftrightarrow> take_bit 12 (phys_start mem) = 0 \<and> take_bit 12 (virt_start mem) = 0 \<and> take_bit 12 (mem_size mem) = 0 \<and>
     unat (virt_start mem) < 2 ^ 48 \<and> unat (phys_start mem) + unat (mem_size mem) \<le> 2 ^ 48 \<and> unat (virt_start mem) + unat (mem_size mem) \<le> 2 ^ 48 \<and>
     (and (mem_flags mem) JAILHOUSE_MEM_COMM_REGION \<noteq> 0 \<longrightarrow> mem_size mem = 4096)"

definition desc_ok :: "'u hv_env \<Rightarrow> cell_desc \<Rightarrow> bool" where
  "desc_ok env cfg \<longleftrightarrow> 0 < cfg_cpu_set_size cfg \<and> unat (cfg_cpu_set_size cfg) \<le> PAGE_SIZE - 8 \<and> cfg_bytes cfg < 2 ^ 32 \<and>
     (\<forall>mem\<in>set (cfg_mem_regions cfg). plain_region mem) \<and>
     (\<forall>cm\<in>set (cfg_col_regions cfg). \<exists>frags. colored_fragments (mask_end env) (colors env) cm = Some frags \<and> (\<forall>f\<in>set frags. plain_region f))"

definition cell_ok :: "'u hv_env \<Rightarrow> hv_cell \<Rightarrow> bool" where
  "cell_ok env c \<longleftrightarrow> desc_ok env (config c) \<and> data_pages c < 2 ^ 32 \<and> mmio_page c \<noteq> 0 \<and> PAGES (max_mmio_regions (cell_mmio c) * 32) < 2 ^ 32"

definition root_ok :: "hv_cell \<Rightarrow> bool" where
  "root_ok c \<longleftrightarrow> (\<forall>mem\<in>set (cfg_mem_regions (config c)). plain_region mem \<and> and (mem_flags mem) JAILHOUSE_MEM_COMM_REGION = 0)"

text \<open>\<open>spaces\<close> and \<open>xs\<close> are the address spaces and pages of the hypervisor itself.\<close>

definition view :: "(paging_structures \<rightharpoonup> (u64 \<Rightarrow> (u64 \<times> u64) option)) \<Rightarrow> 'u hv \<Rightarrow> heap_view" where
  "view fz s = \<lparr>outside = cell_addr (root_cell s), frozen = fz\<rparr>"

definition hv_heap :: "'u hv_env \<Rightarrow> heap_view \<Rightarrow> paging_structures list \<Rightarrow> u64 list \<Rightarrow> hv_cell list \<Rightarrow> pt_state \<Rightarrow> bool" where
  "hv_heap env vw spaces xs cs st \<longleftrightarrow> heap_ok (hv_off env) vw (map cell_mm cs @ spaces) (concat (map cell_pages cs) @ xs) st"

definition hv_inv :: "'u hv_env \<Rightarrow> (paging_structures \<rightharpoonup> (u64 \<Rightarrow> (u64 \<times> u64) option)) \<Rightarrow> paging_structures list \<Rightarrow> u64 list \<Rightarrow> nat set \<Rightarrow> 'u hv \<Rightarrow> bool" where
  "hv_inv env fz spaces xs CPUS s \<longleftrightarrow> hv_heap env (view fz s) spaces xs (all_cells s) (pts s) \<and> ownership CPUS s \<and>
     distinct (map cell_addr (all_cells s)) \<and> distinct (map (\<lambda>c. cfg_id (config c)) (all_cells s)) \<and>
     distinct (map (\<lambda>c. cfg_name (config c)) (all_cells s)) \<and> num_cells s = of_nat (length (all_cells s)) \<and>
     (\<forall>c\<in>set (cells s). cell_ok env c \<and> 0 < data_pages c) \<and> root_ok (root_cell s)"

lemma hv_inv_ctl: "ctl_only s s' \<Longrightarrow> hv_inv env fz spaces xs CPUS s' = hv_inv env fz spaces xs CPUS s"
  by (auto simp: ctl_only_def view_def hv_inv_def all_cells_def ownership_def)

subsection \<open>Regions\<close>

lemma subpage_aligned: "JAILHOUSE_MEMORY_IS_SUBPAGE mem \<longleftrightarrow> take_bit 12 (virt_start mem) \<noteq> 0 \<or> take_bit 12 (mem_size mem) \<noteq> 0"
  by (simp add: JAILHOUSE_MEMORY_IS_SUBPAGE_def not_PAGE_MASK take_bit_eq_mask)

lemma region_fits_plain:
  assumes "plain_region mem" "and (mem_flags mem) JAILHOUSE_MEM_COMM_REGION = 0 \<or> st_ok off st \<and> used_page st a"
  shows "region_fits off a mem"
proof -
  have pl: "take_bit 12 (phys_start mem) = 0" "take_bit 12 (virt_start mem) = 0" "take_bit 12 (mem_size mem) = 0"
    "unat (virt_start mem) < 2 ^ 48" "unat (phys_start mem) + unat (mem_size mem) \<le> 2 ^ 48" "unat (virt_start mem) + unat (mem_size mem) \<le> 2 ^ 48"
    using assms(1) by (simp_all add: plain_region_def)
  have sz: "PAGE_ALIGN (mem_size mem) = mem_size mem" using pl(3) by (intro PAGE_ALIGN_aligned) (simp add: aligned_nat dvd_eq_mod_eq_0)
  have "unat (and (region_phys off a mem) PAGE_MASK) + unat (mem_size mem) \<le> 2 ^ 48"
  proof (cases "and (mem_flags mem) JAILHOUSE_MEM_COMM_REGION = 0")
    case True
    then show ?thesis using pl(5) PAGE_MASK_aligned [OF pl(1)] by (simp add: region_phys_def)
  next
    case False
    then have st: "st_ok off st" "used_page st a" and s4: "unat (mem_size mem) = 4096" using assms by (auto simp: plain_region_def)
    have al: "take_bit 12 (a - off) = 0" using aligned_diff pages_st_ok(1) [OF st] st(1) by (simp add: st_ok_def)
    have lt: "unat (a - off) < 2 ^ 48" using st by (auto simp: st_ok_def used_page_def)
    obtain k where k: "unat (a - off) = 4096 * k" using al unfolding aligned_nat by auto
    then have "unat (a - off) + 4096 \<le> 2 ^ 48" using lt by simp
    then show ?thesis using False s4 PAGE_MASK_aligned [OF al] by (simp add: region_phys_def paging_hvirt2phys_def)
  qed
  then show ?thesis using pl sz PAGE_MASK_aligned [OF pl(2)] by (simp add: region_fits_def)
qed

text \<open>A part of a plain region of the root cell is plain.\<close>

lemma overlap_plain:
  assumes m: "plain_region mem" and r: "plain_region root_mem" "and (mem_flags root_mem) JAILHOUSE_MEM_COMM_REGION = 0"
    and ov: "region_overlap mem root_mem = Some ov"
  shows "plain_region ov" "and (mem_flags ov) JAILHOUSE_MEM_COMM_REGION = 0"
proof -
  have mp: "unat (phys_start mem) + unat (mem_size mem) \<le> 2 ^ 48" "unat (phys_start mem) mod 4096 = 0" "unat (mem_size mem) mod 4096 = 0"
    and rp: "unat (phys_start root_mem) + unat (mem_size root_mem) \<le> 2 ^ 48" "unat (virt_start root_mem) + unat (mem_size root_mem) \<le> 2 ^ 48"
      "unat (phys_start root_mem) mod 4096 = 0" "unat (mem_size root_mem) mod 4096 = 0" "unat (virt_start root_mem) mod 4096 = 0"
      "unat (virt_start root_mem) < 2 ^ 48"
    using m r(1) by (simp_all add: plain_region_def aligned_nat)
  have add: "unat (a + b) = unat a + unat b" if "unat a + unat b \<le> 2 ^ 48" for a b :: u64
    using that by (subst unat_add_lem [THEN iffD1]) simp_all
  have "plain_region ov \<and> mem_flags ov = mem_flags root_mem"
  proof (cases "address_in_region (phys_start mem) root_mem")
    case True
    define d where "d = phys_start mem - phys_start root_mem"
    have le: "phys_start root_mem \<le> phys_start mem" "unat (phys_start mem) < unat (phys_start root_mem) + unat (mem_size root_mem)"
      using True add [OF rp(1)] by (simp_all add: address_in_region_def word_less_nat_alt)
    have d: "unat d = unat (phys_start mem) - unat (phys_start root_mem)" unfolding d_def by (rule unat_sub [OF le(1)])
    then have dm: "unat d mod 4096 = 0" "unat d < unat (mem_size root_mem)" using le mp(2) rp(3) by (auto simp: word_le_nat_alt mod_eq_0_iff_dvd dvd_diff_nat)
    define sz where "sz = mem_size root_mem - d"
    have sz: "unat sz = unat (mem_size root_mem) - unat d" unfolding sz_def using dm(2) by (intro unat_sub) (simp add: word_le_nat_alt)
    then have szm: "unat sz mod 4096 = 0" using dm rp(4) by (auto simp: mod_eq_0_iff_dvd dvd_diff_nat)
    have v: "unat (virt_start root_mem + d) = unat (virt_start root_mem) + unat d" by (rule add) (use dm(2) rp(2) in linarith)
    have vm: "unat (virt_start root_mem + d) mod 4096 = 0" unfolding v using dm(1) rp(5) by (simp add: mod_add_eq [symmetric])
    have oe: "ov = \<lparr>phys_start = phys_start mem, virt_start = virt_start root_mem + d, mem_size = if sz > mem_size mem then mem_size mem else sz, mem_flags = mem_flags root_mem\<rparr>"
      using ov True by (auto simp: region_overlap_def Let_def d_def sz_def algebra_simps)
    show ?thesis unfolding oe plain_region_def aligned_nat
      using mp rp dm vm v szm sz r(2) d le by (auto simp: word_less_nat_alt word_le_nat_alt)
  next
    case False
    then have in2: "address_in_region (phys_start root_mem) mem" using ov by (simp add: region_overlap_def split: if_splits)
    define d where "d = phys_start root_mem - phys_start mem"
    have le: "phys_start mem \<le> phys_start root_mem" "unat (phys_start root_mem) < unat (phys_start mem) + unat (mem_size mem)"
      using in2 add [OF mp(1)] by (simp_all add: address_in_region_def word_less_nat_alt)
    have d: "unat d = unat (phys_start root_mem) - unat (phys_start mem)" unfolding d_def by (rule unat_sub [OF le(1)])
    then have dm: "unat d mod 4096 = 0" "unat d < unat (mem_size mem)" using le mp(2) rp(3) by (auto simp: word_le_nat_alt mod_eq_0_iff_dvd dvd_diff_nat)
    define sz where "sz = mem_size mem - d"
    have sz: "unat sz = unat (mem_size mem) - unat d" unfolding sz_def using dm(2) by (intro unat_sub) (simp add: word_le_nat_alt)
    then have szm: "unat sz mod 4096 = 0" using dm mp(3) by (auto simp: mod_eq_0_iff_dvd dvd_diff_nat)
    have oe: "ov = \<lparr>phys_start = phys_start root_mem, virt_start = virt_start root_mem, mem_size = if sz > mem_size root_mem then mem_size root_mem else sz, mem_flags = mem_flags root_mem\<rparr>"
      using ov False in2 by (auto simp: region_overlap_def Let_def d_def sz_def)
    show ?thesis unfolding oe plain_region_def aligned_nat
      using mp rp dm szm sz r(2) by (auto simp: word_less_nat_alt word_le_nat_alt)
  qed
  then show "plain_region ov" "and (mem_flags ov) JAILHOUSE_MEM_COMM_REGION = 0" using r(2) by simp_all
qed

subsection \<open>Operations on regions\<close>

text \<open>
  The operations on memory regions change nothing but the page tables and keep the heap in order: a client of
  such an operation may apply it to any list of regions or coloured fragments.
\<close>

locale region_operation =
  fixes I :: "'s \<Rightarrow> bool" and f :: "jailhouse_memory \<Rightarrow> 's \<Rightarrow> ('s \<times> int) option"
  assumes total: "I s \<Longrightarrow> plain_region mem \<Longrightarrow> \<exists>s' err. f mem s = Some (s', err) \<and> I s' \<and> err \<in> {0, - ENOMEM}"
begin

lemma callback: "I s \<Longrightarrow> plain_region mem \<Longrightarrow> \<exists>s' err. lift_cb f mem (Some s) = (Some s', err) \<and> I s' \<and> err \<in> {0, - ENOMEM}"
  using total [of s mem] by (auto simp: lift_cb_def)

lemma loadable: "I s \<Longrightarrow> \<forall>mem\<in>set mems. plain_region mem \<Longrightarrow> \<exists>s' err. loadable_regions f mems s = Some (s', err) \<and> I s' \<and> err \<in> {0, - ENOMEM}"
proof (induction mems arbitrary: s)
  case (Cons mem mems)
  obtain s1 err where s1: "f mem s = Some (s1, err)" "I s1" "err \<in> {0, - ENOMEM}" using total [OF Cons.prems(1), of mem] Cons.prems(2) by auto
  then show ?case using Cons.IH [OF s1(2)] Cons.IH [OF Cons.prems(1)] Cons.prems(2)
    by (cases "and (mem_flags mem) JAILHOUSE_MEM_LOADABLE = 0"; cases "err = 0") auto
qed simp

end

locale fragment_operations =
  fixes I :: "'s \<Rightarrow> bool" and fs :: "'s option col_manage_functions" and type :: col_operation
  assumes fragment: "I s \<Longrightarrow> plain_region frag \<Longrightarrow> \<exists>s' err. fragment_operation fs type frag (Some s) = (Some s', err) \<and> I s' \<and> err \<in> {0, - ENOMEM}"
begin

lemma fragments: "I s \<Longrightarrow> \<forall>f\<in>set frags. plain_region f \<Longrightarrow>
  \<exists>s' err. manage_fragments fs type frags (Some s) = (Some s', err) \<and> I s' \<and> err \<in> {0, - ENOMEM}"
proof (induction frags arbitrary: s)
  case (Cons fr frags)
  obtain s1 err where s1: "fragment_operation fs type fr (Some s) = (Some s1, err)" "I s1" "err \<in> {0, - ENOMEM}"
    using fragment [OF Cons.prems(1), of fr] Cons.prems(2) by auto
  then show ?case using Cons.IH [OF s1(2)] Cons.prems(2) by (cases "err = 0") auto
qed simp

lemma colored: "I s \<Longrightarrow> \<forall>cm\<in>set cms. \<exists>frags. colored_fragments beyond desc cm = Some frags \<and> (\<forall>f\<in>set frags. plain_region f) \<Longrightarrow>
  \<exists>s' err. colored_loop beyond desc fs type stop cms s = Some (s', err) \<and> I s' \<and> err \<in> {0, - ENOMEM}"
proof (induction cms arbitrary: s)
  case (Cons cm cms)
  obtain frags where "colored_fragments beyond desc cm = Some frags" "\<forall>f\<in>set frags. plain_region f" using Cons.prems(2) by auto
  then obtain s1 err where s1: "manage_colored_regions beyond desc cm fs type (Some s) = Some (Some s1, err)" "I s1" "err \<in> {0, - ENOMEM}"
    using fragments [OF Cons.prems(1), of frags] by (auto simp: manage_colored_regions_def)
  then show ?case using Cons.IH [OF s1(2)] Cons.prems(2) by (cases "err \<noteq> 0 \<and> stop") auto
qed simp

end

definition mem_inv :: "'u hv_env \<Rightarrow> heap_view \<Rightarrow> paging_structures list \<Rightarrow> u64 list \<Rightarrow> 'u hv \<Rightarrow> 'u hv \<Rightarrow> bool" where
  "mem_inv env vw sp pg s0 s \<longleftrightarrow> root_ok (root_cell s0) \<and> cell_mm (root_cell s0) \<in> set sp \<and> thawed vw (cell_mm (root_cell s0)) \<and>
     s = s0\<lparr>pts := pts s\<rparr> \<and> heap_ok (hv_off env) vw sp pg (pts s)"

lemma mem_inv_pts:
  assumes "mem_inv env vw sp pg s0 s" "heap_ok (hv_off env) vw sp pg st"
  shows "mem_inv env vw sp pg s0 (s\<lparr>pts := st\<rparr>)"
proof -
  obtain t where "s = s0\<lparr>pts := t\<rparr>" using assms(1) unfolding mem_inv_def by metis
  then show ?thesis using assms by (simp add: mem_inv_def)
qed

lemma mem_inv_root: "mem_inv env vw sp pg s0 s \<Longrightarrow> root_cell s = root_cell s0"
  unfolding mem_inv_def by (metis (no_types, lifting) hv.select_convs(2) hv.surjective hv.update_convs(1))

lemma cell_unmap_total:
  assumes "mem_inv env vw sp pg s0 s" "cell_mm cell \<in> set sp" "thawed vw (cell_mm cell)"
  shows "\<exists>s' err. cell_unmap env cell mem s = Some (s', err) \<and> mem_inv env vw sp pg s0 s' \<and> err \<in> {0, - ENOMEM}"
proof -
  have "heap_ok (hv_off env) vw sp pg (pts s)" using assms(1) by (simp add: mem_inv_def)
  from heap_unmap [OF this assms(2,3), of mem] show ?thesis using mem_inv_pts [OF assms(1)] by (auto simp: cell_unmap_def)
qed

lemma root_unmap_total:
  assumes "mem_inv env vw sp pg s0 s" "plain_region mem"
  shows "\<exists>s' err. unmap_from_root_cell env mem s = Some (s', err) \<and> mem_inv env vw sp pg s0 s' \<and> err \<in> {0, - ENOMEM}"
proof -
  have h: "heap_ok (hv_off env) vw sp pg (pts s)" "cell_mm (root_cell s) \<in> set sp" "thawed vw (cell_mm (root_cell s))" using assms(1) mem_inv_root [OF assms(1)] by (simp_all add: mem_inv_def)
  have "\<not> JAILHOUSE_MEMORY_IS_SUBPAGE (mem\<lparr>virt_start := phys_start mem\<rparr>)" using assms(2) by (simp add: subpage_aligned plain_region_def)
  then show ?thesis using heap_unmap [OF h, of "mem\<lparr>virt_start := phys_start mem\<rparr>"] mem_inv_pts [OF assms(1)]
    by (auto simp: unmap_from_root_cell_def root_unmap_def Let_def)
qed

lemma map_overlap_total:
  assumes "mem_inv env vw sp pg s0 s" "plain_region ov" "and (mem_flags ov) JAILHOUSE_MEM_COMM_REGION = 0"
  shows "\<exists>s' err. map_overlap env ov s = Some (s', err) \<and> mem_inv env vw sp pg s0 s' \<and> err \<in> {0, - ENOMEM}"
proof -
  have h: "heap_ok (hv_off env) vw sp pg (pts s)" "cell_mm (root_cell s) \<in> set sp" "thawed vw (cell_mm (root_cell s))" using assms(1) mem_inv_root [OF assms(1)] by (simp_all add: mem_inv_def)
  have "\<not> JAILHOUSE_MEMORY_IS_SUBPAGE ov" using assms(2) by (simp add: subpage_aligned plain_region_def)
  then show ?thesis using heap_map [OF h region_fits_plain [OF assms(2) disjI1 [OF assms(3)]], of "cell_addr (root_cell s)"] mem_inv_pts [OF assms(1)]
    by (auto simp: map_overlap_def)
qed

lemma remap_loop_total:
  assumes "mem_inv env vw sp pg s0 s" "plain_region mem" "\<forall>r\<in>set rs. plain_region r \<and> and (mem_flags r) JAILHOUSE_MEM_COMM_REGION = 0" "err \<in> {0, - ENOMEM}"
  shows "\<exists>s' err'. remap_loop env mem mode rs err s = Some (s', err') \<and> mem_inv env vw sp pg s0 s' \<and> err' \<in> {0, - ENOMEM}"
  using assms(1,3,4)
proof (induction rs arbitrary: s err)
  case (Cons r rs)
  show ?case
  proof (cases "region_overlap mem r")
    case None
    then show ?thesis using Cons by simp
  next
    case (Some ov)
    have "plain_region ov" "and (mem_flags ov) JAILHOUSE_MEM_COMM_REGION = 0" using overlap_plain [OF assms(2) _ _ Some] Cons.prems(2) by simp_all
    then obtain s1 err1 where s1: "map_overlap env ov s = Some (s1, err1)" "mem_inv env vw sp pg s0 s1" "err1 \<in> {0, - ENOMEM}"
      using map_overlap_total [OF Cons.prems(1)] by blast
    then show ?thesis using Cons.IH [OF s1(2) _ s1(3)] Cons.prems(2) Some by (cases "err1 \<noteq> 0 \<and> mode = ABORT_ON_ERROR") auto
  qed
qed simp

lemma remap_total:
  assumes "mem_inv env vw sp pg s0 s" "plain_region mem"
  shows "\<exists>s' err. remap_to_root_cell env mem mode s = Some (s', err) \<and> mem_inv env vw sp pg s0 s' \<and> err \<in> {0, - ENOMEM}"
proof -
  have "\<forall>r\<in>set (cfg_mem_regions (config (root_cell s))). plain_region r \<and> and (mem_flags r) JAILHOUSE_MEM_COMM_REGION = 0"
    using assms(1) mem_inv_root [OF assms(1)] by (simp add: mem_inv_def root_ok_def)
  then show ?thesis unfolding remap_to_root_cell_def by (intro remap_loop_total [OF assms]) simp_all
qed

text \<open>The same with a cell whose space and structure are on the heap.\<close>

definition cell_inv :: "'u hv_env \<Rightarrow> heap_view \<Rightarrow> paging_structures list \<Rightarrow> u64 list \<Rightarrow> 'u hv \<Rightarrow> hv_cell \<Rightarrow> 'u hv \<Rightarrow> bool" where
  "cell_inv env vw sp pg s0 cell s \<longleftrightarrow> mem_inv env vw sp pg s0 s \<and> cell_mm cell \<in> set sp \<and> thawed vw (cell_mm cell) \<and> cell_addr cell \<in> set pg"

definition pair_inv :: "'u hv_env \<Rightarrow> heap_view \<Rightarrow> paging_structures list \<Rightarrow> u64 list \<Rightarrow> 'u hv \<Rightarrow> hv_cell \<Rightarrow> 'u hv \<times> hv_cell \<Rightarrow> bool" where
  "pair_inv env vw sp pg s0 cell sc \<longleftrightarrow> snd sc = cell \<and> cell_inv env vw sp pg s0 cell (fst sc)"

lemma plain_not_subpage: "plain_region mem \<Longrightarrow> \<not> JAILHOUSE_MEMORY_IS_SUBPAGE mem"
  by (simp add: subpage_aligned plain_region_def)

lemma cell_map_total:
  assumes "pair_inv env vw sp pg s0 cell sc" "plain_region mem"
  shows "\<exists>sc' err. cell_map env mem sc = Some (sc', err) \<and> pair_inv env vw sp pg s0 cell sc' \<and> err \<in> {0, - ENOMEM}"
proof -
  obtain s where sc: "sc = (s, cell)" "mem_inv env vw sp pg s0 s" "cell_mm cell \<in> set sp" "thawed vw (cell_mm cell)" "cell_addr cell \<in> set pg"
    using assms(1) by (cases sc) (auto simp: pair_inv_def cell_inv_def)
  have h: "heap_ok (hv_off env) vw sp pg (pts s)" using sc(2) by (simp add: mem_inv_def)
  then have "st_ok (hv_off env) (pts s) \<and> used_page (pts s) (cell_addr cell)" using sc(5) by (simp add: heap_ok_def spaces_ok_def)
  from heap_map [OF h sc(3,4) region_fits_plain [OF assms(2) disjI2 [OF this]]] show ?thesis
    using mem_inv_pts [OF sc(2)] sc by (auto simp: cell_map_def pair_inv_def cell_inv_def)
qed

lemma unmap_root_sc_total:
  assumes "pair_inv env vw sp pg s0 cell sc" "plain_region mem"
  shows "\<exists>sc' err. unmap_root_sc env mem sc = Some (sc', err) \<and> pair_inv env vw sp pg s0 cell sc' \<and> err \<in> {0, - ENOMEM}"
proof -
  have "mem_inv env vw sp pg s0 (fst sc)" using assms(1) by (simp add: pair_inv_def cell_inv_def)
  from root_unmap_total [OF this assms(2)] show ?thesis using assms(1) by (auto simp: unmap_root_sc_def pair_inv_def cell_inv_def)
qed

interpretation root_unmap: region_operation "mem_inv env vw sp pg s0" "unmap_from_root_cell env" for env vw sp pg s0
  by unfold_locales (rule root_unmap_total)

interpretation root_remap: region_operation "mem_inv env vw sp pg s0" "\<lambda>mem. remap_to_root_cell env mem mode" for env vw sp pg s0 mode
  by unfold_locales (rule remap_total)

interpretation new_map: region_operation "pair_inv env vw sp pg s0 cell" "cell_map env" for env vw sp pg s0 cell
  by unfold_locales (rule cell_map_total)

interpretation new_unmap: region_operation "pair_inv env vw sp pg s0 cell" "unmap_root_sc env" for env vw sp pg s0 cell
  by unfold_locales (rule unmap_root_sc_total)

interpretation old_unmap: region_operation "cell_inv env vw sp pg s0 cell" "cell_unmap env cell" for env vw sp pg s0 cell
  using cell_unmap_total by unfold_locales (fastforce simp: cell_inv_def)

interpretation old_remap: region_operation "cell_inv env vw sp pg s0 cell" "\<lambda>mem. remap_to_root_cell env mem mode" for env vw sp pg s0 cell mode
  using remap_total by unfold_locales (fastforce simp: cell_inv_def)

interpretation frag_create: fragment_operations "pair_inv env vw sp pg s0 cell"
    "no_col_functions\<lparr>create_unmap_root_f := lift_cb (unmap_root_sc env), create_subpage_f := lift_cb (cell_subpage 0), create_map_f := lift_cb (cell_map env)\<rparr>"
    CREATE for env vw sp pg s0 cell
proof
  fix s frag
  assume i: "pair_inv env vw sp pg s0 cell s" and p: "plain_region frag"
  obtain s1 err where s1: "lift_cb (unmap_root_sc env) frag (Some s) = (Some s1, err)" "pair_inv env vw sp pg s0 cell s1" "err \<in> {0, - ENOMEM}"
    using new_unmap.callback [OF i p] by blast
  show "\<exists>s' err. fragment_operation (no_col_functions\<lparr>create_unmap_root_f := lift_cb (unmap_root_sc env), create_subpage_f := lift_cb (cell_subpage 0),
      create_map_f := lift_cb (cell_map env)\<rparr>) CREATE frag (Some s) = (Some s', err) \<and> pair_inv env vw sp pg s0 cell s' \<and> err \<in> {0, - ENOMEM}"
    using s1 new_map.callback [OF s1(2) p] new_map.callback [OF i p] plain_not_subpage [OF p]
    by (cases "err = 0"; cases "shared_with_root frag") (auto simp: fragment_operation_def)
qed

interpretation frag_destroy: fragment_operations "cell_inv env vw sp pg s0 cell"
    "no_col_functions\<lparr>destroy_unmap_f := lift_cb (cell_unmap env cell),
       destroy_remap_root_f := (\<lambda>mem mode. lift_cb (\<lambda>mem. remap_to_root_cell env mem mode) mem)\<rparr>"
    DESTROY for env vw sp pg s0 cell
proof
  fix s frag
  assume i: "cell_inv env vw sp pg s0 cell s" and p: "plain_region frag"
  obtain s1 err where s1: "lift_cb (cell_unmap env cell) frag (Some s) = (Some s1, err)" "cell_inv env vw sp pg s0 cell s1" "err \<in> {0, - ENOMEM}"
    using old_unmap.callback [OF i p] by blast
  show "\<exists>s' err. fragment_operation (no_col_functions\<lparr>destroy_unmap_f := lift_cb (cell_unmap env cell),
       destroy_remap_root_f := (\<lambda>mem mode. lift_cb (\<lambda>mem. remap_to_root_cell env mem mode) mem)\<rparr>) DESTROY frag (Some s) = (Some s', err) \<and>
      cell_inv env vw sp pg s0 cell s' \<and> err \<in> {0, - ENOMEM}"
    using s1 old_remap.callback [OF s1(2) p, of WARN_ON_ERROR] plain_not_subpage [OF p]
    by (cases "err = 0"; cases "shared_with_root frag") (auto simp: fragment_operation_def)
qed

interpretation frag_start: fragment_operations "mem_inv env vw sp pg s0" "no_col_functions\<lparr>start_unmap_root_f := lift_cb (unmap_from_root_cell env)\<rparr>" START
  for env vw sp pg s0
  using root_unmap.callback by unfold_locales (auto simp: fragment_operation_def)

interpretation frag_loadable: fragment_operations "mem_inv env vw sp pg s0"
    "no_col_functions\<lparr>loadable_remap_root_f := (\<lambda>mem mode. lift_cb (\<lambda>mem. remap_to_root_cell env mem mode) mem)\<rparr>" LOADABLE for env vw sp pg s0
  using root_remap.callback by unfold_locales (auto simp: fragment_operation_def)

lemma create_regions_total:
  "pair_inv env vw sp pg s0 cell sc \<Longrightarrow> \<forall>mem\<in>set mems. plain_region mem \<Longrightarrow>
   \<exists>sc' err. create_regions env n mems sc = Some (sc', err) \<and> pair_inv env vw sp pg s0 cell sc' \<and> err \<in> {0, - ENOMEM}"
proof (induction mems arbitrary: sc n)
  case (Cons mem mems)
  have p: "plain_region mem" using Cons.prems(2) by simp
  obtain sc1 err where sc1: "(if \<not> shared_with_root mem then unmap_root_sc env mem sc else Some (sc, 0)) = Some (sc1, err)"
    "pair_inv env vw sp pg s0 cell sc1" "err \<in> {0, - ENOMEM}"
    using unmap_root_sc_total [OF Cons.prems(1) p] Cons.prems(1) by (cases "shared_with_root mem") auto
  obtain sc2 err2 where sc2: "cell_map env mem sc1 = Some (sc2, err2)" "pair_inv env vw sp pg s0 cell sc2" "err2 \<in> {0, - ENOMEM}"
    using cell_map_total [OF sc1(2) p] by blast
  have e: "create_regions env n (mem # mems) sc = (if err \<noteq> 0 then Some (sc1, err) else if err2 \<noteq> 0 then Some (sc2, err2) else create_regions env (n + 1) mems sc2)"
    unfolding create_regions.simps sc1(1) using sc2(1) plain_not_subpage [OF p] by simp
  show ?case unfolding e using Cons.IH [OF sc2(2), of "n + 1"] Cons.prems(2) sc1(2,3) sc2(2,3) by (cases "err = 0"; cases "err2 = 0") auto
qed simp

lemma create_memory_total:
  assumes "pair_inv env vw sp pg s0 cell (s, cell)" "desc_ok env (config cell)"
  shows "\<exists>s' err. create_memory env cell s = Some ((s', cell), err) \<and> cell_inv env vw sp pg s0 cell s' \<and> err \<in> {0, - ENOMEM}"
proof -
  have mems: "\<forall>mem\<in>set (cfg_mem_regions (config cell)). plain_region mem" using assms(2) by (simp add: desc_ok_def)
  have cols: "\<forall>cm\<in>set (cfg_col_regions (config cell)). \<exists>frags. colored_fragments (mask_end env) (colors env) cm = Some frags \<and> (\<forall>f\<in>set frags. plain_region f)"
    using assms(2) by (simp add: desc_ok_def)
  obtain sc err where sc: "create_regions env 0 (cfg_mem_regions (config cell)) (s, cell) = Some (sc, err)" "pair_inv env vw sp pg s0 cell sc" "err \<in> {0, - ENOMEM}"
    using create_regions_total [OF assms(1) mems] by blast
  have "\<exists>sc' err'. create_memory env cell s = Some (sc', err') \<and> pair_inv env vw sp pg s0 cell sc' \<and> err' \<in> {0, - ENOMEM}"
    using sc frag_create.colored [OF sc(2) cols, of True] by (cases "err = 0") (simp_all add: create_memory_def)
  then show ?thesis by (metis pair_inv_def prod.collapse)
qed

lemma destroy_regions_total:
  "cell_inv env vw sp pg s0 cell s \<Longrightarrow> \<forall>mem\<in>set mems. plain_region mem \<Longrightarrow>
   \<exists>s'. destroy_regions env cell mems s = Some s' \<and> cell_inv env vw sp pg s0 cell s'"
proof (induction mems arbitrary: s)
  case (Cons mem mems)
  have p: "plain_region mem" using Cons.prems(2) by simp
  obtain s1 err where s1: "cell_unmap env cell mem s = Some (s1, err)" "cell_inv env vw sp pg s0 cell s1"
    using old_unmap.total [OF Cons.prems(1) p] by blast
  obtain s2 err2 where s2: "remap_to_root_cell env mem WARN_ON_ERROR s1 = Some (s2, err2)" "cell_inv env vw sp pg s0 cell s2"
    using old_remap.total [OF s1(2) p] by blast
  show ?case using s1 s2 Cons.IH [of s1] Cons.IH [of s2] Cons.prems(2) plain_not_subpage [OF p] by (cases "shared_with_root mem") auto
qed simp

subsection \<open>Moving CPUs\<close>

text \<open>The CPUs \<open>cs\<close> have been taken from the root cell or given back to it; all belong to the cell at \<open>a\<close> now.\<close>

definition moved :: "bool \<Rightarrow> u64 \<Rightarrow> nat set \<Rightarrow> 'u hv \<Rightarrow> 'u hv \<Rightarrow> bool" where
  "moved b a cs s s' \<longleftrightarrow> pts s' = pts s \<and> cells s' = cells s \<and> num_cells s' = num_cells s \<and>
     (\<exists>bm. root_cell s' = (root_cell s)\<lparr>cpu_set := (cpu_set (root_cell s))\<lparr>bitmap := bm\<rparr>\<rparr> \<and> length bm = length (bitmap (cpu_set (root_cell s))) \<and>
        (\<forall>n. test_bit n bm \<longleftrightarrow> (if n \<in> cs then b else test_bit n (bitmap (cpu_set (root_cell s)))))) \<and>
     (\<forall>cpu. cpu_cell (cpu_data s' cpu) = (if cpu \<in> cs then a else cpu_cell (cpu_data s cpu)))"

lemma movedD:
  assumes "moved b a cs s s'"
  shows "pts s' = pts s" "cells s' = cells s" "num_cells s' = num_cells s" "config (root_cell s') = config (root_cell s)"
    "cell_addr (root_cell s') = cell_addr (root_cell s)" "cell_mm (root_cell s') = cell_mm (root_cell s)" "cell_pages (root_cell s') = cell_pages (root_cell s)"
    "cpu_cell (cpu_data s' cpu) = (if cpu \<in> cs then a else cpu_cell (cpu_data s cpu))"
    "max_cpu_id (cpu_set (root_cell s')) = max_cpu_id (cpu_set (root_cell s))" "in_bitmap (cpu_set (root_cell s')) = in_bitmap (cpu_set (root_cell s))"
    "cell_owns_cpu (root_cell s') cpu \<longleftrightarrow> cpu \<le> max_cpu_id (cpu_set (root_cell s)) \<and> (if cpu \<in> cs then b else test_bit cpu (bitmap (cpu_set (root_cell s))))"
proof -
  obtain bm where bm: "root_cell s' = (root_cell s)\<lparr>cpu_set := (cpu_set (root_cell s))\<lparr>bitmap := bm\<rparr>\<rparr>" "length bm = length (bitmap (cpu_set (root_cell s)))"
    "\<forall>n. test_bit n bm \<longleftrightarrow> (if n \<in> cs then b else test_bit n (bitmap (cpu_set (root_cell s))))" using assms unfolding moved_def by blast
  show "config (root_cell s') = config (root_cell s)" "cell_addr (root_cell s') = cell_addr (root_cell s)" "cell_mm (root_cell s') = cell_mm (root_cell s)"
    "cell_pages (root_cell s') = cell_pages (root_cell s)" "max_cpu_id (cpu_set (root_cell s')) = max_cpu_id (cpu_set (root_cell s))"
    "in_bitmap (cpu_set (root_cell s')) = in_bitmap (cpu_set (root_cell s))" unfolding bm(1) by (simp_all add: cell_pages_def in_bitmap_def bm(2))
  show "cell_owns_cpu (root_cell s') cpu \<longleftrightarrow> cpu \<le> max_cpu_id (cpu_set (root_cell s)) \<and> (if cpu \<in> cs then b else test_bit cpu (bitmap (cpu_set (root_cell s))))"
    unfolding bm(1) using bm(3) by (simp add: cell_owns_cpu_def)
qed (use assms in \<open>simp_all add: moved_def\<close>)

lemma moved_trans:
  assumes "moved b a cs s s1" "moved b a ds s1 s'"
  shows "moved b a (cs \<union> ds) s s'"
proof -
  obtain bm where bm: "root_cell s1 = (root_cell s)\<lparr>cpu_set := (cpu_set (root_cell s))\<lparr>bitmap := bm\<rparr>\<rparr>" "length bm = length (bitmap (cpu_set (root_cell s)))"
    "\<forall>n. test_bit n bm \<longleftrightarrow> (if n \<in> cs then b else test_bit n (bitmap (cpu_set (root_cell s))))" using assms(1) unfolding moved_def by blast
  obtain bm' where bm': "root_cell s' = (root_cell s1)\<lparr>cpu_set := (cpu_set (root_cell s1))\<lparr>bitmap := bm'\<rparr>\<rparr>" "length bm' = length (bitmap (cpu_set (root_cell s1)))"
    "\<forall>n. test_bit n bm' \<longleftrightarrow> (if n \<in> ds then b else test_bit n (bitmap (cpu_set (root_cell s1))))" using assms(2) unfolding moved_def by blast
  have "root_cell s' = (root_cell s)\<lparr>cpu_set := (cpu_set (root_cell s))\<lparr>bitmap := bm'\<rparr>\<rparr>" "length bm' = length (bitmap (cpu_set (root_cell s)))"
    "\<forall>n. test_bit n bm' \<longleftrightarrow> (if n \<in> cs \<union> ds then b else test_bit n (bitmap (cpu_set (root_cell s))))"
    unfolding bm'(1) bm(1) using bm(2,3) bm'(2,3) by (auto simp: bm(1))
  then show ?thesis unfolding moved_def using movedD(1-3,8) [OF assms(1)] movedD(1-3,8) [OF assms(2)] by auto
qed

lemma moved_empty: "moved b a {} s s"
  by (auto simp: moved_def intro!: exI [of _ "bitmap (cpu_set (root_cell s))"])

lemma root_range: "in_bitmap (cpu_set (root_cell s)) \<Longrightarrow> cpu \<le> max_cpu_id (cpu_set (root_cell s)) \<Longrightarrow> cpu div 64 < length (bitmap (cpu_set (root_cell s)))"
  unfolding in_bitmap_def by (meson div_le_mono order.strict_trans1)

lemma take_cpu_moved:
  assumes "in_bitmap (cpu_set (root_cell s))" "cpu \<le> max_cpu_id (cpu_set (root_cell s))"
  shows "\<exists>s'. take_cpu env a cpu s = Some s' \<and> moved False a {cpu} s s'"
proof -
  obtain bm where bm: "put_bit False cpu (bitmap (cpu_set (root_cell s))) = Some bm" "length bm = length (bitmap (cpu_set (root_cell s)))"
    "\<And>n. test_bit n bm \<longleftrightarrow> (if n = cpu then False else test_bit n (bitmap (cpu_set (root_cell s))))"
    using put_bit_range [OF root_range [OF assms], of False] by blast
  define s1 where "s1 = upd_root (\<lambda>c. c\<lparr>cpu_set := (cpu_set c)\<lparr>bitmap := bm\<rparr>\<rparr>) (arch_park env cpu s)"
  define s2 where "s2 = s1\<lparr>cpu_data := (cpu_data s1)(cpu := (cpu_data s1 cpu)\<lparr>cpu_cell := a, cpu_stats := replicate JAILHOUSE_NUM_CPU_STATS 0\<rparr>)\<rparr>"
  have "take_cpu env a cpu s = Some s2" by (simp add: take_cpu_def bm(1) s2_def s1_def Let_def)
  moreover have "pts s2 = pts s" "cells s2 = cells s" "num_cells s2 = num_cells s"
    "root_cell s2 = (root_cell s)\<lparr>cpu_set := (cpu_set (root_cell s))\<lparr>bitmap := bm\<rparr>\<rparr>"
    "\<And>c. cpu_cell (cpu_data s2 c) = (if c = cpu then a else cpu_cell (cpu_data s c))"
    by (simp_all add: s2_def s1_def upd_root_def arch_park_def upd_ctl_def)
  ultimately show ?thesis unfolding moved_def using bm(2,3) by auto
qed

lemma give_cpu_moved:
  assumes "in_bitmap (cpu_set (root_cell s))" "cpu \<le> max_cpu_id (cpu_set (root_cell s))"
  shows "\<exists>s'. give_cpu env cpu s = Some s' \<and> moved True (cell_addr (root_cell s)) {cpu} s s'"
proof -
  obtain bm where bm: "put_bit True cpu (bitmap (cpu_set (root_cell s))) = Some bm" "length bm = length (bitmap (cpu_set (root_cell s)))"
    "\<And>n. test_bit n bm \<longleftrightarrow> (if n = cpu then True else test_bit n (bitmap (cpu_set (root_cell s))))"
    using put_bit_range [OF root_range [OF assms], of True] by blast
  define s1 where "s1 = upd_root (\<lambda>c. c\<lparr>cpu_set := (cpu_set c)\<lparr>bitmap := bm\<rparr>\<rparr>) (arch_park env cpu s)"
  define s2 where "s2 = s1\<lparr>cpu_data := (cpu_data s1)(cpu := (cpu_data s1 cpu)\<lparr>cpu_cell := cell_addr (root_cell s), failed := False, cpu_stats := replicate JAILHOUSE_NUM_CPU_STATS 0\<rparr>)\<rparr>"
  have "give_cpu env cpu s = Some s2" by (simp add: give_cpu_def bm(1) s2_def s1_def Let_def)
  moreover have "pts s2 = pts s" "cells s2 = cells s" "num_cells s2 = num_cells s"
    "root_cell s2 = (root_cell s)\<lparr>cpu_set := (cpu_set (root_cell s))\<lparr>bitmap := bm\<rparr>\<rparr>"
    "\<And>c. cpu_cell (cpu_data s2 c) = (if c = cpu then (cell_addr (root_cell s)) else cpu_cell (cpu_data s c))"
    by (simp_all add: s2_def s1_def upd_root_def arch_park_def upd_ctl_def)
  ultimately show ?thesis unfolding moved_def using bm(2,3) by auto
qed

lemma each_cpu_moved:
  assumes f: "\<And>cpu s. in_bitmap (cpu_set (root_cell s)) \<Longrightarrow> cpu \<le> max_cpu_id (cpu_set (root_cell s)) \<Longrightarrow> cell_addr (root_cell s) = r \<Longrightarrow>
      \<exists>s'. f cpu s = Some s' \<and> moved b a {cpu} s s'"
    and "in_bitmap (cpu_set (root_cell s))" "\<forall>cpu\<in>set cs. cpu \<le> max_cpu_id (cpu_set (root_cell s))" "cell_addr (root_cell s) = r"
  shows "\<exists>s'. each_cpu f cs s = Some s' \<and> moved b a (set cs) s s'"
  using assms(2-4)
proof (induction cs arbitrary: s)
  case (Cons cpu cs)
  obtain s1 where s1: "f cpu s = Some s1" "moved b a {cpu} s s1" using f [OF Cons.prems(1) _ Cons.prems(3), of cpu] Cons.prems(2) by auto
  obtain s' where s': "each_cpu f cs s1 = Some s'" "moved b a (set cs) s1 s'"
    using Cons.IH [of s1] Cons.prems movedD(5,9,10) [OF s1(2)] by auto
  have "moved b a (insert cpu (set cs)) s s'" by (subst insert_is_Un) (rule moved_trans [OF s1(2) s'(2)])
  then show ?case using s1(1) s'(1) by simp
qed (simp add: moved_empty)

lemma for_each_owns: "set (for_each_cpu (cpu_set c)) = {cpu. cell_owns_cpu c cpu}"
  by (simp add: for_each_cpu_set cell_owns_cpu_def)

lemma owned_once: "ownership CPUS s \<Longrightarrow> c \<in> set (all_cells s) \<Longrightarrow> d \<in> set (all_cells s) \<Longrightarrow> cell_owns_cpu c cpu \<Longrightarrow> cell_owns_cpu d cpu \<Longrightarrow> cell_addr c = cell_addr d"
  unfolding ownership_def by metis

subsection \<open>Frames\<close>

definition dev_only :: "'u hv \<Rightarrow> 'u hv \<Rightarrow> bool" where
  "dev_only s s' \<longleftrightarrow> pts s' = pts s \<and> root_cell s' = root_cell s \<and> cells s' = cells s \<and> num_cells s' = num_cells s \<and>
     (\<forall>cpu. cpu_cell (cpu_data s' cpu) = cpu_cell (cpu_data s cpu))"

lemma dev_only_trans: "dev_only s s1 \<Longrightarrow> dev_only s1 s2 \<Longrightarrow> dev_only s s2"
  by (simp add: dev_only_def)

lemma dev_only_ctl: "ctl_only s s' \<Longrightarrow> dev_only s s'"
  using ctl_onlyD by (auto simp: dev_only_def)

lemma dev_only_devices [simp]: "dev_only s (s\<lparr>devices := d\<rparr>)"
  by (simp add: dev_only_def)

lemma dev_only_commit: "dev_only s (config_commit env cpu co s)"
proof -
  have "dev_only s (arch_flush_cell_vcpu_caches cpu (root_cell s) s)" by (intro dev_only_ctl ctl_only_flush)
  moreover have "dev_only s1 (arch_flush_cell_vcpu_caches cpu c s1)" for c s1 by (intro dev_only_ctl ctl_only_flush)
  ultimately show ?thesis unfolding config_commit_def Let_def
    by (auto intro!: dev_only_trans [OF _ dev_only_devices] split: option.split intro: dev_only_trans)
qed

lemma ownership_cong:
  assumes "root_cell s' = root_cell s" "cells s' = cells s" "\<And>cpu. cpu_cell (cpu_data s' cpu) = cpu_cell (cpu_data s cpu)"
  shows "ownership CPUS s' = ownership CPUS s"
  using assms by (simp add: ownership_def all_cells_def)

lemma hv_inv_dev: "dev_only s s' \<Longrightarrow> hv_inv env fz spaces xs CPUS s' = hv_inv env fz spaces xs CPUS s"
  using ownership_cong [of s' s CPUS] by (simp add: dev_only_def view_def hv_inv_def all_cells_def)

text \<open>Cells up to their communication regions.\<close>

definition strip :: "hv_cell \<Rightarrow> hv_cell" where
  "strip c = c\<lparr>comm := \<lparr>cell_state = 0, msg_to_cell = 0, reply_from_cell = 0\<rparr>\<rparr>"

lemma strip_simps [simp]: "cell_addr (strip c) = cell_addr c" "config (strip c) = config c" "cpu_set (strip c) = cpu_set c" "cell_mm (strip c) = cell_mm c"
  "cell_pages (strip c) = cell_pages c" "data_pages (strip c) = data_pages c" "cell_owns_cpu (strip c) cpu = cell_owns_cpu c cpu" "cell_ok env (strip c) = cell_ok env c"
  "loadable (strip c) = loadable c" "strip (c\<lparr>comm := k\<rparr>) = strip c"
  by (simp_all add: strip_def cell_pages_def cell_owns_cpu_def cell_ok_def)

definition comm_only :: "'u hv \<Rightarrow> 'u hv \<Rightarrow> bool" where
  "comm_only s s' \<longleftrightarrow> pts s' = pts s \<and> root_cell s' = root_cell s \<and> map strip (cells s') = map strip (cells s) \<and> num_cells s' = num_cells s \<and>
     (\<forall>cpu. cpu_cell (cpu_data s' cpu) = cpu_cell (cpu_data s cpu))"

lemma comm_only_trans: "comm_only s s1 \<Longrightarrow> comm_only s1 s2 \<Longrightarrow> comm_only s s2"
  by (simp add: comm_only_def)

lemma comm_only_dev: "dev_only s s' \<Longrightarrow> comm_only s s'"
  by (simp add: comm_only_def dev_only_def)

lemma comm_only_upd: "(\<And>c. strip (f c) = strip c) \<Longrightarrow> comm_only s (upd_cell a f s)"
  by (simp add: comm_only_def upd_cell_def)

text \<open>What the invariant depends on: neither the communication region nor whether the cell is loadable.\<close>

definition skel :: "hv_cell \<Rightarrow> hv_cell" where
  "skel c = (strip c)\<lparr>loadable := False\<rparr>"

lemma skel_simps [simp]: "cell_addr (skel c) = cell_addr c" "config (skel c) = config c" "cpu_set (skel c) = cpu_set c" "cell_mm (skel c) = cell_mm c"
  "cell_pages (skel c) = cell_pages c" "data_pages (skel c) = data_pages c" "cell_owns_cpu (skel c) cpu = cell_owns_cpu c cpu" "cell_ok env (skel c) = cell_ok env c"
  "skel (c\<lparr>comm := k\<rparr>) = skel c" "skel (c\<lparr>loadable := b\<rparr>) = skel c" "skel (strip c) = skel c"
  by (simp_all add: skel_def strip_def cell_pages_def cell_owns_cpu_def cell_ok_def)

definition alike :: "'u hv \<Rightarrow> 'u hv \<Rightarrow> bool" where
  "alike s s' \<longleftrightarrow> pts s' = pts s \<and> root_cell s' = root_cell s \<and> map skel (cells s') = map skel (cells s) \<and> num_cells s' = num_cells s \<and>
     (\<forall>cpu. cpu_cell (cpu_data s' cpu) = cpu_cell (cpu_data s cpu))"

lemma alike_upd: "(\<And>c. skel (f c) = skel c) \<Longrightarrow> alike s (upd_cell a f s)"
  by (simp add: alike_def upd_cell_def)

lemma map_skel:
  assumes "map skel xs = map skel ys" "\<And>c. g (skel c) = g c"
  shows "map g xs = map g ys"
proof -
  have "map g xs = map g (map skel xs)" "map g ys = map g (map skel ys)" using assms(2) by simp_all
  then show ?thesis using assms(1) by simp
qed

lemma ball_skel:
  assumes "map skel xs = map skel ys" "\<And>c. P (skel c) = P c"
  shows "(\<forall>c\<in>set xs. P c) = (\<forall>c\<in>set ys. P c)"
  using map_skel [where g = P, OF assms] by (metis (mono_tags, lifting) in_set_conv_nth length_map nth_map)

lemma bex_skel:
  assumes "map skel xs = map skel ys" "\<And>c. P (skel c) = P c"
  shows "(\<exists>c\<in>set xs. P c) = (\<exists>c\<in>set ys. P c)"
  using ball_skel [where P = "\<lambda>c. \<not> P c", OF assms(1)] assms(2) by blast

lemma hv_inv_alike:
  assumes "alike s s'"
  shows "hv_inv env fz spaces xs CPUS s' = hv_inv env fz spaces xs CPUS s"
proof -
  have c: "pts s' = pts s" "root_cell s' = root_cell s" "num_cells s' = num_cells s" "\<And>cpu. cpu_cell (cpu_data s' cpu) = cpu_cell (cpu_data s cpu)"
    and m: "map skel (cells s') = map skel (cells s)" using assms by (simp_all add: alike_def)
  have a: "map skel (all_cells s') = map skel (all_cells s)" using c(2) m by (simp add: all_cells_def)
  have "map cell_mm (all_cells s') = map cell_mm (all_cells s)" "map cell_pages (all_cells s') = map cell_pages (all_cells s)"
    "map cell_addr (all_cells s') = map cell_addr (all_cells s)" "map (\<lambda>c. cfg_id (config c)) (all_cells s') = map (\<lambda>c. cfg_id (config c)) (all_cells s)"
    "map (\<lambda>c. cfg_name (config c)) (all_cells s') = map (\<lambda>c. cfg_name (config c)) (all_cells s)" "length (all_cells s') = length (all_cells s)"
    by (rule map_skel [OF a], simp)+ (use map_eq_imp_length_eq [OF a] in simp)
  moreover have "(\<forall>c\<in>set (cells s'). cell_ok env c \<and> 0 < data_pages c) = (\<forall>c\<in>set (cells s). cell_ok env c \<and> 0 < data_pages c)"
    by (rule ball_skel [OF m]) simp
  moreover have "ownership CPUS s' = ownership CPUS s"
  proof -
    have "(\<forall>x\<in>set (all_cells s'). \<forall>cpu. cell_owns_cpu x cpu \<longrightarrow> cpu_cell (cpu_data s cpu) = cell_addr x) =
        (\<forall>x\<in>set (all_cells s). \<forall>cpu. cell_owns_cpu x cpu \<longrightarrow> cpu_cell (cpu_data s cpu) = cell_addr x)"
      by (rule ball_skel [OF a]) simp
    moreover have "(\<exists>x\<in>set (all_cells s'). cell_owns_cpu x cpu) = (\<exists>x\<in>set (all_cells s). cell_owns_cpu x cpu)" for cpu
      by (rule bex_skel [OF a]) simp
    ultimately show ?thesis using c by (simp add: ownership_def)
  qed
  ultimately show ?thesis using c by (simp add: hv_inv_def hv_heap_def view_def)
qed

lemma comm_only_alike: "comm_only s s' \<Longrightarrow> alike s s'"
  unfolding comm_only_def alike_def by (metis (no_types, lifting) map_map skel_simps(11) comp_apply map_eq_conv)

lemmas hv_inv_comm = hv_inv_alike [OF comm_only_alike]

subsection \<open>Messages\<close>

definition answers :: "'u hv_env \<Rightarrow> hv_cell \<Rightarrow> u32 \<Rightarrow> bool" where
  "answers env c msg \<longleftrightarrow> and (cfg_flags (config c)) JAILHOUSE_CELL_PASSIVE_COMMREG \<noteq> 0 \<or> 0 < cfg_msg_reply_timeout (config c) \<or>
     (\<exists>k rep cst. polls env (cfg_id (config c)) msg k = Some (rep, cst) \<and> rep \<noteq> JAILHOUSE_MSG_NONE) \<or>
     polls env (cfg_id (config c)) msg 0 = None \<and> cell_state (comm c) \<in> {JAILHOUSE_CELL_SHUT_DOWN, JAILHOUSE_CELL_FAILED}"

lemma poll_timeout: "0 < mt \<Longrightarrow> 0 < t \<Longrightarrow> \<exists>r. poll_loop poll type mt t k = Some r"
proof (induction "unat t" arbitrary: t k)
  case (Suc n)
  have n: "unat (t - 1) = n" using Suc.hyps(2) by (metis Suc_eq_plus1 add_diff_cancel_right' nat.simps(3) unat_eq_zero unat_minus_one)
  have "\<exists>r. poll_loop poll type mt (t - 1) (k + 1) = Some r" if "t - 1 \<noteq> 0"
    using Suc.hyps(1) [of "t - 1" "k + 1"] n that Suc.prems(1) by (simp add: word_gt_0)
  then show ?case using Suc.prems by (subst poll_loop.simps) (auto simp: Let_def split: prod.splits)
qed (simp add: word_less_nat_alt)

lemma poll_answer: "fst (poll (k + n)) \<noteq> JAILHOUSE_MSG_NONE \<Longrightarrow> \<exists>r. poll_loop poll type mt t k = Some r"
proof (induction n arbitrary: k t)
  case 0
  then show ?case by (subst poll_loop.simps) (auto simp: Let_def split: prod.splits)
next
  case (Suc n)
  have "\<exists>r. poll_loop poll type mt t' (k + 1) = Some r" for t' using Suc.IH [of "k + 1"] Suc.prems by simp
  then show ?case by (subst poll_loop.simps) (auto simp: Let_def split: prod.splits)
qed

lemma exchange_total:
  assumes "answers env c msg"
  shows "\<exists>s' r. cell_exchange_message env cpu c msg type s = Some (s', r) \<and> comm_only s s'"
proof (cases "and (cfg_flags (config c)) JAILHOUSE_CELL_PASSIVE_COMMREG = 0")
  case False
  then show ?thesis by (auto simp: cell_exchange_message_def comm_only_dev dev_only_def)
next
  case True
  let ?t = "cfg_msg_reply_timeout (config c)" and ?p = "poll_of (polls env (cfg_id (config c)) msg) (jailhouse_send_msg_to_cell msg (comm c))"
  let ?s1 = "upd_cell (cell_addr c) (\<lambda>c. c\<lparr>comm := jailhouse_send_msg_to_cell msg (comm c)\<rparr>) s"
  have "\<exists>r. poll_loop ?p type ?t ?t 0 = Some r"
  proof -
    have "\<exists>r. poll_loop ?p type ?t ?t 0 = Some r" if "polls env (cfg_id (config c)) msg k = Some (rep, cst)" "rep \<noteq> JAILHOUSE_MSG_NONE" for k rep cst
      using that by (intro poll_answer [where n = k]) (simp add: poll_of_def)
    moreover have "\<exists>r. poll_loop ?p type ?t ?t 0 = Some r" if "polls env (cfg_id (config c)) msg 0 = None" "cell_state (comm c) \<in> {JAILHOUSE_CELL_SHUT_DOWN, JAILHOUSE_CELL_FAILED}"
      using that by (subst poll_loop.simps) (auto simp: poll_of_def jailhouse_send_msg_to_cell_def)
    moreover have "0 < ?t \<or> (\<exists>k rep cst. polls env (cfg_id (config c)) msg k = Some (rep, cst) \<and> rep \<noteq> JAILHOUSE_MSG_NONE) \<or>
        polls env (cfg_id (config c)) msg 0 = None \<and> cell_state (comm c) \<in> {JAILHOUSE_CELL_SHUT_DOWN, JAILHOUSE_CELL_FAILED}"
      using assms True by (simp add: answers_def)
    ultimately show ?thesis using poll_timeout [of ?t ?t ?p type 0] by metis
  qed
  then obtain res tm where r: "poll_loop ?p type ?t ?t 0 = Some (res, tm)" by auto
  have "comm_only s ?s1" by (rule comm_only_upd) simp
  moreover have "comm_only ?s1 (upd_cell (cell_addr c) (\<lambda>c. c\<lparr>comm := (comm c)\<lparr>cell_state := JAILHOUSE_CELL_FAILED\<rparr>\<rparr>) (cell_suspend c cpu ?s1))"
    by (rule comm_only_trans [OF comm_only_dev [OF dev_only_ctl [OF ctl_only_suspend]] comm_only_upd]) simp
  ultimately show ?thesis using True r by (auto simp: cell_exchange_message_def Let_def intro: comm_only_trans)
qed

lemma reconfig_total:
  "\<forall>c\<in>set cs. answers env c JAILHOUSE_MSG_RECONFIG_COMPLETED \<Longrightarrow> \<exists>s'. reconfig_loop env cpu cs s = Some s' \<and> comm_only s s'"
proof (induction cs arbitrary: s)
  case (Cons c cs)
  obtain s1 r where s1: "cell_exchange_message env cpu c JAILHOUSE_MSG_RECONFIG_COMPLETED MSG_INFORMATION s = Some (s1, r)" "comm_only s s1"
    using exchange_total [of env c] Cons.prems by (metis list.set_intros(1))
  then show ?case using Cons.IH [of s1] Cons.prems comm_only_trans [OF s1(2)] by auto
qed (simp add: comm_only_def)

subsection \<open>Structures of a cell\<close>

text \<open>
  What the units may do when a cell is made or removed: change the tables of the address space of that cell, its MMIO table without its size, and
  allocate and release pages of their own, which the cell records. They leave the order of the heap, the other address spaces and the pages of others as they are.
\<close>

fun unit_effect :: "'u hv_env \<Rightarrow> 'u unit_state \<Rightarrow> 'u unit_state \<Rightarrow> bool" where
  "unit_effect env (c, d, st) (c', d', st') \<longleftrightarrow>
     c' = c\<lparr>cell_mmio := cell_mmio c', unit_pages := unit_pages c'\<rparr> \<and> max_mmio_regions (cell_mmio c') = max_mmio_regions (cell_mmio c) \<and>
     (\<forall>vw SP PG. heap_ok (hv_off env) vw SP (unit_pages c @ PG) st \<longrightarrow> cell_mm c \<in> set SP \<longrightarrow> thawed vw (cell_mm c) \<longrightarrow>
        heap_ok (hv_off env) vw SP (unit_pages c' @ PG) st')"

definition unit_ok :: "'u hv_env \<Rightarrow> 'u hv_unit \<Rightarrow> bool" where
  "unit_ok env u \<longleftrightarrow> (\<forall>w. unit_effect env w (fst (unit_cell_init u w)) \<and> unit_effect env w (unit_cell_exit u w))"

definition env_ok :: "'u hv_env \<Rightarrow> bool" where
  "env_ok env \<longleftrightarrow> 44 \<le> cpu_parange env \<and> 0 < sizeof_cell env \<and> sizeof_cell env < 2 ^ 30 \<and>
     (\<forall>cfg. 0 < (\<Sum>u\<leftarrow>units env. mmio_count_regions u cfg) \<and> (\<Sum>u\<leftarrow>units env. mmio_count_regions u cfg) < 2 ^ 30) \<and>
     (\<forall>u\<in>set (units env). unit_ok env u)"

lemma unit_effect_refl: "unit_effect env w w"
  by (cases w) simp

lemma unit_effect_trans:
  assumes "unit_effect env w w1" "unit_effect env w1 w2"
  shows "unit_effect env w w2"
proof -
  obtain c d st c1 d1 st1 c2 d2 st2 where w: "w = (c, d, st)" "w1 = (c1, d1, st1)" "w2 = (c2, d2, st2)" by (metis prod_cases3)
  have c: "c1 = c\<lparr>cell_mmio := cell_mmio c1, unit_pages := unit_pages c1\<rparr>" "c2 = c1\<lparr>cell_mmio := cell_mmio c2, unit_pages := unit_pages c2\<rparr>"
    and m: "max_mmio_regions (cell_mmio c2) = max_mmio_regions (cell_mmio c)" using assms unfolding w by simp_all
  have cm: "cell_mm c1 = cell_mm c" by (subst c(1)) simp
  have "c2 = c\<lparr>cell_mmio := cell_mmio c2, unit_pages := unit_pages c2\<rparr>" by (subst c(2), subst c(1)) simp
  then show ?thesis using assms m cm unfolding w by simp
qed

lemma units_exit: "\<forall>u\<in>set us. unit_ok env u \<Longrightarrow> unit_effect env w (fold unit_cell_exit us w)"
proof (induction us arbitrary: w)
  case (Cons u us)
  have "unit_effect env w (unit_cell_exit u w)" using Cons.prems by (simp only: list.set ball_simps unit_ok_def)
  then show ?case using Cons.IH [of "unit_cell_exit u w"] Cons.prems unit_effect_trans by (metis comp_apply fold_simps(2) list.set_intros(2))
qed (simp add: unit_effect_refl)

lemma units_init:
  "\<forall>u\<in>set us \<union> set bf. unit_ok env u \<Longrightarrow> unit_effect env w (fst (init_units us bf w))"
proof (induction us arbitrary: bf w)
  case (Cons u us)
  obtain w1 err where w1: "unit_cell_init u w = (w1, err)" by fastforce
  have e: "unit_effect env w w1" using Cons.prems w1 by (metis UnI1 fst_conv list.set_intros(1) unit_ok_def)
  show ?case
  proof (cases "err = 0")
    case True
    then show ?thesis using Cons.IH [of "u # bf" w1] Cons.prems w1 e by (auto intro: unit_effect_trans)
  next
    case False
    then show ?thesis using units_exit [of bf env w1] Cons.prems w1 e by (auto intro: unit_effect_trans)
  qed
qed (simp add: unit_effect_refl)

lemma unit_effectD:
  assumes "unit_effect env (c, d, st) (c', d', st')"
  shows "cell_addr c' = cell_addr c" "config c' = config c" "cpu_set c' = cpu_set c" "cell_mm c' = cell_mm c" "mmio_page c' = mmio_page c"
    "comm c' = comm c" "loadable c' = loadable c" "data_pages c' = data_pages c" "cell_owns_cpu c' = cell_owns_cpu c"
    "max_mmio_regions (cell_mmio c') = max_mmio_regions (cell_mmio c)"
    "heap_ok (hv_off env) vw SP (cell_pages c @ PG) st \<Longrightarrow> cell_mm c \<in> set SP \<Longrightarrow> thawed vw (cell_mm c) \<Longrightarrow> heap_ok (hv_off env) vw SP (cell_pages c' @ PG) st'"
proof -
  have c: "c' = c\<lparr>cell_mmio := cell_mmio c', unit_pages := unit_pages c'\<rparr>" and m: "max_mmio_regions (cell_mmio c') = max_mmio_regions (cell_mmio c)"
    using assms by simp_all
  show "cell_addr c' = cell_addr c" "config c' = config c" "cpu_set c' = cpu_set c" "cell_mm c' = cell_mm c" "mmio_page c' = mmio_page c"
    "comm c' = comm c" "loadable c' = loadable c" "data_pages c' = data_pages c" "cell_owns_cpu c' = cell_owns_cpu c"
    by (subst c, simp add: cell_owns_cpu_def fun_eq_iff)+
  show "max_mmio_regions (cell_mmio c') = max_mmio_regions (cell_mmio c)" by (fact m)
  define own where "own = block (cell_addr c) (data_pages c) @ (if cpu_set_page c \<noteq> 0 then [cpu_set_page c] else []) @
     (if mmio_page c \<noteq> 0 then block (mmio_page c) (PAGES (max_mmio_regions (cell_mmio c) * 32)) else [])"
  have p: "cell_pages c = own @ unit_pages c" by (simp add: cell_pages_def own_def)
  have p': "cell_pages c' = own @ unit_pages c'" by (subst c) (simp add: cell_pages_def own_def m)
  assume h: "heap_ok (hv_off env) vw SP (cell_pages c @ PG) st" and s: "cell_mm c \<in> set SP" "thawed vw (cell_mm c)"
  have "heap_ok (hv_off env) vw SP (unit_pages c @ own @ PG) st" using h by (rule heap_perm [THEN iffD1, rotated]) (simp add: p)
  then have "heap_ok (hv_off env) vw SP (unit_pages c' @ own @ PG) st'" using assms s by simp
  then show "heap_ok (hv_off env) vw SP (cell_pages c' @ PG) st'" by (rule heap_perm [THEN iffD1, rotated]) (simp add: p')
qed

lemma PAGES_bound: "0 < n \<Longrightarrow> 0 < PAGES n" "n \<le> 2 ^ 40 \<Longrightarrow> PAGES n < 2 ^ 32"
  by (auto simp: PAGES_def PAGE_SIZE_def div_greater_zero_iff)

lemma region_count: "cfg_bytes cfg < 2 ^ 32 \<Longrightarrow> length (cfg_mem_regions cfg) < 2 ^ 27"
  by (simp add: cfg_bytes_def)

lemma mmio_init_pool:
  "mmio_cell_init us mems (mem_pool st) = pool_alloc (of_nat (PAGES ((sum_list us + length (filter JAILHOUSE_MEMORY_IS_SUBPAGE mems)) * 32))) st \<bind>
     (\<lambda>(st', a). Some ((mem_pool st', a), if a = 0 then - 12 else 0,
        let m = sum_list us + length (filter JAILHOUSE_MEMORY_IS_SUBPAGE mems) in
        if a = 0 then \<lparr>mmio_locations = [], mmio_handlers = [], num_mmio_regions = 0, max_mmio_regions = m\<rparr>
        else \<lparr>mmio_locations = replicate m \<lparr>loc_start = 0, loc_size = 0\<rparr>,
               mmio_handlers = replicate m \<lparr>hnd_handler = 0, hnd_arg = 0\<rparr>, num_mmio_regions = 0, max_mmio_regions = m\<rparr>))"
  by (cases "page_alloc (mem_pool st) (of_nat (PAGES ((sum_list us + length (filter JAILHOUSE_MEMORY_IS_SUBPAGE mems)) * 32)))")
    (auto simp: mmio_cell_init_def pool_alloc_def Let_def)

lemma unat_u32: "n < 2 ^ 32 \<Longrightarrow> unat (of_nat n :: u32) = n"
  by (simp add: unat_of_nat)

lemma alloc_pool_only: "pool_alloc n st = Some (st', a) \<Longrightarrow> st\<lparr>mem_pool := mem_pool st'\<rparr> = st'"
  by (auto simp: pool_alloc_def split: bind_splits)

text \<open>A fresh structure with its CPU set and MMIO table.\<close>

definition cfg_cpus :: "cell_desc \<Rightarrow> cpu_set" where
  "cfg_cpus cfg = \<lparr>max_cpu_id = unat (cfg_cpu_set_size cfg) * 8 - 1, bitmap = sized_bitmap (unat (cfg_cpu_set_size cfg)) (cfg_cpu_set cfg)\<rparr>"

definition fresh_cell :: "'u hv_env \<Rightarrow> u64 \<Rightarrow> nat \<Rightarrow> cell_desc \<Rightarrow> hv_cell \<Rightarrow> bool" where
  "fresh_cell env a n cfg c \<longleftrightarrow> cell_addr c = a \<and> data_pages c = n \<and> config c = cfg \<and> cpu_set c = cfg_cpus cfg \<and> mmio_page c \<noteq> 0 \<and>
     PAGES (max_mmio_regions (cell_mmio c) * 32) < 2 ^ 32 \<and> cell_state (comm c) = 0 \<and> \<not> loadable c"

lemma cell_init_heap:
  assumes h: "heap_ok off vw SP (block a n @ PG) st" and d: "desc_ok env cfg" and e: "env_ok env"
  shows "\<exists>st' c err. cell_init env (new_cell a cfg n) st = Some (st', c, err) \<and>
    (err \<noteq> 0 \<longrightarrow> err < 0 \<and> heap_ok off vw SP (block a n @ PG) st') \<and> (err = 0 \<longrightarrow> fresh_cell env a n cfg c \<and> heap_ok off vw SP (cell_pages c @ PG) st')"
proof -
  define k where "k = unat (cfg_cpu_set_size cfg)"
  define us where "us = map (\<lambda>u. mmio_count_regions u cfg) (units env)"
  define m where "m = sum_list us + length (filter JAILHOUSE_MEMORY_IS_SUBPAGE (cfg_mem_regions cfg))"
  define c1 where "c1 b = (new_cell a cfg n)\<lparr>cpu_set := \<lparr>max_cpu_id = k * 8 - 1, bitmap = sized_bitmap k (cfg_cpu_set cfg)\<rparr>, cpu_set_page := b\<rparr>" for b
  have k: "0 < k" "k \<le> PAGE_SIZE - 8" using d by (simp_all add: desc_ok_def k_def word_less_nat_alt)
  have us: "0 < sum_list us" "sum_list us < 2 ^ 30" using e by (simp_all add: env_ok_def us_def)
  have "length (cfg_mem_regions cfg) < 2 ^ 27" using d by (intro region_count) (simp add: desc_ok_def)
  then have m: "0 < m" "m * 32 \<le> 2 ^ 40" using us length_filter_le [of JAILHOUSE_MEMORY_IS_SUBPAGE "cfg_mem_regions cfg"] unfolding m_def by (simp_all del: length_filter_le)
  then have pm: "0 < PAGES (m * 32)" "PAGES (m * 32) < 2 ^ 32" using PAGES_bound [of "m * 32"] by simp_all
  then have pw: "unat (of_nat (PAGES (m * 32)) :: u32) = PAGES (m * 32)" "(0 :: u32) < of_nat (PAGES (m * 32))"
    by (simp_all add: unat_u32 word_less_nat_alt)
  have one: "(0 :: u32) < 1" by simp
  define rest where "rest b st1 = pool_alloc (of_nat (PAGES (m * 32))) st1 \<bind> (\<lambda>(st2, l).
      Some (if l = 0 \<and> b \<noteq> 0 then pool_free b 1 st2 else st2, (c1 b)\<lparr>cell_mmio := (if l = 0 then \<lparr>mmio_locations = [], mmio_handlers = [], num_mmio_regions = 0, max_mmio_regions = m\<rparr>
        else \<lparr>mmio_locations = replicate m \<lparr>loc_start = 0, loc_size = 0\<rparr>, mmio_handlers = replicate m \<lparr>hnd_handler = 0, hnd_arg = 0\<rparr>,
          num_mmio_regions = 0, max_mmio_regions = m\<rparr>), mmio_page := l\<rparr>, if l = 0 then - 12 else 0 :: int))" for b st1
  have ci: "cell_init env (new_cell a cfg n) st = (if k > 8 then pool_alloc 1 st \<bind> (\<lambda>(st1, b). if b = 0 then Some (st1, new_cell a cfg n, - ENOMEM) else rest b st1) else rest 0 st)"
  proof -
    have cfgs: "config (new_cell a cfg n) = cfg" by (simp add: new_cell_def)
    have q: "mmio_cell_init us (cfg_mem_regions cfg) (mem_pool st1) \<bind> (\<lambda>((pool, loc), err, tab).
        let st2 = st1\<lparr>mem_pool := pool\<rparr>; cell2 = (c1 b)\<lparr>cell_mmio := tab, mmio_page := loc\<rparr> in
        Some (if err \<noteq> 0 \<and> b \<noteq> 0 then pool_free b 1 st2 else st2, cell2, err)) = rest b st1" for b st1
      unfolding mmio_init_pool m_def [symmetric] rest_def
      by (cases "pool_alloc (of_nat (PAGES (m * 32))) st1") (auto simp: Let_def dest: alloc_pool_only)
    have nk: "\<not> PAGE_SIZE < k" using k(2) by simp
    note ci = nk cell_init_def cfgs k_def [symmetric] us_def [symmetric] Let_def
    show ?thesis
    proof (cases "k > 8")
      case False
      then show ?thesis using k q [where b = 0 and ?st1.0 = st] by (simp add: ci c1_def)
    next
      case True
      have "b \<noteq> 0 \<Longrightarrow> pool_alloc 1 st = Some (st1, b) \<Longrightarrow> ?thesis" for st1 b
        using True k q [where b = b and ?st1.0 = st1] by (simp add: ci c1_def)
      then show ?thesis using True k by (cases "pool_alloc 1 st") (auto simp: ci)
    qed
  qed
  have rest: "\<exists>st' c err. rest b st1 = Some (st', c, err) \<and>
      (err \<noteq> 0 \<longrightarrow> err < 0 \<and> heap_ok off vw SP (block a n @ PG) st') \<and> (err = 0 \<longrightarrow> fresh_cell env a n cfg c \<and> heap_ok off vw SP (cell_pages c @ PG) st')"
    if hb: "heap_ok off vw SP ((if b \<noteq> 0 then [b] else []) @ block a n @ PG) st1" for b st1
    using hb pw(2)
  proof (cases rule: heap_alloc)
    case full
    have "heap_ok off vw SP (block a n @ PG) (if b \<noteq> 0 then pool_free b 1 st1 else st1)"
      using hb heap_free(1) [of off vw SP b 1 "block a n @ PG" st1 1] by (cases "b = 0") (simp_all add: block_Suc)
    then show ?thesis using full by (auto simp: rest_def)
  next
    case (found st2 l)
    define c where "c = (c1 b)\<lparr>cell_mmio := \<lparr>mmio_locations = replicate m \<lparr>loc_start = 0, loc_size = 0\<rparr>, mmio_handlers = replicate m \<lparr>hnd_handler = 0, hnd_arg = 0\<rparr>,
          num_mmio_regions = 0, max_mmio_regions = m\<rparr>, mmio_page := l\<rparr>"
    have "fresh_cell env a n cfg c" using found(2) pm by (simp add: fresh_cell_def c_def c1_def new_cell_def cfg_cpus_def k_def)
    moreover have "heap_ok off vw SP (cell_pages c @ PG) st2"
      using found(5) by (rule heap_perm [THEN iffD1, rotated]) (simp add: cell_pages_def c_def c1_def new_cell_def found(2) pw(1))
    moreover have "rest b st1 = Some (st2, c, 0)" using found(1,2) by (simp add: rest_def c_def)
    ultimately show ?thesis by auto
  qed
  show ?thesis
  proof (cases "k > 8")
    case False
    then show ?thesis using ci rest [of 0 st] h by simp
  next
    case True
    from h one show ?thesis
    proof (cases rule: heap_alloc)
      case full
      then show ?thesis using ci True h by (simp add: ENOMEM_def)
    next
      case (found st1 b)
      then show ?thesis using ci True rest [of b st1] by (simp add: block_Suc)
    qed
  qed
qed

lemma cell_exit_frees: "cell_exit c st =
  (let st1 = pool_free (mmio_page c) (of_nat (PAGES (max_mmio_regions (cell_mmio c) * 32))) st in if cpu_set_page c \<noteq> 0 then pool_free (cpu_set_page c) 1 st1 else st1)"
  by (simp add: cell_exit_def mmio_cell_exit_def pool_free_def split: prod.splits)

lemma cell_exit_heap:
  assumes "heap_ok off vw SP (cell_pages c @ PG) st" "mmio_page c \<noteq> 0" "PAGES (max_mmio_regions (cell_mmio c) * 32) < 2 ^ 32"
  shows "heap_ok off vw SP (block (cell_addr c) (data_pages c) @ PG) (cell_exit c st)"
proof -
  let ?n = "PAGES (max_mmio_regions (cell_mmio c) * 32)" and ?cs = "if cpu_set_page c \<noteq> 0 then [cpu_set_page c] else []"
  define st1 where "st1 = pool_free (mmio_page c) (of_nat ?n) st"
  have "heap_ok off vw SP (unit_pages c @ block (mmio_page c) ?n @ ?cs @ block (cell_addr c) (data_pages c) @ PG) st"
    using assms(1) by (rule heap_perm [THEN iffD1, rotated]) (simp add: cell_pages_def assms(2))
  then have "heap_ok off vw SP (block (mmio_page c) ?n @ ?cs @ block (cell_addr c) (data_pages c) @ PG) st"
    by (simp add: heap_ok_def)
  from heap_free(1) [OF this unat_u32 [OF assms(3)] assms(2)]
  have "heap_ok off vw SP (?cs @ block (cell_addr c) (data_pages c) @ PG) st1" by (simp add: st1_def)
  then show ?thesis
    using heap_free(1) [of off vw SP "cpu_set_page c" 1 "block (cell_addr c) (data_pages c) @ PG" st1 1]
    by (cases "cpu_set_page c = 0") (simp_all add: cell_exit_frees st1_def [symmetric] Let_def block_Suc)
qed

lemma cell_struct_heap:
  assumes "heap_ok off vw SP (block a n @ PG) st" "0 < n" "n < 2 ^ 32"
  shows "heap_ok off vw SP PG (pool_free a (of_nat n) st)" "in_pool st a"
proof -
  obtain m where m: "n = Suc m" using assms(2) by (cases n) simp_all
  have "used_page st a" using assms(1) by (simp add: heap_ok_def m block_Suc)
  then show "in_pool st a" by (rule in_pool_pages)
  have "a \<noteq> 0" using \<open>used_page st a\<close> assms(1) pages_st_ok(4) by (auto simp: heap_ok_def spaces_ok_def)
  then show "heap_ok off vw SP PG (pool_free a (of_nat n) st)" by (rule heap_free(1) [OF assms(1) unat_u32 [OF assms(3)]])
qed

text \<open>A state with the same cells and CPUs, whatever has happened to tables and devices.\<close>

definition same_cells :: "'u hv \<Rightarrow> 'u hv \<Rightarrow> bool" where
  "same_cells s s' \<longleftrightarrow> root_cell s' = root_cell s \<and> cells s' = cells s \<and> num_cells s' = num_cells s \<and>
     (\<forall>cpu. cpu_cell (cpu_data s' cpu) = cpu_cell (cpu_data s cpu))"

lemma same_cells_arch_destroy: "same_cells s (arch_cell_destroy env c s)" "pts (arch_cell_destroy env c s) = arm_paging_cell_destroy (cpu_parange env) (cell_mm c) (pts s)"
proof -
  let ?s1 = "s\<lparr>devices := cell_destroy_hook env (config c) (devices s)\<rparr>"
  have "ctl_only ?s1 (fold (\<lambda>cpu. upd_ctl cpu (\<lambda>c. c\<lparr>cpu_on_entry := PSCI_INVALID_ADDRESS\<rparr>)) (for_each_cpu (cpu_set c)) ?s1)"
    by (intro ctl_only_fold ctl_only_upd)
  from ctl_onlyD [OF this] show "same_cells s (arch_cell_destroy env c s)" "pts (arch_cell_destroy env c s) = arm_paging_cell_destroy (cpu_parange env) (cell_mm c) (pts s)"
    by (simp_all add: same_cells_def arch_cell_destroy_def Let_def)
qed

lemma cell_mm_update [simp]: "cell_pages (c\<lparr>cell_mm := mm\<rparr>) = cell_pages c" "cell_owns_cpu (c\<lparr>cell_mm := mm\<rparr>) cpu = cell_owns_cpu c cpu"
  by (simp_all add: cell_pages_def cell_owns_cpu_def)

lemma hv_inv_same:
  assumes "same_cells s s'" "hv_inv env fz spaces xs CPUS s" "hv_heap env (view fz s) spaces xs (all_cells s) (pts s')"
  shows "hv_inv env fz spaces xs CPUS s'"
  using assms ownership_cong [of s' s CPUS] by (simp add: same_cells_def view_def hv_inv_def all_cells_def)

definition struct_made :: "'u hv_env \<Rightarrow> heap_view \<Rightarrow> paging_structures list \<Rightarrow> u64 list \<Rightarrow> nat \<Rightarrow> cell_desc \<Rightarrow> 'u hv \<Rightarrow> 'u hv \<Rightarrow> hv_cell \<Rightarrow> bool" where
  "struct_made env vw SP PG this_cpu cfg s s' c \<longleftrightarrow> fresh_cell env (cell_addr c) (data_pages c) cfg c \<and> 0 < data_pages c \<and> data_pages c < 2 ^ 32 \<and>
     heap_ok (hv_off env) vw (cell_mm c # SP) (cell_pages c @ PG) (pts s') \<and> thawed vw (cell_mm c) \<and> \<not> cell_owns_cpu c this_cpu \<and>
     (\<forall>cpu. cell_owns_cpu c cpu \<longrightarrow> cell_owns_cpu (root_cell s) cpu)"

lemma create_struct_total:
  assumes h: "heap_ok (hv_off env) vw SP PG (pts s)" and d: "desc_ok env cfg" and e: "env_ok env"
  shows "\<exists>s' r. create_struct env this_cpu cfg s = Some (s', r) \<and> same_cells s s' \<and>
    (case r of Inl err \<Rightarrow> err \<noteq> 0 \<and> heap_ok (hv_off env) vw SP PG (pts s') | Inr c \<Rightarrow> struct_made env vw SP PG this_cpu cfg s s' c)"
proof -
  define n where "n = PAGES (sizeof_cell env + cfg_bytes cfg)"
  have b: "cfg_bytes cfg < 2 ^ 32" "0 < sizeof_cell env" "sizeof_cell env < 2 ^ 30" "44 \<le> cpu_parange env" using d e by (simp_all add: desc_ok_def env_ok_def)
  then have cs: "unat (jailhouse_cell_config_size cfg) = cfg_bytes cfg" by (simp add: jailhouse_cell_config_size_def unat_u32)
  have n: "0 < n" "n < 2 ^ 32" unfolding n_def using PAGES_bound [of "sizeof_cell env + cfg_bytes cfg"] b by simp_all
  have nw: "(0 :: u32) < of_nat n" "unat (of_nat n :: u32) = n" using n by (simp_all add: word_less_nat_alt unat_u32)
  note cs_def = create_struct_def cs n_def [symmetric] Let_def
  from h nw(1) show ?thesis
  proof (cases rule: heap_alloc)
    case full
    then show ?thesis using h by (simp add: cs_def same_cells_def ENOMEM_def)
  next
    case (found st a)
    have h1: "heap_ok (hv_off env) vw SP (block a n @ PG) st" using found(5) nw(2) by simp
    obtain st1 c err where i: "cell_init env (new_cell a cfg n) st = Some (st1, c, err)"
      "err \<noteq> 0 \<longrightarrow> heap_ok (hv_off env) vw SP (block a n @ PG) st1"
      "err = 0 \<longrightarrow> fresh_cell env a n cfg c \<and> heap_ok (hv_off env) vw SP (cell_pages c @ PG) st1"
      using cell_init_heap [OF h1 d e] by blast
    let ?free = "\<lambda>st. pool_free a (of_nat n) st"
    show ?thesis
    proof (cases "err = 0")
      case False
      then show ?thesis using found(1,2) b(1) i cell_struct_heap(1) [OF _ n] by (simp add: cs_def same_cells_def)
    next
      case True
      then have f: "fresh_cell env a n cfg c" and h2: "heap_ok (hv_off env) vw SP (cell_pages c @ PG) st1" using i by simp_all
      have fc: "cell_addr c = a" "data_pages c = n" "config c = cfg" "mmio_page c \<noteq> 0" "PAGES (max_mmio_regions (cell_mmio c) * 32) < 2 ^ 32"
        using f by (simp_all add: fresh_cell_def)
      have ex: "heap_ok (hv_off env) vw SP PG (?free (cell_exit c' st'))"
        if "heap_ok (hv_off env) vw SP (cell_pages c' @ PG) st'" "cell_addr c' = a" "data_pages c' = n" "mmio_page c' \<noteq> 0"
          "PAGES (max_mmio_regions (cell_mmio c') * 32) < 2 ^ 32" for c' st'
        using cell_struct_heap(1) [OF _ n] cell_exit_heap [OF that(1,4,5)] that(2,3) by simp
      have own: "list_all (cell_owns_cpu (root_cell s)) (for_each_cpu (cpu_set c)) \<longleftrightarrow> (\<forall>cpu. cell_owns_cpu c cpu \<longrightarrow> cell_owns_cpu (root_cell s) cpu)"
        using for_each_owns [of c] by (auto simp: list_all_iff)
      show ?thesis
      proof (cases "cell_owns_cpu c this_cpu \<or> \<not> (\<forall>cpu. cell_owns_cpu c cpu \<longrightarrow> cell_owns_cpu (root_cell s) cpu)")
        case True
        have "create_struct env this_cpu cfg s = Some (s\<lparr>pts := ?free (cell_exit c st1)\<rparr>, Inl (- EBUSY))"
          using found(1,2) b(1) i(1) \<open>err = 0\<close> own True by (auto simp: cs_def)
        then show ?thesis using ex [OF h2 fc(1,2,4,5)] by (simp add: same_cells_def EBUSY_def)
      next
        case False
        have cc: "create_struct env this_cpu cfg s = arch_cell_create env c (s\<lparr>pts := st1\<rparr>) \<bind> (\<lambda>(s2, cell2, err2).
          if err2 \<noteq> 0 then Some (s2\<lparr>pts := ?free (cell_exit cell2 (pts s2))\<rparr>, Inl err2)
          else let ((cell3, dv, st3), err3) = init_units (units env) [] (cell2, devices s2, pts s2); s3 = s2\<lparr>devices := dv, pts := st3\<rparr> in
            if err3 \<noteq> 0 then Some ((arch_cell_destroy env cell3 s3)\<lparr>pts := ?free (cell_exit cell3 (pts (arch_cell_destroy env cell3 s3)))\<rparr>, Inl err3) else Some (s3, Inr cell3))"
          using found(1,2) b(1) i(1) \<open>err = 0\<close> own False by (simp add: cs_def cong: if_cong)
        from h2 b(4) show ?thesis
        proof (cases rule: heap_space_init [where cid = "cfg_id cfg"])
          case (error err2 mm)
          then show ?thesis unfolding cc using ex [of "c\<lparr>cell_mm := mm\<rparr>" st1] h2 fc by (simp add: arch_cell_create_def same_cells_def)
        next
          case (space st2 mm)
          have th: "thawed vw mm" by (rule new_thawed [OF h2 space(2)])
          define s2 where "s2 = s\<lparr>pts := st2, devices := cell_create_hook env cfg (devices s)\<rparr>"
          let ?c2 = "c\<lparr>cell_mm := mm\<rparr>"
          obtain c3 dv st3 err3 where dv: "init_units (units env) [] (?c2, devices s2, pts s2) = ((c3, dv, st3), err3)" by (metis prod.collapse)
          have ue: "unit_effect env (?c2, devices s2, pts s2) (c3, dv, st3)"
            using units_init [of "units env" "[]" env "(?c2, devices s2, pts s2)"] e dv by (simp add: env_ok_def)
          note u = unit_effectD [OF ue]
          have h3: "heap_ok (hv_off env) vw (mm # SP) (cell_pages c3 @ PG) st3" using u(11) [of vw "mm # SP" PG] space(2) th by (simp add: s2_def)
          have c3: "cell_addr c3 = a" "data_pages c3 = n" "mmio_page c3 \<noteq> 0" "PAGES (max_mmio_regions (cell_mmio c3) * 32) < 2 ^ 32" "cell_mm c3 = mm"
            using u fc by simp_all
          define s3 where "s3 = s2\<lparr>devices := dv, pts := st3\<rparr>"
          have sc: "same_cells s s3" "pts s3 = st3" by (simp_all add: s3_def s2_def same_cells_def)
          have ac: "arch_cell_create env c (s\<lparr>pts := st1\<rparr>) = Some (s2, ?c2, 0)" using space(1) fc(3) by (simp add: arch_cell_create_def s2_def)
          show ?thesis
          proof (cases "err3 = 0")
            case True
            have "struct_made env vw SP PG this_cpu cfg s s3 c3"
              using h3 th f n False sc(2) u c3 by (simp add: struct_made_def fresh_cell_def)
            then show ?thesis unfolding cc ac using True dv sc(1) by (simp add: s3_def)
          next
            case False
            let ?s4 = "arch_cell_destroy env c3 s3"
            have "heap_ok (hv_off env) vw SP (cell_pages c3 @ PG) (pts ?s4)"
              using heap_space_exit(1) [OF h3 th b(4)] by (simp add: same_cells_arch_destroy sc(2) c3(5))
            from ex [OF this c3(1-4)] show ?thesis unfolding cc ac using False dv same_cells_arch_destroy(1) [of s3 env c3] sc(1)
              by (simp add: s3_def same_cells_def Let_def)
          qed
        qed
      qed
    qed
  qed
qed

subsection \<open>Removal of a cell\<close>

lemma same_cells_trans: "same_cells s s1 \<Longrightarrow> same_cells s1 s2 \<Longrightarrow> same_cells s s2"
  by (simp add: same_cells_def)

lemma same_cells_dev: "dev_only s s' \<Longrightarrow> same_cells s s'"
  by (simp add: same_cells_def dev_only_def)

lemma same_cells_inv: "cell_inv env vw sp pg s0 cell s \<Longrightarrow> same_cells s0 s"
  unfolding cell_inv_def mem_inv_def same_cells_def
  by (metis (no_types, lifting) hv.select_convs(2-5) hv.surjective hv.update_convs(1))

text \<open>What \<open>cell_destroy_internal\<close> needs of the cell and the heap around it.\<close>

definition doomed :: "'u hv_env \<Rightarrow> heap_view \<Rightarrow> paging_structures list \<Rightarrow> u64 list \<Rightarrow> hv_cell \<Rightarrow> 'u hv \<Rightarrow> bool" where
  "doomed env vw SP PG c s \<longleftrightarrow> heap_ok (hv_off env) vw (cell_mm c # SP) (cell_pages c @ PG) (pts s) \<and>
     cell_mm (root_cell s) \<in> set SP \<and> thawed vw (cell_mm (root_cell s)) \<and> thawed vw (cell_mm c) \<and> root_ok (root_cell s) \<and> desc_ok env (config c) \<and> 0 < data_pages c \<and> data_pages c < 2 ^ 32 \<and>
     mmio_page c \<noteq> 0 \<and> PAGES (max_mmio_regions (cell_mmio c) * 32) < 2 ^ 32 \<and>
     in_bitmap (cpu_set (root_cell s)) \<and> (\<forall>cpu. cell_owns_cpu c cpu \<longrightarrow> cpu \<le> max_cpu_id (cpu_set (root_cell s)))"

lemma destroy_memory_total:
  assumes "cell_inv env vw sp pg s0 cell s" "desc_ok env (config cell)"
  shows "\<exists>s1 s2 err. destroy_regions env cell (cfg_mem_regions (config cell)) s = Some s1 \<and>
    colored_loop (mask_end env) (colors env) (no_col_functions\<lparr>destroy_unmap_f := lift_cb (cell_unmap env cell),
       destroy_remap_root_f := (\<lambda>mem mode. lift_cb (\<lambda>mem. remap_to_root_cell env mem mode) mem)\<rparr>) DESTROY False (cfg_col_regions (config cell)) s1 = Some (s2, err) \<and>
    cell_inv env vw sp pg s0 cell s2"
proof -
  obtain s1 where s1: "destroy_regions env cell (cfg_mem_regions (config cell)) s = Some s1" "cell_inv env vw sp pg s0 cell s1"
    using destroy_regions_total [OF assms(1), of "cfg_mem_regions (config cell)"] assms(2) by (auto simp: desc_ok_def)
  then show ?thesis
    using frag_destroy.colored [OF s1(2), of "cfg_col_regions (config cell)" "mask_end env" "colors env" False] assms(2) by (auto simp: desc_ok_def)
qed

lemma destroy_internal_total:
  assumes "doomed env vw SP PG c s" "env_ok env"
  shows "\<exists>s1 s'. cell_destroy_internal env this_cpu c s = Some s' \<and> moved True (cell_addr (root_cell s)) {cpu. cell_owns_cpu c cpu} s s1 \<and>
    same_cells s1 s' \<and> heap_ok (hv_off env) vw SP (block (cell_addr c) (data_pages c) @ PG) (pts s')"
proof -
  let ?r = "cell_addr (root_cell s)" and ?sp = "cell_mm c # SP" and ?pg = "cell_pages c @ PG"
  have d: "heap_ok (hv_off env) vw ?sp ?pg (pts s)" "cell_mm (root_cell s) \<in> set SP" "root_ok (root_cell s)" "desc_ok env (config c)"
    "0 < data_pages c" "mmio_page c \<noteq> 0" "PAGES (max_mmio_regions (cell_mmio c) * 32) < 2 ^ 32"
    "in_bitmap (cpu_set (root_cell s))" "\<forall>cpu\<in>set (for_each_cpu (cpu_set c)). cpu \<le> max_cpu_id (cpu_set (root_cell s))"
    "thawed vw (cell_mm (root_cell s))" "thawed vw (cell_mm c)"
    using assms(1) for_each_owns [of c] by (simp_all add: doomed_def)
  have "\<And>cpu s. in_bitmap (cpu_set (root_cell s)) \<Longrightarrow> cpu \<le> max_cpu_id (cpu_set (root_cell s)) \<Longrightarrow> cell_addr (root_cell s) = ?r \<Longrightarrow>
      \<exists>s'. give_cpu env cpu s = Some s' \<and> moved True ?r {cpu} s s'" using give_cpu_moved by metis
  from each_cpu_moved [OF this d(8,9)] obtain s1 where s1: "each_cpu (give_cpu env) (for_each_cpu (cpu_set c)) s = Some s1"
    "moved True ?r {cpu. cell_owns_cpu c cpu} s s1" using for_each_owns [of c] by auto
  note m = movedD [OF s1(2)]
  have "cell_addr c \<in> set ?pg" using d(5) by (cases "data_pages c") (simp_all add: cell_pages_def block_Suc)
  moreover have "root_ok (root_cell s1)" using d(3) m(4) by (simp add: root_ok_def)
  ultimately have i: "cell_inv env vw ?sp ?pg s1 c s1" using d(1,2,10,11) m(1,6) by (simp add: cell_inv_def mem_inv_def)
  obtain s2 s3 err where s3: "destroy_regions env c (cfg_mem_regions (config c)) s1 = Some s2"
    "colored_loop (mask_end env) (colors env) (no_col_functions\<lparr>destroy_unmap_f := lift_cb (cell_unmap env c),
       destroy_remap_root_f := (\<lambda>mem mode. lift_cb (\<lambda>mem. remap_to_root_cell env mem mode) mem)\<rparr>) DESTROY False (cfg_col_regions (config c)) s2 = Some (s3, err)"
    "cell_inv env vw ?sp ?pg s1 c s3" using destroy_memory_total [OF i d(4)] by blast
  obtain c1 dv st4 where ex: "fold unit_cell_exit (rev (units env)) (c, devices s3, pts s3) = (c1, dv, st4)" by (metis prod.collapse)
  have "unit_effect env (c, devices s3, pts s3) (c1, dv, st4)"
    using units_exit [of "rev (units env)" env "(c, devices s3, pts s3)"] assms(2) ex by (simp add: env_ok_def)
  note u = unit_effectD [OF this]
  define s4 where "s4 = s3\<lparr>devices := dv, pts := st4\<rparr>"
  define s5 where "s5 = config_commit env this_cpu (Some c1) (arch_cell_destroy env c1 s4)"
  have p5: "pts s5 = arm_paging_cell_destroy (cpu_parange env) (cell_mm c1) st4"
    using dev_only_commit [of "arch_cell_destroy env c1 s4" env this_cpu "Some c1"] by (simp add: s5_def dev_only_def same_cells_arch_destroy(2) s4_def)
  have "same_cells s1 s4" using same_cells_inv [OF s3(3)] by (simp add: s4_def same_cells_def)
  moreover have "same_cells s4 s5" unfolding s5_def
    by (rule same_cells_trans [OF same_cells_arch_destroy(1) same_cells_dev [OF dev_only_commit]])
  ultimately have sc: "same_cells s1 (s5\<lparr>pts := cell_exit c1 (pts s5)\<rparr>)" by (simp add: same_cells_def)
  have "heap_ok (hv_off env) vw ?sp ?pg (pts s3)" using s3(3) by (simp add: cell_inv_def mem_inv_def)
  then have "heap_ok (hv_off env) vw ?sp (cell_pages c1 @ PG) st4" using u(11) d(11) by simp
  from heap_space_exit(1) [OF this d(11), of "cpu_parange env"] have "heap_ok (hv_off env) vw SP (cell_pages c1 @ PG) (pts s5)"
    using assms(2) by (simp add: p5 env_ok_def u(4))
  from cell_exit_heap [OF this] show ?thesis
    using s1 s3(1,2) sc ex u d(6,7) by (auto simp: cell_destroy_internal_def Let_def s4_def [symmetric] s5_def [symmetric])
qed

end
