(* ===== verification/CellManagement.thy ===== *)
theory CellManagement
  imports CellOps
begin

text \<open>
  The invariant over the management operations and hypercalls: every CPU in one cell, unique ids and names, no page with two
  uses; what each operation does to cells, CPUs and address spaces; who may call it; the agreement of the CPUs on a shutdown.
\<close>

subsection \<open>CPUs that change hands\<close>

lemma ownershipD:
  assumes "ownership CPUS s"
  shows "cell_owns_cpu (root_cell s) cpu \<Longrightarrow> cpu_cell (cpu_data s cpu) = cell_addr (root_cell s)"
    "c \<in> set (cells s) \<Longrightarrow> cell_owns_cpu c cpu \<Longrightarrow> cpu_cell (cpu_data s cpu) = cell_addr c"
    "cpu \<in> CPUS \<longleftrightarrow> cell_owns_cpu (root_cell s) cpu \<or> (\<exists>c\<in>set (cells s). cell_owns_cpu c cpu)"
    "cpu \<in> CPUS \<Longrightarrow> cpu \<le> max_cpu_id (cpu_set (root_cell s))" "in_bitmap (cpu_set (root_cell s))"
  using assms by (auto simp: ownership_def all_cells_def)

lemma ownershipI:
  assumes "\<And>cpu. cell_owns_cpu (root_cell s) cpu \<Longrightarrow> cpu_cell (cpu_data s cpu) = cell_addr (root_cell s)"
    "\<And>c cpu. c \<in> set (cells s) \<Longrightarrow> cell_owns_cpu c cpu \<Longrightarrow> cpu_cell (cpu_data s cpu) = cell_addr c"
    "\<And>cpu. cpu \<in> CPUS \<longleftrightarrow> cell_owns_cpu (root_cell s) cpu \<or> (\<exists>c\<in>set (cells s). cell_owns_cpu c cpu)"
    "\<And>cpu. cpu \<in> CPUS \<Longrightarrow> cpu \<le> max_cpu_id (cpu_set (root_cell s))" "in_bitmap (cpu_set (root_cell s))"
  shows "ownership CPUS s"
  using assms by (auto simp: ownership_def all_cells_def)

lemma moved_root: "moved b a cs s s' \<Longrightarrow>
  cell_owns_cpu (root_cell s') cpu \<longleftrightarrow> (if cpu \<in> cs then b \<and> cpu \<le> max_cpu_id (cpu_set (root_cell s)) else cell_owns_cpu (root_cell s) cpu)"
  by (auto simp: movedD(11) cell_owns_cpu_def [of "root_cell s"])

text \<open>CPUs that go to a new cell, CPUs that come back from a cell, and both at once.\<close>

lemma ownership_take:
  assumes o: "ownership CPUS s" and sub: "\<forall>cpu. cell_owns_cpu c cpu \<longrightarrow> cell_owns_cpu (root_cell s) cpu"
    and mv: "moved False (cell_addr c) {cpu. cell_owns_cpu c cpu} s s1" and dis: "distinct (map cell_addr (all_cells s))"
    and s': "root_cell s' = root_cell s1" "cells s' = cells s1 @ [c']" "\<forall>cpu. cpu_cell (cpu_data s' cpu) = cpu_cell (cpu_data s1 cpu)"
    and c': "cell_addr c' = cell_addr c" "cpu_set c' = cpu_set c"
  shows "ownership CPUS s'"
proof -
  note m = movedD [OF mv] and d = ownershipD [OF o]
  have oc: "cell_owns_cpu c' cpu = cell_owns_cpu c cpu" for cpu using c'(2) by (simp add: cell_owns_cpu_def)
  have r: "cell_owns_cpu (root_cell s') cpu \<longleftrightarrow> cell_owns_cpu (root_cell s) cpu \<and> \<not> cell_owns_cpu c cpu" for cpu
    by (simp add: s'(1) moved_root [OF mv])
  have excl: "\<not> (cell_owns_cpu x cpu \<and> cell_owns_cpu c cpu)" if "x \<in> set (cells s)" for x cpu
    using that sub d(1,2) dis by (force simp: all_cells_def)
  show ?thesis
  proof (rule ownershipI)
    fix cpu
    show "cpu \<in> CPUS \<longleftrightarrow> cell_owns_cpu (root_cell s') cpu \<or> (\<exists>x\<in>set (cells s'). cell_owns_cpu x cpu)" using d(3) [of cpu] sub r oc by (auto simp: s'(2) m(2))
    show "cpu_cell (cpu_data s' cpu) = cell_addr (root_cell s')" if "cell_owns_cpu (root_cell s') cpu" using that d(1) r s' m(5) by (simp add: m(8))
    show "cpu_cell (cpu_data s' cpu) = cell_addr x" if "x \<in> set (cells s')" "cell_owns_cpu x cpu" for x
      using that d(2) excl oc s'(3) c'(1) by (auto simp: s'(2) m(2,8))
  qed (use d(4,5) m(9,10) s'(1) in simp_all)
qed

lemma ownership_give:
  assumes o: "ownership CPUS s" and c: "c \<in> set (cells s)" and dis: "distinct (map cell_addr (all_cells s))"
    and mv: "moved True (cell_addr (root_cell s)) {cpu. cell_owns_cpu c cpu} s s1"
    and s': "root_cell s' = root_cell s1" "cells s' = filter (\<lambda>x. cell_addr x \<noteq> cell_addr c) (cells s1)" "\<forall>cpu. cpu_cell (cpu_data s' cpu) = cpu_cell (cpu_data s1 cpu)"
  shows "ownership CPUS s'"
proof -
  note m = movedD [OF mv] and d = ownershipD [OF o]
  have le: "cpu \<le> max_cpu_id (cpu_set (root_cell s))" if "cell_owns_cpu c cpu" for cpu using d(3,4) that c by blast
  have r: "cell_owns_cpu (root_cell s') cpu \<longleftrightarrow> cell_owns_cpu (root_cell s) cpu \<or> cell_owns_cpu c cpu" for cpu
    using le by (auto simp: s'(1) moved_root [OF mv])
  have cs: "x \<in> set (cells s') \<longleftrightarrow> x \<in> set (cells s) \<and> x \<noteq> c" for x
  proof -
    have "distinct (map cell_addr (cells s))" using dis by (simp add: all_cells_def)
    then show ?thesis using c by (auto simp: s'(2) m(2) distinct_map inj_on_def)
  qed
  have excl: "\<not> (cell_owns_cpu x cpu \<and> cell_owns_cpu c cpu)" if "x \<in> set (cells s')" for x cpu
  proof -
    have "x \<in> set (cells s)" "cell_addr x \<noteq> cell_addr c" using that by (simp_all add: s'(2) m(2))
    then show ?thesis using d(2) c by metis
  qed
  show ?thesis
  proof (rule ownershipI)
    fix cpu
    show "cpu \<in> CPUS \<longleftrightarrow> cell_owns_cpu (root_cell s') cpu \<or> (\<exists>x\<in>set (cells s'). cell_owns_cpu x cpu)" unfolding d(3) [of cpu] r using cs c by metis
    show "cpu_cell (cpu_data s' cpu) = cell_addr (root_cell s')" if "cell_owns_cpu (root_cell s') cpu" using that d(1) r s'(1,3) m(5) by (auto simp: m(8))
    show "cpu_cell (cpu_data s' cpu) = cell_addr x" if "x \<in> set (cells s')" "cell_owns_cpu x cpu" for x
      using that d(2) excl cs s'(3) m(8) by (metis mem_Collect_eq)
  qed (use d(4,5) m(9,10) s'(1) in simp_all)
qed

lemma ownership_back:
  assumes o: "ownership CPUS s" and sub: "\<forall>cpu. cell_owns_cpu c cpu \<longrightarrow> cell_owns_cpu (root_cell s) cpu"
    and mv: "moved False a {cpu. cell_owns_cpu c cpu} s s1" "moved True (cell_addr (root_cell s)) {cpu. cell_owns_cpu c cpu} s2 s3" and sc: "same_cells s1 s2"
    and s': "root_cell s' = root_cell s3" "cells s' = cells s3" "\<forall>cpu. cpu_cell (cpu_data s' cpu) = cpu_cell (cpu_data s3 cpu)"
  shows "ownership CPUS s'" "cell_owns_cpu (root_cell s') cpu = cell_owns_cpu (root_cell s) cpu" "cpu_cell (cpu_data s' cpu) = cpu_cell (cpu_data s cpu)"
proof -
  note m = movedD [OF mv(1)] and n = movedD [OF mv(2)] and d = ownershipD [OF o]
  have eq: "root_cell s2 = root_cell s1" "cells s2 = cells s1" "\<And>cpu. cpu_cell (cpu_data s2 cpu) = cpu_cell (cpu_data s1 cpu)" using sc by (simp_all add: same_cells_def)
  have r: "cell_owns_cpu (root_cell s') cpu = cell_owns_cpu (root_cell s) cpu" for cpu
    using sub by (auto simp: s'(1) moved_root [OF mv(2)] moved_root [OF mv(1)] eq m(9) cell_owns_cpu_def [of "root_cell s"])
  have p: "cpu_cell (cpu_data s' cpu) = cpu_cell (cpu_data s cpu)" for cpu
    using d(1) sub s'(3) by (simp add: n(8) m(8) eq(3))
  have a: "cell_addr (root_cell s') = cell_addr (root_cell s)" "cells s' = cells s" by (simp_all add: s' n m eq)
  show "ownership CPUS s'" by (rule ownershipI) (use d r p a s'(1) n(9,10) m(9,10) eq(1) in auto)
  show "cell_owns_cpu (root_cell s') cpu = cell_owns_cpu (root_cell s) cpu" "cpu_cell (cpu_data s' cpu) = cpu_cell (cpu_data s cpu)" by (rule r p)+
qed

subsection \<open>Cells that come and go\<close>

lemma mset_filter_out: "distinct (map f xs) \<Longrightarrow> c \<in> set xs \<Longrightarrow> mset xs = add_mset c (mset (filter (\<lambda>x. f x \<noteq> f c) xs))"
proof (induction xs)
  case (Cons x xs)
  show ?case
  proof (cases "x = c")
    case True
    then have "f c \<notin> f ` set xs" using Cons.prems(1) by simp
    then have "filter (\<lambda>y. f y \<noteq> f c) xs = xs" by (intro filter_True) (metis image_eqI)
    then show ?thesis using True by simp
  next
    case False
    then have "c \<in> set xs" "f x \<noteq> f c" using Cons.prems by auto
    then show ?thesis using Cons by simp
  qed
qed simp

lemma hv_invD:
  assumes "hv_inv env fz spaces xs CPUS s"
  shows "heap_ok (hv_off env) (view fz s) (map cell_mm (all_cells s) @ spaces) (concat (map cell_pages (all_cells s)) @ xs) (pts s)"
    "ownership CPUS s" "distinct (map cell_addr (all_cells s))" "root_ok (root_cell s)" "c \<in> set (cells s) \<Longrightarrow> cell_ok env c \<and> 0 < data_pages c"
  using assms by (auto simp: hv_inv_def hv_heap_def)

lemma addr_in_pages: "0 < data_pages c \<Longrightarrow> cell_addr c \<in> set (cell_pages c)"
  by (cases "data_pages c") (simp_all add: cell_pages_def block_Suc)

lemma hv_inv_add:
  assumes inv: "hv_inv env fz spaces xs CPUS s"
    and heap: "heap_ok (hv_off env) (view fz s) (cell_mm c # map cell_mm (all_cells s) @ spaces) (cell_pages c @ concat (map cell_pages (all_cells s)) @ xs) (pts s')"
    and c: "cell_ok env c" "0 < data_pages c" "\<forall>x\<in>set (all_cells s). cfg_id (config x) \<noteq> cfg_id (config c) \<and> cfg_name (config x) \<noteq> cfg_name (config c)"
    and sub: "\<forall>cpu. cell_owns_cpu c cpu \<longrightarrow> cell_owns_cpu (root_cell s) cpu"
    and mv: "moved False (cell_addr c) {cpu. cell_owns_cpu c cpu} s s1"
    and s': "root_cell s' = root_cell s1" "cells s' = cells s1 @ [c]" "num_cells s' = num_cells s1 + 1" "\<forall>cpu. cpu_cell (cpu_data s' cpu) = cpu_cell (cpu_data s1 cpu)"
  shows "hv_inv env fz spaces xs CPUS s'"
proof -
  note m = movedD [OF mv] and d = hv_invD [OF inv]
  have vw: "view fz s' = view fz s" by (simp add: view_def s'(1) m(5))
  have "hv_heap env (view fz s') spaces xs (all_cells s') (pts s')"
  proof -
    have "mset (map cell_mm (all_cells s') @ spaces) = mset (cell_mm c # map cell_mm (all_cells s) @ spaces)"
      "mset (concat (map cell_pages (all_cells s')) @ xs) = mset (cell_pages c @ concat (map cell_pages (all_cells s)) @ xs)"
      by (simp_all add: all_cells_def s' m)
    then show ?thesis unfolding hv_heap_def vw using heap heap_perm heap_spaces_perm by metis
  qed
  moreover have "ownership CPUS s'" by (rule ownership_take [OF d(2) sub mv d(3) s'(1,2,4) refl refl])
  moreover have "distinct (map cell_addr (all_cells s'))"
  proof -
    have u: "used_page (pts s') (cell_addr c)" "\<not> in_pool (pts s') (cell_addr (root_cell s))"
      using heap addr_in_pages [OF c(2)] by (auto simp: heap_ok_def view_def)
    have "cell_addr x \<noteq> cell_addr c" if "x \<in> set (cells s)" for x
    proof -
      have "cell_addr x \<in> set (cell_pages x)" using that d(5) by (intro addr_in_pages) simp
      then have "cell_addr x \<in> set (concat (map cell_pages (all_cells s)))" using that by (auto simp: all_cells_def)
      moreover have "set (cell_pages c) \<inter> set (concat (map cell_pages (all_cells s))) = {}" using heap unfolding heap_ok_def distinct_append by auto
      ultimately show ?thesis using addr_in_pages [OF c(2)] by (metis IntI empty_iff)
    qed
    moreover have "cell_addr (root_cell s) \<noteq> cell_addr c" using u in_pool_pages(1) by metis
    ultimately have "cell_addr c \<notin> cell_addr ` set (all_cells s)" unfolding all_cells_def by fastforce
    then show ?thesis using d(3) by (auto simp: all_cells_def s' m)
  qed
  moreover have "distinct (map (\<lambda>c. cfg_id (config c)) (all_cells s'))" "distinct (map (\<lambda>c. cfg_name (config c)) (all_cells s'))"
    using inv c(3) by (auto simp: hv_inv_def all_cells_def s' m)
  moreover have "num_cells s' = of_nat (length (all_cells s'))" using inv by (simp add: hv_inv_def all_cells_def s' m)
  moreover have "\<forall>x\<in>set (cells s'). cell_ok env x \<and> 0 < data_pages x" using d(5) c by (auto simp: s' m)
  moreover have "root_ok (root_cell s')" using d(4) by (simp add: root_ok_def s'(1) m(4))
  ultimately show ?thesis unfolding hv_inv_def by blast
qed

lemma hv_inv_remove:
  assumes inv: "hv_inv env fz spaces xs CPUS s" and c: "c \<in> set (cells s)"
    and heap: "heap_ok (hv_off env) (view fz s) (map cell_mm (root_cell s # filter (\<lambda>x. cell_addr x \<noteq> cell_addr c) (cells s)) @ spaces)
      (concat (map cell_pages (root_cell s # filter (\<lambda>x. cell_addr x \<noteq> cell_addr c) (cells s))) @ xs) (pts s')"
    and mv: "moved True (cell_addr (root_cell s)) {cpu. cell_owns_cpu c cpu} s s1"
    and s': "root_cell s' = root_cell s1" "cells s' = filter (\<lambda>x. cell_addr x \<noteq> cell_addr c) (cells s1)" "num_cells s' = num_cells s1 - 1"
      "\<forall>cpu. cpu_cell (cpu_data s' cpu) = cpu_cell (cpu_data s1 cpu)"
  shows "hv_inv env fz spaces xs CPUS s'"
proof -
  note m = movedD [OF mv] and d = hv_invD [OF inv]
  have vw: "view fz s' = view fz s" by (simp add: view_def s'(1) m(5))
  have dis: "distinct (map cell_addr (cells s))" using d(3) by (simp add: all_cells_def)
  have "hv_heap env (view fz s') spaces xs (all_cells s') (pts s')" unfolding hv_heap_def vw using heap by (simp add: all_cells_def s' m)
  moreover have "ownership CPUS s'" by (rule ownership_give [OF d(2) c d(3) mv s'(1,2,4)])
  moreover have "distinct (map cell_addr (all_cells s'))" "distinct (map (\<lambda>c. cfg_id (config c)) (all_cells s'))" "distinct (map (\<lambda>c. cfg_name (config c)) (all_cells s'))"
    using inv by (auto simp: hv_inv_def all_cells_def s' m intro: distinct_map_filter)
  moreover have "num_cells s' = of_nat (length (all_cells s'))"
  proof -
    have "length (cells s) = Suc (length (cells s'))" using arg_cong [OF mset_filter_out [OF dis c], of "size"] unfolding size_mset size_add_mset s'(2) m(2) .
    then show ?thesis using inv by (simp add: hv_inv_def all_cells_def s'(3) m(3))
  qed
  moreover have "\<forall>x\<in>set (cells s'). cell_ok env x \<and> 0 < data_pages x" using d(5) by (auto simp: s' m)
  moreover have "root_ok (root_cell s')" using d(4) by (simp add: root_ok_def s'(1) m(4))
  ultimately show ?thesis unfolding hv_inv_def by blast
qed

subsection \<open>Creation\<close>

definition cells_kept :: "'u hv \<Rightarrow> 'u hv \<Rightarrow> bool" where
  "cells_kept s s' \<longleftrightarrow> cells s' = cells s \<and> config (root_cell s') = config (root_cell s) \<and>
     (\<forall>cpu. cell_owns_cpu (root_cell s') cpu = cell_owns_cpu (root_cell s) cpu \<and> cpu_cell (cpu_data s' cpu) = cpu_cell (cpu_data s cpu))"

definition cell_added :: "cell_desc \<Rightarrow> 'u hv \<Rightarrow> 'u hv \<Rightarrow> bool" where
  "cell_added cfg s s' \<longleftrightarrow> (\<exists>c. map strip (cells s') = map strip (cells s @ [c]) \<and> config c = cfg \<and> cpu_set c = cfg_cpus cfg \<and> \<not> loadable c \<and>
     config (root_cell s') = config (root_cell s) \<and> (\<forall>cpu. cell_owns_cpu c cpu \<longrightarrow> cell_owns_cpu (root_cell s) cpu) \<and>
     (\<forall>cpu. cell_owns_cpu (root_cell s') cpu \<longleftrightarrow> cell_owns_cpu (root_cell s) cpu \<and> \<not> cell_owns_cpu c cpu))"

lemma heap_weaken: "heap_ok off vw (p # SP) (ys @ PG) st \<Longrightarrow> thawed vw p \<Longrightarrow> heap_ok off vw SP PG st"
  using heap_drop_space [of off vw p SP "ys @ PG" st] by (auto simp: heap_ok_def)

lemma hv_inv_back:
  assumes inv: "hv_inv env fz spaces xs CPUS s" and sub: "\<forall>cpu. cell_owns_cpu c cpu \<longrightarrow> cell_owns_cpu (root_cell s) cpu"
    and mv: "moved False a {cpu. cell_owns_cpu c cpu} s s1" "moved True (cell_addr (root_cell s)) {cpu. cell_owns_cpu c cpu} s2 s3" and sc: "same_cells s1 s2"
    and s': "root_cell s' = root_cell s3" "cells s' = cells s3" "num_cells s' = num_cells s3" "\<forall>cpu. cpu_cell (cpu_data s' cpu) = cpu_cell (cpu_data s3 cpu)"
    and heap: "heap_ok (hv_off env) (view fz s) (map cell_mm (all_cells s) @ spaces) (concat (map cell_pages (all_cells s)) @ xs) (pts s')"
  shows "hv_inv env fz spaces xs CPUS s'" "cells_kept s s'"
proof -
  note m = movedD [OF mv(1)] and n = movedD [OF mv(2)] and d = hv_invD [OF inv]
  note b = ownership_back [OF d(2) sub mv sc s'(1,2,4)]
  have eq: "root_cell s2 = root_cell s1" "cells s2 = cells s1" "num_cells s2 = num_cells s1" using sc by (simp_all add: same_cells_def)
  have r: "cell_addr (root_cell s') = cell_addr (root_cell s)" "config (root_cell s') = config (root_cell s)" "cell_mm (root_cell s') = cell_mm (root_cell s)"
    "cell_pages (root_cell s') = cell_pages (root_cell s)" "cells s' = cells s" "num_cells s' = num_cells s" by (simp_all add: s' n m eq)
  show "cells_kept s s'" using b(2,3) r by (simp add: cells_kept_def)
  have "hv_heap env (view fz s') spaces xs (all_cells s') (pts s')" using heap by (simp add: hv_heap_def view_def all_cells_def r)
  then show "hv_inv env fz spaces xs CPUS s'" using inv b(1) by (simp add: hv_inv_def all_cells_def r root_ok_def)
qed

text \<open>The state \<open>s2\<close> in which the CPUs have been taken and \<open>s3\<close> after the attempt to map the regions.\<close>

definition in_creation :: "'u hv_env \<Rightarrow> (paging_structures \<rightharpoonup> (u64 \<Rightarrow> (u64 \<times> u64) option)) \<Rightarrow> paging_structures list \<Rightarrow> u64 list \<Rightarrow> nat \<Rightarrow> cell_desc \<Rightarrow>
    'u hv \<Rightarrow> hv_cell \<Rightarrow> 'u hv \<Rightarrow> 'u hv \<Rightarrow> bool" where
  "in_creation env fz SP PG this_cpu cfg s c s2 s3 \<longleftrightarrow> struct_made env (view fz s) SP PG this_cpu cfg s s c \<and>
     moved False (cell_addr c) {cpu. cell_owns_cpu c cpu} s s2 \<and> cell_inv env (view fz s) (cell_mm c # SP) (cell_pages c @ PG) s2 c s3"

abbreviation hv_spaces :: "'u hv \<Rightarrow> paging_structures list \<Rightarrow> paging_structures list" where
  "hv_spaces s spaces \<equiv> map cell_mm (all_cells s) @ spaces"

abbreviation hv_pages :: "'u hv \<Rightarrow> u64 list \<Rightarrow> u64 list" where
  "hv_pages s xs \<equiv> concat (map cell_pages (all_cells s)) @ xs"

lemma in_creationD:
  assumes "in_creation env fz SP PG this_cpu cfg s c s2 s3"
  shows "fresh_cell env (cell_addr c) (data_pages c) cfg c" "0 < data_pages c" "data_pages c < 2 ^ 32"
    "thawed (view fz s) (cell_mm c)" "\<forall>cpu. cell_owns_cpu c cpu \<longrightarrow> cell_owns_cpu (root_cell s) cpu" "moved False (cell_addr c) {cpu. cell_owns_cpu c cpu} s s2"
    "same_cells s2 s3" "heap_ok (hv_off env) (view fz s) (cell_mm c # SP) (cell_pages c @ PG) (pts s3)"
    "config c = cfg" "cpu_set c = cfg_cpus cfg" "mmio_page c \<noteq> 0" "PAGES (max_mmio_regions (cell_mmio c) * 32) < 2 ^ 32" "\<not> loadable c"
    "root_cell s3 = root_cell s2" "cells s3 = cells s" "num_cells s3 = num_cells s" "cpu_cell (cpu_data s3 cpu) = cpu_cell (cpu_data s2 cpu)"
proof -
  have a: "struct_made env (view fz s) SP PG this_cpu cfg s s c" "moved False (cell_addr c) {cpu. cell_owns_cpu c cpu} s s2"
    "cell_inv env (view fz s) (cell_mm c # SP) (cell_pages c @ PG) s2 c s3" using assms by (simp_all add: in_creation_def)
  show m: "moved False (cell_addr c) {cpu. cell_owns_cpu c cpu} s s2" by (rule a(2))
  show sc: "same_cells s2 s3" by (rule same_cells_inv [OF a(3)])
  show "root_cell s3 = root_cell s2" "cells s3 = cells s" "num_cells s3 = num_cells s" "cpu_cell (cpu_data s3 cpu) = cpu_cell (cpu_data s2 cpu)"
    using sc movedD(2,3) [OF m] by (simp_all add: same_cells_def)
  show "heap_ok (hv_off env) (view fz s) (cell_mm c # SP) (cell_pages c @ PG) (pts s3)" using a(3) by (simp add: cell_inv_def mem_inv_def)
qed (use assms in \<open>simp_all add: in_creation_def struct_made_def fresh_cell_def\<close>)

lemma create_undo:
  assumes inv: "hv_inv env fz spaces xs CPUS s" and th: "thawed (view fz s) (cell_mm (root_cell s))" and e: "env_ok env" and ds: "desc_ok env cfg"
    and cr: "in_creation env fz (hv_spaces s spaces) (hv_pages s xs) this_cpu cfg s c s2 s3"
  shows "\<exists>s4. cell_destroy_internal env this_cpu c s3 = Some s4 \<and>
    hv_inv env fz spaces xs CPUS (s4\<lparr>pts := pool_free (cell_addr c) (of_nat (data_pages c)) (pts s4)\<rparr>) \<and>
    cells_kept s (s4\<lparr>pts := pool_free (cell_addr c) (of_nat (data_pages c)) (pts s4)\<rparr>)"
proof -
  note c = in_creationD [OF cr] and d = hv_invD [OF inv] and o = ownershipD [OF hv_invD(2) [OF inv]]
  note m = movedD [OF c(6)]
  have le: "cpu \<le> max_cpu_id (cpu_set (root_cell s))" if "cell_owns_cpu c cpu" for cpu using that c(5) by (simp add: cell_owns_cpu_def)
  have "doomed env (view fz s) (hv_spaces s spaces) (hv_pages s xs) c s3"
    using c(2-4,8,9,11,12) d(4) th ds le o(5) by (simp add: doomed_def c(14) m all_cells_def root_ok_def)
  then obtain s4 s5 where s5: "cell_destroy_internal env this_cpu c s3 = Some s5" "moved True (cell_addr (root_cell s3)) {cpu. cell_owns_cpu c cpu} s3 s4"
    "same_cells s4 s5" "heap_ok (hv_off env) (view fz s) (hv_spaces s spaces) (block (cell_addr c) (data_pages c) @ hv_pages s xs) (pts s5)"
    using destroy_internal_total [OF _ e] by blast
  define s6 where "s6 = s5\<lparr>pts := pool_free (cell_addr c) (of_nat (data_pages c)) (pts s5)\<rparr>"
  have q: "root_cell s6 = root_cell s4" "cells s6 = cells s4" "num_cells s6 = num_cells s4" "\<forall>cpu. cpu_cell (cpu_data s6 cpu) = cpu_cell (cpu_data s4 cpu)"
    using s5(3) by (simp_all add: s6_def same_cells_def)
  have h6: "heap_ok (hv_off env) (view fz s) (hv_spaces s spaces) (hv_pages s xs) (pts s6)" using cell_struct_heap(1) [OF s5(4) c(2,3)] by (simp add: s6_def)
  have mv: "moved True (cell_addr (root_cell s)) {cpu. cell_owns_cpu c cpu} s3 s4" using s5(2) by (simp add: c(14) m)
  show ?thesis using s5(1) hv_inv_back [OF inv c(5,6) mv c(7) q h6] by (simp add: s6_def)
qed

lemma create_done:
  assumes inv: "hv_inv env fz spaces xs CPUS s" and ds: "desc_ok env cfg"
    and cr: "in_creation env fz (hv_spaces s spaces) (hv_pages s xs) this_cpu cfg s c s2 s3"
    and new: "\<forall>x\<in>set (all_cells s). cfg_id (config x) \<noteq> cfg_id cfg \<and> cfg_name (config x) \<noteq> cfg_name cfg"
    and an: "\<forall>x\<in>set (cells s). answers env x JAILHOUSE_MSG_RECONFIG_COMPLETED" "polls env (cfg_id cfg) JAILHOUSE_MSG_RECONFIG_COMPLETED 0 = None"
    and s4: "s4 = config_commit env this_cpu (Some c) s3"
    and s5: "s5 = s4\<lparr>cells := cells s4 @ [c\<lparr>comm := (comm c)\<lparr>cell_state := JAILHOUSE_CELL_SHUT_DOWN\<rparr>\<rparr>], num_cells := num_cells s4 + 1\<rparr>"
  shows "\<exists>s6. cell_reconfig_completed env this_cpu s5 = Some s6 \<and> hv_inv env fz spaces xs CPUS s6 \<and> cell_added cfg s s6"
proof -
  note c = in_creationD [OF cr] and m = movedD [OF in_creationD(6) [OF cr]]
  define c' where "c' = c\<lparr>comm := (comm c)\<lparr>cell_state := JAILHOUSE_CELL_SHUT_DOWN\<rparr>\<rparr>"
  have dv: "pts s4 = pts s3" "root_cell s4 = root_cell s2" "cells s4 = cells s" "num_cells s4 = num_cells s" "\<And>cpu. cpu_cell (cpu_data s4 cpu) = cpu_cell (cpu_data s2 cpu)"
    using dev_only_commit [of s3 env this_cpu "Some c"] c(14-17) by (simp_all add: s4 dev_only_def)
  have s5': "s5 = s4\<lparr>cells := cells s4 @ [c'], num_cells := num_cells s4 + 1\<rparr>" by (simp add: s5 c'_def)
  have cc: "cell_mm c' = cell_mm c" "cell_pages c' = cell_pages c" "config c' = cfg" "data_pages c' = data_pages c" "cell_addr c' = cell_addr c"
    "cell_owns_cpu c' = cell_owns_cpu c" "cell_ok env c' = cell_ok env c" "strip c' = strip c"
    by (simp_all add: c'_def c(9) cell_pages_def cell_owns_cpu_def cell_ok_def fun_eq_iff)
  have i5: "hv_inv env fz spaces xs CPUS s5"
  proof (rule hv_inv_add [OF inv, where c = c' and ?s1.0 = s2])
    show "heap_ok (hv_off env) (view fz s) (cell_mm c' # hv_spaces s spaces) (cell_pages c' @ hv_pages s xs) (pts s5)" using c(8) by (simp add: cc s5' dv)
    show "cell_ok env c'" unfolding cc using ds c by (simp add: cell_ok_def)
  qed (use c(2,5,6) new in \<open>simp_all add: cc s5' dv m\<close>)
  have "answers env c' JAILHOUSE_MSG_RECONFIG_COMPLETED" using an(2) by (simp add: answers_def cc c'_def c(9))
  then have "\<forall>x\<in>set (cells s5). answers env x JAILHOUSE_MSG_RECONFIG_COMPLETED" using an(1) by (simp add: s5' dv)
  then obtain s6 where s6: "cell_reconfig_completed env this_cpu s5 = Some s6" "comm_only s5 s6" using reconfig_total unfolding cell_reconfig_completed_def by blast
  have "map strip (cells s6) = map strip (cells s @ [c])" "root_cell s6 = root_cell s2" using s6(2) cc(8) by (simp_all add: comm_only_def s5' dv)
  then have "cell_added cfg s s6" unfolding cell_added_def using c(5,9,10,13) m(4) moved_root [OF c(6)] by (intro exI [of _ c]) auto
  then show ?thesis using s6(1) i5 hv_inv_comm [OF s6(2)] by simp
qed

lemma create_finish_total:
  assumes inv: "hv_inv env fz spaces xs CPUS s" and th: "thawed (view fz s) (cell_mm (root_cell s))" and e: "env_ok env" and ds: "desc_ok env cfg"
    and made: "struct_made env (view fz s) (hv_spaces s spaces) (hv_pages s xs) this_cpu cfg s s c"
    and new: "\<forall>x\<in>set (all_cells s). cfg_id (config x) \<noteq> cfg_id cfg \<and> cfg_name (config x) \<noteq> cfg_name cfg"
    and an: "\<forall>x\<in>set (cells s). answers env x JAILHOUSE_MSG_RECONFIG_COMPLETED" "polls env (cfg_id cfg) JAILHOUSE_MSG_RECONFIG_COMPLETED 0 = None"
  shows "\<exists>s' err. create_finish env this_cpu c s = Some (s', err) \<and> hv_inv env fz spaces xs CPUS s' \<and> (if err = 0 then cell_added cfg s s' else cells_kept s s')"
proof -
  let ?SP = "hv_spaces s spaces" and ?PG = "hv_pages s xs"
  have md: "0 < data_pages c" "heap_ok (hv_off env) (view fz s) (cell_mm c # ?SP) (cell_pages c @ ?PG) (pts s)" "config c = cfg"
    "thawed (view fz s) (cell_mm c)" "\<forall>cpu. cell_owns_cpu c cpu \<longrightarrow> cell_owns_cpu (root_cell s) cpu" using made by (simp_all add: struct_made_def fresh_cell_def)
  have le: "cpu \<le> max_cpu_id (cpu_set (root_cell s))" if "cell_owns_cpu c cpu" for cpu using that md(5) by (simp add: cell_owns_cpu_def)
  have tk: "\<And>cpu s1. in_bitmap (cpu_set (root_cell s1)) \<Longrightarrow> cpu \<le> max_cpu_id (cpu_set (root_cell s1)) \<Longrightarrow> cell_addr (root_cell s1) = cell_addr (root_cell s) \<Longrightarrow>
      \<exists>s'. take_cpu env (cell_addr c) cpu s1 = Some s' \<and> moved False (cell_addr c) {cpu} s1 s'" by (rule take_cpu_moved)
  obtain s2 where s2: "each_cpu (take_cpu env (cell_addr c)) (for_each_cpu (cpu_set c)) s = Some s2" "moved False (cell_addr c) {cpu. cell_owns_cpu c cpu} s s2"
    using each_cpu_moved [OF tk ownershipD(5) [OF hv_invD(2) [OF inv]], where cs = "for_each_cpu (cpu_set c)"] for_each_owns [of c] le by auto
  have "pair_inv env (view fz s) (cell_mm c # ?SP) (cell_pages c @ ?PG) s2 c (s2, c)"
    using md(1,2,4) hv_invD(4) [OF inv] th addr_in_pages [OF md(1)] by (simp add: pair_inv_def cell_inv_def mem_inv_def movedD [OF s2(2)] root_ok_def all_cells_def)
  then obtain s3 err where s3: "create_memory env c s2 = Some ((s3, c), err)" "cell_inv env (view fz s) (cell_mm c # ?SP) (cell_pages c @ ?PG) s2 c s3"
    using create_memory_total ds md(3) by blast
  have cr: "in_creation env fz ?SP ?PG this_cpu cfg s c s2 s3" using made s2(2) s3(2) by (simp add: in_creation_def)
  show ?thesis
  proof (cases "err = 0")
    case False
    obtain s4 where s4: "cell_destroy_internal env this_cpu c s3 = Some s4"
      "hv_inv env fz spaces xs CPUS (s4\<lparr>pts := pool_free (cell_addr c) (of_nat (data_pages c)) (pts s4)\<rparr>)"
      "cells_kept s (s4\<lparr>pts := pool_free (cell_addr c) (of_nat (data_pages c)) (pts s4)\<rparr>)" using create_undo [OF inv th e ds cr] by blast
    then show ?thesis using s2(1) s3(1) False by (simp add: create_finish_def)
  next
    case True
    then show ?thesis using create_done [OF inv ds cr new an refl refl] s2(1) s3(1) by (auto simp: create_finish_def Let_def)
  qed
qed

lemma cell_create_inv:
  assumes inv: "hv_inv env fz spaces xs CPUS s" and th: "thawed (view fz s) (cell_mm (root_cell s))" and e: "env_ok env" and ds: "desc_ok env (guest_config env a)"
    and an: "\<forall>x\<in>set (cells s). answers env x JAILHOUSE_MSG_RECONFIG_COMPLETED"
      "polls env (cfg_id (guest_config env a)) JAILHOUSE_MSG_RECONFIG_COMPLETED 0 = None"
  shows "\<exists>s' err. cell_create env this_cpu a s = Some (s', err) \<and> hv_inv env fz spaces xs CPUS s' \<and>
    (if err = 0 then cell_added (guest_config env a) s s' else cells_kept s s')"
proof -
  let ?cfg = "guest_config env a"
  define P where "P x \<longleftrightarrow> (\<exists>s' (err :: int). x = Some (s', err) \<and> hv_inv env fz spaces xs CPUS s' \<and> (if err = 0 then cell_added ?cfg s s' else cells_kept s s'))" for x
  define s0 where "s0 = cell_suspend (root_cell s) this_cpu s"
  note c0 = ctl_onlyD [OF ctl_only_suspend [of s "root_cell s" this_cpu, folded s0_def]]
  have i0: "hv_inv env fz spaces xs CPUS s0" using inv hv_inv_ctl [OF ctl_only_suspend [of s "root_cell s" this_cpu]] by (simp add: s0_def)
  have kept0: "cells_kept s (cell_resume this_cpu s0)" using ctl_onlyD [OF ctl_only_resume [of s0 this_cpu]] c0 by (simp add: cells_kept_def)
  have res: "hv_inv env fz spaces xs CPUS (cell_resume this_cpu s1) = hv_inv env fz spaces xs CPUS s1" for s1 by (rule hv_inv_ctl [OF ctl_only_resume])
  have kept: "cells_kept s (cell_resume this_cpu s1)" if "cells_kept s0 s1" for s1
    using that ctl_onlyD [OF ctl_only_resume [of s1 this_cpu]] c0 by (simp add: cells_kept_def)
  have added: "cell_added ?cfg s (cell_resume this_cpu s1)" if "cell_added ?cfg s0 s1" for s1
    using that ctl_onlyD [OF ctl_only_resume [of s1 this_cpu]] c0 by (simp add: cell_added_def)
  have same: "same_cells s0 s1 \<Longrightarrow> cells_kept s0 s1" for s1 by (simp add: same_cells_def cells_kept_def)
  obtain s1 r where s1: "create_struct env this_cpu ?cfg s0 = Some (s1, r)" "same_cells s0 s1"
    "case r of Inl err \<Rightarrow> err \<noteq> 0 \<and> heap_ok (hv_off env) (view fz s0) (hv_spaces s0 spaces) (hv_pages s0 xs) (pts s1)
     | Inr c \<Rightarrow> struct_made env (view fz s0) (hv_spaces s0 spaces) (hv_pages s0 xs) this_cpu ?cfg s0 s1 c"
    using create_struct_total [OF hv_invD(1) [OF i0] ds e, of this_cpu] by blast
  have res: "P (Some (cell_resume this_cpu s2, err2))"
    if "hv_inv env fz spaces xs CPUS s2" "if err2 = 0 then cell_added ?cfg s0 s2 else cells_kept s0 s2" for s2 err2
    using that res kept added by (auto simp: P_def)
  have fin: "P (case r of Inl err \<Rightarrow> Some (cell_resume this_cpu s1, err) | Inr cell \<Rightarrow> create_finish env this_cpu cell s1 \<bind>
        (\<lambda>(s, err). Some (cell_resume this_cpu s, err)))"
    if new: "\<forall>x\<in>set (all_cells s0). cfg_id (config x) \<noteq> cfg_id ?cfg \<and> cfg_name (config x) \<noteq> cfg_name ?cfg"
  proof (cases r)
    case (Inl err)
    then have "hv_inv env fz spaces xs CPUS s1" using s1(3) by (intro hv_inv_same [OF s1(2) i0]) (simp add: hv_heap_def)
    then show ?thesis using res [of s1 err] s1(3) same [OF s1(2)] Inl by simp
  next
    case (Inr c)
    have eq: "view fz s1 = view fz s0" "all_cells s1 = all_cells s0" "cells s1 = cells s0" "root_cell s1 = root_cell s0" using s1(2) by (simp_all add: same_cells_def view_def all_cells_def)
    have made: "struct_made env (view fz s1) (hv_spaces s1 spaces) (hv_pages s1 xs) this_cpu ?cfg s1 s1 c" using s1(3) Inr by (simp add: eq struct_made_def)
    then have "heap_ok (hv_off env) (view fz s0) (cell_mm c # hv_spaces s0 spaces) (cell_pages c @ hv_pages s0 xs) (pts s1)" "thawed (view fz s0) (cell_mm c)"
      by (simp_all add: struct_made_def eq)
    then have "hv_heap env (view fz s0) spaces xs (all_cells s0) (pts s1)" unfolding hv_heap_def by (rule heap_weaken)
    then have i1: "hv_inv env fz spaces xs CPUS s1" by (rule hv_inv_same [OF s1(2) i0])
    have t1: "thawed (view fz s1) (cell_mm (root_cell s1))" using th c0(2) by (simp add: eq view_def)
    obtain s2 err2 where s2: "create_finish env this_cpu c s1 = Some (s2, err2)" "hv_inv env fz spaces xs CPUS s2" "if err2 = 0 then cell_added ?cfg s1 s2 else cells_kept s1 s2"
      using create_finish_total [OF i1 t1 e ds made _ _ an(2)] new an(1) c0(3) by (auto simp: eq)
    have "if err2 = 0 then cell_added ?cfg s0 s2 else cells_kept s0 s2" using s2(3) s1(2) by (auto simp: cell_added_def cells_kept_def same_cells_def)
    then show ?thesis using res [OF s2(2)] s2(1) Inr by simp
  qed
  show ?thesis
  proof (cases "cpu_cell (cpu_data s this_cpu) \<noteq> cell_addr (root_cell s)")
    case True
    then show ?thesis using inv by (simp add: cell_create_def EPERM_def cells_kept_def)
  next
    case False
    have err: "P (Some (cell_resume this_cpu s0, - k))" if "k \<noteq> 0" for k :: int using res [OF i0, of "- k"] that by (simp add: cells_kept_def)
    have new: "\<not> list_ex (\<lambda>c. cfg_name (config c) = cfg_name ?cfg \<or> cfg_id (config c) = cfg_id ?cfg) (root_cell s0 # cells s0) \<Longrightarrow>
        \<forall>x\<in>set (all_cells s0). cfg_id (config x) \<noteq> cfg_id ?cfg \<and> cfg_name (config x) \<noteq> cfg_name ?cfg"
      unfolding all_cells_def list_ex_iff by blast
    have "P (cell_create env this_cpu a s)" unfolding cell_create_def Let_def s0_def [symmetric]
      using False err [of EPERM] err [of ENOMEM] err [of EEXIST] err [of E2BIG] fin [OF new] s1(1)
      by (simp add: EPERM_def ENOMEM_def EEXIST_def E2BIG_def)
    then show ?thesis by (simp add: P_def)
  qed
qed

subsection \<open>The prologue\<close>

lemma upd_cell_others: "x \<in> set (cells (upd_cell a f s)) \<Longrightarrow> (\<And>c. cell_addr (f c) = cell_addr c) \<Longrightarrow> cell_addr x \<noteq> a \<Longrightarrow> x \<in> set (cells s)"
  by (auto simp: upd_cell_def split: if_splits)

lemma exchange_others:
  assumes "cell_exchange_message env cpu c msg type s = Some (s', r)" "x \<in> set (cells s')" "cell_addr x \<noteq> cell_addr c"
  shows "x \<in> set (cells s)"
proof -
  let ?s1 = "upd_cell (cell_addr c) (\<lambda>c. c\<lparr>comm := jailhouse_send_msg_to_cell msg (comm c)\<rparr>) s"
  have one: "x \<in> set (cells ?s1) \<Longrightarrow> x \<in> set (cells s)" by (erule upd_cell_others) (simp_all add: assms(3))
  have "s' = s \<or> s' = ?s1 \<or> s' = upd_cell (cell_addr c) (\<lambda>c. c\<lparr>comm := (comm c)\<lparr>cell_state := JAILHOUSE_CELL_FAILED\<rparr>\<rparr>) (cell_suspend c cpu ?s1)"
    using assms(1) by (auto simp: cell_exchange_message_def Let_def split: bind_splits if_splits)
  then show ?thesis
  proof (elim disjE)
    assume s': "s' = upd_cell (cell_addr c) (\<lambda>c. c\<lparr>comm := (comm c)\<lparr>cell_state := JAILHOUSE_CELL_FAILED\<rparr>\<rparr>) (cell_suspend c cpu ?s1)"
    have "x \<in> set (cells (cell_suspend c cpu ?s1))" using assms(2) unfolding s' by (rule upd_cell_others) (simp_all add: assms(3))
    then show ?thesis using one ctl_onlyD(3) [OF ctl_only_suspend [of ?s1 c cpu]] by simp
  qed (use assms(2) one in simp_all)
qed

text \<open>The cell that the prologue found, as it is in the list now.\<close>

definition found_cell :: "u64 \<Rightarrow> 'u hv \<Rightarrow> 'u hv \<Rightarrow> hv_cell \<Rightarrow> bool" where
  "found_cell cid s s1 c \<longleftrightarrow> c \<in> set (cells s1) \<and> (\<exists>c0\<in>set (cells s). strip c0 = strip c \<and> ucast (cfg_id (config c0)) = cid) \<and>
     (\<forall>x\<in>set (cells s1). cell_addr x \<noteq> cell_addr c \<longrightarrow> x \<in> set (cells s))"

lemma comm_only_ctl: "ctl_only s s' \<Longrightarrow> comm_only s s'"
  by (intro comm_only_dev dev_only_ctl)

lemma found_after:
  assumes m: "map strip (cells s1) = map strip (cells s)" and dis: "distinct (map cell_addr (cells s))" and c: "c \<in> set (cells s)"
    and c1: "c1 = hd (filter (\<lambda>x. cell_addr x = cell_addr c) (cells s1))"
  shows "c1 \<in> set (cells s1)" "strip c1 = strip c"
proof -
  have "strip c \<in> set (map strip (cells s1))" using c unfolding m by simp
  then obtain y where y: "y \<in> set (cells s1)" "strip y = strip c" by auto
  then have "cell_addr y = cell_addr c" by (metis strip_simps(1))
  then have "filter (\<lambda>x. cell_addr x = cell_addr c) (cells s1) \<noteq> []" using y(1) by (auto simp: filter_empty_conv)
  then have h: "c1 \<in> set (filter (\<lambda>x. cell_addr x = cell_addr c) (cells s1))" unfolding c1 by (rule hd_in_set)
  then show "c1 \<in> set (cells s1)" by simp
  have a: "cell_addr c1 = cell_addr c" using h by simp
  have "strip c1 \<in> set (map strip (cells s))" using h unfolding m [symmetric] by auto
  then obtain z where z: "z \<in> set (cells s)" "strip z = strip c1" by auto
  then have "cell_addr z = cell_addr c" using a by (metis strip_simps(1))
  then have "z = c" using dis z(1) c by (auto simp: distinct_map inj_on_def)
  then show "strip c1 = strip c" using z(2) by simp
qed

lemma prologue_total:
  assumes inv: "hv_inv env fz spaces xs CPUS s" and an: "\<forall>x\<in>set (cells s). answers env x JAILHOUSE_MSG_SHUTDOWN_REQUEST"
  shows "\<exists>s1 r. cell_management_prologue env task this_cpu cid s = Some (s1, r) \<and> comm_only s s1 \<and>
    (case r of Inl err \<Rightarrow> err \<noteq> 0 | Inr c \<Rightarrow> found_cell cid s s1 c)"
proof -
  define P where "P x \<longleftrightarrow> (\<exists>s1 r. x = Some (s1, r) \<and> comm_only s s1 \<and> (case r of Inl (err :: int) \<Rightarrow> err \<noteq> 0 | Inr c \<Rightarrow> found_cell cid s s1 c))" for x
  define s0 where "s0 = cell_suspend (root_cell s) this_cpu s"
  have c0: "comm_only s s0" unfolding s0_def by (intro comm_only_ctl ctl_only_suspend)
  have q: "cells s0 = cells s" "root_cell s0 = root_cell s" using ctl_onlyD [OF ctl_only_suspend [of s "root_cell s" this_cpu]] by (simp_all add: s0_def)
  have err: "P (Some (cell_resume this_cpu s', Inl (- k)))" if "comm_only s s'" "k \<noteq> 0" for s' k
    using that comm_only_trans [OF that(1) comm_only_ctl [OF ctl_only_resume]] by (simp add: P_def)
  have run: "P (cell_exchange_message env this_cpu c JAILHOUSE_MSG_SHUTDOWN_REQUEST MSG_REQUEST s0 \<bind> (\<lambda>(s1, shutdown_ok).
      if \<not> shutdown_ok then Some (cell_resume this_cpu s1, Inl (- EPERM))
      else Some (cell_suspend c this_cpu s1, Inr (hd (filter (\<lambda>x. cell_addr x = cell_addr c) (cells (cell_suspend c this_cpu s1)))))))"
    if c: "c \<in> set (cells s)" "ucast (cfg_id (config c)) = cid" for c
  proof -
    obtain s1 ok where s1: "cell_exchange_message env this_cpu c JAILHOUSE_MSG_SHUTDOWN_REQUEST MSG_REQUEST s0 = Some (s1, ok)" "comm_only s0 s1"
      using exchange_total [of env c] an c(1) by blast
    have k1: "comm_only s s1" by (rule comm_only_trans [OF c0 s1(2)])
    define s2 c2 where "s2 = cell_suspend c this_cpu s1" and "c2 = hd (filter (\<lambda>x. cell_addr x = cell_addr c) (cells s2))"
    have k2: "comm_only s s2" unfolding s2_def by (rule comm_only_trans [OF k1 comm_only_ctl [OF ctl_only_suspend]])
    have q2: "cells s2 = cells s1" using ctl_onlyD(3) [OF ctl_only_suspend [of s1 c this_cpu]] by (simp add: s2_def)
    have dis: "distinct (map cell_addr (cells s))" using hv_invD(3) [OF inv] by (simp add: all_cells_def)
    have m2: "map strip (cells s2) = map strip (cells s)" using k2 by (simp add: comm_only_def)
    note f = found_after [OF m2 dis c(1) c2_def]
    have "cell_addr c2 = cell_addr c" using f(2) by (metis strip_simps(1))
    then have "found_cell cid s s2 c2" unfolding found_cell_def using f c exchange_others [OF s1(1)] q by (auto simp: q2)
    then show ?thesis using s1(1) err [OF k1, of EPERM] k2 by (cases ok) (simp_all add: EPERM_def P_def s2_def c2_def)
  qed
  have perm: "P (Some (s, Inl (- EPERM)))" by (simp add: P_def EPERM_def comm_only_def)
  have found: "find_cell cid s0 = Some c \<Longrightarrow> cell_addr c \<noteq> cell_addr (root_cell s) \<Longrightarrow> c \<in> set (cells s) \<and> ucast (cfg_id (config c)) = cid" for c
    by (auto simp: find_cell_def q find_Some_iff in_set_conv_nth nth_Cons split: if_splits nat.splits)
  have "P (cell_management_prologue env task this_cpu cid s)"
    unfolding cell_management_prologue_def s0_def [symmetric] Let_def q
    using err [OF c0, of ENOENT] err [OF c0, of EINVAL] err [OF c0, of EPERM] perm run found
    by (auto simp: ENOENT_def EINVAL_def EPERM_def split: option.split)
  then show ?thesis by (simp add: P_def)
qed

subsection \<open>Destruction\<close>

definition cells_like :: "'u hv \<Rightarrow> 'u hv \<Rightarrow> bool" where
  "cells_like s s' \<longleftrightarrow> map skel (cells s') = map skel (cells s) \<and> root_cell s' = root_cell s \<and> (\<forall>cpu. cpu_cell (cpu_data s' cpu) = cpu_cell (cpu_data s cpu))"

definition cell_removed :: "u64 \<Rightarrow> 'u hv \<Rightarrow> 'u hv \<Rightarrow> bool" where
  "cell_removed cid s s' \<longleftrightarrow> (\<exists>c\<in>set (cells s). ucast (cfg_id (config c)) = cid \<and>
     map skel (cells s') = map skel (filter (\<lambda>x. cell_addr x \<noteq> cell_addr c) (cells s)) \<and> config (root_cell s') = config (root_cell s) \<and>
     (\<forall>cpu. cell_owns_cpu (root_cell s') cpu \<longleftrightarrow> cell_owns_cpu (root_cell s) cpu \<or> cell_owns_cpu c cpu))"

definition thawed_cell :: "(paging_structures \<rightharpoonup> (u64 \<Rightarrow> (u64 \<times> u64) option)) \<Rightarrow> u64 \<Rightarrow> 'u hv \<Rightarrow> bool" where
  "thawed_cell fz cid s \<longleftrightarrow> thawed (view fz s) (cell_mm (root_cell s)) \<and> (\<forall>c\<in>set (cells s). ucast (cfg_id (config c)) = cid \<longrightarrow> thawed (view fz s) (cell_mm c))"

lemma view_comm: "comm_only s s1 \<Longrightarrow> view fz s1 = view fz s"
  by (simp add: view_def comm_only_def)

lemma alike_like: "alike s s' \<Longrightarrow> cells_like s s'"
  by (simp add: alike_def cells_like_def)

lemma filter_skel: "map skel xs = map skel ys \<Longrightarrow> map skel (filter (\<lambda>x. cell_addr x \<noteq> a) xs) = map skel (filter (\<lambda>x. cell_addr x \<noteq> a) ys)"
proof (induction xs arbitrary: ys)
  case (Cons x xs)
  then obtain y ys' where ys: "ys = y # ys'" "skel x = skel y" "map skel xs = map skel ys'" by (cases ys) auto
  have "cell_addr x = cell_addr y" using ys(2) by (metis skel_simps(1))
  then show ?case using Cons.IH [OF ys(3)] ys by simp
qed simp

lemma cell_destroy_doomed:
  assumes inv: "hv_inv env fz spaces xs CPUS s" and c: "c \<in> set (cells s)" and th: "thawed (view fz s) (cell_mm (root_cell s))" "thawed (view fz s) (cell_mm c)"
  shows "doomed env (view fz s) (map cell_mm (root_cell s # filter (\<lambda>x. cell_addr x \<noteq> cell_addr c) (cells s)) @ spaces)
    (concat (map cell_pages (root_cell s # filter (\<lambda>x. cell_addr x \<noteq> cell_addr c) (cells s))) @ xs) c s"
proof -
  define R where "R = filter (\<lambda>x. cell_addr x \<noteq> cell_addr c) (cells s)"
  note d = hv_invD [OF inv] and o = ownershipD [OF hv_invD(2) [OF inv]]
  have ms: "mset (cells s) = add_mset c (mset R)" unfolding R_def using d(3) c by (intro mset_filter_out) (simp_all add: all_cells_def)
  have cat: "mset (concat (map cell_pages ys)) = (\<Sum>y\<in>#mset ys. mset (cell_pages y))" for ys by (induction ys) simp_all
  have "mset (hv_spaces s spaces) = mset (cell_mm c # map cell_mm (root_cell s # R) @ spaces)"
    "mset (hv_pages s xs) = mset (cell_pages c @ concat (map cell_pages (root_cell s # R)) @ xs)"
    by (simp_all add: all_cells_def cat ms)
  then have "heap_ok (hv_off env) (view fz s) (cell_mm c # map cell_mm (root_cell s # R) @ spaces) (cell_pages c @ concat (map cell_pages (root_cell s # R)) @ xs) (pts s)"
    using d(1) heap_perm heap_spaces_perm by metis
  moreover have "cpu \<le> max_cpu_id (cpu_set (root_cell s))" if "cell_owns_cpu c cpu" for cpu using o(3,4) that c by blast
  ultimately show ?thesis using th d(4,5) c o(5) by (simp add: doomed_def cell_ok_def R_def)
qed

lemma cell_destroy_inv:
  assumes inv: "hv_inv env fz spaces xs CPUS s" and th: "thawed_cell fz cid s" and e: "env_ok env"
    and an: "\<forall>x\<in>set (cells s). answers env x JAILHOUSE_MSG_SHUTDOWN_REQUEST \<and> answers env x JAILHOUSE_MSG_RECONFIG_COMPLETED"
  shows "\<exists>s' err. cell_destroy env this_cpu cid s = Some (s', err) \<and> hv_inv env fz spaces xs CPUS s' \<and> (if err = 0 then cell_removed cid s s' else cells_like s s')"
proof -
  obtain s1 r where s1: "cell_management_prologue env CELL_DESTROY this_cpu cid s = Some (s1, r)" "comm_only s s1"
    "case r of Inl err \<Rightarrow> err \<noteq> 0 | Inr c \<Rightarrow> found_cell cid s s1 c" using prologue_total [OF inv] an by blast
  have i1: "hv_inv env fz spaces xs CPUS s1" using inv hv_inv_comm [OF s1(2)] by simp
  show ?thesis
  proof (cases r)
    case (Inl err)
    then show ?thesis using s1(1,3) i1 alike_like [OF comm_only_alike [OF s1(2)]] by (simp add: cell_destroy_def)
  next
    case (Inr c)
    have f: "c \<in> set (cells s1)" "\<forall>x\<in>set (cells s1). cell_addr x \<noteq> cell_addr c \<longrightarrow> x \<in> set (cells s)" using s1(3) Inr by (simp_all add: found_cell_def)
    obtain c0 where c0: "c0 \<in> set (cells s)" "strip c0 = strip c" "ucast (cfg_id (config c0)) = cid" using s1(3) Inr by (auto simp: found_cell_def)
    have cc: "cell_mm c0 = cell_mm c" "cell_addr c0 = cell_addr c" "cell_owns_cpu c0 cpu = cell_owns_cpu c cpu" for cpu using c0(2) by (metis strip_simps)+
    have t1: "thawed (view fz s1) (cell_mm (root_cell s1))" "thawed (view fz s1) (cell_mm c)"
      using th c0(1,3) cc(1) s1(2) unfolding thawed_cell_def view_comm [OF s1(2)] comm_only_def by metis+
    let ?rest = "filter (\<lambda>x. cell_addr x \<noteq> cell_addr c) (cells s1)"
    obtain s2 s3 where s3: "cell_destroy_internal env this_cpu c s1 = Some s3" "moved True (cell_addr (root_cell s1)) {cpu. cell_owns_cpu c cpu} s1 s2" "same_cells s2 s3"
      "heap_ok (hv_off env) (view fz s1) (map cell_mm (root_cell s1 # ?rest) @ spaces) (block (cell_addr c) (data_pages c) @ concat (map cell_pages (root_cell s1 # ?rest)) @ xs) (pts s3)"
      using destroy_internal_total [OF cell_destroy_doomed [OF i1 f(1) t1] e] by blast
    define s4 where "s4 = s3\<lparr>cells := filter (\<lambda>x. cell_addr x \<noteq> cell_addr c) (cells s3), num_cells := num_cells s3 - 1,
      pts := pool_free (cell_addr c) (of_nat (data_pages c)) (pts s3)\<rparr>"
    have dp: "0 < data_pages c" "data_pages c < 2 ^ 32" using hv_invD(5) [OF i1 f(1)] by (simp_all add: cell_ok_def)
    have q: "root_cell s4 = root_cell s2" "cells s4 = filter (\<lambda>x. cell_addr x \<noteq> cell_addr c) (cells s2)" "num_cells s4 = num_cells s2 - 1"
      "\<forall>cpu. cpu_cell (cpu_data s4 cpu) = cpu_cell (cpu_data s2 cpu)" using s3(3) by (simp_all add: s4_def same_cells_def)
    have "heap_ok (hv_off env) (view fz s1) (map cell_mm (root_cell s1 # ?rest) @ spaces) (concat (map cell_pages (root_cell s1 # ?rest)) @ xs) (pts s4)"
      using cell_struct_heap(1) [OF s3(4) dp] by (simp add: s4_def)
    from hv_inv_remove [OF i1 f(1) this s3(2) q] have i4: "hv_inv env fz spaces xs CPUS s4" .
    have "cells s4 = ?rest" using q(2) movedD(2) [OF s3(2)] by simp
    then have "\<forall>x\<in>set (cells s4). answers env x JAILHOUSE_MSG_RECONFIG_COMPLETED" using an f(2) by simp
    then obtain s5 where s5: "cell_reconfig_completed env this_cpu s4 = Some s5" "comm_only s4 s5" using reconfig_total unfolding cell_reconfig_completed_def by blast
    define s6 where "s6 = cell_resume this_cpu s5"
    have i6: "hv_inv env fz spaces xs CPUS s6" unfolding s6_def using i4 hv_inv_comm [OF s5(2)] hv_inv_ctl [OF ctl_only_resume] by blast
    have l: "map skel (cells s6) = map skel ?rest" "root_cell s6 = root_cell s2"
      using comm_only_alike [OF s5(2)] ctl_onlyD [OF ctl_only_resume [of s5 this_cpu]] \<open>cells s4 = ?rest\<close> q(1) by (simp_all add: alike_def s6_def)
    have "map skel (cells s1) = map skel (cells s)" "root_cell s1 = root_cell s" using comm_only_alike [OF s1(2)] by (simp_all add: alike_def)
    then have "map skel (cells s6) = map skel (filter (\<lambda>x. cell_addr x \<noteq> cell_addr c0) (cells s))" using l(1) filter_skel unfolding cc(2) by metis
    moreover have "cell_owns_cpu (root_cell s6) cpu \<longleftrightarrow> cell_owns_cpu (root_cell s) cpu \<or> cell_owns_cpu c0 cpu" for cpu
      using moved_root [OF s3(2), of cpu] l(2) cc(3) \<open>root_cell s1 = root_cell s\<close> ownershipD(3,4) [OF hv_invD(2) [OF i1]] f(1) by auto
    ultimately have "cell_removed cid s s6" using c0 l(2) movedD(4) [OF s3(2)] \<open>root_cell s1 = root_cell s\<close> unfolding cell_removed_def by auto
    moreover have "cell_destroy env this_cpu cid s = Some (s6, 0)"
      using s1(1) Inr s3(1) s5(1) by (simp add: cell_destroy_def s6_def s4_def Let_def)
    ultimately show ?thesis using i6 by simp
  qed
qed

subsection \<open>Start and loading\<close>

definition cell_in_state :: "(hv_cell \<Rightarrow> bool) \<Rightarrow> u64 \<Rightarrow> 'u hv \<Rightarrow> bool" where
  "cell_in_state P cid s \<longleftrightarrow> (\<exists>c\<in>set (cells s). ucast (cfg_id (config c)) = cid \<and> P c)"

lemma dev_only_refl [simp]: "dev_only s s"
  by (simp add: dev_only_def)

lemma dev_only_fold: "(\<And>x s. dev_only s (g x s)) \<Longrightarrow> dev_only s (fold g ys s)"
  by (induction ys arbitrary: s) (auto intro: dev_only_trans)

lemma dev_only_failed: "dev_only s (s\<lparr>cpu_data := (cpu_data s)(cpu := (cpu_data s cpu)\<lparr>failed := b\<rparr>)\<rparr>)"
  by (simp add: dev_only_def)

lemma dev_only_start: "dev_only s (start_cpus env c s)"
proof -
  have u: "dev_only s (upd_ctl cpu arch_reset_cpu (s\<lparr>cpu_data := (cpu_data s)(cpu := (cpu_data s cpu)\<lparr>failed := False\<rparr>)\<rparr>))" for cpu and s :: "'a hv"
    by (rule dev_only_trans [OF dev_only_failed dev_only_ctl [OF ctl_only_upd]])
  have "dev_only s (s\<lparr>cpu_data := (\<lambda>cpu. (cpu_data s cpu)\<lparr>cpu_ctl_of := f cpu\<rparr>), devices := d\<rparr>)" for f d by (simp add: dev_only_def)
  then show ?thesis unfolding start_cpus_def Let_def by (rule dev_only_trans) (rule dev_only_fold [OF u])
qed

lemma dev_only_park: "dev_only s (fold (\<lambda>cpu s. arch_park env cpu (s\<lparr>cpu_data := (cpu_data s)(cpu := (cpu_data s cpu)\<lparr>failed := False\<rparr>)\<rparr>)) cpus s)"
proof (rule dev_only_fold)
  fix cpu and s :: "'a hv"
  have "dev_only s1 (arch_park env cpu s1)" for s1 unfolding arch_park_def by (rule dev_only_trans [OF dev_only_devices dev_only_ctl [OF ctl_only_upd]])
  then show "dev_only s (arch_park env cpu (s\<lparr>cpu_data := (cpu_data s)(cpu := (cpu_data s cpu)\<lparr>failed := False\<rparr>)\<rparr>))"
    by (rule dev_only_trans [OF dev_only_failed])
qed

lemma alike_trans: "alike s s1 \<Longrightarrow> alike s1 s2 \<Longrightarrow> alike s s2"
  by (simp add: alike_def)

lemma alike_dev: "dev_only s s' \<Longrightarrow> alike s s'"
  by (simp add: alike_def dev_only_def)

lemma cells_like_trans: "cells_like s s1 \<Longrightarrow> cells_like s1 s2 \<Longrightarrow> cells_like s s2"
  by (simp add: cells_like_def)

lemma mem_inv_hv:
  assumes "hv_inv env fz spaces xs CPUS s" "mem_inv env (view fz s) (hv_spaces s spaces) (hv_pages s xs) s s'"
  shows "hv_inv env fz spaces xs CPUS s'" "cells_like s s'" "cells s' = cells s"
proof -
  have s: "s' = s\<lparr>pts := pts s'\<rparr>" and h: "hv_heap env (view fz s) spaces xs (all_cells s) (pts s')" using assms(2) by (simp_all add: mem_inv_def hv_heap_def)
  have sc: "same_cells s s'" by (subst s) (simp add: same_cells_def)
  then show "cells_like s s'" "cells s' = cells s" by (simp_all add: same_cells_def cells_like_def)
  show "hv_inv env fz spaces xs CPUS s'" by (rule hv_inv_same [OF sc assms(1) h])
qed

lemma mem_inv_start:
  assumes "hv_inv env fz spaces xs CPUS s" "thawed (view fz s) (cell_mm (root_cell s))"
  shows "mem_inv env (view fz s) (hv_spaces s spaces) (hv_pages s xs) s s"
  using hv_invD(1,4) [OF assms(1)] assms(2) by (simp add: mem_inv_def all_cells_def)

lemma start_memory_total:
  assumes inv: "hv_inv env fz spaces xs CPUS s" and th: "thawed (view fz s) (cell_mm (root_cell s))" and c: "desc_ok env (config c)"
  shows "\<exists>s' err. start_memory env c s = Some (s', err) \<and> hv_inv env fz spaces xs CPUS s' \<and> cells_like s s' \<and> cells s' = cells s"
proof -
  have mems: "\<forall>mem\<in>set (cfg_mem_regions (config c)). plain_region mem"
    and cols: "\<forall>cm\<in>set (cfg_col_regions (config c)). \<exists>frags. colored_fragments (mask_end env) (colors env) cm = Some frags \<and> (\<forall>f\<in>set frags. plain_region f)"
    using c by (simp_all add: desc_ok_def)
  obtain s1 err where s1: "loadable_regions (unmap_from_root_cell env) (cfg_mem_regions (config c)) s = Some (s1, err)"
    "mem_inv env (view fz s) (hv_spaces s spaces) (hv_pages s xs) s s1"
    using root_unmap.loadable [OF mem_inv_start [OF inv th] mems] by blast
  have "\<exists>s' err. start_memory env c s = Some (s', err) \<and> mem_inv env (view fz s) (hv_spaces s spaces) (hv_pages s xs) s s'"
    using s1 frag_start.colored [OF s1(2) cols, of True] by (cases "err = 0") (auto simp: start_memory_def)
  then show ?thesis using mem_inv_hv [OF inv] by blast
qed

lemma load_memory_total:
  assumes inv: "hv_inv env fz spaces xs CPUS s" and th: "thawed (view fz s) (cell_mm (root_cell s))" and c: "desc_ok env (config c)"
  shows "\<exists>s1 err1. loadable_regions (\<lambda>mem. remap_to_root_cell env mem ABORT_ON_ERROR) (cfg_mem_regions (config c)) s = Some (s1, err1) \<and>
    hv_inv env fz spaces xs CPUS s1 \<and> cells_like s s1 \<and> cells s1 = cells s \<and>
    (\<exists>s2 err2. colored_loop (mask_end env) (colors env)
       (no_col_functions\<lparr>loadable_remap_root_f := (\<lambda>mem mode. lift_cb (\<lambda>mem. remap_to_root_cell env mem mode) mem)\<rparr>) LOADABLE True (cfg_col_regions (config c)) s1 = Some (s2, err2) \<and>
       hv_inv env fz spaces xs CPUS s2 \<and> cells_like s s2 \<and> cells s2 = cells s)"
proof -
  have mems: "\<forall>mem\<in>set (cfg_mem_regions (config c)). plain_region mem"
    and cols: "\<forall>cm\<in>set (cfg_col_regions (config c)). \<exists>frags. colored_fragments (mask_end env) (colors env) cm = Some frags \<and> (\<forall>f\<in>set frags. plain_region f)"
    using c by (simp_all add: desc_ok_def)
  obtain s1 err where s1: "loadable_regions (\<lambda>mem. remap_to_root_cell env mem ABORT_ON_ERROR) (cfg_mem_regions (config c)) s = Some (s1, err)"
    "mem_inv env (view fz s) (hv_spaces s spaces) (hv_pages s xs) s s1"
    using root_remap.loadable [OF mem_inv_start [OF inv th] mems, of ABORT_ON_ERROR] by blast
  then show ?thesis using frag_loadable.colored [OF s1(2) cols, of True] mem_inv_hv [OF inv] by blast
qed

lemma found_in_state:
  assumes "found_cell cid s s1 c" "c' \<in> set (cells s')" "config c' = config c" "P c'"
  shows "cell_in_state P cid s'"
proof -
  have "ucast (cfg_id (config c)) = cid" using assms(1) unfolding found_cell_def by (metis strip_simps(2))
  then show ?thesis using assms(2-4) unfolding cell_in_state_def by metis
qed

lemma upd_cell_in: "c \<in> set (cells s) \<Longrightarrow> f c \<in> set (cells (upd_cell (cell_addr c) f s))"
  by (force simp: upd_cell_def)

lemma hv_inv_dev2: "hv_inv env fz spaces xs CPUS s \<Longrightarrow> alike s s' \<Longrightarrow> hv_inv env fz spaces xs CPUS s' \<and> cells_like s s'"
  using hv_inv_alike alike_like by blast

lemma cell_start_inv:
  assumes inv: "hv_inv env fz spaces xs CPUS s" and th: "thawed (view fz s) (cell_mm (root_cell s))"
    and an: "\<forall>x\<in>set (cells s). answers env x JAILHOUSE_MSG_SHUTDOWN_REQUEST"
  shows "\<exists>s' err. cell_start env this_cpu cid s = Some (s', err) \<and> hv_inv env fz spaces xs CPUS s' \<and> cells_like s s' \<and>
    (err = 0 \<longrightarrow> cell_in_state (\<lambda>c. cell_state (comm c) = JAILHOUSE_CELL_RUNNING \<and> \<not> loadable c) cid s')"
proof -
  obtain s1 r where s1: "cell_management_prologue env CELL_START this_cpu cid s = Some (s1, r)" "comm_only s s1"
    "case r of Inl err \<Rightarrow> err \<noteq> 0 | Inr c \<Rightarrow> found_cell cid s s1 c" using prologue_total [OF inv an] by blast
  have i1: "hv_inv env fz spaces xs CPUS s1" "cells_like s s1" using hv_inv_dev2 [OF inv comm_only_alike [OF s1(2)]] by simp_all
  show ?thesis
  proof (cases r)
    case (Inl err)
    then show ?thesis using s1(1,3) i1 by (simp add: cell_start_def)
  next
    case (Inr c)
    have f: "found_cell cid s s1 c" "c \<in> set (cells s1)" using s1(3) Inr by (simp_all add: found_cell_def)
    have t1: "thawed (view fz s1) (cell_mm (root_cell s1))" using th s1(2) by (simp add: view_comm [OF s1(2)] comm_only_def)
    have ds: "desc_ok env (config c)" using hv_invD(5) [OF i1(1) f(2)] by (simp add: cell_ok_def)
    have "\<exists>s2 err. (if loadable c then start_memory env c s1 else Some (s1, 0)) = Some (s2, err) \<and> hv_inv env fz spaces xs CPUS s2 \<and> cells_like s1 s2 \<and> cells s2 = cells s1"
    proof (cases "loadable c")
      case True
      then show ?thesis using start_memory_total [OF i1(1) t1 ds] by (simp only: if_True)
    qed (use i1(1) in \<open>simp add: cells_like_def\<close>)
    then obtain s2 err where s2: "(if loadable c then start_memory env c s1 else Some (s1, 0)) = Some (s2, err)" "hv_inv env fz spaces xs CPUS s2"
      "cells_like s1 s2" "cells s2 = cells s1" by blast
    define s3 where "s3 = (if loadable c then upd_cell (cell_addr c) (\<lambda>c. c\<lparr>loadable := False\<rparr>) (config_commit env this_cpu None s2) else s2)"
    define s4 where "s4 = upd_cell (cell_addr c) (\<lambda>c. c\<lparr>comm := \<lparr>cell_state = JAILHOUSE_CELL_RUNNING, msg_to_cell = JAILHOUSE_MSG_NONE, reply_from_cell = JAILHOUSE_MSG_NONE\<rparr>\<rparr>) s3"
    have eq: "cell_start env this_cpu cid s = (if err \<noteq> 0 then Some (cell_resume this_cpu s2, err) else Some (cell_resume this_cpu (start_cpus env c s4), 0))"
      using s1(1) s2(1) Inr by (simp add: cell_start_def s3_def s4_def Let_def del: if_split)
    have re: "alike x (cell_resume this_cpu x)" for x by (intro alike_dev dev_only_ctl ctl_only_resume)
    have "alike (config_commit env this_cpu None s2) (upd_cell (cell_addr c) (\<lambda>c. c\<lparr>loadable := False\<rparr>) (config_commit env this_cpu None s2))" by (rule alike_upd) simp
    then have "alike s2 s3" unfolding s3_def using alike_trans [OF alike_dev [OF dev_only_commit [of s2 env this_cpu None]]] alike_dev [OF dev_only_refl [of s2]] by simp
    moreover have "alike s3 s4" unfolding s4_def by (rule alike_upd) simp
    ultimately have a: "alike s2 (cell_resume this_cpu (start_cpus env c s4))" by (rule alike_trans [OF alike_trans [OF alike_trans] re, OF _ _ alike_dev [OF dev_only_start]])
    have cs: "cells (cell_resume this_cpu (start_cpus env c s4)) = cells s4"
      using ctl_onlyD(3) [OF ctl_only_resume [of "start_cpus env c s4" this_cpu]] dev_only_start [of s4 env c] by (simp add: dev_only_def)
    define c3 where "c3 = c\<lparr>loadable := False\<rparr>"
    have "cell_in_state (\<lambda>c. cell_state (comm c) = JAILHOUSE_CELL_RUNNING \<and> \<not> loadable c) cid (cell_resume this_cpu (start_cpus env c s4))"
    proof (rule found_in_state [OF f(1)])
      have "\<not> loadable c \<Longrightarrow> c3 = c" by (cases c) (simp add: c3_def)
      moreover have "c3 \<in> set (cells s3)" if "loadable c"
        using f(2) that upd_cell_in [of c "config_commit env this_cpu None s2" "\<lambda>c. c\<lparr>loadable := False\<rparr>"] dev_only_commit [of s2 env this_cpu None] s2(4)
        by (simp add: s3_def c3_def dev_only_def)
      ultimately have "c3 \<in> set (cells s3)" using f(2) s2(4) by (cases "loadable c") (simp_all add: s3_def)
      from upd_cell_in [OF this, of "\<lambda>c. c\<lparr>comm := \<lparr>cell_state = JAILHOUSE_CELL_RUNNING, msg_to_cell = JAILHOUSE_MSG_NONE, reply_from_cell = JAILHOUSE_MSG_NONE\<rparr>\<rparr>"]
      show "c3\<lparr>comm := \<lparr>cell_state = JAILHOUSE_CELL_RUNNING, msg_to_cell = JAILHOUSE_MSG_NONE, reply_from_cell = JAILHOUSE_MSG_NONE\<rparr>\<rparr> \<in>
          set (cells (cell_resume this_cpu (start_cpus env c s4)))" unfolding cs unfolding s4_def by (simp add: c3_def)
    qed (simp_all add: c3_def)
    then show ?thesis unfolding eq using hv_inv_dev2 [OF s2(2) a] hv_inv_dev2 [OF s2(2) re] cells_like_trans [OF cells_like_trans [OF i1(2) s2(3)]] by auto
  qed
qed

lemma cell_set_loadable_inv:
  assumes inv: "hv_inv env fz spaces xs CPUS s" and th: "thawed (view fz s) (cell_mm (root_cell s))"
    and an: "\<forall>x\<in>set (cells s). answers env x JAILHOUSE_MSG_SHUTDOWN_REQUEST"
  shows "\<exists>s' err. cell_set_loadable env this_cpu cid s = Some (s', err) \<and> hv_inv env fz spaces xs CPUS s' \<and> cells_like s s' \<and>
    (err = 0 \<longrightarrow> cell_in_state loadable cid s')"
proof -
  obtain s1 r where s1: "cell_management_prologue env CELL_SET_LOADABLE this_cpu cid s = Some (s1, r)" "comm_only s s1"
    "case r of Inl err \<Rightarrow> err \<noteq> 0 | Inr c \<Rightarrow> found_cell cid s s1 c" using prologue_total [OF inv an] by blast
  have i1: "hv_inv env fz spaces xs CPUS s1" "cells_like s s1" using hv_inv_dev2 [OF inv comm_only_alike [OF s1(2)]] by simp_all
  show ?thesis
  proof (cases r)
    case (Inl err)
    then show ?thesis using s1(1,3) i1 by (simp add: cell_set_loadable_def)
  next
    case (Inr c)
    have f: "found_cell cid s s1 c" "c \<in> set (cells s1)" using s1(3) Inr by (simp_all add: found_cell_def)
    define s2 where "s2 = fold (\<lambda>cpu s. arch_park env cpu (s\<lparr>cpu_data := (cpu_data s)(cpu := (cpu_data s cpu)\<lparr>failed := False\<rparr>)\<rparr>)) (for_each_cpu (cpu_set c)) s1"
    have p: "dev_only s1 s2" unfolding s2_def by (rule dev_only_park)
    have re: "alike x (cell_resume this_cpu x)" "cells (cell_resume this_cpu x) = cells x" for x
      using ctl_onlyD(3) [OF ctl_only_resume [of x this_cpu]] by (auto intro: alike_dev dev_only_ctl ctl_only_resume)
    show ?thesis
    proof (cases "loadable c")
      case True
      have "alike s1 (cell_resume this_cpu s2)" by (rule alike_trans [OF alike_dev [OF p] re(1)])
      then have "hv_inv env fz spaces xs CPUS (cell_resume this_cpu s2)" "cells_like s (cell_resume this_cpu s2)"
        using hv_inv_dev2 [OF i1(1)] cells_like_trans [OF i1(2)] by blast+
      moreover have "cell_in_state loadable cid (cell_resume this_cpu s2)"
        by (rule found_in_state [OF f(1), of c]) (use f(2) p True in \<open>simp_all add: re dev_only_def\<close>)
      ultimately show ?thesis using s1(1) Inr True by (simp add: cell_set_loadable_def s2_def Let_def)
    next
      case False
      define s3 where "s3 = upd_cell (cell_addr c) (\<lambda>c. c\<lparr>comm := (comm c)\<lparr>cell_state := JAILHOUSE_CELL_SHUT_DOWN\<rparr>, loadable := True\<rparr>) s2"
      have "alike s2 s3" unfolding s3_def by (rule alike_upd) simp
      then have a3: "alike s1 s3" by (rule alike_trans [OF alike_dev [OF p]])
      have i3: "hv_inv env fz spaces xs CPUS s3" "cells_like s s3" using hv_inv_dev2 [OF i1(1) a3] cells_like_trans [OF i1(2)] by blast+
      have r3: "root_cell s3 = root_cell s" using a3 s1(2) by (simp add: alike_def comm_only_def)
      have t3: "thawed (view fz s3) (cell_mm (root_cell s3))" using th by (simp add: view_def r3)
      have ds: "desc_ok env (config c)" using hv_invD(5) [OF i1(1) f(2)] by (simp add: cell_ok_def)
      obtain s4 err4 s5 err5 where m: "loadable_regions (\<lambda>mem. remap_to_root_cell env mem ABORT_ON_ERROR) (cfg_mem_regions (config c)) s3 = Some (s4, err4)"
        "hv_inv env fz spaces xs CPUS s4" "cells_like s3 s4" "colored_loop (mask_end env) (colors env)
          (no_col_functions\<lparr>loadable_remap_root_f := (\<lambda>mem mode. lift_cb (\<lambda>mem. remap_to_root_cell env mem mode) mem)\<rparr>) LOADABLE True (cfg_col_regions (config c)) s4 = Some (s5, err5)"
        "hv_inv env fz spaces xs CPUS s5" "cells_like s3 s5" "cells s5 = cells s3"
        using load_memory_total [OF i3(1) t3 ds] by blast
      define s6 where "s6 = (if err5 \<noteq> 0 then s5 else config_commit env this_cpu None s5)"
      have d6: "dev_only s5 s6" unfolding s6_def using dev_only_commit [of s5 env this_cpu None] by simp
      have a6: "alike s5 (cell_resume this_cpu s6)" by (rule alike_trans [OF alike_dev [OF d6] re(1)])
      have eq: "cell_set_loadable env this_cpu cid s = (if err4 \<noteq> 0 then Some (cell_resume this_cpu s4, err4) else Some (cell_resume this_cpu s6, err5))"
        using s1(1) Inr False m(1,4) by (simp add: cell_set_loadable_def s2_def [symmetric] s3_def [symmetric] s6_def Let_def del: if_split)
      have "cell_in_state loadable cid (cell_resume this_cpu s6)"
      proof (rule found_in_state [OF f(1)])
        have "c \<in> set (cells s2)" using f(2) p by (simp add: dev_only_def)
        from upd_cell_in [OF this] show "c\<lparr>comm := (comm c)\<lparr>cell_state := JAILHOUSE_CELL_SHUT_DOWN\<rparr>, loadable := True\<rparr> \<in> set (cells (cell_resume this_cpu s6))"
          using d6 m(7) by (simp add: re(2) s3_def dev_only_def)
      qed simp_all
      then show ?thesis unfolding eq using hv_inv_dev2 [OF m(2) re(1)] hv_inv_dev2 [OF m(5) a6] cells_like_trans [OF cells_like_trans [OF i3(2) m(3)]]
        cells_like_trans [OF cells_like_trans [OF i3(2) m(6)]] by auto
    qed
  qed
qed

subsection \<open>What the management of one cell leaves alone\<close>

definition hv_ok :: "'u hv_env \<Rightarrow> paging_structures list \<Rightarrow> u64 list \<Rightarrow> nat set \<Rightarrow> 'u hv \<Rightarrow> bool" where
  "hv_ok env spaces xs CPUS s \<longleftrightarrow> hv_inv env Map.empty spaces xs CPUS s"

definition cell_map_of :: "'u hv_env \<Rightarrow> hv_cell \<Rightarrow> 'u hv \<Rightarrow> u64 \<Rightarrow> (u64 \<times> u64) option" where
  "cell_map_of env c s = translation (hv_off env) (cell_mm c) (pts s)"

definition freeze :: "'u hv_env \<Rightarrow> hv_cell set \<Rightarrow> 'u hv \<Rightarrow> paging_structures \<rightharpoonup> (u64 \<Rightarrow> (u64 \<times> u64) option)" where
  "freeze env C s = (\<lambda>q. if q \<in> cell_mm ` C then Some (translation (hv_off env) q (pts s)) else None)"

lemma heap_view_change: "heap_ok off vw spaces xs st \<Longrightarrow> outside vw' = outside vw \<Longrightarrow> view_holds off vw' spaces st \<Longrightarrow> heap_ok off vw' spaces xs st"
  by (simp add: heap_ok_def)

lemma hv_inv_freeze:
  assumes "hv_ok env spaces xs CPUS s" "C \<subseteq> set (cells s)"
  shows "hv_inv env (freeze env C s) spaces xs CPUS s"
proof -
  have h: "heap_ok (hv_off env) (view Map.empty s) (hv_spaces s spaces) (hv_pages s xs) (pts s)" using assms(1) by (simp add: hv_ok_def hv_invD)
  have "view_holds (hv_off env) (view (freeze env C s) s) (hv_spaces s spaces) (pts s)"
    using assms(2) by (auto simp: view_holds_def view_def freeze_def all_cells_def split: if_splits)
  then have "heap_ok (hv_off env) (view (freeze env C s) s) (hv_spaces s spaces) (hv_pages s xs) (pts s)"
    by (rule heap_view_change [OF h, rotated]) (simp add: view_def)
  then show ?thesis using assms(1) by (simp add: hv_ok_def hv_inv_def hv_heap_def)
qed

lemma hv_inv_thaw:
  assumes "hv_inv env fz spaces xs CPUS s"
  shows "hv_ok env spaces xs CPUS s"
proof -
  have "heap_ok (hv_off env) (view Map.empty s) (hv_spaces s spaces) (hv_pages s xs) (pts s)"
    by (rule heap_view_change [OF hv_invD(1) [OF assms]]) (simp_all add: view_def view_holds_def)
  then show ?thesis using assms by (simp add: hv_ok_def hv_inv_def hv_heap_def)
qed

lemma frozen_maps:
  assumes "hv_inv env (freeze env C s) spaces xs CPUS s'" "c \<in> C"
  shows "cell_map_of env c s' = cell_map_of env c s"
proof -
  have "view_holds (hv_off env) (view (freeze env C s) s') (hv_spaces s' spaces) (pts s')" using hv_invD(1) [OF assms(1)] by (simp add: heap_ok_def)
  moreover have "freeze env C s (cell_mm c) = Some (translation (hv_off env) (cell_mm c) (pts s))" using assms(2) by (simp add: freeze_def)
  ultimately show ?thesis unfolding view_holds_def cell_map_of_def view_def
    by (metis domI heap_view.select_convs(2) option.sel)
qed

lemma distinct_tables:
  assumes "hv_ok env spaces xs CPUS s" "x \<in> set (all_cells s)" "y \<in> set (all_cells s)" "root_table (cell_mm x) = root_table (cell_mm y)"
  shows "cell_addr x = cell_addr y"
proof -
  have "distinct (map (\<lambda>c. root_table (cell_mm c)) (all_cells s))"
    using assms(1) hv_invD(1) [of env Map.empty spaces xs CPUS s] by (simp add: hv_ok_def heap_ok_def spaces_ok_def o_def)
  then show ?thesis using assms(2-4) by (auto simp: distinct_map inj_on_def)
qed

lemma thawed_freeze:
  assumes "hv_ok env spaces xs CPUS s" "C \<subseteq> set (cells s)" "x \<in> set (all_cells s)" "\<forall>c\<in>C. cell_addr c \<noteq> cell_addr x"
  shows "thawed (view (freeze env C s) s) (cell_mm x)"
proof -
  have "root_table (cell_mm c) \<noteq> root_table (cell_mm x)" if "c \<in> C" for c
    using distinct_tables [OF assms(1) _ assms(3), of c] assms(2,4) that by (auto simp: all_cells_def)
  then show ?thesis by (auto simp: thawed_def view_def freeze_def split: if_splits)
qed

lemma thawed_root:
  assumes "hv_ok env spaces xs CPUS s" "C \<subseteq> set (cells s)"
  shows "thawed (view (freeze env C s) s) (cell_mm (root_cell s))"
proof (rule thawed_freeze [OF assms])
  have "cell_addr (root_cell s) \<notin> cell_addr ` set (cells s)" using hv_invD(3) assms(1) by (fastforce simp: hv_ok_def all_cells_def)
  then show "\<forall>c\<in>C. cell_addr c \<noteq> cell_addr (root_cell s)" using assms(2) by (metis image_eqI subsetD)
qed (simp add: all_cells_def)

subsection \<open>The operations\<close>

text \<open>C30: From a state in which every CPU belongs to exactly one cell, the ids and names of the cells are unique and their tables and
  structures share no page, \<open>cell_create\<close> returns to such a state. With 0 the new cell stands at the end of the list with the
  configuration and the CPUs of its description, which the root cell has lost; with an error the list of cells, the CPUs of each and the cell of each CPU are what they
  were (the state of devices may have changed). In both cases the memory map of every other cell but the root cell is what it was.

  Conditions: every cell answers the message about the change, is passive, shut down, or has a timeout (\<open>answers\<close>; the code waits for ever otherwise); the new
  description has a CPU set, a size below 4 GB and only whole-page regions (\<open>desc_ok\<close>; regions of less than a page, which are emulated, are not covered);
  the new cell, which has not run, has written no reply; and the units keep to the pages and the address space of the cell they are called for (\<open>unit_effect\<close>).\<close>

theorem cell_create_ok:
  assumes "hv_ok env spaces xs CPUS s" "env_ok env" "desc_ok env (guest_config env a)"
    "\<forall>x\<in>set (cells s). answers env x JAILHOUSE_MSG_RECONFIG_COMPLETED"
    "polls env (cfg_id (guest_config env a)) JAILHOUSE_MSG_RECONFIG_COMPLETED 0 = None"
  shows "\<exists>s' err. cell_create env this_cpu a s = Some (s', err) \<and> hv_ok env spaces xs CPUS s' \<and>
    (if err = 0 then cell_added (guest_config env a) s s' else cells_kept s s') \<and> (\<forall>c\<in>set (cells s). cell_map_of env c s' = cell_map_of env c s)"
  using cell_create_inv [OF hv_inv_freeze [OF assms(1) order_refl] thawed_root [OF assms(1) order_refl] assms(2-5), of this_cpu] hv_inv_thaw frozen_maps
  by metis

text \<open>C31: \<open>cell_destroy\<close> returns and keeps the state in order, on the condition that every cell answers its messages, is passive, shut down, or has a
  timeout (\<open>answers\<close>; the code waits for ever otherwise) and that the units keep to the pages and the address space of the cell they are called for. With 0 the cell
  with this id is gone from the list and its CPUs belong to the root cell again; with an error the cells are what they were. The memory map of
  every cell but the destroyed one and the root cell, which gets memory back, stays.\<close>

theorem cell_destroy_ok:
  assumes "hv_ok env spaces xs CPUS s" "env_ok env"
    "\<forall>x\<in>set (cells s). answers env x JAILHOUSE_MSG_SHUTDOWN_REQUEST \<and> answers env x JAILHOUSE_MSG_RECONFIG_COMPLETED"
  shows "\<exists>s' err. cell_destroy env this_cpu cid s = Some (s', err) \<and> hv_ok env spaces xs CPUS s' \<and>
    (if err = 0 then cell_removed cid s s' else cells_like s s') \<and>
    (\<forall>c\<in>set (cells s). ucast (cfg_id (config c)) \<noteq> cid \<longrightarrow> cell_map_of env c s' = cell_map_of env c s)"
proof -
  let ?C = "{c \<in> set (cells s). ucast (cfg_id (config c)) \<noteq> cid}"
  have C: "?C \<subseteq> set (cells s)" by blast
  have "thawed_cell (freeze env ?C s) cid s" unfolding thawed_cell_def
  proof (intro conjI ballI impI)
    fix c assume c: "c \<in> set (cells s)" "ucast (cfg_id (config c)) = cid"
    have "\<forall>x\<in>?C. cell_addr x \<noteq> cell_addr c"
      using assms(1) hv_invD(3) [of env Map.empty spaces xs CPUS s] c by (auto simp: hv_ok_def all_cells_def distinct_map inj_on_def)
    then show "thawed (view (freeze env ?C s) s) (cell_mm c)" using c(1) by (intro thawed_freeze [OF assms(1) C]) (simp_all add: all_cells_def)
  qed (rule thawed_root [OF assms(1) C])
  from cell_destroy_inv [OF hv_inv_freeze [OF assms(1) C] this assms(2,3), of this_cpu] obtain s' err where
    "cell_destroy env this_cpu cid s = Some (s', err)" "hv_inv env (freeze env ?C s) spaces xs CPUS s'" "if err = 0 then cell_removed cid s s' else cells_like s s'" by blast
  then show ?thesis using hv_inv_thaw frozen_maps [of env ?C s spaces xs CPUS s'] by blast
qed

text \<open>C32: \<open>cell_start\<close> and \<open>cell_set_loadable\<close> return, on the condition that every cell answers a request to shut down, is passive, shut down, or has a
  timeout (\<open>answers\<close>; the code waits for ever otherwise). They keep the state in order, which CPU belongs to which cell, and the memory map of
  every cell but the root cell, in the error case too. With 0 the cell is running and no longer loadable, or loadable.\<close>

theorem cell_start_load_ok:
  assumes "hv_ok env spaces xs CPUS s" "\<forall>x\<in>set (cells s). answers env x JAILHOUSE_MSG_SHUTDOWN_REQUEST"
  shows "(\<exists>s' err. cell_start env this_cpu cid s = Some (s', err) \<and> hv_ok env spaces xs CPUS s' \<and> cells_like s s' \<and>
      (err = 0 \<longrightarrow> cell_in_state (\<lambda>c. cell_state (comm c) = JAILHOUSE_CELL_RUNNING \<and> \<not> loadable c) cid s') \<and>
      (\<forall>c\<in>set (cells s). cell_map_of env c s' = cell_map_of env c s)) \<and>
    (\<exists>s' err. cell_set_loadable env this_cpu cid s = Some (s', err) \<and> hv_ok env spaces xs CPUS s' \<and> cells_like s s' \<and>
      (err = 0 \<longrightarrow> cell_in_state loadable cid s') \<and> (\<forall>c\<in>set (cells s). cell_map_of env c s' = cell_map_of env c s))"
proof -
  note f = hv_inv_freeze [OF assms(1) order_refl] and t = thawed_root [OF assms(1) order_refl]
  show ?thesis
  proof
    obtain s' err where "cell_start env this_cpu cid s = Some (s', err)" "hv_inv env (freeze env (set (cells s)) s) spaces xs CPUS s'" "cells_like s s'"
      "err = 0 \<longrightarrow> cell_in_state (\<lambda>c. cell_state (comm c) = JAILHOUSE_CELL_RUNNING \<and> \<not> loadable c) cid s'"
      using cell_start_inv [OF f t assms(2)] by blast
    then show "\<exists>s' err. cell_start env this_cpu cid s = Some (s', err) \<and> hv_ok env spaces xs CPUS s' \<and> cells_like s s' \<and>
      (err = 0 \<longrightarrow> cell_in_state (\<lambda>c. cell_state (comm c) = JAILHOUSE_CELL_RUNNING \<and> \<not> loadable c) cid s') \<and>
      (\<forall>c\<in>set (cells s). cell_map_of env c s' = cell_map_of env c s)" using hv_inv_thaw frozen_maps by blast
    obtain s' err where "cell_set_loadable env this_cpu cid s = Some (s', err)" "hv_inv env (freeze env (set (cells s)) s) spaces xs CPUS s'" "cells_like s s'"
      "err = 0 \<longrightarrow> cell_in_state loadable cid s'" using cell_set_loadable_inv [OF f t assms(2)] by blast
    then show "\<exists>s' err. cell_set_loadable env this_cpu cid s = Some (s', err) \<and> hv_ok env spaces xs CPUS s' \<and> cells_like s s' \<and>
      (err = 0 \<longrightarrow> cell_in_state loadable cid s') \<and> (\<forall>c\<in>set (cells s). cell_map_of env c s' = cell_map_of env c s)" using hv_inv_thaw frozen_maps by blast
  qed
qed

subsection \<open>Hypercalls\<close>

lemma count_dev: "dev_only s (count_hypercall cpu s)"
  by (simp add: dev_only_def count_hypercall_def)

lemma hv_ok_dev: "hv_ok env spaces xs CPUS s \<Longrightarrow> dev_only s s' \<Longrightarrow> hv_ok env spaces xs CPUS s'"
  unfolding hv_ok_def using hv_inv_dev by blast

text \<open>C33: A hypercall other than the request to disable the hypervisor and the calls to the memory arbiter returns and keeps the state in
  order, on these conditions: the caller is a CPU of a cell; every cell answers its messages, is passive, shut down, or has a timeout (\<open>answers\<close>); the
  description of a cell to be created has a CPU set and only whole-page regions (\<open>desc_ok\<close>) and that cell has written no reply yet; and the units keep to the pages
  and the address space of the cell they are called for. The code, the other arguments and which CPU calls are arbitrary.\<close>

theorem hypercall_keeps_state:
  assumes ok: "hv_ok env spaces xs CPUS s" and e: "env_ok env"
    and an: "\<forall>x\<in>set (cells s). answers env x JAILHOUSE_MSG_SHUTDOWN_REQUEST \<and> answers env x JAILHOUSE_MSG_RECONFIG_COMPLETED"
    and cfg: "code = 1 \<longrightarrow> desc_ok env (guest_config env arg1) \<and> polls env (cfg_id (guest_config env arg1)) JAILHOUSE_MSG_RECONFIG_COMPLETED 0 = None"
    and stats: "\<forall>cpu. length (cpu_stats (cpu_data s cpu)) = JAILHOUSE_NUM_CPU_STATS" and caller: "this_cpu \<in> CPUS" and code: "code \<noteq> 0" "code \<noteq> 11"
  shows "\<exists>s' r. hypercall env arbiter sys this_cpu code arg1 arg2 s = Some (s', r) \<and> hv_ok env spaces xs CPUS s'"
proof -
  define s0 where "s0 = count_hypercall this_cpu s"
  have dv: "dev_only s s0" unfolding s0_def by (rule count_dev)
  have ok0: "hv_ok env spaces xs CPUS s0" by (rule hv_ok_dev [OF ok dv])
  have cs: "cells s0 = cells s" "root_cell s0 = root_cell s" "cpu_cell (cpu_data s0 this_cpu) = cpu_cell (cpu_data s this_cpu)" using dv by (simp_all add: dev_only_def)
  have st: "length (cpu_stats (cpu_data s0 cpu)) = JAILHOUSE_NUM_CPU_STATS" for cpu using stats by (simp add: s0_def count_hypercall_def)
  define P where "P x \<longleftrightarrow> (\<exists>s' (r :: int). x = Some (s', r) \<and> hv_ok env spaces xs CPUS s')" for x
  have p1: "P (Some (s0, r))" for r using ok0 by (simp add: P_def)
  have "P (cell_create env this_cpu arg1 s0)" if "code = 1" unfolding P_def
  proof -
    have fz: "\<forall>x\<in>set (cells s0). answers env x JAILHOUSE_MSG_RECONFIG_COMPLETED" using an cs by simp
    show "\<exists>s' r. cell_create env this_cpu arg1 s0 = Some (s', r) \<and> hv_ok env spaces xs CPUS s'"
      using cell_create_inv [OF hv_inv_freeze [OF ok0 order_refl] thawed_root [OF ok0 order_refl] e _ fz, of arg1 this_cpu] cfg that hv_inv_thaw by metis
  qed
  moreover have "P (cell_destroy env this_cpu arg1 s0)"
  proof -
    have "thawed_cell (freeze env {} s0) arg1 s0" by (simp add: thawed_cell_def thawed_def view_def freeze_def)
    from cell_destroy_inv [OF hv_inv_freeze [OF ok0 empty_subsetI] this e, of this_cpu] show ?thesis using an hv_inv_thaw unfolding P_def cs by blast
  qed
  moreover have "P (cell_start env this_cpu arg1 s0)" "P (cell_set_loadable env this_cpu arg1 s0)"
  proof -
    have a: "\<forall>x\<in>set (cells s0). answers env x JAILHOUSE_MSG_SHUTDOWN_REQUEST" using an cs by simp
    note f = hv_inv_freeze [OF ok0 order_refl] and t = thawed_root [OF ok0 order_refl]
    show "P (cell_start env this_cpu arg1 s0)" "P (cell_set_loadable env this_cpu arg1 s0)"
      using cell_start_inv [OF f t a, of this_cpu arg1] cell_set_loadable_inv [OF f t a, of this_cpu arg1] hv_inv_thaw unfolding P_def by blast+
  qed
  moreover have "P (cpu_get_info sys this_cpu arg1 arg2 s0 \<bind> (\<lambda>r. Some (s0, r)))"
  proof -
    have "unat (arg2 - JAILHOUSE_CPU_INFO_STAT_BASE) < JAILHOUSE_NUM_CPU_STATS" if "arg2 - JAILHOUSE_CPU_INFO_STAT_BASE < of_nat JAILHOUSE_NUM_CPU_STATS"
      using that by (simp add: word_less_nat_alt JAILHOUSE_NUM_CPU_STATS_def)
    then show ?thesis using p1 st by (auto simp: cpu_get_info_def arr_get_def)
  qed
  moreover have "\<exists>c. find (\<lambda>c. cell_addr c = cpu_cell (cpu_data s0 this_cpu)) (root_cell s0 # cells s0) = Some c"
  proof -
    have own: "ownership CPUS s0" using ok0 by (simp add: hv_ok_def hv_invD)
    have "\<exists>c\<in>set (root_cell s0 # cells s0). cell_addr c = cpu_cell (cpu_data s0 this_cpu)"
      using ownershipD(1-3) [OF own] caller by (metis list.set_intros(1,2))
    then show ?thesis by (metis (mono_tags, lifting) find_None_iff option.exhaust)
  qed
  ultimately have "P (hypercall env arbiter sys this_cpu code arg1 arg2 s)"
    unfolding hypercall_def s0_def [symmetric] Let_def using p1 code by (auto split: option.split)
  then show ?thesis by (simp add: P_def)
qed

text \<open>C34: Management of cells, the state of a cell and the end of the hypervisor are for the root cell only: for a CPU of another cell each of these
  hypercalls returns -EPERM and changes nothing but the caller's statistics.\<close>

theorem hypercall_root_only:
  assumes "cpu_cell (cpu_data s this_cpu) \<noteq> cell_addr (root_cell s)" "code \<in> {0, 1, 2, 3, 4, 6}"
  shows "hypercall env arbiter sys this_cpu code arg1 arg2 s = Some (count_hypercall this_cpu s, - EPERM)"
proof -
  have "cpu_cell (cpu_data (count_hypercall this_cpu s) this_cpu) \<noteq> cell_addr (root_cell (count_hypercall this_cpu s))"
    using assms(1) count_dev [of s this_cpu] by (simp add: dev_only_def)
  then show ?thesis using assms(2)
    by (auto simp: hypercall_def Let_def hypervisor_disable_def cell_create_def cell_start_def cell_set_loadable_def cell_destroy_def
        cell_management_prologue_def cell_get_state_def)
qed

subsection \<open>Shutdown\<close>

text \<open>
  The CPUs in the order in which they get \<open>shutdown_lock\<close>, with the results of the first section. Other hypercalls may create and destroy cells
  between two of them, so each CPU comes with the number of cells it finds.
\<close>

primrec disable_run :: "(nat \<times> u32) list \<Rightarrow> 'u hv \<Rightarrow> 'u hv \<times> int list" where
  "disable_run [] s = (s, [])"
| "disable_run (e # es) s =
     (let (s1, r) = disable_enter (fst e) (s\<lparr>num_cells := snd e\<rparr>); (s2, rs) = disable_run es s1 in (s2, r # rs))"

lemma set_shutdown_fold:
  "shutdown_state (cpu_data (fold (set_shutdown v) cpus s) cpu) = (if cpu \<in> set cpus then v else shutdown_state (cpu_data s cpu))"
  "num_cells (fold (set_shutdown v) cpus s) = num_cells s" "root_cell (fold (set_shutdown v) cpus s) = root_cell s" "waiting_cpus (fold (set_shutdown v) cpus s) = waiting_cpus s"
  by (induction cpus arbitrary: s) (auto simp: set_shutdown_def)

lemma disable_started:
  assumes "\<forall>e\<in>set es. shutdown_state (cpu_data s (fst e)) = SHUTDOWN_STARTED"
  shows "snd (disable_run es s) = map (\<lambda>_. 0) es \<and> waiting_cpus (fst (disable_run es s)) = waiting_cpus s + length es"
  using assms
proof (induction es arbitrary: s)
  case (Cons e es)
  define s1 where "s1 = s\<lparr>num_cells := snd e, do_common_shutdown := True, waiting_cpus := waiting_cpus s + 1\<rparr>"
  have "disable_enter (fst e) (s\<lparr>num_cells := snd e\<rparr>) = (s1, 0)"
    using Cons.prems by (simp add: disable_enter_def s1_def SHUTDOWN_STARTED_def SHUTDOWN_NONE_def)
  then show ?case using Cons.IH [of s1] Cons.prems by (auto simp: s1_def split: prod.splits)
qed simp

lemma disable_refused:
  assumes "distinct (map fst es)" "\<forall>e\<in>set es. shutdown_state (cpu_data s (fst e)) = - EBUSY"
  shows "snd (disable_run es s) = map (\<lambda>_. - EBUSY) es \<and>
    (\<forall>cpu. shutdown_state (cpu_data (fst (disable_run es s)) cpu) = (if cpu \<in> set (map fst es) then SHUTDOWN_NONE else shutdown_state (cpu_data s cpu)))"
  using assms
proof (induction es arbitrary: s)
  case (Cons e es)
  define s1 where "s1 = set_shutdown SHUTDOWN_NONE (fst e) (s\<lparr>num_cells := snd e\<rparr>)"
  have s1: "shutdown_state (cpu_data s1 cpu) = (if cpu = fst e then SHUTDOWN_NONE else shutdown_state (cpu_data s cpu))" for cpu
    by (simp add: s1_def set_shutdown_def)
  have "disable_enter (fst e) (s\<lparr>num_cells := snd e\<rparr>) = (s1, - EBUSY)"
    using Cons.prems by (simp add: disable_enter_def s1_def SHUTDOWN_STARTED_def SHUTDOWN_NONE_def EBUSY_def)
  then have run: "disable_run (e # es) s = (fst (disable_run es s1), - EBUSY # snd (disable_run es s1))" by (simp split: prod.split)
  have "fst x \<noteq> fst e" if "x \<in> set es" for x using that Cons.prems(1) by (metis distinct.simps(2) image_eqI list.map(2) list.set_map)
  then have "\<forall>x\<in>set es. shutdown_state (cpu_data s1 (fst x)) = - EBUSY" using Cons.prems(2) s1 by simp
  moreover have "distinct (map fst es)" using Cons.prems(1) by simp
  ultimately have ih: "snd (disable_run es s1) = map (\<lambda>_. - EBUSY) es"
    "\<And>cpu. shutdown_state (cpu_data (fst (disable_run es s1)) cpu) = (if cpu \<in> set (map fst es) then SHUTDOWN_NONE else shutdown_state (cpu_data s1 cpu))"
    using Cons.IH [of s1] by blast+
  show ?case unfolding run by (simp only: fst_conv snd_conv ih s1) simp
qed simp

text \<open>C35: All CPUs of the root cell get the same answer to a request to disable the hypervisor, in whatever order they come and however the number of cells
  changes between them: the answer the first of them finds, 0 when there is no other cell then, and all of them are counted as waiting, or else -EBUSY, and the state of
  the request is reset on every CPU. (This is the first section under \<open>shutdown_lock\<close>; the CPUs of the root cell stay the same.)\<close>

theorem disable_agreement:
  assumes "distinct (map fst es)" "fst ` set es = {cpu. cell_owns_cpu (root_cell s) cpu}" "\<forall>e\<in>set es. shutdown_state (cpu_data s (fst e)) = SHUTDOWN_NONE"
  shows "snd (disable_run es s) = map (\<lambda>_. if snd (hd es) = 1 then 0 else - EBUSY) es \<and>
    (if snd (hd es) = 1 then waiting_cpus (fst (disable_run es s)) = waiting_cpus s + length es
     else \<forall>e\<in>set es. shutdown_state (cpu_data (fst (disable_run es s)) (fst e)) = SHUTDOWN_NONE)"
proof (cases es)
  case Nil
  then show ?thesis by simp
next
  case (Cons e rest)
  define v where "v = (if snd e = 1 then SHUTDOWN_STARTED else - EBUSY)"
  define s1 where "s1 = fold (set_shutdown v) (for_each_cpu (cpu_set (root_cell s))) (s\<lparr>num_cells := snd e\<rparr>)"
  have s1: "root_cell s1 = root_cell s" "num_cells s1 = snd e" "waiting_cpus s1 = waiting_cpus s" by (simp_all add: s1_def set_shutdown_fold)
  have sh: "shutdown_state (cpu_data s1 (fst x)) = v" if "x \<in> set es" for x
  proof -
    have "fst x \<in> set (for_each_cpu (cpu_set (root_cell s)))" using that assms(2) for_each_owns [of "root_cell s"] by auto
    then show ?thesis by (simp add: s1_def set_shutdown_fold)
  qed
  have "v \<noteq> SHUTDOWN_NONE" by (simp add: v_def SHUTDOWN_STARTED_def SHUTDOWN_NONE_def EBUSY_def)
  moreover have "s1\<lparr>num_cells := snd e\<rparr> = s1" using s1(2) by (metis hv.surjective hv.update_convs)
  ultimately have "disable_enter (fst e) (s\<lparr>num_cells := snd e\<rparr>) = disable_enter (fst e) (s1\<lparr>num_cells := snd e\<rparr>)"
    using assms(3) Cons sh [of e] by (simp add: disable_enter_def v_def [symmetric] s1_def [symmetric] Let_def)
  then have run: "disable_run es s = disable_run es s1" by (simp add: Cons)
  show ?thesis
    using run s1(3) sh disable_started [of es s1] disable_refused [OF assms(1), of s1] Cons by (cases "snd e = 1") (simp_all add: v_def)
qed

subsection \<open>A system with two cells\<close>

definition sys_st :: pt_state where
  "sys_st = \<lparr>mem_pool = \<lparr>base_address = 0x100000, pages = 64, used_pages = 4, used_bitmap = (\<lambda>_. 15), pool_flags = 1\<rparr>, pt_mem = (\<lambda>_. 0), tlb_flushes = []\<rparr>"

definition sys_desc :: "string \<Rightarrow> u32 \<Rightarrow> u64 \<Rightarrow> cell_desc" where
  "sys_desc name cid cpus = \<lparr>cfg_name = name, cfg_id = cid, cfg_flags = 1, cfg_cpu_set_size = 1, cfg_cpu_set = [cpus],
     cfg_mem_regions = [\<lparr>phys_start = 0x80000000, virt_start = 0, mem_size = 0x10000, mem_flags = 0x1f\<rparr>], cfg_col_regions = [],
     cfg_num_cache_regions = 0, cfg_num_irqchips = 0, cfg_pio_bitmap_size = 0, cfg_num_pci_devices = 0, cfg_num_pci_caps = 0,
     cfg_cpu_reset_address = 0, cfg_msg_reply_timeout = 0\<rparr>"

definition sys_cell :: "u64 \<Rightarrow> cell_desc \<Rightarrow> u64 \<Rightarrow> u64 \<Rightarrow> u64 \<Rightarrow> nat \<Rightarrow> hv_cell" where
  "sys_cell a cfg cpus table mmio n = \<lparr>cell_addr = a, config = cfg, cpu_set = \<lparr>max_cpu_id = 7, bitmap = [cpus]\<rparr>, cpu_set_page = 0,
     cell_mm = \<lparr>root_paging = arm_paging, root_table = table, is_hv_structs = False\<rparr>,
     cell_mmio = \<lparr>mmio_locations = [\<lparr>loc_start = 0, loc_size = 0\<rparr>], mmio_handlers = [\<lparr>hnd_handler = 0, hnd_arg = 0\<rparr>], num_mmio_regions = 0, max_mmio_regions = 1\<rparr>,
     mmio_page = mmio, comm = \<lparr>cell_state = JAILHOUSE_CELL_SHUT_DOWN, msg_to_cell = 0, reply_from_cell = 0\<rparr>, loadable = False, data_pages = n, unit_pages = []\<rparr>"

definition sys_root :: hv_cell where "sys_root = sys_cell 0x1000 (sys_desc ''root'' 0 15) 7 0x100000 0 0"
definition sys_guest :: hv_cell where "sys_guest = sys_cell 0x102000 (sys_desc ''guest'' 1 8) 8 0x101000 0x103000 1"

definition sys_hv :: "unit hv" where
  "sys_hv = \<lparr>pts = sys_st, root_cell = sys_root, cells = [sys_guest], num_cells = 2,
     cpu_data = (\<lambda>cpu. \<lparr>cpu_ctl_of = demo_ctl, cpu_cell = if cpu = 3 then 0x102000 else 0x1000, failed = False, cpu_stats = replicate 8 0, shutdown_state = 0\<rparr>),
     devices = (), waiting_cpus = 0, do_common_shutdown = False\<rparr>"

text \<open>
  Two units that do what the interrupt controller and PCI do for a new cell: one maps a page of its CPU interface into the cell and registers an MMIO
  region, the other keeps a page for the cell.
\<close>

definition gicv_region :: jailhouse_memory where
  "gicv_region = \<lparr>phys_start = 0x3886000, virt_start = 0x3882000, mem_size = 0x1000, mem_flags = 0xb\<rparr>"

definition gic_unit :: "unit hv_unit" where
  "gic_unit = \<lparr>mmio_count_regions = (\<lambda>_. 1),
     unit_cell_init = (\<lambda>(c, d, st).
       case arch_map_memory_region 0 0 (cell_mm c) gicv_region st of
         None \<Rightarrow> ((c, d, st), - EINVAL)
       | Some (st1, err) \<Rightarrow>
           case mmio_region_register 0x3881000 0x1000 0 0 (cell_mmio c) of
             None \<Rightarrow> ((c, d, st1), - EINVAL)
           | Some tab \<Rightarrow> ((c\<lparr>cell_mmio := tab\<rparr>, d, st1), err)),
     unit_cell_exit = (\<lambda>w. w)\<rparr>"

definition pci_unit :: "unit hv_unit" where
  "pci_unit = \<lparr>mmio_count_regions = (\<lambda>_. 0),
     unit_cell_init = (\<lambda>(c, d, st).
       case pool_alloc 1 st of
         None \<Rightarrow> ((c, d, st), - EINVAL)
       | Some (st1, a) \<Rightarrow> if a = 0 then ((c, d, st1), - ENOMEM) else ((c\<lparr>unit_pages := a # unit_pages c\<rparr>, d, st1), 0)),
     unit_cell_exit = (\<lambda>(c, d, st).
       case unit_pages c of
         [] \<Rightarrow> (c, d, st)
       | a # as \<Rightarrow> (c\<lparr>unit_pages := as\<rparr>, d, pool_free a 1 st))\<rparr>"

definition sys_env :: "unit hv_env" where
  "sys_env = \<lparr>hv_off = 0, online_cpus = 4, remap_pool = mem_pool sys_st, cpu_parange = 48, sizeof_cell = 512, mask_end = False,
     colors = \<lparr>fragment_unit_size = 0x1000, fragment_unit_offset = 0x10000, cachesize = 0x100000\<rparr>, guest_mapped = (\<lambda>_ _. True),
     guest_config = (\<lambda>_. sys_desc ''new'' 2 4), polls = (\<lambda>_ _ _. None),
     units = [gic_unit, pci_unit],
     park_hook = (\<lambda>_ d. d), cell_create_hook = (\<lambda>_ d. d), cell_destroy_hook = (\<lambda>_ d. d), cell_reset_hook = (\<lambda>_ d. d), commit_hook = (\<lambda>_ d. d), shutdown_hook = (\<lambda>d. d)\<rparr>"

lemma sys_pages:
  shows "st_ok 0 sys_st" "k < 4 \<Longrightarrow> used_page sys_st (0x100000 + of_nat (k * 4096))" "\<not> in_pool sys_st 0x1000"
proof -
  have pool: "pool_ok (mem_pool sys_st)" by (simp add: pool_ok_def sys_st_def PAGE_SIZE_def)
  have nat: "unat (page_addr (mem_pool sys_st) k) = 0x100000 + k * 4096" if "k < 64" for k using page_addr_nat(1) [OF pool, of k] that by (simp add: sys_st_def PAGE_SIZE_def)
  have "unat (page_addr (mem_pool sys_st) k - 0) < 2 ^ 48" if "k < 64" for k using nat [OF that] that by simp
  then show "st_ok 0 sys_st" using pool by (auto simp: st_ok_def PAGE_SCRUB_ON_FREE_def sys_st_def)
  show "used_page sys_st (0x100000 + of_nat (k * 4096))" if "k < 4"
  proof -
    have m: "(15 :: u64) = mask 4" by (simp add: mask_eq_exp_minus_1)
    have "page_used (mem_pool sys_st) k" using that by (simp add: page_used_def sys_st_def m bit_mask_iff)
    then show ?thesis using that by (auto simp: used_page_def sys_st_def page_addr_def PAGE_SIZE_def intro!: exI [of _ k])
  qed
  have "page_addr (mem_pool sys_st) k \<noteq> 0x1000" if "k < 64" for k using nat [OF that] by auto
  then show "\<not> in_pool sys_st 0x1000" unfolding in_pool_def by (metis (no_types, lifting) pt_state.select_convs(1) page_pool.select_convs(2) sys_st_def)
qed

lemma sys_heap: "heap_ok 0 (view Map.empty sys_hv) (hv_spaces sys_hv []) (hv_pages sys_hv []) sys_st"
proof -
  have z: "\<And>x i. \<not> bit (pt_mem sys_st (ent x i)) 0" by (simp add: sys_st_def)
  note e = empty_table [where m = "pt_mem sys_st" and off = 0 and n = 3, OF z]
  have u: "used_page sys_st 0x100000" "used_page sys_st 0x101000" "used_page sys_st 0x102000" "used_page sys_st 0x103000"
    using sys_pages(2) [of 0] sys_pages(2) [of 1] sys_pages(2) [of 2] sys_pages(2) [of 3] by simp_all
  have p: "PAGES 32 = 1" by (simp add: PAGES_def PAGE_SIZE_def)
  show ?thesis using e u sys_pages(1,3)
    by (simp add: heap_ok_def spaces_ok_def arm_tables_def pt_ok_def view_def view_holds_def sys_hv_def all_cells_def sys_root_def sys_guest_def sys_cell_def cell_pages_def p block_Suc)
qed

lemma sys_owns: "cell_owns_cpu sys_root cpu \<longleftrightarrow> cpu < 3" "cell_owns_cpu sys_guest cpu \<longleftrightarrow> cpu = 3"
proof -
  have m: "(7 :: u64) = mask 3" by (simp add: mask_eq_exp_minus_1)
  have b: "bit (7 :: u64) k \<longleftrightarrow> k < 3" "bit (8 :: u64) k \<longleftrightarrow> k = 3" if "k < 64" for k
    using that bit_exp_iff [where 'a = "64 word", of 3 k] by (simp_all add: m bit_mask_iff)
  show "cell_owns_cpu sys_root cpu \<longleftrightarrow> cpu < 3" "cell_owns_cpu sys_guest cpu \<longleftrightarrow> cpu = 3"
    using b [of cpu] by (cases "cpu < 64"; simp add: cell_owns_cpu_def sys_root_def sys_guest_def sys_cell_def test_bit_def; linarith)+
qed

lemma sys_desc_ok: "desc_ok sys_env (sys_desc name cid cpus)"
  by (simp add: desc_ok_def sys_desc_def cfg_bytes_def SIZEOF_CELL_DESC_def PAGE_SIZE_def plain_region_def JAILHOUSE_MEM_COMM_REGION_def take_bit_eq_mask mask_eq_exp_minus_1)

lemma sys_ok: "hv_ok sys_env [] [] {0..3} sys_hv"
proof -
  have own: "ownership {0..3} sys_hv"
  proof (rule ownershipI)
    fix cpu
    show "cpu \<in> {0..3} \<longleftrightarrow> cell_owns_cpu (root_cell sys_hv) cpu \<or> (\<exists>c\<in>set (cells sys_hv). cell_owns_cpu c cpu)" by (auto simp: sys_hv_def sys_owns)
  qed (auto simp: sys_hv_def sys_owns in_bitmap_def, auto simp: sys_root_def sys_guest_def sys_cell_def)
  have p: "PAGES 32 = 1" by (simp add: PAGES_def PAGE_SIZE_def)
  have "cell_ok sys_env sys_guest \<and> 0 < data_pages sys_guest" using sys_desc_ok by (simp add: cell_ok_def sys_guest_def sys_cell_def p)
  moreover have "root_ok sys_root"
    by (simp add: root_ok_def sys_root_def sys_cell_def sys_desc_def plain_region_def JAILHOUSE_MEM_COMM_REGION_def take_bit_eq_mask mask_eq_exp_minus_1)
  ultimately show ?thesis unfolding hv_ok_def hv_inv_def hv_heap_def using own sys_heap
    by (simp add: sys_hv_def sys_env_def all_cells_def) (simp add: sys_root_def sys_guest_def sys_cell_def sys_desc_def)
qed

lemma shift_up_max: "shift_up i k c = Some c' \<Longrightarrow> max_mmio_regions c' = max_mmio_regions c"
  by (induction k arbitrary: c) (fastforce simp: copy_region_def arr_get_def arr_set_def split: if_splits bind_splits)+

lemma register_max: "mmio_region_register start sz h arg c = Some c' \<Longrightarrow> max_mmio_regions c' = max_mmio_regions c"
  by (auto simp: mmio_region_register_def Let_def arr_set_def split: if_splits bind_splits dest!: shift_up_max)

lemma gic_unit_ok: "hv_off env = 0 \<Longrightarrow> unit_ok env gic_unit"
proof -
  assume off: "hv_off env = 0"
  have fits: "region_fits 0 0 gicv_region"
    by (rule region_fits_plain) (simp_all add: gicv_region_def plain_region_def JAILHOUSE_MEM_COMM_REGION_def take_bit_eq_mask mask_eq_exp_minus_1)
  have "unit_effect env (c, d, st) (fst (unit_cell_init gic_unit (c, d, st)))" for c d st
  proof (cases "arch_map_memory_region 0 0 (cell_mm c) gicv_region st")
    case None
    then show ?thesis by (simp add: gic_unit_def)
  next
    case (Some r)
    obtain st1 err where r: "r = (st1, err)" by fastforce
    have h: "heap_ok 0 vw SP PG st1" if "heap_ok 0 vw SP PG st" "cell_mm c \<in> set SP" "thawed vw (cell_mm c)" for vw SP PG
      using heap_map [OF that fits] Some r by auto
    show ?thesis using Some r off h register_max
      by (cases "mmio_region_register 0x3881000 0x1000 0 0 (cell_mmio c)") (auto simp: gic_unit_def)
  qed
  then show ?thesis by (auto simp: unit_ok_def gic_unit_def)
qed

lemma pci_unit_ok: "hv_off env = 0 \<Longrightarrow> unit_ok env pci_unit"
proof -
  assume off: "hv_off env = 0"
  have "unit_effect env (c, d, st) (fst (unit_cell_init pci_unit (c, d, st)))" for c d st
  proof (cases "pool_alloc 1 st")
    case None
    then show ?thesis by (simp add: pci_unit_def)
  next
    case (Some r)
    obtain st1 a where r: "r = (st1, a)" by fastforce
    have h: "heap_ok 0 vw SP (if a = 0 then PG else a # PG) st1" if h0: "heap_ok 0 vw SP PG st" for vw SP PG
    proof -
      have "(0 :: u32) < 1" by simp
      with h0 show ?thesis by (cases rule: heap_alloc) (use Some r h0 in \<open>simp_all add: block_Suc\<close>)
    qed
    show ?thesis using Some r off h by (cases "a = 0") (auto simp: pci_unit_def split: if_splits)
  qed
  moreover have "unit_effect env (c, d, st) (unit_cell_exit pci_unit (c, d, st))" for c d st
  proof (cases "unit_pages c")
    case (Cons a as)
    have "heap_ok 0 vw SP (as @ PG) (pool_free a 1 st)" if h: "heap_ok 0 vw SP (a # as @ PG) st" for vw SP PG
      using cell_struct_heap(1) [of 0 vw SP a 1 "as @ PG" st] h by (simp add: block_Suc)
    then show ?thesis using Cons off by (simp add: pci_unit_def)
  qed (simp add: pci_unit_def)
  ultimately show ?thesis by (auto simp: unit_ok_def)
qed

lemma sys_env_ok: "env_ok sys_env"
proof -
  have "hv_off sys_env = 0" by (simp add: sys_env_def)
  from gic_unit_ok [OF this] pci_unit_ok [OF this] have "\<forall>u\<in>set (units sys_env). unit_ok sys_env u" by (simp add: sys_env_def)
  then show ?thesis by (simp add: env_ok_def) (simp add: sys_env_def gic_unit_def pci_unit_def)
qed

lemma sys_answers: "\<forall>x\<in>set (cells sys_hv). answers sys_env x msg"
  by (simp add: sys_hv_def answers_def sys_guest_def sys_cell_def sys_desc_def JAILHOUSE_CELL_PASSIVE_COMMREG_def)

theorem cell_create_ok_witness:
  "\<exists>s' err. cell_create sys_env 0 0 sys_hv = Some (s', err) \<and> hv_ok sys_env [] [] {0..3} s' \<and>
    (if err = 0 then cell_added (sys_desc ''new'' 2 4) sys_hv s' else cells_kept sys_hv s') \<and> cell_map_of sys_env sys_guest s' = cell_map_of sys_env sys_guest sys_hv"
proof -
  have g: "guest_config sys_env 0 = sys_desc ''new'' 2 4" and c: "cells sys_hv = [sys_guest]" by (simp_all add: sys_env_def sys_hv_def)
  have "desc_ok sys_env (guest_config sys_env 0)" "polls sys_env (cfg_id (guest_config sys_env 0)) JAILHOUSE_MSG_RECONFIG_COMPLETED 0 = None"
    using sys_desc_ok by (simp_all add: sys_env_def)
  from cell_create_ok [OF sys_ok sys_env_ok this(1) sys_answers this(2), of 0]
  show ?thesis unfolding g c by simp
qed

theorem cell_destroy_ok_witness:
  "\<exists>s' err. cell_destroy sys_env 0 1 sys_hv = Some (s', err) \<and> hv_ok sys_env [] [] {0..3} s' \<and> (if err = 0 then cell_removed 1 sys_hv s' else cells_like sys_hv s')"
  using cell_destroy_ok [OF sys_ok sys_env_ok, of 0 1] sys_answers by blast

theorem cell_start_load_ok_witness:
  "(\<exists>s' err. cell_start sys_env 0 1 sys_hv = Some (s', err) \<and> hv_ok sys_env [] [] {0..3} s') \<and>
   (\<exists>s' err. cell_set_loadable sys_env 0 1 sys_hv = Some (s', err) \<and> hv_ok sys_env [] [] {0..3} s')"
  using cell_start_load_ok [OF sys_ok sys_answers, of 0 1] by blast

theorem hypercall_keeps_state_witness:
  "\<exists>s' r. hypercall sys_env (\<lambda>_ _ s. Some (s, 0)) (sys_desc ''root'' 0 15) 0 1 0 0 sys_hv = Some (s', r) \<and> hv_ok sys_env [] [] {0..3} s'"
proof -
  have "\<forall>x\<in>set (cells sys_hv). answers sys_env x JAILHOUSE_MSG_SHUTDOWN_REQUEST \<and> answers sys_env x JAILHOUSE_MSG_RECONFIG_COMPLETED" using sys_answers by blast
  moreover have "(1 :: u64) = 1 \<longrightarrow> desc_ok sys_env (guest_config sys_env 0) \<and> polls sys_env (cfg_id (guest_config sys_env 0)) JAILHOUSE_MSG_RECONFIG_COMPLETED 0 = None"
    using sys_desc_ok by (simp add: sys_env_def)
  moreover have "\<forall>cpu. length (cpu_stats (cpu_data sys_hv cpu)) = JAILHOUSE_NUM_CPU_STATS" by (simp add: sys_hv_def JAILHOUSE_NUM_CPU_STATS_def)
  ultimately show ?thesis by (rule hypercall_keeps_state [OF sys_ok sys_env_ok]) simp_all
qed

theorem hypercall_root_only_witness:
  "hypercall sys_env (\<lambda>_ _ s. Some (s, 0)) (sys_desc ''root'' 0 15) 3 4 1 0 sys_hv = Some (count_hypercall 3 sys_hv, - EPERM)"
  by (rule hypercall_root_only) (simp_all add: sys_hv_def sys_root_def sys_cell_def)

text \<open>The other cell goes away after the first CPU has asked: the other two are refused as well.\<close>

theorem disable_agreement_witness:
  "snd (disable_run [(2, 2), (0, 1), (1, 1)] sys_hv) = [- EBUSY, - EBUSY, - EBUSY] \<and>
   shutdown_state (cpu_data (fst (disable_run [(2, 2), (0, 1), (1, 1)] sys_hv)) 2) = SHUTDOWN_NONE"
proof -
  have d: "distinct (map fst [(2, 2 :: u32), (0, 1), (1 :: nat, 1)])" by simp
  have c: "fst ` set [(2, 2 :: u32), (0, 1), (1 :: nat, 1)] = {cpu. cell_owns_cpu (root_cell sys_hv) cpu}" by (auto simp: sys_hv_def sys_owns)
  have n: "\<forall>e\<in>set [(2, 2 :: u32), (0, 1), (1, 1)]. shutdown_state (cpu_data sys_hv (fst e)) = SHUTDOWN_NONE" by (simp add: sys_hv_def SHUTDOWN_NONE_def)
  show ?thesis using disable_agreement [OF d c n] by (simp del: disable_run.simps)
qed

end
