(* ===== verification/Spec2Isabelle.thy ===== *)
theory Spec2Isabelle
  imports FixedPriority ArbiterSignals Tdma GicDist Dprem EeCounter CellManagement
begin

text \<open>
  \<^bold>\<open>Memory-centric scheduling on a partitioning hypervisor\<close>

  The program is a Jailhouse hypervisor (\<open>src/jailhouse-master_dprem\<close>) extended with a memory arbiter,
  and an ERIKA 3 real-time kernel (\<open>src/ee_files/pkg\<close>) that runs as guest on each core and asks the
  arbiter for the memory before a task enters its memory phase. A guest asks with a hypercall; the
  hypervisor answers ACK or NACK and later raises the interrupts STARTED and ENDED in the guests, which
  suspend and resume tasks. The parts and the theories that model them:

  \<^item> \<open>Prelude\<close>, \<open>CpuSet\<close>, \<open>MemoryArbiter\<close>: shared lists and words, the CPU sets of a cell, and the
    arbiter interface: hypercall codes, results, interrupts (\<open>include/jailhouse/hypercall.h\<close>,
    \<open>memory_arbitration.h\<close>). \<open>MemoryArbiter\<close> states what a guest core relies on as a locale
    and proves the protocol facts (exclusion, no lost wake-up) once in it.
  \<^item> \<open>FixedPriority\<close>: \<open>arch/arm64/fixed_priority.c\<close>. State \<open>fp_state\<close> is the request table, the token
    owner and its priority; \<open>fixed_priority_hypercall\<close>, \<open>request_memory\<close>, \<open>disable_memory_request\<close> and
    \<open>on_arch_park_cpu\<close> are the operations, which return the interrupts they send. The arbiter locale is
    interpreted on them. The relation \<open>arb_step\<close> has the calls of every CPU and changes of the cells between them,
    \<open>fp_step\<close> the calls of single-core guests in fixed cells.
  \<^item> \<open>Tdma\<close>: \<open>arch/arm64/tdma.c\<close>. Slots, timers and interrupt priorities of the time-triggered arbiter;
    the clock is an argument.
  \<^item> \<open>IrqPending\<close>: \<open>arch/arm-common/irqchip.c\<close> and \<open>gic-v2.c\<close>: the ring of pending interrupts, list
    registers, injection, migration at shutdown, routing of software-generated interrupts.
  \<^item> \<open>ArbiterSignals\<close>: the fixed-priority arbiter, the interrupt path of \<open>IrqPending\<close> with the guest's acknowledgement
    and completion of interrupts, and single-core guests as one system, a refinement of the protocol of
    \<open>MemoryArbiter\<close> as long as no core is sent an arbitration interrupt before it completed the previous one.
  \<^item> \<open>GicDist\<close>: the distributor part of the same files: trapped accesses of guests, restricted to the interrupts of their
    cell, the interrupts a cell gets and gives back, and the routing of interrupts. The registers of the hardware are arguments.
  \<^item> \<open>SchedNodes\<close>: the scheduler nodes of the kernel (\<open>ee_scheduler_types.h\<close>, \<open>ee_oo_scheduler.c\<close>) and
    the list helpers of \<open>dprem.c\<close>, on a heap of nodes, refined to the lists the other theories use.
  \<^item> \<open>EeKernel\<close>: the single-core scheduler (\<open>ee_oo_sched_partitioned.c\<close>, \<open>ee_oo_kernel.c\<close>,
    \<open>ee_std_change_context.c\<close>, \<open>ee_oo_sched_entry_points.c\<close>). The record \<open>kern\<close> is the core and kernel
    control block; \<open>kinv\<close> is its invariant: each scheduler node is in exactly one of free list, stack,
    ready queue, suspension queue or waiting task, the activation counters count the nodes, and the top
    of the stack is the one running task.
  \<^item> \<open>EeOsek\<close>: the OSEK services on tasks, resources, events and interrupts and the creation of tasks
    (\<open>ee_oo_api_osek.c\<close>, \<open>ee_oo_api_dynamic.c\<close>). A service that switches the context returns no status:
    what is left of it is a continuation in \<open>conts\<close>, run by \<open>resume_current\<close> when the caller gets the CPU
    back.
  \<^item> \<open>EeCounter\<close>: counters and alarms (\<open>ee_oo_counter.c\<close>, \<open>ee_oo_alarm.c\<close> and their services).
  \<^item> \<open>Dprem\<close>: the guest client \<open>arch/aarch64/dprem.c\<close>: the two phases and the two interrupt handlers,
    with the hypervisor as a parameter, and the proof that it is a client of the arbiter protocol.
  \<^item> \<open>PagePool\<close>: the page allocator of \<open>hypervisor/paging.c\<close> over the bit operations of \<open>bitops.h\<close>; its
    contract with clients is the locale \<open>page_provider\<close>. \<open>Mmio\<close>: the dispatcher of trapped accesses
    (\<open>mmio.c\<close>), a client of the pool. \<open>Coloring\<close>: the cut of coloured memory regions into fragments
    (\<open>arch/arm-common/coloring.c\<close>) that keeps cells apart in the cache.
  \<^item> \<open>PageTable\<close>: the page tables of ARM (\<open>hypervisor/paging.c\<close>, \<open>arch/arm-common/paging.c\<close>): the entry
    functions of each level as records of functions, \<open>paging_create\<close>, \<open>paging_destroy\<close>, \<open>split_hugepage\<close> and
    \<open>paging_virt2phys\<close> on a memory of table entries, with tables from the page pool. \<open>PageTree\<close> and
    \<open>PageSteps\<close> give the tables their meaning, the translation of addresses, and the invariant that they
    are a tree in the pool; \<open>PageRemoval\<close> and \<open>PageCreation\<close> follow the loops by induction over ranges and
    levels; \<open>PageMap\<close> states the results.
  \<^item> \<open>CpuControl\<close>: control of CPUs (\<open>arch/arm-common/control.c\<close>, \<open>psci.c\<close>, \<open>arm_cpu_reset\<close> of
    \<open>arch/arm64/control.c\<close>): suspend, resume, reset, park, the event loop, power control by guests, and the
    interleavings of a CPU, its manager and its peers as step relations.
  \<^item> \<open>AddressSpaces\<close>: the second-stage tables of cells (\<open>arch/arm-common/mmu_cell.c\<close>): creation and destruction of
    a space, mapping and unmapping of plain and coloured regions, and the invariant that the spaces are disjoint
    trees in one pool.
  \<^item> \<open>CellHeap\<close>, \<open>Cells\<close>: pages that back the structures of cells, the data of cells and CPUs, the helpers of
    \<open>hypervisor/control.c\<close> on CPU sets, regions and messages. \<open>hv\<close> is the state of the hypervisor: page pool and
    tables, root cell, the list of the other cells, the data of each CPU, and the state \<open>'u\<close> of the device units. The
    record \<open>hv_env\<close> holds what the code calls and the model does not contain: the guest memory with the
    configurations, the answers of cells to messages, and the units with their hooks.
  \<^item> \<open>CellOps\<close>, \<open>CellManagement\<close>: \<open>cell_create\<close>, \<open>cell_start\<close>, \<open>cell_set_loadable\<close>, \<open>cell_destroy\<close>,
    \<open>cell_get_state\<close>, \<open>hypervisor_disable\<close>, \<open>shutdown\<close> and the dispatcher \<open>hypercall\<close> (\<open>hypervisor/control.c\<close>), with
    every error path and its undoing. The invariant \<open>hv_ok\<close>: each CPU belongs to exactly the cell its data points to,
    names and ids of cells are unique, the tables of all cells are disjoint trees, and no page of the pool has two uses.
  \<^item> this theory: the steps of a guest core (services, interrupts, ticks, memory phases, changes in the
    hypervisor) with the invariant over all reachable states, and the guest client over the
    fixed-priority arbiter.

  \<^bold>\<open>What the theorems show.\<close> For the arbiters: whatever CPUs call the fixed-priority arbiter and
  however cells change in between, a held token belongs to a requester, and while the first CPU of a cell has an open
  request, the token is held at no lower priority (the election of the code looks at first CPUs only, and \<open>second_cpu_stranded\<close> shows what happens to
  the others). For single-core guests at most one core is in its memory phase, up to an ENDED interrupt on its way, and no
  core waits for a token that is free. These two facts are proved over the ring and the list registers, on the
  condition that a core completes an arbitration interrupt before it gets the next and that its ring has room;
  the code does not ensure it, and \<open>fp_wakeup_lost_without_promptness\<close> is a run in which a wake-up is lost. TDMA
  slots exclude each other when timer interrupts are handled in time; begin, end and timer handlers
  have complete functional specifications. For the interrupt path: the ring is a FIFO of 255 entries that drops what does not
  fit, injection moves a prefix of it to list registers and ends, shutdown loses no interrupt; word accesses of a
  guest to the distributor neither change nor show interrupts of other cells, interrupts are routed to CPUs of
  their cell, and the root cell gets the interrupts of a destroyed cell back. For the kernel: every service
  keeps \<open>kinv\<close>, returns on every state that satisfies it, and does what OSEK says on each branch, errors
  included; a preemption point leaves no queued task above the running one; alarms count down and expire
  on their tick. For the client: begin, end and the handlers keep \<open>kinv\<close>, make the transitions the
  arbiter assumes and resume the most urgent suspended task. For the hypervisor's memory: allocation is
  first fit, complete on whole bitmap words and undone by release; the binary search for a region is
  equivalent to a linear one and registration redirects exactly the accesses of the region; a coloured
  region maps exactly its colours, and disjoint colours are disjoint memory for regions whose starts agree modulo the
  distance of the fragments; creating a mapping
  translates exactly the requested pages as requested, removing one unmaps exactly its pages when it
  starts at the start of a page, and both keep the tables a tree. For the control of CPUs: a suspended CPU
  runs no guest code in any interleaving, a suspension ends unless a power-on request comes in between, a
  started cell runs its first CPU from the reset address, and \<open>CPU_ON\<close> starts a CPU as requested. For the management of cells:
  on the conditions below, creation, start, loading, destruction and every other hypercall return and keep \<open>hv_ok\<close>, also when they fail; a
  change to one cell leaves the memory map of every other cell but the root cell as it is; a cell other than the
  root cell cannot manage cells; destruction gives the CPUs back to the root cell; the CPUs that shut the
  hypervisor down agree on the outcome, also when the number of cells changes between their calls. The conditions: \<open>env_ok\<close> says that
  the sizes of the structures fit their 32-bit counters and that a unit keeps to the tables and pages of the cell it is called for; \<open>desc_ok\<close> that
  a new configuration has a CPU set and a size below 4 GB and that its regions consist of whole pages, so that sub-page regions are left out;
  \<open>answers\<close> that a cell that can refuse a request answers it or has a timeout: the code waits without bound otherwise. The theorems that name a defect state what
  the code does, e.g. a misaligned aligned allocation, huge pages above 4 GiB that move when they are split, a
  suspension that hangs, a start that is lost, a spinning \<open>DPREM_begin_memory_phase\<close> in an interrupt handler, a ceiling lost by
  \<open>ReleaseResource\<close>, an alarm lost when it is set again during its notification.

  \<^bold>\<open>Modelling choices.\<close> Machine integers are words of the width of the source. An array access out of
  bounds and the use of NULL are the value \<open>None\<close>. Loops that may not end are \<open>partial_function (option)\<close>
  and their termination is a theorem where the code ends. The only fuel is in
  \<open>osEE_counter_increment\<close>: it bounds the chain of counters that drive each other, and any number above
  the rank of the counter in an acyclic chain is enough. The hypervisor's locks are not modelled: every
  arbiter operation runs under its spin lock and is one step; a management hypercall runs with the other CPUs
  of the root cell suspended and is one step too. The kernel is configured as the guest of
  the repository builds it: one core, dynamic task creation, linked-list ready queue, events, resources;
  no hooks, tracing, service protection or stack monitoring; parameter checks are the argument \<open>chk\<close>.

  \<^bold>\<open>Not modelled.\<close> Schedule tables, spin locks and multi-core services of the kernel (compiled out in the
  single-core configuration), the set-up of the hypervisor's own page tables, the temporary mappings of guest
  memory and the flush of data caches, the GICv3 driver, boot and trap assembly, drivers, the Linux module and the tools,
  and the ports to other processors: they either only move data between hardware registers and the
  parts above, or do not belong to the target of the repository.
\<close>

section \<open>A guest core between its interrupts and its hypervisor\<close>

text \<open>
  The steps of a guest core: whoever runs calls a service or a DPREM primitive, returns from its task
  function, or resumes inside a service; an ISR2 starts when interrupts are enabled and its handler is
  not active; the handlers of the two arbitration interrupts run; and the hypervisor state changes under
  the core (\<open>world\<close>); a tick (\<open>tick\<close>) comes with the counters and alarms around the kernel. \<open>chk\<close> is OSEE_HAS_CHECKS, \<open>beg\<close> and \<open>fin\<close> are the two hypercalls. The guards
  are the calling conventions of the services when \<open>chk\<close> is off.
\<close>

inductive kstep :: "bool \<Rightarrow> ('h \<Rightarrow> 'h \<times> arb_result) \<Rightarrow> ('h \<Rightarrow> 'h \<times> arb_result) \<Rightarrow> 'h \<times> kern \<Rightarrow> 'h \<times> kern \<Rightarrow> bool"
  for chk beg fin where
  world: "kstep chk beg fin (h, s) (h', s)"
| resume: "\<forall>b. conts s (p_curr s) \<noteq> C_DPREM b \<Longrightarrow> kstep chk beg fin (h, s) (h, resume_current s)"
| activate: "calls s \<Longrightarrow> ActivateTask t s = Some (s', r) \<Longrightarrow> kstep chk beg fin (h, s) (h, s')"
| terminate: "calls s \<Longrightarrow> p_stk_sn s \<noteq> [] \<Longrightarrow> TerminateTask chk s = Some (s', r) \<Longrightarrow> kstep chk beg fin (h, s) (h, s')"
| chain: "calls s \<Longrightarrow> p_stk_sn s \<noteq> [] \<Longrightarrow> ChainTask chk t s = Some (s', r) \<Longrightarrow> kstep chk beg fin (h, s) (h, s')"
| return: "calls s \<Longrightarrow> p_stk_sn s \<noteq> [] \<Longrightarrow> osEE_scheduler_task_not_terminated (p_curr s) s = Some s' \<Longrightarrow> kstep chk beg fin (h, s) (h, s')"
| schedule: "calls s \<Longrightarrow> Schedule chk s = Some (s', r) \<Longrightarrow> kstep chk beg fin (h, s) (h, s')"
| get_resource: "calls s \<Longrightarrow> GetResource chk m s = (s', e) \<Longrightarrow> kstep chk beg fin (h, s) (h, s')"
| release_resource: "calls s \<Longrightarrow> chk \<or> p_last_m (tcbs s (p_curr s)) \<noteq> None \<Longrightarrow> ReleaseResource chk m s = Some (s', r) \<Longrightarrow>
    kstep chk beg fin (h, s) (h, s')"
| wait_event: "calls s \<Longrightarrow> p_stk_sn s \<noteq> [] \<Longrightarrow> chk \<or> task_type (tdbs s (p_curr s)) = OSEE_TASK_TYPE_EXTENDED \<Longrightarrow>
    WaitEvent chk Mask s = Some (s', r) \<Longrightarrow> kstep chk beg fin (h, s) (h, s')"
| set_event: "calls s \<Longrightarrow> SetEvent chk t Mask s = Some (s', r) \<Longrightarrow> kstep chk beg fin (h, s) (h, s')"
| clear_event: "calls s \<Longrightarrow> ClearEvent chk Mask s = (s', e) \<Longrightarrow> kstep chk beg fin (h, s) (h, s')"
| interrupts: "calls s \<Longrightarrow> s_isr_all_cnt s < OSEE_MAX_BYTE \<Longrightarrow> s_isr_os_cnt s < OSEE_MAX_BYTE \<Longrightarrow>
    s' \<in> {DisableAllInterrupts s, EnableAllInterrupts s, SuspendAllInterrupts s, ResumeAllInterrupts s,
      SuspendOSInterrupts s, ResumeOSInterrupts s} \<Longrightarrow> kstep chk beg fin (h, s) (h, s')"
| tick: "calls (ker cs) \<Longrightarrow> benign cb \<Longrightarrow> cinv {} cs \<Longrightarrow> ranked r cs \<Longrightarrow> \<forall>c<free_counter_index cs. r c < fuel \<Longrightarrow>
    IncrementCounter chk cb fuel c cs = Some (cs', e) \<Longrightarrow> kstep chk beg fin (h, ker cs) (h, ker cs')"
| isr2: "calls s \<Longrightarrow> \<not> irq_masked s \<Longrightarrow> i < free_task_index s \<Longrightarrow> task_type (tdbs s i) = OSEE_TASK_TYPE_ISR2 \<Longrightarrow>
    current_num_of_act (tcbs s i) = 0 \<Longrightarrow> 0 < max_num_of_act (tdbs s i) \<Longrightarrow> osEE_activate_isr2 i irqn s = Some s' \<Longrightarrow>
    kstep chk beg fin (h, s) (h, s')"
| started: "calls s \<Longrightarrow> in_isr s \<Longrightarrow> kstep chk beg fin (h, s) (h, memory_phase_started_ISR s)"
| ended: "calls s \<Longrightarrow> in_isr s \<Longrightarrow> kstep chk beg fin (h, s) (h, memory_phase_ended_ISR s)"
| begin_memory: "can_begin s \<Longrightarrow> DPREM_begin_memory_phase beg h s = Some (h', s', b) \<Longrightarrow> kstep chk beg fin (h, s) (h', s')"
| resume_memory: "conts s (p_curr s) = C_DPREM flags \<Longrightarrow> p_stk_sn s = x # xs \<Longrightarrow> sn_regular s x \<Longrightarrow>
    begin_resume beg flags h s = Some (h', s', b) \<Longrightarrow> kstep chk beg fin (h, s) (h', s')"
| end_memory: "calls s \<Longrightarrow> DPREM_end_memory_phase fin h s = (h', s', b) \<Longrightarrow> kstep chk beg fin (h, s) (h', s')"
| end_execution: "calls s \<Longrightarrow> p_stk_sn s \<noteq> [] \<Longrightarrow> kstep chk beg fin (h, s) (h, DPREM_end_execution_phase flags s)"

lemma begin_memory_inv:
  assumes "can_begin s" "DPREM_begin_memory_phase beg h s = Some (h', s', b)"
  shows "kinv s'"
proof -
  obtain g u c where g: "begin_loop beg (irq_masked s) h (s\<lparr>irq_masked := True\<rparr>) = Some (g, u, c)"
    "begin_finish (irq_masked s) (g, u, c) = (h', s', b)"
    using assms(2) by (auto simp: DPREM_begin_memory_phase_def bind_eq_Some_conv)
  have "begun (g, u, c)" by (rule begin_loop_inv [OF g(1)]) (use assms(1) in simp)
  then have "kinv u" by (simp add: begun_def)
  from begin_finish_inv [OF this, of "irq_masked s" g c] g(2) show ?thesis by simp
qed

lemma resume_memory_inv:
  assumes k: "kinv s" and c: "conts s (p_curr s) = C_DPREM flags" "p_stk_sn s = x # xs" "sn_regular s x"
    and r: "begin_resume beg flags h s = Some (h', s', b)"
  shows "kinv s'"
proof -
  let ?s = "s\<lparr>conts := (conts s)(p_curr s := C_NONE)\<rparr>"
  have "waits_ok s" using k by (simp add: kinv_def krun_def)
  then have "kinv ?s" using c(1) by (intro kinv_conts [OF k]) (auto simp: waits_ok_def)
  then have cb: "can_begin ?s" using c by (simp add: can_begin_def)
  obtain g u d where g: "begin_loop beg flags h ?s = Some (g, u, d)" "begin_finish flags (g, u, d) = (h', s', b)"
    using r by (auto simp: begin_resume_def bind_eq_Some_conv)
  have "kinv u" using begin_loop_inv [OF g(1) cb] by (simp add: begun_def)
  from begin_finish_inv [OF this, of flags g d] g(2) show ?thesis by simp
qed

lemma isr2_inv:
  assumes c: "calls s" and i: "i < free_task_index s" "current_num_of_act (tcbs s i) = 0" "0 < max_num_of_act (tdbs s i)"
  obtains s' where "osEE_activate_isr2 i irqn s = Some s'" "kinv s'" "p_curr s' = i"
proof -
  note k = calls_dest(3) [OF c]
  have "status (tcbs s i) = OSEE_TASK_SUSPENDED" using kinv_core_task(1,3) [OF k i(1)] i(2) by simp
  then have "wait_mask (tcbs s i) = 0" using kinv_core_task(7) [OF k i(1)] by (auto simp: wait_ok_def)
  then show ?thesis using activate_isr2_inv [OF calls_dest(1) [OF c] i(1)] i(2,3) that by (metis (no_types))
qed

lemma kstep_kinv:
  assumes "kstep chk beg fin x y" "kinv (snd x)"
  shows "kinv (snd y)"
  using assms
proof (induction rule: kstep.induct)
  case (world h s h')
  then show ?case by simp
next
  case (resume s h)
  then show ?case by (simp add: resume_current_inv)
next
  case (activate s t s' r h)
  then show ?case using ActivateTask_returns [of s t] by (metis option.inject prod.inject snd_conv)
next
  case (terminate s s' r h)
  then show ?case using TerminateTask_returns [of s chk] by (metis option.inject prod.inject snd_conv)
next
  case (chain s t s' r h)
  then show ?case using ChainTask_returns [of s chk t] by (metis option.inject prod.inject snd_conv)
next
  case (return s s' h)
  then show ?case by (simp add: not_terminated_inv)
next
  case (schedule s s' r h)
  then show ?case using Schedule_inv [of s chk] by (metis option.inject prod.inject snd_conv)
next
  case (get_resource s m s' e h)
  then show ?case using GetResource_inv [of s chk m] by simp
next
  case (release_resource s m s' r h)
  then show ?case using ReleaseResource_inv [of s chk m] by (metis option.inject prod.inject snd_conv)
next
  case (wait_event s Mask s' r h)
  then show ?case using WaitEvent_inv [of s chk Mask] by (metis option.inject prod.inject snd_conv)
next
  case (set_event s t Mask s' r h)
  then show ?case using SetEvent_inv [of s chk t Mask] by (metis option.inject prod.inject snd_conv)
next
  case (clear_event s Mask s' e h)
  then show ?case using ClearEvent_inv [of s chk Mask] by simp
next
  case (interrupts s s' h)
  then show ?case using interrupt_services_inv [of s] by auto
next
  case (tick cs cb r fuel c cs' e h)
  then show ?case using IncrementCounter_inv [of cb cs r fuel chk c] by (metis option.inject prod.inject snd_conv)
next
  case (isr2 s i irqn s' h)
  then show ?case using isr2_inv [of s i irqn] by (metis option.inject snd_conv)
next
  case (started s h)
  then show ?case by (simp add: isr_handlers_inv)
next
  case (ended s h)
  then show ?case by (simp add: isr_handlers_inv)
next
  case (begin_memory s h h' s' b)
  then show ?case using begin_memory_inv by fastforce
next
  case (resume_memory s flags x xs h h' s' b)
  then show ?case using resume_memory_inv by fastforce
next
  case (end_memory s h h' s' b)
  then show ?case by (auto simp: DPREM_end_memory_phase_def case_prod_beta split: if_splits)
next
  case (end_execution s h flags)
  then show ?case by (simp add: end_execution_inv)
qed

text \<open>
  C2: every state a guest core reaches, by whatever mix of services, interrupts and memory phases and
  whatever the hypervisor answers, is consistent (every scheduler node is in exactly one place, the
  activation counters count the nodes, the top of the stack runs), and no service called there
  dereferences NULL or runs out of scheduler nodes.
\<close>

theorem kernel_reachable_consistent:
  assumes reach: "(kstep chk beg fin)\<^sup>*\<^sup>* (h0, s0) (h, s)" and init: "kinv s0"
  shows "kinv s \<and> (calls s \<longrightarrow>
    (\<forall>t. ActivateTask t s \<noteq> None) \<and> Schedule chk s \<noteq> None \<and> (\<forall>t Mask. SetEvent chk t Mask s \<noteq> None) \<and>
    (\<forall>i irqn. i < free_task_index s \<and> current_num_of_act (tcbs s i) = 0 \<and> 0 < max_num_of_act (tdbs s i) \<longrightarrow> osEE_activate_isr2 i irqn s \<noteq> None) \<and>
    (p_stk_sn s \<noteq> [] \<longrightarrow> TerminateTask chk s \<noteq> None \<and> (\<forall>t. ChainTask chk t s \<noteq> None) \<and>
       (chk \<longrightarrow> (\<forall>Mask. WaitEvent chk Mask s \<noteq> None) \<and> (\<forall>m. ReleaseResource chk m s \<noteq> None))))"
proof -
  have "kinv (snd (h, s))" using reach init
    by (induction "(h, s)" arbitrary: h s rule: rtranclp_induct) (auto dest: kstep_kinv)
  moreover have "ActivateTask t s \<noteq> None" if "calls s" for t by (rule ActivateTask_returns [OF that, of t]) simp
  moreover have "Schedule chk s \<noteq> None" if "calls s" by (rule Schedule_inv [OF that, of chk]) simp
  moreover have "SetEvent chk t Mask s \<noteq> None" if "calls s" for t Mask by (rule SetEvent_inv [OF that, of chk t Mask]) simp
  moreover have "osEE_activate_isr2 i irqn s \<noteq> None"
    if "calls s" "i < free_task_index s" "current_num_of_act (tcbs s i) = 0" "0 < max_num_of_act (tdbs s i)" for i irqn
    by (rule isr2_inv [OF that, of irqn]) simp
  moreover have "TerminateTask chk s \<noteq> None" if "calls s" "p_stk_sn s \<noteq> []" by (rule TerminateTask_returns [OF that, of chk]) simp
  moreover have "ChainTask chk t s \<noteq> None" if "calls s" "p_stk_sn s \<noteq> []" for t by (rule ChainTask_returns [OF that, of chk t]) simp
  moreover have "WaitEvent chk Mask s \<noteq> None" if "calls s" "p_stk_sn s \<noteq> []" chk for Mask
    by (rule WaitEvent_inv [OF that(1,2), of chk Mask]) (use that(3) in simp_all)
  moreover have "ReleaseResource chk m s \<noteq> None" if "calls s" chk for m
    by (rule ReleaseResource_inv [OF that(1), of chk m]) (use that(2) in simp_all)
  ultimately show ?thesis by (intro conjI impI allI; (elim conjE)?; simp)
qed

theorem kernel_reachable_consistent_witness:
  "\<exists>s. (kstep True (\<lambda>u::unit. (u, ARB_NACK)) (\<lambda>u. (u, ARB_ACK)))\<^sup>*\<^sup>* ((), demo_kern) ((), s) \<and> p_curr s = 1 \<and> kinv s"
proof -
  obtain s' r where r: "ActivateTask 1 demo_kern = Some (s', r)" by (rule ActivateTask_returns [OF demo_calls])
  then have s': "s' = demo_ext" by (simp add: demo_ext_def)
  have "kstep True (\<lambda>u::unit. (u, ARB_NACK)) (\<lambda>u. (u, ARB_ACK)) ((), demo_kern) ((), s')"
    by (rule kstep.activate [OF demo_calls r])
  then have w: "(kstep True (\<lambda>u::unit. (u, ARB_NACK)) (\<lambda>u. (u, ARB_ACK)))\<^sup>*\<^sup>* ((), demo_kern) ((), s')" by blast
  show ?thesis using kernel_reachable_consistent [OF w demo_kinv] w demo_ext_calls(2) s' by blast
qed

section \<open>Memory phases over the fixed-priority arbiter\<close>

text \<open>The hypercall of a guest core on the arbiter; the interrupts it raises are collected.\<close>

definition fp_hvc :: "cell list \<Rightarrow> per_cpu \<Rightarrow> u64 \<Rightarrow> fp_state \<times> sgi_out \<Rightarrow> (fp_state \<times> sgi_out) \<times> arb_result" where
  "fp_hvc cl pc code h =
     (case fixed_priority_hypercall cl 0 0 0 pc code (fst h) of
        Some (a, out, r) \<Rightarrow> ((a, snd h @ out), r) | None \<Rightarrow> (h, ARB_INVALID))"

abbreviation fp_begin where "fp_begin cl pc \<equiv> fp_hvc cl pc JAILHOUSE_MEMORY_ARBITRATION_BEGIN_MEM_PHASE"

abbreviation fp_end where "fp_end cl pc \<equiv> fp_hvc cl pc JAILHOUSE_MEMORY_ARBITRATION_END_MEM_PHASE"

lemma fp_begin_eq:
  assumes "wf_cells cl" "caller_ok cl pc" "fp_reachable cl a"
  obtains a' out where "fp_begin cl pc (a, tr) = ((a', tr @ out), if token_owner a' = cpu_id pc then ARB_ACK else ARB_NACK)"
    "fp_reachable cl a'" "memory_requests a' = (memory_requests a)[cpu_id pc := cell_priority (per_cpu.cpu_cell pc)]"
    "\<forall>p\<in>set out. snd p = SGI_MEMORY_PHASE_ENDED \<and> fst p \<noteq> cpu_id pc"
proof (rule request_memory_spec [OF assms(1,2) fp_reachable_inv [OF assms(3,1)]])
  fix a' out
  assume r: "request_memory pc a = Some (a', out, token_owner a' = cpu_id pc)"
    "memory_requests a' = (memory_requests a)[cpu_id pc := cell_priority (per_cpu.cpu_cell pc)]"
    "token_owner a' = cpu_id pc \<longleftrightarrow> token_owner a = cpu_id pc \<or> cell_priority (per_cpu.cpu_cell pc) \<noteq> 0 \<and>
       (\<forall>j<NUM_REQUESTS. j \<noteq> cpu_id pc \<longrightarrow> memory_requests a ! j < cell_priority (per_cpu.cpu_cell pc))"
    "out = (if token_owner a' \<noteq> token_owner a \<and> token_owner a \<noteq> TOKEN_FREE then [(token_owner a, SGI_MEMORY_PHASE_ENDED)] else [])"
    "token_owner a' = cpu_id pc \<or> token_owner a' = token_owner a"
  have h: "fixed_priority_hypercall cl 0 0 0 pc JAILHOUSE_MEMORY_ARBITRATION_BEGIN_MEM_PHASE a =
      Some (a', out, if token_owner a' = cpu_id pc then ARB_ACK else ARB_NACK)"
    using r(1) by (simp add: fixed_priority_hypercall_def)
  then have "fp_reachable cl a'" using assms(2,3) by (blast intro: fp_next fp_hyper)
  then show ?thesis using h r(2,4,5) by (intro that [of a' out]) (auto simp: fp_hvc_def split: if_splits)
qed

lemma fp_end_eq:
  assumes "wf_cells cl" "caller_ok cl pc" "fp_reachable cl a"
  obtains a' out where "fp_end cl pc (a, tr) = ((a', tr @ out), ARB_ACK)" "fp_reachable cl a'" "token_owner a' \<noteq> cpu_id pc"
    "memory_requests a' = (memory_requests a)[cpu_id pc := 0]"
    "out = (if token_owner a = cpu_id pc \<and> token_owner a' \<noteq> TOKEN_FREE then [(token_owner a', SGI_MEMORY_PHASE_STARTED)] else [])"
proof (rule disable_memory_request_spec [OF assms(1) fp_reachable_inv [OF assms(3,1)] caller_ok_range [OF assms(1,2)]])
  fix a' out
  assume r: "disable_memory_request cl (cpu_id pc) a = Some (a', out)" "token_owner a' \<noteq> cpu_id pc"
    "memory_requests a' = (memory_requests a)[cpu_id pc := 0]"
    "out = (if token_owner a = cpu_id pc \<and> token_owner a' \<noteq> TOKEN_FREE then [(token_owner a', SGI_MEMORY_PHASE_STARTED)] else [])"
  have h: "fixed_priority_hypercall cl 0 0 0 pc JAILHOUSE_MEMORY_ARBITRATION_END_MEM_PHASE a = Some (a', out, ARB_ACK)"
    using r(1) by (simp add: fixed_priority_hypercall_def arb_consts)
  then have "fp_reachable cl a'" using assms(2,3) by (blast intro: fp_next fp_hyper)
  then show ?thesis using h r(2-4) by (intro that [of a' out]) (simp_all add: fp_hvc_def)
qed

text \<open>
  C3: a memory phase of a task over the fixed-priority arbiter. \<open>DPREM_begin_memory_phase\<close> with no request
  of the core pending always leaves the guest and the arbiter in agreement: it returns exactly when the
  core owns the token, at the ceiling priority, and otherwise the task is suspended, the request is
  registered and the core runs another task. From a phase that holds the token,
  \<open>DPREM_end_memory_phase\<close> gives it back: the core neither owns nor requests it, and the next owner,
  if any, is told.
\<close>

theorem memory_phase_over_fixed_priority:
  assumes wf: "wf_cells cl" "caller_ok cl pc" "fp_reachable cl a"
    and s: "can_begin s" "mem_arbit s = MEMORY_TOKEN_NONE"
  shows "\<exists>a' out s' b. DPREM_begin_memory_phase (fp_begin cl pc) (a, tr) s = Some ((a', tr @ out), s', b) \<and>
      fp_reachable cl a' \<and> kinv s' \<and> memory_requests a' ! cpu_id pc = cell_priority (per_cpu.cpu_cell pc) \<and>
      (b \<longleftrightarrow> token_owner a' = cpu_id pc) \<and>
      mem_arbit s' = (if b then MEMORY_TOKEN_ACQUIRED else MEMORY_TOKEN_REQUESTED) \<and>
      (b \<longrightarrow> p_curr s' = p_curr s \<and> current_prio (tcbs s' (p_curr s)) = MAX_TASK_PRIORITY \<and> irq_masked s' = irq_masked s) \<and>
      (\<not> b \<longrightarrow> hd (p_stk_sn s) \<in> set (p_suspended_sn s')) \<and>
      (b \<longrightarrow> (\<exists>a'' out'. DPREM_end_memory_phase (fp_end cl pc) (a', tr @ out) s' =
         ((a'', tr @ out @ out'), s'\<lparr>irq_masked := True, mem_arbit := MEMORY_TOKEN_NONE\<rparr>, irq_masked s') \<and>
         token_owner a'' \<noteq> cpu_id pc \<and> memory_requests a'' ! cpu_id pc = 0 \<and>
         out' = (if token_owner a'' \<noteq> TOKEN_FREE then [(token_owner a'', SGI_MEMORY_PHASE_STARTED)] else [])))"
proof -
  obtain a' out where b: "fp_begin cl pc (a, tr) = ((a', tr @ out), if token_owner a' = cpu_id pc then ARB_ACK else ARB_NACK)"
    "fp_reachable cl a'" "memory_requests a' = (memory_requests a)[cpu_id pc := cell_priority (per_cpu.cpu_cell pc)]"
    by (rule fp_begin_eq [OF wf]) blast
  have len: "length (memory_requests a) = NUM_REQUESTS" "cpu_id pc < NUM_REQUESTS"
    using fp_inv_length [OF fp_reachable_inv [OF wf(3,1)]] caller_ok_range [OF wf(1,2)] by simp_all
  obtain x xs where x: "kinv s" "conts s (p_curr s) = C_NONE" "p_stk_sn s = x # xs" "sn_regular s x" using s(1) by (auto simp: can_begin_def)
  let ?s = "s\<lparr>irq_masked := True\<rparr>" and ?w = "token_owner a' = cpu_id pc"
  let ?m = "if ?w then MEMORY_TOKEN_ACQUIRED else MEMORY_TOKEN_REQUESTED"
  have step: "begin_loop (fp_begin cl pc) (irq_masked s) (a, tr) ?s =
      begin_loop (fp_begin cl pc) (irq_masked s) (a', tr @ out) (?s\<lparr>mem_arbit := ?m\<rparr>)"
    using begin_loop_request [of ?s "fp_begin cl pc", OF _ b(1)] s(2) by simp
  have run: "DPREM_begin_memory_phase (fp_begin cl pc) (a, tr) s =
      begin_loop (fp_begin cl pc) (irq_masked s) (a', tr @ out) (?s\<lparr>mem_arbit := ?m\<rparr>) \<bind> (\<lambda>r. Some (begin_finish (irq_masked s) r))"
    by (simp add: DPREM_begin_memory_phase_def step)
  show ?thesis
  proof (cases ?w)
    case True
    define s' where "s' = osEE_end_primitive (irq_masked s) (upd_tcb (p_curr s) (\<lambda>c. c\<lparr>current_prio := MAX_TASK_PRIORITY\<rparr>) (?s\<lparr>mem_arbit := MEMORY_TOKEN_ACQUIRED\<rparr>))"
    have r: "DPREM_begin_memory_phase (fp_begin cl pc) (a, tr) s = Some ((a', tr @ out), s', True)"
      using True by (simp add: run begin_loop_acquired begin_finish_def s'_def)
    have k: "kinv s'" using kinv_prio [of "?s\<lparr>mem_arbit := MEMORY_TOKEN_ACQUIRED\<rparr>"] x(1) by (simp add: s'_def)
    obtain a'' out' where e: "fp_end cl pc (a', tr @ out) = ((a'', (tr @ out) @ out'), ARB_ACK)" "token_owner a'' \<noteq> cpu_id pc"
      "memory_requests a'' = (memory_requests a')[cpu_id pc := 0]"
      "out' = (if token_owner a' = cpu_id pc \<and> token_owner a'' \<noteq> TOKEN_FREE then [(token_owner a'', SGI_MEMORY_PHASE_STARTED)] else [])"
      by (rule fp_end_eq [OF wf(1,2) b(2), of "tr @ out"]) blast
    have f: "p_curr s' = p_curr s" "current_prio (tcbs s' (p_curr s)) = MAX_TASK_PRIORITY" "irq_masked s' = irq_masked s" "mem_arbit s' = MEMORY_TOKEN_ACQUIRED"
      by (simp_all add: s'_def osEE_end_primitive_def)
    have "DPREM_end_memory_phase (fp_end cl pc) (a', tr @ out) s' =
        ((a'', tr @ out @ out'), s'\<lparr>irq_masked := True, mem_arbit := MEMORY_TOKEN_NONE\<rparr>, irq_masked s')"
      using e(1) by (simp add: DPREM_end_memory_phase_def)
    then show ?thesis using r b(2,3) len k f e True by (intro exI [of _ a'] exI [of _ out] exI [of _ s'] exI [of _ True]) auto
  next
    case False
    let ?u = "?s\<lparr>mem_arbit := MEMORY_TOKEN_REQUESTED\<rparr>"
    obtain s' where s': "DPREM_suspend_running_task (irq_masked s) ?u = Some (s', True)" "kinv s'"
      "p_suspended_sn s' = x # p_suspended_sn ?u" "mem_arbit s' = mem_arbit ?u"
      by (rule suspend_running_inv [of ?u x xs "irq_masked s"]) (use x in simp_all)
    have "DPREM_begin_memory_phase (fp_begin cl pc) (a, tr) s = Some ((a', tr @ out), s', False)"
      using False s'(1) begin_loop_suspend [of ?u "irq_masked s" s' "fp_begin cl pc" "(a', tr @ out)"] by (simp add: run begin_finish_def)
    then show ?thesis using b(2,3) len s' x(3) False
      by (intro exI [of _ a'] exI [of _ out] exI [of _ s'] exI [of _ False]) simp
  qed
qed

lemma demo_can_begin: "can_begin demo_kern" "mem_arbit demo_kern = MEMORY_TOKEN_NONE"
  using demo_calls by (auto simp: can_begin_def calls_def) (simp_all add: demo_kern_def is_regular_def)

theorem memory_phase_over_fixed_priority_witness:
  "\<exists>h s' b. DPREM_begin_memory_phase (fp_begin demo_cells (demo_cpu 1)) (fp_init, []) demo_kern = Some (h, s', b) \<and>
     kinv s' \<and> (b \<longleftrightarrow> token_owner (fst h) = 1)"
  using memory_phase_over_fixed_priority [OF demo_wf demo_caller fp_start demo_can_begin, of 1 "[]"]
  by (fastforce simp: demo_cpu_def)

text \<open>
  C40: a resource taken and released inside a memory phase ends the ceiling of the phase: the task still
  holds the token but is back at its dispatch priority, where other tasks can preempt it.
\<close>

theorem memory_phase_resource_drops_ceiling:
  assumes c: "calls s" "p_stk_sn s \<noteq> []" and ph: "mem_arbit s = MEMORY_TOKEN_ACQUIRED"
      "current_prio (tcbs s (p_curr s)) = MAX_TASK_PRIORITY" "p_last_m (tcbs s (p_curr s)) = None"
    and m: "m < free_res_index s" "m_owner (resources s m) = None" "ready_prio (tdbs s (p_curr s)) \<le> m_prio (resources s m)"
    and q: "\<forall>x\<in>set (rq s). sn_tdb s x \<noteq> p_curr s \<and> current_prio (tcbs s (sn_tdb s x)) \<le> dispatch_prio (tdbs s (p_curr s))"
  shows "\<exists>s1 s2. GetResource chk m s = (s1, E_OK) \<and> MAX_TASK_PRIORITY \<le> current_prio (tcbs s1 (p_curr s)) \<and>
    ReleaseResource chk m s1 = Some (s2, Some E_OK) \<and> p_curr s2 = p_curr s \<and> mem_arbit s2 = MEMORY_TOKEN_ACQUIRED \<and>
    current_prio (tcbs s2 (p_curr s)) = dispatch_prio (tdbs s (p_curr s))"
proof -
  have "\<forall>x\<in>set (rq s). sn_tdb s x \<noteq> p_curr s \<and> current_prio (tcbs s (sn_tdb s x)) \<le>
      (if p_last_m (tcbs s (p_curr s)) = None then dispatch_prio (tdbs s (p_curr s)) else current_prio (tcbs s (p_curr s)))"
    using q ph(3) by simp
  from resource_roundtrip [OF c m this, of chk] ph show ?thesis by auto
qed

theorem memory_phase_resource_drops_ceiling_witness:
  "\<exists>s1 s2. GetResource True 0 (upd_tcb 0 (\<lambda>c. c\<lparr>current_prio := MAX_TASK_PRIORITY\<rparr>) demo_kern\<lparr>mem_arbit := MEMORY_TOKEN_ACQUIRED\<rparr>) = (s1, E_OK) \<and>
     ReleaseResource True 0 s1 = Some (s2, Some E_OK) \<and> mem_arbit s2 = MEMORY_TOKEN_ACQUIRED \<and> current_prio (tcbs s2 0) = 1"
proof -
  let ?s = "upd_tcb 0 (\<lambda>c. c\<lparr>current_prio := MAX_TASK_PRIORITY\<rparr>) demo_kern\<lparr>mem_arbit := MEMORY_TOKEN_ACQUIRED\<rparr>"
  have c: "calls ?s" using demo_calls kinv_prio [OF demo_kinv] by (simp add: calls_def)
  have f: "p_stk_sn ?s \<noteq> []" "mem_arbit ?s = MEMORY_TOKEN_ACQUIRED" "current_prio (tcbs ?s (p_curr ?s)) = MAX_TASK_PRIORITY"
    "p_last_m (tcbs ?s (p_curr ?s)) = None" "0 < free_res_index ?s" "m_owner (resources ?s 0) = None"
    "ready_prio (tdbs ?s (p_curr ?s)) \<le> m_prio (resources ?s 0)"
    "\<forall>x\<in>set (rq ?s). sn_tdb ?s x \<noteq> p_curr ?s \<and> current_prio (tcbs ?s (sn_tdb ?s x)) \<le> dispatch_prio (tdbs ?s (p_curr ?s))"
    by (simp_all add: demo_kern_def upd_tcb_def)
  have g: "p_curr ?s = 0" "dispatch_prio (tdbs ?s 0) = 1" by (simp_all add: demo_kern_def)
  show ?thesis using memory_phase_resource_drops_ceiling [OF c f, of True, unfolded g] by blast
qed

end
